(* ===== verification/Prelude.thy ===== *)
theory Prelude
  imports Main "HOL-Library.Word"
begin

text \<open>
  Shared vocabulary of the development: machine types, Rust's \<open>Result\<close> as a sum with
  its sequencing operator, the checked \<open>usize\<close> arithmetic of the standard library,
  big-endian byte encodings of words, and the generic lemmas on lists, words and
  results that the component theories use through the collections
  \<open>result_simps\<close>, \<open>usize_simps\<close> and \<open>byte_simps\<close>.
\<close>

unbundle bit_operations_syntax

section \<open>Machine types\<close>

type_synonym byte = "8 word"
type_synonym u16 = "16 word"
type_synonym u32 = "32 word"
type_synonym u64 = "64 word"

named_theorems result_simps \<open>facts about the result type\<close>
named_theorems usize_simps \<open>checked usize arithmetic\<close>
named_theorems byte_simps \<open>byte encodings of words\<close>

section \<open>Results\<close>

text \<open>
  A fallible Rust function returning \<open>Result<T, E>\<close> is a function into \<open>'e + 'a\<close>:
  \<open>Inl\<close> is \<open>Err\<close>, \<open>Inr\<close> is \<open>Ok\<close>. The \<open>?\<close> operator is \<open>bind_r\<close>.
\<close>

definition bind_r :: "'e + 'a \<Rightarrow> ('a \<Rightarrow> 'e + 'b) \<Rightarrow> 'e + 'b" where
  "bind_r m f = (case m of Inl e \<Rightarrow> Inl e | Inr x \<Rightarrow> f x)"

definition ensure_r :: "bool \<Rightarrow> 'e \<Rightarrow> 'e + unit" where
  "ensure_r b e = (if b then Inr () else Inl e)"

definition ok_or :: "'a option \<Rightarrow> 'e \<Rightarrow> 'e + 'a" where
  "ok_or x e = (case x of None \<Rightarrow> Inl e | Some v \<Rightarrow> Inr v)"

definition map_r :: "('a \<Rightarrow> 'b) \<Rightarrow> 'e + 'a \<Rightarrow> 'e + 'b" where
  "map_r f m = (case m of Inl e \<Rightarrow> Inl e | Inr x \<Rightarrow> Inr (f x))"

lemma bind_r_simps [simp]:
  "bind_r (Inl e) f = Inl e" "bind_r (Inr x) f = f x"
  by (simp_all add: bind_r_def)

lemma map_r_simps [simp]:
  "map_r f (Inl e) = Inl e" "map_r f (Inr x) = Inr (f x)"
  by (simp_all add: map_r_def)

lemma bind_r_Inr_iff [result_simps]:
  "bind_r m f = Inr y \<longleftrightarrow> (\<exists>x. m = Inr x \<and> f x = Inr y)"
  by (cases m) simp_all

lemma bind_r_Inl_iff [result_simps]:
  "bind_r m f = Inl e \<longleftrightarrow> m = Inl e \<or> (\<exists>x. m = Inr x \<and> f x = Inl e)"
  by (cases m) simp_all

lemma map_r_Inr_iff [result_simps]: "map_r f m = Inr y \<longleftrightarrow> (\<exists>x. m = Inr x \<and> f x = y)"
  by (cases m) simp_all

lemma map_r_Inl_iff [result_simps]: "map_r f m = Inl e \<longleftrightarrow> m = Inl e"
  by (cases m) simp_all

lemma bind_r_assoc: "bind_r (bind_r m f) g = bind_r m (\<lambda>x. bind_r (f x) g)"
  by (cases m) simp_all

lemma bind_r_cong [fundef_cong]:
  "m = m' \<Longrightarrow> (\<And>x. m' = Inr x \<Longrightarrow> f x = g x) \<Longrightarrow> bind_r m f = bind_r m' g"
  by (cases m') simp_all

lemma ensure_r_simps [simp]:
  "ensure_r True e = Inr ()" "ensure_r False e = Inl e"
  by (simp_all add: ensure_r_def)

lemma ensure_r_Inr_iff [result_simps]: "ensure_r b e = Inr u \<longleftrightarrow> b"
  by (simp add: ensure_r_def)

lemma ensure_r_Inl_iff [result_simps]: "ensure_r b e = Inl e' \<longleftrightarrow> \<not> b \<and> e' = e"
  by (auto simp: ensure_r_def)

lemma ok_or_simps [simp]:
  "ok_or None e = Inl e" "ok_or (Some v) e = Inr v"
  by (simp_all add: ok_or_def)

lemma ok_or_Inr_iff [result_simps]: "ok_or x e = Inr v \<longleftrightarrow> x = Some v"
  by (cases x) simp_all

lemma ok_or_Inl_iff [result_simps]: "ok_or x e = Inl e' \<longleftrightarrow> x = None \<and> e' = e"
  by (cases x) auto

text \<open>
  A function with an \<open>&mut usize\<close> byte budget returns the budget next to its result, on errors too.
\<close>

definition bind_b :: "('e + 'a) \<times> nat \<Rightarrow> ('a \<Rightarrow> nat \<Rightarrow> ('e + 'b) \<times> nat) \<Rightarrow> ('e + 'b) \<times> nat" where
  "bind_b m f = (case m of (Inl e, budget) \<Rightarrow> (Inl e, budget) | (Inr x, budget) \<Rightarrow> f x budget)"

lemma bind_b_simps [simp]:
  "bind_b (Inl e, budget) f = (Inl e, budget)" "bind_b (Inr x, budget) f = f x budget"
  by (simp_all add: bind_b_def)

lemma bind_b_Inr_iff [result_simps]:
  "bind_b m f = (Inr y, left) \<longleftrightarrow> (\<exists>x budget. m = (Inr x, budget) \<and> f x budget = (Inr y, left))"
  by (cases m rule: prod.exhaust; cases "fst m") (auto simp: bind_b_def split: sum.splits)

section \<open>Checked usize arithmetic\<close>

text \<open>
  \<open>usize\<close> is 64 bits wide on every supported target. Its values are naturals; the
  overflow of the checked operations of the standard library is written out.
\<close>

definition USIZE_MAX :: nat where
  "USIZE_MAX = 18446744073709551615"

definition checked_add :: "nat \<Rightarrow> nat \<Rightarrow> nat option" where
  "checked_add a b = (if a + b \<le> USIZE_MAX then Some (a + b) else None)"

definition checked_mul :: "nat \<Rightarrow> nat \<Rightarrow> nat option" where
  "checked_mul a b = (if a * b \<le> USIZE_MAX then Some (a * b) else None)"

definition checked_sub :: "nat \<Rightarrow> nat \<Rightarrow> nat option" where
  "checked_sub a b = (if b \<le> a then Some (a - b) else None)"

definition div_ceil :: "nat \<Rightarrow> nat \<Rightarrow> nat" where
  "div_ceil a b = a div b + (if a mod b = 0 then 0 else 1)"

lemma checked_add_Some [usize_simps]:
  "checked_add a b = Some c \<longleftrightarrow> c = a + b \<and> a + b \<le> USIZE_MAX"
  by (auto simp: checked_add_def)

lemma checked_add_None [usize_simps]: "checked_add a b = None \<longleftrightarrow> USIZE_MAX < a + b"
  by (auto simp: checked_add_def)

lemma checked_mul_Some [usize_simps]:
  "checked_mul a b = Some c \<longleftrightarrow> c = a * b \<and> a * b \<le> USIZE_MAX"
  by (auto simp: checked_mul_def)

lemma checked_mul_None [usize_simps]: "checked_mul a b = None \<longleftrightarrow> USIZE_MAX < a * b"
  by (auto simp: checked_mul_def)

lemma checked_sub_Some [usize_simps]:
  "checked_sub a b = Some c \<longleftrightarrow> b \<le> a \<and> c = a - b"
  by (auto simp: checked_sub_def)

lemma div_ceil_le_iff: "0 < b \<Longrightarrow> div_ceil a b \<le> n \<longleftrightarrow> a \<le> n * b"
proof -
  assume b: "0 < b"
  have split: "a = a div b * b + a mod b" by simp
  have lt: "a mod b < b" using b by simp
  show ?thesis
  proof (cases "a mod b = 0")
    case True
    then have "a = a div b * b" using split by simp
    then show ?thesis using b True
      by (simp add: div_ceil_def) (metis mult_le_cancel2)
  next
    case False
    have "a div b + 1 \<le> n \<longleftrightarrow> a div b < n" by auto
    also have "\<dots> \<longleftrightarrow> a < n * b" by (simp add: b div_less_iff_less_mult)
    also have "\<dots> \<longleftrightarrow> a \<le> n * b" using False by (metis le_neq_implies_less mod_mult_self2_is_0 order_less_imp_le)
    finally show ?thesis using False by (simp add: div_ceil_def)
  qed
qed

lemma div_ceil_pos_iff [simp]: "0 < b \<Longrightarrow> 0 < div_ceil a b \<longleftrightarrow> 0 < a"
  using div_ceil_le_iff [of b a 0] by auto

lemma div_ceil_eq: "0 < b \<Longrightarrow> div_ceil a b = (a + b - 1) div b"
proof -
  assume b: "0 < b"
  have "\<And>n. div_ceil a b \<le> n \<longleftrightarrow> (a + b - 1) div b \<le> n"
  proof -
    fix n
    have "(a + b - 1) div b \<le> n \<longleftrightarrow> (a + b - 1) div b < Suc n" by auto
    also have "\<dots> \<longleftrightarrow> a + b - 1 < Suc n * b" by (simp add: b div_less_iff_less_mult)
    also have "\<dots> \<longleftrightarrow> a \<le> n * b" using b by auto
    finally show "div_ceil a b \<le> n \<longleftrightarrow> (a + b - 1) div b \<le> n" by (simp add: div_ceil_le_iff b)
  qed
  then show ?thesis by (meson le_antisym order_refl)
qed

section \<open>Bit lengths\<close>

text \<open>\<open>bit_len n\<close> is the position of the highest set bit, counted from one.\<close>

fun bit_len :: "nat \<Rightarrow> nat" where
  "bit_len n = (if n = 0 then 0 else Suc (bit_len (n div 2)))"

declare bit_len.simps [simp del]

definition leading_zeros :: "'a::len word \<Rightarrow> nat" where
  "leading_zeros w = LENGTH('a) - bit_len (unat w)"

lemma bit_len_le_iff: "bit_len n \<le> k \<longleftrightarrow> n < 2 ^ k"
proof (induction k arbitrary: n)
  case 0
  then show ?case by (simp add: bit_len.simps [of n])
next
  case (Suc k)
  have "n div 2 < 2 ^ k \<longleftrightarrow> n < 2 ^ Suc k" by (simp add: div_less_iff_less_mult mult.commute)
  then show ?case using Suc [of "n div 2"] by (simp add: bit_len.simps [of n])
qed

lemma bit_len_0 [simp]: "bit_len 0 = 0"
  by (simp add: bit_len.simps)

lemma bit_len_eq_0_iff [simp]: "bit_len n = 0 \<longleftrightarrow> n = 0"
  by (simp add: bit_len.simps [of n])

lemma bit_len_pos_iff [simp]: "0 < bit_len n \<longleftrightarrow> 0 < n"
  by (simp only: neq0_conv [symmetric] bit_len_eq_0_iff)

lemma bit_len_word: "bit_len (unat (w :: 'a::len word)) \<le> LENGTH('a)"
  by (simp add: bit_len_le_iff)

lemma length_minus_leading_zeros [simp]:
  "LENGTH('a) - leading_zeros (w :: 'a::len word) = bit_len (unat w)"
  by (simp add: leading_zeros_def bit_len_word)

section \<open>Big-endian byte encodings\<close>

text \<open>
  \<open>to_be_bytes n w\<close> lists the low \<open>n\<close> bytes of a word, the most significant first, and
  \<open>from_be_bytes\<close> reads such a list back; \<open>n\<close> is the word's width in bytes.
\<close>

fun to_be_bytes :: "nat \<Rightarrow> 'a::len word \<Rightarrow> byte list" where
  "to_be_bytes 0 w = []"
| "to_be_bytes (Suc n) w = ucast (drop_bit (8 * n) w) # to_be_bytes n w"

definition from_be_bytes :: "byte list \<Rightarrow> 'a::len word" where
  "from_be_bytes bs = foldl (\<lambda>acc b. push_bit 8 acc OR ucast b) 0 bs"

lemma length_to_be_bytes [simp]: "length (to_be_bytes n w) = n"
  by (induction n) simp_all

lemma take_bit_Suc_byte:
  fixes w :: "'a::len word"
  shows "take_bit (8 * Suc n) w = push_bit (8 * n) (ucast (ucast (drop_bit (8 * n) w) :: byte)) OR take_bit (8 * n) w"
  by (rule bit_eqI) (auto simp: bit_simps)

lemma foldl_be_bytes:
  "foldl (\<lambda>acc b. push_bit 8 acc OR ucast b) a (to_be_bytes n w) =
     push_bit (8 * n) a OR take_bit (8 * n) (w :: 'a::len word)"
proof (induction n arbitrary: a)
  case 0
  then show ?case by simp
next
  case (Suc n)
  show ?case
    by (simp only: to_be_bytes.simps foldl_Cons Suc take_bit_Suc_byte)
      (simp add: push_bit_or push_bit_push_bit add.commute or.assoc)
qed

lemma from_to_be_bytes [byte_simps]:
  "LENGTH('a) \<le> 8 * n \<Longrightarrow> from_be_bytes (to_be_bytes n (w :: 'a::len word)) = w"
  by (simp add: from_be_bytes_def foldl_be_bytes take_bit_word_eq_self)

lemma from_to_be_bytes_16 [simp]: "from_be_bytes (to_be_bytes 2 (w :: u16)) = w"
  and from_to_be_bytes_32 [simp]: "from_be_bytes (to_be_bytes 4 (v :: u32)) = v"
  and from_to_be_bytes_64 [simp]: "from_be_bytes (to_be_bytes 8 (x :: u64)) = x"
  by (simp_all add: from_to_be_bytes)

section \<open>Bits\<close>

text \<open>
  The simplifier reads a literal of a word type as the integer literal cut to the width, so
  the bits of the masks the code uses are stated over \<open>int\<close>.
\<close>

lemma bit_literal_mask: "k = mask n \<Longrightarrow> bit (k :: int) i \<longleftrightarrow> i < n"
  by (simp add: bit_mask_iff)

lemma bit_literal_power: "k = 2 ^ n \<Longrightarrow> bit (k :: int) i \<longleftrightarrow> i = n"
  by (simp add: bit_exp_iff)

lemma bit_0x7f [byte_simps]: "bit (0x7f :: int) i \<longleftrightarrow> i < 7"
  and bit_0x3f [byte_simps]: "bit (0x3f :: int) i \<longleftrightarrow> i < 6"
  and bit_0x1f [byte_simps]: "bit (0x1f :: int) i \<longleftrightarrow> i < 5"
  and bit_0x0f [byte_simps]: "bit (0x0f :: int) i \<longleftrightarrow> i < 4"
  by (rule bit_literal_mask; simp add: mask_eq_exp_minus_1)+

lemma bit_0x80 [byte_simps]: "bit (0x80 :: int) i \<longleftrightarrow> i = 7"
  by (rule bit_literal_power) simp

lemma unat_less_power: "unat (w :: 'a::len word) < 2 ^ LENGTH('a)"
  by (rule unsigned_less)

lemma bit_small_word:
  assumes "unat (w :: 'a::len word) < 2 ^ n" and "bit w i"
  shows "i < n"
proof -
  have "take_bit n (unat w) = unat w" using assms(1) by (simp add: take_bit_nat_eq_self)
  moreover have "bit (unat w) i" using assms(2) by (simp add: bit_unsigned_iff)
  ultimately show ?thesis by (metis bit_take_bit_iff)
qed

lemma small_word_bits:
  assumes "\<And>i. bit (w :: 'a::len word) i \<Longrightarrow> i < n"
  shows "unat w < 2 ^ n"
proof -
  have "take_bit n (unat w) = unat w"
    by (rule bit_eqI) (auto simp: bit_simps dest: assms)
  then show ?thesis by (metis take_bit_nat_less_exp)
qed

lemma unat_drop_bit_less:
  assumes "unat (w :: 'a::len word) < 2 ^ (k + n)"
  shows "unat (drop_bit k w) < 2 ^ n"
proof (rule small_word_bits)
  fix i assume "bit (drop_bit k w) i"
  then have "k + i < k + n" by (intro bit_small_word [OF assms]) (simp add: bit_simps)
  then show "i < n" by simp
qed

section \<open>Lists\<close>

lemma take_append_exact [simp]: "length xs = n \<Longrightarrow> take n (xs @ ys) = xs"
  by simp

lemma drop_append_exact [simp]: "length xs = n \<Longrightarrow> drop n (xs @ ys) = ys"
  by simp

end
