(* ===== verification/Wire.thy ===== *)
theory Wire
  imports Prelude
begin

text \<open>
  The signed variable-length integers of \<^verbatim>\<open>src/wire/mod.rs\<close>: the decoder, the canonical
  length and the encoder of \<open>VarInt\<close> (at most five bytes, 32 bits) and \<open>VarLong\<close> (at most ten
  bytes, 64 bits). The two Rust copies of each loop differ only in the word width and the
  byte limit, so the loops are stated once over \<open>'a word\<close>.
\<close>

section \<open>Constants and errors\<close>

definition MAX_VARINT_BYTES :: nat where
  "MAX_VARINT_BYTES = 5"

definition MAX_VARLONG_BYTES :: nat where
  "MAX_VARLONG_BYTES = 10"

datatype DecodeError = Incomplete | TooLong

record BufferTooSmall =
  required :: nat
  available :: nat

section \<open>Decoding\<close>

text \<open>The loop over \<open>input.iter().take(MAX).enumerate()\<close>; \<open>None\<close> when it runs off the end.\<close>

fun read_var_loop :: "nat \<Rightarrow> 'a::len word \<Rightarrow> byte list \<Rightarrow> ('a word \<times> nat) option" where
  "read_var_loop index value [] = None"
| "read_var_loop index value (b # bs) =
     (let value' = value OR push_bit (index * 7) (ucast (b AND 0x7f))
      in if b AND 0x80 = 0 then Some (value', index + 1) else read_var_loop (index + 1) value' bs)"

definition read_varint :: "byte list \<Rightarrow> DecodeError + (u32 \<times> nat)" where
  "read_varint input =
     (case read_var_loop 0 0 (take MAX_VARINT_BYTES input) of
        Some r \<Rightarrow> Inr r
      | None \<Rightarrow> if length input > MAX_VARINT_BYTES then Inl TooLong else Inl Incomplete)"

definition read_varlong :: "byte list \<Rightarrow> DecodeError + (u64 \<times> nat)" where
  "read_varlong input =
     (case read_var_loop 0 0 (take MAX_VARLONG_BYTES input) of
        Some r \<Rightarrow> Inr r
      | None \<Rightarrow> if length input > MAX_VARLONG_BYTES then Inl TooLong else Inl Incomplete)"

section \<open>Encoding\<close>

definition varint_len :: "u32 \<Rightarrow> nat" where
  "varint_len value = (if value = 0 then 1 else div_ceil (32 - leading_zeros value) 7)"

definition varlong_len :: "u64 \<Rightarrow> nat" where
  "varlong_len value = (if value = 0 then 1 else div_ceil (64 - leading_zeros value) 7)"

text \<open>
  The loop over \<open>&mut output[..length - 1]\<close> followed by the last byte: the bytes it stores,
  in order. The buffer keeps every byte after them.
\<close>

fun write_var_loop :: "nat \<Rightarrow> 'a::len word \<Rightarrow> byte list" where
  "write_var_loop 0 remaining = [ucast remaining]"
| "write_var_loop (Suc n) remaining =
     ((ucast remaining AND 0x7f) OR 0x80) # write_var_loop n (drop_bit 7 remaining)"

definition write_varint :: "u32 \<Rightarrow> byte list \<Rightarrow> BufferTooSmall + (byte list \<times> nat)" where
  "write_varint value output =
     (let len = varint_len value
      in if length output < len then Inl \<lparr>required = len, available = length output\<rparr>
         else Inr (write_var_loop (len - 1) value @ drop len output, len))"

definition write_varlong :: "u64 \<Rightarrow> byte list \<Rightarrow> BufferTooSmall + (byte list \<times> nat)" where
  "write_varlong value output =
     (let len = varlong_len value
      in if length output < len then Inl \<lparr>required = len, available = length output\<rparr>
         else Inr (write_var_loop (len - 1) value @ drop len output, len))"

section \<open>The value of an encoding\<close>

text \<open>The little-endian base-128 reading of a byte list, the specification of the decoder.\<close>

fun var_value :: "byte list \<Rightarrow> 'a::len word" where
  "var_value [] = 0"
| "var_value (b # bs) = ucast (b AND 0x7f) OR push_bit 7 (var_value bs)"

definition var_form :: "byte list \<Rightarrow> bool" where
  "var_form bs \<longleftrightarrow> bs \<noteq> [] \<and> last bs AND 0x80 = 0 \<and> (\<forall>b \<in> set (butlast bs). b AND 0x80 \<noteq> 0)"

lemma var_form_Cons:
  "var_form (b # bs) \<longleftrightarrow> (if bs = [] then b AND 0x80 = 0 else b AND 0x80 \<noteq> 0 \<and> var_form bs)"
  by (auto simp: var_form_def)

lemma read_var_loop_Some_iff:
  "read_var_loop i v bs = Some (w, n) \<longleftrightarrow>
     i < n \<and> n - i \<le> length bs \<and> var_form (take (n - i) bs) \<and>
     w = v OR push_bit (7 * i) (var_value (take (n - i) bs))"
proof (induction i v bs rule: read_var_loop.induct)
  case (1 index acc)
  then show ?case by (auto simp: var_form_def)
next
  case (2 index acc b bs)
  let ?v = "acc OR push_bit (index * 7) (ucast (b AND 0x7f))"
  show ?case
  proof (cases "b AND 0x80 = 0")
    case True
    have "read_var_loop index acc (b # bs) = Some (w, n) \<longleftrightarrow> w = ?v \<and> n = index + 1"
      using True by (auto simp: Let_def)
    also have "\<dots> \<longleftrightarrow> index < n \<and> n - index \<le> length (b # bs) \<and>
        var_form (take (n - index) (b # bs)) \<and>
        w = acc OR push_bit (7 * index) (var_value (take (n - index) (b # bs)))"
    proof (cases "index < n")
      case less: True
      then obtain m where m: "n - index = Suc m" by (metis Suc_diff_Suc)
      then have "n = index + 1 \<longleftrightarrow> m = 0" by auto
      then show ?thesis using True less m
        by (cases "take m bs = []") (auto simp: var_form_Cons push_bit_or ac_simps)
    qed auto
    finally show ?thesis .
  next
    case False
    have "read_var_loop index acc (b # bs) = Some (w, n) \<longleftrightarrow> read_var_loop (index + 1) ?v bs = Some (w, n)"
      using False by (simp add: Let_def)
    also have "\<dots> \<longleftrightarrow> index + 1 < n \<and> n - (index + 1) \<le> length bs \<and> var_form (take (n - (index + 1)) bs) \<and>
        w = ?v OR push_bit (7 * (index + 1)) (var_value (take (n - (index + 1)) bs))"
      using "2.IH" [OF refl False] by blast
    also have "\<dots> \<longleftrightarrow> index < n \<and> n - index \<le> length (b # bs) \<and>
        var_form (take (n - index) (b # bs)) \<and>
        w = acc OR push_bit (7 * index) (var_value (take (n - index) (b # bs)))"
    proof (cases "index < n")
      case less: True
      then obtain m where m: "n - index = Suc m" by (metis Suc_diff_Suc)
      then have "n - (index + 1) = m" "index + 1 < n \<longleftrightarrow> m \<noteq> 0" by auto
      then show ?thesis using False less m
        by (cases "take m bs = []")
          (auto simp: var_form_Cons var_form_def push_bit_or push_bit_push_bit or.assoc ac_simps)
    qed auto
    finally show ?thesis .
  qed
qed

lemma length_write_var_loop [simp]: "length (write_var_loop n w) = Suc n"
  by (induction n arbitrary: w) simp_all

lemma write_var_loop_nonempty [simp]: "write_var_loop n w \<noteq> []"
  by (cases n) simp_all

lemma var_value_step:
  fixes w :: "'a::len word"
  shows "ucast (((ucast w AND 0x7f) OR 0x80 :: byte) AND 0x7f) OR push_bit 7 (drop_bit 7 w) = w"
proof (rule bit_word_eqI)
  fix i assume "i < LENGTH('a)"
  then show "bit (ucast (((ucast w AND 0x7f) OR 0x80 :: byte) AND 0x7f) OR push_bit 7 (drop_bit 7 w)) i
      = bit w i"
    by (cases "i < 7") (auto simp: bit_simps byte_simps)
qed

lemma continuation_iff: "(x :: byte) AND 0x80 = 0 \<longleftrightarrow> \<not> bit x 7"
  by (auto simp: bit_eq_iff [of "x AND 0x80"] bit_simps byte_simps dest!: spec [of _ 7])

lemma continuation_set: "((x AND 0x7f) OR 0x80 :: byte) AND 0x80 \<noteq> 0"
  unfolding continuation_iff by (simp add: bit_simps byte_simps)

lemma small_payload:
  fixes w :: "'a::len word"
  assumes "unat w < 2 ^ 7"
  shows "ucast ((ucast w :: byte) AND 0x7f) = w" and "(ucast w :: byte) AND 0x80 = 0"
proof -
  note b = bit_small_word [OF assms]
  show "ucast ((ucast w :: byte) AND 0x7f) = w"
    by (rule bit_eqI) (auto simp: bit_simps byte_simps dest: b)
  show "(ucast w :: byte) AND 0x80 = 0"
    unfolding continuation_iff by (auto simp: bit_simps dest: b)
qed

lemma write_var_loop_correct:
  "unat (w :: 'a::len word) < 2 ^ (7 * Suc n) \<Longrightarrow>
     var_form (write_var_loop n w) \<and> var_value (write_var_loop n w) = w"
proof (induction n arbitrary: w)
  case 0
  then show ?case by (simp add: var_form_def small_payload)
next
  case (Suc n)
  have "unat (drop_bit 7 w) < 2 ^ (7 * Suc n)"
    using Suc.prems by (intro unat_drop_bit_less) (simp add: add.commute)
  then have "var_form (write_var_loop n (drop_bit 7 w))"
    and "var_value (write_var_loop n (drop_bit 7 w)) = drop_bit 7 w"
    using Suc.IH by blast+
  then show ?case
    by (simp add: var_form_Cons continuation_set var_value_step del: push_bit_of_Suc_0)
qed

lemma read_var_loop_write:
  assumes "unat (w :: 'a::len word) < 2 ^ (7 * Suc n)" and "n < m"
  shows "read_var_loop 0 0 (take m (write_var_loop n w @ rest)) = Some (w, Suc n)"
  using write_var_loop_correct [OF assms(1)] assms(2)
  by (simp add: read_var_loop_Some_iff min_def)

lemma bit_var_value: "bit (var_value bs :: 'a::len word) i \<Longrightarrow> i < 7 * length bs"
proof (induction bs arbitrary: i)
  case (Cons b bs)
  then show ?case
    by (cases "i < 7") (auto simp: bit_simps byte_simps dest: Cons.IH [of "i - 7"])
qed simp

lemma unat_var_value: "unat (var_value bs :: 'a::len word) < 2 ^ (7 * length bs)"
  by (rule small_word_bits) (rule bit_var_value)

section \<open>Canonical lengths\<close>

lemma varint_len_le_iff: "varint_len v \<le> n \<longleftrightarrow> 0 < n \<and> unat v < 2 ^ (7 * n)"
  using length_minus_leading_zeros [of v] bit_len_le_iff [of "unat v" "7 * n"]
  by (cases n) (auto simp: varint_len_def div_ceil_le_iff mult.commute unat_eq_0 unat_gt_0)

lemma varlong_len_le_iff: "varlong_len v \<le> n \<longleftrightarrow> 0 < n \<and> unat v < 2 ^ (7 * n)"
  using length_minus_leading_zeros [of v] bit_len_le_iff [of "unat v" "7 * n"]
  by (cases n) (auto simp: varlong_len_def div_ceil_le_iff mult.commute unat_eq_0 unat_gt_0)

lemma varint_len_bounds: "0 < varint_len v" "varint_len v \<le> MAX_VARINT_BYTES"
proof -
  show "0 < varint_len v" using varint_len_le_iff [of v 0] by simp
  have "unat v < 2 ^ 32" using unsigned_less [of v] by simp
  then show "varint_len v \<le> MAX_VARINT_BYTES" by (simp add: varint_len_le_iff MAX_VARINT_BYTES_def)
qed

lemma varlong_len_bounds: "0 < varlong_len v" "varlong_len v \<le> MAX_VARLONG_BYTES"
proof -
  show "0 < varlong_len v" using varlong_len_le_iff [of v 0] by simp
  have "unat v < 2 ^ 64" using unsigned_less [of v] by simp
  then show "varlong_len v \<le> MAX_VARLONG_BYTES" by (simp add: varlong_len_le_iff MAX_VARLONG_BYTES_def)
qed

section \<open>The codec contract\<close>

text \<open>
  What a packet reader relies on: decoding an encoding followed by any bytes returns the
  value and the length of the encoding. The contract makes encodings self-delimiting.
\<close>

locale var_codec =
  fixes encode :: "'v \<Rightarrow> byte list"
    and decode :: "byte list \<Rightarrow> DecodeError + ('v \<times> nat)"
  assumes decode_encode: "decode (encode v @ rest) = Inr (v, length (encode v))"
begin

lemma encode_prefix_free:
  assumes "encode v @ xs = encode w @ ys"
  shows "v = w \<and> xs = ys"
proof -
  have "Inr (v, length (encode v)) = (Inr (w, length (encode w)) :: DecodeError + _)"
    using decode_encode [of v xs] decode_encode [of w ys] assms by simp
  then show ?thesis using assms by simp
qed

lemma concat_encode_inj: "length vs = length ws \<Longrightarrow>
    concat (map encode vs) @ xs = concat (map encode ws) @ ys \<Longrightarrow> vs = ws \<and> xs = ys"
proof (induction vs ws rule: list_induct2)
  case (Cons v vs w ws)
  then have "encode v @ concat (map encode vs) @ xs = encode w @ concat (map encode ws) @ ys"
    by simp
  then show ?case using encode_prefix_free Cons.IH by blast
qed simp

end

definition encode_varint :: "u32 \<Rightarrow> byte list" where
  "encode_varint v = write_var_loop (varint_len v - 1) v"

definition encode_varlong :: "u64 \<Rightarrow> byte list" where
  "encode_varlong v = write_var_loop (varlong_len v - 1) v"

lemma length_encode_varint [simp]: "length (encode_varint v) = varint_len v"
  using varint_len_bounds [of v] by (simp add: encode_varint_def)

lemma length_encode_varlong [simp]: "length (encode_varlong v) = varlong_len v"
  using varlong_len_bounds [of v] by (simp add: encode_varlong_def)

lemma read_encode_varint: "read_varint (encode_varint v @ rest) = Inr (v, varint_len v)"
proof -
  have "unat v < 2 ^ (7 * Suc (varint_len v - 1))" "varint_len v - 1 < MAX_VARINT_BYTES"
    using varint_len_bounds [of v] varint_len_le_iff [of v "varint_len v"] by simp_all
  from read_var_loop_write [OF this] show ?thesis
    using varint_len_bounds [of v] by (simp add: read_varint_def encode_varint_def)
qed

lemma read_encode_varlong: "read_varlong (encode_varlong v @ rest) = Inr (v, varlong_len v)"
proof -
  have "unat v < 2 ^ (7 * Suc (varlong_len v - 1))" "varlong_len v - 1 < MAX_VARLONG_BYTES"
    using varlong_len_bounds [of v] varlong_len_le_iff [of v "varlong_len v"] by simp_all
  from read_var_loop_write [OF this] show ?thesis
    using varlong_len_bounds [of v] by (simp add: read_varlong_def encode_varlong_def)
qed

interpretation varint: var_codec encode_varint read_varint
  by unfold_locales (simp add: read_encode_varint)

interpretation varlong: var_codec encode_varlong read_varlong
  by unfold_locales (simp add: read_encode_varlong)

lemma write_varint_eq:
  "varint_len v \<le> length out \<Longrightarrow> write_varint v out = Inr (encode_varint v @ drop (varint_len v) out, varint_len v)"
  by (simp add: write_varint_def encode_varint_def Let_def)

lemma write_varlong_eq:
  "varlong_len v \<le> length out \<Longrightarrow>
     write_varlong v out = Inr (encode_varlong v @ drop (varlong_len v) out, varlong_len v)"
  by (simp add: write_varlong_def encode_varlong_def Let_def)

lemma read_varint_Inr_iff:
  "read_varint bs = Inr (v, n) \<longleftrightarrow>
     0 < n \<and> n \<le> MAX_VARINT_BYTES \<and> n \<le> length bs \<and> var_form (take n bs) \<and> v = var_value (take n bs)"
  using read_var_loop_Some_iff [of 0 0 "take MAX_VARINT_BYTES bs" v n]
  by (auto simp: read_varint_def min_def split: option.splits)

lemma read_varlong_Inr_iff:
  "read_varlong bs = Inr (v, n) \<longleftrightarrow>
     0 < n \<and> n \<le> MAX_VARLONG_BYTES \<and> n \<le> length bs \<and> var_form (take n bs) \<and> v = var_value (take n bs)"
  using read_var_loop_Some_iff [of 0 0 "take MAX_VARLONG_BYTES bs" v n]
  by (auto simp: read_varlong_def min_def split: option.splits)

lemma read_var_loop_None_iff:
  "read_var_loop i v bs = None \<longleftrightarrow> (\<forall>b \<in> set bs. b AND 0x80 \<noteq> 0)"
  by (induction i v bs rule: read_var_loop.induct) (auto simp: Let_def)

lemma read_varint_errors:
  "read_varint bs = Inl Incomplete \<longleftrightarrow>
     length bs \<le> MAX_VARINT_BYTES \<and> (\<forall>b \<in> set bs. b AND 0x80 \<noteq> 0)"
  "read_varint bs = Inl TooLong \<longleftrightarrow>
     MAX_VARINT_BYTES < length bs \<and> (\<forall>b \<in> set (take MAX_VARINT_BYTES bs). b AND 0x80 \<noteq> 0)"
proof -
  note loop = read_var_loop_None_iff [of 0 "0 :: u32", symmetric]
  show "read_varint bs = Inl Incomplete \<longleftrightarrow> length bs \<le> MAX_VARINT_BYTES \<and> (\<forall>b \<in> set bs. b AND 0x80 \<noteq> 0)"
    unfolding loop read_varint_def by (auto split: option.splits if_splits)
  show "read_varint bs = Inl TooLong \<longleftrightarrow>
      MAX_VARINT_BYTES < length bs \<and> (\<forall>b \<in> set (take MAX_VARINT_BYTES bs). b AND 0x80 \<noteq> 0)"
    unfolding loop read_varint_def by (auto split: option.splits if_splits)
qed

lemma read_varlong_errors:
  "read_varlong bs = Inl Incomplete \<longleftrightarrow>
     length bs \<le> MAX_VARLONG_BYTES \<and> (\<forall>b \<in> set bs. b AND 0x80 \<noteq> 0)"
  "read_varlong bs = Inl TooLong \<longleftrightarrow>
     MAX_VARLONG_BYTES < length bs \<and> (\<forall>b \<in> set (take MAX_VARLONG_BYTES bs). b AND 0x80 \<noteq> 0)"
proof -
  note loop = read_var_loop_None_iff [of 0 "0 :: u64", symmetric]
  show "read_varlong bs = Inl Incomplete \<longleftrightarrow> length bs \<le> MAX_VARLONG_BYTES \<and> (\<forall>b \<in> set bs. b AND 0x80 \<noteq> 0)"
    unfolding loop read_varlong_def by (auto split: option.splits if_splits)
  show "read_varlong bs = Inl TooLong \<longleftrightarrow>
      MAX_VARLONG_BYTES < length bs \<and> (\<forall>b \<in> set (take MAX_VARLONG_BYTES bs). b AND 0x80 \<noteq> 0)"
    unfolding loop read_varlong_def by (auto split: option.splits if_splits)
qed

section \<open>Properties\<close>

text \<open>
  C32: writing a VarInt into a buffer that is long enough stores the canonical encoding at its
  front, returns its length, leaves every later byte of the buffer alone, and decoding the
  stored bytes followed by anything returns the value and exactly that length. The same holds
  of VarLong.
\<close>

theorem var_round_trip:
  "(varint_len v \<le> length out \<longrightarrow>
     (\<exists>out'. write_varint v out = Inr (out', varint_len v) \<and> length out' = length out \<and>
        drop (varint_len v) out' = drop (varint_len v) out \<and>
        read_varint (take (varint_len v) out' @ rest) = Inr (v, varint_len v))) \<and>
   (varlong_len w \<le> length out \<longrightarrow>
     (\<exists>out'. write_varlong w out = Inr (out', varlong_len w) \<and> length out' = length out \<and>
        drop (varlong_len w) out' = drop (varlong_len w) out \<and>
        read_varlong (take (varlong_len w) out' @ rest) = Inr (w, varlong_len w)))"
  by (auto simp: write_varint_eq write_varlong_eq read_encode_varint read_encode_varlong)

theorem var_round_trip_witness:
  "\<exists>out'. write_varint 300 [0, 0, 9] = Inr (out', varint_len 300) \<and> length out' = length [0, 0, 9 :: byte] \<and>
     drop (varint_len 300) out' = drop (varint_len 300) [0, 0, 9] \<and>
     read_varint (take (varint_len 300) out' @ [7]) = Inr (300, varint_len 300)"
proof -
  have "varint_len 300 \<le> length [0, 0, 9 :: byte]" by (simp add: varint_len_le_iff)
  from conjunct1 [OF var_round_trip, THEN mp, OF this] show ?thesis .
qed

text \<open>
  the encoder is canonical and the decoder is bounded. Whatever bytes decode to a value,
  the number of bytes consumed is between the canonical length of that value and the byte
  limit, and is available in the input; so no encoding is shorter than the written one.
\<close>

theorem var_decode_bounds:
  "(read_varint bs = Inr (v, n) \<longrightarrow>
     varint_len v \<le> n \<and> n \<le> MAX_VARINT_BYTES \<and> n \<le> length bs) \<and>
   (read_varlong bs = Inr (w, m) \<longrightarrow>
     varlong_len w \<le> m \<and> m \<le> MAX_VARLONG_BYTES \<and> m \<le> length bs)"
  using unat_var_value [of "take n bs", where 'a = 32] unat_var_value [of "take m bs", where 'a = 64]
  by (auto simp: read_varint_Inr_iff read_varlong_Inr_iff varint_len_le_iff varlong_len_le_iff
      min_absorb2)

theorem var_decode_bounds_witness:
  "read_varint [0x81, 0] = Inr (1, 2) \<and> varint_len 1 \<le> 2 \<and> 2 \<le> MAX_VARINT_BYTES"
proof -
  have *: "read_varint [0x81, 0] = Inr (1, 2)"
    by (simp add: read_varint_def MAX_VARINT_BYTES_def)
  then show ?thesis using var_decode_bounds [of "[0x81, 0]" 1 2] by simp
qed

text \<open>
  The decoder's errors are exactly the two the wire format has. \<open>Incomplete\<close> means that the
  input is at most the byte limit long and every byte of it asks for another; \<open>TooLong\<close> means
  that the input is longer than the limit and every byte within the limit asks for another.
\<close>

theorem varint_error_iff:
  "(read_varint bs = Inl Incomplete \<longleftrightarrow>
      length bs \<le> MAX_VARINT_BYTES \<and> (\<forall>b \<in> set bs. b AND 0x80 \<noteq> 0)) \<and>
   (read_varint bs = Inl TooLong \<longleftrightarrow>
      MAX_VARINT_BYTES < length bs \<and> (\<forall>b \<in> set (take MAX_VARINT_BYTES bs). b AND 0x80 \<noteq> 0)) \<and>
   (read_varlong bs = Inl Incomplete \<longleftrightarrow>
      length bs \<le> MAX_VARLONG_BYTES \<and> (\<forall>b \<in> set bs. b AND 0x80 \<noteq> 0)) \<and>
   (read_varlong bs = Inl TooLong \<longleftrightarrow>
      MAX_VARLONG_BYTES < length bs \<and> (\<forall>b \<in> set (take MAX_VARLONG_BYTES bs). b AND 0x80 \<noteq> 0))"
  by (simp only: read_varint_errors read_varlong_errors)

theorem varint_error_iff_witness:
  "read_varint [0x80, 0xff] = Inl Incomplete \<and> read_varint [0x80, 0x80, 0x80, 0x80, 0x80, 0] = Inl TooLong"
  using varint_error_iff [of "[0x80, 0xff]"] varint_error_iff [of "[0x80, 0x80, 0x80, 0x80, 0x80, 0]"]
  by (simp add: MAX_VARINT_BYTES_def)

end
