(* ===== verification/Nbt.thy ===== *)
theory Nbt
  imports Prelude "HOL-Library.Multiset" "HOL-Library.List_Lexorder" "HOL-Library.Product_Lexorder"
begin

text \<open>
  The NBT data model of \<^verbatim>\<open>src/nbt/mod.rs\<close>: tags, their identifiers and equality, the
  resource limits and errors of the codec, and the sorted-vector \<open>Compound\<close> with its
  operations. A string is its list of UTF-16 code units, a float its bit pattern. The
  \<open>sequence\<close> field of a compound entry is scratch that \<open>from_entries\<close> overwrites before it
  sorts, so an entry is the pair of its name and value and the scratch numbering appears in
  \<open>from_entries\<close> itself.
\<close>

section \<open>Tags\<close>

type_synonym nbt_string = "u16 list"

datatype Tag =
    End
  | Byte byte
  | Short u16
  | Int_t u32
  | Long u64
  | Float u32
  | Double u64
  | ByteArray "byte list"
  | String nbt_string
  | List "Tag list"
  | Compound "(nbt_string \<times> Tag) list"
  | IntArray "u32 list"
  | LongArray "u64 list"

type_synonym compound = "(nbt_string \<times> Tag) list"

fun tag_id :: "Tag \<Rightarrow> byte" where
  "tag_id End = 0"
| "tag_id (Byte _) = 1"
| "tag_id (Short _) = 2"
| "tag_id (Int_t _) = 3"
| "tag_id (Long _) = 4"
| "tag_id (Float _) = 5"
| "tag_id (Double _) = 6"
| "tag_id (ByteArray _) = 7"
| "tag_id (String _) = 8"
| "tag_id (List _) = 9"
| "tag_id (Compound _) = 10"
| "tag_id (IntArray _) = 11"
| "tag_id (LongArray _) = 12"

text \<open>IEEE 754 bit patterns: not-a-number and the two zeros.\<close>

definition f32_is_nan :: "u32 \<Rightarrow> bool" where
  "f32_is_nan b \<longleftrightarrow> 0x7f800000 < b AND 0x7fffffff"

definition f64_is_nan :: "u64 \<Rightarrow> bool" where
  "f64_is_nan b \<longleftrightarrow> 0x7ff0000000000000 < b AND 0x7fffffffffffffff"

definition f32_is_zero :: "u32 \<Rightarrow> bool" where
  "f32_is_zero b \<longleftrightarrow> b = 0 \<or> b = 0x80000000"

definition f64_is_zero :: "u64 \<Rightarrow> bool" where
  "f64_is_zero b \<longleftrightarrow> b = 0 \<or> b = 0x8000000000000000"

text \<open>Equality of tags: floats are compared by bits, except that all NaNs are equal.\<close>

fun tag_eq :: "Tag \<Rightarrow> Tag \<Rightarrow> bool"
  and tags_eq :: "Tag list \<Rightarrow> Tag list \<Rightarrow> bool"
  and entries_eq :: "compound \<Rightarrow> compound \<Rightarrow> bool" where
  "tag_eq End t = (t = End)"
| "tag_eq (Byte a) t = (t = Byte a)"
| "tag_eq (Short a) t = (t = Short a)"
| "tag_eq (Int_t a) t = (t = Int_t a)"
| "tag_eq (Long a) t = (t = Long a)"
| "tag_eq (Float a) t = (case t of Float b \<Rightarrow> a = b \<or> f32_is_nan a \<and> f32_is_nan b | _ \<Rightarrow> False)"
| "tag_eq (Double a) t = (case t of Double b \<Rightarrow> a = b \<or> f64_is_nan a \<and> f64_is_nan b | _ \<Rightarrow> False)"
| "tag_eq (ByteArray a) t = (t = ByteArray a)"
| "tag_eq (String a) t = (t = String a)"
| "tag_eq (List a) t = (case t of List b \<Rightarrow> tags_eq a b | _ \<Rightarrow> False)"
| "tag_eq (Compound a) t = (case t of Compound b \<Rightarrow> entries_eq a b | _ \<Rightarrow> False)"
| "tag_eq (IntArray a) t = (t = IntArray a)"
| "tag_eq (LongArray a) t = (t = LongArray a)"
| "tags_eq [] bs = (bs = [])"
| "tags_eq (a # as) bs = (case bs of [] \<Rightarrow> False | b # bs \<Rightarrow> tag_eq a b \<and> tags_eq as bs)"
| "entries_eq [] bs = (bs = [])"
| "entries_eq (a # as) bs =
     (case bs of [] \<Rightarrow> False | b # bs \<Rightarrow> fst a = fst b \<and> tag_eq (snd a) (snd b) \<and> entries_eq as bs)"

section \<open>Limits and errors\<close>

record Limits =
  vanilla_quota_bytes :: nat
  allocation_bytes :: nat
  max_depth :: nat
  output_bytes :: nat

datatype nbt_error =
    Truncated
  | UnknownTag byte
  | NegativeLength u32
  | UnexpectedEnd
  | InvalidModifiedUtf8
  | StringTooLong
  | LengthOverflow
  | DepthLimit
  | InvalidDepthLimit
  | VanillaQuotaExceeded
  | AllocationBudgetExceeded
  | AllocationFailed
  | OutputLimit
  | NamedEnd

definition default_limits :: Limits where
  "default_limits = \<lparr>vanilla_quota_bytes = 2 * 1024 * 1024, allocation_bytes = 16 * 1024 * 1024,
     max_depth = 512, output_bytes = 16 * 1024 * 1024\<rparr>"

definition validate_limits :: "Limits \<Rightarrow> nbt_error + unit" where
  "validate_limits L = (if max_depth L > 512 then Inl InvalidDepthLimit else Inr ())"

text \<open>
  The allocator is outside the program. \<open>try_reserve_exact w n\<close> is the capacity granted to a
  request for \<open>n\<close> elements of \<open>w\<close> bytes, \<open>None\<close> when it fails; \<open>try_reserve n\<close> tells whether
  growing the output by \<open>n\<close> bytes succeeds; the sizes are the compiler's layout of the two
  element types the reader stores.
\<close>

record alloc_env =
  try_reserve_exact :: "nat \<Rightarrow> nat \<Rightarrow> nat option"
  try_reserve :: "nat \<Rightarrow> bool"
  size_of_Tag :: nat
  size_of_CompoundEntry :: nat

text \<open>The documented behaviour of a successful allocator: it grants at least the request.\<close>

definition alloc_grants :: "alloc_env \<Rightarrow> bool" where
  "alloc_grants env \<longleftrightarrow> (\<forall>w n. \<exists>c. try_reserve_exact env w n = Some c \<and> n \<le> c) \<and> (\<forall>n. try_reserve env n)"

section \<open>Compounds\<close>

text \<open>\<open>dedup_by\<close> with the value swap: the kept entry of a run of equal names has the last value.\<close>

fun dedup_last :: "compound \<Rightarrow> compound" where
  "dedup_last [] = []"
| "dedup_last [e] = [e]"
| "dedup_last (earlier # later # es) =
     (if fst later = fst earlier then dedup_last ((fst earlier, snd later) # es)
      else earlier # dedup_last (later # es))"

definition sort_entries :: "compound \<Rightarrow> compound" where
  "sort_entries es = map snd (sort_key (\<lambda>(sequence, e). (fst e, sequence)) (enumerate 0 es))"

definition from_entries :: "compound \<Rightarrow> compound" where
  "from_entries es = dedup_last (sort_entries es)"

text \<open>\<open>binary_search_by\<close>: \<open>Inr\<close> the index of the entry, \<open>Inl\<close> where it would be inserted.\<close>

definition binary_search :: "compound \<Rightarrow> nbt_string \<Rightarrow> nat + nat" where
  "binary_search es key =
     (let i = length (takeWhile (\<lambda>e. fst e < key) es)
      in if i < length es \<and> fst (es ! i) = key then Inr i else Inl i)"

definition compound_get :: "compound \<Rightarrow> nbt_string \<Rightarrow> Tag option" where
  "compound_get es key = (case binary_search es key of Inl _ \<Rightarrow> None | Inr i \<Rightarrow> Some (snd (es ! i)))"

definition compound_insert ::
  "alloc_env \<Rightarrow> compound \<Rightarrow> nbt_string \<Rightarrow> Tag \<Rightarrow> nbt_error + (compound \<times> Tag option)" where
  "compound_insert env es key v =
     (case binary_search es key of
        Inr i \<Rightarrow> Inr (es[i := (fst (es ! i), v)], Some (snd (es ! i)))
      | Inl i \<Rightarrow> if \<not> try_reserve env 1 then Inl AllocationFailed
                else Inr (take i es @ (key, v) # drop i es, None))"

definition compound_remove :: "compound \<Rightarrow> nbt_string \<Rightarrow> compound \<times> Tag option" where
  "compound_remove es key =
     (case binary_search es key of
        Inl _ \<Rightarrow> (es, None)
      | Inr i \<Rightarrow> (take i es @ drop (Suc i) es, Some (snd (es ! i))))"

text \<open>\<open>get_mut\<close> followed by a write through the reference.\<close>

definition compound_get_mut :: "compound \<Rightarrow> nbt_string \<Rightarrow> (Tag \<Rightarrow> Tag) \<Rightarrow> compound option" where
  "compound_get_mut es key f =
     (case binary_search es key of
        Inl _ \<Rightarrow> None
      | Inr i \<Rightarrow> Some (es[i := (fst (es ! i), f (snd (es ! i)))]))"

definition is_wrapper :: "compound \<Rightarrow> bool" where
  "is_wrapper es \<longleftrightarrow> length es = 1 \<and> fst (es ! 0) = []"

definition compound_wf :: "compound \<Rightarrow> bool" where
  "compound_wf es \<longleftrightarrow> sorted_wrt (<) (map fst es)"

text \<open>
  A tag as the codec promises it: every compound inside it is strictly sorted, and \<open>End\<close> is
  neither a list element nor a compound value.
\<close>

fun tag_wf :: "Tag \<Rightarrow> bool" where
  "tag_wf (List ts) = (\<forall>t \<in> set ts. t \<noteq> End \<and> tag_wf t)"
| "tag_wf (Compound es) = (compound_wf es \<and> (\<forall>e \<in> set es. snd e \<noteq> End \<and> tag_wf (snd e)))"
| "tag_wf _ = True"

section \<open>Compounds as finite maps\<close>

lemma compound_wf_Nil [simp]: "compound_wf []"
  by (simp add: compound_wf_def)

lemma compound_wf_Cons [simp]:
  "compound_wf (e # es) \<longleftrightarrow> (\<forall>x \<in> set es. fst e < fst x) \<and> compound_wf es"
  by (simp add: compound_wf_def)

lemma compound_wf_append:
  "compound_wf (xs @ ys) \<longleftrightarrow> compound_wf xs \<and> compound_wf ys \<and> (\<forall>x \<in> set xs. \<forall>y \<in> set ys. fst x < fst y)"
  by (auto simp: compound_wf_def sorted_wrt_append)

lemma compound_wf_distinct: "compound_wf es \<Longrightarrow> distinct (map fst es)"
  by (induction es) auto

lemma map_of_eq_None_if: "\<forall>x \<in> set es. fst x \<noteq> k \<Longrightarrow> map_of es k = None"
  by (auto simp: map_of_eq_None_iff)

text \<open>A search splits a well-formed compound at the key.\<close>

lemma binary_search_split:
  assumes "compound_wf es"
  obtains (found) i xs v ys where "binary_search es k = Inr i" "es = xs @ (k, v) # ys" "i = length xs"
      "\<forall>x \<in> set xs. fst x < k" "\<forall>y \<in> set ys. k < fst y"
    | (absent) i xs ys where "binary_search es k = Inl i" "es = xs @ ys" "i = length xs"
      "\<forall>x \<in> set xs. fst x < k" "\<forall>y \<in> set ys. k < fst y"
proof -
  define xs where "xs = takeWhile (\<lambda>e. fst e < k) es"
  define zs where "zs = dropWhile (\<lambda>e. fst e < k) es"
  have es: "es = xs @ zs" by (simp add: xs_def zs_def)
  have xs: "\<forall>x \<in> set xs. fst x < k" by (auto simp: xs_def dest: set_takeWhileD)
  have i: "length (takeWhile (\<lambda>e. fst e < k) es) = length xs" by (simp add: xs_def)
  show thesis
  proof (cases zs)
    case Nil
    then have "binary_search es k = Inl (length xs)" by (simp add: binary_search_def Let_def i) (simp add: es)
    then show thesis using absent [of "length xs" xs "[]"] es xs Nil by simp
  next
    case (Cons z ys)
    have "\<not> fst z < k" using Cons zs_def by (metis dropWhile_eq_Cons_conv)
    moreover have "\<forall>y \<in> set ys. fst z < fst y" using assms es Cons by (simp add: compound_wf_append)
    ultimately have ys: "\<forall>y \<in> set ys. k < fst y" by (meson le_less_trans not_less)
    have idx: "length xs < length es" "es ! length xs = z" using es Cons by (simp_all add: nth_append)
    show thesis
    proof (cases "fst z = k")
      case True
      then have "binary_search es k = Inr (length xs)" using idx by (simp add: binary_search_def Let_def i)
      moreover have "es = xs @ (k, snd z) # ys" using es Cons True by (metis prod.collapse)
      ultimately show thesis using found xs ys by blast
    next
      case False
      then have "binary_search es k = Inl (length xs)" using idx by (simp add: binary_search_def Let_def i)
      moreover have "\<forall>y \<in> set zs. k < fst y" using Cons False ys \<open>\<not> fst z < k\<close> by auto
      ultimately show thesis using absent es xs by blast
    qed
  qed
qed

lemma map_of_split_found:
  assumes "\<forall>x \<in> set xs. fst x < (k :: nbt_string)" "\<forall>y \<in> set ys. k < fst y"
  shows "(map_of ys)(k \<mapsto> v) ++ map_of xs = (map_of ys ++ map_of xs)(k \<mapsto> v)"
    and "(map_of ys ++ map_of xs) k = None"
    and "(map_of ys ++ map_of xs)(k := None) = map_of ys ++ map_of xs"
proof -
  have x: "map_of xs k = None" and y: "map_of ys k = None"
    using assms by (auto intro!: map_of_eq_None_if)
  show "(map_of ys ++ map_of xs) k = None" by (simp add: x y)
  then show "(map_of ys ++ map_of xs)(k := None) = map_of ys ++ map_of xs" by (metis fun_upd_triv)
  show "(map_of ys)(k \<mapsto> v) ++ map_of xs = (map_of ys ++ map_of xs)(k \<mapsto> v)"
    using x by (auto simp: fun_eq_iff map_add_def split: option.splits)
qed

lemma compound_get_map_of: "compound_wf es \<Longrightarrow> compound_get es k = map_of es k"
  by (rule binary_search_split [of es k], assumption)
    (auto simp: compound_get_def map_of_split_found nth_append)

lemma compound_insert_result:
  assumes "compound_wf es" and "try_reserve env 1"
  shows "\<exists>es'. compound_insert env es k v = Inr (es', map_of es k) \<and> compound_wf es' \<and>
           map_of es' = (map_of es)(k \<mapsto> v)"
  using assms(1)
proof (cases rule: binary_search_split [of es k])
  case (found i xs w ys)
  then show ?thesis using assms(1)
    by (simp add: compound_insert_def nth_append map_of_split_found compound_wf_append)
next
  case (absent i xs ys)
  then show ?thesis using assms
    by (simp add: compound_insert_def map_of_split_found compound_wf_append)
qed

lemma compound_remove_result:
  assumes "compound_wf es"
  shows "\<exists>es'. compound_remove es k = (es', map_of es k) \<and> compound_wf es' \<and>
           map_of es' = (map_of es)(k := None)"
  using assms
proof (cases rule: binary_search_split [of es k])
  case (found i xs w ys)
  then show ?thesis using assms
    by (simp add: compound_remove_def nth_append map_of_split_found compound_wf_append)
next
  case (absent i xs ys)
  then show ?thesis using assms by (simp add: compound_remove_def map_of_split_found)
qed

section \<open>Building a compound from entries\<close>

lemma sort_entries_eq: "sort_entries es = sort_key fst es"
proof (rule sym, unfold sort_entries_def, rule properties_for_sort_key)
  let ?key = "\<lambda>(sequence, e :: nbt_string \<times> Tag). (fst e, sequence :: nat)"
  define xs where "xs = enumerate 0 es"
  define ys where "ys = sort_key ?key xs"
  have snd_xs: "map snd xs = es" and fst_xs: "map fst xs = [0..<length es]"
    by (simp_all add: xs_def)
  have sorted: "sorted (map ?key ys)" by (simp add: ys_def)
  have distinct: "distinct (map fst ys)"
    by (simp add: ys_def distinct_map fst_xs [symmetric]) (metis distinct_map distinct_upt fst_xs)
  show "mset (map snd (sort_key ?key (enumerate 0 es))) = mset es"
    using snd_xs by (simp add: xs_def [symmetric]) (metis mset_map)
  show "sorted (map fst (map snd (sort_key ?key (enumerate 0 es))))"
  proof -
    have "sorted_wrt (\<lambda>x y. ?key x \<le> ?key y) ys" using sorted by (simp add: sorted_map)
    then have "sorted_wrt (\<lambda>x y. fst (snd x) \<le> fst (snd y)) ys"
      by (rule sorted_wrt_mono_rel [rotated]) (auto simp: less_eq_prod_def split: prod.splits)
    then show ?thesis by (simp add: ys_def xs_def sorted_map sorted_wrt_map)
  qed
  fix k :: "nbt_string \<times> Tag"
  let ?P = "\<lambda>x. fst k = fst (snd x)"
  have "filter ?P ys = filter ?P xs"
  proof -
    have set: "set (filter ?P ys) = set (filter ?P xs)" by (simp add: ys_def)
    have "sorted_wrt (\<lambda>x y. ?key x \<le> ?key y) (filter ?P ys)"
      using sorted by (simp add: sorted_map sorted_wrt_filter)
    then have "sorted_wrt (\<lambda>x y. fst x \<le> fst y) (filter ?P ys)"
      by (rule sorted_wrt_mono_rel [rotated]) (auto simp: less_eq_prod_def split: prod.splits)
    then have 1: "sorted (map fst (filter ?P ys))" by (simp add: sorted_map)
    have "sorted (map fst xs)" by (simp add: fst_xs)
    then have 2: "sorted (map fst (filter ?P xs))" by (simp add: sorted_map sorted_wrt_filter)
    have 3: "distinct (map fst (filter ?P ys))" using distinct by (simp add: distinct_map_filter)
    have "distinct (map fst xs)" by (simp add: fst_xs)
    then have inj: "inj_on fst (set xs)" and 4: "distinct (map fst (filter ?P xs))"
      by (simp add: distinct_map) (rule distinct_map_filter, fact)
    have "map fst (filter ?P ys) = map fst (filter ?P xs)"
      using set by (intro sorted_distinct_set_unique 1 2 3 4) (simp add: image_image) 
    then show ?thesis
      by (rule map_inj_on) (rule inj_on_subset [OF inj], use set in auto)
  qed
  then have "filter (\<lambda>x. fst k = fst x) (map snd ys) = filter (\<lambda>x. fst k = fst x) (map snd xs)"
    by (simp add: filter_map comp_def)
  then show "filter (\<lambda>x. fst k = fst x) (map snd (sort_key ?key (enumerate 0 es))) =
      filter (\<lambda>x. fst k = fst x) es"
    by (simp add: ys_def xs_def)
qed

lemma map_of_filter_key: "map_of (filter (\<lambda>e. k = fst e) xs) k = map_of xs k"
  by (induction xs) auto

lemma map_of_rev_sort: "map_of (rev (sort_key fst es)) = map_of (rev (es :: compound))"
proof
  fix k
  have "filter (\<lambda>e. k = fst e) (rev (sort_key fst es)) = filter (\<lambda>e. k = fst e) (rev es)"
    using sort_key_stable [of fst k es] by (simp add: rev_filter [symmetric] eq_commute)
  then show "map_of (rev (sort_key fst es)) k = map_of (rev es) k"
    by (metis map_of_filter_key)
qed

lemma map_of_rev_dedup_last: "map_of (rev (dedup_last es)) = map_of (rev es)"
proof (induction es rule: dedup_last.induct)
  case (3 earlier later es)
  show ?case
  proof (cases "fst later = fst earlier")
    case True
    then show ?thesis using 3(1) by (cases later, cases earlier) (auto simp: fun_eq_iff map_add_def)
  next
    case False
    then show ?thesis using 3(2) by (auto simp: map_add_def fun_eq_iff split: option.splits)
  qed
qed simp_all

lemma set_fst_dedup_last: "fst ` set (dedup_last es) \<subseteq> fst ` set es"
  by (induction es rule: dedup_last.induct) auto

lemma dedup_last_wf: "sorted (map fst es) \<Longrightarrow> compound_wf (dedup_last es)"
proof (induction es rule: dedup_last.induct)
  case (3 earlier later es)
  show ?case
  proof (cases "fst later = fst earlier")
    case True
    then show ?thesis using 3 by auto
  next
    case False
    then have "\<forall>x \<in> fst ` set (later # es). fst earlier < x" using 3(3) by auto
    then have "\<forall>x \<in> fst ` set (dedup_last (later # es)). fst earlier < x"
      using set_fst_dedup_last [of "later # es"] by blast
    then show ?thesis using 3 False by auto
  qed
qed simp_all

lemma dedup_last_id: "compound_wf es \<Longrightarrow> dedup_last es = es"
  by (induction es rule: dedup_last.induct) auto

lemma set_snd_dedup_last: "snd ` set (dedup_last es) \<subseteq> snd ` set es"
  by (induction es rule: dedup_last.induct) auto

lemma set_snd_from_entries: "snd ` set (from_entries es) \<subseteq> snd ` set es"
  using set_snd_dedup_last [of "sort_entries es"] by (simp add: from_entries_def sort_entries_eq)

lemma from_entries_wf: "compound_wf (from_entries es)"
  by (simp add: from_entries_def sort_entries_eq dedup_last_wf)

lemma map_of_rev_distinct: "distinct (map fst xs) \<Longrightarrow> map_of (rev xs) = map_of xs"
  by (rule map_of_inject_set [THEN iffD2]) (auto simp: rev_map [symmetric])

lemma map_of_from_entries: "map_of (from_entries es) = map_of (rev es)"
  by (metis compound_wf_distinct from_entries_def from_entries_wf map_of_rev_dedup_last
      map_of_rev_distinct map_of_rev_sort sort_entries_eq)

lemma from_entries_id: "compound_wf es \<Longrightarrow> from_entries es = es"
proof -
  assume wf: "compound_wf es"
  then have "sorted (map fst es)" unfolding compound_wf_def by (simp add: strict_sorted_iff)
  then have "sort_key fst es = es" by (rule sort_key_id_if_sorted)
  with wf show ?thesis by (simp add: from_entries_def sort_entries_eq dedup_last_id)
qed

section \<open>The map contract\<close>

text \<open>
  What the path and codec layers rely on: a lookup sees exactly the insertions and removals
  made before it, and an insertion that fails changes nothing because it returns no map.
\<close>

locale keyed_map =
  fixes get :: "'m \<Rightarrow> 'k \<Rightarrow> 'v option"
    and insert :: "'m \<Rightarrow> 'k \<Rightarrow> 'v \<Rightarrow> 'e + ('m \<times> 'v option)"
    and remove :: "'m \<Rightarrow> 'k \<Rightarrow> 'm \<times> 'v option"
    and invar :: "'m \<Rightarrow> bool"
  assumes insert_law: "invar m \<Longrightarrow> insert m k v = Inr (m', old) \<Longrightarrow>
      invar m' \<and> old = get m k \<and> get m' = (get m)(k \<mapsto> v)"
    and remove_law: "invar m \<Longrightarrow> remove m k = (m', old) \<Longrightarrow>
      invar m' \<and> old = get m k \<and> get m' = (get m)(k := None)"
    and ext_law: "invar m \<Longrightarrow> invar m' \<Longrightarrow> get m = get m' \<Longrightarrow> m = m'"
begin

lemma insert_remove_absent:
  assumes "invar m" "get m k = None" "insert m k v = Inr (m1, old)" "remove m1 k = (m2, old2)"
  shows "m2 = m \<and> old2 = Some v"
proof -
  have 1: "invar m1" "get m1 = (get m)(k \<mapsto> v)" using insert_law [OF assms(1,3)] by simp_all
  have 2: "invar m2" "old2 = get m1 k" "get m2 = (get m1)(k := None)"
    using remove_law [OF 1(1) assms(4)] by simp_all
  have "get m2 = get m" using 1 2 assms(2) by (auto simp: fun_eq_iff)
  then show ?thesis using ext_law [OF 2(1) assms(1)] 1 2 by simp
qed

lemma insert_twice:
  assumes "invar m" "insert m k v = Inr (m1, old1)" "insert m1 k w = Inr (m2, old2)"
    "insert m k w = Inr (m3, old3)"
  shows "m2 = m3 \<and> old2 = Some v"
proof -
  note a = insert_law [OF assms(1,2)] and c = insert_law [OF assms(1,4)]
  note b = insert_law [OF conjunct1 [OF a] assms(3)]
  from a b c have "get m2 = get m3" by simp
  then show ?thesis using ext_law a b c by simp
qed

end

lemma compound_ext: "compound_wf xs \<Longrightarrow> compound_wf ys \<Longrightarrow> map_of xs = map_of ys \<Longrightarrow> xs = ys"
proof -
  assume wf: "compound_wf xs" "compound_wf ys" and eq: "map_of xs = map_of ys"
  then have "set xs = set ys" by (metis compound_wf_distinct map_of_inject_set)
  moreover have "map fst xs = map fst ys"
    using wf calculation unfolding compound_wf_def by (intro strict_sorted_equal) auto
  ultimately show ?thesis
    using compound_wf_distinct [OF wf(1)] by (auto intro!: map_inj_on [of fst] simp: distinct_map)
qed

interpretation compound: keyed_map compound_get "compound_insert env" compound_remove compound_wf for env
proof
  fix m m' :: compound and k v old
  assume wf: "compound_wf m"
  show "compound_wf m' \<and> old = compound_get m k \<and> compound_get m' = (compound_get m)(k \<mapsto> v)"
    if "compound_insert env m k v = Inr (m', old)"
  proof (cases "compound_get m k = None \<and> \<not> try_reserve env 1")
    case True
    then show ?thesis using that
      by (auto simp: compound_insert_def compound_get_def split: sum.splits if_splits)
  next
    case False
    then have "compound_insert env m k v = compound_insert (env\<lparr>try_reserve := \<lambda>_. True\<rparr>) m k v"
      by (auto simp: compound_insert_def compound_get_def split: sum.splits)
    then show ?thesis
      using compound_insert_result [OF wf, of "env\<lparr>try_reserve := \<lambda>_. True\<rparr>" k v] that wf
      by (auto simp: compound_get_map_of fun_eq_iff)
  qed
  show "compound_wf m' \<and> old = compound_get m k \<and> compound_get m' = (compound_get m)(k := None)"
    if "compound_remove m k = (m', old)"
    using compound_remove_result [OF wf, of k] that wf by (auto simp: compound_get_map_of fun_eq_iff)
  show "m = m'" if "compound_wf m'" "compound_get m = compound_get m'"
  proof -
    have "map_of m = map_of m'" using wf that by (metis compound_get_map_of ext)
    then show ?thesis using wf that by (simp add: compound_ext)
  qed
qed

text \<open>
  When an insertion succeeds, and a write through a mutable lookup as an insertion over an
  existing key.
\<close>

lemma compound_insert_outcome:
  "case compound_insert env es k v of
     Inl e \<Rightarrow> e = AllocationFailed \<and> compound_get es k = None \<and> \<not> try_reserve env 1
   | Inr _ \<Rightarrow> compound_get es k \<noteq> None \<or> try_reserve env 1"
  by (auto simp: compound_insert_def compound_get_def split: sum.splits)

lemma compound_get_mut_insert:
  "case compound_get_mut es k f of
     None \<Rightarrow> compound_get es k = None
   | Some es' \<Rightarrow> (\<exists>old. compound_get es k = Some old \<and> compound_insert env es k (f old) = Inr (es', Some old))"
  by (auto simp: compound_get_mut_def compound_insert_def compound_get_def split: sum.splits)

text \<open>Inserting entries one after the other, the reference for \<open>from_entries\<close>.\<close>

fun insert_all :: "alloc_env \<Rightarrow> compound \<Rightarrow> compound \<Rightarrow> nbt_error + compound" where
  "insert_all env es [] = Inr es"
| "insert_all env es (e # rest) =
     bind_r (compound_insert env es (fst e) (snd e)) (\<lambda>(es', _). insert_all env es' rest)"

lemma insert_all_result:
  assumes "try_reserve env 1"
  shows "compound_wf es \<Longrightarrow>
    \<exists>es'. insert_all env es xs = Inr es' \<and> compound_wf es' \<and> map_of es' = map_of es ++ map_of (rev xs)"
proof (induction xs arbitrary: es)
  case Nil
  then show ?case by simp
next
  case (Cons x xs)
  from compound_insert_result [OF Cons.prems assms, of "fst x" "snd x"] obtain es' where
    es': "compound_insert env es (fst x) (snd x) = Inr (es', map_of es (fst x))" "compound_wf es'"
      "map_of es' = (map_of es)(fst x \<mapsto> snd x)" by blast
  from Cons.IH [OF es'(2)] obtain es'' where
    es'': "insert_all env es' xs = Inr es''" "compound_wf es''" "map_of es'' = map_of es' ++ map_of (rev xs)"
    by blast
  have "map_of es'' = map_of es ++ map_of (rev (x # xs))"
    unfolding es''(3) es'(3) by (cases x) simp
  then show ?case using es' es'' by simp
qed

section \<open>Properties\<close>

text \<open>
  Building a compound from a list of entries by one sort and one pass of duplicate removal
  gives the same compound as inserting the entries one by one into an empty compound, so the
  last of several entries with one name wins, and the result is strictly sorted by name.
\<close>

theorem from_entries_inserts:
  assumes "try_reserve env 1"
  shows "insert_all env [] es = Inr (from_entries es) \<and> compound_wf (from_entries es) \<and>
    (\<forall>k. compound_get (from_entries es) k = map_of (rev es) k)"
proof -
  obtain es' where "insert_all env [] es = Inr es'" "compound_wf es'" "map_of es' = map_of (rev es)"
    using insert_all_result [OF assms compound_wf_Nil, of es] by auto
  moreover have "map_of (from_entries es) = map_of (rev es)" by (rule map_of_from_entries)
  ultimately show ?thesis
    using from_entries_wf by (metis compound_ext compound_get_map_of)
qed

definition plain_env :: alloc_env where
  "plain_env = \<lparr>try_reserve_exact = \<lambda>_ n. Some n, try_reserve = \<lambda>_. True,
     size_of_Tag = 32, size_of_CompoundEntry = 64\<rparr>"

theorem from_entries_inserts_witness:
  "insert_all plain_env [] [([2], Byte 1), ([1], Byte 2), ([2], Byte 3)] =
     Inr (from_entries [([2], Byte 1), ([1], Byte 2), ([2], Byte 3)])"
  by (rule conjunct1 [OF from_entries_inserts]) (simp add: plain_env_def)

text \<open>
  C34: on a strictly sorted compound the operations are those of a finite map. Lookup agrees
  with the association list. An insertion succeeds whenever the name is present or the reservation
  is granted, and fails with \<open>AllocationFailed\<close> otherwise; it returns the previous value, keeps the
  order and changes exactly one key. A removal returns the previous value, keeps the order and
  forgets exactly one key. A mutable lookup finds the name exactly when a lookup does, and a write
  through it keeps the order and changes exactly that key's value.
\<close>

theorem compound_map_operations:
  assumes "compound_wf es"
  shows "compound_get es k = map_of es k \<and>
    (case compound_insert env es k v of
       Inl e \<Rightarrow> e = AllocationFailed \<and> compound_get es k = None \<and> \<not> try_reserve env 1
     | Inr (es1, old) \<Rightarrow>
         compound_wf es1 \<and> old = compound_get es k \<and> compound_get es1 = (compound_get es)(k \<mapsto> v) \<and>
         (compound_get es k \<noteq> None \<or> try_reserve env 1)) \<and>
    (case compound_remove es k of
       (es2, old) \<Rightarrow>
         compound_wf es2 \<and> old = compound_get es k \<and> compound_get es2 = (compound_get es)(k := None)) \<and>
    (case compound_get_mut es k f of
       None \<Rightarrow> compound_get es k = None
     | Some es3 \<Rightarrow>
         compound_wf es3 \<and> (\<exists>old. compound_get es k = Some old \<and> compound_get es3 = (compound_get es)(k \<mapsto> f old)))"
proof (intro conjI)
  show "compound_get es k = map_of es k" using compound_get_map_of [OF assms] .
  show "case compound_insert env es k v of
       Inl e \<Rightarrow> e = AllocationFailed \<and> compound_get es k = None \<and> \<not> try_reserve env 1
     | Inr (es1, old) \<Rightarrow>
         compound_wf es1 \<and> old = compound_get es k \<and> compound_get es1 = (compound_get es)(k \<mapsto> v) \<and>
         (compound_get es k \<noteq> None \<or> try_reserve env 1)"
    using compound.insert_law [OF assms, of env k v] compound_insert_outcome [where env = env and es = es and k = k and v = v]
    by (auto split: sum.splits)
  show "case compound_remove es k of
       (es2, old) \<Rightarrow> compound_wf es2 \<and> old = compound_get es k \<and> compound_get es2 = (compound_get es)(k := None)"
    using compound.remove_law [OF assms, of k] by (auto split: prod.splits)
  show "case compound_get_mut es k f of
       None \<Rightarrow> compound_get es k = None
     | Some es3 \<Rightarrow>
         compound_wf es3 \<and> (\<exists>old. compound_get es k = Some old \<and> compound_get es3 = (compound_get es)(k \<mapsto> f old))"
  proof (cases "compound_get_mut es k f")
    case None
    then show ?thesis using compound_get_mut_insert [where es = es and k = k and f = f] by simp
  next
    case (Some es3)
    then obtain old where "compound_get es k = Some old" "compound_insert plain_env es k (f old) = Inr (es3, Some old)"
      using compound_get_mut_insert [where env = plain_env and es = es and k = k and f = f] by auto
    then show ?thesis using compound.insert_law [OF assms] Some by auto
  qed
qed

theorem compound_map_operations_witness:
  "compound_insert plain_env [([1], End), ([2, 3], Byte 4)] [2] (Byte 7) =
     Inr ([([1], End), ([2], Byte 7), ([2, 3], Byte 4)], None) \<and>
   compound_get [([1], End), ([2], Byte 7), ([2, 3], Byte 4)] =
     (compound_get [([1], End), ([2, 3], Byte 4)])([2] \<mapsto> Byte 7) \<and>
   (\<exists>es. compound_get_mut [([1], End), ([2, 3], Byte 4)] [2, 3] (\<lambda>_. Byte 9) = Some es \<and>
     compound_get es = (compound_get [([1], End), ([2, 3], Byte 4)])([2, 3] \<mapsto> Byte 9))"
proof -
  let ?es = "[([1], End), ([2, 3], Byte 4)]"
  have wf: "compound_wf ?es" by simp
  have ins: "compound_insert plain_env ?es [2] (Byte 7) = Inr ([([1], End), ([2], Byte 7), ([2, 3], Byte 4)], None)"
    by (simp add: compound_insert_def binary_search_def plain_env_def)
  have get: "compound_get_mut ?es [2, 3] (\<lambda>_. Byte 9) = Some [([1], End), ([2, 3], Byte 9)]"
    by (simp add: compound_get_mut_def binary_search_def)
  show ?thesis
    using compound_map_operations [OF wf, where k = "[2]" and env = plain_env and v = "Byte 7" and f = "\<lambda>_. Byte 9"]
      compound_map_operations [OF wf, where k = "[2, 3]" and env = plain_env and v = "Byte 7" and f = "\<lambda>_. Byte 9"]
    unfolding ins get by (simp only: sum.case prod.case option.case) blast
qed

end
