(* ===== verification/NbtRead.thy ===== *)
theory NbtRead
  imports Nbt
begin


text \<open>
  The binary reader of \<^verbatim>\<open>src/nbt/read.rs\<close>: modified UTF-8, the accounting of the two resource
  budgets, arrays, lists with their compound wrappers, and compounds. A reader function takes
  the immutable limits and the reader's state and returns the value with the new state, or the
  error; the caller's slice is only advanced by a read that succeeds.
\<close>

section \<open>Modified UTF-8\<close>

text \<open>The loop over the continuation bytes of one unit.\<close>

fun continuation_bytes :: "nat \<Rightarrow> u16 \<Rightarrow> byte list \<Rightarrow> nbt_error + (u16 \<times> byte list)" where
  "continuation_bytes 0 unit bs = Inr (unit, bs)"
| "continuation_bytes (Suc n) unit [] = Inl InvalidModifiedUtf8"
| "continuation_bytes (Suc n) unit (b # bs) =
     (if b AND 0xc0 \<noteq> 0x80 then Inl InvalidModifiedUtf8
      else continuation_bytes n (push_bit 6 unit OR ucast (b AND 0x3f)) bs)"

text \<open>One unit: the byte at the offset and the bytes after it; the result has the bytes left.\<close>

definition modified_utf8_unit :: "byte \<Rightarrow> byte list \<Rightarrow> nbt_error + (u16 \<times> byte list)" where
  "modified_utf8_unit first rest =
     (if first < 0x80 then Inr (ucast first, rest)
      else if 0xc0 \<le> first \<and> first \<le> 0xdf then continuation_bytes 1 (ucast (first AND 0x1f)) rest
      else if 0xe0 \<le> first \<and> first \<le> 0xef then continuation_bytes 2 (ucast (first AND 0x0f)) rest
      else Inl InvalidModifiedUtf8)"

lemma continuation_bytes_length:
  "continuation_bytes n u bs = Inr (v, rest) \<Longrightarrow> length bs = length rest + n"
  by (induction n u bs rule: continuation_bytes.induct) (auto split: if_splits)

lemma modified_utf8_unit_length:
  "modified_utf8_unit b bs = Inr (u, rest) \<Longrightarrow> length rest \<le> length bs"
  by (auto simp: modified_utf8_unit_def dest: continuation_bytes_length split: if_splits)

text \<open>The counting pass and the storing pass over the bytes of a string.\<close>

function modified_utf8_count :: "byte list \<Rightarrow> nbt_error + nat" where
  "modified_utf8_count [] = Inr 0"
| "modified_utf8_count (b # bs) =
     bind_r (modified_utf8_unit b bs) (\<lambda>(_, rest). map_r Suc (modified_utf8_count rest))"
  by pat_completeness auto
termination
  by (relation "measure length") (auto dest: modified_utf8_unit_length)

function modified_utf8_units :: "byte list \<Rightarrow> nbt_error + u16 list" where
  "modified_utf8_units [] = Inr []"
| "modified_utf8_units (b # bs) =
     bind_r (modified_utf8_unit b bs) (\<lambda>(u, rest). map_r (\<lambda>us. u # us) (modified_utf8_units rest))"
  by pat_completeness auto
termination
  by (relation "measure length") (auto dest: modified_utf8_unit_length)

lemma modified_utf8_count_units: "modified_utf8_count bs = map_r length (modified_utf8_units bs)"
proof (induction bs rule: modified_utf8_count.induct)
  case (2 b bs)
  then show ?case by (cases "modified_utf8_unit b bs") (auto simp: map_r_def split: sum.splits)
qed simp

section \<open>The reader\<close>

record Reader =
  r_input :: "byte list"
  r_quota :: nat
  r_allocation :: nat

definition take_r :: "nat \<Rightarrow> Reader \<Rightarrow> nbt_error + (byte list \<times> Reader)" where
  "take_r n r =
     (if n \<le> length (r_input r) then Inr (take n (r_input r), r\<lparr>r_input := drop n (r_input r)\<rparr>)
      else Inl Truncated)"

definition byte_r :: "Reader \<Rightarrow> nbt_error + (byte \<times> Reader)" where
  "byte_r r = bind_r (take_r 1 r) (\<lambda>(bs, r). Inr (bs ! 0, r))"

definition short_r :: "Reader \<Rightarrow> nbt_error + (u16 \<times> Reader)" where
  "short_r r = bind_r (take_r 2 r) (\<lambda>(bs, r). Inr (from_be_bytes bs, r))"

definition int_r :: "Reader \<Rightarrow> nbt_error + (u32 \<times> Reader)" where
  "int_r r = bind_r (take_r 4 r) (\<lambda>(bs, r). Inr (from_be_bytes bs, r))"

definition long_r :: "Reader \<Rightarrow> nbt_error + (u64 \<times> Reader)" where
  "long_r r = bind_r (take_r 8 r) (\<lambda>(bs, r). Inr (from_be_bytes bs, r))"

definition count_r :: "Reader \<Rightarrow> nbt_error + (nat \<times> Reader)" where
  "count_r r = bind_r (int_r r)
     (\<lambda>(c, r). if sint c < 0 then Inl (NegativeLength c) else Inr (unat c, r))"

definition account :: "Limits \<Rightarrow> nat \<Rightarrow> Reader \<Rightarrow> nbt_error + Reader" where
  "account L n r = bind_r (ok_or (checked_add (r_quota r) n) VanillaQuotaExceeded)
     (\<lambda>q. if q > vanilla_quota_bytes L then Inl VanillaQuotaExceeded else Inr (r\<lparr>r_quota := q\<rparr>))"

definition allocation :: "Limits \<Rightarrow> nat \<Rightarrow> Reader \<Rightarrow> nbt_error + Reader" where
  "allocation L n r = bind_r (ok_or (checked_add (r_allocation r) n) AllocationBudgetExceeded)
     (\<lambda>a. if a > allocation_bytes L then Inl AllocationBudgetExceeded else Inr (r\<lparr>r_allocation := a\<rparr>))"

definition check_id :: "byte \<Rightarrow> nbt_error + unit" where
  "check_id i = (if i > 12 then Inl (UnknownTag i) else Inr ())"

definition container :: "Limits \<Rightarrow> nat \<Rightarrow> nbt_error + nat" where
  "container L depth = (if depth \<ge> max_depth L then Inl DepthLimit else Inr (depth + 1))"

text \<open>\<open>Vec::new()\<close> followed by \<open>try_reserve_exact(n)\<close> on elements of \<open>w\<close> bytes.\<close>

definition reserve_exact :: "alloc_env \<Rightarrow> nat \<Rightarrow> nat \<Rightarrow> nbt_error + nat" where
  "reserve_exact env w n = ok_or (try_reserve_exact env w n) AllocationFailed"

definition string_r :: "alloc_env \<Rightarrow> Limits \<Rightarrow> bool \<Rightarrow> Reader \<Rightarrow> nbt_error + (nbt_string \<times> Reader)" where
  "string_r env L account_units r =
     bind_r (short_r r) (\<lambda>(n, r).
     bind_r (take_r (unat n) r) (\<lambda>(bytes, r).
     bind_r (modified_utf8_count bytes) (\<lambda>units.
     bind_r (if account_units then account L (units * 2) r else Inr r) (\<lambda>r.
     bind_r (allocation L (units * 2) r) (\<lambda>r.
     bind_r (reserve_exact env 2 units) (\<lambda>_.
     bind_r (modified_utf8_units bytes) (\<lambda>us. Inr (us, r))))))))"

section \<open>Arrays\<close>

definition array_length :: "Limits \<Rightarrow> nat \<Rightarrow> Reader \<Rightarrow> nbt_error + (nat \<times> Reader)" where
  "array_length L width r =
     bind_r (account L 24 r) (\<lambda>r.
     bind_r (count_r r) (\<lambda>(count, r).
     bind_r (ok_or (checked_mul count width) LengthOverflow) (\<lambda>bytes.
     bind_r (account L bytes r) (\<lambda>r.
     if bytes > length (r_input r) then Inl Truncated
     else bind_r (allocation L bytes r) (\<lambda>r. Inr (count, r))))))"

definition byte_array :: "alloc_env \<Rightarrow> Limits \<Rightarrow> Reader \<Rightarrow> nbt_error + (Tag \<times> Reader)" where
  "byte_array env L r =
     bind_r (array_length L 1 r) (\<lambda>(count, r).
     bind_r (take_r count r) (\<lambda>(bytes, r).
     bind_r (reserve_exact env 1 count) (\<lambda>_. Inr (ByteArray bytes, r))))"

fun ints_r :: "nat \<Rightarrow> Reader \<Rightarrow> nbt_error + (u32 list \<times> Reader)" where
  "ints_r 0 r = Inr ([], r)"
| "ints_r (Suc n) r = bind_r (int_r r) (\<lambda>(v, r). bind_r (ints_r n r) (\<lambda>(vs, r). Inr (v # vs, r)))"

fun longs_r :: "nat \<Rightarrow> Reader \<Rightarrow> nbt_error + (u64 list \<times> Reader)" where
  "longs_r 0 r = Inr ([], r)"
| "longs_r (Suc n) r = bind_r (long_r r) (\<lambda>(v, r). bind_r (longs_r n r) (\<lambda>(vs, r). Inr (v # vs, r)))"

definition int_array :: "alloc_env \<Rightarrow> Limits \<Rightarrow> Reader \<Rightarrow> nbt_error + (Tag \<times> Reader)" where
  "int_array env L r =
     bind_r (array_length L 4 r) (\<lambda>(count, r).
     bind_r (reserve_exact env 4 count) (\<lambda>_.
     bind_r (ints_r count r) (\<lambda>(vs, r). Inr (IntArray vs, r))))"

definition long_array :: "alloc_env \<Rightarrow> Limits \<Rightarrow> Reader \<Rightarrow> nbt_error + (Tag \<times> Reader)" where
  "long_array env L r =
     bind_r (array_length L 8 r) (\<lambda>(count, r).
     bind_r (reserve_exact env 8 count) (\<lambda>_.
     bind_r (longs_r count r) (\<lambda>(vs, r). Inr (LongArray vs, r))))"

section \<open>Payloads\<close>

definition canonical_f32 :: "u32 \<Rightarrow> u32" where
  "canonical_f32 b = (if f32_is_zero b then 0 else b)"

definition canonical_f64 :: "u64 \<Rightarrow> u64" where
  "canonical_f64 b = (if f64_is_zero b then 0 else b)"

text \<open>The arms of \<open>payload\<close> that do not recurse.\<close>

definition scalar_payload :: "alloc_env \<Rightarrow> Limits \<Rightarrow> byte \<Rightarrow> Reader \<Rightarrow> nbt_error + (Tag \<times> Reader)" where
  "scalar_payload env L i r =
     (if i = 0 then Inl UnexpectedEnd
      else if i = 1 then bind_r (account L 9 r) (\<lambda>r. bind_r (byte_r r) (\<lambda>(v, r). Inr (Byte v, r)))
      else if i = 2 then bind_r (account L 10 r) (\<lambda>r. bind_r (short_r r) (\<lambda>(v, r). Inr (Short v, r)))
      else if i = 3 then bind_r (account L 12 r) (\<lambda>r. bind_r (int_r r) (\<lambda>(v, r). Inr (Int_t v, r)))
      else if i = 4 then bind_r (account L 16 r) (\<lambda>r. bind_r (long_r r) (\<lambda>(v, r). Inr (Long v, r)))
      else if i = 5 then bind_r (account L 12 r) (\<lambda>r.
        bind_r (int_r r) (\<lambda>(v, r). Inr (Float (canonical_f32 v), r)))
      else if i = 6 then bind_r (account L 16 r) (\<lambda>r.
        bind_r (long_r r) (\<lambda>(v, r). Inr (Double (canonical_f64 v), r)))
      else if i = 7 then byte_array env L r
      else if i = 8 then bind_r (account L 36 r) (\<lambda>r.
        bind_r (string_r env L True r) (\<lambda>(s, r). Inr (String s, r)))
      else if i = 11 then int_array env L r
      else if i = 12 then long_array env L r
      else Inl (UnknownTag i))"

definition minimum_width :: "byte \<Rightarrow> nat" where
  "minimum_width i =
     (if i = 2 \<or> i = 8 then 2
      else if i = 3 \<or> i = 5 \<or> i = 7 \<or> i = 11 \<or> i = 12 then 4
      else if i = 4 \<or> i = 6 then 8
      else if i = 9 then 5
      else 1)"

text \<open>\<open>list\<close> up to its loop: the depth of the elements, their type and their number.\<close>

definition list_header ::
  "alloc_env \<Rightarrow> Limits \<Rightarrow> nat \<Rightarrow> Reader \<Rightarrow> nbt_error + (nat \<times> byte \<times> nat \<times> Reader)" where
  "list_header env L depth r =
     bind_r (container L depth) (\<lambda>child_depth.
     bind_r (account L 36 r) (\<lambda>r.
     bind_r (byte_r r) (\<lambda>(i, r).
     bind_r (count_r r) (\<lambda>(count, r).
     bind_r (if count \<noteq> 0 then (if i = 0 then Inl UnexpectedEnd else check_id i) else Inr ()) (\<lambda>_.
     bind_r (ok_or (checked_mul count 4) LengthOverflow) (\<lambda>n.
     bind_r (account L n r) (\<lambda>r.
     bind_r (ok_or (checked_mul count (minimum_width i)) LengthOverflow) (\<lambda>minimum_bytes.
     if minimum_bytes > length (r_input r) then Inl Truncated
     else
       bind_r (ok_or (checked_mul count (size_of_Tag env)) LengthOverflow) (\<lambda>bytes.
       bind_r (allocation L bytes r) (\<lambda>r.
       bind_r (reserve_exact env (size_of_Tag env) count) (\<lambda>_.
       Inr (child_depth, i, count, r))))))))))))"

definition unwrap_element :: "Tag \<Rightarrow> Tag" where
  "unwrap_element t =
     (case t of Compound es \<Rightarrow> if is_wrapper es then snd (last es) else t | _ \<Rightarrow> t)"

text \<open>
  One turn of the loop of \<open>compound\<close> before the value is read: the type byte, and unless it is
  zero the name.
\<close>

definition entry_header ::
  "alloc_env \<Rightarrow> Limits \<Rightarrow> Reader \<Rightarrow> nbt_error + ((byte \<times> nbt_string) option \<times> Reader)" where
  "entry_header env L r =
     bind_r (byte_r r) (\<lambda>(i, r).
     if i = 0 then Inr (None, r)
     else
       bind_r (check_id i) (\<lambda>_.
       bind_r (account L 28 r) (\<lambda>r.
       bind_r (string_r env L True r) (\<lambda>(name, r). Inr (Some (i, name), r)))))"

text \<open>Growing the entry vector when it is full: the new capacity and the charged reader.\<close>

definition grow_entries :: "alloc_env \<Rightarrow> Limits \<Rightarrow> nat \<Rightarrow> nat \<Rightarrow> Reader \<Rightarrow> nbt_error + (nat \<times> Reader)" where
  "grow_entries env L len capacity r =
     (if len = capacity then
        bind_r (ok_or (checked_mul (max len 4) 2) LengthOverflow) (\<lambda>cap.
        bind_r (ok_or (checked_mul cap (size_of_CompoundEntry env)) LengthOverflow) (\<lambda>bytes.
        bind_r (allocation L bytes r) (\<lambda>r.
        bind_r (reserve_exact env (size_of_CompoundEntry env) cap) (\<lambda>granted. Inr (granted, r)))))
      else Inr (capacity, r))"

definition finish_compound :: "Limits \<Rightarrow> compound \<Rightarrow> Reader \<Rightarrow> nbt_error + (Tag \<times> Reader)" where
  "finish_compound L entries r =
     (let es = dedup_last (sort_entries entries) in
      bind_r (ok_or (checked_mul (length es) 36) LengthOverflow) (\<lambda>n.
      bind_r (account L n r) (\<lambda>r. Inr (Compound es, r))))"

function (sequential) payload ::
  "alloc_env \<Rightarrow> Limits \<Rightarrow> byte \<Rightarrow> nat \<Rightarrow> Reader \<Rightarrow> nbt_error + (Tag \<times> Reader)"
and list_loop ::
  "alloc_env \<Rightarrow> Limits \<Rightarrow> byte \<Rightarrow> nat \<Rightarrow> nat \<Rightarrow> Reader \<Rightarrow> nbt_error + (Tag list \<times> Reader)"
and compound_loop ::
  "alloc_env \<Rightarrow> Limits \<Rightarrow> nat \<Rightarrow> nat \<Rightarrow> compound \<Rightarrow> Reader \<Rightarrow> nbt_error + (compound \<times> Reader)" where
  "payload env L i depth r =
     (if i = 9 then
        bind_r (list_header env L depth r) (\<lambda>(child_depth, i, count, r).
        bind_r (list_loop env L i child_depth count r) (\<lambda>(vs, r). Inr (List vs, r)))
      else if i = 10 then
        bind_r (container L depth) (\<lambda>child_depth.
        bind_r (account L 48 r) (\<lambda>r.
        bind_r (compound_loop env L child_depth 0 [] r) (\<lambda>(entries, r). finish_compound L entries r)))
      else scalar_payload env L i r)"
| "list_loop env L i child_depth 0 r = Inr ([], r)"
| "list_loop env L i child_depth (Suc n) r =
     bind_r (payload env L i child_depth r) (\<lambda>(v, r).
     bind_r (list_loop env L i child_depth n r) (\<lambda>(vs, r). Inr (unwrap_element v # vs, r)))"
| "compound_loop env L child_depth capacity entries r =
     bind_r (entry_header env L r) (\<lambda>(h, r).
     case h of None \<Rightarrow> Inr (entries, r)
     | Some (i, name) \<Rightarrow>
         bind_r (payload env L i child_depth r) (\<lambda>(v, r).
         bind_r (grow_entries env L (length entries) capacity r) (\<lambda>(capacity, r).
         compound_loop env L child_depth capacity (entries @ [(name, v)]) r)))"
  by pat_completeness auto

section \<open>Every read consumes its input from the front\<close>

text \<open>The state of the reader after a successful step has no more input than before.\<close>

abbreviation left :: "Reader \<Rightarrow> nat" where
  "left r \<equiv> length (r_input r)"

named_theorems shrinks \<open>successful reads do not lengthen the input\<close>

lemma take_r_left [shrinks]: "take_r n r = Inr (bs, r') \<Longrightarrow> left r = left r' + n"
  by (auto simp: take_r_def split: if_splits)

lemma byte_r_left [shrinks]: "byte_r r = Inr (b, r') \<Longrightarrow> left r = left r' + 1"
  by (auto simp: byte_r_def result_simps dest: take_r_left)

lemma short_r_left [shrinks]: "short_r r = Inr (b, r') \<Longrightarrow> left r = left r' + 2"
  by (auto simp: short_r_def result_simps dest: take_r_left)

lemma int_r_left [shrinks]: "int_r r = Inr (b, r') \<Longrightarrow> left r = left r' + 4"
  by (auto simp: int_r_def result_simps dest: take_r_left)

lemma long_r_left [shrinks]: "long_r r = Inr (b, r') \<Longrightarrow> left r = left r' + 8"
  by (auto simp: long_r_def result_simps dest: take_r_left)

lemma count_r_left [shrinks]: "count_r r = Inr (b, r') \<Longrightarrow> left r = left r' + 4"
  by (auto simp: count_r_def result_simps dest: int_r_left split: if_splits)

lemma account_left [shrinks]: "account L n r = Inr r' \<Longrightarrow> r_input r' = r_input r"
  by (auto simp: account_def result_simps split: if_splits)

lemma allocation_left [shrinks]: "allocation L n r = Inr r' \<Longrightarrow> r_input r' = r_input r"
  by (auto simp: allocation_def result_simps split: if_splits)

lemma string_r_left [shrinks]: "string_r env L a r = Inr (s, r') \<Longrightarrow> left r' < left r"
  by (auto simp: string_r_def result_simps dest!: shrinks split: if_splits)

lemma array_length_left [shrinks]: "array_length L w r = Inr (n, r') \<Longrightarrow> left r' < left r"
  by (auto simp: array_length_def result_simps dest!: shrinks split: if_splits)

lemma ints_r_left [shrinks]: "ints_r n r = Inr (vs, r') \<Longrightarrow> left r' \<le> left r"
  by (induction n arbitrary: r vs r') (fastforce simp: result_simps dest: int_r_left)+

lemma longs_r_left [shrinks]: "longs_r n r = Inr (vs, r') \<Longrightarrow> left r' \<le> left r"
  by (induction n arbitrary: r vs r') (fastforce simp: result_simps dest: long_r_left)+

lemma scalar_payload_left [shrinks]: "scalar_payload env L i r = Inr (t, r') \<Longrightarrow> left r' \<le> left r"
  by (auto simp: scalar_payload_def byte_array_def int_array_def long_array_def result_simps
      split: if_splits dest!: shrinks)

lemma list_header_left [shrinks]:
  "list_header env L depth r = Inr (d, i, n, r') \<Longrightarrow> left r' < left r \<and> d = Suc depth \<and> depth < max_depth L"
  by (auto simp: list_header_def container_def result_simps split: if_splits dest!: shrinks)

lemma entry_header_left [shrinks]: "entry_header env L r = Inr (h, r') \<Longrightarrow> left r' < left r"
  by (fastforce simp: entry_header_def result_simps split: if_splits dest: shrinks)

lemma grow_entries_left [shrinks]: "grow_entries env L n c r = Inr (c', r') \<Longrightarrow> r_input r' = r_input r"
  by (auto simp: grow_entries_def result_simps split: if_splits dest: shrinks)

lemma finish_compound_left [shrinks]: "finish_compound L es r = Inr (t, r') \<Longrightarrow> r_input r' = r_input r"
  by (auto simp: finish_compound_def result_simps Let_def dest: shrinks)

lemma payload_dom_left:
  "payload_list_loop_compound_loop_dom (Inl (env, L, i, depth, r)) \<Longrightarrow>
     payload env L i depth r = Inr (t, r') \<Longrightarrow> left r' \<le> left r"
  "payload_list_loop_compound_loop_dom (Inr (Inl (env, L, i, d, n, r))) \<Longrightarrow>
     list_loop env L i d n r = Inr (vs, r') \<Longrightarrow> left r' \<le> left r"
  "payload_list_loop_compound_loop_dom (Inr (Inr (env, L, d, c, es, r))) \<Longrightarrow>
     compound_loop env L d c es r = Inr (es', r') \<Longrightarrow> left r' \<le> left r"
proof (induction env L i depth r and env L i d n r and env L d c es r
    arbitrary: t r' and vs r' and es' r' rule: payload_list_loop_compound_loop.pinduct)
  case (1 env L i depth r)
  show ?case
  proof (cases "i = 9 \<or> i = 10")
    case True
    then show ?thesis using 1
      by (fastforce simp: payload.psimps result_simps dest: shrinks)
  next
    case False
    then show ?thesis using 1 by (auto simp: payload.psimps dest: shrinks)
  qed
next
  case (2 env L i d r)
  then show ?case by (simp add: list_loop.psimps)
next
  case (3 env L i d n r)
  from "3.prems" obtain v r1 vs1 where
    "payload env L i d r = Inr (v, r1)" "list_loop env L i d n r1 = Inr (vs1, r')"
    using "3.hyps" by (auto simp: list_loop.psimps result_simps)
  then show ?case using "3.IH" by fastforce
next
  case (4 env L d c es r)
  from "4.prems" obtain h r1 where h: "entry_header env L r = Inr (h, r1)"
    using "4.hyps" by (auto simp: compound_loop.psimps result_simps)
  show ?case
  proof (cases h)
    case None
    then show ?thesis using "4.hyps" "4.prems" h
      by (auto simp: compound_loop.psimps dest: shrinks)
  next
    case (Some e)
    obtain i name where e: "h = Some (i, name)" using Some by (cases e) simp
    from "4.prems" h e obtain v r2 c' r3 where
      "payload env L i d r1 = Inr (v, r2)" "grow_entries env L (length es) c r2 = Inr (c', r3)"
      "compound_loop env L d c' (es @ [(name, v)]) r3 = Inr (es', r')"
      using "4.hyps" by (auto simp: compound_loop.psimps result_simps)
    then show ?thesis using "4.IH" h e by (fastforce dest: shrinks)
  qed
qed

termination payload
proof (relation "measures
    [\<lambda>x. case x of Inl (env, L, i, depth, r) \<Rightarrow> 2 * (max_depth L - depth)
      | Inr (Inl (env, L, i, d, n, r)) \<Rightarrow> 2 * (max_depth L - d) + 1
      | Inr (Inr (env, L, d, c, es, r)) \<Rightarrow> 2 * (max_depth L - d) + 1,
    \<lambda>x. case x of Inl _ \<Rightarrow> 0 | Inr (Inl (env, L, i, d, n, r)) \<Rightarrow> n
      | Inr (Inr (env, L, d, c, es, r)) \<Rightarrow> left r]", goal_cases)
  case 1
  then show ?case by simp
next
  case 2
  then show ?case by (auto dest!: list_header_left)
next
  case 3
  then show ?case by (auto simp: container_def split: if_splits)
next
  case 7
  then show ?case by (auto dest!: entry_header_left payload_dom_left grow_entries_left)
qed simp_all

declare payload.simps [simp del] compound_loop.simps [simp del]

section \<open>Roots\<close>

definition new_reader :: "byte list \<Rightarrow> Reader" where
  "new_reader input = \<lparr>r_input = input, r_quota = 0, r_allocation = 0\<rparr>"

text \<open>
  The root functions return the advanced slice with the value; on an error the caller's slice
  is the one it passed.
\<close>

definition read_network_accounted ::
  "alloc_env \<Rightarrow> byte list \<Rightarrow> Limits \<Rightarrow> nbt_error + ((Tag \<times> nat) \<times> byte list)" where
  "read_network_accounted env input L =
     bind_r (validate_limits L) (\<lambda>_.
     bind_r (byte_r (new_reader input)) (\<lambda>(i, r).
     bind_r (if i = 0 then Inr (End, r) else payload env L i 0 r) (\<lambda>(tag, r).
     Inr ((tag, r_allocation r), r_input r))))"

definition read_network ::
  "alloc_env \<Rightarrow> byte list \<Rightarrow> Limits \<Rightarrow> nbt_error + (Tag \<times> byte list)" where
  "read_network env input L =
     map_r (\<lambda>((tag, _), rest). (tag, rest)) (read_network_accounted env input L)"

definition read_named ::
  "alloc_env \<Rightarrow> byte list \<Rightarrow> Limits \<Rightarrow> nbt_error + ((nbt_string \<times> Tag) \<times> byte list)" where
  "read_named env input L =
     bind_r (validate_limits L) (\<lambda>_.
     bind_r (byte_r (new_reader input)) (\<lambda>(i, r).
     bind_r
       (if i = 0 then Inr (([], End), r)
        else
          bind_r (check_id i) (\<lambda>_.
          bind_r (string_r env L False r) (\<lambda>(name, r).
          bind_r (payload env L i 0 r) (\<lambda>(tag, r). Inr ((name, tag), r)))))
       (\<lambda>(named, r). Inr (named, r_input r))))"

section \<open>What a read may change\<close>

text \<open>
  A successful read leaves a suffix of its input, never lowers a budget counter, and keeps each
  counter within its limit.
\<close>

definition advances :: "Limits \<Rightarrow> Reader \<Rightarrow> Reader \<Rightarrow> bool" where
  "advances L r r' \<longleftrightarrow>
     (\<exists>n. r_input r' = drop n (r_input r)) \<and>
     r_quota r \<le> r_quota r' \<and> (r_quota r \<le> vanilla_quota_bytes L \<longrightarrow> r_quota r' \<le> vanilla_quota_bytes L) \<and>
     r_allocation r \<le> r_allocation r' \<and>
     (r_allocation r \<le> allocation_bytes L \<longrightarrow> r_allocation r' \<le> allocation_bytes L)"

named_theorems advance_intros \<open>reads advance the reader\<close>

lemma advances_refl [simp]: "advances L r r"
  by (auto simp: advances_def intro: exI [of _ 0])

lemma advances_trans [trans]: "advances L r r1 \<Longrightarrow> advances L r1 r2 \<Longrightarrow> advances L r r2"
  unfolding advances_def by (auto; metis drop_drop)

lemma take_r_advances [advance_intros]: "take_r n r = Inr (bs, r') \<Longrightarrow> advances L r r'"
  by (auto simp: take_r_def advances_def split: if_splits)

lemma byte_r_advances [advance_intros]: "byte_r r = Inr (b, r') \<Longrightarrow> advances L r r'"
  by (auto simp: byte_r_def result_simps intro: advance_intros)

lemma short_r_advances [advance_intros]: "short_r r = Inr (b, r') \<Longrightarrow> advances L r r'"
  by (auto simp: short_r_def result_simps intro: advance_intros)

lemma int_r_advances [advance_intros]: "int_r r = Inr (b, r') \<Longrightarrow> advances L r r'"
  by (auto simp: int_r_def result_simps intro: advance_intros)

lemma long_r_advances [advance_intros]: "long_r r = Inr (b, r') \<Longrightarrow> advances L r r'"
  by (auto simp: long_r_def result_simps intro: advance_intros)

lemma count_r_advances [advance_intros]: "count_r r = Inr (b, r') \<Longrightarrow> advances L r r'"
  by (auto simp: count_r_def result_simps intro: advance_intros split: if_splits)

lemma account_advances [advance_intros]: "account L n r = Inr r' \<Longrightarrow> advances L r r'"
  by (auto simp: account_def advances_def result_simps usize_simps split: if_splits intro: exI [of _ 0])

lemma allocation_advances [advance_intros]: "allocation L n r = Inr r' \<Longrightarrow> advances L r r'"
  by (auto simp: allocation_def advances_def result_simps usize_simps split: if_splits intro: exI [of _ 0])

lemma string_r_advances [advance_intros]: "string_r env L a r = Inr (s, r') \<Longrightarrow> advances L r r'"
  by (auto simp: string_r_def result_simps split: if_splits) (meson advances_trans advance_intros)+

lemma array_length_advances [advance_intros]: "array_length L w r = Inr (n, r') \<Longrightarrow> advances L r r'"
  by (auto simp: array_length_def result_simps split: if_splits) (meson advances_trans advance_intros)

lemma ints_r_advances [advance_intros]: "ints_r n r = Inr (vs, r') \<Longrightarrow> advances L r r'"
proof (induction n arbitrary: r vs)
  case (Suc n)
  then show ?case by (auto simp: result_simps) (meson advances_trans int_r_advances)
qed simp

lemma longs_r_advances [advance_intros]: "longs_r n r = Inr (vs, r') \<Longrightarrow> advances L r r'"
proof (induction n arbitrary: r vs)
  case (Suc n)
  then show ?case by (auto simp: result_simps) (meson advances_trans long_r_advances)
qed simp

lemma scalar_payload_advances [advance_intros]:
  "scalar_payload env L i r = Inr (t, r') \<Longrightarrow> advances L r r'"
  by (auto simp: scalar_payload_def byte_array_def int_array_def long_array_def result_simps
      split: if_splits) (meson advances_trans advance_intros)+

lemma list_header_advances [advance_intros]:
  "list_header env L depth r = Inr (d, i, n, r') \<Longrightarrow> advances L r r'"
  by (auto simp: list_header_def result_simps split: if_splits) (meson advances_trans advance_intros)+

lemma entry_header_advances [advance_intros]: "entry_header env L r = Inr (h, r') \<Longrightarrow> advances L r r'"
  by (auto simp: entry_header_def result_simps split: if_splits) (meson advances_trans advance_intros)+

lemma grow_entries_advances [advance_intros]:
  "grow_entries env L n c r = Inr (c', r') \<Longrightarrow> advances L r r'"
  by (auto simp: grow_entries_def result_simps split: if_splits intro: advance_intros)

lemma finish_compound_advances [advance_intros]:
  "finish_compound L es r = Inr (t, r') \<Longrightarrow> advances L r r'"
  by (auto simp: finish_compound_def result_simps Let_def intro: advance_intros)

text \<open>The ways a payload and a turn of the compound loop can succeed.\<close>

lemma payload_cases:
  assumes "payload env L i depth r = Inr (t, r')"
  obtains (list) d i' n r1 vs where "i = 9" "list_header env L depth r = Inr (d, i', n, r1)"
      "list_loop env L i' d n r1 = Inr (vs, r')" "t = List vs"
    | (compound) d r1 es r2 where "i = 10" "container L depth = Inr d" "account L 48 r = Inr r1"
      "compound_loop env L d 0 [] r1 = Inr (es, r2)" "finish_compound L es r2 = Inr (t, r')"
    | (scalar) "i \<noteq> 9" "i \<noteq> 10" "scalar_payload env L i r = Inr (t, r')"
  using assms
  by (cases "i = 9"; cases "i = 10") (auto simp: payload.simps result_simps intro: that)

lemma compound_loop_cases:
  assumes "compound_loop env L d c es r = Inr (es', r')"
  obtains (stop) "entry_header env L r = Inr (None, r')" "es' = es"
    | (entry) i name r1 v r2 c' r3 where "entry_header env L r = Inr (Some (i, name), r1)"
      "payload env L i d r1 = Inr (v, r2)" "grow_entries env L (length es) c r2 = Inr (c', r3)"
      "compound_loop env L d c' (es @ [(name, v)]) r3 = Inr (es', r')"
proof -
  from assms obtain h r1 where h: "entry_header env L r = Inr (h, r1)"
    by (auto simp: compound_loop.simps [of env L d c es r] result_simps)
  show thesis
  proof (cases h)
    case None
    then show thesis using assms h stop by (simp add: compound_loop.simps [of env L d c es r])
  next
    case (Some e)
    then show thesis using assms h
      by (cases e) (auto simp: compound_loop.simps [of env L d c es r] result_simps intro: entry)
  qed
qed

lemma payload_advances:
  "payload env L i depth r = Inr (t, r') \<Longrightarrow> advances L r r'"
  "list_loop env L i d n r = Inr (vs, r') \<Longrightarrow> advances L r r'"
  "compound_loop env L d c es r = Inr (es', r') \<Longrightarrow> advances L r r'"
proof (induction env L i depth r and env L i d n r and env L d c es r
    arbitrary: t r' and vs r' and es' r' rule: payload_list_loop_compound_loop.induct)
  case (1 env L i depth r)
  from "1.prems" show ?case
  proof (cases rule: payload_cases)
    case (list d i' n r1 vs)
    have "advances L r r1" using list(2) by (rule advance_intros)
    also have "advances L r1 r'" using "1.IH"(1) [OF list(1,2) refl refl refl list(3)] .
    finally show ?thesis .
  next
    case (compound d r1 es r2)
    have "advances L r r1" using compound(3) by (rule advance_intros)
    also have "advances L r1 r2" using "1.IH"(2) [OF _ compound(1-4)] compound(1) by simp
    also have "advances L r2 r'" using compound(5) by (rule advance_intros)
    finally show ?thesis .
  qed (rule advance_intros)
next
  case (3 env L i d n r)
  then show ?case by (fastforce simp: result_simps intro: advances_trans)
next
  case (4 env L d c es r)
  from "4.prems" show ?case
  proof (cases rule: compound_loop_cases)
    case (entry i name r1 v r2 c' r3)
    have "advances L r r1" using entry(1) by (rule advance_intros)
    also have "advances L r1 r2" using "4.IH"(1) [OF entry(1) refl refl refl entry(2)] .
    also have "advances L r2 r3" using entry(3) by (rule advance_intros)
    also have "advances L r3 r'"
      using "4.IH"(2) [OF entry(1) refl refl refl entry(2) refl entry(3) refl entry(4)] .
    finally show ?thesis .
  qed (rule advance_intros)
qed simp

section \<open>Decoded tags are well-formed\<close>

lemma scalar_payload_wf: "scalar_payload env L i r = Inr (t, r') \<Longrightarrow> tag_wf t \<and> t \<noteq> End"
  by (auto simp: scalar_payload_def byte_array_def int_array_def long_array_def result_simps
      split: if_splits)

lemma finish_compound_wf:
  assumes "finish_compound L es r = Inr (t, r')" and "\<forall>e \<in> set es. snd e \<noteq> End \<and> tag_wf (snd e)"
  shows "tag_wf t \<and> t \<noteq> End"
proof -
  have "t = Compound (from_entries es)"
    using assms(1) by (auto simp: finish_compound_def from_entries_def result_simps Let_def)
  moreover have "\<forall>v \<in> snd ` set (from_entries es). v \<noteq> End \<and> tag_wf v"
    using assms(2) set_snd_from_entries [of es] by fastforce
  ultimately show ?thesis by (simp add: from_entries_wf)
qed

lemma unwrap_element_wf: "tag_wf t \<Longrightarrow> t \<noteq> End \<Longrightarrow> tag_wf (unwrap_element t) \<and> unwrap_element t \<noteq> End"
  by (cases t) (auto simp: unwrap_element_def is_wrapper_def length_Suc_conv)

lemma payload_wf:
  "payload env L i depth r = Inr (t, r') \<Longrightarrow> tag_wf t \<and> t \<noteq> End"
  "list_loop env L i d n r = Inr (vs, r') \<Longrightarrow> \<forall>v \<in> set vs. tag_wf v \<and> v \<noteq> End"
  "compound_loop env L d c es r = Inr (es', r') \<Longrightarrow> \<forall>e \<in> set es. snd e \<noteq> End \<and> tag_wf (snd e) \<Longrightarrow>
     \<forall>e \<in> set es'. snd e \<noteq> End \<and> tag_wf (snd e)"
proof (induction env L i depth r and env L i d n r and env L d c es r
    arbitrary: t r' and vs r' and es' r' rule: payload_list_loop_compound_loop.induct)
  case (1 env L i depth r)
  from "1.prems" show ?case
  proof (cases rule: payload_cases)
    case (list d i' n r1 vs)
    then show ?thesis using "1.IH"(1) [OF list(1,2) refl refl refl list(3)] by auto
  next
    case (compound d r1 es r2)
    then show ?thesis using "1.IH"(2) [OF _ compound(1-4)] by (auto dest: finish_compound_wf)
  qed (rule scalar_payload_wf)
next
  case (3 env L i d n r)
  then show ?case by (fastforce simp: result_simps dest: unwrap_element_wf)
next
  case (4 env L d c es r)
  from "4.prems"(1) show ?case
  proof (cases rule: compound_loop_cases)
    case (entry i name r1 v r2 c' r3)
    have "tag_wf v \<and> v \<noteq> End" using "4.IH"(1) [OF entry(1) refl refl refl entry(2)] .
    then show ?thesis
      using "4.IH"(2) [OF entry(1) refl refl refl entry(2) refl entry(3) refl entry(4)] "4.prems"(2) by auto
  qed (use "4.prems" in simp)
qed simp

section \<open>Depth, quota and memory of a decoded tag\<close>

text \<open>
  How deep a tag nests, what its parts cost under the accounting of the Java implementation, and
  the bytes its strings, arrays and list vectors occupy, all computed from the tag alone.
\<close>

fun tag_depth :: "Tag \<Rightarrow> nat" where
  "tag_depth (List ts) = Suc (Max (set (0 # map tag_depth ts)))"
| "tag_depth (Compound es) = Suc (Max (set (0 # map (\<lambda>e. tag_depth (snd e)) es)))"
| "tag_depth _ = 0"

fun tag_quota :: "Tag \<Rightarrow> nat" where
  "tag_quota End = 0"
| "tag_quota (Byte _) = 9"
| "tag_quota (Short _) = 10"
| "tag_quota (Int_t _) = 12"
| "tag_quota (Long _) = 16"
| "tag_quota (Float _) = 12"
| "tag_quota (Double _) = 16"
| "tag_quota (ByteArray vs) = 24 + length vs"
| "tag_quota (String s) = 36 + 2 * length s"
| "tag_quota (List ts) = 36 + 4 * length ts + sum_list (map tag_quota ts)"
| "tag_quota (Compound es) =
     48 + 36 * length es + sum_list (map (\<lambda>e. 28 + 2 * length (fst e) + tag_quota (snd e)) es)"
| "tag_quota (IntArray vs) = 24 + 4 * length vs"
| "tag_quota (LongArray vs) = 24 + 8 * length vs"

fun tag_heap :: "alloc_env \<Rightarrow> Tag \<Rightarrow> nat" where
  "tag_heap env (ByteArray vs) = length vs"
| "tag_heap env (String s) = 2 * length s"
| "tag_heap env (List ts) = length ts * size_of_Tag env + sum_list (map (tag_heap env) ts)"
| "tag_heap env (Compound es) = sum_list (map (\<lambda>e. 2 * length (fst e) + tag_heap env (snd e)) es)"
| "tag_heap env (IntArray vs) = 4 * length vs"
| "tag_heap env (LongArray vs) = 8 * length vs"
| "tag_heap env _ = 0"

text \<open>\<open>covers r r' q a\<close>: the step from \<open>r\<close> to \<open>r'\<close> charged at least \<open>q\<close> and \<open>a\<close> bytes.\<close>

definition covers :: "Reader \<Rightarrow> Reader \<Rightarrow> nat \<Rightarrow> nat \<Rightarrow> bool" where
  "covers r r' q a \<longleftrightarrow> r_quota r + q \<le> r_quota r' \<and> r_allocation r + a \<le> r_allocation r'"

named_theorems charges \<open>what the steps of the reader charge\<close>

lemma take_r_charges [charges]:
  "take_r n r = Inr (bs, r') \<Longrightarrow> r_quota r' = r_quota r \<and> r_allocation r' = r_allocation r \<and> length bs = n"
  by (auto simp: take_r_def split: if_splits)

lemma number_charges [charges]:
  "byte_r r = Inr (b, r') \<Longrightarrow> r_quota r' = r_quota r \<and> r_allocation r' = r_allocation r"
  "short_r r = Inr (h, r') \<Longrightarrow> r_quota r' = r_quota r \<and> r_allocation r' = r_allocation r"
  "int_r r = Inr (w, r') \<Longrightarrow> r_quota r' = r_quota r \<and> r_allocation r' = r_allocation r"
  "long_r r = Inr (l, r') \<Longrightarrow> r_quota r' = r_quota r \<and> r_allocation r' = r_allocation r"
  by (auto simp: byte_r_def short_r_def int_r_def long_r_def result_simps dest: take_r_charges)

lemma count_r_charges [charges]:
  "count_r r = Inr (n, r') \<Longrightarrow> r_quota r' = r_quota r \<and> r_allocation r' = r_allocation r"
  by (auto simp: count_r_def result_simps dest: charges split: if_splits)

lemma account_charges [charges]:
  "account L n r = Inr r' \<Longrightarrow> r_quota r' = r_quota r + n \<and> r_allocation r' = r_allocation r"
  by (auto simp: account_def result_simps usize_simps split: if_splits)

lemma allocation_charges [charges]:
  "allocation L n r = Inr r' \<Longrightarrow> r_quota r' = r_quota r \<and> r_allocation r' = r_allocation r + n"
  by (auto simp: allocation_def result_simps usize_simps split: if_splits)

lemma string_r_charges [charges]:
  "string_r env L True r = Inr (s, r') \<Longrightarrow>
   r_quota r' = r_quota r + 2 * length s \<and> r_allocation r' = r_allocation r + 2 * length s"
  by (auto simp: string_r_def result_simps modified_utf8_count_units dest!: charges)

lemma array_length_charges [charges]:
  "array_length L w r = Inr (n, r') \<Longrightarrow>
   r_quota r' = r_quota r + 24 + n * w \<and> r_allocation r' = r_allocation r + n * w"
  by (auto simp: array_length_def result_simps usize_simps dest!: charges split: if_splits)

lemma ints_r_charges [charges]:
  "ints_r n r = Inr (vs, r') \<Longrightarrow> r_quota r' = r_quota r \<and> r_allocation r' = r_allocation r \<and> length vs = n"
  by (induction n arbitrary: r vs) (fastforce simp: result_simps dest: charges)+

lemma longs_r_charges [charges]:
  "longs_r n r = Inr (vs, r') \<Longrightarrow> r_quota r' = r_quota r \<and> r_allocation r' = r_allocation r \<and> length vs = n"
  by (induction n arbitrary: r vs) (fastforce simp: result_simps dest: charges)+

lemma scalar_payload_charges:
  "scalar_payload env L i r = Inr (t, r') \<Longrightarrow> covers r r' (tag_quota t) (tag_heap env t) \<and> tag_depth t = 0"
  by (auto simp: scalar_payload_def byte_array_def int_array_def long_array_def covers_def result_simps
      split: if_splits dest!: charges)

lemma list_header_charges:
  "list_header env L depth r = Inr (d, i, n, r') \<Longrightarrow> covers r r' (36 + 4 * n) (n * size_of_Tag env)"
  by (auto simp: list_header_def covers_def result_simps usize_simps split: if_splits dest!: charges)

lemma entry_header_charges:
  "entry_header env L r = Inr (h, r') \<Longrightarrow>
   covers r r' (case h of None \<Rightarrow> 0 | Some (i, name) \<Rightarrow> 28 + 2 * length name)
     (case h of None \<Rightarrow> 0 | Some (i, name) \<Rightarrow> 2 * length name)"
  by (auto simp: entry_header_def covers_def result_simps split: if_splits dest!: charges)

lemma grow_entries_charges: "grow_entries env L n c r = Inr (c', r') \<Longrightarrow> covers r r' 0 0"
  by (auto simp: grow_entries_def covers_def result_simps split: if_splits dest!: charges)

text \<open>Sorting keeps the entries and removing duplicates only drops some, so no sum grows.\<close>

lemma sum_dedup_last: "sum_list (map f (dedup_last es)) \<le> (sum_list (map f es) :: nat)"
  by (induction es rule: dedup_last.induct) (auto simp: add.commute add_le_mono trans_le_add2)

lemma sum_from_entries: "sum_list (map f (from_entries es)) \<le> (sum_list (map f es) :: nat)"
proof -
  have "mset (map f (sort_key fst es)) = mset (map f es)" by simp
  then have "sum_list (map f (sort_key fst es)) = sum_list (map f es)" by (metis sum_mset_sum_list)
  then show ?thesis using sum_dedup_last [of f "sort_entries es"] by (simp add: from_entries_def sort_entries_eq)
qed

lemma finish_compound_tag:
  "finish_compound L es r = Inr (t, r') \<Longrightarrow>
   t = Compound (from_entries es) \<and> covers r r' (36 * length (from_entries es)) 0"
  by (auto simp: finish_compound_def from_entries_def covers_def result_simps usize_simps Let_def dest!: charges)

lemma Suc_Max_le: "Suc (Max (set (0 # xs))) \<le> n \<longleftrightarrow> 0 < n \<and> (\<forall>x \<in> set xs. x < n)"
  by (auto simp: Suc_le_eq)

lemma unwrap_element_charges:
  "tag_quota (unwrap_element t) \<le> tag_quota t \<and> tag_heap env (unwrap_element t) \<le> tag_heap env t \<and>
   tag_depth (unwrap_element t) \<le> tag_depth t"
proof (cases "\<exists>es. t = Compound es \<and> is_wrapper es")
  case True
  then obtain e where "t = Compound [e]" "unwrap_element t = snd e"
    by (auto simp: unwrap_element_def is_wrapper_def length_Suc_conv)
  then show ?thesis by simp
next
  case False
  then show ?thesis by (cases t) (auto simp: unwrap_element_def)
qed

abbreviation entry_quota :: "compound \<Rightarrow> nat" where
  "entry_quota es \<equiv> sum_list (map (\<lambda>e. 28 + 2 * length (fst e) + tag_quota (snd e)) es)"

abbreviation entry_heap :: "alloc_env \<Rightarrow> compound \<Rightarrow> nat" where
  "entry_heap env es \<equiv> sum_list (map (\<lambda>e. 2 * length (fst e) + tag_heap env (snd e)) es)"

abbreviation entry_depths :: "Limits \<Rightarrow> nat \<Rightarrow> compound \<Rightarrow> bool" where
  "entry_depths L d es \<equiv> (\<forall>e \<in> set es. d + tag_depth (snd e) \<le> max_depth L)"

lemma compound_charges:
  assumes fin: "finish_compound L es r2 = Inr (t, r')" and r: "account L 48 r = Inr r1"
    and es: "covers r1 r2 (entry_quota es) (entry_heap env es)" "entry_depths L (Suc d) es" and d: "d < max_depth L"
  shows "d + tag_depth t \<le> max_depth L \<and> covers r r' (tag_quota t) (tag_heap env t)"
proof -
  note f = finish_compound_tag [OF fin]
  have "snd ` set (from_entries es) \<subseteq> snd ` set es" by (rule set_snd_from_entries)
  then have "\<forall>e \<in> set (from_entries es). tag_depth (snd e) < max_depth L - d"
    using es(2) by fastforce
  then have "tag_depth t \<le> max_depth L - d" using f d by (simp only: tag_depth.simps Suc_Max_le) auto
  moreover have "entry_quota (from_entries es) \<le> entry_quota es" "entry_heap env (from_entries es) \<le> entry_heap env es"
    by (rule sum_from_entries)+
  ultimately show ?thesis using f es(1) account_charges [OF r] d by (simp add: covers_def)
qed

lemma payload_charges:
  "payload env L i depth r = Inr (t, r') \<Longrightarrow> depth \<le> max_depth L \<Longrightarrow>
     depth + tag_depth t \<le> max_depth L \<and> covers r r' (tag_quota t) (tag_heap env t)"
  "list_loop env L i d n r = Inr (vs, r') \<Longrightarrow> d \<le> max_depth L \<Longrightarrow>
     (\<forall>v \<in> set vs. d + tag_depth v \<le> max_depth L) \<and> length vs = n \<and>
     covers r r' (sum_list (map tag_quota vs)) (sum_list (map (tag_heap env) vs))"
  "compound_loop env L d c es r = Inr (es', r') \<Longrightarrow> d \<le> max_depth L \<Longrightarrow> entry_depths L d es \<Longrightarrow>
     entry_depths L d es' \<and> r_quota r + entry_quota es' \<le> r_quota r' + entry_quota es \<and>
     r_allocation r + entry_heap env es' \<le> r_allocation r' + entry_heap env es"
proof (induction env L i depth r and env L i d n r and env L d c es r
    arbitrary: t r' and vs r' and es' r' rule: payload_list_loop_compound_loop.induct)
  case (1 env L i depth r)
  from "1.prems"(1) show ?case
  proof (cases rule: payload_cases)
    case (list d i' n r1 vs)
    have d: "d = Suc depth" "depth < max_depth L" using list_header_left [OF list(2)] by simp_all
    then have IH: "\<forall>v \<in> set vs. d + tag_depth v \<le> max_depth L" "length vs = n"
      "covers r1 r' (sum_list (map tag_quota vs)) (sum_list (map (tag_heap env) vs))"
      using "1.IH"(1) [OF list(1,2) refl refl refl list(3)] by simp_all
    have "tag_depth t \<le> max_depth L - depth"
      unfolding list(4) tag_depth.simps Suc_Max_le using IH(1) d by auto
    then show ?thesis using IH(2,3) d list(4) list_header_charges [OF list(2)] by (simp add: covers_def)
  next
    case (compound d r1 es r2)
    have d: "d = Suc depth" "depth < max_depth L" using compound(2) by (auto simp: container_def split: if_splits)
    then have IH: "entry_depths L (Suc depth) es" "covers r1 r2 (entry_quota es) (entry_heap env es)"
      using "1.IH"(2) [OF _ compound(1-4)] compound(1) by (simp_all add: covers_def)
    show ?thesis by (rule compound_charges [OF compound(5,3) IH(2,1) d(2)])
  next
    case scalar
    then show ?thesis using scalar_payload_charges [OF scalar(3)] "1.prems"(2) by simp
  qed
next
  case (2 env L i d r)
  then show ?case by (simp add: covers_def)
next
  case (3 env L i d n r)
  from "3.prems"(1) obtain v r1 vs1 where
    v: "payload env L i d r = Inr (v, r1)" "list_loop env L i d n r1 = Inr (vs1, r')" "vs = unwrap_element v # vs1"
    by (auto simp: result_simps)
  then show ?case
    using "3.IH"(1) [OF v(1) "3.prems"(2)] "3.IH"(2) [OF v(1) refl v(2) "3.prems"(2)] unwrap_element_charges [of v env]
    by (auto simp: covers_def)
next
  case (4 env L d c es r)
  from "4.prems"(1) show ?case
  proof (cases rule: compound_loop_cases)
    case stop
    then show ?thesis using entry_header_charges [OF stop(1)] "4.prems" by (simp add: covers_def)
  next
    case (entry i name r1 v r2 c' r3)
    have v: "d + tag_depth v \<le> max_depth L" "covers r1 r2 (tag_quota v) (tag_heap env v)"
      using "4.IH"(1) [OF entry(1) refl refl refl entry(2) "4.prems"(2)] by simp_all
    have "entry_depths L d (es @ [(name, v)])" using v(1) "4.prems"(3) by auto
    from "4.IH"(2) [OF entry(1) refl refl refl entry(2) refl entry(3) refl entry(4) "4.prems"(2) this]
    show ?thesis using v(2) entry_header_charges [OF entry(1)] grow_entries_charges [OF entry(3)] by (simp add: covers_def)
  qed
qed

section \<open>Properties\<close>

text \<open>
  C5: every successful decode of arbitrary bytes stays inside its resource policy. The tag nests
  no deeper than the depth limit, which is at most 512; its cost under the accounting of the
  Java implementation is within the quota; the memory of its strings, arrays and list vectors is
  covered by the reported cumulative allocation, which is within the allocation budget; the bytes
  not consumed are returned as a suffix of the input after at least one byte; and the tag is
  well-formed: compounds strictly sorted, \<open>End\<close> never inside a container.
\<close>

theorem read_network_accounted_safe:
  assumes "read_network_accounted env input L = Inr ((tag, allocated), rest)"
  shows "tag_depth tag \<le> max_depth L \<and> max_depth L \<le> 512 \<and> tag_quota tag \<le> vanilla_quota_bytes L \<and>
    tag_heap env tag \<le> allocated \<and> allocated \<le> allocation_bytes L \<and>
    (\<exists>n. 0 < n \<and> n \<le> length input \<and> rest = drop n input) \<and> tag_wf tag"
proof -
  from assms obtain i r r' where
    depth: "max_depth L \<le> 512" and byte: "byte_r (new_reader input) = Inr (i, r)" and
    tag: "(if i = 0 then Inr (End, r) else payload env L i 0 r) = Inr (tag, r')" and
    res: "allocated = r_allocation r'" "rest = r_input r'"
    by (auto simp: read_network_accounted_def validate_limits_def result_simps split: if_splits)
  have r: "input \<noteq> []" "r_input r = drop 1 input" "r_allocation r = 0" "r_quota r = 0"
    using byte by (auto simp: byte_r_def take_r_def new_reader_def result_simps split: if_splits)
  have adv: "advances L r r'" and wf: "tag_wf tag" and chg: "tag_depth tag \<le> max_depth L"
    "covers r r' (tag_quota tag) (tag_heap env tag)"
    using tag payload_advances(1) payload_wf(1) payload_charges(1) by (fastforce simp: covers_def split: if_splits)+
  from adv obtain n where "r_input r' = drop n (drop 1 input)" by (auto simp: advances_def r)
  then have "rest = drop (min (length input) (Suc n)) input" by (simp add: res min_def)
  moreover have "0 < min (length input) (Suc n)" using r by simp
  ultimately have "\<exists>n. 0 < n \<and> n \<le> length input \<and> rest = drop n input" by (metis min.cobounded1)
  then show ?thesis using depth adv wf r res chg by (simp add: advances_def covers_def)
qed

theorem read_network_accounted_safe_witness:
  "read_network_accounted plain_env [9, 7, 0, 0, 0, 1, 0, 0, 0, 2, 5, 6, 77] default_limits =
     Inr ((List [ByteArray [5, 6]], 34), [77]) \<and>
   tag_depth (List [ByteArray [5, 6]]) \<le> 512 \<and> tag_quota (List [ByteArray [5, 6]]) \<le> vanilla_quota_bytes default_limits \<and>
   tag_heap plain_env (List [ByteArray [5, 6]]) \<le> 34 \<and> tag_wf (List [ByteArray [5, 6]])"
proof -
  have *: "read_network_accounted plain_env [9, 7, 0, 0, 0, 1, 0, 0, 0, 2, 5, 6, 77] default_limits =
      Inr ((List [ByteArray [5, 6]], 34), [77])"
    by (simp add: read_network_accounted_def default_limits_def validate_limits_def byte_r_def take_r_def int_r_def count_r_def
        new_reader_def payload.simps list_header_def container_def check_id_def minimum_width_def scalar_payload_def byte_array_def
        array_length_def account_def allocation_def reserve_exact_def unwrap_element_def plain_env_def checked_add_def checked_mul_def
        USIZE_MAX_def from_be_bytes_def)
  show ?thesis using read_network_accounted_safe [OF *] * by (auto simp: default_limits_def)
qed

end
