(* ===== verification/NbtWrite.thy ===== *)
theory NbtWrite
  imports Nbt
begin

text \<open>
  The binary writer of \<^verbatim>\<open>src/nbt/write.rs\<close>. The writer appends to the caller's vector and,
  unlike the reader, leaves what it has appended in place when it stops with an error; the
  root functions then truncate the vector. A writer step therefore returns its result together
  with the vector, in both cases.
\<close>

section \<open>Writer steps\<close>

type_synonym w_result = "(nbt_error + unit) \<times> byte list"

record Writer =
  w_env :: alloc_env
  w_limits :: Limits
  w_start :: nat

definition and_then :: "w_result \<Rightarrow> (byte list \<Rightarrow> w_result) \<Rightarrow> w_result" where
  "and_then m f = (case m of (Inl e, out) \<Rightarrow> (Inl e, out) | (Inr _, out) \<Rightarrow> f out)"

lemma and_then_simps [simp]:
  "and_then (Inl e, out) f = (Inl e, out)" "and_then (Inr u, out) f = f out"
  by (simp_all add: and_then_def)

lemma and_then_cong [fundef_cong]:
  "m = m' \<Longrightarrow> (\<And>out. m' = (Inr (), out) \<Longrightarrow> f out = g out) \<Longrightarrow> and_then m f = and_then m' g"
  by (cases m') (auto simp: and_then_def split: sum.splits)

definition reserve_w :: "Writer \<Rightarrow> nat \<Rightarrow> byte list \<Rightarrow> w_result" where
  "reserve_w w n out =
     (case checked_add (length out - w_start w) n of
        None \<Rightarrow> (Inl OutputLimit, out)
      | Some len \<Rightarrow>
          if len > output_bytes (w_limits w) then (Inl OutputLimit, out)
          else if try_reserve (w_env w) n then (Inr (), out) else (Inl AllocationFailed, out))"

definition bytes_w :: "Writer \<Rightarrow> byte list \<Rightarrow> byte list \<Rightarrow> w_result" where
  "bytes_w w bs out = and_then (reserve_w w (length bs) out) (\<lambda>out. (Inr (), out @ bs))"

definition byte_w :: "Writer \<Rightarrow> byte \<Rightarrow> byte list \<Rightarrow> w_result" where
  "byte_w w b out = bytes_w w [b] out"

text \<open>\<open>i32::try_from(len)\<close> and its four bytes.\<close>

definition length_w :: "Writer \<Rightarrow> nat \<Rightarrow> byte list \<Rightarrow> w_result" where
  "length_w w len out =
     (if len > 0x7fffffff then (Inl LengthOverflow, out)
      else bytes_w w (to_be_bytes 4 (of_nat len :: u32)) out)"

definition container_w :: "Writer \<Rightarrow> nat \<Rightarrow> nbt_error + nat" where
  "container_w w depth = (if depth \<ge> max_depth (w_limits w) then Inl DepthLimit else Inr (depth + 1))"

section \<open>Strings\<close>

definition unit_len :: "u16 \<Rightarrow> nat" where
  "unit_len u = (if 1 \<le> u \<and> u \<le> 0x7f then 1 else if u \<le> 0x7ff then 2 else 3)"

fun modified_utf8_len_loop :: "nat \<Rightarrow> nbt_string \<Rightarrow> nbt_error + nat" where
  "modified_utf8_len_loop len [] = Inr len"
| "modified_utf8_len_loop len (u # us) =
     bind_r (ok_or (checked_add len (unit_len u)) StringTooLong) (\<lambda>len.
     if len > 65535 then Inl StringTooLong else modified_utf8_len_loop len us)"

definition modified_utf8_len :: "nbt_string \<Rightarrow> nbt_error + nat" where
  "modified_utf8_len s = modified_utf8_len_loop 0 s"

definition unit_bytes :: "u16 \<Rightarrow> byte list" where
  "unit_bytes u =
     (if 1 \<le> u \<and> u \<le> 0x7f then [ucast u]
      else if u \<le> 0x7ff then [0xc0 OR ucast (drop_bit 6 u), 0x80 OR ucast (u AND 0x3f)]
      else [0xe0 OR ucast (drop_bit 12 u), 0x80 OR ucast (drop_bit 6 u AND 0x3f), 0x80 OR ucast (u AND 0x3f)])"

definition string_w :: "Writer \<Rightarrow> nbt_string \<Rightarrow> byte list \<Rightarrow> w_result" where
  "string_w w s out =
     (case modified_utf8_len s of
        Inl e \<Rightarrow> (Inl e, out)
      | Inr len \<Rightarrow>
          and_then (reserve_w w (len + 2) out) (\<lambda>out.
          (Inr (), out @ to_be_bytes 2 (of_nat len :: u16) @ concat (map unit_bytes s))))"

section \<open>Payloads\<close>

definition f32_out :: "u32 \<Rightarrow> u32" where
  "f32_out b = (if f32_is_nan b then 0x7fc00000 else b)"

definition f64_out :: "u64 \<Rightarrow> u64" where
  "f64_out b = (if f64_is_nan b then 0x7ff8000000000000 else b)"

fun list_element_type_loop :: "byte \<Rightarrow> Tag list \<Rightarrow> nbt_error + byte" where
  "list_element_type_loop raw_type [] = Inr raw_type"
| "list_element_type_loop raw_type (v # vs) =
     (if v = End then Inl UnexpectedEnd
      else list_element_type_loop
        (if raw_type = 0 then tag_id v else if raw_type \<noteq> tag_id v then 10 else raw_type) vs)"

definition list_element_type :: "Tag list \<Rightarrow> nbt_error + byte" where
  "list_element_type vs = list_element_type_loop 0 vs"

text \<open>An element of a list of compounds that is not itself a plain compound.\<close>

definition needs_wrapper :: "byte \<Rightarrow> Tag \<Rightarrow> bool" where
  "needs_wrapper raw_type v \<longleftrightarrow>
     raw_type = 10 \<and> \<not> (case v of Compound es \<Rightarrow> \<not> is_wrapper es | _ \<Rightarrow> False)"

text \<open>The arrays: the length, one reservation, then the elements.\<close>

definition array_w :: "Writer \<Rightarrow> nat \<Rightarrow> nat \<Rightarrow> byte list \<Rightarrow> byte list \<Rightarrow> w_result" where
  "array_w w width len bytes out =
     and_then (length_w w len out) (\<lambda>out.
     case checked_mul len width of
       None \<Rightarrow> (Inl LengthOverflow, out)
     | Some n \<Rightarrow> and_then (reserve_w w n out) (\<lambda>out. (Inr (), out @ bytes)))"

fun payload_w :: "Writer \<Rightarrow> Tag \<Rightarrow> nat \<Rightarrow> byte list \<Rightarrow> w_result"
  and list_elements_w :: "Writer \<Rightarrow> byte \<Rightarrow> nat \<Rightarrow> Tag list \<Rightarrow> byte list \<Rightarrow> w_result"
  and entries_w :: "Writer \<Rightarrow> nat \<Rightarrow> compound \<Rightarrow> byte list \<Rightarrow> w_result" where
  "payload_w w End depth out = (Inr (), out)"
| "payload_w w (Byte v) depth out = byte_w w v out"
| "payload_w w (Short v) depth out = bytes_w w (to_be_bytes 2 v) out"
| "payload_w w (Int_t v) depth out = bytes_w w (to_be_bytes 4 v) out"
| "payload_w w (Long v) depth out = bytes_w w (to_be_bytes 8 v) out"
| "payload_w w (Float v) depth out = bytes_w w (to_be_bytes 4 (f32_out v)) out"
| "payload_w w (Double v) depth out = bytes_w w (to_be_bytes 8 (f64_out v)) out"
| "payload_w w (ByteArray vs) depth out = array_w w 1 (length vs) vs out"
| "payload_w w (String s) depth out = string_w w s out"
| "payload_w w (List vs) depth out =
     (case container_w w depth of
        Inl e \<Rightarrow> (Inl e, out)
      | Inr child_depth \<Rightarrow>
          (case list_element_type vs of
             Inl e \<Rightarrow> (Inl e, out)
           | Inr raw_type \<Rightarrow>
               and_then (byte_w w raw_type out) (\<lambda>out.
               and_then (length_w w (length vs) out) (\<lambda>out.
               list_elements_w w raw_type child_depth vs out))))"
| "payload_w w (Compound es) depth out =
     (case container_w w depth of
        Inl e \<Rightarrow> (Inl e, out)
      | Inr child_depth \<Rightarrow> and_then (entries_w w child_depth es out) (\<lambda>out. byte_w w 0 out))"
| "payload_w w (IntArray vs) depth out =
     array_w w 4 (length vs) (concat (map (to_be_bytes 4) vs)) out"
| "payload_w w (LongArray vs) depth out =
     array_w w 8 (length vs) (concat (map (to_be_bytes 8) vs)) out"
| "list_elements_w w raw_type child_depth [] out = (Inr (), out)"
| "list_elements_w w raw_type child_depth (v # vs) out =
     and_then
       (if needs_wrapper raw_type v then
          (case container_w w child_depth of
             Inl e \<Rightarrow> (Inl e, out)
           | Inr wrapped_depth \<Rightarrow>
               and_then (byte_w w (tag_id v) out) (\<lambda>out.
               and_then (bytes_w w [0, 0] out) (\<lambda>out.
               and_then (payload_w w v wrapped_depth out) (\<lambda>out.
               byte_w w 0 out))))
        else payload_w w v child_depth out)
       (\<lambda>out. list_elements_w w raw_type child_depth vs out)"
| "entries_w w child_depth [] out = (Inr (), out)"
| "entries_w w child_depth (e # es) out =
     (if snd e = End then (Inl UnexpectedEnd, out)
      else
        and_then (byte_w w (tag_id (snd e)) out) (\<lambda>out.
        and_then (string_w w (fst e) out) (\<lambda>out.
        and_then (payload_w w (snd e) child_depth out) (\<lambda>out.
        entries_w w child_depth es out))))"

section \<open>Roots\<close>

text \<open>The result and the caller's vector after the call, truncated to its old length on error.\<close>

definition truncate_on_error :: "nat \<Rightarrow> w_result \<Rightarrow> w_result" where
  "truncate_on_error start m = (case m of (Inl e, out) \<Rightarrow> (Inl e, take start out) | (Inr u, out) \<Rightarrow> (Inr u, out))"

definition write_network :: "alloc_env \<Rightarrow> Tag \<Rightarrow> byte list \<Rightarrow> Limits \<Rightarrow> w_result" where
  "write_network env tag output L =
     (case validate_limits L of
        Inl e \<Rightarrow> (Inl e, output)
      | Inr _ \<Rightarrow>
          (let start = length output; w = \<lparr>w_env = env, w_limits = L, w_start = start\<rparr>
           in truncate_on_error start
                (and_then (byte_w w (tag_id tag) output) (\<lambda>out. payload_w w tag 0 out))))"

definition write_named :: "alloc_env \<Rightarrow> nbt_string \<times> Tag \<Rightarrow> byte list \<Rightarrow> Limits \<Rightarrow> w_result" where
  "write_named env named output L =
     (case validate_limits L of
        Inl e \<Rightarrow> (Inl e, output)
      | Inr _ \<Rightarrow>
          (let start = length output; w = \<lparr>w_env = env, w_limits = L, w_start = start\<rparr>
           in truncate_on_error start
                (if snd named = End \<and> fst named \<noteq> [] then (Inl NamedEnd, output)
                 else
                   and_then (byte_w w (tag_id (snd named)) output) (\<lambda>out.
                   and_then (if snd named \<noteq> End then string_w w (fst named) out else (Inr (), out)) (\<lambda>out.
                   payload_w w (snd named) 0 out)))))"

section \<open>The writer only appends\<close>

definition appends :: "byte list \<Rightarrow> w_result \<Rightarrow> bool" where
  "appends out m \<longleftrightarrow> take (length out) (snd m) = out"

lemma appendsI [intro]: "appends out (r, out @ bs)" and appends_same [simp]: "appends out (r, out)"
  by (simp_all add: appends_def)

lemma appends_and_then [intro!]:
  assumes "appends out m" and "\<And>out'. m = (Inr (), out') \<Longrightarrow> appends out' (f out')"
  shows "appends out (and_then m f)"
proof (cases "fst m")
  case (Inl e)
  then show ?thesis using assms(1) by (cases m) (simp add: and_then_def appends_def)
next
  case (Inr u)
  obtain out' where m: "m = (Inr (), out')" using Inr by (cases m) simp
  have "take (length out') (snd (f out')) = out'" using assms(2) [OF m] by (simp add: appends_def)
  moreover have "take (length out) out' = out" using assms(1) m by (simp add: appends_def)
  ultimately have "take (length out) (snd (f out')) = out"
    by (metis min.absorb1 nat_le_linear take_all_iff take_take)
  then show ?thesis using m by (simp add: appends_def)
qed

lemma reserve_w_appends [simp]: "appends out (reserve_w w n out)"
  by (auto simp: reserve_w_def split: option.splits)

lemma reserve_w_same: "reserve_w w n out = (Inr u, out') \<Longrightarrow> out' = out"
  by (auto simp: reserve_w_def split: option.splits if_splits)

lemma bytes_w_appends [simp]: "appends out (bytes_w w bs out)"
  by (auto simp: bytes_w_def dest: reserve_w_same)

lemma byte_w_appends [simp]: "appends out (byte_w w b out)"
  by (simp add: byte_w_def)

lemma length_w_appends [simp]: "appends out (length_w w n out)"
  by (simp add: length_w_def)

lemma string_w_appends [simp]: "appends out (string_w w s out)"
  by (auto simp: string_w_def dest: reserve_w_same split: sum.splits)

lemma array_w_appends [simp]: "appends out (array_w w k n bs out)"
  by (auto simp: array_w_def dest: reserve_w_same split: option.splits)

lemma payload_w_appends:
  "appends out (payload_w w t depth out)"
  "appends out (list_elements_w w raw d vs out)"
  "appends out (entries_w w d es out)"
  by (induction w t depth out and w raw d vs out and w d es out
      rule: payload_w_list_elements_w_entries_w.induct)
    (auto split: sum.splits)

section \<open>Properties\<close>

text \<open>
  on any error the caller's output vector is exactly what it was before the call, for the
  network root and for the named root; on success the old bytes are kept and new bytes follow
  them.
\<close>

theorem write_keeps_output:
  "(write_network env tag output L = (Inl e, out1) \<longrightarrow> out1 = output) \<and>
   (write_network env tag output L = (Inr u, out2) \<longrightarrow> (\<exists>bs. out2 = output @ bs)) \<and>
   (write_named env named output L = (Inl e, out3) \<longrightarrow> out3 = output) \<and>
   (write_named env named output L = (Inr u, out4) \<longrightarrow> (\<exists>bs. out4 = output @ bs))"
proof -
  have trunc: "truncate_on_error (length out) m = (Inl e, out') \<Longrightarrow> appends out m \<Longrightarrow> out' = out"
    and keep: "truncate_on_error (length out) m = (Inr u, out') \<Longrightarrow> appends out m \<Longrightarrow> \<exists>bs. out' = out @ bs"
    for out m out'
    by (auto simp: truncate_on_error_def appends_def split: prod.splits sum.splits)
      (metis append_take_drop_id)
  let ?w = "\<lparr>w_env = env, w_limits = L, w_start = length output\<rparr>"
  have net: "appends output (and_then (byte_w ?w (tag_id tag) output) (\<lambda>out. payload_w ?w tag 0 out))"
    by (auto intro: payload_w_appends)
  have nam: "appends output (if snd named = End \<and> fst named \<noteq> [] then (Inl NamedEnd, output)
      else and_then (byte_w ?w (tag_id (snd named)) output) (\<lambda>out.
           and_then (if snd named \<noteq> End then string_w ?w (fst named) out else (Inr (), out)) (\<lambda>out.
           payload_w ?w (snd named) 0 out)))"
    by (auto intro: payload_w_appends)
  show ?thesis
    unfolding write_network_def write_named_def Let_def
    using trunc [OF _ net] keep [OF _ net] trunc [OF _ nam] keep [OF _ nam]
    by (auto simp: validate_limits_def split: if_splits)
qed

theorem write_keeps_output_witness:
  "write_network plain_env (List [End]) [1, 2] default_limits = (Inl UnexpectedEnd, [1, 2]) \<and> [1, 2] = [1, 2 :: byte]"
proof -
  have *: "write_network plain_env (List [End]) [1, 2] default_limits = (Inl UnexpectedEnd, [1, 2])"
    by (simp add: write_network_def validate_limits_def default_limits_def byte_w_def bytes_w_def reserve_w_def
        checked_add_def USIZE_MAX_def plain_env_def container_w_def list_element_type_def truncate_on_error_def)
  show ?thesis using * conjunct1 [OF write_keeps_output, THEN mp, OF *] by blast
qed

end
