(* ===== verification/NbtRoundTrip.thy ===== *)
theory NbtRoundTrip
  imports NbtRead NbtWrite
begin

text \<open>
  The reader and the writer together: what the reader makes of the bytes the writer appends.
  \<open>reads_as\<close> is the contract of a reader step on the bytes it is meant for; the contracts are
  composed the way the reader composes its steps.
\<close>

section \<open>Modified UTF-8\<close>

lemma byte_all: "(\<forall>b :: byte. P b) \<longleftrightarrow> (\<forall>n \<in> set [0..<256]. P (word_of_nat n))"
proof
  assume r: "\<forall>n \<in> set [0..<256]. P (word_of_nat n)"
  show "\<forall>b :: byte. P b"
  proof
    fix b :: byte
    have "unat b < 256" using unat_less_power [of b] by simp
    then have "unat b \<in> set [0..<256]" by simp
    from bspec [OF r this] show "P b" by simp
  qed
qed simp

lemma lead2_facts:
  "\<forall>h :: byte. h < 0x20 \<longrightarrow>
     \<not> (0xc0 OR h) < 0x80 \<and> 0xc0 \<le> (0xc0 OR h) \<and> (0xc0 OR h) \<le> 0xdf \<and> (0xc0 OR h) AND 0x1f = h"
  unfolding byte_all by code_simp

lemma lead3_facts:
  "\<forall>h :: byte. h < 0x10 \<longrightarrow>
     \<not> (0xe0 OR h) < 0x80 \<and> \<not> (0xe0 OR h) \<le> 0xdf \<and> 0xe0 \<le> (0xe0 OR h) \<and> (0xe0 OR h) \<le> 0xef \<and>
     (0xe0 OR h) AND 0x0f = h"
  unfolding byte_all by code_simp

lemma continuation_facts:
  "\<forall>l :: byte. l < 0x40 \<longrightarrow> (0x80 OR l) AND 0xc0 = 0x80 \<and> (0x80 OR l) AND 0x3f = l"
  unfolding byte_all by code_simp

text \<open>Splitting a code unit into its groups of bits and joining them again.\<close>

lemma unit_join2: "push_bit 6 (ucast (ucast (drop_bit 6 u) :: byte)) OR ucast (ucast (u AND 0x3f) :: byte) = (u :: u16)"
  if "u \<le> 0x7ff"
proof (rule bit_word_eqI)
  have small: "unat u < 2 ^ 11" using that by (simp add: word_le_nat_alt)
  fix i assume "i < LENGTH(16)"
  show "bit (push_bit 6 (ucast (ucast (drop_bit 6 u) :: byte) :: u16) OR ucast (ucast (u AND 0x3f) :: byte)) i = bit u i"
    by (cases "i < 6") (auto simp: bit_simps byte_simps dest: bit_small_word [OF small])
qed

lemma unit_join3:
  "push_bit 6 (push_bit 6 (ucast (ucast (drop_bit 12 u) :: byte)) OR ucast (ucast (drop_bit 6 u AND 0x3f) :: byte))
     OR ucast (ucast (u AND 0x3f) :: byte) = (u :: u16)"
proof (rule bit_word_eqI)
  fix i assume "i < LENGTH(16)"
  show "bit (push_bit 6 (push_bit 6 (ucast (ucast (drop_bit 12 u) :: byte) :: u16) OR
      ucast (ucast (drop_bit 6 u AND 0x3f) :: byte)) OR ucast (ucast (u AND 0x3f) :: byte)) i = bit u i"
    by (cases "i < 6"; cases "i < 12") (auto simp: bit_simps byte_simps dest: bit_imp_le_length)
qed

lemma small_byte: "unat (x :: u16) < 2 ^ n \<Longrightarrow> n \<le> 8 \<Longrightarrow> unat (ucast x :: byte) < 2 ^ n"
  by (rule small_word_bits) (auto simp: bit_simps dest: bit_small_word)

lemma lead2_small: "u \<le> 0x7ff \<Longrightarrow> (ucast (drop_bit 6 (u :: u16)) :: byte) < 0x20"
  using small_byte [of "drop_bit 6 u" 5] unat_drop_bit_less [of u 6 5]
  by (simp add: word_less_nat_alt word_le_nat_alt)

lemma lead3_small: "(ucast (drop_bit 12 (u :: u16)) :: byte) < 0x10"
  using small_byte [of "drop_bit 12 u" 4] unat_drop_bit_less [of u 12 4] unat_less_power [of u]
  by (simp add: word_less_nat_alt)

lemma low_small: "(ucast ((u :: u16) AND 0x3f) :: byte) < 0x40"
proof -
  have "unat (u AND 0x3f) < 2 ^ 6"
    by (rule small_word_bits) (auto simp: bit_simps byte_simps)
  then show ?thesis using small_byte [of "u AND 0x3f" 6] by (simp add: word_less_nat_alt)
qed

lemma modified_utf8_unit_bytes:
  "\<exists>b bs. unit_bytes u = b # bs \<and> length bs + 1 = unit_len u \<and> modified_utf8_unit b (bs @ rest) = Inr (u, rest)"
proof (cases "1 \<le> u \<and> u \<le> 0x7f")
  case True
  then have small: "unat u < 2 ^ 7" by (simp add: word_le_nat_alt)
  have "ucast (ucast u :: byte) = u"
    by (rule bit_word_eqI) (auto simp: bit_simps dest: bit_small_word [OF small])
  moreover have "(ucast u :: byte) < 0x80" using small_byte [OF small] by (simp add: word_less_nat_alt)
  ultimately show ?thesis using True by (simp add: unit_bytes_def unit_len_def modified_utf8_unit_def)
next
  case no1: False
  show ?thesis
  proof (cases "u \<le> 0x7ff")
    case True
    have eqs: "unit_bytes u = [0xc0 OR ucast (drop_bit 6 u), 0x80 OR ucast (u AND 0x3f)]" "unit_len u = 2"
      by (simp_all only: unit_bytes_def unit_len_def if_not_P [OF no1] if_P [OF True])
    show ?thesis
      using lead2_facts lead2_small [OF True] continuation_facts low_small [of u] unit_join2 [OF True]
      by (simp add: eqs modified_utf8_unit_def)
  next
    case False
    have eqs: "unit_bytes u = [0xe0 OR ucast (drop_bit 12 u), 0x80 OR ucast (drop_bit 6 u AND 0x3f),
        0x80 OR ucast (u AND 0x3f)]" "unit_len u = 3"
      by (simp_all only: unit_bytes_def unit_len_def if_not_P [OF no1] if_not_P [OF False])
    show ?thesis
      using lead3_facts lead3_small [of u] continuation_facts low_small [of u]
        low_small [of "drop_bit 6 u"] unit_join3 [of u]
      by (simp add: eqs modified_utf8_unit_def numeral_2_eq_2)
  qed
qed

lemma modified_utf8_units_concat: "modified_utf8_units (concat (map unit_bytes s)) = Inr s"
proof (induction s)
  case (Cons u s)
  obtain b bs where "unit_bytes u = b # bs" "modified_utf8_unit b (bs @ concat (map unit_bytes s)) = Inr (u, concat (map unit_bytes s))"
    using modified_utf8_unit_bytes by blast
  then show ?case using Cons by simp
qed simp

lemma length_unit_bytes: "length (unit_bytes u) = unit_len u"
  using modified_utf8_unit_bytes [of u "[]"] by auto

lemma length_concat_unit_bytes: "length (concat (map unit_bytes s)) = sum_list (map unit_len s)"
  by (simp add: length_concat comp_def length_unit_bytes)

lemma modified_utf8_len_loop_iff:
  "modified_utf8_len_loop n s = Inr k \<longleftrightarrow> k = n + sum_list (map unit_len s) \<and> (s = [] \<or> k \<le> 65535)"
proof (induction s arbitrary: n)
  case (Cons u s)
  have "modified_utf8_len_loop n (u # s) = Inr k \<longleftrightarrow>
      n + unit_len u \<le> 65535 \<and> modified_utf8_len_loop (n + unit_len u) s = Inr k"
    by (auto simp: result_simps usize_simps USIZE_MAX_def checked_add_def)
  then show ?case using Cons [of "n + unit_len u"] by auto
qed auto

lemma modified_utf8_len_iff:
  "modified_utf8_len s = Inr k \<longleftrightarrow> k = sum_list (map unit_len s) \<and> k \<le> 65535"
  by (auto simp: modified_utf8_len_def modified_utf8_len_loop_iff)

section \<open>Contracts of reader steps\<close>

text \<open>
  \<open>reads_as L f bs x q a\<close>: on any input that starts with \<open>bs\<close> and with room for \<open>q\<close> more bytes of
  quota and \<open>a\<close> more bytes of allocation, the step \<open>f\<close> succeeds with \<open>x\<close>, consumes exactly \<open>bs\<close>,
  charges exactly \<open>q\<close> and allocates at most \<open>a\<close>.
\<close>

definition reads_as :: "Limits \<Rightarrow> (Reader \<Rightarrow> nbt_error + ('a \<times> Reader)) \<Rightarrow> byte list \<Rightarrow> 'a \<Rightarrow> nat \<Rightarrow> nat \<Rightarrow> bool" where
  "reads_as L f bs x q a \<longleftrightarrow>
     (\<forall>r rest. r_input r = bs @ rest \<longrightarrow> r_quota r + q \<le> vanilla_quota_bytes L \<longrightarrow>
        r_allocation r + a \<le> allocation_bytes L \<longrightarrow>
        (\<exists>r'. f r = Inr (x, r') \<and> r_input r' = rest \<and> r_quota r' = r_quota r + q \<and>
           r_allocation r' \<le> r_allocation r + a))"

definition limits_usize :: "Limits \<Rightarrow> bool" where
  "limits_usize L \<longleftrightarrow> vanilla_quota_bytes L \<le> USIZE_MAX \<and> allocation_bytes L \<le> USIZE_MAX"

lemma reads_asD:
  assumes "reads_as L f bs x q a" "r_input r = bs @ rest" "r_quota r + q \<le> vanilla_quota_bytes L"
    "r_allocation r + a \<le> allocation_bytes L"
  obtains r' where "f r = Inr (x, r')" "r_input r' = rest" "r_quota r' = r_quota r + q"
    "r_allocation r' \<le> r_allocation r + a"
  using assms unfolding reads_as_def by blast

lemma reads_as_return [simp]: "reads_as L (\<lambda>r. Inr (x, r)) [] x 0 0"
  by (simp add: reads_as_def)

lemma reads_as_mono: "reads_as L f bs x q a \<Longrightarrow> a \<le> a' \<Longrightarrow> reads_as L f bs x q a'"
  unfolding reads_as_def by (meson add_le_cancel_left le_trans)

lemma reads_as_bind:
  assumes f: "reads_as L f bs1 x q1 a1" and g: "reads_as L (g x) bs2 y q2 a2"
    and "bs = bs1 @ bs2" "q = q1 + q2" "a = a1 + a2"
  shows "reads_as L (\<lambda>r. bind_r (f r) (\<lambda>(x, r). g x r)) bs y q a"
  unfolding reads_as_def
proof (intro allI impI)
  fix r :: Reader and rest
  assume r: "r_input r = bs @ rest" "r_quota r + q \<le> vanilla_quota_bytes L" "r_allocation r + a \<le> allocation_bytes L"
  obtain r1 where r1: "f r = Inr (x, r1)" "r_input r1 = bs2 @ rest" "r_quota r1 = r_quota r + q1"
    "r_allocation r1 \<le> r_allocation r + a1"
    by (rule reads_asD [OF f, of r "bs2 @ rest"]) (use r assms in auto)
  obtain r2 where "g x r1 = Inr (y, r2)" "r_input r2 = rest" "r_quota r2 = r_quota r1 + q2"
    "r_allocation r2 \<le> r_allocation r1 + a2"
    by (rule reads_asD [OF g, of r1 rest]) (use r r1 assms in auto)
  then show "\<exists>r'. bind_r (f r) (\<lambda>(x, r). g x r) = Inr (y, r') \<and> r_input r' = rest \<and>
      r_quota r' = r_quota r + q \<and> r_allocation r' \<le> r_allocation r + a"
    using r1 assms by auto
qed

lemma reads_as_account:
  assumes "limits_usize L" and f: "reads_as L f bs x q a" and "q' = n + q"
  shows "reads_as L (\<lambda>r. bind_r (account L n r) f) bs x q' a"
  unfolding reads_as_def
proof (intro allI impI)
  fix r :: Reader and rest
  assume r: "r_input r = bs @ rest" "r_quota r + q' \<le> vanilla_quota_bytes L" "r_allocation r + a \<le> allocation_bytes L"
  have "account L n r = Inr (r\<lparr>r_quota := r_quota r + n\<rparr>)"
    using assms(1,3) r by (simp add: account_def checked_add_def limits_usize_def)
  moreover obtain r' where "f (r\<lparr>r_quota := r_quota r + n\<rparr>) = Inr (x, r')" "r_input r' = rest"
    "r_quota r' = r_quota r + n + q" "r_allocation r' \<le> r_allocation r + a"
    by (rule reads_asD [OF f, of "r\<lparr>r_quota := r_quota r + n\<rparr>" rest]) (use r assms in auto)
  ultimately show "\<exists>r'. bind_r (account L n r) f = Inr (x, r') \<and> r_input r' = rest \<and>
      r_quota r' = r_quota r + q' \<and> r_allocation r' \<le> r_allocation r + a"
    using assms by auto
qed

lemma reads_as_allocation:
  assumes "limits_usize L" and f: "reads_as L f bs x q a" and "a' = n + a"
  shows "reads_as L (\<lambda>r. bind_r (allocation L n r) f) bs x q a'"
  unfolding reads_as_def
proof (intro allI impI)
  fix r :: Reader and rest
  assume r: "r_input r = bs @ rest" "r_quota r + q \<le> vanilla_quota_bytes L" "r_allocation r + a' \<le> allocation_bytes L"
  have "allocation L n r = Inr (r\<lparr>r_allocation := r_allocation r + n\<rparr>)"
    using assms(1,3) r by (simp add: allocation_def checked_add_def limits_usize_def)
  moreover obtain r' where "f (r\<lparr>r_allocation := r_allocation r + n\<rparr>) = Inr (x, r')" "r_input r' = rest"
    "r_quota r' = r_quota r + q" "r_allocation r' \<le> r_allocation r + n + a"
    by (rule reads_asD [OF f, of "r\<lparr>r_allocation := r_allocation r + n\<rparr>" rest]) (use r assms in auto)
  ultimately show "\<exists>r'. bind_r (allocation L n r) f = Inr (x, r') \<and> r_input r' = rest \<and>
      r_quota r' = r_quota r + q \<and> r_allocation r' \<le> r_allocation r + a'"
    using assms by auto
qed

text \<open>A step that needs more input to be there than it consumes itself.\<close>

lemma reads_as_enough_input:
  assumes "reads_as L f bs x q a" and "n \<le> length bs"
  shows "reads_as L (\<lambda>r. if n > length (r_input r) then Inl Truncated else f r) bs x q a"
  using assms unfolding reads_as_def by auto

lemma reads_as_reserve:
  assumes "alloc_grants env" and "\<And>c. n \<le> c \<Longrightarrow> reads_as L (f c) bs x q a"
  shows "reads_as L (\<lambda>r. bind_r (reserve_exact env w n) (\<lambda>c. f c r)) bs x q a"
proof -
  obtain c where "try_reserve_exact env w n = Some c" "n \<le> c"
    using assms(1) unfolding alloc_grants_def by blast
  then show ?thesis using assms(2) by (simp add: reserve_exact_def)
qed

lemma reads_as_take: "length bs = n \<Longrightarrow> reads_as L (take_r n) bs bs 0 0"
  by (auto simp: reads_as_def take_r_def)

lemma reads_as_byte: "reads_as L byte_r [b] b 0 0"
  by (auto simp: reads_as_def byte_r_def take_r_def)

lemma reads_as_short: "reads_as L short_r (to_be_bytes 2 v) v 0 0"
  by (auto simp: reads_as_def short_r_def take_r_def)

lemma reads_as_int: "reads_as L int_r (to_be_bytes 4 v) v 0 0"
  by (auto simp: reads_as_def int_r_def take_r_def)

lemma reads_as_long: "reads_as L long_r (to_be_bytes 8 v) v 0 0"
  by (auto simp: reads_as_def long_r_def take_r_def)

lemma unat_of_nat_i32: "n \<le> 0x7fffffff \<Longrightarrow> unat (of_nat n :: u32) = n"
  by (simp add: unat_of_nat)

lemma sint_of_nat_i32: "n \<le> 0x7fffffff \<Longrightarrow> \<not> sint (of_nat n :: u32) < 0"
proof -
  assume "n \<le> 0x7fffffff"
  then have "unat (of_nat n :: u32) < 2 ^ 31" by (simp add: unat_of_nat_i32)
  then have "\<not> bit (of_nat n :: u32) 31" using bit_small_word by blast
  then show ?thesis by (simp add: sint_uint signed_take_bit_eq_if_positive bit_uint_iff)
qed

lemma reads_as_count:
  assumes "n \<le> 0x7fffffff"
  shows "reads_as L count_r (to_be_bytes 4 (of_nat n :: u32)) n 0 0"
  unfolding count_r_def [abs_def]
  by (rule reads_as_bind [OF reads_as_int [of L "of_nat n"], of _ "[]" n 0 0])
    (use assms in \<open>simp_all add: unat_of_nat_i32 sint_of_nat_i32\<close>)

section \<open>Strings and arrays\<close>

definition string_bytes :: "nbt_string \<Rightarrow> byte list" where
  "string_bytes s = to_be_bytes 2 (of_nat (sum_list (map unit_len s)) :: u16) @ concat (map unit_bytes s)"

lemma reads_as_string:
  assumes "limits_usize L" "alloc_grants env" "modified_utf8_len s = Inr n"
  shows "reads_as L (string_r env L True) (string_bytes s) s (2 * length s) (2 * length s)"
proof -
  let ?bs = "concat (map unit_bytes s)"
  have n: "n = length ?bs" "n \<le> 65535"
    using assms(3) by (simp_all add: modified_utf8_len_iff length_concat_unit_bytes)
  have len: "unat (of_nat n :: u16) = length ?bs" using n by (simp add: unat_of_nat)
  have tail: "reads_as L (\<lambda>r. bind_r (modified_utf8_count ?bs) (\<lambda>units.
      bind_r (if True then account L (units * 2) r else Inr r) (\<lambda>r.
      bind_r (allocation L (units * 2) r) (\<lambda>r.
      bind_r (reserve_exact env 2 units) (\<lambda>_.
      bind_r (modified_utf8_units ?bs) (\<lambda>us. Inr (us, r))))))) [] s (2 * length s) (2 * length s)"
    unfolding modified_utf8_count_units modified_utf8_units_concat
    by (simp, rule reads_as_account [OF assms(1)], rule reads_as_allocation [OF assms(1)],
        rule reads_as_reserve [OF assms(2)]) simp_all
  have "reads_as L (string_r env L True) (to_be_bytes 2 (of_nat n :: u16) @ ?bs) s (2 * length s) (2 * length s)"
    unfolding string_r_def
    by (rule reads_as_bind [OF reads_as_short], rule reads_as_bind [OF reads_as_take [OF len [symmetric]]],
        rule tail) simp_all
  then show ?thesis using n by (simp add: string_bytes_def length_concat_unit_bytes)
qed

lemma reads_as_ints: "reads_as L (ints_r (length vs)) (concat (map (to_be_bytes 4) vs)) vs 0 0"
proof (induction vs)
  case (Cons v vs)
  have "reads_as L (\<lambda>r. bind_r (ints_r (length vs) r) (\<lambda>(vs, r). Inr (v # vs, r)))
      (concat (map (to_be_bytes 4) vs)) (v # vs) 0 0"
    by (rule reads_as_bind [OF Cons]) simp_all
  then show ?case
    by (simp, intro reads_as_bind [OF reads_as_int]) simp_all
qed simp

lemma reads_as_longs: "reads_as L (longs_r (length vs)) (concat (map (to_be_bytes 8) vs)) vs 0 0"
proof (induction vs)
  case (Cons v vs)
  have "reads_as L (\<lambda>r. bind_r (longs_r (length vs) r) (\<lambda>(vs, r). Inr (v # vs, r)))
      (concat (map (to_be_bytes 8) vs)) (v # vs) 0 0"
    by (rule reads_as_bind [OF Cons]) simp_all
  then show ?case
    by (simp, intro reads_as_bind [OF reads_as_long]) simp_all
qed simp

text \<open>The length of an array needs the array's bytes behind it, so its contract includes them.\<close>

lemma reads_as_array:
  assumes "limits_usize L" "n \<le> 0x7fffffff" "n * width = length bs" "width \<le> 8"
    and f: "reads_as L (f n) bs x 0 0"
  shows "reads_as L (\<lambda>r. bind_r (array_length L width r) (\<lambda>(n, r). f n r))
    (to_be_bytes 4 (of_nat n :: u32) @ bs) x (24 + length bs) (length bs)"
proof -
  have mul: "checked_mul n width = Some (length bs)"
  proof -
    have "n * width \<le> 0x7fffffff * 8" using assms by (intro mult_le_mono) auto
    then show ?thesis using assms by (simp add: checked_mul_def USIZE_MAX_def)
  qed
  have "reads_as L (\<lambda>r. bind_r (account L (length bs) r) (\<lambda>r. bind_r
      (if length bs > length (r_input r) then Inl Truncated else bind_r (allocation L (length bs) r) (\<lambda>r. Inr (n, r)))
      (\<lambda>(n, r). f n r))) bs x (length bs) (length bs)"
  proof (rule reads_as_account [OF assms(1)])
    have "reads_as L (\<lambda>r. if length bs > length (r_input r) then Inl Truncated
        else bind_r (allocation L (length bs) r) (f n)) bs x 0 (length bs)"
      by (rule reads_as_enough_input, rule reads_as_allocation [OF assms(1) f]) simp_all
    then show "reads_as L (\<lambda>r. bind_r (if length bs > length (r_input r) then Inl Truncated
        else bind_r (allocation L (length bs) r) (\<lambda>r. Inr (n, r))) (\<lambda>(n, r). f n r)) bs x 0 (length bs)"
      by (simp add: bind_r_assoc if_distrib [of "\<lambda>m. bind_r m _"] cong: if_cong)
  qed simp
  then have "reads_as L (\<lambda>r. bind_r (account L 24 r) (\<lambda>r. bind_r (count_r r) (\<lambda>(n, r).
      bind_r (ok_or (checked_mul n width) LengthOverflow) (\<lambda>k. bind_r (account L k r) (\<lambda>r. bind_r
      (if k > length (r_input r) then Inl Truncated else bind_r (allocation L k r) (\<lambda>r. Inr (n, r)))
      (\<lambda>(n, r). f n r)))))) (to_be_bytes 4 (of_nat n :: u32) @ bs) x (24 + length bs) (length bs)"
    by (intro reads_as_account [OF assms(1)] reads_as_bind [OF reads_as_count [OF assms(2)]]) (simp_all add: mul)
  then show ?thesis by (simp add: array_length_def bind_r_assoc split_def)
qed

text \<open>The root name of a named tag is the one string that is not charged to the quota.\<close>

lemma reads_as_root_name:
  assumes "limits_usize L" "alloc_grants env" "modified_utf8_len s = Inr n"
  shows "reads_as L (string_r env L False) (string_bytes s) s 0 (2 * length s)"
proof -
  let ?bs = "concat (map unit_bytes s)"
  have n: "n = length ?bs" "n \<le> 65535"
    using assms(3) by (simp_all add: modified_utf8_len_iff length_concat_unit_bytes)
  have len: "unat (of_nat n :: u16) = length ?bs" using n by (simp add: unat_of_nat)
  have tail: "reads_as L (\<lambda>r. bind_r (modified_utf8_count ?bs) (\<lambda>units.
      bind_r (if False then account L (units * 2) r else Inr r) (\<lambda>r.
      bind_r (allocation L (units * 2) r) (\<lambda>r.
      bind_r (reserve_exact env 2 units) (\<lambda>_.
      bind_r (modified_utf8_units ?bs) (\<lambda>us. Inr (us, r))))))) [] s 0 (2 * length s)"
    unfolding modified_utf8_count_units modified_utf8_units_concat
    by (simp, rule reads_as_allocation [OF assms(1)], rule reads_as_reserve [OF assms(2)]) simp_all
  have "reads_as L (string_r env L False) (to_be_bytes 2 (of_nat n :: u16) @ ?bs) s 0 (2 * length s)"
    unfolding string_r_def
    by (rule reads_as_bind [OF reads_as_short], rule reads_as_bind [OF reads_as_take [OF len [symmetric]]],
        rule tail) simp_all
  then show ?thesis using n by (simp add: string_bytes_def length_concat_unit_bytes)
qed

section \<open>Costs and canonical tags\<close>

text \<open>
  What a tag becomes on the wire: NaNs are written in one canonical form and negative zero is
  read back as positive zero. Everything else is unchanged.
\<close>

fun canon :: "Tag \<Rightarrow> Tag" where
  "canon (Float b) = Float (canonical_f32 (f32_out b))"
| "canon (Double b) = Double (canonical_f64 (f64_out b))"
| "canon (List vs) = List (map canon vs)"
| "canon (Compound es) = Compound (map (\<lambda>e. (fst e, canon (snd e))) es)"
| "canon t = t"

definition raw_type_of :: "Tag list \<Rightarrow> byte" where
  "raw_type_of vs = (case list_element_type vs of Inl _ \<Rightarrow> 0 | Inr i \<Rightarrow> i)"

text \<open>The quota the reader charges for a tag.\<close>

fun quota_cost :: "Tag \<Rightarrow> nat" where
  "quota_cost End = 0"
| "quota_cost (Byte _) = 9"
| "quota_cost (Short _) = 10"
| "quota_cost (Int_t _) = 12"
| "quota_cost (Long _) = 16"
| "quota_cost (Float _) = 12"
| "quota_cost (Double _) = 16"
| "quota_cost (ByteArray vs) = 24 + length vs"
| "quota_cost (String s) = 36 + 2 * length s"
| "quota_cost (List vs) = 36 + 4 * length vs +
     sum_list (map (\<lambda>v. (if needs_wrapper (raw_type_of vs) v then 112 else 0) + quota_cost v) vs)"
| "quota_cost (Compound es) = 48 + 36 * length es +
     sum_list (map (\<lambda>e. 28 + 2 * length (fst e) + quota_cost (snd e)) es)"
| "quota_cost (IntArray vs) = 24 + 4 * length vs"
| "quota_cost (LongArray vs) = 24 + 8 * length vs"

text \<open>A bound on the allocation the reader charges, for any growth the allocator grants.\<close>

fun growth_cost :: "alloc_env \<Rightarrow> nat \<Rightarrow> nat \<Rightarrow> nat" where
  "growth_cost env k 0 = 0"
| "growth_cost env k (Suc n) = 2 * max k 4 * size_of_CompoundEntry env + growth_cost env (Suc k) n"

fun alloc_cost :: "alloc_env \<Rightarrow> Tag \<Rightarrow> nat" where
  "alloc_cost env (ByteArray vs) = length vs"
| "alloc_cost env (String s) = 2 * length s"
| "alloc_cost env (List vs) = length vs * size_of_Tag env +
     sum_list (map (\<lambda>v. (if needs_wrapper (raw_type_of vs) v then growth_cost env 0 1 else 0) + alloc_cost env v) vs)"
| "alloc_cost env (Compound es) =
     growth_cost env 0 (length es) + sum_list (map (\<lambda>e. 2 * length (fst e) + alloc_cost env (snd e)) es)"
| "alloc_cost env (IntArray vs) = 4 * length vs"
| "alloc_cost env (LongArray vs) = 8 * length vs"
| "alloc_cost env _ = 0"

lemma tag_id_canon [simp]: "tag_id (canon t) = tag_id t"
  by (cases t) simp_all

lemma tag_id_range: "t \<noteq> End \<Longrightarrow> tag_id t \<noteq> 0" "\<not> tag_id t > 12"
  by (cases t; simp)+

lemma unwrap_canon_compound: "\<not> is_wrapper es \<Longrightarrow> unwrap_element (canon (Compound es)) = canon (Compound es)"
  by (auto simp: unwrap_element_def is_wrapper_def)

section \<open>What a successful writer step appended\<close>

lemma and_then_Inr_iff: "and_then m f = (Inr u, out') \<longleftrightarrow> (\<exists>out1. m = (Inr (), out1) \<and> f out1 = (Inr u, out'))"
  by (cases m; cases "fst m") (auto simp: and_then_def)

lemma bytes_w_Inr: "bytes_w w bs out = (Inr u, out') \<Longrightarrow> out' = out @ bs"
  by (auto simp: bytes_w_def and_then_Inr_iff dest: reserve_w_same)

lemma byte_w_Inr: "byte_w w b out = (Inr u, out') \<Longrightarrow> out' = out @ [b]"
  by (simp add: byte_w_def bytes_w_Inr)

lemma length_w_Inr: "length_w w n out = (Inr u, out') \<Longrightarrow> n \<le> 0x7fffffff \<and> out' = out @ to_be_bytes 4 (of_nat n :: u32)"
  by (auto simp: length_w_def dest: bytes_w_Inr split: if_splits)

lemma string_w_Inr: "string_w w s out = (Inr u, out') \<Longrightarrow> (\<exists>n. modified_utf8_len s = Inr n) \<and> out' = out @ string_bytes s"
  by (auto simp: string_w_def and_then_Inr_iff string_bytes_def modified_utf8_len_iff dest: reserve_w_same split: sum.splits)

lemma array_w_Inr: "array_w w k n bs out = (Inr u, out') \<Longrightarrow>
    n \<le> 0x7fffffff \<and> out' = out @ to_be_bytes 4 (of_nat n :: u32) @ bs"
  by (auto simp: array_w_def and_then_Inr_iff dest!: length_w_Inr reserve_w_same split: option.splits)

lemma list_element_type_loop_spec:
  "list_element_type_loop raw vs = Inr k \<Longrightarrow>
     (\<forall>v \<in> set vs. v \<noteq> End) \<and> (k = 10 \<or> (\<forall>v \<in> set vs. tag_id v = k) \<and> (raw = 0 \<or> raw = k)) \<and> (vs = [] \<longrightarrow> k = raw)"
proof (induction vs arbitrary: raw)
  case (Cons v vs)
  then show ?case using tag_id_range(1) [of v] by (fastforce split: if_splits)
qed simp

lemma list_element_type_spec:
  assumes "list_element_type vs = Inr k"
  shows "\<forall>v \<in> set vs. v \<noteq> End" "k = 10 \<or> (\<forall>v \<in> set vs. tag_id v = k)" "raw_type_of vs = k" "vs \<noteq> [] \<Longrightarrow> k \<noteq> 0" "\<not> k > 12"
proof -
  note spec = list_element_type_loop_spec [OF assms [unfolded list_element_type_def]]
  show "\<forall>v \<in> set vs. v \<noteq> End" "k = 10 \<or> (\<forall>v \<in> set vs. tag_id v = k)" using spec by auto
  show "raw_type_of vs = k" by (simp add: raw_type_of_def assms)
  show "k \<noteq> 0" if "vs \<noteq> []" using spec that tag_id_range(1) by (cases vs) auto
  show "\<not> k > 12" using spec tag_id_range(2) [of "hd vs"] by (cases vs) auto
qed

section \<open>Contracts of the containers\<close>

lemma reads_as_entry_stop: "reads_as L (entry_header env L) [0] None 0 0"
  unfolding entry_header_def by (rule reads_as_bind [OF reads_as_byte]) simp_all

lemma reads_as_entry_header:
  assumes "limits_usize L" "alloc_grants env" "modified_utf8_len name = Inr n" "i \<noteq> 0" "\<not> i > 12"
  shows "reads_as L (entry_header env L) (i # string_bytes name) (Some (i, name)) (28 + 2 * length name) (2 * length name)"
proof -
  have "reads_as L (\<lambda>r. bind_r (account L 28 r) (\<lambda>r. bind_r (string_r env L True r) (\<lambda>(name, r). Inr (Some (i, name), r))))
      (string_bytes name) (Some (i, name)) (28 + 2 * length name) (2 * length name)"
    by (rule reads_as_account [OF assms(1)], rule reads_as_bind [OF reads_as_string [OF assms(1,2,3)]]) simp_all
  then show ?thesis
    unfolding entry_header_def
    by (intro reads_as_bind [OF reads_as_byte [of L i]]) (use assms in \<open>simp_all add: check_id_def\<close>)
qed

lemma reads_as_grow:
  assumes "limits_usize L" "alloc_grants env" "0 < size_of_CompoundEntry env"
  shows "\<exists>c. reads_as L (grow_entries env L n cap) [] c 0 (2 * max n 4 * size_of_CompoundEntry env)"
proof (cases "n = cap \<and> 2 * max n 4 * size_of_CompoundEntry env \<le> allocation_bytes L")
  case True
  let ?cap = "2 * max n 4"
  have "?cap * 1 \<le> ?cap * size_of_CompoundEntry env" using assms(3) by (intro mult_le_mono) auto
  then have mul: "checked_mul (max n 4) 2 = Some ?cap"
    "checked_mul ?cap (size_of_CompoundEntry env) = Some (?cap * size_of_CompoundEntry env)"
    using True assms(1) by (auto simp: checked_mul_def limits_usize_def mult.commute)
  obtain c where c: "try_reserve_exact env (size_of_CompoundEntry env) ?cap = Some c"
    using assms(2) unfolding alloc_grants_def by blast
  have "reads_as L (\<lambda>r. bind_r (allocation L (?cap * size_of_CompoundEntry env) r) (\<lambda>r. Inr (c, r)))
      [] c 0 (?cap * size_of_CompoundEntry env)"
    by (rule reads_as_allocation [OF assms(1)]) simp_all
  moreover have "grow_entries env L n cap =
      (\<lambda>r. bind_r (allocation L (?cap * size_of_CompoundEntry env) r) (\<lambda>r. Inr (c, r)))"
    unfolding grow_entries_def reserve_exact_def using conjunct1 [OF True] mul c by fastforce
  ultimately show ?thesis by auto
next
  case False
  then show ?thesis
    by (cases "n = cap") (auto simp: reads_as_def grow_entries_def intro!: exI [of _ cap])
qed

lemma reads_as_compound_stop: "reads_as L (compound_loop env L d cap es) [0] es 0 0"
  by (subst compound_loop.simps [abs_def], rule reads_as_bind [OF reads_as_entry_stop]) simp_all

lemma reads_as_compound_entry:
  assumes "limits_usize L" "alloc_grants env" "0 < size_of_CompoundEntry env"
    and "modified_utf8_len name = Inr n" "t \<noteq> End"
    and v: "reads_as L (payload env L (tag_id t) d) bs v q a"
    and rest: "\<And>cap. reads_as L (compound_loop env L d cap (es @ [(name, v)])) bs' es' q' a'"
  shows "reads_as L (compound_loop env L d cap es) (tag_id t # string_bytes name @ bs @ bs') es'
    (28 + 2 * length name + q + q') (2 * length name + a + 2 * max (length es) 4 * size_of_CompoundEntry env + a')"
proof -
  obtain c where c: "reads_as L (grow_entries env L (length es) cap) [] c 0
      (2 * max (length es) 4 * size_of_CompoundEntry env)"
    using reads_as_grow [OF assms(1-3)] by blast
  have "reads_as L (\<lambda>r. bind_r (payload env L (tag_id t) d r) (\<lambda>(v, r).
        bind_r (grow_entries env L (length es) cap r) (\<lambda>(cap, r).
        compound_loop env L d cap (es @ [(name, v)]) r))) (bs @ bs') es' (q + q')
      (a + 2 * max (length es) 4 * size_of_CompoundEntry env + a')"
    by (rule reads_as_bind [OF v], rule reads_as_bind [OF c rest]) simp_all
  then show ?thesis
    using tag_id_range [of t] assms(5)
    by (subst compound_loop.simps [abs_def],
        intro reads_as_bind [OF reads_as_entry_header [OF assms(1,2,4), of "tag_id t"]])
      (simp_all add: add.assoc)
qed

text \<open>A compound: the loop from an empty vector, then the charge for the distinct names.\<close>

lemma reads_as_compound:
  assumes "limits_usize L" "d < max_depth L" "compound_wf es"
    and loop: "reads_as L (compound_loop env L (Suc d) 0 []) bs es q a"
  shows "reads_as L (payload env L 10 d) bs (Compound es) (48 + q + 36 * length es) a"
proof -
  have id: "dedup_last (sort_entries es) = es"
    using from_entries_id [OF assms(3)] by (simp add: from_entries_def)
  have fin: "reads_as L (finish_compound L es) [] (Compound es) (36 * length es) 0"
  proof (cases "36 * length es \<le> vanilla_quota_bytes L")
    case True
    then have "checked_mul (length es) 36 = Some (36 * length es)"
      using assms(1) by (simp add: checked_mul_def limits_usize_def)
    note mul = this
    show ?thesis
      unfolding finish_compound_def Let_def id mul ok_or_simps bind_r_simps
      by (rule reads_as_account [OF assms(1)]) simp_all
  qed (simp add: reads_as_def)
  have "reads_as L (\<lambda>r. bind_r (account L 48 r) (\<lambda>r. bind_r (compound_loop env L (Suc d) 0 [] r)
      (\<lambda>(es, r). finish_compound L es r))) bs (Compound es) (48 + q + 36 * length es) a"
    by (rule reads_as_account [OF assms(1)], rule reads_as_bind [OF loop], rule fin) simp_all
  then show ?thesis using assms(2) by (simp add: payload.simps [abs_def] container_def)
qed

lemma reads_as_wrapper:
  assumes "limits_usize L" "alloc_grants env" "0 < size_of_CompoundEntry env" "t \<noteq> End" "d < max_depth L"
    and v: "reads_as L (payload env L (tag_id t) (Suc d)) bs v q a"
  shows "reads_as L (payload env L 10 d) (tag_id t # [0, 0] @ bs @ [0]) (Compound [([], v)])
    (112 + q) (growth_cost env 0 1 + a)"
proof -
  have "reads_as L (compound_loop env L (Suc d) 0 []) (tag_id t # string_bytes [] @ bs @ [0]) [([], v)]
      (28 + 2 * length ([] :: nbt_string) + q + 0)
      (2 * length ([] :: nbt_string) + a + 2 * max (length ([] :: compound)) 4 * size_of_CompoundEntry env + 0)"
    by (rule reads_as_compound_entry [OF assms(1-3) _ assms(4) v, of "[]" 0])
      (use reads_as_compound_stop in \<open>simp_all add: modified_utf8_len_iff\<close>)
  moreover have "string_bytes [] = [0, 0]" by (simp add: string_bytes_def numeral_2_eq_2)
  ultimately have "reads_as L (compound_loop env L (Suc d) 0 []) (tag_id t # [0, 0] @ bs @ [0]) [([], v)]
      (28 + q) (growth_cost env 0 1 + a)"
    by (simp add: numeral_eq_Suc algebra_simps)
  from reads_as_compound [OF assms(1,5) _ this] show ?thesis by (simp add: algebra_simps)
qed

text \<open>A list: its header needs the elements' bytes behind it, so the contract includes them.\<close>

lemma reads_as_list:
  assumes "limits_usize L" "alloc_grants env" "d < max_depth L" "n \<le> 0x7fffffff"
    and "n \<noteq> 0 \<Longrightarrow> i \<noteq> 0" "\<not> i > 12" "n * minimum_width i \<le> length bs"
    and loop: "reads_as L (list_loop env L i (Suc d) n) bs vs q a"
  shows "reads_as L (payload env L 9 d) (i # to_be_bytes 4 (of_nat n :: u32) @ bs) (List vs)
    (36 + 4 * n + q) (n * size_of_Tag env + a)"
proof (cases "n * size_of_Tag env \<le> allocation_bytes L")
  case True
  have "minimum_width i \<le> 8" by (simp add: minimum_width_def)
  then have "n * minimum_width i \<le> 0x7fffffff * 8" using assms(4) by (intro mult_le_mono)
  then have mul: "checked_mul n 4 = Some (n * 4)" "checked_mul n (minimum_width i) = Some (n * minimum_width i)"
    "checked_mul n (size_of_Tag env) = Some (n * size_of_Tag env)"
    using assms(1,4) True by (auto simp: checked_mul_def USIZE_MAX_def limits_usize_def)
  have tail: "reads_as L (\<lambda>r. bind_r (account L (n * 4) r) (\<lambda>r.
      if n * minimum_width i > length (r_input r) then Inl Truncated
      else bind_r (allocation L (n * size_of_Tag env) r) (\<lambda>r.
        bind_r (reserve_exact env (size_of_Tag env) n) (\<lambda>_.
        bind_r (list_loop env L i (Suc d) n r) (\<lambda>(vs, r). Inr (List vs, r))))))
      bs (List vs) (4 * n + q) (n * size_of_Tag env + a)"
    by (rule reads_as_account [OF assms(1)], rule reads_as_enough_input [OF _ assms(7)],
        rule reads_as_allocation [OF assms(1)], rule reads_as_reserve [OF assms(2)],
        rule reads_as_bind [OF loop]) simp_all
  have chk: "(if n \<noteq> 0 then (if i = 0 then Inl UnexpectedEnd else check_id i) else Inr ()) = Inr ()"
    using assms(5,6) by (simp add: check_id_def)
  have "reads_as L (\<lambda>r. bind_r (account L 36 r) (\<lambda>r. bind_r (byte_r r) (\<lambda>(i, r).
      bind_r (count_r r) (\<lambda>(n, r).
      bind_r (if n \<noteq> 0 then (if i = 0 then Inl UnexpectedEnd else check_id i) else Inr ()) (\<lambda>_.
      bind_r (ok_or (checked_mul n 4) LengthOverflow) (\<lambda>k. bind_r (account L k r) (\<lambda>r.
      bind_r (ok_or (checked_mul n (minimum_width i)) LengthOverflow) (\<lambda>m.
      if m > length (r_input r) then Inl Truncated
      else bind_r (ok_or (checked_mul n (size_of_Tag env)) LengthOverflow) (\<lambda>b.
        bind_r (allocation L b r) (\<lambda>r.
        bind_r (reserve_exact env (size_of_Tag env) n) (\<lambda>_.
        bind_r (list_loop env L i (Suc d) n r) (\<lambda>(vs, r). Inr (List vs, r)))))))))))))
      (i # to_be_bytes 4 (of_nat n :: u32) @ bs) (List vs) (36 + 4 * n + q) (n * size_of_Tag env + a)"
    by (rule reads_as_account [OF assms(1)], rule reads_as_bind [OF reads_as_byte [of L i]],
        rule reads_as_bind [OF reads_as_count [OF assms(4)]],
        simp only: chk mul ok_or_simps bind_r_simps, rule tail) simp_all
  then show ?thesis
    using assms(3)
    by (simp add: payload.simps [abs_def] list_header_def container_def bind_r_assoc split_def
        if_distrib [of "\<lambda>m. bind_r m _"] cong: if_cong)
qed (auto simp: reads_as_def)

section \<open>The reader inverts the writer\<close>

text \<open>The assumptions on the reading side, and the contract of the bytes written for one tag.\<close>

definition reader_setup :: "alloc_env \<Rightarrow> Limits \<Rightarrow> bool" where
  "reader_setup env L \<longleftrightarrow> limits_usize L \<and> alloc_grants env \<and> 0 < size_of_CompoundEntry env"

definition decodes :: "alloc_env \<Rightarrow> Limits \<Rightarrow> Tag \<Rightarrow> nat \<Rightarrow> byte list \<Rightarrow> bool" where
  "decodes env L t d bs \<longleftrightarrow> minimum_width (tag_id t) \<le> length bs \<and>
     reads_as L (payload env L (tag_id t) d) bs (canon t) (quota_cost t) (alloc_cost env t)"

lemma payload_scalar: "i \<noteq> 9 \<Longrightarrow> i \<noteq> 10 \<Longrightarrow> payload env L i d = scalar_payload env L i"
  by (simp add: fun_eq_iff payload.simps)

lemma container_w_Inr: "container_w w d = Inr d' \<Longrightarrow> max_depth (w_limits w) \<le> max_depth L \<Longrightarrow> d' = Suc d \<and> d < max_depth L"
  by (auto simp: container_w_def split: if_splits)

lemma reads_as_charged:
  assumes "limits_usize L" "reads_as L f bs v q a"
  shows "reads_as L (\<lambda>r. bind_r (account L n r) (\<lambda>r. bind_r (f r) (\<lambda>(v, r). Inr (g v, r)))) bs (g v) (n + q) a"
  by (rule reads_as_account [OF assms(1)], rule reads_as_bind [OF assms(2)]) simp_all

lemma scalar_payload_reads:
  assumes "reader_setup env L"
  shows "reads_as L (scalar_payload env L 1) [b] (Byte b) 9 0"
    and "reads_as L (scalar_payload env L 2) (to_be_bytes 2 s) (Short s) 10 0"
    and "reads_as L (scalar_payload env L 3) (to_be_bytes 4 i) (Int_t i) 12 0"
    and "reads_as L (scalar_payload env L 4) (to_be_bytes 8 l) (Long l) 16 0"
    and "reads_as L (scalar_payload env L 5) (to_be_bytes 4 i) (Float (canonical_f32 i)) 12 0"
    and "reads_as L (scalar_payload env L 6) (to_be_bytes 8 l) (Double (canonical_f64 l)) 16 0"
    and "modified_utf8_len st = Inr n \<Longrightarrow>
      reads_as L (scalar_payload env L 8) (string_bytes st) (String st) (36 + 2 * length st) (2 * length st)"
proof -
  have L: "limits_usize L" and env: "alloc_grants env" using assms by (simp_all add: reader_setup_def)
  note charged = reads_as_charged [OF L]
  show "reads_as L (scalar_payload env L 1) [b] (Byte b) 9 0"
    using charged [OF reads_as_byte, of 9 Byte b] by (simp add: scalar_payload_def [abs_def])
  show "reads_as L (scalar_payload env L 2) (to_be_bytes 2 s) (Short s) 10 0"
    using charged [OF reads_as_short, of 10 Short s] by (simp add: scalar_payload_def [abs_def])
  show "reads_as L (scalar_payload env L 3) (to_be_bytes 4 i) (Int_t i) 12 0"
    using charged [OF reads_as_int, of 12 Int_t i] by (simp add: scalar_payload_def [abs_def])
  show "reads_as L (scalar_payload env L 4) (to_be_bytes 8 l) (Long l) 16 0"
    using charged [OF reads_as_long, of 16 Long l] by (simp add: scalar_payload_def [abs_def])
  show "reads_as L (scalar_payload env L 5) (to_be_bytes 4 i) (Float (canonical_f32 i)) 12 0"
    using charged [OF reads_as_int, of 12 "\<lambda>v. Float (canonical_f32 v)" i] by (simp add: scalar_payload_def [abs_def])
  show "reads_as L (scalar_payload env L 6) (to_be_bytes 8 l) (Double (canonical_f64 l)) 16 0"
    using charged [OF reads_as_long, of 16 "\<lambda>v. Double (canonical_f64 v)" l] by (simp add: scalar_payload_def [abs_def])
  show "reads_as L (scalar_payload env L 8) (string_bytes st) (String st) (36 + 2 * length st) (2 * length st)"
    if "modified_utf8_len st = Inr n"
    using charged [OF reads_as_string [OF L env that], of 36 String] by (simp add: scalar_payload_def [abs_def])
qed

lemma length_concat_be_bytes: "length (concat (map (to_be_bytes k) vs)) = k * length vs"
  by (induction vs) simp_all

lemma byte_array_reads:
  assumes "reader_setup env L" "length bs \<le> 0x7fffffff"
  shows "reads_as L (scalar_payload env L 7) (to_be_bytes 4 (of_nat (length bs) :: u32) @ bs)
    (ByteArray bs) (24 + length bs) (length bs)"
proof -
  have L: "limits_usize L" and env: "alloc_grants env" using assms by (simp_all add: reader_setup_def)
  have "reads_as L (byte_array env L) (to_be_bytes 4 (of_nat (length bs) :: u32) @ bs)
      (ByteArray bs) (24 + length bs) (length bs)"
    unfolding byte_array_def
    by (rule reads_as_array [OF L assms(2)], simp, simp, rule reads_as_bind [OF reads_as_take], simp,
        rule reads_as_reserve [OF env]) simp_all
  then show ?thesis by (simp add: scalar_payload_def [abs_def])
qed

lemma int_array_reads:
  assumes "reader_setup env L" "length vs \<le> 0x7fffffff"
  shows "reads_as L (scalar_payload env L 11)
    (to_be_bytes 4 (of_nat (length vs) :: u32) @ concat (map (to_be_bytes 4) vs)) (IntArray vs)
    (24 + 4 * length vs) (4 * length vs)"
proof -
  have L: "limits_usize L" and env: "alloc_grants env" using assms by (simp_all add: reader_setup_def)
  let ?bs = "concat (map (to_be_bytes 4) vs)"
  have "reads_as L (int_array env L) (to_be_bytes 4 (of_nat (length vs) :: u32) @ ?bs)
      (IntArray vs) (24 + length ?bs) (length ?bs)"
    unfolding int_array_def
    by (rule reads_as_array [OF L assms(2)], simp add: length_concat_be_bytes, simp, rule reads_as_reserve [OF env],
        rule reads_as_bind [OF reads_as_ints]) simp_all
  then show ?thesis by (simp add: scalar_payload_def [abs_def] length_concat_be_bytes)
qed

lemma long_array_reads:
  assumes "reader_setup env L" "length vs \<le> 0x7fffffff"
  shows "reads_as L (scalar_payload env L 12)
    (to_be_bytes 4 (of_nat (length vs) :: u32) @ concat (map (to_be_bytes 8) vs)) (LongArray vs)
    (24 + 8 * length vs) (8 * length vs)"
proof -
  have L: "limits_usize L" and env: "alloc_grants env" using assms by (simp_all add: reader_setup_def)
  let ?bs = "concat (map (to_be_bytes 8) vs)"
  have "reads_as L (long_array env L) (to_be_bytes 4 (of_nat (length vs) :: u32) @ ?bs)
      (LongArray vs) (24 + length ?bs) (length ?bs)"
    unfolding long_array_def
    by (rule reads_as_array [OF L assms(2)], simp add: length_concat_be_bytes, simp, rule reads_as_reserve [OF env],
        rule reads_as_bind [OF reads_as_longs]) simp_all
  then show ?thesis by (simp add: scalar_payload_def [abs_def] length_concat_be_bytes)
qed

lemma scalar_decodes:
  assumes "reader_setup env L" "payload_w w t d out = (Inr u, out')" "t \<noteq> End"
    "\<And>vs. t \<noteq> List vs" "\<And>es. t \<noteq> Compound es"
  shows "\<exists>bs. out' = out @ bs \<and> decodes env L t d bs"
  using assms(2-5)
  by (cases t)
    (auto dest!: bytes_w_Inr byte_w_Inr array_w_Inr string_w_Inr
      simp: decodes_def minimum_width_def payload_scalar string_bytes_def
      intro: scalar_payload_reads [OF assms(1)] byte_array_reads [OF assms(1)] int_array_reads [OF assms(1)] long_array_reads [OF assms(1)]
        scalar_payload_reads(7) [OF assms(1), unfolded string_bytes_def])

text \<open>One element of a list: the bytes written for it are read as the element itself.\<close>

lemma unwrap_plain_element:
  assumes "\<not> needs_wrapper raw v" "raw = 10 \<or> tag_id v = raw"
  shows "tag_id v = raw \<and> unwrap_element (canon v) = canon v"
  using assms by (cases v) (auto simp: needs_wrapper_def unwrap_canon_compound simp del: canon.simps(4),
      simp_all add: unwrap_element_def)

lemma reads_as_list_cons:
  assumes "reads_as L (payload env L i d) bs v q a" "reads_as L (list_loop env L i d n) bs' vs q' a'"
  shows "reads_as L (list_loop env L i d (Suc n)) (bs @ bs') (unwrap_element v # vs) (q + q') (a + a')"
  unfolding list_loop.simps
  by (rule reads_as_bind [OF assms(1)], rule reads_as_bind [OF assms(2)]) simp_all

abbreviation element_quota :: "byte \<Rightarrow> Tag \<Rightarrow> nat" where
  "element_quota raw v \<equiv> (if needs_wrapper raw v then 112 else 0) + quota_cost v"

abbreviation element_alloc :: "alloc_env \<Rightarrow> byte \<Rightarrow> Tag \<Rightarrow> nat" where
  "element_alloc env raw v \<equiv> (if needs_wrapper raw v then growth_cost env 0 1 else 0) + alloc_cost env v"

definition element_decodes :: "alloc_env \<Rightarrow> Limits \<Rightarrow> byte \<Rightarrow> nat \<Rightarrow> Tag \<Rightarrow> byte list \<Rightarrow> bool" where
  "element_decodes env L raw d v bs \<longleftrightarrow> minimum_width raw \<le> length bs \<and>
     (\<exists>x. unwrap_element x = canon v \<and>
        reads_as L (payload env L raw d) bs x (element_quota raw v) (element_alloc env raw v))"

lemma wrapped_element_decodes:
  assumes "reader_setup env L" "needs_wrapper raw v" "v \<noteq> End" "d < max_depth L" "decodes env L v (Suc d) bs"
  shows "element_decodes env L raw d v (tag_id v # [0, 0] @ bs @ [0])"
proof -
  have raw: "raw = 10" using assms(2) by (simp add: needs_wrapper_def)
  have "reads_as L (payload env L 10 d) (tag_id v # [0, 0] @ bs @ [0]) (Compound [([], canon v)])
      (112 + quota_cost v) (growth_cost env 0 1 + alloc_cost env v)"
    using assms by (intro reads_as_wrapper) (simp_all add: reader_setup_def decodes_def)
  moreover have "unwrap_element (Compound [([], canon v)]) = canon v"
    by (simp add: unwrap_element_def is_wrapper_def)
  ultimately show ?thesis
    using assms(2) raw unfolding element_decodes_def by (auto simp: minimum_width_def)
qed

lemma plain_element_decodes:
  assumes "\<not> needs_wrapper raw v" "raw = 10 \<or> tag_id v = raw" "decodes env L v d bs"
  shows "element_decodes env L raw d v bs"
  using unwrap_plain_element [OF assms(1,2)] assms(1,3) by (auto simp: element_decodes_def decodes_def)

text \<open>The contracts of the two loops of the writer.\<close>

definition elements_decode :: "alloc_env \<Rightarrow> Limits \<Rightarrow> byte \<Rightarrow> nat \<Rightarrow> Tag list \<Rightarrow> byte list \<Rightarrow> bool" where
  "elements_decode env L raw d vs bs \<longleftrightarrow> length vs * minimum_width raw \<le> length bs \<and>
     reads_as L (list_loop env L raw d (length vs)) bs (map canon vs)
       (sum_list (map (element_quota raw) vs)) (sum_list (map (element_alloc env raw) vs))"

definition entries_decode :: "alloc_env \<Rightarrow> Limits \<Rightarrow> nat \<Rightarrow> compound \<Rightarrow> byte list \<Rightarrow> bool" where
  "entries_decode env L d es bs \<longleftrightarrow> (\<forall>cap acc. reads_as L (compound_loop env L d cap acc) (bs @ [0])
     (acc @ map (\<lambda>e. (fst e, canon (snd e))) es)
     (sum_list (map (\<lambda>e. 28 + 2 * length (fst e) + quota_cost (snd e)) es))
     (growth_cost env (length acc) (length es) +
      sum_list (map (\<lambda>e. 2 * length (fst e) + alloc_cost env (snd e)) es)))"

lemma elements_decode_Nil: "elements_decode env L raw d [] []"
  by (simp add: elements_decode_def list_loop.simps(1) [abs_def])

lemma elements_decode_Cons:
  assumes "element_decodes env L raw d v bs" "elements_decode env L raw d vs bs'"
  shows "elements_decode env L raw d (v # vs) (bs @ bs')"
proof -
  obtain x where x: "unwrap_element x = canon v"
    "reads_as L (payload env L raw d) bs x (element_quota raw v) (element_alloc env raw v)"
    using assms(1) by (auto simp: element_decodes_def)
  from reads_as_list_cons [OF x(2), of "length vs" bs'] show ?thesis
    using assms x(1) by (simp add: elements_decode_def element_decodes_def)
qed

lemma entries_decode_Nil: "entries_decode env L d [] []"
  using reads_as_compound_stop by (simp add: entries_decode_def)

lemma entries_decode_Cons:
  assumes rs: "reader_setup env L" and "modified_utf8_len (fst e) = Inr n" "snd e \<noteq> End"
    and v: "decodes env L (snd e) d bs" and rest: "entries_decode env L d es bs'"
  shows "entries_decode env L d (e # es) (tag_id (snd e) # string_bytes (fst e) @ bs @ bs')"
  unfolding entries_decode_def
proof (intro allI)
  fix cap and acc :: compound
  have env: "limits_usize L" "alloc_grants env" "0 < size_of_CompoundEntry env"
    using rs by (simp_all add: reader_setup_def)
  have v': "reads_as L (payload env L (tag_id (snd e)) d) bs (canon (snd e)) (quota_cost (snd e)) (alloc_cost env (snd e))"
    using v by (simp add: decodes_def)
  have r': "reads_as L (compound_loop env L d cap (acc @ [(fst e, canon (snd e))])) (bs' @ [0])
      (acc @ map (\<lambda>e. (fst e, canon (snd e))) (e # es))
      (sum_list (map (\<lambda>e. 28 + 2 * length (fst e) + quota_cost (snd e)) es))
      (growth_cost env (Suc (length acc)) (length es) +
       sum_list (map (\<lambda>e. 2 * length (fst e) + alloc_cost env (snd e)) es))" for cap
    using spec [OF spec [OF rest [unfolded entries_decode_def]], of cap "acc @ [(fst e, canon (snd e))]"] by simp
  from reads_as_compound_entry [OF env assms(2,3) v' r', of cap]
  show "reads_as L (compound_loop env L d cap acc) ((tag_id (snd e) # string_bytes (fst e) @ bs @ bs') @ [0])
      (acc @ map (\<lambda>e. (fst e, canon (snd e))) (e # es))
      (sum_list (map (\<lambda>e. 28 + 2 * length (fst e) + quota_cost (snd e)) (e # es)))
      (growth_cost env (length acc) (length (e # es)) +
       sum_list (map (\<lambda>e. 2 * length (fst e) + alloc_cost env (snd e)) (e # es)))"
    by (simp add: algebra_simps)
qed

lemma list_decodes:
  assumes "reader_setup env L" "d < max_depth L" "list_element_type vs = Inr raw" "length vs \<le> 0x7fffffff"
    "elements_decode env L raw (Suc d) vs bs"
  shows "decodes env L (List vs) d (raw # to_be_bytes 4 (of_nat (length vs) :: u32) @ bs)"
proof -
  note raw = list_element_type_spec [OF assms(3)]
  have el: "length vs * minimum_width raw \<le> length bs"
    "reads_as L (list_loop env L raw (Suc d) (length vs)) bs (map canon vs)
       (sum_list (map (element_quota raw) vs)) (sum_list (map (element_alloc env raw) vs))"
    using assms(5) by (simp_all add: elements_decode_def)
  from reads_as_list [OF _ _ assms(2,4) _ raw(5) el] show ?thesis
    using assms(1) raw(3,4) by (simp add: reader_setup_def decodes_def minimum_width_def)
qed

lemma minimum_width_10: "minimum_width 10 = 1"
  by (simp add: minimum_width_def)

lemma compound_decodes:
  assumes "reader_setup env L" "d < max_depth L" "compound_wf es" "entries_decode env L (Suc d) es bs"
  shows "decodes env L (Compound es) d (bs @ [0])"
proof -
  have loop: "reads_as L (compound_loop env L (Suc d) 0 []) (bs @ [0]) (map (\<lambda>e. (fst e, canon (snd e))) es)
      (sum_list (map (\<lambda>e. 28 + 2 * length (fst e) + quota_cost (snd e)) es))
      (growth_cost env 0 (length es) + sum_list (map (\<lambda>e. 2 * length (fst e) + alloc_cost env (snd e)) es))"
    using spec [OF spec [OF assms(4) [unfolded entries_decode_def]], of 0 "[]"] by simp
  have wf: "compound_wf (map (\<lambda>e. (fst e, canon (snd e))) es)"
    using assms(3) by (simp add: compound_wf_def comp_def)
  from reads_as_compound [OF _ assms(2) wf loop] assms(1) show ?thesis
    by (simp add: reader_setup_def decodes_def minimum_width_10 algebra_simps)
qed

lemma writer_decodes:
  assumes rs: "reader_setup env L"
  shows "payload_w w t d out = (Inr u, out') \<Longrightarrow> max_depth (w_limits w) \<le> max_depth L \<Longrightarrow> tag_wf t \<Longrightarrow> t \<noteq> End \<Longrightarrow>
      \<exists>bs. out' = out @ bs \<and> decodes env L t d bs"
    and "list_elements_w w raw d vs out = (Inr u, out') \<Longrightarrow> max_depth (w_limits w) \<le> max_depth L \<Longrightarrow>
      \<forall>v \<in> set vs. tag_wf v \<and> v \<noteq> End \<and> (raw = 10 \<or> tag_id v = raw) \<Longrightarrow>
      \<exists>bs. out' = out @ bs \<and> elements_decode env L raw d vs bs"
    and "entries_w w d es out = (Inr u, out') \<Longrightarrow> max_depth (w_limits w) \<le> max_depth L \<Longrightarrow>
      \<forall>e \<in> set es. tag_wf (snd e) \<Longrightarrow> \<exists>bs. out' = out @ bs \<and> entries_decode env L d es bs"
proof (induction w t d out and w raw d vs out and w d es out arbitrary: u out' and u out' and u out'
    rule: payload_w_list_elements_w_entries_w.induct)
  case (10 w vs d out)
  from "10.prems" obtain raw out1 out2 where
    w: "container_w w d = Inr (Suc d)" "d < max_depth L" "list_element_type vs = Inr raw"
      "byte_w w raw out = (Inr (), out1)" "length_w w (length vs) out1 = (Inr (), out2)"
      "list_elements_w w raw (Suc d) vs out2 = (Inr u, out')"
    by (auto simp: and_then_Inr_iff split: sum.splits dest: container_w_Inr)
  have "\<forall>v \<in> set vs. tag_wf v \<and> v \<noteq> End \<and> (raw = 10 \<or> tag_id v = raw)"
    using list_element_type_spec [OF w(3)] "10.prems"(3) by auto
  from "10.IH" [OF w(1,3-6) "10.prems"(2) this] obtain bs where
    "out' = out2 @ bs" "elements_decode env L raw (Suc d) vs bs" by blast
  then show ?case
    using list_decodes [OF rs w(2,3)] byte_w_Inr [OF w(4)] length_w_Inr [OF w(5)] by auto
next
  case (11 w es d out)
  from "11.prems" obtain out1 where
    w: "container_w w d = Inr (Suc d)" "d < max_depth L"
      "entries_w w (Suc d) es out = (Inr (), out1)" "byte_w w 0 out1 = (Inr u, out')"
    by (auto simp: and_then_Inr_iff split: sum.splits dest: container_w_Inr)
  have "\<forall>e \<in> set es. tag_wf (snd e)" using "11.prems"(3) by simp
  from "11.IH" [OF w(1,3) "11.prems"(2) this] obtain bs where
    "out1 = out @ bs" "entries_decode env L (Suc d) es bs" by blast
  then show ?case using compound_decodes [OF rs w(2)] "11.prems"(3) byte_w_Inr [OF w(4)] by auto
next
  case (15 w raw d v vs out)
  show ?case
  proof (cases "needs_wrapper raw v")
    case True
    from "15.prems" True obtain out1 out2 out3 out4 where
      w: "container_w w d = Inr (Suc d)" "d < max_depth L" "byte_w w (tag_id v) out = (Inr (), out1)"
        "bytes_w w [0, 0] out1 = (Inr (), out2)" "payload_w w v (Suc d) out2 = (Inr (), out3)"
        "byte_w w 0 out3 = (Inr (), out4)" "list_elements_w w raw d vs out4 = (Inr u, out')"
      by (auto simp: and_then_Inr_iff split: sum.splits dest: container_w_Inr)
    obtain bs where bs: "out3 = out2 @ bs" "decodes env L v (Suc d) bs"
      using "15.IH"(1) [OF True w(1,3-5) "15.prems"(2)] "15.prems"(3) by auto
    obtain bs' where "out' = out4 @ bs'" "elements_decode env L raw d vs bs'"
      using "15.IH"(3) [OF _ w(7) "15.prems"(2)] True w "15.prems"(3) by auto
    then show ?thesis
      using elements_decode_Cons [OF wrapped_element_decodes [OF rs True _ w(2) bs(2)]] bs(1) "15.prems"(3)
        byte_w_Inr [OF w(3)] bytes_w_Inr [OF w(4)] byte_w_Inr [OF w(6)] by auto
  next
    case False
    from "15.prems" False obtain out1 where
      w: "payload_w w v d out = (Inr (), out1)" "list_elements_w w raw d vs out1 = (Inr u, out')"
      by (auto simp: and_then_Inr_iff)
    obtain bs where bs: "out1 = out @ bs" "decodes env L v d bs"
      using "15.IH"(2) [OF False w(1) "15.prems"(2)] "15.prems"(3) by auto
    obtain bs' where "out' = out1 @ bs'" "elements_decode env L raw d vs bs'"
      using "15.IH"(3) [OF _ w(2) "15.prems"(2)] False w "15.prems"(3) by auto
    then show ?thesis
      using elements_decode_Cons [OF plain_element_decodes [OF False _ bs(2)]] bs(1) "15.prems"(3) by auto
  qed
next
  case (17 w d e es out)
  from "17.prems" obtain out1 out2 out3 where
    w: "snd e \<noteq> End" "byte_w w (tag_id (snd e)) out = (Inr (), out1)" "string_w w (fst e) out1 = (Inr (), out2)"
      "payload_w w (snd e) d out2 = (Inr (), out3)" "entries_w w d es out3 = (Inr u, out')"
    by (auto simp: and_then_Inr_iff split: if_splits)
  obtain n where n: "modified_utf8_len (fst e) = Inr n" using string_w_Inr [OF w(3)] by blast
  obtain bs where bs: "out3 = out2 @ bs" "decodes env L (snd e) d bs"
    using "17.IH"(1) [OF w(1-4) "17.prems"(2)] "17.prems"(3) w(1) by auto
  obtain bs' where "out' = out3 @ bs'" "entries_decode env L d es bs'"
    using "17.IH"(2) [OF w "17.prems"(2)] "17.prems"(3) by auto
  then show ?case
    using entries_decode_Cons [OF rs n w(1) bs(2)] bs(1) byte_w_Inr [OF w(2)] string_w_Inr [OF w(3)] by auto
qed (use scalar_decodes [OF rs] elements_decode_Nil entries_decode_Nil in auto)

section \<open>Properties\<close>

lemma truncate_on_error_Inr [simp]: "truncate_on_error n m = (Inr u, out) \<longleftrightarrow> m = (Inr u, out)"
  by (cases m; cases "fst m") (auto simp: truncate_on_error_def)

text \<open>A reader that can take a whole tag back: its depth, quota and allocation limits suffice.\<close>

definition reader_fits :: "alloc_env \<Rightarrow> Limits \<Rightarrow> Limits \<Rightarrow> Tag \<Rightarrow> nat \<Rightarrow> bool" where
  "reader_fits env WL L t extra \<longleftrightarrow>
     reader_setup env L \<and> max_depth WL \<le> max_depth L \<and> max_depth L \<le> 512 \<and>
     quota_cost t \<le> vanilla_quota_bytes L \<and> alloc_cost env t + extra \<le> allocation_bytes L"

lemma decodes_root:
  assumes "decodes env L t 0 bs" "t \<noteq> End" "reader_fits env WL L t n" "r_input r = bs @ rest" "r_quota r = 0" "r_allocation r \<le> n"
  obtains r' where "payload env L (tag_id t) 0 r = Inr (canon t, r')" "r_input r' = rest"
proof -
  have "reads_as L (payload env L (tag_id t) 0) bs (canon t) (quota_cost t) (alloc_cost env t)"
    using assms(1) by (simp add: decodes_def)
  then show thesis
    by (rule reads_asD [of _ _ _ _ _ _ r rest]) (use assms that in \<open>auto simp: reader_fits_def\<close>)
qed

text \<open>
  C1: a tag written as a network root is read back. When the writer accepts a well-formed tag it
  has appended bytes that the reader consumes exactly, whatever follows them, and that it decodes
  to the same tag in canonical form (one NaN, no negative zero), provided the reader's depth,
  quota and allocation limits cover the tag. The wrappers that heterogeneous lists get on the
  wire are removed again.
\<close>

theorem nbt_network_round_trip:
  assumes "write_network wenv t out WL = (Inr u, out')" "tag_wf t" "reader_fits env WL L t 0"
  shows "\<exists>bs. out' = out @ bs \<and> read_network env (bs @ rest) L = Inr (canon t, rest)"
proof -
  let ?w = "\<lparr>w_env = wenv, w_limits = WL, w_start = length out\<rparr>"
  from assms(1) obtain out1 where w: "byte_w ?w (tag_id t) out = (Inr (), out1)" "payload_w ?w t 0 out1 = (Inr u, out')"
    by (auto simp: write_network_def Let_def and_then_Inr_iff split: sum.splits)
  have L: "validate_limits L = Inr ()" using assms(3) by (simp add: reader_fits_def validate_limits_def)
  show ?thesis
  proof (cases "t = End")
    case True
    with w byte_w_Inr [OF w(1)] show ?thesis
      by (intro exI [of _ "[0]"]) (simp add: read_network_def read_network_accounted_def L byte_r_def take_r_def new_reader_def map_r_def)
  next
    case False
    obtain bs where bs: "out' = out1 @ bs" "decodes env L t 0 bs"
      using writer_decodes(1) [OF _ w(2) _ assms(2) False, of env L] assms(3) by (auto simp: reader_fits_def)
    let ?r = "\<lparr>r_input = bs @ rest, r_quota = 0, r_allocation = 0\<rparr>"
    obtain r' where "payload env L (tag_id t) 0 ?r = Inr (canon t, r')" "r_input r' = rest"
      by (rule decodes_root [OF bs(2) False assms(3), of ?r rest]) simp_all
    then have "read_network env ((tag_id t # bs) @ rest) L = Inr (canon t, rest)"
      using tag_id_range(1) [OF False]
      by (simp add: read_network_def read_network_accounted_def L byte_r_def take_r_def new_reader_def map_r_def)
    then show ?thesis using bs(1) byte_w_Inr [OF w(1)] by auto
  qed
qed

lemma to_be_bytes_unfold:
  "to_be_bytes 2 w = [ucast (drop_bit 8 w), ucast w]"
  "to_be_bytes 4 w = [ucast (drop_bit 24 w), ucast (drop_bit 16 w), ucast (drop_bit 8 w), ucast w]"
  by (simp_all add: numeral_eq_Suc)

lemmas write_simps = write_network_def write_named_def validate_limits_def default_limits_def byte_w_def bytes_w_def
  reserve_w_def checked_add_def USIZE_MAX_def plain_env_def container_w_def list_element_type_def needs_wrapper_def
  and_then_def length_w_def truncate_on_error_def string_w_def modified_utf8_len_def unit_len_def unit_bytes_def f32_out_def f32_is_nan_def to_be_bytes_unfold

theorem nbt_network_round_trip_witness:
  "\<exists>bs. snd (write_network plain_env (List [Byte 1, Short 2]) [9] default_limits) = [9] @ bs \<and>
     read_network plain_env (bs @ [77]) default_limits = Inr (List [Byte 1, Short 2], [77])"
proof -
  let ?t = "List [Byte 1, Short 2]"
  have w: "write_network plain_env ?t [9] default_limits =
      (Inr (), [9, 9, 10, 0, 0, 0, 2, 1, 0, 0, 1, 0, 2, 0, 0, 0, 2, 0])"
    by (simp add: write_simps)
  have "tag_wf ?t" "reader_fits plain_env default_limits default_limits ?t 0" 
    by (simp_all add: reader_fits_def reader_setup_def limits_usize_def default_limits_def USIZE_MAX_def
        raw_type_of_def list_element_type_def needs_wrapper_def plain_env_def alloc_grants_def)
  from nbt_network_round_trip [OF w this, of "[77]"] show ?thesis using w by simp
qed

text \<open>
  the same for the disk form with a root name, and an \<open>End\<close> root carries no name: what is
  written as a named root is read back with its name, and the reader stops where the writer did.
\<close>

theorem nbt_named_round_trip:
  assumes "write_named wenv (name, t) out WL = (Inr u, out')" "tag_wf t" "reader_fits env WL L t (2 * length name)"
  shows "\<exists>bs. out' = out @ bs \<and> read_named env (bs @ rest) L = Inr ((name, canon t), rest)"
proof -
  let ?w = "\<lparr>w_env = wenv, w_limits = WL, w_start = length out\<rparr>"
  from assms(1) obtain out1 where ne: "t = End \<longrightarrow> name = []" and w1: "byte_w ?w (tag_id t) out = (Inr (), out1)"
    and tl: "and_then (if t \<noteq> End then string_w ?w name out1 else (Inr (), out1)) (\<lambda>out. payload_w ?w t 0 out) = (Inr u, out')"
    by (auto simp: write_named_def Let_def and_then_Inr_iff split: sum.splits if_splits)
  have L: "validate_limits L = Inr ()" "reader_setup env L"
    using assms(3) by (simp_all add: reader_fits_def validate_limits_def)
  show ?thesis
  proof (cases "t = End")
    case True
    with ne tl byte_w_Inr [OF w1] show ?thesis
      by (intro exI [of _ "[0]"]) (simp add: and_then_Inr_iff read_named_def L byte_r_def take_r_def new_reader_def)
  next
    case False
    then obtain out2 where w: "string_w ?w name out1 = (Inr (), out2)" "payload_w ?w t 0 out2 = (Inr u, out')"
      using tl by (auto simp: and_then_Inr_iff)
    obtain bs where bs: "out' = out2 @ bs" "decodes env L t 0 bs"
      using writer_decodes(1) [OF L(2) w(2) _ assms(2) False] assms(3) by (auto simp: reader_fits_def)
    obtain n where n: "modified_utf8_len name = Inr n" using string_w_Inr [OF w(1)] by blast
    have "reads_as L (string_r env L False) (string_bytes name) name 0 (2 * length name)"
      by (rule reads_as_root_name) (use n L in \<open>simp_all add: reader_setup_def\<close>)
    then obtain r1 where r1: "string_r env L False \<lparr>r_input = string_bytes name @ bs @ rest, r_quota = 0, r_allocation = 0\<rparr> = Inr (name, r1)"
      "r_input r1 = bs @ rest" "r_quota r1 = 0" "r_allocation r1 \<le> 2 * length name"
      by (rule reads_asD [of _ _ _ _ _ _ "\<lparr>r_input = string_bytes name @ bs @ rest, r_quota = 0, r_allocation = 0\<rparr>" "bs @ rest"])
        (use assms(3) in \<open>auto simp: reader_fits_def\<close>)
    obtain r' where "payload env L (tag_id t) 0 r1 = Inr (canon t, r')" "r_input r' = rest"
      by (rule decodes_root [OF bs(2) False assms(3) r1(2-4)])
    then have "read_named env ((tag_id t # string_bytes name @ bs) @ rest) L = Inr ((name, canon t), rest)"
      using tag_id_range [of t] False r1(1)
      by (simp add: read_named_def L byte_r_def take_r_def new_reader_def check_id_def)
    then show ?thesis using bs(1) byte_w_Inr [OF w1] string_w_Inr [OF w(1)] by auto
  qed
qed

theorem nbt_named_round_trip_witness:
  "\<exists>bs. snd (write_named plain_env ([97], Float 0x80000000) [] default_limits) = [] @ bs \<and>
     read_named plain_env (bs @ [7]) default_limits = Inr (([97], Float 0), [7])"
proof -
  have w: "write_named plain_env ([97], Float 0x80000000) [] default_limits =
      (Inr (), [5, 0, 1, 97, 128, 0, 0, 0])"
    by (simp add: write_simps)
  have f: "tag_wf (Float 0x80000000)"
    "reader_fits plain_env default_limits default_limits (Float 0x80000000) (2 * length [97 :: u16])"
    by (simp_all add: reader_fits_def reader_setup_def limits_usize_def default_limits_def USIZE_MAX_def
        plain_env_def alloc_grants_def)
  have "canon (Float 0x80000000) = Float 0" by (simp add: canonical_f32_def f32_out_def f32_is_nan_def f32_is_zero_def)
  then show ?thesis using nbt_named_round_trip [OF w f, of "[7]"] w by simp
qed

end
