(* ===== verification/NbtSize.thy ===== *)
theory NbtSize
  imports NbtRoundTrip
begin

text \<open>
  The allocation-free length computation of \<^verbatim>\<open>src/nbt/size.rs\<close>. The source walks the tag with
  an explicit stack of 512 frames; the active frames are a list here, the top first, and pushing
  a frame on a full stack is the value \<open>FrameOverflow\<close> (an index panic of the source). The
  result is compared with the recursive writer.
\<close>

section \<open>The counter\<close>

datatype size_stop = Err nbt_error | FrameOverflow

definition size_add :: "Limits \<Rightarrow> nat \<Rightarrow> nat \<Rightarrow> size_stop + nat" where
  "size_add L n bytes =
     (case checked_add bytes n of
        None \<Rightarrow> Inl (Err OutputLimit)
      | Some bytes \<Rightarrow> if bytes > output_bytes L then Inl (Err OutputLimit) else Inr bytes)"

definition size_length :: "Limits \<Rightarrow> nat \<Rightarrow> nat \<Rightarrow> size_stop + nat" where
  "size_length L len bytes = (if len > 0x7fffffff then Inl (Err LengthOverflow) else size_add L 4 bytes)"

definition size_string :: "Limits \<Rightarrow> nbt_string \<Rightarrow> nat \<Rightarrow> size_stop + nat" where
  "size_string L s bytes =
     (case modified_utf8_len s of
        Inl e \<Rightarrow> Inl (Err e)
      | Inr len \<Rightarrow> bind_r (ok_or (checked_add len 2) (Err LengthOverflow)) (\<lambda>n. size_add L n bytes))"

definition size_container :: "Limits \<Rightarrow> nat \<Rightarrow> size_stop + nat" where
  "size_container L depth = (if depth \<ge> max_depth L then Inl (Err DepthLimit) else Inr (depth + 1))"

definition size_array :: "Limits \<Rightarrow> nat \<Rightarrow> nat \<Rightarrow> nat \<Rightarrow> size_stop + nat" where
  "size_array L width len bytes =
     bind_r (size_length L len bytes) (\<lambda>bytes.
     bind_r (ok_or (checked_mul len width) (Err LengthOverflow)) (\<lambda>n. size_add L n bytes))"

section \<open>The traversal\<close>

datatype Frame =
    FrameCompound "(nbt_string \<times> Tag) list" nat
  | FrameList "Tag list" nat byte bool

definition push_frame :: "Frame \<Rightarrow> Frame list \<Rightarrow> size_stop + Frame list" where
  "push_frame f frames = (if length frames < 512 then Inr (f # frames) else Inl FrameOverflow)"

text \<open>Entering the current tag: a leaf is counted, a container is opened.\<close>

fun enter_tag :: "Limits \<Rightarrow> Tag \<Rightarrow> nat \<Rightarrow> Frame list \<Rightarrow> nat \<Rightarrow> size_stop + (Frame list \<times> nat)" where
  "enter_tag L (List vs) depth frames bytes =
     bind_r (size_container L depth) (\<lambda>child_depth.
     bind_r (case list_element_type vs of Inl e \<Rightarrow> Inl (Err e) | Inr i \<Rightarrow> Inr i) (\<lambda>raw_type.
     bind_r (size_add L 1 bytes) (\<lambda>bytes.
     bind_r (size_length L (length vs) bytes) (\<lambda>bytes.
     map_r (\<lambda>frames. (frames, bytes)) (push_frame (FrameList vs child_depth raw_type False) frames)))))"
| "enter_tag L (Compound es) depth frames bytes =
     bind_r (size_container L depth) (\<lambda>child_depth.
     map_r (\<lambda>frames. (frames, bytes)) (push_frame (FrameCompound es child_depth) frames))"
| "enter_tag L tag depth frames bytes =
     map_r (\<lambda>bytes. (frames, bytes))
       (case tag of
          Byte _ \<Rightarrow> size_add L 1 bytes
        | Short _ \<Rightarrow> size_add L 2 bytes
        | Int_t _ \<Rightarrow> size_add L 4 bytes
        | Float _ \<Rightarrow> size_add L 4 bytes
        | Long _ \<Rightarrow> size_add L 8 bytes
        | Double _ \<Rightarrow> size_add L 8 bytes
        | ByteArray vs \<Rightarrow> bind_r (size_length L (length vs) bytes) (\<lambda>bytes. size_add L (length vs) bytes)
        | IntArray vs \<Rightarrow> size_array L 4 (length vs) bytes
        | LongArray vs \<Rightarrow> size_array L 8 (length vs) bytes
        | String s \<Rightarrow> size_string L s bytes
        | _ \<Rightarrow> Inr bytes)"

text \<open>The inner loop: frames are popped until one yields the next current tag.\<close>

fun next_tag :: "Limits \<Rightarrow> Frame list \<Rightarrow> nat \<Rightarrow> size_stop + ((Tag \<times> nat) option \<times> Frame list \<times> nat)" where
  "next_tag L [] bytes = Inr (None, [], bytes)"
| "next_tag L (FrameCompound [] child_depth # frames) bytes =
     bind_r (size_add L 1 bytes) (\<lambda>bytes. next_tag L frames bytes)"
| "next_tag L (FrameCompound (e # tail) child_depth # frames) bytes =
     (if snd e = End then Inl (Err UnexpectedEnd)
      else
        bind_r (size_add L 1 bytes) (\<lambda>bytes.
        bind_r (size_string L (fst e) bytes) (\<lambda>bytes.
        Inr (Some (snd e, child_depth), FrameCompound tail child_depth # frames, bytes))))"
| "next_tag L (FrameList vs child_depth raw_type close_wrapper # frames) bytes =
     bind_r (if close_wrapper then size_add L 1 bytes else Inr bytes) (\<lambda>bytes.
     case vs of
       [] \<Rightarrow> next_tag L frames bytes
     | v # tail \<Rightarrow>
         if needs_wrapper raw_type v then
           bind_r (size_container L child_depth) (\<lambda>wrapped_depth.
           bind_r (size_add L 1 bytes) (\<lambda>bytes.
           bind_r (size_add L 2 bytes) (\<lambda>bytes.
           Inr (Some (v, wrapped_depth), FrameList tail child_depth raw_type True # frames, bytes))))
         else Inr (Some (v, child_depth), FrameList tail child_depth raw_type False # frames, bytes))"

text \<open>The weight of the work left bounds the outer loop.\<close>

fun nodes :: "Tag \<Rightarrow> nat" where
  "nodes (List vs) = Suc (sum_list (map nodes vs))"
| "nodes (Compound es) = Suc (sum_list (map (\<lambda>e. nodes (snd e)) es))"
| "nodes _ = 1"

fun frame_nodes :: "Frame \<Rightarrow> nat" where
  "frame_nodes (FrameCompound es d) = sum_list (map (\<lambda>e. nodes (snd e)) es)"
| "frame_nodes (FrameList vs d raw close) = sum_list (map nodes vs)"

abbreviation frames_nodes :: "Frame list \<Rightarrow> nat" where
  "frames_nodes frames \<equiv> sum_list (map frame_nodes frames)"

lemma enter_tag_nodes:
  "enter_tag L t d frames b = Inr (frames', b') \<Longrightarrow> frames_nodes frames' < nodes t + frames_nodes frames"
  by (cases t) (auto simp: result_simps push_frame_def split: if_splits)

lemma next_tag_nodes:
  "next_tag L frames b = Inr (Some (t, d), frames', b') \<Longrightarrow> frames_nodes frames = nodes t + frames_nodes frames'"
proof (induction L frames b rule: next_tag.induct)
  case (4 L vs d' raw close frames b)
  then show ?case by (cases vs) (auto simp: result_simps split: if_splits)
qed (auto simp: result_simps split: if_splits)

function size_loop :: "Limits \<Rightarrow> (Tag \<times> nat) option \<Rightarrow> Frame list \<Rightarrow> nat \<Rightarrow> size_stop + nat" where
  "size_loop L (Some (tag, depth)) frames bytes =
     bind_r (enter_tag L tag depth frames bytes) (\<lambda>(frames, bytes). size_loop L None frames bytes)"
| "size_loop L None frames bytes =
     bind_r (next_tag L frames bytes) (\<lambda>(current, frames, bytes).
     case current of None \<Rightarrow> Inr bytes | Some c \<Rightarrow> size_loop L (Some c) frames bytes)"
  by pat_completeness auto
termination
  by (relation "measure (\<lambda>(L, current, frames, bytes).
      (case current of None \<Rightarrow> 1 | Some (t, d) \<Rightarrow> 2 * nodes t) + 2 * frames_nodes frames)")
    (auto dest!: enter_tag_nodes next_tag_nodes)

definition network_encoded_len :: "Tag \<Rightarrow> Limits \<Rightarrow> size_stop + nat" where
  "network_encoded_len tag L =
     (case validate_limits L of
        Inl e \<Rightarrow> Inl (Err e)
      | Inr _ \<Rightarrow> bind_r (size_add L 1 0) (\<lambda>bytes. size_loop L (Some (tag, 0)) [] bytes))"

section \<open>The traversal is the recursive writer\<close>

text \<open>
  \<open>counted w fs m\<close> is what the traversal makes of a writer step: its error, or the rest of the
  traversal with the bytes written so far.
\<close>

definition used :: "Writer \<Rightarrow> byte list \<Rightarrow> nat" where
  "used w out = length out - w_start w"

definition counted :: "Writer \<Rightarrow> (nat \<Rightarrow> size_stop + 'a) \<Rightarrow> w_result \<Rightarrow> size_stop + 'a" where
  "counted w k m = (case m of (Inl e, _) \<Rightarrow> Inl (Err e) | (Inr _, out) \<Rightarrow> k (used w out))"

text \<open>A writer whose allocator always grants, at a position not before its start.\<close>

definition sizing :: "Writer \<Rightarrow> byte list \<Rightarrow> bool" where
  "sizing w out \<longleftrightarrow> (\<forall>n. try_reserve (w_env w) n) \<and> w_start w \<le> length out"

lemma counted_simps [simp]:
  "counted w k (Inl e, out) = Inl (Err e)" "counted w k (Inr u, out) = k (used w out)"
  by (simp_all add: counted_def)

lemma sizing_append [simp]: "sizing w out \<Longrightarrow> sizing w (out @ bs)"
  by (simp add: sizing_def)

lemma sizing_appends: "sizing w out \<Longrightarrow> appends out m \<Longrightarrow> sizing w (snd m)"
  unfolding sizing_def appends_def by (metis length_take min.bounded_iff)

lemma counted_and_then:
  assumes "sizing w out" "appends out m"
    and "\<And>out'. m = (Inr (), out') \<Longrightarrow> sizing w out' \<Longrightarrow> counted w k (f out') = g (used w out')"
  shows "counted w k (and_then m f) = counted w g m"
  using assms sizing_appends [OF assms(1,2)] by (cases m; cases "fst m") auto

lemma reserve_w_counted:
  assumes "sizing w out" "length bs = n"
  shows "counted w k (and_then (reserve_w w n out) (\<lambda>out. (Inr (), out @ bs))) =
    bind_r (size_add (w_limits w) n (used w out)) k"
  using assms
  by (auto simp: reserve_w_def size_add_def sizing_def used_def checked_add_def)

lemma bytes_w_counted:
  "sizing w out \<Longrightarrow> counted w k (bytes_w w bs out) = bind_r (size_add (w_limits w) (length bs) (used w out)) k"
  by (simp add: bytes_w_def reserve_w_counted)

lemma byte_w_counted:
  "sizing w out \<Longrightarrow> counted w k (byte_w w b out) = bind_r (size_add (w_limits w) (Suc 0) (used w out)) k"
  by (simp add: byte_w_def bytes_w_counted)

lemma length_w_counted:
  "sizing w out \<Longrightarrow> counted w k (length_w w n out) = bind_r (size_length (w_limits w) n (used w out)) k"
  by (simp add: length_w_def size_length_def bytes_w_counted)

lemma string_w_counted:
  "sizing w out \<Longrightarrow> counted w k (string_w w s out) = bind_r (size_string (w_limits w) s (used w out)) k"
proof (cases "modified_utf8_len s")
  case (Inr n)
  assume "sizing w out"
  moreover have "n = sum_list (map unit_len s)" "n \<le> 65535" using Inr by (simp_all add: modified_utf8_len_iff)
  moreover have "checked_add n 2 = Some (n + 2)" using calculation by (simp add: checked_add_def USIZE_MAX_def)
  ultimately show ?thesis
    using Inr reserve_w_counted [of w out "to_be_bytes 2 (of_nat n :: u16) @ concat (map unit_bytes s)" "n + 2" k]
    by (simp add: string_w_def size_string_def length_concat_unit_bytes)
qed (simp add: string_w_def size_string_def)

lemma array_w_counted:
  assumes "sizing w out" "length bs = n * width" "width \<le> 8"
  shows "counted w k (array_w w width n bs out) = bind_r (size_array (w_limits w) width n (used w out)) k"
proof (cases "n \<le> 0x7fffffff")
  case True
  have "n * width \<le> 0x7fffffff * 8" using True assms(3) by (intro mult_le_mono) auto
  then have mul: "checked_mul n width = Some (length bs)"
    using assms(2) by (simp add: checked_mul_def USIZE_MAX_def)
  have "counted w k (array_w w width n bs out) = counted w (\<lambda>b. bind_r (size_add (w_limits w) (length bs) b) k) (length_w w n out)"
    unfolding array_w_def
  proof (rule counted_and_then [OF assms(1) length_w_appends])
    fix out' assume "sizing w out'"
    then show "counted w k (case checked_mul n width of None \<Rightarrow> (Inl LengthOverflow, out')
        | Some n \<Rightarrow> and_then (reserve_w w n out') (\<lambda>out. (Inr (), out @ bs))) =
      bind_r (size_add (w_limits w) (length bs) (used w out')) k"
      by (simp add: mul reserve_w_counted)
  qed
  then show ?thesis by (simp add: length_w_counted [OF assms(1)] size_array_def bind_r_assoc mul)
qed (simp add: array_w_def length_w_def size_array_def size_length_def)

lemma size_array_bytes:
  "size_array L (Suc 0) n b = bind_r (size_length L n b) (\<lambda>b. size_add L n b)"
  by (cases "n \<le> 0x7fffffff") (simp_all add: size_array_def checked_mul_def USIZE_MAX_def size_length_def)

lemma map_r_bind: "map_r f m = bind_r m (\<lambda>x. Inr (f x))"
  by (cases m) simp_all

lemma leaf_counted:
  assumes "sizing w out" "case t of List _ \<Rightarrow> False | Compound _ \<Rightarrow> False | _ \<Rightarrow> True"
  shows "enter_tag (w_limits w) t d fs (used w out) = counted w (\<lambda>b. Inr (fs, b)) (payload_w w t d out)"
  using assms
  by (cases t) (simp_all add: bytes_w_counted byte_w_counted string_w_counted array_w_counted map_r_bind
      size_array_bytes length_concat_be_bytes mult.commute)

lemma counted_byte_then:
  assumes "sizing w out"
    and "\<And>out'. byte_w w b out = (Inr (), out') \<Longrightarrow> sizing w out' \<Longrightarrow> counted w k (f out') = g (used w out')"
  shows "counted w k (and_then (byte_w w b out) f) = bind_r (size_add (w_limits w) (Suc 0) (used w out)) g"
  by (subst byte_w_counted [OF assms(1), symmetric])
    (rule counted_and_then [OF assms(1) byte_w_appends], rule assms(2))

lemma counted_bytes_then:
  assumes "sizing w out"
    and "\<And>out'. bytes_w w bs out = (Inr (), out') \<Longrightarrow> sizing w out' \<Longrightarrow> counted w k (f out') = g (used w out')"
  shows "counted w k (and_then (bytes_w w bs out) f) = bind_r (size_add (w_limits w) (length bs) (used w out)) g"
  by (subst bytes_w_counted [OF assms(1), symmetric])
    (rule counted_and_then [OF assms(1) bytes_w_appends], rule assms(2))

lemma counted_length_then:
  assumes "sizing w out"
    and "\<And>out'. length_w w n out = (Inr (), out') \<Longrightarrow> sizing w out' \<Longrightarrow> counted w k (f out') = g (used w out')"
  shows "counted w k (and_then (length_w w n out) f) = bind_r (size_length (w_limits w) n (used w out)) g"
  by (subst length_w_counted [OF assms(1), symmetric])
    (rule counted_and_then [OF assms(1) length_w_appends], rule assms(2))

lemma counted_string_then:
  assumes "sizing w out"
    and "\<And>out'. string_w w s out = (Inr (), out') \<Longrightarrow> sizing w out' \<Longrightarrow> counted w k (f out') = g (used w out')"
  shows "counted w k (and_then (string_w w s out) f) = bind_r (size_string (w_limits w) s (used w out)) g"
  by (subst string_w_counted [OF assms(1), symmetric])
    (rule counted_and_then [OF assms(1) string_w_appends], rule assms(2))

lemma size_container_w:
  "size_container (w_limits w) d = (case container_w w d of Inl e \<Rightarrow> Inl (Err e) | Inr c \<Rightarrow> Inr c)"
  by (simp add: size_container_def container_w_def)

lemma container_w_cases:
  obtains "container_w w d = Inl DepthLimit" | "container_w w d = Inr (Suc d)" "d < max_depth (w_limits w)"
  by (cases "d < max_depth (w_limits w)") (auto simp: container_w_def)

lemma and_then_assoc: "and_then (and_then m f) g = and_then m (\<lambda>out. and_then (f out) g)"
  by (cases m; cases "fst m") simp_all

lemma size_loop_frames:
  "size_loop L None (FrameList [] d raw False # fs) = size_loop L None fs"
  "\<not> needs_wrapper raw v \<Longrightarrow>
     size_loop L None (FrameList (v # vs) d raw False # fs) b = size_loop L (Some (v, d)) (FrameList vs d raw False # fs) b"
  "needs_wrapper raw v \<Longrightarrow>
     size_loop L None (FrameList (v # vs) d raw False # fs) b =
     bind_r (size_container L d) (\<lambda>wrapped_depth. bind_r (size_add L (Suc 0) b) (\<lambda>b. bind_r (size_add L 2 b)
       (size_loop L (Some (v, wrapped_depth)) (FrameList vs d raw True # fs))))"
  "size_loop L None (FrameList vs d raw True # fs) =
     (\<lambda>b. bind_r (size_add L (Suc 0) b) (size_loop L None (FrameList vs d raw False # fs)))"
  "size_loop L None (FrameCompound [] d # fs) = (\<lambda>b. bind_r (size_add L (Suc 0) b) (size_loop L None fs))"
  "snd e \<noteq> End \<Longrightarrow>
     size_loop L None (FrameCompound (e # es) d # fs) b =
     bind_r (size_add L (Suc 0) b) (\<lambda>b. bind_r (size_string L (fst e) b)
       (size_loop L (Some (snd e, d)) (FrameCompound es d # fs)))"
  "snd e = End \<Longrightarrow> size_loop L None (FrameCompound (e # es) d # fs) b = Inl (Err UnexpectedEnd)"
  by (auto simp: bind_r_assoc fun_eq_iff intro!: bind_r_cong)

declare size_loop.simps(2) [simp del]

lemma wrapped_element_counted:
  assumes "sizing w out"
    and "\<And>out1 out'. byte_w w (tag_id v) out = (Inr (), out1) \<Longrightarrow> bytes_w w [0, 0] out1 = (Inr (), out') \<Longrightarrow>
      sizing w out' \<Longrightarrow>
      counted w (\<lambda>b. bind_r (size_add (w_limits w) (Suc 0) b) k) (payload_w w v wd out') = g (used w out')"
  shows "counted w k (and_then (byte_w w (tag_id v) out) (\<lambda>out.
      and_then (bytes_w w [0, 0] out) (\<lambda>out. and_then (payload_w w v wd out) (\<lambda>out. byte_w w 0 out)))) =
    bind_r (size_add (w_limits w) (Suc 0) (used w out)) (\<lambda>b. bind_r (size_add (w_limits w) 2 b) g)"
proof (rule counted_byte_then [OF assms(1)])
  fix out1 assume out1: "byte_w w (tag_id v) out = (Inr (), out1)" "sizing w out1"
  have payload: "counted w k (and_then (payload_w w v wd out') (\<lambda>out. byte_w w 0 out)) = g (used w out')"
    if "bytes_w w [0, 0] out1 = (Inr (), out')" "sizing w out'" for out'
    unfolding assms(2) [OF out1(1) that, symmetric]
    by (rule counted_and_then [OF that(2) payload_w_appends(1)]) (rule byte_w_counted)
  have "counted w k (and_then (bytes_w w [0, 0] out1) (\<lambda>out.
      and_then (payload_w w v wd out) (\<lambda>out. byte_w w 0 out))) =
      bind_r (size_add (w_limits w) (length [0 :: byte, 0]) (used w out1)) g"
    by (rule counted_bytes_then [OF out1(2)]) (rule payload)
  then show "counted w k (and_then (bytes_w w [0, 0] out1) (\<lambda>out.
      and_then (payload_w w v wd out) (\<lambda>out. byte_w w 0 out))) = bind_r (size_add (w_limits w) 2 (used w out1)) g"
    by (simp add: numeral_2_eq_2)
qed

lemma leaf_size_loop:
  assumes "sizing w out" "case t of List _ \<Rightarrow> False | Compound _ \<Rightarrow> False | _ \<Rightarrow> True"
  shows "size_loop (w_limits w) (Some (t, d)) fs (used w out) =
    counted w (size_loop (w_limits w) None fs) (payload_w w t d out)"
  unfolding size_loop.simps(1) leaf_counted [OF assms]
  by (cases "payload_w w t d out"; cases "fst (payload_w w t d out)") auto

lemma list_size_loop:
  assumes "sizing w out" "length fs \<le> d" "max_depth (w_limits w) \<le> 512"
    and elements: "\<And>raw out1 out2. d < max_depth (w_limits w) \<Longrightarrow> list_element_type vs = Inr raw \<Longrightarrow>
      byte_w w raw out = (Inr (), out1) \<Longrightarrow> length_w w (length vs) out1 = (Inr (), out2) \<Longrightarrow> sizing w out2 \<Longrightarrow>
      size_loop (w_limits w) None (FrameList vs (Suc d) raw False # fs) (used w out2) =
      counted w (size_loop (w_limits w) None fs) (list_elements_w w raw (Suc d) vs out2)"
  shows "size_loop (w_limits w) (Some (List vs, d)) fs (used w out) =
    counted w (size_loop (w_limits w) None fs) (payload_w w (List vs) d out)"
proof (cases w d rule: container_w_cases)
  case 2
  then have room: "length fs < 512" using assms by simp
  show ?thesis
  proof (cases "list_element_type vs")
    case (Inr raw)
    have "counted w (size_loop (w_limits w) None fs) (payload_w w (List vs) d out) =
      bind_r (size_add (w_limits w) 1 (used w out)) (\<lambda>b. bind_r (size_length (w_limits w) (length vs) b)
        (size_loop (w_limits w) None (FrameList vs (Suc d) raw False # fs)))"
      using 2 Inr assms(1) by (auto intro!: counted_byte_then counted_length_then elements [symmetric])
    then show ?thesis
      using 2 Inr room by (simp add: size_container_w map_r_bind push_frame_def bind_r_assoc)
  qed (use 2 in \<open>simp add: size_container_w\<close>)
qed (simp add: size_container_w)

lemma element_size_loop:
  assumes out: "sizing w out" and fs: "length fs < d"
    and wrapped: "\<And>out1 out2. needs_wrapper raw v \<Longrightarrow> d < max_depth (w_limits w) \<Longrightarrow>
      byte_w w (tag_id v) out = (Inr (), out1) \<Longrightarrow> bytes_w w [0, 0] out1 = (Inr (), out2) \<Longrightarrow> sizing w out2 \<Longrightarrow>
      size_loop (w_limits w) (Some (v, Suc d)) (FrameList vs d raw True # fs) (used w out2) =
      counted w (size_loop (w_limits w) None (FrameList vs d raw True # fs)) (payload_w w v (Suc d) out2)"
    and plain: "\<not> needs_wrapper raw v \<Longrightarrow>
      size_loop (w_limits w) (Some (v, d)) (FrameList vs d raw False # fs) (used w out) =
      counted w (size_loop (w_limits w) None (FrameList vs d raw False # fs)) (payload_w w v d out)"
    and rest: "counted w (size_loop (w_limits w) None fs) (list_elements_w w raw d (v # vs) out) =
      counted w (size_loop (w_limits w) None (FrameList vs d raw False # fs))
        (if needs_wrapper raw v then (case container_w w d of Inl e \<Rightarrow> (Inl e, out)
           | Inr wd \<Rightarrow> and_then (byte_w w (tag_id v) out) (\<lambda>out. and_then (bytes_w w [0, 0] out) (\<lambda>out.
               and_then (payload_w w v wd out) (\<lambda>out. byte_w w 0 out))))
         else payload_w w v d out)"
  shows "size_loop (w_limits w) None (FrameList (v # vs) d raw False # fs) (used w out) =
    counted w (size_loop (w_limits w) None fs) (list_elements_w w raw d (v # vs) out)"
proof (cases "needs_wrapper raw v")
  case True
  show ?thesis
  proof (cases w d rule: container_w_cases)
    case 2
    have "counted w (size_loop (w_limits w) None (FrameList vs d raw False # fs))
        (and_then (byte_w w (tag_id v) out) (\<lambda>out. and_then (bytes_w w [0, 0] out) (\<lambda>out.
           and_then (payload_w w v (Suc d) out) (\<lambda>out. byte_w w 0 out)))) =
      bind_r (size_add (w_limits w) (Suc 0) (used w out)) (\<lambda>b. bind_r (size_add (w_limits w) 2 b)
        (size_loop (w_limits w) (Some (v, Suc d)) (FrameList vs d raw True # fs)))"
      by (rule wrapped_element_counted [OF out])
        (use wrapped [OF True 2(2)] in \<open>simp add: size_loop_frames(4)\<close>)
    then show ?thesis using rest True 2 by (simp add: size_loop_frames size_container_w)
  qed (use rest True in \<open>simp add: size_loop_frames size_container_w\<close>)
next
  case False
  then show ?thesis using rest plain by (simp add: size_loop_frames)
qed

lemma entry_size_loop:
  assumes out: "sizing w out" and e: "snd e \<noteq> End"
    and tag: "\<And>out1 out2. byte_w w (tag_id (snd e)) out = (Inr (), out1) \<Longrightarrow>
      string_w w (fst e) out1 = (Inr (), out2) \<Longrightarrow> sizing w out2 \<Longrightarrow>
      size_loop (w_limits w) (Some (snd e, d)) (FrameCompound es d # fs) (used w out2) =
      counted w (size_loop (w_limits w) None (FrameCompound es d # fs)) (payload_w w (snd e) d out2)"
    and rest: "\<And>out1 out2 out3. byte_w w (tag_id (snd e)) out = (Inr (), out1) \<Longrightarrow>
      string_w w (fst e) out1 = (Inr (), out2) \<Longrightarrow> payload_w w (snd e) d out2 = (Inr (), out3) \<Longrightarrow> sizing w out3 \<Longrightarrow>
      size_loop (w_limits w) None (FrameCompound es d # fs) (used w out3) =
      counted w (size_loop (w_limits w) None fs) (and_then (entries_w w d es out3) (byte_w w 0))"
  shows "size_loop (w_limits w) None (FrameCompound (e # es) d # fs) (used w out) =
    counted w (size_loop (w_limits w) None fs) (and_then (entries_w w d (e # es) out) (byte_w w 0))"
proof -
  let ?k = "size_loop (w_limits w) None"
  have entry: "counted w (?k fs) (and_then (payload_w w (snd e) d out2) (\<lambda>out. and_then (entries_w w d es out) (byte_w w 0))) =
      size_loop (w_limits w) (Some (snd e, d)) (FrameCompound es d # fs) (used w out2)"
    if out2: "byte_w w (tag_id (snd e)) out = (Inr (), out1)" "string_w w (fst e) out1 = (Inr (), out2)" "sizing w out2"
    for out1 out2
    unfolding tag [OF out2]
    by (rule counted_and_then [OF out2(3) payload_w_appends(1)]) (simp add: rest [OF out2(1,2)])
  have "counted w (?k fs) (and_then (entries_w w d (e # es) out) (byte_w w 0)) =
      bind_r (size_add (w_limits w) (Suc 0) (used w out)) (\<lambda>b. bind_r (size_string (w_limits w) (fst e) b)
        (size_loop (w_limits w) (Some (snd e, d)) (FrameCompound es d # fs)))"
    unfolding entries_w.simps if_not_P [OF e] and_then_assoc
    by (rule counted_byte_then [OF out], rule counted_string_then, assumption, rule entry)
  then show ?thesis using e by (simp add: size_loop_frames)
qed

text \<open>
  The current tag is at least as deep as there are frames, so a container that passes the depth
  check finds a free frame.
\<close>

lemma size_loop_counted:
  shows "sizing w out \<Longrightarrow> length fs \<le> d \<Longrightarrow> max_depth (w_limits w) \<le> 512 \<Longrightarrow>
      size_loop (w_limits w) (Some (t, d)) fs (used w out) =
      counted w (size_loop (w_limits w) None fs) (payload_w w t d out)"
    and "sizing w out \<Longrightarrow> length fs < d \<Longrightarrow> max_depth (w_limits w) \<le> 512 \<Longrightarrow>
      size_loop (w_limits w) None (FrameList vs d raw False # fs) (used w out) =
      counted w (size_loop (w_limits w) None fs) (list_elements_w w raw d vs out)"
    and "sizing w out \<Longrightarrow> length fs < d \<Longrightarrow> max_depth (w_limits w) \<le> 512 \<Longrightarrow>
      size_loop (w_limits w) None (FrameCompound es d # fs) (used w out) =
      counted w (size_loop (w_limits w) None fs) (and_then (entries_w w d es out) (byte_w w 0))"
proof (induction w t d out and w raw d vs out and w d es out arbitrary: fs and fs and fs
    rule: payload_w_list_elements_w_entries_w.induct)
  case (10 w vs d out)
  show ?case
    by (rule list_size_loop [OF "10.prems"])
      (use "10.IH" [of "Suc d"] "10.prems" in \<open>simp add: container_w_def\<close>)
next
  case (11 w es d out)
  show ?case
  proof (cases w d rule: container_w_cases)
    case 2
    then have "length fs < 512" using "11.prems" by simp
    then show ?thesis
      using 2 "11.IH" [OF 2(1) "11.prems"(1) _ "11.prems"(3)] "11.prems"(2)
      by (simp add: size_container_w push_frame_def)
  qed (simp add: size_container_w)
next
  case (15 w raw d v vs out)
  show ?case
  proof (rule element_size_loop [OF "15.prems"(1,2)], goal_cases)
    case (1 out1 out2)
    then show ?case
      using "15.IH"(1) [of "Suc d" out1 out2 "FrameList vs d raw True # fs"] "15.prems" by (simp add: container_w_def)
  next
    case 2
    then show ?case using "15.IH"(2) [of "FrameList vs d raw False # fs"] "15.prems" by simp
  next
    case 3
    show ?case
      unfolding list_elements_w.simps
      by (rule counted_and_then [OF "15.prems"(1)])
        (use "15.prems"(2,3) "15.IH"(3) in \<open>auto split: sum.splits intro: payload_w_appends\<close>)
  qed
next
  case (17 w d e es out)
  show ?case
  proof (cases "snd e = End")
    case False
    show ?thesis
      by (rule entry_size_loop [OF "17.prems"(1) False]) (use "17.IH" "17.prems" False in simp_all)
  qed (simp add: size_loop_frames)
next
  case (14 w raw d out)
  then show ?case by (simp add: size_loop_frames)
next
  case (16 w d out)
  then show ?case by (simp add: size_loop_frames byte_w_counted)
qed (rule leaf_size_loop; simp)+

section \<open>Properties\<close>

text \<open>
  C29: the length computed without allocating is the length the writer produces. For a writer
  whose allocator never refuses, \<open>network_encoded_len\<close> returns exactly the number of bytes
  \<open>write_network\<close> appends, and fails exactly when the writer fails, with the same error; the
  fixed stack of 512 frames never overflows.
\<close>

theorem network_encoded_len_exact:
  assumes "\<forall>n. try_reserve env n"
  shows "network_encoded_len tag L \<noteq> Inl FrameOverflow \<and>
    (network_encoded_len tag L = Inl (Err e) \<longleftrightarrow> fst (write_network env tag out L) = Inl e) \<and>
    (network_encoded_len tag L = Inr n \<longleftrightarrow>
      (\<exists>bs. write_network env tag out L = (Inr (), out @ bs) \<and> length bs = n))"
proof (cases "max_depth L \<le> 512")
  case True
  let ?w = "\<lparr>w_env = env, w_limits = L, w_start = length out\<rparr>"
  let ?m = "and_then (byte_w ?w (tag_id tag) out) (\<lambda>out. payload_w ?w tag 0 out)"
  have sz: "sizing ?w out" using assms by (simp add: sizing_def)
  have "counted ?w (size_loop L None []) ?m = bind_r (size_add L (Suc 0) 0) (size_loop L (Some (tag, 0)) [])"
    using counted_byte_then [OF sz, of "tag_id tag" "size_loop L None []" "\<lambda>out. payload_w ?w tag 0 out"
        "size_loop L (Some (tag, 0)) []"] size_loop_counted(1) [of ?w _ "[]" 0 tag] True
    by (simp add: used_def)
  then have len: "network_encoded_len tag L = counted ?w (\<lambda>b. Inr b) ?m"
    using True by (simp add: network_encoded_len_def validate_limits_def size_loop.simps(2) [abs_def])
  have "appends out ?m" by (auto intro: payload_w_appends)
  then obtain bs where "snd ?m = out @ bs" by (metis appends_def append_take_drop_id)
  then show ?thesis
    using True len by (cases ?m; cases "fst ?m")
      (auto simp: write_network_def validate_limits_def truncate_on_error_def used_def appends_def Let_def)
qed (simp add: network_encoded_len_def write_network_def validate_limits_def)

theorem network_encoded_len_exact_witness:
  "network_encoded_len (Compound [([97], Byte 5)]) default_limits = Inr 7 \<and>
   (\<exists>bs. write_network plain_env (Compound [([97], Byte 5)]) [1] default_limits = (Inr (), [1] @ bs) \<and> length bs = 7)"
proof -
  have g: "\<forall>n. try_reserve plain_env n" by (simp add: plain_env_def)
  have *: "network_encoded_len (Compound [([97], Byte 5)]) default_limits = Inr 7"
    by (simp add: network_encoded_len_def validate_limits_def default_limits_def size_add_def checked_add_def
        USIZE_MAX_def size_container_def push_frame_def size_loop.simps size_string_def modified_utf8_len_def unit_len_def)
  then show ?thesis using network_encoded_len_exact [OF g] by blast
qed

end
