(* ===== verification/NbtPredicate.thy ===== *)
theory NbtPredicate
  imports NbtSize
begin

text \<open>
  \<^verbatim>\<open>src/nbt/predicate.rs\<close>: the comparison of tags, with an explicit stack of continuations and a
  budget of work, depth, stack bytes and allocations. Frames are a list, the top first. The budget is
  returned next to every result, on errors too. Outside the source are the allocator, the size of a
  frame and which of two tags are the same object (\<open>std::ptr::eq\<close>), asked once per comparison: the
  work that remains then tells the questions apart.
\<close>

section \<open>Budget\<close>

record CompareLimits =
  cl_max_depth :: nat
  cl_work_units :: nat
  cl_stack_bytes :: nat

definition default_compare_limits :: CompareLimits where
  "default_compare_limits = \<lparr>cl_max_depth = USIZE_MAX, cl_work_units = 1000000, cl_stack_bytes = 1024 * 1024\<rparr>"

datatype CompareError = WorkLimit | CompareDepthLimit | StackLimit | AllocationLimit | StackAllocationFailed

record CompareBudget =
  cb_limits :: CompareLimits
  cb_work :: nat

definition budget_new :: "CompareLimits \<Rightarrow> CompareBudget" where
  "budget_new limits = \<lparr>cb_limits = limits, cb_work = cl_work_units limits\<rparr>"

type_synonym 'a charged = "(CompareError + 'a) \<times> CompareBudget"

definition bind_c :: "'a charged \<Rightarrow> ('a \<Rightarrow> CompareBudget \<Rightarrow> 'b charged) \<Rightarrow> 'b charged" where
  "bind_c m f = (case m of (Inl e, b) \<Rightarrow> (Inl e, b) | (Inr x, b) \<Rightarrow> f x b)"

definition charge_work :: "nat \<Rightarrow> CompareBudget \<Rightarrow> unit charged" where
  "charge_work units b =
    (case checked_sub (cb_work b) units of
       Some remaining \<Rightarrow> (Inr (), b\<lparr>cb_work := remaining\<rparr>)
     | None \<Rightarrow> (Inl WorkLimit, b\<lparr>cb_work := 0\<rparr>))"

section \<open>Leaves\<close>

datatype Ordering = Less | Equal | Greater

definition cmp_order :: "'a::linorder \<Rightarrow> 'a \<Rightarrow> Ordering" where
  "cmp_order a b = (if a < b then Less else if a = b then Equal else Greater)"

text \<open>The loop over the zipped units: the first difference, if any.\<close>

fun order_zip :: "(u16 \<times> u16) list \<Rightarrow> CompareBudget \<Rightarrow> Ordering option charged" where
  "order_zip [] b = (Inr None, b)"
| "order_zip ((l, r) # ps) b =
    bind_c (charge_work 1 b) (\<lambda>u b. if l \<noteq> r then (Inr (Some (cmp_order l r)), b) else order_zip ps b)"

definition string_order :: "nbt_string \<Rightarrow> nbt_string \<Rightarrow> CompareBudget \<Rightarrow> Ordering charged" where
  "string_order l r b =
    bind_c (order_zip (zip l r) b) (\<lambda>d b.
      (Inr (case d of Some ord \<Rightarrow> ord | None \<Rightarrow> cmp_order (length l) (length r)), b))"

function child_loop :: "compound \<Rightarrow> nbt_string \<Rightarrow> nat \<Rightarrow> nat \<Rightarrow> CompareBudget \<Rightarrow> Tag option charged" where
  "child_loop entries key low high b =
    (if low < high
     then bind_c (charge_work 1 b) (\<lambda>u b.
       (let middle = low + (high - low) div 2 in
        bind_c (string_order key (fst (entries ! middle)) b) (\<lambda>ord b.
          (case ord of
             Less \<Rightarrow> child_loop entries key low middle b
           | Greater \<Rightarrow> child_loop entries key (middle + 1) high b
           | Equal \<Rightarrow> (Inr (Some (snd (entries ! middle))), b)))))
     else (Inr None, b))"
  by pat_completeness auto
termination by (relation "measure (\<lambda>(entries, key, low, high, b). high - low)") auto

definition child :: "compound \<Rightarrow> nbt_string \<Rightarrow> CompareBudget \<Rightarrow> Tag option charged" where
  "child entries key b = child_loop entries key 0 (length entries) b"

fun array_loop :: "('a \<times> 'a) list \<Rightarrow> CompareBudget \<Rightarrow> bool charged" where
  "array_loop [] b = (Inr True, b)"
| "array_loop ((l, r) # ps) b = bind_c (charge_work 1 b) (\<lambda>u b. if l \<noteq> r then (Inr False, b) else array_loop ps b)"

definition array_equal :: "'a list \<Rightarrow> 'a list \<Rightarrow> CompareBudget \<Rightarrow> bool charged" where
  "array_equal l r b = (if length l \<noteq> length r then (Inr False, b) else array_loop (zip l r) b)"

definition primitive_equal :: "Tag \<Rightarrow> Tag \<Rightarrow> CompareBudget \<Rightarrow> bool charged" where
  "primitive_equal expected actual b =
    (case expected of
       End \<Rightarrow> (Inr (actual = End), b)
     | Byte l \<Rightarrow> (case actual of Byte r \<Rightarrow> (Inr (l = r), b) | _ \<Rightarrow> (Inr False, b))
     | Short l \<Rightarrow> (case actual of Short r \<Rightarrow> (Inr (l = r), b) | _ \<Rightarrow> (Inr False, b))
     | Int_t l \<Rightarrow> (case actual of Int_t r \<Rightarrow> (Inr (l = r), b) | _ \<Rightarrow> (Inr False, b))
     | Long l \<Rightarrow> (case actual of Long r \<Rightarrow> (Inr (l = r), b) | _ \<Rightarrow> (Inr False, b))
     | Float l \<Rightarrow> (case actual of Float r \<Rightarrow> (Inr (l = r \<or> f32_is_nan l \<and> f32_is_nan r), b) | _ \<Rightarrow> (Inr False, b))
     | Double l \<Rightarrow> (case actual of Double r \<Rightarrow> (Inr (l = r \<or> f64_is_nan l \<and> f64_is_nan r), b) | _ \<Rightarrow> (Inr False, b))
     | String l \<Rightarrow> (case actual of String r \<Rightarrow> bind_c (string_order l r b) (\<lambda>ord b. (Inr (ord = Equal), b)) | _ \<Rightarrow> (Inr False, b))
     | ByteArray l \<Rightarrow> (case actual of ByteArray r \<Rightarrow> array_equal l r b | _ \<Rightarrow> (Inr False, b))
     | IntArray l \<Rightarrow> (case actual of IntArray r \<Rightarrow> array_equal l r b | _ \<Rightarrow> (Inr False, b))
     | LongArray l \<Rightarrow> (case actual of LongArray r \<Rightarrow> array_equal l r b | _ \<Rightarrow> (Inr False, b))
     | List vs \<Rightarrow> (Inr False, b)
     | Compound es \<Rightarrow> (Inr False, b))"

section \<open>The stack\<close>

datatype Mode = PartialLists | StrictLists | Exact

datatype CompareFrame =
    CompoundFrame compound compound nat Mode
  | SequenceFrame "Tag list" "Tag list" nat
  | PartialListFrame "Tag list" "Tag list" nat nat

record compare_env =
  ce_reserve :: "nat \<Rightarrow> nat \<Rightarrow> nat option"
  ce_frame_size :: nat
  ce_same :: "nat \<Rightarrow> Tag \<Rightarrow> Tag \<Rightarrow> bool"

text \<open>The frames with the capacity of their vector, and the caller's allocation budget.\<close>

type_synonym compare_stack = "CompareFrame list \<times> nat"

definition push_compare ::
  "compare_env \<Rightarrow> CompareLimits \<Rightarrow> CompareFrame \<Rightarrow> compare_stack \<Rightarrow> nat \<Rightarrow> (CompareError + compare_stack) \<times> nat" where
  "push_compare env limits frame stack allocation_remaining =
    (case stack of (frames, cap) \<Rightarrow>
     let allowed = cl_stack_bytes limits div ce_frame_size env in
     if length frames \<ge> cl_max_depth limits then (Inl CompareDepthLimit, allocation_remaining)
     else if length frames \<ge> allowed then (Inl StackLimit, allocation_remaining)
     else if length frames = cap
     then (let new = min (max (min (cap * 2) USIZE_MAX) 4) allowed in
       if new \<le> length frames then (Inl StackLimit, allocation_remaining)
       else (case checked_sub allocation_remaining (new * ce_frame_size env) of
           None \<Rightarrow> (Inl AllocationLimit, allocation_remaining)
         | Some rest \<Rightarrow>
             (case ce_reserve env (length frames) (new - length frames) of
                None \<Rightarrow> (Inl StackAllocationFailed, rest)
              | Some granted \<Rightarrow> (Inr (frame # frames, granted), rest))))
     else (Inr (frame # frames, cap), allocation_remaining))"

section \<open>The comparison\<close>

type_synonym comparison = "Tag option \<times> Tag option \<times> Mode"

text \<open>
  One round of the loop is in one of two places: \<open>Descend\<close> has a pair to compare, \<open>Resume\<close> has the answer
  for the pair the top frame waits for.
\<close>

datatype compare_state = Descend comparison | Resume bool

type_synonym compare_config = "compare_state \<times> compare_stack"

type_synonym 'a compare_result = "(CompareError + 'a) \<times> CompareBudget \<times> nat"

text \<open>A frame is pushed and the comparison goes on with the next pair.\<close>

definition descend ::
  "compare_env \<Rightarrow> CompareFrame \<Rightarrow> comparison \<Rightarrow> compare_stack \<Rightarrow> CompareBudget \<Rightarrow> nat \<Rightarrow> compare_config compare_result" where
  "descend env frame next_pair stack b alloc =
    (case push_compare env (cb_limits b) frame stack alloc of
       (Inl e, alloc') \<Rightarrow> (Inl e, b, alloc')
     | (Inr stack', alloc') \<Rightarrow> (Inr (Descend next_pair, stack'), b, alloc'))"

definition compare_pair ::
  "compare_env \<Rightarrow> comparison \<Rightarrow> compare_stack \<Rightarrow> CompareBudget \<Rightarrow> nat \<Rightarrow> compare_config compare_result" where
  "compare_pair env pair stack b alloc =
    (let answer = (\<lambda>matched b. (Inr (Resume matched, stack), b, alloc)) in
     (case pair of
        (None, actual, mode) \<Rightarrow> answer True b
      | (Some expected, None, mode) \<Rightarrow> answer False b
      | (Some expected, Some actual, mode) \<Rightarrow>
          if ce_same env (cb_work b) expected actual then answer True b
          else (case (expected, actual) of
              (Compound es, Compound as) \<Rightarrow>
                if length as < length es \<or> mode = Exact \<and> length es \<noteq> length as then answer False b
                else if es = [] then answer True b
                else (case child as (fst (es ! 0)) b of
                    (Inl e, b) \<Rightarrow> (Inl e, b, alloc)
                  | (Inr found, b) \<Rightarrow> descend env (CompoundFrame es as 1 mode) (Some (snd (es ! 0)), found, mode) stack b alloc)
            | (List es, List as) \<Rightarrow>
                if es = [] then answer (as = []) b
                else if length as < length es \<or> mode \<noteq> PartialLists \<and> length es \<noteq> length as then answer False b
                else if mode = PartialLists
                then descend env (PartialListFrame es as 0 0) (Some (es ! 0), Some (as ! 0), mode) stack b alloc
                else descend env (SequenceFrame es as 1) (Some (es ! 0), Some (as ! 0), Exact) stack b alloc
            | _ \<Rightarrow>
                (case primitive_equal expected actual b of
                   (Inl e, b) \<Rightarrow> (Inl e, b, alloc)
                 | (Inr matched, b) \<Rightarrow> answer matched b))))"

definition resume_frame ::
  "compare_env \<Rightarrow> bool \<Rightarrow> CompareFrame \<Rightarrow> compare_stack \<Rightarrow> CompareBudget \<Rightarrow> nat \<Rightarrow> compare_config compare_result" where
  "resume_frame env matched frame stack b alloc =
    (case frame of
       CompoundFrame es as i mode \<Rightarrow>
         if matched \<and> i < length es
         then (case child as (fst (es ! i)) b of
             (Inl e, b) \<Rightarrow> (Inl e, b, alloc)
           | (Inr found, b) \<Rightarrow> descend env (CompoundFrame es as (i + 1) mode) (Some (snd (es ! i)), found, mode) stack b alloc)
         else (Inr (Resume matched, stack), b, alloc)
     | SequenceFrame es as i \<Rightarrow>
         if matched \<and> i < length es
         then descend env (SequenceFrame es as (i + 1)) (Some (es ! i), Some (as ! i), Exact) stack b alloc
         else (Inr (Resume matched, stack), b, alloc)
     | PartialListFrame es as i j \<Rightarrow>
         (let (i, j) = (if matched then (i + 1, 0) else (i, j + 1)) in
          if i < length es \<and> j < length as
          then descend env (PartialListFrame es as i j) (Some (es ! i), Some (as ! j), PartialLists) stack b alloc
          else (Inr (Resume matched, stack), b, alloc)))"

section \<open>What a charged computation costs\<close>

text \<open>A computation that returns \<open>x\<close> for \<open>w\<close> units of work, or exhausts a smaller budget.\<close>

definition costs :: "(CompareBudget \<Rightarrow> 'a charged) \<Rightarrow> 'a \<Rightarrow> nat \<Rightarrow> bool" where
  "costs f x w \<longleftrightarrow> (\<forall>b. f b = (if w \<le> cb_work b then (Inr x, b\<lparr>cb_work := cb_work b - w\<rparr>) else (Inl WorkLimit, b\<lparr>cb_work := 0\<rparr>)))"

lemma costs_return: "x = y \<Longrightarrow> costs (\<lambda>b. (Inr x, b)) y 0"
  by (simp add: costs_def)

lemma costs_charge: "costs (charge_work n) () n"
  by (simp add: costs_def charge_work_def checked_sub_def)

lemma costs_bind: "costs f x w \<Longrightarrow> costs (g x) y v \<Longrightarrow> costs (\<lambda>b. bind_c (f b) g) y (w + v)"
  unfolding costs_def bind_c_def by (auto simp: not_le)

lemma costs_D: "costs f x w \<Longrightarrow> f b = (Inr y, b') \<Longrightarrow> y = x \<and> w \<le> cb_work b \<and> b' = b\<lparr>cb_work := cb_work b - w\<rparr>"
  by (auto simp: costs_def split: if_splits)

lemma cmp_order_iff: "cmp_order a b = Equal \<longleftrightarrow> a = b" "cmp_order a b = Less \<longleftrightarrow> a < b" "cmp_order a b = Greater \<longleftrightarrow> b < a"
  by (auto simp: cmp_order_def)

lemma cmp_order_Cons: "cmp_order (x # xs) (y # ys) = (if x = y then cmp_order xs ys else cmp_order x y)" "cmp_order (Suc m) (Suc n) = cmp_order m n"
  by (auto simp: cmp_order_def)

lemma order_zip_costs:
  "\<exists>w d. costs (order_zip (zip l r)) d w \<and> (case d of Some ord \<Rightarrow> ord | None \<Rightarrow> cmp_order (length l) (length r)) = cmp_order l r"
proof (induction l r rule: list_induct2')
  case (4 x xs y ys)
  show ?case
  proof (cases "x = y")
    case True
    from 4 obtain w d where "costs (order_zip (zip xs ys)) d w"
      "(case d of Some ord \<Rightarrow> ord | None \<Rightarrow> cmp_order (length xs) (length ys)) = cmp_order xs ys" by blast
    then show ?thesis using True costs_bind [OF costs_charge [of 1], of "\<lambda>u b. if x \<noteq> y then (Inr (Some (cmp_order x y)), b) else order_zip (zip xs ys) b" d w]
      by (intro exI [of _ "1 + w"] exI [of _ d]) (simp add: cmp_order_Cons cong: option.case_cong)
  next
    case False
    then show ?thesis using costs_bind [OF costs_charge [of 1], of "\<lambda>u b. if x \<noteq> y then (Inr (Some (cmp_order x y)), b) else order_zip (zip xs ys) b" "Some (cmp_order x y)" 0]
      by (intro exI [of _ 1] exI [of _ "Some (cmp_order x y)"]) (simp add: cmp_order_Cons costs_return)
  qed
qed (auto intro!: exI [of _ 0] exI [of _ None] simp: costs_return cmp_order_def)

lemma string_order_costs: "\<exists>w. costs (string_order l r) (cmp_order l r) w"
proof -
  obtain w d where d: "costs (order_zip (zip l r)) d w" "(case d of Some ord \<Rightarrow> ord | None \<Rightarrow> cmp_order (length l) (length r)) = cmp_order l r"
    using order_zip_costs by blast
  have "costs (string_order l r) (cmp_order l r) (w + 0)" unfolding string_order_def by (intro costs_bind [OF d(1)] costs_return d(2))
  then show ?thesis by blast
qed

lemma child_loop_costs: "\<exists>x w. costs (child_loop es key low high) x w"
proof (induction "high - low" arbitrary: low high rule: less_induct)
  case less
  show ?case
  proof (cases "low < high")
    case True
    let ?m = "low + (high - low) div 2"
    obtain w where w: "costs (string_order key (fst (es ! ?m))) (cmp_order key (fst (es ! ?m))) w" using string_order_costs by blast
    let ?k = "\<lambda>ord b. case ord of Less \<Rightarrow> child_loop es key low ?m b | Greater \<Rightarrow> child_loop es key (?m + 1) high b | Equal \<Rightarrow> (Inr (Some (snd (es ! ?m))), b)"
    have halves: "\<exists>x w. costs (child_loop es key low ?m) x w" "\<exists>x w. costs (child_loop es key (?m + 1) high) x w"
      by (rule less; use True in simp)+
    have "\<exists>x v. costs (?k (cmp_order key (fst (es ! ?m)))) x v"
      using halves costs_return [OF refl, of "Some (snd (es ! ?m))"] by (cases "cmp_order key (fst (es ! ?m))") (auto simp del: child_loop.simps)
    then obtain x v where v: "costs (?k (cmp_order key (fst (es ! ?m)))) x v" by blast
    have "costs (child_loop es key low high) x (1 + (w + v))"
      unfolding child_loop.simps [of es key low high, abs_def] using True costs_bind [OF costs_charge [of 1], where g = "\<lambda>u b. bind_c (string_order key (fst (es ! ?m)) b) ?k", OF costs_bind [OF w, where g = ?k, OF v]] by (simp add: Let_def)
    then show ?thesis by blast
  next
    case False
    then show ?thesis using costs_return [of None None] by (auto simp: child_loop.simps [of es key low high, abs_def])
  qed
qed

lemma child_costs: "\<exists>x w. costs (child es key) x w"
  unfolding child_def [abs_def] by (rule child_loop_costs)

lemma array_loop_costs: "\<exists>w. length l = length r \<longrightarrow> costs (array_loop (zip l r)) (l = r) w"
proof (induction l r rule: list_induct2')
  case (4 x xs y ys)
  then obtain w where w: "length xs = length ys \<longrightarrow> costs (array_loop (zip xs ys)) (xs = ys) w" by blast
  show ?case
  proof (cases "x = y")
    case True
    then show ?thesis using w costs_bind [OF costs_charge [of 1], of "\<lambda>u b. if x \<noteq> y then (Inr False, b) else array_loop (zip xs ys) b" "xs = ys" w]
      by (intro exI [of _ "1 + w"]) auto
  next
    case False
    then show ?thesis using costs_bind [OF costs_charge [of 1], of "\<lambda>u b. if x \<noteq> y then (Inr False, b) else array_loop (zip xs ys) b" False 0]
      by (intro exI [of _ 1]) (auto simp: costs_return)
  qed
qed (auto intro!: exI [of _ 0] simp: costs_return)

lemma array_equal_costs: "\<exists>w. costs (array_equal l r) (l = r) w"
proof (cases "length l = length r")
  case True
  then show ?thesis using array_loop_costs [of l r] by (simp add: array_equal_def [abs_def])
next
  case False
  then have "costs (array_equal l r) (l = r) 0" unfolding array_equal_def [abs_def] by (simp add: costs_return) (auto intro!: costs_return)
  then show ?thesis by blast
qed

definition same_container :: "Tag \<Rightarrow> Tag \<Rightarrow> bool" where
  "same_container e a \<longleftrightarrow> (case e of List es \<Rightarrow> (case a of List as \<Rightarrow> True | _ \<Rightarrow> False) | Compound es \<Rightarrow> (case a of Compound as \<Rightarrow> True | _ \<Rightarrow> False) | _ \<Rightarrow> False)"

lemma costs_array_by: "g = array_equal l r \<Longrightarrow> y = (l = r) \<Longrightarrow> \<exists>w. costs g y w"
  using array_equal_costs [of l r] by simp

lemma costs_string_by: "g = (\<lambda>b. bind_c (string_order l r b) (\<lambda>ord b. (Inr (ord = Equal), b))) \<Longrightarrow> y = (l = r) \<Longrightarrow> \<exists>w. costs g y w"
proof -
  assume g: "g = (\<lambda>b. bind_c (string_order l r b) (\<lambda>ord b. (Inr (ord = Equal), b)))" and y: "y = (l = r)"
  obtain w where w: "costs (string_order l r) (cmp_order l r) w" using string_order_costs by blast
  have "costs g y (w + 0)" unfolding g y by (intro costs_bind [OF w] costs_return) (simp add: cmp_order_iff)
  then show ?thesis by blast
qed

lemma costs_return_by:
  assumes "g = (\<lambda>b. (Inr x, b))" "y = x"
  shows "\<exists>w. costs g y w"
  unfolding assms by (rule exI [of _ 0]) (rule costs_return [OF refl])

lemma primitive_equal_costs:
  assumes "\<not> same_container e a"
  shows "\<exists>w. costs (primitive_equal e a) (tag_eq e a) w"
proof (cases e)
  case (String l)
  show ?thesis
  proof (cases a)
    case (String r)
    then show ?thesis using \<open>e = String l\<close> by (intro costs_string_by [of _ l r]) (auto simp: primitive_equal_def [abs_def])
  qed (rule costs_return_by [where x = False]; simp add: String primitive_equal_def [abs_def])+
next
  case (ByteArray l)
  show ?thesis
  proof (cases a)
    case (ByteArray r)
    then show ?thesis using \<open>e = ByteArray l\<close> by (intro costs_array_by [of _ l r]) (auto simp: primitive_equal_def [abs_def])
  qed (rule costs_return_by [where x = False]; simp add: ByteArray primitive_equal_def [abs_def])+
next
  case (IntArray l)
  show ?thesis
  proof (cases a)
    case (IntArray r)
    then show ?thesis using \<open>e = IntArray l\<close> by (intro costs_array_by [of _ l r]) (auto simp: primitive_equal_def [abs_def])
  qed (rule costs_return_by [where x = False]; simp add: IntArray primitive_equal_def [abs_def])+
next
  case (LongArray l)
  show ?thesis
  proof (cases a)
    case (LongArray r)
    then show ?thesis using \<open>e = LongArray l\<close> by (intro costs_array_by [of _ l r]) (auto simp: primitive_equal_def [abs_def])
  qed (rule costs_return_by [where x = False]; simp add: LongArray primitive_equal_def [abs_def])+
qed (rule costs_return_by [where x = "tag_eq e a"]; use assms in \<open>cases a; auto simp: primitive_equal_def [abs_def] same_container_def\<close>)+

lemma compound_wf_less: "compound_wf es \<Longrightarrow> i < j \<Longrightarrow> j < length es \<Longrightarrow> fst (es ! i) < fst (es ! j)"
  unfolding compound_wf_def using sorted_wrt_nth_less [of "(<)" "map fst es" i j] by simp

lemma child_loop_finds:
  assumes wf: "compound_wf es" and "low \<le> high" "high \<le> length es" "\<forall>i < low. fst (es ! i) < key" "\<forall>i. high \<le> i \<and> i < length es \<longrightarrow> key < fst (es ! i)"
  shows "\<exists>w. costs (child_loop es key low high) (map_of es key) w"
  using assms(2-)
proof (induction "high - low" arbitrary: low high rule: less_induct)
  case less
  show ?case
  proof (cases "low < high")
    case True
    let ?m = "low + (high - low) div 2"
    have m: "low \<le> ?m" "?m < high" "?m < length es" using True less.prems by auto
    obtain w where w: "costs (string_order key (fst (es ! ?m))) (cmp_order key (fst (es ! ?m))) w" using string_order_costs by blast
    let ?k = "\<lambda>ord b. case ord of Less \<Rightarrow> child_loop es key low ?m b | Greater \<Rightarrow> child_loop es key (?m + 1) high b | Equal \<Rightarrow> (Inr (Some (snd (es ! ?m))), b)"
    have "\<exists>v. costs (?k (cmp_order key (fst (es ! ?m)))) (map_of es key) v"
    proof (cases "cmp_order key (fst (es ! ?m))")
      case Less
      then have lt: "key < fst (es ! ?m)" by (simp add: cmp_order_iff)
      have "key < fst (es ! i)" if "?m \<le> i" "i < length es" for i
        using lt compound_wf_less [OF wf, of ?m i] that by (cases "i = ?m") (auto intro: less_trans)
      then have "\<exists>w. costs (child_loop es key low ?m) (map_of es key) w" by (intro less.hyps) (use m less.prems in auto)
      then show ?thesis using Less by (simp del: child_loop.simps)
    next
      case Greater
      then have gt: "fst (es ! ?m) < key" by (simp add: cmp_order_iff)
      have "fst (es ! i) < key" if "i < ?m + 1" for i
        using gt compound_wf_less [OF wf, of i ?m] m(3) that by (cases "i = ?m") (auto intro: less_trans)
      then have "\<exists>w. costs (child_loop es key (?m + 1) high) (map_of es key) w" by (intro less.hyps) (use m less.prems in auto)
      then show ?thesis using Greater by (simp del: child_loop.simps)
    next
      case Equal
      then have "fst (es ! ?m) = key" by (simp add: cmp_order_iff)
      then have "(key, snd (es ! ?m)) \<in> set es" using m(3) by (metis nth_mem prod.collapse)
      then have "map_of es key = Some (snd (es ! ?m))" using compound_wf_distinct [OF wf] by simp
      then show ?thesis using Equal costs_return [OF refl, of "Some (snd (es ! ?m))"] by auto
    qed
    then obtain v where v: "costs (?k (cmp_order key (fst (es ! ?m)))) (map_of es key) v" by blast
    have "costs (child_loop es key low high) (map_of es key) (1 + (w + v))"
      unfolding child_loop.simps [of es key low high, abs_def]
      using True costs_bind [OF costs_charge [of 1], where g = "\<lambda>u b. bind_c (string_order key (fst (es ! ?m)) b) ?k", OF costs_bind [OF w, where g = ?k, OF v]] by (simp add: Let_def)
    then show ?thesis by blast
  next
    case False
    have "key \<noteq> fst e" if "e \<in> set es" for e
    proof -
      from that [unfolded in_set_conv_nth] obtain i where i: "i < length es" "es ! i = e" by blast
      then show ?thesis using False less.prems(1) less.prems(3) [rule_format, of i] less.prems(4) [rule_format, of i] by (cases "i < low") auto
    qed
    then have "map_of es key = None" by (auto simp: map_of_eq_None_iff)
    then show ?thesis using False costs_return [of None None] by (auto simp: child_loop.simps [of es key low high, abs_def])
  qed
qed

lemma child_finds: "compound_wf es \<Longrightarrow> \<exists>w. costs (child es key) (map_of es key) w"
  unfolding child_def [abs_def] by (rule child_loop_finds) auto

section \<open>The loop\<close>

lemma descend_keeps: "descend env frame pair stack b alloc = (Inr (state, stack'), b', alloc') \<Longrightarrow> b' = b \<and> state = Descend pair"
  by (simp add: descend_def split: prod.splits sum.splits)

lemma costs_work: "costs f x w \<Longrightarrow> f b = (r, b') \<Longrightarrow> cb_work b' \<le> cb_work b"
  unfolding costs_def by (drule spec [of _ b]) (auto split: if_splits)

lemma child_work: "child es key b = (r, b') \<Longrightarrow> cb_work b' \<le> cb_work b"
proof -
  assume "child es key b = (r, b')"
  moreover obtain x w where "costs (child es key) x w" using child_costs [of es key] by (elim exE)
  ultimately show ?thesis by (rule costs_work [rotated])
qed

lemma primitive_work: "\<not> same_container e a \<Longrightarrow> primitive_equal e a b = (r, b') \<Longrightarrow> cb_work b' \<le> cb_work b"
proof -
  assume "\<not> same_container e a" "primitive_equal e a b = (r, b')"
  moreover obtain w where "costs (primitive_equal e a) (tag_eq e a) w" using primitive_equal_costs [OF calculation(1)] by (elim exE)
  ultimately show ?thesis by (intro costs_work)
qed

lemma compare_pair_work:
  assumes "compare_pair env (e, a, m) stack b alloc = (Inr config, b', alloc')"
  shows "cb_work b' \<le> cb_work b"
proof (cases "\<exists>x y. e = Some x \<and> a = Some y \<and> \<not> ce_same env (cb_work b) x y")
  case False
  then show ?thesis using assms by (auto simp: compare_pair_def split: option.splits)
next
  case True
  then obtain x y where xy: "e = Some x" "a = Some y" "\<not> ce_same env (cb_work b) x y" by blast
  show ?thesis
  proof (cases "same_container x y")
    case True
    then consider es as where "x = List es" "y = List as" | es as where "x = Compound es" "y = Compound as"
      by (auto simp: same_container_def split: Tag.splits)
    then show ?thesis
    proof cases
      case 1
      then show ?thesis using assms xy by (cases config) (auto simp: compare_pair_def Let_def dest!: descend_keeps split: if_splits)
    next
      case 2
      then show ?thesis using assms xy
        by (cases config) (auto simp: compare_pair_def Let_def dest!: descend_keeps dest: child_work split: if_splits prod.splits sum.splits)
    qed
  next
    case False
    then have "compare_pair env (e, a, m) stack b alloc = (case primitive_equal x y b of
        (Inl e, b) \<Rightarrow> (Inl e, b, alloc) | (Inr matched, b) \<Rightarrow> (Inr (Resume matched, stack), b, alloc))"
      using xy by (cases x; cases y; simp add: compare_pair_def same_container_def)
    then show ?thesis using assms primitive_work [OF False, of b] by (auto split: prod.splits sum.splits)
  qed
qed

lemma resume_frame_work:
  "resume_frame env matched frame (frames, cap) b alloc = (Inr (state, stack'), b', alloc') \<Longrightarrow>
    cb_work b' \<le> cb_work b \<and> (state = Resume matched \<and> stack' = (frames, cap) \<or> (\<exists>pair. state = Descend pair))"
  by (auto simp: resume_frame_def Let_def dest!: descend_keeps child_work split: CompareFrame.splits if_splits prod.splits sum.splits)

text \<open>The loop of \<open>run\<close>. It ends because every pair costs work and every answer pops a frame.\<close>

function compare_loop :: "compare_env \<Rightarrow> compare_config \<Rightarrow> CompareBudget \<Rightarrow> nat \<Rightarrow> bool compare_result" where
  "compare_loop env (Descend pair, stack) b alloc =
    (case charge_work 1 b of
       (Inl e, b) \<Rightarrow> (Inl e, b, alloc)
     | (Inr u, b) \<Rightarrow>
         (case compare_pair env pair stack b alloc of
            (Inl e, b, alloc) \<Rightarrow> (Inl e, b, alloc)
          | (Inr config, b, alloc) \<Rightarrow> compare_loop env config b alloc))"
| "compare_loop env (Resume matched, [], cap) b alloc = (Inr matched, b, alloc)"
| "compare_loop env (Resume matched, frame # frames, cap) b alloc =
    (case resume_frame env matched frame (frames, cap) b alloc of
       (Inl e, b, alloc) \<Rightarrow> (Inl e, b, alloc)
     | (Inr config, b, alloc) \<Rightarrow> compare_loop env config b alloc)"
  by pat_completeness auto
termination
proof (relation "measures [\<lambda>(env, (state, stack), b, alloc). cb_work b, \<lambda>(env, (state, stack), b, alloc). case state of Descend p \<Rightarrow> 0 | Resume m \<Rightarrow> 1,
    \<lambda>(env, (state, stack), b, alloc). length (fst stack)]", goal_cases)
  case 1
  show ?case by simp
next
  case (2 env pair stack b alloc X Y u R Z C B A)
  then show ?case
  proof (cases pair)
    case (fields e a m)
    have "cb_work Y < cb_work b" using 2(1,2) by (auto simp: charge_work_def checked_sub_def split: if_splits)
    moreover have "cb_work B \<le> cb_work Y" by (rule compare_pair_work [of env e a m stack Y alloc C B A]) (use 2 fields in simp)
    ultimately show ?thesis by (cases C) simp
  qed
next
  case (3 env matched frame frames cap b alloc X Y C B A)
  obtain state stack where C: "C = (state, stack)" by (cases C)
  have "cb_work B \<le> cb_work b \<and> (state = Resume matched \<and> stack = (frames, cap) \<or> (\<exists>pair. state = Descend pair))"
    by (rule resume_frame_work [of env matched frame frames cap b alloc state stack B A]) (use 3 C in simp)
  then show ?case using C by auto
qed

section \<open>The interface\<close>

definition compare_accounted ::
  "compare_env \<Rightarrow> Tag option \<Rightarrow> Tag option \<Rightarrow> bool \<Rightarrow> CompareBudget \<Rightarrow> nat \<Rightarrow> bool compare_result" where
  "compare_accounted env expected actual partial_lists b alloc =
    compare_loop env (Descend (expected, actual, if partial_lists then PartialLists else StrictLists), [], 0) b alloc"

definition equal_accounted :: "compare_env \<Rightarrow> Tag \<Rightarrow> Tag \<Rightarrow> CompareBudget \<Rightarrow> nat \<Rightarrow> bool compare_result" where
  "equal_accounted env expected actual b alloc = compare_loop env (Descend (Some expected, Some actual, Exact), [], 0) b alloc"

definition compare_tags :: "compare_env \<Rightarrow> Tag option \<Rightarrow> Tag option \<Rightarrow> bool \<Rightarrow> CompareBudget \<Rightarrow> bool charged" where
  "compare_tags env expected actual partial_lists b =
    (case compare_accounted env expected actual partial_lists b USIZE_MAX of (r, b, alloc) \<Rightarrow> (r, b))"

definition equal_tags :: "compare_env \<Rightarrow> Tag \<Rightarrow> Tag \<Rightarrow> CompareBudget \<Rightarrow> bool charged" where
  "equal_tags env expected actual b = (case equal_accounted env expected actual b USIZE_MAX of (r, b, alloc) \<Rightarrow> (r, b))"

end
