(* ===== verification/NbtCompare.thy ===== *)
theory NbtCompare
  imports NbtPredicate
begin

text \<open>
  The comparison against its specification. \<open>matches\<close> says recursively what is compared: compounds as
  subsets, partial lists element by element with reuse, everything below a strict list exactly. The
  loop with its stack of frames gives that answer, or runs out of a budget that was too small.
\<close>

section \<open>Specification\<close>

lemma entry_size: "x \<in> set es \<Longrightarrow> size (snd x) < size (Compound es)"
  using size_list_estimation' [of x es "size (snd x)" "size_prod (\<lambda>_. 0) size"] by (cases x) auto

lemma element_size: "x \<in> set es \<Longrightarrow> size x < size (List es)"
  using size_list_estimation' [of x es "size x" size] by simp

function matches :: "Mode \<Rightarrow> Tag \<Rightarrow> Tag \<Rightarrow> bool" where
  "matches m e a =
    (case e of
       Compound es \<Rightarrow>
         (case a of
            Compound as \<Rightarrow> length es \<le> length as \<and> (m = Exact \<longrightarrow> length es = length as) \<and>
              (\<forall>x \<in> set es. case map_of as (fst x) of None \<Rightarrow> False | Some v \<Rightarrow> matches m (snd x) v)
          | _ \<Rightarrow> False)
     | List es \<Rightarrow>
         (case a of
            List as \<Rightarrow>
              if es = [] then as = []
              else if m = PartialLists then length es \<le> length as \<and> (\<forall>x \<in> set es. \<exists>y \<in> set as. matches PartialLists x y)
              else length es = length as \<and> (\<forall>p \<in> set (zip es as). matches Exact (fst p) (snd p))
          | _ \<Rightarrow> False)
     | _ \<Rightarrow> tag_eq e a)"
  by pat_completeness auto
termination
proof (relation "measure (\<lambda>(m, e, a). size e)")
  show "((m, snd x, v), m, e, a) \<in> measure (\<lambda>(m, e, a). size e)" if "e = Compound es" "x \<in> set es" for m es x v e a
    using entry_size [OF that(2)] that(1) by simp
  show "((PartialLists, x, y), m, e, a) \<in> measure (\<lambda>(m, e, a). size e)" if "e = List es" "x \<in> set es" for m es x y e a
    using element_size [OF that(2)] that(1) by simp
  show "((Exact, fst p, snd p), m, e, a) \<in> measure (\<lambda>(m, e, a). size e)" if "e = List es" "p \<in> set (zip es as)" for m es as p e a
    using element_size [of "fst p" es] set_zip_leftD [of "fst p" "snd p" es as] that by (simp add: case_prod_beta)
qed simp

declare matches.simps [simp del] compare_loop.simps [simp del]

definition entry_matches :: "Mode \<Rightarrow> compound \<Rightarrow> nbt_string \<times> Tag \<Rightarrow> bool" where
  "entry_matches m as x \<longleftrightarrow> (case map_of as (fst x) of None \<Rightarrow> False | Some v \<Rightarrow> matches m (snd x) v)"

lemma matches_Compound: "matches m (Compound es) (Compound as) \<longleftrightarrow>
    length es \<le> length as \<and> (m = Exact \<longrightarrow> length es = length as) \<and> (\<forall>x \<in> set es. entry_matches m as x)"
  by (subst matches.simps) (simp add: entry_matches_def)

lemma matches_partial_List: "matches PartialLists (List es) (List as) \<longleftrightarrow>
    (if es = [] then as = [] else length es \<le> length as \<and> (\<forall>x \<in> set es. \<exists>y \<in> set as. matches PartialLists x y))"
  by (subst matches.simps) simp

lemma matches_exact_List: "m \<noteq> PartialLists \<Longrightarrow> matches m (List es) (List as) \<longleftrightarrow> length es = length as \<and> (\<forall>p \<in> set (zip es as). matches Exact (fst p) (snd p))"
  by (subst matches.simps) auto

lemma matches_leaf: "\<not> same_container e a \<Longrightarrow> matches m e a = tag_eq e a"
  by (subst matches.simps) (auto simp: same_container_def split: Tag.splits)

text \<open>Every compound of a tag is strictly sorted, as the operations on compounds keep it.\<close>

fun tag_sorted :: "Tag \<Rightarrow> bool" where
  "tag_sorted (List ts) = (\<forall>t \<in> set ts. tag_sorted t)"
| "tag_sorted (Compound es) = (compound_wf es \<and> (\<forall>e \<in> set es. tag_sorted (snd e)))"
| "tag_sorted _ = True"

lemma tag_wf_sorted: "tag_wf t \<Longrightarrow> tag_sorted t"
  by (induction t rule: tag_wf.induct) auto

lemma map_of_member: "compound_wf es \<Longrightarrow> x \<in> set es \<Longrightarrow> map_of es (fst x) = Some (snd x)"
  using compound_wf_distinct [of es] by (cases x) simp

lemma matches_refl: "tag_sorted t \<Longrightarrow> matches m t t"
proof (induction "size t" arbitrary: t m rule: less_induct)
  case less
  show ?case
  proof (cases "same_container t t")
    case False
    then show ?thesis using matches_leaf [OF False] by (cases t) (auto simp: same_container_def)
  next
    case True
    then consider es where "t = Compound es" | es where "t = List es" by (auto simp: same_container_def split: Tag.splits)
    then show ?thesis
    proof cases
      case 1
      then have "entry_matches m es x" if "x \<in> set es" for x
        using map_of_member [of es x] less.hyps [of "snd x" m] entry_size [OF that] less.prems that by (simp add: entry_matches_def)
      then show ?thesis using 1 by (simp add: matches_Compound)
    next
      case 2
      have el: "matches m' x x" if "x \<in> set es" for x m' using 2 less.hyps [of x m'] element_size [OF that] less.prems that by simp
      have "fst p = snd p \<and> fst p \<in> set es" if "p \<in> set (zip es es)" for p
        using that by (auto simp: in_set_zip) (metis nth_mem)
      then show ?thesis using 2 el by (cases "m = PartialLists") (force simp: matches_partial_List matches_exact_List)+
    qed
  qed
qed

section \<open>Exact mode is equality\<close>

lemma tags_eq_zip: "tags_eq xs ys \<longleftrightarrow> length xs = length ys \<and> (\<forall>p \<in> set (zip xs ys). tag_eq (fst p) (snd p))"
  by (induction xs arbitrary: ys) (auto split: list.splits)

lemma entries_eq_zip: "entries_eq xs ys \<longleftrightarrow> map fst xs = map fst ys \<and> (\<forall>p \<in> set (zip xs ys). tag_eq (snd (fst p)) (snd (snd p)))"
  by (induction xs arbitrary: ys) (auto split: list.splits)

lemma exact_entries:
  assumes wf: "compound_wf es" "compound_wf as" and len: "length es = length as"
  shows "(\<forall>x \<in> set es. case map_of as (fst x) of None \<Rightarrow> False | Some v \<Rightarrow> P (snd x) v) \<longleftrightarrow>
    map fst es = map fst as \<and> (\<forall>p \<in> set (zip es as). P (snd (fst p)) (snd (snd p)))" (is "?l = ?r")
proof
  assume ?l
  then have "fst ` set es \<subseteq> fst ` set as" by (force split: option.splits dest: map_of_SomeD)
  moreover have "card (fst ` set es) = length es" "card (fst ` set as) = length as"
    using distinct_card [OF compound_wf_distinct [OF wf(1)]] distinct_card [OF compound_wf_distinct [OF wf(2)]] by simp_all
  ultimately have "fst ` set es = fst ` set as" using len by (metis List.finite_set card_subset_eq finite_imageI)
  then have keys: "map fst es = map fst as" using wf unfolding compound_wf_def by (intro strict_sorted_equal) simp_all
  have "P (snd (es ! i)) (snd (as ! i))" if i: "i < length es" for i
  proof -
    have k: "fst (es ! i) = fst (as ! i)" using keys i len by (metis nth_map)
    moreover have "map_of as (fst (as ! i)) = Some (snd (as ! i))" using map_of_member [OF wf(2), of "as ! i"] i len by simp
    ultimately show ?thesis using \<open>?l\<close> nth_mem [OF i] by fastforce
  qed
  then show ?r using keys by (auto simp: set_zip) (metis snd_conv)
next
  assume r: ?r
  show ?l
  proof
    fix x assume "x \<in> set es"
    then obtain i where i: "i < length es" "es ! i = x" by (metis in_set_conv_nth)
    then have k: "fst x = fst (as ! i)" using r len by (metis nth_map)
    have "map_of as (fst (as ! i)) = Some (snd (as ! i))" using map_of_member [OF wf(2), of "as ! i"] i len by simp
    moreover have "(x, as ! i) \<in> set (zip es as)" using i len by (auto simp: set_zip)
    ultimately show "case map_of as (fst x) of None \<Rightarrow> False | Some v \<Rightarrow> P (snd x) v" using k r by fastforce
  qed
qed

lemma matches_exact: "tag_sorted e \<Longrightarrow> tag_sorted a \<Longrightarrow> matches Exact e a = tag_eq e a"
proof (induction "size e" arbitrary: e a rule: less_induct)
  case less
  show ?case
  proof (cases "same_container e a")
    case False
    then show ?thesis by (rule matches_leaf)
  next
    case True
    then consider es as where "e = Compound es" "a = Compound as" | es as where "e = List es" "a = List as"
      by (auto simp: same_container_def split: Tag.splits)
    then show ?thesis
    proof cases
      case 1
      have wf: "compound_wf es" "compound_wf as" using less.prems 1 by simp_all
      have ih: "matches Exact (snd x) v = tag_eq (snd x) v" if "x \<in> set es" "v \<in> snd ` set as" for x v
        using less.hyps [of "snd x" v] entry_size [OF that(1)] less.prems 1 that by auto
      have "entry_matches Exact as x \<longleftrightarrow> (case map_of as (fst x) of None \<Rightarrow> False | Some v \<Rightarrow> tag_eq (snd x) v)" if "x \<in> set es" for x
        using ih [OF that] by (auto simp: entry_matches_def split: option.splits dest!: map_of_SomeD) force+
      then have "matches Exact e a \<longleftrightarrow> length es = length as \<and> (\<forall>x \<in> set es. case map_of as (fst x) of None \<Rightarrow> False | Some v \<Rightarrow> tag_eq (snd x) v)"
        using 1 by (auto simp: matches_Compound)
      also have "\<dots> \<longleftrightarrow> tag_eq e a" using 1 exact_entries [OF wf, of tag_eq] by (auto simp: entries_eq_zip dest: map_eq_imp_length_eq)
      finally show ?thesis .
    next
      case 2
      have "matches Exact (fst p) (snd p) = tag_eq (fst p) (snd p)" if "p \<in> set (zip es as)" for p
      proof -
        have "fst p \<in> set es" "snd p \<in> set as" using that by (auto simp: in_set_zip) (metis nth_mem)+
        then show ?thesis using less.hyps [of "fst p" "snd p"] element_size [of "fst p" es] less.prems 2 by simp
      qed
      then show ?thesis using 2 by (simp add: matches_exact_List tags_eq_zip)
    qed
  qed
qed

section \<open>Room on the stack\<close>

fun height :: "Tag \<Rightarrow> nat" where
  "height (List ts) = Suc (foldr max (map height ts) 0)"
| "height (Compound es) = Suc (foldr max (map (\<lambda>e. height (snd e)) es) 0)"
| "height _ = 0"

lemma foldr_max_ge: "x \<in> set xs \<Longrightarrow> f x \<le> foldr max (map f xs) (0 :: nat)"
  by (induction xs) auto

text \<open>
  The limits and the allocator let the stack grow to \<open>n\<close> frames: each growth is charged at most the bytes
  of the largest stack, and there are no more growths than frames.
\<close>

definition stack_room :: "compare_env \<Rightarrow> CompareLimits \<Rightarrow> nat \<Rightarrow> nat \<Rightarrow> nat \<Rightarrow> bool" where
  "stack_room env limits n cap alloc \<longleftrightarrow>
    (let allowed = cl_stack_bytes limits div ce_frame_size env in
     (\<forall>len more. \<exists>c. ce_reserve env len more = Some c \<and> len + more \<le> c) \<and> cl_stack_bytes limits \<le> USIZE_MAX \<and>
     n \<le> cl_max_depth limits \<and> n \<le> allowed \<and> (allowed - cap) * (allowed * ce_frame_size env) \<le> alloc)"

lemma stack_room_mono: "stack_room env limits n cap alloc \<Longrightarrow> m \<le> n \<Longrightarrow> stack_room env limits m cap alloc"
  by (auto simp: stack_room_def Let_def)

lemma push_compare_ok:
  assumes r: "stack_room env limits n cap alloc" and len: "length frames < n"
  shows "\<exists>cap' alloc'. push_compare env limits f (frames, cap) alloc = (Inr (f # frames, cap'), alloc') \<and>
    (\<forall>k. stack_room env limits k cap alloc \<longrightarrow> stack_room env limits k cap' alloc')"
proof -
  let ?allowed = "cl_stack_bytes limits div ce_frame_size env" and ?fs = "ce_frame_size env"
  let ?new = "min (max (min (cap * 2) USIZE_MAX) 4) ?allowed"
  have lim: "length frames < cl_max_depth limits" "length frames < ?allowed" using r len by (auto simp: stack_room_def Let_def)
  show ?thesis
  proof (cases "length frames = cap")
    case False
    then show ?thesis using lim by (simp add: push_compare_def Let_def)
  next
    case True
    have "?allowed \<le> USIZE_MAX" using r div_le_dividend [of "cl_stack_bytes limits" ?fs] by (auto simp: stack_room_def Let_def simp del: div_le_dividend)
    then have new: "cap < ?new" "?new \<le> ?allowed" using True lim(2) by auto
    then have bytes: "?new * ?fs \<le> ?allowed * ?fs" by (intro mult_right_mono) simp_all
    have alloc: "(?allowed - cap) * (?allowed * ?fs) \<le> alloc" using r by (simp add: stack_room_def Let_def)
    have "1 * (?allowed * ?fs) \<le> (?allowed - cap) * (?allowed * ?fs)" using True lim(2) by (intro mult_right_mono) simp_all
    then have fits: "?new * ?fs \<le> alloc" using bytes alloc by linarith
    obtain c where c: "ce_reserve env (length frames) (?new - length frames) = Some c" "?new \<le> c"
      using r new(1) True unfolding stack_room_def Let_def by (metis le_add_diff_inverse less_imp_le_nat)
    have "(?allowed - c) * (?allowed * ?fs) \<le> alloc - ?new * ?fs"
    proof -
      have "?allowed - c \<le> ?allowed - cap - 1" using c(2) new(1) by linarith
      then have "(?allowed - c) * (?allowed * ?fs) \<le> (?allowed - cap - 1) * (?allowed * ?fs)" by (rule mult_right_mono) simp
      also have "\<dots> = (?allowed - cap) * (?allowed * ?fs) - ?allowed * ?fs" by (simp add: diff_mult_distrib)
      finally show ?thesis using alloc bytes by linarith
    qed
    then have "\<forall>k. stack_room env limits k cap alloc \<longrightarrow> stack_room env limits k c (alloc - ?new * ?fs)" by (simp add: stack_room_def Let_def)
    moreover have "push_compare env limits f (frames, cap) alloc = (Inr (f # frames, c), alloc - ?new * ?fs)"
      using True lim new(1) fits c(1) by (simp add: push_compare_def Let_def checked_sub_def)
    ultimately show ?thesis by blast
  qed
qed

lemma push_compare_cases:
  obtains e alloc' where "push_compare env limits f (frames, cap) alloc = (Inl e, alloc')"
  | cap' alloc' where "push_compare env limits f (frames, cap) alloc = (Inr (f # frames, cap'), alloc')"
proof -
  have "(\<exists>e alloc'. push_compare env limits f (frames, cap) alloc = (Inl e, alloc')) \<or>
      (\<exists>cap' alloc'. push_compare env limits f (frames, cap) alloc = (Inr (f # frames, cap'), alloc'))"
    by (auto simp: push_compare_def Let_def split: option.splits)
  then show thesis using that by blast
qed

lemma push_compare_keeps:
  assumes p: "push_compare env limits f (frames, cap) alloc = (Inr (f # frames, cap'), alloc')" and r: "stack_room env limits k cap alloc"
  shows "stack_room env limits k cap' alloc'"
proof -
  have "length frames < cl_max_depth limits" "length frames < cl_stack_bytes limits div ce_frame_size env"
    using p by (auto simp: push_compare_def Let_def split: if_splits)
  then have "stack_room env limits (max k (Suc (length frames))) cap alloc" using r by (auto simp: stack_room_def Let_def)
  from push_compare_ok [OF this, of frames f] p r show ?thesis by auto
qed

section \<open>Outcomes\<close>

text \<open>
  What a computation comes to: an error, and then the budget was too small for \<open>w\<close> units of work or \<open>n\<close> more
  frames; or the answer \<open>r\<close> for the frames below, at a cost of at most \<open>w\<close>.
\<close>

definition outcome ::
  "compare_env \<Rightarrow> bool \<Rightarrow> nat \<Rightarrow> nat \<Rightarrow> CompareFrame list \<Rightarrow> nat \<Rightarrow> CompareBudget \<Rightarrow> nat \<Rightarrow> bool compare_result \<Rightarrow> bool" where
  "outcome env r n w frames cap b alloc result \<longleftrightarrow>
    (\<exists>e b' alloc'. result = (Inl e, b', alloc') \<and> (cb_work b < w \<or> \<not> stack_room env (cb_limits b) (length frames + n) cap alloc)) \<or>
    (\<exists>cap' b' alloc'. result = compare_loop env (Resume r, frames, cap') b' alloc' \<and> cb_limits b' = cb_limits b \<and> cb_work b \<le> cb_work b' + w \<and>
      (\<forall>k. stack_room env (cb_limits b) k cap alloc \<longrightarrow> stack_room env (cb_limits b) k cap' alloc'))"

definition reaches :: "compare_env \<Rightarrow> compare_state \<Rightarrow> CompareFrame list \<Rightarrow> bool \<Rightarrow> nat \<Rightarrow> nat \<Rightarrow> bool" where
  "reaches env state upper r n w \<longleftrightarrow> (\<forall>frames cap b alloc. outcome env r n w frames cap b alloc (compare_loop env (state, upper @ frames, cap) b alloc))"

lemma outcome_stop: "cb_work b < w \<or> \<not> stack_room env (cb_limits b) (length frames + n) cap alloc \<Longrightarrow> outcome env r n w frames cap b alloc (Inl e, b', alloc')"
  unfolding outcome_def by blast

lemma outcome_go:
  assumes "result = compare_loop env (Resume r, frames, cap') b' alloc'" "cb_limits b' = cb_limits b" "cb_work b \<le> cb_work b' + w"
    "\<And>k. stack_room env (cb_limits b) k cap alloc \<Longrightarrow> stack_room env (cb_limits b) k cap' alloc'"
  shows "outcome env r n w frames cap b alloc result"
  unfolding outcome_def using assms by blast

lemma outcome_cases:
  assumes "outcome env r n w frames cap b alloc result"
  obtains (stops) e b' alloc' where "result = (Inl e, b', alloc')" "cb_work b < w \<or> \<not> stack_room env (cb_limits b) (length frames + n) cap alloc"
    | (goes) cap' b' alloc' where "result = compare_loop env (Resume r, frames, cap') b' alloc'" "cb_limits b' = cb_limits b" "cb_work b \<le> cb_work b' + w"
      "\<And>k. stack_room env (cb_limits b) k cap alloc \<Longrightarrow> stack_room env (cb_limits b) k cap' alloc'"
  using assms unfolding outcome_def by blast

lemma outcome_mono:
  assumes "outcome env r n w frames cap b alloc result" "n \<le> n'" "w \<le> w'"
  shows "outcome env r n' w' frames cap b alloc result"
  using assms(1)
proof (cases rule: outcome_cases)
  case stops
  then show ?thesis using assms(2,3) by (auto intro!: outcome_stop dest: stack_room_mono [where m = "length frames + n"])
next
  case goes
  then show ?thesis using assms(3) by (intro outcome_go [OF goes(1,2)]) auto
qed

lemma reaches_mono: "reaches env state upper r n w \<Longrightarrow> n \<le> n' \<Longrightarrow> w \<le> w' \<Longrightarrow> reaches env state upper r n' w'"
  unfolding reaches_def by (blast intro: outcome_mono)

lemma outcome_answer: "outcome env r 0 0 frames cap b alloc (compare_loop env (Resume r, frames, cap) b alloc)"
  by (rule outcome_go [OF refl refl]) simp_all

lemma outcome_costs:
  assumes f: "costs f x v" and k: "\<And>b. outcome env r n w frames cap b alloc (g x b)"
  shows "outcome env r n (v + w) frames cap b alloc (case f b of (Inl e, b) \<Rightarrow> (Inl e, b, alloc) | (Inr y, b) \<Rightarrow> g y b)"
proof (cases "v \<le> cb_work b")
  case True
  let ?b = "b\<lparr>cb_work := cb_work b - v\<rparr>"
  have eq: "(case f b of (Inl e, b) \<Rightarrow> (Inl e, b, alloc) | (Inr y, b) \<Rightarrow> g y b) = g x ?b" using f True by (simp add: costs_def)
  from k [of ?b] have "outcome env r n (v + w) frames cap b alloc (g x ?b)"
  proof (cases rule: outcome_cases)
    case stops
    then show ?thesis using True by (auto intro!: outcome_stop)
  next
    case goes
    then show ?thesis using True by (intro outcome_go [OF goes(1)]) auto
  qed
  then show ?thesis unfolding eq .
next
  case False
  then have "f b = (Inl WorkLimit, b\<lparr>cb_work := 0\<rparr>)" using f by (simp add: costs_def)
  then show ?thesis using False by (simp add: outcome_stop)
qed

lemma outcome_descend:
  assumes d: "reaches env (Descend pair) [frame] r n w" and n: "0 < n"
  shows "outcome env r n w frames cap b alloc
    (case descend env frame pair (frames, cap) b alloc of (Inl e, b, alloc) \<Rightarrow> (Inl e, b, alloc) | (Inr config, b, alloc) \<Rightarrow> compare_loop env config b alloc)"
proof (cases rule: push_compare_cases [of env "cb_limits b" frame frames cap alloc])
  case (1 e alloc')
  have "\<not> stack_room env (cb_limits b) (length frames + n) cap alloc" using push_compare_ok [of env "cb_limits b" "length frames + n" cap alloc frames frame] 1 n by auto
  then show ?thesis using 1 by (simp add: descend_def outcome_stop)
next
  case (2 cap' alloc')
  have "outcome env r n w frames cap' b alloc' (compare_loop env (Descend pair, frame # frames, cap') b alloc')"
    using d unfolding reaches_def by (metis append_Cons append_Nil)
  then have "outcome env r n w frames cap b alloc (compare_loop env (Descend pair, frame # frames, cap') b alloc')"
  proof (cases rule: outcome_cases)
    case stops
    then show ?thesis using push_compare_keeps [OF 2] by (auto intro!: outcome_stop)
  next
    case goes
    then show ?thesis using push_compare_keeps [OF 2] by (intro outcome_go [OF goes(1,2)]) auto
  qed
  then show ?thesis using 2 by (simp add: descend_def)
qed

text \<open>A pair is answered and the answer goes to the frame that waits for it.\<close>

lemma reaches_frame:
  assumes pair: "reaches env (Descend pair) [] r n w" and next_frame: "reaches env (Resume r) [frame] r' n' w'"
  shows "reaches env (Descend pair) [frame] r' (max (Suc n) n') (w + w')"
  unfolding reaches_def
proof (intro allI)
  fix frames cap b alloc
  let ?result = "compare_loop env (Descend pair, [frame] @ frames, cap) b alloc"
  have one: "outcome env r n w (frame # frames) cap b alloc ?result" using pair unfolding reaches_def by (metis append_Cons append_Nil)
  then show "outcome env r' (max (Suc n) n') (w + w') frames cap b alloc ?result"
  proof (cases rule: outcome_cases)
    case stops
    then show ?thesis by (auto intro!: outcome_stop dest: stack_room_mono [where m = "Suc (length frames + n)"])
  next
    case (goes cap' b' alloc')
    have "outcome env r' n' w' frames cap' b' alloc' ?result" using next_frame unfolding reaches_def goes(1) by (metis append_Cons append_Nil)
    then show ?thesis
    proof (cases rule: outcome_cases)
      case stops
      then have "cb_work b < w + w' \<or> \<not> stack_room env (cb_limits b) (length frames + max (Suc n) n') cap alloc"
        using goes(2-4) by (auto dest: stack_room_mono [where m = "length frames + n'"])
      then show ?thesis unfolding stops(1) by (rule outcome_stop)
    next
      case (goes cap'' b'' alloc'')
      then show ?thesis using \<open>cb_limits b' = cb_limits b\<close> \<open>cb_work b \<le> cb_work b' + w\<close> \<open>\<And>k. stack_room env (cb_limits b) k cap alloc \<Longrightarrow> stack_room env (cb_limits b) k cap' alloc'\<close>
        by (intro outcome_go [of _ _ _ _ cap'' b'' alloc'']) auto
    qed
  qed
qed

end
