(* ===== verification/NbtCompareLoop.thy ===== *)
theory NbtCompareLoop
  imports NbtCompare
begin

text \<open>
  The loop of the comparison computes \<open>matches\<close>: each kind of frame in turn, then the pair by induction on
  the expected tag, then the properties.
\<close>

section \<open>Rounds of the loop\<close>

definition go_on :: "compare_env \<Rightarrow> compare_config compare_result \<Rightarrow> bool compare_result" where
  "go_on env result = (case result of (Inl e, b, alloc) \<Rightarrow> (Inl e, b, alloc) | (Inr config, b, alloc) \<Rightarrow> compare_loop env config b alloc)"

lemma go_on_simps [simp]: "go_on env (Inl e, b, alloc) = (Inl e, b, alloc)" "go_on env (Inr config, b, alloc) = compare_loop env config b alloc"
  by (simp_all add: go_on_def)

lemma go_on_case:
  "go_on env (case r of (Inl e, b) \<Rightarrow> (Inl e, b, alloc) | (Inr y, b) \<Rightarrow> f y b) = (case r of (Inl e, b) \<Rightarrow> (Inl e, b, alloc) | (Inr y, b) \<Rightarrow> go_on env (f y b))"
  by (cases r; cases "fst r") auto

lemma reaches_DescendI:
  assumes "\<And>frames cap b alloc. outcome env r n w frames cap b alloc (go_on env (compare_pair env pair (frames, cap) b alloc))"
  shows "reaches env (Descend pair) [] r n (1 + w)"
  unfolding reaches_def
proof (intro allI)
  fix frames cap b alloc
  have "outcome env r n (1 + w) frames cap b alloc
      (case charge_work 1 b of (Inl e, b) \<Rightarrow> (Inl e, b, alloc) | (Inr u, b) \<Rightarrow> go_on env (compare_pair env pair (frames, cap) b alloc))"
    by (rule outcome_costs [OF costs_charge]) (rule assms)
  then show "outcome env r n (1 + w) frames cap b alloc (compare_loop env (Descend pair, [] @ frames, cap) b alloc)"
    unfolding go_on_def compare_loop.simps(1) append.simps .
qed

lemma reaches_ResumeI:
  assumes "\<And>frames cap b alloc. outcome env r n w frames cap b alloc (go_on env (resume_frame env matched frame (frames, cap) b alloc))"
  shows "reaches env (Resume matched) [frame] r n w"
  unfolding reaches_def append.simps compare_loop.simps(3) using assms by (simp add: go_on_def)

lemma outcome_Resume [simp]: "outcome env r n w frames cap b alloc (compare_loop env (Resume r, frames, cap) b alloc)"
  by (rule outcome_mono [OF outcome_answer]) simp_all

lemma outcome_go_descend:
  "reaches env (Descend pair) [frame] r n w \<Longrightarrow> 0 < n \<Longrightarrow> outcome env r n w frames cap b alloc (go_on env (descend env frame pair (frames, cap) b alloc))"
  unfolding go_on_def by (rule outcome_descend)

fun is_partial :: "CompareFrame \<Rightarrow> bool" where
  "is_partial (PartialListFrame es as i j) = True"
| "is_partial frame = False"

lemma reaches_refused: "\<not> matched \<Longrightarrow> \<not> is_partial frame \<Longrightarrow> reaches env (Resume matched) [frame] False n w"
  by (rule reaches_ResumeI) (cases frame; simp add: resume_frame_def)

section \<open>Compounds\<close>

lemma entry_reaches:
  assumes "\<And>v. v \<in> snd ` set as \<Longrightarrow> \<exists>w. reaches env (Descend (Some (snd x), Some v, m)) [] (matches m (snd x) v) n w"
  shows "\<exists>w. reaches env (Descend (Some (snd x), map_of as (fst x), m)) [] (entry_matches m as x) n w"
proof (cases "map_of as (fst x)")
  case None
  have "reaches env (Descend (Some (snd x), None, m)) [] False n (1 + 0)"
    by (rule reaches_DescendI) (simp add: compare_pair_def)
  then show ?thesis using None by (auto simp: entry_matches_def)
next
  case (Some v)
  then have "v \<in> snd ` set as" by (force dest: map_of_SomeD)
  then show ?thesis using assms Some by (auto simp: entry_matches_def)
qed

lemma reaches_conj:
  assumes "reaches env (Resume True) [frame] r n w" "\<not> is_partial frame"
  shows "reaches env (Resume matched) [frame] (matched \<and> r) n w"
  using assms reaches_refused [OF _ assms(2), of matched env n w] by (cases matched) simp_all

lemma compound_descends:
  assumes entry: "\<And>v. v \<in> snd ` set as \<Longrightarrow> \<exists>w. reaches env (Descend (Some (snd (es ! i)), Some v, m)) [] (matches m (snd (es ! i)) v) (height (snd (es ! i))) w"
    and rest: "\<exists>w. reaches env (Resume True) [CompoundFrame es as (i + 1) m] (\<forall>x \<in> set (drop (i + 1) es). entry_matches m as x) (height (Compound es)) w"
    and i: "i < length es"
  shows "\<exists>w. reaches env (Descend (Some (snd (es ! i)), map_of as (fst (es ! i)), m)) [CompoundFrame es as (i + 1) m]
    (\<forall>x \<in> set (drop i es). entry_matches m as x) (height (Compound es)) w"
proof -
  obtain w where w: "reaches env (Descend (Some (snd (es ! i)), map_of as (fst (es ! i)), m)) [] (entry_matches m as (es ! i)) (height (snd (es ! i))) w"
    using entry_reaches [OF entry] by blast
  obtain v where v: "reaches env (Resume True) [CompoundFrame es as (i + 1) m] (\<forall>x \<in> set (drop (i + 1) es). entry_matches m as x) (height (Compound es)) v"
    using rest by blast
  have drop: "drop i es = es ! i # drop (i + 1) es" using Cons_nth_drop_Suc [OF i] by simp
  have "Suc (height (snd (es ! i))) \<le> height (Compound es)" using foldr_max_ge [OF nth_mem [OF i], of "\<lambda>e. height (snd e)"] by simp
  then show ?thesis using reaches_frame [OF w reaches_conj [OF v]] unfolding drop by (auto simp: max_absorb2)
qed

lemma compound_reaches:
  assumes entries: "\<And>x v. x \<in> set es \<Longrightarrow> v \<in> snd ` set as \<Longrightarrow> \<exists>w. reaches env (Descend (Some (snd x), Some v, m)) [] (matches m (snd x) v) (height (snd x)) w"
    and wf: "compound_wf as" and "i \<le> length es"
  shows "\<exists>w. reaches env (Resume True) [CompoundFrame es as i m] (\<forall>x \<in> set (drop i es). entry_matches m as x) (height (Compound es)) w"
  using assms(3)
proof (induction "length es - i" arbitrary: i)
  case 0
  then have "reaches env (Resume True) [CompoundFrame es as i m] True (height (Compound es)) 0"
    by (intro reaches_ResumeI) (simp add: resume_frame_def)
  then show ?case using 0 by auto
next
  case (Suc k)
  then have i: "i < length es" by simp
  obtain w where w: "reaches env (Descend (Some (snd (es ! i)), map_of as (fst (es ! i)), m)) [CompoundFrame es as (i + 1) m]
      (\<forall>x \<in> set (drop i es). entry_matches m as x) (height (Compound es)) w"
    using compound_descends [OF entries _ i] Suc.hyps(1) [of "i + 1"] Suc.hyps(2) Suc.prems i by force
  obtain v where v: "costs (child as (fst (es ! i))) (map_of as (fst (es ! i))) v" using child_finds [OF wf] by blast
  have "reaches env (Resume True) [CompoundFrame es as i m] (\<forall>x \<in> set (drop i es). entry_matches m as x) (height (Compound es)) (v + w)"
  proof (rule reaches_ResumeI)
    fix frames cap b alloc
    have "outcome env (\<forall>x \<in> set (drop i es). entry_matches m as x) (height (Compound es)) (v + w) frames cap b alloc
        (case child as (fst (es ! i)) b of (Inl e, b) \<Rightarrow> (Inl e, b, alloc)
         | (Inr found, b) \<Rightarrow> go_on env (descend env (CompoundFrame es as (i + 1) m) (Some (snd (es ! i)), found, m) (frames, cap) b alloc))"
      by (rule outcome_costs [OF v]) (rule outcome_go_descend [OF w], simp)
    then show "outcome env (\<forall>x \<in> set (drop i es). entry_matches m as x) (height (Compound es)) (v + w) frames cap b alloc
        (go_on env (resume_frame env True (CompoundFrame es as i m) (frames, cap) b alloc))"
      using i by (simp add: resume_frame_def go_on_case)
  qed
  then show ?case by blast
qed

section \<open>Lists\<close>

lemma sequence_descends:
  assumes el: "\<exists>w. reaches env (Descend (Some (es ! i), Some (as ! i), Exact)) [] (matches Exact (es ! i) (as ! i)) (height (es ! i)) w"
    and rest: "\<exists>w. reaches env (Resume True) [SequenceFrame es as (i + 1)] (\<forall>p \<in> set (drop (i + 1) (zip es as)). matches Exact (fst p) (snd p)) (height (List es)) w"
    and i: "i < length es" "length es = length as"
  shows "\<exists>w. reaches env (Descend (Some (es ! i), Some (as ! i), Exact)) [SequenceFrame es as (i + 1)]
    (\<forall>p \<in> set (drop i (zip es as)). matches Exact (fst p) (snd p)) (height (List es)) w"
proof -
  obtain w where w: "reaches env (Descend (Some (es ! i), Some (as ! i), Exact)) [] (matches Exact (es ! i) (as ! i)) (height (es ! i)) w" using el by blast
  obtain v where v: "reaches env (Resume True) [SequenceFrame es as (i + 1)] (\<forall>p \<in> set (drop (i + 1) (zip es as)). matches Exact (fst p) (snd p)) (height (List es)) v"
    using rest by blast
  have drop: "drop i (zip es as) = (es ! i, as ! i) # drop (i + 1) (zip es as)" using i Cons_nth_drop_Suc [of i "zip es as"] by simp
  have "Suc (height (es ! i)) \<le> height (List es)" using foldr_max_ge [OF nth_mem [OF i(1)], of height] by simp
  then show ?thesis using reaches_frame [OF w reaches_conj [OF v]] unfolding drop by (auto simp: max_absorb2)
qed

lemma sequence_reaches:
  assumes els: "\<And>x y. x \<in> set es \<Longrightarrow> y \<in> set as \<Longrightarrow> \<exists>w. reaches env (Descend (Some x, Some y, Exact)) [] (matches Exact x y) (height x) w"
    and len: "length es = length as" and "i \<le> length es"
  shows "\<exists>w. reaches env (Resume True) [SequenceFrame es as i] (\<forall>p \<in> set (drop i (zip es as)). matches Exact (fst p) (snd p)) (height (List es)) w"
  using assms(3)
proof (induction "length es - i" arbitrary: i)
  case 0
  then have "reaches env (Resume True) [SequenceFrame es as i] True (height (List es)) 0"
    by (intro reaches_ResumeI) (simp add: resume_frame_def)
  then show ?case using 0 len by auto
next
  case (Suc k)
  then have i: "i < length es" by simp
  obtain w where w: "reaches env (Descend (Some (es ! i), Some (as ! i), Exact)) [SequenceFrame es as (i + 1)]
      (\<forall>p \<in> set (drop i (zip es as)). matches Exact (fst p) (snd p)) (height (List es)) w"
    using sequence_descends [OF els _ i len] Suc.hyps(1) [of "i + 1"] Suc.hyps(2) Suc.prems i len by force
  have "reaches env (Resume True) [SequenceFrame es as i] (\<forall>p \<in> set (drop i (zip es as)). matches Exact (fst p) (snd p)) (height (List es)) w"
    by (rule reaches_ResumeI) (use i outcome_go_descend [OF w] in \<open>simp add: resume_frame_def\<close>)
  then show ?case by blast
qed

definition found_from :: "Tag list \<Rightarrow> Tag list \<Rightarrow> nat \<Rightarrow> nat \<Rightarrow> bool" where
  "found_from es as i j \<longleftrightarrow> (\<exists>y \<in> set (drop j as). matches PartialLists (es ! i) y) \<and>
    (\<forall>x \<in> set (drop (i + 1) es). \<exists>y \<in> set as. matches PartialLists x y)"

lemma partial_descends:
  assumes els: "\<And>x y. x \<in> set es \<Longrightarrow> y \<in> set as \<Longrightarrow> \<exists>w. reaches env (Descend (Some x, Some y, PartialLists)) [] (matches PartialLists x y) (height x) w"
    and "i < length es" "j < length as"
  shows "\<exists>w. reaches env (Descend (Some (es ! i), Some (as ! j), PartialLists)) [PartialListFrame es as i j] (found_from es as i j) (height (List es)) w"
  using assms(2,3)
proof (induction "length es - i" arbitrary: i j rule: less_induct)
  case less
  note outer = less.hyps
  from less.prems show ?case
  proof (induction "length as - j" arbitrary: j rule: less_induct)
    case (less j)
    obtain w where w: "reaches env (Descend (Some (es ! i), Some (as ! j), PartialLists)) [] (matches PartialLists (es ! i) (as ! j)) (height (es ! i)) w"
      using els less.prems by force
    have drop: "drop j as = as ! j # drop (j + 1) as" using Cons_nth_drop_Suc [OF less.prems(2)] by simp
    have dropi: "drop (i + 1) es = es ! (i + 1) # drop (i + 2) es" if "i + 1 < length es" using Cons_nth_drop_Suc [OF that] by simp
    have "\<exists>v. reaches env (Resume (matches PartialLists (es ! i) (as ! j))) [PartialListFrame es as i j] (found_from es as i j) (height (List es)) v"
    proof (cases "matches PartialLists (es ! i) (as ! j)")
      case True
      show ?thesis
      proof (cases "i + 1 < length es")
        case more: True
        obtain v where v: "reaches env (Descend (Some (es ! (i + 1)), Some (as ! 0), PartialLists)) [PartialListFrame es as (i + 1) 0] (found_from es as (i + 1) 0) (height (List es)) v"
          using outer [of "i + 1" 0] more less.prems by force
        have "found_from es as i j = found_from es as (i + 1) 0" using True drop dropi [OF more] by (auto simp: found_from_def)
        then have "reaches env (Resume True) [PartialListFrame es as i j] (found_from es as i j) (height (List es)) v"
          by (intro reaches_ResumeI) (use more less.prems outcome_go_descend [OF v] in \<open>auto simp: resume_frame_def\<close>)
        then show ?thesis using True by auto
      next
        case False
        then have "found_from es as i j" using True drop by (simp add: found_from_def)
        then have "reaches env (Resume True) [PartialListFrame es as i j] (found_from es as i j) (height (List es)) 0"
          by (intro reaches_ResumeI) (use False in \<open>simp add: resume_frame_def\<close>)
        then show ?thesis using True by auto
      qed
    next
      case False
      show ?thesis
      proof (cases "j + 1 < length as")
        case more: True
        obtain v where v: "reaches env (Descend (Some (es ! i), Some (as ! (j + 1)), PartialLists)) [PartialListFrame es as i (j + 1)] (found_from es as i (j + 1)) (height (List es)) v"
          using less.hyps [of "j + 1"] more less.prems by force
        have "found_from es as i j = found_from es as i (j + 1)" using False drop by (simp add: found_from_def)
        then have "reaches env (Resume False) [PartialListFrame es as i j] (found_from es as i j) (height (List es)) v"
          by (intro reaches_ResumeI) (use more less.prems outcome_go_descend [OF v] in \<open>auto simp: resume_frame_def\<close>)
        then show ?thesis using False by auto
      next
        case last: False
        then have "\<not> found_from es as i j" using False drop by (simp add: found_from_def)
        then have "reaches env (Resume False) [PartialListFrame es as i j] (found_from es as i j) (height (List es)) 0"
          by (intro reaches_ResumeI) (use last in \<open>simp add: resume_frame_def\<close>)
        then show ?thesis using False by auto
      qed
    qed
    then obtain v where v: "reaches env (Resume (matches PartialLists (es ! i) (as ! j))) [PartialListFrame es as i j] (found_from es as i j) (height (List es)) v" by blast
    have "Suc (height (es ! i)) \<le> height (List es)" using foldr_max_ge [OF nth_mem [OF less.prems(1)], of height] by simp
    then show ?case using reaches_frame [OF w v] by (auto simp: max_absorb2)
  qed
qed

section \<open>Pairs\<close>

text \<open>The same object has the same value.\<close>

definition same_sound :: "compare_env \<Rightarrow> bool" where
  "same_sound env \<longleftrightarrow> (\<forall>n e a. ce_same env n e a \<longrightarrow> e = a)"

lemma outcome_same:
  assumes "same_sound env" "tag_sorted e" "ce_same env k e a"
  shows "outcome env (matches m e a) n w frames cap b alloc (compare_loop env (Resume True, frames, cap) b alloc)"
proof -
  have "e = a" using assms(1,3) unfolding same_sound_def by blast
  then have "matches m e a" using matches_refl [OF assms(2)] by simp
  then show ?thesis by simp
qed

lemma leaf_pair:
  assumes same: "same_sound env" and sorted: "tag_sorted e" and leaf: "\<not> same_container e a"
  shows "\<exists>w. reaches env (Descend (Some e, Some a, m)) [] (matches m e a) (height e) w"
proof -
  obtain v where v: "costs (primitive_equal e a) (tag_eq e a) v" using primitive_equal_costs [OF leaf] by blast
  have "reaches env (Descend (Some e, Some a, m)) [] (matches m e a) (height e) (1 + (v + 0))"
  proof (rule reaches_DescendI)
    fix frames cap b alloc
    have eq: "compare_pair env (Some e, Some a, m) (frames, cap) b alloc = (if ce_same env (cb_work b) e a then (Inr (Resume True, frames, cap), b, alloc)
        else (case primitive_equal e a b of (Inl e, b) \<Rightarrow> (Inl e, b, alloc) | (Inr matched, b) \<Rightarrow> (Inr (Resume matched, frames, cap), b, alloc)))"
      using leaf by (cases e; cases a; simp add: compare_pair_def same_container_def)
    have "outcome env (matches m e a) (height e) (v + 0) frames cap b alloc
        (case primitive_equal e a b of (Inl e, b) \<Rightarrow> (Inl e, b, alloc) | (Inr matched, b) \<Rightarrow> go_on env (Inr (Resume matched, frames, cap), b, alloc))"
      by (rule outcome_costs [OF v]) (simp add: matches_leaf [OF leaf])
    then show "outcome env (matches m e a) (height e) (v + 0) frames cap b alloc (go_on env (compare_pair env (Some e, Some a, m) (frames, cap) b alloc))"
      unfolding eq using outcome_same [OF same sorted, of "cb_work b" a m] by (simp add: go_on_case)
  qed
  then show ?thesis by blast
qed

lemma compound_pair:
  assumes same: "same_sound env" and sorted: "tag_sorted (Compound es)" "tag_sorted (Compound as)"
    and ih: "\<And>x v. x \<in> set es \<Longrightarrow> v \<in> snd ` set as \<Longrightarrow> \<exists>w. reaches env (Descend (Some (snd x), Some v, m)) [] (matches m (snd x) v) (height (snd x)) w"
  shows "\<exists>w. reaches env (Descend (Some (Compound es), Some (Compound as), m)) [] (matches m (Compound es) (Compound as)) (height (Compound es)) w"
proof (cases "length as < length es \<or> m = Exact \<and> length es \<noteq> length as \<or> es = []")
  case True
  have "reaches env (Descend (Some (Compound es), Some (Compound as), m)) [] (matches m (Compound es) (Compound as)) (height (Compound es)) (1 + 0)"
  proof (rule reaches_DescendI)
    fix frames cap b alloc
    show "outcome env (matches m (Compound es) (Compound as)) (height (Compound es)) 0 frames cap b alloc
        (go_on env (compare_pair env (Some (Compound es), Some (Compound as), m) (frames, cap) b alloc))"
      using True outcome_same [OF same sorted(1), of "cb_work b" "Compound as" m]
      by (auto simp: compare_pair_def matches_Compound Let_def split: if_splits)
  qed
  then show ?thesis by blast
next
  case False
  then have ne: "0 < length es" by auto
  have wf: "compound_wf as" using sorted(2) by simp
  obtain v where v: "costs (child as (fst (es ! 0))) (map_of as (fst (es ! 0))) v" using child_finds [OF wf] by blast
  have "\<exists>w. reaches env (Resume True) [CompoundFrame es as (0 + 1) m] (\<forall>x \<in> set (drop (0 + 1) es). entry_matches m as x) (height (Compound es)) w"
    by (rule compound_reaches [OF ih wf]) (use ne in linarith)+
  then obtain w where w: "reaches env (Descend (Some (snd (es ! 0)), map_of as (fst (es ! 0)), m)) [CompoundFrame es as (0 + 1) m]
      (\<forall>x \<in> set (drop 0 es). entry_matches m as x) (height (Compound es)) w"
    using compound_descends [OF ih _ ne] ne by force
  note w = w [unfolded add_0]
  have r: "matches m (Compound es) (Compound as) = (\<forall>x \<in> set (drop 0 es). entry_matches m as x)" using False by (auto simp: matches_Compound)
  have "reaches env (Descend (Some (Compound es), Some (Compound as), m)) [] (matches m (Compound es) (Compound as)) (height (Compound es)) (1 + (v + w))"
  proof (rule reaches_DescendI)
    fix frames cap b alloc
    have "outcome env (matches m (Compound es) (Compound as)) (height (Compound es)) (v + w) frames cap b alloc
        (case child as (fst (es ! 0)) b of (Inl e, b) \<Rightarrow> (Inl e, b, alloc)
         | (Inr found, b) \<Rightarrow> go_on env (descend env (CompoundFrame es as 1 m) (Some (snd (es ! 0)), found, m) (frames, cap) b alloc))"
      unfolding r by (rule outcome_costs [OF v]) (rule outcome_go_descend [OF w], simp)
    then show "outcome env (matches m (Compound es) (Compound as)) (height (Compound es)) (v + w) frames cap b alloc
        (go_on env (compare_pair env (Some (Compound es), Some (Compound as), m) (frames, cap) b alloc))"
      using False outcome_same [OF same sorted(1), of "cb_work b" "Compound as" m] by (auto simp: compare_pair_def Let_def go_on_case)
  qed
  then show ?thesis by blast
qed

lemma list_pair:
  assumes same: "same_sound env" and sorted: "tag_sorted (List es)"
    and ih: "\<And>x y m. x \<in> set es \<Longrightarrow> y \<in> set as \<Longrightarrow> \<exists>w. reaches env (Descend (Some x, Some y, m)) [] (matches m x y) (height x) w"
  shows "\<exists>w. reaches env (Descend (Some (List es), Some (List as), m)) [] (matches m (List es) (List as)) (height (List es)) w"
proof -
  note same' = outcome_same [OF same sorted, of _ "List as" m]
  let ?r = "matches m (List es) (List as)" and ?h = "height (List es)"
  consider (short) "es = [] \<or> length as < length es \<or> m \<noteq> PartialLists \<and> length es \<noteq> length as"
    | (partial) "es \<noteq> []" "length es \<le> length as" "m = PartialLists" | (exact) "es \<noteq> []" "length es = length as" "m \<noteq> PartialLists" by force
  then show ?thesis
  proof cases
    case short
    have "?r = (es = [] \<and> as = [])" using short by (cases "m = PartialLists") (auto simp: matches_partial_List matches_exact_List)
    then have "reaches env (Descend (Some (List es), Some (List as), m)) [] ?r ?h (1 + 0)"
      by (intro reaches_DescendI) (use short same' in \<open>auto simp: compare_pair_def Let_def split: if_splits\<close>)
    then show ?thesis by blast
  next
    case partial
    then have ne: "0 < length es" "0 < length as" by (cases es; cases as; simp)+
    obtain w where w: "reaches env (Descend (Some (es ! 0), Some (as ! 0), PartialLists)) [PartialListFrame es as 0 0] (found_from es as 0 0) ?h w"
      using partial_descends [OF ih ne] by blast
    have r: "?r = found_from es as 0 0" using partial by (cases es) (auto simp: matches_partial_List found_from_def)
    have "reaches env (Descend (Some (List es), Some (List as), m)) [] ?r ?h (1 + w)"
    proof (rule reaches_DescendI)
      fix frames cap b alloc
      show "outcome env ?r ?h w frames cap b alloc (go_on env (compare_pair env (Some (List es), Some (List as), m) (frames, cap) b alloc))"
        using partial same' outcome_go_descend [OF w, folded r] by (auto simp: compare_pair_def Let_def)
    qed
    then show ?thesis by blast
  next
    case exact
    then have ne: "0 < length es" "0 < length as" by (cases es; cases as; simp)+
    have "\<exists>w. reaches env (Resume True) [SequenceFrame es as (0 + 1)] (\<forall>p \<in> set (drop (0 + 1) (zip es as)). matches Exact (fst p) (snd p)) ?h w"
      by (rule sequence_reaches [OF ih exact(2)]) (use ne in linarith)+
    then obtain w where w: "reaches env (Descend (Some (es ! 0), Some (as ! 0), Exact)) [SequenceFrame es as (0 + 1)]
        (\<forall>p \<in> set (drop 0 (zip es as)). matches Exact (fst p) (snd p)) ?h w"
      using sequence_descends [OF ih _ ne(1) exact(2)] ne by force
    note w = w [unfolded add_0]
    have r: "?r = (\<forall>p \<in> set (drop 0 (zip es as)). matches Exact (fst p) (snd p))" using exact by (simp add: matches_exact_List)
    have "reaches env (Descend (Some (List es), Some (List as), m)) [] ?r ?h (1 + w)"
    proof (rule reaches_DescendI)
      fix frames cap b alloc
      show "outcome env ?r ?h w frames cap b alloc (go_on env (compare_pair env (Some (List es), Some (List as), m) (frames, cap) b alloc))"
        using exact same' outcome_go_descend [OF w, folded r] by (auto simp: compare_pair_def Let_def)
    qed
    then show ?thesis by blast
  qed
qed

lemma pair_reaches:
  assumes same: "same_sound env"
  shows "tag_sorted e \<Longrightarrow> tag_sorted a \<Longrightarrow> \<exists>w. reaches env (Descend (Some e, Some a, m)) [] (matches m e a) (height e) w"
proof (induction "size e" arbitrary: e a m rule: less_induct)
  case less
  show ?case
  proof (cases "same_container e a")
    case False
    then show ?thesis by (rule leaf_pair [OF same less.prems(1)])
  next
    case True
    then consider es as where "e = Compound es" "a = Compound as" | es as where "e = List es" "a = List as"
      by (auto simp: same_container_def split: Tag.splits)
    then show ?thesis
    proof cases
      case 1
      have "\<exists>w. reaches env (Descend (Some (snd x), Some v, m)) [] (matches m (snd x) v) (height (snd x)) w" if "x \<in> set es" "v \<in> snd ` set as" for x v
        by (rule less.hyps) (use entry_size [OF that(1)] less.prems 1 that in auto)
      then show ?thesis using compound_pair [OF same] less.prems unfolding 1 by blast
    next
      case 2
      have "\<exists>w. reaches env (Descend (Some x, Some y, m')) [] (matches m' x y) (height x) w" if "x \<in> set es" "y \<in> set as" for x y m'
        by (rule less.hyps) (use element_size [OF that(1)] less.prems 2 that in auto)
      then show ?thesis using list_pair [OF same] less.prems(1) unfolding 2 by blast
    qed
  qed
qed

section \<open>Properties\<close>

text \<open>The answer of a comparison of optional tags: no expectation is always met.\<close>

definition compare_answer :: "Mode \<Rightarrow> Tag option \<Rightarrow> Tag option \<Rightarrow> bool" where
  "compare_answer m expected actual = (case expected of None \<Rightarrow> True | Some e \<Rightarrow> (case actual of None \<Rightarrow> False | Some a \<Rightarrow> matches m e a))"

definition tag_height :: "Tag option \<Rightarrow> nat" where
  "tag_height expected = (case expected of None \<Rightarrow> 0 | Some e \<Rightarrow> height e)"

lemma compare_reaches:
  assumes "same_sound env" "\<And>e. expected = Some e \<Longrightarrow> tag_sorted e" "\<And>a. actual = Some a \<Longrightarrow> tag_sorted a"
  shows "\<exists>w. reaches env (Descend (expected, actual, m)) [] (compare_answer m expected actual) (tag_height expected) w"
proof (cases "\<exists>e a. expected = Some e \<and> actual = Some a")
  case True
  then show ?thesis using pair_reaches [OF assms(1)] assms(2,3) by (auto simp: compare_answer_def tag_height_def)
next
  case False
  then have "reaches env (Descend (expected, actual, m)) [] (compare_answer m expected actual) (tag_height expected) (1 + 0)"
    by (intro reaches_DescendI) (auto simp: compare_pair_def compare_answer_def split: option.splits)
  then show ?thesis by blast
qed

text \<open>The result of a comparison that should answer \<open>r\<close> for at most \<open>w\<close> units of work and a stack of \<open>n\<close> frames.\<close>

definition answers :: "compare_env \<Rightarrow> bool \<Rightarrow> nat \<Rightarrow> nat \<Rightarrow> CompareBudget \<Rightarrow> nat \<Rightarrow> bool compare_result \<Rightarrow> bool" where
  "answers env r n w b alloc result \<longleftrightarrow>
    (case result of
       (Inr r', b', alloc') \<Rightarrow> r' = r \<and> cb_limits b' = cb_limits b \<and> cb_work b \<le> cb_work b' + w
     | (Inl e, b', alloc') \<Rightarrow> cb_work b < w \<or> \<not> stack_room env (cb_limits b) n 0 alloc)"

lemma reaches_answers: "reaches env (Descend pair) [] r n w \<Longrightarrow> answers env r n w b alloc (compare_loop env (Descend pair, [], 0) b alloc)"
proof -
  assume "reaches env (Descend pair) [] r n w"
  then have "outcome env r n w [] 0 b alloc (compare_loop env (Descend pair, [], 0) b alloc)" unfolding reaches_def by (metis append_Nil)
  then show ?thesis by (cases rule: outcome_cases) (auto simp: answers_def compare_loop.simps(2))
qed

text \<open>
  C28: a comparison gives the answer of its recursive specification, whatever is the same object: no
  expectation is always met, compounds are compared as subsets, a partial list asks for each expected
  element somewhere in the actual list, and everything below a strict list is compared exactly. A
  budget that is too small is reported as an error and never as a different answer; there is an amount
  of work, and the height of the expected tag is a stack depth, with which the comparison returns.
\<close>

theorem compare_meets_spec:
  assumes "same_sound env" "\<And>e. expected = Some e \<Longrightarrow> tag_sorted e" "\<And>a. actual = Some a \<Longrightarrow> tag_sorted a"
  shows "\<exists>w. \<forall>b alloc. answers env (compare_answer (if partial_lists then PartialLists else StrictLists) expected actual) (tag_height expected) w b alloc
    (compare_accounted env expected actual partial_lists b alloc)"
proof -
  let ?m = "if partial_lists then PartialLists else StrictLists"
  obtain w where "reaches env (Descend (expected, actual, ?m)) [] (compare_answer ?m expected actual) (tag_height expected) w"
    using compare_reaches [OF assms] by blast
  from reaches_answers [OF this] show ?thesis unfolding compare_accounted_def by blast
qed

definition sample_compare_env :: compare_env where
  "sample_compare_env = \<lparr>ce_reserve = (\<lambda>len more. Some (len + more)), ce_frame_size = 48, ce_same = (\<lambda>n e a. False)\<rparr>"

lemma sample_compare_env_sound: "same_sound sample_compare_env"
  by (simp add: same_sound_def sample_compare_env_def)

theorem compare_meets_spec_witness:
  "\<exists>w. \<forall>b alloc. answers sample_compare_env True 2 w b alloc
    (compare_accounted sample_compare_env (Some (Compound [([97], List [Byte 1, Byte 1])])) (Some (Compound [([97], List [Byte 2, Byte 1]), ([98], End)])) True b alloc)"
proof -
  let ?e = "Compound [([97], List [Byte 1, Byte 1])]" and ?a = "Compound [([97], List [Byte 2, Byte 1]), ([98], End)]"
  have "tag_sorted ?e" "tag_sorted ?a" by simp_all
  moreover have "compare_answer PartialLists (Some ?e) (Some ?a)" "tag_height (Some ?e) = 2"
    by (simp_all add: compare_answer_def tag_height_def matches_Compound matches_partial_List matches_leaf same_container_def entry_matches_def)
  ultimately show ?thesis using compare_meets_spec [OF sample_compare_env_sound, of "Some ?e" "Some ?a" True] by simp
qed

text \<open>
  exact comparison decides the equality of tags, with the NaN and signed-zero rules of the tag
  type, without recursion on the call stack; too small a budget is an error and never an answer.
\<close>

theorem equal_is_tag_equality:
  assumes "same_sound env" "tag_sorted expected" "tag_sorted actual"
  shows "\<exists>w. \<forall>b alloc. answers env (tag_eq expected actual) (height expected) w b alloc (equal_accounted env expected actual b alloc)"
  using pair_reaches [OF assms, of Exact] reaches_answers unfolding equal_accounted_def matches_exact [OF assms(2,3)] by blast

theorem equal_is_tag_equality_witness:
  "\<exists>w. \<forall>b alloc. answers sample_compare_env True 0 w b alloc (equal_accounted sample_compare_env (Float 0x7fc00000) (Float 0x7fc00001) b alloc)"
proof -
  have "tag_eq (Float 0x7fc00000) (Float 0x7fc00001)" by (simp add: f32_is_nan_def)
  then show ?thesis using equal_is_tag_equality [OF sample_compare_env_sound, of "Float 0x7fc00000" "Float 0x7fc00001"] by simp
qed

end
