(* ===== verification/PackedStorage.thy ===== *)
theory PackedStorage
  imports Nbt
begin

text \<open>
  The packed arrays of \<^verbatim>\<open>src/world/section/packed.rs\<close>: values of 1 to 31 bits stored low to high
  in 64-bit words, never across a word boundary, unused bits zero. The storage is refined to the
  plain list of its values, and the words are shown to be determined by that list.
\<close>

section \<open>Errors of section data\<close>

text \<open>
  The last two values are not errors of the source: \<open>Panics\<close> stands for a failed \<open>unwrap\<close> or an
  index out of bounds, \<open>NeverReturns\<close> for a probing loop that does not end. The theorems show that
  the operations of the section codec reach neither.
\<close>

datatype section_error =
    InvalidRegistrySize u32
  | InvalidBits nat
  | InvalidLength nat nat
  | IndexOutOfBounds
  | ValueOutOfRange u32
  | InvalidPaletteLength u32
  | InvalidPaletteIndex u32
  | InvalidCounts
  | SectionTruncated
  | InvalidVarInt
  | AllocationBudgetExceeded
  | SectionAllocationFailed
  | OutputCapacity
  | NonCanonicalPadding
  | Panics
  | NeverReturns

section \<open>The storage and its operations\<close>

text \<open>\<open>p_capacity\<close> is the capacity of the word vector, which the memory accounting reads.\<close>

record Packed =
  p_bits :: nat
  p_len :: nat
  p_words :: "u64 list"
  p_capacity :: nat

definition MAX_LEN :: nat where
  "MAX_LEN = 4096"

definition packed_word_count :: "nat \<Rightarrow> nat \<Rightarrow> section_error + nat" where
  "packed_word_count bits len =
     (if \<not> (1 \<le> bits \<and> bits \<le> 31) then Inl (InvalidBits bits)
      else if \<not> (1 \<le> len \<and> len \<le> MAX_LEN) then Inl (InvalidLength (max 1 (min len MAX_LEN)) len)
      else Inr (div_ceil len (64 div bits)))"

definition packed_new :: "alloc_env \<Rightarrow> nat \<Rightarrow> nat \<Rightarrow> nat \<Rightarrow> section_error + Packed" where
  "packed_new env bits len allocation_limit =
     bind_r (packed_word_count bits len) (\<lambda>n.
     if n * 8 > allocation_limit then Inl AllocationBudgetExceeded
     else
       bind_r (ok_or (try_reserve_exact env 8 n) SectionAllocationFailed) (\<lambda>capacity.
       if capacity * 8 > allocation_limit then Inl AllocationBudgetExceeded
       else Inr \<lparr>p_bits = bits, p_len = len, p_words = replicate n 0, p_capacity = capacity\<rparr>))"

text \<open>Entries of the word at an index, and whether bits above them are set.\<close>

definition word_entries :: "nat \<Rightarrow> nat \<Rightarrow> nat \<Rightarrow> nat" where
  "word_entries bits len i = min (64 div bits) (len - i * (64 div bits))"

fun padding_clear :: "nat \<Rightarrow> nat \<Rightarrow> nat \<Rightarrow> u64 list \<Rightarrow> bool" where
  "padding_clear bits len i [] = True"
| "padding_clear bits len i (w # ws) =
     (let used_bits = word_entries bits len i * bits
      in if used_bits < 64 \<and> drop_bit used_bits w \<noteq> 0 then False
         else padding_clear bits len (Suc i) ws)"

definition from_words :: "nat \<Rightarrow> nat \<Rightarrow> u64 list \<Rightarrow> nat \<Rightarrow> section_error + Packed" where
  "from_words bits len words capacity =
     bind_r (packed_word_count bits len) (\<lambda>expected.
     if length words \<noteq> expected then Inl (InvalidLength expected (length words))
     else if \<not> padding_clear bits len 0 words then Inl NonCanonicalPadding
     else Inr \<lparr>p_bits = bits, p_len = len, p_words = words, p_capacity = capacity\<rparr>)"

definition position :: "Packed \<Rightarrow> nat \<Rightarrow> (nat \<times> nat) option" where
  "position p index =
     (if index \<ge> p_len p then None
      else let per_word = 64 div p_bits p in Some (index div per_word, (index mod per_word) * p_bits p))"

definition packed_mask :: "nat \<Rightarrow> u64" where
  "packed_mask bits = push_bit bits 1 - 1"

definition packed_get :: "Packed \<Rightarrow> nat \<Rightarrow> u32 option" where
  "packed_get p index =
     (case position p index of
        None \<Rightarrow> None
      | Some (word, shift) \<Rightarrow> Some (ucast (drop_bit shift (p_words p ! word) AND packed_mask (p_bits p))))"

definition packed_set :: "Packed \<Rightarrow> nat \<Rightarrow> u32 \<Rightarrow> section_error + (Packed \<times> u32)" where
  "packed_set p index v =
     bind_r (ok_or (position p index) IndexOutOfBounds) (\<lambda>(word, shift).
     let m = packed_mask (p_bits p) in
     if ucast v > m then Inl (ValueOutOfRange v)
     else
       let previous = ucast (drop_bit shift (p_words p ! word) AND m);
           updated = (p_words p ! word AND NOT (push_bit shift m)) OR push_bit shift (ucast v)
       in Inr (p\<lparr>p_words := (p_words p)[word := updated]\<rparr>, previous))"

definition packed_heap_bytes :: "Packed \<Rightarrow> nat" where
  "packed_heap_bytes p = p_capacity p * 8"

section \<open>Values and well-formedness\<close>

text \<open>The value at an index, read bit by bit from its word.\<close>

definition cell :: "nat \<Rightarrow> u64 list \<Rightarrow> nat \<Rightarrow> u32" where
  "cell bits ws i =
     ucast (drop_bit ((i mod (64 div bits)) * bits) (ws ! (i div (64 div bits))) AND packed_mask bits)"

definition packed_values :: "Packed \<Rightarrow> u32 list" where
  "packed_values p = map (cell (p_bits p) (p_words p)) [0..<p_len p]"

definition packed_wf :: "Packed \<Rightarrow> bool" where
  "packed_wf p \<longleftrightarrow>
     packed_word_count (p_bits p) (p_len p) = Inr (length (p_words p)) \<and>
     padding_clear (p_bits p) (p_len p) 0 (p_words p)"

lemma packed_mask_eq: "bits \<le> 31 \<Longrightarrow> packed_mask bits = mask bits"
  by (simp add: packed_mask_def mask_eq_exp_minus_1 push_bit_eq_mult)

lemma bit_packed_mask [simp]: "bits \<le> 31 \<Longrightarrow> bit (packed_mask bits) k \<longleftrightarrow> k < bits"
  by (auto simp: packed_mask_eq bit_mask_iff)

lemma packed_dims:
  assumes "packed_wf p"
  shows "1 \<le> p_bits p" "p_bits p \<le> 31" "1 \<le> p_len p" "p_len p \<le> 4096"
    "length (p_words p) = div_ceil (p_len p) (64 div p_bits p)"
  using assms by (auto simp: packed_wf_def packed_word_count_def MAX_LEN_def split: if_splits)

lemma per_word_bounds:
  assumes "1 \<le> bits" "bits \<le> (31 :: nat)"
  shows "0 < 64 div bits" "64 div bits * bits \<le> 64"
proof -
  have "64 div bits \<ge> 64 div 31" using assms by (intro div_le_mono2) auto
  then show "0 < 64 div bits" by simp
qed simp

lemma bit_cell:
  assumes "bits \<le> 31"
  shows "bit (cell bits ws i) k \<longleftrightarrow>
    k < bits \<and> bit (ws ! (i div (64 div bits))) ((i mod (64 div bits)) * bits + k)"
  using assms by (auto simp: cell_def bit_simps)

lemma unat_cell_less: "bits \<le> 31 \<Longrightarrow> unat (cell bits ws i) < 2 ^ bits"
  by (rule small_word_bits) (simp add: bit_cell)

text \<open>The padding check in terms of bits: a set bit belongs to an entry below the length.\<close>

lemma padding_clear_iff:
  assumes "1 \<le> bits" "bits \<le> 31"
  shows "padding_clear bits len i ws \<longleftrightarrow>
    (\<forall>j < length ws. \<forall>b. bit (ws ! j) b \<longrightarrow> b < word_entries bits len (i + j) * bits)"
proof (induction ws arbitrary: i)
  case (Cons w ws)
  let ?u = "word_entries bits len i * bits"
  have head: "(\<not> (?u < 64 \<and> drop_bit ?u w \<noteq> 0)) \<longleftrightarrow> (\<forall>b. bit w b \<longrightarrow> b < ?u)"
  proof
    assume l: "\<not> (?u < 64 \<and> drop_bit ?u w \<noteq> 0)"
    show "\<forall>b. bit w b \<longrightarrow> b < ?u"
    proof (intro allI impI)
      fix b assume b: "bit w b"
      then have "b < 64" using bit_imp_le_length by force
      show "b < ?u"
      proof (rule ccontr)
        assume "\<not> b < ?u"
        then have "bit (drop_bit ?u w) (b - ?u)" using b by (simp add: bit_drop_bit_eq)
        then show False using l \<open>b < 64\<close> \<open>\<not> b < ?u\<close> by auto
      qed
    qed
  next
    assume "\<forall>b. bit w b \<longrightarrow> b < ?u"
    then have "drop_bit ?u w = 0" by (intro bit_eqI) (auto simp: bit_drop_bit_eq)
    then show "\<not> (?u < 64 \<and> drop_bit ?u w \<noteq> 0)" by simp
  qed
  have "padding_clear bits len i (w # ws) \<longleftrightarrow> (\<forall>b. bit w b \<longrightarrow> b < ?u) \<and> padding_clear bits len (Suc i) ws"
    using head by (auto simp: Let_def)
  then show ?case using Cons [of "Suc i"] by (simp add: All_less_Suc2)
qed simp

lemma word_entries_less:
  "q < word_entries bits len j \<longleftrightarrow> q < 64 div bits \<and> j * (64 div bits) + q < len"
  by (auto simp: word_entries_def)

lemma less_mult_iff_div: "0 < bits \<Longrightarrow> b < n * bits \<longleftrightarrow> b div bits < (n :: nat)"
  by (simp add: div_less_iff_less_mult)

text \<open>Every bit of a well-formed storage is a bit of one value.\<close>

lemma bit_packed_word:
  assumes "packed_wf p" "j < length (p_words p)"
  shows "bit (p_words p ! j) b \<longleftrightarrow>
    (let bits = p_bits p; q = b div bits; i = j * (64 div bits) + q
     in q < 64 div bits \<and> i < p_len p \<and> bit (packed_values p ! i) (b mod bits))"
proof -
  note d = packed_dims [OF assms(1)]
  let ?bits = "p_bits p"
  have pad: "bit (p_words p ! j) b \<Longrightarrow> b div ?bits < word_entries ?bits (p_len p) j"
    using assms d(1,2) padding_clear_iff [OF d(1,2), of "p_len p" 0 "p_words p"]
    by (simp add: packed_wf_def less_mult_iff_div)
  have "bit (cell ?bits (p_words p) (j * (64 div ?bits) + b div ?bits)) (b mod ?bits) \<longleftrightarrow> bit (p_words p ! j) b"
    if "b div ?bits < 64 div ?bits"
    using that d(1,2) by (simp add: bit_cell)
  then show ?thesis
    using pad by (auto simp: Let_def packed_values_def word_entries_less)
qed

lemma length_packed_values [simp]: "length (packed_values p) = p_len p"
  by (simp add: packed_values_def)

lemma packed_values_small:
  assumes "packed_wf p" "v \<in> set (packed_values p)"
  shows "unat v < 2 ^ p_bits p"
  using assms unat_cell_less packed_dims(2) [OF assms(1)] by (auto simp: packed_values_def)

text \<open>The representation is canonical: the values determine the words.\<close>

lemma packed_canonical:
  assumes "packed_wf p" "packed_wf q" "p_bits p = p_bits q" "p_len p = p_len q" "packed_values p = packed_values q"
  shows "p_words p = p_words q"
proof (rule nth_equalityI)
  show len: "length (p_words p) = length (p_words q)"
    using packed_dims(5) [OF assms(1)] packed_dims(5) [OF assms(2)] assms by simp
  show "p_words p ! j = p_words q ! j" if "j < length (p_words p)" for j
    using that len assms by (intro bit_eqI) (simp add: bit_packed_word)
qed

section \<open>Reading and writing\<close>

lemma packed_get_values:
  "packed_get p i = (if i < p_len p then Some (packed_values p ! i) else None)"
  by (auto simp: packed_get_def position_def packed_values_def cell_def Let_def)

lemma value_fits_iff: "bits \<le> 31 \<Longrightarrow> \<not> (ucast (v :: u32) :: u64) > packed_mask bits \<longleftrightarrow> unat v < 2 ^ bits"
proof -
  assume "bits \<le> 31"
  then have "unat (packed_mask bits) = mask bits"
    by (intro bit_eqI) (auto simp: bit_unsigned_iff bit_mask_iff)
  then have "unat (packed_mask bits) = 2 ^ bits - 1" by (simp add: mask_eq_exp_minus_1)
  moreover have "unat (ucast v :: u64) = unat v" 
    using unat_less_power [of v] by (simp add: unsigned_ucast_eq take_bit_nat_eq_self)
  ultimately show ?thesis
    by (simp add: word_less_nat_alt not_less) (metis Suc_pred less_Suc_eq_le nat_zero_less_power_iff zero_less_numeral)
qed

abbreviation set_word :: "nat \<Rightarrow> u64 list \<Rightarrow> nat \<Rightarrow> u32 \<Rightarrow> u64 list" where
  "set_word bits ws i v \<equiv> ws[i div (64 div bits) :=
     (ws ! (i div (64 div bits)) AND NOT (push_bit ((i mod (64 div bits)) * bits) (packed_mask bits))) OR
     push_bit ((i mod (64 div bits)) * bits) (ucast v)]"

lemma bit_updated_word:
  assumes "bits \<le> 31" "unat v < 2 ^ bits" "s + bits \<le> 64"
  shows "bit ((w AND NOT (push_bit s (packed_mask bits))) OR push_bit s (ucast (v :: u32)) :: u64) b \<longleftrightarrow>
    (if s \<le> b \<and> b < s + bits then bit v (b - s) else bit w b)"
proof (cases "b < 64")
  case True
  have "bit v (b - s) \<Longrightarrow> b - s < bits" using bit_small_word [OF assms(2)] .
  then show ?thesis using assms True by (auto simp: bit_simps)
next
  case False
  then show ?thesis using assms by (auto dest: bit_imp_le_length)
qed

lemma div_eq_range: "0 < n \<Longrightarrow> (b div n = q) \<longleftrightarrow> (q * n \<le> b \<and> b < q * n + (n :: nat))"
proof
  assume "0 < n" "b div n = q"
  then have "b = q * n + b mod n" "b mod n < n" by (auto simp: mult.commute)
  then show "q * n \<le> b \<and> b < q * n + n" by linarith
qed (auto intro: div_nat_eqI simp: mult.commute)

lemma set_word_nth:
  assumes "bits \<le> 31" "1 \<le> bits" "unat v < 2 ^ bits" "j < length ws"
  shows "bit (set_word bits ws i v ! j) b \<longleftrightarrow>
    (if j = i div (64 div bits) \<and> b div bits = i mod (64 div bits) then bit v (b mod bits) else bit (ws ! j) b)"
proof -
  let ?pw = "64 div bits" and ?s = "i mod (64 div bits) * bits"
  note pw = per_word_bounds [OF assms(2,1)]
  have "Suc (i mod ?pw) * bits \<le> ?pw * bits" using pw(1) by (intro mult_le_mono1) (simp add: Suc_leI)
  then have "?s + bits \<le> 64" using pw(2) by (simp only: mult_Suc)
  moreover have "?s \<le> b \<and> b < ?s + bits \<longleftrightarrow> b div bits = i mod ?pw"
    using assms(2) div_eq_range [of bits b "i mod ?pw"] by simp
  moreover have "b - ?s = b mod bits" if "b div bits = i mod ?pw"
    using that by (metis minus_div_mult_eq_mod)
  ultimately show ?thesis
    using assms by (cases "j = i div ?pw") (auto simp: bit_updated_word)
qed

lemma cell_set_word:
  assumes "1 \<le> bits" "bits \<le> 31" "unat v < 2 ^ bits" "k div (64 div bits) < length ws"
  shows "cell bits (set_word bits ws i v) k = (if k = i then v else cell bits ws k)"
proof (rule bit_eqI)
  fix n
  have same: "k = i \<longleftrightarrow> k div (64 div bits) = i div (64 div bits) \<and> k mod (64 div bits) = i mod (64 div bits)"
    by (metis mod_div_decomp)
  have v: "bit v n \<Longrightarrow> n < bits" using bit_small_word [OF assms(3)] .
  have "n < bits \<Longrightarrow> (k mod (64 div bits) * bits + n) div bits = k mod (64 div bits)"
    "n < bits \<Longrightarrow> (k mod (64 div bits) * bits + n) mod bits = n" using assms(1) by simp_all
  then show "bit (cell bits (set_word bits ws i v) k) n \<longleftrightarrow> bit (if k = i then v else cell bits ws k) n"
    using v by (auto simp: bit_cell [OF assms(2)] set_word_nth [OF assms(2,1,3,4)] same)
qed

lemma word_index_less:
  assumes "packed_wf p" "i < p_len p"
  shows "i div (64 div p_bits p) < length (p_words p)"
proof (rule ccontr)
  note d = packed_dims [OF assms(1)] and pw = per_word_bounds [OF packed_dims(1,2) [OF assms(1)]]
  assume "\<not> i div (64 div p_bits p) < length (p_words p)"
  then have "p_len p \<le> i div (64 div p_bits p) * (64 div p_bits p)"
    using d(5) div_ceil_le_iff [OF pw(1)] by (simp add: not_less)
  also have "\<dots> \<le> i" by simp
  finally show False using assms(2) by simp
qed

text \<open>A write at a valid index of a value that fits replaces exactly that value.\<close>

lemma packed_set_ok:
  assumes "packed_wf p" "i < p_len p" "unat v < 2 ^ p_bits p"
  obtains p' where "packed_set p i v = Inr (p', packed_values p ! i)" "packed_wf p'"
    "packed_values p' = (packed_values p)[i := v]" "p_bits p' = p_bits p" "p_len p' = p_len p"
    "p_capacity p' = p_capacity p"
proof -
  let ?bits = "p_bits p"
  let ?p = "p\<lparr>p_words := set_word ?bits (p_words p) i v\<rparr>"
  note d = packed_dims [OF assms(1)]
  have set: "packed_set p i v = Inr (?p, packed_values p ! i)"
    using assms(2) value_fits_iff [OF d(2), of v] assms(3)
    by (simp add: packed_set_def position_def packed_values_def cell_def Let_def)
  have "padding_clear ?bits (p_len p) 0 (set_word ?bits (p_words p) i v)"
    unfolding padding_clear_iff [OF d(1,2)]
  proof (intro allI impI)
    fix j b
    assume j: "j < length (set_word ?bits (p_words p) i v)" and b: "bit (set_word ?bits (p_words p) i v ! j) b"
    have "i mod (64 div ?bits) < word_entries ?bits (p_len p) (i div (64 div ?bits))"
      using assms(2) per_word_bounds [OF d(1,2)] by (simp add: word_entries_less div_mult_mod_eq)
    moreover have "bit (p_words p ! j) b \<longrightarrow> b < word_entries ?bits (p_len p) j * ?bits"
      using assms(1) j padding_clear_iff [OF d(1,2), of "p_len p" 0 "p_words p"] by (simp add: packed_wf_def)
    ultimately show "b < word_entries ?bits (p_len p) (0 + j) * ?bits"
      using b j set_word_nth [OF d(2,1) assms(3), of j "p_words p" i b] d(1)
      by (auto simp: less_mult_iff_div split: if_splits)
  qed
  then have wf: "packed_wf ?p" using assms(1) by (simp add: packed_wf_def)
  have "packed_values ?p = (packed_values p)[i := v]"
    by (rule nth_equalityI)
      (auto simp: packed_values_def nth_list_update cell_set_word [OF d(1,2) assms(3) word_index_less [OF assms(1)]])
  then show thesis using that set wf by simp
qed

lemma packed_set_error:
  assumes "packed_wf p"
  shows "p_len p \<le> i \<Longrightarrow> packed_set p i v = Inl IndexOutOfBounds"
    "i < p_len p \<Longrightarrow> 2 ^ p_bits p \<le> unat v \<Longrightarrow> packed_set p i v = Inl (ValueOutOfRange v)"
  using value_fits_iff [OF packed_dims(2) [OF assms], of v]
  by (auto simp: packed_set_def position_def Let_def)

lemma packed_new_ok:
  assumes "packed_new env bits len limit = Inr p"
  shows "packed_wf p \<and> packed_values p = replicate len 0 \<and> p_bits p = bits \<and> p_len p = len \<and>
    packed_heap_bytes p \<le> limit"
proof -
  from assms obtain n c where n: "packed_word_count bits len = Inr n" "c * 8 \<le> limit"
    and p: "p = \<lparr>p_bits = bits, p_len = len, p_words = replicate n 0, p_capacity = c\<rparr>"
    by (auto simp: packed_new_def result_simps split: if_splits)
  have d: "1 \<le> bits" "bits \<le> 31" using n by (auto simp: packed_word_count_def split: if_splits)
  have wf: "packed_wf p" using n p padding_clear_iff [OF d] by (simp add: packed_wf_def)
  have "packed_values p ! i = 0" if "i < len" for i
  proof -
    have "i div (64 div bits) < n" using word_index_less [OF wf, of i] that p by simp
    then show ?thesis using that p by (simp add: packed_values_def cell_def)
  qed
  then have "packed_values p = replicate len 0" using p by (intro nth_equalityI) simp_all
  then show ?thesis using wf n p by (simp add: packed_heap_bytes_def)
qed

lemma from_words_ok: "from_words bits len ws c = Inr p \<Longrightarrow>
    packed_wf p \<and> p_bits p = bits \<and> p_len p = len \<and> p_words p = ws \<and> p_capacity p = c"
  by (auto simp: from_words_def packed_wf_def result_simps split: if_splits)

section \<open>Interface: an array of small values\<close>

text \<open>The loop that stores a list at consecutive indices through a fallible \<open>set\<close>.\<close>

fun fill_from :: "('p \<Rightarrow> nat \<Rightarrow> 'v \<Rightarrow> 'e + ('p \<times> 'v)) \<Rightarrow> nat \<Rightarrow> 'v list \<Rightarrow> 'p \<Rightarrow> 'e + 'p" where
  "fill_from set_op i [] p = Inr p"
| "fill_from set_op i (v # vs) p = bind_r (set_op p i v) (\<lambda>(p, _). fill_from set_op (Suc i) vs p)"

locale small_array =
  fixes wf :: "'p \<Rightarrow> bool"
    and elems :: "'p \<Rightarrow> 'v list"
    and fits :: "'p \<Rightarrow> 'v \<Rightarrow> bool"
    and shape :: "'p \<Rightarrow> 's"
    and get_op :: "'p \<Rightarrow> nat \<Rightarrow> 'v option"
    and set_op :: "'p \<Rightarrow> nat \<Rightarrow> 'v \<Rightarrow> 'e + ('p \<times> 'v)"
  assumes get_law: "wf p \<Longrightarrow> get_op p i = (if i < length (elems p) then Some (elems p ! i) else None)"
    and set_law: "wf p \<Longrightarrow> i < length (elems p) \<Longrightarrow> fits p v \<Longrightarrow>
      \<exists>p'. set_op p i v = Inr (p', elems p ! i) \<and> wf p' \<and> elems p' = (elems p)[i := v] \<and> shape p' = shape p"
    and fits_law: "shape p' = shape p \<Longrightarrow> fits p' v = fits p v"
begin

lemma fill_from_law:
  "wf p \<Longrightarrow> i + length vs \<le> length (elems p) \<Longrightarrow> \<forall>v \<in> set vs. fits p v \<Longrightarrow>
   \<exists>p'. fill_from set_op i vs p = Inr p' \<and> wf p' \<and> shape p' = shape p \<and>
     elems p' = take i (elems p) @ vs @ drop (i + length vs) (elems p)"
proof (induction vs arbitrary: i p)
  case (Cons v vs)
  obtain p1 where p1: "set_op p i v = Inr (p1, elems p ! i)" "wf p1" "elems p1 = (elems p)[i := v]" "shape p1 = shape p"
    using set_law [of p i v] Cons.prems by auto
  have "\<exists>p'. fill_from set_op (Suc i) vs p1 = Inr p' \<and> wf p' \<and> shape p' = shape p1 \<and>
      elems p' = take (Suc i) (elems p1) @ vs @ drop (Suc i + length vs) (elems p1)"
    using Cons.prems p1(2,3) fits_law [OF p1(4)] by (intro Cons.IH) auto
  moreover have "take (Suc i) (elems p1) = take i (elems p) @ [v]"
    using p1(3) Cons.prems(2) by (simp add: take_Suc_conv_app_nth)
  ultimately show ?case using p1 by auto
qed simp

lemma fill_law:
  assumes "wf p" "length vs = length (elems p)" "\<forall>v \<in> set vs. fits p v"
  shows "\<exists>p'. fill_from set_op 0 vs p = Inr p' \<and> wf p' \<and> shape p' = shape p \<and> elems p' = vs"
  using fill_from_law [of p 0 vs] assms by auto

end

abbreviation packed_fits :: "Packed \<Rightarrow> u32 \<Rightarrow> bool" where
  "packed_fits p v \<equiv> unat v < 2 ^ p_bits p"

abbreviation packed_shape :: "Packed \<Rightarrow> nat \<times> nat \<times> nat" where
  "packed_shape p \<equiv> (p_bits p, p_len p, p_capacity p)"

interpretation packed: small_array packed_wf packed_values packed_fits packed_shape packed_get packed_set
proof (unfold_locales, goal_cases)
  case (1 p i)
  then show ?case by (simp add: packed_get_values)
next
  case (2 p i v)
  then have "i < p_len p" by simp
  obtain p' where "packed_set p i v = Inr (p', packed_values p ! i)" "packed_wf p'"
    "packed_values p' = (packed_values p)[i := v]" "packed_shape p' = packed_shape p"
    by (rule packed_set_ok [OF 2(1) \<open>i < p_len p\<close> 2(3)]) simp
  then show ?case by blast
qed simp

section \<open>Properties\<close>

text \<open>
  C19: packed storage is an array of its values. Reading returns the value at every index below
  the length and nothing beyond; a write succeeds exactly for a valid index and a value that
  fits the width, returns the previous value, changes that value alone and keeps the storage
  well-formed, padding included; every other write is rejected with its error.
\<close>

theorem packed_array_refinement:
  assumes "packed_wf p"
  shows "packed_get p i = (if i < p_len p then Some (packed_values p ! i) else None) \<and>
    (p_len p \<le> i \<longrightarrow> packed_set p i v = Inl IndexOutOfBounds) \<and>
    (i < p_len p \<and> 2 ^ p_bits p \<le> unat v \<longrightarrow> packed_set p i v = Inl (ValueOutOfRange v)) \<and>
    (i < p_len p \<and> unat v < 2 ^ p_bits p \<longrightarrow>
      (\<exists>p'. packed_set p i v = Inr (p', packed_values p ! i) \<and> packed_wf p' \<and>
         packed_values p' = (packed_values p)[i := v] \<and> p_bits p' = p_bits p \<and> p_len p' = p_len p))"
  using packed.get_law [OF assms, of i] packed.set_law [OF assms, of i v] packed_set_error [OF assms, of i v] by auto

theorem packed_array_refinement_witness:
  "\<exists>p'. packed_set \<lparr>p_bits = 5, p_len = 14, p_words = [31, 7], p_capacity = 2\<rparr> 12 9 = Inr (p', 7) \<and> packed_wf p'"
proof -
  let ?p = "\<lparr>p_bits = 5, p_len = 14, p_words = [31, 7], p_capacity = 2\<rparr>"
  have wf: "packed_wf ?p"
    by (simp add: packed_wf_def packed_word_count_def MAX_LEN_def div_ceil_def word_entries_def Let_def)
  have v: "packed_values ?p ! 12 = 7"
    by (simp add: packed_values_def cell_def packed_mask_def)
  show ?thesis
    using conjunct2 [OF conjunct2 [OF conjunct2 [OF packed_array_refinement [OF wf, of 12 9]]]] v by auto
qed

text \<open>
  the words are a canonical form. Two well-formed storages of the same width and length
  with equal values have the same words, so equal contents are equal on the wire, and building
  the storage from those words passes every check and gives it back.
\<close>

theorem packed_words_canonical:
  assumes "packed_wf p" "packed_wf q" "p_bits p = p_bits q" "packed_values p = packed_values q"
  shows "p_words p = p_words q \<and> from_words (p_bits p) (p_len p) (p_words q) (p_capacity p) = Inr p"
proof -
  have "p_len p = p_len q" using assms(4) by (metis length_packed_values)
  then have w: "p_words p = p_words q" using packed_canonical [OF assms(1-3) _ assms(4)] by simp
  then show ?thesis using assms(1) by (simp add: from_words_def packed_wf_def) 
qed

theorem packed_words_canonical_witness:
  "from_words 5 14 [31, 7] 2 = Inr \<lparr>p_bits = 5, p_len = 14, p_words = [31, 7], p_capacity = 2\<rparr>"
proof -
  let ?p = "\<lparr>p_bits = 5, p_len = 14, p_words = [31, 7], p_capacity = 2\<rparr>"
  have wf: "packed_wf ?p"
    by (simp add: packed_wf_def packed_word_count_def MAX_LEN_def div_ceil_def word_entries_def Let_def)
  show ?thesis using packed_words_canonical [OF wf wf] by simp
qed

end
