(* ===== verification/Palette.thy ===== *)
theory Palette
  imports PackedStorage
begin

text \<open>
  The fixed open-addressed table \<open>PaletteScratch\<close> of \<^verbatim>\<open>src/world/section.rs\<close>: 256 identifiers in
  order of first use, found through 512 slots by linear probing. A probe visits each of the 512
  slots at most once before it repeats itself, so the loops carry a count of 512 and running out
  of it means that the source's loop does not end.
\<close>

record PaletteScratch =
  ids :: "u32 list"
  slots :: "u16 list"
  scratch_len :: nat

definition scratch_new :: PaletteScratch where
  "scratch_new = \<lparr>ids = replicate 256 0, slots = replicate 512 0, scratch_len = 0\<rparr>"

definition scratch_slot :: "u32 \<Rightarrow> nat" where
  "scratch_slot v = unat (drop_bit 23 (v * 0x9e3779b9))"

text \<open>\<open>(slot + 1) & 511\<close>.\<close>

definition next_slot :: "nat \<Rightarrow> nat" where
  "next_slot slot = (slot + 1) mod 512"

fun find_loop :: "nat \<Rightarrow> PaletteScratch \<Rightarrow> u32 \<Rightarrow> nat \<Rightarrow> section_error + nat option" where
  "find_loop 0 s v slot = Inl NeverReturns"
| "find_loop (Suc n) s v slot =
     (let entry = slots s ! slot in
      if entry = 0 then Inr None
      else let index = unat (entry - 1) in
        if index \<ge> 256 then Inl Panics
        else if ids s ! index = v then Inr (Some index)
        else find_loop n s v (next_slot slot))"

definition scratch_find :: "PaletteScratch \<Rightarrow> u32 \<Rightarrow> section_error + nat option" where
  "scratch_find s v = find_loop 512 s v (scratch_slot v)"

fun free_loop :: "nat \<Rightarrow> PaletteScratch \<Rightarrow> nat \<Rightarrow> section_error + nat" where
  "free_loop 0 s slot = Inl NeverReturns"
| "free_loop (Suc n) s slot = (if slots s ! slot \<noteq> 0 then free_loop n s (next_slot slot) else Inr slot)"

definition scratch_insert :: "PaletteScratch \<Rightarrow> u32 \<Rightarrow> section_error + PaletteScratch" where
  "scratch_insert s v =
     (if scratch_len s > 256 then Inr s
      else
        bind_r (scratch_find s v) (\<lambda>found.
        if found \<noteq> None then Inr s
        else if scratch_len s = 256 then Inr (s\<lparr>scratch_len := 257\<rparr>)
        else
          let index = scratch_len s; s = s\<lparr>ids := (ids s)[index := v], scratch_len := index + 1\<rparr>
          in bind_r (free_loop 512 s (scratch_slot v)) (\<lambda>slot.
             Inr (s\<lparr>slots := (slots s)[slot := of_nat (index + 1)]\<rparr>))))"

fun insert_ids :: "PaletteScratch \<Rightarrow> u32 list \<Rightarrow> section_error + PaletteScratch" where
  "insert_ids s [] = Inr s"
| "insert_ids s (v # vs) = bind_r (scratch_insert s v) (\<lambda>s. insert_ids s vs)"

section \<open>Specification: distinct identifiers in order of first use\<close>

definition add_first_use :: "u32 list \<Rightarrow> u32 \<Rightarrow> u32 list" where
  "add_first_use ps v = (if v \<in> set ps then ps else ps @ [v])"

definition first_uses :: "u32 list \<Rightarrow> u32 list" where
  "first_uses vs = foldl add_first_use [] vs"

definition slot_at :: "PaletteScratch \<Rightarrow> nat \<Rightarrow> u16" where
  "slot_at s i = slots s ! (i mod 512)"

text \<open>
  \<open>scratch_inv s ps\<close>: the table holds exactly the identifiers \<open>ps\<close>, in order. The slot of an
  identifier is reached from its hash through occupied slots only, and at most as many slots are
  occupied as there are identifiers.
\<close>

definition scratch_inv :: "PaletteScratch \<Rightarrow> u32 list \<Rightarrow> bool" where
  "scratch_inv s ps \<longleftrightarrow>
     length (ids s) = 256 \<and> length (slots s) = 512 \<and> scratch_len s = length ps \<and> length ps \<le> 256 \<and>
     distinct ps \<and> take (length ps) (ids s) = ps \<and>
     (\<forall>i < 512. unat (slots s ! i) \<le> length ps) \<and>
     card {i. i < 512 \<and> slots s ! i \<noteq> 0} \<le> length ps \<and>
     (\<forall>k < length ps. \<exists>j. slot_at s (scratch_slot (ps ! k) + j) = of_nat (k + 1) \<and>
        (\<forall>i < j. slot_at s (scratch_slot (ps ! k) + i) \<noteq> 0))"

lemma scratch_slot_less: "scratch_slot v < 512"
  using unat_drop_bit_less [of "v * 0x9e3779b9" 23 9] unat_less_power [of "v * 0x9e3779b9"]
  by (simp add: scratch_slot_def)

lemma next_slot_mod: "next_slot (h mod 512) = Suc h mod 512"
  by (simp add: next_slot_def mod_Suc_eq)

lemma inv_new: "scratch_inv scratch_new []"
  by (simp add: scratch_inv_def scratch_new_def)

text \<open>A free slot exists within 512 steps of any start.\<close>

lemma free_slot_exists:
  assumes "scratch_inv s ps"
  obtains m where "m < 512" "slot_at s (h + m) = 0" "\<forall>i < m. slot_at s (h + i) \<noteq> 0"
proof -
  have "\<exists>z < 512. slots s ! z = 0"
  proof (rule ccontr)
    assume "\<not> ?thesis"
    then have "{i. i < 512 \<and> slots s ! i \<noteq> 0} = {..<512}" by auto
    then have "512 \<le> length ps" using assms by (simp add: scratch_inv_def)
    then show False using assms by (simp add: scratch_inv_def)
  qed
  then obtain z where z: "z < 512" "slots s ! z = 0" by blast
  define m where "m = (z + (512 - h mod 512)) mod 512"
  have "(h + m) mod 512 = (h mod 512 + (z + (512 - h mod 512))) mod 512"
    unfolding m_def by (metis mod_add_left_eq mod_add_right_eq)
  also have "h mod 512 + (z + (512 - h mod 512)) = z + 512"
    using mod_less_divisor [of 512 h] by linarith
  finally have m: "m < 512 \<and> slot_at s (h + m) = 0" using z by (simp add: slot_at_def m_def)
  define l where "l = (LEAST m. m < 512 \<and> slot_at s (h + m) = 0)"
  have "l < 512 \<and> slot_at s (h + l) = 0" unfolding l_def using m by (rule LeastI)
  moreover have "slot_at s (h + i) \<noteq> 0" if "i < l" for i
    using that calculation not_less_Least [of i "\<lambda>m. m < 512 \<and> slot_at s (h + m) = 0"]
    by (auto simp: l_def)
  ultimately show thesis using that by blast
qed

text \<open>What a probe makes of a run of occupied slots that ends in a free one.\<close>

lemma find_loop_walk:
  assumes "\<forall>i < m. slot_at s (h + i) \<noteq> 0" "slot_at s (h + m) = 0" "m < n"
    "\<forall>i < m. unat (slot_at s (h + i)) \<le> 256"
  shows "(\<exists>i < m. find_loop n s v (h mod 512) = Inr (Some (unat (slot_at s (h + i) - 1))) \<and>
      ids s ! unat (slot_at s (h + i) - 1) = v) \<or>
    find_loop n s v (h mod 512) = Inr None \<and> (\<forall>i < m. ids s ! unat (slot_at s (h + i) - 1) \<noteq> v)"
  using assms
proof (induction n arbitrary: h m)
  case (Suc n)
  show ?case
  proof (cases m)
    case 0
    then show ?thesis using Suc.prems(2) by (simp add: slot_at_def)
  next
    case (Suc m')
    let ?e = "slot_at s h"
    have e: "?e \<noteq> 0" "unat ?e \<le> 256" using Suc.prems(1,4) Suc by auto
    have idx: "unat (?e - 1) < 256" using e by (metis One_nat_def Suc_le_lessD Suc_pred' unat_gt_0 unat_minus_one)
    have step: "find_loop (Suc n) s v (h mod 512) =
        (if ids s ! unat (?e - 1) = v then Inr (Some (unat (?e - 1))) else find_loop n s v (Suc h mod 512))"
      using e idx by (simp add: slot_at_def next_slot_mod)
    have "\<forall>i < m'. slot_at s (Suc h + i) \<noteq> 0" "slot_at s (Suc h + m') = 0" "m' < n"
      "\<forall>i < m'. unat (slot_at s (Suc h + i)) \<le> 256"
      using Suc.prems Suc by (auto simp: All_less_Suc2)
    note IH = Suc.IH [OF this]
    show ?thesis
    proof (cases "ids s ! unat (?e - 1) = v")
      case True
      then show ?thesis using step Suc by auto
    next
      case False
      then show ?thesis using step IH unfolding Suc by (simp add: All_less_Suc2 Ex_less_Suc2)
    qed
  qed
qed simp

lemma free_loop_walk:
  assumes "\<forall>i < m. slot_at s (h + i) \<noteq> 0" "slot_at s (h + m) = 0" "m < n"
  shows "free_loop n s (h mod 512) = Inr ((h + m) mod 512)"
  using assms
proof (induction n arbitrary: h m)
  case (Suc n)
  show ?case
  proof (cases m)
    case 0
    then show ?thesis using Suc.prems by (simp add: slot_at_def)
  next
    case (Suc m')
    have "free_loop n s (Suc h mod 512) = Inr ((Suc h + m') mod 512)"
      using Suc.prems Suc by (intro Suc.IH) (auto simp: All_less_Suc2)
    then show ?thesis using Suc.prems(1) Suc by (auto simp: All_less_Suc2 slot_at_def next_slot_mod)
  qed
qed simp

definition index_of :: "u32 list \<Rightarrow> u32 \<Rightarrow> nat" where
  "index_of ps v = length (takeWhile (\<lambda>x. x \<noteq> v) ps)"

lemma index_of_found: "v \<in> set ps \<Longrightarrow> index_of ps v < length ps \<and> ps ! index_of ps v = v"
  by (induction ps) (auto simp: index_of_def)

lemma unat_of_nat_u16: "n \<le> 256 \<Longrightarrow> unat (of_nat n :: u16) = n"
  by (simp add: unat_of_nat)

lemma slot_bound: "scratch_inv s ps \<Longrightarrow> unat (slot_at s i) \<le> length ps \<and> length ps \<le> 256"
  by (simp add: scratch_inv_def slot_at_def)

lemma inv_id:
  assumes "scratch_inv s ps" "slot_at s i \<noteq> 0"
  shows "unat (slot_at s i - 1) < length ps \<and> ids s ! unat (slot_at s i - 1) = ps ! unat (slot_at s i - 1)"
proof -
  have "unat (slot_at s i - 1) < length ps"
    using assms slot_bound [OF assms(1), of i]
    by (metis One_nat_def Suc_le_lessD Suc_pred' unat_gt_0 unat_minus_one)
  moreover have "take (length ps) (ids s) = ps" using assms(1) by (simp add: scratch_inv_def)
  ultimately show ?thesis by (metis nth_take)
qed

lemma scratch_find_spec:
  assumes inv: "scratch_inv s ps"
  shows "scratch_find s v = Inr (if v \<in> set ps then Some (index_of ps v) else None)"
proof -
  let ?h = "scratch_slot v"
  obtain m where m: "m < 512" "slot_at s (?h + m) = 0" "\<forall>i < m. slot_at s (?h + i) \<noteq> 0"
    using free_slot_exists [OF inv] .
  have bound: "\<forall>i < m. unat (slot_at s (?h + i)) \<le> 256" using slot_bound [OF inv] le_trans by blast
  have find: "scratch_find s v = find_loop 512 s v (?h mod 512)"
    by (simp add: scratch_find_def scratch_slot_less)
  note walk = find_loop_walk [OF m(3,2,1) bound, of v, folded find]
  show ?thesis
  proof (cases "v \<in> set ps")
    case True
    then obtain k where k: "k < length ps" "ps ! k = v" by (auto simp: in_set_conv_nth)
    obtain j where j: "slot_at s (?h + j) = of_nat (k + 1)" "\<forall>i < j. slot_at s (?h + i) \<noteq> 0"
      using inv k by (auto simp: scratch_inv_def)
    have k256: "k + 1 \<le> 256" using k inv by (simp add: scratch_inv_def)
    then have uk: "unat (of_nat (k + 1) :: u16) = k + 1" by (rule unat_of_nat_u16)
    then have "slot_at s (?h + j) \<noteq> 0" using j(1) by (metis Suc_eq_plus1 nat.distinct(1) unat_0)
    then have "j < m" using m(2) j(2) by (metis linorder_neqE_nat)
    have "(of_nat (k + 1) :: u16) - 1 = of_nat k" by simp
    then have "ids s ! unat (slot_at s (?h + j) - 1) = v"
      using inv_id [OF inv \<open>slot_at s (?h + j) \<noteq> 0\<close>] j(1) k k256 by (simp add: unat_of_nat)
    then obtain i where i: "i < m" "scratch_find s v = Inr (Some (unat (slot_at s (?h + i) - 1)))"
      "ids s ! unat (slot_at s (?h + i) - 1) = v" using walk \<open>j < m\<close> by blast
    let ?k = "unat (slot_at s (?h + i) - 1)"
    have "?k < length ps" "ps ! ?k = v" using inv_id [OF inv, of "?h + i"] i m(3) by auto
    moreover have "distinct ps" using inv by (simp add: scratch_inv_def)
    ultimately have "?k = index_of ps v" using index_of_found [OF True] by (metis nth_eq_iff_index_eq)
    then show ?thesis using i True by simp
  next
    case False
    have "ids s ! unat (slot_at s (?h + i) - 1) \<noteq> v" if "i < m" for i
      using inv_id [OF inv, of "?h + i"] m(3) that False by (metis nth_mem)
    then show ?thesis using walk False by auto
  qed
qed

text \<open>Storing a new identifier at the free slot of its probe.\<close>

lemma inv_store:
  assumes inv: "scratch_inv s ps" and v: "v \<notin> set ps" "length ps < 256"
    and m: "m < 512" "slot_at s (scratch_slot v + m) = 0" "\<forall>i < m. slot_at s (scratch_slot v + i) \<noteq> 0"
  shows "scratch_inv (s\<lparr>ids := (ids s)[length ps := v], scratch_len := length ps + 1,
      slots := (slots s)[(scratch_slot v + m) mod 512 := of_nat (length ps + 1)]\<rparr>) (ps @ [v])"
    (is "scratch_inv ?s _")
proof -
  let ?z = "(scratch_slot v + m) mod 512" and ?n = "length ps"
  have len: "length (ids s) = 256" "length (slots s) = 512" using inv by (simp_all add: scratch_inv_def)
  have un: "unat (of_nat (?n + 1) :: u16) = ?n + 1" using v by (intro unat_of_nat_u16) simp
  have at: "slot_at ?s i = (if i mod 512 = ?z then of_nat (?n + 1) else slot_at s i)" for i
    by (simp add: slot_at_def len nth_list_update)
  have nz: "slot_at s i \<noteq> 0 \<Longrightarrow> slot_at ?s i = slot_at s i" "slot_at s i \<noteq> 0 \<Longrightarrow> slot_at ?s i \<noteq> 0" for i
    using at [of i] m(2) by (auto simp: slot_at_def)
  have "{i. i < 512 \<and> slots ?s ! i \<noteq> 0} \<subseteq> insert ?z {i. i < 512 \<and> slots s ! i \<noteq> 0}"
    using len by (auto simp: nth_list_update split: if_splits)
  then have "card {i. i < 512 \<and> slots ?s ! i \<noteq> 0} \<le> card (insert ?z {i. i < 512 \<and> slots s ! i \<noteq> 0})"
    by (rule card_mono [rotated]) simp
  also have "\<dots> \<le> Suc (card {i. i < 512 \<and> slots s ! i \<noteq> 0})" by (simp add: card_insert_if)
  also have "\<dots> \<le> Suc ?n" using inv by (simp add: scratch_inv_def)
  finally have card: "card {i. i < 512 \<and> slots ?s ! i \<noteq> 0} \<le> Suc ?n" .
  have bound: "\<forall>i < 512. unat (slots ?s ! i) \<le> ?n + 1"
    using inv un len by (auto simp: scratch_inv_def nth_list_update le_SucI)
  have take: "take (?n + 1) (ids ?s) = ps @ [v]"
    using inv v len by (simp add: scratch_inv_def take_Suc_conv_app_nth)
  have old: "\<exists>j. slot_at ?s (scratch_slot (ps ! k) + j) = of_nat (k + 1) \<and>
      (\<forall>i < j. slot_at ?s (scratch_slot (ps ! k) + i) \<noteq> 0)" if k: "k < ?n" for k
  proof -
    obtain j where j: "slot_at s (scratch_slot (ps ! k) + j) = of_nat (k + 1)"
      "\<forall>i < j. slot_at s (scratch_slot (ps ! k) + i) \<noteq> 0" using inv k by (auto simp: scratch_inv_def)
    have "unat (of_nat (k + 1) :: u16) = k + 1" using k v by (intro unat_of_nat_u16) simp
    then have "slot_at s (scratch_slot (ps ! k) + j) \<noteq> 0" using j(1) by (metis Suc_eq_plus1 nat.distinct(1) unat_0)
    then show ?thesis using j nz by metis
  qed
  have new: "slot_at ?s (scratch_slot v + m) = of_nat (?n + 1) \<and> (\<forall>i < m. slot_at ?s (scratch_slot v + i) \<noteq> 0)"
    using at [of "scratch_slot v + m"] m(3) nz by auto
  show ?thesis
    unfolding scratch_inv_def
    using inv v len card bound take old new by (auto simp: scratch_inv_def nth_append less_Suc_eq)
qed

text \<open>Up to 256 identifiers the table holds them all; a 257th only sets the length to 257.\<close>

definition scratch_holds :: "PaletteScratch \<Rightarrow> u32 list \<Rightarrow> bool" where
  "scratch_holds s ps \<longleftrightarrow> (if length ps \<le> 256 then scratch_inv s ps else scratch_len s = 257)"

lemma scratch_holds_len: "scratch_holds s ps \<Longrightarrow> scratch_len s = min 257 (length ps)"
  by (auto simp: scratch_holds_def scratch_inv_def split: if_splits)

lemma scratch_insert_holds:
  assumes "scratch_holds s ps"
  shows "\<exists>s'. scratch_insert s v = Inr s' \<and> scratch_holds s' (add_first_use ps v)"
proof (cases "length ps \<le> 256")
  case True
  then have inv: "scratch_inv s ps" using assms by (simp add: scratch_holds_def)
  then have len: "scratch_len s = length ps" by (simp add: scratch_inv_def)
  note find = scratch_find_spec [OF inv, of v]
  show ?thesis
  proof (cases "v \<in> set ps \<or> length ps = 256")
    case True
    then show ?thesis
      using assms find len by (auto simp: scratch_insert_def add_first_use_def scratch_holds_def)
  next
    case False
    then have n: "v \<notin> set ps" "length ps < 256" using \<open>length ps \<le> 256\<close> by auto
    obtain m where m: "m < 512" "slot_at s (scratch_slot v + m) = 0" "\<forall>i < m. slot_at s (scratch_slot v + i) \<noteq> 0"
      using free_slot_exists [OF inv] .
    let ?s = "s\<lparr>ids := (ids s)[length ps := v], scratch_len := length ps + 1\<rparr>"
    have "free_loop 512 ?s (scratch_slot v mod 512) = Inr ((scratch_slot v + m) mod 512)"
      using m by (intro free_loop_walk) (simp_all add: slot_at_def)
    then have "scratch_insert s v = Inr (?s\<lparr>slots := (slots s)[(scratch_slot v + m) mod 512 := of_nat (length ps + 1)]\<rparr>)"
      using n len find by (simp add: scratch_insert_def Let_def scratch_slot_less)
    then show ?thesis
      using inv_store [OF inv n m] n by (simp add: scratch_holds_def add_first_use_def)
  qed
next
  case False
  then show ?thesis using assms by (simp add: scratch_holds_def scratch_insert_def add_first_use_def)
qed

lemma insert_ids_holds:
  "scratch_holds s ps \<Longrightarrow> \<exists>s'. insert_ids s vs = Inr s' \<and> scratch_holds s' (foldl add_first_use ps vs)"
proof (induction vs arbitrary: s ps)
  case (Cons v vs)
  obtain s1 where "scratch_insert s v = Inr s1" "scratch_holds s1 (add_first_use ps v)"
    using scratch_insert_holds [OF Cons.prems] by blast
  then show ?case using Cons.IH by simp
qed simp

lemma insert_ids_new:
  obtains s where "insert_ids scratch_new vs = Inr s" "scratch_holds s (first_uses vs)"
  using insert_ids_holds [of scratch_new "[]" vs] inv_new by (auto simp: scratch_holds_def first_uses_def)

lemma set_foldl_first_use: "set (foldl add_first_use ps vs) = set ps \<union> set vs"
  by (induction vs arbitrary: ps) (auto simp: add_first_use_def)

lemma set_first_uses [simp]: "set (first_uses vs) = set vs"
  by (simp add: first_uses_def set_foldl_first_use)

lemma distinct_foldl_first_use: "distinct ps \<Longrightarrow> distinct (foldl add_first_use ps vs)"
  by (induction vs arbitrary: ps) (auto simp: add_first_use_def)

lemma distinct_first_uses [simp]: "distinct (first_uses vs)"
  by (simp add: first_uses_def distinct_foldl_first_use)

lemma length_first_uses_pos: "vs \<noteq> [] \<Longrightarrow> 0 < length (first_uses vs)"
  by (metis length_greater_0_conv set_first_uses set_empty)

section \<open>Properties\<close>

text \<open>
  the hash table of the palette is the list of distinct identifiers in order of first use.
  Inserting any input terminates without an index error; with at most 256 distinct identifiers
  the stored prefix is exactly that list and a lookup returns the position of the identifier, or
  nothing for an identifier that does not occur; with more the length is 257.
\<close>

theorem palette_scratch_first_use:
  "\<exists>s. insert_ids scratch_new vs = Inr s \<and> scratch_len s = min 257 (length (first_uses vs)) \<and>
     set (first_uses vs) = set vs \<and> distinct (first_uses vs) \<and>
     (length (first_uses vs) \<le> 256 \<longrightarrow>
       take (scratch_len s) (ids s) = first_uses vs \<and>
       (\<forall>v. scratch_find s v = Inr (if v \<in> set vs then Some (index_of (first_uses vs) v) else None)))"
proof -
  obtain s where s: "insert_ids scratch_new vs = Inr s" "scratch_holds s (first_uses vs)"
    by (rule insert_ids_new)
  then show ?thesis
    using scratch_holds_len [OF s(2)] scratch_find_spec [of s "first_uses vs"]
    by (auto simp: scratch_holds_def scratch_inv_def)
qed

theorem palette_scratch_first_use_witness:
  "\<exists>s. insert_ids scratch_new [7, 3, 7] = Inr s \<and> take (scratch_len s) (ids s) = [7, 3] \<and> scratch_find s 3 = Inr (Some 1)"
proof -
  have f: "first_uses [7, 3, 7] = [7, 3]" by (simp add: first_uses_def add_first_use_def)
  show ?thesis using palette_scratch_first_use [of "[7, 3, 7]"] unfolding f by (auto simp: index_of_def)
qed

end
