(* ===== verification/SectionData.thy ===== *)
theory SectionData
  imports Palette Wire
begin

text \<open>
  The paletted containers and section payloads of \<^verbatim>\<open>src/world/section.rs\<close>: registries,
  container kinds, the three storage forms with their mutation and growth, the network codec, and
  the fixed-array encoder \<open>prepare_section\<close>. A vector that reports its capacity carries it beside
  its elements; an output vector is the pair of its bytes and its capacity.
\<close>

section \<open>Registries and kinds\<close>

definition BLOCKS_PER_SECTION :: nat where "BLOCKS_PER_SECTION = 4096"

definition BIOMES_PER_SECTION :: nat where "BIOMES_PER_SECTION = 64"

definition MAX_SECTION_NETWORK_BYTES :: nat where
  "MAX_SECTION_NETWORK_BYTES = 4 + 1 + 2048 * 8 + 1 + 32 * 8"

record Registry =
  state_count :: u32

definition registry_new :: "u32 \<Rightarrow> section_error + Registry" where
  "registry_new n = (if n = 0 \<or> n > push_bit 31 1 then Inl (InvalidRegistrySize n) else Inr \<lparr>state_count = n\<rparr>)"

definition registry_bits :: "Registry \<Rightarrow> nat" where
  "registry_bits r = 32 - leading_zeros (state_count r - 1)"

definition registry_validate :: "Registry \<Rightarrow> u32 \<Rightarrow> section_error + unit" where
  "registry_validate r v = ensure_r (v < state_count r) (ValueOutOfRange v)"

datatype ContainerKind = Blocks | Biomes

fun kind_len :: "ContainerKind \<Rightarrow> nat" where
  "kind_len Blocks = BLOCKS_PER_SECTION"
| "kind_len Biomes = BIOMES_PER_SECTION"

definition kind_index :: "ContainerKind \<Rightarrow> nat \<Rightarrow> nat \<Rightarrow> nat \<Rightarrow> section_error + nat" where
  "kind_index kind x y z =
     (let side = (case kind of Blocks \<Rightarrow> 16 | Biomes \<Rightarrow> 4) in
      if x \<ge> side \<or> y \<ge> side \<or> z \<ge> side then Inl IndexOutOfBounds
      else Inr (x + side * (z + side * y)))"

fun min_bits :: "ContainerKind \<Rightarrow> nat" where
  "min_bits Blocks = 4"
| "min_bits Biomes = 1"

fun max_bits :: "ContainerKind \<Rightarrow> nat" where
  "max_bits Blocks = 8"
| "max_bits Biomes = 3"

definition normalized_bits :: "ContainerKind \<Rightarrow> nat \<Rightarrow> Registry \<Rightarrow> nat" where
  "normalized_bits kind bits r =
     (if bits = 0 then 0 else if bits \<le> max_bits kind then max bits (min_bits kind) else registry_bits r)"

section \<open>Containers\<close>

text \<open>An indirect palette carries the capacity of its vector.\<close>

datatype Storage =
    Single u32
  | Indirect "u32 list" nat Packed
  | Direct Packed

record PalettedContainer =
  c_kind :: ContainerKind
  c_registry :: Registry
  c_storage :: Storage

definition container_single :: "ContainerKind \<Rightarrow> Registry \<Rightarrow> u32 \<Rightarrow> section_error + PalettedContainer" where
  "container_single kind r v =
     bind_r (registry_validate r v) (\<lambda>_. Inr \<lparr>c_kind = kind, c_registry = r, c_storage = Single v\<rparr>)"

definition section_word_count :: "nat \<Rightarrow> nat \<Rightarrow> section_error + nat" where
  "section_word_count bits len = (if bits = 0 then Inl Panics else Inr (div_ceil len (64 div bits)))"

fun scan_dense :: "Registry \<Rightarrow> PaletteScratch \<Rightarrow> u32 list \<Rightarrow> section_error + PaletteScratch" where
  "scan_dense r s [] = Inr s"
| "scan_dense r s (v # vs) =
     bind_r (registry_validate r v) (\<lambda>_. bind_r (scratch_insert s v) (\<lambda>s. scan_dense r s vs))"

text \<open>\<open>palette.find(id).unwrap()\<close>.\<close>

definition find_unwrap :: "PaletteScratch \<Rightarrow> u32 \<Rightarrow> section_error + nat" where
  "find_unwrap s v = bind_r (scratch_find s v) (\<lambda>found. ok_or found Panics)"

fun fill_keys :: "PaletteScratch \<Rightarrow> nat \<Rightarrow> u32 list \<Rightarrow> Packed \<Rightarrow> section_error + Packed" where
  "fill_keys s i [] p = Inr p"
| "fill_keys s i (v # vs) p =
     bind_r (find_unwrap s v) (\<lambda>k.
     bind_r (packed_set p i (of_nat k)) (\<lambda>(p, _). fill_keys s (Suc i) vs p))"

definition needed_bits :: "nat \<Rightarrow> nat" where
  "needed_bits n = (if n = 1 then 0 else bit_len (n - 1))"

text \<open>The packed storage of \<open>build\<close> once the width is known, and \<open>build\<close> itself.\<close>

definition build_storage ::
  "alloc_env \<Rightarrow> ContainerKind \<Rightarrow> Registry \<Rightarrow> u32 list \<Rightarrow> PaletteScratch \<Rightarrow> nat \<Rightarrow> nat \<Rightarrow> section_error + Storage" where
  "build_storage env kind r input palette bits allocation_limit =
     (let direct = bits > max_bits kind;
          bits = normalized_bits kind bits r;
          palette_bytes = (if direct then 0 else 2 ^ bits * 4)
      in
      bind_r (map_r (\<lambda>n. n * 8) (section_word_count bits (kind_len kind))) (\<lambda>words_bytes.
      if palette_bytes + words_bytes > allocation_limit then Inl AllocationBudgetExceeded
      else
        bind_r (packed_new env bits (kind_len kind) words_bytes) (\<lambda>vals.
        if direct then
          bind_r (fill_from packed_set 0 input vals) (\<lambda>vals. Inr (Direct vals))
        else
          bind_r (ok_or (try_reserve_exact env 4 (2 ^ bits)) SectionAllocationFailed) (\<lambda>capacity.
          if capacity * 4 + packed_heap_bytes vals > allocation_limit then Inl AllocationBudgetExceeded
          else if scratch_len palette > 256 then Inl Panics
          else
            bind_r (fill_keys palette 0 input vals) (\<lambda>vals.
            Inr (Indirect (take (scratch_len palette) (ids palette)) capacity vals))))))"

definition container_build ::
  "alloc_env \<Rightarrow> ContainerKind \<Rightarrow> Registry \<Rightarrow> u32 list \<Rightarrow> nat option \<Rightarrow> nat \<Rightarrow> section_error + PalettedContainer" where
  "container_build env kind r input forced allocation_limit =
     (if length input \<noteq> kind_len kind then Inl (InvalidLength (kind_len kind) (length input))
      else
        bind_r (scan_dense r scratch_new input) (\<lambda>palette.
        let bits = (case forced of Some b \<Rightarrow> b | None \<Rightarrow> needed_bits (scratch_len palette)) in
        if bits = 0 then container_single kind r (input ! 0)
        else
          bind_r (build_storage env kind r input palette bits allocation_limit) (\<lambda>storage.
          Inr \<lparr>c_kind = kind, c_registry = r, c_storage = storage\<rparr>)))"

definition from_dense ::
  "alloc_env \<Rightarrow> ContainerKind \<Rightarrow> Registry \<Rightarrow> u32 list \<Rightarrow> nat \<Rightarrow> section_error + PalettedContainer" where
  "from_dense env kind r input allocation_limit = container_build env kind r input None allocation_limit"

definition container_bits :: "PalettedContainer \<Rightarrow> nat" where
  "container_bits c =
     (case c_storage c of Single _ \<Rightarrow> 0 | Indirect _ _ vals \<Rightarrow> p_bits vals | Direct vals \<Rightarrow> p_bits vals)"

definition heap_bytes :: "PalettedContainer \<Rightarrow> nat" where
  "heap_bytes c =
     (case c_storage c of
        Single _ \<Rightarrow> 0
      | Indirect _ capacity vals \<Rightarrow> capacity * 4 + packed_heap_bytes vals
      | Direct vals \<Rightarrow> packed_heap_bytes vals)"

definition container_get :: "PalettedContainer \<Rightarrow> nat \<Rightarrow> section_error + u32" where
  "container_get c index =
     (if index \<ge> kind_len (c_kind c) then Inl IndexOutOfBounds
      else case c_storage c of
        Single v \<Rightarrow> Inr v
      | Indirect palette _ vals \<Rightarrow>
          bind_r (ok_or (packed_get vals index) IndexOutOfBounds) (\<lambda>key.
          if unat key < length palette then Inr (palette ! unat key) else Inl (InvalidPaletteIndex key))
      | Direct vals \<Rightarrow> ok_or (packed_get vals index) IndexOutOfBounds)"

text \<open>The loop that copies all values into a dense array.\<close>

fun collect_gets :: "PalettedContainer \<Rightarrow> nat list \<Rightarrow> section_error + u32 list" where
  "collect_gets c [] = Inr []"
| "collect_gets c (i # is) =
     bind_r (container_get c i) (\<lambda>v. bind_r (collect_gets c is) (\<lambda>vs. Inr (v # vs)))"

definition read_dense :: "PalettedContainer \<Rightarrow> section_error + u32 list" where
  "read_dense c = collect_gets c [0..<kind_len (c_kind c)]"

text \<open>
  The mutations that do not grow the storage: \<open>None\<close> when the palette has no room. The key of an
  existing entry is the first position that holds the value.
\<close>

definition set_in_place :: "PalettedContainer \<Rightarrow> nat \<Rightarrow> u32 \<Rightarrow> (section_error + PalettedContainer) option" where
  "set_in_place c index v =
     (case c_storage c of
        Single current \<Rightarrow> if current = v then Some (Inr c) else None
      | Indirect palette capacity vals \<Rightarrow>
          if v \<in> set palette then
            Some (map_r (\<lambda>(vals, _). c\<lparr>c_storage := Indirect palette capacity vals\<rparr>)
              (packed_set vals index (of_nat (index_of palette v))))
          else if length palette < 2 ^ p_bits vals then
            Some (map_r (\<lambda>(vals, _). c\<lparr>c_storage := Indirect (palette @ [v]) capacity vals\<rparr>)
              (packed_set vals index (of_nat (length palette))))
          else None
      | Direct vals \<Rightarrow> Some (map_r (\<lambda>(vals, _). c\<lparr>c_storage := Direct vals\<rparr>) (packed_set vals index v)))"

definition next_bits :: "PalettedContainer \<Rightarrow> nat" where
  "next_bits c = max (container_bits c + 1) (min_bits (c_kind c))"

text \<open>The replacement storage: the current contents, reindexed at the next width.\<close>

definition grow :: "alloc_env \<Rightarrow> PalettedContainer \<Rightarrow> nat \<Rightarrow> section_error + (PalettedContainer \<times> nat)" where
  "grow env c allocation_limit =
     bind_r (ok_or (checked_sub allocation_limit (heap_bytes c)) AllocationBudgetExceeded) (\<lambda>budget.
     bind_r (read_dense c) (\<lambda>dense.
     bind_r (container_build env (c_kind c) (c_registry c) dense (Some (next_bits c)) budget) (\<lambda>replacement.
     Inr (replacement, budget))))"

text \<open>The growth steps left before the storage is direct bound the recursion of \<open>set\<close>.\<close>

definition growth_left :: "PalettedContainer \<Rightarrow> nat" where
  "growth_left c = (case c_storage c of Single _ \<Rightarrow> 20 | Indirect _ _ vals \<Rightarrow> Suc (9 - p_bits vals) | Direct _ \<Rightarrow> 0)"

lemma packed_set_shape: "packed_set p i v = Inr (p', old) \<Longrightarrow> p_bits p' = p_bits p \<and> p_len p' = p_len p \<and> p_capacity p' = p_capacity p"
  by (auto simp: packed_set_def result_simps Let_def split: if_splits)

lemma fill_from_packed_shape:
  "fill_from packed_set i vs p = Inr p' \<Longrightarrow> p_bits p' = p_bits p \<and> p_len p' = p_len p \<and> p_capacity p' = p_capacity p"
  by (induction vs arbitrary: i p) (auto simp: result_simps dest!: packed_set_shape)

lemma fill_keys_shape:
  "fill_keys s i vs p = Inr p' \<Longrightarrow> p_bits p' = p_bits p \<and> p_len p' = p_len p \<and> p_capacity p' = p_capacity p"
  by (induction vs arbitrary: i p) (auto simp: result_simps dest!: packed_set_shape)

lemma packed_new_shape: "packed_new env bits len limit = Inr p \<Longrightarrow> p_bits p = bits"
  by (auto simp: packed_new_def result_simps split: if_splits)

lemma build_forced_storage:
  assumes "container_build env kind r input (Some b) limit = Inr c" "0 < b"
  shows "(\<exists>vals. c_storage c = Direct vals) \<or>
    b \<le> max_bits kind \<and> (\<exists>pal cap vals. c_storage c = Indirect pal cap vals \<and> p_bits vals = max b (min_bits kind))"
  using assms
  by (auto simp: container_build_def build_storage_def Let_def result_simps normalized_bits_def split: if_splits
      dest!: packed_new_shape fill_keys_shape)

lemma max_bits_le: "max_bits k \<le> 8"
  by (cases k) simp_all

lemma grow_decreases:
  assumes "grow env c limit = Inr (c', budget)" "set_in_place c index v = None"
  shows "growth_left c' < growth_left c"
proof -
  from assms(1) obtain dense where build: "container_build env (c_kind c) (c_registry c) dense (Some (next_bits c)) budget = Inr c'"
    by (auto simp: grow_def result_simps)
  have "0 < next_bits c" by (simp add: next_bits_def)
  note storage = build_forced_storage [OF build this]
  show ?thesis
  proof (cases "c_storage c")
    case (Single w)
    then show ?thesis using storage by (auto simp: growth_left_def)
  next
    case (Indirect pal cap vals)
    show ?thesis
      using storage Indirect max_bits_le [of "c_kind c"]
      by (auto simp: growth_left_def next_bits_def container_bits_def)
  next
    case (Direct vals)
    then show ?thesis using assms(2) by (simp add: set_in_place_def)
  qed
qed

function container_set ::
  "alloc_env \<Rightarrow> PalettedContainer \<Rightarrow> nat \<Rightarrow> u32 \<Rightarrow> nat \<Rightarrow> section_error + (PalettedContainer \<times> u32)" where
  "container_set env c index v allocation_limit =
     bind_r (registry_validate (c_registry c) v) (\<lambda>_.
     bind_r (container_get c index) (\<lambda>old.
     case set_in_place c index v of
       Some m \<Rightarrow> map_r (\<lambda>c. (c, old)) m
     | None \<Rightarrow>
         bind_r (grow env c allocation_limit) (\<lambda>(replacement, budget).
         bind_r (container_set env replacement index v budget) (\<lambda>(c, _). Inr (c, old)))))"
  by pat_completeness auto
termination
  by (relation "measure (\<lambda>(env, c, index, v, limit). growth_left c)") (auto dest: grow_decreases)

declare container_set.simps [simp del]

definition repack :: "alloc_env \<Rightarrow> PalettedContainer \<Rightarrow> nat \<Rightarrow> section_error + PalettedContainer" where
  "repack env c allocation_limit =
     bind_r (ok_or (checked_sub allocation_limit (heap_bytes c)) AllocationBudgetExceeded) (\<lambda>budget.
     bind_r (read_dense c) (\<lambda>dense.
     from_dense env (c_kind c) (c_registry c) dense budget))"

section \<open>Network form of a container\<close>

text \<open>
  A function that appends to an \<open>&mut Vec<u8>\<close> returns the contents of the vector next to its
  result, on errors and panics too: \<open>guard_out\<close> runs a check beside the vector, \<open>then_out\<close>
  goes on after an append.
\<close>

type_synonym write_result = "(section_error + unit) \<times> byte list"

definition guard_out :: "section_error + 'a \<Rightarrow> byte list \<Rightarrow> ('a \<Rightarrow> write_result) \<Rightarrow> write_result" where
  "guard_out m output f = (case m of Inl e \<Rightarrow> (Inl e, output) | Inr x \<Rightarrow> f x)"

definition then_out :: "write_result \<Rightarrow> (byte list \<Rightarrow> write_result) \<Rightarrow> write_result" where
  "then_out m f = (case m of (Inl e, output) \<Rightarrow> (Inl e, output) | (Inr _, output) \<Rightarrow> f output)"

lemma guard_out_simps [simp]:
  "guard_out (Inl e) output f = (Inl e, output)" "guard_out (Inr x) output f = f x"
  by (simp_all add: guard_out_def)

lemma then_out_simps [simp]:
  "then_out (Inl e, output) f = (Inl e, output)" "then_out (Inr u, output) f = f output"
  by (simp_all add: then_out_def)

lemma guard_out_cong [fundef_cong]:
  "m = m' \<Longrightarrow> output = output' \<Longrightarrow> (\<And>x. m' = Inr x \<Longrightarrow> f x = g x) \<Longrightarrow> guard_out m output f = guard_out m' output' g"
  by (cases m') simp_all

definition network_len :: "PalettedContainer \<Rightarrow> nat" where
  "network_len c =
     (case c_storage c of
        Single v \<Rightarrow> 1 + varint_len v
      | Indirect palette _ vals \<Rightarrow>
          1 + varint_len (of_nat (length palette)) + sum_list (map varint_len palette) + length (p_words vals) * 8
      | Direct vals \<Rightarrow> 1 + length (p_words vals) * 8)"

text \<open>Five bytes hold every VarInt, so the \<open>unwrap\<close> of the source cannot fail.\<close>

definition append_varint :: "byte list \<Rightarrow> u32 \<Rightarrow> byte list" where
  "append_varint output v =
     (case write_varint v (replicate 5 0) of Inl _ \<Rightarrow> output | Inr (bytes, n) \<Rightarrow> output @ take n bytes)"

definition append_words :: "byte list \<Rightarrow> u64 list \<Rightarrow> byte list" where
  "append_words output ws = foldl (\<lambda>out w. out @ to_be_bytes 8 w) output ws"

definition container_write :: "PalettedContainer \<Rightarrow> nat \<Rightarrow> byte list \<Rightarrow> write_result" where
  "container_write c capacity output =
     (if capacity - length output < network_len c then (Inl OutputCapacity, output)
      else
        let output = output @ [of_nat (container_bits c)] in
        (Inr (),
         case c_storage c of
           Single v \<Rightarrow> append_varint output v
         | Indirect palette _ vals \<Rightarrow>
             append_words (foldl append_varint (append_varint output (of_nat (length palette))) palette) (p_words vals)
         | Direct vals \<Rightarrow> append_words output (p_words vals)))"

definition section_take :: "nat \<Rightarrow> byte list \<Rightarrow> section_error + (byte list \<times> byte list)" where
  "section_take n input = (if n \<le> length input then Inr (take n input, drop n input) else Inl SectionTruncated)"

definition section_read_int :: "byte list \<Rightarrow> section_error + (u32 \<times> byte list)" where
  "section_read_int input =
     (case read_varint input of
        Inl Incomplete \<Rightarrow> Inl SectionTruncated
      | Inl TooLong \<Rightarrow> Inl InvalidVarInt
      | Inr (v, n) \<Rightarrow> Inr (v, drop n input))"

fun read_palette :: "Registry \<Rightarrow> nat \<Rightarrow> byte list \<Rightarrow> section_error + (u32 list \<times> byte list)" where
  "read_palette r 0 input = Inr ([], input)"
| "read_palette r (Suc n) input =
     bind_r (section_read_int input) (\<lambda>(v, input).
     bind_r (registry_validate r v) (\<lambda>_.
     bind_r (read_palette r n input) (\<lambda>(vs, input). Inr (v # vs, input))))"

definition be_word :: "byte list \<Rightarrow> nat \<Rightarrow> u64" where
  "be_word bytes k = from_be_bytes (take 8 (drop (k * 8) bytes))"

definition wire_key :: "nat \<Rightarrow> byte list \<Rightarrow> nat \<Rightarrow> u32" where
  "wire_key bits bytes index =
     (let per_word = 64 div bits in
      ucast (drop_bit (index mod per_word * bits) (be_word bytes (index div per_word)) AND packed_mask bits))"

fun check_keys :: "bool \<Rightarrow> Registry \<Rightarrow> nat \<Rightarrow> nat \<Rightarrow> byte list \<Rightarrow> nat list \<Rightarrow> section_error + unit" where
  "check_keys direct r palette_len bits bytes [] = Inr ()"
| "check_keys direct r palette_len bits bytes (index # is) =
     (let key = wire_key bits bytes index in
      bind_r (if direct then registry_validate r key
              else ensure_r (unat key < palette_len) (InvalidPaletteIndex key)) (\<lambda>_.
      check_keys direct r palette_len bits bytes is))"

text \<open>The words of the packet with their unused bits cleared.\<close>

definition masked_words :: "nat \<Rightarrow> nat \<Rightarrow> nat \<Rightarrow> byte list \<Rightarrow> u64 list" where
  "masked_words bits len n bytes =
     map (\<lambda>i. be_word bytes i AND drop_bit (64 - word_entries bits len i * bits) (- 1)) [0..<n]"

definition container_read ::
  "alloc_env \<Rightarrow> byte list \<Rightarrow> ContainerKind \<Rightarrow> Registry \<Rightarrow> nat \<Rightarrow> section_error + (PalettedContainer \<times> byte list)" where
  "container_read env input kind r allocation_limit =
     bind_r (section_take 1 input) (\<lambda>(head, cursor).
     let header = unat (head ! 0); bits = normalized_bits kind header r in
     if header = 0 then
       bind_r (section_read_int cursor) (\<lambda>(v, cursor).
       bind_r (container_single kind r v) (\<lambda>c. Inr (c, cursor)))
     else if bits = 0 then Inl (InvalidBits header)
     else
       let direct = header > max_bits kind in
       bind_r
         (if direct then Inr ([], cursor)
          else
            bind_r (section_read_int cursor) (\<lambda>(n, cursor).
            if sint n < 1 \<or> unat n > 2 ^ bits then Inl (InvalidPaletteLength n)
            else read_palette r (unat n) cursor)) (\<lambda>(palette, cursor).
       bind_r (section_word_count bits (kind_len kind)) (\<lambda>n.
       bind_r (section_take (n * 8) cursor) (\<lambda>(bytes, cursor).
       bind_r (check_keys direct r (length palette) bits bytes [0..<kind_len kind]) (\<lambda>_.
       let palette_bytes = (if direct then 0 else 2 ^ bits * 4) in
       if n * 8 + palette_bytes > allocation_limit then Inl AllocationBudgetExceeded
       else
         bind_r (ok_or (try_reserve_exact env 8 n) SectionAllocationFailed) (\<lambda>capacity.
         if capacity * 8 + palette_bytes > allocation_limit then Inl AllocationBudgetExceeded
         else
           bind_r (from_words bits (kind_len kind) (masked_words bits (kind_len kind) n bytes) capacity) (\<lambda>vals.
           bind_r
             (if direct then Inr (Direct vals)
              else
                bind_r (ok_or (try_reserve_exact env 4 (2 ^ bits)) SectionAllocationFailed) (\<lambda>palette_capacity.
                if palette_capacity * 4 + packed_heap_bytes vals > allocation_limit
                then Inl AllocationBudgetExceeded
                else Inr (Indirect palette palette_capacity vals))) (\<lambda>storage.
           Inr (\<lparr>c_kind = kind, c_registry = r, c_storage = storage\<rparr>, cursor)))))))))"

section \<open>Sections\<close>

record SectionCounts =
  non_empty_blocks :: u16
  fluid_blocks :: u16

definition counts_validate :: "SectionCounts \<Rightarrow> section_error + unit" where
  "counts_validate n =
     (if unat (non_empty_blocks n) > BLOCKS_PER_SECTION \<or> fluid_blocks n > non_empty_blocks n
      then Inl InvalidCounts else Inr ())"

record Section =
  s_counts :: SectionCounts
  s_blocks :: PalettedContainer
  s_biomes :: PalettedContainer

definition append_counts :: "byte list \<Rightarrow> SectionCounts \<Rightarrow> byte list" where
  "append_counts output n = output @ to_be_bytes 2 (non_empty_blocks n) @ to_be_bytes 2 (fluid_blocks n)"

definition section_read ::
  "alloc_env \<Rightarrow> byte list \<Rightarrow> Registry \<Rightarrow> Registry \<Rightarrow> nat \<Rightarrow> section_error + (Section \<times> byte list)" where
  "section_read env input block_registry biome_registry allocation_limit =
     bind_r (section_take 4 input) (\<lambda>(bytes, cursor).
     let n = \<lparr>non_empty_blocks = from_be_bytes (take 2 bytes), fluid_blocks = from_be_bytes (drop 2 bytes)\<rparr> in
     bind_r (counts_validate n) (\<lambda>_.
     bind_r (container_read env cursor Blocks block_registry allocation_limit) (\<lambda>(blocks, cursor).
     bind_r (ok_or (checked_sub allocation_limit (heap_bytes blocks)) AllocationBudgetExceeded) (\<lambda>remaining.
     bind_r (container_read env cursor Biomes biome_registry remaining) (\<lambda>(biomes, cursor).
     Inr (\<lparr>s_counts = n, s_blocks = blocks, s_biomes = biomes\<rparr>, cursor))))))"

definition section_write :: "Section \<Rightarrow> nat \<Rightarrow> byte list \<Rightarrow> write_result" where
  "section_write s capacity output =
     guard_out (counts_validate (s_counts s)) output (\<lambda>_.
     if c_kind (s_blocks s) \<noteq> Blocks \<or> c_kind (s_biomes s) \<noteq> Biomes
     then (Inl (InvalidLength BLOCKS_PER_SECTION (kind_len (c_kind (s_blocks s)))), output)
     else if capacity - length output < 4 + network_len (s_blocks s) + network_len (s_biomes s)
     then (Inl OutputCapacity, output)
     else
       then_out (container_write (s_blocks s) capacity (append_counts output (s_counts s))) (\<lambda>output.
       container_write (s_biomes s) capacity output))"

section \<open>The fixed-array encoder\<close>

text \<open>One word from a group of values, and the loop over the groups of \<open>per_word\<close> values.\<close>

fun pack_group :: "bool \<Rightarrow> PaletteScratch \<Rightarrow> nat \<Rightarrow> nat \<Rightarrow> u64 \<Rightarrow> u32 list \<Rightarrow> section_error + u64" where
  "pack_group direct s bits index word [] = Inr word"
| "pack_group direct s bits index word (v # vs) =
     bind_r (if direct then Inr v else map_r of_nat (find_unwrap s v)) (\<lambda>key.
     pack_group direct s bits (Suc index) (word OR push_bit (index * bits) (ucast key)) vs)"

function pack_groups :: "bool \<Rightarrow> PaletteScratch \<Rightarrow> nat \<Rightarrow> u32 list \<Rightarrow> byte list \<Rightarrow> write_result" where
  "pack_groups direct s bits vs output =
     (if vs = [] then (Inr (), output)
      else if 64 div bits = 0 then (Inl Panics, output)
      else
        guard_out (pack_group direct s bits 0 0 (take (64 div bits) vs)) output (\<lambda>word.
        pack_groups direct s bits (drop (64 div bits) vs) (output @ to_be_bytes 8 word)))"
  by pat_completeness auto
termination
  by (relation "measure (\<lambda>(direct, s, bits, vs, output). length vs)") auto

declare pack_groups.simps [simp del]

definition encode_dense ::
  "ContainerKind \<Rightarrow> Registry \<Rightarrow> u32 list \<Rightarrow> byte list \<Rightarrow> write_result" where
  "encode_dense kind r input output =
     guard_out (insert_ids scratch_new input) output (\<lambda>palette.
     if scratch_len palette = 1 then (Inr (), append_varint (output @ [0]) (input ! 0))
     else
       let needed = bit_len (scratch_len palette - 1);
           direct = needed > max_bits kind;
           bits = normalized_bits kind needed r;
           output = output @ [of_nat bits]
       in
       then_out
         (if direct then (Inr (), output)
          else
            let output = append_varint output (of_nat (scratch_len palette)) in
            if scratch_len palette > 256 then (Inl Panics, output)
            else (Inr (), foldl append_varint output (take (scratch_len palette) (ids palette)))) (\<lambda>output.
       pack_groups direct palette bits input output))"

fun validate_all :: "Registry \<Rightarrow> u32 list \<Rightarrow> section_error + unit" where
  "validate_all r [] = Inr ()"
| "validate_all r (v # vs) = bind_r (registry_validate r v) (\<lambda>_. validate_all r vs)"

text \<open>The two inputs are arrays of fixed length in the source.\<close>

definition prepare_section ::
  "u32 list \<Rightarrow> u32 list \<Rightarrow> Registry \<Rightarrow> Registry \<Rightarrow> SectionCounts \<Rightarrow> nat \<Rightarrow> byte list \<Rightarrow> write_result" where
  "prepare_section blocks biomes block_registry biome_registry n capacity output =
     guard_out (counts_validate n) output (\<lambda>_.
     if capacity - length output < MAX_SECTION_NETWORK_BYTES then (Inl OutputCapacity, output)
     else
       guard_out (validate_all block_registry blocks) output (\<lambda>_.
       guard_out (validate_all biome_registry biomes) output (\<lambda>_.
       then_out (encode_dense Blocks block_registry blocks (append_counts output n)) (\<lambda>output.
       encode_dense Biomes biome_registry biomes output))))"

end
