(* ===== verification/SectionContainer.thy ===== *)
theory SectionContainer
  imports SectionData
begin

text \<open>
  Correctness of the paletted containers: the well-formedness invariant, the dense list a
  container stands for, and the laws of reading, building, setting and repacking over it.
\<close>

section \<open>Registries\<close>

definition registry_wf :: "Registry \<Rightarrow> bool" where
  "registry_wf r \<longleftrightarrow> 0 < unat (state_count r) \<and> unat (state_count r) \<le> 2 ^ 31"

abbreviation valid_id :: "Registry \<Rightarrow> u32 \<Rightarrow> bool" where
  "valid_id r v \<equiv> v < state_count r"

lemma registry_new_wf: "registry_new n = Inr r \<Longrightarrow> registry_wf r"
  by (auto simp: registry_new_def registry_wf_def unat_gt_0 word_less_nat_alt split: if_splits)

lemma registry_bits_eq: "registry_wf r \<Longrightarrow> registry_bits r = bit_len (unat (state_count r) - 1)"
proof -
  assume "registry_wf r"
  then have "state_count r \<noteq> 0" by (auto simp: registry_wf_def)
  then have "unat (state_count r - 1) = unat (state_count r) - 1" by (rule unat_minus_one)
  then show ?thesis
    using length_minus_leading_zeros [of "state_count r - 1"] by (simp add: registry_bits_def)
qed

lemma registry_bits_le: "registry_wf r \<Longrightarrow> registry_bits r \<le> 31"
  by (simp add: registry_bits_eq bit_len_le_iff) (auto simp: registry_wf_def)

lemma valid_id_bits:
  assumes "registry_wf r" "valid_id r v"
  shows "unat v < 2 ^ registry_bits r"
proof -
  have "unat v \<le> unat (state_count r) - 1" using assms(2) by (simp add: word_less_nat_alt)
  also have "\<dots> < 2 ^ registry_bits r" 
    using registry_bits_eq [OF assms(1)] bit_len_le_iff [of "unat (state_count r) - 1" "registry_bits r"] by simp
  finally show ?thesis .
qed

lemma registry_bits_pos: "registry_wf r \<Longrightarrow> valid_id r v \<Longrightarrow> valid_id r w \<Longrightarrow> v \<noteq> w \<Longrightarrow> 0 < registry_bits r"
  using valid_id_bits [of r v] valid_id_bits [of r w] by (cases "registry_bits r") (auto simp: unat_eq_0)

section \<open>Well-formed containers\<close>

fun storage_wf :: "ContainerKind \<Rightarrow> Registry \<Rightarrow> Storage \<Rightarrow> bool" where
  "storage_wf kind r (Single v) \<longleftrightarrow> valid_id r v"
| "storage_wf kind r (Indirect palette capacity vals) \<longleftrightarrow>
     packed_wf vals \<and> p_len vals = kind_len kind \<and> min_bits kind \<le> p_bits vals \<and> p_bits vals \<le> max_bits kind \<and>
     palette \<noteq> [] \<and> length palette \<le> 2 ^ p_bits vals \<and> 2 ^ p_bits vals \<le> capacity \<and>
     (\<forall>v \<in> set palette. valid_id r v) \<and> (\<forall>k \<in> set (packed_values vals). unat k < length palette)"
| "storage_wf kind r (Direct vals) \<longleftrightarrow>
     packed_wf vals \<and> p_len vals = kind_len kind \<and> p_bits vals = registry_bits r \<and>
     (\<forall>v \<in> set (packed_values vals). valid_id r v)"

definition container_wf :: "PalettedContainer \<Rightarrow> bool" where
  "container_wf c \<longleftrightarrow> registry_wf (c_registry c) \<and> storage_wf (c_kind c) (c_registry c) (c_storage c)"

fun storage_values :: "ContainerKind \<Rightarrow> Storage \<Rightarrow> u32 list" where
  "storage_values kind (Single v) = replicate (kind_len kind) v"
| "storage_values kind (Indirect palette _ vals) = map (\<lambda>k. palette ! unat k) (packed_values vals)"
| "storage_values kind (Direct vals) = packed_values vals"

definition container_values :: "PalettedContainer \<Rightarrow> u32 list" where
  "container_values c = storage_values (c_kind c) (c_storage c)"

lemma kind_len_pos: "0 < kind_len k" and kind_len_le: "kind_len k \<le> 4096"
  by (cases k; simp add: BLOCKS_PER_SECTION_def BIOMES_PER_SECTION_def)+

lemma min_max_bits: "1 \<le> min_bits k" "min_bits k \<le> max_bits k" "max_bits k \<le> 8"
  by (cases k; simp)+

lemma min_max_bits_8: "max_bits k \<le> 8"
  by (rule min_max_bits)

lemma length_container_values: "container_wf c \<Longrightarrow> length (container_values c) = kind_len (c_kind c)"
  by (cases "c_storage c") (simp_all add: container_wf_def container_values_def)

lemma container_values_valid: "container_wf c \<Longrightarrow> v \<in> set (container_values c) \<Longrightarrow> valid_id (c_registry c) v"
  by (cases "c_storage c") (auto simp: container_wf_def container_values_def)

lemma container_get_values:
  assumes "container_wf c"
  shows "container_get c i = (if i < kind_len (c_kind c) then Inr (container_values c ! i) else Inl IndexOutOfBounds)"
proof (cases "c_storage c")
  case (Indirect pal cap vals)
  then have "packed_wf vals" "p_len vals = kind_len (c_kind c)" "\<forall>k \<in> set (packed_values vals). unat k < length pal"
    using assms by (simp_all add: container_wf_def)
  then show ?thesis
    using Indirect by (auto simp: container_get_def container_values_def packed.get_law)
qed (use assms in \<open>auto simp: container_get_def container_values_def container_wf_def packed.get_law\<close>)

lemma collect_gets_values:
  "container_wf c \<Longrightarrow> \<forall>i \<in> set is. i < kind_len (c_kind c) \<Longrightarrow>
   collect_gets c is = Inr (map (\<lambda>i. container_values c ! i) is)"
  by (induction "is") (simp_all add: container_get_values)

lemma read_dense_values: "container_wf c \<Longrightarrow> read_dense c = Inr (container_values c)"
  using collect_gets_values [of c "[0..<kind_len (c_kind c)]"] map_nth [of "container_values c"]
  by (simp add: read_dense_def length_container_values)

section \<open>Building\<close>

text \<open>
  A budget of 16384 bytes (2048 words) and an allocator that grants exactly what is asked are
  enough for any container; only without them may an operation stop with an allocation error.
\<close>

definition roomy :: "alloc_env \<Rightarrow> nat \<Rightarrow> bool" where
  "roomy env limit \<longleftrightarrow> (\<forall>w n. try_reserve_exact env w n = Some n) \<and> 16384 \<le> limit"

definition alloc_error :: "alloc_env \<Rightarrow> nat \<Rightarrow> section_error \<Rightarrow> bool" where
  "alloc_error env limit e \<longleftrightarrow>
     (e = AllocationBudgetExceeded \<or> e = SectionAllocationFailed) \<and> \<not> roomy env limit"

lemma registry_validate_ok [simp]: "valid_id r v \<Longrightarrow> registry_validate r v = Inr ()"
  "\<not> valid_id r v \<Longrightarrow> registry_validate r v = Inl (ValueOutOfRange v)"
  by (simp_all add: registry_validate_def)

lemma scan_dense_valid: "\<forall>v \<in> set vs. valid_id r v \<Longrightarrow> scan_dense r s vs = insert_ids s vs"
  by (induction vs arbitrary: s) simp_all

lemma find_unwrap_index:
  "scratch_holds s ps \<Longrightarrow> length ps \<le> 256 \<Longrightarrow> v \<in> set ps \<Longrightarrow> find_unwrap s v = Inr (index_of ps v)"
  by (simp add: scratch_holds_def find_unwrap_def scratch_find_spec)

lemma fill_keys_from:
  "scratch_holds s ps \<Longrightarrow> length ps \<le> 256 \<Longrightarrow> set vs \<subseteq> set ps \<Longrightarrow>
   fill_keys s i vs p = fill_from packed_set i (map (\<lambda>v. of_nat (index_of ps v)) vs) p"
  by (induction vs arbitrary: i p) (simp_all add: find_unwrap_index)

lemma packed_new_cases:
  assumes "1 \<le> bits" "bits \<le> 31" "n = div_ceil (kind_len k) (64 div bits)"
  shows "(\<exists>p. packed_new env bits (kind_len k) (n * 8) = Inr p) \<or>
    (\<exists>e. packed_new env bits (kind_len k) (n * 8) = Inl e \<and> alloc_error env limit e)"
  using assms kind_len_pos [of k] kind_len_le [of k]
  by (auto simp: packed_new_def packed_word_count_def MAX_LEN_def alloc_error_def roomy_def ok_or_def split: option.splits)

lemma word_bytes_le:
  assumes "1 \<le> bits" "bits \<le> 31"
  shows "div_ceil (kind_len k) (64 div bits) * 8 \<le> 16384"
    and "bits \<le> 8 \<Longrightarrow> div_ceil (kind_len k) (64 div bits) * 8 \<le> 4096"
proof -
  have "64 div 31 \<le> 64 div bits" using assms by (intro div_le_mono2) auto
  then have pw: "2 \<le> 64 div bits" by simp
  then have "kind_len k \<le> 2048 * (64 div bits)" using kind_len_le [of k] by linarith
  then have "div_ceil (kind_len k) (64 div bits) \<le> 2048" using pw by (simp add: div_ceil_le_iff)
  then show "div_ceil (kind_len k) (64 div bits) * 8 \<le> 16384" by simp
  show "div_ceil (kind_len k) (64 div bits) * 8 \<le> 4096" if "bits \<le> 8"
  proof -
    have "64 div 8 \<le> 64 div bits" using assms that by (intro div_le_mono2) auto
    then have "kind_len k \<le> 512 * (64 div bits)" using kind_len_le [of k] by simp
    then have "div_ceil (kind_len k) (64 div bits) \<le> 512" using pw by (simp add: div_ceil_le_iff)
    then show ?thesis by simp
  qed
qed

lemma power_bits_le: "bits \<le> max_bits k \<Longrightarrow> (2 :: nat) ^ bits \<le> 256"
  using power_increasing [of bits 8 "2 :: nat"] min_max_bits_8 [of k] by simp

text \<open>
  What a successful reservation promises: at least the requested capacity. Reservations may fail.
\<close>

definition alloc_sound :: "alloc_env \<Rightarrow> bool" where
  "alloc_sound env \<longleftrightarrow> (\<forall>w n c. try_reserve_exact env w n = Some c \<longrightarrow> n \<le> c)"

text \<open>When the width \<open>b\<close> suffices for an input.\<close>

definition width_ok :: "ContainerKind \<Rightarrow> Registry \<Rightarrow> u32 list \<Rightarrow> nat \<Rightarrow> bool" where
  "width_ok kind r input b \<longleftrightarrow>
     0 < b \<and> (if b \<le> max_bits kind then length (first_uses input) \<le> 2 ^ max b (min_bits kind) else 0 < registry_bits r)"

lemma normalized_bits_range:
  assumes "registry_wf r" "width_ok kind r input b"
  shows "1 \<le> normalized_bits kind b r" "normalized_bits kind b r \<le> 31"
  using assms min_max_bits [of kind] registry_bits_le [OF assms(1)]
  by (auto simp: width_ok_def normalized_bits_def split: if_splits)

lemma map_index_of: "set vs \<subseteq> set ps \<Longrightarrow> map (\<lambda>v. ps ! index_of ps v) vs = vs"
  by (induction vs) (auto simp: index_of_found)

text \<open>The direct and the indirect storage of a dense input.\<close>

lemma direct_storage:
  assumes "registry_wf r" "packed_wf p" "p_len p = kind_len kind" "p_bits p = registry_bits r"
    "length input = kind_len kind" "\<forall>v \<in> set input. valid_id r v"
  obtains p' where "fill_from packed_set 0 input p = Inr p'" "storage_wf kind r (Direct p')"
    "packed_values p' = input" "packed_heap_bytes p' = packed_heap_bytes p"
proof -
  have "\<forall>v \<in> set input. packed_fits p v" using assms(1,4,6) valid_id_bits by auto
  from packed.fill_law [OF assms(2) _ this] assms(3,5) obtain p' where
    "fill_from packed_set 0 input p = Inr p'" "packed_wf p'" "packed_shape p' = packed_shape p" "packed_values p' = input"
    by auto
  then show thesis using that assms by (simp add: packed_heap_bytes_def)
qed

lemma indirect_storage:
  assumes "packed_wf p" "p_len p = kind_len kind" "min_bits kind \<le> p_bits p" "p_bits p \<le> max_bits kind"
    "scratch_holds s (first_uses input)" "length (first_uses input) \<le> 2 ^ p_bits p" "2 ^ p_bits p \<le> cap"
    "length input = kind_len kind" "\<forall>v \<in> set input. valid_id r v"
  obtains p' where "fill_keys s 0 input p = Inr p'" "storage_wf kind r (Indirect (first_uses input) cap p')"
    "storage_values kind (Indirect (first_uses input) cap p') = input" "packed_heap_bytes p' = packed_heap_bytes p"
    "p_bits p' = p_bits p"
proof -
  let ?ps = "first_uses input"
  have small: "2 ^ p_bits p \<le> (256 :: nat)"
    using assms(4) min_max_bits(3) [of kind] power_increasing [of "p_bits p" 8 "2 :: nat"] by simp
  then have le: "length ?ps \<le> 256" using assms(6) by simp
  have key: "unat (of_nat (index_of ?ps v) :: u32) = index_of ?ps v \<and> index_of ?ps v < length ?ps" if "v \<in> set input" for v
  proof -
    have "index_of ?ps v < length ?ps" using index_of_found [of v ?ps] that by simp
    then show ?thesis using le by (simp add: unat_of_nat)
  qed
  let ?keys = "map (\<lambda>v. of_nat (index_of ?ps v) :: u32) input"
  have "\<forall>k \<in> set ?keys. packed_fits p k" using key assms(6) by fastforce
  from packed.fill_law [OF assms(1) _ this] assms(2,8) obtain p' where
    p': "fill_from packed_set 0 ?keys p = Inr p'" "packed_wf p'" "packed_shape p' = packed_shape p" "packed_values p' = ?keys"
    by auto
  have "fill_keys s 0 input p = Inr p'" using p'(1) fill_keys_from [OF assms(5) le] by simp
  moreover have "map (\<lambda>k. ?ps ! unat k) ?keys = input"
    using key map_index_of [of input ?ps] by (simp add: comp_def cong: map_cong)
  moreover have "?ps \<noteq> []" 
    using assms(8) kind_len_pos [of kind] length_first_uses_pos [of input] by (cases input) auto
  ultimately show thesis
    using that [of p'] p' assms key by (auto simp: packed_heap_bytes_def)
qed

lemma build_storage_ok:
  assumes r: "registry_wf r" and env: "alloc_sound env" and input: "length input = kind_len kind" "\<forall>v \<in> set input. valid_id r v"
    and s: "scratch_holds s (first_uses input)" and b: "width_ok kind r input b"
  shows "(\<exists>st. build_storage env kind r input s b limit = Inr st \<and> storage_wf kind r st \<and> storage_values kind st = input \<and>
      heap_bytes \<lparr>c_kind = kind, c_registry = r, c_storage = st\<rparr> \<le> limit \<and>
      (b \<le> max_bits kind \<longrightarrow> (\<exists>cap p. st = Indirect (first_uses input) cap p \<and> p_bits p = max b (min_bits kind)))) \<or>
    (\<exists>e. build_storage env kind r input s b limit = Inl e \<and> alloc_error env limit e)"
proof -
  let ?bits = "normalized_bits kind b r"
  note bits = normalized_bits_range [OF r b]
  let ?n = "div_ceil (kind_len kind) (64 div ?bits)"
  have wc: "section_word_count ?bits (kind_len kind) = Inr ?n" using bits by (simp add: section_word_count_def)
  show ?thesis
  proof (cases "(if b > max_bits kind then 0 else 2 ^ ?bits * 4) + ?n * 8 > limit \<or>
      (\<exists>e. packed_new env ?bits (kind_len kind) (?n * 8) = Inl e)")
    case True
    have "limit < 16384" if "(if b > max_bits kind then 0 else 2 ^ ?bits * 4) + ?n * 8 > limit"
    proof (cases "b > max_bits kind")
      case False
      then have "?bits \<le> max_bits kind" using b min_max_bits [of kind] by (auto simp: width_ok_def normalized_bits_def)
      then have "2 ^ ?bits * 4 \<le> (1024 :: nat)" "?n * 8 \<le> 4096"
        using power_bits_le [of ?bits kind] word_bytes_le(2) [OF bits, of kind] min_max_bits(3) [of kind] by auto
      then show ?thesis using that False by simp
    qed (use that word_bytes_le(1) [OF bits, of kind] in simp)
    then show ?thesis
      using True wc packed_new_cases [OF bits refl, of env kind limit]
      by (auto simp: build_storage_def Let_def alloc_error_def roomy_def)
  next
    case False
    then obtain p where new: "packed_new env ?bits (kind_len kind) (?n * 8) = Inr p"
      and lim: "(if b > max_bits kind then 0 else 2 ^ ?bits * 4) + ?n * 8 \<le> limit"
      using packed_new_cases [OF bits refl, of env kind limit] by auto
    note p = packed_new_ok [OF new]
    show ?thesis
    proof (cases "b \<le> max_bits kind")
      case True
      then have w: "?bits = max b (min_bits kind)" "length (first_uses input) \<le> 2 ^ ?bits" "?bits \<le> max_bits kind"
        using b min_max_bits [of kind] by (auto simp: width_ok_def normalized_bits_def)
      show ?thesis
      proof (cases "\<exists>cap. try_reserve_exact env 4 (2 ^ ?bits) = Some cap \<and> cap * 4 + packed_heap_bytes p \<le> limit")
        case True
        then obtain cap where cap: "try_reserve_exact env 4 (2 ^ ?bits) = Some cap" "cap * 4 + packed_heap_bytes p \<le> limit"
          by blast
        have "2 ^ ?bits \<le> cap" using cap(1) env by (simp add: alloc_sound_def)
        then obtain p' where p': "fill_keys s 0 input p = Inr p'"
          "storage_wf kind r (Indirect (first_uses input) cap p')"
          "storage_values kind (Indirect (first_uses input) cap p') = input"
          "packed_heap_bytes p' = packed_heap_bytes p" "p_bits p' = p_bits p"
          using indirect_storage [OF _ _ _ _ s _ _ input, of p cap] p w by auto
        have "2 ^ ?bits \<le> (256 :: nat)"
          using w(3) min_max_bits(3) [of kind] power_increasing [of ?bits 8 "2 :: nat"] by simp
        then have "length (first_uses input) \<le> 256" using w(2) by simp
        then have "scratch_len s = length (first_uses input)" "take (scratch_len s) (ids s) = first_uses input"
          using s by (simp_all add: scratch_holds_def scratch_inv_def)
        then show ?thesis
          using \<open>b \<le> max_bits kind\<close> \<open>length (first_uses input) \<le> 256\<close> wc new lim p cap p' w(1)
          by (auto simp: build_storage_def Let_def heap_bytes_def)
      next
        case False
        then have "\<not> roomy env limit"
          using lim p \<open>b \<le> max_bits kind\<close> by (fastforce simp: roomy_def)
        then show ?thesis
          using False \<open>b \<le> max_bits kind\<close> wc new lim
          by (cases "try_reserve_exact env 4 (2 ^ ?bits)") (auto simp: build_storage_def Let_def alloc_error_def)
      qed
    next
      case False
      then have "?bits = registry_bits r" using b by (simp add: normalized_bits_def width_ok_def)
      then obtain p' where "fill_from packed_set 0 input p = Inr p'" "storage_wf kind r (Direct p')"
        "packed_values p' = input" "packed_heap_bytes p' = packed_heap_bytes p"
        using direct_storage [OF r _ _ _ input, of p] p by auto
      then show ?thesis
        using False wc new lim p by (auto simp: build_storage_def Let_def heap_bytes_def)
    qed
  qed
qed

text \<open>The width \<open>build\<close> computes for itself suffices.\<close>

lemma needed_bits_width:
  assumes "registry_wf r" "\<forall>v \<in> set input. valid_id r v" "n = min 257 (length (first_uses input))" "1 < n"
  shows "width_ok kind r input (needed_bits n)"
proof -
  have n: "needed_bits n = bit_len (n - 1)" "n - 1 < 2 ^ needed_bits n"
    using assms(4) bit_len_le_iff [of "n - 1" "bit_len (n - 1)"] by (simp_all add: needed_bits_def)
  have "length (first_uses input) \<le> 2 ^ max (needed_bits n) (min_bits kind)" if "needed_bits n \<le> max_bits kind"
  proof -
    have "2 ^ needed_bits n \<le> (2 :: nat) ^ 8" using that min_max_bits(3) [of kind] by (intro power_increasing) auto
    then have "n = length (first_uses input)" using n(2) assms(3) by auto
    moreover have "2 ^ needed_bits n \<le> (2 :: nat) ^ max (needed_bits n) (min_bits kind)"
      by (intro power_increasing) auto
    ultimately show ?thesis using n(2) by linarith
  qed
  moreover have "0 < registry_bits r"
  proof -
    obtain v w where "v \<in> set input" "w \<in> set input" "v \<noteq> w"
    proof -
      have l: "1 < length (first_uses input)" using assms(3,4) by simp
      then have "first_uses input ! 0 \<noteq> first_uses input ! 1"
        using nth_eq_iff_index_eq [OF distinct_first_uses, of 0 input 1] by (cases "first_uses input") auto
      moreover have "first_uses input ! 0 \<in> set input" "first_uses input ! 1 \<in> set input"
        using l nth_mem [of _ "first_uses input"] by (metis set_first_uses less_trans zero_less_one, metis set_first_uses)
      ultimately show thesis using that by blast
    qed
    then show ?thesis using registry_bits_pos assms(1,2) by blast
  qed
  ultimately show ?thesis using n(1) assms(4) by (simp add: width_ok_def)
qed

lemma single_from_dense:
  assumes "length (first_uses input) = 1"
  shows "input = replicate (length input) (input ! 0)"
proof -
  obtain x where "first_uses input = [x]" using assms by (auto simp: length_Suc_conv)
  then have "set input = {x}" by (metis set_first_uses list.set(1,2))
  moreover then have "input ! 0 = x" by (metis insert_not_empty length_greater_0_conv nth_mem set_empty singletonD)
  ultimately show ?thesis by (intro replicate_eqI) auto
qed

lemma container_build_ok:
  assumes r: "registry_wf r" and env: "alloc_sound env" and input: "length input = kind_len kind" "\<forall>v \<in> set input. valid_id r v"
    and forced: "case forced of None \<Rightarrow> True | Some b \<Rightarrow> width_ok kind r input b"
  shows "(\<exists>c. container_build env kind r input forced limit = Inr c \<and> container_wf c \<and> c_kind c = kind \<and>
      c_registry c = r \<and> container_values c = input \<and> heap_bytes c \<le> limit \<and>
      (\<forall>b. forced = Some b \<longrightarrow> b \<le> max_bits kind \<longrightarrow>
        (\<exists>cap p. c_storage c = Indirect (first_uses input) cap p \<and> p_bits p = max b (min_bits kind)))) \<or>
    (\<exists>e. container_build env kind r input forced limit = Inl e \<and> alloc_error env limit e)"
proof -
  obtain s where s: "insert_ids scratch_new input = Inr s" "scratch_holds s (first_uses input)"
    by (rule insert_ids_new)
  note len = scratch_holds_len [OF s(2)]
  have ne: "input \<noteq> []" using input(1) kind_len_pos [of kind] by auto
  let ?b = "case forced of Some b \<Rightarrow> b | None \<Rightarrow> needed_bits (scratch_len s)"
  have build: "container_build env kind r input forced limit =
      (if ?b = 0 then container_single kind r (input ! 0)
       else bind_r (build_storage env kind r input s ?b limit)
         (\<lambda>st. Inr \<lparr>c_kind = kind, c_registry = r, c_storage = st\<rparr>))"
    using input s(1) by (simp add: container_build_def scan_dense_valid Let_def)
  show ?thesis
  proof (cases "?b = 0")
    case True
    have f: "forced = None" using True forced by (cases forced) (auto simp: width_ok_def)
    have "0 < scratch_len s" using len length_first_uses_pos [OF ne] by simp
    then have "scratch_len s = 1" using True f by (auto simp: needed_bits_def split: if_splits)
    then have "input = replicate (kind_len kind) (input ! 0)"
      using single_from_dense [of input] len input(1) by simp
    moreover have "valid_id r (input ! 0)" using ne input(2) by simp
    ultimately show ?thesis
      using build True r f by (simp add: container_single_def container_wf_def container_values_def heap_bytes_def)
  next
    case False
    have "width_ok kind r input ?b"
    proof (cases forced)
      case None
      then have "1 < scratch_len s"
        using False by (cases "scratch_len s \<le> 1") (auto simp: needed_bits_def le_Suc_eq split: if_splits)
      then show ?thesis using None needed_bits_width [OF r input(2) len] by simp
    qed (use forced in simp)
    from build_storage_ok [OF r env input s(2) this, of limit] show ?thesis
    proof (elim disjE exE conjE, goal_cases)
      case (1 st)
      let ?c = "\<lparr>c_kind = kind, c_registry = r, c_storage = st\<rparr>"
      have "container_build env kind r input forced limit = Inr ?c" using build False 1(1) by simp
      moreover have "container_wf ?c" "container_values ?c = input"
        using 1(2,3) r by (simp_all add: container_wf_def container_values_def)
      moreover have "forced = Some b \<Longrightarrow> b \<le> max_bits kind \<Longrightarrow>
          \<exists>cap p. c_storage ?c = Indirect (first_uses input) cap p \<and> p_bits p = max b (min_bits kind)" for b
        using 1(5) by simp
      ultimately show ?case using 1(4) by (intro disjI1 exI [of _ ?c] conjI) simp_all
    qed (use build False in simp)
  qed
qed

section \<open>Setting and repacking\<close>

lemma packed_set_result:
  assumes "packed_wf p" "i < p_len p" "unat v < 2 ^ p_bits p"
  shows "\<exists>p'. packed_set p i v = Inr (p', packed_values p ! i) \<and> packed_wf p' \<and>
    packed_values p' = (packed_values p)[i := v] \<and> p_bits p' = p_bits p \<and> p_len p' = p_len p \<and> p_capacity p' = p_capacity p"
  by (rule packed_set_ok [OF assms]) blast

text \<open>A mutation that needs no growth replaces one value.\<close>

lemma set_in_place_indirect:
  assumes wf: "storage_wf kind r (Indirect pal cap vals)" and i: "i < kind_len kind" and v: "valid_id r v"
    and pal': "pal' = pal \<and> k < length pal \<or> pal' = pal @ [v] \<and> k = length pal \<and> length pal < 2 ^ p_bits vals"
    and k: "pal' ! k = v"
  shows "\<exists>vals'. packed_set vals i (of_nat k) = Inr (vals', packed_values vals ! i) \<and>
    storage_wf kind r (Indirect pal' cap vals') \<and>
    storage_values kind (Indirect pal' cap vals') = (storage_values kind (Indirect pal cap vals))[i := v] \<and>
    p_bits vals' = p_bits vals"
proof -
  have small: "2 ^ p_bits vals \<le> (256 :: nat)"
    using wf min_max_bits(3) [of kind] power_increasing [of "p_bits vals" 8 "2 :: nat"] by simp
  have kl: "k < length pal'" "length pal' \<le> 2 ^ p_bits vals" "set pal' \<subseteq> insert v (set pal)" using pal' wf by auto
  then have uk: "unat (of_nat k :: u32) = k" using small by (simp add: unat_of_nat)
  obtain vals' where vals': "packed_set vals i (of_nat k) = Inr (vals', packed_values vals ! i)" "packed_wf vals'"
    "packed_values vals' = (packed_values vals)[i := of_nat k]" "p_bits vals' = p_bits vals" "p_len vals' = p_len vals"
    using packed_set_result [of vals i "of_nat k"] wf i uk kl by auto
  have nth: "pal' ! unat x = pal ! unat x" "unat x < length pal'" if "x \<in> set (packed_values vals)" for x
    using that wf pal' by (auto simp: nth_append)
  have keys: "\<forall>x \<in> set (packed_values vals'). unat x < length pal'"
    using vals'(3) nth(2) uk kl(1) set_update_subset_insert [of "packed_values vals" i "of_nat k"] by auto
  have "storage_values kind (Indirect pal' cap vals') = (storage_values kind (Indirect pal cap vals))[i := v]"
    using vals'(3) nth(1) uk k by (simp add: map_update cong: map_cong)
  moreover have "storage_wf kind r (Indirect pal' cap vals')"
    using wf vals' kl keys v pal' by auto
  ultimately show ?thesis using vals' by blast
qed

lemma set_in_place_ok:
  assumes wf: "container_wf c" and i: "i < kind_len (c_kind c)" and v: "valid_id (c_registry c) v"
    and m: "set_in_place c i v = Some m"
  shows "\<exists>c'. m = Inr c' \<and> container_wf c' \<and> container_values c' = (container_values c)[i := v] \<and>
    c_kind c' = c_kind c \<and> c_registry c' = c_registry c"
proof (cases "c_storage c")
  case (Single w)
  then have "m = Inr c" "w = v" using m by (auto simp: set_in_place_def split: if_splits)
  then show ?thesis using wf Single by (simp add: container_values_def) (metis list_update_id nth_replicate i)
next
  case (Indirect pal cap vals)
  let ?k = "if v \<in> set pal then index_of pal v else length pal" and ?pal = "if v \<in> set pal then pal else pal @ [v]"
  have swf: "storage_wf (c_kind c) (c_registry c) (Indirect pal cap vals)" using wf Indirect by (simp add: container_wf_def)
  have room: "v \<in> set pal \<or> length pal < 2 ^ p_bits vals"
    and meq: "m = map_r (\<lambda>(vals, _). c\<lparr>c_storage := Indirect ?pal cap vals\<rparr>) (packed_set vals i (of_nat ?k))"
    using m Indirect by (auto simp: set_in_place_def split: if_splits)
  have "?pal = pal \<and> ?k < length pal \<or> ?pal = pal @ [v] \<and> ?k = length pal \<and> length pal < 2 ^ p_bits vals" "?pal ! ?k = v"
    using room index_of_found [of v pal] by auto
  from set_in_place_indirect [OF swf i v this] show ?thesis
    using meq wf Indirect by (auto simp: container_wf_def container_values_def)
next
  case (Direct vals)
  then have "packed_wf vals" "p_len vals = kind_len (c_kind c)" "p_bits vals = registry_bits (c_registry c)"
    using wf by (simp_all add: container_wf_def)
  then obtain vals' where "packed_set vals i v = Inr (vals', packed_values vals ! i)" "packed_wf vals'"
    "packed_values vals' = (packed_values vals)[i := v]" "p_bits vals' = p_bits vals" "p_len vals' = p_len vals"
    using packed_set_result [of vals i v] i valid_id_bits [OF _ v] wf by (auto simp: container_wf_def)
  moreover have "\<forall>x \<in> set ((packed_values vals)[i := v]). valid_id (c_registry c) x"
    using wf v Direct set_update_subset_insert [of "packed_values vals" i v] by (auto simp: container_wf_def)
  ultimately show ?thesis
    using m wf Direct by (auto simp: set_in_place_def container_wf_def container_values_def)
qed

text \<open>Growth keeps the values and leaves room for one more.\<close>

lemma length_first_uses_le: "set input \<subseteq> set ps \<Longrightarrow> length (first_uses input) \<le> length ps"
  by (metis card_length card_mono distinct_card distinct_first_uses finite_set order_trans set_first_uses)

lemma next_bits_room:
  assumes wf: "container_wf c" and v: "valid_id (c_registry c) v" and none: "set_in_place c i v = None"
  shows "width_ok (c_kind c) (c_registry c) (container_values c) (next_bits c) \<and>
    (next_bits c \<le> max_bits (c_kind c) \<longrightarrow>
      length (first_uses (container_values c)) < 2 ^ max (next_bits c) (min_bits (c_kind c)))"
proof (cases "c_storage c")
  case (Single w)
  have b: "next_bits c = min_bits (c_kind c)"
    using Single min_max_bits(1) [of "c_kind c"] by (simp add: next_bits_def container_bits_def)
  have "length (first_uses (container_values c)) \<le> length [w]"
    by (rule length_first_uses_le) (auto simp: container_values_def Single)
  also have "length [w] < 2 ^ min_bits (c_kind c)"
    using min_max_bits(1) [of "c_kind c"] one_less_power [of "2 :: nat"] by simp
  finally show ?thesis using b min_max_bits [of "c_kind c"] by (simp add: width_ok_def)
next
  case (Indirect pal cap vals)
  then have pal: "v \<notin> set pal" "\<not> length pal < 2 ^ p_bits vals" using none by (auto simp: set_in_place_def split: if_splits)
  have swf: "storage_wf (c_kind c) (c_registry c) (Indirect pal cap vals)" using wf Indirect by (simp add: container_wf_def)
  have b: "next_bits c = Suc (p_bits vals)"
    using swf Indirect by (simp add: next_bits_def container_bits_def)
  have "length (first_uses (container_values c)) \<le> length pal"
    by (rule length_first_uses_le) (use swf in \<open>auto simp: container_values_def Indirect\<close>)
  also have "length pal < 2 ^ Suc (p_bits vals)"
    using swf by (metis storage_wf.simps(2) le_less_trans lessI one_less_numeral_iff power_strict_increasing_iff semiring_norm(76))
  finally have len: "length (first_uses (container_values c)) < 2 ^ Suc (p_bits vals)" .
  have "v \<noteq> hd pal" using swf pal(1) by auto
  then have "0 < registry_bits (c_registry c)"
    using swf pal(1) v wf registry_bits_pos [of "c_registry c" v "hd pal"] by (auto simp: container_wf_def)
  then show ?thesis using len b swf by (auto simp: width_ok_def max_def)
next
  case (Direct vals)
  then show ?thesis using none by (simp add: set_in_place_def)
qed

lemma grow_ok:
  assumes wf: "container_wf c" and env: "alloc_sound env" and v: "valid_id (c_registry c) v"
    and none: "set_in_place c i v = None"
  shows "(\<exists>c' budget. grow env c limit = Inr (c', budget) \<and> container_wf c' \<and> c_kind c' = c_kind c \<and>
      c_registry c' = c_registry c \<and> container_values c' = container_values c \<and>
      heap_bytes c' + heap_bytes c \<le> limit \<and> set_in_place c' i v \<noteq> None) \<or>
    (\<exists>e. grow env c limit = Inl e \<and> alloc_error env (limit - heap_bytes c) e)"
proof (cases "heap_bytes c \<le> limit")
  case True
  let ?r = "c_registry c" and ?k = "c_kind c" and ?b = "next_bits c" and ?input = "container_values c"
  have r: "registry_wf ?r" using wf by (simp add: container_wf_def)
  have input: "length ?input = kind_len ?k" "\<forall>x \<in> set ?input. valid_id ?r x"
    using length_container_values [OF wf] container_values_valid [OF wf] by auto
  have room: "width_ok ?k ?r ?input ?b \<and> (?b \<le> max_bits ?k \<longrightarrow> length (first_uses ?input) < 2 ^ max ?b (min_bits ?k))"
    by (rule next_bits_room [OF wf v none])
  have build: "case Some ?b of None \<Rightarrow> True | Some b \<Rightarrow> width_ok ?k ?r ?input b" using room by simp
  have grow: "grow env c limit = bind_r (container_build env ?k ?r ?input (Some ?b) (limit - heap_bytes c))
      (\<lambda>c'. Inr (c', limit - heap_bytes c))"
    using True by (simp add: grow_def checked_sub_def read_dense_values [OF wf])
  from container_build_ok [OF r env input build, of "limit - heap_bytes c"] show ?thesis
  proof (elim disjE exE conjE, goal_cases)
    case (1 c')
    have "set_in_place c' i v \<noteq> None"
    proof (cases "?b \<le> max_bits ?k")
      case True
      then obtain cap p where "c_storage c' = Indirect (first_uses ?input) cap p" "p_bits p = max ?b (min_bits ?k)"
        using 1 by blast
      then show ?thesis using room True by (simp add: set_in_place_def)
    next
      case False
      have "0 < ?b" by (simp add: next_bits_def)
      then obtain vals where "c_storage c' = Direct vals"
        using build_forced_storage [OF 1(1)] False by auto
      then show ?thesis by (simp add: set_in_place_def)
    qed
    then show ?case using 1 grow True by auto
  qed (use grow in auto)
next
  case False
  then show ?thesis by (simp add: grow_def checked_sub_def alloc_error_def roomy_def)
qed

lemma container_set_ok:
  assumes wf: "container_wf c" and env: "alloc_sound env" and i: "i < kind_len (c_kind c)" and v: "valid_id (c_registry c) v"
  shows "(\<exists>c'. container_set env c i v limit = Inr (c', container_values c ! i) \<and> container_wf c' \<and>
      container_values c' = (container_values c)[i := v] \<and> c_kind c' = c_kind c \<and> c_registry c' = c_registry c) \<or>
    (\<exists>e. container_set env c i v limit = Inl e \<and> alloc_error env (limit - heap_bytes c) e)"
proof (cases "set_in_place c i v")
  case (Some m)
  then show ?thesis
    using set_in_place_ok [OF wf i v Some] v i
    by (auto simp: container_set.simps [of env c] container_get_values [OF wf])
next
  case None
  from grow_ok [OF wf env v None, of limit] show ?thesis
  proof (elim disjE exE conjE, goal_cases)
    case (1 c1 budget)
    obtain m where m: "set_in_place c1 i v = Some m" using 1(7) by blast
    obtain c2 where "m = Inr c2" "container_wf c2" "container_values c2 = (container_values c1)[i := v]"
      "c_kind c2 = c_kind c1" "c_registry c2 = c_registry c1"
      using set_in_place_ok [OF 1(2) _ _ m] 1(3,4) i v by auto
    moreover then have "container_set env c1 i v budget = Inr (c2, container_values c1 ! i)"
      using m v i 1(3,4) by (simp add: container_set.simps [of env c1] container_get_values [OF 1(2)])
    ultimately show ?case
      using 1 None v i by (simp add: container_set.simps [of env c] container_get_values [OF wf])
  qed (use None v i in \<open>simp add: container_set.simps [of env c] container_get_values [OF wf]\<close>)
qed

lemma repack_ok:
  assumes wf: "container_wf c" and env: "alloc_sound env"
  shows "(\<exists>c'. repack env c limit = Inr c' \<and> container_wf c' \<and> container_values c' = container_values c \<and>
      c_kind c' = c_kind c \<and> c_registry c' = c_registry c \<and> heap_bytes c + heap_bytes c' \<le> limit) \<or>
    (\<exists>e. repack env c limit = Inl e \<and> alloc_error env (limit - heap_bytes c) e)"
proof (cases "heap_bytes c \<le> limit")
  case True
  have r: "registry_wf (c_registry c)" using wf by (simp add: container_wf_def)
  have input: "length (container_values c) = kind_len (c_kind c)" "\<forall>x \<in> set (container_values c). valid_id (c_registry c) x"
    using length_container_values [OF wf] container_values_valid [OF wf] by auto
  have "repack env c limit = container_build env (c_kind c) (c_registry c) (container_values c) None (limit - heap_bytes c)"
    using True by (simp add: repack_def checked_sub_def read_dense_values [OF wf] from_dense_def)
  then show ?thesis using container_build_ok [OF r env input, of None "limit - heap_bytes c"] True by fastforce
next
  case False
  then show ?thesis by (simp add: repack_def checked_sub_def alloc_error_def roomy_def)
qed

section \<open>Properties\<close>

text \<open>
  C20: a paletted container is a mutable array of registry identifiers, whatever its storage
  form. Reading returns the value at every index of the section and an error beyond; a write of
  a valid identifier at a valid index returns the previous value and changes exactly that one,
  through palette hits, palette growth and the switch to direct storage, and keeps the container
  well-formed. It stops with an allocation error only when the allocator grants something else
  than the exact request or the budget left is under 16384 bytes; other writes are rejected with
  their own errors.
\<close>

theorem container_array_laws:
  assumes "container_wf c" "alloc_sound env"
  shows "container_get c i = (if i < kind_len (c_kind c) then Inr (container_values c ! i) else Inl IndexOutOfBounds) \<and>
    (\<not> v < state_count (c_registry c) \<longrightarrow> container_set env c i v limit = Inl (ValueOutOfRange v)) \<and>
    (v < state_count (c_registry c) \<and> kind_len (c_kind c) \<le> i \<longrightarrow> container_set env c i v limit = Inl IndexOutOfBounds) \<and>
    (v < state_count (c_registry c) \<and> i < kind_len (c_kind c) \<longrightarrow>
      (\<exists>c'. container_set env c i v limit = Inr (c', container_values c ! i) \<and> container_wf c' \<and>
         container_values c' = (container_values c)[i := v]) \<or>
      (\<exists>e. container_set env c i v limit = Inl e \<and> alloc_error env (limit - heap_bytes c) e))"
  using container_get_values [OF assms(1)] container_set_ok [OF assms, of i v limit]
  by (auto simp: container_set.simps [of env c i v limit])

lemma plain_alloc_sound: "alloc_sound plain_env"
  by (simp add: alloc_sound_def plain_env_def)

theorem container_array_laws_witness:
  "container_set plain_env \<lparr>c_kind = Biomes, c_registry = \<lparr>state_count = 4\<rparr>, c_storage = Single 2\<rparr> 5 9 100 =
     Inl (ValueOutOfRange 9) \<and>
   container_get \<lparr>c_kind = Biomes, c_registry = \<lparr>state_count = 4\<rparr>, c_storage = Single 2\<rparr> 64 = Inl IndexOutOfBounds"
proof -
  let ?c = "\<lparr>c_kind = Biomes, c_registry = \<lparr>state_count = 4\<rparr>, c_storage = Single 2\<rparr>"
  have wf: "container_wf ?c" by (simp add: container_wf_def registry_wf_def)
  show ?thesis
    using container_array_laws [OF wf plain_alloc_sound, of 64 9] container_array_laws [OF wf plain_alloc_sound, of 5 9]
    by (simp add: BIOMES_PER_SECTION_def)
qed

text \<open>
  Building from a dense array and repacking keep the contents. With valid identifiers
  \<open>from_dense\<close> returns a well-formed container of exactly the given values within the budget, and
  \<open>repack\<close> a compacted one of the same values, with no panic, no endless probe and no value
  rejected; an allocation error is returned only when the allocator does not grant the exact
  request or the budget is under 16384 bytes.
\<close>

theorem dense_contents_kept:
  assumes "registry_wf r" "alloc_sound env" "length input = kind_len kind" "\<forall>v \<in> set input. v < state_count r"
    and "container_wf c"
  shows "((\<exists>d. from_dense env kind r input limit = Inr d \<and> container_wf d \<and> container_values d = input \<and> heap_bytes d \<le> limit) \<or>
      (\<exists>e. from_dense env kind r input limit = Inl e \<and> alloc_error env limit e)) \<and>
    ((\<exists>d. repack env c limit = Inr d \<and> container_wf d \<and> container_values d = container_values c \<and>
        heap_bytes c + heap_bytes d \<le> limit) \<or>
      (\<exists>e. repack env c limit = Inl e \<and> alloc_error env (limit - heap_bytes c) e))"
  using container_build_ok [OF assms(1-4), of None limit] repack_ok [OF assms(5,2), of limit]
  by (auto simp: from_dense_def)

theorem dense_contents_kept_witness:
  "\<exists>d. from_dense plain_env Biomes \<lparr>state_count = 4\<rparr> (3 # replicate 63 1) 20000 = Inr d \<and>
      container_values d = 3 # replicate 63 1"
proof -
  have wf: "container_wf \<lparr>c_kind = Biomes, c_registry = \<lparr>state_count = 4\<rparr>, c_storage = Single 2\<rparr>"
    by (simp add: container_wf_def registry_wf_def)
  have "registry_wf \<lparr>state_count = 4\<rparr>" "length (3 # replicate 63 1 :: u32 list) = kind_len Biomes"
    "\<forall>v \<in> set (3 # replicate 63 1). v < state_count \<lparr>state_count = 4\<rparr>"
    by (simp_all add: registry_wf_def BIOMES_PER_SECTION_def)
  moreover have "\<not> alloc_error plain_env 20000 e" for e by (simp add: alloc_error_def roomy_def plain_env_def)
  ultimately show ?thesis using dense_contents_kept [OF _ plain_alloc_sound _ _ wf, of _ _ _ 20000] by blast
qed

end
