(* ===== verification/SectionWire.thy ===== *)
theory SectionWire
  imports SectionContainer NbtRoundTrip
begin

text \<open>
  The network form of containers and sections: what is written is read back, the fixed-array
  encoder agrees with building and writing a container, and the size bound of a section holds.
\<close>

section \<open>Bytes written\<close>

lemma append_varint_eq: "append_varint out v = out @ encode_varint v"
  using write_varint_eq [of v "replicate 5 0"] varint_len_bounds [of v]
  by (simp add: append_varint_def MAX_VARINT_BYTES_def)

lemma foldl_append_varint: "foldl append_varint out vs = out @ concat (map encode_varint vs)"
  by (induction vs arbitrary: out) (simp_all add: append_varint_eq)

lemma append_words_eq: "append_words out ws = out @ concat (map (to_be_bytes 8) ws)"
  unfolding append_words_def by (induction ws arbitrary: out) simp_all

definition container_bytes :: "PalettedContainer \<Rightarrow> byte list" where
  "container_bytes c = of_nat (container_bits c) #
     (case c_storage c of
        Single v \<Rightarrow> encode_varint v
      | Indirect palette _ vals \<Rightarrow>
          encode_varint (of_nat (length palette)) @ concat (map encode_varint palette) @
          concat (map (to_be_bytes 8) (p_words vals))
      | Direct vals \<Rightarrow> concat (map (to_be_bytes 8) (p_words vals)))"

lemma length_container_bytes: "length (container_bytes c) = network_len c"
  by (simp add: container_bytes_def network_len_def length_concat comp_def sum_list_triv split: Storage.splits)

lemma container_write_eq:
  "container_write c capacity out =
     (if capacity - length out < network_len c then (Inl OutputCapacity, out) else (Inr (), out @ container_bytes c))"
  by (simp add: container_write_def container_bytes_def append_varint_eq foldl_append_varint append_words_eq
      Let_def split: Storage.splits)

section \<open>Bytes read\<close>

lemma read_int_encode: "section_read_int (encode_varint v @ rest) = Inr (v, rest)"
  by (simp add: section_read_int_def read_encode_varint)

lemma read_palette_encode:
  "\<forall>v \<in> set vs. valid_id r v \<Longrightarrow>
   read_palette r (length vs) (concat (map encode_varint vs) @ rest) = Inr (vs, rest)"
  by (induction vs) (simp_all add: read_int_encode)

lemma be_word_concat: "k < length ws \<Longrightarrow> be_word (concat (map (to_be_bytes 8) ws)) k = ws ! k"
proof (induction ws arbitrary: k)
  case (Cons w ws)
  then show ?case
  proof (cases k)
    case (Suc k')
    have "drop (k * 8) (concat (map (to_be_bytes 8) (w # ws))) = drop (k' * 8) (concat (map (to_be_bytes 8) ws))"
      using Suc by (simp add: drop_append)
    then show ?thesis using Cons Suc by (simp add: be_word_def)
  qed (simp add: be_word_def)
qed simp

lemma wire_key_cell:
  assumes "packed_wf p" "i < p_len p"
  shows "wire_key (p_bits p) (concat (map (to_be_bytes 8) (p_words p))) i = packed_values p ! i"
  using assms word_index_less [OF assms]
  by (simp add: wire_key_def be_word_concat packed_values_def cell_def Let_def)

lemma check_keys_ok:
  "\<forall>i \<in> set is. (if direct then valid_id r (wire_key bits bytes i) else unat (wire_key bits bytes i) < n) \<Longrightarrow>
   check_keys direct r n bits bytes is = Inr ()"
  by (induction "is") (simp_all add: Let_def split: if_splits)

lemma masked_words_same:
  assumes "packed_wf p"
  shows "masked_words (p_bits p) (p_len p) (length (p_words p)) (concat (map (to_be_bytes 8) (p_words p))) = p_words p"
proof (rule nth_equalityI)
  fix j assume "j < length (masked_words (p_bits p) (p_len p) (length (p_words p)) (concat (map (to_be_bytes 8) (p_words p))))"
  then have j: "j < length (p_words p)" by (simp add: masked_words_def)
  let ?u = "word_entries (p_bits p) (p_len p) j * p_bits p"
  note d = packed_dims [OF assms]
  have pad: "bit (p_words p ! j) b \<Longrightarrow> b < ?u" for b
    using assms j padding_clear_iff [OF d(1,2), of "p_len p" 0 "p_words p"] by (simp add: packed_wf_def)
  have "?u \<le> 64 div p_bits p * p_bits p" by (simp add: word_entries_def)
  then have u: "?u \<le> 64" using per_word_bounds(2) [OF d(1,2)] by linarith
  have "p_words p ! j AND drop_bit (64 - ?u) (- 1) = p_words p ! j"
  proof (rule bit_eqI)
    fix b assume "possible_bit TYPE(64 word) b"
    then show "bit (p_words p ! j AND drop_bit (64 - ?u) (- 1)) b = bit (p_words p ! j) b"
      using pad [of b] u by (auto simp: bit_simps)
  qed
  then show "masked_words (p_bits p) (p_len p) (length (p_words p)) (concat (map (to_be_bytes 8) (p_words p))) ! j = p_words p ! j"
    using j by (simp add: masked_words_def be_word_concat)
qed (simp add: masked_words_def)

text \<open>
  A direct storage carries the registry's width as its header, which the reader takes for a
  direct one only when it exceeds the widths of indirect storage.
\<close>

definition header_unambiguous :: "PalettedContainer \<Rightarrow> bool" where
  "header_unambiguous c \<longleftrightarrow>
     (case c_storage c of Direct _ \<Rightarrow> max_bits (c_kind c) < registry_bits (c_registry c) | _ \<Rightarrow> True)"

lemma sint_of_nat_eq: "n \<le> 0x7fffffff \<Longrightarrow> sint (of_nat n :: u32) = int n"
  using unat_of_nat_i32 [of n] by (simp add: sint_uint uint_nat signed_take_bit_int_eq_self)

lemma section_take_append: "length xs = n \<Longrightarrow> section_take n (xs @ ys) = Inr (xs, ys)"
  by (simp add: section_take_def)

lemma section_take_head: "section_take (Suc 0) (x # xs) = Inr ([x], xs)"
  by (simp add: section_take_def)

lemma unat_of_nat_header: "n \<le> 31 \<Longrightarrow> unat (of_nat n :: byte) = n"
  by (simp add: unat_of_nat)

lemma packed_words_bytes:
  assumes "packed_wf p"
  shows "length (concat (map (to_be_bytes 8) (p_words p))) = length (p_words p) * 8"
    "section_word_count (p_bits p) (p_len p) = Inr (length (p_words p))"
    "from_words (p_bits p) (p_len p) (p_words p) c = Inr (p\<lparr>p_capacity := c\<rparr>)"
  using assms packed_dims [OF assms]
  by (auto simp: length_concat comp_def sum_list_triv section_word_count_def from_words_def packed_wf_def)

text \<open>The two packed forms, read back with the capacities the allocator grants now.\<close>

lemma container_read_direct:
  assumes wf: "storage_wf kind r (Direct vals)" and r: "registry_wf r" and h: "max_bits kind < unat h"
  shows "(\<exists>cap. try_reserve_exact env 8 (length (p_words vals)) = Some cap \<and>
      container_read env (h # concat (map (to_be_bytes 8) (p_words vals)) @ rest) kind r limit =
        Inr (\<lparr>c_kind = kind, c_registry = r, c_storage = Direct (vals\<lparr>p_capacity := cap\<rparr>)\<rparr>, rest)) \<or>
    (\<exists>e. container_read env (h # concat (map (to_be_bytes 8) (p_words vals)) @ rest) kind r limit = Inl e \<and>
      alloc_error env limit e)"
proof -
  have p: "packed_wf vals" "p_len vals = kind_len kind" "p_bits vals = registry_bits r" using wf by simp_all
  note d = packed_dims [OF p(1)] and w = packed_words_bytes [OF p(1)]
  let ?bytes = "concat (map (to_be_bytes 8) (p_words vals))" and ?n = "length (p_words vals)"
  have n: "normalized_bits kind (unat h) r = registry_bits r" "registry_bits r \<noteq> 0" "h \<noteq> 0"
    using d(1,2) p h by (auto simp: normalized_bits_def)
  have "check_keys True r 0 (registry_bits r) ?bytes [0..<kind_len kind] = Inr ()"
    using wire_key_cell [OF p(1)] p wf by (intro check_keys_ok) auto
  moreover have "?n * 8 \<le> 16384" using word_bytes_le(1) [of "registry_bits r" kind] d p by simp
  moreover have "masked_words (registry_bits r) (kind_len kind) ?n ?bytes = p_words vals"
    using masked_words_same [OF p(1)] p by simp
  ultimately show ?thesis
    using n h w p
    by (cases "try_reserve_exact env 8 ?n")
      (auto simp: container_read_def section_take_head section_take_append roomy_def alloc_error_def Let_def unat_eq_zero)
qed

lemma container_read_indirect:
  assumes wf: "storage_wf kind r (Indirect pal cap vals)"
  shows "(\<exists>w m. try_reserve_exact env 8 (length (p_words vals)) = Some w \<and>
      try_reserve_exact env 4 (2 ^ p_bits vals) = Some m \<and>
      container_read env (of_nat (p_bits vals) # encode_varint (of_nat (length pal)) @ concat (map encode_varint pal) @
        concat (map (to_be_bytes 8) (p_words vals)) @ rest) kind r limit =
      Inr (\<lparr>c_kind = kind, c_registry = r, c_storage = Indirect pal m (vals\<lparr>p_capacity := w\<rparr>)\<rparr>, rest)) \<or>
    (\<exists>e. container_read env (of_nat (p_bits vals) # encode_varint (of_nat (length pal)) @ concat (map encode_varint pal) @
        concat (map (to_be_bytes 8) (p_words vals)) @ rest) kind r limit = Inl e \<and> alloc_error env limit e)"
proof -
  have p: "packed_wf vals" "p_len vals = kind_len kind" using wf by simp_all
  note d = packed_dims [OF p(1)] and w = packed_words_bytes [OF p(1)]
  let ?bytes = "concat (map (to_be_bytes 8) (p_words vals))" and ?n = "length (p_words vals)" and ?b = "p_bits vals"
  have b: "min_bits kind \<le> ?b" "?b \<le> max_bits kind" "?b \<le> 8" using wf min_max_bits(3) [of kind] by auto
  have n: "normalized_bits kind ?b r = ?b" using b d(1) by (simp add: normalized_bits_def)
  have len: "1 \<le> length pal" "length pal \<le> 2 ^ ?b" "length pal \<le> 256"
    using wf power_bits_le [OF b(2)] by (auto simp: Suc_le_eq)
  then have cnt: "unat (of_nat (length pal) :: u32) = length pal" "\<not> sint (of_nat (length pal) :: u32) < 1"
    by (auto simp: unat_of_nat_i32 sint_of_nat_eq)
  have "check_keys False r (length pal) ?b ?bytes [0..<kind_len kind] = Inr ()"
    using wire_key_cell [OF p(1)] p wf by (intro check_keys_ok) auto
  moreover have "?n * 8 + 2 ^ ?b * 4 \<le> 16384"
    using word_bytes_le(2) [OF d(1,2) b(3), of kind] d(5) p(2) power_bits_le [OF b(2)] by simp
  moreover have "masked_words ?b (kind_len kind) ?n ?bytes = p_words vals"
    using masked_words_same [OF p(1)] p by simp
  moreover have "read_palette r (length pal) (concat (map encode_varint pal) @ ?bytes @ rest) = Inr (pal, ?bytes @ rest)"
    using wf by (intro read_palette_encode) auto
  ultimately show ?thesis
    using n b d(1) len cnt w p unat_of_nat_header [OF d(2)]
    by (cases "try_reserve_exact env 8 ?n"; cases "try_reserve_exact env 4 (2 ^ ?b)")
      (auto simp: container_read_def section_take_head section_take_append roomy_def alloc_error_def Let_def read_int_encode
        packed_heap_bytes_def)
qed

text \<open>
  What reading back a container gives: the container with fresh capacities, or the error of an
  allocation that was not granted as requested.
\<close>

definition same_contents :: "alloc_env \<Rightarrow> nat \<Rightarrow> PalettedContainer \<Rightarrow> PalettedContainer \<Rightarrow> bool" where
  "same_contents env limit c d \<longleftrightarrow>
     container_wf d \<and> c_kind d = c_kind c \<and> c_registry d = c_registry c \<and> container_values d = container_values c \<and>
     container_bytes d = container_bytes c \<and> (roomy env limit \<longrightarrow> heap_bytes d \<le> network_len c + 1024)"

lemma same_contents_direct:
  assumes "container_wf c" "c_storage c = Direct vals"
    and "try_reserve_exact env 8 (length (p_words vals)) = Some cap" "alloc_sound env"
  shows "same_contents env limit c \<lparr>c_kind = c_kind c, c_registry = c_registry c, c_storage = Direct (vals\<lparr>p_capacity := cap\<rparr>)\<rparr>"
  using assms by (auto simp: same_contents_def container_bytes_def container_bits_def container_wf_def container_values_def
        heap_bytes_def network_len_def packed_heap_bytes_def packed_wf_def packed_values_def roomy_def alloc_sound_def)

lemma same_contents_indirect:
  assumes "container_wf c" "c_storage c = Indirect pal cap vals" "try_reserve_exact env 8 (length (p_words vals)) = Some w"
    "try_reserve_exact env 4 (2 ^ p_bits vals) = Some m" "alloc_sound env"
  shows "same_contents env limit c
    \<lparr>c_kind = c_kind c, c_registry = c_registry c, c_storage = Indirect pal m (vals\<lparr>p_capacity := w\<rparr>)\<rparr>"
proof -
  have "2 ^ p_bits vals \<le> (256 :: nat)"
    using assms(1,2) power_bits_le [of "p_bits vals" "c_kind c"] by (simp add: container_wf_def)
  then show ?thesis
    using assms by (auto simp: same_contents_def container_bytes_def container_bits_def container_wf_def container_values_def
        heap_bytes_def network_len_def packed_heap_bytes_def packed_wf_def packed_values_def roomy_def alloc_sound_def)
qed

lemma container_read_bytes:
  assumes "container_wf c" "header_unambiguous c" "alloc_sound env"
  shows "(\<exists>d. container_read env (container_bytes c @ rest) (c_kind c) (c_registry c) limit = Inr (d, rest) \<and>
      same_contents env limit c d) \<or>
    (\<exists>e. container_read env (container_bytes c @ rest) (c_kind c) (c_registry c) limit = Inl e \<and> alloc_error env limit e)"
proof (cases "c_storage c")
  case (Single v)
  then show ?thesis
    using assms(1) by (intro disjI1 exI [of _ c])
      (simp add: container_bytes_def container_bits_def container_read_def section_take_head read_int_encode
        container_single_def container_wf_def Let_def heap_bytes_def same_contents_def)
next
  case (Indirect pal cap vals)
  then have wf: "storage_wf (c_kind c) (c_registry c) (Indirect pal cap vals)" using assms(1) by (simp add: container_wf_def)
  have bytes: "container_bytes c @ rest = of_nat (p_bits vals) # encode_varint (of_nat (length pal)) @
      concat (map encode_varint pal) @ concat (map (to_be_bytes 8) (p_words vals)) @ rest"
    using Indirect by (simp add: container_bytes_def container_bits_def)
  show ?thesis
    using container_read_indirect [OF wf, of env rest limit] same_contents_indirect [OF assms(1) Indirect _ _ assms(3), of _ _ limit]
    unfolding bytes by blast
next
  case (Direct vals)
  then have wf: "storage_wf (c_kind c) (c_registry c) (Direct vals)" "registry_wf (c_registry c)"
    using assms(1) by (simp_all add: container_wf_def)
  let ?h = "of_nat (p_bits vals) :: byte"
  have bytes: "container_bytes c @ rest = ?h # concat (map (to_be_bytes 8) (p_words vals)) @ rest"
    using Direct by (simp add: container_bytes_def container_bits_def)
  have "packed_wf vals" "p_bits vals = registry_bits (c_registry c)" using wf(1) by simp_all
  then have "max_bits (c_kind c) < unat ?h"
    using assms(2) Direct packed_dims(2) [of vals] unat_of_nat_header [of "p_bits vals"] by (simp add: header_unambiguous_def)
  then show ?thesis
    using container_read_direct [OF wf, of ?h env rest limit] same_contents_direct [OF assms(1) Direct _ assms(3), of _ limit]
    unfolding bytes by blast
qed

text \<open>
  An indirect header makes the reader consume a palette length before as many words as it takes
  to hold the cells at that width.
\<close>

lemma section_read_int_shorter: "section_read_int input = Inr (v, rest) \<Longrightarrow> length rest < length input"
proof -
  assume "section_read_int input = Inr (v, rest)"
  then obtain n where n: "read_varint input = Inr (v, n)" "rest = drop n input"
    by (auto simp: section_read_int_def split: sum.splits DecodeError.splits)
  from n(1) have "0 < n" "n \<le> length input" by (simp_all add: read_varint_Inr_iff)
  then show ?thesis using n(2) by simp
qed

lemma read_palette_shorter: "read_palette r n input = Inr (vs, rest) \<Longrightarrow> length rest \<le> length input"
proof (induction n arbitrary: input vs)
  case (Suc n)
  then show ?case by (fastforce simp: result_simps dest: section_read_int_shorter)
qed simp

lemma container_read_indirect_consumes:
  assumes "container_read env (h # input) kind r limit = Inr (d, rest)" "h \<noteq> 0" "unat h \<le> max_bits kind"
  shows "length rest + div_ceil (kind_len kind) (64 div normalized_bits kind (unat h) r) * 8 < length input"
proof -
  let ?b = "normalized_bits kind (unat h) r"
  have h: "\<not> max_bits kind < unat h" "unat h \<noteq> 0" "?b \<noteq> 0"
    using assms(2,3) by (auto simp: normalized_bits_def unat_eq_zero)
  from assms(1) obtain m cursor1 pal cursor2 n bytes where
    m: "section_read_int input = Inr (m, cursor1)" and pal: "read_palette r (unat m) cursor1 = Inr (pal, cursor2)"
    and n: "section_word_count ?b (kind_len kind) = Inr n" and bytes: "section_take (n * 8) cursor2 = Inr (bytes, rest)"
    using h by (auto simp: container_read_def section_take_head Let_def result_simps split: if_splits)
  have "n = div_ceil (kind_len kind) (64 div ?b)" using n by (auto simp: section_word_count_def split: if_splits)
  moreover have "length cursor2 = length rest + n * 8" using bytes by (auto simp: section_take_def split: if_splits)
  ultimately show ?thesis using section_read_int_shorter [OF m] read_palette_shorter [OF pal] by simp
qed

lemma div_ceil_antimono: "0 < b \<Longrightarrow> b \<le> a \<Longrightarrow> div_ceil n a \<le> div_ceil n b"
  using div_ceil_le_iff [of a n "div_ceil n b"] div_ceil_le_iff [of b n "div_ceil n b"] mult_le_mono2 [of b a "div_ceil n b"]
  by linarith

lemma ambiguous_not_read_back:
  assumes "container_wf c" "\<not> header_unambiguous c"
  shows "container_read env (container_bytes c @ rest) (c_kind c) (c_registry c) limit = Inr (d, rest') \<Longrightarrow>
    length rest' < length rest"
proof -
  from assms obtain vals where vals: "c_storage c = Direct vals" "storage_wf (c_kind c) (c_registry c) (Direct vals)"
    "registry_bits (c_registry c) \<le> max_bits (c_kind c)"
    by (cases "c_storage c") (auto simp: header_unambiguous_def container_wf_def)
  then have p: "packed_wf vals" "p_len vals = kind_len (c_kind c)" "p_bits vals \<le> max_bits (c_kind c)" by simp_all
  note d = packed_dims [OF p(1)] and w = packed_words_bytes [OF p(1)]
  let ?h = "of_nat (p_bits vals) :: byte" and ?b = "max (p_bits vals) (min_bits (c_kind c))"
  have h: "unat ?h = p_bits vals" using unat_of_nat_header [OF d(2)] .
  then have h0: "?h \<noteq> 0" "unat ?h \<le> max_bits (c_kind c)" using d(1) p(3) by (auto simp: unat_eq_zero [symmetric])
  have nb: "normalized_bits (c_kind c) (unat ?h) (c_registry c) = ?b" using h d(1) p(3) by (simp add: normalized_bits_def)
  have "64 div ?b \<le> 64 div p_bits vals" using d(1) by (intro div_le_mono2) auto
  moreover have "1 \<le> ?b" "?b \<le> 31" using d(1) p(3) min_max_bits [of "c_kind c"] by (auto simp: max_def)
  then have "0 < 64 div ?b" using per_word_bounds(1) by blast
  ultimately have words: "length (p_words vals) \<le> div_ceil (kind_len (c_kind c)) (64 div ?b)"
    using d(5) p(2) by (simp add: div_ceil_antimono)
  assume "container_read env (container_bytes c @ rest) (c_kind c) (c_registry c) limit = Inr (d, rest')"
  then have "container_read env (?h # concat (map (to_be_bytes 8) (p_words vals)) @ rest) (c_kind c) (c_registry c) limit = Inr (d, rest')"
    using vals(1) by (simp add: container_bytes_def container_bits_def)
  from container_read_indirect_consumes [OF this h0] show ?thesis using words w(1) unfolding nb by simp
qed

section \<open>The fixed-array encoder\<close>

lemma div_ceil_step: "0 < b \<Longrightarrow> 0 < a \<Longrightarrow> div_ceil a b = Suc (div_ceil (a - b) b)"
proof -
  assume b: "0 < b" and a: "0 < a"
  have "div_ceil a b \<le> n \<longleftrightarrow> Suc (div_ceil (a - b) b) \<le> n" for n
  proof (cases n)
    case 0
    then show ?thesis using a b div_ceil_le_iff [OF b, of a 0] by simp
  next
    case (Suc m)
    then show ?thesis using div_ceil_le_iff [OF b, of a n] div_ceil_le_iff [OF b, of "a - b" m] by auto
  qed
  then show ?thesis by (meson le_antisym order_refl)
qed

text \<open>A word with the given values in its consecutive fields, and the words of a list.\<close>

fun group_word :: "nat \<Rightarrow> nat \<Rightarrow> u32 list \<Rightarrow> u64" where
  "group_word bits i [] = 0"
| "group_word bits i (k # ks) = push_bit (i * bits) (ucast k) OR group_word bits (Suc i) ks"

lemma bit_group_word:
  assumes "1 \<le> bits" "bits \<le> 31" "\<forall>k \<in> set ks. unat k < 2 ^ bits"
  shows "bit (group_word bits i ks) b \<longleftrightarrow>
    b < 64 \<and> i \<le> b div bits \<and> b div bits < i + length ks \<and> bit (ks ! (b div bits - i)) (b mod bits)"
  using assms(3)
proof (induction ks arbitrary: i)
  case (Cons k ks)
  have k: "bit k n \<Longrightarrow> n < bits" for n using bit_small_word [of k bits n] Cons.prems by simp
  have "bit (push_bit (i * bits) (ucast k :: u64)) b \<longleftrightarrow> b < 64 \<and> i * bits \<le> b \<and> bit k (b - i * bits)"
    using k by (auto simp: bit_simps dest: bit_imp_le_length)
  also have "\<dots> \<longleftrightarrow> b < 64 \<and> b div bits = i \<and> bit k (b mod bits)"
  proof -
    have "b div bits = i \<Longrightarrow> b - i * bits = b mod bits" by (metis minus_div_mult_eq_mod)
    moreover have "b div bits = i" if "i * bits \<le> b" "bit k (b - i * bits)"
      using div_eq_range [of bits b i] that k [OF that(2)] assms(1) by simp
    moreover have "b div bits = i \<Longrightarrow> i * bits \<le> b" by auto
    ultimately show ?thesis by auto
  qed
  finally have head: "bit (push_bit (i * bits) (ucast k :: u64)) b \<longleftrightarrow> b < 64 \<and> b div bits = i \<and> bit k (b mod bits)" .
  have tail: "bit (group_word bits (Suc i) ks) b \<longleftrightarrow> b < 64 \<and> Suc i \<le> b div bits \<and> b div bits < Suc i + length ks \<and>
      bit (ks ! (b div bits - Suc i)) (b mod bits)" using Cons by simp
  show ?case
    using head tail by (cases "b div bits = i") (auto simp: bit_or_iff nth_Cons' )
qed simp

function group_words :: "nat \<Rightarrow> u32 list \<Rightarrow> u64 list" where
  "group_words bits ks =
     (if ks = [] \<or> 64 div bits = 0 then []
      else group_word bits 0 (take (64 div bits) ks) # group_words bits (drop (64 div bits) ks))"
  by pat_completeness auto
termination
  by (relation "measure (\<lambda>(bits, ks). length ks)") auto

declare group_words.simps [simp del]

lemma group_words_nth:
  assumes "0 < 64 div bits"
  shows "length (group_words bits ks) = div_ceil (length ks) (64 div bits) \<and>
    (\<forall>j < length (group_words bits ks). group_words bits ks ! j = group_word bits 0 (take (64 div bits) (drop (j * (64 div bits)) ks)))"
  using assms
proof (induction bits ks rule: group_words.induct)
  case (1 bits ks)
  show ?case
  proof (cases "ks = []")
    case True
    then show ?thesis by (simp add: group_words.simps div_ceil_def)
  next
    case False
    let ?pw = "64 div bits"
    have eq: "group_words bits ks = group_word bits 0 (take ?pw ks) # group_words bits (drop ?pw ks)"
      using False 1(2) by (simp add: group_words.simps [of bits ks])
    have IH: "length (group_words bits (drop ?pw ks)) = div_ceil (length (drop ?pw ks)) ?pw"
      "\<forall>j < length (group_words bits (drop ?pw ks)). group_words bits (drop ?pw ks) ! j =
         group_word bits 0 (take ?pw (drop (j * ?pw) (drop ?pw ks)))"
      using 1 False by auto
    have "length (group_words bits ks) = div_ceil (length ks) ?pw"
      using eq IH(1) div_ceil_step [OF 1(2), of "length ks"] False by simp
    moreover have "group_words bits ks ! j = group_word bits 0 (take ?pw (drop (j * ?pw) ks))"
      if "j < length (group_words bits ks)" for j
      using that eq IH(2) by (cases j) (simp_all add: add.commute)
    ultimately show ?thesis by blast
  qed
qed

text \<open>Those words are the packed storage of the list.\<close>

lemma group_words_packed:
  fixes c :: nat
  assumes bits: "1 \<le> bits" "bits \<le> 31" and ks: "1 \<le> length ks" "length ks \<le> 4096" "\<forall>k \<in> set ks. unat k < 2 ^ bits"
  defines "p \<equiv> \<lparr>p_bits = bits, p_len = length ks, p_words = group_words bits ks, p_capacity = c\<rparr>"
  shows "packed_wf p \<and> packed_values p = ks"
proof -
  let ?pw = "64 div bits"
  note pw = per_word_bounds [OF bits] and nth = group_words_nth [OF per_word_bounds(1) [OF bits], of ks]
  have word: "bit (group_words bits ks ! j) b \<longleftrightarrow> b < 64 \<and> b div bits < word_entries bits (length ks) j \<and>
      bit (ks ! (j * ?pw + b div bits)) (b mod bits)" if "j < length (group_words bits ks)" for j b
  proof -
    let ?g = "take ?pw (drop (j * ?pw) ks)"
    have g: "\<forall>k \<in> set ?g. unat k < 2 ^ bits" using ks(3) by (meson in_set_dropD in_set_takeD)
    have len: "length ?g = word_entries bits (length ks) j" by (simp add: word_entries_def min.commute)
    have "b div bits < word_entries bits (length ks) j \<Longrightarrow> ?g ! (b div bits) = ks ! (j * ?pw + b div bits)"
      by (simp add: word_entries_less)
    then show ?thesis using that nth bit_group_word [OF bits g, of 0 b] len by auto
  qed
  have wf: "packed_wf p"
    using bits ks nth padding_clear_iff [OF bits, of "length ks" 0 "group_words bits ks"] word
    by (auto simp: p_def packed_wf_def packed_word_count_def MAX_LEN_def less_mult_iff_div)
  have "cell bits (group_words bits ks) i = ks ! i" if i: "i < length ks" for i
  proof (rule bit_eqI)
    fix k
    have j: "i div ?pw < length (group_words bits ks)" using word_index_less [OF wf, of i] i by (simp add: p_def)
    have small: "bit (ks ! i) k \<Longrightarrow> k < bits" using bit_small_word [of "ks ! i" bits k] ks(3) i by simp
    have "Suc (i mod ?pw) * bits \<le> ?pw * bits" using pw(1) by (intro mult_le_mono1) (simp add: Suc_leI)
    then have fits: "k < bits \<Longrightarrow> i mod ?pw * bits + k < 64" using pw(2) by (simp only: mult_Suc)
    have ent: "i mod ?pw < word_entries bits (length ks) (i div ?pw)"
      using i pw(1) by (simp add: word_entries_less div_mult_mod_eq)
    have "k < bits \<Longrightarrow> (i mod ?pw * bits + k) div bits = i mod ?pw" "k < bits \<Longrightarrow> (i mod ?pw * bits + k) mod bits = k"
      using bits(1) by simp_all
    then show "bit (cell bits (group_words bits ks) i) k = bit (ks ! i) k"
      using small fits ent by (auto simp: bit_cell [OF bits(2)] word [OF j] div_mult_mod_eq)
  qed
  then have "packed_values p = ks" by (intro nth_equalityI) (simp_all add: p_def packed_values_def)
  then show ?thesis using wf by blast
qed

text \<open>The encoder's loops compute those words.\<close>

definition wire_keys :: "bool \<Rightarrow> u32 list \<Rightarrow> u32 list \<Rightarrow> u32 list" where
  "wire_keys direct ps vs = (if direct then vs else map (\<lambda>v. of_nat (index_of ps v)) vs)"

lemma pack_group_eq:
  assumes "direct \<or> scratch_holds s ps \<and> length ps \<le> 256 \<and> set vs \<subseteq> set ps"
  shows "pack_group direct s bits i w vs = Inr (w OR group_word bits i (wire_keys direct ps vs))"
  using assms
proof (induction vs arbitrary: i w)
  case (Cons v vs)
  then show ?case by (cases direct) (auto simp: wire_keys_def find_unwrap_index or.assoc)
qed (simp add: wire_keys_def)

lemma pack_groups_eq:
  assumes "direct \<or> scratch_holds s ps \<and> length ps \<le> 256 \<and> set vs \<subseteq> set ps" "0 < 64 div bits"
  shows "pack_groups direct s bits vs out =
    (Inr (), out @ concat (map (to_be_bytes 8) (group_words bits (wire_keys direct ps vs))))"
  using assms
proof (induction direct s bits vs out rule: pack_groups.induct)
  case (1 direct s bits vs out)
  show ?case
  proof (cases "vs = []")
    case True
    then show ?thesis by (simp add: pack_groups.simps wire_keys_def group_words.simps)
  next
    case False
    let ?pw = "64 div bits"
    have sub: "set (take ?pw vs) \<subseteq> set vs" "set (drop ?pw vs) \<subseteq> set vs" by (simp_all add: set_take_subset set_drop_subset)
    have keys: "wire_keys direct ps (take ?pw vs) = take ?pw (wire_keys direct ps vs)"
      "wire_keys direct ps (drop ?pw vs) = drop ?pw (wire_keys direct ps vs)" "wire_keys direct ps vs \<noteq> []"
      using False by (simp_all add: wire_keys_def take_map drop_map)
    have g: "pack_group direct s bits 0 0 (take ?pw vs) = Inr (group_word bits 0 (wire_keys direct ps (take ?pw vs)))"
      using pack_group_eq [of direct s ps "take ?pw vs" bits 0 0] 1(2) sub by auto
    have "pack_groups direct s bits (drop ?pw vs) (out @ to_be_bytes 8 (group_word bits 0 (wire_keys direct ps (take ?pw vs)))) =
      (Inr (), (out @ to_be_bytes 8 (group_word bits 0 (wire_keys direct ps (take ?pw vs)))) @
        concat (map (to_be_bytes 8) (group_words bits (wire_keys direct ps (drop ?pw vs)))))"
      using 1(1) [OF False _ g] 1(2,3) sub(2) by auto
    then show ?thesis
      using False 1(3) g keys by (simp add: pack_groups.simps [of direct s bits vs out] group_words.simps [of bits "wire_keys direct ps vs"])
  qed
qed

lemma build_storage_direct: "build_storage env kind r input s b limit = Inr st \<Longrightarrow> max_bits kind < b \<Longrightarrow> \<exists>vals. st = Direct vals"
  by (auto simp: build_storage_def Let_def result_simps split: if_splits)

lemma keys_of_values:
  assumes "map (\<lambda>k. ps ! unat k) ks = vs" "distinct ps" "\<forall>k \<in> set ks. unat k < length ps"
  shows "ks = map (\<lambda>v. of_nat (index_of ps v)) vs"
proof (rule nth_equalityI)
  show "length ks = length (map (\<lambda>v. of_nat (index_of ps v)) vs)" using assms(1) by auto
  fix i assume i: "i < length ks"
  let ?v = "ps ! unat (ks ! i)"
  have lt: "unat (ks ! i) < length ps" using assms(3) i by simp
  then have "?v \<in> set ps" by simp
  from index_of_found [OF this] have "index_of ps ?v = unat (ks ! i)"
    using lt assms(2) by (metis nth_eq_iff_index_eq)
  then show "ks ! i = map (\<lambda>v. of_nat (index_of ps v)) vs ! i" using i assms(1) by auto
qed

text \<open>
  The words of a storage that holds the input are the words the encoder writes.
\<close>

lemma storage_words:
  assumes wf: "packed_wf vals" "p_len vals = kind_len kind" and ks: "packed_values vals = ks"
  shows "p_words vals = group_words (p_bits vals) ks"
proof -
  note d = packed_dims [OF wf(1)]
  have len: "length ks = p_len vals" using ks by auto
  have small: "\<forall>k \<in> set ks. unat k < 2 ^ p_bits vals" using packed_values_small [OF wf(1)] ks by blast
  define q where "q = \<lparr>p_bits = p_bits vals, p_len = length ks, p_words = group_words (p_bits vals) ks, p_capacity = 0\<rparr>"
  have "1 \<le> length ks" "length ks \<le> 4096" using d(3,4) len by simp_all
  from group_words_packed [OF d(1,2) this small, of 0] have q: "packed_wf q" "packed_values q = ks"
    unfolding q_def by blast+
  have "p_words vals = p_words q"
    by (rule packed_canonical [OF wf(1) q(1)]) (use len ks q(2) in \<open>simp_all add: q_def\<close>)
  then show ?thesis by (simp add: q_def)
qed

lemma encode_dense_eq:
  assumes r: "registry_wf r" and env: "alloc_sound env" and input: "length input = kind_len kind" "\<forall>v \<in> set input. valid_id r v"
    and c: "from_dense env kind r input limit = Inr c"
  shows "encode_dense kind r input out = (Inr (), out @ container_bytes c)"
proof -
  obtain s where s: "insert_ids scratch_new input = Inr s" "scratch_holds s (first_uses input)"
    by (rule insert_ids_new)
  have pos: "0 < scratch_len s"
    using scratch_holds_len [OF s(2)] length_first_uses_pos [of input] input(1) kind_len_pos [of kind] by (cases input) auto
  show ?thesis
  proof (cases "scratch_len s = 1")
    case True
    then have "container_single kind r (input ! 0) = Inr c"
      using c input s(1) by (simp add: from_dense_def container_build_def scan_dense_valid needed_bits_def)
    then have "c_storage c = Single (input ! 0)" by (auto simp: container_single_def result_simps)
    then show ?thesis
      using True s(1) by (simp add: encode_dense_def container_bytes_def container_bits_def append_varint_eq)
  next
    case False
    let ?b = "needed_bits (scratch_len s)"
    have b: "?b = bit_len (scratch_len s - 1)" "?b \<noteq> 0" using False pos by (auto simp: needed_bits_def)
    from c obtain st where st: "build_storage env kind r input s ?b limit = Inr st" "c_storage c = st"
      using input s(1) b(2) by (auto simp: from_dense_def container_build_def scan_dense_valid result_simps)
    have ok: "width_ok kind r input ?b"
      using needed_bits_width [OF r input(2) scratch_holds_len [OF s(2)]] False pos by simp
    have built: "storage_wf kind r st \<and> storage_values kind st = input \<and>
        (?b \<le> max_bits kind \<longrightarrow> (\<exists>cap p. st = Indirect (first_uses input) cap p \<and> p_bits p = max ?b (min_bits kind)))"
      using build_storage_ok [OF r env input s(2) ok, of limit] st(1) by simp
    note nb = normalized_bits_range [OF r ok]
    show ?thesis
    proof (cases "?b \<le> max_bits kind")
      case True
      then obtain cap vals where vals: "st = Indirect (first_uses input) cap vals" "p_bits vals = max ?b (min_bits kind)"
        "storage_wf kind r st" "storage_values kind st = input" using built by blast
      have nrm: "normalized_bits kind ?b r = p_bits vals" using True b(2) vals(2) by (simp add: normalized_bits_def)
      have "length (first_uses input) \<le> 2 ^ p_bits vals" "p_bits vals \<le> max_bits kind" using vals(1,3) by simp_all
      then have le: "length (first_uses input) \<le> 256" using power_bits_le [of "p_bits vals" kind] by simp
      then have scr: "scratch_len s = length (first_uses input)" "take (scratch_len s) (ids s) = first_uses input"
        using s(2) by (simp_all add: scratch_holds_def scratch_inv_def)
      have keys: "packed_values vals = wire_keys False (first_uses input) input"
        using keys_of_values [of "first_uses input" "packed_values vals" input] vals by (simp add: wire_keys_def)
      have "p_words vals = group_words (p_bits vals) (wire_keys False (first_uses input) input)"
        using storage_words [OF _ _ keys, of kind] vals(1,3) by simp
      moreover have "pack_groups False s (p_bits vals) input out' =
          (Inr (), out' @ concat (map (to_be_bytes 8) (group_words (p_bits vals) (wire_keys False (first_uses input) input))))" for out'
        using pack_groups_eq [of False s "first_uses input" input "p_bits vals"] s(2) le per_word_bounds(1) [OF nb] nrm by simp
      ultimately show ?thesis
        using True False s(1) scr le st(2) vals(1) nrm b
        by (simp add: encode_dense_def container_bytes_def container_bits_def append_varint_eq foldl_append_varint Let_def)
    next
      case False
      then obtain vals where vals: "st = Direct vals" "storage_wf kind r st" "packed_values vals = input"
        using build_storage_direct [OF st(1)] built by fastforce
      have nrm: "normalized_bits kind ?b r = p_bits vals" using False b(2) vals by (simp add: normalized_bits_def)
      have "p_words vals = group_words (p_bits vals) (wire_keys True [] input)"
        using storage_words [OF _ _ vals(3), of kind] vals(1,2) by (simp add: wire_keys_def)
      moreover have "pack_groups True s (p_bits vals) input out' =
          (Inr (), out' @ concat (map (to_be_bytes 8) (group_words (p_bits vals) (wire_keys True [] input))))" for out'
        using pack_groups_eq [of True s "[]" input "p_bits vals"] per_word_bounds(1) [OF nb] nrm by simp
      ultimately show ?thesis
        using False \<open>scratch_len s \<noteq> 1\<close> s(1) st(2) vals(1) nrm b
        by (simp add: encode_dense_def container_bytes_def container_bits_def Let_def)
    qed
  qed
qed

section \<open>Reading arbitrary bytes\<close>

lemma check_keys_Inr:
  "check_keys direct r n bits bytes is = Inr u \<Longrightarrow> i \<in> set is \<Longrightarrow>
   (if direct then valid_id r (wire_key bits bytes i) else unat (wire_key bits bytes i) < n)"
  by (induction "is") (auto simp: Let_def result_simps registry_validate_def split: if_splits)

lemma read_palette_Inr:
  "read_palette r n input = Inr (vs, rest) \<Longrightarrow> length vs = n \<and> (\<forall>v \<in> set vs. valid_id r v) \<and> (\<exists>k. rest = drop k input)"
proof (induction n arbitrary: input vs)
  case (Suc n)
  then obtain v input1 vs1 where v: "section_read_int input = Inr (v, input1)" "valid_id r v"
    "read_palette r n input1 = Inr (vs1, rest)" "vs = v # vs1"
    by (auto simp: result_simps registry_validate_def)
  obtain k1 where "input1 = drop k1 input"
    using v(1) by (auto simp: section_read_int_def split: sum.splits DecodeError.splits)
  then show ?case using Suc.IH [OF v(3)] v(2,4) by auto
qed (auto intro: exI [of _ 0])

lemma masked_cells:
  assumes p: "packed_wf p" "p_words p = masked_words (p_bits p) (p_len p) n bytes" and i: "i < p_len p"
  shows "packed_values p ! i = wire_key (p_bits p) bytes i"
proof (rule bit_eqI)
  fix k
  let ?bits = "p_bits p" and ?pw = "64 div p_bits p"
  note d = packed_dims [OF p(1)]
  have j: "i div ?pw < n" using word_index_less [OF p(1) i] p(2) by (simp add: masked_words_def)
  have ent: "i mod ?pw < word_entries ?bits (p_len p) (i div ?pw)"
    using i per_word_bounds [OF d(1,2)] by (simp add: word_entries_less div_mult_mod_eq)
  then have "Suc (i mod ?pw) * ?bits \<le> word_entries ?bits (p_len p) (i div ?pw) * ?bits" by (intro mult_le_mono1) simp
  then have "k < ?bits \<Longrightarrow> i mod ?pw * ?bits + k < word_entries ?bits (p_len p) (i div ?pw) * ?bits"
    by (simp only: mult_Suc)
  moreover have "word_entries ?bits (p_len p) (i div ?pw) * ?bits \<le> ?pw * ?bits" by (simp add: word_entries_def)
  then have "word_entries ?bits (p_len p) (i div ?pw) * ?bits \<le> 64" using per_word_bounds(2) [OF d(1,2)] by linarith
  ultimately show "bit (packed_values p ! i) k = bit (wire_key ?bits bytes i) k"
    using i j d(2) by (auto simp: packed_values_def bit_cell p(2) masked_words_def wire_key_def Let_def bit_simps)
qed

text \<open>What a successful read of the packed part leaves in the storage.\<close>

lemma container_read_storage:
  assumes r: "registry_wf r" and env: "alloc_sound env" and read: "container_read env input kind r limit = Inr (c, rest)"
  shows "container_wf c \<and> c_kind c = kind \<and> c_registry c = r \<and> heap_bytes c \<le> limit"
proof -
  from read obtain head cursor where t: "section_take 1 input = Inr (head, cursor)"
    by (auto simp: container_read_def result_simps)
  let ?h = "unat (head ! 0)" and ?len = "kind_len kind"
  let ?b = "normalized_bits kind ?h r"
  show ?thesis
  proof (cases "?h = 0")
    case True
    then show ?thesis
      using read t r by (auto simp: container_read_def result_simps container_single_def registry_validate_def
          container_wf_def heap_bytes_def Let_def)
  next
    case False
    let ?direct = "?h > max_bits kind"
    let ?pal = "if ?direct then Inr ([], cursor) else bind_r (section_read_int cursor) (\<lambda>(n, cursor).
        if sint n < 1 \<or> unat n > 2 ^ ?b then Inl (InvalidPaletteLength n) else read_palette r (unat n) cursor)"
    from read t False obtain pal cursor1 n bytes cap vals st where
      b: "?b \<noteq> 0" and pal: "?pal = Inr (pal, cursor1)" and keys: "check_keys ?direct r (length pal) ?b bytes [0..<?len] = Inr ()"
      and cap: "cap * 8 + (if ?direct then 0 else 2 ^ ?b * 4) \<le> limit"
      and vals: "from_words ?b ?len (masked_words ?b ?len n bytes) cap = Inr vals"
      and st: "c = \<lparr>c_kind = kind, c_registry = r, c_storage = st\<rparr>"
        "if ?direct then st = Direct vals else (\<exists>pc. try_reserve_exact env 4 (2 ^ ?b) = Some pc \<and>
           pc * 4 + packed_heap_bytes vals \<le> limit \<and> st = Indirect pal pc vals)"
      by (auto simp: container_read_def result_simps Let_def not_less split: if_splits)
    note v = from_words_ok [OF vals]
    have key: "packed_values vals ! i = wire_key ?b bytes i" if "i < ?len" for i
      using masked_cells [of vals n bytes i] v that by auto
    then have all: "\<forall>k \<in> set (packed_values vals). if ?direct then valid_id r k else unat k < length pal"
      using check_keys_Inr [OF keys] v by (auto simp: in_set_conv_nth)
    show ?thesis
    proof (cases ?direct)
      case True
      then show ?thesis
        using st v all r cap by (auto simp: container_wf_def heap_bytes_def packed_heap_bytes_def normalized_bits_def)
    next
      case False
      then obtain m :: u32 and cursor2 where m: "\<not> sint m < 1" "unat m \<le> 2 ^ ?b" "read_palette r (unat m) cursor2 = Inr (pal, cursor1)"
        using pal by (auto simp: result_simps not_less split: if_splits)
      have "m \<noteq> 0" using m(1) by auto
      then have pl: "pal \<noteq> []" "length pal \<le> 2 ^ ?b" "\<forall>x \<in> set pal. valid_id r x"
        using read_palette_Inr [OF m(3)] m(2) by (auto simp: unat_eq_zero)
      have bits: "min_bits kind \<le> ?b" "?b \<le> max_bits kind"
        using False \<open>?h \<noteq> 0\<close> min_max_bits [of kind] by (simp_all add: normalized_bits_def)
      show ?thesis
        using False st v all r pl bits env by (auto simp: container_wf_def heap_bytes_def alloc_sound_def)
    qed
  qed
qed

section \<open>Bounds\<close>

lemma varint_len_le_5: "varint_len v \<le> 5"
  using varint_len_bounds [of v] by (simp add: MAX_VARINT_BYTES_def)

definition max_network_len :: "ContainerKind \<Rightarrow> nat" where
  "max_network_len kind = 1 + kind_len kind div 2 * 8"

lemma words_le_half:
  assumes "packed_wf p" "p_len p = kind_len kind"
  shows "length (p_words p) \<le> kind_len kind div 2"
proof -
  note d = packed_dims [OF assms(1)]
  have "64 div 31 \<le> 64 div p_bits p" using d(1,2) by (intro div_le_mono2) auto
  then have pw: "2 \<le> 64 div p_bits p" by simp
  have "kind_len kind = kind_len kind div 2 * 2" by (cases kind) (simp_all add: BLOCKS_PER_SECTION_def BIOMES_PER_SECTION_def)
  also have "\<dots> \<le> kind_len kind div 2 * (64 div p_bits p)" using pw by (rule mult_le_mono2)
  finally show ?thesis using pw d(5) assms(2) by (simp add: div_ceil_le_iff)
qed

lemma indirect_len_le:
  assumes "storage_wf kind r (Indirect pal cap vals)"
  shows "1 + varint_len (of_nat (length pal)) + sum_list (map varint_len pal) + length (p_words vals) * 8 \<le> max_network_len kind"
proof -
  have p: "packed_wf vals" "p_len vals = kind_len kind" "p_bits vals \<le> max_bits kind" "length pal \<le> 2 ^ p_bits vals"
    using assms by simp_all
  note d = packed_dims [OF p(1)]
  have "sum_list (map varint_len pal) \<le> sum_list (map (\<lambda>_. 5) pal)" by (rule sum_list_mono) (rule varint_len_le_5)
  then have sum: "sum_list (map varint_len pal) \<le> 5 * length pal" by (simp add: sum_list_triv)
  have "length pal \<le> 2 ^ max_bits kind" 
    by (rule order_trans [OF p(4) power_increasing [OF p(3)]]) simp
  moreover have "length (p_words vals) \<le> n" if "kind_len kind \<le> n * (64 div max_bits kind)" for n
  proof -
    have "64 div max_bits kind \<le> 64 div p_bits vals" using p(3) d(1) by (intro div_le_mono2) auto
    then have "kind_len kind \<le> n * (64 div p_bits vals)" by (rule order_trans [OF that mult_le_mono2])
    then show ?thesis using d(5) p(2) per_word_bounds(1) [OF d(1,2)] by (simp add: div_ceil_le_iff)
  qed
  note words = this [of "kind_len kind div 8"]
  show ?thesis
    using calculation words sum varint_len_le_5 [of "of_nat (length pal)"]
    by (cases kind) (simp_all add: max_network_len_def BLOCKS_PER_SECTION_def BIOMES_PER_SECTION_def)
qed

lemma network_len_le: "container_wf c \<Longrightarrow> network_len c \<le> max_network_len (c_kind c)"
proof (cases "c_storage c")
  case (Single v)
  then show ?thesis
    using varint_len_le_5 [of v]
    by (cases "c_kind c") (simp_all add: network_len_def max_network_len_def BLOCKS_PER_SECTION_def BIOMES_PER_SECTION_def)
next
  case (Indirect pal cap vals)
  assume "container_wf c"
  then show ?thesis using Indirect indirect_len_le by (fastforce simp: network_len_def container_wf_def)
next
  case (Direct vals)
  assume "container_wf c"
  then show ?thesis using Direct words_le_half [of vals "c_kind c"] by (simp add: network_len_def max_network_len_def container_wf_def)
qed

text \<open>A container built from a dense array has an unambiguous header.\<close>

lemma distinct_ids_le:
  assumes "distinct ps" "\<forall>v \<in> set ps. valid_id r v"
  shows "length ps \<le> unat (state_count r)"
proof -
  have "card (set ps) \<le> card {..<unat (state_count r)}"
    by (rule card_inj_on_le [of unat]) (use assms(2) in \<open>auto simp: inj_on_def word_less_nat_alt intro: unsigned_word_eqI\<close>)
  then show ?thesis using distinct_card [OF assms(1)] by simp
qed

lemma from_dense_header:
  assumes r: "registry_wf r" and input: "length input = kind_len kind" "\<forall>v \<in> set input. valid_id r v"
    and c: "from_dense env kind r input limit = Inr c"
  shows "header_unambiguous c"
proof -
  obtain s where s: "insert_ids scratch_new input = Inr s" "scratch_holds s (first_uses input)"
    by (rule insert_ids_new)
  note len = scratch_holds_len [OF s(2)]
  let ?b = "needed_bits (scratch_len s)"
  have ck: "c_kind c = kind \<and> c_registry c = r"
    using c by (auto simp: from_dense_def container_build_def container_single_def result_simps Let_def split: if_splits)
  show ?thesis
  proof (cases "?b \<le> max_bits kind")
    case True
    have "\<nexists>vals. c_storage c = Direct vals"
      using c input s(1) True
      by (auto simp: from_dense_def container_build_def scan_dense_valid container_single_def build_storage_def result_simps Let_def
          split: if_splits)
    then show ?thesis by (cases "c_storage c") (simp_all add: header_unambiguous_def)
  next
    case False
    have "length (first_uses input) \<le> unat (state_count r)" using input(2) by (intro distinct_ids_le) auto
    then have "scratch_len s - 1 \<le> unat (state_count r) - 1" using len by simp
    then have "bit_len (scratch_len s - 1) \<le> registry_bits r"
      using bit_len_le_iff [of "scratch_len s - 1" "registry_bits r"]
        bit_len_le_iff [of "unat (state_count r) - 1" "registry_bits r"] registry_bits_eq [OF r] by simp
    then show ?thesis
      using False ck by (auto simp: needed_bits_def header_unambiguous_def split: if_splits Storage.splits)
  qed
qed

section \<open>Properties\<close>

text \<open>
  C2: writing a container to the network and reading it back. Without \<open>network_len\<close> bytes of spare
  capacity the write reports \<open>OutputCapacity\<close> and leaves the output alone; with them it appends
  exactly \<open>network_len\<close> bytes. If the container has an unambiguous header (it is not a direct
  container over a registry no wider than the widest palette), the reader consumes exactly those
  bytes and returns a well-formed container of the same kind, registry and values that would be
  written identically, or stops with an allocation error, which an allocator that grants exactly
  the requests and a limit of 16384 bytes rule out. With an ambiguous header the reader never
  consumes exactly those bytes.
\<close>

theorem container_network_round_trip:
  assumes "container_wf c" "alloc_sound env"
  shows "if capacity < length out + network_len c then container_write c capacity out = (Inl OutputCapacity, out)
    else \<exists>bs. container_write c capacity out = (Inr (), out @ bs) \<and> length bs = network_len c \<and>
      (if header_unambiguous c then
         (\<exists>d. container_read env (bs @ rest) (c_kind c) (c_registry c) limit = Inr (d, rest) \<and> container_wf d \<and>
            c_kind d = c_kind c \<and> c_registry d = c_registry c \<and> container_values d = container_values c \<and>
            container_write d capacity out = (Inr (), out @ bs)) \<or>
         (\<exists>e. container_read env (bs @ rest) (c_kind c) (c_registry c) limit = Inl e \<and> alloc_error env limit e)
       else \<nexists>d. container_read env (bs @ rest) (c_kind c) (c_registry c) limit = Inr (d, rest))"
proof (cases "capacity < length out + network_len c")
  case True
  moreover have "0 < network_len c" by (simp add: network_len_def split: Storage.splits)
  ultimately have "capacity - length out < network_len c" by linarith
  then show ?thesis using True by (simp add: container_write_eq)
next
  case False
  then have fits: "\<not> capacity - length out < network_len c" by linarith
  have same: "container_write d capacity out = (Inr (), out @ container_bytes c)" if "container_bytes d = container_bytes c" for d
    using fits that length_container_bytes [of c] length_container_bytes [of d] by (simp add: container_write_eq)
  have "if header_unambiguous c then
      (\<exists>d. container_read env (container_bytes c @ rest) (c_kind c) (c_registry c) limit = Inr (d, rest) \<and> same_contents env limit c d) \<or>
      (\<exists>e. container_read env (container_bytes c @ rest) (c_kind c) (c_registry c) limit = Inl e \<and> alloc_error env limit e)
    else \<nexists>d. container_read env (container_bytes c @ rest) (c_kind c) (c_registry c) limit = Inr (d, rest)"
    using container_read_bytes [OF assms(1) _ assms(2)] ambiguous_not_read_back [OF assms(1), of env rest limit _ rest] by auto
  then show ?thesis
    using False same length_container_bytes [of c] unfolding same_contents_def
    by (auto intro!: exI [of _ "container_bytes c"] split: if_splits)
qed

theorem container_network_round_trip_witness:
  "(\<exists>bs d. container_write \<lparr>c_kind = Biomes, c_registry = \<lparr>state_count = 4\<rparr>, c_storage = Single 2\<rparr> 10 [9] = (Inr (), [9] @ bs) \<and>
     length bs = 2 \<and>
     container_read plain_env (bs @ [8]) Biomes \<lparr>state_count = 4\<rparr> 20000 = Inr (d, [8]) \<and>
     container_values d = replicate 64 2) \<and>
   container_write \<lparr>c_kind = Biomes, c_registry = \<lparr>state_count = 4\<rparr>, c_storage = Single 2\<rparr> 2 [9] = (Inl OutputCapacity, [9])"
proof -
  let ?c = "\<lparr>c_kind = Biomes, c_registry = \<lparr>state_count = 4\<rparr>, c_storage = Single 2\<rparr>"
  have "varint_len 2 = 1" using varint_len_le_iff [of 2 1] varint_len_bounds [of 2] by simp
  then have n: "network_len ?c = 2" by (simp add: network_len_def)
  have c: "container_wf ?c" "header_unambiguous ?c" by (simp_all add: container_wf_def registry_wf_def header_unambiguous_def)
  have room: "\<not> alloc_error plain_env 20000 e" for e by (simp add: alloc_error_def roomy_def plain_env_def)
  show ?thesis
    using container_network_round_trip [OF c(1) plain_alloc_sound, of 10 "[9]" "[8]" 20000]
      container_network_round_trip [OF c(1) plain_alloc_sound, of 2 "[9]"] n c(2) room
    by (simp add: container_values_def BIOMES_PER_SECTION_def) blast
qed

text \<open>
  C30: the allocation-free encoder is the container path. Whenever building a container from a
  dense array succeeds, \<open>encode_dense\<close> appends exactly the bytes that writing this container
  appends, and never panics.
\<close>

theorem encode_dense_is_container_write:
  assumes "registry_wf r" "alloc_sound env" "length input = kind_len kind" "\<forall>v \<in> set input. v < state_count r"
    and "from_dense env kind r input limit = Inr c" "length out + network_len c \<le> capacity"
  shows "encode_dense kind r input out = container_write c capacity out"
  using encode_dense_eq [OF assms(1-5), of out] assms(6) by (simp add: container_write_eq)

theorem encode_dense_is_container_write_witness:
  "encode_dense Biomes \<lparr>state_count = 4\<rparr> (replicate 64 2) [] =
   container_write \<lparr>c_kind = Biomes, c_registry = \<lparr>state_count = 4\<rparr>, c_storage = Single 2\<rparr> 100 []"
proof -
  let ?c = "\<lparr>c_kind = Biomes, c_registry = \<lparr>state_count = 4\<rparr>, c_storage = Single 2\<rparr>"
  have input: "registry_wf \<lparr>state_count = 4\<rparr>" "length (replicate 64 2 :: u32 list) = kind_len Biomes"
    "\<forall>v \<in> set (replicate 64 2). v < state_count \<lparr>state_count = 4\<rparr>"
    by (simp_all add: registry_wf_def BIOMES_PER_SECTION_def)
  obtain s where s: "insert_ids scratch_new (replicate 64 2) = Inr s" "scratch_holds s (first_uses (replicate 64 2))"
    by (rule insert_ids_new)
  have "foldl add_first_use [2] (replicate n 2) = [2]" for n
    by (induction n) (simp_all add: add_first_use_def)
  moreover have "(64 :: nat) = Suc 63" by simp
  then have "replicate 64 (2 :: u32) = 2 # replicate 63 2" by (simp only: replicate_Suc)
  ultimately have "first_uses (replicate 64 2) = [2]" by (simp add: first_uses_def add_first_use_def)
  then have "scratch_len s = 1" using scratch_holds_len [OF s(2)] by simp
  then have "from_dense plain_env Biomes \<lparr>state_count = 4\<rparr> (replicate 64 2) 20000 = Inr ?c"
    using s(1) input scan_dense_valid [OF input(3)]
    by (simp add: from_dense_def container_build_def needed_bits_def container_single_def)
  moreover have "length [] + network_len ?c \<le> 100" using varint_len_le_5 [of 2] by (simp add: network_len_def)
  ultimately show ?thesis
    using encode_dense_is_container_write [OF input(1) plain_alloc_sound input(2,3)] by blast
qed

text \<open>
  C31: the reader admits only well-formed containers. Whatever bytes are decoded, a container that
  comes back satisfies the invariant (every palette entry and direct value is a registry
  identifier, every key is inside the palette, unused bits are zero), has the requested kind and
  registry, and its heap size is within the caller's limit.
\<close>

theorem container_read_admits_wf:
  assumes "registry_wf r" "alloc_sound env" "container_read env input kind r limit = Inr (c, rest)"
  shows "container_wf c \<and> c_kind c = kind \<and> c_registry c = r \<and> heap_bytes c \<le> limit"
  using container_read_storage [OF assms] .

theorem container_read_admits_wf_witness:
  "container_read plain_env [0, 3, 7] Biomes \<lparr>state_count = 4\<rparr> 0 =
     Inr (\<lparr>c_kind = Biomes, c_registry = \<lparr>state_count = 4\<rparr>, c_storage = Single 3\<rparr>, [7]) \<and>
   container_wf \<lparr>c_kind = Biomes, c_registry = \<lparr>state_count = 4\<rparr>, c_storage = Single 3\<rparr>"
proof -
  have r: "registry_wf \<lparr>state_count = 4\<rparr>" by (simp add: registry_wf_def)
  have *: "container_read plain_env [0, 3, 7] Biomes \<lparr>state_count = 4\<rparr> 0 =
     Inr (\<lparr>c_kind = Biomes, c_registry = \<lparr>state_count = 4\<rparr>, c_storage = Single 3\<rparr>, [7])"
    by (simp add: container_read_def section_take_def section_read_int_def read_varint_def MAX_VARINT_BYTES_def
        container_single_def)
  show ?thesis using * container_read_admits_wf [OF r plain_alloc_sound *] by blast
qed

text \<open>
  C35: the reader accepts direct containers that it cannot read back. Over a registry no wider than
  the widest palette of the kind, a packet with any direct header and the words of valid
  identifiers is accepted (allocations permitting) as a direct container of these values; written
  again, this container has the registry's width for its header, and whatever the allocator and the
  limit the reader rejects those bytes, or, if other bytes follow, eats into them.
\<close>

theorem direct_header_ambiguous:
  assumes "container_wf c" "c_storage c = Direct vals" "registry_bits (c_registry c) \<le> max_bits (c_kind c)"
    and "max_bits (c_kind c) < unat h" "alloc_sound env" "roomy env limit"
  shows "\<exists>d bs. container_read env (h # concat (map (to_be_bytes 8) (p_words vals))) (c_kind c) (c_registry c) limit = Inr (d, []) \<and>
    container_wf d \<and> container_values d = container_values c \<and>
    container_write d (network_len c) [] = (Inr (), bs) \<and>
    (\<forall>env' limit'. \<exists>e. container_read env' bs (c_kind c) (c_registry c) limit' = Inl e) \<and>
    (\<forall>env' limit' rest x rest'. container_read env' (bs @ rest) (c_kind c) (c_registry c) limit' = Inr (x, rest') \<longrightarrow>
       length rest' < length rest)"
proof -
  have wf: "storage_wf (c_kind c) (c_registry c) (Direct vals)" "registry_wf (c_registry c)"
    using assms(1,2) by (simp_all add: container_wf_def)
  obtain d where d: "container_read env (h # concat (map (to_be_bytes 8) (p_words vals))) (c_kind c) (c_registry c) limit = Inr (d, [])"
    "same_contents env limit c d"
    using container_read_direct [OF wf assms(4), of env "[]" limit] same_contents_direct [OF assms(1,2) _ assms(5), of _ limit] assms(6)
    by (auto simp: alloc_error_def)
  have amb: "\<not> header_unambiguous c" using assms(2,3) by (simp add: header_unambiguous_def)
  note eats = ambiguous_not_read_back [OF assms(1) amb]
  have "\<exists>e. container_read env' (container_bytes c) (c_kind c) (c_registry c) limit' = Inl e" for env' limit'
    using eats [of env' "[]" limit'] by (cases "container_read env' (container_bytes c) (c_kind c) (c_registry c) limit'") auto
  moreover have "container_write d (network_len c) [] = (Inr (), container_bytes c)"
    using d(2) length_container_bytes [of c] length_container_bytes [of d] by (simp add: container_write_eq same_contents_def)
  ultimately show ?thesis using d eats unfolding same_contents_def by blast
qed

theorem direct_header_ambiguous_witness:
  "\<exists>d bs. container_read plain_env (9 # concat (map (to_be_bytes 8) [5, 3 :: u64])) Biomes \<lparr>state_count = 4\<rparr> 20000 = Inr (d, []) \<and>
     take 3 (container_values d) = [1, 1, 0] \<and> container_write d 17 [] = (Inr (), bs) \<and>
     (\<exists>e. container_read plain_env bs Biomes \<lparr>state_count = 4\<rparr> 20000 = Inl e)"
proof -
  let ?p = "\<lparr>p_bits = 2, p_len = 64, p_words = [5, 3], p_capacity = 2\<rparr>"
  let ?c = "\<lparr>c_kind = Biomes, c_registry = \<lparr>state_count = 4\<rparr>, c_storage = Direct ?p\<rparr>"
  have "packed_wf ?p" by code_simp
  moreover have v: "\<forall>x \<in> set (packed_values ?p). x < 4" "take 3 (packed_values ?p) = [1, 1, 0]" by code_simp+
  moreover have "registry_bits \<lparr>state_count = 4\<rparr> = 2" by code_simp
  ultimately have c: "container_wf ?c" "c_storage ?c = Direct ?p" "registry_bits (c_registry ?c) \<le> max_bits (c_kind ?c)"
    "max_bits (c_kind ?c) < unat (9 :: byte)" "roomy plain_env 20000"
    by (simp_all add: container_wf_def registry_wf_def roomy_def plain_env_def BIOMES_PER_SECTION_def)
  have e: "container_values ?c = packed_values ?p" "network_len ?c = 17" by (simp_all add: container_values_def network_len_def)
  obtain d bs where
    "container_read plain_env (9 # concat (map (to_be_bytes 8) (p_words ?p))) (c_kind ?c) (c_registry ?c) 20000 = Inr (d, [])"
    "container_values d = container_values ?c" "container_write d (network_len ?c) [] = (Inr (), bs)"
    "\<forall>env' limit'. \<exists>e. container_read env' bs (c_kind ?c) (c_registry ?c) limit' = Inl e"
    using direct_header_ambiguous [OF c(1-4) plain_alloc_sound c(5)] by blast
  then show ?thesis using v(2) unfolding e by (intro exI [of _ d] exI [of _ bs]) simp
qed

section \<open>Whole sections\<close>

lemma roomy_sound: "roomy env limit \<Longrightarrow> alloc_sound env"
  by (simp add: roomy_def alloc_sound_def)

lemma from_dense_exists:
  assumes "registry_wf r" "length input = kind_len kind" "\<forall>v \<in> set input. valid_id r v" "roomy env limit"
  obtains c where "from_dense env kind r input limit = Inr c" "container_wf c" "c_kind c = kind" "c_registry c = r"
    "container_values c = input"
  using container_build_ok [OF assms(1) roomy_sound [OF assms(4)] assms(2,3), of None limit] assms(4)
  by (auto simp: from_dense_def alloc_error_def)

text \<open>Validation stops at the first identifier outside the registry.\<close>

lemma validate_all_find:
  "validate_all r vs = (case find (\<lambda>v. \<not> valid_id r v) vs of None \<Rightarrow> Inr () | Some v \<Rightarrow> Inl (ValueOutOfRange v))"
  by (induction vs) simp_all

lemma find_replicate: "find P (replicate n x) = (if 0 < n \<and> P x then Some x else None)"
  by (induction n) simp_all

text \<open>Two kinds of registry identifiers, encoded and read back.\<close>

lemma encode_dense_reads:
  assumes r: "registry_wf r" and input: "length input = kind_len kind" "\<forall>v \<in> set input. valid_id r v"
  obtains bs where "\<And>out. encode_dense kind r input out = (Inr (), out @ bs)" "length bs \<le> max_network_len kind"
    "\<And>env limit rest. alloc_sound env \<Longrightarrow>
      (\<exists>d. container_read env (bs @ rest) kind r limit = Inr (d, rest) \<and> container_values d = input \<and>
        (roomy env limit \<longrightarrow> heap_bytes d \<le> length bs + 1024)) \<or>
      (\<exists>e. container_read env (bs @ rest) kind r limit = Inl e \<and> alloc_error env limit e)"
proof -
  have room: "roomy plain_env 16384" by (simp add: roomy_def plain_env_def)
  obtain c where c: "from_dense plain_env kind r input 16384 = Inr c" "container_wf c" "c_kind c = kind" "c_registry c = r"
    "container_values c = input" by (rule from_dense_exists [OF assms room])
  have h: "header_unambiguous c" using from_dense_header [OF r input c(1)] .
  have "(\<exists>d. container_read env (container_bytes c @ rest) kind r limit = Inr (d, rest) \<and> container_values d = input \<and>
        (roomy env limit \<longrightarrow> heap_bytes d \<le> length (container_bytes c) + 1024)) \<or>
      (\<exists>e. container_read env (container_bytes c @ rest) kind r limit = Inl e \<and> alloc_error env limit e)"
    if "alloc_sound env" for env limit rest
    using container_read_bytes [OF c(2) h that, of rest limit] c(3-5) length_container_bytes [of c]
    unfolding same_contents_def by auto
  then show thesis
    using that [of "container_bytes c"] encode_dense_eq [OF r plain_alloc_sound input c(1)]
      network_len_le [OF c(2)] length_container_bytes [of c] c(3) by simp
qed

text \<open>
  Why a section is refused: the counts, the spare capacity, the first block and the first biome
  outside their registries, in this order.
\<close>

definition section_refusal ::
  "u32 list \<Rightarrow> u32 list \<Rightarrow> Registry \<Rightarrow> Registry \<Rightarrow> SectionCounts \<Rightarrow> nat \<Rightarrow> byte list \<Rightarrow> section_error option" where
  "section_refusal bks bms block_registry biome_registry n capacity output =
     (if 4096 < unat (non_empty_blocks n) \<or> non_empty_blocks n < fluid_blocks n then Some InvalidCounts
      else if capacity < length output + MAX_SECTION_NETWORK_BYTES then Some OutputCapacity
      else
        case find (\<lambda>v. \<not> valid_id block_registry v) bks of
          Some v \<Rightarrow> Some (ValueOutOfRange v)
        | None \<Rightarrow>
            (case find (\<lambda>v. \<not> valid_id biome_registry v) bms of
               Some v \<Rightarrow> Some (ValueOutOfRange v)
             | None \<Rightarrow> None))"

lemma section_refusal_None:
  "section_refusal bks bms block_registry biome_registry n capacity output = None \<longleftrightarrow>
     counts_validate n = Inr () \<and> length output + MAX_SECTION_NETWORK_BYTES \<le> capacity \<and>
     (\<forall>v \<in> set bks. valid_id block_registry v) \<and> (\<forall>v \<in> set bms. valid_id biome_registry v)"
  by (auto simp: section_refusal_def counts_validate_def BLOCKS_PER_SECTION_def find_None_iff find_Some_iff not_less
      split: option.splits)

lemma prepare_section_refused:
  "section_refusal bks bms block_registry biome_registry n capacity output = Some e \<Longrightarrow>
   prepare_section bks bms block_registry biome_registry n capacity output = (Inl e, output)"
proof -
  assume refused: "section_refusal bks bms block_registry biome_registry n capacity output = Some e"
  have cap: "capacity - length output < MAX_SECTION_NETWORK_BYTES \<longleftrightarrow> capacity < length output + MAX_SECTION_NETWORK_BYTES"
    by (auto simp: MAX_SECTION_NETWORK_BYTES_def)
  show ?thesis
    using refused unfolding section_refusal_def prepare_section_def counts_validate_def cap
    by (auto simp: validate_all_find BLOCKS_PER_SECTION_def split: if_splits option.splits)
qed

lemma section_bytes_read:
  assumes "registry_wf block_registry" "registry_wf biome_registry" "length bks = 4096" "length bms = 64"
    and "\<forall>v \<in> set bks. valid_id block_registry v" "\<forall>v \<in> set bms. valid_id biome_registry v" "counts_validate n = Inr ()"
  obtains bs where "length bs \<le> MAX_SECTION_NETWORK_BYTES"
    "\<And>out. then_out (encode_dense Blocks block_registry bks (append_counts out n))
       (encode_dense Biomes biome_registry bms) = (Inr (), out @ bs)"
    "\<And>env limit rest. alloc_sound env \<Longrightarrow>
      (\<exists>s. section_read env (bs @ rest) block_registry biome_registry limit = Inr (s, rest) \<and>
        s_counts s = n \<and> container_values (s_blocks s) = bks \<and> container_values (s_biomes s) = bms) \<or>
      (\<exists>e. section_read env (bs @ rest) block_registry biome_registry limit = Inl e \<and>
        (e = AllocationBudgetExceeded \<or> e = SectionAllocationFailed) \<and> \<not> (roomy env limit \<and> 40000 \<le> limit))"
proof -
  have lens: "length bks = kind_len Blocks" "length bms = kind_len Biomes"
    using assms(3,4) by (simp_all add: BLOCKS_PER_SECTION_def BIOMES_PER_SECTION_def)
  obtain b1 where b1: "\<And>out. encode_dense Blocks block_registry bks out = (Inr (), out @ b1)" "length b1 \<le> max_network_len Blocks"
    and r1: "\<And>env limit rest. alloc_sound env \<Longrightarrow>
      (\<exists>d. container_read env (b1 @ rest) Blocks block_registry limit = Inr (d, rest) \<and> container_values d = bks \<and>
        (roomy env limit \<longrightarrow> heap_bytes d \<le> length b1 + 1024)) \<or>
      (\<exists>e. container_read env (b1 @ rest) Blocks block_registry limit = Inl e \<and> alloc_error env limit e)"
    by (rule encode_dense_reads [OF assms(1) lens(1) assms(5)]) (rule that)
  obtain b2 where b2: "\<And>out. encode_dense Biomes biome_registry bms out = (Inr (), out @ b2)" "length b2 \<le> max_network_len Biomes"
    and r2: "\<And>env limit rest. alloc_sound env \<Longrightarrow>
      (\<exists>d. container_read env (b2 @ rest) Biomes biome_registry limit = Inr (d, rest) \<and> container_values d = bms \<and>
        (roomy env limit \<longrightarrow> heap_bytes d \<le> length b2 + 1024)) \<or>
      (\<exists>e. container_read env (b2 @ rest) Biomes biome_registry limit = Inl e \<and> alloc_error env limit e)"
    by (rule encode_dense_reads [OF assms(2) lens(2) assms(6)]) (rule that)
  have bounds: "length b1 \<le> 1 + 2048 * 8" "length b2 \<le> 1 + 32 * 8"
    using b1(2) b2(2) by (simp_all add: max_network_len_def BLOCKS_PER_SECTION_def BIOMES_PER_SECTION_def)
  let ?head = "to_be_bytes 2 (non_empty_blocks n) @ to_be_bytes 2 (fluid_blocks n)"
  have read: "(\<exists>s. section_read env ((?head @ b1 @ b2) @ rest) block_registry biome_registry limit = Inr (s, rest) \<and>
        s_counts s = n \<and> container_values (s_blocks s) = bks \<and> container_values (s_biomes s) = bms) \<or>
      (\<exists>e. section_read env ((?head @ b1 @ b2) @ rest) block_registry biome_registry limit = Inl e \<and>
        (e = AllocationBudgetExceeded \<or> e = SectionAllocationFailed) \<and> \<not> (roomy env limit \<and> 40000 \<le> limit))"
    if env: "alloc_sound env" for env limit rest
  proof -
    have start: "section_read env ((?head @ b1 @ b2) @ rest) block_registry biome_registry limit =
        bind_r (container_read env (b1 @ b2 @ rest) Blocks block_registry limit) (\<lambda>(blocks, cursor).
        bind_r (ok_or (checked_sub limit (heap_bytes blocks)) AllocationBudgetExceeded) (\<lambda>remaining.
        bind_r (container_read env cursor Biomes biome_registry remaining) (\<lambda>(biomes, cursor).
        Inr (\<lparr>s_counts = n, s_blocks = blocks, s_biomes = biomes\<rparr>, cursor))))"
      using assms(7) section_take_append [of ?head 4 "b1 @ b2 @ rest"]
      by (cases n) (simp add: section_read_def Let_def)
    from r1 [OF env, of "b2 @ rest" limit] consider
      (ok) d where "container_read env (b1 @ b2 @ rest) Blocks block_registry limit = Inr (d, b2 @ rest)"
        "container_values d = bks" "roomy env limit \<longrightarrow> heap_bytes d \<le> length b1 + 1024"
    | (err) e where "container_read env (b1 @ b2 @ rest) Blocks block_registry limit = Inl e" "alloc_error env limit e" by blast
    then show ?thesis
    proof cases
      case ok
      show ?thesis
      proof (cases "heap_bytes d \<le> limit")
        case True
        let ?l = "limit - heap_bytes d"
        have room: "roomy env ?l" if "roomy env limit" "40000 \<le> limit" using that ok(3) bounds(1) by (simp add: roomy_def)
        from r2 [OF env, of rest ?l] show ?thesis
        proof
          assume "\<exists>d. container_read env (b2 @ rest) Biomes biome_registry ?l = Inr (d, rest) \<and> container_values d = bms \<and>
            (roomy env ?l \<longrightarrow> heap_bytes d \<le> length b2 + 1024)"
          then show ?thesis unfolding start using ok(1,2) True by (auto simp: checked_sub_def)
        next
          assume "\<exists>e. container_read env (b2 @ rest) Biomes biome_registry ?l = Inl e \<and> alloc_error env ?l e"
          then show ?thesis unfolding start using ok(1,2) True room by (auto simp: checked_sub_def alloc_error_def)
        qed
      next
        case False
        then have "\<not> (roomy env limit \<and> 40000 \<le> limit)" using ok(3) bounds(1) by auto
        then show ?thesis unfolding start using ok(1) False by (simp add: checked_sub_def)
      qed
    next
      case err
      then show ?thesis unfolding start by (auto simp: alloc_error_def)
    qed
  qed
  show thesis
  proof (rule that [of "?head @ b1 @ b2"])
    show "length (?head @ b1 @ b2) \<le> MAX_SECTION_NETWORK_BYTES" using bounds by (simp add: MAX_SECTION_NETWORK_BYTES_def)
    show "then_out (encode_dense Blocks block_registry bks (append_counts out n)) (encode_dense Biomes biome_registry bms) =
      (Inr (), out @ ?head @ b1 @ b2)" for out using b1(1) b2(1) by (simp add: append_counts_def)
  qed (rule read)
qed

text \<open>
  C6: \<open>prepare_section\<close> on any 4096 blocks and 64 biomes. It is refused exactly for invalid
  counts, for less spare capacity than \<open>MAX_SECTION_NETWORK_BYTES\<close>, or for an identifier outside its
  registry, reports that error (the first identifier, blocks first) and leaves the output alone.
  Otherwise it succeeds without a panic and appends at most \<open>MAX_SECTION_NETWORK_BYTES\<close> bytes, and
  \<open>section_read\<close> turns exactly those bytes back into the counts, the blocks and the biomes, or
  stops with an allocation error, which an allocator that grants exactly the requests and a limit
  of 40000 bytes rule out.
\<close>

theorem prepare_section_correct:
  assumes "registry_wf block_registry" "registry_wf biome_registry" "length bks = 4096" "length bms = 64" "alloc_sound env"
  shows "case section_refusal bks bms block_registry biome_registry n capacity output of
      Some e \<Rightarrow> prepare_section bks bms block_registry biome_registry n capacity output = (Inl e, output)
    | None \<Rightarrow> \<exists>bs. prepare_section bks bms block_registry biome_registry n capacity output = (Inr (), output @ bs) \<and>
        length bs \<le> MAX_SECTION_NETWORK_BYTES \<and>
        ((\<exists>s. section_read env (bs @ rest) block_registry biome_registry limit = Inr (s, rest) \<and>
            s_counts s = n \<and> container_values (s_blocks s) = bks \<and> container_values (s_biomes s) = bms) \<or>
         (\<exists>e. section_read env (bs @ rest) block_registry biome_registry limit = Inl e \<and>
            (e = AllocationBudgetExceeded \<or> e = SectionAllocationFailed) \<and>
            \<not> ((\<forall>w k. try_reserve_exact env w k = Some k) \<and> 40000 \<le> limit)))"
proof (cases "section_refusal bks bms block_registry biome_registry n capacity output")
  case None
  note ok = None [unfolded section_refusal_None]
  then have none: "find (\<lambda>v. \<not> valid_id block_registry v) bks = None" "find (\<lambda>v. \<not> valid_id biome_registry v) bms = None"
    by (simp_all add: find_None_iff)
  obtain bs where bs: "length bs \<le> MAX_SECTION_NETWORK_BYTES"
    "\<And>out. then_out (encode_dense Blocks block_registry bks (append_counts out n))
       (encode_dense Biomes biome_registry bms) = (Inr (), out @ bs)"
    "(\<exists>s. section_read env (bs @ rest) block_registry biome_registry limit = Inr (s, rest) \<and>
        s_counts s = n \<and> container_values (s_blocks s) = bks \<and> container_values (s_biomes s) = bms) \<or>
      (\<exists>e. section_read env (bs @ rest) block_registry biome_registry limit = Inl e \<and>
        (e = AllocationBudgetExceeded \<or> e = SectionAllocationFailed) \<and> \<not> (roomy env limit \<and> 40000 \<le> limit))"
    by (rule section_bytes_read [OF assms(1-4), of n]) (use ok assms(5) in \<open>auto intro: that\<close>)
  have "prepare_section bks bms block_registry biome_registry n capacity output = (Inr (), output @ bs)"
    using ok bs(2) none by (auto simp: prepare_section_def validate_all_find)
  then show ?thesis using None bs(1,3) by (auto simp: roomy_def)
next
  case (Some e)
  then show ?thesis using prepare_section_refused [OF Some] by simp
qed

theorem prepare_section_correct_witness:
  "(\<exists>bs s. prepare_section (replicate 4096 1) (replicate 64 0) \<lparr>state_count = 2\<rparr> \<lparr>state_count = 1\<rparr>
       \<lparr>non_empty_blocks = 4096, fluid_blocks = 0\<rparr> 20000 [] = (Inr (), [] @ bs) \<and>
     section_read plain_env (bs @ []) \<lparr>state_count = 2\<rparr> \<lparr>state_count = 1\<rparr> 40000 = Inr (s, []) \<and>
     container_values (s_blocks s) = replicate 4096 1) \<and>
   prepare_section (replicate 4096 1) (replicate 64 7) \<lparr>state_count = 2\<rparr> \<lparr>state_count = 1\<rparr>
       \<lparr>non_empty_blocks = 4096, fluid_blocks = 0\<rparr> 20000 [9] = (Inl (ValueOutOfRange 7), [9])"
proof -
  have r: "registry_wf \<lparr>state_count = 2\<rparr>" "registry_wf \<lparr>state_count = 1\<rparr>"
    "length (replicate 4096 1 :: u32 list) = 4096" "\<And>x. length (replicate 64 x :: u32 list) = 64"
    by (simp_all add: registry_wf_def)
  let ?n = "\<lparr>non_empty_blocks = 4096, fluid_blocks = 0\<rparr>"
  have "section_refusal (replicate 4096 1) (replicate 64 0) \<lparr>state_count = 2\<rparr> \<lparr>state_count = 1\<rparr> ?n 20000 [] = None"
    by (simp add: section_refusal_None counts_validate_def BLOCKS_PER_SECTION_def MAX_SECTION_NETWORK_BYTES_def)
  moreover have "section_refusal (replicate 4096 1) (replicate 64 7) \<lparr>state_count = 2\<rparr> \<lparr>state_count = 1\<rparr> ?n 20000 [9] =
      Some (ValueOutOfRange 7)"
    by (simp add: section_refusal_def find_replicate MAX_SECTION_NETWORK_BYTES_def)
  ultimately show ?thesis
    using prepare_section_correct [OF r(1-3) r(4) [of 0] plain_alloc_sound, of ?n 20000 "[]" "[]" 40000]
      prepare_section_correct [OF r(1-3) r(4) [of 7] plain_alloc_sound, of ?n 20000 "[9]" "[]" 40000]
    by (auto simp: plain_env_def)
qed

end
