(* ===== verification/View.thy ===== *)
theory View
  imports Prelude
begin

text \<open>
  The player chunk view of \<^verbatim>\<open>src/world/view.rs\<close>: view distances, tracking views with their scan
  bounds, the wrapping distance test, the resumable difference of two views, and the
  \<open>PlayerView\<close> owner that hands out one event at a time. Chunk coordinates are \<open>i32\<close> in the source;
  they are integers here and the wrap-around of the source's arithmetic is written out.
\<close>

section \<open>Coordinates\<close>

definition I32_MIN :: int where "I32_MIN = - 2147483648"

definition I32_MAX :: int where "I32_MAX = 2147483647"

definition is_i32 :: "int \<Rightarrow> bool" where
  "is_i32 k \<longleftrightarrow> I32_MIN \<le> k \<and> k \<le> I32_MAX"

definition wrap_i32 :: "int \<Rightarrow> int" where
  "wrap_i32 k = (k + 2147483648) mod 4294967296 - 2147483648"

record ChunkAddress =
  ca_x :: int
  ca_z :: int

abbreviation chunk_i32 :: "ChunkAddress \<Rightarrow> bool" where
  "chunk_i32 c \<equiv> is_i32 (ca_x c) \<and> is_i32 (ca_z c)"

section \<open>View distances\<close>

definition MIN_VIEW_DISTANCE :: int where "MIN_VIEW_DISTANCE = 2"

definition MAX_VIEW_DISTANCE :: int where "MAX_VIEW_DISTANCE = 32"

type_synonym ViewDistance = int

text \<open>\<open>clamp(low, high)\<close>.\<close>

definition clamp :: "int \<Rightarrow> int \<Rightarrow> int \<Rightarrow> int" where
  "clamp low high k = (if k < low then low else if k > high then high else k)"

definition distance_server :: "int \<Rightarrow> ViewDistance" where
  "distance_server requested = clamp MIN_VIEW_DISTANCE MAX_VIEW_DISTANCE requested"

definition distance_effective :: "ViewDistance \<Rightarrow> int \<Rightarrow> ViewDistance" where
  "distance_effective d client_requested = clamp MIN_VIEW_DISTANCE d client_requested"

definition distance_wf :: "ViewDistance \<Rightarrow> bool" where
  "distance_wf d \<longleftrightarrow> MIN_VIEW_DISTANCE \<le> d \<and> d \<le> MAX_VIEW_DISTANCE"

datatype ViewError = CoordinateBounds | UpdateActive | NoUpdate | NoEvent | UnconsumedEvents

section \<open>Tracking views\<close>

record Bounds =
  b_min :: ChunkAddress
  b_max :: ChunkAddress

definition bounds_intersects :: "Bounds \<Rightarrow> Bounds \<Rightarrow> bool" where
  "bounds_intersects a b \<longleftrightarrow>
     ca_x (b_min a) \<le> ca_x (b_max b) \<and> ca_x (b_min b) \<le> ca_x (b_max a) \<and>
     ca_z (b_min a) \<le> ca_z (b_max b) \<and> ca_z (b_min b) \<le> ca_z (b_max a)"

definition bounds_union :: "Bounds \<Rightarrow> Bounds \<Rightarrow> Bounds" where
  "bounds_union a b =
     \<lparr>b_min = \<lparr>ca_x = min (ca_x (b_min a)) (ca_x (b_min b)), ca_z = min (ca_z (b_min a)) (ca_z (b_min b))\<rparr>,
      b_max = \<lparr>ca_x = max (ca_x (b_max a)) (ca_x (b_max b)), ca_z = max (ca_z (b_max a)) (ca_z (b_max b))\<rparr>\<rparr>"

record PositionedView =
  v_center :: ChunkAddress
  v_distance :: ViewDistance
  v_bounds :: Bounds

type_synonym TrackingView = "PositionedView option"

definition view_minimum :: "int \<Rightarrow> int \<Rightarrow> ViewError + int" where
  "view_minimum extent k = (if is_i32 (k - extent) then Inr (k - extent) else Inl CoordinateBounds)"

definition view_maximum :: "int \<Rightarrow> int \<Rightarrow> ViewError + int" where
  "view_maximum extent k =
     (if is_i32 (k + extent) \<and> k + extent \<noteq> I32_MAX then Inr (k + extent) else Inl CoordinateBounds)"

definition positioned :: "ChunkAddress \<Rightarrow> ViewDistance \<Rightarrow> ViewError + TrackingView" where
  "positioned center distance =
     (let extent = distance + 1 in
      bind_r (view_minimum extent (ca_x center)) (\<lambda>min_x.
      bind_r (view_minimum extent (ca_z center)) (\<lambda>min_z.
      bind_r (view_maximum extent (ca_x center)) (\<lambda>max_x.
      bind_r (view_maximum extent (ca_z center)) (\<lambda>max_z.
      Inr (Some \<lparr>v_center = center, v_distance = distance,
        v_bounds = \<lparr>b_min = \<lparr>ca_x = min_x, ca_z = min_z\<rparr>, b_max = \<lparr>ca_x = max_x, ca_z = max_z\<rparr>\<rparr>\<rparr>))))))"

definition distance_axis :: "int \<Rightarrow> int \<Rightarrow> int \<Rightarrow> int" where
  "distance_axis border k origin =
     max 0 (wrap_i32 (wrap_i32 \<bar>wrap_i32 (k - origin)\<bar> - border))"

definition is_within_distance :: "ChunkAddress \<Rightarrow> ViewDistance \<Rightarrow> ChunkAddress \<Rightarrow> bool \<Rightarrow> bool" where
  "is_within_distance center distance chunk include_neighbors =
     (let border = (if include_neighbors then 2 else 1);
          x = distance_axis border (ca_x chunk) (ca_x center);
          z = distance_axis border (ca_z chunk) (ca_z center)
      in x * x + z * z < distance * distance)"

definition view_contains :: "TrackingView \<Rightarrow> ChunkAddress \<Rightarrow> bool" where
  "view_contains v chunk =
     (case v of None \<Rightarrow> False | Some p \<Rightarrow> is_within_distance (v_center p) (v_distance p) chunk True)"

definition is_in_view_distance :: "TrackingView \<Rightarrow> ChunkAddress \<Rightarrow> bool" where
  "is_in_view_distance v chunk =
     (case v of None \<Rightarrow> False | Some p \<Rightarrow> is_within_distance (v_center p) (v_distance p) chunk False)"

section \<open>The scan and the difference\<close>

datatype ViewChange = Enter ChunkAddress | Leave ChunkAddress

record Scan =
  scan_bounds :: Bounds
  scan_next :: "ChunkAddress option"

definition scan_new :: "Bounds \<Rightarrow> Scan" where
  "scan_new b = \<lparr>scan_bounds = b, scan_next = Some (b_min b)\<rparr>"

definition scan_step :: "Scan \<Rightarrow> ChunkAddress option \<times> Scan" where
  "scan_step s =
     (case scan_next s of
        None \<Rightarrow> (None, s)
      | Some c \<Rightarrow>
          (Some c, s\<lparr>scan_next :=
             (if ca_z c < ca_z (b_max (scan_bounds s)) then Some \<lparr>ca_x = ca_x c, ca_z = ca_z c + 1\<rparr>
              else if ca_x c < ca_x (b_max (scan_bounds s))
              then Some \<lparr>ca_x = ca_x c + 1, ca_z = ca_z (b_min (scan_bounds s))\<rparr>
              else None)\<rparr>))"

datatype DifferencePhase = OverlapPhase | LeavePhase | EnterPhase | DonePhase

record ViewDifference =
  d_previous :: TrackingView
  d_next :: TrackingView
  d_scan :: "Scan option"
  d_phase :: DifferencePhase

definition difference_new :: "TrackingView \<Rightarrow> TrackingView \<Rightarrow> ViewDifference" where
  "difference_new previous next =
     (let (phase, bounds) =
        (if previous = next then (DonePhase, None)
         else case (previous, next) of
           (Some old, Some new) \<Rightarrow>
             if bounds_intersects (v_bounds old) (v_bounds new)
             then (OverlapPhase, Some (bounds_union (v_bounds old) (v_bounds new)))
             else (LeavePhase, Some (v_bounds old))
         | _ \<Rightarrow> (LeavePhase, map_option v_bounds previous))
      in \<lparr>d_previous = previous, d_next = next, d_scan = map_option scan_new bounds, d_phase = phase\<rparr>)"

text \<open>The cells a scan has left bound the loop of \<open>next\<close>.\<close>

definition scan_left :: "Scan option \<Rightarrow> nat" where
  "scan_left scan =
     (case scan of
        None \<Rightarrow> 0
      | Some s \<Rightarrow>
          (case scan_next s of
             None \<Rightarrow> 0
           | Some c \<Rightarrow>
               nat (ca_x (b_max (scan_bounds s)) - ca_x c) * Suc (nat (ca_z (b_max (scan_bounds s)) - ca_z (b_min (scan_bounds s)))) +
               nat (ca_z (b_max (scan_bounds s)) - ca_z c) + 1))"

lemma scan_step_left:
  assumes "scan_step s = (Some c, s')"
  shows "scan_left (Some s') < scan_left (Some s)"
proof -
  let ?mx = "ca_x (b_max (scan_bounds s))" and ?w = "Suc (nat (ca_z (b_max (scan_bounds s)) - ca_z (b_min (scan_bounds s))))"
  have "nat (?mx - (ca_x c + 1)) * ?w + ?w \<le> nat (?mx - ca_x c) * ?w" if "ca_x c < ?mx"
  proof -
    have "nat (?mx - ca_x c) = Suc (nat (?mx - (ca_x c + 1)))" using that by simp
    then show ?thesis by (simp only: mult_Suc)
  qed
  then show ?thesis
    using assms by (auto simp: scan_step_def scan_left_def split: option.splits if_splits)
qed

text \<open>One call of the iterator: the next change, if any, and the iterator after it.\<close>

function difference_next :: "ViewDifference \<Rightarrow> ViewChange option \<times> ViewDifference" where
  "difference_next d =
     (case (case d_scan d of None \<Rightarrow> (None, None) | Some s \<Rightarrow> map_prod id Some (scan_step s)) of
        (Some chunk, scan) \<Rightarrow>
          (let d = d\<lparr>d_scan := scan\<rparr>;
               was = (d_phase d \<noteq> EnterPhase \<and> view_contains (d_previous d) chunk);
               now = (d_phase d \<noteq> LeavePhase \<and> view_contains (d_next d) chunk)
           in if was \<noteq> now then (Some (if now then Enter chunk else Leave chunk), d)
              else difference_next d)
      | (None, _) \<Rightarrow>
          if d_phase d = LeavePhase
          then difference_next (d\<lparr>d_phase := EnterPhase, d_scan := map_option (\<lambda>v. scan_new (v_bounds v)) (d_next d)\<rparr>)
          else (None, d\<lparr>d_phase := DonePhase, d_scan := None\<rparr>))"
  by pat_completeness auto
termination
  by (relation "measures [\<lambda>d. if d_phase d = LeavePhase then 1 else 0, \<lambda>d. scan_left (d_scan d)]")
    (auto simp: map_prod_def split: option.splits prod.splits dest: scan_step_left)

declare difference_next.simps [simp del]

section \<open>The player view\<close>

datatype ViewEvent = SetCenter ChunkAddress | EnterChunk ChunkAddress | LeaveChunk ChunkAddress

fun event_of :: "ViewChange \<Rightarrow> ViewEvent" where
  "event_of (Enter c) = EnterChunk c"
| "event_of (Leave c) = LeaveChunk c"

record Transition =
  t_next :: TrackingView
  t_changes :: ViewDifference
  t_event :: "ViewEvent option"

record PlayerView =
  pv_current :: TrackingView
  pv_transition :: "Transition option"

definition player_view_new :: PlayerView where
  "player_view_new = \<lparr>pv_current = None, pv_transition = None\<rparr>"

definition begin_update :: "PlayerView \<Rightarrow> TrackingView \<Rightarrow> ViewError + PlayerView" where
  "begin_update pv next =
     (if pv_transition pv \<noteq> None then Inl UpdateActive
      else
        let changes = difference_new (pv_current pv) next;
            (event, changes) =
              (case map_option v_center next of
                 Some center \<Rightarrow>
                   if Some center \<noteq> map_option v_center (pv_current pv) then (Some (SetCenter center), changes)
                   else map_prod (map_option event_of) id (difference_next changes)
               | None \<Rightarrow> map_prod (map_option event_of) id (difference_next changes))
        in Inr (pv\<lparr>pv_transition := Some \<lparr>t_next = next, t_changes = changes, t_event = event\<rparr>\<rparr>))"

definition pending_event :: "PlayerView \<Rightarrow> ViewEvent option" where
  "pending_event pv = Option.bind (pv_transition pv) t_event"

definition acknowledge_event :: "PlayerView \<Rightarrow> ViewError + PlayerView" where
  "acknowledge_event pv =
     (case pv_transition pv of
        None \<Rightarrow> Inl NoUpdate
      | Some t \<Rightarrow>
          if t_event t = None then Inl NoEvent
          else
            let (change, changes) = difference_next (t_changes t)
            in Inr (pv\<lparr>pv_transition := Some (t\<lparr>t_event := map_option event_of change, t_changes := changes\<rparr>)\<rparr>))"

definition finish_update :: "PlayerView \<Rightarrow> ViewError + PlayerView" where
  "finish_update pv =
     (case pv_transition pv of
        None \<Rightarrow> Inl NoUpdate
      | Some t \<Rightarrow>
          if t_event t \<noteq> None then Inl UnconsumedEvents
          else Inr (pv\<lparr>pv_current := t_next t, pv_transition := None\<rparr>))"

section \<open>The cells of a scan\<close>

definition in_bounds :: "Bounds \<Rightarrow> ChunkAddress \<Rightarrow> bool" where
  "in_bounds b c \<longleftrightarrow> ca_x (b_min b) \<le> ca_x c \<and> ca_x c \<le> ca_x (b_max b) \<and>
     ca_z (b_min b) \<le> ca_z c \<and> ca_z c \<le> ca_z (b_max b)"

text \<open>Scan order: by \<open>x\<close>, then by \<open>z\<close>.\<close>

definition scan_le :: "ChunkAddress \<Rightarrow> ChunkAddress \<Rightarrow> bool" where
  "scan_le a b \<longleftrightarrow> ca_x a < ca_x b \<or> ca_x a = ca_x b \<and> ca_z a \<le> ca_z b"

function scan_cells :: "Scan \<Rightarrow> ChunkAddress list" where
  "scan_cells s = (case scan_step s of (None, _) \<Rightarrow> [] | (Some c, s') \<Rightarrow> c # scan_cells s')"
  by pat_completeness auto
termination
  by (relation "measure (\<lambda>s. scan_left (Some s))") (auto dest: scan_step_left [OF sym])

declare scan_cells.simps [simp del]

lemma address_eq_iff: "(a :: ChunkAddress) = b \<longleftrightarrow> ca_x a = ca_x b \<and> ca_z a = ca_z b"
  by (cases a; cases b) auto

lemma scan_cells_from:
  assumes "scan_next s = Some c" "in_bounds (scan_bounds s) c"
  shows "set (scan_cells s) = {a. in_bounds (scan_bounds s) a \<and> scan_le c a} \<and> distinct (scan_cells s)"
  using assms
proof (induction s arbitrary: c rule: scan_cells.induct)
  case (1 s)
  let ?b = "scan_bounds s"
  obtain s' where s': "scan_step s = (Some c, s')" "scan_bounds s' = ?b"
    using "1.prems"(1) by (simp add: scan_step_def)
  have cells: "scan_cells s = c # scan_cells s'" using s' by (simp add: scan_cells.simps [of s])
  show ?case
  proof (cases "scan_next s'")
    case None
    then have end': "ca_z c = ca_z (b_max ?b)" "ca_x c = ca_x (b_max ?b)"
      using s'(1) "1.prems" by (auto simp: scan_step_def in_bounds_def split: if_splits)
    have "scan_cells s' = []" using None by (simp add: scan_cells.simps [of s'] scan_step_def)
    then show ?thesis
      using cells end' "1.prems"(2) by (auto simp: in_bounds_def scan_le_def address_eq_iff)
  next
    case (Some c')
    then have succ: "c' = \<lparr>ca_x = ca_x c, ca_z = ca_z c + 1\<rparr> \<and> ca_z c < ca_z (b_max ?b) \<or>
        c' = \<lparr>ca_x = ca_x c + 1, ca_z = ca_z (b_min ?b)\<rparr> \<and> ca_z c = ca_z (b_max ?b) \<and> ca_x c < ca_x (b_max ?b)"
      using s'(1) "1.prems" by (auto simp: scan_step_def in_bounds_def split: if_splits)
    then have inb: "in_bounds (scan_bounds s') c'" using "1.prems"(2) s'(2) by (auto simp: in_bounds_def)
    note IH = "1.IH" [OF s'(1) [symmetric] refl Some inb]
    have "a = c \<or> scan_le c' a \<longleftrightarrow> scan_le c a" if "in_bounds ?b a" for a
      using succ that by (auto simp: scan_le_def in_bounds_def address_eq_iff)
    moreover have "\<not> scan_le c' c" using succ by (auto simp: scan_le_def)
    ultimately show ?thesis using IH cells s'(2) "1.prems"(2) by auto
  qed
qed

lemma scan_cells_new:
  assumes "in_bounds b (b_min b)"
  shows "set (scan_cells (scan_new b)) = {a. in_bounds b a}" "distinct (scan_cells (scan_new b))"
proof -
  have *: "scan_next (scan_new b) = Some (b_min b)" "scan_bounds (scan_new b) = b" by (simp_all add: scan_new_def)
  have "in_bounds b a \<Longrightarrow> scan_le (b_min b) a" for a by (auto simp: in_bounds_def scan_le_def)
  then show "set (scan_cells (scan_new b)) = {a. in_bounds b a}" "distinct (scan_cells (scan_new b))"
    using scan_cells_from [OF *(1)] assms unfolding *(2) by auto
qed

section \<open>The changes a difference yields\<close>

definition change_at :: "DifferencePhase \<Rightarrow> TrackingView \<Rightarrow> TrackingView \<Rightarrow> ChunkAddress \<Rightarrow> ViewChange option" where
  "change_at phase p n c =
     (let was = (phase \<noteq> EnterPhase \<and> view_contains p c); now = (phase \<noteq> LeavePhase \<and> view_contains n c)
      in if was \<noteq> now then Some (if now then Enter c else Leave c) else None)"

abbreviation difference_rank :: "ViewDifference rel" where
  "difference_rank \<equiv> measures [\<lambda>d. if d_phase d = LeavePhase then 1 else 0, \<lambda>d. scan_left (d_scan d)]"

lemma difference_next_cell:
  assumes "d_scan d = Some s" "scan_step s = (Some c, s')"
  shows "difference_next d =
    (case change_at (d_phase d) (d_previous d) (d_next d) c of
       Some e \<Rightarrow> (Some e, d\<lparr>d_scan := Some s'\<rparr>) | None \<Rightarrow> difference_next (d\<lparr>d_scan := Some s'\<rparr>))"
  using assms by (simp add: difference_next.simps [of d] change_at_def Let_def)

lemma difference_next_end:
  assumes "d_scan d = None \<or> (\<exists>s. d_scan d = Some s \<and> scan_next s = None)"
  shows "difference_next d =
    (if d_phase d = LeavePhase
     then difference_next (d\<lparr>d_phase := EnterPhase, d_scan := map_option (\<lambda>v. scan_new (v_bounds v)) (d_next d)\<rparr>)
     else (None, d\<lparr>d_phase := DonePhase, d_scan := None\<rparr>))"
  using assms by (auto simp: difference_next.simps [of d] scan_step_def)

lemma difference_rank_trans: "(a, b) \<in> difference_rank \<Longrightarrow> (b, c) \<in> difference_rank \<Longrightarrow> (a, c) \<in> difference_rank"
  by (auto split: if_splits)

text \<open>Every iterator is at a cell, at the end of its leaving scan, or at its end.\<close>

lemma difference_cases:
  obtains (cell) s c s' where "d_scan d = Some s" "scan_step s = (Some c, s')" "(d\<lparr>d_scan := Some s'\<rparr>, d) \<in> difference_rank"
    | (left) "d_scan d = None \<or> (\<exists>s. d_scan d = Some s \<and> scan_next s = None)" "d_phase d = LeavePhase"
    | (finished) "d_scan d = None \<or> (\<exists>s. d_scan d = Some s \<and> scan_next s = None)" "d_phase d \<noteq> LeavePhase"
proof (cases "\<exists>s c s'. d_scan d = Some s \<and> scan_step s = (Some c, s')")
  case True
  then show thesis using cell by (auto dest: scan_step_left)
next
  case False
  then have "d_scan d = None \<or> (\<exists>s. d_scan d = Some s \<and> scan_next s = None)"
    by (cases "d_scan d") (auto simp: scan_step_def split: option.splits)
  then show thesis using left finished by blast
qed

abbreviation enter_phase :: "ViewDifference \<Rightarrow> ViewDifference" where
  "enter_phase d \<equiv> d\<lparr>d_phase := EnterPhase, d_scan := map_option (\<lambda>v. scan_new (v_bounds v)) (d_next d)\<rparr>"

lemma difference_next_decreases:
  "difference_next d = (Some e, d') \<Longrightarrow> (d', d) \<in> difference_rank"
proof (induction d arbitrary: d' rule: wf_induct_rule [OF wf_measures [of "[\<lambda>d. if d_phase d = LeavePhase then 1 else 0, \<lambda>d. scan_left (d_scan d)]"]])
  case (1 d)
  show ?case
  proof (cases d rule: difference_cases)
    case (cell s c s')
    show ?thesis
    proof (cases "change_at (d_phase d) (d_previous d) (d_next d) c")
      case None
      then have "difference_next (d\<lparr>d_scan := Some s'\<rparr>) = (Some e, d')"
        using "1.prems" difference_next_cell [OF cell(1,2)] by simp
      from difference_rank_trans [OF "1.IH" [OF cell(3) this] cell(3)] show ?thesis .
    next
      case (Some e')
      then show ?thesis using "1.prems" difference_next_cell [OF cell(1,2)] cell(3) by auto
    qed
  next
    case left
    then have lt: "(enter_phase d, d) \<in> difference_rank" by simp
    have "difference_next (enter_phase d) = (Some e, d')"
      using "1.prems" difference_next_end [OF left(1)] left(2) by simp
    from difference_rank_trans [OF "1.IH" [OF lt this] lt] show ?thesis .
  next
    case finished
    then show ?thesis using "1.prems" difference_next_end [OF finished(1)] by simp
  qed
qed

text \<open>All changes of an iterator, in order.\<close>

function drain :: "ViewDifference \<Rightarrow> ViewChange list" where
  "drain d = (case difference_next d of (None, _) \<Rightarrow> [] | (Some e, d') \<Rightarrow> e # drain d')"
  by pat_completeness auto
termination
  by (relation difference_rank) (simp, metis difference_next_decreases)

declare drain.simps [simp del]

definition opt_cells :: "Scan option \<Rightarrow> ChunkAddress list" where
  "opt_cells scan = (case scan of None \<Rightarrow> [] | Some s \<Rightarrow> scan_cells s)"

definition next_bounds_cells :: "TrackingView \<Rightarrow> ChunkAddress list" where
  "next_bounds_cells v = opt_cells (map_option (\<lambda>v. scan_new (v_bounds v)) v)"

lemma drain_spec:
  "drain d = List.map_filter (change_at (d_phase d) (d_previous d) (d_next d)) (opt_cells (d_scan d)) @
     (if d_phase d = LeavePhase
      then List.map_filter (change_at EnterPhase (d_previous d) (d_next d)) (next_bounds_cells (d_next d)) else [])"
proof (induction d rule: wf_induct_rule [OF wf_measures [of "[\<lambda>d. if d_phase d = LeavePhase then 1 else 0, \<lambda>d. scan_left (d_scan d)]"]])
  case (1 d)
  show ?case
  proof (cases d rule: difference_cases)
    case (cell s c s')
    have "scan_cells s = c # scan_cells s'" using cell(2) by (simp add: scan_cells.simps [of s])
    moreover have "drain d = (case change_at (d_phase d) (d_previous d) (d_next d) c of None \<Rightarrow> drain (d\<lparr>d_scan := Some s'\<rparr>)
        | Some e \<Rightarrow> e # drain (d\<lparr>d_scan := Some s'\<rparr>))"
      using difference_next_cell [OF cell(1,2)] by (simp add: drain.simps [of d] drain.simps [of "d\<lparr>d_scan := Some s'\<rparr>"] split: option.splits)
    ultimately show ?thesis
      using "1.IH" [OF cell(3)] cell(1) by (simp add: opt_cells_def List.map_filter_simps split: option.splits)
  next
    case left
    then have lt: "(enter_phase d, d) \<in> difference_rank" by simp
    have "drain d = drain (enter_phase d)"
      using difference_next_end [OF left(1)] left(2) by (simp add: drain.simps [of d] drain.simps [of "enter_phase d"])
    moreover have "opt_cells (d_scan d) = []"
      using left(1) by (auto simp: opt_cells_def scan_cells.simps scan_step_def)
    ultimately show ?thesis
      using "1.IH" [OF lt] left(2) by (simp add: next_bounds_cells_def List.map_filter_simps)
  next
    case finished
    have "opt_cells (d_scan d) = []"
      using finished(1) by (auto simp: opt_cells_def scan_cells.simps scan_step_def)
    then show ?thesis
      using finished difference_next_end [OF finished(1)] by (simp add: drain.simps [of d] List.map_filter_simps)
  qed
qed

section \<open>Geometry\<close>

definition view_wf :: "TrackingView \<Rightarrow> bool" where
  "view_wf v \<longleftrightarrow>
     (\<forall>p. v = Some p \<longrightarrow> distance_wf (v_distance p) \<and> chunk_i32 (v_center p) \<and>
        positioned (v_center p) (v_distance p) = Inr (Some p))"

lemma wrap_i32_range: "I32_MIN \<le> wrap_i32 k \<and> wrap_i32 k \<le> I32_MAX"
proof -
  have "0 \<le> (k + 2147483648) mod 4294967296" "(k + 2147483648) mod 4294967296 < 4294967296"
    by (rule pos_mod_sign pos_mod_bound; simp)+
  then show ?thesis by (simp add: wrap_i32_def I32_MIN_def I32_MAX_def)
qed

lemma wrap_i32_id: "is_i32 k \<Longrightarrow> wrap_i32 k = k"
  by (simp add: wrap_i32_def is_i32_def I32_MIN_def I32_MAX_def)

lemma wrap_i32_multiple: "\<exists>m. wrap_i32 k = k + m * 4294967296"
proof -
  have "(k + 2147483648) mod 4294967296 = (k + 2147483648) - (k + 2147483648) div 4294967296 * 4294967296"
    by (simp add: minus_div_mult_eq_mod)
  then have "wrap_i32 k = k + (- ((k + 2147483648) div 4294967296)) * 4294967296"
    unfolding wrap_i32_def by (simp add: algebra_simps)
  then show ?thesis by blast
qed

text \<open>The bounds a positioned view records.\<close>

lemma positioned_bounds:
  assumes "view_wf (Some p)"
  shows "ca_x (b_min (v_bounds p)) = ca_x (v_center p) - (v_distance p + 1)"
    "ca_z (b_min (v_bounds p)) = ca_z (v_center p) - (v_distance p + 1)"
    "ca_x (b_max (v_bounds p)) = ca_x (v_center p) + (v_distance p + 1)"
    "ca_z (b_max (v_bounds p)) = ca_z (v_center p) + (v_distance p + 1)"
    "I32_MIN \<le> ca_x (v_center p) - (v_distance p + 1)" "I32_MIN \<le> ca_z (v_center p) - (v_distance p + 1)"
    "ca_x (v_center p) + (v_distance p + 1) < I32_MAX" "ca_z (v_center p) + (v_distance p + 1) < I32_MAX"
    "2 \<le> v_distance p" "v_distance p \<le> 32"
  using assms
  by (cases p; auto simp: view_wf_def positioned_def view_minimum_def view_maximum_def is_i32_def result_simps Let_def
      distance_wf_def MIN_VIEW_DISTANCE_def MAX_VIEW_DISTANCE_def split: if_splits)+

text \<open>
  Away from the edges of the coordinate range the wrapping distance of an axis is the plain one;
  a difference that wraps is never small.
\<close>

lemma distance_axis_plain:
  assumes "is_i32 k" "I32_MIN \<le> org - e" "org + e < I32_MAX" "1 \<le> border" "border \<le> 2" "e \<le> 33" "border \<le> e"
  shows "distance_axis border k org < e - border + 1 \<longleftrightarrow> \<bar>k - org\<bar> \<le> e"
    and "\<bar>k - org\<bar> \<le> e \<Longrightarrow> distance_axis border k org = max 0 (\<bar>k - org\<bar> - border)"
proof -
  let ?w = "wrap_i32 (k - org)"
  obtain m where m: "?w = (k - org) + m * 4294967296" using wrap_i32_multiple by blast
  have w: "I32_MIN \<le> ?w" "?w \<le> I32_MAX" using wrap_i32_range by blast+
  have small: "?w = k - org" if "\<bar>?w\<bar> \<le> e"
  proof -
    have "k = org + ?w - m * 4294967296" using m by simp
    moreover have "I32_MIN \<le> org + ?w" "org + ?w < I32_MAX" using that assms(2,3) by linarith+
    ultimately have "m = 0"
      using assms(1) unfolding is_i32_def I32_MIN_def I32_MAX_def by linarith
    then show ?thesis using m by simp
  qed
  have same: "?w = k - org" if "\<bar>k - org\<bar> \<le> e"
    using that assms(6) by (intro wrap_i32_id) (auto simp: is_i32_def I32_MIN_def I32_MAX_def)
  have axis: "distance_axis border k org = max 0 (\<bar>?w\<bar> - border)" if "?w \<noteq> I32_MIN"
  proof -
    have "is_i32 \<bar>?w\<bar>" using w that by (auto simp: is_i32_def I32_MIN_def I32_MAX_def)
    moreover then have "is_i32 (\<bar>?w\<bar> - border)" using assms(4,5) by (simp add: is_i32_def I32_MIN_def I32_MAX_def)
    ultimately show ?thesis by (simp add: distance_axis_def wrap_i32_id)
  qed
  have edge: "\<not> distance_axis border k org < e - border + 1" if "?w = I32_MIN"
  proof -
    have "wrap_i32 \<bar>?w\<bar> = I32_MIN" using that by (simp add: wrap_i32_def I32_MIN_def)
    moreover have "border = 1 \<or> border = 2" using assms(4,5) by linarith
    then have "wrap_i32 (I32_MIN - border) = I32_MAX + 1 - border"
      by (auto simp: wrap_i32_def I32_MIN_def I32_MAX_def)
    ultimately show ?thesis using assms(5,6) by (simp add: distance_axis_def I32_MAX_def)
  qed
  show "distance_axis border k org < e - border + 1 \<longleftrightarrow> \<bar>k - org\<bar> \<le> e"
  proof (cases "?w = I32_MIN")
    case True
    then show ?thesis using edge same assms(6) by (auto simp: I32_MIN_def)
  next
    case False
    then show ?thesis using axis small same assms(7) by (auto simp: max_def)
  qed
  show "distance_axis border k org = max 0 (\<bar>k - org\<bar> - border)" if "\<bar>k - org\<bar> \<le> e"
    using axis same [OF that] that assms(6) by (auto simp: I32_MIN_def)
qed

lemma square_sum_less:
  assumes "0 \<le> (x :: int)" "0 \<le> z" "0 \<le> d" "x * x + z * z < d * d"
  shows "x < d" "z < d"
proof -
  have "d * d \<le> y * y" if "d \<le> y" for y using that assms(3) by (intro mult_mono) auto
  moreover have "0 \<le> x * x" "0 \<le> z * z" by simp_all
  ultimately show "x < d" "z < d" using assms(4) by (metis add_increasing add_increasing2 not_le)+
qed

definition plain_axis :: "int \<Rightarrow> int \<Rightarrow> int \<Rightarrow> int" where
  "plain_axis border k origin = max 0 (\<bar>k - origin\<bar> - border)"

lemma view_contains_plain:
  assumes "view_wf (Some p)" "chunk_i32 c"
  shows "view_contains (Some p) c \<longleftrightarrow>
    (plain_axis 2 (ca_x c) (ca_x (v_center p)))\<^sup>2 + (plain_axis 2 (ca_z c) (ca_z (v_center p)))\<^sup>2 < (v_distance p)\<^sup>2"
    and "view_contains (Some p) c \<Longrightarrow> in_bounds (v_bounds p) c"
proof -
  note b = positioned_bounds [OF assms(1)]
  let ?d = "v_distance p" and ?ax = "distance_axis 2 (ca_x c) (ca_x (v_center p))"
    and ?az = "distance_axis 2 (ca_z c) (ca_z (v_center p))"
    and ?px = "plain_axis 2 (ca_x c) (ca_x (v_center p))" and ?pz = "plain_axis 2 (ca_z c) (ca_z (v_center p))"
  have axis: "(distance_axis 2 k org < ?d \<longleftrightarrow> \<bar>k - org\<bar> \<le> ?d + 1) \<and>
      (distance_axis 2 k org < ?d \<longrightarrow> distance_axis 2 k org = plain_axis 2 k org)"
    if "is_i32 k" "I32_MIN \<le> org - (?d + 1)" "org + (?d + 1) < I32_MAX" for k org
    using distance_axis_plain [OF that, of 2] b(9,10) by (simp add: plain_axis_def)
  have x: "?ax < ?d \<longleftrightarrow> \<bar>ca_x c - ca_x (v_center p)\<bar> \<le> ?d + 1" "?ax < ?d \<Longrightarrow> ?ax = ?px"
    using axis [of "ca_x c" "ca_x (v_center p)"] assms(2) b(5,7) by blast+
  have z: "?az < ?d \<longleftrightarrow> \<bar>ca_z c - ca_z (v_center p)\<bar> \<le> ?d + 1" "?az < ?d \<Longrightarrow> ?az = ?pz"
    using axis [of "ca_z c" "ca_z (v_center p)"] assms(2) b(6,8) by blast+
  have nn: "0 \<le> ?ax" "0 \<le> ?az" "0 \<le> ?px" "0 \<le> ?pz" "0 \<le> ?d"
    using b(9) by (simp_all add: distance_axis_def plain_axis_def)
  have c: "view_contains (Some p) c \<longleftrightarrow> ?ax * ?ax + ?az * ?az < ?d * ?d"
    by (simp add: view_contains_def is_within_distance_def Let_def)
  have near: "view_contains (Some p) c \<Longrightarrow> ?ax < ?d \<and> ?az < ?d"
    using square_sum_less [OF nn(1,2,5)] c by blast
  have "?px < ?d \<longleftrightarrow> \<bar>ca_x c - ca_x (v_center p)\<bar> \<le> ?d + 1" "?pz < ?d \<longleftrightarrow> \<bar>ca_z c - ca_z (v_center p)\<bar> \<le> ?d + 1"
    using b(9) by (auto simp: plain_axis_def)
  then have "?px * ?px + ?pz * ?pz < ?d * ?d \<Longrightarrow> ?ax < ?d \<and> ?az < ?d"
    using square_sum_less [OF nn(3,4,5)] x(1) z(1) by blast
  then show "view_contains (Some p) c \<longleftrightarrow> ?px\<^sup>2 + ?pz\<^sup>2 < ?d\<^sup>2"
    using near c x(2) z(2) unfolding power2_eq_square by (metis (no_types))
  show "in_bounds (v_bounds p) c" if "view_contains (Some p) c"
    using near [OF that] x(1) z(1) b(1-4) by (auto simp: in_bounds_def)
qed

text \<open>The scans of a difference reach every chunk one of the views contains.\<close>

lemma view_bounds_wf:
  assumes "view_wf (Some p)"
  shows "in_bounds (v_bounds p) (b_min (v_bounds p))" "in_bounds (v_bounds p) c \<Longrightarrow> chunk_i32 c"
  using positioned_bounds [OF assms] by (auto simp: in_bounds_def is_i32_def I32_MAX_def)

lemma in_bounds_union: "in_bounds a c \<or> in_bounds b c \<Longrightarrow> in_bounds (bounds_union a b) c"
  by (auto simp: in_bounds_def bounds_union_def)

lemma union_bounds_wf:
  assumes "view_wf (Some p)" "view_wf (Some q)" "in_bounds (bounds_union (v_bounds p) (v_bounds q)) c"
  shows "chunk_i32 c"
  using positioned_bounds [OF assms(1)] positioned_bounds [OF assms(2)] assms(3)
  by (auto simp: in_bounds_def bounds_union_def is_i32_def min_def max_def split: if_splits)

lemma not_both_bounds:
  "\<not> bounds_intersects a b \<Longrightarrow> in_bounds a c \<Longrightarrow> in_bounds b c \<Longrightarrow> False"
  by (auto simp: in_bounds_def bounds_intersects_def)

section \<open>Exactness of a difference\<close>

fun change_chunk :: "ViewChange \<Rightarrow> ChunkAddress" where
  "change_chunk (Enter c) = c"
| "change_chunk (Leave c) = c"

lemma change_at_chunk: "change_at ph p n c = Some e \<Longrightarrow> change_chunk e = c"
  by (auto simp: change_at_def Let_def split: if_splits)

lemma set_map_filter: "set (List.map_filter f xs) = {y. \<exists>x \<in> set xs. f x = Some y}"
  by (induction xs) (auto simp: List.map_filter_simps split: option.splits)

lemma distinct_map_filter_change:
  "distinct cs \<Longrightarrow> distinct (List.map_filter (change_at ph p n) cs)"
proof (induction cs)
  case (Cons c cs)
  have "e \<notin> set (List.map_filter (change_at ph p n) cs)" if "change_at ph p n c = Some e" for e
    using that Cons.prems by (auto simp: set_map_filter dest!: change_at_chunk)
  then show ?case using Cons by (simp add: List.map_filter_simps split: option.splits)
qed (simp add: List.map_filter_simps)

lemma change_at_iff:
  "change_at ph p n c = Some (Enter c) \<longleftrightarrow>
     ph \<noteq> LeavePhase \<and> view_contains n c \<and> \<not> (ph \<noteq> EnterPhase \<and> view_contains p c)"
  "change_at ph p n c = Some (Leave c) \<longleftrightarrow>
     ph \<noteq> EnterPhase \<and> view_contains p c \<and> \<not> (ph \<noteq> LeavePhase \<and> view_contains n c)"
  by (auto simp: change_at_def Let_def)

lemma mem_changes:
  "e \<in> set (List.map_filter (change_at ph p n) cs) \<longleftrightarrow>
   change_chunk e \<in> set cs \<and> change_at ph p n (change_chunk e) = Some e"
  unfolding set_map_filter using change_at_chunk [of ph p n _ e] by blast

lemma mem_enter: "Enter c \<in> set (List.map_filter (change_at ph p n) cs) \<longleftrightarrow>
    c \<in> set cs \<and> ph \<noteq> LeavePhase \<and> view_contains n c \<and> \<not> (ph \<noteq> EnterPhase \<and> view_contains p c)"
  and mem_leave: "Leave c \<in> set (List.map_filter (change_at ph p n) cs) \<longleftrightarrow>
    c \<in> set cs \<and> ph \<noteq> EnterPhase \<and> view_contains p c \<and> \<not> (ph \<noteq> LeavePhase \<and> view_contains n c)"
  by (simp_all add: mem_changes change_at_iff)

definition exact_changes :: "TrackingView \<Rightarrow> TrackingView \<Rightarrow> ViewChange list \<Rightarrow> bool" where
  "exact_changes p n es \<longleftrightarrow> distinct es \<and>
     (\<forall>c. Enter c \<in> set es \<longleftrightarrow> chunk_i32 c \<and> view_contains n c \<and> \<not> view_contains p c) \<and>
     (\<forall>c. Leave c \<in> set es \<longleftrightarrow> chunk_i32 c \<and> view_contains p c \<and> \<not> view_contains n c)"

lemma view_cells:
  assumes "view_wf v"
  shows "set (next_bounds_cells v) = {c. \<exists>p. v = Some p \<and> in_bounds (v_bounds p) c}" "distinct (next_bounds_cells v)"
  using assms scan_cells_new view_bounds_wf(1)
  by (cases v; auto simp: next_bounds_cells_def opt_cells_def)+

lemma contains_bounds:
  "view_wf v \<Longrightarrow> chunk_i32 c \<Longrightarrow> view_contains v c \<Longrightarrow> \<exists>p. v = Some p \<and> in_bounds (v_bounds p) c"
  using view_contains_plain(2) by (cases v) (auto simp: view_contains_def)

lemma cells_i32: "view_wf v \<Longrightarrow> c \<in> set (next_bounds_cells v) \<Longrightarrow> chunk_i32 c"
  using view_cells(1) view_bounds_wf(2) by blast

text \<open>A difference without a common scan: all departures, then all arrivals.\<close>

lemma separate_exact:
  assumes p: "view_wf p" and n: "view_wf n"
    and apart: "\<And>c. chunk_i32 c \<Longrightarrow> \<not> (view_contains p c \<and> view_contains n c)"
  shows "exact_changes p n (List.map_filter (change_at LeavePhase p n) (next_bounds_cells p) @
    List.map_filter (change_at EnterPhase p n) (next_bounds_cells n))"
proof -
  let ?l = "List.map_filter (change_at LeavePhase p n) (next_bounds_cells p)"
  let ?e = "List.map_filter (change_at EnterPhase p n) (next_bounds_cells n)"
  have dist: "distinct ?l" "distinct ?e" using view_cells(2) p n distinct_map_filter_change by blast+
  have other: "Enter c \<notin> set ?l" "Leave c \<notin> set ?e" for c by (simp_all add: mem_enter mem_leave)
  have "Leave c \<in> set ?l \<longleftrightarrow> chunk_i32 c \<and> view_contains p c \<and> \<not> view_contains n c" for c
    unfolding mem_leave view_cells(1) [OF p]
    using contains_bounds [OF p, of c] cells_i32 [OF p, of c] apart [of c] view_cells(1) [OF p] by blast
  moreover have "Enter c \<in> set ?e \<longleftrightarrow> chunk_i32 c \<and> view_contains n c \<and> \<not> view_contains p c" for c
    unfolding mem_enter view_cells(1) [OF n]
    using contains_bounds [OF n, of c] cells_i32 [OF n, of c] apart [of c] view_cells(1) [OF n] by blast
  moreover have "e \<notin> set ?l \<or> e \<notin> set ?e" for e using other by (cases e) blast+
  then have "set ?l \<inter> set ?e = {}" by blast
  then have "distinct (?l @ ?e)" using dist by simp
  ultimately show ?thesis
    unfolding exact_changes_def set_append Un_iff using other by blast
qed

lemma overlap_exact:
  assumes p: "view_wf (Some a)" and n: "view_wf (Some b)"
  shows "exact_changes (Some a) (Some b) (List.map_filter (change_at OverlapPhase (Some a) (Some b))
    (scan_cells (scan_new (bounds_union (v_bounds a) (v_bounds b)))))"
proof -
  let ?u = "bounds_union (v_bounds a) (v_bounds b)"
  have min: "in_bounds ?u (b_min ?u)"
    using positioned_bounds [OF p] positioned_bounds [OF n] by (auto simp: in_bounds_def bounds_union_def)
  note cells = scan_cells_new [OF min]
  have "view_contains (Some a) c \<or> view_contains (Some b) c \<Longrightarrow> chunk_i32 c \<Longrightarrow> in_bounds ?u c" for c
    using view_contains_plain(2) p n in_bounds_union by blast
  then have cell: "view_contains (Some a) c \<or> view_contains (Some b) c \<Longrightarrow>
      c \<in> set (scan_cells (scan_new ?u)) \<longleftrightarrow> chunk_i32 c" for c
    unfolding cells(1) using union_bounds_wf [OF p n] by blast
  show ?thesis
    unfolding exact_changes_def mem_enter mem_leave
    using distinct_map_filter_change [OF cells(2)] cell by blast
qed

lemma drain_exact:
  assumes p: "view_wf p" and n: "view_wf n"
  shows "exact_changes p n (drain (difference_new p n))"
proof (cases "p = n")
  case True
  then show ?thesis
    by (simp add: drain_spec difference_new_def opt_cells_def List.map_filter_simps exact_changes_def)
next
  case ne: False
  show ?thesis
  proof (cases "\<exists>a b. p = Some a \<and> n = Some b \<and> bounds_intersects (v_bounds a) (v_bounds b)")
    case True
    then obtain a b where ab: "p = Some a" "n = Some b" "bounds_intersects (v_bounds a) (v_bounds b)" by blast
    then have "drain (difference_new p n) = List.map_filter (change_at OverlapPhase p n)
        (scan_cells (scan_new (bounds_union (v_bounds a) (v_bounds b))))"
      using ne by (simp add: drain_spec difference_new_def opt_cells_def)
    then show ?thesis using overlap_exact ab p n by simp
  next
    case False
    have "difference_new p n = \<lparr>d_previous = p, d_next = n, d_scan = map_option (\<lambda>v. scan_new (v_bounds v)) p, d_phase = LeavePhase\<rparr>"
      using ne False by (cases p; cases n) (simp_all add: difference_new_def)
    then have "drain (difference_new p n) = List.map_filter (change_at LeavePhase p n) (next_bounds_cells p) @
        List.map_filter (change_at EnterPhase p n) (next_bounds_cells n)"
      by (simp add: drain_spec next_bounds_cells_def)
    moreover have "\<not> (view_contains p c \<and> view_contains n c)" if "chunk_i32 c" for c
      using contains_bounds [OF p that] contains_bounds [OF n that] False not_both_bounds by blast
    ultimately show ?thesis using separate_exact [OF p n] by simp
  qed
qed

section \<open>The player view and the client\<close>

text \<open>
  The client that applies the events: its view center and the chunks it tracks.
\<close>

record Client =
  cl_center :: "ChunkAddress option"
  cl_tracked :: "ChunkAddress set"

fun apply_event :: "ViewEvent \<Rightarrow> Client \<Rightarrow> Client" where
  "apply_event (SetCenter c) cl = cl\<lparr>cl_center := Some c\<rparr>"
| "apply_event (EnterChunk c) cl = cl\<lparr>cl_tracked := insert c (cl_tracked cl)\<rparr>"
| "apply_event (LeaveChunk c) cl = cl\<lparr>cl_tracked := cl_tracked cl - {c}\<rparr>"

definition client_new :: Client where
  "client_new = \<lparr>cl_center = None, cl_tracked = {}\<rparr>"

text \<open>A chunk event is due when it changes the client: none enters twice or leaves untracked.\<close>

fun event_due :: "ViewEvent \<Rightarrow> Client \<Rightarrow> bool" where
  "event_due (SetCenter c) cl \<longleftrightarrow> True"
| "event_due (EnterChunk c) cl \<longleftrightarrow> c \<notin> cl_tracked cl"
| "event_due (LeaveChunk c) cl \<longleftrightarrow> c \<in> cl_tracked cl"

fun events_due :: "ViewEvent list \<Rightarrow> Client \<Rightarrow> bool" where
  "events_due [] cl \<longleftrightarrow> True"
| "events_due (e # es) cl \<longleftrightarrow> event_due e cl \<and> events_due es (apply_event e cl)"

inductive view_step :: "PlayerView \<times> Client \<Rightarrow> PlayerView \<times> Client \<Rightarrow> bool" where
  begin_step: "view_wf next \<Longrightarrow> begin_update pv next = Inr pv' \<Longrightarrow> view_step (pv, cl) (pv', cl)"
| acknowledge_step: "pending_event pv = Some e \<Longrightarrow> acknowledge_event pv = Inr pv' \<Longrightarrow>
    view_step (pv, cl) (pv', apply_event e cl)"
| finish_step: "finish_update pv = Inr pv' \<Longrightarrow> view_step (pv, cl) (pv', cl)"

inductive_cases view_stepE: "view_step (pv, cl) (pv', cl')"

inductive view_reachable :: "PlayerView \<times> Client \<Rightarrow> bool" where
  start: "view_reachable (player_view_new, client_new)"
| step: "view_reachable s \<Longrightarrow> view_step s s' \<Longrightarrow> view_reachable s'"

definition view_chunks :: "TrackingView \<Rightarrow> ChunkAddress set" where
  "view_chunks v = {c. chunk_i32 c \<and> view_contains v c}"

text \<open>The client shows a view.\<close>

definition shows_view :: "TrackingView \<Rightarrow> Client \<Rightarrow> bool" where
  "shows_view v cl \<longleftrightarrow> cl_tracked cl = view_chunks v \<and> (\<forall>p. v = Some p \<longrightarrow> cl_center cl = Some (v_center p))"

text \<open>The events a transition still has to deliver.\<close>

definition events_left :: "Transition \<Rightarrow> ViewEvent list" where
  "events_left t = (case t_event t of None \<Rightarrow> [] | Some e \<Rightarrow> e # map event_of (drain (t_changes t)))"

definition view_inv :: "PlayerView \<times> Client \<Rightarrow> bool" where
  "view_inv s \<longleftrightarrow> (case s of (pv, cl) \<Rightarrow>
     view_wf (pv_current pv) \<and>
     (case pv_transition pv of
        None \<Rightarrow> shows_view (pv_current pv) cl
      | Some t \<Rightarrow> view_wf (t_next t) \<and> events_due (events_left t) cl \<and>
          shows_view (t_next t) (fold apply_event (events_left t) cl)))"

lemma changes_apply:
  assumes "distinct es" "\<forall>c. Enter c \<in> set es \<longrightarrow> c \<notin> cl_tracked cl" "\<forall>c. Leave c \<in> set es \<longrightarrow> c \<in> cl_tracked cl"
  shows "events_due (map event_of es) cl \<and>
    fold apply_event (map event_of es) cl =
      cl\<lparr>cl_tracked := cl_tracked cl \<union> {c. Enter c \<in> set es} - {c. Leave c \<in> set es}\<rparr>"
  using assms
proof (induction es arbitrary: cl)
  case (Cons e es)
  show ?case
  proof (cases e)
    case (Enter c)
    have "events_due (map event_of es) (apply_event (event_of e) cl) \<and>
      fold apply_event (map event_of es) (apply_event (event_of e) cl) = (apply_event (event_of e) cl)
        \<lparr>cl_tracked := cl_tracked (apply_event (event_of e) cl) \<union> {c. Enter c \<in> set es} - {c. Leave c \<in> set es}\<rparr>"
      using Cons.prems Enter by (intro Cons.IH) auto
    moreover have "insert c (cl_tracked cl) \<union> {c. Enter c \<in> set es} - {c. Leave c \<in> set es} =
        cl_tracked cl \<union> {c. Enter c \<in> set (e # es)} - {c. Leave c \<in> set (e # es)}"
      using Enter by auto
    ultimately show ?thesis using Cons.prems Enter by simp
  next
    case (Leave c)
    have "events_due (map event_of es) (apply_event (event_of e) cl) \<and>
      fold apply_event (map event_of es) (apply_event (event_of e) cl) = (apply_event (event_of e) cl)
        \<lparr>cl_tracked := cl_tracked (apply_event (event_of e) cl) \<union> {c. Enter c \<in> set es} - {c. Leave c \<in> set es}\<rparr>"
      using Cons.prems Leave by (intro Cons.IH) auto
    moreover have "cl_tracked cl - {c} \<union> {c. Enter c \<in> set es} - {c. Leave c \<in> set es} =
        cl_tracked cl \<union> {c. Enter c \<in> set (e # es)} - {c. Leave c \<in> set (e # es)}"
      using Leave Cons.prems by auto
    ultimately show ?thesis using Cons.prems Leave by simp
  qed
qed simp

text \<open>The difference of two views takes the client from one to the other.\<close>

lemma difference_apply:
  assumes "view_wf p" "view_wf n" "cl_tracked cl = view_chunks p"
  shows "events_due (map event_of (drain (difference_new p n))) cl \<and>
    fold apply_event (map event_of (drain (difference_new p n))) cl = cl\<lparr>cl_tracked := view_chunks n\<rparr>"
proof -
  let ?es = "drain (difference_new p n)"
  have ex: "distinct ?es" "Enter c \<in> set ?es \<longleftrightarrow> chunk_i32 c \<and> view_contains n c \<and> \<not> view_contains p c"
    "Leave c \<in> set ?es \<longleftrightarrow> chunk_i32 c \<and> view_contains p c \<and> \<not> view_contains n c" for c
    using drain_exact [OF assms(1,2)] unfolding exact_changes_def by blast+
  have "\<forall>c. Enter c \<in> set ?es \<longrightarrow> c \<notin> cl_tracked cl" "\<forall>c. Leave c \<in> set ?es \<longrightarrow> c \<in> cl_tracked cl"
    unfolding ex assms(3) view_chunks_def by blast+
  moreover have "cl_tracked cl \<union> {c. Enter c \<in> set ?es} - {c. Leave c \<in> set ?es} = view_chunks n"
    unfolding ex assms(3) view_chunks_def by blast
  ultimately show ?thesis using changes_apply [OF ex(1), of cl] by simp
qed

lemma events_left_next:
  assumes "difference_next d = (change, d')"
  shows "events_left \<lparr>t_next = n, t_changes = d', t_event = map_option event_of change\<rparr> = map event_of (drain d)"
  using assms by (simp add: events_left_def drain.simps [of d] split: option.splits)

lemma begin_update_inv:
  assumes inv: "view_inv (pv, cl)" and n: "view_wf n" and b: "begin_update pv n = Inr pv'"
  shows "view_inv (pv', cl)"
proof -
  have pv: "pv_transition pv = None" using b by (simp add: begin_update_def split: if_splits)
  then have cur: "view_wf (pv_current pv)" "shows_view (pv_current pv) cl" using inv by (simp_all add: view_inv_def)
  let ?d = "difference_new (pv_current pv) n"
  let ?es = "map event_of (drain ?d)"
  note app = difference_apply [OF cur(1) n, of cl]
  have tr: "cl_tracked cl = view_chunks (pv_current pv)" using cur(2) by (simp add: shows_view_def)
  show ?thesis
  proof (cases "\<exists>p. n = Some p \<and> Some (v_center p) \<noteq> map_option v_center (pv_current pv)")
    case True
    then obtain p where p: "n = Some p" "Some (v_center p) \<noteq> map_option v_center (pv_current pv)" by blast
    then have pv': "pv' = pv\<lparr>pv_transition := Some \<lparr>t_next = n, t_changes = ?d, t_event = Some (SetCenter (v_center p))\<rparr>\<rparr>"
      using b pv by (simp add: begin_update_def)
    let ?cl = "cl\<lparr>cl_center := Some (v_center p)\<rparr>"
    have "events_due ?es ?cl \<and> fold apply_event ?es ?cl = ?cl\<lparr>cl_tracked := view_chunks n\<rparr>"
      using tr by (intro difference_apply [OF cur(1) n]) simp
    then show ?thesis using pv' cur(1) n p(1) by (simp add: view_inv_def events_left_def shows_view_def)
  next
    case False
    obtain change d' where d': "difference_next ?d = (change, d')" by (cases "difference_next ?d")
    have pv': "pv' = pv\<lparr>pv_transition := Some \<lparr>t_next = n, t_changes = d', t_event = map_option event_of change\<rparr>\<rparr>"
      using b pv False d' by (cases n) (auto simp: begin_update_def Let_def)
    have "cl_center cl = Some (v_center p)" if "n = Some p" for p
    proof -
      have "Some (v_center p) = map_option v_center (pv_current pv)" using False that by blast
      then obtain q where q: "pv_current pv = Some q" "v_center q = v_center p" by (cases "pv_current pv") simp_all
      then show ?thesis using cur(2) unfolding shows_view_def by (metis q)
    qed
    then have "shows_view n (cl\<lparr>cl_tracked := view_chunks n\<rparr>)" by (simp add: shows_view_def)
    then show ?thesis
      using pv' cur(1) n app [OF tr] events_left_next [OF d', of n] by (simp add: view_inv_def)
  qed
qed

lemma acknowledge_event_inv:
  assumes inv: "view_inv (pv, cl)" and e: "pending_event pv = Some e" and a: "acknowledge_event pv = Inr pv'"
  shows "view_inv (pv', apply_event e cl)"
proof -
  obtain t where t: "pv_transition pv = Some t" "t_event t = Some e"
    using e by (auto simp: pending_event_def bind_eq_Some_conv)
  obtain change d' where d': "difference_next (t_changes t) = (change, d')" by (cases "difference_next (t_changes t)")
  let ?t = "t\<lparr>t_event := map_option event_of change, t_changes := d'\<rparr>"
  have pv': "pv' = pv\<lparr>pv_transition := Some ?t\<rparr>"
    using a t d' by (simp add: acknowledge_event_def)
  have "events_left ?t = events_left \<lparr>t_next = t_next t, t_changes = d', t_event = map_option event_of change\<rparr>"
    by (cases change) (simp_all add: events_left_def)
  then have "events_left ?t = map event_of (drain (t_changes t))" using events_left_next [OF d'] by simp
  moreover have "events_left t = e # map event_of (drain (t_changes t))" using t(2) by (simp add: events_left_def)
  ultimately show ?thesis using inv pv' t by (simp add: view_inv_def)
qed

lemma finish_update_inv:
  assumes "view_inv (pv, cl)" "finish_update pv = Inr pv'"
  shows "view_inv (pv', cl)"
  using assms by (auto simp: view_inv_def finish_update_def events_left_def split: option.splits if_splits)

lemma view_reachable_inv: "view_reachable s \<Longrightarrow> view_inv s"
proof (induction rule: view_reachable.induct)
  case start
  show ?case
    by (simp add: view_inv_def player_view_new_def client_new_def view_wf_def shows_view_def view_chunks_def view_contains_def)
next
  case (step s s')
  obtain pv cl pv' cl' where s: "s = (pv, cl)" "s' = (pv', cl')" by (cases s; cases s')
  from step(2,3) show ?case
    unfolding s by (auto elim!: view_stepE intro: begin_update_inv acknowledge_event_inv finish_update_inv)
qed

text \<open>Acknowledging the pending events one after the other.\<close>

fun acknowledge_times :: "nat \<Rightarrow> PlayerView \<Rightarrow> ViewError + PlayerView" where
  "acknowledge_times 0 pv = Inr pv"
| "acknowledge_times (Suc k) pv = bind_r (acknowledge_event pv) (\<lambda>pv. acknowledge_times k pv)"

lemma acknowledge_all:
  assumes "pv_transition pv = Some t"
  shows "\<exists>pv'. acknowledge_times (length (events_left t)) pv = Inr pv' \<and>
    finish_update pv' = Inr (pv\<lparr>pv_current := t_next t, pv_transition := None\<rparr>)"
  using assms
proof (induction "length (events_left t)" arbitrary: pv t)
  case 0
  then have "t_event t = None" by (cases "t_event t") (simp_all add: events_left_def)
  then show ?case using 0 by (simp add: finish_update_def events_left_def)
next
  case (Suc k)
  then obtain e where e: "t_event t = Some e" by (cases "t_event t") (simp_all add: events_left_def)
  obtain change d' where d': "difference_next (t_changes t) = (change, d')" by (cases "difference_next (t_changes t)")
  let ?t = "\<lparr>t_next = t_next t, t_changes = d', t_event = map_option event_of change\<rparr>"
  have t: "t\<lparr>t_event := map_option event_of change, t_changes := d'\<rparr> = ?t" by (cases t) simp
  have ack: "acknowledge_event pv = Inr (pv\<lparr>pv_transition := Some ?t\<rparr>)"
    using Suc.prems e d' t by (simp add: acknowledge_event_def)
  have len: "length (events_left ?t) = k" using Suc.hyps(2) e events_left_next [OF d', of "t_next t"] by (simp add: events_left_def)
  from Suc.hyps(1) [OF len [symmetric], of "pv\<lparr>pv_transition := Some ?t\<rparr>"] show ?case
    using ack len Suc.hyps(2) [symmetric] by auto
qed

section \<open>Cells visited\<close>

text \<open>Sending the pending events to the client and acknowledging them, one after the other.\<close>

fun deliver_events :: "nat \<Rightarrow> PlayerView \<times> Client \<Rightarrow> ViewError + (PlayerView \<times> Client)" where
  "deliver_events 0 s = Inr s"
| "deliver_events (Suc k) (pv, cl) =
     (case pending_event pv of
        None \<Rightarrow> Inl NoEvent
      | Some e \<Rightarrow> bind_r (acknowledge_event pv) (\<lambda>pv. deliver_events k (pv, apply_event e cl)))"

lemma deliver_all:
  assumes "pv_transition pv = Some t"
  shows "\<exists>pv'. deliver_events (length (events_left t)) (pv, cl) = Inr (pv', fold apply_event (events_left t) cl) \<and>
    finish_update pv' = Inr (pv\<lparr>pv_current := t_next t, pv_transition := None\<rparr>)"
  using assms
proof (induction "length (events_left t)" arbitrary: pv t cl)
  case 0
  then have "t_event t = None" by (cases "t_event t") (simp_all add: events_left_def)
  then show ?case using 0 by (simp add: finish_update_def events_left_def)
next
  case (Suc k)
  then obtain e where e: "t_event t = Some e" by (cases "t_event t") (simp_all add: events_left_def)
  obtain change d' where d': "difference_next (t_changes t) = (change, d')" by (cases "difference_next (t_changes t)")
  let ?t = "\<lparr>t_next = t_next t, t_changes = d', t_event = map_option event_of change\<rparr>"
  have t: "t\<lparr>t_event := map_option event_of change, t_changes := d'\<rparr> = ?t" by (cases t) simp
  have ack: "acknowledge_event pv = Inr (pv\<lparr>pv_transition := Some ?t\<rparr>)" "pending_event pv = Some e"
    using Suc.prems e d' t by (simp_all add: acknowledge_event_def pending_event_def)
  have es: "events_left t = e # events_left ?t" using e events_left_next [OF d', of "t_next t"] by (simp add: events_left_def)
  then have len: "k = length (events_left ?t)" using Suc.hyps(2) by simp
  from Suc.hyps(1) [OF len, of "pv\<lparr>pv_transition := Some ?t\<rparr>" "apply_event e cl"] show ?case
    unfolding es using ack len by auto
qed

lemma card_in_bounds:
  "card {c. in_bounds b c} =
   nat (ca_x (b_max b) - ca_x (b_min b) + 1) * nat (ca_z (b_max b) - ca_z (b_min b) + 1)"
proof -
  let ?f = "\<lambda>(x, z). \<lparr>ca_x = x, ca_z = z\<rparr> :: ChunkAddress"
  let ?g = "{ca_x (b_min b)..ca_x (b_max b)} \<times> {ca_z (b_min b)..ca_z (b_max b)}"
  have "{c. in_bounds b c} = ?f ` ?g"
  proof
    show "{c. in_bounds b c} \<subseteq> ?f ` ?g"
    proof
      fix c :: ChunkAddress assume "c \<in> {c. in_bounds b c}"
      moreover have "c = ?f (ca_x c, ca_z c)" by simp
      ultimately show "c \<in> ?f ` ?g" by (metis (no_types, lifting) SigmaI atLeastAtMost_iff image_eqI in_bounds_def mem_Collect_eq)
    qed
  qed (auto simp: in_bounds_def)
  moreover have "inj_on ?f ?g" by (auto simp: inj_on_def)
  ultimately show ?thesis by (simp add: card_image card_cartesian_product add.commute)
qed

lemma length_scan_cells:
  "in_bounds b (b_min b) \<Longrightarrow> length (scan_cells (scan_new b)) =
    nat (ca_x (b_max b) - ca_x (b_min b) + 1) * nat (ca_z (b_max b) - ca_z (b_min b) + 1)"
  using scan_cells_new [of b] card_in_bounds [of b] distinct_card by metis

definition cells_visited :: "TrackingView \<Rightarrow> TrackingView \<Rightarrow> nat" where
  "cells_visited p n =
     (let d = difference_new p n in
      length (opt_cells (d_scan d)) + (if d_phase d = LeavePhase then length (next_bounds_cells n) else 0))"

lemma length_view_cells: "view_wf v \<Longrightarrow> length (next_bounds_cells v) \<le> 67 * 67"
proof (cases v)
  case (Some p)
  assume "view_wf v"
  then have wf: "view_wf (Some p)" using Some by simp
  note b = positioned_bounds [OF wf]
  have "length (next_bounds_cells v) = nat (2 * v_distance p + 3) * nat (2 * v_distance p + 3)"
    using length_scan_cells [OF view_bounds_wf(1) [OF wf]] b(1-4) Some
    by (simp add: next_bounds_cells_def opt_cells_def algebra_simps)
  also have "\<dots> \<le> 67 * 67" using b(10) by (intro mult_le_mono) auto
  finally show ?thesis .
qed (simp add: next_bounds_cells_def opt_cells_def)

lemma length_union_cells:
  assumes p: "view_wf (Some a)" and n: "view_wf (Some b)" and i: "bounds_intersects (v_bounds a) (v_bounds b)"
  shows "length (scan_cells (scan_new (bounds_union (v_bounds a) (v_bounds b)))) \<le> 133 * 133"
proof -
  note b = positioned_bounds [OF p] positioned_bounds [OF n]
  let ?u = "bounds_union (v_bounds a) (v_bounds b)"
  have min: "in_bounds ?u (b_min ?u)" using b by (auto simp: in_bounds_def bounds_union_def)
  have "ca_x (b_max ?u) - ca_x (b_min ?u) + 1 \<le> 133" "ca_z (b_max ?u) - ca_z (b_min ?u) + 1 \<le> 133"
    using b i by (simp_all add: bounds_union_def bounds_intersects_def max_def min_def)
  then show ?thesis unfolding length_scan_cells [OF min] by (intro mult_le_mono) auto
qed

section \<open>Properties\<close>

text \<open>
  the distance test has no wrap-around surprises. For every view that \<open>positioned\<close> admits and
  every chunk of the coordinate range, the test with wrapping 32-bit arithmetic agrees with the
  plain one over the integers, and every contained chunk lies inside the recorded scan bounds.
\<close>

theorem view_contains_exact:
  assumes "distance_wf d" "chunk_i32 center" "positioned center d = Inr (Some p)" "chunk_i32 c"
  shows "(view_contains (Some p) c \<longleftrightarrow>
      (max 0 (\<bar>ca_x c - ca_x center\<bar> - 2))\<^sup>2 + (max 0 (\<bar>ca_z c - ca_z center\<bar> - 2))\<^sup>2 < d\<^sup>2) \<and>
    (view_contains (Some p) c \<longrightarrow>
      ca_x center - d - 1 \<le> ca_x c \<and> ca_x c \<le> ca_x center + d + 1 \<and>
      ca_z center - d - 1 \<le> ca_z c \<and> ca_z c \<le> ca_z center + d + 1)"
proof -
  have p: "v_center p = center" "v_distance p = d"
    using assms(3) by (auto simp: positioned_def result_simps Let_def)
  then have wf: "view_wf (Some p)" using assms(1-3) by (simp add: view_wf_def)
  show ?thesis
    using view_contains_plain [OF wf assms(4)] positioned_bounds(1-4) [OF wf] p
    by (auto simp: plain_axis_def in_bounds_def)
qed

theorem view_contains_exact_witness:
  "\<exists>p. positioned \<lparr>ca_x = 10, ca_z = - 4\<rparr> 2 = Inr (Some p) \<and>
     (view_contains (Some p) \<lparr>ca_x = 13, ca_z = - 4\<rparr> \<longleftrightarrow> (1 :: int) < 4)"
proof -
  let ?c = "\<lparr>ca_x = 10, ca_z = - 4\<rparr>"
  have i: "distance_wf 2" "chunk_i32 ?c" "chunk_i32 \<lparr>ca_x = 13, ca_z = - 4\<rparr>"
    by (simp_all add: distance_wf_def MIN_VIEW_DISTANCE_def MAX_VIEW_DISTANCE_def is_i32_def I32_MIN_def I32_MAX_def)
  obtain p where p: "positioned ?c 2 = Inr (Some p)"
    by (simp add: positioned_def view_minimum_def view_maximum_def is_i32_def I32_MIN_def I32_MAX_def)
  show ?thesis using p conjunct1 [OF view_contains_exact [OF i(1,2) p i(3)]] by auto
qed

text \<open>
  C27: the difference of two views is exact. Draining the iterator for any two views ends and
  yields each change once: a chunk enters exactly when the new view contains it and the old one
  does not, and leaves exactly in the opposite case. At most 133 by 133 cells are visited when
  the scan bounds overlap and twice 67 by 67 otherwise.
\<close>

theorem view_difference_exact:
  assumes "view_wf p" "view_wf n"
  shows "distinct (drain (difference_new p n)) \<and>
    (\<forall>c. Enter c \<in> set (drain (difference_new p n)) \<longleftrightarrow> chunk_i32 c \<and> view_contains n c \<and> \<not> view_contains p c) \<and>
    (\<forall>c. Leave c \<in> set (drain (difference_new p n)) \<longleftrightarrow> chunk_i32 c \<and> view_contains p c \<and> \<not> view_contains n c) \<and>
    cells_visited p n \<le> 133 * 133"
proof -
  have "cells_visited p n \<le> 133 * 133"
  proof (cases "\<exists>a b. p = Some a \<and> n = Some b \<and> p \<noteq> n \<and> bounds_intersects (v_bounds a) (v_bounds b)")
    case True
    then show ?thesis
      using length_union_cells assms by (auto simp: cells_visited_def difference_new_def opt_cells_def)
  next
    case False
    then have "cells_visited p n \<le> length (next_bounds_cells p) + length (next_bounds_cells n)"
      by (cases p; cases n) (auto simp: cells_visited_def difference_new_def opt_cells_def next_bounds_cells_def Let_def)
    then show ?thesis using length_view_cells [OF assms(1)] length_view_cells [OF assms(2)] by simp
  qed
  then show ?thesis using drain_exact [OF assms] unfolding exact_changes_def by blast
qed

theorem view_difference_exact_witness:
  "drain (difference_new None None) = [] \<and> cells_visited None None \<le> 133 * 133"
proof -
  have wf: "view_wf None" by (simp add: view_wf_def)
  have "Enter c \<notin> set (drain (difference_new None None))" "Leave c \<notin> set (drain (difference_new None None))" for c
    using view_difference_exact [OF wf wf] by (auto simp: view_contains_def)
  then have "drain (difference_new None None) = []"
    by (metis ViewChange.exhaust list.set_intros(1) neq_Nil_conv)
  then show ?thesis using view_difference_exact [OF wf wf] by blast
qed

text \<open>
  C26: a client that applies the acknowledged events shows the server's view. In every reachable
  state of the player view, whenever no update is active the client tracks exactly the chunks of
  the current view and has its center. While one is active, a pending arrival names a chunk the
  client does not track and a pending departure one it does, and delivering and acknowledging the
  events that are left, however many were delivered before, ends with a client that tracks exactly
  the chunks of the next view and has its center, where finishing the update makes this view
  current.
\<close>

theorem player_view_client_in_step:
  assumes "view_reachable (pv, cl)"
  shows "case pv_transition pv of
      None \<Rightarrow>
        cl_tracked cl = {c. chunk_i32 c \<and> view_contains (pv_current pv) c} \<and>
        (\<forall>p. pv_current pv = Some p \<longrightarrow> cl_center cl = Some (v_center p))
    | Some t \<Rightarrow>
        (\<forall>c. pending_event pv = Some (EnterChunk c) \<longrightarrow> c \<notin> cl_tracked cl) \<and>
        (\<forall>c. pending_event pv = Some (LeaveChunk c) \<longrightarrow> c \<in> cl_tracked cl) \<and>
        (\<exists>n pv' cl'. deliver_events n (pv, cl) = Inr (pv', cl') \<and>
          finish_update pv' = Inr (pv\<lparr>pv_current := t_next t, pv_transition := None\<rparr>) \<and>
          cl_tracked cl' = {c. chunk_i32 c \<and> view_contains (t_next t) c} \<and>
          (\<forall>p. t_next t = Some p \<longrightarrow> cl_center cl' = Some (v_center p)))"
proof (cases "pv_transition pv")
  case None
  then show ?thesis using view_reachable_inv [OF assms] by (simp add: view_inv_def shows_view_def view_chunks_def)
next
  case (Some t)
  then have inv: "events_due (events_left t) cl" "shows_view (t_next t) (fold apply_event (events_left t) cl)"
    using view_reachable_inv [OF assms] by (simp_all add: view_inv_def)
  from deliver_all [OF Some, of cl] obtain pv' where
    "deliver_events (length (events_left t)) (pv, cl) = Inr (pv', fold apply_event (events_left t) cl)"
    "finish_update pv' = Inr (pv\<lparr>pv_current := t_next t, pv_transition := None\<rparr>)" by blast
  then have "\<exists>n pv' cl'. deliver_events n (pv, cl) = Inr (pv', cl') \<and>
      finish_update pv' = Inr (pv\<lparr>pv_current := t_next t, pv_transition := None\<rparr>) \<and>
      cl_tracked cl' = {c. chunk_i32 c \<and> view_contains (t_next t) c} \<and>
      (\<forall>p. t_next t = Some p \<longrightarrow> cl_center cl' = Some (v_center p))"
    using inv(2) unfolding shows_view_def view_chunks_def by blast
  moreover have "pending_event pv = Some e \<Longrightarrow> event_due e cl" for e
    using inv(1) Some by (simp add: pending_event_def events_left_def)
  from this [of "EnterChunk _"] this [of "LeaveChunk _"] have
    "(\<forall>c. pending_event pv = Some (EnterChunk c) \<longrightarrow> c \<notin> cl_tracked cl) \<and>
     (\<forall>c. pending_event pv = Some (LeaveChunk c) \<longrightarrow> c \<in> cl_tracked cl)" by simp
  ultimately show ?thesis unfolding Some by simp
qed

theorem player_view_client_in_step_witness:
  "\<exists>v pv n pv' cl'. positioned \<lparr>ca_x = 7, ca_z = -3\<rparr> 2 = Inr (Some v) \<and> begin_update player_view_new (Some v) = Inr pv \<and>
     deliver_events n (pv, client_new) = Inr (pv', cl') \<and> (\<exists>pv''. finish_update pv' = Inr pv'' \<and> pv_current pv'' = Some v) \<and>
     \<lparr>ca_x = 8, ca_z = -3\<rparr> \<in> cl_tracked cl' \<and> \<lparr>ca_x = 70, ca_z = -3\<rparr> \<notin> cl_tracked cl' \<and>
     cl_center cl' = Some \<lparr>ca_x = 7, ca_z = -3\<rparr>"
proof -
  let ?v = "\<lparr>v_center = \<lparr>ca_x = 7, ca_z = -3\<rparr>, v_distance = 2,
    v_bounds = \<lparr>b_min = \<lparr>ca_x = 4, ca_z = -6\<rparr>, b_max = \<lparr>ca_x = 10, ca_z = 0\<rparr>\<rparr>\<rparr>"
  have v: "positioned \<lparr>ca_x = 7, ca_z = -3\<rparr> 2 = Inr (Some ?v)" by code_simp
  let ?t = "\<lparr>t_next = Some ?v, t_changes = difference_new None (Some ?v), t_event = Some (SetCenter \<lparr>ca_x = 7, ca_z = -3\<rparr>)\<rparr>"
  let ?pv = "\<lparr>pv_current = None, pv_transition = Some ?t\<rparr>"
  have pv: "begin_update player_view_new (Some ?v) = Inr ?pv" by (simp add: begin_update_def player_view_new_def)
  have wf: "view_wf (Some ?v)"
    using v unfolding view_wf_def distance_wf_def MIN_VIEW_DISTANCE_def MAX_VIEW_DISTANCE_def is_i32_def I32_MIN_def I32_MAX_def
    by simp
  have reach: "view_reachable (?pv, client_new)"
    by (rule view_reachable.step [OF view_reachable.start view_step.begin_step [OF wf pv]])
  have "view_contains (Some ?v) \<lparr>ca_x = 8, ca_z = -3\<rparr>" "\<not> view_contains (Some ?v) \<lparr>ca_x = 70, ca_z = -3\<rparr>"
    "is_i32 8" "is_i32 (-3)" by code_simp+
  then show ?thesis using player_view_client_in_step [OF reach] v pv by fastforce
qed

text \<open>
  C33: an update always completes. Once an update is active, acknowledging its events one by one
  succeeds, after as many acknowledgements as events were left no event is pending, and finishing
  then makes the requested view current; another update, an acknowledgement without an event and
  an early finish are refused with their own errors.
\<close>

theorem player_view_update_completes:
  assumes "pv_transition pv = Some t"
  shows "(\<exists>pv'. acknowledge_times (length (events_left t)) pv = Inr pv' \<and>
      finish_update pv' = Inr (pv\<lparr>pv_current := t_next t, pv_transition := None\<rparr>)) \<and>
    begin_update pv n = Inl UpdateActive \<and>
    (t_event t = None \<longrightarrow> acknowledge_event pv = Inl NoEvent) \<and>
    (t_event t \<noteq> None \<longrightarrow> finish_update pv = Inl UnconsumedEvents)"
  using acknowledge_all [OF assms] assms by (simp add: begin_update_def acknowledge_event_def finish_update_def)

theorem player_view_update_completes_witness:
  "\<exists>pv pv' t. begin_update player_view_new None = Inr pv \<and> pv_transition pv = Some t \<and>
     acknowledge_times (length (events_left t)) pv = Inr pv' \<and> begin_update pv None = Inl UpdateActive"
proof -
  obtain pv where pv: "begin_update player_view_new None = Inr pv" "pv_transition pv \<noteq> None"
    by (cases "difference_next (difference_new None None)") (simp add: begin_update_def player_view_new_def)
  then obtain t where t: "pv_transition pv = Some t" by blast
  show ?thesis using pv(1) t player_view_update_completes [OF t, of None] by blast
qed

end
