(* ===== verification/TickData.thy ===== *)
theory TickData
  imports View "HOL-Library.Product_Lexorder"
begin

text \<open>
  The data of the scheduled-tick owner, \<^verbatim>\<open>src/world/ticks.rs\<close>: positions, priorities, ticks and
  their order, areas, the packing of a chunk address into one key, and the budgeted reservation
  every table of the owner is built with. Signed 64-bit values are integers here; the order and
  the bit operations are those of the source.
\<close>

section \<open>Positions and areas\<close>

record TickPosition =
  tp_x :: int
  tp_y :: int
  tp_z :: int

definition tick_chunk :: "TickPosition \<Rightarrow> ChunkAddress" where
  "tick_chunk p = \<lparr>ca_x = tp_x p div 16, ca_z = tp_z p div 16\<rparr>"

record TickBounds =
  tb_min :: TickPosition
  tb_max :: TickPosition

datatype TickError =
  InvalidLimits | AllocationFailed | AllocationBudget | ChunkLimit | QueueFull | AlreadyRegistered
  | MissingChunk | PhaseActive | NoActivePhase | UnconsumedTicks | PhaseLimit | InvalidType
  | InvalidBounds | ChunkAlreadyPresent | OutputCapacity

definition bounds_validate :: "TickBounds \<Rightarrow> TickError + unit" where
  "bounds_validate b =
    (if tp_x (tb_min b) > tp_x (tb_max b) \<or> tp_y (tb_min b) > tp_y (tb_max b) \<or> tp_z (tb_min b) > tp_z (tb_max b)
     then Inl InvalidBounds else Inr ())"

definition bounds_contains :: "TickBounds \<Rightarrow> TickPosition \<Rightarrow> bool" where
  "bounds_contains b p \<longleftrightarrow>
    tp_x p \<ge> tp_x (tb_min b) \<and> tp_x p \<le> tp_x (tb_max b) \<and> tp_y p \<ge> tp_y (tb_min b) \<and>
    tp_y p \<le> tp_y (tb_max b) \<and> tp_z p \<ge> tp_z (tb_min b) \<and> tp_z p \<le> tp_z (tb_max b)"

definition contains_chunk :: "TickBounds \<Rightarrow> ChunkAddress \<Rightarrow> bool" where
  "contains_chunk b c \<longleftrightarrow>
    (let low = tick_chunk (tb_min b); high = tick_chunk (tb_max b) in
     ca_x c \<ge> ca_x low \<and> ca_x c \<le> ca_x high \<and> ca_z c \<ge> ca_z low \<and> ca_z c \<le> ca_z high)"

section \<open>Priorities and ticks\<close>

datatype TickPriority =
  ExtremelyHigh | VeryHigh | High | Normal | Low | VeryLow | ExtremelyLow

primrec priority_value :: "TickPriority \<Rightarrow> int" where
  "priority_value ExtremelyHigh = -3"
| "priority_value VeryHigh = -2"
| "priority_value High = -1"
| "priority_value Normal = 0"
| "priority_value Low = 1"
| "priority_value VeryLow = 2"
| "priority_value ExtremelyLow = 3"

definition priority_from_value :: "int \<Rightarrow> TickPriority" where
  "priority_from_value k =
    (if k \<le> -3 then ExtremelyHigh else if k = -2 then VeryHigh else if k = -1 then High
     else if k = 0 then Normal else if k = 1 then Low else if k = 2 then VeryLow else ExtremelyLow)"

lemma priority_value_inject [simp]: "priority_value p = priority_value q \<longleftrightarrow> p = q"
  by (cases p; cases q) simp_all

text \<open>The derived \<open>Ord\<close> compares the discriminants.\<close>

instantiation TickPriority :: linorder
begin

definition less_eq_TickPriority :: "TickPriority \<Rightarrow> TickPriority \<Rightarrow> bool" where
  "less_eq_TickPriority p q \<longleftrightarrow> priority_value p \<le> priority_value q"

definition less_TickPriority :: "TickPriority \<Rightarrow> TickPriority \<Rightarrow> bool" where
  "less_TickPriority p q \<longleftrightarrow> priority_value p < priority_value q"

instance
  by standard (auto simp: less_eq_TickPriority_def less_TickPriority_def)

end

record ScheduledTick =
  st_position :: TickPosition
  st_type_id :: nat
  st_trigger_tick :: int
  st_priority :: TickPriority
  st_sub_tick_order :: int

record SavedTick =
  sv_position :: TickPosition
  sv_type_id :: nat
  sv_delay :: int
  sv_priority :: TickPriority

record Identity =
  id_position :: TickPosition
  id_type_id :: nat

definition identity :: "ScheduledTick \<Rightarrow> Identity" where
  "identity t = \<lparr>id_position = st_position t, id_type_id = st_type_id t\<rparr>"

definition within_tick :: "ScheduledTick \<Rightarrow> TickPriority \<times> int" where
  "within_tick t = (st_priority t, st_sub_tick_order t)"

record ReadyChunk =
  rc_index :: nat
  rc_priority :: TickPriority
  rc_sub_order :: int

text \<open>The two implementations of \<open>HeapEntry::precedes\<close>.\<close>

definition tick_precedes :: "ScheduledTick \<Rightarrow> ScheduledTick \<Rightarrow> bool" where
  "tick_precedes a b \<longleftrightarrow>
    (st_trigger_tick a, st_priority a, st_sub_tick_order a) < (st_trigger_tick b, st_priority b, st_sub_tick_order b)"

definition ready_precedes :: "ReadyChunk \<Rightarrow> ReadyChunk \<Rightarrow> bool" where
  "ready_precedes a b \<longleftrightarrow> (rc_priority a, rc_sub_order a) < (rc_priority b, rc_sub_order b)"

section \<open>Chunk keys\<close>

definition packed_chunk :: "ChunkAddress \<Rightarrow> int" where
  "packed_chunk a =
    sint (push_bit 32 (ucast (word_of_int (ca_z a) :: u32) :: u64) OR (ucast (word_of_int (ca_x a) :: u32) :: u64))"

definition unpacked_chunk :: "int \<Rightarrow> ChunkAddress" where
  "unpacked_chunk key =
    \<lparr>ca_x = sint (ucast (word_of_int key :: u64) :: u32),
     ca_z = sint (ucast (drop_bit 32 (word_of_int key :: u64)) :: u32)\<rparr>"

lemma sint_word_of_i32: "is_i32 k \<Longrightarrow> sint (word_of_int k :: u32) = k"
  by (simp add: is_i32_def I32_MIN_def I32_MAX_def sint_sbintrunc' signed_take_bit_int_eq_self)

lemma unpacked_packed_chunk:
  assumes "chunk_i32 a"
  shows "unpacked_chunk (packed_chunk a) = a"
proof -
  let ?x = "word_of_int (ca_x a) :: u32" and ?z = "word_of_int (ca_z a) :: u32"
  let ?w = "push_bit 32 (ucast ?z :: u64) OR (ucast ?x :: u64)"
  have key: "(word_of_int (sint ?w) :: u64) = ?w" by simp
  have x: "(ucast ?w :: u32) = ?x"
    by (rule bit_word_eqI) (auto simp: bit_simps)
  have z: "(ucast (drop_bit 32 ?w) :: u32) = ?z"
    by (rule bit_word_eqI) (auto simp: bit_simps dest: bit_imp_le_length)
  show ?thesis
    using assms sint_word_of_i32 unfolding packed_chunk_def unpacked_chunk_def key x z by simp
qed

lemma inj_packed_chunk: "chunk_i32 a \<Longrightarrow> chunk_i32 b \<Longrightarrow> packed_chunk a = packed_chunk b \<Longrightarrow> a = b"
  by (metis unpacked_packed_chunk)

section \<open>Budgeted reservations\<close>

text \<open>
  The allocator is outside the source. \<open>te_reserve width n\<close> is the capacity a fresh \<open>Vec\<close> of
  elements of \<open>width\<close> bytes has after \<open>try_reserve_exact(n)\<close>, or \<open>None\<close> when that fails; the
  other fields are the sizes the compiler gives the element types.
\<close>

record tick_env =
  te_reserve :: "nat \<Rightarrow> nat \<Rightarrow> nat option"
  te_tick_size :: nat
  te_ready_size :: nat
  te_slot_size :: nat

definition te_grants :: "tick_env \<Rightarrow> bool" where
  "te_grants env \<longleftrightarrow> (\<forall>width n c. te_reserve env width n = Some c \<longrightarrow> n \<le> c)"

text \<open>The size of a \<open>usize\<close> on the 64-bit targets.\<close>

definition USIZE_BYTES :: nat where "USIZE_BYTES = 8"

definition reserved_vec :: "tick_env \<Rightarrow> nat \<Rightarrow> nat \<Rightarrow> nat \<Rightarrow> (TickError + nat) \<times> nat" where
  "reserved_vec env width n budget =
    (case checked_mul n width of
       None \<Rightarrow> (Inl InvalidLimits, budget)
     | Some requested \<Rightarrow>
         if requested > budget then (Inl AllocationBudget, budget)
         else (case te_reserve env width n of
             None \<Rightarrow> (Inl AllocationFailed, budget)
           | Some c \<Rightarrow>
               (case checked_mul c width of
                  None \<Rightarrow> (Inl AllocationBudget, budget)
                | Some actual \<Rightarrow>
                    if actual > budget then (Inl AllocationBudget, budget)
                    else (Inr c, budget - actual))))"

lemma reserved_vec_Inr:
  assumes "te_grants env" "reserved_vec env width n budget = (Inr c, left)"
  shows "n \<le> c \<and> left + c * width = budget"
  using assms
  by (auto simp: reserved_vec_def te_grants_def usize_simps split: option.splits if_splits)

lemma reserved_vec_Inl: "reserved_vec env width n budget = (Inl e, left) \<Longrightarrow> left = budget"
  by (auto simp: reserved_vec_def split: option.splits if_splits)

end
