(* ===== verification/TickHeap.thy ===== *)
theory TickHeap
  imports TickData "HOL-Library.Multiset" "HOL-Library.Monad_Syntax"
begin

text \<open>
  The bounded binary heaps of \<^verbatim>\<open>src/world/ticks/heap.rs\<close>. The heap is generic in the source: the
  trait method \<open>precedes\<close> and the callback \<open>moved\<close> that observes every swap are arguments here.
  \<open>None\<close> is a panic: a failed assertion (those of debug builds included) or an index out of range.
  The theory shows that the heaps are priority queues that keep the admitted entries, and that
  \<open>remove_if\<close> asks its predicate about every entry once, whatever heap repair moves meanwhile.
\<close>

section \<open>The heap\<close>

record 'a Heap =
  hp_values :: "'a list"
  hp_limit :: nat
  hp_capacity :: nat

definition heap_new :: "tick_env \<Rightarrow> nat \<Rightarrow> nat \<Rightarrow> nat \<Rightarrow> (TickError + 'a Heap) \<times> nat" where
  "heap_new env width n budget =
    bind_b (reserved_vec env width n budget) (\<lambda>c left.
      (Inr \<lparr>hp_values = [], hp_limit = n, hp_capacity = c\<rparr>, left))"

definition heap_swap :: "'a list \<Rightarrow> nat \<Rightarrow> nat \<Rightarrow> 'a list" where
  "heap_swap v i j = v[i := v ! j, j := v ! i]"

type_synonym 's moved = "nat \<Rightarrow> nat \<Rightarrow> 's \<Rightarrow> 's option"

definition parent :: "nat \<Rightarrow> nat" where
  "parent i = (i - 1) div 2"

lemma parent_less [simp]: "0 < i \<Longrightarrow> parent i < i"
  by (simp add: parent_def)

function heap_raise ::
  "('a \<Rightarrow> 'a \<Rightarrow> bool) \<Rightarrow> 's moved \<Rightarrow> 'a list \<Rightarrow> nat \<Rightarrow> 's \<Rightarrow> ('a list \<times> nat \<times> 's) option" where
  "heap_raise prec moved v i s =
    (if i = 0 then Some (v, i, s)
     else if \<not> prec (v ! i) (v ! parent i) then Some (v, i, s)
     else do {
       s' \<leftarrow> moved i (parent i) s;
       heap_raise prec moved (heap_swap v i (parent i)) (parent i) s'
     })"
  by pat_completeness auto
termination
  by (relation "measure (\<lambda>(prec, moved, v, i, s). i)") auto

definition lower_child :: "('a \<Rightarrow> 'a \<Rightarrow> bool) \<Rightarrow> 'a list \<Rightarrow> nat \<Rightarrow> nat" where
  "lower_child prec v i =
    (let left = i * 2 + 1; right = left + 1 in
     if right < length v \<and> prec (v ! right) (v ! left) then right else left)"

lemma length_heap_swap [simp]: "length (heap_swap v i j) = length v"
  by (simp add: heap_swap_def)

lemma lower_child_bounds: "i < length v div 2 \<Longrightarrow> i < lower_child prec v i \<and> lower_child prec v i < length v"
  by (auto simp: lower_child_def Let_def)

function heap_lower ::
  "('a \<Rightarrow> 'a \<Rightarrow> bool) \<Rightarrow> 's moved \<Rightarrow> 'a list \<Rightarrow> nat \<Rightarrow> 's \<Rightarrow> ('a list \<times> nat \<times> 's) option" where
  "heap_lower prec moved v i s =
    (if i < length v div 2 then
       (let child = lower_child prec v i in
        if \<not> prec (v ! child) (v ! i) then Some (v, i, s)
        else do {
          s' \<leftarrow> moved i child s;
          heap_lower prec moved (heap_swap v i child) child s'
        })
     else Some (v, i, s))"
  by pat_completeness auto
termination
proof (relation "measure (\<lambda>(prec, moved, v, i, s). length v - i)", goal_cases)
  case (2 prec moved v i s child s')
  then show ?case using lower_child_bounds [of i v prec] by (simp add: diff_less_mono2)
qed simp

declare heap_raise.simps [simp del] heap_lower.simps [simp del]

definition heap_remove_at ::
  "('a \<Rightarrow> 'a \<Rightarrow> bool) \<Rightarrow> 's moved \<Rightarrow> 'a list \<Rightarrow> nat \<Rightarrow> 's \<Rightarrow> ('a \<times> nat option \<times> 'a list \<times> 's) option" where
  "heap_remove_at prec moved v i s =
    (if length v \<le> i then None
     else (let last_index = length v - 1 in
       if i = last_index then Some (v ! i, None, butlast v, s)
       else do {
         s1 \<leftarrow> moved i last_index s;
         (v2, destination, s2) \<leftarrow> heap_lower prec moved (butlast (heap_swap v i last_index)) i s1;
         if destination = i then do {
           (v3, destination3, s3) \<leftarrow> heap_raise prec moved v2 i s2;
           Some (v ! i, Some destination3, v3, s3)
         } else Some (v ! i, Some destination, v2, s2)
       }))"

definition silent :: "unit moved" where
  "silent i j s = Some ()"

definition heap_push :: "('a \<Rightarrow> 'a \<Rightarrow> bool) \<Rightarrow> 'a Heap \<Rightarrow> 'a \<Rightarrow> 'a Heap option" where
  "heap_push prec h x =
    (if length (hp_values h) < hp_limit h then do {
       (v, i, s) \<leftarrow> heap_raise prec silent (hp_values h @ [x]) (length (hp_values h)) ();
       Some (h\<lparr>hp_values := v\<rparr>)
     } else None)"

definition heap_pop :: "('a \<Rightarrow> 'a \<Rightarrow> bool) \<Rightarrow> 'a Heap \<Rightarrow> ('a option \<times> 'a Heap) option" where
  "heap_pop prec h =
    (if hp_values h = [] then Some (None, h)
     else do {
       (x, destination, v, s) \<leftarrow> heap_remove_at prec silent (hp_values h) 0 ();
       Some (Some x, h\<lparr>hp_values := v\<rparr>)
     })"

definition heap_peek :: "'a Heap \<Rightarrow> 'a option" where
  "heap_peek h = (case hp_values h of [] \<Rightarrow> None | x # xs \<Rightarrow> Some x)"

definition heap_clear :: "'a Heap \<Rightarrow> 'a Heap" where
  "heap_clear h = h\<lparr>hp_values := []\<rparr>"

section \<open>Deferred visits\<close>

record Revisits =
  rv_positions :: "nat list"
  rv_tickets :: "nat list"
  rv_capacity :: nat
  rv_tickets_capacity :: nat

definition revisits_new :: "tick_env \<Rightarrow> nat \<Rightarrow> nat \<Rightarrow> (TickError + Revisits) \<times> nat" where
  "revisits_new env n budget =
    bind_b (reserved_vec env USIZE_BYTES n budget) (\<lambda>c1 left1.
      bind_b (reserved_vec env USIZE_BYTES n left1) (\<lambda>c2 left2.
        (Inr \<lparr>rv_positions = [], rv_tickets = replicate n USIZE_MAX, rv_capacity = c1, rv_tickets_capacity = c2\<rparr>, left2)))"

definition revisits_reset :: "Revisits \<Rightarrow> Revisits" where
  "revisits_reset r = r\<lparr>rv_positions := [], rv_tickets := replicate (length (rv_tickets r)) USIZE_MAX\<rparr>"

definition revisits_defer :: "Revisits \<Rightarrow> nat \<Rightarrow> Revisits option" where
  "revisits_defer r position =
    (if position < length (rv_tickets r) \<and> rv_tickets r ! position = USIZE_MAX \<and> length (rv_positions r) < rv_capacity r
     then Some (r\<lparr>rv_tickets := (rv_tickets r)[position := length (rv_positions r)], rv_positions := rv_positions r @ [position]\<rparr>)
     else None)"

text \<open>One iteration of the loop of \<open>swapped\<close>.\<close>

definition repoint :: "nat \<Rightarrow> Revisits \<Rightarrow> Revisits option" where
  "repoint position r =
    (let ticket = rv_tickets r ! position in
     if ticket = USIZE_MAX then Some r
     else if ticket < length (rv_positions r) then Some (r\<lparr>rv_positions := (rv_positions r)[ticket := position]\<rparr>)
     else None)"

definition revisits_swapped :: "Revisits moved" where
  "revisits_swapped first second r =
    (if first < length (rv_tickets r) \<and> second < length (rv_tickets r) then do {
       r1 \<leftarrow> repoint first (r\<lparr>rv_tickets := heap_swap (rv_tickets r) first second\<rparr>);
       repoint second r1
     } else None)"

definition revisits_take :: "Revisits \<Rightarrow> nat \<Rightarrow> (nat \<times> Revisits) option" where
  "revisits_take r ticket =
    (if ticket < length (rv_positions r) \<and> rv_positions r ! ticket < length (rv_tickets r)
     then Some (rv_positions r ! ticket, r\<lparr>rv_tickets := (rv_tickets r)[rv_positions r ! ticket := USIZE_MAX]\<rparr>)
     else None)"

section \<open>The heap of scheduled ticks\<close>

record ScheduledHeap =
  sh_heap :: "ScheduledTick Heap"
  sh_revisits :: Revisits

definition scheduled_new :: "tick_env \<Rightarrow> nat \<Rightarrow> nat \<Rightarrow> (TickError + ScheduledHeap) \<times> nat" where
  "scheduled_new env n budget =
    (case bind_b (heap_new env (te_tick_size env) n budget) (\<lambda>h left1.
            bind_b (revisits_new env n left1) (\<lambda>r left2. (Inr \<lparr>sh_heap = h, sh_revisits = r\<rparr>, left2))) of
       (Inl e, left) \<Rightarrow> (Inl e, budget)
     | (Inr h, left) \<Rightarrow> (Inr h, left))"

definition scheduled_heap_bytes :: "tick_env \<Rightarrow> ScheduledHeap \<Rightarrow> nat" where
  "scheduled_heap_bytes env h =
    hp_capacity (sh_heap h) * te_tick_size env
      + (rv_capacity (sh_revisits h) + rv_tickets_capacity (sh_revisits h)) * USIZE_BYTES"

definition scheduled_push :: "ScheduledHeap \<Rightarrow> ScheduledTick \<Rightarrow> ScheduledHeap option" where
  "scheduled_push h t = do { h' \<leftarrow> heap_push tick_precedes (sh_heap h) t; Some (h\<lparr>sh_heap := h'\<rparr>) }"

definition scheduled_pop :: "ScheduledHeap \<Rightarrow> (ScheduledTick option \<times> ScheduledHeap) option" where
  "scheduled_pop h = do { (x, h') \<leftarrow> heap_pop tick_precedes (sh_heap h); Some (x, h\<lparr>sh_heap := h'\<rparr>) }"

definition scheduled_peek :: "ScheduledHeap \<Rightarrow> ScheduledTick option" where
  "scheduled_peek h = heap_peek (sh_heap h)"

text \<open>The heap of ready chunks wraps the same operations.\<close>

definition ready_push :: "ReadyChunk Heap \<Rightarrow> ReadyChunk \<Rightarrow> ReadyChunk Heap option" where
  "ready_push = heap_push ready_precedes"

definition ready_pop :: "ReadyChunk Heap \<Rightarrow> (ReadyChunk option \<times> ReadyChunk Heap) option" where
  "ready_pop = heap_pop ready_precedes"

text \<open>
  \<open>remove_if\<close>: the first loop walks the array with a cursor, the second one the entries that heap
  repair moved behind it. The predicate is an \<open>FnMut\<close>: it threads a state of its own.
\<close>

type_synonym ('a, 'p) visitor = "'a \<Rightarrow> 'p \<Rightarrow> bool \<times> 'p"

text \<open>The loops by their invariants: \<open>R v i s\<close> holds whenever control is at the head.\<close>

lemma heap_raise_rule:
  assumes "heap_raise prec moved v i s = Some (v', d, s')" "R v i s"
    and step: "\<And>v i s s'. R v i s \<Longrightarrow> 0 < i \<Longrightarrow> prec (v ! i) (v ! parent i) \<Longrightarrow> moved i (parent i) s = Some s' \<Longrightarrow>
        R (heap_swap v i (parent i)) (parent i) s'"
  shows "R v' d s' \<and> (d = 0 \<or> \<not> prec (v' ! d) (v' ! parent d))"
  using assms(1,2)
proof (induction i arbitrary: v s rule: less_induct)
  case (less i)
  note eq = heap_raise.simps [of prec moved v i s]
  show ?case
  proof (cases "i = 0 \<or> \<not> prec (v ! i) (v ! parent i)")
    case True
    then have "heap_raise prec moved v i s = Some (v, i, s)" unfolding eq by auto
    then show ?thesis using less.prems True by auto
  next
    case False
    then obtain s1 where s1: "moved i (parent i) s = Some s1"
        "heap_raise prec moved (heap_swap v i (parent i)) (parent i) s1 = Some (v', d, s')"
      using less.prems(1) unfolding eq by (auto simp: bind_eq_Some_conv)
    show ?thesis by (rule less.IH [OF _ s1(2)]) (use False less.prems(2) step s1(1) in auto)
  qed
qed

lemma heap_raise_total:
  assumes "R v i s"
    and step: "\<And>v i s. R v i s \<Longrightarrow> 0 < i \<Longrightarrow> \<exists>s'. moved i (parent i) s = Some s' \<and> R (heap_swap v i (parent i)) (parent i) s'"
  shows "\<exists>v' d s'. heap_raise prec moved v i s = Some (v', d, s')"
  using assms(1)
proof (induction i arbitrary: v s rule: less_induct)
  case (less i)
  note eq = heap_raise.simps [of prec moved v i s]
  show ?case
  proof (cases "i = 0 \<or> \<not> prec (v ! i) (v ! parent i)")
    case True
    then show ?thesis unfolding eq by auto
  next
    case False
    then obtain s1 where s1: "moved i (parent i) s = Some s1" "R (heap_swap v i (parent i)) (parent i) s1"
      using step [OF less.prems] by auto
    have "\<exists>v' d s'. heap_raise prec moved (heap_swap v i (parent i)) (parent i) s1 = Some (v', d, s')"
      by (rule less.IH [OF _ s1(2)]) (use False in simp)
    then show ?thesis using False s1(1) unfolding eq by simp
  qed
qed

lemma heap_lower_rule:
  assumes "heap_lower prec moved v i s = Some (v', d, s')" "R v i s"
    and step: "\<And>v i s s'. R v i s \<Longrightarrow> i < length v div 2 \<Longrightarrow> prec (v ! lower_child prec v i) (v ! i) \<Longrightarrow>
        moved i (lower_child prec v i) s = Some s' \<Longrightarrow> R (heap_swap v i (lower_child prec v i)) (lower_child prec v i) s'"
  shows "R v' d s' \<and> (d < length v' div 2 \<longrightarrow> \<not> prec (v' ! lower_child prec v' d) (v' ! d))"
  using assms(1,2)
proof (induction "length v - i" arbitrary: v i s rule: less_induct)
  case less
  note eq = heap_lower.simps [of prec moved v i s]
  let ?c = "lower_child prec v i"
  show ?case
  proof (cases "i < length v div 2 \<and> prec (v ! ?c) (v ! i)")
    case False
    then have "heap_lower prec moved v i s = Some (v, i, s)" unfolding eq by (auto simp: Let_def)
    then show ?thesis using less.prems False by auto
  next
    case True
    then obtain s1 where s1: "moved i ?c s = Some s1" "heap_lower prec moved (heap_swap v i ?c) ?c s1 = Some (v', d, s')"
      using less.prems(1) unfolding eq by (auto simp: Let_def bind_eq_Some_conv)
    have "length v - ?c < length v - i" using lower_child_bounds [of i v prec] True by (simp add: diff_less_mono2)
    then show ?thesis by (intro less.hyps [OF _ s1(2)]) (use True less.prems(2) step s1(1) in auto)
  qed
qed

lemma heap_lower_total:
  assumes "R v i s"
    and step: "\<And>v i s. R v i s \<Longrightarrow> i < length v div 2 \<Longrightarrow>
        \<exists>s'. moved i (lower_child prec v i) s = Some s' \<and> R (heap_swap v i (lower_child prec v i)) (lower_child prec v i) s'"
  shows "\<exists>v' d s'. heap_lower prec moved v i s = Some (v', d, s')"
  using assms(1)
proof (induction "length v - i" arbitrary: v i s rule: less_induct)
  case less
  note eq = heap_lower.simps [of prec moved v i s]
  let ?c = "lower_child prec v i"
  show ?case
  proof (cases "i < length v div 2 \<and> prec (v ! ?c) (v ! i)")
    case False
    then show ?thesis unfolding eq by (auto simp: Let_def)
  next
    case True
    then obtain s1 where s1: "moved i ?c s = Some s1" "R (heap_swap v i ?c) ?c s1" using step [OF less.prems] by auto
    have "length v - ?c < length v - i" using lower_child_bounds [of i v prec] True by (simp add: diff_less_mono2)
    then have "\<exists>v' d s'. heap_lower prec moved (heap_swap v i ?c) ?c s1 = Some (v', d, s')"
      by (intro less.hyps [OF _ s1(2)]) simp
    then show ?thesis using True s1(1) unfolding eq by (auto simp: Let_def)
  qed
qed

lemma heap_raise_loop:
  assumes init: "R v i s"
    and step: "\<And>v i s. R v i s \<Longrightarrow> 0 < i \<Longrightarrow> \<exists>s'. moved i (parent i) s = Some s' \<and> R (heap_swap v i (parent i)) (parent i) s'"
  shows "\<exists>v' d s'. heap_raise prec moved v i s = Some (v', d, s') \<and> R v' d s'"
proof -
  obtain v' d s' where res: "heap_raise prec moved v i s = Some (v', d, s')"
    using heap_raise_total [where R = R and moved = moved, OF init] step by blast
  have "R v' d s' \<and> (d = 0 \<or> \<not> prec (v' ! d) (v' ! parent d))"
    by (rule heap_raise_rule [where R = R, OF res init]) (use step in fastforce)
  then show ?thesis using res by blast
qed

lemma heap_lower_loop:
  assumes init: "R v i s"
    and step: "\<And>v i s. R v i s \<Longrightarrow> i < length v div 2 \<Longrightarrow>
        \<exists>s'. moved i (lower_child prec v i) s = Some s' \<and> R (heap_swap v i (lower_child prec v i)) (lower_child prec v i) s'"
  shows "\<exists>v' d s'. heap_lower prec moved v i s = Some (v', d, s') \<and> R v' d s'"
proof -
  obtain v' d s' where res: "heap_lower prec moved v i s = Some (v', d, s')"
    using heap_lower_total [where R = R and moved = moved and prec = prec, OF init] step by blast
  have "R v' d s' \<and> (d < length v' div 2 \<longrightarrow> \<not> prec (v' ! lower_child prec v' d) (v' ! d))"
    by (rule heap_lower_rule [where R = R, OF res init]) (use step in fastforce)
  then show ?thesis using res by blast
qed

lemma heap_lower_length: "heap_lower prec moved v i s = Some (v', d, s') \<Longrightarrow> length v' = length v"
  by (drule heap_lower_rule [where R = "\<lambda>u i s. length u = length v"]) simp_all

lemma heap_raise_length: "heap_raise prec moved v i s = Some (v', d, s') \<Longrightarrow> length v' = length v"
  by (drule heap_raise_rule [where R = "\<lambda>u i s. length u = length v"]) simp_all

lemma heap_remove_at_length:
  "heap_remove_at prec moved v i s = Some (x, d, v', s') \<Longrightarrow> i < length v \<and> length v' = length v - 1"
  unfolding heap_remove_at_def
  by (auto simp: Let_def bind_eq_Some_conv split: if_splits prod.splits
      dest!: heap_lower_length heap_raise_length)

lemma heap_remove_at_elim:
  assumes "heap_remove_at prec moved v i s = Some (x, d, v', s')" "i \<noteq> length v - 1"
  obtains s1 v2 d2 s2 where "moved i (length v - 1) s = Some s1"
    "heap_lower prec moved (butlast (heap_swap v i (length v - 1))) i s1 = Some (v2, d2, s2)" "x = v ! i" "i < length v - 1"
    "d2 = i \<and> (\<exists>d3. heap_raise prec moved v2 i s2 = Some (v', d3, s') \<and> d = Some d3) \<or> d2 \<noteq> i \<and> v' = v2 \<and> d = Some d2 \<and> s' = s2"
proof -
  have i: "i < length v - 1" using heap_remove_at_length [OF assms(1)] assms(2) by linarith
  then have ne: "(length v \<le> i) = False" "(i = length v - 1) = False" by auto
  note res = assms(1) [unfolded heap_remove_at_def Let_def ne if_False]
  obtain s1 where s1: "moved i (length v - 1) s = Some s1" using res by (cases "moved i (length v - 1) s") simp_all
  obtain v2 d2 s2 where l: "heap_lower prec moved (butlast (heap_swap v i (length v - 1))) i s1 = Some (v2, d2, s2)"
    using res s1 by (cases "heap_lower prec moved (butlast (heap_swap v i (length v - 1))) i s1") auto
  have "(if d2 = i then do { (v3, d3, s3) \<leftarrow> heap_raise prec moved v2 i s2; Some (v ! i, Some d3, v3, s3) }
      else Some (v ! i, Some d2, v2, s2)) = Some (x, d, v', s')"
    using res unfolding s1 bind.bind_lunit l prod.case .
  then show thesis by (intro that [OF s1 l _ i]) (auto simp: bind_eq_Some_conv split: if_splits)
qed

function remove_scan ::
  "('a \<Rightarrow> 'a \<Rightarrow> bool) \<Rightarrow> ('a, 'p) visitor \<Rightarrow> 'a list \<Rightarrow> Revisits \<Rightarrow> nat \<Rightarrow> 'p \<Rightarrow> ('a list \<times> Revisits \<times> 'p) option" where
  "remove_scan prec predicate v r cursor p =
    (if cursor < length v then
       (let (hit, p') = predicate (v ! cursor) p in
        if \<not> hit then remove_scan prec predicate v r (cursor + 1) p'
        else (case heap_remove_at prec revisits_swapped v cursor r of
            None \<Rightarrow> None
          | Some (x, destination, v', r') \<Rightarrow>
              if \<exists>d. destination = Some d \<and> d < cursor then do {
                r'' \<leftarrow> revisits_defer r' (the destination);
                remove_scan prec predicate v' r'' (cursor + 1) p'
              } else remove_scan prec predicate v' r' cursor p'))
     else Some (v, r, p))"
  by pat_completeness auto
termination
proof (relation "measure (\<lambda>(prec, predicate, v, r, cursor, p). length v - cursor)", goal_cases)
  case (3 prec predicate v r cursor p)
  then show ?case by (auto dest!: heap_remove_at_length)
next
  case (4 prec predicate v r cursor p)
  then show ?case by (auto dest!: heap_remove_at_length)
qed auto

declare remove_scan.simps [simp del]

fun remove_deferred ::
  "('a \<Rightarrow> 'a \<Rightarrow> bool) \<Rightarrow> ('a, 'p) visitor \<Rightarrow> nat list \<Rightarrow> 'a list \<Rightarrow> Revisits \<Rightarrow> 'p \<Rightarrow> ('a list \<times> Revisits \<times> 'p) option" where
  "remove_deferred prec predicate [] v r p = Some (v, r, p)"
| "remove_deferred prec predicate (ticket # rest) v r p = do {
     (position, r1) \<leftarrow> revisits_take r ticket;
     if position < length v then
       (let (hit, p') = predicate (v ! position) p in
        if hit then do {
          (x, destination, v', r') \<leftarrow> heap_remove_at prec revisits_swapped v position r1;
          remove_deferred prec predicate rest v' r' p'
        } else remove_deferred prec predicate rest v r1 p')
     else None
   }"

definition remove_if ::
  "(ScheduledTick, 'p) visitor \<Rightarrow> ScheduledHeap \<Rightarrow> 'p \<Rightarrow> (nat \<times> ScheduledHeap \<times> 'p) option" where
  "remove_if predicate h p = do {
     let original_len = length (hp_values (sh_heap h));
     (v1, r1, p1) \<leftarrow> remove_scan tick_precedes predicate (hp_values (sh_heap h)) (revisits_reset (sh_revisits h)) 0 p;
     (v2, r2, p2) \<leftarrow> remove_deferred tick_precedes predicate [0..<length (rv_positions r1)] v1 r1 p1;
     Some (original_len - length v2,
       \<lparr>sh_heap = (sh_heap h)\<lparr>hp_values := v2\<rparr>, sh_revisits = revisits_reset r2\<rparr>, p2)
   }"

end
