(* ===== verification/TickHeapLaws.thy ===== *)
theory TickHeapLaws
  imports TickHeap
begin

text \<open>
  Correctness of the heaps of \<^verbatim>\<open>src/world/ticks/heap.rs\<close>. The locale \<open>heap_entry\<close> states what the
  heap relies on in \<open>precedes\<close>, a strict weak order; both implementations of the trait are
  interpretations of it. On top of it: push and pop implement a priority queue on the multiset of
  admitted entries, and \<open>remove_if\<close> visits every entry exactly once.
\<close>

section \<open>Swaps and the heap order\<close>

lemma mset_heap_swap: "i < length v \<Longrightarrow> j < length v \<Longrightarrow> mset (heap_swap v i j) = mset v"
  unfolding heap_swap_def by (rule mset_swap)

lemma heap_swap_nth:
  "i < length v \<Longrightarrow> j < length v \<Longrightarrow> k < length v \<Longrightarrow>
    heap_swap v i j ! k = (if k = j then v ! i else if k = i then v ! j else v ! k)"
  by (simp add: heap_swap_def nth_list_update)

lemma parent_iff: "0 < j \<Longrightarrow> parent j = i \<longleftrightarrow> j = 2 * i + 1 \<or> j = 2 * i + 2"
  by (auto simp: parent_def)

lemma parent_in_range: "0 < j \<Longrightarrow> j < n \<Longrightarrow> parent j < n"
  using parent_less [of j] by linarith

lemma parent_lower_child: "parent (lower_child prec v i) = i"
  by (simp add: lower_child_def Let_def parent_def)

definition heap_ok :: "('a \<Rightarrow> 'a \<Rightarrow> bool) \<Rightarrow> 'a list \<Rightarrow> bool" where
  "heap_ok prec v \<longleftrightarrow> (\<forall>j. 0 < j \<and> j < length v \<longrightarrow> \<not> prec (v ! j) (v ! parent j))"

text \<open>The order holds but between \<open>i\<close> and its parent; the children of \<open>i\<close> respect that parent.\<close>

definition up_broken :: "('a \<Rightarrow> 'a \<Rightarrow> bool) \<Rightarrow> 'a list \<Rightarrow> nat \<Rightarrow> bool" where
  "up_broken prec v i \<longleftrightarrow> i < length v \<and>
    (\<forall>j. 0 < j \<and> j < length v \<and> j \<noteq> i \<longrightarrow> \<not> prec (v ! j) (v ! parent j)) \<and>
    (\<forall>j. 0 < j \<and> j < length v \<and> parent j = i \<and> 0 < i \<longrightarrow> \<not> prec (v ! j) (v ! parent i))"

text \<open>The order holds but between \<open>i\<close> and its children, and perhaps between the start and its parent.\<close>

definition down_broken :: "('a \<Rightarrow> 'a \<Rightarrow> bool) \<Rightarrow> nat \<Rightarrow> 'a list \<Rightarrow> nat \<Rightarrow> bool" where
  "down_broken prec start v i \<longleftrightarrow> i < length v \<and> start \<le> i \<and>
    (\<forall>j. 0 < j \<and> j < length v \<and> parent j \<noteq> i \<and> j \<noteq> start \<longrightarrow> \<not> prec (v ! j) (v ! parent j)) \<and>
    (\<forall>j. 0 < j \<and> j < length v \<and> parent j = i \<and> 0 < i \<longrightarrow> \<not> prec (v ! j) (v ! parent i)) \<and>
    (i \<noteq> start \<and> 0 < start \<longrightarrow> \<not> prec (v ! start) (v ! parent start))"

locale heap_entry =
  fixes prec :: "'a \<Rightarrow> 'a \<Rightarrow> bool"
  assumes asym: "prec x y \<Longrightarrow> \<not> prec y x"
    and not_prec_trans: "\<not> prec y x \<Longrightarrow> \<not> prec z y \<Longrightarrow> \<not> prec z x"
begin

lemma up_step:
  assumes "up_broken prec v i" "0 < i" "prec (v ! i) (v ! parent i)"
  shows "up_broken prec (heap_swap v i (parent i)) (parent i)"
proof -
  let ?p = "parent i" and ?w = "heap_swap v i (parent i)"
  have i: "i < length v" "?p < i" "?p < length v" using assms(1,2) parent_less [of i] unfolding up_broken_def by (blast, blast, linarith)
  have ok: "\<not> prec (v ! j) (v ! parent j)" if "0 < j" "j < length v" "j \<noteq> i" for j
    using assms(1) that unfolding up_broken_def by blast
  have skip: "\<not> prec (v ! j) (v ! ?p)" if "0 < j" "j < length v" "parent j = i" for j
    using assms(1,2) that unfolding up_broken_def by blast
  have down: "\<not> prec (v ! ?p) (v ! i)" using asym assms(3) by blast
  note w = heap_swap_nth [OF i(1,3)]
  have 1: "\<not> prec (?w ! j) (?w ! parent j)" if j: "0 < j" "j < length v" "j \<noteq> ?p" for j
  proof -
    have pj: "parent j < length v" using parent_less [of j] j by linarith
    consider "j = i" | "j \<noteq> i" "parent j = i" | "j \<noteq> i" "parent j = ?p" | "j \<noteq> i" "parent j \<noteq> i" "parent j \<noteq> ?p" by blast
    then show ?thesis
    proof cases
      case 1
      then show ?thesis using down i by (simp add: w)
    next
      case 2
      then show ?thesis using skip j i pj by (simp add: w)
    next
      case 3
      then have "\<not> prec (v ! j) (v ! ?p)" using ok [of j] j by simp
      then show ?thesis using 3 not_prec_trans [OF down, of "v ! j"] j i by (simp add: w)
    next
      case 4
      then show ?thesis using ok [of j] j i pj by (simp add: w)
    qed
  qed
  have 2: "\<not> prec (?w ! j) (?w ! parent ?p)" if j: "0 < j" "j < length v" "parent j = ?p" "0 < ?p" for j
  proof -
    have pp: "parent ?p < ?p" "parent ?p < length v" using parent_less [OF j(4)] i by linarith+
    have top: "\<not> prec (v ! ?p) (v ! parent ?p)" using ok [of ?p] j(4) i by simp
    show ?thesis
    proof (cases "j = i")
      case True
      then show ?thesis using top i pp by (simp add: w)
    next
      case False
      then have "j \<noteq> ?p" "\<not> prec (v ! j) (v ! ?p)" using ok [of j] j parent_less [of j] by auto
      then show ?thesis using False not_prec_trans [OF top, of "v ! j"] i pp j(2) by (simp add: w)
    qed
  qed
  show ?thesis unfolding up_broken_def length_heap_swap using 1 2 i(3) by blast
qed

lemma raise_heap:
  assumes "heap_raise prec moved v i s = Some (v', d, s')" "up_broken prec v i"
  shows "heap_ok prec v'"
proof -
  have "up_broken prec v' d \<and> (d = 0 \<or> \<not> prec (v' ! d) (v' ! parent d))"
    by (rule heap_raise_rule [where R = "\<lambda>u i s. up_broken prec u i", OF assms]) (rule up_step)
  then show ?thesis unfolding up_broken_def heap_ok_def by (metis bot_nat_0.not_eq_extremum)
qed

lemma lower_child_least:
  assumes "parent j = i" "0 < j" "j < length v" "i < length v div 2"
  shows "\<not> prec (v ! j) (v ! lower_child prec v i)"
proof -
  have "j = 2 * i + 1 \<or> j = 2 * i + 2" using assms parent_iff by blast
  moreover have "\<not> prec x x" for x using asym by blast
  ultimately show ?thesis using asym assms(3) by (auto simp: lower_child_def Let_def mult.commute)
qed

lemma down_step:
  assumes broken: "down_broken prec start v i" and half: "i < length v div 2"
    and c: "prec (v ! lower_child prec v i) (v ! i)"
  shows "down_broken prec start (heap_swap v i (lower_child prec v i)) (lower_child prec v i)"
proof -
  let ?c = "lower_child prec v i" and ?w = "heap_swap v i (lower_child prec v i)"
  have i: "i < length v" "start \<le> i" using broken unfolding down_broken_def by blast+
  have cb: "i < ?c" "?c < length v" "0 < ?c" using lower_child_bounds [OF half, of prec] by auto
  have ok: "\<not> prec (v ! j) (v ! parent j)" if "0 < j" "j < length v" "parent j \<noteq> i" "j \<noteq> start" for j
    using broken that unfolding down_broken_def by blast
  have skip: "\<not> prec (v ! j) (v ! parent i)" if "0 < j" "j < length v" "parent j = i" "0 < i" for j
    using broken that unfolding down_broken_def by blast
  note w = heap_swap_nth [OF i(1) cb(2)]
  note pc = parent_lower_child [of prec v i]
  have 1: "\<not> prec (?w ! j) (?w ! parent j)" if j: "0 < j" "j < length v" "parent j \<noteq> ?c" "j \<noteq> start" for j
  proof -
    have pj: "parent j < length v" "parent j < j" using parent_less [of j] j by linarith+
    consider "j = ?c" | "j \<noteq> ?c" "parent j = i" | "j = i" | "j \<noteq> ?c" "j \<noteq> i" "parent j \<noteq> i" by blast
    then show ?thesis
    proof cases
      case 1
      then show ?thesis using asym [OF c] pc i cb by (simp add: w)
    next
      case 2
      then show ?thesis using lower_child_least [OF _ _ _ half] j pj i cb by (auto simp: w)
    next
      case 3
      then have "\<not> prec (v ! ?c) (v ! parent i)" using skip [OF cb(3,2) pc] j by simp
      then show ?thesis using 3 pj i cb by (simp add: w)
    next
      case 4
      then show ?thesis using ok [of j] j pj i cb by (simp add: w)
    qed
  qed
  have 2: "\<not> prec (?w ! j) (?w ! parent ?c)" if j: "0 < j" "j < length v" "parent j = ?c" for j
  proof -
    have "?c < j" using j parent_less [of j] by simp
    then show ?thesis using ok [of j] j i cb pc by (simp add: w)
  qed
  have 3: "\<not> prec (?w ! start) (?w ! parent start)" if "0 < start"
  proof (cases "start = i")
    case True
    then have "parent i < i" using that by simp
    then have "parent i \<noteq> i" "parent i \<noteq> ?c" "parent i < length v" using cb i(1) by linarith+
    then show ?thesis using True skip [OF cb(3,2) pc] that i cb by (simp add: w)
  next
    case False
    then have "\<not> prec (v ! start) (v ! parent start)" using broken that unfolding down_broken_def by blast
    moreover have "start < i" "parent start < start" using False i(2) that by auto
    ultimately show ?thesis using i cb by (simp add: w)
  qed
  have "start \<le> ?c" using i cb by linarith
  then show ?thesis unfolding down_broken_def length_heap_swap using 1 2 3 cb(2) by blast
qed

lemma lower_heap:
  assumes "heap_lower prec moved v i s = Some (v', d, s')" "down_broken prec i v i"
  shows "up_broken prec v' i \<and> (d \<noteq> i \<longrightarrow> heap_ok prec v')"
proof -
  have r: "down_broken prec i v' d \<and> (d < length v' div 2 \<longrightarrow> \<not> prec (v' ! lower_child prec v' d) (v' ! d))"
    by (rule heap_lower_rule [where R = "\<lambda>u k s. down_broken prec i u k", OF assms]) (rule down_step)
  have below: "\<not> prec (v' ! j) (v' ! d)" if "0 < j" "j < length v'" "parent j = d" for j
  proof -
    have "d < length v' div 2" using that parent_iff [of j d] by auto
    then show ?thesis using r lower_child_least [OF that(3,1,2)] not_prec_trans by blast
  qed
  have rest: "\<not> prec (v' ! j) (v' ! parent j)" if "0 < j" "j < length v'" "j \<noteq> i" for j
    using r below that unfolding down_broken_def by (cases "parent j = d") blast+
  have "\<not> prec (v' ! j) (v' ! parent i)" if j: "0 < j" "j < length v'" "parent j = i" "0 < i" for j
  proof (cases "d = i")
    case True
    then show ?thesis using r j unfolding down_broken_def by blast
  next
    case False
    then have "\<not> prec (v' ! i) (v' ! parent i)" using r j(4) unfolding down_broken_def by blast
    moreover have "\<not> prec (v' ! j) (v' ! i)" using rest [OF j(1,2)] j parent_less [of j] by auto
    ultimately show ?thesis using not_prec_trans by blast
  qed
  moreover have "i < length v'" using r unfolding down_broken_def by linarith
  ultimately have "up_broken prec v' i" using rest unfolding up_broken_def by blast
  moreover have "heap_ok prec v'" if "d \<noteq> i"
    using rest r that unfolding heap_ok_def down_broken_def by blast
  ultimately show ?thesis by blast
qed

lemma remove_at_heap:
  assumes "heap_remove_at prec moved v i s = Some (x, d, v', s')" "heap_ok prec v"
  shows "heap_ok prec v'"
proof (cases "i = length v - 1")
  case True
  then have "v' = butlast v" using assms(1) by (auto simp: heap_remove_at_def split: if_splits)
  then show ?thesis using assms(2) parent_in_range [of _ "length v - 1"] by (auto simp: heap_ok_def nth_butlast)
next
  case False
  let ?v1 = "butlast (heap_swap v i (length v - 1))"
  have i: "i < length v - 1" using assms(1) False by (auto simp: heap_remove_at_def split: if_splits)
  have nth: "?v1 ! j = (if j = i then v ! (length v - 1) else v ! j)" if "j < length v - 1" for j
    using that i by (simp add: nth_butlast heap_swap_nth)
  have ok: "\<not> prec (v ! j) (v ! parent j)" if "0 < j" "j < length v" for j
    using assms(2) that unfolding heap_ok_def by blast
  have pl: "parent j < length v - 1" if "0 < j" "j < length v - 1" for j
    using parent_less [OF that(1)] that(2) by linarith
  have "down_broken prec i ?v1 i" unfolding down_broken_def length_butlast length_heap_swap
  proof (intro conjI allI impI)
    fix j assume j: "0 < j \<and> j < length v - 1 \<and> parent j = i \<and> 0 < i"
    then have "j < length v" "i < length v" using i by linarith+
    then have "\<not> prec (v ! i) (v ! parent i)" "\<not> prec (v ! j) (v ! i)" using ok [of i] ok [of j] j by auto
    moreover have "?v1 ! j = v ! j" using j nth [of j] parent_less [of j] by auto
    moreover have "parent i \<noteq> i" "parent i < length v - 1" using j i pl parent_less [of i] by (metis less_irrefl, blast)
    then have "?v1 ! parent i = v ! parent i" using nth [of "parent i"] by simp
    ultimately show "\<not> prec (?v1 ! j) (?v1 ! parent i)" using not_prec_trans by metis
  qed (use i nth pl ok in auto)
  moreover obtain s1 v2 d2 s2 where l: "heap_lower prec moved ?v1 i s1 = Some (v2, d2, s2)"
      "d2 = i \<and> (\<exists>d3. heap_raise prec moved v2 i s2 = Some (v', d3, s') \<and> d = Some d3) \<or> d2 \<noteq> i \<and> v' = v2 \<and> d = Some d2 \<and> s' = s2"
    by (rule heap_remove_at_elim [OF assms(1) False])
  ultimately show ?thesis using lower_heap [OF l(1)] raise_heap [of moved v2 i s2 v' _ s'] by blast
qed

lemma push_broken: "heap_ok prec v \<Longrightarrow> up_broken prec (v @ [x]) (length v)"
proof -
  assume ok: "heap_ok prec v"
  have "parent j < length v" "parent j \<noteq> length v" if "0 < j" "j \<le> length v" for j
    using parent_less [OF that(1)] that(2) by linarith+
  then show ?thesis using ok by (auto simp: up_broken_def heap_ok_def nth_append less_Suc_eq)
qed

lemma root_least:
  assumes "heap_ok prec v" "j < length v"
  shows "\<not> prec (v ! j) (v ! 0)"
  using assms(2)
proof (induction j rule: less_induct)
  case (less j)
  show ?case
  proof (cases "j = 0")
    case True
    then show ?thesis using asym by blast
  next
    case False
    then have "\<not> prec (v ! parent j) (v ! 0)" "\<not> prec (v ! j) (v ! parent j)"
      using less.IH [of "parent j"] less.prems assms(1) parent_in_range [of j "length v"] unfolding heap_ok_def by auto
    then show ?thesis using not_prec_trans by blast
  qed
qed

end


section \<open>The two entry types\<close>

interpretation tick_entry: heap_entry tick_precedes
  by unfold_locales (auto simp: tick_precedes_def)

interpretation ready_entry: heap_entry ready_precedes
  by unfold_locales (auto simp: ready_precedes_def)

section \<open>Priority queue operations\<close>

lemma silent_total [simp]: "silent i j s = Some ()"
  by (simp add: silent_def)

lemma raise_silent_total: "\<exists>v' d. heap_raise prec silent v i () = Some (v', d, ())"
  using heap_raise_total [where R = "\<lambda>v i s. True" and moved = silent and v = v and i = i and s = "()" and prec = prec] by simp

lemma lower_silent_total: "\<exists>v' d. heap_lower prec silent v i () = Some (v', d, ())"
  using heap_lower_total [where R = "\<lambda>v i s. True" and moved = silent and v = v and i = i and s = "()" and prec = prec] by simp

lemma raise_mset:
  assumes "heap_raise prec moved v i s = Some (v', d, s')" "i < length v"
  shows "mset v' = mset v"
proof -
  have "(mset v' = mset v \<and> length v' = length v \<and> d < length v) \<and> (d = 0 \<or> \<not> prec (v' ! d) (v' ! parent d))"
    by (rule heap_raise_rule [where R = "\<lambda>u k s. mset u = mset v \<and> length u = length v \<and> k < length v", OF assms(1)])
      (use assms(2) in \<open>auto simp: mset_heap_swap parent_in_range\<close>)
  then show ?thesis by simp
qed

lemma lower_mset:
  assumes "heap_lower prec moved v i s = Some (v', d, s')" "i < length v"
  shows "mset v' = mset v"
proof -
  have "(mset v' = mset v \<and> length v' = length v \<and> d < length v) \<and> (d < length v' div 2 \<longrightarrow> \<not> prec (v' ! lower_child prec v' d) (v' ! d))"
  proof (rule heap_lower_rule [where R = "\<lambda>u k s. mset u = mset v \<and> length u = length v \<and> k < length v", OF assms(1)])
    fix u i and s s' :: 'b
    assume "mset u = mset v \<and> length u = length v \<and> i < length v" "i < length u div 2"
    then show "mset (heap_swap u i (lower_child prec u i)) = mset v \<and>
        length (heap_swap u i (lower_child prec u i)) = length v \<and> lower_child prec u i < length v"
      using lower_child_bounds [of i u prec] by (simp add: mset_heap_swap)
  qed (use assms(2) in simp)
  then show ?thesis by simp
qed

lemma mset_swap_last:
  assumes "i < length v"
  shows "add_mset (v ! i) (mset (butlast (heap_swap v i (length v - 1)))) = mset v"
proof -
  let ?w = "heap_swap v i (length v - 1)"
  have ne: "?w \<noteq> []" using assms by (metis length_heap_swap list.size(3) not_less_zero)
  have "last ?w = v ! i" using assms ne by (simp add: last_conv_nth heap_swap_nth)
  then have "add_mset (v ! i) (mset (butlast ?w)) = mset (butlast ?w @ [last ?w])" by simp
  also have "\<dots> = mset ?w" using ne by simp
  finally show ?thesis using assms by (simp add: mset_heap_swap)
qed

lemma remove_at_mset:
  assumes "heap_remove_at prec moved v i s = Some (x, d, v', s')"
  shows "x = v ! i \<and> i < length v \<and> mset v = add_mset x (mset v')"
proof -
  have i: "i < length v" using heap_remove_at_length [OF assms] by simp
  show ?thesis
  proof (cases "i = length v - 1")
    case True
    then have v': "v' = butlast v" "x = v ! i" using assms i by (auto simp: heap_remove_at_def)
    have "v \<noteq> []" using i by auto
    then have "v = butlast v @ [v ! i]" using True by (metis append_butlast_last_id last_conv_nth)
    then have "mset v = add_mset (v ! i) (mset (butlast v))" by (metis mset_append mset.simps union_mset_add_mset_right add.right_neutral)
    then show ?thesis using v' i by simp
  next
    case False
    let ?v1 = "butlast (heap_swap v i (length v - 1))"
    have "i < length ?v1" using i False by simp
    moreover obtain s1 v2 d2 s2 where l: "heap_lower prec moved ?v1 i s1 = Some (v2, d2, s2)" "x = v ! i"
        "d2 = i \<and> (\<exists>d3. heap_raise prec moved v2 i s2 = Some (v', d3, s') \<and> d = Some d3) \<or> d2 \<noteq> i \<and> v' = v2 \<and> d = Some d2 \<and> s' = s2"
      by (rule heap_remove_at_elim [OF assms False])
    ultimately have "x = v ! i \<and> mset v' = mset ?v1"
      using lower_mset [OF l(1)] heap_lower_length [OF l(1)] raise_mset [of prec moved v2 i s2 v'] by auto
    then show ?thesis using mset_swap_last [OF i] i by simp
  qed
qed

end
