(* ===== verification/TickRevisits.thy ===== *)
theory TickRevisits
  imports TickHeapLaws
begin

text \<open>
  \<open>remove_if\<close> of \<^verbatim>\<open>src/world/ticks/heap.rs\<close>. The invariant links the two arrays of \<open>Revisits\<close>: a
  pending ticket points at a position whose ticket points back, and every swap of the heap keeps
  the link. With it the two loops ask the predicate about each entry exactly once.
\<close>

section \<open>The link between positions and tickets\<close>

definition linked :: "Revisits \<Rightarrow> nat set \<Rightarrow> bool" where
  "linked r A \<longleftrightarrow> A \<subseteq> {..<length (rv_positions r)} \<and> length (rv_positions r) \<le> USIZE_MAX \<and>
    (\<forall>t \<in> A. rv_positions r ! t < length (rv_tickets r) \<and> rv_tickets r ! (rv_positions r ! t) = t) \<and>
    (\<forall>i < length (rv_tickets r). rv_tickets r ! i \<noteq> USIZE_MAX \<longrightarrow>
       rv_tickets r ! i \<in> A \<and> rv_positions r ! (rv_tickets r ! i) = i)"

definition same_frame :: "Revisits \<Rightarrow> Revisits \<Rightarrow> bool" where
  "same_frame r r' \<longleftrightarrow> length (rv_positions r') = length (rv_positions r) \<and> length (rv_tickets r') = length (rv_tickets r) \<and>
    rv_capacity r' = rv_capacity r"

lemma same_frame_refl [simp]: "same_frame r r"
  by (simp add: same_frame_def)

lemma same_frame_trans: "same_frame r r' \<Longrightarrow> same_frame r' r'' \<Longrightarrow> same_frame r r''"
  by (simp add: same_frame_def)

lemma linked_ticket:
  "linked r A \<Longrightarrow> i < length (rv_tickets r) \<Longrightarrow> rv_tickets r ! i \<noteq> USIZE_MAX \<Longrightarrow>
    rv_tickets r ! i \<in> A \<and> rv_tickets r ! i < length (rv_positions r) \<and> rv_positions r ! (rv_tickets r ! i) = i"
  unfolding linked_def by blast

lemma swapped_linked:
  assumes l: "linked r A" and ab: "a < length (rv_tickets r)" "b < length (rv_tickets r)" "a \<noteq> b"
  shows "\<exists>r'. revisits_swapped a b r = Some r' \<and> linked r' A \<and> rv_tickets r' = heap_swap (rv_tickets r) a b \<and> same_frame r r'"
proof -
  let ?tk = "rv_tickets r" and ?ps = "rv_positions r"
  let ?tk' = "heap_swap ?tk a b"
  let ?p1 = "if ?tk ! b = USIZE_MAX then ?ps else ?ps[?tk ! b := a]"
  let ?p2 = "if ?tk ! a = USIZE_MAX then ?p1 else ?p1[?tk ! a := b]"
  let ?r' = "r\<lparr>rv_tickets := ?tk', rv_positions := ?p2\<rparr>"
  note nth = heap_swap_nth [OF ab(1,2)]
  have at: "?tk' ! a = ?tk ! b" "?tk' ! b = ?tk ! a" using ab by (simp_all add: nth)
  note la = linked_ticket [OF l ab(1)] and lb = linked_ticket [OF l ab(2)]
  have eq: "revisits_swapped a b r = Some ?r'"
    using la lb at ab unfolding revisits_swapped_def repoint_def by (auto simp: Let_def)
  have moved: "?p2 ! t = (if t = ?tk ! a then b else if t = ?tk ! b then a else ?ps ! t)" if "t \<in> A" for t
  proof -
    have "t < length ?ps" "t \<noteq> USIZE_MAX" using l that unfolding linked_def by auto
    then show ?thesis using la lb ab(3) by (auto simp: nth_list_update)
  qed
  have "linked ?r' A"
    unfolding linked_def
  proof (intro conjI ballI allI impI)
    fix t assume t: "t \<in> A"
    then have tp: "?ps ! t < length ?tk" "?tk ! (?ps ! t) = t" using l unfolding linked_def by blast+
    show "rv_positions ?r' ! t < length (rv_tickets ?r')" using moved [OF t] tp(1) ab by simp
    show "rv_tickets ?r' ! (rv_positions ?r' ! t) = t"
      using moved [OF t] tp at ab nth [of "?ps ! t"] by (auto simp del: One_nat_def)
  next
    fix i assume "i < length (rv_tickets ?r')" and n: "rv_tickets ?r' ! i \<noteq> USIZE_MAX"
    then have i: "i < length ?tk" by simp
    then have "?tk' ! i = (if i = b then ?tk ! a else if i = a then ?tk ! b else ?tk ! i)" by (rule nth)
    then show "rv_tickets ?r' ! i \<in> A" "rv_positions ?r' ! (rv_tickets ?r' ! i) = i"
      using n la lb linked_ticket [OF l i] moved ab(3) by (auto split: if_splits)
  qed (use l in \<open>auto simp: linked_def\<close>)
  then show ?thesis using eq by (simp add: same_frame_def)
qed

lemma swapped_idle:
  assumes "a < length (rv_tickets r)" "b < length (rv_tickets r)" "rv_tickets r ! a = USIZE_MAX" "rv_tickets r ! b = USIZE_MAX"
  shows "revisits_swapped a b r = Some r"
proof -
  have "heap_swap (rv_tickets r) a b = rv_tickets r" using assms by (metis heap_swap_def list_update_id)
  then show ?thesis using assms by (simp add: revisits_swapped_def repoint_def)
qed

section \<open>Entries with their tickets\<close>

definition pairs :: "'a list \<Rightarrow> Revisits \<Rightarrow> ('a \<times> nat) multiset" where
  "pairs v r = mset (zip v (rv_tickets r))"

definition settled :: "('a \<times> nat) multiset \<Rightarrow> 'a multiset" where
  "settled M = image_mset fst {# e \<in># M. snd e = USIZE_MAX #}"

definition deferred :: "('a \<times> nat) multiset \<Rightarrow> 'a multiset" where
  "deferred M = image_mset fst {# e \<in># M. snd e \<noteq> USIZE_MAX #}"

lemma settled_add [simp]: "settled (add_mset (x, USIZE_MAX) M) = add_mset x (settled M)"
  "t \<noteq> USIZE_MAX \<Longrightarrow> settled (add_mset (x, t) M) = settled M"
  by (simp_all add: settled_def)

lemma deferred_add [simp]: "deferred (add_mset (x, USIZE_MAX) M) = deferred M"
  "t \<noteq> USIZE_MAX \<Longrightarrow> deferred (add_mset (x, t) M) = add_mset x (deferred M)"
  by (simp_all add: deferred_def)

lemma settled_deferred: "image_mset fst M = settled M + deferred M"
  unfolding settled_def deferred_def by (metis image_mset_union multiset_partition)

lemma pairs_fst: "length v \<le> length (rv_tickets r) \<Longrightarrow> image_mset fst (pairs v r) = mset v"
  by (simp add: pairs_def map_fst_zip_take flip: mset_map)

lemma zip_heap_swap:
  assumes "a < length v" "b < length v" "length v \<le> length tk"
  shows "zip (heap_swap v a b) (heap_swap tk a b) = heap_swap (zip v tk) a b"
  using assms by (intro nth_equalityI) (auto simp: heap_swap_nth)

lemma pairs_swap:
  assumes "a < length v" "b < length v" "length v \<le> length (rv_tickets r)" "rv_tickets r' = heap_swap (rv_tickets r) a b"
  shows "pairs (heap_swap v a b) r' = pairs v r"
  using assms by (simp add: pairs_def zip_heap_swap mset_heap_swap)

lemma zip_take_length: "zip xs (take (length xs) ys) = zip xs ys"
  using take_zip [of "length xs" xs ys] by simp

lemma pairs_remove_last:
  assumes "v \<noteq> []" "length v \<le> length (rv_tickets r)"
  shows "pairs v r = add_mset (last v, rv_tickets r ! (length v - 1)) (pairs (butlast v) r)"
proof -
  have n: "length v - 1 < length (rv_tickets r)" using assms by (metis diff_less length_greater_0_conv less_le_trans zero_less_one)
  have "zip v (rv_tickets r) = zip (butlast v @ [last v]) (rv_tickets r)" using assms(1) by simp
  also have "\<dots> = zip (butlast v) (rv_tickets r) @ [(last v, rv_tickets r ! (length v - 1))]"
    unfolding zip_append1 using Cons_nth_drop_Suc [OF n, symmetric] zip_take_length [of "butlast v"] by simp
  finally show ?thesis by (simp add: pairs_def)
qed

lemma pairs_settle:
  assumes "i < length v" "length v \<le> length (rv_tickets r)" "rv_tickets r' = (rv_tickets r)[i := t]"
  shows "\<exists>M. pairs v r = add_mset (v ! i, rv_tickets r ! i) M \<and> pairs v r' = add_mset (v ! i, t) M"
proof -
  let ?z = "zip v (rv_tickets r)"
  have i: "i < length ?z" using assms by simp
  have "zip v (rv_tickets r') = ?z[i := (v ! i, t)]"
    by (simp add: assms(3) update_zip)
  then have "pairs v r' = add_mset (v ! i, t) (pairs v r - {#?z ! i#})"
    using mset_update [OF i] by (simp add: pairs_def)
  moreover have "pairs v r = add_mset (?z ! i) (pairs v r - {#?z ! i#})"
    using i by (simp add: pairs_def del: nth_zip)
  ultimately show ?thesis using assms by auto
qed

section \<open>Heap repair keeps entries and tickets together\<close>

text \<open>What every swap inside the first \<open>n\<close> entries keeps.\<close>

definition repairing :: "nat \<Rightarrow> 'a list \<Rightarrow> Revisits \<Rightarrow> nat set \<Rightarrow> 'a list \<Rightarrow> Revisits \<Rightarrow> bool" where
  "repairing n v r A u s \<longleftrightarrow> linked s A \<and> same_frame r s \<and> length u = length v \<and> n \<le> length v \<and> length v \<le> length (rv_tickets r) \<and>
    pairs (take n u) s = pairs (take n v) r \<and> drop n u = drop n v \<and> drop n (rv_tickets s) = drop n (rv_tickets r)"

lemma heap_swap_drop: "a < n \<Longrightarrow> b < n \<Longrightarrow> drop n (heap_swap v a b) = drop n v"
  by (simp add: heap_swap_def drop_update_cancel)

lemma heap_swap_take: "a < n \<Longrightarrow> b < n \<Longrightarrow> n \<le> length v \<Longrightarrow> take n (heap_swap v a b) = heap_swap (take n v) a b"
  by (simp add: heap_swap_def take_update_swap)

lemma repairing_refl: "linked r A \<Longrightarrow> n \<le> length v \<Longrightarrow> length v \<le> length (rv_tickets r) \<Longrightarrow> repairing n v r A v r"
  by (simp add: repairing_def)

lemma repairing_swap:
  assumes "repairing n v r A u s" "a < n" "b < n" "a \<noteq> b"
  shows "\<exists>s'. revisits_swapped a b s = Some s' \<and> repairing n v r A (heap_swap u a b) s' \<and> rv_tickets s' = heap_swap (rv_tickets s) a b"
proof -
  have l: "linked s A" "same_frame r s" "length u = length v" "n \<le> length v" "length v \<le> length (rv_tickets s)"
    using assms(1) by (auto simp: repairing_def same_frame_def)
  then obtain s' where s': "revisits_swapped a b s = Some s'" "linked s' A" "rv_tickets s' = heap_swap (rv_tickets s) a b" "same_frame s s'"
    using swapped_linked [OF l(1), of a b] assms(2-4) by auto
  have "pairs (take n (heap_swap u a b)) s' = pairs (take n u) s"
    using pairs_swap [of a "take n u" b s s'] s'(3) assms(2,3) l(3-5) by (simp add: heap_swap_take)
  then have "repairing n v r A (heap_swap u a b) s'"
    using assms(1-3) s' same_frame_trans [OF l(2) s'(4)] by (simp add: repairing_def heap_swap_drop)
  then show ?thesis using s' by blast
qed

lemma lower_repairs:
  assumes "repairing n v r A v r" "n = length v" "i < n"
  shows "\<exists>v' d r'. heap_lower prec revisits_swapped v i r = Some (v', d, r') \<and> repairing n v r A v' r' \<and> d < n"
proof -
  let ?R = "\<lambda>u k s. repairing n v r A u s \<and> k < n"
  have step: "\<exists>s'. revisits_swapped k (lower_child prec u k) s = Some s' \<and>
      ?R (heap_swap u k (lower_child prec u k)) (lower_child prec u k) s'" if "?R u k s" "k < length u div 2" for u k s
  proof -
    have "k < lower_child prec u k" "lower_child prec u k < n"
      using lower_child_bounds [OF that(2), of prec] that(1) assms(2) by (auto simp: repairing_def)
    then show ?thesis using repairing_swap [of n v r A u s k "lower_child prec u k"] that(1) by auto
  qed
  have init: "?R v i r" using assms by simp
  show ?thesis by (rule heap_lower_loop [where R = ?R]) (fact init, fact step)
qed

lemma raise_repairs:
  assumes "repairing n v r A v r" "i < n"
  shows "\<exists>v' d r'. heap_raise prec revisits_swapped v i r = Some (v', d, r') \<and> repairing n v r A v' r' \<and> d \<le> i \<and>
      (d = i \<longrightarrow> v' = v \<and> r' = r) \<and> v' ! d = v ! i \<and> rv_tickets r' ! d = rv_tickets r ! i"
proof -
  let ?R = "\<lambda>u k s. repairing n v r A u s \<and> k \<le> i \<and> (k = i \<longrightarrow> u = v \<and> s = r) \<and> u ! k = v ! i \<and> rv_tickets s ! k = rv_tickets r ! i"
  have step: "\<exists>s'. revisits_swapped k (parent k) s = Some s' \<and> ?R (heap_swap u k (parent k)) (parent k) s'"
    if R: "?R u k s" "0 < k" for u k s
  proof -
    have k: "k < n" "parent k < n" "parent k \<noteq> k" "parent k \<le> i" "parent k \<noteq> i" using parent_less [OF R(2)] R assms(2) by linarith+
    have len: "k < length u" "parent k < length u" "k < length (rv_tickets s)" "parent k < length (rv_tickets s)"
      using R(1) k by (auto simp: repairing_def same_frame_def)
    obtain s' where s': "revisits_swapped k (parent k) s = Some s'" "repairing n v r A (heap_swap u k (parent k)) s'"
        "rv_tickets s' = heap_swap (rv_tickets s) k (parent k)"
      using repairing_swap [of n v r A u s k "parent k"] R(1) k by auto
    then show ?thesis using R(1) k(4,5) len by (intro exI [of _ s']) (simp add: heap_swap_nth)
  qed
  have init: "?R v i r" using assms by simp
  show ?thesis by (rule heap_raise_loop [where R = ?R]) (fact init, fact step)
qed

text \<open>From the cursor on no entry has a ticket: the first repair loop moves no ticket.\<close>

lemma lower_idle:
  assumes "\<forall>j. i \<le> j \<and> j < length (rv_tickets r) \<longrightarrow> rv_tickets r ! j = USIZE_MAX" "i < length v" "length v \<le> length (rv_tickets r)"
  shows "\<exists>v' d. heap_lower prec revisits_swapped v i r = Some (v', d, r) \<and> take i v' = take i v \<and> i \<le> d \<and> (d = i \<longrightarrow> v' = v)"
proof -
  let ?R = "\<lambda>u k s. s = r \<and> take i u = take i v \<and> length u = length v \<and> i \<le> k \<and> (k = i \<longrightarrow> u = v)"
  have step: "\<exists>s'. revisits_swapped k (lower_child prec u k) s = Some s' \<and>
      ?R (heap_swap u k (lower_child prec u k)) (lower_child prec u k) s'" if R: "?R u k s" "k < length u div 2" for u k s
  proof -
    let ?c = "lower_child prec u k"
    have c: "k < ?c" "?c < length v" using lower_child_bounds [OF R(2), of prec] R(1) by auto
    have "revisits_swapped k ?c r = Some r" using assms c R(1) by (intro swapped_idle) auto
    moreover have "take i (heap_swap u k ?c) = take i v"
      using R(1) c by (simp add: heap_swap_def)
    ultimately show ?thesis using R(1) c by simp
  qed
  have init: "?R v i r" by simp
  have "\<exists>v' d s'. heap_lower prec revisits_swapped v i r = Some (v', d, s') \<and> ?R v' d s'"
    by (rule heap_lower_loop [where R = ?R]) (fact init, fact step)
  then show ?thesis by blast
qed

definition tail_idle :: "nat \<Rightarrow> Revisits \<Rightarrow> bool" where
  "tail_idle n r \<longleftrightarrow> (\<forall>j. n \<le> j \<and> j < length (rv_tickets r) \<longrightarrow> rv_tickets r ! j = USIZE_MAX)"

lemma tail_idle_iff: "tail_idle n r \<longleftrightarrow> (\<forall>t \<in> set (drop n (rv_tickets r)). t = USIZE_MAX)"
proof
  assume "tail_idle n r"
  then show "\<forall>t \<in> set (drop n (rv_tickets r)). t = USIZE_MAX" by (auto simp: tail_idle_def in_set_conv_nth)
next
  assume all: "\<forall>t \<in> set (drop n (rv_tickets r)). t = USIZE_MAX"
  have "rv_tickets r ! j \<in> set (drop n (rv_tickets r))" if "n \<le> j" "j < length (rv_tickets r)" for j
    using that nth_mem [of "j - n" "drop n (rv_tickets r)"] by simp
  then show "tail_idle n r" using all by (simp add: tail_idle_def)
qed

lemma tail_idle_drop: "drop n (rv_tickets r) = drop n (rv_tickets s) \<Longrightarrow> tail_idle n r \<Longrightarrow> tail_idle n s"
  unfolding tail_idle_iff by simp

lemma remove_at_eqs:
  assumes "i < length v - 1" "moved i (length v - 1) s = Some s1"
    "heap_lower prec moved (butlast (heap_swap v i (length v - 1))) i s1 = Some (v2, d2, s2)"
  shows "d2 \<noteq> i \<Longrightarrow> heap_remove_at prec moved v i s = Some (v ! i, Some d2, v2, s2)"
    "d2 = i \<Longrightarrow> heap_raise prec moved v2 i s2 = Some (v3, d3, s3) \<Longrightarrow> heap_remove_at prec moved v i s = Some (v ! i, Some d3, v3, s3)"
proof -
  have ne: "(length v \<le> i) = False" "(i = length v - 1) = False" using assms(1) by auto
  show "d2 \<noteq> i \<Longrightarrow> heap_remove_at prec moved v i s = Some (v ! i, Some d2, v2, s2)"
    unfolding heap_remove_at_def Let_def ne if_False assms(2) bind.bind_lunit assms(3) by simp
  show "d2 = i \<Longrightarrow> heap_raise prec moved v2 i s2 = Some (v3, d3, s3) \<Longrightarrow> heap_remove_at prec moved v i s = Some (v ! i, Some d3, v3, s3)"
    unfolding heap_remove_at_def Let_def ne if_False assms(2) bind.bind_lunit assms(3) by simp
qed

lemma remove_at_last: "v \<noteq> [] \<Longrightarrow> heap_remove_at prec moved v (length v - 1) s = Some (v ! (length v - 1), None, butlast v, s)"
  by (cases v) (simp_all add: heap_remove_at_def)

lemma pairs_swap_last:
  assumes "i < length v - 1" "length v \<le> length (rv_tickets r)" "rv_tickets r ! i = USIZE_MAX"
    "rv_tickets r1 = heap_swap (rv_tickets r) i (length v - 1)"
  shows "pairs v r = add_mset (v ! i, USIZE_MAX) (pairs (butlast (heap_swap v i (length v - 1))) r1)"
proof -
  let ?w = "heap_swap v i (length v - 1)"
  have w: "?w \<noteq> []" "length ?w \<le> length (rv_tickets r1)"
    using assms by (metis length_heap_swap list.size(3) not_less_zero zero_diff, simp)
  have "last ?w = v ! i" using assms w(1) by (simp add: last_conv_nth heap_swap_nth)
  moreover have "rv_tickets r1 ! (length v - 1) = USIZE_MAX" using assms by (simp add: heap_swap_nth)
  moreover have "pairs ?w r1 = pairs v r" using assms by (intro pairs_swap) auto
  ultimately show ?thesis using pairs_remove_last [OF w] by simp
qed

lemma remove_at_linked:
  assumes l: "linked r A" and len: "i < length v" "length v \<le> length (rv_tickets r)"
    and idle: "rv_tickets r ! i = USIZE_MAX" "tail_idle (length v) r"
  shows "\<exists>d v' r'. heap_remove_at prec revisits_swapped v i r = Some (v ! i, d, v', r') \<and> linked r' A \<and> same_frame r r' \<and>
    tail_idle (length v') r' \<and> pairs v r = add_mset (v ! i, USIZE_MAX) (pairs v' r')"
proof (cases "i = length v - 1")
  case True
  have v: "v \<noteq> []" using len by auto
  have "tail_idle (length (butlast v)) r" using idle True len unfolding tail_idle_def
    by (metis Suc_pred' length_butlast length_greater_0_conv not_less_eq_eq le_antisym v)
  moreover have "pairs v r = add_mset (v ! i, USIZE_MAX) (pairs (butlast v) r)"
    using pairs_remove_last [OF v len(2)] True idle(1) v by (simp add: last_conv_nth)
  ultimately show ?thesis using remove_at_last [OF v, of prec revisits_swapped r] True l by auto
next
  case False
  let ?n = "length v - 1"
  have i: "i < ?n" using False len by linarith
  let ?w = "heap_swap v i ?n"
  let ?v1 = "butlast ?w"
  have "repairing (length v) v r A v r" using l len(2) by (simp add: repairing_refl)
  then obtain r1 where r1: "revisits_swapped i ?n r = Some r1" "linked r1 A" "same_frame r r1"
      "drop (length v) (rv_tickets r1) = drop (length v) (rv_tickets r)" "rv_tickets r1 = heap_swap (rv_tickets r) i ?n"
    using repairing_swap [of "length v" v r A v r i ?n] i len(1) unfolding repairing_def by fastforce
  have p1: "pairs v r = add_mset (v ! i, USIZE_MAX) (pairs ?v1 r1)" by (rule pairs_swap_last [OF i len(2) idle(1) r1(5)])
  have t1: "tail_idle ?n r1"
    unfolding tail_idle_def
  proof (intro allI impI)
    fix j assume j: "?n \<le> j \<and> j < length (rv_tickets r1)"
    show "rv_tickets r1 ! j = USIZE_MAX"
    proof (cases "j = ?n")
      case True
      then show ?thesis using r1(5) idle(1) i len by (simp add: heap_swap_nth)
    next
      case False
      then have "length v \<le> j" "j \<noteq> i" using j i by linarith+
      then show ?thesis using r1(5) False idle(2) j i len by (simp add: heap_swap_nth tail_idle_def)
    qed
  qed
  have v1: "length ?v1 = ?n" by simp
  have len1: "?n \<le> length (rv_tickets r1)" using r1(3) len by (simp add: same_frame_def)
  have rep1: "repairing ?n ?v1 r1 A ?v1 r1" using r1(2) v1 len1 by (intro repairing_refl) simp_all
  obtain v2 d2 r2 where l2: "heap_lower prec revisits_swapped ?v1 i r1 = Some (v2, d2, r2)" "repairing ?n ?v1 r1 A v2 r2"
    using lower_repairs [OF rep1 v1 [symmetric] i] by blast
  obtain d v' r' where res: "heap_remove_at prec revisits_swapped v i r = Some (v ! i, d, v', r')" "repairing ?n ?v1 r1 A v' r'"
  proof (cases "d2 = i")
    case True
    have "repairing ?n v2 r2 A v2 r2" using l2(2) by (auto simp: repairing_def same_frame_def)
    then obtain v3 d3 r3 where l3: "heap_raise prec revisits_swapped v2 i r2 = Some (v3, d3, r3)" "repairing ?n v2 r2 A v3 r3"
      using raise_repairs [of ?n v2 r2 A i prec] i by blast
    have "repairing ?n ?v1 r1 A v3 r3" using l2(2) l3(2) by (auto simp: repairing_def same_frame_def)
    then show ?thesis using that remove_at_eqs(2) [OF i r1(1) l2(1) True l3(1)] by blast
  next
    case False
    then show ?thesis using that remove_at_eqs(1) [OF i r1(1) l2(1)] l2(2) by blast
  qed
  have v': "length v' = ?n" using res(2) by (simp add: repairing_def)
  have "pairs v' r' = pairs ?v1 r1" using res(2) v' by (simp add: repairing_def)
  moreover have "tail_idle (length v') r'" using res(2) t1 v' tail_idle_drop [of ?n r1 r'] by (simp add: repairing_def)
  moreover have "linked r' A" "same_frame r r'" using res(2) same_frame_trans [OF r1(3)] by (auto simp: repairing_def)
  ultimately show ?thesis using res(1) p1 by auto
qed

end
