(* ===== verification/TickRemoval.thy ===== *)
theory TickRemoval
  imports TickRevisits
begin

text \<open>
  The properties of the scheduled-tick heap: push and pop as a priority queue, the budget of its
  construction, and the single visit of \<open>remove_if\<close>.
\<close>

section \<open>Removal at the cursor\<close>

lemma pairs_take_Suc:
  assumes "i < length v" "length v \<le> length (rv_tickets r)"
  shows "pairs (take (Suc i) v) r = add_mset (v ! i, rv_tickets r ! i) (pairs (take i v) r)"
proof -
  have "take (Suc i) v \<noteq> []" "length (take (Suc i) v) \<le> length (rv_tickets r)" using assms by auto
  moreover have "last (take (Suc i) v) = v ! i" using assms(1) by (simp add: take_Suc_conv_app_nth)
  ultimately show ?thesis using pairs_remove_last [of "take (Suc i) v" r] assms by (simp add: min_absorb2 butlast_take)
qed

lemma remove_at_cursor:
  assumes l: "linked r A" and len: "i < length v" "length v \<le> length (rv_tickets r)" and idle: "tail_idle i r"
  obtains d v' r' where "heap_remove_at prec revisits_swapped v i r = Some (v ! i, d, v', r')"
    "\<nexists>k. d = Some k \<and> k < i" "r' = r" "take i v' = take i v"
  | d v' r' k where "heap_remove_at prec revisits_swapped v i r = Some (v ! i, d, v', r')"
    "d = Some k" "k < i" "i < length v'" "linked r' A" "same_frame r r'" "tail_idle (Suc i) r'" "rv_tickets r' ! k = USIZE_MAX"
    "settled (pairs (take (Suc i) v') r') = add_mset (v' ! k) (settled (pairs (take i v) r))"
proof (cases "i = length v - 1")
  case True
  have "v \<noteq> []" using len by auto
  from remove_at_last [OF this, of prec revisits_swapped r] show ?thesis
    using True that(1) [of None "butlast v" r] by (simp add: butlast_conv_take)
next
  case False
  let ?n = "length v - 1"
  let ?v1 = "butlast (heap_swap v i ?n)"
  have i: "i < ?n" and nlen: "?n \<le> length (rv_tickets r)" using False len by linarith+
  have idle': "\<forall>j. i \<le> j \<and> j < length (rv_tickets r) \<longrightarrow> rv_tickets r ! j = USIZE_MAX" using idle by (simp add: tail_idle_def)
  have r1: "revisits_swapped i ?n r = Some r" using idle' i len by (intro swapped_idle) auto
  have v1: "length ?v1 = ?n" "take i ?v1 = take i v" using i by (simp_all add: take_butlast heap_swap_def)
  obtain v2 d2 where l2: "heap_lower prec revisits_swapped ?v1 i r = Some (v2, d2, r)" "take i v2 = take i ?v1" "i \<le> d2" "d2 = i \<longrightarrow> v2 = ?v1"
    using lower_idle [OF idle', of ?v1 prec] i nlen v1 by auto
  show ?thesis
  proof (cases "d2 = i")
    case no: False
    show ?thesis using that(1) [OF remove_at_eqs(1) [OF i r1 l2(1) no]] l2 v1 by simp
  next
    case yes: True
    then have v2: "v2 = ?v1" using l2 by simp
    have rep: "repairing (Suc i) ?v1 r A ?v1 r" using l i len v1 by (intro repairing_refl) auto
    obtain v3 k r3 where l3: "heap_raise prec revisits_swapped ?v1 i r = Some (v3, k, r3)" "repairing (Suc i) ?v1 r A v3 r3" "k \<le> i"
        "k = i \<longrightarrow> v3 = ?v1 \<and> r3 = r" "v3 ! k = ?v1 ! i" "rv_tickets r3 ! k = rv_tickets r ! i"
      using raise_repairs [OF rep, of i prec] by auto
    note res = remove_at_eqs(2) [OF i r1 l2(1) yes, unfolded v2, OF l3(1)]
    show ?thesis
    proof (cases "k = i")
      case True
      then show ?thesis using that(1) [OF res] l3(4) v1 by simp
    next
      case False
      have "pairs (take (Suc i) v3) r3 = pairs (take (Suc i) ?v1) r" using l3(2) by (simp add: repairing_def)
      then have "settled (pairs (take (Suc i) v3) r3) = add_mset (v3 ! k) (settled (pairs (take i v) r))"
        using pairs_take_Suc [of i ?v1 r] i len v1 l3(5) idle' by simp
      moreover have "tail_idle (Suc i) r3"
        using idle l3(2) tail_idle_drop [of "Suc i" r r3] by (simp add: repairing_def tail_idle_def)
      moreover have "linked r3 A" "same_frame r r3" "length v3 = ?n" using l3(2) v1 by (simp_all add: repairing_def)
      ultimately show ?thesis using that(2) [OF res refl] False l3(3,6) idle' i len by auto
    qed
  qed
qed

lemma defer_linked:
  assumes "linked r {..<length (rv_positions r)}" "k < length (rv_tickets r)" "rv_tickets r ! k = USIZE_MAX"
    "length (rv_positions r) < rv_capacity r" "length (rv_positions r) < USIZE_MAX"
  shows "\<exists>r'. revisits_defer r k = Some r' \<and> linked r' {..<length (rv_positions r')} \<and>
    rv_tickets r' = (rv_tickets r)[k := length (rv_positions r)] \<and> length (rv_positions r') = Suc (length (rv_positions r)) \<and>
    rv_capacity r' = rv_capacity r"
proof -
  let ?K = "length (rv_positions r)"
  let ?r' = "r\<lparr>rv_tickets := (rv_tickets r)[k := ?K], rv_positions := rv_positions r @ [k]\<rparr>"
  have eq: "revisits_defer r k = Some ?r'" using assms by (simp add: revisits_defer_def)
  have old: "rv_positions r ! t < length (rv_tickets r) \<and> rv_tickets r ! (rv_positions r ! t) = t" if "t < ?K" for t
    using assms(1) that by (auto simp: linked_def)
  have "linked ?r' {..<length (rv_positions ?r')}"
    unfolding linked_def
  proof (intro conjI ballI allI impI)
    fix t assume "t \<in> {..<length (rv_positions ?r')}"
    then have "t < ?K \<or> t = ?K" by auto
    then show "rv_positions ?r' ! t < length (rv_tickets ?r')" "rv_tickets ?r' ! (rv_positions ?r' ! t) = t"
      using old [of t] assms(2,3,5) by (auto simp: nth_append nth_list_update)
  next
    fix i assume "i < length (rv_tickets ?r')" "rv_tickets ?r' ! i \<noteq> USIZE_MAX"
    then show "rv_tickets ?r' ! i \<in> {..<length (rv_positions ?r')}" "rv_positions ?r' ! (rv_tickets ?r' ! i) = i"
      using linked_ticket [OF assms(1), of i] assms(2) by (auto simp: nth_list_update nth_append split: if_splits)
  qed (use assms in auto)
  then show ?thesis using eq by auto
qed

lemma take_linked:
  assumes "linked r {t..<K}" "t < K"
  shows "\<exists>p r'. revisits_take r t = Some (p, r') \<and> p < length (rv_tickets r) \<and> rv_tickets r ! p = t \<and> linked r' {Suc t..<K} \<and>
    rv_tickets r' = (rv_tickets r)[p := USIZE_MAX] \<and> same_frame r r'"
proof -
  let ?p = "rv_positions r ! t"
  let ?r' = "r\<lparr>rv_tickets := (rv_tickets r)[?p := USIZE_MAX]\<rparr>"
  have t: "t < length (rv_positions r)" "?p < length (rv_tickets r)" "rv_tickets r ! ?p = t" and sub: "{t..<K} \<subseteq> {..<length (rv_positions r)}"
    using assms by (auto simp: linked_def)
  have eq: "revisits_take r t = Some (?p, ?r')" using t by (simp add: revisits_take_def)
  have "linked ?r' {Suc t..<K}"
    unfolding linked_def
  proof (intro conjI ballI allI impI)
    fix u assume u: "u \<in> {Suc t..<K}"
    then have "rv_positions r ! u < length (rv_tickets r)" "rv_tickets r ! (rv_positions r ! u) = u" "u \<noteq> t"
      using assms(1) by (auto simp: linked_def)
    then show "rv_positions ?r' ! u < length (rv_tickets ?r')" "rv_tickets ?r' ! (rv_positions ?r' ! u) = u"
      using t by (auto simp: nth_list_update)
  next
    fix i assume i: "i < length (rv_tickets ?r')" "rv_tickets ?r' ! i \<noteq> USIZE_MAX"
    then have "i \<noteq> ?p" "rv_tickets r ! i \<noteq> USIZE_MAX" using t by (auto simp: nth_list_update split: if_splits)
    then show "rv_tickets ?r' ! i \<in> {Suc t..<K}" "rv_positions ?r' ! (rv_tickets ?r' ! i) = i"
      using linked_ticket [OF assms(1), of i] i by (auto simp: le_less Suc_le_eq)
  next
    show "{Suc t..<K} \<subseteq> {..<length (rv_positions ?r')}" using sub assms(2) by (auto simp: subset_iff)
  qed (use assms in \<open>auto simp: linked_def\<close>)
  then show ?thesis using eq t by (simp add: same_frame_def)
qed

section \<open>The two loops\<close>

text \<open>The predicate run over a list of entries, in order: the entries it keeps and its last state.\<close>

fun pred_run :: "('a, 'p) visitor \<Rightarrow> 'a list \<Rightarrow> 'p \<Rightarrow> 'a list \<times> 'p" where
  "pred_run f [] p = ([], p)"
| "pred_run f (x # xs) p =
    (let (hit, p') = f x p; (kept, p'') = pred_run f xs p' in (if hit then kept else x # kept, p''))"

lemma pred_run_append:
  "pred_run f xs p = (k1, p1) \<Longrightarrow> pred_run f ys p1 = (k2, p2) \<Longrightarrow> pred_run f (xs @ ys) p = (k1 @ k2, p2)"
  by (induction xs arbitrary: p k1) (auto split: prod.splits if_splits)

lemma pred_run_length: "pred_run f xs p = (kept, p') \<Longrightarrow> length kept \<le> length xs"
  by (induction xs arbitrary: p kept) (auto split: prod.splits if_splits, fastforce+)

definition scan_inv :: "nat \<Rightarrow> 'a list \<Rightarrow> Revisits \<Rightarrow> nat \<Rightarrow> bool" where
  "scan_inv N v r cursor \<longleftrightarrow> linked r {..<length (rv_positions r)} \<and> tail_idle cursor r \<and> cursor \<le> length v \<and>
    length (rv_positions r) + length v \<le> N \<and> N \<le> length (rv_tickets r) \<and> N \<le> rv_capacity r \<and> N \<le> USIZE_MAX"

text \<open>What the first loop has done when it ends, from any cursor.\<close>

definition scan_done ::
  "('a \<Rightarrow> 'a \<Rightarrow> bool) \<Rightarrow> ('a, 'p) visitor \<Rightarrow> nat \<Rightarrow> 'a list \<Rightarrow> Revisits \<Rightarrow> nat \<Rightarrow> 'p \<Rightarrow> bool" where
  "scan_done prec f N v r cursor p \<longleftrightarrow>
    (\<exists>v' r' p' order kept. remove_scan prec f v r cursor p = Some (v', r', p') \<and> scan_inv N v' r' (length v') \<and> heap_ok prec v' \<and>
      length (rv_tickets r') = length (rv_tickets r) \<and> rv_capacity r' = rv_capacity r \<and>
      pred_run f order p = (kept, p') \<and>
      mset v = settled (pairs (take cursor v) r) + mset order + deferred (pairs v' r') \<and>
      settled (pairs v' r') = settled (pairs (take cursor v) r) + mset kept)"

text \<open>One entry \<open>x\<close> asked about before the rest of the loop; \<open>ks\<close> keeps it or not.\<close>

lemma scan_done_step:
  assumes "scan_done prec f N v1 r1 c1 p1" "remove_scan prec f v r cursor p = remove_scan prec f v1 r1 c1 p1"
    "length (rv_tickets r1) = length (rv_tickets r)" "rv_capacity r1 = rv_capacity r" "f x p = (ks = [], p1)" "ks = [] \<or> ks = [x]"
    "settled (pairs (take c1 v1) r1) = settled (pairs (take cursor v) r) + mset ks" "mset v + mset ks = add_mset x (mset v1)"
  shows "scan_done prec f N v r cursor p"
proof -
  obtain v' r' p' order kept where ih: "remove_scan prec f v1 r1 c1 p1 = Some (v', r', p')" "scan_inv N v' r' (length v')"
    "heap_ok prec v'" "length (rv_tickets r') = length (rv_tickets r1)" "rv_capacity r' = rv_capacity r1" "pred_run f order p1 = (kept, p')"
    "mset v1 = settled (pairs (take c1 v1) r1) + mset order + deferred (pairs v' r')"
    "settled (pairs v' r') = settled (pairs (take c1 v1) r1) + mset kept" using assms(1) unfolding scan_done_def by blast
  have "pred_run f (x # order) p = (ks @ kept, p')" using assms(5,6) ih(6) by auto
  moreover have "mset v + mset ks = (settled (pairs (take cursor v) r) + mset (x # order) + deferred (pairs v' r')) + mset ks"
    unfolding assms(7,8) ih(7) by (simp add: ac_simps)
  then have "mset v = settled (pairs (take cursor v) r) + mset (x # order) + deferred (pairs v' r')"
    by (rule add_right_imp_eq)
  moreover have "settled (pairs v' r') = settled (pairs (take cursor v) r) + mset (ks @ kept)"
    using ih(8) assms(7) by (simp add: ac_simps)
  ultimately show ?thesis
    unfolding scan_done_def using ih(1-5) assms(2-4) by metis
qed

lemma scan_done_end:
  assumes "scan_inv N v r (length v)" "heap_ok prec v"
  shows "scan_done prec f N v r (length v) p"
proof -
  have "length v \<le> length (rv_tickets r)" using assms(1) by (auto simp: scan_inv_def)
  then have "mset v = settled (pairs v r) + deferred (pairs v r)" using pairs_fst settled_deferred by metis
  moreover have "remove_scan prec f v r (length v) p = Some (v, r, p)" by (simp add: remove_scan.simps)
  ultimately show ?thesis unfolding scan_done_def using assms by - (rule exI, rule exI, rule exI, rule exI [of _ "[]"], rule exI [of _ "[]"], simp)
qed

context heap_entry
begin

lemma scan_removes:
  assumes "scan_inv N v r cursor" "heap_ok prec v" "cursor < length v" "f (v ! cursor) p = (True, p1)"
    and IH: "\<And>v1 r1 c1. length v1 - c1 < length v - cursor \<Longrightarrow> scan_inv N v1 r1 c1 \<Longrightarrow> heap_ok prec v1 \<Longrightarrow> scan_done prec f N v1 r1 c1 p1"
  shows "scan_done prec f N v r cursor p"
proof -
  have inv: "linked r {..<length (rv_positions r)}" "tail_idle cursor r" "length v \<le> length (rv_tickets r)"
    "length (rv_positions r) + length v \<le> N" "N \<le> length (rv_tickets r)" "N \<le> rv_capacity r" "N \<le> USIZE_MAX"
    using assms(1) by (auto simp: scan_inv_def)
  note eq = remove_scan.simps [of prec f v r cursor p, unfolded if_P [OF assms(3)] assms(4) Let_def prod.case]
  show ?thesis
  proof (rule remove_at_cursor [OF inv(1) assms(3) inv(3,2), of prec])
    fix d v1 r1
    assume res: "heap_remove_at prec revisits_swapped v cursor r = Some (v ! cursor, d, v1, r1)"
      and d: "\<nexists>k. d = Some k \<and> k < cursor" and r1: "r1 = r" and pre: "take cursor v1 = take cursor v"
    have len: "length v1 = length v - 1" and m: "mset v = add_mset (v ! cursor) (mset v1)"
      using heap_remove_at_length [OF res] remove_at_mset [OF res] by auto
    have "scan_inv N v1 r cursor" using assms(1,3) len by (auto simp: scan_inv_def)
    then have "scan_done prec f N v1 r cursor p1" using IH remove_at_heap [OF res assms(2)] len assms(3) by simp
    moreover have "remove_scan prec f v r cursor p = remove_scan prec f v1 r cursor p1" using eq res d r1 by simp
    ultimately show ?thesis using m pre assms(4) by (elim scan_done_step [where ks = "[]" and x = "v ! cursor"]) simp_all
  next
    fix d v1 r1 k
    assume res: "heap_remove_at prec revisits_swapped v cursor r = Some (v ! cursor, d, v1, r1)" and d: "d = Some k" "k < cursor"
      and c: "cursor < length v1" and l1: "linked r1 {..<length (rv_positions r)}" "same_frame r r1" "tail_idle (Suc cursor) r1"
        "rv_tickets r1 ! k = USIZE_MAX"
      and s1: "settled (pairs (take (Suc cursor) v1) r1) = add_mset (v1 ! k) (settled (pairs (take cursor v) r))"
    have fr: "length (rv_positions r1) = length (rv_positions r)" "length (rv_tickets r1) = length (rv_tickets r)" "rv_capacity r1 = rv_capacity r"
      using l1(2) by (simp_all add: same_frame_def)
    have len: "length v1 = length v - 1" and m: "mset v = add_mset (v ! cursor) (mset v1)"
      using heap_remove_at_length [OF res] remove_at_mset [OF res] by auto
    obtain r2 where r2: "revisits_defer r1 k = Some r2" "linked r2 {..<length (rv_positions r2)}"
        "rv_tickets r2 = (rv_tickets r1)[k := length (rv_positions r1)]" "length (rv_positions r2) = Suc (length (rv_positions r1))"
        "rv_capacity r2 = rv_capacity r1"
      using defer_linked [of r1 k] l1 fr d(2) assms(3) inv by auto
    have "scan_inv N v1 r2 (Suc cursor)"
      using r2 l1(3) fr len c inv d(2) by (auto simp: scan_inv_def tail_idle_def nth_list_update)
    then have "scan_done prec f N v1 r2 (Suc cursor) p1" using IH remove_at_heap [OF res assms(2)] len assms(3) by simp
    moreover have "k < length (take (Suc cursor) v1)" "length (take (Suc cursor) v1) \<le> length (rv_tickets r1)" using d(2) c len fr inv by auto
    from pairs_settle [OF this r2(3)]
    have "settled (pairs (take (Suc cursor) v1) r2) = settled (pairs (take cursor v) r)"
      using s1 l1(4) inv(4,7) fr assms(3) d(2) by auto
    moreover have "remove_scan prec f v r cursor p = remove_scan prec f v1 r2 (Suc cursor) p1" using eq res d r2(1) by simp
    ultimately show ?thesis using m assms(4) r2 fr by (elim scan_done_step [where ks = "[]" and x = "v ! cursor"]) simp_all
  qed
qed

lemma remove_scan_visits:
  assumes "scan_inv N v r cursor" "heap_ok prec v"
  shows "scan_done prec f N v r cursor p"
  using assms
proof (induction "length v - cursor" arbitrary: v r cursor p rule: less_induct)
  case (less v cursor r p)
  show ?case
  proof (cases "cursor < length v")
    case False
    then have "cursor = length v" using less.prems(1) by (simp add: scan_inv_def)
    then show ?thesis using scan_done_end less.prems by simp
  next
    case True
    obtain hit p1 where f: "f (v ! cursor) p = (hit, p1)" by (cases "f (v ! cursor) p")
    show ?thesis
    proof (cases hit)
      case hit: True
      then show ?thesis using less.hyps f by (intro scan_removes [OF less.prems True, of f p p1]) simp_all
    next
      case False
      have len: "length v \<le> length (rv_tickets r)" "tail_idle cursor r" using less.prems(1) by (auto simp: scan_inv_def)
      have "scan_inv N v r (Suc cursor)" using less.prems(1) True by (simp add: scan_inv_def tail_idle_def)
      then have "scan_done prec f N v r (Suc cursor) p1" using less.hyps less.prems(2) True by simp
      moreover have "remove_scan prec f v r cursor p = remove_scan prec f v r (Suc cursor) p1"
        using True f False by (simp add: remove_scan.simps [of prec f v r cursor])
      moreover have "settled (pairs (take (Suc cursor) v) r) = settled (pairs (take cursor v) r) + mset [v ! cursor]"
        using pairs_take_Suc [OF True len(1)] len True by (simp add: tail_idle_def)
      ultimately show ?thesis using f False by (elim scan_done_step [where ks = "[v ! cursor]" and x = "v ! cursor"]) simp_all
    qed
  qed
qed

lemma remove_deferred_visits:
  assumes "linked r {t..<K}" "t \<le> K" "K \<le> USIZE_MAX" "tail_idle (length v) r" "length v \<le> length (rv_tickets r)" "heap_ok prec v"
  shows "\<exists>v' r' p' order kept. remove_deferred prec f [t..<K] v r p = Some (v', r', p') \<and> heap_ok prec v' \<and> same_frame r r' \<and>
    pred_run f order p = (kept, p') \<and> mset order = deferred (pairs v r) \<and> mset v' = settled (pairs v r) + mset kept"
  using assms
proof (induction "K - t" arbitrary: t v r p)
  case 0
  then have t: "t = K" by simp
  have "rv_tickets r ! i = USIZE_MAX" if "i < length (rv_tickets r)" for i
    using linked_ticket [OF 0(2) that] t by auto
  then have all: "\<forall>e \<in># pairs v r. snd e = USIZE_MAX"
    by (auto simp: pairs_def set_zip)
  then have "{# e \<in># pairs v r. snd e \<noteq> USIZE_MAX #} = {#}" by simp
  then have "deferred (pairs v r) = {#}" "settled (pairs v r) = mset v"
    using settled_deferred [of "pairs v r"] pairs_fst [OF 0(6)] by (simp_all add: deferred_def)
  then show ?case using 0 t by - (rule exI [of _ v], rule exI [of _ r], rule exI [of _ p], rule exI [of _ "[]"], rule exI [of _ "[]"], simp)
next
  case (Suc n)
  then have t: "t < K" "[t..<K] = t # [Suc t..<K]" by (simp_all add: upt_conv_Cons)
  obtain q r1 where q: "revisits_take r t = Some (q, r1)" "q < length (rv_tickets r)" "rv_tickets r ! q = t" "linked r1 {Suc t..<K}"
      "rv_tickets r1 = (rv_tickets r)[q := USIZE_MAX]" "same_frame r r1"
    using take_linked [OF Suc(3) t(1)] by blast
  have tk: "t \<noteq> USIZE_MAX" using t Suc.prems(3) by simp
  then have ql: "q < length v" using Suc.prems(4) q(2,3) unfolding tail_idle_def by (metis linorder_not_le)
  have len: "length v \<le> length (rv_tickets r1)" using Suc.prems(5) q(6) by (simp add: same_frame_def)
  have idle: "tail_idle (length v) r1" using Suc.prems(4) q(2,5) ql by (auto simp: tail_idle_def nth_list_update)
  obtain M where M: "pairs v r = add_mset (v ! q, t) M" "pairs v r1 = add_mset (v ! q, USIZE_MAX) M"
    using pairs_settle [OF ql Suc.prems(5) q(5)] q(3) by auto
  then have sd: "settled (pairs v r) = settled M" "deferred (pairs v r) = add_mset (v ! q) (deferred M)" using tk by simp_all
  obtain hit p1 where f: "f (v ! q) p = (hit, p1)" by (cases "f (v ! q) p")
  have n: "n = K - Suc t" "Suc t \<le> K" using Suc(2) t by auto
  show ?case
  proof (cases hit)
    case False
    obtain v' r' p' order kept where ih: "remove_deferred prec f [Suc t..<K] v r1 p1 = Some (v', r', p')" "heap_ok prec v'" "same_frame r1 r'"
        "pred_run f order p1 = (kept, p')" "mset order = deferred (pairs v r1)" "mset v' = settled (pairs v r1) + mset kept"
      using Suc.hyps(1) [OF n(1) q(4) n(2) Suc.prems(3) idle len Suc.prems(6), of p1] by blast
    have "remove_deferred prec f [t..<K] v r p = Some (v', r', p')" using t(2) q(1) ql f False ih(1) by simp
    then show ?thesis using ih f False M sd same_frame_trans [OF q(6)]
      by - (rule exI [of _ v'], rule exI [of _ r'], rule exI [of _ p'], rule exI [of _ "v ! q # order"], rule exI [of _ "v ! q # kept"], simp)
  next
    case True
    have "rv_tickets r1 ! q = USIZE_MAX" using q(2,5) by simp
    then obtain d v1 r2 where res: "heap_remove_at prec revisits_swapped v q r1 = Some (v ! q, d, v1, r2)" "linked r2 {Suc t..<K}"
        "same_frame r1 r2" "tail_idle (length v1) r2" "pairs v r1 = add_mset (v ! q, USIZE_MAX) (pairs v1 r2)"
      using remove_at_linked [OF q(4) ql len _ idle, of prec] by blast
    have M1: "M = pairs v1 r2" using M(2) res(5) by simp
    have len1: "length v1 \<le> length (rv_tickets r2)" using heap_remove_at_length [OF res(1)] len res(3) by (simp add: same_frame_def)
    obtain v' r' p' order kept where ih: "remove_deferred prec f [Suc t..<K] v1 r2 p1 = Some (v', r', p')" "heap_ok prec v'" "same_frame r2 r'"
        "pred_run f order p1 = (kept, p')" "mset order = deferred (pairs v1 r2)" "mset v' = settled (pairs v1 r2) + mset kept"
      using Suc.hyps(1) [OF n(1) res(2) n(2) Suc.prems(3) res(4) len1 remove_at_heap [OF res(1) Suc.prems(6)], of p1] by blast
    have "remove_deferred prec f [t..<K] v r p = Some (v', r', p')" using t(2) q(1) ql f True res(1) ih(1) by simp
    then show ?thesis using ih f True M1 sd same_frame_trans [OF q(6) same_frame_trans [OF res(3)]]
      by - (rule exI [of _ v'], rule exI [of _ r'], rule exI [of _ p'], rule exI [of _ "v ! q # order"], rule exI [of _ kept], simp)
  qed
qed

end

section \<open>The heap of scheduled ticks\<close>

definition sched_ok :: "ScheduledHeap \<Rightarrow> bool" where
  "sched_ok h \<longleftrightarrow> heap_ok tick_precedes (hp_values (sh_heap h)) \<and> length (hp_values (sh_heap h)) \<le> hp_limit (sh_heap h) \<and>
    hp_limit (sh_heap h) \<le> hp_capacity (sh_heap h) \<and>
    length (rv_tickets (sh_revisits h)) = hp_limit (sh_heap h) \<and> hp_limit (sh_heap h) \<le> rv_capacity (sh_revisits h) \<and>
    hp_limit (sh_heap h) \<le> USIZE_MAX"

abbreviation sched_values :: "ScheduledHeap \<Rightarrow> ScheduledTick list" where
  "sched_values h \<equiv> hp_values (sh_heap h)"

context heap_entry
begin

lemma push_laws:
  assumes "heap_ok prec (hp_values h)" "length (hp_values h) < hp_limit h"
  shows "\<exists>v. heap_push prec h x = Some (h\<lparr>hp_values := v\<rparr>) \<and> heap_ok prec v \<and> mset v = add_mset x (mset (hp_values h))"
proof -
  obtain v d where r: "heap_raise prec silent (hp_values h @ [x]) (length (hp_values h)) () = Some (v, d, ())"
    using raise_silent_total by blast
  have "heap_ok prec v" by (rule raise_heap [OF r push_broken [OF assms(1)]])
  moreover have "mset v = mset (hp_values h @ [x])" by (rule raise_mset [OF r]) simp
  ultimately show ?thesis using r assms(2) by (intro exI [of _ v]) (simp add: heap_push_def)
qed

lemma remove_at_silent_total: "i < length v \<Longrightarrow> \<exists>d v'. heap_remove_at prec silent v i () = Some (v ! i, d, v', ())"
proof (cases "i = length v - 1")
  case True
  assume "i < length v"
  then have "v \<noteq> []" by auto
  then show ?thesis using remove_at_last [of v prec silent "()"] True by auto
next
  case False
  assume "i < length v"
  then have i: "i < length v - 1" using False by linarith
  obtain v2 d2 where l: "heap_lower prec silent (butlast (heap_swap v i (length v - 1))) i () = Some (v2, d2, ())"
    using lower_silent_total by blast
  obtain v3 d3 where r: "heap_raise prec silent v2 i () = Some (v3, d3, ())" using raise_silent_total by blast
  show ?thesis using remove_at_eqs [OF i silent_total l] r by (cases "d2 = i") auto
qed

lemma pop_laws:
  assumes "heap_ok prec (hp_values h)" "hp_values h \<noteq> []"
  shows "\<exists>x v. heap_pop prec h = Some (Some x, h\<lparr>hp_values := v\<rparr>) \<and> heap_peek h = Some x \<and> heap_ok prec v \<and>
    mset (hp_values h) = add_mset x (mset v) \<and> (\<forall>y \<in> set (hp_values h). \<not> prec y x)"
proof -
  have n: "0 < length (hp_values h)" using assms(2) by simp
  obtain d v where r: "heap_remove_at prec silent (hp_values h) 0 () = Some (hp_values h ! 0, d, v, ())"
    using remove_at_silent_total [OF n] by blast
  have "\<forall>y \<in> set (hp_values h). \<not> prec y (hp_values h ! 0)"
    using root_least [OF assms(1)] by (auto simp: in_set_conv_nth)
  moreover have "heap_peek h = Some (hp_values h ! 0)" using assms(2) by (cases "hp_values h") (simp_all add: heap_peek_def)
  ultimately show ?thesis
    using r assms(2) remove_at_heap [OF r assms(1)] remove_at_mset [OF r]
    by (intro exI [of _ "hp_values h ! 0"] exI [of _ v]) (simp add: heap_pop_def)
qed

end

lemma sched_ok_update:
  assumes "sched_ok h" "heap_ok tick_precedes v" "length v \<le> hp_limit (sh_heap h)"
  shows "sched_ok (h\<lparr>sh_heap := (sh_heap h)\<lparr>hp_values := v\<rparr>\<rparr>)"
  using assms by (simp add: sched_ok_def)

text \<open>Both operations change only the array of the heap.\<close>

lemma sched_push_ok:
  assumes "sched_ok h" "length (sched_values h) < hp_limit (sh_heap h)"
  shows "\<exists>v. scheduled_push h t = Some (h\<lparr>sh_heap := (sh_heap h)\<lparr>hp_values := v\<rparr>\<rparr>) \<and> mset v = add_mset t (mset (sched_values h)) \<and>
    sched_ok (h\<lparr>sh_heap := (sh_heap h)\<lparr>hp_values := v\<rparr>\<rparr>)"
proof -
  have ok: "heap_ok tick_precedes (sched_values h)" using assms by (simp add: sched_ok_def)
  obtain v where v: "heap_push tick_precedes (sh_heap h) t = Some ((sh_heap h)\<lparr>hp_values := v\<rparr>)" "heap_ok tick_precedes v"
      "mset v = add_mset t (mset (sched_values h))"
    using tick_entry.push_laws [OF ok assms(2)] by blast
  have "length v = Suc (length (sched_values h))" using arg_cong [OF v(3), of size] by simp
  then show ?thesis using v sched_ok_update [OF assms(1) v(2)] assms(2) by (intro exI [of _ v]) (simp add: scheduled_push_def)
qed

lemma sched_pop_ok:
  assumes "sched_ok h" "sched_values h \<noteq> []"
  shows "\<exists>x v. scheduled_pop h = Some (Some x, h\<lparr>sh_heap := (sh_heap h)\<lparr>hp_values := v\<rparr>\<rparr>) \<and> scheduled_peek h = Some x \<and>
    sched_ok (h\<lparr>sh_heap := (sh_heap h)\<lparr>hp_values := v\<rparr>\<rparr>) \<and> mset (sched_values h) = add_mset x (mset v) \<and>
    (\<forall>y \<in> set (sched_values h). \<not> tick_precedes y x)"
proof -
  have ok: "heap_ok tick_precedes (sched_values h)" using assms by (simp add: sched_ok_def)
  obtain x v where v: "heap_pop tick_precedes (sh_heap h) = Some (Some x, (sh_heap h)\<lparr>hp_values := v\<rparr>)" "heap_peek (sh_heap h) = Some x"
      "heap_ok tick_precedes v" "mset (sched_values h) = add_mset x (mset v)" "\<forall>y \<in> set (sched_values h). \<not> tick_precedes y x"
    using tick_entry.pop_laws [OF ok assms(2)] by blast
  have "length v \<le> hp_limit (sh_heap h)" using arg_cong [OF v(4), of size] assms(1) by (simp add: sched_ok_def)
  then show ?thesis using v sched_ok_update [OF assms(1) v(3)]
    by (intro exI [of _ x] exI [of _ v]) (simp add: scheduled_pop_def scheduled_peek_def)
qed

text \<open>
  C36: the heap of scheduled ticks is a priority queue on the multiset of its entries. Below its
  limit a push admits the tick and keeps the heap well formed; a pop of a non-empty heap removes
  the entry \<open>peek\<close> shows, no entry of the heap precedes it, and the others stay.
\<close>

theorem scheduled_heap_priority_queue:
  assumes "sched_ok h"
  shows "(length (sched_values h) < hp_limit (sh_heap h) \<longrightarrow>
      (\<exists>h'. scheduled_push h t = Some h' \<and> sched_ok h' \<and> mset (sched_values h') = add_mset t (mset (sched_values h)))) \<and>
    (length (sched_values h) = hp_limit (sh_heap h) \<longrightarrow> scheduled_push h t = None) \<and>
    (if sched_values h = [] then scheduled_pop h = Some (None, h) \<and> scheduled_peek h = None
     else (\<exists>x h'. scheduled_pop h = Some (Some x, h') \<and> scheduled_peek h = Some x \<and> sched_ok h' \<and>
       mset (sched_values h) = add_mset x (mset (sched_values h')) \<and> (\<forall>y \<in> set (sched_values h). \<not> tick_precedes y x)))"
proof (intro conjI impI)
  show "\<exists>h'. scheduled_push h t = Some h' \<and> sched_ok h' \<and> mset (sched_values h') = add_mset t (mset (sched_values h))"
    if "length (sched_values h) < hp_limit (sh_heap h)" using sched_push_ok [OF assms that] by fastforce
  show "scheduled_push h t = None" if "length (sched_values h) = hp_limit (sh_heap h)"
    using that by (simp add: scheduled_push_def heap_push_def)
  show "if sched_values h = [] then scheduled_pop h = Some (None, h) \<and> scheduled_peek h = None
     else (\<exists>x h'. scheduled_pop h = Some (Some x, h') \<and> scheduled_peek h = Some x \<and> sched_ok h' \<and>
       mset (sched_values h) = add_mset x (mset (sched_values h')) \<and> (\<forall>y \<in> set (sched_values h). \<not> tick_precedes y x))"
  proof (cases "sched_values h = []")
    case True
    then show ?thesis by (simp add: scheduled_pop_def scheduled_peek_def heap_pop_def heap_peek_def)
  next
    case False
    then show ?thesis using sched_pop_ok [OF assms False] by fastforce
  qed
qed

definition sample_tick :: "nat \<Rightarrow> int \<Rightarrow> ScheduledTick" where
  "sample_tick n due = \<lparr>st_position = \<lparr>tp_x = int n, tp_y = 64, tp_z = 0\<rparr>, st_type_id = n, st_trigger_tick = due,
     st_priority = Normal, st_sub_tick_order = -1\<rparr>"

definition sample_values :: "ScheduledTick list" where
  "sample_values = map2 sample_tick [0..<7] [0, 5, 1, 6, 7, 2, 3]"

definition sample_heap :: ScheduledHeap where
  "sample_heap = \<lparr>sh_heap = \<lparr>hp_values = sample_values, hp_limit = 8, hp_capacity = 8\<rparr>,
     sh_revisits = \<lparr>rv_positions = [], rv_tickets = replicate 8 USIZE_MAX, rv_capacity = 8, rv_tickets_capacity = 8\<rparr>\<rparr>"

lemma heap_ok_upt: "heap_ok prec v \<longleftrightarrow> (\<forall>j \<in> set [1..<length v]. \<not> prec (v ! j) (v ! parent j))"
  by (auto simp: heap_ok_def)

lemma sample_heap_ok: "sched_ok sample_heap"
proof -
  have "\<forall>j \<in> set [1..<length sample_values]. \<not> tick_precedes (sample_values ! j) (sample_values ! parent j)" by code_simp
  then show ?thesis unfolding sched_ok_def heap_ok_upt
    by (simp add: sample_heap_def USIZE_MAX_def) (simp add: sample_values_def)
qed

theorem scheduled_heap_priority_queue_witness:
  "\<exists>h'. scheduled_push sample_heap (sample_tick 7 4) = Some h' \<and> sched_ok h'"
proof -
  have "length (sched_values sample_heap) < hp_limit (sh_heap sample_heap)" by (simp add: sample_heap_def sample_values_def)
  then show ?thesis using scheduled_heap_priority_queue [OF sample_heap_ok, of "sample_tick 7 4"] by blast
qed

lemma remove_if_ok:
  assumes "sched_ok h"
  shows "\<exists>n h' p' order kept. remove_if f h p = Some (n, h', p') \<and> sched_ok h' \<and>
    mset order = mset (sched_values h) \<and> pred_run f order p = (kept, p') \<and> mset (sched_values h') = mset kept \<and>
    n = length order - length kept \<and> rv_positions (sh_revisits h') = [] \<and>
    hp_limit (sh_heap h') = hp_limit (sh_heap h)"
proof -
  let ?v = "sched_values h" and ?r = "revisits_reset (sh_revisits h)"
  let ?N = "hp_limit (sh_heap h)"
  have ok: "heap_ok tick_precedes ?v" and lim: "length ?v \<le> ?N" "length (rv_tickets ?r) = ?N" "?N \<le> rv_capacity ?r" "?N \<le> USIZE_MAX"
    using assms by (auto simp: sched_ok_def revisits_reset_def)
  have "scan_inv ?N ?v ?r 0"
    using lim by (auto simp: scan_inv_def linked_def tail_idle_def revisits_reset_def)
  then have "scan_done tick_precedes f ?N ?v ?r 0 p" by (rule tick_entry.remove_scan_visits [OF _ ok])
  then obtain v1 r1 p1 o1 k1 where s: "remove_scan tick_precedes f ?v ?r 0 p = Some (v1, r1, p1)" "scan_inv ?N v1 r1 (length v1)"
      "heap_ok tick_precedes v1" "length (rv_tickets r1) = ?N" "rv_capacity r1 = rv_capacity ?r" "pred_run f o1 p = (k1, p1)"
      "mset ?v = mset o1 + deferred (pairs v1 r1)" "settled (pairs v1 r1) = mset k1"
    unfolding scan_done_def using lim(2) by (auto simp: pairs_def settled_def)
  have s2: "linked r1 {0..<length (rv_positions r1)}" "length (rv_positions r1) \<le> USIZE_MAX" "tail_idle (length v1) r1" "length v1 \<le> length (rv_tickets r1)"
    using s(2,4) lim(4) by (auto simp: scan_inv_def atLeast0LessThan)
  obtain v2 r2 p2 o2 k2 where d: "remove_deferred tick_precedes f [0..<length (rv_positions r1)] v1 r1 p1 = Some (v2, r2, p2)"
      "heap_ok tick_precedes v2" "same_frame r1 r2" "pred_run f o2 p1 = (k2, p2)" "mset o2 = deferred (pairs v1 r1)"
      "mset v2 = settled (pairs v1 r1) + mset k2"
    using tick_entry.remove_deferred_visits [OF s2(1) _ s2(2-4) s(3), of f p1] by auto
  let ?h' = "\<lparr>sh_heap = (sh_heap h)\<lparr>hp_values := v2\<rparr>, sh_revisits = revisits_reset r2\<rparr>"
  have res: "remove_if f h p = Some (length ?v - length v2, ?h', p2)" using s(1) d(1) by (simp add: remove_if_def Let_def)
  have run: "pred_run f (o1 @ o2) p = (k1 @ k2, p2)" by (rule pred_run_append [OF s(6) d(4)])
  have order: "mset (o1 @ o2) = mset ?v" using s(7) d(5) by simp
  have kept: "mset v2 = mset (k1 @ k2)" using s(8) d(6) by simp
  have "length v2 \<le> ?N"
  proof -
    have "length k1 \<le> length o1" "length k2 \<le> length o2" using pred_run_length s(6) d(4) by fastforce+
    then show ?thesis using mset_eq_length [OF kept] mset_eq_length [OF order] lim(1) by simp
  qed
  then have "sched_ok ?h'" using assms d(2,3) s(4,5) by (simp add: sched_ok_def same_frame_def revisits_reset_def)
  then show ?thesis using res run order kept mset_eq_length [OF kept] mset_eq_length [OF order]
    by - (rule exI [of _ "length ?v - length v2"], rule exI [of _ ?h'], rule exI [of _ p2], rule exI [of _ "o1 @ o2"],
      rule exI [of _ "k1 @ k2"], simp add: revisits_reset_def)
qed

text \<open>
  \<open>remove_if\<close> asks its predicate about every entry of the heap exactly once, in some order, and
  removes exactly those it accepts, although every removal repairs the heap and may move entries
  across the cursor. Run over that order, the stateful predicate ends in the state \<open>remove_if\<close>
  returns; the heap is well formed again and holds the kept entries; the count is the number of
  removed ones. No step panics.
\<close>

theorem remove_if_visits_once:
  assumes "sched_ok h"
  shows "\<exists>n h' p' order kept. remove_if f h p = Some (n, h', p') \<and> sched_ok h' \<and>
    mset order = mset (sched_values h) \<and> pred_run f order p = (kept, p') \<and> mset (sched_values h') = mset kept \<and>
    n = length order - length kept \<and> rv_positions (sh_revisits h') = []"
  using remove_if_ok [OF assms, of f p] by blast

theorem remove_if_visits_once_witness:
  "\<exists>n h' p' order kept. remove_if (\<lambda>t seen. (st_type_id t \<in> {3, 6}, seen @ [st_type_id t])) sample_heap [] = Some (n, h', p') \<and>
    sched_ok h' \<and> mset order = mset (sched_values sample_heap) \<and> mset (sched_values h') = mset kept \<and> n = length order - length kept"
  using remove_if_visits_once [OF sample_heap_ok, of "\<lambda>t seen. (st_type_id t \<in> {3, 6}, seen @ [st_type_id t])" "[]"] by blast

text \<open>
  Building the heap stays within its byte budget. On success the heap is empty and well formed
  and the budget falls by exactly the bytes the heap reports; on any error it is unchanged.
\<close>

theorem scheduled_new_budget:
  assumes "te_grants env"
  shows "case scheduled_new env n budget of
      (Inr h, left) \<Rightarrow> sched_ok h \<and> sched_values h = [] \<and> hp_limit (sh_heap h) = n \<and> left + scheduled_heap_bytes env h = budget
    | (Inl e, left) \<Rightarrow> left = budget"
proof -
  have small: "n \<le> USIZE_MAX" if "reserved_vec env USIZE_BYTES n b = (Inr c, l)" for b c l
    using that by (auto simp: reserved_vec_def usize_simps USIZE_BYTES_def USIZE_MAX_def split: option.splits if_splits)
  show ?thesis
  proof (cases "fst (scheduled_new env n budget)")
    case (Inl e)
    then show ?thesis by (cases "scheduled_new env n budget") (auto simp: scheduled_new_def split: prod.splits sum.splits)
  next
    case (Inr h)
    then obtain left where res: "scheduled_new env n budget = (Inr h, left)" by (cases "scheduled_new env n budget") simp
    then obtain c0 l0 c1 l1 c2 where c: "reserved_vec env (te_tick_size env) n budget = (Inr c0, l0)"
        "reserved_vec env USIZE_BYTES n l0 = (Inr c1, l1)" "reserved_vec env USIZE_BYTES n l1 = (Inr c2, left)"
        "h = \<lparr>sh_heap = \<lparr>hp_values = [], hp_limit = n, hp_capacity = c0\<rparr>,
          sh_revisits = \<lparr>rv_positions = [], rv_tickets = replicate n USIZE_MAX, rv_capacity = c1, rv_tickets_capacity = c2\<rparr>\<rparr>"
      by (auto simp: scheduled_new_def heap_new_def revisits_new_def result_simps split: prod.splits sum.splits)
    from small [OF c(2)] reserved_vec_Inr [OF assms c(1)] reserved_vec_Inr [OF assms c(2)] reserved_vec_Inr [OF assms c(3)]
    show ?thesis unfolding res c(4)
      by (auto simp: sched_ok_def heap_ok_def scheduled_heap_bytes_def algebra_simps)
  qed
qed

theorem scheduled_new_budget_witness:
  "\<exists>h. scheduled_new \<lparr>te_reserve = (\<lambda>width n. Some n), te_tick_size = 48, te_ready_size = 24, te_slot_size = 24\<rparr> 2 200 = (Inr h, 72) \<and> sched_ok h"
proof -
  let ?env = "\<lparr>te_reserve = (\<lambda>width n. Some n), te_tick_size = 48, te_ready_size = 24, te_slot_size = 24\<rparr>"
  have "te_grants ?env" by (simp add: te_grants_def)
  note budget = scheduled_new_budget [OF this, where n = 2 and budget = 200]
  have "\<exists>h. scheduled_new ?env 2 200 = (Inr h, 72)"
    by (simp add: scheduled_new_def heap_new_def revisits_new_def reserved_vec_def checked_mul_def USIZE_BYTES_def USIZE_MAX_def)
  then show ?thesis using budget by auto
qed

section \<open>Draining\<close>

fun heap_drain :: "('a \<Rightarrow> 'a \<Rightarrow> bool) \<Rightarrow> nat \<Rightarrow> 'a Heap \<Rightarrow> ('a list \<times> 'a Heap) option" where
  "heap_drain prec 0 h = Some ([], h)"
| "heap_drain prec (Suc n) h = (case heap_pop prec h of
      Some (Some x, h') \<Rightarrow> map_option (\<lambda>(xs, h''). (x # xs, h'')) (heap_drain prec n h')
    | _ \<Rightarrow> None)"

context heap_entry
begin

lemma drain_sorted:
  assumes "heap_ok prec (hp_values h)"
  shows "\<exists>xs h'. heap_drain prec (length (hp_values h)) h = Some (xs, h') \<and> hp_values h' = [] \<and> mset xs = mset (hp_values h) \<and>
    sorted_wrt (\<lambda>x y. \<not> prec y x) xs"
  using assms
proof (induction "length (hp_values h)" arbitrary: h)
  case 0
  then show ?case by (intro exI [of _ "[]"] exI [of _ h]) simp
next
  case (Suc n)
  then have "hp_values h \<noteq> []" by auto
  then obtain x v where v: "heap_pop prec h = Some (Some x, h\<lparr>hp_values := v\<rparr>)" "heap_ok prec v"
      "mset (hp_values h) = add_mset x (mset v)" "\<forall>y \<in> set (hp_values h). \<not> prec y x"
    using pop_laws [OF Suc(3)] by blast
  have n: "n = length (hp_values (h\<lparr>hp_values := v\<rparr>))" using arg_cong [OF v(3), of size] Suc(2) by simp
  then obtain xs h' where ih: "heap_drain prec n (h\<lparr>hp_values := v\<rparr>) = Some (xs, h')" "hp_values h' = []" "mset xs = mset v"
      "sorted_wrt (\<lambda>x y. \<not> prec y x) xs"
    using Suc(1) [OF n] v(2) by auto
  have "\<forall>y \<in> set xs. \<not> prec y x" using v(3,4) ih(3) by (metis insertCI set_mset_add_mset_insert set_mset_mset)
  then show ?case unfolding Suc(2) [symmetric] using v(1,3) ih
    by (intro exI [of _ "x # xs"] exI [of _ h']) simp
qed

end

text \<open>
  Popping a well-formed heap of ready chunks until it is empty returns every entry once, in the
  order of priority and then sub-order; likewise for scheduled ticks in their own order.
\<close>

theorem heaps_drain_in_order:
  "(heap_ok ready_precedes (hp_values h) \<longrightarrow>
     (\<exists>xs h'. heap_drain ready_precedes (length (hp_values h)) h = Some (xs, h') \<and> hp_values h' = [] \<and> mset xs = mset (hp_values h) \<and>
       sorted (map (\<lambda>c. (rc_priority c, rc_sub_order c)) xs))) \<and>
   (heap_ok tick_precedes (hp_values g) \<longrightarrow>
     (\<exists>xs g'. heap_drain tick_precedes (length (hp_values g)) g = Some (xs, g') \<and> hp_values g' = [] \<and> mset xs = mset (hp_values g) \<and>
       sorted (map (\<lambda>t. (st_trigger_tick t, st_priority t, st_sub_tick_order t)) xs)))"
proof -
  have ready: "(\<lambda>x y. \<not> ready_precedes y x) = (\<lambda>x y. (rc_priority x, rc_sub_order x) \<le> (rc_priority y, rc_sub_order y))"
    unfolding ready_precedes_def not_less ..
  have tick: "(\<lambda>x y. \<not> tick_precedes y x) =
      (\<lambda>x y. (st_trigger_tick x, st_priority x, st_sub_tick_order x) \<le> (st_trigger_tick y, st_priority y, st_sub_tick_order y))"
    unfolding tick_precedes_def not_less ..
  show ?thesis
    using ready_entry.drain_sorted [of h] tick_entry.drain_sorted [of g] unfolding sorted_map ready tick by blast
qed

theorem heaps_drain_in_order_witness:
  "\<exists>xs g'. heap_drain tick_precedes 7 (sh_heap sample_heap) = Some (xs, g') \<and> hp_values g' = [] \<and>
     sorted (map (\<lambda>t. (st_trigger_tick t, st_priority t, st_sub_tick_order t)) xs)"
proof -
  have "heap_ok tick_precedes (hp_values (sh_heap sample_heap))" using sample_heap_ok by (simp add: sched_ok_def)
  moreover have "length (hp_values (sh_heap sample_heap)) = 7" by (simp add: sample_heap_def sample_values_def)
  ultimately show ?thesis using heaps_drain_in_order [of undefined "sh_heap sample_heap"] by auto
qed

end
