(* ===== verification/Probing.thy ===== *)
theory Probing
  imports Prelude
begin

text \<open>
  Linear probing in a power-of-two table, shared by the tables of \<^verbatim>\<open>src/world/ticks.rs\<close>,
  \<^verbatim>\<open>src/world/ticks/remaining.rs\<close>, \<^verbatim>\<open>src/world/ticks/order_index.rs\<close> and
  \<^verbatim>\<open>src/world/lighting/queue.rs\<close>. A table is seen as a function from slots to the key stored there.
  The theory gives the invariant of such a table and shows that a probe finds a key or a free slot
  for it, that filling this slot keeps the invariant, and that both ways of deleting in the source,
  backward shifting and reinsertion of the following cluster, keep it too.
\<close>

section \<open>Slots\<close>

text \<open>The source masks with \<open>len - 1\<close>; on a power of two that is the remainder.\<close>

definition wrap_index :: "nat \<Rightarrow> nat \<Rightarrow> nat" where
  "wrap_index n x = x AND (n - 1)"

definition next_index :: "nat \<Rightarrow> nat \<Rightarrow> nat" where
  "next_index n i = wrap_index n (i + 1)"

definition power_of_two :: "nat \<Rightarrow> bool" where
  "power_of_two n \<longleftrightarrow> (\<exists>m. n = 2 ^ m)"

lemma wrap_index_mod: "power_of_two n \<Longrightarrow> wrap_index n x = x mod n"
  unfolding power_of_two_def wrap_index_def by (metis take_bit_eq_mask take_bit_eq_mod mask_eq_exp_minus_1)

lemma power_of_two_pos: "power_of_two n \<Longrightarrow> 0 < n"
  by (auto simp: power_of_two_def)

lemma wrap_index_less [simp]: "power_of_two n \<Longrightarrow> wrap_index n x < n"
  by (simp add: wrap_index_mod power_of_two_pos)

text \<open>The number of steps from one slot to another.\<close>

definition cdist :: "nat \<Rightarrow> nat \<Rightarrow> nat \<Rightarrow> nat" where
  "cdist n a b = (if a \<le> b then b - a else b + n - a)"

lemma cdist_less: "a < n \<Longrightarrow> b < n \<Longrightarrow> cdist n a b < n"
  by (auto simp: cdist_def)

lemma cdist_self [simp]: "cdist n a a = 0"
  by (simp add: cdist_def)

lemma cdist_0_iff: "a < n \<Longrightarrow> b < n \<Longrightarrow> cdist n a b = 0 \<longleftrightarrow> a = b"
  by (auto simp: cdist_def)

lemma cdist_inject: "a < n \<Longrightarrow> b < n \<Longrightarrow> c < n \<Longrightarrow> cdist n a b = cdist n a c \<longleftrightarrow> b = c"
  by (auto simp: cdist_def)

lemma next_index_eq: "power_of_two n \<Longrightarrow> i < n \<Longrightarrow> next_index n i = (if i + 1 = n then 0 else i + 1)"
  by (auto simp: next_index_def wrap_index_mod)

lemma next_index_less [simp]: "power_of_two n \<Longrightarrow> next_index n i < n"
  by (simp add: next_index_def)

text \<open>The masked wrapping subtraction of the source.\<close>

lemma wrapping_distance:
  assumes "power_of_two n" "n \<le> 2 ^ 64" "a < n" "b < n"
  shows "wrap_index n ((b + 2 ^ 64 - a) mod 2 ^ 64) = cdist n a b"
proof -
  obtain m where m: "n = 2 ^ m" using assms(1) by (auto simp: power_of_two_def)
  have "m \<le> 64" by (rule power_le_imp_le_exp [of "2 :: nat"]) (use assms(2) m in simp_all)
  then have d: "n dvd 2 ^ 64" unfolding m by (rule le_imp_power_dvd)
  then obtain q where q: "(2 :: nat) ^ 64 = n * q" by blast
  have "((b + 2 ^ 64 - a) mod 2 ^ 64) mod n = (b + 2 ^ 64 - a) mod n" using d by (rule mod_mod_cancel)
  also have "\<dots> = cdist n a b"
  proof (cases "a \<le> b")
    case True
    then have *: "b + 2 ^ 64 - a = (b - a) + n * q" unfolding q by linarith
    have "b - a < n" using assms(4) by linarith
    then show ?thesis unfolding * mod_mult_self2 using True by (simp add: cdist_def)
  next
    case False
    have "0 < q" using q by (cases q) simp_all
    then obtain q' where "q = Suc q'" by (cases q) simp_all
    then have *: "b + 2 ^ 64 - a = (b + n - a) + n * q'" unfolding q using False assms(3) by simp
    have "b + n - a < n" using False assms(3) by linarith
    then show ?thesis unfolding * mod_mult_self2 using False by (simp add: cdist_def)
  qed
  finally show ?thesis using assms(1) by (simp add: wrap_index_mod)
qed

lemma cdist_next:
  assumes "power_of_two n" "a < n" "b < n" "next_index n b \<noteq> a"
  shows "cdist n a (next_index n b) = Suc (cdist n a b)"
  using assms(2-4) next_index_eq [OF assms(1,3)] by (auto simp: cdist_def split: if_splits)

lemma cdist_from_next:
  assumes "power_of_two n" "a < n" "b < n" "a \<noteq> b"
  shows "Suc (cdist n (next_index n a) b) = cdist n a b"
  using assms(2-4) next_index_eq [OF assms(1,2)] by (auto simp: cdist_def split: if_splits)

section \<open>Tables\<close>

type_synonym 'k table = "nat \<Rightarrow> 'k option"

definition reachable_table :: "nat \<Rightarrow> ('k \<Rightarrow> nat) \<Rightarrow> 'k table \<Rightarrow> bool" where
  "reachable_table n home T \<longleftrightarrow>
    (\<forall>i k q. i < n \<and> T i = Some k \<and> q < n \<and> cdist n (home k) q < cdist n (home k) i \<longrightarrow> T q \<noteq> None)"

definition table_ok :: "nat \<Rightarrow> ('k \<Rightarrow> nat) \<Rightarrow> 'k table \<Rightarrow> bool" where
  "table_ok n home T \<longleftrightarrow> reachable_table n home T \<and>
    (\<forall>i j k. i < n \<and> j < n \<and> T i = Some k \<and> T j = Some k \<longrightarrow> i = j) \<and> (\<exists>e < n. T e = None)"

definition table_keys :: "nat \<Rightarrow> 'k table \<Rightarrow> 'k set" where
  "table_keys n T = {k. \<exists>i < n. T i = Some k}"

text \<open>
  The probe loop. The lookup of a slot is \<open>None\<close> where the source would panic; \<open>Inr\<close> is a slot that
  holds the key, \<open>Inl\<close> the free slot where the probe stopped. A loop that has not stopped after one
  round of the table never stops: that is the outer \<open>None\<close> too.
\<close>

fun probe :: "nat \<Rightarrow> nat \<Rightarrow> (nat \<Rightarrow> 'k option option) \<Rightarrow> 'k \<Rightarrow> nat \<Rightarrow> (nat + nat) option" where
  "probe 0 n lookup k i = None"
| "probe (Suc fuel) n lookup k i =
    (case lookup i of
       None \<Rightarrow> None
     | Some None \<Rightarrow> Some (Inl i)
     | Some (Some x) \<Rightarrow> if x = k then Some (Inr i) else probe fuel n lookup k (next_index n i))"

lemma probe_steps:
  assumes n: "power_of_two n" and lk: "\<And>i. i < n \<Longrightarrow> lookup i = Some (T i)"
    and a: "a < n" "i < n" and e: "e < n" "T e = None" "cdist n i e < fuel"
    and before: "\<forall>q < n. cdist n a q < cdist n a i \<longrightarrow> T q \<noteq> None \<and> T q \<noteq> Some k" "cdist n a i + cdist n i e = cdist n a e"
  shows "\<exists>s < n. cdist n a s \<le> cdist n a e \<and> (\<forall>q < n. cdist n a q < cdist n a s \<longrightarrow> T q \<noteq> None \<and> T q \<noteq> Some k) \<and>
    (probe fuel n lookup k i = Some (Inl s) \<and> T s = None \<or> probe fuel n lookup k i = Some (Inr s) \<and> T s = Some k)"
  using a(2) e(3) before
proof (induction fuel arbitrary: i)
  case (Suc fuel)
  have le: "cdist n a i \<le> cdist n a e" using Suc.prems(4) by simp
  show ?case
  proof (cases "T i = None \<or> T i = Some k")
    case True
    then show ?thesis using Suc.prems lk le by (intro exI [of _ i]) auto
  next
    case False
    then obtain x where x: "T i = Some x" "x \<noteq> k" by auto
    then have ie: "i \<noteq> e" using e by auto
    let ?j = "next_index n i"
    have j: "?j < n" using n by simp
    have step: "Suc (cdist n ?j e) = cdist n i e" by (rule cdist_from_next [OF n Suc.prems(1) e(1) ie])
    have ja: "?j \<noteq> a"
    proof
      assume "?j = a"
      then have "cdist n i e = Suc (cdist n a e)" using step by simp
      then show False using Suc.prems(4) by simp
    qed
    then have aj: "cdist n a ?j = Suc (cdist n a i)" by (rule cdist_next [OF n a(1) Suc.prems(1)])
    have "\<forall>q < n. cdist n a q < cdist n a ?j \<longrightarrow> T q \<noteq> None \<and> T q \<noteq> Some k"
      using Suc.prems(1,3) x cdist_inject [of a n _ i] a(1) aj by (metis less_SucE option.inject option.simps(3))
    moreover have "probe (Suc fuel) n lookup k i = probe fuel n lookup k ?j" using lk [OF Suc.prems(1)] x by simp
    ultimately show ?thesis using Suc.IH [OF j] Suc.prems(2,4) step aj by simp
  qed
qed simp

lemma probe_stops:
  assumes n: "power_of_two n" and lk: "\<And>i. i < n \<Longrightarrow> lookup i = Some (T i)" and a: "a < n" and e: "e < n" "T e = None"
    and new: "k \<notin> table_keys n T"
  shows "\<exists>s < n. probe n n lookup k a = Some (Inl s) \<and> T s = None \<and> (\<forall>q < n. cdist n a q < cdist n a s \<longrightarrow> T q \<noteq> None)"
  using probe_steps [where lookup = lookup and T = T and k = k, OF n lk a a e cdist_less [OF a e(1)]] new
  by (fastforce simp: table_keys_def)

text \<open>
  A probe from the home slot of a key stops. It finds the key exactly when the table holds it; if
  not, it stops at a free slot that every earlier slot of the path precedes.
\<close>

lemma probe_home:
  assumes n: "power_of_two n" and lk: "\<And>i. i < n \<Longrightarrow> lookup i = Some (T i)" and ok: "table_ok n home T" and home: "home k < n"
  shows "(k \<in> table_keys n T \<longrightarrow> (\<exists>s < n. probe n n lookup k (home k) = Some (Inr s) \<and> T s = Some k)) \<and>
    (k \<notin> table_keys n T \<longrightarrow> (\<exists>s < n. probe n n lookup k (home k) = Some (Inl s) \<and> T s = None \<and>
      (\<forall>q < n. cdist n (home k) q < cdist n (home k) s \<longrightarrow> T q \<noteq> None)))"
proof -
  obtain e where e: "e < n" "T e = None" using ok by (auto simp: table_ok_def)
  obtain s where s: "s < n" "\<forall>q < n. cdist n (home k) q < cdist n (home k) s \<longrightarrow> T q \<noteq> None \<and> T q \<noteq> Some k"
      "probe n n lookup k (home k) = Some (Inl s) \<and> T s = None \<or> probe n n lookup k (home k) = Some (Inr s) \<and> T s = Some k"
    using probe_steps [where lookup = lookup and T = T and k = k, OF n lk home home e cdist_less [OF home e(1)]] by auto
  have "T s = Some k" if "k \<in> table_keys n T"
  proof -
    obtain i where i: "i < n" "T i = Some k" using \<open>k \<in> table_keys n T\<close> by (auto simp: table_keys_def)
    have "\<not> cdist n (home k) s < cdist n (home k) i" if "T s = None"
      using ok i s(1) that unfolding table_ok_def reachable_table_def by blast
    moreover have "\<not> cdist n (home k) i < cdist n (home k) s" using s(2) i by blast
    ultimately show ?thesis using s(1,3) i cdist_inject [OF home s(1) i(1)] by force
  qed
  then show ?thesis using s unfolding table_keys_def by (metis (mono_tags, lifting) mem_Collect_eq option.simps(3))
qed

lemma fill_table_ok:
  assumes ok: "table_ok n home T" and s: "s < n" "T s = None" "k \<notin> table_keys n T"
    and path: "\<forall>q < n. cdist n (home k) q < cdist n (home k) s \<longrightarrow> T q \<noteq> None" and room: "\<exists>e < n. e \<noteq> s \<and> T e = None"
  shows "table_ok n home (T(s \<mapsto> k)) \<and> table_keys n (T(s \<mapsto> k)) = insert k (table_keys n T)"
proof -
  have "reachable_table n home (T(s \<mapsto> k))"
    using ok path by (auto simp: table_ok_def reachable_table_def split: if_splits)
  moreover have "\<forall>i j x. i < n \<and> j < n \<and> (T(s \<mapsto> k)) i = Some x \<and> (T(s \<mapsto> k)) j = Some x \<longrightarrow> i = j"
    using ok s(3) by (auto simp: table_ok_def table_keys_def)
  moreover have "\<exists>e < n. (T(s \<mapsto> k)) e = None" using room by auto
  ultimately have "table_ok n home (T(s \<mapsto> k))" unfolding table_ok_def by blast
  moreover have "table_keys n (T(s \<mapsto> k)) = insert k (table_keys n T)"
  proof (intro equalityI subsetI)
    fix x assume "x \<in> insert k (table_keys n T)"
    then consider "x = k" | i where "i < n" "T i = Some x" by (auto simp: table_keys_def)
    then have "\<exists>i < n. (T(s \<mapsto> k)) i = Some x"
    proof cases
      case 1
      then show ?thesis using s by (intro exI [of _ s]) simp
    next
      case 2
      then show ?thesis using s by (intro exI [of _ i]) auto
    qed
    then show "x \<in> table_keys n (T(s \<mapsto> k))" unfolding table_keys_def by blast
  qed (use s in \<open>auto simp: table_keys_def split: if_splits\<close>)
  ultimately show ?thesis by blast
qed

section \<open>Deletion by backward shifting\<close>

text \<open>
  While the hole is moved through the cluster, an entry whose path crosses the hole lies at or
  after the slot being looked at; every slot between the hole and that slot is taken.
\<close>

definition shift_inv :: "nat \<Rightarrow> ('k \<Rightarrow> nat) \<Rightarrow> 'k table \<Rightarrow> nat \<Rightarrow> nat \<Rightarrow> bool" where
  "shift_inv n home T hole s \<longleftrightarrow> hole < n \<and> s < n \<and> T hole = None \<and> hole \<noteq> s \<and>
    (\<forall>i k q. i < n \<and> T i = Some k \<and> q < n \<and> cdist n (home k) q < cdist n (home k) i \<longrightarrow>
       T q \<noteq> None \<or> q = hole \<and> cdist n hole s \<le> cdist n hole i) \<and>
    (\<forall>i j k. i < n \<and> j < n \<and> T i = Some k \<and> T j = Some k \<longrightarrow> i = j)"

lemma path_between:
  assumes "a < n" "q < n" "i < n" "s < n" "cdist n a q < cdist n a i" "cdist n q s < cdist n q i"
  shows "cdist n a s < cdist n a i"
  using assms by (auto simp: cdist_def split: if_splits)

lemma shift_end:
  assumes home: "\<And>k. home k < n" and inv: "shift_inv n home T hole s" and free: "T s = None"
  shows "table_ok n home T"
proof -
  have "T q \<noteq> None" if i: "i < n" "T i = Some k" "q < n" "cdist n (home k) q < cdist n (home k) i" for i k q
  proof
    assume "T q = None"
    then have q: "q = hole" "cdist n hole s \<le> cdist n hole i" using inv i unfolding shift_inv_def by blast+
    have s: "s < n" "s \<noteq> hole" "i \<noteq> s" using inv free i by (auto simp: shift_inv_def)
    then have "cdist n hole s < cdist n hole i" using q i inv cdist_inject [of hole n s i] by (auto simp: shift_inv_def le_less)
    then have "cdist n (home k) s < cdist n (home k) i" using path_between [OF home [of k] i(3,1) s(1) i(4)] q by simp
    then have "T s \<noteq> None \<or> s = hole" using inv i s unfolding shift_inv_def by blast
    then show False using free s by blast
  qed
  then show ?thesis using inv unfolding table_ok_def reachable_table_def shift_inv_def by blast
qed

lemma shift_keep:
  assumes n: "power_of_two n" and inv: "shift_inv n home T hole s" and k: "T s = Some k"
    and stay: "\<not> cdist n (home k) hole < cdist n (home k) s" and more: "next_index n s \<noteq> hole"
  shows "shift_inv n home T hole (next_index n s)"
proof -
  have b: "hole < n" "s < n" "hole \<noteq> s" using inv by (auto simp: shift_inv_def)
  have d: "cdist n hole (next_index n s) = Suc (cdist n hole s)" by (rule cdist_next [OF n b(1,2) more])
  have "T q \<noteq> None \<or> q = hole \<and> cdist n hole (next_index n s) \<le> cdist n hole i"
    if i: "i < n" "T i = Some x" "q < n" "cdist n (home x) q < cdist n (home x) i" for i x q
  proof -
    have "T q \<noteq> None \<or> q = hole \<and> cdist n hole s \<le> cdist n hole i" using inv i unfolding shift_inv_def by blast
    moreover have "i \<noteq> s" if "q = hole" using stay k i that by auto
    ultimately show ?thesis using d cdist_inject [OF b(1,2) i(1)] by (auto simp: le_less Suc_le_eq)
  qed
  then show ?thesis using inv more n unfolding shift_inv_def by auto
qed

lemma shift_move:
  assumes n: "power_of_two n" "1 < n" and home: "\<And>k. home k < n" and inv: "shift_inv n home T hole s" and k: "T s = Some k"
    and move: "cdist n (home k) hole < cdist n (home k) s"
  shows "shift_inv n home (T(hole \<mapsto> k, s := None)) s (next_index n s) \<and>
    table_keys n (T(hole \<mapsto> k, s := None)) = table_keys n T"
proof -
  let ?T = "T(hole \<mapsto> k, s := None)"
  have b: "hole < n" "s < n" "hole \<noteq> s" "T hole = None" using inv by (auto simp: shift_inv_def)
  have ns: "next_index n s \<noteq> s" using next_index_eq [OF n(1) b(2)] n(2) by auto
  have one: "cdist n s (next_index n s) = 1" using cdist_next [OF n(1) b(2,2) ns] by simp
  have uniq: "i = j" if "i < n" "j < n" "T i = Some x" "T j = Some x" for i j x using inv that unfolding shift_inv_def by blast
  have "?T q \<noteq> None \<or> q = s \<and> cdist n s (next_index n s) \<le> cdist n s i"
    if i: "i < n" "?T i = Some x" "q < n" "cdist n (home x) q < cdist n (home x) i" for i x q
  proof -
    have "i \<noteq> s" using i(2) by auto
    then have far: "1 \<le> cdist n s i" using cdist_0_iff [OF b(2) i(1)] by (simp add: Suc_le_eq)
    show ?thesis
    proof (cases "i = hole")
      case True
      then have x: "x = k" using i(2) b by simp
      have "cdist n (home k) q < cdist n (home k) s" using i(4) True x move by simp
      then have "T q \<noteq> None \<or> q = hole" using inv b k i(3) unfolding shift_inv_def by blast
      moreover have "q \<noteq> hole" using i(4) True x by auto
      ultimately show ?thesis using far one by auto
    next
      case False
      then have "T i = Some x" using i(2) \<open>i \<noteq> s\<close> by simp
      then have "T q \<noteq> None \<or> q = hole" using inv i unfolding shift_inv_def by blast
      then show ?thesis using far one by auto
    qed
  qed
  moreover have "i = j" if "i < n" "j < n" "?T i = Some x" "?T j = Some x" for i j x
    using that uniq [of i s x] uniq [of j s x] uniq [of i j x] k b by (auto split: if_splits)
  moreover have "?T s = None" "next_index n s < n" using n by simp_all
  ultimately have "shift_inv n home ?T s (next_index n s)"
    unfolding shift_inv_def using b(2) ns by metis
  moreover have "table_keys n ?T = table_keys n T"
  proof (intro equalityI subsetI)
    fix x assume "x \<in> table_keys n ?T"
    then obtain i where "i < n" "?T i = Some x" by (auto simp: table_keys_def)
    then show "x \<in> table_keys n T" using b k by (auto simp: table_keys_def split: if_splits)
  next
    fix x assume "x \<in> table_keys n T"
    then obtain i where "i < n" "T i = Some x" by (auto simp: table_keys_def)
    then have "?T (if i = s then hole else i) = Some x" "(if i = s then hole else i) < n" using b k by auto
    then show "x \<in> table_keys n ?T" unfolding table_keys_def by blast
  qed
  ultimately show ?thesis by blast
qed

lemma shift_start:
  assumes n: "power_of_two n" "1 < n" and ok: "table_ok n home T" and h: "h < n" "T h = Some k"
  shows "shift_inv n home (T(h := None)) h (next_index n h) \<and> table_keys n (T(h := None)) = table_keys n T - {k}"
proof -
  have nh: "next_index n h \<noteq> h" using next_index_eq [OF n(1) h(1)] n(2) by auto
  have one: "cdist n h (next_index n h) = 1" using cdist_next [OF n(1) h(1,1) nh] by simp
  have far: "1 \<le> cdist n h i" if "i < n" "i \<noteq> h" for i using cdist_0_iff [OF h(1) that(1)] that(2) by (simp add: Suc_le_eq)
  have reach: "T q \<noteq> None" if "i < n" "T i = Some x" "q < n" "cdist n (home x) q < cdist n (home x) i" for i x q
    using ok that unfolding table_ok_def reachable_table_def by blast
  have uniq: "i = j" if "i < n" "j < n" "T i = Some x" "T j = Some x" for i j x using ok that unfolding table_ok_def by blast
  have "shift_inv n home (T(h := None)) h (next_index n h)"
    unfolding shift_inv_def one
  proof (intro conjI allI impI)
    fix i x q assume *: "i < n \<and> (T(h := None)) i = Some x \<and> q < n \<and> cdist n (home x) q < cdist n (home x) i"
    then show "(T(h := None)) q \<noteq> None \<or> q = h \<and> 1 \<le> cdist n h i" using reach [of i x q] far [of i] by (auto split: if_splits)
  next
    fix i j x assume "i < n \<and> j < n \<and> (T(h := None)) i = Some x \<and> (T(h := None)) j = Some x"
    then show "i = j" using uniq by (auto split: if_splits)
  qed (use h n nh in auto)
  moreover have "table_keys n (T(h := None)) = table_keys n T - {k}"
  proof (intro equalityI subsetI)
    fix x assume "x \<in> table_keys n (T(h := None))"
    then obtain i where i: "i < n" "i \<noteq> h" "T i = Some x" by (auto simp: table_keys_def split: if_splits)
    then show "x \<in> table_keys n T - {k}" using uniq [of i h k] h by (auto simp: table_keys_def)
  next
    fix x assume "x \<in> table_keys n T - {k}"
    then obtain i where "i < n" "T i = Some x" "x \<noteq> k" by (auto simp: table_keys_def)
    then have "i < n" "(T(h := None)) i = Some x" using h by auto
    then show "x \<in> table_keys n (T(h := None))" unfolding table_keys_def by blast
  qed
  ultimately show ?thesis by blast
qed

text \<open>The same with a free slot \<open>e\<close> ahead, at which the loop will stop.\<close>

definition shifting :: "nat \<Rightarrow> ('k \<Rightarrow> nat) \<Rightarrow> 'k table \<Rightarrow> nat \<Rightarrow> nat \<Rightarrow> nat \<Rightarrow> bool" where
  "shifting n home T hole s e \<longleftrightarrow> shift_inv n home T hole s \<and> e < n \<and> T e = None \<and> e \<noteq> hole \<and>
    cdist n hole s + cdist n s e = cdist n hole e"

lemma shifting_start:
  assumes n: "power_of_two n" "1 < n" and ok: "table_ok n home T" and h: "h < n" "T h = Some k"
  shows "\<exists>e. shifting n home (T(h := None)) h (next_index n h) e"
proof -
  obtain e where e: "e < n" "T e = None" using ok by (auto simp: table_ok_def)
  then have ne: "h \<noteq> e" using h by auto
  have nh: "next_index n h \<noteq> h" using next_index_eq [OF n(1) h(1)] n(2) by auto
  have "cdist n h (next_index n h) = 1" using cdist_next [OF n(1) h(1,1) nh] by simp
  then have "cdist n h (next_index n h) + cdist n (next_index n h) e = cdist n h e"
    using cdist_from_next [OF n(1) h(1) e(1) ne] by simp
  then show ?thesis using shift_start [OF n ok h] e ne unfolding shifting_def by (intro exI [of _ e]) simp
qed

lemma shifting_next:
  assumes n: "power_of_two n" and sh: "shifting n home T hole s e" and k: "T s = Some k"
  shows "Suc (cdist n (next_index n s) e) = cdist n s e" "next_index n s \<noteq> hole" "s \<noteq> e" "cdist n s e < n"
proof -
  have b: "hole < n" "s < n" "e < n" "e \<noteq> hole" "cdist n hole s + cdist n s e = cdist n hole e"
    using sh by (auto simp: shifting_def shift_inv_def)
  show se: "s \<noteq> e" using sh k by (auto simp: shifting_def)
  show step: "Suc (cdist n (next_index n s) e) = cdist n s e" by (rule cdist_from_next [OF n b(2,3) se])
  show "next_index n s \<noteq> hole"
  proof
    assume "next_index n s = hole"
    then have "cdist n s e = Suc (cdist n hole e)" using step by simp
    then show False using b(5) by simp
  qed
  show "cdist n s e < n" by (rule cdist_less [OF b(2,3)])
qed

lemma shifting_keep:
  assumes n: "power_of_two n" and sh: "shifting n home T hole s e" and k: "T s = Some k"
    and stay: "\<not> cdist n (home k) hole < cdist n (home k) s"
  shows "shifting n home T hole (next_index n s) e"
proof -
  note nx = shifting_next [OF n sh k]
  have b: "hole < n" "s < n" using sh by (auto simp: shifting_def shift_inv_def)
  have inv: "shift_inv n home T hole s" using sh by (simp add: shifting_def)
  have "shift_inv n home T hole (next_index n s)" by (rule shift_keep [OF n inv k stay nx(2)])
  then show ?thesis using sh nx cdist_next [OF n b nx(2)] by (simp add: shifting_def)
qed

lemma shifting_move:
  assumes n: "power_of_two n" "1 < n" and home: "\<And>k. home k < n" and sh: "shifting n home T hole s e" and k: "T s = Some k"
    and move: "cdist n (home k) hole < cdist n (home k) s"
  shows "shifting n home (T(hole \<mapsto> k, s := None)) s (next_index n s) e \<and> table_keys n (T(hole \<mapsto> k, s := None)) = table_keys n T"
proof -
  note nx = shifting_next [OF n(1) sh k]
  have inv: "shift_inv n home T hole s" and b: "s < n" "e \<noteq> hole" "e < n" "T e = None" using sh by (auto simp: shifting_def shift_inv_def)
  have ns: "next_index n s \<noteq> s" using next_index_eq [OF n(1) b(1)] n(2) by auto
  have one: "cdist n s (next_index n s) = 1" using cdist_next [OF n(1) b(1,1) ns] by simp
  show ?thesis using shift_move [OF n home inv k move] b nx one by (simp add: shifting_def)
qed

lemma shifting_end:
  "(\<And>k. home k < n) \<Longrightarrow> shifting n home T hole s e \<Longrightarrow> T s = None \<Longrightarrow> table_ok n home T"
  unfolding shifting_def using shift_end by blast

section \<open>Deletion by reinsertion of the cluster\<close>

text \<open>
  The slots from the deleted one \<open>h\<close> up to the one being looked at, \<open>s\<close>, have been emptied and
  refilled; a path may cross a free one of them only if its entry still lies at or after \<open>s\<close>.
\<close>

definition cluster_inv :: "nat \<Rightarrow> ('k \<Rightarrow> nat) \<Rightarrow> 'k table \<Rightarrow> nat \<Rightarrow> nat \<Rightarrow> bool" where
  "cluster_inv n home T h s \<longleftrightarrow> h < n \<and> s < n \<and> h \<noteq> s \<and>
    (\<forall>i k q. i < n \<and> T i = Some k \<and> q < n \<and> cdist n (home k) q < cdist n (home k) i \<longrightarrow>
       T q \<noteq> None \<or> cdist n h q < cdist n h s \<and> cdist n h s \<le> cdist n h i) \<and>
    (\<forall>i j k. i < n \<and> j < n \<and> T i = Some k \<and> T j = Some k \<longrightarrow> i = j) \<and>
    (\<exists>e < n. T e = None \<and> cdist n h s \<le> cdist n h e)"

lemma between_wraps:
  assumes "a < n" "q < n" "i < n" "s < n" "h < n" "cdist n a q < cdist n a i" "cdist n h q < cdist n h s" "cdist n h s \<le> cdist n h i" "i \<noteq> s"
  shows "cdist n a s < cdist n a i"
  using assms by (auto simp: cdist_def split: if_splits)

lemma cluster_end:
  assumes home: "\<And>k. home k < n" and inv: "cluster_inv n home T h s" and free: "T s = None"
  shows "table_ok n home T"
proof -
  have b: "h < n" "s < n" using inv by (auto simp: cluster_inv_def)
  have "T q \<noteq> None" if i: "i < n" "T i = Some k" "q < n" "cdist n (home k) q < cdist n (home k) i" for i k q
  proof
    assume "T q = None"
    then have q: "cdist n h q < cdist n h s" "cdist n h s \<le> cdist n h i" using inv i unfolding cluster_inv_def by blast+
    have "i \<noteq> s" using free i by auto
    then have "cdist n (home k) s < cdist n (home k) i" using between_wraps [OF home [of k] i(3,1) b(2,1) i(4) q] by blast
    then have "T s \<noteq> None \<or> cdist n h s < cdist n h s" using inv i b unfolding cluster_inv_def by blast
    then show False using free by simp
  qed
  then show ?thesis using inv unfolding table_ok_def reachable_table_def cluster_inv_def by blast
qed

lemma cluster_start:
  assumes n: "power_of_two n" "1 < n" and ok: "table_ok n home T" and h: "h < n" "T h = Some k"
  shows "cluster_inv n home (T(h := None)) h (next_index n h)"
proof -
  have nh: "next_index n h \<noteq> h" using next_index_eq [OF n(1) h(1)] n(2) by auto
  have one: "cdist n h (next_index n h) = 1" using cdist_next [OF n(1) h(1,1) nh] by simp
  have far: "1 \<le> cdist n h i" if "i < n" "i \<noteq> h" for i using cdist_0_iff [OF h(1) that(1)] that(2) by (simp add: Suc_le_eq)
  have s: "shift_inv n home (T(h := None)) h (next_index n h)" using shift_start [OF n ok h] by blast
  obtain e where e: "e < n" "T e = None" using ok by (auto simp: table_ok_def)
  then have "e \<noteq> h" using h by auto
  then have "\<exists>e < n. (T(h := None)) e = None \<and> 1 \<le> cdist n h e" using e far by auto
  moreover have "(T(h := None)) q \<noteq> None \<or> cdist n h q < 1 \<and> 1 \<le> cdist n h i"
    if "i < n" "(T(h := None)) i = Some x" "q < n" "cdist n (home x) q < cdist n (home x) i" for i x q
  proof -
    have "(T(h := None)) q \<noteq> None \<or> q = h" using s that unfolding shift_inv_def by blast
    then show ?thesis using far [OF that(1)] that(2) by (auto split: if_splits)
  qed
  ultimately show ?thesis using s unfolding cluster_inv_def shift_inv_def one by blast
qed

text \<open>One round: the entry at \<open>s\<close> is taken out and put into the first free slot \<open>f\<close> of its path.\<close>

lemma cluster_step:
  assumes n: "power_of_two n" and home: "\<And>k. home k < n" and inv: "cluster_inv n home T h s" and k: "T s = Some k"
    and f: "f < n" "(T(s := None)) f = None"
    and first: "\<forall>q < n. cdist n (home k) q < cdist n (home k) f \<longrightarrow> (T(s := None)) q \<noteq> None"
  shows "cluster_inv n home (T(s := None, f \<mapsto> k)) h (next_index n s)"
proof -
  let ?S = "T(s := None)" and ?T = "T(s := None, f \<mapsto> k)"
  have b: "h < n" "s < n" "h \<noteq> s" using inv by (auto simp: cluster_inv_def)
  have path: "T q \<noteq> None \<or> cdist n h q < cdist n h s \<and> cdist n h s \<le> cdist n h i"
    if "i < n" "T i = Some x" "q < n" "cdist n (home x) q < cdist n (home x) i" for i x q using inv that unfolding cluster_inv_def by blast
  have uniq: "i = j" if "i < n" "j < n" "T i = Some x" "T j = Some x" for i j x using inv that unfolding cluster_inv_def by blast
  obtain e where e: "e < n" "T e = None" "cdist n h s \<le> cdist n h e" using inv by (auto simp: cluster_inv_def)
  have es: "cdist n h s < cdist n h e" using e k cdist_inject [OF b(1,2) e(1)] by (auto simp: le_less)
  have more: "next_index n s \<noteq> h"
  proof
    assume "next_index n s = h"
    then have "cdist n h s = n - 1" using next_index_eq [OF n b(2)] b by (auto simp: cdist_def split: if_splits)
    then show False using es cdist_less [OF b(1) e(1)] by linarith
  qed
  have d: "cdist n h (next_index n s) = Suc (cdist n h s)" by (rule cdist_next [OF n b(1,2) more])
  have fs: "cdist n (home k) f \<le> cdist n (home k) s" using first b(2) by (metis fun_upd_same linorder_not_le)
  have fe: "f \<noteq> e"
  proof
    assume "f = e"
    then have "cdist n (home k) e < cdist n (home k) s" using fs e k cdist_inject [OF home [of k] e(1) b(2)] by (auto simp: le_less)
    then show False using path [OF b(2) k e(1)] e by simp
  qed
  have main: "?T q \<noteq> None \<or> cdist n h q < Suc (cdist n h s) \<and> Suc (cdist n h s) \<le> cdist n h i"
    if i: "i < n" "?T i = Some x" "q < n" "cdist n (home x) q < cdist n (home x) i" for i x q
  proof (cases "i = f")
    case True
    then have "x = k" using i(2) by simp
    then show ?thesis using first i True by auto
  next
    case False
    then have ix: "i \<noteq> s" "T i = Some x" using i(2) by (auto split: if_splits)
    have di: "cdist n h i \<noteq> cdist n h s" using cdist_inject [OF b(1) i(1) b(2)] ix(1) by simp
    show ?thesis
    proof (cases "q = s")
      case True
      have "cdist n h s \<le> cdist n h i"
      proof (rule ccontr)
        assume "\<not> cdist n h s \<le> cdist n h i"
        then have "cdist n (home x) e < cdist n (home x) i"
          using i(1,3,4) True es e(1) b home [of x] by (auto simp: cdist_def split: if_splits)
        then show False using path [OF i(1) ix(2) e(1)] e by simp
      qed
      then show ?thesis using True di by simp
    next
      case q: False
      then show ?thesis using path [OF i(1) ix(2) i(3,4)] di by auto
    qed
  qed
  have old: "i \<noteq> s" "T i = Some x" if "?T i = Some x" "i \<noteq> f" for i x using that by (auto split: if_splits)
  have new: "x = k" if "?T f = Some x" for x using that by simp
  have uniq': "i = j" if "i < n" "j < n" "?T i = Some x" "?T j = Some x" for i j x
    using that old [of i x] old [of j x] new [of x] uniq [of i s k] uniq [of j s k] uniq [of i j x] k b(2) by metis
  show ?thesis unfolding cluster_inv_def d
  proof (intro conjI allI impI)
    fix i x q assume "i < n \<and> ?T i = Some x \<and> q < n \<and> cdist n (home x) q < cdist n (home x) i"
    then show "?T q \<noteq> None \<or> cdist n h q < Suc (cdist n h s) \<and> Suc (cdist n h s) \<le> cdist n h i" using main by blast
  next
    fix i j x assume "i < n \<and> j < n \<and> ?T i = Some x \<and> ?T j = Some x"
    then show "i = j" using uniq' by blast
  next
    have "?T e = None" using e fe by (simp add: fun_upd_def)
    then show "\<exists>e < n. ?T e = None \<and> Suc (cdist n h s) \<le> cdist n h e" using e(1) es by auto
  qed (use b more n in auto)
qed

lemma cluster_step_keys:
  assumes "s < n" "T s = Some k" "f < n" "(T(s := None)) f = None"
  shows "table_keys n (T(s := None, f \<mapsto> k)) = table_keys n T"
proof (intro equalityI subsetI)
  fix x assume "x \<in> table_keys n T"
  then obtain i where "i < n" "T i = Some x" by (auto simp: table_keys_def)
  then have "(T(s := None, f \<mapsto> k)) (if i = s then f else i) = Some x" "(if i = s then f else i) < n" using assms by (auto split: if_splits)
  then show "x \<in> table_keys n (T(s := None, f \<mapsto> k))" unfolding table_keys_def by blast
qed (use assms in \<open>auto simp: table_keys_def split: if_splits\<close>)

end
