(* ===== verification/TickIdentities.thy ===== *)
theory TickIdentities
  imports TickData Probing
begin

text \<open>
  \<open>Identities\<close> of \<^verbatim>\<open>src/world/ticks.rs\<close>: the open-addressed set that deduplicates ticks. The hasher
  is seeded at run time, so it is an argument, a function from identities to 64-bit words. \<open>None\<close>
  is a panic or a probe that never ends; the theorems show neither happens below the load limit.
\<close>

section \<open>Operations\<close>

record Identities =
  is_slots :: "Identity option list"
  is_count :: nat
  is_capacity :: nat

text \<open>\<open>usize::checked_next_power_of_two\<close>.\<close>

definition checked_next_power_of_two :: "nat \<Rightarrow> nat option" where
  "checked_next_power_of_two x =
    (let p = (if x \<le> 1 then 1 else 2 ^ bit_len (x - 1)) in if p \<le> USIZE_MAX then Some p else None)"

definition identities_new :: "tick_env \<Rightarrow> nat \<Rightarrow> nat \<Rightarrow> (TickError + Identities) \<times> nat" where
  "identities_new env capacity budget =
    (case Option.bind (checked_mul capacity 2) checked_next_power_of_two of
       None \<Rightarrow> (Inl InvalidLimits, budget)
     | Some slots \<Rightarrow> bind_b (reserved_vec env (te_slot_size env) slots budget) (\<lambda>c left.
         (Inr \<lparr>is_slots = replicate slots None, is_count = 0, is_capacity = c\<rparr>, left)))"

definition identities_index :: "(Identity \<Rightarrow> u64) \<Rightarrow> Identities \<Rightarrow> Identity \<Rightarrow> nat" where
  "identities_index hash ids x = wrap_index (length (is_slots ids)) (unat (hash x))"

definition identities_slot :: "Identities \<Rightarrow> nat \<Rightarrow> Identity option option" where
  "identities_slot ids i = (if i < length (is_slots ids) then Some (is_slots ids ! i) else None)"

definition identities_probe :: "(Identity \<Rightarrow> u64) \<Rightarrow> Identities \<Rightarrow> Identity \<Rightarrow> (nat + nat) option" where
  "identities_probe hash ids x =
    probe (length (is_slots ids)) (length (is_slots ids)) (identities_slot ids) x (identities_index hash ids x)"

definition identities_contains :: "(Identity \<Rightarrow> u64) \<Rightarrow> Identities \<Rightarrow> Identity \<Rightarrow> bool option" where
  "identities_contains hash ids x =
    (case identities_probe hash ids x of None \<Rightarrow> None | Some (Inr i) \<Rightarrow> Some True | Some (Inl i) \<Rightarrow> Some False)"

definition identities_insert :: "(Identity \<Rightarrow> u64) \<Rightarrow> Identities \<Rightarrow> Identity \<Rightarrow> Identities option" where
  "identities_insert hash ids x =
    (case identities_probe hash ids x of
       None \<Rightarrow> None
     | Some (Inr i) \<Rightarrow> Some ids
     | Some (Inl i) \<Rightarrow> Some (ids\<lparr>is_slots := (is_slots ids)[i := Some x], is_count := is_count ids + 1\<rparr>))"

text \<open>The loop that takes out and reinserts the entries that follow a removed one.\<close>

fun reinsert_cluster :: "nat \<Rightarrow> (Identity \<Rightarrow> u64) \<Rightarrow> Identities \<Rightarrow> nat \<Rightarrow> Identities option" where
  "reinsert_cluster 0 hash ids index = None"
| "reinsert_cluster (Suc fuel) hash ids index =
    (case identities_slot ids index of
       None \<Rightarrow> None
     | Some None \<Rightarrow> Some ids
     | Some (Some displaced) \<Rightarrow>
         Option.bind (checked_sub (is_count ids) 1) (\<lambda>count.
         Option.bind (identities_insert hash (ids\<lparr>is_slots := (is_slots ids)[index := None], is_count := count\<rparr>) displaced)
           (\<lambda>ids'. reinsert_cluster fuel hash ids' (next_index (length (is_slots ids)) index))))"

definition identities_remove :: "(Identity \<Rightarrow> u64) \<Rightarrow> Identities \<Rightarrow> Identity \<Rightarrow> Identities option" where
  "identities_remove hash ids x =
    (case identities_probe hash ids x of
       None \<Rightarrow> None
     | Some (Inl i) \<Rightarrow> Some ids
     | Some (Inr i) \<Rightarrow>
         Option.bind (checked_sub (is_count ids) 1) (\<lambda>count.
           reinsert_cluster (length (is_slots ids)) hash
             (ids\<lparr>is_slots := (is_slots ids)[i := None], is_count := count\<rparr>) (next_index (length (is_slots ids)) i)))"

definition identities_clear :: "Identities \<Rightarrow> Identities" where
  "identities_clear ids =
    (if is_count ids \<noteq> 0 then ids\<lparr>is_slots := replicate (length (is_slots ids)) None, is_count := 0\<rparr> else ids)"

definition identities_heap_bytes :: "tick_env \<Rightarrow> Identities \<Rightarrow> nat" where
  "identities_heap_bytes env ids = is_capacity ids * te_slot_size env"

section \<open>The invariant\<close>

abbreviation ids_table :: "Identities \<Rightarrow> Identity table" where
  "ids_table ids \<equiv> (\<lambda>i. is_slots ids ! i)"

definition ids_shape :: "Identities \<Rightarrow> bool" where
  "ids_shape ids \<longleftrightarrow> power_of_two (length (is_slots ids)) \<and> 1 < length (is_slots ids)"

definition ids_set :: "Identities \<Rightarrow> Identity set" where
  "ids_set ids = table_keys (length (is_slots ids)) (ids_table ids)"

definition ids_ok :: "(Identity \<Rightarrow> u64) \<Rightarrow> Identities \<Rightarrow> bool" where
  "ids_ok hash ids \<longleftrightarrow> ids_shape ids \<and> table_ok (length (is_slots ids)) (identities_index hash ids) (ids_table ids) \<and>
    is_count ids = card (ids_set ids)"

lemma identities_index_less [simp]: "ids_shape ids \<Longrightarrow> identities_index hash ids x < length (is_slots ids)"
  by (simp add: identities_index_def ids_shape_def)

lemma identities_index_cong: "length (is_slots ids') = length (is_slots ids) \<Longrightarrow> identities_index hash ids' = identities_index hash ids"
  by (simp add: fun_eq_iff identities_index_def)

lemma finite_ids_set [simp]: "finite (ids_set ids)"
proof -
  have "ids_set ids \<subseteq> {k. Some k \<in> set (is_slots ids)}" by (auto simp: ids_set_def table_keys_def in_set_conv_nth)
  moreover have "finite {k. Some k \<in> set (is_slots ids)}" by (rule finite_subset [of _ "the ` set (is_slots ids)"]) (auto simp: image_iff, force)
  ultimately show ?thesis by (rule finite_subset)
qed

text \<open>Keys occupy different slots, so a set smaller than the table leaves free slots.\<close>

lemma free_slots:
  assumes "table_ok n home T" "finite (table_keys n T)" "card (table_keys n T) + 1 < n" "s < n"
  shows "\<exists>e < n. e \<noteq> s \<and> T e = None"
proof (rule ccontr)
  assume "\<not> ?thesis"
  then have full: "T i \<noteq> None" if "i < n" "i \<noteq> s" for i using that by auto
  have "inj_on (\<lambda>i. the (T i)) ({..<n} - {s})"
    using assms(1) full unfolding inj_on_def table_ok_def by (metis DiffE lessThan_iff option.expand singletonI option.collapse)
  moreover have "(\<lambda>i. the (T i)) ` ({..<n} - {s}) \<subseteq> table_keys n T"
    using full by (auto simp: table_keys_def)
  ultimately have "card ({..<n} - {s}) \<le> card (table_keys n T)" using assms(2) by (metis card_inj_on_le)
  then show False using assms(3,4) by simp
qed

lemma probe_ids:
  assumes shape: "ids_shape ids" and ok: "table_ok (length (is_slots ids)) (identities_index hash ids) (ids_table ids)"
  shows "(x \<in> ids_set ids \<longrightarrow> (\<exists>i < length (is_slots ids). identities_probe hash ids x = Some (Inr i) \<and> is_slots ids ! i = Some x)) \<and>
    (x \<notin> ids_set ids \<longrightarrow> (\<exists>i < length (is_slots ids). identities_probe hash ids x = Some (Inl i) \<and> is_slots ids ! i = None \<and>
      (\<forall>q < length (is_slots ids). cdist (length (is_slots ids)) (identities_index hash ids x) q <
         cdist (length (is_slots ids)) (identities_index hash ids x) i \<longrightarrow> is_slots ids ! q \<noteq> None)))"
  unfolding ids_set_def identities_probe_def
  by (rule probe_home) (use shape ok in \<open>simp_all add: ids_shape_def identities_slot_def\<close>)

lemma ids_insert_ok:
  assumes "ids_ok hash ids" "x \<in> ids_set ids \<or> card (ids_set ids) + 1 < length (is_slots ids)"
  shows "\<exists>ids'. identities_insert hash ids x = Some ids' \<and> ids_ok hash ids' \<and> ids_set ids' = insert x (ids_set ids) \<and>
    length (is_slots ids') = length (is_slots ids) \<and> is_capacity ids' = is_capacity ids"
proof (cases "x \<in> ids_set ids")
  case True
  have "ids_shape ids" "table_ok (length (is_slots ids)) (identities_index hash ids) (ids_table ids)" using assms(1) by (auto simp: ids_ok_def)
  from probe_ids [OF this, of x] True show ?thesis using assms(1) by (auto simp: identities_insert_def insert_absorb)
next
  case False
  let ?n = "length (is_slots ids)"
  have ok: "ids_shape ids" "table_ok ?n (identities_index hash ids) (ids_table ids)" "is_count ids = card (ids_set ids)"
    using assms(1) by (auto simp: ids_ok_def)
  obtain i where i: "i < ?n" "identities_probe hash ids x = Some (Inl i)" "is_slots ids ! i = None"
      "\<forall>q < ?n. cdist ?n (identities_index hash ids x) q < cdist ?n (identities_index hash ids x) i \<longrightarrow> is_slots ids ! q \<noteq> None"
    using probe_ids [OF ok(1,2), of x] False by auto
  let ?ids = "ids\<lparr>is_slots := (is_slots ids)[i := Some x], is_count := is_count ids + 1\<rparr>"
  have room: "\<exists>e < ?n. e \<noteq> i \<and> is_slots ids ! e = None"
    using free_slots [OF ok(2)] finite_ids_set [of ids] assms(2) False i(1) unfolding ids_set_def by blast
  have idx: "identities_index hash ?ids = identities_index hash ids" by (rule identities_index_cong) simp
  have "table_ok ?n (identities_index hash ids) ((ids_table ids)(i \<mapsto> x)) \<and> table_keys ?n ((ids_table ids)(i \<mapsto> x)) = insert x (ids_set ids)"
    using fill_table_ok [OF ok(2) i(1,3) _ i(4) room] False by (simp add: ids_set_def)
  moreover have T: "ids_table ?ids = (ids_table ids)(i \<mapsto> x)" using i(1) by (auto simp: fun_eq_iff nth_list_update)
  moreover have len: "length (is_slots ?ids) = ?n" by simp
  ultimately have "table_ok (length (is_slots ?ids)) (identities_index hash ?ids) (ids_table ?ids)" "ids_set ?ids = insert x (ids_set ids)"
    unfolding idx ids_set_def T len by blast+
  then have "ids_ok hash ?ids" "ids_set ?ids = insert x (ids_set ids)"
    using ok(1,3) False by (simp_all add: ids_ok_def ids_shape_def)
  then show ?thesis using i(2) by (simp add: identities_insert_def)
qed

lemma reinsert_ok:
  assumes "ids_shape ids" "cluster_inv (length (is_slots ids)) (identities_index hash ids) (ids_table ids) h s"
    "is_count ids = card (ids_set ids)" "length (is_slots ids) \<le> fuel + cdist (length (is_slots ids)) h s"
  shows "\<exists>ids'. reinsert_cluster fuel hash ids s = Some ids' \<and> ids_ok hash ids' \<and> ids_set ids' = ids_set ids \<and>
    length (is_slots ids') = length (is_slots ids) \<and> is_capacity ids' = is_capacity ids"
  using assms
proof (induction fuel arbitrary: ids s)
  case 0
  then have "h < length (is_slots ids)" "s < length (is_slots ids)" by (auto simp: cluster_inv_def)
  then show ?case using cdist_less [of h _ s] 0(4) by fastforce
next
  case (Suc fuel)
  let ?n = "length (is_slots ids)" and ?home = "identities_index hash ids"
  have n: "power_of_two ?n" and home: "\<And>k. ?home k < ?n" using Suc.prems(1) by (simp_all add: ids_shape_def)
  have b: "h < ?n" "s < ?n" using Suc.prems(2) by (auto simp: cluster_inv_def)
  show ?case
  proof (cases "is_slots ids ! s")
    case None
    then have "table_ok ?n ?home (ids_table ids)" by (rule cluster_end [OF home Suc.prems(2)])
    then have "ids_ok hash ids" using Suc.prems(1,3) by (simp add: ids_ok_def)
    then show ?thesis using None b by (simp add: identities_slot_def)
  next
    case (Some k)
    let ?T = "(ids_table ids)(s := None)"
    let ?ids1 = "ids\<lparr>is_slots := (is_slots ids)[s := None], is_count := is_count ids - 1\<rparr>"
    have T1: "ids_table ?ids1 = ?T" using b(2) by (auto simp: fun_eq_iff nth_list_update)
    have uniq: "i = s" if "i < ?n" "is_slots ids ! i = Some k" for i using Suc.prems(2) that b Some unfolding cluster_inv_def by blast
    have new: "k \<notin> table_keys ?n ?T" using uniq by (auto simp: table_keys_def split: if_splits)
    have shape1: "ids_shape ?ids1" using Suc.prems(1) by (simp add: ids_shape_def)
    have idx1: "identities_index hash ?ids1 = ?home" by (rule identities_index_cong) simp
    have lk: "identities_slot ?ids1 i = Some (?T i)" if "i < ?n" for i using that fun_cong [OF T1, of i] by (simp add: identities_slot_def)
    have "\<exists>f < ?n. probe ?n ?n (identities_slot ?ids1) k (?home k) = Some (Inl f) \<and> ?T f = None \<and>
        (\<forall>q < ?n. cdist ?n (?home k) q < cdist ?n (?home k) f \<longrightarrow> ?T q \<noteq> None)"
      by (rule probe_stops [where T = ?T and lookup = "identities_slot ?ids1" and e = s, OF n lk home b(2) _ new]) simp_all
    moreover have "identities_probe hash ?ids1 k = probe ?n ?n (identities_slot ?ids1) k (?home k)"
      unfolding identities_probe_def idx1 by simp
    ultimately obtain f where f: "f < ?n" "identities_probe hash ?ids1 k = Some (Inl f)" "?T f = None"
        "\<forall>q < ?n. cdist ?n (?home k) q < cdist ?n (?home k) f \<longrightarrow> ?T q \<noteq> None" by metis
    let ?ids2 = "?ids1\<lparr>is_slots := (is_slots ?ids1)[f := Some k], is_count := is_count ids - 1 + 1\<rparr>"
    have ins: "identities_insert hash ?ids1 k = Some ?ids2" using f(2) by (simp add: identities_insert_def)
    have T2: "ids_table ?ids2 = ?T(f \<mapsto> k)" using f(1) b(2) by (auto simp: fun_eq_iff nth_list_update)
    have len2: "length (is_slots ?ids2) = ?n" by simp
    have idx2: "identities_index hash ?ids2 = ?home" by (rule identities_index_cong) simp
    have set2: "ids_set ?ids2 = ids_set ids" unfolding ids_set_def T2 len2 by (rule cluster_step_keys [OF b(2) Some f(1,3)])
    have kset: "k \<in> ids_set ids" using Some b by (auto simp: ids_set_def table_keys_def)
    then have pos: "0 < is_count ids" unfolding Suc.prems(3) card_gt_0_iff using finite_ids_set by blast
    then have cnt: "is_count ?ids2 = card (ids_set ?ids2)" using Suc.prems(3) set2 by simp
    have inv2: "cluster_inv ?n ?home (?T(f \<mapsto> k)) h (next_index ?n s)"
      by (rule cluster_step [OF n home Suc.prems(2) Some f(1,3,4)])
    then have "next_index ?n s \<noteq> h" unfolding cluster_inv_def by blast
    then have far: "cdist ?n h (next_index ?n s) = Suc (cdist ?n h s)" by (rule cdist_next [OF n b])
    have "\<exists>ids'. reinsert_cluster fuel hash ?ids2 (next_index ?n s) = Some ids' \<and> ids_ok hash ids' \<and> ids_set ids' = ids_set ?ids2 \<and>
        length (is_slots ids') = length (is_slots ?ids2) \<and> is_capacity ids' = is_capacity ?ids2"
    proof (rule Suc.IH)
      show "ids_shape ?ids2" using Suc.prems(1) by (simp add: ids_shape_def)
      show "cluster_inv (length (is_slots ?ids2)) (identities_index hash ?ids2) (ids_table ?ids2) h (next_index ?n s)"
        unfolding len2 idx2 T2 by (rule inv2)
      show "is_count ?ids2 = card (ids_set ?ids2)" by (rule cnt)
      show "length (is_slots ?ids2) \<le> fuel + cdist (length (is_slots ?ids2)) h (next_index ?n s)"
        unfolding len2 far using Suc.prems(4) by simp
    qed
    then show ?thesis using ins Some b set2 pos by (simp add: identities_slot_def checked_sub_def Suc_le_eq)
  qed
qed

lemma ids_remove_ok:
  assumes "ids_ok hash ids"
  shows "\<exists>ids'. identities_remove hash ids x = Some ids' \<and> ids_ok hash ids' \<and> ids_set ids' = ids_set ids - {x} \<and>
    length (is_slots ids') = length (is_slots ids) \<and> is_capacity ids' = is_capacity ids"
proof -
  let ?n = "length (is_slots ids)"
  have ok: "ids_shape ids" "table_ok ?n (identities_index hash ids) (ids_table ids)" "is_count ids = card (ids_set ids)"
    using assms by (auto simp: ids_ok_def)
  show ?thesis
  proof (cases "x \<in> ids_set ids")
    case False
    then show ?thesis using probe_ids [OF ok(1,2), of x] assms by (auto simp: identities_remove_def)
  next
    case True
    then obtain i where i: "i < ?n" "identities_probe hash ids x = Some (Inr i)" "is_slots ids ! i = Some x"
      using probe_ids [OF ok(1,2), of x] by auto
    let ?ids1 = "ids\<lparr>is_slots := (is_slots ids)[i := None], is_count := is_count ids - 1\<rparr>"
    have n: "power_of_two ?n" "1 < ?n" using ok(1) by (simp_all add: ids_shape_def)
    have T1: "ids_table ?ids1 = (ids_table ids)(i := None)" using i(1) by (auto simp: fun_eq_iff nth_list_update)
    have len1: "length (is_slots ?ids1) = ?n" by simp
    have idx1: "identities_index hash ?ids1 = identities_index hash ids" by (rule identities_index_cong) simp
    have set1: "ids_set ?ids1 = ids_set ids - {x}"
      using shift_start [OF n ok(2) i(1,3)] unfolding ids_set_def T1 len1 by blast
    have inv: "cluster_inv ?n (identities_index hash ids) ((ids_table ids)(i := None)) i (next_index ?n i)"
      by (rule cluster_start [OF n ok(2) i(1,3)])
    have "\<exists>ids'. reinsert_cluster ?n hash ?ids1 (next_index ?n i) = Some ids' \<and> ids_ok hash ids' \<and> ids_set ids' = ids_set ?ids1 \<and>
        length (is_slots ids') = length (is_slots ?ids1) \<and> is_capacity ids' = is_capacity ?ids1"
    proof (rule reinsert_ok)
      show "ids_shape ?ids1" using ok(1) by (simp add: ids_shape_def)
      show "cluster_inv (length (is_slots ?ids1)) (identities_index hash ?ids1) (ids_table ?ids1) i (next_index ?n i)"
        unfolding len1 idx1 T1 by (rule inv)
      show "is_count ?ids1 = card (ids_set ?ids1)" unfolding set1 using ok(3) True by simp
      show "length (is_slots ?ids1) \<le> ?n + cdist (length (is_slots ?ids1)) i (next_index ?n i)" by simp
    qed
    moreover have "0 < is_count ids" unfolding ok(3) card_gt_0_iff using finite_ids_set True by blast
    ultimately show ?thesis using i(2) set1 by (simp add: identities_remove_def checked_sub_def Suc_le_eq)
  qed
qed

lemma ids_contains_ok: "ids_ok hash ids \<Longrightarrow> identities_contains hash ids x = Some (x \<in> ids_set ids)"
  using probe_ids [of ids hash x] by (auto simp: identities_contains_def ids_ok_def)

section \<open>The set interface\<close>

text \<open>
  What the tick queues rely on: a bounded set of identities. \<open>contents\<close> is the set a table stands
  for and \<open>room\<close> the number of elements it is sure to take.
\<close>

locale bounded_set =
  fixes ok :: "'t \<Rightarrow> bool" and contents :: "'t \<Rightarrow> 'a set" and room :: "'t \<Rightarrow> nat"
    and contains :: "'t \<Rightarrow> 'a \<Rightarrow> bool option" and put :: "'t \<Rightarrow> 'a \<Rightarrow> 't option" and remove :: "'t \<Rightarrow> 'a \<Rightarrow> 't option"
  assumes finite_contents: "ok t \<Longrightarrow> finite (contents t)"
    and contains_law: "ok t \<Longrightarrow> contains t x = Some (x \<in> contents t)"
    and put_law: "ok t \<Longrightarrow> x \<in> contents t \<or> card (contents t) < room t \<Longrightarrow>
      \<exists>t'. put t x = Some t' \<and> ok t' \<and> contents t' = insert x (contents t) \<and> room t' = room t"
    and remove_law: "ok t \<Longrightarrow> \<exists>t'. remove t x = Some t' \<and> ok t' \<and> contents t' = contents t - {x} \<and> room t' = room t"
begin

text \<open>The loops of the clients: putting or removing a whole sequence.\<close>

lemma put_all:
  assumes "ok t" "card (contents t \<union> set xs) \<le> room t"
  shows "\<exists>t'. fold (\<lambda>x acc. Option.bind acc (\<lambda>t. put t x)) xs (Some t) = Some t' \<and> ok t' \<and>
    contents t' = contents t \<union> set xs \<and> room t' = room t"
  using assms
proof (induction xs arbitrary: t)
  case (Cons x xs)
  have fin: "finite (contents t \<union> set (x # xs))" using finite_contents [OF Cons.prems(1)] by simp
  have "x \<in> contents t \<or> card (contents t) < room t"
  proof (rule disjCI)
    assume "\<not> card (contents t) < room t"
    then have "card (contents t \<union> set (x # xs)) \<le> card (contents t)" using Cons.prems(2) by simp
    then have "contents t = contents t \<union> set (x # xs)" using card_seteq [OF fin] by blast
    then show "x \<in> contents t" by (metis UnI2 list.set_intros(1))
  qed
  then obtain t1 where t1: "put t x = Some t1" "ok t1" "contents t1 = insert x (contents t)" "room t1 = room t"
    using put_law [OF Cons.prems(1)] by blast
  then have "card (contents t1 \<union> set xs) \<le> room t1" using Cons.prems(2) by simp
  then show ?case using Cons.IH [OF t1(2)] t1 by auto
qed simp

lemma remove_all:
  assumes "ok t"
  shows "\<exists>t'. fold (\<lambda>x acc. Option.bind acc (\<lambda>t. remove t x)) xs (Some t) = Some t' \<and> ok t' \<and>
    contents t' = contents t - set xs \<and> room t' = room t"
  using assms
proof (induction xs arbitrary: t)
  case (Cons x xs)
  obtain t1 where t1: "remove t x = Some t1" "ok t1" "contents t1 = contents t - {x}" "room t1 = room t"
    using remove_law [OF Cons.prems] by blast
  then show ?case using Cons.IH [OF t1(2)] by auto
qed simp

end

definition ids_room :: "Identities \<Rightarrow> nat" where
  "ids_room ids = length (is_slots ids) - 1"

interpretation ids: bounded_set "ids_ok hash" ids_set ids_room "identities_contains hash" "identities_insert hash" "identities_remove hash"
  for hash
proof
  fix t x
  show "finite (ids_set t)" by simp
  show "identities_contains hash t x = Some (x \<in> ids_set t)" if "ids_ok hash t" using ids_contains_ok [OF that] .
  show "\<exists>t'. identities_insert hash t x = Some t' \<and> ids_ok hash t' \<and> ids_set t' = insert x (ids_set t) \<and> ids_room t' = ids_room t"
    if "ids_ok hash t" "x \<in> ids_set t \<or> card (ids_set t) < ids_room t"
  proof -
    have "x \<in> ids_set t \<or> card (ids_set t) + 1 < length (is_slots t)" using that(2) by (auto simp: ids_room_def)
    then show ?thesis using ids_insert_ok [OF that(1), of x] by (auto simp: ids_room_def)
  qed
  show "\<exists>t'. identities_remove hash t x = Some t' \<and> ids_ok hash t' \<and> ids_set t' = ids_set t - {x} \<and> ids_room t' = ids_room t"
    if "ids_ok hash t"
    using ids_remove_ok [OF that, of x] by (auto simp: ids_room_def)
qed

section \<open>Construction\<close>

lemma checked_next_power_of_two_Some:
  assumes "checked_next_power_of_two x = Some p"
  shows "power_of_two p \<and> x \<le> p"
proof (cases "x \<le> 1")
  case True
  then have "p = 1" using assms by (auto simp: checked_next_power_of_two_def USIZE_MAX_def)
  then show ?thesis using True by (auto simp: power_of_two_def intro: exI [of _ 0])
next
  case False
  then have p: "p = 2 ^ bit_len (x - 1)" using assms by (auto simp: checked_next_power_of_two_def Let_def split: if_splits)
  have "x - 1 < 2 ^ bit_len (x - 1)" using bit_len_le_iff [of "x - 1" "bit_len (x - 1)"] by blast
  then show ?thesis using p by (auto simp: power_of_two_def)
qed

lemma empty_ids_ok:
  assumes "power_of_two n" "1 < n"
  shows "ids_ok hash \<lparr>is_slots = replicate n None, is_count = 0, is_capacity = c\<rparr>
    \<and> ids_set \<lparr>is_slots = replicate n None, is_count = 0, is_capacity = c\<rparr> = {}"
  using assms by (auto simp: ids_ok_def ids_shape_def ids_set_def table_ok_def table_keys_def reachable_table_def)

lemma identities_new_ok:
  assumes "te_grants env" "0 < capacity" "identities_new env capacity budget = (Inr ids, left)"
  shows "ids_ok hash ids \<and> ids_set ids = {} \<and> capacity * 2 \<le> length (is_slots ids) \<and> left + identities_heap_bytes env ids = budget"
proof -
  obtain n c where n: "checked_mul capacity 2 = Some (capacity * 2)" "checked_next_power_of_two (capacity * 2) = Some n"
      "reserved_vec env (te_slot_size env) n budget = (Inr c, left)" "ids = \<lparr>is_slots = replicate n None, is_count = 0, is_capacity = c\<rparr>"
    using assms(3) by (auto simp: identities_new_def result_simps usize_simps bind_eq_Some_conv split: option.splits)
  have pow: "power_of_two n" "capacity * 2 \<le> n" using checked_next_power_of_two_Some [OF n(2)] by auto
  then show ?thesis using empty_ids_ok [OF pow(1), of hash c] reserved_vec_Inr [OF assms(1) n(3)] assms(2) n(4)
    by (simp add: identities_heap_bytes_def)
qed

text \<open>
  the identity table is a set. Starting from a table built for \<open>capacity\<close> elements, inserting any
  sequence of identities of at most \<open>capacity\<close> different ones and then removing any sequence never
  panics and never probes for ever, whatever the seeded hasher; afterwards \<open>contains\<close> answers
  membership in the set inserted less the set removed, and \<open>count\<close> is its size.
\<close>

theorem identities_are_a_set:
  assumes "te_grants env" "0 < capacity" "identities_new env capacity budget = (Inr ids, left)" "card (set xs) \<le> capacity"
  shows "\<exists>ids1 ids2. fold (\<lambda>x acc. Option.bind acc (\<lambda>t. identities_insert hash t x)) xs (Some ids) = Some ids1 \<and>
    fold (\<lambda>x acc. Option.bind acc (\<lambda>t. identities_remove hash t x)) ys (Some ids1) = Some ids2 \<and>
    (\<forall>x. identities_contains hash ids2 x = Some (x \<in> set xs - set ys)) \<and> is_count ids2 = card (set xs - set ys) \<and>
    left + identities_heap_bytes env ids = budget"
proof -
  note new = identities_new_ok [OF assms(1-3), of hash]
  have "card (ids_set ids \<union> set xs) \<le> ids_room ids" using new assms(2,4) by (auto simp: ids_room_def)
  then obtain ids1 where i1: "fold (\<lambda>x acc. Option.bind acc (\<lambda>t. identities_insert hash t x)) xs (Some ids) = Some ids1"
      "ids_ok hash ids1" "ids_set ids1 = set xs"
    using ids.put_all [of hash ids xs] new by auto
  obtain ids2 where i2: "fold (\<lambda>x acc. Option.bind acc (\<lambda>t. identities_remove hash t x)) ys (Some ids1) = Some ids2"
      "ids_ok hash ids2" "ids_set ids2 = set xs - set ys"
    using ids.remove_all [OF i1(2), of ys] i1(3) by auto
  have "is_count ids2 = card (set xs - set ys)" using i2(2,3) by (simp add: ids_ok_def)
  then show ?thesis using new i1(1) i2 ids.contains_law [OF i2(2)] by auto
qed

definition sample_env :: tick_env where
  "sample_env = \<lparr>te_reserve = (\<lambda>width n. Some n), te_tick_size = 48, te_ready_size = 24, te_slot_size = 24\<rparr>"

definition sample_identity :: "nat \<Rightarrow> Identity" where
  "sample_identity n = \<lparr>id_position = \<lparr>tp_x = int n, tp_y = 64, tp_z = 0\<rparr>, id_type_id = n\<rparr>"

theorem identities_are_a_set_witness:
  "\<exists>ids ids1 ids2. identities_new sample_env 2 200 = (Inr ids, 104) \<and>
    fold (\<lambda>x acc. Option.bind acc (\<lambda>t. identities_insert (\<lambda>x. 5) t x)) [sample_identity 1, sample_identity 2] (Some ids) = Some ids1 \<and>
    fold (\<lambda>x acc. Option.bind acc (\<lambda>t. identities_remove (\<lambda>x. 5) t x)) [sample_identity 1] (Some ids1) = Some ids2 \<and>
    identities_contains (\<lambda>x. 5) ids2 (sample_identity 2) = Some True"
proof -
  have g: "te_grants sample_env" by (simp add: te_grants_def sample_env_def)
  have b: "bit_len 3 = 2" by code_simp
  obtain ids where new: "identities_new sample_env 2 200 = (Inr ids, 104)"
    by (simp add: identities_new_def checked_mul_def checked_next_power_of_two_def reserved_vec_def sample_env_def USIZE_MAX_def b)
  have "card (set [sample_identity 1, sample_identity 2]) \<le> 2" by (simp add: card_insert_if)
  from identities_are_a_set [OF g _ new this, where hash = "\<lambda>x. 5" and ys = "[sample_identity 1]"]
  show ?thesis using new by (auto simp: sample_identity_def)
qed

end
