(* ===== verification/TickRemaining.thy ===== *)
theory TickRemaining
  imports TickIdentities "HOL-Library.Multiset"
begin

text \<open>
  \<open>RemainingCounts\<close> of \<^verbatim>\<open>src/world/ticks/remaining.rs\<close>: a multiset of identities with a dense array of
  the distinct ones. The probe table holds indices into that array; removing the last occurrence of
  an identity shifts its cluster back, swaps the last dense entry into its place and redirects that
  entry's slot. \<open>None\<close> is a panic or a probe that never ends.
\<close>

section \<open>Operations\<close>

record RemainingEntry =
  re_identity :: Identity
  re_count :: nat

record RemainingCounts =
  rm_entries :: "RemainingEntry list"
  rm_lookup :: "nat list"
  rm_limit :: nat

definition remaining_new :: "tick_env \<Rightarrow> nat \<Rightarrow> nat \<Rightarrow> nat \<Rightarrow> (TickError + RemainingCounts) \<times> nat" where
  "remaining_new env entry_size capacity budget =
    (if capacity = 0 then (Inl InvalidLimits, budget)
     else (case Option.bind (checked_next_power_of_two capacity) (\<lambda>c. checked_mul c 2) of
        None \<Rightarrow> (Inl InvalidLimits, budget)
      | Some slots \<Rightarrow>
          (case Option.bind (checked_mul capacity entry_size) (\<lambda>entries.
                  Option.bind (checked_mul slots USIZE_BYTES) (\<lambda>lookup. checked_add entries lookup)) of
             None \<Rightarrow> (Inl InvalidLimits, budget)
           | Some requested \<Rightarrow>
               if requested > budget then (Inl AllocationBudget, budget)
               else (case bind_b (reserved_vec env entry_size capacity budget) (\<lambda>c1 left1.
                            bind_b (reserved_vec env USIZE_BYTES slots left1) (\<lambda>c2 left2.
                              (Inr \<lparr>rm_entries = [], rm_lookup = replicate slots USIZE_MAX, rm_limit = capacity\<rparr>, left2))) of
                  (Inl e, left) \<Rightarrow> (Inl e, budget)
                | (Inr r, left) \<Rightarrow> (Inr r, left)))))"

definition remaining_bucket :: "(Identity \<Rightarrow> u64) \<Rightarrow> RemainingCounts \<Rightarrow> Identity \<Rightarrow> nat" where
  "remaining_bucket hash rc x = wrap_index (length (rm_lookup rc)) (unat (hash x))"

definition remaining_slot :: "RemainingCounts \<Rightarrow> nat \<Rightarrow> Identity option option" where
  "remaining_slot rc i =
    (if i < length (rm_lookup rc) then
       (if rm_lookup rc ! i = USIZE_MAX then Some None
        else if rm_lookup rc ! i < length (rm_entries rc) then Some (Some (re_identity (rm_entries rc ! (rm_lookup rc ! i))))
        else None)
     else None)"

definition remaining_find :: "(Identity \<Rightarrow> u64) \<Rightarrow> RemainingCounts \<Rightarrow> Identity \<Rightarrow> (nat + nat) option" where
  "remaining_find hash rc x =
    probe (length (rm_lookup rc)) (length (rm_lookup rc)) (remaining_slot rc) x (remaining_bucket hash rc x)"

definition remaining_add :: "(Identity \<Rightarrow> u64) \<Rightarrow> RemainingCounts \<Rightarrow> Identity \<Rightarrow> RemainingCounts option" where
  "remaining_add hash rc x =
    (case remaining_find hash rc x of
       None \<Rightarrow> None
     | Some (Inr bucket) \<Rightarrow>
         (let j = rm_lookup rc ! bucket; entry = rm_entries rc ! j in
          Option.bind (checked_add (re_count entry) 1) (\<lambda>c.
            Some (rc\<lparr>rm_entries := (rm_entries rc)[j := entry\<lparr>re_count := c\<rparr>]\<rparr>)))
     | Some (Inl bucket) \<Rightarrow>
         if length (rm_entries rc) < rm_limit rc
         then Some (rc\<lparr>rm_lookup := (rm_lookup rc)[bucket := length (rm_entries rc)],
                       rm_entries := rm_entries rc @ [\<lparr>re_identity = x, re_count = 1\<rparr>]\<rparr>)
         else None)"

text \<open>The repair loop: \<open>hole\<close> and \<open>scan\<close> as in the source; the subtractions wrap at 64 bits.\<close>

definition wrapping_sub :: "nat \<Rightarrow> nat \<Rightarrow> nat" where
  "wrapping_sub a b = (a + 2 ^ 64 - b) mod 2 ^ 64"

fun shift_loop :: "nat \<Rightarrow> (Identity \<Rightarrow> u64) \<Rightarrow> RemainingCounts \<Rightarrow> nat \<Rightarrow> nat \<Rightarrow> RemainingCounts option" where
  "shift_loop 0 hash rc hole scan = None"
| "shift_loop (Suc fuel) hash rc hole scan =
    (case remaining_slot rc scan of
       None \<Rightarrow> None
     | Some None \<Rightarrow> Some rc
     | Some (Some x) \<Rightarrow>
         (let n = length (rm_lookup rc); home = remaining_bucket hash rc x in
          if wrap_index n (wrapping_sub hole home) < wrap_index n (wrapping_sub scan home)
          then shift_loop fuel hash (rc\<lparr>rm_lookup := (rm_lookup rc)[hole := rm_lookup rc ! scan, scan := USIZE_MAX]\<rparr>) scan (next_index n scan)
          else shift_loop fuel hash rc hole (next_index n scan)))"

definition remaining_remove :: "(Identity \<Rightarrow> u64) \<Rightarrow> RemainingCounts \<Rightarrow> Identity \<Rightarrow> RemainingCounts option" where
  "remaining_remove hash rc x =
    (case remaining_find hash rc x of
       None \<Rightarrow> None
     | Some (Inl bucket) \<Rightarrow> Some rc
     | Some (Inr bucket) \<Rightarrow>
         (let j = rm_lookup rc ! bucket; entry = rm_entries rc ! j in
          if 1 < re_count entry then Some (rc\<lparr>rm_entries := (rm_entries rc)[j := entry\<lparr>re_count := re_count entry - 1\<rparr>]\<rparr>)
          else Option.bind
            (shift_loop (length (rm_lookup rc)) hash (rc\<lparr>rm_lookup := (rm_lookup rc)[bucket := USIZE_MAX]\<rparr>)
               bucket (next_index (length (rm_lookup rc)) bucket)) (\<lambda>rc1.
              (let last_index = length (rm_entries rc1) - 1; dense = butlast ((rm_entries rc1)[j := rm_entries rc1 ! last_index]) in
               if j = last_index then Some (rc1\<lparr>rm_entries := dense\<rparr>)
               else (case remaining_find hash rc1 (re_identity (rm_entries rc1 ! last_index)) of
                   Some (Inr moved) \<Rightarrow> Some (rc1\<lparr>rm_entries := dense, rm_lookup := (rm_lookup rc1)[moved := j]\<rparr>)
                 | _ \<Rightarrow> None)))))"

definition remaining_identities :: "RemainingCounts \<Rightarrow> Identity list" where
  "remaining_identities rc = map re_identity (rm_entries rc)"

definition remaining_clear :: "RemainingCounts \<Rightarrow> RemainingCounts" where
  "remaining_clear rc =
    (if rm_entries rc \<noteq> [] then rc\<lparr>rm_entries := [], rm_lookup := replicate (length (rm_lookup rc)) USIZE_MAX\<rparr> else rc)"

section \<open>The invariant\<close>

definition rm_table :: "RemainingEntry list \<Rightarrow> nat list \<Rightarrow> Identity table" where
  "rm_table entries lookup i = (if lookup ! i = USIZE_MAX then None else Some (re_identity (entries ! (lookup ! i))))"

definition rm_shape :: "RemainingCounts \<Rightarrow> bool" where
  "rm_shape rc \<longleftrightarrow> power_of_two (length (rm_lookup rc)) \<and> 1 < length (rm_lookup rc) \<and> length (rm_lookup rc) \<le> 2 ^ 64 \<and>
    rm_limit rc < length (rm_lookup rc) \<and> length (rm_entries rc) \<le> rm_limit rc \<and> rm_limit rc \<le> USIZE_MAX \<and>
    distinct (map re_identity (rm_entries rc)) \<and> (\<forall>e \<in> set (rm_entries rc). 0 < re_count e \<and> re_count e \<le> USIZE_MAX) \<and>
    (\<forall>i < length (rm_lookup rc). rm_lookup rc ! i \<noteq> USIZE_MAX \<longrightarrow> rm_lookup rc ! i < length (rm_entries rc))"

definition rm_ok :: "(Identity \<Rightarrow> u64) \<Rightarrow> RemainingCounts \<Rightarrow> bool" where
  "rm_ok hash rc \<longleftrightarrow> rm_shape rc \<and>
    table_ok (length (rm_lookup rc)) (remaining_bucket hash rc) (rm_table (rm_entries rc) (rm_lookup rc)) \<and>
    table_keys (length (rm_lookup rc)) (rm_table (rm_entries rc) (rm_lookup rc)) = set (remaining_identities rc)"

text \<open>The multiset a table stands for.\<close>

definition rm_count :: "RemainingCounts \<Rightarrow> Identity \<Rightarrow> nat" where
  "rm_count rc x = sum_list (map re_count (filter (\<lambda>e. re_identity e = x) (rm_entries rc)))"

lemma remaining_slot_table:
  "rm_shape rc \<Longrightarrow> i < length (rm_lookup rc) \<Longrightarrow> remaining_slot rc i = Some (rm_table (rm_entries rc) (rm_lookup rc) i)"
  by (auto simp: remaining_slot_def rm_table_def rm_shape_def)

lemma remaining_bucket_less [simp]: "rm_shape rc \<Longrightarrow> remaining_bucket hash rc x < length (rm_lookup rc)"
  by (simp add: remaining_bucket_def rm_shape_def)

lemma remaining_bucket_cong:
  "length (rm_lookup rc') = length (rm_lookup rc) \<Longrightarrow> remaining_bucket hash rc' = remaining_bucket hash rc"
  by (simp add: fun_eq_iff remaining_bucket_def)

lemma rm_find_ok:
  assumes "rm_shape rc" "table_ok (length (rm_lookup rc)) (remaining_bucket hash rc) (rm_table (rm_entries rc) (rm_lookup rc))"
  shows "(x \<in> table_keys (length (rm_lookup rc)) (rm_table (rm_entries rc) (rm_lookup rc)) \<longrightarrow>
      (\<exists>i < length (rm_lookup rc). remaining_find hash rc x = Some (Inr i) \<and> rm_table (rm_entries rc) (rm_lookup rc) i = Some x)) \<and>
    (x \<notin> table_keys (length (rm_lookup rc)) (rm_table (rm_entries rc) (rm_lookup rc)) \<longrightarrow>
      (\<exists>i < length (rm_lookup rc). remaining_find hash rc x = Some (Inl i) \<and> rm_table (rm_entries rc) (rm_lookup rc) i = None \<and>
      (\<forall>q < length (rm_lookup rc). cdist (length (rm_lookup rc)) (remaining_bucket hash rc x) q <
         cdist (length (rm_lookup rc)) (remaining_bucket hash rc x) i \<longrightarrow> rm_table (rm_entries rc) (rm_lookup rc) q \<noteq> None)))"
  unfolding remaining_find_def
  by (rule probe_home) (use assms in \<open>simp_all add: remaining_slot_table rm_shape_def\<close>)

text \<open>The count of an identity is the count of its entry.\<close>

lemma filter_single:
  assumes "distinct (map re_identity es)" "j < length es"
  shows "filter (\<lambda>e. re_identity e = re_identity (es ! j)) es = [es ! j]"
  using assms
proof (induction es arbitrary: j)
  case (Cons e es)
  show ?case
  proof (cases j)
    case 0
    then have "\<forall>e' \<in> set es. re_identity e' \<noteq> re_identity e" using Cons.prems(1) by (auto simp: image_iff)
    then show ?thesis using 0 by simp
  next
    case (Suc k)
    then have "re_identity e \<noteq> re_identity (es ! k)" using Cons.prems by (auto simp: image_iff)
    then show ?thesis using Suc Cons.IH [of k] Cons.prems by simp
  qed
qed simp

lemma rm_count_at: "distinct (map re_identity (rm_entries rc)) \<Longrightarrow> j < length (rm_entries rc) \<Longrightarrow>
    rm_count rc (re_identity (rm_entries rc ! j)) = re_count (rm_entries rc ! j)"
  by (simp add: rm_count_def filter_single)

lemma rm_count_none: "x \<notin> set (remaining_identities rc) \<Longrightarrow> rm_count rc x = 0"
  by (auto simp: rm_count_def remaining_identities_def filter_empty_conv)

lemma rm_count_upd:
  assumes "distinct (map re_identity (rm_entries rc))" "j < length (rm_entries rc)"
  shows "rm_count (rc\<lparr>rm_entries := (rm_entries rc)[j := (rm_entries rc ! j)\<lparr>re_count := c\<rparr>]\<rparr>) =
    (rm_count rc)(re_identity (rm_entries rc ! j) := c)"
proof
  fix y
  let ?es = "rm_entries rc" and ?e = "(rm_entries rc ! j)\<lparr>re_count := c\<rparr>"
  let ?rc = "rc\<lparr>rm_entries := ?es[j := ?e]\<rparr>"
  have ids: "map re_identity (?es[j := ?e]) = map re_identity ?es" using assms(2) by (simp add: map_update)
     (metis list_update_id map_update nth_map)
  show "rm_count ?rc y = ((rm_count rc)(re_identity (?es ! j) := c)) y"
  proof (cases "y \<in> re_identity ` set ?es")
    case False
    then have "y \<notin> set (remaining_identities rc)" "y \<notin> set (remaining_identities ?rc)"
      using ids by (auto simp: remaining_identities_def simp flip: set_map)
    then show ?thesis using rm_count_none False assms(2) by (auto simp: remaining_identities_def)
  next
    case True
    then obtain m where m: "m < length ?es" "y = re_identity (?es ! m)" by (auto simp: in_set_conv_nth)
    have "rm_count ?rc (re_identity (rm_entries ?rc ! m)) = re_count (rm_entries ?rc ! m)"
      using rm_count_at [of ?rc m] ids assms(1) m(1) by simp
    moreover have "rm_count rc y = re_count (?es ! m)" using rm_count_at [OF assms(1) m(1)] m(2) by simp
    moreover have "re_identity (?es ! m) = re_identity (?es ! j) \<longleftrightarrow> m = j"
      using assms m(1) by (auto simp: distinct_conv_nth)
    ultimately show ?thesis using m assms(2) by (cases "m = j") auto
  qed
qed

lemma table_cong:
  assumes "\<And>i. i < n \<Longrightarrow> T i = T' i"
  shows "table_ok n home T = table_ok n home T'" "table_keys n T = table_keys n T'"
proof -
  show "table_keys n T = table_keys n T'" unfolding table_keys_def using assms by auto
  have "table_ok n home U'" if "table_ok n home U" "\<And>i. i < n \<Longrightarrow> U' i = U i" for U U' :: "'a table"
    unfolding table_ok_def reachable_table_def
  proof (intro conjI allI impI)
    fix i k q assume "i < n \<and> U' i = Some k \<and> q < n \<and> cdist n (home k) q < cdist n (home k) i"
    then show "U' q \<noteq> None" using that unfolding table_ok_def reachable_table_def by metis
  next
    fix i j k assume "i < n \<and> j < n \<and> U' i = Some k \<and> U' j = Some k"
    then show "i = j" using that unfolding table_ok_def by metis
  next
    show "\<exists>e < n. U' e = None" using that unfolding table_ok_def by metis
  qed
  from this [of T T'] this [of T' T] assms show "table_ok n home T = table_ok n home T'" by auto
qed

text \<open>Changing the count of an entry.\<close>

lemma recount_ok:
  assumes ok: "rm_ok hash rc" and j: "j < length (rm_entries rc)" and c: "0 < c" "c \<le> USIZE_MAX"
  shows "rm_ok hash (rc\<lparr>rm_entries := (rm_entries rc)[j := (rm_entries rc ! j)\<lparr>re_count := c\<rparr>]\<rparr>)"
proof -
  let ?es = "rm_entries rc" and ?e = "(rm_entries rc ! j)\<lparr>re_count := c\<rparr>"
  let ?rc = "rc\<lparr>rm_entries := ?es[j := ?e]\<rparr>"
  have ids: "map re_identity (?es[j := ?e]) = map re_identity ?es" using j by (simp add: list_eq_iff_nth_eq nth_list_update)
  have T: "rm_table (?es[j := ?e]) (rm_lookup rc) = rm_table ?es (rm_lookup rc)" using j by (auto simp: fun_eq_iff rm_table_def nth_list_update)
  have "0 < re_count e \<and> re_count e \<le> USIZE_MAX" if "e \<in> set (?es[j := ?e])" for e
    using that set_update_subset_insert [of ?es j ?e] c ok by (auto simp: rm_ok_def rm_shape_def)
  then have "rm_shape ?rc" using ok ids by (simp add: rm_ok_def rm_shape_def)
  then show ?thesis using ok T ids remaining_bucket_cong [of ?rc rc hash] by (simp add: rm_ok_def remaining_identities_def)
qed

section \<open>Adding\<close>

lemma rm_add_ok:
  assumes ok: "rm_ok hash rc" and small: "rm_count rc x < USIZE_MAX"
    and room: "x \<in> set (remaining_identities rc) \<or> length (rm_entries rc) < rm_limit rc"
  shows "\<exists>rc'. remaining_add hash rc x = Some rc' \<and> rm_ok hash rc' \<and> rm_count rc' = (rm_count rc)(x := rm_count rc x + 1) \<and>
    rm_limit rc' = rm_limit rc"
proof -
  let ?n = "length (rm_lookup rc)" and ?es = "rm_entries rc" and ?l = "rm_lookup rc"
  let ?T = "rm_table ?es ?l"
  have shape: "rm_shape rc" and tab: "table_ok ?n (remaining_bucket hash rc) ?T" and keys: "table_keys ?n ?T = set (remaining_identities rc)"
    using ok by (auto simp: rm_ok_def)
  have d: "distinct (map re_identity ?es)" and pos: "\<forall>e \<in> set ?es. 0 < re_count e \<and> re_count e \<le> USIZE_MAX"
    and rng: "\<And>i. i < ?n \<Longrightarrow> ?l ! i \<noteq> USIZE_MAX \<Longrightarrow> ?l ! i < length ?es" using shape by (auto simp: rm_shape_def)
  note find = rm_find_ok [OF shape tab, of x, unfolded keys]
  show ?thesis
  proof (cases "x \<in> set (remaining_identities rc)")
    case True
    then obtain i where i: "i < ?n" "remaining_find hash rc x = Some (Inr i)" "?T i = Some x" using find by auto
    let ?j = "?l ! i"
    have j: "?j < length ?es" "re_identity (?es ! ?j) = x" using i rng by (auto simp: rm_table_def split: if_splits)
    have c: "rm_count rc x = re_count (?es ! ?j)" using rm_count_at [OF d j(1)] j(2) by simp
    let ?e = "(?es ! ?j)\<lparr>re_count := re_count (?es ! ?j) + 1\<rparr>"
    let ?rc = "rc\<lparr>rm_entries := ?es[?j := ?e]\<rparr>"
    have res: "remaining_add hash rc x = Some ?rc" using i(2) small c by (simp add: remaining_add_def Let_def checked_add_def)
    have "rm_ok hash ?rc" using recount_ok [OF ok j(1), of "re_count (?es ! ?j) + 1"] small c by simp
    then show ?thesis using res rm_count_upd [OF d j(1), of "re_count (?es ! ?j) + 1"] c j(2) by simp
  next
    case False
    obtain i where i: "i < ?n" "remaining_find hash rc x = Some (Inl i)" "?T i = None"
        "\<forall>q < ?n. cdist ?n (remaining_bucket hash rc x) q < cdist ?n (remaining_bucket hash rc x) i \<longrightarrow> ?T q \<noteq> None"
      using find False by auto
    let ?e = "\<lparr>re_identity = x, re_count = 1\<rparr>"
    let ?rc = "rc\<lparr>rm_lookup := ?l[i := length ?es], rm_entries := ?es @ [?e]\<rparr>"
    have room': "length ?es < rm_limit rc" using room False by simp
    have res: "remaining_add hash rc x = Some ?rc" using i(2) room' by (simp add: remaining_add_def)
    have lim: "rm_limit rc < ?n" "rm_limit rc \<le> USIZE_MAX" using shape by (auto simp: rm_shape_def)
    have T: "rm_table (?es @ [?e]) (?l[i := length ?es]) q = (?T(i \<mapsto> x)) q" if "q < ?n" for q
      using that rng [of q] i(1) room' lim by (auto simp: rm_table_def nth_append nth_list_update)
    have card: "card (table_keys ?n ?T) + 1 < ?n"
      using d room' lim(1) unfolding keys remaining_identities_def distinct_card [OF d] by simp
    have free: "\<exists>e < ?n. e \<noteq> i \<and> ?T e = None" by (rule free_slots [OF tab _ card i(1)]) (simp add: keys)
    have fill: "table_ok ?n (remaining_bucket hash rc) (?T(i \<mapsto> x)) \<and> table_keys ?n (?T(i \<mapsto> x)) = insert x (table_keys ?n ?T)"
      by (rule fill_table_ok [OF tab i(1,3) _ i(4) free]) (use False keys in simp)
    have "rm_shape ?rc"
      using shape False room' lim i(1) rng [THEN less_SucI] by (auto simp: rm_shape_def remaining_identities_def nth_list_update USIZE_MAX_def)
    moreover have "table_ok ?n (remaining_bucket hash rc) (rm_table (?es @ [?e]) (?l[i := length ?es]))"
      using fill table_cong(1) [of ?n "rm_table (?es @ [?e]) (?l[i := length ?es])" "?T(i \<mapsto> x)"] T by blast
    moreover have "table_keys ?n (rm_table (?es @ [?e]) (?l[i := length ?es])) = set (remaining_identities ?rc)"
      using fill table_cong(2) [of ?n "rm_table (?es @ [?e]) (?l[i := length ?es])" "?T(i \<mapsto> x)"] T keys
      by (simp add: remaining_identities_def del: fun_upd_apply)
    ultimately have "rm_ok hash ?rc" using remaining_bucket_cong [of ?rc rc hash] by (simp add: rm_ok_def)
    moreover have "rm_count ?rc = (rm_count rc)(x := rm_count rc x + 1)"
      using rm_count_none [OF False] by (auto simp: fun_eq_iff rm_count_def)
    ultimately show ?thesis using res by simp
  qed
qed

section \<open>Removing\<close>

lemma shift_loop_ok:
  assumes "rm_shape rc" "shifting (length (rm_lookup rc)) (remaining_bucket hash rc) (rm_table (rm_entries rc) (rm_lookup rc)) hole s e"
    "cdist (length (rm_lookup rc)) s e < fuel"
  shows "\<exists>l. shift_loop fuel hash rc hole s = Some (rc\<lparr>rm_lookup := l\<rparr>) \<and> length l = length (rm_lookup rc) \<and> rm_shape (rc\<lparr>rm_lookup := l\<rparr>) \<and>
    table_ok (length (rm_lookup rc)) (remaining_bucket hash rc) (rm_table (rm_entries rc) l) \<and>
    table_keys (length (rm_lookup rc)) (rm_table (rm_entries rc) l) = table_keys (length (rm_lookup rc)) (rm_table (rm_entries rc) (rm_lookup rc))"
  using assms
proof (induction fuel arbitrary: rc hole s)
  case (Suc fuel)
  let ?n = "length (rm_lookup rc)" and ?home = "remaining_bucket hash rc" and ?l = "rm_lookup rc"
  let ?T = "rm_table (rm_entries rc) ?l"
  have n: "power_of_two ?n" "1 < ?n" "?n \<le> 2 ^ 64" and home: "\<And>k. ?home k < ?n" using Suc.prems(1) by (simp_all add: rm_shape_def)
  have b: "hole < ?n" "s < ?n" "hole \<noteq> s" using Suc.prems(2) by (auto simp: shifting_def shift_inv_def)
  note slot = remaining_slot_table [OF Suc.prems(1) b(2)]
  show ?case
  proof (cases "?T s")
    case None
    have "shift_loop (Suc fuel) hash rc hole s = Some (rc\<lparr>rm_lookup := ?l\<rparr>)" using slot None by simp
    then show ?thesis using shifting_end [OF home Suc.prems(2) None] Suc.prems(1) by (intro exI [of _ ?l]) simp
  next
    case (Some k)
    note nx = shifting_next [OF n(1) Suc.prems(2) Some]
    have dist: "wrap_index ?n (wrapping_sub a (?home k)) = cdist ?n (?home k) a" if "a < ?n" for a
      unfolding wrapping_sub_def by (rule wrapping_distance [OF n(1,3) home that])
    show ?thesis
    proof (cases "cdist ?n (?home k) hole < cdist ?n (?home k) s")
      case False
      have "shift_loop (Suc fuel) hash rc hole s = shift_loop fuel hash rc hole (next_index ?n s)"
        using slot Some False dist b by (simp add: Let_def)
      moreover have "shifting ?n ?home ?T hole (next_index ?n s) e" by (rule shifting_keep [OF n(1) Suc.prems(2) Some False])
      ultimately show ?thesis using Suc.IH [of rc hole "next_index ?n s"] Suc.prems nx(1) by simp
    next
      case True
      let ?l1 = "?l[hole := ?l ! s, s := USIZE_MAX]"
      let ?rc1 = "rc\<lparr>rm_lookup := ?l1\<rparr>"
      have eq: "shift_loop (Suc fuel) hash rc hole s = shift_loop fuel hash ?rc1 s (next_index ?n s)"
        using slot Some True dist b by (simp add: Let_def)
      have T1: "rm_table (rm_entries rc) ?l1 q = (?T(hole \<mapsto> k, s := None)) q" for q
        using Some b by (auto simp: rm_table_def nth_list_update split: if_splits)
      then have T1: "rm_table (rm_entries rc) ?l1 = ?T(hole \<mapsto> k, s := None)" by (rule ext)
      have mv: "shifting ?n ?home (?T(hole \<mapsto> k, s := None)) s (next_index ?n s) e"
          "table_keys ?n (?T(hole \<mapsto> k, s := None)) = table_keys ?n ?T"
        using shifting_move [OF n(1,2) home Suc.prems(2) Some True] by auto
      have shape1: "rm_shape ?rc1" using Suc.prems(1) b Some by (auto simp: rm_shape_def nth_list_update rm_table_def split: if_splits)
      have sel: "rm_entries ?rc1 = rm_entries rc" "rm_lookup ?rc1 = ?l1" "length ?l1 = ?n" by simp_all
      have home1: "remaining_bucket hash ?rc1 = ?home" by (rule remaining_bucket_cong) simp
      have "cdist ?n (next_index ?n s) e < fuel" using Suc.prems(3) nx(1) by simp
      from Suc.IH [OF shape1, unfolded sel home1 T1, OF mv(1) this] obtain l
        where "shift_loop fuel hash ?rc1 s (next_index ?n s) = Some (?rc1\<lparr>rm_lookup := l\<rparr>)" "length l = ?n" "rm_shape (?rc1\<lparr>rm_lookup := l\<rparr>)"
          "table_ok ?n ?home (rm_table (rm_entries rc) l)" "table_keys ?n (rm_table (rm_entries rc) l) = table_keys ?n (?T(hole \<mapsto> k, s := None))"
        by blast
      then show ?thesis unfolding eq using mv(2) by (intro exI [of _ l]) simp
    qed
  qed
qed simp

lemma dense_mset:
  assumes "j < length es"
  shows "mset es = add_mset (es ! j) (mset (butlast (es[j := es ! (length es - 1)])))"
proof -
  let ?w = "es[j := es ! (length es - 1)]"
  have ne: "?w \<noteq> []" "es \<noteq> []" using assms by auto
  have "last ?w = es ! (length es - 1)" using ne assms by (simp add: last_conv_nth nth_list_update)
  then have "mset ?w = add_mset (es ! (length es - 1)) (mset (butlast ?w))"
    using append_butlast_last_id [OF ne(1)] by (metis mset.simps(2) mset_append mset.simps(1) union_mset_add_mset_right add.right_neutral)
  moreover have "mset ?w = add_mset (es ! (length es - 1)) (mset es - {#es ! j#})" using mset_update [OF assms] by simp
  ultimately have "mset (butlast ?w) = mset es - {#es ! j#}" by simp
  then show ?thesis using assms by simp
qed

lemma dense_facts:
  assumes "distinct (map re_identity es)" "j < length es" "es' = butlast (es[j := es ! (length es - 1)])"
  shows "distinct (map re_identity es')" "re_identity ` set es' = re_identity ` set es - {re_identity (es ! j)}" "set es' \<subseteq> set es"
    "length es' = length es - 1"
proof -
  have m: "mset es = add_mset (es ! j) (mset es')" unfolding assms(3) by (rule dense_mset [OF assms(2)])
  then have im: "mset (map re_identity es) = mset (re_identity (es ! j) # map re_identity es')" by (simp add: mset_map)
  then have "distinct (re_identity (es ! j) # map re_identity es')" using assms(1) mset_eq_imp_distinct_iff by blast
  then show "distinct (map re_identity es')" "re_identity ` set es' = re_identity ` set es - {re_identity (es ! j)}"
    using mset_eq_setD [OF im] by auto
  show "set es' \<subseteq> set es" using mset_eq_setD [of es "es ! j # es'"] m by auto
  show "length es' = length es - 1" using arg_cong [OF m, of size] by simp
qed

lemma rm_count_mset: "rm_count rc x = sum_mset (image_mset re_count (filter_mset (\<lambda>e. re_identity e = x) (mset (rm_entries rc))))"
  by (simp add: rm_count_def flip: sum_mset_sum_list mset_map mset_filter)

text \<open>After the repair the dense array closes up; the last entry's slot, if it moved, is redirected.\<close>

lemma dense_ok:
  assumes shape: "rm_shape rc" and tab: "table_ok (length (rm_lookup rc)) (remaining_bucket hash rc) (rm_table (rm_entries rc) (rm_lookup rc))"
    and j: "j < length (rm_entries rc)"
    and keys: "table_keys (length (rm_lookup rc)) (rm_table (rm_entries rc) (rm_lookup rc)) =
      set (remaining_identities rc) - {re_identity (rm_entries rc ! j)}"
    and es': "es' = butlast ((rm_entries rc)[j := rm_entries rc ! (length (rm_entries rc) - 1)])"
    and l': "length l' = length (rm_lookup rc)" "\<And>q. q < length (rm_lookup rc) \<Longrightarrow> rm_lookup rc ! q \<noteq> length (rm_entries rc) - 1 \<Longrightarrow> l' ! q = rm_lookup rc ! q"
      "\<And>q. q < length (rm_lookup rc) \<Longrightarrow> rm_lookup rc ! q = length (rm_entries rc) - 1 \<Longrightarrow> j \<noteq> length (rm_entries rc) - 1 \<and> l' ! q = j"
  shows "rm_ok hash (rc\<lparr>rm_entries := es', rm_lookup := l'\<rparr>)"
proof -
  let ?n = "length (rm_lookup rc)" and ?es = "rm_entries rc" and ?l = "rm_lookup rc"
  let ?rc = "rc\<lparr>rm_entries := es', rm_lookup := l'\<rparr>" and ?last = "length (rm_entries rc) - 1"
  have d: "distinct (map re_identity ?es)" and rng: "\<And>i. i < ?n \<Longrightarrow> ?l ! i \<noteq> USIZE_MAX \<Longrightarrow> ?l ! i < length ?es"
    and lim: "length ?es \<le> rm_limit rc" "rm_limit rc \<le> USIZE_MAX" using shape by (auto simp: rm_shape_def)
  note dense = dense_facts [OF d j es']
  have gone: "?l ! q \<noteq> j" if "q < ?n" for q
  proof
    assume "?l ! q = j"
    then have "re_identity (?es ! j) \<in> table_keys ?n (rm_table ?es ?l)"
      using that j lim by (auto simp: table_keys_def rm_table_def intro!: exI [of _ q])
    then show False using keys by blast
  qed
  have nth: "es' ! m = (if m = j then ?es ! ?last else ?es ! m)" if "m < ?last" for m
    using that j unfolding es' by (simp add: nth_butlast nth_list_update)
  have jl: "j < ?last" if "j \<noteq> ?last" using that j by linarith
  have rng': "l' ! q < ?last" if q: "q < ?n" "l' ! q \<noteq> USIZE_MAX" for q
    using l'(2,3) [OF q(1)] rng [OF q(1)] q(2) jl by (cases "?l ! q = ?last") fastforce+
  have T: "rm_table es' l' q = rm_table ?es ?l q" if q: "q < ?n" for q
  proof (cases "?l ! q = ?last")
    case True
    then have "j \<noteq> ?last" "l' ! q = j" using l'(3) [OF q] by auto
    then show ?thesis using True nth [of j] jl j lim by (auto simp: rm_table_def)
  next
    case False
    then have l'q: "l' ! q = ?l ! q" using l'(2) [OF q] by simp
    show ?thesis using l'q rng' [OF q] gone [OF q] nth [of "?l ! q"] by (auto simp: rm_table_def)
  qed
  have "rm_shape ?rc" using shape dense rng' l'(1) j lim by (auto simp: rm_shape_def)
  moreover have "remaining_bucket hash ?rc = remaining_bucket hash rc" by (rule remaining_bucket_cong) (simp add: l'(1))
  moreover have "table_keys ?n (rm_table ?es ?l) = set (remaining_identities ?rc)"
    using keys dense(2) by (simp add: remaining_identities_def)
  ultimately show ?thesis using tab table_cong [OF T] l'(1) by (simp add: rm_ok_def)
qed

lemma rm_count_dense:
  assumes "j < length (rm_entries rc)" "re_count (rm_entries rc ! j) = rm_count rc x" "re_identity (rm_entries rc ! j) = x"
    "mset (rm_entries rc) = add_mset (rm_entries rc ! j) (mset (rm_entries rc'))"
  shows "rm_count rc' = (rm_count rc)(x := 0)"
  using assms(2,3) by (auto simp: fun_eq_iff rm_count_mset assms(4))

lemma rm_remove_ok:
  assumes ok: "rm_ok hash rc"
  shows "\<exists>rc'. remaining_remove hash rc x = Some rc' \<and> rm_ok hash rc' \<and> rm_count rc' = (rm_count rc)(x := rm_count rc x - 1) \<and>
    rm_limit rc' = rm_limit rc"
proof -
  let ?n = "length (rm_lookup rc)" and ?es = "rm_entries rc" and ?l = "rm_lookup rc" and ?home = "remaining_bucket hash rc"
  let ?T = "rm_table ?es ?l"
  have shape: "rm_shape rc" and tab: "table_ok ?n ?home ?T" and keys: "table_keys ?n ?T = set (remaining_identities rc)"
    using ok by (auto simp: rm_ok_def)
  have n: "power_of_two ?n" "1 < ?n" and d: "distinct (map re_identity ?es)"
    and rng: "\<And>i. i < ?n \<Longrightarrow> ?l ! i \<noteq> USIZE_MAX \<Longrightarrow> ?l ! i < length ?es" using shape by (auto simp: rm_shape_def)
  note find = rm_find_ok [OF shape tab, of x, unfolded keys]
  show ?thesis
  proof (cases "x \<in> set (remaining_identities rc)")
    case False
    then show ?thesis using find ok rm_count_none [OF False] by (auto simp: remaining_remove_def fun_eq_iff)
  next
    case True
    then obtain i where i: "i < ?n" "remaining_find hash rc x = Some (Inr i)" "?T i = Some x" using find by auto
    let ?j = "?l ! i"
    have j: "?j < length ?es" "re_identity (?es ! ?j) = x" using i rng by (auto simp: rm_table_def split: if_splits)
    have c: "re_count (?es ! ?j) = rm_count rc x" using rm_count_at [OF d j(1)] j(2) by simp
    show ?thesis
    proof (cases "1 < re_count (?es ! ?j)")
      case more: True
      let ?e = "(?es ! ?j)\<lparr>re_count := re_count (?es ! ?j) - 1\<rparr>"
      let ?rc = "rc\<lparr>rm_entries := ?es[?j := ?e]\<rparr>"
      have "re_count (?es ! ?j) \<le> USIZE_MAX" using shape j(1) by (auto simp: rm_shape_def)
      then have "rm_ok hash ?rc" using recount_ok [OF ok j(1), of "re_count (?es ! ?j) - 1"] more by simp
      then show ?thesis
        using i(2) more rm_count_upd [OF d j(1), of "re_count (?es ! ?j) - 1"] c j(2) by (simp add: remaining_remove_def Let_def)
    next
      case once: False
      have "0 < re_count (?es ! ?j)" using shape j(1) by (auto simp: rm_shape_def)
      then have one: "rm_count rc x = 1" using once c by linarith
      let ?rc0 = "rc\<lparr>rm_lookup := ?l[i := USIZE_MAX]\<rparr>"
      have T0: "rm_table ?es (?l[i := USIZE_MAX]) = ?T(i := None)"
        using i(1) by (auto simp: fun_eq_iff rm_table_def nth_list_update)
      have shape0: "rm_shape ?rc0" using shape i(1) by (auto simp: rm_shape_def nth_list_update)
      have home0: "remaining_bucket hash ?rc0 = ?home" by (rule remaining_bucket_cong) simp
      have sel: "rm_entries ?rc0 = ?es" "rm_lookup ?rc0 = ?l[i := USIZE_MAX]" "length (?l[i := USIZE_MAX]) = ?n" by simp_all
      obtain e where e: "shifting ?n ?home (?T(i := None)) i (next_index ?n i) e" using shifting_start [OF n tab i(1,3)] by blast
      then have "cdist ?n (next_index ?n i) e < ?n" by (intro cdist_less) (auto simp: shifting_def n)
      from shift_loop_ok [where hash = hash, OF shape0, unfolded sel home0 T0, OF e this] obtain l
        where l: "shift_loop ?n hash ?rc0 i (next_index ?n i) = Some (?rc0\<lparr>rm_lookup := l\<rparr>)" "length l = ?n" "rm_shape (?rc0\<lparr>rm_lookup := l\<rparr>)"
          "table_ok ?n ?home (rm_table ?es l)" "table_keys ?n (rm_table ?es l) = table_keys ?n (?T(i := None))" by blast
      let ?rc1 = "rc\<lparr>rm_lookup := l\<rparr>"
      have rc1: "?rc0\<lparr>rm_lookup := l\<rparr> = ?rc1" by simp
      have home1: "remaining_bucket hash ?rc1 = ?home" by (rule remaining_bucket_cong) (simp add: l(2))
      have keys1: "table_keys ?n (rm_table ?es l) = set (remaining_identities rc) - {x}"
        using l(5) shift_start [OF n tab i(1,3)] keys by simp
      let ?last = "length ?es - 1"
      let ?es' = "butlast (?es[?j := ?es ! ?last])"
      have rng1: "\<And>q. q < ?n \<Longrightarrow> l ! q \<noteq> USIZE_MAX \<Longrightarrow> l ! q < length ?es" using l(2,3) unfolding rc1 by (auto simp: rm_shape_def)
      have big: "length ?es \<le> USIZE_MAX" using shape by (auto simp: rm_shape_def)
      have gone: "l ! q \<noteq> ?j" if "q < ?n" for q
      proof
        assume "l ! q = ?j"
        then have "x \<in> table_keys ?n (rm_table ?es l)" using that j big by (auto simp: table_keys_def rm_table_def intro!: exI [of _ q])
        then show False using keys1 by blast
      qed
      obtain l' where l': "remaining_remove hash rc x = Some (?rc1\<lparr>rm_entries := ?es', rm_lookup := l'\<rparr>)" "length l' = ?n"
          "\<And>q. q < ?n \<Longrightarrow> l ! q \<noteq> ?last \<Longrightarrow> l' ! q = l ! q" "\<And>q. q < ?n \<Longrightarrow> l ! q = ?last \<Longrightarrow> ?j \<noteq> ?last \<and> l' ! q = ?j"
      proof (cases "?j = ?last")
        case True
        have "remaining_remove hash rc x = Some (?rc1\<lparr>rm_entries := ?es', rm_lookup := l\<rparr>)"
          using i(2) once l(1) True by (simp add: remaining_remove_def Let_def)
        then show ?thesis using that l(2) gone True by metis
      next
        case False
        then have last: "?last < length ?es" "?last \<noteq> ?j" using j(1) by linarith+
        let ?y = "re_identity (?es ! ?last)"
        have "?y \<noteq> x" using d last j by (auto simp: distinct_conv_nth)
        then have "?y \<in> table_keys ?n (rm_table ?es l)" unfolding keys1 using last(1) by (auto simp: remaining_identities_def)
        moreover have sh1: "rm_shape ?rc1" using l(3) by simp
        ultimately obtain m where m: "m < ?n" "remaining_find hash ?rc1 ?y = Some (Inr m)" "rm_table ?es l m = Some ?y"
          using rm_find_ok [OF sh1, of hash ?y] l(2,4) home1 by auto
        have at: "l ! q = ?last \<longleftrightarrow> q = m" if "q < ?n" for q
        proof
          assume "l ! q = ?last"
          then have "rm_table ?es l q = Some ?y" using last(1) big by (auto simp: rm_table_def)
          then show "q = m" using l(4) m that unfolding table_ok_def by blast
        next
          assume "q = m"
          then have "l ! q < length ?es" "re_identity (?es ! (l ! q)) = ?y" using m rng1 [of m] by (auto simp: rm_table_def split: if_splits)
          then show "l ! q = ?last" using d last(1) by (auto simp: distinct_conv_nth)
        qed
        have "remaining_remove hash rc x = Some (?rc1\<lparr>rm_entries := ?es', rm_lookup := l[m := ?j]\<rparr>)"
          using i(2) once l(1) False m(2) by (simp add: remaining_remove_def Let_def)
        then show ?thesis
          by (rule that) (use l(2) at m(1) False in \<open>auto simp: nth_list_update\<close>)
      qed
      have sel1: "rm_entries ?rc1 = ?es" "rm_lookup ?rc1 = l" "remaining_identities ?rc1 = remaining_identities rc"
        by (simp_all add: remaining_identities_def)
      have "rm_ok hash (?rc1\<lparr>rm_entries := ?es', rm_lookup := l'\<rparr>)"
      proof (rule dense_ok [where j = ?j], unfold sel1 home1 l(2))
        show "rm_shape ?rc1" using l(3) by simp
        show "table_keys ?n (rm_table ?es l) = set (remaining_identities rc) - {re_identity (?es ! ?j)}" using keys1 j(2) by simp
      qed (use l(4) j(1) l' in auto)
      moreover have "rm_count (?rc1\<lparr>rm_entries := ?es', rm_lookup := l'\<rparr>) = (rm_count rc)(x := 0)"
        by (rule rm_count_dense [OF j(1) c j(2)]) (use dense_mset [OF j(1)] in simp)
      ultimately show ?thesis using l'(1) one by simp
    qed
  qed
qed

section \<open>Properties\<close>

lemma empty_rm_ok:
  assumes "power_of_two n" "1 < n" "n \<le> 2 ^ 64" "limit < n"
  shows "rm_ok hash \<lparr>rm_entries = [], rm_lookup = replicate n USIZE_MAX, rm_limit = limit\<rparr>"
proof -
  have "limit \<le> USIZE_MAX" using assms(3,4) by (simp add: USIZE_MAX_def)
  then show ?thesis using assms
    by (auto simp: rm_ok_def rm_shape_def table_ok_def reachable_table_def table_keys_def rm_table_def remaining_identities_def)
qed

lemma identities_positive: "rm_ok hash rc \<Longrightarrow> set (remaining_identities rc) = {x. 0 < rm_count rc x}"
proof (intro equalityI subsetI)
  fix x assume ok: "rm_ok hash rc" and "x \<in> set (remaining_identities rc)"
  then obtain j where "j < length (rm_entries rc)" "x = re_identity (rm_entries rc ! j)"
    by (auto simp: remaining_identities_def in_set_conv_nth)
  then show "x \<in> {x. 0 < rm_count rc x}" using ok rm_count_at [of rc j] by (auto simp: rm_ok_def rm_shape_def)
next
  fix x assume "x \<in> {x. 0 < rm_count rc x}"
  then show "x \<in> set (remaining_identities rc)" using rm_count_none [of x rc] by fastforce
qed

lemma remaining_clear_ok:
  assumes "rm_ok hash rc"
  shows "rm_ok hash (remaining_clear rc) \<and> rm_count (remaining_clear rc) = (\<lambda>y. 0) \<and> rm_limit (remaining_clear rc) = rm_limit rc"
proof (intro conjI)
  have shape: "rm_shape rc" using assms by (simp add: rm_ok_def)
  show "rm_ok hash (remaining_clear rc)"
    using assms empty_rm_ok [of "length (rm_lookup rc)" "rm_limit rc" hash] shape
    by (cases rc) (auto simp: remaining_clear_def rm_shape_def)
qed (auto simp: fun_eq_iff rm_count_def remaining_clear_def)

lemma remaining_new_ok:
  assumes "te_grants env" "remaining_new env width capacity budget = (Inr rc, left)"
  shows "rm_ok hash rc \<and> rm_count rc = (\<lambda>x. 0) \<and> rm_limit rc = capacity \<and> left \<le> budget"
proof -
  obtain p slots c1 left1 c2 left2 where s: "0 < capacity" "checked_next_power_of_two capacity = Some p" "checked_mul p 2 = Some slots"
      "reserved_vec env width capacity budget = (Inr c1, left1)" "reserved_vec env USIZE_BYTES slots left1 = (Inr c2, left2)"
      "rc = \<lparr>rm_entries = [], rm_lookup = replicate slots USIZE_MAX, rm_limit = capacity\<rparr>" "left = left2"
    using assms(2)
    by (auto simp: remaining_new_def result_simps bind_eq_Some_conv split: option.splits if_splits prod.splits sum.splits)
  have p: "power_of_two p" "capacity \<le> p" using checked_next_power_of_two_Some [OF s(2)] by auto
  have slots: "slots = p * 2" "slots \<le> USIZE_MAX" using s(3) by (auto simp: checked_mul_def split: if_splits)
  have "power_of_two slots" using p(1) slots(1) by (auto simp: power_of_two_def) (metis power_Suc mult.commute)
  then have "rm_ok hash rc" unfolding s(6) by (rule empty_rm_ok) (use s(1) p(2) slots in \<open>auto simp: USIZE_MAX_def\<close>)
  moreover have "left \<le> budget" using reserved_vec_Inr [OF assms(1) s(4)] reserved_vec_Inr [OF assms(1) s(5)] s(7) by linarith
  ultimately show ?thesis using s(6) by (simp add: rm_count_def fun_eq_iff)
qed

text \<open>
  the counters implement a multiset of identities. Adding an identity that is present, or any one
  while the dense array has room, raises its count by one; removing lowers it by one and does
  nothing to an identity that is absent; both keep every other count and the invariant, and neither
  panics nor probes for ever, whatever the seeded hasher. The dense iteration lists exactly the
  identities of positive count, each once, and \<open>clear\<close> forgets them all.
\<close>

theorem remaining_counts_multiset:
  assumes "rm_ok hash rc"
  shows "(rm_count rc x < USIZE_MAX \<and> (0 < rm_count rc x \<or> length (rm_entries rc) < rm_limit rc) \<longrightarrow>
      (\<exists>rc'. remaining_add hash rc x = Some rc' \<and> rm_ok hash rc' \<and> rm_count rc' = (rm_count rc)(x := rm_count rc x + 1))) \<and>
    (\<exists>rc'. remaining_remove hash rc x = Some rc' \<and> rm_ok hash rc' \<and> rm_count rc' = (rm_count rc)(x := rm_count rc x - 1)) \<and>
    distinct (remaining_identities rc) \<and> set (remaining_identities rc) = {y. 0 < rm_count rc y} \<and>
    rm_ok hash (remaining_clear rc) \<and> rm_count (remaining_clear rc) = (\<lambda>y. 0)"
proof -
  have shape: "rm_shape rc" using assms by (simp add: rm_ok_def)
  have pos: "0 < rm_count rc x \<longleftrightarrow> x \<in> set (remaining_identities rc)" using identities_positive [OF assms] by auto
  have "distinct (remaining_identities rc)" using shape by (simp add: rm_shape_def remaining_identities_def)
  moreover have "rm_count rc x < USIZE_MAX \<and> (0 < rm_count rc x \<or> length (rm_entries rc) < rm_limit rc) \<longrightarrow>
      (\<exists>rc'. remaining_add hash rc x = Some rc' \<and> rm_ok hash rc' \<and> rm_count rc' = (rm_count rc)(x := rm_count rc x + 1))"
    using rm_add_ok [OF assms, of x] pos by blast
  ultimately show ?thesis using remaining_clear_ok [OF assms] rm_remove_ok [OF assms, of x] identities_positive [OF assms] by blast
qed

theorem remaining_counts_multiset_witness:
  "\<exists>rc. remaining_add (\<lambda>x. 3) \<lparr>rm_entries = [], rm_lookup = replicate 4 USIZE_MAX, rm_limit = 2\<rparr> (sample_identity 1) = Some rc \<and>
     rm_ok (\<lambda>x. 3) rc \<and> rm_count rc (sample_identity 1) = 1"
proof -
  let ?rc = "\<lparr>rm_entries = [], rm_lookup = replicate 4 USIZE_MAX, rm_limit = 2\<rparr>"
  have "power_of_two 4" unfolding power_of_two_def by (rule exI [of _ 2]) simp
  then have ok: "rm_ok (\<lambda>x. 3) ?rc" by (rule empty_rm_ok) simp_all
  have "rm_count ?rc (sample_identity 1) = 0" by (simp add: rm_count_def)
  then show ?thesis using remaining_counts_multiset [OF ok, of "sample_identity 1"] by (auto simp: USIZE_MAX_def)
qed

end
