(* ===== verification/TickIndex.thy ===== *)
theory TickIndex
  imports TickRemaining
begin

unbundle bit_operations_syntax

text \<open>
  \<open>SchedulingIndex\<close> of \<^verbatim>\<open>src/world/ticks/order_index.rs\<close>: the map from packed chunk keys to the next
  trigger time of the chunk, as an open-addressed table whose placement history decides the order of
  a scan. Bucket keys are never zero; the key zero is stored apart. A scan walks the buckets downwards
  and may remove the entry it is at; entries that the repair moves across bucket zero are remembered
  and visited at the end. \<open>None\<close> is a failed assertion, a panic or a probe that never ends.
\<close>

section \<open>Operations\<close>

definition INITIAL_CAPACITY :: nat where "INITIAL_CAPACITY = 32"
definition MAX_CAPACITY :: nat where "MAX_CAPACITY = 2 ^ 30"

record Slot =
  sl_key :: int
  sl_time :: int

definition EMPTY_SLOT :: Slot where "EMPTY_SLOT = \<lparr>sl_key = 0, sl_time = 0\<rparr>"

datatype Current = CurrentZero | CurrentBucket nat | CurrentWrapped int

record IndexScan =
  ix_remaining :: nat
  ix_before :: nat
  ix_zero_pending :: bool
  ix_wrapped_next :: nat
  ix_current :: "Current option"

record SchedulingIndex =
  si_slots :: "Slot list"
  si_scratch :: "Slot list"
  si_wrapped :: "int list"
  si_capacity :: nat
  si_max_keys :: nat
  si_len :: nat
  si_zero :: "int option"
  si_scan :: "IndexScan option"
  si_slots_capacity :: nat
  si_scratch_capacity :: nat
  si_wrapped_capacity :: nat

definition max_fill :: "nat \<Rightarrow> nat" where
  "max_fill capacity = capacity div 4 * 3"

definition mix :: "int \<Rightarrow> u64" where
  "mix key =
    (let product = (word_of_int key :: u64) * 0x9e3779b97f4a7c15; high_folded = product XOR drop_bit 32 product in
     high_folded XOR drop_bit 16 high_folded)"

text \<open>The sizes of \<open>Slot\<close> and \<open>i64\<close>.\<close>

definition SLOT_BYTES :: nat where "SLOT_BYTES = 16"
definition I64_BYTES :: nat where "I64_BYTES = 8"

text \<open>The doubling loop of \<open>new\<close>.\<close>

partial_function (option) physical_capacity :: "nat \<Rightarrow> nat \<Rightarrow> nat option" where
  "physical_capacity max_keys p = (if max_keys > max_fill p then physical_capacity max_keys (p * 2) else Some p)"

definition index_new :: "tick_env \<Rightarrow> nat \<Rightarrow> nat \<Rightarrow> (TickError + SchedulingIndex) option" where
  "index_new env max_keys allocation_limit =
    (if max_keys > max_fill MAX_CAPACITY then Some (Inl InvalidLimits)
     else Option.bind (physical_capacity max_keys INITIAL_CAPACITY) (\<lambda>p.
       (case Option.bind (checked_mul p (SLOT_BYTES * 2)) (\<lambda>tables.
               Option.bind (checked_mul max_keys I64_BYTES) (\<lambda>wrapped. checked_add tables wrapped)) of
          None \<Rightarrow> Some (Inl InvalidLimits)
        | Some requested \<Rightarrow>
            if requested > allocation_limit then Some (Inl AllocationBudget)
            else Some (fst (bind_b (reserved_vec env SLOT_BYTES p allocation_limit) (\<lambda>c1 left1.
              bind_b (reserved_vec env SLOT_BYTES p left1) (\<lambda>c2 left2.
                bind_b (reserved_vec env I64_BYTES max_keys left2) (\<lambda>c3 left3.
                  (Inr \<lparr>si_slots = replicate p EMPTY_SLOT, si_scratch = replicate p EMPTY_SLOT, si_wrapped = [],
                     si_capacity = INITIAL_CAPACITY, si_max_keys = max_keys, si_len = 0, si_zero = None, si_scan = None,
                     si_slots_capacity = c1, si_scratch_capacity = c2, si_wrapped_capacity = c3\<rparr>, left3)))))))))"

definition index_heap_bytes :: "SchedulingIndex \<Rightarrow> nat" where
  "index_heap_bytes idx = (si_slots_capacity idx + si_scratch_capacity idx) * SLOT_BYTES + si_wrapped_capacity idx * I64_BYTES"

definition index_home :: "nat \<Rightarrow> int \<Rightarrow> nat" where
  "index_home capacity key = wrap_index capacity (unat (mix key))"

definition index_entry :: "Slot list \<Rightarrow> nat \<Rightarrow> int option option" where
  "index_entry slots i =
    (if i < length slots then Some (if sl_key (slots ! i) = 0 then None else Some (sl_key (slots ! i))) else None)"

definition find_bucket :: "SchedulingIndex \<Rightarrow> int \<Rightarrow> nat option" where
  "find_bucket idx key =
    map_option (\<lambda>r. case r of Inl i \<Rightarrow> i | Inr i \<Rightarrow> i)
      (probe (si_capacity idx) (si_capacity idx) (index_entry (si_slots idx)) key (index_home (si_capacity idx) key))"

definition index_get :: "SchedulingIndex \<Rightarrow> int \<Rightarrow> int option option" where
  "index_get idx key =
    (if key = 0 then Some (si_zero idx)
     else Option.bind (find_bucket idx key) (\<lambda>i.
       Some (if sl_key (si_slots idx ! i) = key then Some (sl_time (si_slots idx ! i)) else None)))"

text \<open>\<open>rehash\<close>: the entries of the current table, from the last bucket down, go to their places in the other.\<close>

fun free_bucket :: "nat \<Rightarrow> nat \<Rightarrow> Slot list \<Rightarrow> nat \<Rightarrow> nat option" where
  "free_bucket 0 n slots i = None"
| "free_bucket (Suc fuel) n slots i =
    (if i < length slots then (if sl_key (slots ! i) \<noteq> 0 then free_bucket fuel n slots (next_index n i) else Some i) else None)"

fun rehash_loop :: "nat \<Rightarrow> Slot list \<Rightarrow> Slot list \<Rightarrow> Slot list option" where
  "rehash_loop n out [] = Some out"
| "rehash_loop n out (entry # entries) =
    (if sl_key entry = 0 then rehash_loop n out entries
     else Option.bind (free_bucket n n out (index_home n (sl_key entry))) (\<lambda>i. rehash_loop n (out[i := entry]) entries))"

definition rehash :: "SchedulingIndex \<Rightarrow> nat \<Rightarrow> SchedulingIndex option" where
  "rehash idx capacity =
    (if capacity \<le> length (si_scratch idx) \<and> si_capacity idx \<le> length (si_slots idx)
     then Option.bind
       (rehash_loop capacity (replicate capacity EMPTY_SLOT @ drop capacity (si_scratch idx)) (rev (take (si_capacity idx) (si_slots idx))))
       (\<lambda>out. Some (idx\<lparr>si_slots := out, si_scratch := si_slots idx, si_capacity := capacity,
          si_slots_capacity := si_scratch_capacity idx, si_scratch_capacity := si_slots_capacity idx\<rparr>))
     else None)"

definition index_put :: "SchedulingIndex \<Rightarrow> int \<Rightarrow> int \<Rightarrow> ((TickError + unit) \<times> SchedulingIndex) option" where
  "index_put idx key time =
    (let admit = (\<lambda>placed.
       if si_scan idx \<noteq> None then None
       else if si_len idx = si_max_keys idx then Some (Inl ChunkLimit, idx)
       else (let idx' = placed\<lparr>si_len := si_len idx + 1\<rparr> in
         if si_len idx' > max_fill (si_capacity idx')
         then Option.bind (rehash idx' (si_capacity idx' * 2)) (\<lambda>idx''. Some (Inr (), idx''))
         else Some (Inr (), idx')))
     in if key = 0 then
          (if si_zero idx \<noteq> None then Some (Inr (), idx\<lparr>si_zero := Some time\<rparr>) else admit (idx\<lparr>si_zero := Some time\<rparr>))
        else Option.bind (find_bucket idx key) (\<lambda>i.
          if sl_key (si_slots idx ! i) = key
          then Some (Inr (), idx\<lparr>si_slots := (si_slots idx)[i := (si_slots idx ! i)\<lparr>sl_time := time\<rparr>]\<rparr>)
          else admit (idx\<lparr>si_slots := (si_slots idx)[i := \<lparr>sl_key = key, sl_time = time\<rparr>]\<rparr>)))"

text \<open>The repair after a removal: the hole moves through the cluster to its end.\<close>

fun close_loop :: "nat \<Rightarrow> bool \<Rightarrow> SchedulingIndex \<Rightarrow> nat \<Rightarrow> nat \<Rightarrow> SchedulingIndex option" where
  "close_loop 0 preserve_scan idx hole candidate = None"
| "close_loop (Suc fuel) preserve_scan idx hole candidate =
    (case index_entry (si_slots idx) candidate of
       None \<Rightarrow> None
     | Some None \<Rightarrow> Some (idx\<lparr>si_slots := (si_slots idx)[hole := EMPTY_SLOT]\<rparr>)
     | Some (Some key) \<Rightarrow>
         (let n = si_capacity idx; home = index_home n key;
            distance_to_hole = wrap_index n (wrapping_sub hole home); distance_to_entry = wrap_index n (wrapping_sub candidate home);
            moved = idx\<lparr>si_slots := (si_slots idx)[hole := si_slots idx ! candidate]\<rparr>
          in if distance_to_hole < distance_to_entry
             then (if preserve_scan \<and> candidate < hole
                   then (if length (si_wrapped idx) < si_max_keys idx
                         then close_loop fuel preserve_scan (moved\<lparr>si_wrapped := si_wrapped idx @ [key]\<rparr>) candidate (next_index n candidate)
                         else None)
                   else close_loop fuel preserve_scan moved candidate (next_index n candidate))
             else close_loop fuel preserve_scan idx hole (next_index n candidate)))"

definition close_hole :: "SchedulingIndex \<Rightarrow> nat \<Rightarrow> bool \<Rightarrow> SchedulingIndex option" where
  "close_hole idx hole preserve_scan = close_loop (si_capacity idx) preserve_scan idx hole (next_index (si_capacity idx) hole)"

definition remove_key :: "SchedulingIndex \<Rightarrow> int \<Rightarrow> (int option \<times> SchedulingIndex) option" where
  "remove_key idx key =
    (let shrink = (\<lambda>time left.
       let idx' = left\<lparr>si_len := si_len left - 1\<rparr> in
       if INITIAL_CAPACITY < si_capacity idx' \<and> si_len idx' < max_fill (si_capacity idx') div 4
       then Option.bind (rehash idx' (si_capacity idx' div 2)) (\<lambda>idx''. Some (Some time, idx''))
       else Some (Some time, idx'))
     in if key = 0 then
          (case si_zero idx of None \<Rightarrow> Some (None, idx) | Some time \<Rightarrow> shrink time (idx\<lparr>si_zero := None\<rparr>))
        else Option.bind (find_bucket idx key) (\<lambda>i.
          if sl_key (si_slots idx ! i) = 0 then Some (None, idx)
          else Option.bind (close_hole idx i False) (shrink (sl_time (si_slots idx ! i)))))"

definition index_remove :: "SchedulingIndex \<Rightarrow> int \<Rightarrow> (int option \<times> SchedulingIndex) option" where
  "index_remove idx key = (if si_scan idx = None then remove_key idx key else None)"

definition begin_scan :: "SchedulingIndex \<Rightarrow> SchedulingIndex option" where
  "begin_scan idx =
    (if si_scan idx = None
     then Some (idx\<lparr>si_wrapped := [], si_scan := Some \<lparr>ix_remaining = si_len idx, ix_before = si_capacity idx,
            ix_zero_pending = (si_zero idx \<noteq> None), ix_wrapped_next = 0, ix_current = None\<rparr>\<rparr>)
     else None)"

text \<open>The downward walk of \<open>next_entry\<close> to the next occupied bucket.\<close>

primrec prev_bucket :: "Slot list \<Rightarrow> nat \<Rightarrow> nat option" where
  "prev_bucket slots 0 = None"
| "prev_bucket slots (Suc i) = (if sl_key (slots ! i) \<noteq> 0 then Some i else prev_bucket slots i)"

definition next_entry :: "SchedulingIndex \<Rightarrow> ((int \<times> int) option \<times> SchedulingIndex) option" where
  "next_entry idx =
    (case si_scan idx of
       None \<Rightarrow> None
     | Some sc \<Rightarrow>
         if ix_remaining sc = 0 then Some (None, idx)
         else (let sc = sc\<lparr>ix_remaining := ix_remaining sc - 1\<rparr> in
           if ix_zero_pending sc
           then (case si_zero idx of
                   None \<Rightarrow> None
                 | Some time \<Rightarrow>
                     Some (Some (0, time), idx\<lparr>si_scan := Some (sc\<lparr>ix_zero_pending := False, ix_current := Some CurrentZero\<rparr>)\<rparr>))
           else if length (si_slots idx) < ix_before sc then None
           else (case prev_bucket (si_slots idx) (ix_before sc) of
               Some i \<Rightarrow>
                 Some (Some (sl_key (si_slots idx ! i), sl_time (si_slots idx ! i)),
                   idx\<lparr>si_scan := Some (sc\<lparr>ix_before := i, ix_current := Some (CurrentBucket i)\<rparr>)\<rparr>)
             | None \<Rightarrow>
                 if ix_wrapped_next sc < length (si_wrapped idx)
                 then (let key = si_wrapped idx ! ix_wrapped_next sc in
                   (case index_get idx key of
                      Some (Some time) \<Rightarrow>
                        Some (Some (key, time),
                          idx\<lparr>si_scan := Some (sc\<lparr>ix_before := 0, ix_wrapped_next := ix_wrapped_next sc + 1,
                                ix_current := Some (CurrentWrapped key)\<rparr>)\<rparr>)
                    | _ \<Rightarrow> None))
                 else None)))"

definition remove_current :: "SchedulingIndex \<Rightarrow> SchedulingIndex option" where
  "remove_current idx =
    Option.bind (si_scan idx) (\<lambda>sc. Option.bind (ix_current sc) (\<lambda>current.
      (let idx = idx\<lparr>si_scan := Some (sc\<lparr>ix_current := None\<rparr>)\<rparr> in
       (case current of
          CurrentZero \<Rightarrow> Some (idx\<lparr>si_zero := None, si_len := si_len idx - 1\<rparr>)
        | CurrentBucket i \<Rightarrow> Option.bind (close_hole idx i True) (\<lambda>idx'. Some (idx'\<lparr>si_len := si_len idx' - 1\<rparr>))
        | CurrentWrapped key \<Rightarrow>
            Option.bind (remove_key idx key) (\<lambda>(removed, idx'). if removed \<noteq> None then Some idx' else None)))))"

definition finish_scan :: "SchedulingIndex \<Rightarrow> SchedulingIndex option" where
  "finish_scan idx = (if si_scan idx = None then None else Some (idx\<lparr>si_scan := None, si_wrapped := []\<rparr>))"

end
