(* ===== verification/TickIndexLaws.thy ===== *)
theory TickIndexLaws
  imports TickIndex
begin

text \<open>
  The scheduling index is a finite map from keys to times. The table of keys obeys the probing
  invariant; \<open>index_rel\<close> collects the entries, the one of key zero among them.
\<close>

section \<open>Tables of pairs\<close>

lemma finite_table_keys [simp]: "finite (table_keys n T)"
proof (rule finite_subset)
  show "table_keys n T \<subseteq> (\<lambda>i. the (T i)) ` {..<n}"
  proof
    fix k assume "k \<in> table_keys n T"
    then obtain i where "i < n" "T i = Some k" by (auto simp: table_keys_def)
    then show "k \<in> (\<lambda>i. the (T i)) ` {..<n}" by (intro image_eqI [of _ _ i]) simp_all
  qed
qed simp

lemma table_keys_fst: "table_keys n (\<lambda>i. map_option fst (T i)) = fst ` table_keys n T"
  by (fastforce simp: table_keys_def image_iff)

lemma table_pairs:
  "table_ok n h (\<lambda>i. map_option fst (T i)) \<longleftrightarrow> table_ok n (\<lambda>e. h (fst e)) T \<and> single_valued (table_keys n T)"
proof
  assume ok: "table_ok n h (\<lambda>i. map_option fst (T i))"
  have uniq: "i = j" if "i < n" "j < n" "T i = Some (k, v)" "T j = Some (k, w)" for i j k v w
    using ok that unfolding table_ok_def by (metis fst_conv option.simps(9))
  have "reachable_table n (\<lambda>e. h (fst e)) T"
    unfolding reachable_table_def
  proof (intro allI impI)
    fix i e q assume "i < n \<and> T i = Some e \<and> q < n \<and> cdist n (h (fst e)) q < cdist n (h (fst e)) i"
    then have "map_option fst (T q) \<noteq> None" using ok unfolding table_ok_def reachable_table_def by (metis option.simps(9))
    then show "T q \<noteq> None" by simp
  qed
  moreover have "\<exists>e < n. T e = None" using ok unfolding table_ok_def by auto
  moreover have "single_valued (table_keys n T)"
  proof (rule single_valuedI)
    fix k v w assume "(k, v) \<in> table_keys n T" "(k, w) \<in> table_keys n T"
    then obtain i j where "i < n" "j < n" "T i = Some (k, v)" "T j = Some (k, w)" by (auto simp: table_keys_def)
    then show "v = w" using uniq by (metis option.inject snd_conv)
  qed
  ultimately show "table_ok n (\<lambda>e. h (fst e)) T \<and> single_valued (table_keys n T)"
    unfolding table_ok_def using uniq by (metis prod.collapse)
next
  assume a: "table_ok n (\<lambda>e. h (fst e)) T \<and> single_valued (table_keys n T)"
  have "reachable_table n h (\<lambda>i. map_option fst (T i))"
    unfolding reachable_table_def
  proof (intro allI impI)
    fix i k q assume b: "i < n \<and> map_option fst (T i) = Some k \<and> q < n \<and> cdist n (h k) q < cdist n (h k) i"
    then obtain v where "T i = Some (k, v)" by auto
    then have "T q \<noteq> None" using a b unfolding table_ok_def reachable_table_def by (metis fst_conv)
    then show "map_option fst (T q) \<noteq> None" by simp
  qed
  moreover have "i = j" if b: "i < n" "j < n" "map_option fst (T i) = Some k" "map_option fst (T j) = Some k" for i j k
  proof -
    obtain v w where vw: "T i = Some (k, v)" "T j = Some (k, w)" using b(3,4) by (auto simp: map_option_eq_Some)
    then have "(k, v) \<in> table_keys n T" "(k, w) \<in> table_keys n T" using b by (auto simp: table_keys_def)
    then have "v = w" using a unfolding single_valued_def by blast
    then show "i = j" using a vw b(1,2) unfolding table_ok_def by blast
  qed
  moreover have "\<exists>e < n. map_option fst (T e) = None" using a by (auto simp: table_ok_def)
  ultimately show "table_ok n h (\<lambda>i. map_option fst (T i))" unfolding table_ok_def by blast
qed

section \<open>The invariant\<close>

definition slot_entry :: "Slot \<Rightarrow> (int \<times> int) option" where
  "slot_entry s = (if sl_key s = 0 then None else Some (sl_key s, sl_time s))"

definition index_table :: "Slot list \<Rightarrow> (int \<times> int) table" where
  "index_table slots i = slot_entry (slots ! i)"

abbreviation index_keys :: "Slot list \<Rightarrow> int table" where
  "index_keys slots \<equiv> (\<lambda>i. map_option fst (index_table slots i))"

definition index_bound :: "SchedulingIndex \<Rightarrow> (int \<times> int) set" where
  "index_bound idx = table_keys (si_capacity idx) (index_table (si_slots idx))"

definition index_rel :: "SchedulingIndex \<Rightarrow> (int \<times> int) set" where
  "index_rel idx = index_bound idx \<union> {(k, v). k = 0 \<and> si_zero idx = Some v}"

definition index_shape :: "SchedulingIndex \<Rightarrow> bool" where
  "index_shape idx \<longleftrightarrow> power_of_two (si_capacity idx) \<and> INITIAL_CAPACITY \<le> si_capacity idx \<and> si_capacity idx \<le> length (si_slots idx) \<and>
    length (si_scratch idx) = length (si_slots idx) \<and> power_of_two (length (si_slots idx)) \<and> length (si_slots idx) \<le> MAX_CAPACITY \<and>
    si_max_keys idx \<le> max_fill (length (si_slots idx)) \<and>
    table_ok (si_capacity idx) (index_home (si_capacity idx)) (index_keys (si_slots idx))"

definition index_ok :: "SchedulingIndex \<Rightarrow> bool" where
  "index_ok idx \<longleftrightarrow> index_shape idx \<and> si_len idx = card (index_rel idx) \<and> si_len idx \<le> si_max_keys idx \<and>
    si_len idx \<le> max_fill (si_capacity idx)"

lemma index_entry_keys: "i < length slots \<Longrightarrow> index_entry slots i = Some (index_keys slots i)"
  by (simp add: index_entry_def index_table_def slot_entry_def)

lemma index_home_less [simp]: "power_of_two n \<Longrightarrow> index_home n k < n"
  by (simp add: index_home_def)

lemma index_bound_nonzero: "(k, v) \<in> index_bound idx \<Longrightarrow> k \<noteq> 0"
  by (auto simp: index_bound_def table_keys_def index_table_def slot_entry_def split: if_splits)

lemma finite_index_rel [simp]: "finite (index_rel idx)" "finite (index_bound idx)"
proof -
  have "{(k, v). k = (0 :: int) \<and> si_zero idx = Some v} \<subseteq> {(0, the (si_zero idx))}" by auto
  then show "finite (index_bound idx)" "finite (index_rel idx)"
    by (auto simp: index_rel_def index_bound_def intro: finite_subset)
qed

lemma card_index_rel: "card (index_rel idx) = card (index_bound idx) + (if si_zero idx = None then 0 else 1)"
proof (cases "si_zero idx")
  case None
  then show ?thesis by (simp add: index_rel_def)
next
  case (Some t)
  then have "index_rel idx = insert (0, t) (index_bound idx)" by (auto simp: index_rel_def)
  moreover have "(0, t) \<notin> index_bound idx" using index_bound_nonzero by blast
  ultimately show ?thesis using Some by simp
qed

lemma max_fill_less: "32 \<le> c \<Longrightarrow> max_fill c + 2 < c"
  by (simp add: max_fill_def)

lemma index_room: "index_ok idx \<Longrightarrow> card (index_bound idx) + 2 < si_capacity idx"
  using max_fill_less [of "si_capacity idx"] by (auto simp: index_ok_def index_shape_def card_index_rel INITIAL_CAPACITY_def)

lemma find_bucket_ok:
  assumes "index_shape idx" "k \<noteq> 0"
  shows "\<exists>i < si_capacity idx. find_bucket idx k = Some i \<and>
    ((\<exists>v. (k, v) \<in> index_bound idx \<and> index_table (si_slots idx) i = Some (k, v)) \<or>
     k \<notin> fst ` index_bound idx \<and> index_table (si_slots idx) i = None \<and>
       (\<forall>q < si_capacity idx. cdist (si_capacity idx) (index_home (si_capacity idx) k) q < cdist (si_capacity idx) (index_home (si_capacity idx) k) i \<longrightarrow>
          index_keys (si_slots idx) q \<noteq> None))"
proof -
  let ?n = "si_capacity idx" and ?K = "index_keys (si_slots idx)" and ?T = "index_table (si_slots idx)"
  have n: "power_of_two ?n" "?n \<le> length (si_slots idx)" and ok: "table_ok ?n (index_home ?n) ?K" using assms(1) by (auto simp: index_shape_def)
  have lk: "\<And>i. i < ?n \<Longrightarrow> index_entry (si_slots idx) i = Some (?K i)" using index_entry_keys n(2) by simp
  note probe = probe_home [where lookup = "index_entry (si_slots idx)" and T = ?K and home = "index_home ?n" and k = k, OF n(1) lk ok]
  have keys: "table_keys ?n ?K = fst ` index_bound idx" by (simp add: table_keys_fst index_bound_def)
  show ?thesis
  proof (cases "k \<in> table_keys ?n ?K")
    case True
    then obtain i where i: "i < ?n" "probe ?n ?n (index_entry (si_slots idx)) k (index_home ?n k) = Some (Inr i)" "?K i = Some k"
      using probe n(1) by auto
    then obtain v where "?T i = Some (k, v)" by auto
    moreover from this have "(k, v) \<in> index_bound idx" using i(1) by (auto simp: index_bound_def table_keys_def)
    ultimately show ?thesis using i by (intro exI [of _ i]) (auto simp: find_bucket_def)
  next
    case False
    then obtain i where i: "i < ?n" "probe ?n ?n (index_entry (si_slots idx)) k (index_home ?n k) = Some (Inl i)" "?K i = None"
        "\<forall>q < ?n. cdist ?n (index_home ?n k) q < cdist ?n (index_home ?n k) i \<longrightarrow> ?K q \<noteq> None"
      using probe n(1) by auto
    then show ?thesis using False unfolding keys by (intro exI [of _ i]) (simp add: find_bucket_def)
  qed
qed

lemma index_single_valued: "index_shape idx \<Longrightarrow> single_valued (index_rel idx)"
proof -
  assume "index_shape idx"
  then have "single_valued (index_bound idx)" by (simp add: index_shape_def table_pairs index_bound_def)
  then show ?thesis unfolding single_valued_def index_rel_def by (auto dest: index_bound_nonzero)
qed

lemma slot_entry_Some: "slot_entry s = Some (k, v) \<longleftrightarrow> k \<noteq> 0 \<and> sl_key s = k \<and> sl_time s = v"
  by (auto simp: slot_entry_def)

lemma slot_entry_None: "slot_entry s = None \<longleftrightarrow> sl_key s = 0"
  by (auto simp: slot_entry_def)

lemma index_get_ok:
  assumes "index_shape idx"
  shows "\<exists>r. index_get idx k = Some r \<and> (\<forall>v. r = Some v \<longleftrightarrow> (k, v) \<in> index_rel idx)"
proof (cases "k = 0")
  case True
  then show ?thesis using index_bound_nonzero by (auto simp: index_get_def index_rel_def)
next
  case False
  obtain i where i: "find_bucket idx k = Some i"
      "(\<exists>v. (k, v) \<in> index_bound idx \<and> index_table (si_slots idx) i = Some (k, v)) \<or>
       k \<notin> fst ` index_bound idx \<and> index_table (si_slots idx) i = None"
    using find_bucket_ok [OF assms False] by blast
  have rel: "(k, v) \<in> index_rel idx \<longleftrightarrow> (k, v) \<in> index_bound idx" for v using False by (auto simp: index_rel_def)
  have sv: "single_valued (index_rel idx)" by (rule index_single_valued [OF assms])
  from i(2) show ?thesis
  proof
    assume "\<exists>v. (k, v) \<in> index_bound idx \<and> index_table (si_slots idx) i = Some (k, v)"
    then obtain v where v: "(k, v) \<in> index_rel idx" "sl_key (si_slots idx ! i) = k" "sl_time (si_slots idx ! i) = v"
      unfolding index_table_def slot_entry_Some rel by blast
    then have "index_get idx k = Some (Some v)" using i(1) False by (simp add: index_get_def)
    then show ?thesis using v(1) sv by (auto dest: single_valuedD)
  next
    assume "k \<notin> fst ` index_bound idx \<and> index_table (si_slots idx) i = None"
    then have "sl_key (si_slots idx ! i) = 0" "\<And>v. (k, v) \<notin> index_rel idx"
      unfolding index_table_def slot_entry_None rel by force+
    then show ?thesis using i(1) False by (simp add: index_get_def)
  qed
qed

text \<open>The map an index stands for.\<close>

definition index_map :: "SchedulingIndex \<Rightarrow> int \<Rightarrow> int option" where
  "index_map idx k = (case index_get idx k of Some r \<Rightarrow> r | None \<Rightarrow> None)"

lemma index_get_map: "index_shape idx \<Longrightarrow> index_get idx k = Some (index_map idx k)"
  using index_get_ok [of idx k] by (auto simp: index_map_def)

lemma index_map_iff:
  assumes "index_shape idx"
  shows "index_map idx k = Some v \<longleftrightarrow> (k, v) \<in> index_rel idx"
proof -
  obtain r where r: "index_get idx k = Some r" "\<forall>v. r = Some v \<longleftrightarrow> (k, v) \<in> index_rel idx" using index_get_ok [OF assms] by blast
  then have "index_map idx k = r" by (simp add: index_map_def)
  then show ?thesis using r(2) by simp
qed

lemma index_map_eqI:
  assumes "index_shape idx" "\<And>k v. (k, v) \<in> index_rel idx \<longleftrightarrow> m k = Some v"
  shows "index_map idx = m"
proof
  fix k
  have "index_map idx k = Some v \<longleftrightarrow> m k = Some v" for v using index_map_iff [OF assms(1)] assms(2) by simp
  then show "index_map idx k = m k" by (metis not_Some_eq)
qed

section \<open>Rehashing\<close>

lemma free_bucket_probe:
  assumes "\<And>i. i < n \<Longrightarrow> index_keys slots i \<noteq> Some k" "n \<le> length slots" "power_of_two n" "i < n"
  shows "free_bucket fuel n slots i = map_option (\<lambda>r. case r of Inl i \<Rightarrow> i | Inr i \<Rightarrow> i) (probe fuel n (index_entry slots) k i)"
  using assms(4)
proof (induction fuel arbitrary: i)
  case (Suc fuel)
  have "index_entry slots i = Some (index_keys slots i)" using index_entry_keys Suc.prems assms(2) by simp
  moreover have "sl_key (slots ! i) \<noteq> 0 \<longleftrightarrow> index_keys slots i \<noteq> None" by (simp add: index_table_def slot_entry_None)
  moreover have "i < length slots" using Suc.prems assms(2) by simp
  ultimately show ?case using Suc.IH [of "next_index n i"] assms(1) [OF Suc.prems] assms(3) by (auto split: option.splits)
qed simp

definition slots_rel :: "Slot set \<Rightarrow> (int \<times> int) set" where
  "slots_rel S = {e. \<exists>s \<in> S. slot_entry s = Some e}"

lemma finite_slots_rel [simp]: "finite S \<Longrightarrow> finite (slots_rel S)"
proof (rule finite_subset)
  show "slots_rel S \<subseteq> (\<lambda>s. the (slot_entry s)) ` S" by (force simp: slots_rel_def)
qed simp

lemma table_rel_take: "n \<le> length slots \<Longrightarrow> table_keys n (index_table slots) = slots_rel (set (take n slots))"
proof -
  assume n: "n \<le> length slots"
  have "set (take n slots) = (!) slots ` {0..<n}" using nth_image [OF n] by simp
  then show ?thesis by (auto simp: table_keys_def index_table_def slots_rel_def)
qed

lemma table_keys_put: "i < n \<Longrightarrow> T i = None \<Longrightarrow> table_keys n (T(i \<mapsto> e)) = insert e (table_keys n T)"
proof (intro equalityI subsetI)
  fix x assume i: "i < n" "T i = None" and "x \<in> insert e (table_keys n T)"
  then consider "x = e" | j where "j < n" "T j = Some x" by (auto simp: table_keys_def)
  then show "x \<in> table_keys n (T(i \<mapsto> e))"
  proof cases
    case 1
    then show ?thesis using i unfolding table_keys_def by auto
  next
    case 2
    then have "(T(i \<mapsto> e)) j = Some x" using i by auto
    then show ?thesis using 2(1) unfolding table_keys_def by blast
  qed
qed (auto simp: table_keys_def split: if_splits)

lemma store_slot:
  assumes "n \<le> length slots" "i < n" "sl_key e \<noteq> 0"
  shows "index_table (slots[i := e]) = (index_table slots)(i \<mapsto> (sl_key e, sl_time e))"
    "index_keys (slots[i := e]) = (index_keys slots)(i \<mapsto> sl_key e)"
  using assms by (auto simp: fun_eq_iff index_table_def slot_entry_def nth_list_update)

text \<open>One entry placed in a table that has room for it and does not hold its key.\<close>

lemma place_entry:
  assumes n: "power_of_two n" "n \<le> length out" and tab: "table_ok n (index_home n) (index_keys out)"
    and e: "sl_key e \<noteq> 0" "sl_key e \<notin> fst ` table_keys n (index_table out)" and room: "card (table_keys n (index_table out)) + 1 < n"
    and i: "i < n" "index_table out i = None"
      "\<forall>q < n. cdist n (index_home n (sl_key e)) q < cdist n (index_home n (sl_key e)) i \<longrightarrow> index_keys out q \<noteq> None"
  shows "table_ok n (index_home n) (index_keys (out[i := e]))"
    "table_keys n (index_table (out[i := e])) = insert (sl_key e, sl_time e) (table_keys n (index_table out))"
proof -
  have keys: "table_keys n (index_keys out) = fst ` table_keys n (index_table out)" by (rule table_keys_fst)
  have sv: "single_valued (table_keys n (index_table out))" using tab by (simp add: table_pairs)
  have "inj_on fst (table_keys n (index_table out))" using sv by (auto simp: inj_on_def single_valued_def)
  then have card: "card (table_keys n (index_keys out)) + 1 < n" using room unfolding keys by (simp add: card_image)
  have free: "\<exists>f < n. f \<noteq> i \<and> index_keys out f = None" by (rule free_slots [OF tab _ card i(1)]) simp
  have new: "sl_key e \<notin> table_keys n (index_keys out)" using e(2) unfolding keys .
  have none: "index_keys out i = None" using i(2) by simp
  note fill = fill_table_ok [OF tab i(1) none new i(3) free]
  note st = store_slot [OF n(2) i(1) e(1)]
  show "table_ok n (index_home n) (index_keys (out[i := e]))" unfolding st(2) using fill by blast
  show "table_keys n (index_table (out[i := e])) = insert (sl_key e, sl_time e) (table_keys n (index_table out))"
    unfolding st(1) by (rule table_keys_put) (use i in simp_all)
qed

lemma rehash_loop_ok:
  assumes "power_of_two n" "n \<le> length out" "table_ok n (index_home n) (index_keys out)"
    "sorted_wrt (\<lambda>a b. sl_key a \<noteq> 0 \<longrightarrow> sl_key a \<noteq> sl_key b) es"
    "\<And>e. e \<in> set es \<Longrightarrow> sl_key e \<noteq> 0 \<Longrightarrow> sl_key e \<notin> fst ` table_keys n (index_table out)"
    "card (table_keys n (index_table out) \<union> slots_rel (set es)) + 1 < n"
  shows "\<exists>out'. rehash_loop n out es = Some out' \<and> length out' = length out \<and> table_ok n (index_home n) (index_keys out') \<and>
    table_keys n (index_table out') = table_keys n (index_table out) \<union> slots_rel (set es)"
  using assms(2-)
proof (induction es arbitrary: out)
  case Nil
  then show ?case by (simp add: slots_rel_def)
next
  case (Cons e es)
  show ?case
  proof (cases "sl_key e = 0")
    case True
    then have "slots_rel (set (e # es)) = slots_rel (set es)" by (auto simp: slots_rel_def slot_entry_def)
    then show ?thesis using Cons.IH [OF Cons.prems(1,2)] Cons.prems True by simp
  next
    case False
    let ?k = "sl_key e" and ?T = "index_table out"
    have rel: "slots_rel (set (e # es)) = insert (?k, sl_time e) (slots_rel (set es))"
      using False by (auto simp: slots_rel_def slot_entry_def)
    have new: "?k \<notin> fst ` table_keys n ?T" using Cons.prems(4) False by simp
    have "card (table_keys n ?T) \<le> card (table_keys n ?T \<union> slots_rel (set (e # es)))" by (rule card_mono) auto
    then have room: "card (table_keys n ?T) + 1 < n" using Cons.prems(5) by linarith
    have new': "?k \<notin> table_keys n (index_keys out)" using new unfolding table_keys_fst .
    have lk: "\<And>i. i < n \<Longrightarrow> index_entry out i = Some (index_keys out i)" using index_entry_keys Cons.prems(1) by simp
    obtain i where i: "i < n" "probe n n (index_entry out) ?k (index_home n ?k) = Some (Inl i)" "index_keys out i = None"
        "\<forall>q < n. cdist n (index_home n ?k) q < cdist n (index_home n ?k) i \<longrightarrow> index_keys out q \<noteq> None"
      using probe_home [where lookup = "index_entry out" and T = "index_keys out" and home = "index_home n" and k = ?k,
          OF assms(1) lk Cons.prems(2)] new' assms(1) by auto
    have "index_keys out q \<noteq> Some ?k" if "q < n" for q using new' that by (auto simp: table_keys_def)
    then have fb: "free_bucket n n out (index_home n ?k) = Some i"
      using free_bucket_probe [of n out ?k "index_home n ?k" n] Cons.prems(1) assms(1) i(2) by simp
    have iT: "?T i = None" using i(3) by simp
    note place = place_entry [OF assms(1) Cons.prems(1,2) False new room i(1) iT i(4)]
    have "\<exists>out'. rehash_loop n (out[i := e]) es = Some out' \<and> length out' = length (out[i := e]) \<and> table_ok n (index_home n) (index_keys out') \<and>
        table_keys n (index_table out') = table_keys n (index_table (out[i := e])) \<union> slots_rel (set es)"
    proof (rule Cons.IH)
      show "n \<le> length (out[i := e])" using Cons.prems(1) by simp
      show "table_ok n (index_home n) (index_keys (out[i := e]))" by (rule place(1))
      show "sorted_wrt (\<lambda>a b. sl_key a \<noteq> 0 \<longrightarrow> sl_key a \<noteq> sl_key b) es" using Cons.prems(3) by simp
      show "sl_key f \<notin> fst ` table_keys n (index_table (out[i := e]))" if "f \<in> set es" "sl_key f \<noteq> 0" for f
        unfolding place(2) using Cons.prems(3,4) that False by auto
      show "card (table_keys n (index_table (out[i := e])) \<union> slots_rel (set es)) + 1 < n"
        unfolding place(2) using Cons.prems(5) unfolding rel by simp
    qed
    then show ?thesis using False fb unfolding rel place(2) by auto
  qed
qed

lemma empty_table: "index_table (replicate n EMPTY_SLOT @ xs) i = None" if "i < n"
  using that by (simp add: index_table_def slot_entry_def EMPTY_SLOT_def nth_append)

text \<open>
  Rehashing to a power of two that fits the other physical table and leaves a free bucket keeps the
  entries.
\<close>

lemma rehash_ok:
  assumes shape: "index_shape idx" and cap: "power_of_two c" "INITIAL_CAPACITY \<le> c" "c \<le> length (si_slots idx)"
    and room: "card (index_bound idx) + 1 < c"
  shows "\<exists>idx'. rehash idx c = Some idx' \<and> index_shape idx' \<and> index_rel idx' = index_rel idx \<and> si_capacity idx' = c \<and>
    si_len idx' = si_len idx \<and> si_max_keys idx' = si_max_keys idx \<and> si_scan idx' = si_scan idx \<and> si_wrapped idx' = si_wrapped idx \<and>
    index_heap_bytes idx' = index_heap_bytes idx"
proof -
  let ?n = "si_capacity idx" and ?slots = "si_slots idx" and ?out = "replicate c EMPTY_SLOT @ drop c (si_scratch idx)"
  have n: "?n \<le> length ?slots" "length (si_scratch idx) = length ?slots" and tab: "table_ok ?n (index_home ?n) (index_keys ?slots)"
    using shape by (auto simp: index_shape_def)
  have none: "index_table ?out i = None" if "i < c" for i using empty_table [OF that] .
  have ktab: "table_keys c (index_table ?out) = {}" using none by (auto simp: table_keys_def)
  have c0: "0 < c" by (rule power_of_two_pos [OF cap(1)])
  have otab: "table_ok c (index_home c) (index_keys ?out)"
    unfolding table_ok_def reachable_table_def using none c0 by auto
  have diff: "sl_key (?slots ! j) \<noteq> sl_key (?slots ! i)" if ij: "i < j" "j < ?n" "sl_key (?slots ! j) \<noteq> 0" for i j
  proof
    assume eq: "sl_key (?slots ! j) = sl_key (?slots ! i)"
    then have "index_keys ?slots i = Some (sl_key (?slots ! j))" "index_keys ?slots j = Some (sl_key (?slots ! j))"
      using ij(3) by (auto simp: index_table_def slot_entry_def)
    then have "i = j" using tab ij unfolding table_ok_def by (metis less_trans)
    then show False using ij by simp
  qed
  have sorted: "sorted_wrt (\<lambda>a b. sl_key a \<noteq> 0 \<longrightarrow> sl_key a \<noteq> sl_key b) (rev (take ?n ?slots))"
    unfolding sorted_wrt_rev unfolding sorted_wrt_iff_nth_less using diff n(1) by simp
  have rel: "slots_rel (set (rev (take ?n ?slots))) = index_bound idx"
    using table_rel_take [OF n(1)] by (simp add: index_bound_def)
  obtain out where out: "rehash_loop c ?out (rev (take ?n ?slots)) = Some out" "length out = length ?out"
      "table_ok c (index_home c) (index_keys out)" "table_keys c (index_table out) = index_bound idx"
    using rehash_loop_ok [OF cap(1) _ otab sorted, unfolded rel ktab] room by auto
  let ?idx = "idx\<lparr>si_slots := out, si_scratch := ?slots, si_capacity := c,
      si_slots_capacity := si_scratch_capacity idx, si_scratch_capacity := si_slots_capacity idx\<rparr>"
  have "rehash idx c = Some ?idx" using out(1) cap(3) n by (simp add: rehash_def)
  moreover have len: "length out = length ?slots" using out(2) n(2) cap(3) by simp
  moreover have "index_shape ?idx" using shape cap out(3) len by (simp add: index_shape_def)
  moreover have "index_rel ?idx = index_rel idx" using out(4) by (simp add: index_rel_def index_bound_def)
  ultimately show ?thesis by (simp add: index_heap_bytes_def add.commute)
qed

end
