(* ===== verification/TickIndexRemoval.thy ===== *)
theory TickIndexRemoval
  imports TickIndexLaws
begin

text \<open>
  Insertion into and removal from the scheduling index, on the map it stands for. The repair of a
  removal is the backward shift of \<^theory_text>\<open>Probing\<close>, with the hole still holding its old entry; when it
  runs under a scan, it also records the entry that crosses bucket zero.
\<close>

section \<open>Insertion\<close>

definition index_frame :: "SchedulingIndex \<Rightarrow> SchedulingIndex \<Rightarrow> bool" where
  "index_frame idx idx' \<longleftrightarrow> si_max_keys idx' = si_max_keys idx \<and> si_scan idx' = si_scan idx \<and> si_wrapped idx' = si_wrapped idx \<and>
    index_heap_bytes idx' = index_heap_bytes idx"

lemma index_frame_refl [simp]: "index_frame idx idx"
  by (simp add: index_frame_def)

lemma index_frame_trans: "index_frame a b \<Longrightarrow> index_frame b c \<Longrightarrow> index_frame a c"
  by (simp add: index_frame_def)

lemma power_of_two_double: "power_of_two a \<Longrightarrow> power_of_two b \<Longrightarrow> a < b \<Longrightarrow> a * 2 \<le> b"
proof -
  assume "power_of_two a" "power_of_two b" "a < b"
  then obtain m l where ml: "a = 2 ^ m" "b = 2 ^ l" "m < l" by (auto simp: power_of_two_def)
  then have "(2 :: nat) ^ Suc m \<le> 2 ^ l" by (intro power_increasing) simp_all
  then show ?thesis using ml by simp
qed

lemma power_of_two_twice: "power_of_two n \<Longrightarrow> power_of_two (n * 2)"
  unfolding power_of_two_def by (metis power_Suc2)

lemma power_of_two_half: "power_of_two n \<Longrightarrow> 1 < n \<Longrightarrow> power_of_two (n div 2) \<and> n div 2 * 2 = n"
proof -
  assume "power_of_two n" "1 < n"
  then obtain m where m: "n = 2 ^ m" by (auto simp: power_of_two_def)
  then obtain l where "n = 2 ^ l * 2" using \<open>1 < n\<close> by (cases m) auto
  then show ?thesis by (auto simp: power_of_two_def)
qed

lemma max_fill_mono: "a \<le> b \<Longrightarrow> max_fill a \<le> max_fill b"
  by (simp add: max_fill_def div_le_mono)

lemma index_map_put:
  assumes "index_shape idx" "index_shape idx'" "index_rel idx' = {e \<in> index_rel idx. fst e \<noteq> k} \<union> {(k, t)}"
  shows "index_map idx' = (index_map idx)(k \<mapsto> t)"
proof (rule index_map_eqI [OF assms(2)])
  fix j v
  show "(j, v) \<in> index_rel idx' \<longleftrightarrow> ((index_map idx)(k \<mapsto> t)) j = Some v"
    unfolding assms(3) using index_map_iff [OF assms(1), of j v] by auto
qed

lemma index_map_dom: "index_shape idx \<Longrightarrow> k \<in> fst ` index_rel idx \<longleftrightarrow> index_map idx k \<noteq> None"
  using index_map_iff [of idx k] by (force simp: image_iff)

lemma rel_bound: "k \<noteq> 0 \<Longrightarrow> (k, v) \<in> index_rel idx \<longleftrightarrow> (k, v) \<in> index_bound idx"
  by (auto simp: index_rel_def)

text \<open>Changing the time of a key that is present.\<close>

lemma index_put_present:
  assumes ok: "index_ok idx" and k: "index_map idx k \<noteq> None"
  shows "\<exists>idx'. index_put idx k t = Some (Inr (), idx') \<and> index_ok idx' \<and> index_map idx' = (index_map idx)(k \<mapsto> t) \<and>
    index_frame idx idx' \<and> si_capacity idx' = si_capacity idx \<and> (si_zero idx' = None \<longleftrightarrow> si_zero idx = None) \<and>
    index_keys (si_slots idx') = index_keys (si_slots idx)"
proof -
  have shape: "index_shape idx" using ok by (simp add: index_ok_def)
  obtain v where v: "(k, v) \<in> index_rel idx" using k index_map_iff [OF shape] by blast
  have sv: "single_valued (index_rel idx)" by (rule index_single_valued [OF shape])
  have drop_k: "{e \<in> index_rel idx. fst e \<noteq> k} = index_rel idx - {(k, v)}" using v sv by (auto dest: single_valuedD)
  have card: "card ({e \<in> index_rel idx. fst e \<noteq> k} \<union> {(k, t)}) = card (index_rel idx)"
    unfolding drop_k using v sv card_Suc_Diff1 [OF finite_index_rel(1) v] by (subst card_Un_disjoint) (auto dest: single_valuedD)
  obtain idx' where idx': "index_put idx k t = Some (Inr (), idx')" "index_rel idx' = {e \<in> index_rel idx. fst e \<noteq> k} \<union> {(k, t)}"
      "index_shape idx'" "index_frame idx idx'" "si_capacity idx' = si_capacity idx" "si_zero idx' = None \<longleftrightarrow> si_zero idx = None"
      "index_keys (si_slots idx') = index_keys (si_slots idx)" "si_len idx' = si_len idx"
  proof (cases "k = 0")
    case True
    let ?idx = "idx\<lparr>si_zero := Some t\<rparr>"
    have z: "si_zero idx \<noteq> None" using v True index_bound_nonzero by (auto simp: index_rel_def)
    have "index_rel ?idx = {e \<in> index_rel idx. fst e \<noteq> 0} \<union> {(0, t)}"
      using index_bound_nonzero [of 0 _ idx] by (auto simp: index_rel_def index_bound_def)
    then show ?thesis using that [of ?idx] True z shape by (auto simp: index_put_def index_shape_def index_frame_def index_heap_bytes_def)
  next
    case False
    let ?n = "si_capacity idx" and ?T = "index_table (si_slots idx)"
    obtain i w where i: "i < ?n" "find_bucket idx k = Some i" "?T i = Some (k, w)"
      using find_bucket_ok [OF shape False] v rel_bound [OF False] by (force simp: image_iff)
    let ?slot = "(si_slots idx ! i)\<lparr>sl_time := t\<rparr>"
    let ?idx = "idx\<lparr>si_slots := (si_slots idx)[i := ?slot]\<rparr>"
    have key: "sl_key (si_slots idx ! i) = k" using i(3) by (simp add: index_table_def slot_entry_Some)
    have len: "?n \<le> length (si_slots idx)" and tab: "table_ok ?n (index_home ?n) (index_keys (si_slots idx))" using shape by (auto simp: index_shape_def)
    have T': "index_table (si_slots ?idx) = ?T(i \<mapsto> (k, t))" and K': "index_keys (si_slots ?idx) = index_keys (si_slots idx)"
      using store_slot [OF len i(1), of ?slot] key False i(3) by (auto simp: fun_eq_iff)
    have other: "j = i" if "j < ?n" "?T j = Some (k, u)" for j u
    proof -
      have "index_keys (si_slots idx) j = Some k" "index_keys (si_slots idx) i = Some k" using that i(3) by auto
      then show ?thesis using tab that(1) i(1) unfolding table_ok_def by blast
    qed
    have "index_bound ?idx = {e \<in> index_bound idx. fst e \<noteq> k} \<union> {(k, t)}" (is "?L = ?R")
    proof (intro equalityI subsetI)
      fix e assume "e \<in> ?L"
      then obtain j where "j < ?n" "(?T(i \<mapsto> (k, t))) j = Some e" unfolding index_bound_def T' by (auto simp: table_keys_def)
      then show "e \<in> ?R" using other [of j "snd e"] by (auto simp: index_bound_def table_keys_def split: if_splits)
    next
      fix e assume "e \<in> ?R"
      then consider "e = (k, t)" | j where "j < ?n" "?T j = Some e" "fst e \<noteq> k" by (auto simp: index_bound_def table_keys_def)
      then show "e \<in> ?L"
      proof cases
        case 1
        then show ?thesis unfolding index_bound_def T' using i(1) by (auto simp: table_keys_def)
      next
        case 2
        then have "(?T(i \<mapsto> (k, t))) j = Some e" using i(3) by auto
        then show ?thesis unfolding index_bound_def T' table_keys_def using 2(1) by auto
      qed
    qed
    then have "index_rel ?idx = {e \<in> index_rel idx. fst e \<noteq> k} \<union> {(k, t)}" using False by (auto simp: index_rel_def)
    moreover have "index_shape ?idx" using shape K' by (simp add: index_shape_def)
    ultimately show ?thesis using that [of ?idx] i(2) key False K' by (simp add: index_put_def index_frame_def index_heap_bytes_def)
  qed
  have "index_ok idx'" using ok idx' card by (simp add: index_ok_def index_frame_def)
  moreover have "index_map idx' = (index_map idx)(k \<mapsto> t)" by (rule index_map_put [OF shape idx'(3,2)])
  ultimately show ?thesis using idx' by (intro exI [of _ idx']) simp
qed

text \<open>Adding a key.\<close>

lemma index_put_new:
  assumes ok: "index_ok idx" and k: "index_map idx k = None" and scan: "si_scan idx = None" and room: "si_len idx < si_max_keys idx"
  shows "\<exists>idx'. index_put idx k t = Some (Inr (), idx') \<and> index_ok idx' \<and> index_map idx' = (index_map idx)(k \<mapsto> t) \<and> index_frame idx idx' \<and>
    si_len idx' = si_len idx + 1"
proof -
  have shape: "index_shape idx" using ok by (simp add: index_ok_def)
  have none: "(k, v) \<notin> index_rel idx" for v using k index_map_iff [OF shape, of k v] by simp
  have drop_k: "{e \<in> index_rel idx. fst e \<noteq> k} = index_rel idx" using none by auto
  have room2: "card (index_bound idx) + 2 < si_capacity idx" by (rule index_room [OF ok])
  obtain placed where placed: "index_shape placed" "index_rel placed = insert (k, t) (index_rel idx)" "index_frame idx placed"
      "si_capacity placed = si_capacity idx" "length (si_slots placed) = length (si_slots idx)"
      "index_put idx k t = (let idx' = placed\<lparr>si_len := si_len idx + 1\<rparr> in
         if si_len idx' > max_fill (si_capacity idx')
         then Option.bind (rehash idx' (si_capacity idx' * 2)) (\<lambda>idx''. Some (Inr (), idx''))
         else Some (Inr (), idx'))"
  proof (cases "k = 0")
    case True
    let ?idx = "idx\<lparr>si_zero := Some t\<rparr>"
    have z: "si_zero idx = None" using none True by (cases "si_zero idx") (auto simp: index_rel_def)
    have "index_rel ?idx = insert (0, t) (index_rel idx)" using z by (auto simp: index_rel_def index_bound_def)
    then show ?thesis using that [of ?idx] True z shape scan room by (simp add: index_put_def index_shape_def index_frame_def index_heap_bytes_def)
  next
    case False
    let ?n = "si_capacity idx" and ?T = "index_table (si_slots idx)"
    obtain i where i: "i < ?n" "find_bucket idx k = Some i" "?T i = None"
        "\<forall>q < ?n. cdist ?n (index_home ?n k) q < cdist ?n (index_home ?n k) i \<longrightarrow> index_keys (si_slots idx) q \<noteq> None"
      using find_bucket_ok [OF shape False] none rel_bound [OF False] by blast
    let ?e = "\<lparr>sl_key = k, sl_time = t\<rparr>"
    let ?idx = "idx\<lparr>si_slots := (si_slots idx)[i := ?e]\<rparr>"
    have n: "power_of_two ?n" "?n \<le> length (si_slots idx)" and tab: "table_ok ?n (index_home ?n) (index_keys (si_slots idx))"
      using shape by (auto simp: index_shape_def)
    have absent: "k \<notin> fst ` index_bound idx" using none rel_bound [OF False] by force
    have place: "table_ok ?n (index_home ?n) (index_keys ((si_slots idx)[i := ?e]))"
        "table_keys ?n (index_table ((si_slots idx)[i := ?e])) = insert (k, t) (index_bound idx)"
      using place_entry [OF n tab, of ?e i] False absent room2 i(1,3,4) by (simp_all add: index_bound_def)
    have "index_rel ?idx = insert (k, t) (index_rel idx)" using place(2) by (simp add: index_rel_def index_bound_def)
    moreover have "index_shape ?idx" using shape place(1) by (simp add: index_shape_def)
    moreover have "sl_key (si_slots idx ! i) \<noteq> k" using i(3) False by (simp add: index_table_def slot_entry_None)
    ultimately show ?thesis using that [of ?idx] i(2) False scan room by (simp add: index_put_def index_frame_def index_heap_bytes_def)
  qed
  let ?p = "placed\<lparr>si_len := si_len idx + 1\<rparr>"
  have pshape: "index_shape ?p" and prel: "index_rel ?p = insert (k, t) (index_rel idx)" and pframe: "index_frame idx ?p"
    using placed(1-3) by (simp_all add: index_shape_def index_rel_def index_bound_def index_frame_def index_heap_bytes_def)
  have plen: "si_len ?p = card (index_rel ?p)" using ok none prel by (simp add: index_ok_def)
  have pmax: "si_len ?p \<le> si_max_keys ?p" using room placed(3) by (simp add: index_frame_def)
  have done_: "\<exists>idx'. index_put idx k t = Some (Inr (), idx') \<and> index_ok idx' \<and> index_frame idx idx' \<and> index_rel idx' = insert (k, t) (index_rel idx) \<and>
      si_len idx' = si_len idx + 1"
  proof (cases "si_len ?p > max_fill (si_capacity ?p)")
    case False
    then have "index_ok ?p" using pshape plen pmax by (simp add: index_ok_def)
    then show ?thesis using placed(6) False prel pframe by auto
  next
    case True
    let ?c = "si_capacity idx"
    have cap: "power_of_two ?c" "power_of_two (length (si_slots idx))" "INITIAL_CAPACITY \<le> ?c" using shape by (auto simp: index_shape_def)
    have "?c < length (si_slots idx)"
    proof (rule ccontr)
      assume "\<not> ?thesis"
      then have "max_fill (length (si_slots idx)) \<le> max_fill ?c" by (intro max_fill_mono) simp
      then show False using True pmax placed(3,4) shape by (simp add: index_shape_def index_frame_def)
    qed
    then have fits: "?c * 2 \<le> length (si_slots ?p)" using power_of_two_double [OF cap(1,2)] placed(5) by simp
    have "card (index_bound ?p) \<le> card (index_rel ?p)" by (simp add: card_index_rel)
    also have "\<dots> = card (index_rel idx) + 1" unfolding prel using none by simp
    also have "\<dots> \<le> card (index_bound idx) + 2" by (simp add: card_index_rel)
    finally have few: "card (index_bound ?p) + 1 < ?c * 2" using room2 by linarith
    have big: "INITIAL_CAPACITY \<le> ?c * 2" using cap(3) by simp
    obtain idx' where idx': "rehash ?p (?c * 2) = Some idx'" "index_shape idx'" "index_rel idx' = index_rel ?p" "si_capacity idx' = ?c * 2"
        "si_len idx' = si_len ?p" "index_frame ?p idx'"
      using rehash_ok [OF pshape power_of_two_twice [OF cap(1)] big fits few] by (auto simp: index_frame_def)
    have "max_fill ?c + 1 \<le> max_fill (?c * 2)" using cap(3) by (simp add: max_fill_def INITIAL_CAPACITY_def)
    then have "si_len idx' \<le> max_fill (?c * 2)" using ok idx'(5) by (simp add: index_ok_def)
    then have "index_ok idx'" using idx' plen pmax by (simp add: index_ok_def index_frame_def)
    moreover have "index_frame idx idx'" by (rule index_frame_trans [OF pframe idx'(6)])
    ultimately show ?thesis using placed(4,6) True idx'(1,3,5) prel by simp
  qed
  then obtain idx' where idx': "index_put idx k t = Some (Inr (), idx')" "index_ok idx'" "index_frame idx idx'"
      "index_rel idx' = insert (k, t) (index_rel idx)" "si_len idx' = si_len idx + 1" by blast
  have "index_map idx' = (index_map idx)(k \<mapsto> t)"
    by (rule index_map_put [OF shape]) (use idx'(2,4) drop_k in \<open>auto simp: index_ok_def\<close>)
  then show ?thesis using idx' by blast
qed

lemma index_put_full:
  assumes ok: "index_ok idx" and k: "index_map idx k = None" and scan: "si_scan idx = None" and full: "si_len idx = si_max_keys idx"
  shows "index_put idx k t = Some (Inl ChunkLimit, idx)"
proof -
  have shape: "index_shape idx" using ok by (simp add: index_ok_def)
  have none: "(k, v) \<notin> index_rel idx" for v using k index_map_iff [OF shape, of k v] by simp
  show ?thesis
  proof (cases "k = 0")
    case True
    then show ?thesis using none scan full by (auto simp: index_put_def index_rel_def)
  next
    case False
    obtain i where i: "find_bucket idx k = Some i" "index_table (si_slots idx) i = None"
      using find_bucket_ok [OF shape False] none rel_bound [OF False] by blast
    then have "sl_key (si_slots idx ! i) \<noteq> k" using False by (simp add: index_table_def slot_entry_None)
    then show ?thesis using i(1) False scan full by (simp add: index_put_def)
  qed
qed

section \<open>Closing a hole\<close>

lemma table_keys_clear: "i < n \<Longrightarrow> T i = Some e \<Longrightarrow> (\<And>j. j < n \<Longrightarrow> T j = Some e \<Longrightarrow> j = i) \<Longrightarrow> table_keys n (T(i := None)) = table_keys n T - {e}"
proof (intro equalityI subsetI)
  fix x assume a: "i < n" "T i = Some e" "\<And>j. j < n \<Longrightarrow> T j = Some e \<Longrightarrow> j = i"
  {
    assume "x \<in> table_keys n (T(i := None))"
    then obtain j where j: "j < n" "j \<noteq> i" "T j = Some x" by (auto simp: table_keys_def split: if_splits)
    then have "x \<noteq> e" using a(3) [of j] by auto
    then show "x \<in> table_keys n T - {e}" using j unfolding table_keys_def by auto
  next
    assume "x \<in> table_keys n T - {e}"
    then obtain j where "j < n" "T j = Some x" "x \<noteq> e" by (auto simp: table_keys_def)
    then have "j < n" "(T(i := None)) j = Some x" using a(2) by auto
    then show "x \<in> table_keys n (T(i := None))" unfolding table_keys_def by blast
  }
qed

lemma table_keys_beyond: "n \<le> i \<Longrightarrow> table_keys n (T(i := x)) = table_keys n T"
  by (rule table_cong(2)) auto

text \<open>
  The part of the table below the bucket \<open>h\<close> where the removal began, when one entry moves. Going
  round from \<open>h\<close>, the hole comes before the candidate.
\<close>

lemma low_move:
  assumes b: "hole < n" "c < n" "h < n" "T hole = None" "T c = Some e" "hole \<noteq> c"
    and order: "cdist n h hole + cdist n hole c = cdist n h c"
    and uniq: "\<forall>i j x. i < n \<and> j < n \<and> T i = Some x \<and> T j = Some x \<longrightarrow> i = j"
  shows "table_keys h (T(hole \<mapsto> e, c := None)) = (if c < hole then table_keys h T - {e} else table_keys h T)"
    "c < hole \<Longrightarrow> h \<le> hole \<and> c < h \<and> e \<in> table_keys h T" "hole < h \<Longrightarrow> c < h"
proof -
  have ord: "c < hole \<Longrightarrow> h \<le> hole \<and> c < h" "hole < c \<Longrightarrow> hole < h \<Longrightarrow> c < h"
    using order b(1-3) by (auto simp: cdist_def split: if_splits)
  show "c < hole \<Longrightarrow> h \<le> hole \<and> c < h \<and> e \<in> table_keys h T" using ord(1) b(5) by (auto simp: table_keys_def)
  show "hole < h \<Longrightarrow> c < h" using ord b(6) by linarith
  consider "c < hole" | "hole < c" "hole < h" | "hole < c" "h \<le> hole" using b(6) by linarith
  then show "table_keys h (T(hole \<mapsto> e, c := None)) = (if c < hole then table_keys h T - {e} else table_keys h T)"
  proof cases
    case 1
    have "table_keys h ((T(hole \<mapsto> e))(c := None)) = table_keys h ((T(c := None))(hole \<mapsto> e))" using b(6) by (simp add: fun_upd_twist)
    also have "\<dots> = table_keys h (T(c := None))" using ord(1) [OF 1] by (intro table_keys_beyond) simp
    also have "\<dots> = table_keys h T - {e}"
      by (rule table_keys_clear) (use ord(1) [OF 1] b uniq in auto)
    finally show ?thesis using 1 by (simp del: fun_upd_apply)
  next
    case 2
    then have c: "c < h" using ord(2) by simp
    have "table_keys h ((T(hole \<mapsto> e))(c := None)) = table_keys h ((T(c := None))(hole \<mapsto> e))" using b(6) by (simp add: fun_upd_twist)
    also have "\<dots> = insert e (table_keys h (T(c := None)))" by (rule table_keys_put) (use 2 b in auto)
    also have "table_keys h (T(c := None)) = table_keys h T - {e}"
      by (rule table_keys_clear) (use c b uniq in auto)
    also have "insert e (table_keys h T - {e}) = table_keys h T" using c b(5) by (auto simp: table_keys_def)
    finally show ?thesis using 2 by (simp del: fun_upd_apply)
  next
    case 3
    then show ?thesis using table_keys_beyond [of h c "T(hole \<mapsto> e)" None] table_keys_beyond [of h hole T "Some e"] by (simp del: fun_upd_apply)
  qed
qed

lemma cdist_split:
  assumes "a < n" "b < n" "c < n" "e < n" "cdist n a b + cdist n b e = cdist n a e" "cdist n b c + cdist n c e = cdist n b e"
  shows "cdist n a b + cdist n b c = cdist n a c"
proof -
  have "cdist n a b + cdist n b c = cdist n a c \<or> cdist n a b + cdist n b c = cdist n a c + n"
    using assms(1-3) by (auto simp: cdist_def)
  moreover have "cdist n a b + cdist n b c < n" using assms(5,6) cdist_less [OF assms(1,4)] by linarith
  ultimately show ?thesis by linarith
qed

text \<open>
  What the repair loop leaves: the same entries without the removed one; under a scan, the key that
  moved from below \<open>h\<close> to the top of the table is appended to the remembered keys.
\<close>

definition closed :: "bool \<Rightarrow> nat \<Rightarrow> (int \<times> int) table \<Rightarrow> SchedulingIndex \<Rightarrow> nat \<Rightarrow> SchedulingIndex option \<Rightarrow> bool" where
  "closed preserve h V idx most r \<longleftrightarrow> (\<exists>slots ws. r = Some (idx\<lparr>si_slots := slots, si_wrapped := si_wrapped idx @ ws\<rparr>) \<and>
    length slots = length (si_slots idx) \<and> table_ok (si_capacity idx) (\<lambda>e. index_home (si_capacity idx) (fst e)) (index_table slots) \<and>
    table_keys (si_capacity idx) (index_table slots) = table_keys (si_capacity idx) V \<and> length ws \<le> most \<and> (\<not> preserve \<longrightarrow> ws = []) \<and>
    (preserve \<longrightarrow> set ws \<subseteq> fst ` table_keys h V \<and> table_keys h (index_table slots) = {x \<in> table_keys h V. fst x \<notin> set ws}))"

lemma closed_push:
  assumes r: "closed preserve h V1 (idx\<lparr>si_slots := s, si_wrapped := si_wrapped idx @ (if preserve \<and> c < hole then [k] else [])\<rparr>)
      (if h \<le> c then 1 else 0) r"
    and x: "k = fst x" and len: "length s = length (si_slots idx)"
    and keys: "table_keys (si_capacity idx) V1 = table_keys (si_capacity idx) V"
    and low: "table_keys h V1 = (if c < hole then table_keys h V - {x} else table_keys h V)"
      "c < hole \<Longrightarrow> h \<le> hole \<and> c < h \<and> x \<in> table_keys h V" "hole < h \<Longrightarrow> c < h"
    and sv: "single_valued (table_keys h V)"
  shows "closed preserve h V idx (if h \<le> hole then 1 else 0) r"
proof -
  let ?us = "if preserve \<and> c < hole then [k] else []"
  obtain slots ws where ws: "r = Some (idx\<lparr>si_slots := slots, si_wrapped := si_wrapped idx @ (?us @ ws)\<rparr>)" "length slots = length (si_slots idx)"
      "table_ok (si_capacity idx) (\<lambda>e. index_home (si_capacity idx) (fst e)) (index_table slots)"
      "table_keys (si_capacity idx) (index_table slots) = table_keys (si_capacity idx) V1" "length ws \<le> (if h \<le> c then 1 else 0)" "\<not> preserve \<longrightarrow> ws = []"
      "preserve \<longrightarrow> set ws \<subseteq> fst ` table_keys h V1 \<and> table_keys h (index_table slots) = {y \<in> table_keys h V1. fst y \<notin> set ws}"
    using r len unfolding closed_def by auto
  have none: "ws = []" if "c < hole" using ws(5) low(2) [OF that] by simp
  have kx: "table_keys h V - {x} = {y \<in> table_keys h V. fst y \<noteq> k}" if "c < hole"
    using low(2) [OF that] sv x by (cases x) (auto dest: single_valuedD)
  have "length (?us @ ws) \<le> (if h \<le> hole then 1 else 0)" using none low(2,3) ws(5) by (auto split: if_splits)
  moreover have "preserve \<longrightarrow> set (?us @ ws) \<subseteq> fst ` table_keys h V \<and> table_keys h (index_table slots) = {y \<in> table_keys h V. fst y \<notin> set (?us @ ws)}"
    using ws(7) low(1,2) none kx x by (cases "c < hole") auto
  ultimately show ?thesis unfolding closed_def using ws keys by (intro exI [of _ slots] exI [of _ "?us @ ws"]) auto
qed

lemma close_loop_ok:
  assumes "n = si_capacity idx" "power_of_two n" "1 < n" "n \<le> 2 ^ 64" "n \<le> length (si_slots idx)"
    "shifting n (\<lambda>e. index_home n (fst e)) ((index_table (si_slots idx))(hole := None)) hole c e"
    "h < n" "cdist n h hole + cdist n hole e = cdist n h e" "cdist n c e < fuel"
    "preserve \<Longrightarrow> h \<le> hole \<Longrightarrow> length (si_wrapped idx) < si_max_keys idx"
    "single_valued (table_keys n ((index_table (si_slots idx))(hole := None)))"
  shows "closed preserve h ((index_table (si_slots idx))(hole := None)) idx (if h \<le> hole then 1 else 0) (close_loop fuel preserve idx hole c)"
  using assms
proof (induction fuel arbitrary: idx hole c)
  case (Suc fuel)
  note n = Suc.prems(2-5)
  let ?home = "\<lambda>e. index_home n (fst e)" and ?slots = "si_slots idx"
  let ?V = "(index_table ?slots)(hole := None)"
  have homes: "\<And>e. ?home e < n" using n(1) by simp
  have b: "hole < n" "c < n" "hole \<noteq> c" "?V hole = None" "e < n" "e \<noteq> hole" using Suc.prems(6) by (auto simp: shifting_def shift_inv_def)
  have uniq: "\<forall>i j x. i < n \<and> j < n \<and> ?V i = Some x \<and> ?V j = Some x \<longrightarrow> i = j"
    using Suc.prems(6) unfolding shifting_def shift_inv_def by blast
  have entry: "index_entry ?slots c = Some (map_option fst (?V c))" using index_entry_keys [of c ?slots] b n(4) by simp
  show ?case
  proof (cases "?V c")
    case None
    let ?s = "?slots[hole := EMPTY_SLOT]"
    have V: "index_table ?s = ?V" using b(1) n(4) by (auto simp: fun_eq_iff index_table_def nth_list_update slot_entry_def EMPTY_SLOT_def)
    have "close_loop (Suc fuel) preserve idx hole c = Some (idx\<lparr>si_slots := ?s, si_wrapped := si_wrapped idx @ []\<rparr>)" using entry None by simp
    moreover have "table_ok n ?home ?V" by (rule shifting_end [OF homes Suc.prems(6) None])
    ultimately show ?thesis unfolding closed_def using V Suc.prems(1) by (intro exI [of _ ?s] exI [of _ "[]"]) simp
  next
    case (Some x)
    obtain k v where x: "x = (k, v)" by (rule prod.exhaust)
    note nx = shifting_next [OF n(1) Suc.prems(6) Some]
    have far: "cdist n (next_index n c) e < fuel" using nx(1) Suc.prems(9) by linarith
    have dist: "wrap_index n (wrapping_sub a (index_home n k)) = cdist n (index_home n k) a" if "a < n" for a
      unfolding wrapping_sub_def by (rule wrapping_distance [OF n(1,3) _ that]) (simp add: n(1))
    show ?thesis
    proof (cases "cdist n (?home x) hole < cdist n (?home x) c")
      case False
      have eq: "close_loop (Suc fuel) preserve idx hole c = close_loop fuel preserve idx hole (next_index n c)"
        using entry Some x False dist b Suc.prems(1) by (simp add: Let_def)
      have keep: "shifting n ?home ?V hole (next_index n c) e" by (rule shifting_keep [OF n(1) Suc.prems(6) Some False])
      show ?thesis unfolding eq by (rule Suc.IH [OF Suc.prems(1-5) keep Suc.prems(7,8) far Suc.prems(10,11)])
    next
      case True
      have move: "shifting n ?home (?V(hole \<mapsto> x, c := None)) c (next_index n c) e"
          "table_keys n (?V(hole \<mapsto> x, c := None)) = table_keys n ?V"
        using shifting_move [OF n(1,2) homes Suc.prems(6) Some True] by blast+
      have hc: "cdist n hole c + cdist n c e = cdist n hole e" using Suc.prems(6) by (simp add: shifting_def)
      have order: "cdist n h hole + cdist n hole c = cdist n h c"
        by (rule cdist_split [OF Suc.prems(7) b(1,2,5) Suc.prems(8) hc])
      have order': "cdist n h c + cdist n c e = cdist n h e" using order hc Suc.prems(8) by linarith
      note low = low_move [OF b(1,2) Suc.prems(7) b(4) Some b(3) order uniq]
      let ?s = "?slots[hole := ?slots ! c]"
      have V1: "(index_table ?s)(c := None) = ?V(hole \<mapsto> x, c := None)"
        using b Some n(4) by (auto simp: fun_eq_iff index_table_def nth_list_update)
      have sv1: "single_valued (table_keys n ((index_table ?s)(c := None)))" unfolding V1 move(2) by (rule Suc.prems(11))
      let ?us = "if preserve \<and> c < hole then [k] else []"
      let ?idx = "idx\<lparr>si_slots := ?s, si_wrapped := si_wrapped idx @ ?us\<rparr>"
      have room: "preserve \<Longrightarrow> c < hole \<Longrightarrow> length (si_wrapped idx) < si_max_keys idx" using low(2) Suc.prems(10) by blast
      have eq: "close_loop (Suc fuel) preserve idx hole c = close_loop fuel preserve ?idx c (next_index n c)"
        using entry Some x True dist b room Suc.prems(1) by (simp add: Let_def)
      have "closed preserve h ((index_table (si_slots ?idx))(c := None)) ?idx (if h \<le> c then 1 else 0) (close_loop fuel preserve ?idx c (next_index n c))"
      proof (rule Suc.IH)
        show "shifting n ?home ((index_table (si_slots ?idx))(c := None)) c (next_index n c) e" using move(1) V1 by simp
        show "length (si_wrapped ?idx) < si_max_keys ?idx" if "preserve" "h \<le> c"
        proof -
          have "h \<le> hole" "\<not> c < hole" using low(2,3) that(2) by (meson not_le)+
          then show ?thesis using Suc.prems(10) that(1) by simp
        qed
        show "single_valued (table_keys n ((index_table (si_slots ?idx))(c := None)))" using sv1 by simp
      qed (use Suc.prems n order' far in simp_all)
      then have r: "closed preserve h (?V(hole \<mapsto> x, c := None)) ?idx (if h \<le> c then 1 else 0) (close_loop (Suc fuel) preserve idx hole c)"
        unfolding eq using V1 by simp
      have keys: "table_keys (si_capacity idx) (?V(hole \<mapsto> x, c := None)) = table_keys (si_capacity idx) ?V"
        unfolding Suc.prems(1) [symmetric] by (rule move(2))
      have "table_keys h ?V \<subseteq> table_keys n ?V" using Suc.prems(7) unfolding table_keys_def by (auto intro: less_trans)
      then have svh: "single_valued (table_keys h ?V)" using Suc.prems(11) single_valued_subset by blast
      show ?thesis by (rule closed_push [OF r _ _ keys low svh]) (simp_all add: x)
    qed
  qed
qed simp

lemma close_hole_ok:
  assumes shape: "index_shape idx" and i: "i < si_capacity idx" "index_table (si_slots idx) i = Some (k, v)"
    and wr: "preserve \<Longrightarrow> length (si_wrapped idx) < si_max_keys idx"
  shows "\<exists>slots ws. close_hole idx i preserve = Some (idx\<lparr>si_slots := slots, si_wrapped := si_wrapped idx @ ws\<rparr>) \<and>
    index_shape (idx\<lparr>si_slots := slots, si_wrapped := si_wrapped idx @ ws\<rparr>) \<and>
    table_keys (si_capacity idx) (index_table slots) = index_bound idx - {(k, v)} \<and> length ws \<le> 1 \<and> (\<not> preserve \<longrightarrow> ws = []) \<and>
    (preserve \<longrightarrow> set ws \<subseteq> fst ` table_keys i (index_table (si_slots idx)) \<and>
       table_keys i (index_table slots) = {x \<in> table_keys i (index_table (si_slots idx)). fst x \<notin> set ws})"
proof -
  let ?n = "si_capacity idx" and ?T = "index_table (si_slots idx)" and ?home = "\<lambda>e. index_home (si_capacity idx) (fst e)"
  have n: "power_of_two ?n" "1 < ?n" "?n \<le> 2 ^ 64" "?n \<le> length (si_slots idx)"
    using shape by (auto simp: index_shape_def INITIAL_CAPACITY_def MAX_CAPACITY_def)
  have tab: "table_ok ?n ?home ?T" and sv: "single_valued (table_keys ?n ?T)" using shape by (simp_all add: index_shape_def table_pairs)
  obtain e where e: "shifting ?n ?home (?T(i := None)) i (next_index ?n i) e" using shifting_start [OF n(1,2) tab i] by blast
  have keys: "table_keys ?n (?T(i := None)) = index_bound idx - {(k, v)}" using shift_start [OF n(1,2) tab i] by (simp add: index_bound_def)
  have sv': "single_valued (table_keys ?n (?T(i := None)))"
    unfolding keys using sv by (rule single_valued_subset [rotated]) (auto simp: index_bound_def)
  have low: "table_keys i (?T(i := None)) = table_keys i ?T" by (rule table_keys_beyond) simp
  have fuel: "cdist ?n (next_index ?n i) e < ?n" using e n by (intro cdist_less) (auto simp: shifting_def)
  have "closed preserve i (?T(i := None)) idx 1 (close_hole idx i preserve)"
    unfolding close_hole_def
    using close_loop_ok [OF refl n e i(1) _ fuel, of preserve] wr sv' by simp
  then obtain slots ws where ws: "close_hole idx i preserve = Some (idx\<lparr>si_slots := slots, si_wrapped := si_wrapped idx @ ws\<rparr>)"
      "length slots = length (si_slots idx)" "table_ok ?n ?home (index_table slots)" "table_keys ?n (index_table slots) = index_bound idx - {(k, v)}"
      "length ws \<le> 1" "\<not> preserve \<longrightarrow> ws = []"
      "preserve \<longrightarrow> set ws \<subseteq> fst ` table_keys i ?T \<and> table_keys i (index_table slots) = {x \<in> table_keys i ?T. fst x \<notin> set ws}"
    unfolding closed_def keys low by auto
  have "table_ok ?n (index_home ?n) (index_keys slots)" using ws(3,4) sv' keys by (simp add: table_pairs)
  then have "index_shape (idx\<lparr>si_slots := slots, si_wrapped := si_wrapped idx @ ws\<rparr>)" using shape ws(2) by (simp add: index_shape_def)
  then show ?thesis using ws by (intro exI [of _ slots] exI [of _ ws]) simp
qed

section \<open>Removal\<close>

lemma index_map_remove:
  assumes "index_shape idx" "index_shape idx'" "index_rel idx' = {e \<in> index_rel idx. fst e \<noteq> k}"
  shows "index_map idx' = (index_map idx)(k := None)"
proof (rule index_map_eqI [OF assms(2)])
  fix j v
  show "(j, v) \<in> index_rel idx' \<longleftrightarrow> ((index_map idx)(k := None)) j = Some v"
    unfolding assms(3) using index_map_iff [OF assms(1), of j v] by auto
qed

lemma shrunk_fill: "32 \<le> d \<Longrightarrow> m < max_fill (d * 2) div 4 \<Longrightarrow> m \<le> max_fill d \<and> m + 1 < d"
  by (simp add: max_fill_def) linarith

lemma remove_key_ok:
  assumes ok: "index_ok idx"
  shows "\<exists>idx'. remove_key idx k = Some (index_map idx k, idx') \<and> index_ok idx' \<and> index_map idx' = (index_map idx)(k := None) \<and> index_frame idx idx'"
proof (cases "index_map idx k")
  case None
  have shape: "index_shape idx" using ok by (simp add: index_ok_def)
  have none: "(k, v) \<notin> index_rel idx" for v using None index_map_iff [OF shape, of k v] by simp
  have "remove_key idx k = Some (None, idx)"
  proof (cases "k = 0")
    case True
    then show ?thesis using none by (cases "si_zero idx") (auto simp: remove_key_def index_rel_def)
  next
    case False
    obtain i where "find_bucket idx k = Some i" "index_table (si_slots idx) i = None"
      using find_bucket_ok [OF shape False] none rel_bound [OF False] by blast
    then show ?thesis using False by (simp add: remove_key_def index_table_def slot_entry_None)
  qed
  then show ?thesis using None ok by (auto simp: fun_upd_idem)
next
  case (Some v)
  have shape: "index_shape idx" using ok by (simp add: index_ok_def)
  have kv: "(k, v) \<in> index_rel idx" using Some index_map_iff [OF shape] by blast
  have sv: "single_valued (index_rel idx)" by (rule index_single_valued [OF shape])
  have drop_k: "index_rel idx - {(k, v)} = {e \<in> index_rel idx. fst e \<noteq> k}" using kv sv by (auto dest: single_valuedD)
  obtain left where left: "index_shape left" "index_rel left = index_rel idx - {(k, v)}" "index_frame idx left" "si_len left = si_len idx"
      "si_capacity left = si_capacity idx" "length (si_slots left) = length (si_slots idx)"
      "remove_key idx k = (let idx' = left\<lparr>si_len := si_len left - 1\<rparr> in
         if INITIAL_CAPACITY < si_capacity idx' \<and> si_len idx' < max_fill (si_capacity idx') div 4
         then Option.bind (rehash idx' (si_capacity idx' div 2)) (\<lambda>idx''. Some (Some v, idx''))
         else Some (Some v, idx'))"
  proof (cases "k = 0")
    case True
    let ?idx = "idx\<lparr>si_zero := None\<rparr>"
    have z: "si_zero idx = Some v" using kv True index_bound_nonzero by (auto simp: index_rel_def)
    have "index_rel ?idx = index_rel idx - {(0, v)}" using z index_bound_nonzero [of 0 _ idx] by (auto simp: index_rel_def index_bound_def)
    then show ?thesis using that [of ?idx] True z shape
      by (simp add: remove_key_def index_shape_def index_frame_def index_heap_bytes_def)
  next
    case False
    obtain i w where i: "i < si_capacity idx" "find_bucket idx k = Some i" "(k, w) \<in> index_bound idx" "index_table (si_slots idx) i = Some (k, w)"
      using find_bucket_ok [OF shape False] kv rel_bound [OF False] by (force simp: image_iff)
    then have w: "w = v" using kv sv rel_bound [OF False] by (auto dest: single_valuedD)
    have slot: "sl_key (si_slots idx ! i) = k" "sl_time (si_slots idx ! i) = v" using i(4) w by (auto simp: index_table_def slot_entry_Some)
    obtain slots ws where ws: "close_hole idx i False = Some (idx\<lparr>si_slots := slots, si_wrapped := si_wrapped idx @ ws\<rparr>)"
        "index_shape (idx\<lparr>si_slots := slots, si_wrapped := si_wrapped idx @ ws\<rparr>)"
        "table_keys (si_capacity idx) (index_table slots) = index_bound idx - {(k, w)}" "ws = []"
      using close_hole_ok [OF shape i(1,4), of False] by auto
    let ?idx = "idx\<lparr>si_slots := slots, si_wrapped := si_wrapped idx @ ws\<rparr>"
    have "index_rel ?idx = index_rel idx - {(k, v)}" using ws(3) w False by (auto simp: index_rel_def index_bound_def)
    moreover have "length slots = length (si_slots idx)" using ws(2) shape by (auto simp: index_shape_def)
    ultimately show ?thesis using that [of ?idx] ws(1,2,4) i(2) slot False
      by (simp add: remove_key_def index_frame_def index_heap_bytes_def)
  qed
  let ?p = "left\<lparr>si_len := si_len left - 1\<rparr>"
  have pshape: "index_shape ?p" and prel: "index_rel ?p = index_rel idx - {(k, v)}" and pframe: "index_frame idx ?p"
    using left(1-3) by (simp_all add: index_shape_def index_rel_def index_bound_def index_frame_def index_heap_bytes_def)
  have plen: "si_len ?p = card (index_rel ?p)" using ok kv prel left(4) by (simp add: index_ok_def)
  have pmax: "si_len ?p \<le> si_max_keys ?p" "si_len ?p \<le> max_fill (si_capacity ?p)"
    using ok left(3-5) by (auto simp: index_frame_def index_ok_def)
  obtain idx' where idx': "remove_key idx k = Some (Some v, idx')" "index_ok idx'" "index_rel idx' = index_rel ?p" "index_frame idx idx'"
  proof (cases "INITIAL_CAPACITY < si_capacity ?p \<and> si_len ?p < max_fill (si_capacity ?p) div 4")
    case False
    then have "remove_key idx k = Some (Some v, ?p)" unfolding left(7) Let_def by (rule if_not_P)
    moreover have "index_ok ?p" unfolding index_ok_def using pshape plen pmax by blast
    ultimately show ?thesis using that [of ?p] pframe by blast
  next
    case True
    let ?d = "si_capacity idx div 2"
    have cap: "power_of_two (si_capacity idx)" "1 < si_capacity idx" "si_capacity idx \<le> length (si_slots idx)"
      using shape by (auto simp: index_shape_def INITIAL_CAPACITY_def)
    have d: "power_of_two ?d" "?d * 2 = si_capacity idx" using power_of_two_half [OF cap(1,2)] by auto
    have "power_of_two 16" unfolding power_of_two_def by (rule exI [of _ 4]) simp
    moreover have "16 < ?d" using True left(5) d(2) by (simp add: INITIAL_CAPACITY_def)
    ultimately have big: "32 \<le> ?d" using power_of_two_double [OF _ d(1)] by fastforce
    have few: "si_len ?p \<le> max_fill ?d" "si_len ?p + 1 < ?d" using shrunk_fill [OF big, of "si_len ?p"] True left(5) d(2) by auto
    have "card (index_bound ?p) \<le> si_len ?p" unfolding plen by (simp add: card_index_rel)
    then have room: "card (index_bound ?p) + 1 < ?d" using few(2) by linarith
    have fits: "INITIAL_CAPACITY \<le> ?d" "?d \<le> length (si_slots ?p)" using big cap(3) left(6) by (auto simp: INITIAL_CAPACITY_def)
    obtain idx' where r: "rehash ?p ?d = Some idx'" "index_shape idx'" "index_rel idx' = index_rel ?p" "si_capacity idx' = ?d"
        "si_len idx' = si_len ?p" "index_frame ?p idx'"
      using rehash_ok [OF pshape d(1) fits room] by (auto simp: index_frame_def)
    have "index_ok idx'" using r plen pmax(1) few(1) by (simp add: index_ok_def index_frame_def)
    moreover have "index_frame idx idx'" by (rule index_frame_trans [OF pframe r(6)])
    ultimately show ?thesis using that [of idx'] left(5,7) True r(1,3) by simp
  qed
  have "index_map idx' = (index_map idx)(k := None)"
    by (rule index_map_remove [OF shape]) (use idx'(2,3) prel drop_k in \<open>auto simp: index_ok_def\<close>)
  then show ?thesis using idx' Some by auto
qed

end
