(* ===== verification/TickScan.thy ===== *)
theory TickScan
  imports TickIndexRemoval
begin

text \<open>
  A scan of the scheduling index visits every key once, whatever entries it removes on the way. The
  keys still to come are the zero key while it is pending, the keys in the buckets below the cursor,
  and the remembered keys not yet taken.
\<close>

section \<open>The invariant of a scan\<close>

definition low_keys :: "SchedulingIndex \<Rightarrow> nat \<Rightarrow> int set" where
  "low_keys idx m = table_keys m (index_keys (si_slots idx))"

fun current_ok :: "SchedulingIndex \<Rightarrow> IndexScan \<Rightarrow> Current option \<Rightarrow> int option \<Rightarrow> bool" where
  "current_ok idx sc None c \<longleftrightarrow> c = None"
| "current_ok idx sc (Some CurrentZero) c \<longleftrightarrow> c = Some 0 \<and> \<not> ix_zero_pending sc"
| "current_ok idx sc (Some (CurrentBucket i)) c \<longleftrightarrow>
    i = ix_before sc \<and> i < si_capacity idx \<and> \<not> ix_zero_pending sc \<and> c = index_keys (si_slots idx) i \<and> c \<noteq> None \<and> the c \<notin> set (si_wrapped idx)"
| "current_ok idx sc (Some (CurrentWrapped k)) c \<longleftrightarrow> c = Some k \<and> k \<noteq> 0 \<and> ix_before sc = 0 \<and> \<not> ix_zero_pending sc"

text \<open>
  \<open>scanning idx K U c\<close>: the scan began on the keys \<open>K\<close>, the keys \<open>U\<close> are still to come, and \<open>c\<close> is
  the key it is at, if that can still be removed.
\<close>

definition scanning :: "SchedulingIndex \<Rightarrow> int set \<Rightarrow> int set \<Rightarrow> int option \<Rightarrow> bool" where
  "scanning idx K U c \<longleftrightarrow> index_ok idx \<and> finite K \<and> card K \<le> si_max_keys idx \<and> U \<subseteq> K \<and> U \<subseteq> dom (index_map idx) \<and>
    set (si_wrapped idx) \<subseteq> K \<and> distinct (si_wrapped idx) \<and> 0 \<notin> set (si_wrapped idx) \<and>
    (\<forall>k. c = Some k \<longrightarrow> k \<in> K - U \<and> index_map idx k \<noteq> None) \<and>
    (\<exists>sc. si_scan idx = Some sc \<and> ix_remaining sc = card U \<and> ix_before sc \<le> si_capacity idx \<and>
       ix_wrapped_next sc \<le> length (si_wrapped idx) \<and> set (si_wrapped idx) \<inter> low_keys idx (ix_before sc) = {} \<and>
       U = (if ix_zero_pending sc then {0} else {}) \<union> low_keys idx (ix_before sc) \<union> set (drop (ix_wrapped_next sc) (si_wrapped idx)) \<and>
       current_ok idx sc (ix_current sc) c)"

lemma scanningI:
  assumes "index_ok idx" "finite K" "card K \<le> si_max_keys idx" "U \<subseteq> K" "U \<subseteq> dom (index_map idx)" "set (si_wrapped idx) \<subseteq> K"
    "distinct (si_wrapped idx)" "0 \<notin> set (si_wrapped idx)" "\<forall>k. c = Some k \<longrightarrow> k \<in> K \<and> k \<notin> U \<and> index_map idx k \<noteq> None"
    "si_scan idx = Some sc" "ix_remaining sc = card U" "ix_before sc \<le> si_capacity idx" "ix_wrapped_next sc \<le> length (si_wrapped idx)"
    "set (si_wrapped idx) \<inter> low_keys idx (ix_before sc) = {}"
    "U = (if ix_zero_pending sc then {0} else {}) \<union> low_keys idx (ix_before sc) \<union> set (drop (ix_wrapped_next sc) (si_wrapped idx))"
    "current_ok idx sc (ix_current sc) c"
  shows "scanning idx K U c"
  unfolding scanning_def using assms by blast

lemma scanningE:
  assumes "scanning idx K U c"
  obtains sc where "index_ok idx" "finite K" "card K \<le> si_max_keys idx" "U \<subseteq> K" "U \<subseteq> dom (index_map idx)" "set (si_wrapped idx) \<subseteq> K"
    "distinct (si_wrapped idx)" "0 \<notin> set (si_wrapped idx)" "\<forall>k. c = Some k \<longrightarrow> k \<in> K \<and> k \<notin> U \<and> index_map idx k \<noteq> None"
    "si_scan idx = Some sc" "ix_remaining sc = card U" "ix_before sc \<le> si_capacity idx" "ix_wrapped_next sc \<le> length (si_wrapped idx)"
    "set (si_wrapped idx) \<inter> low_keys idx (ix_before sc) = {}"
    "U = (if ix_zero_pending sc then {0} else {}) \<union> low_keys idx (ix_before sc) \<union> set (drop (ix_wrapped_next sc) (si_wrapped idx))"
    "current_ok idx sc (ix_current sc) c"
  using assms unfolding scanning_def by (metis DiffD1 DiffD2)

lemma low_keys_nonzero: "k \<in> low_keys idx m \<Longrightarrow> k \<noteq> 0"
  by (auto simp: low_keys_def table_keys_def index_table_def slot_entry_def split: if_splits)

lemma low_keys_bound: "m \<le> si_capacity idx \<Longrightarrow> low_keys idx m \<subseteq> fst ` index_bound idx"
proof
  fix k assume m: "m \<le> si_capacity idx" and "k \<in> low_keys idx m"
  then obtain i v where "i < m" "index_table (si_slots idx) i = Some (k, v)" by (auto simp: low_keys_def table_keys_def)
  then have "(k, v) \<in> index_bound idx" using m by (auto simp: index_bound_def table_keys_def intro!: exI [of _ i])
  then show "k \<in> fst ` index_bound idx" by force
qed

lemma dom_index_map: "index_shape idx \<Longrightarrow> dom (index_map idx) = fst ` index_rel idx"
  using index_map_dom [of idx] by (auto simp: dom_def)

lemma low_keys_dom: "index_shape idx \<Longrightarrow> m \<le> si_capacity idx \<Longrightarrow> low_keys idx m \<subseteq> dom (index_map idx)"
  using low_keys_bound [of m idx] dom_index_map [of idx] by (auto simp: index_rel_def)

lemma card_keys: "index_shape idx \<Longrightarrow> card (fst ` index_rel idx) = card (index_rel idx)"
  using index_single_valued [of idx] by (intro card_image) (auto simp: inj_on_def single_valued_def)

lemma begin_scan_ok:
  assumes ok: "index_ok idx" and scan: "si_scan idx = None"
  shows "\<exists>idx'. begin_scan idx = Some idx' \<and> index_map idx' = index_map idx \<and>
    scanning idx' (dom (index_map idx)) (dom (index_map idx)) None \<and> index_heap_bytes idx' = index_heap_bytes idx \<and> si_max_keys idx' = si_max_keys idx"
proof -
  have shape: "index_shape idx" using ok by (simp add: index_ok_def)
  let ?sc = "\<lparr>ix_remaining = si_len idx, ix_before = si_capacity idx, ix_zero_pending = (si_zero idx \<noteq> None), ix_wrapped_next = 0,
      ix_current = None\<rparr>"
  let ?idx = "idx\<lparr>si_wrapped := [], si_scan := Some ?sc\<rparr>"
  have rel: "index_rel ?idx = index_rel idx" by (simp add: index_rel_def index_bound_def)
  have ok': "index_ok ?idx" using ok rel by (simp add: index_ok_def index_shape_def)
  then have map: "index_map ?idx = index_map idx" using rel shape index_map_iff by (intro index_map_eqI) (auto simp: index_ok_def)
  have dom: "dom (index_map idx) = fst ` index_rel idx" by (rule dom_index_map [OF shape])
  have low: "low_keys ?idx (si_capacity idx) = fst ` index_bound idx" by (simp add: low_keys_def table_keys_fst index_bound_def)
  have "fst ` index_rel idx = (if si_zero idx \<noteq> None then {0} else {}) \<union> fst ` index_bound idx"
    by (force simp: index_rel_def image_Un)
  then have "scanning ?idx (dom (index_map idx)) (dom (index_map idx)) None"
    unfolding scanning_def map using ok ok' dom card_keys [OF shape] low by (auto simp: index_ok_def)
  then show ?thesis using scan map by (simp add: begin_scan_def index_heap_bytes_def)
qed

lemma prev_bucket_Some:
  "prev_bucket slots m = Some i \<Longrightarrow> i < m \<and> sl_key (slots ! i) \<noteq> 0 \<and> (\<forall>j. i < j \<and> j < m \<longrightarrow> sl_key (slots ! j) = 0)"
  by (induction m) (auto split: if_splits simp: less_Suc_eq)

lemma prev_bucket_None: "prev_bucket slots m = None \<Longrightarrow> j < m \<Longrightarrow> sl_key (slots ! j) = 0"
  by (induction m) (auto split: if_splits simp: less_Suc_eq)

lemma index_keys_Some: "index_keys slots i = Some k \<longleftrightarrow> sl_key (slots ! i) = k \<and> k \<noteq> 0"
  by (auto simp: index_table_def slot_entry_def)

lemma low_keys_iff: "k \<in> low_keys idx m \<longleftrightarrow> k \<noteq> 0 \<and> (\<exists>i < m. sl_key (si_slots idx ! i) = k)"
  unfolding low_keys_def table_keys_def index_keys_Some by auto

lemma scan_field [simp]:
  "index_map (idx\<lparr>si_scan := s\<rparr>) = index_map idx" "index_ok (idx\<lparr>si_scan := s\<rparr>) = index_ok idx"
  "low_keys (idx\<lparr>si_scan := s\<rparr>) m = low_keys idx m" "index_shape (idx\<lparr>si_scan := s\<rparr>) = index_shape idx"
  "index_rel (idx\<lparr>si_scan := s\<rparr>) = index_rel idx"
  by (simp_all add: fun_eq_iff index_map_def index_get_def find_bucket_def index_ok_def index_shape_def index_rel_def index_bound_def low_keys_def
      cong: if_cong)

text \<open>The next visit: a key still to come, with its time; nothing when none is left.\<close>

lemma next_entry_ok:
  assumes sc: "scanning idx K U c"
  shows "if U = {} then next_entry idx = Some (None, idx)
    else \<exists>k t sc. next_entry idx = Some (Some (k, t), idx\<lparr>si_scan := Some sc\<rparr>) \<and> k \<in> U \<and> index_map idx k = Some t \<and>
      scanning (idx\<lparr>si_scan := Some sc\<rparr>) K (U - {k}) (Some k)"
proof -
  from sc obtain s where inv: "index_ok idx" "finite K" "card K \<le> si_max_keys idx" "U \<subseteq> K" "U \<subseteq> dom (index_map idx)"
      "set (si_wrapped idx) \<subseteq> K" "distinct (si_wrapped idx)" "0 \<notin> set (si_wrapped idx)"
    and s: "si_scan idx = Some s" "ix_remaining s = card U" "ix_before s \<le> si_capacity idx"
      "ix_wrapped_next s \<le> length (si_wrapped idx)" "set (si_wrapped idx) \<inter> low_keys idx (ix_before s) = {}"
      "U = (if ix_zero_pending s then {0} else {}) \<union> low_keys idx (ix_before s) \<union> set (drop (ix_wrapped_next s) (si_wrapped idx))"
    by (rule scanningE)
  have sub: "U - {k} \<subseteq> K" "U - {k} \<subseteq> dom (index_map idx)" for k using inv(4,5) by auto
  have shape: "index_shape idx" using inv(1) by (simp add: index_ok_def)
  have fin: "finite U" using inv(2,4) by (rule finite_subset [rotated])
  have slots: "ix_before s \<le> length (si_slots idx)" using s(3) shape by (simp add: index_shape_def)
  show ?thesis
  proof (cases "U = {}")
    case True
    then show ?thesis using s(1,2) by (simp add: next_entry_def)
  next
    case False
    then have card: "card U \<noteq> 0" using fin by simp
    have fewer: "card (U - {k}) = card U - 1" if "k \<in> U" for k using that fin by simp
    show ?thesis
    proof (cases "ix_zero_pending s")
      case True
      then have U: "0 \<in> U" using s(6) by simp
      then obtain t where t: "index_map idx 0 = Some t" using inv(5) by blast
      then have zero: "si_zero idx = Some t" by (simp add: index_map_def index_get_def)
      let ?sc = "s\<lparr>ix_remaining := ix_remaining s - 1, ix_zero_pending := False, ix_current := Some CurrentZero\<rparr>"
      have "next_entry idx = Some (Some (0, t), idx\<lparr>si_scan := Some ?sc\<rparr>)" using s(1,2) card True zero by (simp add: next_entry_def)
      moreover have "U - {0} = low_keys idx (ix_before s) \<union> set (drop (ix_wrapped_next s) (si_wrapped idx))"
        using s(6) True low_keys_nonzero inv(8) by (auto dest: in_set_dropD)
      then have "scanning (idx\<lparr>si_scan := Some ?sc\<rparr>) K (U - {0}) (Some 0)"
        by (intro scanningI [where sc = ?sc]) (use inv s(1-5) sub fewer [OF U] U t in auto)
      ultimately show ?thesis using False U t by auto
    next
      case nz: False
      show ?thesis
      proof (cases "prev_bucket (si_slots idx) (ix_before s)")
        case (Some i)
        note i = prev_bucket_Some [OF Some]
        let ?k = "sl_key (si_slots idx ! i)" and ?t = "sl_time (si_slots idx ! i)"
        let ?sc = "s\<lparr>ix_remaining := ix_remaining s - 1, ix_before := i, ix_current := Some (CurrentBucket i)\<rparr>"
        have low: "?k \<in> low_keys idx (ix_before s)" unfolding low_keys_iff using i by blast
        then have U: "?k \<in> U" using s(6) by blast
        have icap: "i < si_capacity idx" using i s(3) by linarith
        have tab: "table_ok (si_capacity idx) (index_home (si_capacity idx)) (index_keys (si_slots idx))" using shape by (simp add: index_shape_def)
        have only: "j = i" if "j < si_capacity idx" "sl_key (si_slots idx ! j) = ?k" for j
        proof -
          have "index_keys (si_slots idx) j = Some ?k" "index_keys (si_slots idx) i = Some ?k"
            unfolding index_keys_Some using that(2) i by auto
          then show ?thesis using tab that(1) icap unfolding table_ok_def by blast
        qed
        have lowi: "low_keys idx i = low_keys idx (ix_before s) - {?k}"
        proof (intro equalityI subsetI)
          fix x assume "x \<in> low_keys idx i"
          then obtain j where j: "x \<noteq> 0" "j < i" "sl_key (si_slots idx ! j) = x" by (auto simp: low_keys_iff)
          then have "x \<noteq> ?k" using only [of j] icap by auto
          moreover have "x \<in> low_keys idx (ix_before s)" unfolding low_keys_iff using j i by (metis less_trans)
          ultimately show "x \<in> low_keys idx (ix_before s) - {?k}" by blast
        next
          fix x assume x: "x \<in> low_keys idx (ix_before s) - {?k}"
          then obtain j where j: "x \<noteq> 0" "j < ix_before s" "sl_key (si_slots idx ! j) = x" by (auto simp: low_keys_iff)
          then have "j < i" using i x by (metis DiffD2 insertI1 linorder_neqE_nat)
          then show "x \<in> low_keys idx i" using j unfolding low_keys_iff by blast
        qed
        have kw: "?k \<notin> set (si_wrapped idx)" using low s(5) by blast
        have rel: "(?k, ?t) \<in> index_rel idx"
          using icap i by (auto simp: index_rel_def index_bound_def table_keys_def index_table_def slot_entry_def intro!: exI [of _ i])
        then have t: "index_map idx ?k = Some ?t" using index_map_iff [OF shape] by blast
        have "next_entry idx = Some (Some (?k, ?t), idx\<lparr>si_scan := Some ?sc\<rparr>)"
          using s(1,2) card nz slots Some by (simp add: next_entry_def)
        moreover have "U - {?k} = low_keys idx i \<union> set (drop (ix_wrapped_next s) (si_wrapped idx))"
          using s(6) nz lowi kw by (auto dest: in_set_dropD)
        then have "scanning (idx\<lparr>si_scan := Some ?sc\<rparr>) K (U - {?k}) (Some ?k)"
          by (intro scanningI [where sc = ?sc]) (use inv s(1-5) sub fewer [OF U] U t icap i kw nz lowi in \<open>auto simp: index_table_def slot_entry_def\<close>)
        ultimately show ?thesis using False U t by auto
      next
        case None
        have low: "low_keys idx (ix_before s) = {}" using prev_bucket_None [OF None] by (auto simp: low_keys_iff)
        then have drop: "U = set (drop (ix_wrapped_next s) (si_wrapped idx))" using s(6) nz by simp
        let ?m = "ix_wrapped_next s"
        have m: "?m < length (si_wrapped idx)" using drop False by (cases "?m < length (si_wrapped idx)") auto
        let ?k = "si_wrapped idx ! ?m"
        have split: "drop ?m (si_wrapped idx) = ?k # drop (Suc ?m) (si_wrapped idx)" using m by (simp add: Cons_nth_drop_Suc)
        have U: "?k \<in> U" using drop split by simp
        have rest: "U - {?k} = set (drop (Suc ?m) (si_wrapped idx))"
          using drop split distinct_drop [OF inv(7), of ?m] by auto
        obtain t where t: "index_map idx ?k = Some t" using U inv(5) by blast
        then have get: "index_get idx ?k = Some (Some t)" using index_get_map [OF shape] by simp
        let ?sc = "s\<lparr>ix_remaining := ix_remaining s - 1, ix_before := 0, ix_wrapped_next := ?m + 1, ix_current := Some (CurrentWrapped ?k)\<rparr>"
        have "next_entry idx = Some (Some (?k, t), idx\<lparr>si_scan := Some ?sc\<rparr>)"
          using s(1,2) card nz slots None m get by (simp add: next_entry_def Let_def)
        moreover have low0: "low_keys idx 0 = {}" by (auto simp: low_keys_iff)
        have "?k \<noteq> 0" using inv(8) m nth_mem by fastforce
        then have "scanning (idx\<lparr>si_scan := Some ?sc\<rparr>) K (U - {?k}) (Some ?k)"
          by (intro scanningI [where sc = ?sc]) (use inv s(1-4) sub fewer [OF U] U t m nz rest low0 in auto)
        ultimately show ?thesis using False U t by auto
      qed
    qed
  qed
qed

lemma index_ok_less:
  assumes ok: "index_ok idx" and v: "(k, v) \<in> index_rel idx" and r: "index_shape r" "index_rel r = index_rel idx - {(k, v)}"
    "si_len r = si_len idx - 1" "si_max_keys r = si_max_keys idx" "si_capacity r = si_capacity idx"
  shows "index_ok r" "index_map r = (index_map idx)(k := None)"
proof -
  have shape: "index_shape idx" using ok by (simp add: index_ok_def)
  have "card (index_rel r) = card (index_rel idx) - 1" unfolding r(2) using v by (simp add: card_Diff_singleton)
  then show "index_ok r" unfolding index_ok_def using ok r(1,3-5) by (simp add: index_ok_def le_diff_conv)
  have "index_rel r = {e \<in> index_rel idx. fst e \<noteq> k}"
    unfolding r(2) using v index_single_valued [OF shape] by (auto dest: single_valuedD)
  then show "index_map r = (index_map idx)(k := None)" by (rule index_map_remove [OF shape r(1)])
qed

text \<open>Removing the entry the scan is at.\<close>

lemma remove_current_ok:
  assumes sc: "scanning idx K U (Some k)"
  shows "\<exists>idx'. remove_current idx = Some idx' \<and> scanning idx' K U None \<and> index_map idx' = (index_map idx)(k := None) \<and>
    si_max_keys idx' = si_max_keys idx \<and> index_heap_bytes idx' = index_heap_bytes idx"
proof -
  from sc obtain s where inv: "index_ok idx" "finite K" "card K \<le> si_max_keys idx" "U \<subseteq> K" "U \<subseteq> dom (index_map idx)"
      "set (si_wrapped idx) \<subseteq> K" "distinct (si_wrapped idx)" "0 \<notin> set (si_wrapped idx)"
    and "\<forall>j. Some k = Some j \<longrightarrow> j \<in> K \<and> j \<notin> U \<and> index_map idx j \<noteq> None"
    and s: "si_scan idx = Some s" "ix_remaining s = card U" "ix_before s \<le> si_capacity idx"
      "ix_wrapped_next s \<le> length (si_wrapped idx)" "set (si_wrapped idx) \<inter> low_keys idx (ix_before s) = {}"
      "U = (if ix_zero_pending s then {0} else {}) \<union> low_keys idx (ix_before s) \<union> set (drop (ix_wrapped_next s) (si_wrapped idx))"
      "current_ok idx s (ix_current s) (Some k)"
    by (rule scanningE)
  then have cur: "k \<in> K \<and> k \<notin> U \<and> index_map idx k \<noteq> None" by blast
  have shape: "index_shape idx" using inv(1) by (simp add: index_ok_def)
  obtain v where v: "(k, v) \<in> index_rel idx" using cur index_map_iff [OF shape] by blast
  have sub: "U \<subseteq> dom ((index_map idx)(k := None))" using inv(5) cur by auto
  let ?s = "s\<lparr>ix_current := None\<rparr>"
  let ?idx = "idx\<lparr>si_scan := Some ?s\<rparr>"
  consider (zero) "ix_current s = Some CurrentZero" | (bucket) i where "ix_current s = Some (CurrentBucket i)"
    | (wrapped) j where "ix_current s = Some (CurrentWrapped j)"
    using s(7) by (cases "ix_current s") (auto, metis Current.exhaust)
  then show ?thesis
  proof cases
    case zero
    then have k: "k = 0" "\<not> ix_zero_pending s" using s(7) by auto
    let ?r = "?idx\<lparr>si_zero := None, si_len := si_len idx - 1\<rparr>"
    have rel: "index_rel ?r = index_rel idx - {(k, v)}"
      using v k(1) index_bound_nonzero [of 0 _ idx] by (auto simp: index_rel_def index_bound_def)
    have shape': "index_shape ?r" using shape by (simp add: index_shape_def)
    have ok: "index_ok ?r" and map: "index_map ?r = (index_map idx)(k := None)" using index_ok_less [OF inv(1) v shape' rel] by simp_all
    have "low_keys ?r m = low_keys idx m" for m by (simp add: low_keys_def)
    then have "scanning ?r K U None" by (intro scanningI [where sc = ?s]) (use inv s(1-6) sub ok map in simp_all)
    moreover have "remove_current idx = Some ?r" using zero s(1) by (simp add: remove_current_def)
    ultimately show ?thesis using map by (simp add: index_heap_bytes_def)
  next
    case bucket
    then have i: "i = ix_before s" "i < si_capacity idx" "\<not> ix_zero_pending s" "index_keys (si_slots idx) i = Some k" "k \<notin> set (si_wrapped idx)"
      using s(7) by auto
    then obtain w where w: "index_table (si_slots idx) i = Some (k, w)" by auto
    have k0: "k \<noteq> 0" using i(4) index_keys_Some by blast
    have "(k, w) \<in> index_rel idx" using w i(2) by (auto simp: index_rel_def index_bound_def table_keys_def)
    then have wv: "w = v" using v index_single_valued [OF shape] by (auto dest: single_valuedD)
    have "length (si_wrapped idx) = card (set (si_wrapped idx))" using inv(7) by (simp add: distinct_card)
    also have "\<dots> < card (insert k (set (si_wrapped idx)))" using i(5) by simp
    also have "\<dots> \<le> card K" using inv(2,6) cur by (intro card_mono) auto
    finally have room: "length (si_wrapped ?idx) < si_max_keys ?idx" using inv(3) by simp
    obtain slots ws where ws: "close_hole ?idx i True = Some (?idx\<lparr>si_slots := slots, si_wrapped := si_wrapped idx @ ws\<rparr>)"
        "index_shape (?idx\<lparr>si_slots := slots, si_wrapped := si_wrapped idx @ ws\<rparr>)"
        "table_keys (si_capacity idx) (index_table slots) = index_bound idx - {(k, v)}" "length ws \<le> 1"
        "set ws \<subseteq> fst ` table_keys i (index_table (si_slots idx))"
        "table_keys i (index_table slots) = {x \<in> table_keys i (index_table (si_slots idx)). fst x \<notin> set ws}"
      using close_hole_ok [of ?idx i k w True] shape i(2) w wv room by (auto simp: index_bound_def)
    let ?r = "?idx\<lparr>si_slots := slots, si_wrapped := si_wrapped idx @ ws, si_len := si_len idx - 1\<rparr>"
    have rel: "index_rel ?r = index_rel idx - {(k, v)}" using ws(3) k0 by (auto simp: index_rel_def index_bound_def)
    have shape': "index_shape ?r" using ws(2) by (simp add: index_shape_def)
    have ok: "index_ok ?r" and map: "index_map ?r = (index_map idx)(k := None)" using index_ok_less [OF inv(1) v shape' rel] by simp_all
    have low: "low_keys idx i = fst ` table_keys i (index_table (si_slots idx))" by (simp add: low_keys_def table_keys_fst)
    have low': "low_keys ?r i = low_keys idx i - set ws" unfolding low using ws(6) by (auto simp: low_keys_def table_keys_fst)
    have wsl: "set ws \<subseteq> low_keys idx i" unfolding low by (rule ws(5))
    have fresh: "distinct (si_wrapped idx @ ws)" using inv(7) s(5) wsl ws(4) i(1) by (cases ws) auto
    have Ueq: "U = low_keys ?r i \<union> set (drop (ix_wrapped_next s) (si_wrapped idx @ ws))"
      using s(4,6) i(1,3) low' wsl by auto
    have "scanning ?r K U None"
    proof (rule scanningI [where sc = ?s])
      show "set (si_wrapped ?r) \<subseteq> K" using inv(4,6) wsl s(6) i(1) by auto
      show "0 \<notin> set (si_wrapped ?r)" using inv(8) wsl low_keys_nonzero by fastforce
      show "set (si_wrapped ?r) \<inter> low_keys ?r (ix_before ?s) = {}" using s(5) low' i(1) by auto
      show "U = (if ix_zero_pending ?s then {0} else {}) \<union> low_keys ?r (ix_before ?s) \<union> set (drop (ix_wrapped_next ?s) (si_wrapped ?r))"
        using Ueq i(1,3) by simp
    qed (use inv s(1-4) sub ok map fresh in simp_all)
    moreover have "remove_current idx = Some ?r" using bucket s(1) ws(1) by (simp add: remove_current_def)
    ultimately show ?thesis using map by (simp add: index_heap_bytes_def)
  next
    case wrapped
    then have k: "j = k" "k \<noteq> 0" "ix_before s = 0" "\<not> ix_zero_pending s" using s(7) by auto
    have "index_ok ?idx" using inv(1) by simp
    then obtain r where r: "remove_key ?idx k = Some (index_map idx k, r)" "index_ok r" "index_map r = (index_map idx)(k := None)" "index_frame ?idx r"
      using remove_key_ok [of ?idx k] by auto
    have low0: "low_keys x 0 = {}" for x by (auto simp: low_keys_iff)
    have "scanning r K U None"
      by (intro scanningI [where sc = ?s]) (use inv s(1-6) sub r k low0 in \<open>simp_all add: index_frame_def\<close>)
    moreover have "remove_current idx = Some r" using wrapped s(1) r(1) cur k(1) by (simp add: remove_current_def)
    ultimately show ?thesis using r(3,4) by (simp add: index_frame_def index_heap_bytes_def)
  qed
qed

text \<open>Changing the time of a key during a scan, and ending the scan.\<close>

lemma put_scanning:
  assumes sc: "scanning idx K U c" and k: "index_map idx k \<noteq> None"
  shows "\<exists>idx'. index_put idx k t = Some (Inr (), idx') \<and> scanning idx' K U c \<and> index_map idx' = (index_map idx)(k \<mapsto> t) \<and>
    si_max_keys idx' = si_max_keys idx \<and> index_heap_bytes idx' = index_heap_bytes idx"
proof -
  from sc obtain s where inv: "index_ok idx" "finite K" "card K \<le> si_max_keys idx" "U \<subseteq> K" "U \<subseteq> dom (index_map idx)"
      "set (si_wrapped idx) \<subseteq> K" "distinct (si_wrapped idx)" "0 \<notin> set (si_wrapped idx)"
    and cur: "\<forall>k. c = Some k \<longrightarrow> k \<in> K \<and> k \<notin> U \<and> index_map idx k \<noteq> None"
    and s: "si_scan idx = Some s" "ix_remaining s = card U" "ix_before s \<le> si_capacity idx"
      "ix_wrapped_next s \<le> length (si_wrapped idx)" "set (si_wrapped idx) \<inter> low_keys idx (ix_before s) = {}"
      "U = (if ix_zero_pending s then {0} else {}) \<union> low_keys idx (ix_before s) \<union> set (drop (ix_wrapped_next s) (si_wrapped idx))"
      "current_ok idx s (ix_current s) c"
    by (rule scanningE)
  obtain r where r: "index_put idx k t = Some (Inr (), r)" "index_ok r" "index_map r = (index_map idx)(k \<mapsto> t)" "index_frame idx r"
      "si_capacity r = si_capacity idx" "index_keys (si_slots r) = index_keys (si_slots idx)"
    using index_put_present [OF inv(1) k] by auto
  have low: "low_keys r m = low_keys idx m" for m by (simp only: low_keys_def r(6))
  have "current_ok r s x c = current_ok idx s x c" for x
    using r(4,5) fun_cong [OF r(6)] by (cases x rule: option.exhaust; cases "the x") (auto simp: index_frame_def)
  then have "scanning r K U c"
    by (intro scanningI [where sc = s]) (use inv cur s r low in \<open>auto simp: index_frame_def\<close>)
  then show ?thesis using r by (auto simp: index_frame_def)
qed

lemma finish_scan_ok:
  assumes "scanning idx K U c"
  shows "\<exists>idx'. finish_scan idx = Some idx' \<and> index_ok idx' \<and> si_scan idx' = None \<and> index_map idx' = index_map idx \<and>
    si_max_keys idx' = si_max_keys idx \<and> index_heap_bytes idx' = index_heap_bytes idx"
proof -
  have ok: "index_ok idx" "si_scan idx \<noteq> None" using assms by (auto simp: scanning_def)
  let ?r = "idx\<lparr>si_scan := None, si_wrapped := []\<rparr>"
  have "index_map ?r = index_map idx" by (simp add: fun_eq_iff index_map_def index_get_def find_bucket_def cong: if_cong)
  moreover have "index_ok ?r" using ok(1) by (simp add: index_ok_def index_shape_def index_rel_def index_bound_def)
  ultimately show ?thesis using ok(2) by (simp add: finish_scan_def index_heap_bytes_def)
qed

end
