(* ===== verification/TickIndexProps.thy ===== *)
theory TickIndexProps
  imports TickScan
begin

text \<open>
  What the scheduling index promises: it is built within its allocation limit, it is a finite map,
  and a scan of it visits every entry once, whichever entries are dropped or retimed on the way.
\<close>

section \<open>A scan with removals\<close>

datatype 'v visit = Keep | Discard | Retime 'v

text \<open>A client of a scan: ask for the next entry, then keep it, discard it or change its value.\<close>

fun scan_run ::
  "('m \<Rightarrow> (('k \<times> 'v) option \<times> 'm) option) \<Rightarrow> ('m \<Rightarrow> 'm option) \<Rightarrow> ('m \<Rightarrow> 'k \<Rightarrow> 'v \<Rightarrow> (('e + unit) \<times> 'm) option) \<Rightarrow>
   ('k \<Rightarrow> 'v \<Rightarrow> 'v visit) \<Rightarrow> nat \<Rightarrow> 'm \<Rightarrow> (('k \<times> 'v) list \<times> 'm) option" where
  "scan_run nx rm pt f 0 m = None"
| "scan_run nx rm pt f (Suc fuel) m =
    (case nx m of
       None \<Rightarrow> None
     | Some (None, m1) \<Rightarrow> Some ([], m1)
     | Some (Some (k, v), m1) \<Rightarrow>
         Option.bind
           (case f k v of
              Keep \<Rightarrow> Some m1
            | Discard \<Rightarrow> rm m1
            | Retime w \<Rightarrow> (case pt m1 k w of Some (Inr u, m2) \<Rightarrow> Some m2 | _ \<Rightarrow> None))
           (\<lambda>m2. map_option (\<lambda>(es, m3). ((k, v) # es, m3)) (scan_run nx rm pt f fuel m2)))"

fun visited :: "('k \<Rightarrow> 'v \<Rightarrow> 'v visit) \<Rightarrow> 'k \<Rightarrow> 'v option \<Rightarrow> 'v option" where
  "visited f k None = None"
| "visited f k (Some v) = (case f k v of Keep \<Rightarrow> Some v | Discard \<Rightarrow> None | Retime w \<Rightarrow> Some w)"

text \<open>The contract of a map that can be changed at the entry a scan is at.\<close>

locale scanned_map =
  fixes inv :: "'m \<Rightarrow> 'k set \<Rightarrow> 'k set \<Rightarrow> 'k option \<Rightarrow> bool" and view :: "'m \<Rightarrow> 'k \<Rightarrow> 'v option"
    and nx :: "'m \<Rightarrow> (('k \<times> 'v) option \<times> 'm) option" and rm :: "'m \<Rightarrow> 'm option"
    and pt :: "'m \<Rightarrow> 'k \<Rightarrow> 'v \<Rightarrow> (('e + unit) \<times> 'm) option"
  assumes next_done: "inv m K {} c \<Longrightarrow> nx m = Some (None, m)"
    and next_more: "inv m K U c \<Longrightarrow> U \<noteq> {} \<Longrightarrow>
      \<exists>k v m'. nx m = Some (Some (k, v), m') \<and> k \<in> U \<and> view m k = Some v \<and> view m' = view m \<and> inv m' K (U - {k}) (Some k)"
    and remove_law: "inv m K U (Some k) \<Longrightarrow> \<exists>m'. rm m = Some m' \<and> inv m' K U None \<and> view m' = (view m)(k := None)"
    and put_law: "inv m K U c \<Longrightarrow> view m k \<noteq> None \<Longrightarrow> \<exists>m'. pt m k w = Some (Inr (), m') \<and> inv m' K U c \<and> view m' = (view m)(k \<mapsto> w)"
begin

lemma scan_run_ok:
  assumes "inv m K U c" "finite U" "card U < fuel"
  shows "\<exists>es m'. scan_run nx rm pt f fuel m = Some (es, m') \<and> distinct (map fst es) \<and> set es = {(k, v). k \<in> U \<and> view m k = Some v} \<and>
    view m' = (\<lambda>k. if k \<in> U then visited f k (view m k) else view m k) \<and> (\<exists>c'. inv m' K {} c')"
  using assms
proof (induction fuel arbitrary: m U c)
  case (Suc fuel)
  show ?case
  proof (cases "U = {}")
    case True
    then show ?thesis using next_done [of m K c] Suc.prems(1) by auto
  next
    case False
    obtain k v m1 where m1: "nx m = Some (Some (k, v), m1)" "k \<in> U" "view m k = Some v" "view m1 = view m" "inv m1 K (U - {k}) (Some k)"
      using next_more [OF Suc.prems(1) False] by blast
    obtain m2 c2 where m2: "(case f k v of Keep \<Rightarrow> Some m1 | Discard \<Rightarrow> rm m1
          | Retime w \<Rightarrow> (case pt m1 k w of Some (Inr u, m2) \<Rightarrow> Some m2 | _ \<Rightarrow> None)) = Some m2"
        "inv m2 K (U - {k}) c2" "view m2 = (view m)(k := visited f k (Some v))"
    proof (cases "f k v")
      case Keep
      then show ?thesis using that [of m1 "Some k"] m1 by (auto simp: fun_upd_idem)
    next
      case Discard
      then show ?thesis using that remove_law [OF m1(5)] m1(4) by auto
    next
      case (Retime w)
      then show ?thesis using that put_law [OF m1(5), of k w] m1(3,4) by auto
    qed
    have fewer: "card (U - {k}) < fuel" using card_Suc_Diff1 [OF Suc.prems(2) m1(2)] Suc.prems(3) by linarith
    obtain es m3 where m3: "scan_run nx rm pt f fuel m2 = Some (es, m3)" "distinct (map fst es)"
        "set es = {(j, w). j \<in> U - {k} \<and> view m2 j = Some w}"
        "view m3 = (\<lambda>j. if j \<in> U - {k} then visited f j (view m2 j) else view m2 j)" "\<exists>c'. inv m3 K {} c'"
      using Suc.IH [OF m2(2) _ fewer] Suc.prems(2) by blast
    have "set ((k, v) # es) = {(j, w). j \<in> U \<and> view m j = Some w}" using m3(3) m2(3) m1(2,3) by auto
    moreover have "distinct (map fst ((k, v) # es))" using m3(2,3) by auto
    moreover have "view m3 = (\<lambda>j. if j \<in> U then visited f j (view m j) else view m j)"
      unfolding m3(4) m2(3) using m1(2,3) by (auto simp: fun_eq_iff)
    moreover have "scan_run nx rm pt f (Suc fuel) m = Some ((k, v) # es, m3)" using m1(1) m2(1) m3(1) by simp
    ultimately show ?thesis using m3(5) by blast
  qed
qed simp

end

interpretation index_scan: scanned_map scanning index_map next_entry remove_current index_put
proof
  fix idx K c
  show "next_entry idx = Some (None, idx)" if "scanning idx K {} c" using next_entry_ok [OF that] by simp
next
  fix idx K U c
  assume "scanning idx K U c" "U \<noteq> {}"
  then obtain k v sc where "next_entry idx = Some (Some (k, v), idx\<lparr>si_scan := Some sc\<rparr>)" "k \<in> U" "index_map idx k = Some v"
      "scanning (idx\<lparr>si_scan := Some sc\<rparr>) K (U - {k}) (Some k)"
    using next_entry_ok [of idx K U c] by auto
  then show "\<exists>k v idx'. next_entry idx = Some (Some (k, v), idx') \<and> k \<in> U \<and> index_map idx k = Some v \<and> index_map idx' = index_map idx \<and>
      scanning idx' K (U - {k}) (Some k)"
    by - (rule exI [of _ k], rule exI [of _ v], rule exI [of _ "idx\<lparr>si_scan := Some sc\<rparr>"], simp)
next
  fix idx K U k
  show "\<exists>idx'. remove_current idx = Some idx' \<and> scanning idx' K U None \<and> index_map idx' = (index_map idx)(k := None)"
    if "scanning idx K U (Some k)" using remove_current_ok [OF that] by blast
next
  fix idx K U c k w
  show "\<exists>idx'. index_put idx k w = Some (Inr (), idx') \<and> scanning idx' K U c \<and> index_map idx' = (index_map idx)(k \<mapsto> w)"
    if "scanning idx K U c" "index_map idx k \<noteq> None" using put_scanning [OF that] by blast
qed

section \<open>Construction\<close>

lemma fst_eq_Inr: "fst m = Inr x \<longleftrightarrow> (\<exists>left. m = (Inr x, left))"
  by (cases m) simp

lemma physical_capacity_ok:
  assumes "power_of_two p" "4 \<le> p" "power_of_two q" "p \<le> q" "max_keys \<le> max_fill q"
  shows "\<exists>r. physical_capacity max_keys p = Some r \<and> power_of_two r \<and> p \<le> r \<and> r \<le> q \<and> max_keys \<le> max_fill r \<and>
    (p < r \<longrightarrow> max_fill (r div 2) < max_keys)"
  using assms(1,2,4)
proof (induction "q - p" arbitrary: p rule: less_induct)
  case less
  show ?case
  proof (cases "max_keys > max_fill p")
    case False
    then show ?thesis using less.prems by (subst physical_capacity.simps) auto
  next
    case True
    then have "p < q" using assms(5) max_fill_mono [of q p] less.prems(3) by (cases "p = q") auto
    then have twice: "p * 2 \<le> q" using power_of_two_double [OF less.prems(1) assms(3)] by simp
    have closer: "q - p * 2 < q - p" using \<open>p < q\<close> less.prems(2) by linarith
    obtain r where r: "physical_capacity max_keys (p * 2) = Some r" "power_of_two r" "p * 2 \<le> r" "r \<le> q" "max_keys \<le> max_fill r"
        "p * 2 < r \<longrightarrow> max_fill (r div 2) < max_keys"
      using less.hyps [OF closer] power_of_two_twice [OF less.prems(1)] twice less.prems(2) by auto
    have "physical_capacity max_keys p = Some r" using True r(1) by (subst physical_capacity.simps) simp
    moreover have "max_fill (r div 2) < max_keys" using r(3,6) True by (cases "p * 2 = r") auto
    ultimately show ?thesis using r by auto
  qed
qed

lemma powers_of_two: "power_of_two INITIAL_CAPACITY" "power_of_two MAX_CAPACITY"
  unfolding power_of_two_def INITIAL_CAPACITY_def MAX_CAPACITY_def by (rule exI [of _ 5], simp, rule exI [of _ 30], simp)

lemma fresh_index_ok:
  assumes p: "power_of_two p" "INITIAL_CAPACITY \<le> p" "p \<le> MAX_CAPACITY" "max_keys \<le> max_fill p"
  shows "index_ok \<lparr>si_slots = replicate p EMPTY_SLOT, si_scratch = replicate p EMPTY_SLOT, si_wrapped = [], si_capacity = INITIAL_CAPACITY,
      si_max_keys = max_keys, si_len = 0, si_zero = None, si_scan = None, si_slots_capacity = c1, si_scratch_capacity = c2,
      si_wrapped_capacity = c3\<rparr>" (is "index_ok ?idx")
    "index_map \<lparr>si_slots = replicate p EMPTY_SLOT, si_scratch = replicate p EMPTY_SLOT, si_wrapped = [], si_capacity = INITIAL_CAPACITY,
      si_max_keys = max_keys, si_len = 0, si_zero = None, si_scan = None, si_slots_capacity = c1, si_scratch_capacity = c2,
      si_wrapped_capacity = c3\<rparr> = Map.empty"
proof -
  have none: "index_table (replicate p EMPTY_SLOT) i = None" if "i < p" for i
    using that by (simp add: index_table_def slot_entry_def EMPTY_SLOT_def)
  then have none': "index_table (replicate p EMPTY_SLOT) i = None" if "i < INITIAL_CAPACITY" for i using that p(2) by simp
  have "0 < INITIAL_CAPACITY" by (simp add: INITIAL_CAPACITY_def)
  then have "index_shape ?idx" using p powers_of_two none'
    by (auto simp: index_shape_def table_ok_def reachable_table_def)
  moreover have rel: "index_rel ?idx = {}" using none' by (auto simp: index_rel_def index_bound_def table_keys_def)
  ultimately show "index_ok ?idx" by (simp add: index_ok_def)
  show "index_map ?idx = Map.empty" by (rule index_map_eqI) (use \<open>index_shape ?idx\<close> rel in simp_all)
qed

section \<open>Properties\<close>

lemma index_new_ok:
  assumes "te_grants env"
  shows "\<exists>r. index_new env max_keys limit = Some r \<and> (max_fill MAX_CAPACITY < max_keys \<longrightarrow> r = Inl InvalidLimits) \<and>
    (case r of Inl e \<Rightarrow> True
     | Inr idx \<Rightarrow> index_ok idx \<and> index_map idx = Map.empty \<and> si_scan idx = None \<and> si_max_keys idx = max_keys \<and> index_heap_bytes idx \<le> limit \<and>
         max_keys \<le> max_fill (length (si_slots idx)) \<and>
         (INITIAL_CAPACITY < length (si_slots idx) \<longrightarrow> max_fill (length (si_slots idx) div 2) < max_keys))"
proof (cases "max_fill MAX_CAPACITY < max_keys")
  case True
  then show ?thesis by (simp add: index_new_def)
next
  case False
  obtain p where p: "physical_capacity max_keys INITIAL_CAPACITY = Some p" "power_of_two p" "INITIAL_CAPACITY \<le> p" "p \<le> MAX_CAPACITY"
      "max_keys \<le> max_fill p" "INITIAL_CAPACITY < p \<longrightarrow> max_fill (p div 2) < max_keys"
    using physical_capacity_ok [OF powers_of_two(1) _ powers_of_two(2), of max_keys] False by (auto simp: INITIAL_CAPACITY_def MAX_CAPACITY_def)
  have built: "index_ok idx \<and> index_map idx = Map.empty \<and> si_scan idx = None \<and> si_max_keys idx = max_keys \<and> index_heap_bytes idx \<le> limit \<and>
      length (si_slots idx) = p" if new: "index_new env max_keys limit = Some (Inr idx)" for idx
  proof -
    obtain c1 left1 c2 left2 c3 left3 where c: "reserved_vec env SLOT_BYTES p limit = (Inr c1, left1)"
        "reserved_vec env SLOT_BYTES p left1 = (Inr c2, left2)" "reserved_vec env I64_BYTES max_keys left2 = (Inr c3, left3)"
        "idx = \<lparr>si_slots = replicate p EMPTY_SLOT, si_scratch = replicate p EMPTY_SLOT, si_wrapped = [], si_capacity = INITIAL_CAPACITY,
           si_max_keys = max_keys, si_len = 0, si_zero = None, si_scan = None, si_slots_capacity = c1, si_scratch_capacity = c2,
           si_wrapped_capacity = c3\<rparr>"
      using new False p(1) by (auto simp: index_new_def result_simps fst_eq_Inr split: option.splits if_splits)
    have "index_heap_bytes idx \<le> limit"
      using reserved_vec_Inr [OF assms c(1)] reserved_vec_Inr [OF assms c(2)] reserved_vec_Inr [OF assms c(3)] c(4)
      by (simp add: index_heap_bytes_def add_mult_distrib)
    then show ?thesis using fresh_index_ok [OF p(2-5)] c(4) by simp
  qed
  have "index_new env max_keys limit \<noteq> None" using p(1) False by (simp add: index_new_def split: option.split)
  then obtain r where r: "index_new env max_keys limit = Some r" by blast
  show ?thesis
  proof (cases r)
    case (Inl e)
    then show ?thesis using r False by simp
  next
    case (Inr idx)
    then show ?thesis using r False built p(5,6) by simp
  qed
qed

text \<open>
  C39: the constructor returns for every number of keys: the doubling loop that sizes the physical
  tables ends. More keys than the largest table can hold are refused; an index that is built is empty,
  has the smallest power-of-two tables, of 32 buckets or more, that hold \<open>max_keys\<close> keys at three
  quarters full, and keeps within the allocation limit.
\<close>

theorem index_new_terminates:
  assumes "te_grants env"
  shows "\<exists>r. index_new env max_keys limit = Some r \<and> (max_fill MAX_CAPACITY < max_keys \<longrightarrow> r = Inl InvalidLimits) \<and>
    (case r of Inl e \<Rightarrow> True
     | Inr idx \<Rightarrow> index_ok idx \<and> index_map idx = Map.empty \<and> si_scan idx = None \<and> si_max_keys idx = max_keys \<and> index_heap_bytes idx \<le> limit \<and>
         max_keys \<le> max_fill (length (si_slots idx)) \<and>
         (INITIAL_CAPACITY < length (si_slots idx) \<longrightarrow> max_fill (length (si_slots idx) div 2) < max_keys))"
  by (rule index_new_ok) fact

definition index_env :: tick_env where
  "index_env = \<lparr>te_reserve = (\<lambda>width n. Some n), te_tick_size = 48, te_ready_size = 24, te_slot_size = 24\<rparr>"

theorem index_new_terminates_witness:
  "te_grants index_env \<and> (\<exists>r. index_new index_env 805306369 100 = Some r \<and> r = Inl InvalidLimits) \<and> (\<exists>r. index_new index_env 40 4096 = Some r)"
proof -
  have g: "te_grants index_env" by (simp add: te_grants_def index_env_def)
  have "max_fill MAX_CAPACITY < 805306369" by (simp add: max_fill_def MAX_CAPACITY_def)
  then show ?thesis using index_new_terminates [OF g, of 805306369 100] index_new_terminates [OF g, of 40 4096] g by auto
qed

text \<open>
  C38: outside a scan the index is a finite map from keys to times, key zero included. \<open>get\<close> looks a key
  up; \<open>put\<close> changes a key that is present, adds one while the limit allows it and refuses it with
  \<open>ChunkLimit\<close>, changing nothing, when it does not; \<open>remove\<close> returns the time the key had and forgets
  the key. The growing, shrinking and repairing they do on the way never panics, never probes for
  ever, keeps the invariant and allocates nothing.
\<close>

theorem scheduling_index_map:
  assumes "index_ok idx" "si_scan idx = None"
  shows "index_get idx k = Some (index_map idx k) \<and>
    (index_map idx k \<noteq> None \<or> card (dom (index_map idx)) < si_max_keys idx \<longrightarrow>
      (\<exists>idx'. index_put idx k t = Some (Inr (), idx') \<and> index_ok idx' \<and> si_scan idx' = None \<and>
         index_map idx' = (index_map idx)(k \<mapsto> t) \<and> index_heap_bytes idx' = index_heap_bytes idx)) \<and>
    (index_map idx k = None \<and> card (dom (index_map idx)) = si_max_keys idx \<longrightarrow> index_put idx k t = Some (Inl ChunkLimit, idx)) \<and>
    (\<exists>idx'. index_remove idx k = Some (index_map idx k, idx') \<and> index_ok idx' \<and> si_scan idx' = None \<and>
       index_map idx' = (index_map idx)(k := None) \<and> index_heap_bytes idx' = index_heap_bytes idx)"
proof -
  have shape: "index_shape idx" and len: "si_len idx = card (dom (index_map idx))"
    using assms(1) dom_index_map card_keys by (auto simp: index_ok_def)
  have put: "\<exists>idx'. index_put idx k t = Some (Inr (), idx') \<and> index_ok idx' \<and> si_scan idx' = None \<and>
      index_map idx' = (index_map idx)(k \<mapsto> t) \<and> index_heap_bytes idx' = index_heap_bytes idx"
    if room: "index_map idx k \<noteq> None \<or> card (dom (index_map idx)) < si_max_keys idx"
  proof (cases "index_map idx k = None")
    case True
    then show ?thesis using index_put_new [OF assms(1) True assms(2)] room len assms(2) by (auto simp: index_frame_def)
  next
    case False
    then show ?thesis using index_put_present [OF assms(1) False] assms(2) by (auto simp: index_frame_def)
  qed
  have "\<exists>idx'. index_remove idx k = Some (index_map idx k, idx') \<and> index_ok idx' \<and> si_scan idx' = None \<and>
       index_map idx' = (index_map idx)(k := None) \<and> index_heap_bytes idx' = index_heap_bytes idx"
    using remove_key_ok [OF assms(1), of k] assms(2) by (auto simp: index_remove_def index_frame_def)
  then show ?thesis using index_get_map [OF shape] put index_put_full [OF assms(1) _ assms(2)] len by simp
qed

definition sample_index :: SchedulingIndex where
  "sample_index = \<lparr>si_slots = replicate 32 EMPTY_SLOT, si_scratch = replicate 32 EMPTY_SLOT, si_wrapped = [], si_capacity = INITIAL_CAPACITY,
     si_max_keys = 3, si_len = 0, si_zero = None, si_scan = None, si_slots_capacity = 32, si_scratch_capacity = 32, si_wrapped_capacity = 3\<rparr>"

lemma sample_index_ok: "index_ok sample_index" "index_map sample_index = Map.empty" "si_scan sample_index = None" "si_max_keys sample_index = 3"
  using fresh_index_ok [OF powers_of_two(1), of 3 32 32 3]
  by (simp_all add: sample_index_def INITIAL_CAPACITY_def MAX_CAPACITY_def max_fill_def)

theorem scheduling_index_map_witness:
  "\<exists>idx. index_put sample_index (-5) 20 = Some (Inr (), idx) \<and> index_get idx (-5) = Some (Some 20) \<and> index_get idx 0 = Some None"
proof -
  obtain idx where put: "index_put sample_index (-5) 20 = Some (Inr (), idx)" and idx: "index_ok idx" "si_scan idx = None" "index_map idx = [-5 \<mapsto> 20]"
    using scheduling_index_map [OF sample_index_ok(1,3), of "-5" 20] sample_index_ok(2,4) by auto
  show ?thesis using put scheduling_index_map [OF idx(1,2)] idx(3) by auto
qed

text \<open>
  C37: a scan visits every entry of the index exactly once, with the time it has, however the client
  treats the entries it is given: entries it keeps stay, entries it discards are gone and entries it
  retimes have the new time, and nothing else changes. That holds although discarding an entry shifts
  others between the buckets, across bucket zero as well. The scan never panics, and it ends after as
  many steps as the index has entries.
\<close>

theorem scheduling_scan_visits_once:
  assumes "index_ok idx" "si_scan idx = None"
  shows "\<exists>idx0 es idx1 idx2. begin_scan idx = Some idx0 \<and>
    scan_run next_entry remove_current index_put f (Suc (card (dom (index_map idx)))) idx0 = Some (es, idx1) \<and> finish_scan idx1 = Some idx2 \<and>
    distinct (map fst es) \<and> set es = {(k, t). index_map idx k = Some t} \<and>
    index_ok idx2 \<and> si_scan idx2 = None \<and> index_map idx2 = (\<lambda>k. visited f k (index_map idx k))"
proof -
  have fin: "finite (dom (index_map idx))" using assms(1) dom_index_map by (simp add: index_ok_def)
  obtain idx0 where b: "begin_scan idx = Some idx0" "index_map idx0 = index_map idx" "scanning idx0 (dom (index_map idx)) (dom (index_map idx)) None"
    using begin_scan_ok [OF assms] by blast
  obtain es idx1 c where r: "scan_run next_entry remove_current index_put f (Suc (card (dom (index_map idx)))) idx0 = Some (es, idx1)"
      "distinct (map fst es)" "set es = {(k, v). k \<in> dom (index_map idx) \<and> index_map idx0 k = Some v}"
      "index_map idx1 = (\<lambda>k. if k \<in> dom (index_map idx) then visited f k (index_map idx0 k) else index_map idx0 k)"
      "scanning idx1 (dom (index_map idx)) {} c"
    using index_scan.scan_run_ok [OF b(3) fin, of "Suc (card (dom (index_map idx)))" f] by blast
  obtain idx2 where e: "finish_scan idx1 = Some idx2" "index_ok idx2" "si_scan idx2 = None" "index_map idx2 = index_map idx1"
    using finish_scan_ok [OF r(5)] by blast
  have "set es = {(k, t). index_map idx k = Some t}" using r(3) b(2) by auto
  moreover have "index_map idx2 = (\<lambda>k. visited f k (index_map idx k))" unfolding e(4) r(4) b(2) by (auto simp: fun_eq_iff domIff)
  ultimately show ?thesis using b(1) r(1,2) e by blast
qed

lemma single_entry: "distinct (map fst es) \<Longrightarrow> set es = {e} \<Longrightarrow> es = [e]"
  by (cases es rule: list.exhaust; cases "tl es") auto

theorem scheduling_scan_visits_once_witness:
  "\<exists>idx idx0 idx1. index_put sample_index (-5) 20 = Some (Inr (), idx) \<and> begin_scan idx = Some idx0 \<and>
     scan_run next_entry remove_current index_put (\<lambda>k t. Discard) 2 idx0 = Some ([(-5, 20)], idx1) \<and> index_map idx1 (-5) = None"
proof -
  obtain idx where put: "index_put sample_index (-5) 20 = Some (Inr (), idx)" and idx: "index_ok idx" "index_map idx = [-5 \<mapsto> 20]" "si_scan idx = None"
    using index_put_new [OF sample_index_ok(1), of "-5" 20] sample_index_ok by (auto simp: index_frame_def sample_index_def)
  obtain idx0 es idx1 idx2 where r: "begin_scan idx = Some idx0" "finish_scan idx1 = Some idx2"
      "scan_run next_entry remove_current index_put (\<lambda>k t. Discard) (Suc (card (dom (index_map idx)))) idx0 = Some (es, idx1)"
      "distinct (map fst es)" "set es = {(k, t). index_map idx k = Some t}" "index_map idx2 = (\<lambda>k. visited (\<lambda>k t. Discard) k (index_map idx k))"
    using scheduling_scan_visits_once [OF idx(1,3), of "\<lambda>k t. Discard"] by blast
  have "set es = {(-5, 20)}" using r(5) idx(2) by (auto split: if_splits)
  then have "es = [(-5, 20)]" by (rule single_entry [OF r(4)])
  moreover have "index_map idx1 = index_map idx2"
    using r(2) by (auto simp: finish_scan_def fun_eq_iff index_map_def index_get_def find_bucket_def cong: if_cong split: if_splits)
  ultimately show ?thesis using put r idx(2) by (auto simp: numeral_2_eq_2)
qed

end
