(* ===== verification/TickOwner.thy ===== *)
theory TickOwner
  imports TickRemoval TickIndexProps
begin

text \<open>
  \<open>ScheduledTickOwner\<close> of \<^verbatim>\<open>src/world/ticks.rs\<close>: the chunks of a world in address order, each with a
  heap of ticks and an identity table per domain, the two scheduling indexes, and the ticks selected
  for the phase that is running. Operations return the updated owner with their result; \<open>None\<close> is a
  panic, a failed assertion or an arithmetic underflow. The allocator and the sizes of the element
  types are \<open>owner_env\<close>; every table draws its own seeded hasher, so operations that build one take
  the hasher they draw.
\<close>

section \<open>Data\<close>

datatype TickDomain = BlockDomain | FluidDomain

definition MAX_SCHEDULED_TICKS_PER_PHASE :: nat where "MAX_SCHEDULED_TICKS_PER_PHASE = 65536"

type_synonym tick_hasher = "Identity \<Rightarrow> u64"

record owner_env =
  oe_tick :: tick_env
  oe_saved_size :: nat
  oe_chunk_size :: nat
  oe_snapshot_size :: nat
  oe_entry_size :: nat

record TickLimits =
  tl_max_chunks :: nat
  tl_queued_per_chunk :: nat
  tl_selected_per_phase :: nat
  tl_allocation_bytes :: nat

record CopyOutcome =
  co_added :: nat
  co_duplicates :: nat
  co_missing_containers :: nat

definition no_copy :: CopyOutcome where
  "no_copy = \<lparr>co_added = 0, co_duplicates = 0, co_missing_containers = 0\<rparr>"

datatype ScheduleOutcome = Added | Duplicate | MissingContainer

text \<open>Pending ticks come with the capacity of their vector.\<close>

record ChunkQueue =
  tq_heap :: ScheduledHeap
  tq_identities :: Identities
  tq_pending :: "(SavedTick list \<times> nat) option"
  tq_hash :: tick_hasher

record ChunkQueues =
  ck_address :: ChunkAddress
  ck_registered :: bool
  ck_eligible :: bool
  ck_blocks :: ChunkQueue
  ck_fluids :: ChunkQueue

record SnapshotTick =
  sn_tick :: ScheduledTick
  sn_sequence :: nat
  sn_admitted :: bool

record ScheduledTickOwner =
  ow_limits :: TickLimits
  ow_block_types :: nat
  ow_fluid_types :: nat
  ow_next_sub_tick :: int
  ow_chunks :: "ChunkQueues list"
  ow_ready :: "ReadyChunk Heap"
  ow_block_index :: SchedulingIndex
  ow_fluid_index :: SchedulingIndex
  ow_selected :: "ScheduledTick list"
  ow_selected_ids :: Identities
  ow_selected_hash :: tick_hasher
  ow_remaining_ids :: RemainingCounts
  ow_remaining_hash :: tick_hasher
  ow_scratch :: "SnapshotTick list"
  ow_scratch_capacity :: nat
  ow_scratch_limit :: nat
  ow_copy_ids :: "(Identities \<times> tick_hasher) option"
  ow_copy_capacity :: nat
  ow_copy_counts :: "nat list"
  ow_copy_counts_capacity :: nat
  ow_cursor :: nat
  ow_active :: "TickDomain option"
  ow_allocated_bytes :: nat

type_synonym 'a owner_result = "((TickError + 'a) \<times> ScheduledTickOwner) option"

definition wrap_i64 :: "int \<Rightarrow> int" where
  "wrap_i64 k = (k + 2 ^ 63) mod 2 ^ 64 - 2 ^ 63"

section \<open>Queues of a chunk\<close>

definition queue_new :: "tick_env \<Rightarrow> tick_hasher \<Rightarrow> nat \<Rightarrow> nat \<Rightarrow> (TickError + ChunkQueue) \<times> nat" where
  "queue_new env hash capacity budget =
    bind_b (scheduled_new env capacity budget) (\<lambda>h left1.
      bind_b (identities_new env capacity left1) (\<lambda>ids left2.
        (Inr \<lparr>tq_heap = h, tq_identities = ids, tq_pending = None, tq_hash = hash\<rparr>, left2)))"

definition queue_pop :: "ChunkQueue \<Rightarrow> (ScheduledTick option \<times> ChunkQueue) option" where
  "queue_pop q = do {
     (t, h) \<leftarrow> scheduled_pop (tq_heap q);
     (case t of
        None \<Rightarrow> Some (None, q\<lparr>tq_heap := h\<rparr>)
      | Some tick \<Rightarrow> do {
          ids \<leftarrow> identities_remove (tq_hash q) (tq_identities q) (identity tick);
          Some (Some tick, q\<lparr>tq_heap := h, tq_identities := ids\<rparr>)
        })
   }"

definition queue_heap_bytes :: "owner_env \<Rightarrow> ChunkQueue \<Rightarrow> nat" where
  "queue_heap_bytes env q =
    scheduled_heap_bytes (oe_tick env) (tq_heap q) + identities_heap_bytes (oe_tick env) (tq_identities q)
      + (case tq_pending q of None \<Rightarrow> 0 | Some (saved, c) \<Rightarrow> c * oe_saved_size env)"

definition queue_count :: "ChunkQueue \<Rightarrow> nat" where
  "queue_count q = length (sched_values (tq_heap q)) + (case tq_pending q of None \<Rightarrow> 0 | Some (saved, c) \<Rightarrow> length saved)"

primrec chunk_queue :: "TickDomain \<Rightarrow> ChunkQueues \<Rightarrow> ChunkQueue" where
  "chunk_queue BlockDomain c = ck_blocks c"
| "chunk_queue FluidDomain c = ck_fluids c"

primrec chunk_set_queue :: "TickDomain \<Rightarrow> ChunkQueue \<Rightarrow> ChunkQueues \<Rightarrow> ChunkQueues" where
  "chunk_set_queue BlockDomain q c = c\<lparr>ck_blocks := q\<rparr>"
| "chunk_set_queue FluidDomain q c = c\<lparr>ck_fluids := q\<rparr>"

definition chunk_heap_bytes :: "owner_env \<Rightarrow> ChunkQueues \<Rightarrow> nat" where
  "chunk_heap_bytes env c = queue_heap_bytes env (ck_blocks c) + queue_heap_bytes env (ck_fluids c)"

section \<open>The owner\<close>

definition owner_new ::
  "owner_env \<Rightarrow> tick_hasher \<Rightarrow> tick_hasher \<Rightarrow> nat \<Rightarrow> nat \<Rightarrow> TickLimits \<Rightarrow> (TickError + ScheduledTickOwner) option" where
  "owner_new env selected_hash remaining_hash block_types fluid_types limits =
    (if block_types = 0 \<or> fluid_types = 0 \<or> tl_max_chunks limits = 0 \<or> tl_queued_per_chunk limits = 0 \<or>
        tl_selected_per_phase limits = 0 \<or> tl_selected_per_phase limits > MAX_SCHEDULED_TICKS_PER_PHASE
     then Some (Inl InvalidLimits)
     else
       (case bind_b (reserved_vec (oe_tick env) (oe_chunk_size env) (tl_max_chunks limits) (tl_allocation_bytes limits)) (\<lambda>c1 left1.
               heap_new (oe_tick env) (te_ready_size (oe_tick env)) (tl_max_chunks limits) left1) of
          (Inl e, left) \<Rightarrow> Some (Inl e)
        | (Inr ready, left2) \<Rightarrow> do {
            block \<leftarrow> index_new (oe_tick env) (tl_max_chunks limits) left2;
            (case block of
               Inl e \<Rightarrow> Some (Inl e)
             | Inr block_index \<Rightarrow> do {
                 left3 \<leftarrow> checked_sub left2 (index_heap_bytes block_index);
                 fluid \<leftarrow> index_new (oe_tick env) (tl_max_chunks limits) left3;
                 (case fluid of
                    Inl e \<Rightarrow> Some (Inl e)
                  | Inr fluid_index \<Rightarrow> do {
                      left4 \<leftarrow> checked_sub left3 (index_heap_bytes fluid_index);
                      (case bind_b (reserved_vec (oe_tick env) (te_tick_size (oe_tick env)) (tl_selected_per_phase limits) left4) (\<lambda>c5 left5.
                              bind_b (identities_new (oe_tick env) (tl_selected_per_phase limits) left5) (\<lambda>selected_ids left6.
                                bind_b (remaining_new (oe_tick env) (oe_entry_size env) (tl_selected_per_phase limits) left6)
                                  (\<lambda>remaining_ids left7. (Inr (selected_ids, remaining_ids), left7)))) of
                         (Inl e, left) \<Rightarrow> Some (Inl e)
                       | (Inr (selected_ids, remaining_ids), left7) \<Rightarrow>
                           (case Option.bind (checked_mul (tl_max_chunks limits) (tl_queued_per_chunk limits))
                                   (\<lambda>queued. checked_add queued (tl_selected_per_phase limits)) of
                              None \<Rightarrow> Some (Inl InvalidLimits)
                            | Some scratch_capacity \<Rightarrow>
                                Some (Inr \<lparr>ow_limits = limits, ow_block_types = block_types, ow_fluid_types = fluid_types,
                                  ow_next_sub_tick = 0, ow_chunks = [], ow_ready = ready, ow_block_index = block_index,
                                  ow_fluid_index = fluid_index, ow_selected = [], ow_selected_ids = selected_ids,
                                  ow_selected_hash = selected_hash, ow_remaining_ids = remaining_ids,
                                  ow_remaining_hash = remaining_hash, ow_scratch = [], ow_scratch_capacity = 0,
                                  ow_scratch_limit = scratch_capacity, ow_copy_ids = None, ow_copy_capacity = 0,
                                  ow_copy_counts = [], ow_copy_counts_capacity = 0, ow_cursor = 0, ow_active = None,
                                  ow_allocated_bytes = tl_allocation_bytes limits - left7\<rparr>)))
                    })
               })
          }))"

text \<open>The derived order of addresses, and the binary search in the sorted chunks.\<close>

definition address_less :: "ChunkAddress \<Rightarrow> ChunkAddress \<Rightarrow> bool" where
  "address_less a b \<longleftrightarrow> (ca_x a, ca_z a) < (ca_x b, ca_z b)"

definition chunk_find :: "ChunkQueues list \<Rightarrow> ChunkAddress \<Rightarrow> nat + nat" where
  "chunk_find chunks address =
    (let i = length (takeWhile (\<lambda>c. address_less (ck_address c) address) chunks) in
     if i < length chunks \<and> ck_address (chunks ! i) = address then Inr i else Inl i)"

definition registered :: "ScheduledTickOwner \<Rightarrow> ChunkAddress \<Rightarrow> TickError + nat" where
  "registered ow address =
    (case chunk_find (ow_chunks ow) address of
       Inl i \<Rightarrow> Inl MissingChunk
     | Inr i \<Rightarrow> if ck_registered (ow_chunks ow ! i) then Inr i else Inl MissingChunk)"

primrec timeline :: "TickDomain \<Rightarrow> ScheduledTickOwner \<Rightarrow> SchedulingIndex" where
  "timeline BlockDomain ow = ow_block_index ow"
| "timeline FluidDomain ow = ow_fluid_index ow"

primrec set_timeline :: "TickDomain \<Rightarrow> SchedulingIndex \<Rightarrow> ScheduledTickOwner \<Rightarrow> ScheduledTickOwner" where
  "set_timeline BlockDomain idx ow = ow\<lparr>ow_block_index := idx\<rparr>"
| "set_timeline FluidDomain idx ow = ow\<lparr>ow_fluid_index := idx\<rparr>"

primrec type_count :: "TickDomain \<Rightarrow> ScheduledTickOwner \<Rightarrow> nat" where
  "type_count BlockDomain ow = ow_block_types ow"
| "type_count FluidDomain ow = ow_fluid_types ow"

text \<open>\<open>self.timeline_mut(domain).put(key, time).expect(...)\<close>\<close>

definition put_timeline :: "TickDomain \<Rightarrow> int \<Rightarrow> int \<Rightarrow> ScheduledTickOwner \<Rightarrow> ScheduledTickOwner option" where
  "put_timeline domain key time ow =
    (case index_put (timeline domain ow) key time of
       Some (Inr u, idx) \<Rightarrow> Some (set_timeline domain idx ow)
     | _ \<Rightarrow> None)"

definition set_chunk :: "nat \<Rightarrow> ChunkQueues \<Rightarrow> ScheduledTickOwner \<Rightarrow> ScheduledTickOwner" where
  "set_chunk i c ow = ow\<lparr>ow_chunks := (ow_chunks ow)[i := c]\<rparr>"

definition update_head :: "ChunkAddress \<Rightarrow> TickDomain \<Rightarrow> ScheduledTickOwner \<Rightarrow> ScheduledTickOwner option" where
  "update_head address domain ow =
    (case registered ow address of
       Inl e \<Rightarrow> Some ow
     | Inr i \<Rightarrow>
         (case scheduled_peek (tq_heap (chunk_queue domain (ow_chunks ow ! i))) of
            None \<Rightarrow> Some ow
          | Some tick \<Rightarrow> put_timeline domain (packed_chunk address) (st_trigger_tick tick) ow))"

definition insert_chunk :: "nat \<Rightarrow> ChunkQueues \<Rightarrow> ScheduledTickOwner \<Rightarrow> ScheduledTickOwner" where
  "insert_chunk i c ow = ow\<lparr>ow_chunks := take i (ow_chunks ow) @ c # drop i (ow_chunks ow)\<rparr>"

definition register_chunk ::
  "owner_env \<Rightarrow> tick_hasher \<Rightarrow> tick_hasher \<Rightarrow> ChunkAddress \<Rightarrow> bool \<Rightarrow> ScheduledTickOwner \<Rightarrow> unit owner_result" where
  "register_chunk env block_hash fluid_hash address eligible ow =
    (let finish = (\<lambda>ow. do {
       ow \<leftarrow> update_head address BlockDomain ow;
       ow \<leftarrow> update_head address FluidDomain ow;
       Some (Inr (), ow) })
     in (case chunk_find (ow_chunks ow) address of
        Inr i \<Rightarrow>
          if ck_registered (ow_chunks ow ! i) then Some (Inl AlreadyRegistered, ow)
          else finish (set_chunk i ((ow_chunks ow ! i)\<lparr>ck_registered := True, ck_eligible := eligible\<rparr>) ow)
      | Inl i \<Rightarrow>
          if length (ow_chunks ow) = tl_max_chunks (ow_limits ow) then Some (Inl ChunkLimit, ow)
          else do {
            remaining \<leftarrow> checked_sub (tl_allocation_bytes (ow_limits ow)) (ow_allocated_bytes ow);
            (case bind_b (queue_new (oe_tick env) block_hash (tl_queued_per_chunk (ow_limits ow)) remaining) (\<lambda>blocks left1.
                    bind_b (queue_new (oe_tick env) fluid_hash (tl_queued_per_chunk (ow_limits ow)) left1) (\<lambda>fluids left2.
                      (Inr (blocks, fluids), left2))) of
               (Inl e, left) \<Rightarrow> Some (Inl e, ow)
             | (Inr (blocks, fluids), left) \<Rightarrow>
                 finish ((insert_chunk i \<lparr>ck_address = address, ck_registered = True, ck_eligible = eligible, ck_blocks = blocks,
                     ck_fluids = fluids\<rparr> ow)\<lparr>ow_allocated_bytes := tl_allocation_bytes (ow_limits ow) - left\<rparr>))
          }))"

section \<open>Saved ticks\<close>

definition saved_identity :: "SavedTick \<Rightarrow> Identity" where
  "saved_identity t = \<lparr>id_position = sv_position t, id_type_id = sv_type_id t\<rparr>"

text \<open>The loop that copies the saved ticks of the chunk and enters their identities.\<close>

fun insert_saved :: "tick_hasher \<Rightarrow> Identities \<Rightarrow> SavedTick list \<Rightarrow> Identities option" where
  "insert_saved hash ids [] = Some ids"
| "insert_saved hash ids (t # ts) = Option.bind (identities_insert hash ids (saved_identity t)) (\<lambda>ids'. insert_saved hash ids' ts)"

definition load_pending_chunk ::
  "owner_env \<Rightarrow> tick_hasher \<Rightarrow> tick_hasher \<Rightarrow> ChunkAddress \<Rightarrow> SavedTick list \<Rightarrow> SavedTick list \<Rightarrow> ScheduledTickOwner \<Rightarrow>
   unit owner_result" where
  "load_pending_chunk env block_hash fluid_hash address blocks fluids ow =
    (case chunk_find (ow_chunks ow) address of
       Inr i \<Rightarrow> Some (Inl ChunkAlreadyPresent, ow)
     | Inl i \<Rightarrow>
         if length (ow_chunks ow) = tl_max_chunks (ow_limits ow) then Some (Inl ChunkLimit, ow)
         else
           (let own = filter (\<lambda>t. tick_chunk (sv_position t) = address); own_blocks = own blocks; own_fluids = own fluids;
              limit = tl_queued_per_chunk (ow_limits ow)
            in if length own_blocks > limit \<or> length own_fluids > limit \<or> length own_blocks > nat I32_MAX \<or> length own_fluids > nat I32_MAX
               then Some (Inl QueueFull, ow)
               else if (\<exists>t \<in> set own_blocks. sv_type_id t \<ge> ow_block_types ow) \<or> (\<exists>t \<in> set own_fluids. sv_type_id t \<ge> ow_fluid_types ow)
               then Some (Inl InvalidType, ow)
               else do {
                 remaining \<leftarrow> checked_sub (tl_allocation_bytes (ow_limits ow)) (ow_allocated_bytes ow);
                 (case bind_b (queue_new (oe_tick env) block_hash limit remaining) (\<lambda>bq left1.
                         bind_b (queue_new (oe_tick env) fluid_hash limit left1) (\<lambda>fq left2.
                           bind_b (reserved_vec (oe_tick env) (oe_saved_size env) (length own_blocks) left2) (\<lambda>c3 left3.
                             bind_b (reserved_vec (oe_tick env) (oe_saved_size env) (length own_fluids) left3) (\<lambda>c4 left4.
                               (Inr (bq, fq, c3, c4), left4))))) of
                    (Inl e, left) \<Rightarrow> Some (Inl e, ow)
                  | (Inr (bq, fq, c3, c4), left) \<Rightarrow> do {
                      block_ids \<leftarrow> insert_saved block_hash (tq_identities bq) own_blocks;
                      fluid_ids \<leftarrow> insert_saved fluid_hash (tq_identities fq) own_fluids;
                      Some (Inr (), (insert_chunk i
                        \<lparr>ck_address = address, ck_registered = False, ck_eligible = False,
                          ck_blocks = bq\<lparr>tq_identities := block_ids, tq_pending := Some (own_blocks, c3)\<rparr>,
                          ck_fluids = fq\<lparr>tq_identities := fluid_ids, tq_pending := Some (own_fluids, c4)\<rparr>\<rparr> ow)
                        \<lparr>ow_allocated_bytes := tl_allocation_bytes (ow_limits ow) - left\<rparr>)
                    })
               }))"

definition unpacked_tick :: "int \<Rightarrow> int \<Rightarrow> SavedTick \<Rightarrow> ScheduledTick" where
  "unpacked_tick game_time order saved =
    \<lparr>st_position = sv_position saved, st_type_id = sv_type_id saved, st_trigger_tick = wrap_i64 (game_time + sv_delay saved),
      st_priority = sv_priority saved, st_sub_tick_order = order\<rparr>"

text \<open>Pushing a tick onto the heap of a chunk and, if it became the head of a registered chunk, onto the timeline.\<close>

definition push_tick :: "TickDomain \<Rightarrow> nat \<Rightarrow> ScheduledTick \<Rightarrow> ScheduledTickOwner \<Rightarrow> ScheduledTickOwner option" where
  "push_tick domain i tick ow = do {
     let c = ow_chunks ow ! i;
     let q = chunk_queue domain c;
     h \<leftarrow> scheduled_push (tq_heap q) tick;
     let ow = set_chunk i (chunk_set_queue domain (q\<lparr>tq_heap := h\<rparr>) c) ow;
     (if ck_registered c \<and> scheduled_peek h = Some tick
      then put_timeline domain (packed_chunk (ck_address c)) (st_trigger_tick tick) ow
      else Some ow)
   }"

fun unpack_ticks :: "TickDomain \<Rightarrow> nat \<Rightarrow> int \<Rightarrow> int \<Rightarrow> SavedTick list \<Rightarrow> ScheduledTickOwner \<Rightarrow> ScheduledTickOwner option" where
  "unpack_ticks domain i game_time order [] ow = Some ow"
| "unpack_ticks domain i game_time order (t # ts) ow =
    Option.bind (push_tick domain i (unpacked_tick game_time order t) ow) (unpack_ticks domain i game_time (order + 1) ts)"

definition unpack_domain :: "owner_env \<Rightarrow> nat \<Rightarrow> int \<Rightarrow> TickDomain \<Rightarrow> ScheduledTickOwner \<Rightarrow> ScheduledTickOwner option" where
  "unpack_domain env i game_time domain ow =
    (let c = ow_chunks ow ! i; q = chunk_queue domain c in
     (case tq_pending q of
        None \<Rightarrow> Some ow
      | Some (saved, capacity) \<Rightarrow> do {
          ow \<leftarrow> unpack_ticks domain i game_time (- int (length saved)) saved (set_chunk i (chunk_set_queue domain (q\<lparr>tq_pending := None\<rparr>) c) ow);
          left \<leftarrow> checked_sub (ow_allocated_bytes ow) (capacity * oe_saved_size env);
          Some (ow\<lparr>ow_allocated_bytes := left\<rparr>)
        }))"

definition unpack_chunk :: "owner_env \<Rightarrow> ChunkAddress \<Rightarrow> int \<Rightarrow> ScheduledTickOwner \<Rightarrow> unit owner_result" where
  "unpack_chunk env address game_time ow =
    (case chunk_find (ow_chunks ow) address of
       Inl i \<Rightarrow> Some (Inl MissingChunk, ow)
     | Inr i \<Rightarrow> do {
         ow \<leftarrow> unpack_domain env i game_time BlockDomain ow;
         ow \<leftarrow> unpack_domain env i game_time FluidDomain ow;
         Some (Inr (), ow)
       })"

section \<open>Working memory of the rare operations\<close>

text \<open>\<open>needed\<close> entries of scratch and, for a copy, an identity table and a count per chunk.\<close>

definition ensure_operation_scratch :: "owner_env \<Rightarrow> tick_hasher \<Rightarrow> nat \<Rightarrow> bool \<Rightarrow> ScheduledTickOwner \<Rightarrow> unit owner_result" where
  "ensure_operation_scratch env hash needed copying ow =
    (if needed > ow_scratch_limit ow then Some (Inl AllocationBudget, ow)
     else if needed = 0 then Some (Inr (), ow)
     else do {
       remaining \<leftarrow> checked_sub (tl_allocation_bytes (ow_limits ow)) (ow_allocated_bytes ow);
       (case bind_b
               (if needed > ow_scratch_capacity ow
                then bind_b (reserved_vec (oe_tick env) (oe_snapshot_size env) needed remaining) (\<lambda>c left. (Inr (Some c), left))
                else (Inr None, remaining)) (\<lambda>replacement left1.
             bind_b
               (if copying \<and> needed > ow_copy_capacity ow
                then bind_b (identities_new (oe_tick env) needed left1) (\<lambda>ids left. (Inr (Some ids), left))
                else (Inr None, left1)) (\<lambda>identities left2.
             bind_b
               (if copying \<and> length (ow_chunks ow) > ow_copy_counts_capacity ow
                then bind_b (reserved_vec (oe_tick env) USIZE_BYTES (length (ow_chunks ow)) left2) (\<lambda>c left. (Inr (Some c), left))
                else (Inr None, left2)) (\<lambda>counts left3.
             (Inr (replacement, identities, counts), left3)))) of
          (Inl e, left) \<Rightarrow> Some (Inl e, ow)
        | (Inr (replacement, identities, counts), left) \<Rightarrow>
            (let freed = (case replacement of None \<Rightarrow> 0 | Some c \<Rightarrow> ow_scratch_capacity ow * oe_snapshot_size env)
                   + (case identities of None \<Rightarrow> 0 | Some ids \<Rightarrow>
                        (case ow_copy_ids ow of None \<Rightarrow> 0 | Some (old, h) \<Rightarrow> identities_heap_bytes (oe_tick env) old))
                   + (case counts of None \<Rightarrow> 0 | Some c \<Rightarrow> ow_copy_counts_capacity ow * USIZE_BYTES);
                 ow = (case replacement of None \<Rightarrow> ow | Some c \<Rightarrow> ow\<lparr>ow_scratch := [], ow_scratch_capacity := c\<rparr>);
                 ow = (case identities of None \<Rightarrow> ow | Some ids \<Rightarrow> ow\<lparr>ow_copy_ids := Some (ids, hash), ow_copy_capacity := needed\<rparr>);
                 ow = (case counts of None \<Rightarrow> ow | Some c \<Rightarrow> ow\<lparr>ow_copy_counts := [], ow_copy_counts_capacity := c\<rparr>);
                 n = length (ow_chunks ow);
                 ow = (if copying then ow\<lparr>ow_copy_counts := take n (ow_copy_counts ow) @ replicate (n - length (ow_copy_counts ow)) 0\<rparr> else ow)
             in do {
                  allocated \<leftarrow> Option.bind (checked_sub (tl_allocation_bytes (ow_limits ow)) left) (\<lambda>x. checked_sub x freed);
                  Some (Inr (), ow\<lparr>ow_allocated_bytes := allocated\<rparr>)
                }))
     })"

definition release_operation_scratch :: "owner_env \<Rightarrow> ScheduledTickOwner \<Rightarrow> ScheduledTickOwner option" where
  "release_operation_scratch env ow = do {
     let bytes = ow_scratch_capacity ow * oe_snapshot_size env
       + (case ow_copy_ids ow of None \<Rightarrow> 0 | Some (ids, h) \<Rightarrow> identities_heap_bytes (oe_tick env) ids)
       + ow_copy_counts_capacity ow * USIZE_BYTES;
     left \<leftarrow> checked_sub (ow_allocated_bytes ow) bytes;
     Some (ow\<lparr>ow_scratch := [], ow_scratch_capacity := 0, ow_copy_ids := None, ow_copy_counts := [], ow_copy_counts_capacity := 0,
       ow_copy_capacity := 0, ow_allocated_bytes := left\<rparr>)
   }"

text \<open>The caller's output vector is its elements and its capacity.\<close>

definition snapshot_of :: "ScheduledTick list \<Rightarrow> SnapshotTick list" where
  "snapshot_of ticks = map (\<lambda>(i, t). \<lparr>sn_tick = t, sn_sequence = i, sn_admitted = False\<rparr>) (enumerate 0 ticks)"

definition packed_tick :: "int \<Rightarrow> ScheduledTick \<Rightarrow> SavedTick" where
  "packed_tick game_time tick =
    \<lparr>sv_position = st_position tick, sv_type_id = st_type_id tick,
      sv_delay = wrap_i32 (wrap_i64 (st_trigger_tick tick - game_time)), sv_priority = st_priority tick\<rparr>"

definition pack_chunk ::
  "owner_env \<Rightarrow> ChunkAddress \<Rightarrow> TickDomain \<Rightarrow> int \<Rightarrow> SavedTick list \<Rightarrow> nat \<Rightarrow> ScheduledTickOwner \<Rightarrow>
   (nat \<times> SavedTick list) owner_result" where
  "pack_chunk env address domain game_time output capacity ow =
    (case chunk_find (ow_chunks ow) address of
       Inl i \<Rightarrow> Some (Inl MissingChunk, ow)
     | Inr i \<Rightarrow>
         (let q = chunk_queue domain (ow_chunks ow ! i); n = queue_count q in
          if capacity - length output < n then Some (Inl OutputCapacity, ow)
          else do {
            (r, ow) \<leftarrow> ensure_operation_scratch env (\<lambda>x. 0) (length (sched_values (tq_heap q))) False ow;
            (case r of
               Inl e \<Rightarrow> Some (Inl e, ow)
             | Inr u \<Rightarrow>
                 (let sorted = sort_key (\<lambda>e. (st_sub_tick_order (sn_tick e), sn_sequence e)) (snapshot_of (sched_values (tq_heap q)))
                  in Some (Inr (n, output @ (case tq_pending q of None \<Rightarrow> [] | Some (saved, c) \<Rightarrow> saved)
                              @ map (\<lambda>e. packed_tick game_time (sn_tick e)) sorted), ow\<lparr>ow_scratch := []\<rparr>)))
          }))"

section \<open>Registration and scheduling\<close>

definition set_eligible :: "ChunkAddress \<Rightarrow> bool \<Rightarrow> ScheduledTickOwner \<Rightarrow> unit owner_result" where
  "set_eligible address eligible ow =
    (case registered ow address of
       Inl e \<Rightarrow> Some (Inl e, ow)
     | Inr i \<Rightarrow> Some (Inr (), set_chunk i ((ow_chunks ow ! i)\<lparr>ck_eligible := eligible\<rparr>) ow))"

definition detach_chunk :: "ChunkAddress \<Rightarrow> ScheduledTickOwner \<Rightarrow> unit owner_result" where
  "detach_chunk address ow =
    (case registered ow address of
       Inl e \<Rightarrow> Some (Inl e, ow)
     | Inr i \<Rightarrow> do {
         (old, block_index) \<leftarrow> index_remove (ow_block_index ow) (packed_chunk address);
         (old, fluid_index) \<leftarrow> index_remove (ow_fluid_index ow) (packed_chunk address);
         Some (Inr (), (set_chunk i ((ow_chunks ow ! i)\<lparr>ck_registered := False\<rparr>) ow)
           \<lparr>ow_block_index := block_index, ow_fluid_index := fluid_index\<rparr>)
       })"

definition discard_detached_chunk :: "owner_env \<Rightarrow> ChunkAddress \<Rightarrow> ScheduledTickOwner \<Rightarrow> unit owner_result" where
  "discard_detached_chunk env address ow =
    (case chunk_find (ow_chunks ow) address of
       Inl i \<Rightarrow> Some (Inl MissingChunk, ow)
     | Inr i \<Rightarrow>
         if ck_registered (ow_chunks ow ! i) then Some (Inl AlreadyRegistered, ow)
         else do {
           left \<leftarrow> checked_sub (ow_allocated_bytes ow) (chunk_heap_bytes env (ow_chunks ow ! i));
           Some (Inr (), ow\<lparr>ow_allocated_bytes := left, ow_chunks := take i (ow_chunks ow) @ drop (i + 1) (ow_chunks ow)\<rparr>)
         })"

definition schedule_created :: "TickDomain \<Rightarrow> nat \<Rightarrow> ScheduledTick \<Rightarrow> ScheduledTickOwner \<Rightarrow> ScheduleOutcome owner_result" where
  "schedule_created domain i tick ow = do {
     let c = ow_chunks ow ! i;
     let q = chunk_queue domain c;
     known \<leftarrow> identities_contains (tq_hash q) (tq_identities q) (identity tick);
     (if known then Some (Inr Duplicate, ow)
      else if queue_count q = tl_queued_per_chunk (ow_limits ow) then Some (Inl QueueFull, ow)
      else do {
        ids \<leftarrow> identities_insert (tq_hash q) (tq_identities q) (identity tick);
        h \<leftarrow> scheduled_push (tq_heap q) tick;
        let ow = set_chunk i (chunk_set_queue domain (q\<lparr>tq_identities := ids, tq_heap := h\<rparr>) c) ow;
        ow \<leftarrow> (if scheduled_peek h = Some tick
               then put_timeline domain (packed_chunk (ck_address c)) (st_trigger_tick tick) ow
               else Some ow);
        Some (Inr Added, ow)
      })
   }"

definition schedule ::
  "TickDomain \<Rightarrow> TickPosition \<Rightarrow> nat \<Rightarrow> int \<Rightarrow> int \<Rightarrow> TickPriority \<Rightarrow> ScheduledTickOwner \<Rightarrow> ScheduleOutcome owner_result" where
  "schedule domain position type_id game_time delay priority ow =
    (if type_id \<ge> type_count domain ow then Some (Inl InvalidType, ow)
     else
       (let sub_tick_order = ow_next_sub_tick ow; ow = ow\<lparr>ow_next_sub_tick := wrap_i64 (ow_next_sub_tick ow + 1)\<rparr> in
        (case registered ow (tick_chunk position) of
           Inl e \<Rightarrow> Some (Inr MissingContainer, ow)
         | Inr i \<Rightarrow>
             schedule_created domain i
               \<lparr>st_position = position, st_type_id = type_id, st_trigger_tick = wrap_i64 (game_time + delay), st_priority = priority,
                 st_sub_tick_order = sub_tick_order\<rparr> ow)))"

definition has_scheduled :: "TickDomain \<Rightarrow> TickPosition \<Rightarrow> nat \<Rightarrow> ScheduledTickOwner \<Rightarrow> bool option" where
  "has_scheduled domain position type_id ow =
    (case registered ow (tick_chunk position) of
       Inl e \<Rightarrow> Some False
     | Inr i \<Rightarrow>
         (let q = chunk_queue domain (ow_chunks ow ! i) in
          identities_contains (tq_hash q) (tq_identities q) \<lparr>id_position = position, id_type_id = type_id\<rparr>))"

definition queued_count :: "TickDomain \<Rightarrow> ScheduledTickOwner \<Rightarrow> nat" where
  "queued_count domain ow = sum_list (map (\<lambda>c. queue_count (chunk_queue domain c)) (filter ck_registered (ow_chunks ow)))"

section \<open>Phases\<close>

definition ready_chunk :: "nat \<Rightarrow> ScheduledTick \<Rightarrow> ReadyChunk" where
  "ready_chunk i tick = \<lparr>rc_index = i, rc_priority = st_priority tick, rc_sub_order = st_sub_tick_order tick\<rparr>"

text \<open>The scan of the timeline that moves the chunks with due ticks to the ready heap.\<close>

fun collect_ready :: "nat \<Rightarrow> TickDomain \<Rightarrow> int \<Rightarrow> ScheduledTickOwner \<Rightarrow> ScheduledTickOwner option" where
  "collect_ready 0 domain game_time ow = None"
| "collect_ready (Suc fuel) domain game_time ow =
    (case next_entry (timeline domain ow) of
       None \<Rightarrow> None
     | Some (None, idx) \<Rightarrow> Some (set_timeline domain idx ow)
     | Some (Some (key, next_time), idx) \<Rightarrow>
         (let ow = set_timeline domain idx ow in
          if next_time > game_time then collect_ready fuel domain game_time ow
          else (case registered ow (unpacked_chunk key) of
              Inl e \<Rightarrow> Option.bind (remove_current (timeline domain ow)) (\<lambda>idx. collect_ready fuel domain game_time (set_timeline domain idx ow))
            | Inr i \<Rightarrow>
                (case scheduled_peek (tq_heap (chunk_queue domain (ow_chunks ow ! i))) of
                   None \<Rightarrow> Option.bind (remove_current (timeline domain ow)) (\<lambda>idx. collect_ready fuel domain game_time (set_timeline domain idx ow))
                 | Some tick \<Rightarrow>
                     if st_trigger_tick tick > game_time
                     then Option.bind (put_timeline domain key (st_trigger_tick tick) ow) (collect_ready fuel domain game_time)
                     else if ck_eligible (ow_chunks ow ! i)
                     then Option.bind (remove_current (timeline domain ow)) (\<lambda>idx.
                       Option.bind (ready_push (ow_ready ow) (ready_chunk i tick)) (\<lambda>ready.
                         collect_ready fuel domain game_time ((set_timeline domain idx ow)\<lparr>ow_ready := ready\<rparr>)))
                     else collect_ready fuel domain game_time ow))))"

text \<open>The inner loop: ticks of one chunk while they come before the head of the ready heap.\<close>

fun drain_chunk :: "nat \<Rightarrow> TickDomain \<Rightarrow> int \<Rightarrow> nat \<Rightarrow> nat \<Rightarrow> ScheduledTickOwner \<Rightarrow> ScheduledTickOwner option" where
  "drain_chunk 0 domain game_time max_ticks i ow = None"
| "drain_chunk (Suc fuel) domain game_time max_ticks i ow =
    (case queue_pop (chunk_queue domain (ow_chunks ow ! i)) of
       Some (Some tick, q) \<Rightarrow>
         (case remaining_add (ow_remaining_hash ow) (ow_remaining_ids ow) (identity tick) of
            None \<Rightarrow> None
          | Some remaining \<Rightarrow>
              (let ow = (set_chunk i (chunk_set_queue domain q (ow_chunks ow ! i)) ow)
                     \<lparr>ow_remaining_ids := remaining, ow_selected := ow_selected ow @ [tick]\<rparr> in
               if length (ow_selected ow) = max_ticks then Some ow
               else (case scheduled_peek (tq_heap q) of
                   None \<Rightarrow> Some ow
                 | Some following \<Rightarrow>
                     if st_trigger_tick following > game_time then Some ow
                     else if (case heap_peek (ow_ready ow) of
                                None \<Rightarrow> False
                              | Some other \<Rightarrow> within_tick following > (rc_priority other, rc_sub_order other))
                     then Some ow
                     else drain_chunk fuel domain game_time max_ticks i ow)))
     | _ \<Rightarrow> None)"

text \<open>The outer loop: the chunk whose head comes first, until enough ticks are selected.\<close>

fun select_loop :: "nat \<Rightarrow> TickDomain \<Rightarrow> int \<Rightarrow> nat \<Rightarrow> ScheduledTickOwner \<Rightarrow> ScheduledTickOwner option" where
  "select_loop 0 domain game_time max_ticks ow = None"
| "select_loop (Suc fuel) domain game_time max_ticks ow =
    (if length (ow_selected ow) < max_ticks
     then (case ready_pop (ow_ready ow) of
         None \<Rightarrow> None
       | Some (None, ready) \<Rightarrow> Some (ow\<lparr>ow_ready := ready\<rparr>)
       | Some (Some candidate, ready) \<Rightarrow>
           (case drain_chunk (max_ticks + 1) domain game_time max_ticks (rc_index candidate) (ow\<lparr>ow_ready := ready\<rparr>) of
              None \<Rightarrow> None
            | Some ow \<Rightarrow>
                (let c = ow_chunks ow ! rc_index candidate in
                 (case scheduled_peek (tq_heap (chunk_queue domain c)) of
                    None \<Rightarrow> select_loop fuel domain game_time max_ticks ow
                  | Some tick \<Rightarrow>
                      if st_trigger_tick tick \<le> game_time \<and> length (ow_selected ow) < max_ticks
                      then Option.bind (ready_push (ow_ready ow) (ready_chunk (rc_index candidate) tick)) (\<lambda>ready.
                        select_loop fuel domain game_time max_ticks (ow\<lparr>ow_ready := ready\<rparr>))
                      else Option.bind (put_timeline domain (packed_chunk (ck_address c)) (st_trigger_tick tick) ow)
                        (select_loop fuel domain game_time max_ticks)))))
     else Some ow)"

text \<open>The chunks still ready go back to the timeline, in the order of the heap array.\<close>

fun requeue_ready :: "TickDomain \<Rightarrow> ReadyChunk list \<Rightarrow> ScheduledTickOwner \<Rightarrow> ScheduledTickOwner option" where
  "requeue_ready domain [] ow = Some ow"
| "requeue_ready domain (r # rs) ow =
    (let c = ow_chunks ow ! rc_index r in
     (case scheduled_peek (tq_heap (chunk_queue domain c)) of
        None \<Rightarrow> None
      | Some tick \<Rightarrow> Option.bind (put_timeline domain (packed_chunk (ck_address c)) (st_trigger_tick tick) ow) (requeue_ready domain rs)))"

definition begin_phase :: "TickDomain \<Rightarrow> int \<Rightarrow> nat \<Rightarrow> ScheduledTickOwner \<Rightarrow> nat owner_result" where
  "begin_phase domain game_time max_ticks ow =
    (if ow_active ow \<noteq> None then Some (Inl PhaseActive, ow)
     else if max_ticks > tl_selected_per_phase (ow_limits ow) then Some (Inl PhaseLimit, ow)
     else do {
       let ow = ow\<lparr>ow_active := Some domain\<rparr>;
       idx \<leftarrow> begin_scan (timeline domain ow);
       ow \<leftarrow> collect_ready (si_len idx + 1) domain game_time (set_timeline domain idx ow);
       idx \<leftarrow> finish_scan (timeline domain ow);
       ow \<leftarrow> select_loop (max_ticks + 1) domain game_time max_ticks (set_timeline domain idx ow);
       ow \<leftarrow> requeue_ready domain (hp_values (ow_ready ow)) ow;
       let ow = ow\<lparr>ow_ready := heap_clear (ow_ready ow)\<rparr>;
       Some (Inr (length (ow_selected ow)), ow)
     })"

fun insert_identities :: "tick_hasher \<Rightarrow> Identities \<Rightarrow> Identity list \<Rightarrow> Identities option" where
  "insert_identities hash ids [] = Some ids"
| "insert_identities hash ids (x # xs) = Option.bind (identities_insert hash ids x) (\<lambda>ids'. insert_identities hash ids' xs)"

definition will_tick_this_phase ::
  "TickDomain \<Rightarrow> TickPosition \<Rightarrow> nat \<Rightarrow> ScheduledTickOwner \<Rightarrow> (bool \<times> ScheduledTickOwner) option" where
  "will_tick_this_phase domain position type_id ow =
    (if ow_active ow \<noteq> Some domain then Some (False, ow)
     else do {
       ids \<leftarrow> (if is_count (ow_selected_ids ow) = 0 \<and> ow_cursor ow < length (ow_selected ow)
              then insert_identities (ow_selected_hash ow) (ow_selected_ids ow) (remaining_identities (ow_remaining_ids ow))
              else Some (ow_selected_ids ow));
       answer \<leftarrow> identities_contains (ow_selected_hash ow) ids \<lparr>id_position = position, id_type_id = type_id\<rparr>;
       Some (answer, ow\<lparr>ow_selected_ids := ids\<rparr>)
     })"

definition next_due :: "ScheduledTickOwner \<Rightarrow> ScheduledTick option owner_result" where
  "next_due ow =
    (if ow_active ow = None then Some (Inl NoActivePhase, ow)
     else if ow_cursor ow < length (ow_selected ow) then do {
       let tick = ow_selected ow ! ow_cursor ow;
       remaining \<leftarrow> remaining_remove (ow_remaining_hash ow) (ow_remaining_ids ow) (identity tick);
       ids \<leftarrow> identities_remove (ow_selected_hash ow) (ow_selected_ids ow) (identity tick);
       Some (Inr (Some tick), ow\<lparr>ow_cursor := ow_cursor ow + 1, ow_remaining_ids := remaining, ow_selected_ids := ids\<rparr>)
     } else Some (Inr None, ow))"

definition finish_phase :: "ScheduledTickOwner \<Rightarrow> unit owner_result" where
  "finish_phase ow =
    (if ow_active ow = None then Some (Inl NoActivePhase, ow)
     else if ow_cursor ow \<noteq> length (ow_selected ow) then Some (Inl UnconsumedTicks, ow)
     else Some (Inr (), ow\<lparr>ow_selected := [], ow_selected_ids := identities_clear (ow_selected_ids ow),
       ow_remaining_ids := remaining_clear (ow_remaining_ids ow), ow_cursor := 0, ow_active := None\<rparr>))"

end
