(* ===== verification/TickOwnerInv.thy ===== *)
theory TickOwnerInv
  imports TickOwner
begin

text \<open>
  The invariant of the tick owner. The chunks are sorted by address; every queue is a well-formed heap
  with an identity table it has room in; each scheduling index maps the key of every registered chunk
  to the trigger time at the head of its heap, and nothing else; the counters of a phase count the
  selected ticks that have not been returned; and the allocated bytes cover what the chunks hold.
\<close>

section \<open>The invariant\<close>

definition queue_ok :: "nat \<Rightarrow> ChunkQueue \<Rightarrow> bool" where
  "queue_ok limit q \<longleftrightarrow> sched_ok (tq_heap q) \<and> hp_limit (sh_heap (tq_heap q)) = limit \<and> ids_ok (tq_hash q) (tq_identities q) \<and>
    limit < length (is_slots (tq_identities q)) \<and> queue_count q \<le> limit \<and>
    ids_set (tq_identities q) \<subseteq> identity ` set (sched_values (tq_heap q)) \<union>
      (case tq_pending q of None \<Rightarrow> {} | Some (saved, c) \<Rightarrow> saved_identity ` set saved)"

text \<open>Every tick of a queue lies in the chunk.\<close>

definition placed :: "ChunkAddress \<Rightarrow> ChunkQueue \<Rightarrow> bool" where
  "placed address q \<longleftrightarrow> (\<forall>t \<in> set (sched_values (tq_heap q)). tick_chunk (st_position t) = address) \<and>
    (\<forall>saved c. tq_pending q = Some (saved, c) \<longrightarrow> (\<forall>t \<in> set saved. tick_chunk (sv_position t) = address))"

definition chunk_ok :: "nat \<Rightarrow> ChunkQueues \<Rightarrow> bool" where
  "chunk_ok limit c \<longleftrightarrow> chunk_i32 (ck_address c) \<and> (\<forall>domain. queue_ok limit (chunk_queue domain c) \<and> placed (ck_address c) (chunk_queue domain c))"

definition head_time :: "TickDomain \<Rightarrow> ChunkQueues \<Rightarrow> int option" where
  "head_time domain c = map_option st_trigger_tick (scheduled_peek (tq_heap (chunk_queue domain c)))"

definition chunk_key :: "ChunkQueues \<Rightarrow> int" where
  "chunk_key c = packed_chunk (ck_address c)"

definition heads :: "TickDomain \<Rightarrow> ChunkQueues list \<Rightarrow> int \<Rightarrow> int option" where
  "heads domain chunks k =
    (case find (\<lambda>c. chunk_key c = k) chunks of
       None \<Rightarrow> None
     | Some c \<Rightarrow> if ck_registered c then head_time domain c else None)"

definition index_fits :: "ScheduledTickOwner \<Rightarrow> SchedulingIndex \<Rightarrow> bool" where
  "index_fits ow idx \<longleftrightarrow> index_ok idx \<and> si_scan idx = None \<and> si_max_keys idx = tl_max_chunks (ow_limits ow)"

definition chunks_ok :: "TickLimits \<Rightarrow> ChunkQueues list \<Rightarrow> bool" where
  "chunks_ok limits chunks \<longleftrightarrow> sorted_wrt address_less (map ck_address chunks) \<and> length chunks \<le> tl_max_chunks limits \<and>
    0 < tl_queued_per_chunk limits \<and> (\<forall>c \<in> set chunks. chunk_ok (tl_queued_per_chunk limits) c)"

definition phase_ok :: "ScheduledTickOwner \<Rightarrow> bool" where
  "phase_ok ow \<longleftrightarrow> ow_cursor ow \<le> length (ow_selected ow) \<and> length (ow_selected ow) \<le> tl_selected_per_phase (ow_limits ow) \<and>
    tl_selected_per_phase (ow_limits ow) \<le> MAX_SCHEDULED_TICKS_PER_PHASE \<and>
    rm_ok (ow_remaining_hash ow) (ow_remaining_ids ow) \<and> rm_limit (ow_remaining_ids ow) = tl_selected_per_phase (ow_limits ow) \<and>
    (\<forall>x. rm_count (ow_remaining_ids ow) x = count_list (map identity (drop (ow_cursor ow) (ow_selected ow))) x) \<and>
    ids_ok (ow_selected_hash ow) (ow_selected_ids ow) \<and> tl_selected_per_phase (ow_limits ow) < length (is_slots (ow_selected_ids ow)) \<and>
    (ow_active ow = None \<longrightarrow> ow_selected ow = [] \<and> ow_cursor ow = 0 \<and> is_count (ow_selected_ids ow) = 0)"

definition scratch_bytes :: "owner_env \<Rightarrow> ScheduledTickOwner \<Rightarrow> nat" where
  "scratch_bytes env ow = ow_scratch_capacity ow * oe_snapshot_size env
     + (case ow_copy_ids ow of None \<Rightarrow> 0 | Some (ids, h) \<Rightarrow> identities_heap_bytes (oe_tick env) ids)
     + ow_copy_counts_capacity ow * USIZE_BYTES"

definition used_bytes :: "owner_env \<Rightarrow> ScheduledTickOwner \<Rightarrow> nat" where
  "used_bytes env ow = sum_list (map (chunk_heap_bytes env) (ow_chunks ow)) + scratch_bytes env ow"

definition memory_ok :: "owner_env \<Rightarrow> ScheduledTickOwner \<Rightarrow> bool" where
  "memory_ok env ow \<longleftrightarrow> ow_allocated_bytes ow \<le> tl_allocation_bytes (ow_limits ow) \<and> used_bytes env ow \<le> ow_allocated_bytes ow"

definition scratch_ok :: "ScheduledTickOwner \<Rightarrow> bool" where
  "scratch_ok ow \<longleftrightarrow>
    (case ow_copy_ids ow of
       None \<Rightarrow> ow_copy_capacity ow = 0
     | Some (ids, h) \<Rightarrow> ids_ok h ids \<and> ow_copy_capacity ow < length (is_slots ids))"

text \<open>The timeline of a domain holds the heads of the registered chunks.\<close>

definition timeline_ok :: "TickDomain \<Rightarrow> ScheduledTickOwner \<Rightarrow> bool" where
  "timeline_ok domain ow \<longleftrightarrow> index_fits ow (timeline domain ow) \<and> index_map (timeline domain ow) = heads domain (ow_chunks ow)"

definition ready_idle :: "ScheduledTickOwner \<Rightarrow> bool" where
  "ready_idle ow \<longleftrightarrow> hp_values (ow_ready ow) = [] \<and> hp_limit (ow_ready ow) = tl_max_chunks (ow_limits ow)"

definition owner_ok :: "owner_env \<Rightarrow> ScheduledTickOwner \<Rightarrow> bool" where
  "owner_ok env ow \<longleftrightarrow> chunks_ok (ow_limits ow) (ow_chunks ow) \<and> (\<forall>domain. timeline_ok domain ow) \<and> ready_idle ow \<and>
    phase_ok ow \<and> memory_ok env ow \<and> scratch_ok ow"

section \<open>Chunks in address order\<close>

lemma address_less_trans: "address_less a b \<Longrightarrow> address_less b c \<Longrightarrow> address_less a c"
  unfolding address_less_def by (rule less_trans)

lemma address_less_irrefl [simp]: "\<not> address_less a a"
  by (simp add: address_less_def)

lemma address_total: "address_less a b \<or> a = b \<or> address_less b a"
  by (cases a; cases b) (auto simp: address_less_def)

lemma chunk_find_cases:
  assumes "sorted_wrt address_less (map ck_address chunks)"
  obtains (found) i where "chunk_find chunks a = Inr i" "i < length chunks" "ck_address (chunks ! i) = a"
    | (absent) i where "chunk_find chunks a = Inl i" "i \<le> length chunks" "a \<notin> ck_address ` set chunks"
      "\<forall>c \<in> set (take i chunks). address_less (ck_address c) a" "\<forall>c \<in> set (drop i chunks). address_less a (ck_address c)"
proof -
  let ?P = "\<lambda>c. address_less (ck_address c) a"
  let ?i = "length (takeWhile ?P chunks)"
  have i: "?i \<le> length chunks" by (rule length_takeWhile_le)
  have before: "\<forall>c \<in> set (take ?i chunks). ?P c" using takeWhile_eq_take [of ?P chunks] by (metis set_takeWhileD)
  show thesis
  proof (cases "?i < length chunks \<and> ck_address (chunks ! ?i) = a")
    case True
    then show thesis using found [of ?i] by (simp add: chunk_find_def Let_def)
  next
    case False
    have after: "\<forall>c \<in> set (drop ?i chunks). address_less a (ck_address c)"
    proof (cases "?i < length chunks")
      case True
      then have "\<not> ?P (chunks ! ?i)" by (rule nth_length_takeWhile)
      then have first: "address_less a (ck_address (chunks ! ?i))" using False True address_total by blast
      have split: "drop ?i chunks = chunks ! ?i # drop (Suc ?i) chunks" using True by (simp add: Cons_nth_drop_Suc)
      have "sorted_wrt address_less (map ck_address (drop ?i chunks))" using sorted_wrt_drop [OF assms, of ?i] by (simp add: drop_map)
      then have "\<forall>c \<in> set (drop (Suc ?i) chunks). address_less (ck_address (chunks ! ?i)) (ck_address c)" unfolding split by simp
      then show ?thesis unfolding split using first address_less_trans by auto
    qed simp
    have fresh: "a \<notin> ck_address ` set chunks"
    proof
      assume "a \<in> ck_address ` set chunks"
      then obtain c where c: "c \<in> set chunks" "ck_address c = a" by auto
      have "set chunks = set (take ?i chunks) \<union> set (drop ?i chunks)" by (simp flip: set_append)
      then consider "c \<in> set (take ?i chunks)" | "c \<in> set (drop ?i chunks)" using c(1) by blast
      then show False
      proof cases
        case 1
        from bspec [OF before 1] c(2) show False by simp
      next
        case 2
        from bspec [OF after 2] c(2) show False by simp
      qed
    qed
    have "chunk_find chunks a = Inl ?i" unfolding chunk_find_def Let_def using False by (rule if_not_P)
    then show thesis using i fresh before after by (rule absent)
  qed
qed

lemma chunk_addresses_distinct:
  "sorted_wrt address_less (map ck_address chunks) \<Longrightarrow> distinct (map ck_address chunks)"
  by (induction chunks) auto

lemma chunk_keys_distinct:
  assumes "chunks_ok limits chunks"
  shows "distinct (map chunk_key chunks)"
proof -
  have "distinct (map ck_address chunks)" using assms chunk_addresses_distinct by (auto simp: chunks_ok_def)
  moreover have "\<forall>c \<in> set chunks. chunk_i32 (ck_address c)" using assms by (auto simp: chunks_ok_def chunk_ok_def)
  ultimately show ?thesis using inj_packed_chunk by (auto simp: distinct_map inj_on_def chunk_key_def)
qed

lemma heads_at:
  assumes "distinct (map chunk_key chunks)" "i < length chunks"
  shows "heads domain chunks (chunk_key (chunks ! i)) = (if ck_registered (chunks ! i) then head_time domain (chunks ! i) else None)"
proof -
  have "find (\<lambda>c. chunk_key c = chunk_key (chunks ! i)) chunks = Some (chunks ! i)"
    unfolding find_Some_iff using assms by (auto simp: distinct_conv_nth intro!: exI [of _ i])
  then show ?thesis by (simp add: heads_def)
qed

lemma heads_other: "k \<notin> chunk_key ` set chunks \<Longrightarrow> heads domain chunks k = None"
  unfolding heads_def by (auto split: option.splits simp: find_Some_iff)

lemma heads_eqI:
  assumes "distinct (map chunk_key chunks)" "\<And>k. k \<notin> chunk_key ` set chunks \<Longrightarrow> m k = None"
    "\<And>i. i < length chunks \<Longrightarrow> m (chunk_key (chunks ! i)) = (if ck_registered (chunks ! i) then head_time domain (chunks ! i) else None)"
  shows "heads domain chunks = m"
proof
  fix k
  show "heads domain chunks k = m k"
  proof (cases "k \<in> chunk_key ` set chunks")
    case True
    then obtain i where "i < length chunks" "k = chunk_key (chunks ! i)" by (auto simp: in_set_conv_nth)
    then show ?thesis using heads_at [OF assms(1)] assms(3) by simp
  next
    case False
    then show ?thesis using heads_other assms(2) by simp
  qed
qed

lemma heads_update:
  assumes d: "distinct (map chunk_key chunks)" and i: "i < length chunks" and k: "chunk_key c = chunk_key (chunks ! i)"
  shows "heads domain (chunks[i := c]) = (heads domain chunks)(chunk_key c := (if ck_registered c then head_time domain c else None))"
proof (rule heads_eqI)
  have keys: "map chunk_key (chunks[i := c]) = map chunk_key chunks" using i k by (simp add: list_eq_iff_nth_eq nth_list_update)
  then show "distinct (map chunk_key (chunks[i := c]))" using d by simp
  show "((heads domain chunks)(chunk_key c := (if ck_registered c then head_time domain c else None))) j = None" if "j \<notin> chunk_key ` set (chunks[i := c])" for j
  proof -
    have "j \<notin> chunk_key ` set chunks" using that keys by (metis list.set_map)
    moreover from this have "j \<noteq> chunk_key c" using k i by auto
    ultimately show ?thesis using heads_other by simp
  qed
  show "((heads domain chunks)(chunk_key c := (if ck_registered c then head_time domain c else None))) (chunk_key (chunks[i := c] ! j)) =
      (if ck_registered (chunks[i := c] ! j) then head_time domain (chunks[i := c] ! j) else None)" if "j < length (chunks[i := c])" for j
  proof (cases "j = i")
    case True
    then show ?thesis using i by simp
  next
    case False
    then have "chunk_key (chunks ! j) \<noteq> chunk_key c" using d i k that by (auto simp: distinct_conv_nth)
    then show ?thesis using False heads_at [OF d, of j] that by simp
  qed
qed

end
