(* ===== verification/TickOwnerQueues.thy ===== *)
theory TickOwnerQueues
  imports TickOwnerInv
begin

text \<open>
  The queues and the timeline under the operations the owner applies to them.
\<close>

section \<open>Queues\<close>

lemma peek_Some: "scheduled_peek h = Some t \<longleftrightarrow> sched_values h \<noteq> [] \<and> hd (sched_values h) = t"
  by (cases "sched_values h") (auto simp: scheduled_peek_def heap_peek_def)

lemma peek_None: "scheduled_peek h = None \<longleftrightarrow> sched_values h = []"
  by (cases "sched_values h") (auto simp: scheduled_peek_def heap_peek_def)

lemma peek_least:
  assumes "sched_ok h" "scheduled_peek h = Some t" "y \<in> set (sched_values h)"
  shows "\<not> tick_precedes y t"
proof -
  have "sched_values h \<noteq> []" using assms(2) by (simp add: peek_Some)
  from sched_pop_ok [OF assms(1) this] show ?thesis using assms(2,3) by auto
qed

lemma peek_in: "scheduled_peek h = Some t \<Longrightarrow> t \<in> set (sched_values h)"
  by (cases "sched_values h") (auto simp: scheduled_peek_def heap_peek_def)

text \<open>Two ticks neither of which precedes the other have the same trigger time.\<close>

lemma tick_ties: "\<not> tick_precedes a b \<Longrightarrow> \<not> tick_precedes b a \<Longrightarrow> st_trigger_tick a = st_trigger_tick b"
  unfolding tick_precedes_def by (auto simp: not_less less_prod_def)

lemma head_trigger_least: "sched_ok h \<Longrightarrow> scheduled_peek h = Some t \<Longrightarrow> y \<in> set (sched_values h) \<Longrightarrow> st_trigger_tick t \<le> st_trigger_tick y"
  using peek_least [of h t y] unfolding tick_precedes_def by (auto simp: not_less less_prod_def)

lemma queue_okD:
  assumes "queue_ok limit q"
  shows "sched_ok (tq_heap q)" "hp_limit (sh_heap (tq_heap q)) = limit" "ids_ok (tq_hash q) (tq_identities q)"
    "limit < length (is_slots (tq_identities q))" "queue_count q \<le> limit"
  using assms by (auto simp: queue_ok_def)

definition pending_ticks :: "ChunkQueue \<Rightarrow> SavedTick list" where
  "pending_ticks q = (case tq_pending q of None \<Rightarrow> [] | Some (saved, c) \<Rightarrow> saved)"

lemma queue_count_eq: "queue_count q = length (sched_values (tq_heap q)) + length (pending_ticks q)"
  by (simp add: queue_count_def pending_ticks_def split: option.splits)

lemma queue_ok_iff:
  "queue_ok limit q \<longleftrightarrow> sched_ok (tq_heap q) \<and> hp_limit (sh_heap (tq_heap q)) = limit \<and> ids_ok (tq_hash q) (tq_identities q) \<and>
    limit < length (is_slots (tq_identities q)) \<and> length (sched_values (tq_heap q)) + length (pending_ticks q) \<le> limit \<and>
    ids_set (tq_identities q) \<subseteq> identity ` set (sched_values (tq_heap q)) \<union> saved_identity ` set (pending_ticks q)"
  by (auto simp: queue_ok_def queue_count_eq pending_ticks_def split: option.splits)

lemma card_ids_queue:
  assumes "queue_ok limit q"
  shows "card (ids_set (tq_identities q)) \<le> queue_count q"
proof -
  have "card (ids_set (tq_identities q)) \<le>
      card (identity ` set (sched_values (tq_heap q)) \<union> saved_identity ` set (pending_ticks q))"
    by (rule card_mono) (use assms in \<open>auto simp: queue_ok_iff\<close>)
  also have "\<dots> \<le> card (identity ` set (sched_values (tq_heap q))) + card (saved_identity ` set (pending_ticks q))" by (rule card_Un_le)
  also have "\<dots> \<le> length (sched_values (tq_heap q)) + length (pending_ticks q)"
    by (intro add_mono order_trans [OF card_image_le card_length]) simp_all
  finally show ?thesis by (simp add: queue_count_eq)
qed

lemma queue_pop_ok:
  assumes ok: "queue_ok limit q" and ne: "sched_values (tq_heap q) \<noteq> []"
  shows "\<exists>t q'. queue_pop q = Some (Some t, q') \<and> scheduled_peek (tq_heap q) = Some t \<and> queue_ok limit q' \<and>
    mset (sched_values (tq_heap q)) = add_mset t (mset (sched_values (tq_heap q'))) \<and> tq_pending q' = tq_pending q \<and>
    (\<forall>env. queue_heap_bytes env q' = queue_heap_bytes env q)"
proof -
  obtain t v where t: "scheduled_pop (tq_heap q) = Some (Some t, (tq_heap q)\<lparr>sh_heap := (sh_heap (tq_heap q))\<lparr>hp_values := v\<rparr>\<rparr>)"
      "scheduled_peek (tq_heap q) = Some t" "sched_ok ((tq_heap q)\<lparr>sh_heap := (sh_heap (tq_heap q))\<lparr>hp_values := v\<rparr>\<rparr>)"
      "mset (sched_values (tq_heap q)) = add_mset t (mset v)"
    using sched_pop_ok [OF queue_okD(1) [OF ok] ne] by blast
  obtain ids where ids: "identities_remove (tq_hash q) (tq_identities q) (identity t) = Some ids" "ids_ok (tq_hash q) ids"
      "ids_set ids = ids_set (tq_identities q) - {identity t}" "length (is_slots ids) = length (is_slots (tq_identities q))"
      "is_capacity ids = is_capacity (tq_identities q)"
    using ids_remove_ok [OF queue_okD(3) [OF ok], of "identity t"] by blast
  let ?q = "q\<lparr>tq_heap := (tq_heap q)\<lparr>sh_heap := (sh_heap (tq_heap q))\<lparr>hp_values := v\<rparr>\<rparr>, tq_identities := ids\<rparr>"
  have vs: "set (sched_values (tq_heap q)) = insert t (set v)" using arg_cong [OF t(4), of set_mset] by simp
  have len: "length (sched_values (tq_heap q)) = Suc (length v)" using arg_cong [OF t(4), of size] by simp
  have pend: "pending_ticks ?q = pending_ticks q" by (simp add: pending_ticks_def)
  have "ids_set ids \<subseteq> identity ` set v \<union> saved_identity ` set (pending_ticks q)"
    using ok ids(3) vs by (auto simp: queue_ok_iff)
  then have "queue_ok limit ?q" using ok t(3) ids(2,4) len pend by (simp add: queue_ok_iff)
  moreover have "queue_pop q = Some (Some t, ?q)" using t(1) ids(1) by (simp add: queue_pop_def)
  moreover have "\<forall>env. queue_heap_bytes env ?q = queue_heap_bytes env q"
    by (simp add: queue_heap_bytes_def scheduled_heap_bytes_def identities_heap_bytes_def ids(4,5))
  moreover have "mset (sched_values (tq_heap q)) = add_mset t (mset (sched_values (tq_heap ?q)))" using t(4) by simp
  moreover have "tq_pending ?q = tq_pending q" by simp
  ultimately show ?thesis using t(2) by blast
qed

text \<open>The head of a heap after a push: the new tick, or a tick with the trigger time of the old head.\<close>

lemma push_head:
  assumes "sched_ok h" "sched_ok h'" "mset (sched_values h') = add_mset t (mset (sched_values h))" "scheduled_peek h' \<noteq> Some t"
  shows "map_option st_trigger_tick (scheduled_peek h') = map_option st_trigger_tick (scheduled_peek h)"
proof -
  have vs: "set (sched_values h') = insert t (set (sched_values h))" using arg_cong [OF assms(3), of set_mset] by simp
  then obtain x where x: "scheduled_peek h' = Some x" by (cases "scheduled_peek h'") (auto simp: peek_None)
  then have xin: "x \<in> set (sched_values h)" using peek_in [OF x] vs assms(4) by auto
  then obtain r where r: "scheduled_peek h = Some r" by (cases "scheduled_peek h") (auto simp: peek_None)
  have "\<not> tick_precedes x r" by (rule peek_least [OF assms(1) r xin])
  moreover have "\<not> tick_precedes r x" by (rule peek_least [OF assms(2) x]) (use peek_in [OF r] vs in simp)
  ultimately have "st_trigger_tick x = st_trigger_tick r" by (rule tick_ties)
  then show ?thesis using x r by simp
qed

section \<open>The timeline\<close>

lemma timeline_simps [simp]:
  "timeline d (set_timeline d idx ow) = idx" "d \<noteq> d' \<Longrightarrow> timeline d (set_timeline d' idx ow) = timeline d ow"
  "ow_chunks (set_timeline d idx ow) = ow_chunks ow" "ow_limits (set_timeline d idx ow) = ow_limits ow"
  "ow_selected (set_timeline d idx ow) = ow_selected ow" "ow_ready (set_timeline d idx ow) = ow_ready ow"
  "ow_cursor (set_timeline d idx ow) = ow_cursor ow" "ow_active (set_timeline d idx ow) = ow_active ow"
  "ow_remaining_ids (set_timeline d idx ow) = ow_remaining_ids ow" "ow_remaining_hash (set_timeline d idx ow) = ow_remaining_hash ow"
  "ow_selected_ids (set_timeline d idx ow) = ow_selected_ids ow" "ow_selected_hash (set_timeline d idx ow) = ow_selected_hash ow"
  "ow_allocated_bytes (set_timeline d idx ow) = ow_allocated_bytes ow" "scratch_bytes env (set_timeline d idx ow) = scratch_bytes env ow"
  "ow_copy_ids (set_timeline d idx ow) = ow_copy_ids ow" "ow_copy_capacity (set_timeline d idx ow) = ow_copy_capacity ow"
  "ow_copy_counts (set_timeline d idx ow) = ow_copy_counts ow" "ow_scratch (set_timeline d idx ow) = ow_scratch ow"
  "set_timeline d (timeline d ow) ow = ow" "set_timeline d idx (set_timeline d idx2 ow) = set_timeline d idx ow"
  "type_count d' (set_timeline d idx ow) = type_count d' ow"
  by (cases d; cases d'; simp add: scratch_bytes_def)+

lemma set_chunk_simps [simp]:
  "timeline d (set_chunk i c ow) = timeline d ow" "ow_limits (set_chunk i c ow) = ow_limits ow"
  "ow_chunks (set_chunk i c ow) = (ow_chunks ow)[i := c]"
  "ow_selected (set_chunk i c ow) = ow_selected ow" "ow_ready (set_chunk i c ow) = ow_ready ow"
  "ow_cursor (set_chunk i c ow) = ow_cursor ow" "ow_active (set_chunk i c ow) = ow_active ow"
  "ow_remaining_ids (set_chunk i c ow) = ow_remaining_ids ow" "ow_remaining_hash (set_chunk i c ow) = ow_remaining_hash ow"
  "ow_selected_ids (set_chunk i c ow) = ow_selected_ids ow" "ow_selected_hash (set_chunk i c ow) = ow_selected_hash ow"
  "ow_allocated_bytes (set_chunk i c ow) = ow_allocated_bytes ow" "scratch_bytes env (set_chunk i c ow) = scratch_bytes env ow"
  "ow_copy_ids (set_chunk i c ow) = ow_copy_ids ow" "ow_copy_capacity (set_chunk i c ow) = ow_copy_capacity ow"
  "ow_copy_counts (set_chunk i c ow) = ow_copy_counts ow" "ow_scratch (set_chunk i c ow) = ow_scratch ow"
  "type_count d (set_chunk i c ow) = type_count d ow" "set_chunk i c (set_timeline d idx ow) = set_timeline d idx (set_chunk i c ow)"
  by (cases d; simp add: set_chunk_def scratch_bytes_def)+

lemma chunk_queue_simps [simp]:
  "chunk_queue d (chunk_set_queue d q c) = q" "d \<noteq> d' \<Longrightarrow> chunk_queue d (chunk_set_queue d' q c) = chunk_queue d c"
  "ck_address (chunk_set_queue d q c) = ck_address c" "ck_registered (chunk_set_queue d q c) = ck_registered c"
  "ck_eligible (chunk_set_queue d q c) = ck_eligible c" "chunk_key (chunk_set_queue d q c) = chunk_key c"
  by (cases d; cases d'; simp add: chunk_key_def)+

lemma phase_ok_cong:
  assumes "ow_limits ow' = ow_limits ow" "ow_selected ow' = ow_selected ow" "ow_cursor ow' = ow_cursor ow" "ow_active ow' = ow_active ow"
    "ow_remaining_ids ow' = ow_remaining_ids ow" "ow_remaining_hash ow' = ow_remaining_hash ow"
    "ow_selected_ids ow' = ow_selected_ids ow" "ow_selected_hash ow' = ow_selected_hash ow"
  shows "phase_ok ow' = phase_ok ow"
  unfolding phase_ok_def using assms by simp

lemma phase_ok_simps [simp]:
  "phase_ok (set_timeline d idx ow) = phase_ok ow" "phase_ok (set_chunk i c ow) = phase_ok ow"
  by (rule phase_ok_cong; simp)+

lemma idle_simps [simp]:
  "ready_idle (set_timeline d idx ow) = ready_idle ow" "ready_idle (set_chunk i c ow) = ready_idle ow"
  "scratch_ok (set_timeline d idx ow) = scratch_ok ow" "scratch_ok (set_chunk i c ow) = scratch_ok ow"
  "index_fits (set_timeline d idx ow) x = index_fits ow x" "index_fits (set_chunk i c ow) x = index_fits ow x"
  "used_bytes env (set_timeline d idx ow) = used_bytes env ow" "memory_ok env (set_timeline d idx ow) = memory_ok env ow"
  by (simp_all add: ready_idle_def scratch_ok_def index_fits_def used_bytes_def memory_ok_def cong: option.case_cong prod.case_cong)

lemma domain_neq: "d \<noteq> d' \<Longrightarrow> d'' = d \<or> d'' = (d' :: TickDomain)"
  by (cases d; cases d'; cases d'') simp_all

text \<open>A put for the key of a chunk never fails: there are at most as many keys as chunks.\<close>

lemma put_timeline_ok:
  assumes fits: "index_fits ow (timeline d ow)" and dom: "dom (index_map (timeline d ow)) \<subseteq> chunk_key ` set (ow_chunks ow)"
    and chunks: "length (ow_chunks ow) \<le> tl_max_chunks (ow_limits ow)" and k: "k \<in> chunk_key ` set (ow_chunks ow)"
  shows "\<exists>idx. put_timeline d k t ow = Some (set_timeline d idx ow) \<and> index_fits ow idx \<and>
    index_map idx = (index_map (timeline d ow))(k \<mapsto> t)"
proof -
  let ?idx = "timeline d ow"
  have ok: "index_ok ?idx" "si_scan ?idx = None" "si_max_keys ?idx = tl_max_chunks (ow_limits ow)" using fits by (auto simp: index_fits_def)
  show ?thesis
  proof (cases "index_map ?idx k = None")
    case True
    have "dom (index_map ?idx) \<subset> chunk_key ` set (ow_chunks ow)" using dom k True by (metis domIff psubsetI)
    then have "card (dom (index_map ?idx)) < card (chunk_key ` set (ow_chunks ow))" by (intro psubset_card_mono) simp_all
    also have "\<dots> \<le> length (ow_chunks ow)" using card_image_le card_length order_trans by (metis finite_set)
    finally have "si_len ?idx < si_max_keys ?idx"
      using ok(1,3) chunks card_keys [of ?idx] dom_index_map [of ?idx] by (simp add: index_ok_def)
    then obtain idx' where "index_put ?idx k t = Some (Inr (), idx')" "index_ok idx'" "index_map idx' = (index_map ?idx)(k \<mapsto> t)"
        "index_frame ?idx idx'"
      using index_put_new [OF ok(1) True ok(2), of t] by blast
    then show ?thesis using ok by (intro exI [of _ idx']) (simp add: put_timeline_def index_fits_def index_frame_def)
  next
    case False
    then obtain idx' where "index_put ?idx k t = Some (Inr (), idx')" "index_ok idx'" "index_map idx' = (index_map ?idx)(k \<mapsto> t)"
        "index_frame ?idx idx'"
      using index_put_present [OF ok(1) False, of t] by blast
    then show ?thesis using ok by (intro exI [of _ idx']) (simp add: put_timeline_def index_fits_def index_frame_def)
  qed
qed

end
