(* ===== verification/TickOwnerLaws.thy ===== *)
theory TickOwnerLaws
  imports TickOwnerQueues
begin

text \<open>
  The invariant of the tick owner under the changes its operations are made of: one queue and its
  timeline entry, a chunk inserted or discarded, the phase.
\<close>

section \<open>One queue\<close>

lemma owner_okD:
  assumes "owner_ok env ow"
  shows "chunks_ok (ow_limits ow) (ow_chunks ow)" "timeline_ok d ow" "ready_idle ow" "phase_ok ow" "memory_ok env ow" "scratch_ok ow"
  using assms by (auto simp: owner_ok_def)

lemma chunks_ok_nth: "chunks_ok limits chunks \<Longrightarrow> i < length chunks \<Longrightarrow> chunk_ok (tl_queued_per_chunk limits) (chunks ! i)"
  by (simp add: chunks_ok_def)

lemma chunk_ok_set_queue:
  assumes "chunk_ok limit c" "queue_ok limit q" "placed (ck_address c) q"
  shows "chunk_ok limit (chunk_set_queue d q c)"
  unfolding chunk_ok_def
proof (intro conjI allI)
  show "is_i32 (ca_x (ck_address (chunk_set_queue d q c)))" "is_i32 (ca_z (ck_address (chunk_set_queue d q c)))"
    using assms(1) by (auto simp: chunk_ok_def)
  fix d'
  show "queue_ok limit (chunk_queue d' (chunk_set_queue d q c))" "placed (ck_address (chunk_set_queue d q c)) (chunk_queue d' (chunk_set_queue d q c))"
    using assms by (cases "d' = d"; simp add: chunk_ok_def)+
qed

lemma chunks_ok_update:
  assumes "chunks_ok limits chunks" "i < length chunks" "chunk_ok (tl_queued_per_chunk limits) c" "ck_address c = ck_address (chunks ! i)"
  shows "chunks_ok limits (chunks[i := c])"
proof -
  have "map ck_address (chunks[i := c]) = map ck_address chunks" using assms(2,4) by (simp add: list_eq_iff_nth_eq nth_list_update)
  moreover have "set (chunks[i := c]) \<subseteq> insert c (set chunks)" by (rule set_update_subset_insert)
  ultimately show ?thesis using assms(1,3) by (auto simp: chunks_ok_def)
qed

lemma chunk_bytes_set_queue:
  "chunk_heap_bytes env (chunk_set_queue d q c) + queue_heap_bytes env (chunk_queue d c) = chunk_heap_bytes env c + queue_heap_bytes env q"
  by (cases d) (simp_all add: chunk_heap_bytes_def)

lemma sum_list_update_nat:
  assumes "i < length xs"
  shows "sum_list (map f (xs[i := y])) + f (xs ! i) = sum_list (map f xs) + (f y :: nat)"
proof -
  have "xs[i := y] = take i xs @ y # drop (Suc i) xs" by (rule upd_conv_take_nth_drop) fact
  moreover have "map f xs = map f (take i xs) @ f (xs ! i) # map f (drop (Suc i) xs)" using id_take_nth_drop [OF assms] by (metis list.simps(9) map_append)
  ultimately show ?thesis by simp
qed

lemma used_bytes_set_chunk:
  assumes "i < length (ow_chunks ow)"
  shows "used_bytes env (set_chunk i c ow) + chunk_heap_bytes env (ow_chunks ow ! i) = used_bytes env ow + chunk_heap_bytes env c"
  using sum_list_update_nat [OF assms, of "chunk_heap_bytes env" c] by (simp add: used_bytes_def)

lemma set_timeline_id: "timeline d ow = idx \<Longrightarrow> set_timeline d idx ow = ow"
  by auto

text \<open>Replacing a queue, with the timeline entry of its chunk brought in step.\<close>

lemma head_time_set_queue:
  "head_time d' (chunk_set_queue d q c) = (if d' = d then map_option st_trigger_tick (scheduled_peek (tq_heap q)) else head_time d' c)"
  by (cases "d' = d") (simp_all add: head_time_def)

lemma heads_other_domain:
  assumes "chunks_ok limits chunks" "i < length chunks" "d' \<noteq> d"
  shows "heads d' (chunks[i := chunk_set_queue d q (chunks ! i)]) = heads d' chunks"
proof -
  note dist = chunk_keys_distinct [OF assms(1)]
  show ?thesis using heads_update [OF dist assms(2), of "chunk_set_queue d q (chunks ! i)" d'] heads_at [OF dist assms(2), of d'] assms(3)
    by (simp add: head_time_set_queue fun_upd_idem)
qed

lemma owner_ok_queue:
  assumes ok: "owner_ok env ow" and i: "i < length (ow_chunks ow)" and q: "queue_ok (tl_queued_per_chunk (ow_limits ow)) q"
    and placed: "placed (ck_address (ow_chunks ow ! i)) q"
    and bytes: "queue_heap_bytes env q \<le> queue_heap_bytes env (chunk_queue d (ow_chunks ow ! i))"
    and idx: "index_fits ow idx" "index_map idx = (index_map (timeline d ow))(chunk_key (ow_chunks ow ! i) :=
      (if ck_registered (ow_chunks ow ! i) then map_option st_trigger_tick (scheduled_peek (tq_heap q)) else None))"
  shows "owner_ok env (set_timeline d idx (set_chunk i (chunk_set_queue d q (ow_chunks ow ! i)) ow))"
    (is "owner_ok env ?ow")
proof -
  let ?c = "ow_chunks ow ! i" and ?L = "ow_limits ow"
  note chunks = owner_okD(1) [OF ok]
  note dist = chunk_keys_distinct [OF chunks]
  have "chunks_ok ?L (ow_chunks ?ow)"
    using chunks_ok_update [OF chunks i chunk_ok_set_queue [OF chunks_ok_nth [OF chunks i] q placed]] by simp
  moreover have "timeline_ok d' ?ow" for d'
  proof (cases "d' = d")
    case True
    have "heads d ((ow_chunks ow)[i := chunk_set_queue d q ?c]) = index_map idx"
      using heads_update [OF dist i, of "chunk_set_queue d q ?c" d] idx(2) owner_okD(2) [OF ok, of d]
      by (simp add: head_time_set_queue timeline_ok_def)
    then show ?thesis using True idx(1) by (simp add: timeline_ok_def)
  next
    case False
    then show ?thesis using owner_okD(2) [OF ok, of d'] heads_other_domain [OF chunks i False] by (simp add: timeline_ok_def)
  qed
  moreover have "memory_ok env ?ow"
    using used_bytes_set_chunk [OF i, of env "chunk_set_queue d q ?c"] chunk_bytes_set_queue [of env d q ?c] bytes owner_okD(5) [OF ok]
    by (simp add: memory_ok_def)
  ultimately show ?thesis using owner_okD(3,4,6) [OF ok] by (simp add: owner_ok_def)
qed

text \<open>When the head keeps its trigger time, the timeline stays as it is.\<close>

lemma owner_ok_queue_same:
  assumes ok: "owner_ok env ow" and i: "i < length (ow_chunks ow)" and q: "queue_ok (tl_queued_per_chunk (ow_limits ow)) q"
    and placed: "placed (ck_address (ow_chunks ow ! i)) q"
    and bytes: "queue_heap_bytes env q \<le> queue_heap_bytes env (chunk_queue d (ow_chunks ow ! i))"
    and hd: "ck_registered (ow_chunks ow ! i) \<Longrightarrow> map_option st_trigger_tick (scheduled_peek (tq_heap q)) = head_time d (ow_chunks ow ! i)"
  shows "owner_ok env (set_chunk i (chunk_set_queue d q (ow_chunks ow ! i)) ow)"
proof -
  let ?c = "ow_chunks ow ! i"
  have tl: "timeline_ok d ow" by (rule owner_okD(2) [OF ok])
  have "index_map (timeline d ow) (chunk_key ?c) = (if ck_registered ?c then head_time d ?c else None)"
    using heads_at [OF chunk_keys_distinct [OF owner_okD(1) [OF ok]] i, of d] tl by (simp add: timeline_ok_def)
  then have "index_map (timeline d ow) = (index_map (timeline d ow))(chunk_key ?c :=
      (if ck_registered ?c then map_option st_trigger_tick (scheduled_peek (tq_heap q)) else None))"
    using hd by (simp add: fun_upd_idem)
  from owner_ok_queue [OF ok i q placed bytes _ this] show ?thesis using tl
    by (simp add: timeline_ok_def set_timeline_id)
qed

end
