(* ===== verification/TickOwnerPush.thy ===== *)
theory TickOwnerPush
  imports TickOwnerLaws
begin

text \<open>
  Operations that add ticks: a push onto the heap of a chunk with its timeline entry, \<open>schedule\<close>, and
  the unpacking of saved ticks.
\<close>

section \<open>Pushing a tick\<close>

lemma dom_timeline:
  assumes "owner_ok env ow"
  shows "dom (index_map (timeline d ow)) \<subseteq> chunk_key ` set (ow_chunks ow)"
proof
  fix k
  assume "k \<in> dom (index_map (timeline d ow))"
  then have "heads d (ow_chunks ow) k \<noteq> None" using owner_okD(2) [OF assms, of d] by (auto simp: timeline_ok_def)
  then show "k \<in> chunk_key ` set (ow_chunks ow)" by (rule contrapos_np) (rule heads_other)
qed

lemma put_chunk:
  assumes ok: "owner_ok env ow" and i: "i < length (ow_chunks ow)"
  shows "\<exists>idx. index_fits ow idx \<and> index_map idx = (index_map (timeline d ow))(chunk_key (ow_chunks ow ! i) \<mapsto> time) \<and>
    (\<forall>ow1. timeline d ow1 = timeline d ow \<longrightarrow> put_timeline d (chunk_key (ow_chunks ow ! i)) time ow1 = Some (set_timeline d idx ow1))"
proof -
  have fits: "index_fits ow (timeline d ow)" using owner_okD(2) [OF ok, of d] by (simp add: timeline_ok_def)
  have len: "length (ow_chunks ow) \<le> tl_max_chunks (ow_limits ow)" using owner_okD(1) [OF ok] by (simp add: chunks_ok_def)
  obtain idx where idx: "put_timeline d (chunk_key (ow_chunks ow ! i)) time ow = Some (set_timeline d idx ow)" "index_fits ow idx"
      "index_map idx = (index_map (timeline d ow))(chunk_key (ow_chunks ow ! i) \<mapsto> time)"
    using put_timeline_ok [OF fits dom_timeline [OF ok] len, of "chunk_key (ow_chunks ow ! i)" time] i by auto
  obtain u idx2 where put: "index_put (timeline d ow) (chunk_key (ow_chunks ow ! i)) time = Some (Inr u, idx2)"
    using idx(1) by (auto simp: put_timeline_def split: option.splits sum.splits prod.splits)
  have "idx2 = idx" using idx(1) put by (auto simp: put_timeline_def dest: arg_cong [of _ _ "timeline d"])
  then show ?thesis using idx put by (auto simp: put_timeline_def)
qed

lemma queue_push:
  assumes "queue_ok limit q" "length (sched_values (tq_heap q)) < limit"
  shows "\<exists>h. scheduled_push (tq_heap q) t = Some h \<and> sched_ok h \<and> hp_limit (sh_heap h) = limit \<and>
    mset (sched_values h) = add_mset t (mset (sched_values (tq_heap q))) \<and> (\<forall>env. scheduled_heap_bytes env h = scheduled_heap_bytes env (tq_heap q))"
proof -
  obtain v where v: "scheduled_push (tq_heap q) t = Some ((tq_heap q)\<lparr>sh_heap := (sh_heap (tq_heap q))\<lparr>hp_values := v\<rparr>\<rparr>)"
      "mset v = add_mset t (mset (sched_values (tq_heap q)))" "sched_ok ((tq_heap q)\<lparr>sh_heap := (sh_heap (tq_heap q))\<lparr>hp_values := v\<rparr>\<rparr>)"
    using sched_push_ok [of "tq_heap q" t] queue_okD(1,2) [OF assms(1)] assms(2) by auto
  then show ?thesis using queue_okD(2) [OF assms(1)]
    by (intro exI [of _ "(tq_heap q)\<lparr>sh_heap := (sh_heap (tq_heap q))\<lparr>hp_values := v\<rparr>\<rparr>"]) (simp add: scheduled_heap_bytes_def)
qed

text \<open>The timeline after a push is in step with the new head.\<close>

lemma push_timeline:
  assumes ok: "owner_ok env ow" and i: "i < length (ow_chunks ow)"
    and h: "sched_ok h" "mset (sched_values h) = add_mset t (mset (sched_values (tq_heap (chunk_queue d (ow_chunks ow ! i)))))"
  shows "\<exists>idx. index_fits ow idx \<and>
    index_map idx = (index_map (timeline d ow))(chunk_key (ow_chunks ow ! i) :=
      (if ck_registered (ow_chunks ow ! i) then map_option st_trigger_tick (scheduled_peek h) else None)) \<and>
    (\<forall>ow1. timeline d ow1 = timeline d ow \<longrightarrow>
      (if ck_registered (ow_chunks ow ! i) \<and> scheduled_peek h = Some t
       then put_timeline d (chunk_key (ow_chunks ow ! i)) (st_trigger_tick t) ow1 else Some ow1) = Some (set_timeline d idx ow1))"
proof (cases "ck_registered (ow_chunks ow ! i) \<and> scheduled_peek h = Some t")
  case True
  then show ?thesis using put_chunk [OF ok i, of d "st_trigger_tick t"] by (simp add: fun_upd_def)
next
  case False
  let ?c = "ow_chunks ow ! i"
  have tl: "timeline_ok d ow" by (rule owner_okD(2) [OF ok])
  have old: "sched_ok (tq_heap (chunk_queue d ?c))"
    using chunks_ok_nth [OF owner_okD(1) [OF ok] i] queue_okD(1) by (auto simp: chunk_ok_def)
  have "map_option st_trigger_tick (scheduled_peek h) = head_time d ?c" if "ck_registered ?c"
    using push_head [OF old h] False that by (simp add: head_time_def)
  then have "index_map (timeline d ow) (chunk_key ?c) = (if ck_registered ?c then map_option st_trigger_tick (scheduled_peek h) else None)"
    using heads_at [OF chunk_keys_distinct [OF owner_okD(1) [OF ok]] i, of d] tl by (simp add: timeline_ok_def)
  then show ?thesis using tl False
    by (intro exI [of _ "timeline d ow"]) (auto simp: timeline_ok_def set_timeline_id fun_upd_idem)
qed

lemma placed_iff:
  "placed a q \<longleftrightarrow> (\<forall>t \<in> set (sched_values (tq_heap q)). tick_chunk (st_position t) = a) \<and>
    (\<forall>t \<in> set (pending_ticks q). tick_chunk (sv_position t) = a)"
  by (cases "tq_pending q") (auto simp: placed_def pending_ticks_def)

section \<open>Scheduling\<close>

text \<open>The ticks of a domain, chunk by chunk.\<close>

definition chunk_ticks :: "TickDomain \<Rightarrow> ChunkQueues \<Rightarrow> ScheduledTick multiset" where
  "chunk_ticks d c = mset (sched_values (tq_heap (chunk_queue d c)))"

lemma chunk_address_key: "packed_chunk (ck_address c) = chunk_key c"
  by (simp add: chunk_key_def)

lemma schedule_created_ok:
  assumes ok: "owner_ok env ow" and i: "i < length (ow_chunks ow)" and reg: "ck_registered (ow_chunks ow ! i)"
    and chunk: "tick_chunk (st_position tick) = ck_address (ow_chunks ow ! i)"
  shows "\<exists>r ow'. schedule_created d i tick ow = Some (r, ow') \<and> owner_ok env ow' \<and>
    (let q = chunk_queue d (ow_chunks ow ! i) in
     if identity tick \<in> ids_set (tq_identities q) then r = Inr Duplicate \<and> ow' = ow
     else if queue_count q = tl_queued_per_chunk (ow_limits ow) then r = Inl QueueFull \<and> ow' = ow
     else r = Inr Added \<and> (\<exists>q' idx. ow' = set_timeline d idx (set_chunk i (chunk_set_queue d q' (ow_chunks ow ! i)) ow) \<and>
       mset (sched_values (tq_heap q')) = add_mset tick (mset (sched_values (tq_heap q))) \<and> pending_ticks q' = pending_ticks q \<and>
       ids_set (tq_identities q') = insert (identity tick) (ids_set (tq_identities q)) \<and> tq_hash q' = tq_hash q))"
proof -
  let ?c = "ow_chunks ow ! i" and ?L = "tl_queued_per_chunk (ow_limits ow)"
  let ?q = "chunk_queue d ?c"
  have cok: "chunk_ok ?L ?c" by (rule chunks_ok_nth [OF owner_okD(1) [OF ok] i])
  then have q: "queue_ok ?L ?q" and pl: "placed (ck_address ?c) ?q" by (auto simp: chunk_ok_def)
  note known = ids_contains_ok [OF queue_okD(3) [OF q], of "identity tick"]
  consider "identity tick \<in> ids_set (tq_identities ?q)" | "identity tick \<notin> ids_set (tq_identities ?q)" "queue_count ?q = ?L"
    | (add) "identity tick \<notin> ids_set (tq_identities ?q)" "queue_count ?q < ?L"
    using queue_okD(5) [OF q] by linarith
  then show ?thesis
  proof cases
    case add
    have "card (ids_set (tq_identities ?q)) + 1 < length (is_slots (tq_identities ?q))"
      using card_ids_queue [OF q] queue_okD(4) [OF q] add(2) by linarith
    then obtain ids where ids: "identities_insert (tq_hash ?q) (tq_identities ?q) (identity tick) = Some ids" "ids_ok (tq_hash ?q) ids"
        "ids_set ids = insert (identity tick) (ids_set (tq_identities ?q))" "length (is_slots ids) = length (is_slots (tq_identities ?q))"
        "is_capacity ids = is_capacity (tq_identities ?q)"
      using ids_insert_ok [OF queue_okD(3) [OF q]] by blast
    obtain h where h: "scheduled_push (tq_heap ?q) tick = Some h" "sched_ok h" "hp_limit (sh_heap h) = ?L"
        "mset (sched_values h) = add_mset tick (mset (sched_values (tq_heap ?q)))" "\<forall>env. scheduled_heap_bytes env h = scheduled_heap_bytes env (tq_heap ?q)"
      using queue_push [OF q, of tick] add(2) by (auto simp: queue_count_eq)
    let ?q' = "?q\<lparr>tq_identities := ids, tq_heap := h\<rparr>"
    have vs: "set (sched_values h) = insert tick (set (sched_values (tq_heap ?q)))" using arg_cong [OF h(4), of set_mset] by simp
    have len: "length (sched_values h) = Suc (length (sched_values (tq_heap ?q)))" using arg_cong [OF h(4), of size] by simp
    have pend: "pending_ticks ?q' = pending_ticks ?q" by (simp add: pending_ticks_def)
    have q': "queue_ok ?L ?q'" using q ids(2-4) h(2,3) vs len pend add(2) by (auto simp: queue_ok_iff queue_count_eq)
    have pl': "placed (ck_address ?c) ?q'" using pl vs chunk by (auto simp: placed_def)
    have bytes: "queue_heap_bytes env ?q' \<le> queue_heap_bytes env ?q" using h(5) ids(5) by (simp add: queue_heap_bytes_def identities_heap_bytes_def)
    obtain idx where idx: "index_fits ow idx" "index_map idx = (index_map (timeline d ow))(chunk_key ?c :=
          (if ck_registered ?c then map_option st_trigger_tick (scheduled_peek h) else None))"
        "\<forall>ow1. timeline d ow1 = timeline d ow \<longrightarrow> (if ck_registered ?c \<and> scheduled_peek h = Some tick
          then put_timeline d (chunk_key ?c) (st_trigger_tick tick) ow1 else Some ow1) = Some (set_timeline d idx ow1)"
      using push_timeline [OF ok i h(2,4)] by blast
    let ?ow = "set_timeline d idx (set_chunk i (chunk_set_queue d ?q' ?c) ow)"
    have "owner_ok env ?ow" by (rule owner_ok_queue [OF ok i q' pl' bytes idx(1)]) (simp add: idx(2))
    moreover have "schedule_created d i tick ow = Some (Inr Added, ?ow)"
      using idx(3) [rule_format, of "set_chunk i (chunk_set_queue d ?q' ?c) ow"] known ids(1) h(1) add reg
      by (cases "scheduled_peek h = Some tick") (simp_all add: schedule_created_def chunk_address_key Let_def)
    moreover have "mset (sched_values (tq_heap ?q')) = add_mset tick (mset (sched_values (tq_heap ?q)))" using h(4) by simp
    ultimately show ?thesis using add ids(3) pend unfolding Let_def by fastforce
  qed (use ok known in \<open>simp_all add: schedule_created_def\<close>)
qed

lemma registered_Inr:
  assumes "chunks_ok limits (ow_chunks ow)" "registered ow a = Inr i"
  shows "i < length (ow_chunks ow) \<and> ck_address (ow_chunks ow ! i) = a \<and> ck_registered (ow_chunks ow ! i)"
proof -
  have "sorted_wrt address_less (map ck_address (ow_chunks ow))" using assms(1) by (simp add: chunks_ok_def)
  then show ?thesis using assms(2) by (cases rule: chunk_find_cases [of _ a]) (auto simp: registered_def split: if_splits)
qed

lemma registered_Inl:
  assumes "chunks_ok limits (ow_chunks ow)" "registered ow a = Inl e"
  shows "e = MissingChunk \<and> (\<forall>c \<in> set (ow_chunks ow). ck_address c = a \<longrightarrow> \<not> ck_registered c)"
proof -
  have srt: "sorted_wrt address_less (map ck_address (ow_chunks ow))" using assms(1) by (simp add: chunks_ok_def)
  then have dist: "distinct (map ck_address (ow_chunks ow))" by (rule chunk_addresses_distinct)
  from srt show ?thesis
  proof (cases rule: chunk_find_cases [of _ a])
    case (found i)
    then have "c = ow_chunks ow ! i" if "c \<in> set (ow_chunks ow)" "ck_address c = a" for c
      using dist that by (auto simp: distinct_map inj_on_def)
    then show ?thesis using found assms(2) by (auto simp: registered_def split: if_splits)
  next
    case (absent i)
    then show ?thesis using assms(2) by (auto simp: registered_def)
  qed
qed

text \<open>Fields the invariant does not speak about.\<close>

lemma owner_ok_sub_tick [simp]: "owner_ok env (ow\<lparr>ow_next_sub_tick := x\<rparr>) = owner_ok env ow"
proof -
  have tl: "timeline d (ow\<lparr>ow_next_sub_tick := x\<rparr>) = timeline d ow" for d by (cases d) simp_all
  show ?thesis
    by (simp add: owner_ok_def timeline_ok_def index_fits_def tl ready_idle_def phase_ok_def memory_ok_def used_bytes_def scratch_bytes_def
        scratch_ok_def cong: option.case_cong prod.case_cong)
qed

lemma schedule_ok:
  assumes "owner_ok env ow"
  shows "\<exists>r ow'. schedule d p type_id game_time delay priority ow = Some (r, ow') \<and> owner_ok env ow'"
proof (cases "type_id \<ge> type_count d ow")
  case False
  let ?ow = "ow\<lparr>ow_next_sub_tick := wrap_i64 (ow_next_sub_tick ow + 1)\<rparr>"
  have ok: "owner_ok env ?ow" using assms by simp
  show ?thesis
  proof (cases "registered ?ow (tick_chunk p)")
    case (Inl e)
    then show ?thesis using False ok by (simp add: schedule_def Let_def)
  next
    case (Inr i)
    note reg = registered_Inr [OF owner_okD(1) [OF ok] Inr]
    let ?t = "\<lparr>st_position = p, st_type_id = type_id, st_trigger_tick = wrap_i64 (game_time + delay), st_priority = priority,
                 st_sub_tick_order = ow_next_sub_tick ow\<rparr>"
    obtain r ow' where "schedule_created d i ?t ?ow = Some (r, ow')" "owner_ok env ow'"
      using schedule_created_ok [OF ok, of i ?t d] reg by auto
    then show ?thesis using False Inr by (simp add: schedule_def Let_def)
  qed
qed (use assms in \<open>simp add: schedule_def\<close>)

section \<open>Unpacking\<close>

lemma chunk_set_queue_twice [simp]: "chunk_set_queue d q (chunk_set_queue d q' c) = chunk_set_queue d q c"
  by (cases d) simp_all

lemma chunk_set_queue_id [simp]: "chunk_set_queue d (chunk_queue d c) c = c"
  by (cases d) simp_all

lemma set_chunk_twice [simp]: "set_chunk i c (set_chunk i c' ow) = set_chunk i c ow"
  by (simp add: set_chunk_def)

lemma set_chunk_id [simp]: "set_chunk i (ow_chunks ow ! i) ow = ow"
  by (simp add: set_chunk_def)

text \<open>An owner with one queue and its timeline replaced.\<close>

definition swap_queue :: "TickDomain \<Rightarrow> nat \<Rightarrow> ChunkQueue \<Rightarrow> SchedulingIndex \<Rightarrow> ScheduledTickOwner \<Rightarrow> ScheduledTickOwner" where
  "swap_queue d i q idx ow = set_timeline d idx (set_chunk i (chunk_set_queue d q (ow_chunks ow ! i)) ow)"

abbreviation owner_queue :: "TickDomain \<Rightarrow> nat \<Rightarrow> ScheduledTickOwner \<Rightarrow> ChunkQueue" where
  "owner_queue d i ow \<equiv> chunk_queue d (ow_chunks ow ! i)"

lemma swap_queue_simps [simp]:
  "i < length (ow_chunks ow) \<Longrightarrow> swap_queue d i q idx (swap_queue d i q' idx' ow) = swap_queue d i q idx ow"
  "i < length (ow_chunks ow) \<Longrightarrow> owner_queue d i (swap_queue d i q idx ow) = q"
  "i < length (ow_chunks ow) \<Longrightarrow> d \<noteq> d' \<Longrightarrow> owner_queue d' i (swap_queue d i q idx ow) = owner_queue d' i ow"
  "length (ow_chunks (swap_queue d i q idx ow)) = length (ow_chunks ow)"
  "timeline d (swap_queue d i q idx ow) = idx" "d \<noteq> d' \<Longrightarrow> timeline d' (swap_queue d i q idx ow) = timeline d' ow"
  "ow_limits (swap_queue d i q idx ow) = ow_limits ow" "ow_allocated_bytes (swap_queue d i q idx ow) = ow_allocated_bytes ow"
  "i < length (ow_chunks ow) \<Longrightarrow> ck_registered (ow_chunks (swap_queue d i q idx ow) ! i) = ck_registered (ow_chunks ow ! i)"
  "i < length (ow_chunks ow) \<Longrightarrow> ck_address (ow_chunks (swap_queue d i q idx ow) ! i) = ck_address (ow_chunks ow ! i)"
  "i < length (ow_chunks ow) \<Longrightarrow> chunk_key (ow_chunks (swap_queue d i q idx ow) ! i) = chunk_key (ow_chunks ow ! i)"
  "index_fits (swap_queue d i q idx ow) x = index_fits ow x"
  by (simp_all add: swap_queue_def chunk_key_def)

lemma used_bytes_swap:
  assumes "i < length (ow_chunks ow)"
  shows "used_bytes env (swap_queue d i q idx ow) + queue_heap_bytes env (owner_queue d i ow) = used_bytes env ow + queue_heap_bytes env q"
  using used_bytes_set_chunk [OF assms, of env "chunk_set_queue d q (ow_chunks ow ! i)"] chunk_bytes_set_queue [of env d q "ow_chunks ow ! i"]
  by (simp add: swap_queue_def)

lemma swap_set:
  "i < length (ow_chunks ow) \<Longrightarrow>
   set_chunk i (chunk_set_queue d q' (ow_chunks (swap_queue d i q idx ow) ! i)) (swap_queue d i q idx ow) = swap_queue d i q' idx ow"
  by (simp add: swap_queue_def)

lemma owner_ok_bytes:
  assumes "owner_ok env ow" "used_bytes env ow \<le> a" "a \<le> tl_allocation_bytes (ow_limits ow)"
  shows "owner_ok env (ow\<lparr>ow_allocated_bytes := a\<rparr>)"
proof -
  have tl: "timeline d (ow\<lparr>ow_allocated_bytes := a\<rparr>) = timeline d ow" for d by (cases d) simp_all
  show ?thesis using assms
    by (simp add: owner_ok_def timeline_ok_def index_fits_def tl ready_idle_def phase_ok_def memory_ok_def used_bytes_def scratch_bytes_def
        scratch_ok_def cong: option.case_cong prod.case_cong)
qed

text \<open>
  The loop takes the pending list away first. Its invariant is the one of the owner, with the ticks
  not yet pushed put back as pending.
\<close>

abbreviation still_pending :: "TickDomain \<Rightarrow> nat \<Rightarrow> SavedTick list \<Rightarrow> ScheduledTickOwner \<Rightarrow> ScheduledTickOwner" where
  "still_pending d i saved ow \<equiv> swap_queue d i ((owner_queue d i ow)\<lparr>tq_pending := Some (saved, 0)\<rparr>) (timeline d ow) ow"

lemma push_tick_ok:
  assumes i: "i < length (ow_chunks ow)" and ok: "owner_ok env (still_pending d i (t # ts) ow)"
  shows "\<exists>h idx. push_tick d i (unpacked_tick game_time order t) ow = Some (swap_queue d i ((owner_queue d i ow)\<lparr>tq_heap := h\<rparr>) idx ow) \<and>
    mset (sched_values h) = add_mset (unpacked_tick game_time order t) (mset (sched_values (tq_heap (owner_queue d i ow)))) \<and>
    (\<forall>env. scheduled_heap_bytes env h = scheduled_heap_bytes env (tq_heap (owner_queue d i ow))) \<and>
    owner_ok env (still_pending d i ts (swap_queue d i ((owner_queue d i ow)\<lparr>tq_heap := h\<rparr>) idx ow))"
proof -
  let ?v = "still_pending d i (t # ts) ow" and ?q = "owner_queue d i ow" and ?c = "ow_chunks ow ! i"
  let ?L = "tl_queued_per_chunk (ow_limits ow)" and ?t = "unpacked_tick game_time order t"
  have iv: "i < length (ow_chunks ?v)" using i by simp
  have cok: "chunk_ok ?L (ow_chunks ?v ! i)" using chunks_ok_nth [OF owner_okD(1) [OF ok] iv] by simp
  have q: "queue_ok ?L (?q\<lparr>tq_pending := Some (t # ts, 0)\<rparr>)" and pl: "placed (ck_address ?c) (?q\<lparr>tq_pending := Some (t # ts, 0)\<rparr>)"
    using cok i unfolding chunk_ok_def by (metis swap_queue_simps(2), metis swap_queue_simps(2,10))
  obtain h where h: "scheduled_push (tq_heap ?q) ?t = Some h" "sched_ok h" "hp_limit (sh_heap h) = ?L"
      "mset (sched_values h) = add_mset ?t (mset (sched_values (tq_heap ?q)))" "\<forall>env. scheduled_heap_bytes env h = scheduled_heap_bytes env (tq_heap ?q)"
    using queue_push [OF q, of ?t] queue_okD(5) [OF q] by (auto simp: queue_count_def)
  have vs: "set (sched_values h) = insert ?t (set (sched_values (tq_heap ?q)))" using arg_cong [OF h(4), of set_mset] by simp
  have len: "length (sched_values h) = Suc (length (sched_values (tq_heap ?q)))" using arg_cong [OF h(4), of size] by simp
  have same: "identity ?t = saved_identity t" by (simp add: unpacked_tick_def saved_identity_def identity_def)
  let ?q' = "?q\<lparr>tq_heap := h, tq_pending := Some (ts, 0)\<rparr>"
  have q': "queue_ok ?L ?q'" using q h(2,3) vs len same by (auto simp: queue_ok_iff pending_ticks_def)
  have pl': "placed (ck_address ?c) ?q'" using pl vs by (auto simp: placed_iff pending_ticks_def unpacked_tick_def)
  have bytes: "queue_heap_bytes env ?q' \<le> queue_heap_bytes env (?q\<lparr>tq_pending := Some (t # ts, 0)\<rparr>)" using h(5) by (simp add: queue_heap_bytes_def)
  have hv: "mset (sched_values h) = add_mset ?t (mset (sched_values (tq_heap (owner_queue d i ?v))))" using h(4) i by simp
  obtain idx where idx: "index_fits ?v idx" "index_map idx = (index_map (timeline d ?v))(chunk_key (ow_chunks ?v ! i) :=
        (if ck_registered (ow_chunks ?v ! i) then map_option st_trigger_tick (scheduled_peek h) else None))"
      "\<forall>ow1. timeline d ow1 = timeline d ?v \<longrightarrow> (if ck_registered (ow_chunks ?v ! i) \<and> scheduled_peek h = Some ?t
        then put_timeline d (chunk_key (ow_chunks ?v ! i)) (st_trigger_tick ?t) ow1 else Some ow1) = Some (set_timeline d idx ow1)"
    using push_timeline [OF ok iv h(2) hv] by blast
  have "owner_ok env (swap_queue d i ?q' idx ?v)"
    unfolding swap_queue_def [of d i ?q' idx ?v]
    by (rule owner_ok_queue [OF ok iv _ _ _ idx(1)]) (use q' pl' bytes idx(2) i in simp_all)
  then have "owner_ok env (still_pending d i ts (swap_queue d i (?q\<lparr>tq_heap := h\<rparr>) idx ow))" using i by simp
  moreover have "push_tick d i ?t ow = Some (swap_queue d i (?q\<lparr>tq_heap := h\<rparr>) idx ow)"
    using idx(3) [rule_format, of "set_chunk i (chunk_set_queue d (?q\<lparr>tq_heap := h\<rparr>) ?c) ow"] h(1) i
    by (cases "ck_registered ?c \<and> scheduled_peek h = Some ?t") (auto simp add: push_tick_def chunk_address_key Let_def swap_queue_def)
  ultimately show ?thesis using h(4,5) by blast
qed

fun unpacked_ticks :: "int \<Rightarrow> int \<Rightarrow> SavedTick list \<Rightarrow> ScheduledTick list" where
  "unpacked_ticks game_time order [] = []"
| "unpacked_ticks game_time order (t # ts) = unpacked_tick game_time order t # unpacked_ticks game_time (order + 1) ts"

lemma unpack_ticks_ok:
  assumes "i < length (ow_chunks ow)" "owner_ok env (still_pending d i saved ow)"
  shows "\<exists>h idx. unpack_ticks d i game_time order saved ow = Some (swap_queue d i ((owner_queue d i ow)\<lparr>tq_heap := h\<rparr>) idx ow) \<and>
    mset (sched_values h) = mset (unpacked_ticks game_time order saved) + mset (sched_values (tq_heap (owner_queue d i ow))) \<and>
    (\<forall>env. scheduled_heap_bytes env h = scheduled_heap_bytes env (tq_heap (owner_queue d i ow))) \<and>
    owner_ok env (still_pending d i [] (swap_queue d i ((owner_queue d i ow)\<lparr>tq_heap := h\<rparr>) idx ow))"
  using assms
proof (induction saved arbitrary: ow order)
  case Nil
  have "swap_queue d i (owner_queue d i ow) (timeline d ow) ow = ow" by (simp add: swap_queue_def set_timeline_id)
  then show ?case using Nil.prems by (intro exI [of _ "tq_heap (owner_queue d i ow)"] exI [of _ "timeline d ow"]) simp
next
  case (Cons t ts)
  let ?q = "owner_queue d i ow"
  obtain h idx where h: "push_tick d i (unpacked_tick game_time order t) ow = Some (swap_queue d i (?q\<lparr>tq_heap := h\<rparr>) idx ow)"
      "mset (sched_values h) = add_mset (unpacked_tick game_time order t) (mset (sched_values (tq_heap ?q)))"
      "\<forall>env. scheduled_heap_bytes env h = scheduled_heap_bytes env (tq_heap ?q)"
      "owner_ok env (still_pending d i ts (swap_queue d i (?q\<lparr>tq_heap := h\<rparr>) idx ow))"
    using push_tick_ok [OF Cons.prems] by blast
  let ?ow = "swap_queue d i (?q\<lparr>tq_heap := h\<rparr>) idx ow"
  have i: "i < length (ow_chunks ?ow)" using Cons.prems(1) by simp
  from Cons.IH [OF i h(4), of "order + 1"] obtain h2 idx2
    where h2: "unpack_ticks d i game_time (order + 1) ts ?ow = Some (swap_queue d i ((owner_queue d i ?ow)\<lparr>tq_heap := h2\<rparr>) idx2 ?ow)"
      "mset (sched_values h2) = mset (unpacked_ticks game_time (order + 1) ts) + mset (sched_values (tq_heap (owner_queue d i ?ow)))"
      "\<forall>env. scheduled_heap_bytes env h2 = scheduled_heap_bytes env (tq_heap (owner_queue d i ?ow))"
      "owner_ok env (still_pending d i [] (swap_queue d i ((owner_queue d i ?ow)\<lparr>tq_heap := h2\<rparr>) idx2 ?ow))"
    by blast
  have q: "owner_queue d i ?ow = ?q\<lparr>tq_heap := h\<rparr>" using Cons.prems(1) by simp
  have s: "swap_queue d i x y ?ow = swap_queue d i x y ow" for x y using Cons.prems(1) by simp
  show ?case using h2 h unfolding q s by (intro exI [of _ h2] exI [of _ idx2]) simp
qed

lemma unpack_domain_ok:
  assumes ok: "owner_ok env ow" and i: "i < length (ow_chunks ow)"
  shows "\<exists>h idx a. unpack_domain env i game_time d ow =
      Some ((swap_queue d i ((owner_queue d i ow)\<lparr>tq_heap := h, tq_pending := None\<rparr>) idx ow)\<lparr>ow_allocated_bytes := a\<rparr>) \<and>
    mset (sched_values h) = mset (unpacked_ticks game_time (- int (length (pending_ticks (owner_queue d i ow)))) (pending_ticks (owner_queue d i ow)))
      + mset (sched_values (tq_heap (owner_queue d i ow))) \<and>
    owner_ok env ((swap_queue d i ((owner_queue d i ow)\<lparr>tq_heap := h, tq_pending := None\<rparr>) idx ow)\<lparr>ow_allocated_bytes := a\<rparr>)"
proof (cases "tq_pending (owner_queue d i ow)")
  case None
  let ?q = "owner_queue d i ow"
  have q: "?q\<lparr>tq_heap := tq_heap ?q, tq_pending := None\<rparr> = ?q" using None by simp
  have id: "(swap_queue d i ?q (timeline d ow) ow)\<lparr>ow_allocated_bytes := ow_allocated_bytes ow\<rparr> = ow"
    by (simp add: swap_queue_def set_timeline_id)
  show ?thesis
    by (rule exI [of _ "tq_heap ?q"], rule exI [of _ "timeline d ow"], rule exI [of _ "ow_allocated_bytes ow"], unfold q id)
      (use None ok in \<open>simp add: unpack_domain_def pending_ticks_def\<close>)
next
  case (Some pair)
  obtain saved cap where pair: "pair = (saved, cap)" by (cases pair)
  let ?q = "owner_queue d i ow" and ?c = "ow_chunks ow ! i" and ?L = "tl_queued_per_chunk (ow_limits ow)"
  let ?w = "swap_queue d i (?q\<lparr>tq_pending := None\<rparr>) (timeline d ow) ow"
  have cok: "chunk_ok ?L ?c" by (rule chunks_ok_nth [OF owner_okD(1) [OF ok] i])
  then have q: "queue_ok ?L ?q" and pl: "placed (ck_address ?c) ?q" by (auto simp: chunk_ok_def)
  have "owner_ok env (set_chunk i (chunk_set_queue d (?q\<lparr>tq_pending := Some (saved, 0)\<rparr>) ?c) ow)"
    by (rule owner_ok_queue_same [OF ok i])
      (use q pl Some pair in \<open>auto simp: queue_ok_iff placed_iff pending_ticks_def queue_heap_bytes_def head_time_def\<close>)
  then have "owner_ok env (still_pending d i saved ?w)" using i by (simp add: swap_queue_def set_timeline_id)
  then obtain h idx where h: "unpack_ticks d i game_time (- int (length saved)) saved ?w = Some (swap_queue d i ((owner_queue d i ?w)\<lparr>tq_heap := h\<rparr>) idx ?w)"
      "mset (sched_values h) = mset (unpacked_ticks game_time (- int (length saved)) saved) + mset (sched_values (tq_heap (owner_queue d i ?w)))"
      "\<forall>env. scheduled_heap_bytes env h = scheduled_heap_bytes env (tq_heap (owner_queue d i ?w))"
      "owner_ok env (still_pending d i [] (swap_queue d i ((owner_queue d i ?w)\<lparr>tq_heap := h\<rparr>) idx ?w))"
    using unpack_ticks_ok [of i ?w env d saved game_time "- int (length saved)"] i by auto
  let ?q' = "?q\<lparr>tq_heap := h, tq_pending := None\<rparr>"
  let ?r = "swap_queue d i ?q' idx ow"
  have q': "(owner_queue d i ?w)\<lparr>tq_heap := h\<rparr> = ?q'" using i by simp
  have s: "swap_queue d i x y ?w = swap_queue d i x y ow" for x y using i by simp
  let ?e = "swap_queue d i (?q\<lparr>tq_heap := h, tq_pending := Some ([], 0)\<rparr>) idx ow"
  have e: "owner_ok env ?e" using h(4) i by simp
  then have "owner_ok env (set_chunk i (chunk_set_queue d ?q' (ow_chunks ?e ! i)) ?e)"
  proof (rule owner_ok_queue_same)
    have "chunk_ok ?L (ow_chunks ?e ! i)" using chunks_ok_nth [OF owner_okD(1) [OF e], of i] i by simp
    then have "queue_ok ?L (owner_queue d i ?e)" "placed (ck_address (ow_chunks ?e ! i)) (owner_queue d i ?e)" by (auto simp: chunk_ok_def)
    then show "queue_ok (tl_queued_per_chunk (ow_limits ?e)) ?q'" "placed (ck_address (ow_chunks ?e ! i)) ?q'"
      using i by (simp_all add: queue_ok_iff placed_iff pending_ticks_def)
  qed (use i in \<open>auto simp: queue_heap_bytes_def head_time_def\<close>)
  then have r: "owner_ok env ?r" using i by (simp add: swap_set)
  have bytes: "used_bytes env ?r + cap * oe_saved_size env = used_bytes env ow"
    using used_bytes_swap [OF i, of env d ?q' idx] h(3) i Some pair by (simp add: queue_heap_bytes_def)
  have mem: "used_bytes env ow \<le> ow_allocated_bytes ow" "ow_allocated_bytes ow \<le> tl_allocation_bytes (ow_limits ow)"
    using owner_okD(5) [OF ok] by (auto simp: memory_ok_def)
  have "owner_ok env (?r\<lparr>ow_allocated_bytes := ow_allocated_bytes ow - cap * oe_saved_size env\<rparr>)"
    by (rule owner_ok_bytes [OF r]) (use bytes mem in simp_all)
  moreover have "unpack_domain env i game_time d ow = Some (?r\<lparr>ow_allocated_bytes := ow_allocated_bytes ow - cap * oe_saved_size env\<rparr>)"
  proof -
    have w: "set_chunk i (chunk_set_queue d (?q\<lparr>tq_pending := None\<rparr>) ?c) ow = ?w" by (simp add: swap_queue_def set_timeline_id)
    have "checked_sub (ow_allocated_bytes ow) (cap * oe_saved_size env) = Some (ow_allocated_bytes ow - cap * oe_saved_size env)"
      using bytes mem by (simp add: checked_sub_def)
    then show ?thesis using h(1) Some pair unfolding q' s by (simp add: unpack_domain_def w)
  qed
  moreover have "pending_ticks ?q = saved" using Some pair by (simp add: pending_ticks_def)
  ultimately show ?thesis using h(2) i by (intro exI [of _ h] exI [of _ idx] exI) simp
qed

lemma unpack_chunk_ok:
  assumes "owner_ok env ow"
  shows "\<exists>r ow'. unpack_chunk env a game_time ow = Some (r, ow') \<and> owner_ok env ow'"
proof -
  have "sorted_wrt address_less (map ck_address (ow_chunks ow))" using owner_okD(1) [OF assms] by (simp add: chunks_ok_def)
  then show ?thesis
  proof (cases rule: chunk_find_cases [of _ a])
    case (found i)
    obtain ow1 where ow1: "unpack_domain env i game_time BlockDomain ow = Some ow1" "owner_ok env ow1" "length (ow_chunks ow1) = length (ow_chunks ow)"
      using unpack_domain_ok [OF assms found(2), of game_time BlockDomain] by auto
    obtain ow2 where "unpack_domain env i game_time FluidDomain ow1 = Some ow2" "owner_ok env ow2"
      using unpack_domain_ok [OF ow1(2), of i game_time FluidDomain] ow1(3) found(2) by auto
    then show ?thesis using found(1) ow1(1) by (simp add: unpack_chunk_def)
  qed (use assms in \<open>simp add: unpack_chunk_def\<close>)
qed

end
