(* ===== verification/TickOwnerChunks.thy ===== *)
theory TickOwnerChunks
  imports TickOwnerPush
begin

text \<open>
  Operations that add, change or discard chunks, and the construction of the owner.
\<close>

section \<open>A new queue\<close>

lemma bind_b_Inr: "bind_b m f = (Inr x, left) \<longleftrightarrow> (\<exists>y l. m = (Inr y, l) \<and> f y l = (Inr x, left))"
  by (cases m; cases "fst m") auto

lemma queue_new_ok:
  assumes "te_grants (oe_tick env)" "0 < n" "queue_new (oe_tick env) hash n budget = (Inr q, left)"
  shows "queue_ok n q \<and> sched_values (tq_heap q) = [] \<and> tq_pending q = None \<and> tq_hash q = hash \<and> ids_set (tq_identities q) = {} \<and>
    left + queue_heap_bytes env q = budget"
proof -
  obtain h l1 ids where n: "scheduled_new (oe_tick env) n budget = (Inr h, l1)" "identities_new (oe_tick env) n l1 = (Inr ids, left)"
      "q = \<lparr>tq_heap = h, tq_identities = ids, tq_pending = None, tq_hash = hash\<rparr>"
    using assms(3) by (auto simp: queue_new_def bind_b_Inr)
  show ?thesis using scheduled_new_budget [OF assms(1), where n = n and budget = budget] identities_new_ok [OF assms(1,2) n(2), of hash] n(1,3) assms(2)
    by (auto simp: queue_ok_iff pending_ticks_def queue_heap_bytes_def)
qed

section \<open>Inserting a chunk\<close>

lemma map_insert: "map f (take i xs @ x # drop i xs) = take i (map f xs) @ f x # drop i (map f xs)"
  by (simp add: take_map drop_map)

lemma heads_insert:
  assumes d: "distinct (map chunk_key (take i chunks @ c # drop i chunks))"
  shows "heads d (take i chunks @ c # drop i chunks) = (heads d chunks)(chunk_key c := (if ck_registered c then head_time d c else None))"
proof (rule heads_eqI [OF d])
  let ?xs = "take i chunks @ c # drop i chunks"
  have split: "set chunks = set (take i chunks) \<union> set (drop i chunks)" by (simp flip: set_append)
  have "distinct (map chunk_key (take i chunks) @ map chunk_key (drop i chunks))" using d by auto
  then have dist: "distinct (map chunk_key chunks)" by (simp flip: map_append)
  show "((heads d chunks)(chunk_key c := (if ck_registered c then head_time d c else None))) k = None" if "k \<notin> chunk_key ` set ?xs" for k
    using that split heads_other [of k chunks d] by auto
  fix j assume j: "j < length ?xs"
  show "((heads d chunks)(chunk_key c := (if ck_registered c then head_time d c else None))) (chunk_key (?xs ! j)) =
      (if ck_registered (?xs ! j) then head_time d (?xs ! j) else None)"
  proof (cases "chunk_key (?xs ! j) = chunk_key c")
    case True
    have inj: "inj_on chunk_key (set ?xs)" using d by (simp only: distinct_map)
    have "c \<in> set ?xs" by simp
    from inj_onD [OF inj True nth_mem [OF j] this] have "?xs ! j = c" .
    then show ?thesis by simp
  next
    case False
    have "?xs ! j \<in> set ?xs" using j by (rule nth_mem)
    moreover have "?xs ! j \<noteq> c" using False by auto
    ultimately have "?xs ! j \<in> set chunks" using split by auto
    then obtain m where "m < length chunks" "chunks ! m = ?xs ! j" by (auto simp: in_set_conv_nth)
    then show ?thesis using heads_at [OF dist, of m d] False by simp
  qed
qed

lemma chunks_ok_insert:
  assumes "chunks_ok limits chunks" "chunk_ok (tl_queued_per_chunk limits) c" "length chunks < tl_max_chunks limits"
    "\<forall>x \<in> set (take i chunks). address_less (ck_address x) (ck_address c)" "\<forall>x \<in> set (drop i chunks). address_less (ck_address c) (ck_address x)"
  shows "chunks_ok limits (take i chunks @ c # drop i chunks)"
proof -
  have srt: "sorted_wrt address_less (map ck_address (take i chunks) @ map ck_address (drop i chunks))"
    using assms(1) by (simp add: chunks_ok_def flip: map_append)
  have "sorted_wrt address_less (map ck_address (take i chunks @ c # drop i chunks))"
    using srt assms(4,5) address_less_trans by (auto simp: sorted_wrt_append)
  moreover have "set (take i chunks @ c # drop i chunks) \<subseteq> insert c (set chunks)" by (auto dest: in_set_takeD in_set_dropD)
  ultimately show ?thesis using assms(1-3) by (auto simp: chunks_ok_def dest: in_set_takeD in_set_dropD)
qed

lemma insert_chunk_simps [simp]:
  "timeline d (insert_chunk i c ow) = timeline d ow" "ow_limits (insert_chunk i c ow) = ow_limits ow"
  "ow_chunks (insert_chunk i c ow) = take i (ow_chunks ow) @ c # drop i (ow_chunks ow)"
  "phase_ok (insert_chunk i c ow) = phase_ok ow" "ready_idle (insert_chunk i c ow) = ready_idle ow" "scratch_ok (insert_chunk i c ow) = scratch_ok ow"
  "index_fits (insert_chunk i c ow) x = index_fits ow x" "scratch_bytes env (insert_chunk i c ow) = scratch_bytes env ow"
  "ow_allocated_bytes (insert_chunk i c ow) = ow_allocated_bytes ow"
  by (cases d; simp add: insert_chunk_def phase_ok_def ready_idle_def scratch_ok_def index_fits_def scratch_bytes_def cong: option.case_cong prod.case_cong)+

lemma used_bytes_insert: "used_bytes env (insert_chunk i c ow) = used_bytes env ow + chunk_heap_bytes env c"
proof -
  have "sum_list (map f (take i xs)) + sum_list (map f (drop i xs)) = sum_list (map f xs)" for f :: "ChunkQueues \<Rightarrow> nat" and xs
    by (simp flip: sum_list_append map_append)
  from this [of "chunk_heap_bytes env" "ow_chunks ow"] show ?thesis by (simp add: used_bytes_def)
qed

lemma timeline_bytes [simp]:
  "timeline d (ow\<lparr>ow_allocated_bytes := a\<rparr>) = timeline d ow" "timeline d (ow\<lparr>ow_chunks := cs\<rparr>) = timeline d ow"
  by (cases d; simp)+

lemma owner_ok_insert:
  assumes ok: "owner_ok env ow" and c: "chunk_ok (tl_queued_per_chunk (ow_limits ow)) c" "length (ow_chunks ow) < tl_max_chunks (ow_limits ow)"
    and order: "\<forall>x \<in> set (take i (ow_chunks ow)). address_less (ck_address x) (ck_address c)"
      "\<forall>x \<in> set (drop i (ow_chunks ow)). address_less (ck_address c) (ck_address x)"
    and fresh: "ck_address c \<notin> ck_address ` set (ow_chunks ow)" and empty: "\<forall>d. ck_registered c \<longrightarrow> head_time d c = None"
    and mem: "used_bytes env ow + chunk_heap_bytes env c \<le> a" "a \<le> tl_allocation_bytes (ow_limits ow)"
  shows "owner_ok env ((insert_chunk i c ow)\<lparr>ow_allocated_bytes := a\<rparr>)"
proof -
  let ?xs = "take i (ow_chunks ow) @ c # drop i (ow_chunks ow)"
  have chunks: "chunks_ok (ow_limits ow) ?xs" by (rule chunks_ok_insert [OF owner_okD(1) [OF ok] c order])
  have i32: "\<forall>x \<in> set (ow_chunks ow). chunk_i32 (ck_address x)" using owner_okD(1) [OF ok] by (auto simp: chunks_ok_def chunk_ok_def)
  have "chunk_key c \<notin> chunk_key ` set (ow_chunks ow)"
  proof
    assume "chunk_key c \<in> chunk_key ` set (ow_chunks ow)"
    then obtain x where x: "x \<in> set (ow_chunks ow)" "packed_chunk (ck_address c) = packed_chunk (ck_address x)" by (auto simp: chunk_key_def)
    have "ck_address c = ck_address x" by (rule inj_packed_chunk) (use x i32 c(1) in \<open>auto simp: chunk_ok_def\<close>)
    then show False using fresh x(1) by auto
  qed
  then have none: "heads d (ow_chunks ow) (chunk_key c) = None" for d by (rule heads_other)
  have "heads d ?xs = heads d (ow_chunks ow)" for d
    using heads_insert [OF chunk_keys_distinct [OF chunks], of d] empty none [of d] by (auto simp: fun_upd_idem)
  then have "timeline_ok d ((insert_chunk i c ow)\<lparr>ow_allocated_bytes := a\<rparr>)" for d
    using owner_okD(2) [OF ok, of d] by (simp add: timeline_ok_def index_fits_def)
  moreover have "memory_ok env ((insert_chunk i c ow)\<lparr>ow_allocated_bytes := a\<rparr>)"
    using mem used_bytes_insert [of env i c ow] by (simp add: memory_ok_def used_bytes_def scratch_bytes_def)
  moreover have "phase_ok ((insert_chunk i c ow)\<lparr>ow_allocated_bytes := a\<rparr>)"
    using owner_okD(4) [OF ok] by (simp add: phase_ok_def insert_chunk_def)
  moreover have "ready_idle ((insert_chunk i c ow)\<lparr>ow_allocated_bytes := a\<rparr>)" "scratch_ok ((insert_chunk i c ow)\<lparr>ow_allocated_bytes := a\<rparr>)"
    using owner_okD(3,6) [OF ok] by (simp_all add: ready_idle_def scratch_ok_def insert_chunk_def cong: option.case_cong prod.case_cong)
  ultimately show ?thesis using chunks by (simp add: owner_ok_def)
qed

section \<open>Registration\<close>

lemma chunk_find_at:
  assumes "sorted_wrt address_less (map ck_address chunks)" "i < length chunks"
  shows "chunk_find chunks (ck_address (chunks ! i)) = Inr i"
  using assms(1)
proof (cases rule: chunk_find_cases [of _ "ck_address (chunks ! i)"])
  case (found j)
  have "j = i" using chunk_addresses_distinct [OF assms(1)] found(2,3) assms(2) by (simp add: distinct_conv_nth) blast
  then show ?thesis using found(1) by simp
next
  case (absent j)
  then show ?thesis using assms(2) by simp
qed

lemma registered_at:
  assumes "chunks_ok limits (ow_chunks ow)" "i < length (ow_chunks ow)" "ck_registered (ow_chunks ow ! i)" "ck_address (ow_chunks ow ! i) = a"
  shows "registered ow a = Inr i"
  using chunk_find_at [of "ow_chunks ow" i] assms by (simp add: registered_def chunks_ok_def)

lemma registered_timeline [simp]: "registered (set_timeline d idx ow) a = registered ow a"
  by (simp add: registered_def cong: sum.case_cong)

lemma update_head_ok:
  assumes chunks: "chunks_ok (ow_limits ow) (ow_chunks ow)" and i: "i < length (ow_chunks ow)" "ck_registered (ow_chunks ow ! i)"
    and fits: "index_fits ow (timeline d ow)"
    and map: "index_map (timeline d ow) = (heads d (ow_chunks ow))(chunk_key (ow_chunks ow ! i) := None)"
  shows "\<exists>idx. update_head (ck_address (ow_chunks ow ! i)) d ow = Some (set_timeline d idx ow) \<and> index_fits ow idx \<and>
    index_map idx = heads d (ow_chunks ow)"
proof -
  let ?c = "ow_chunks ow ! i"
  have reg: "registered ow (ck_address ?c) = Inr i" by (rule registered_at [OF chunks i]) simp
  have at: "heads d (ow_chunks ow) (chunk_key ?c) = head_time d ?c"
    using heads_at [OF chunk_keys_distinct [OF chunks] i(1), of d] i(2) by simp
  show ?thesis
  proof (cases "scheduled_peek (tq_heap (chunk_queue d ?c))")
    case None
    then have "index_map (timeline d ow) = heads d (ow_chunks ow)" using at map by (simp add: head_time_def fun_upd_idem)
    then show ?thesis using fits reg None by (intro exI [of _ "timeline d ow"]) (simp add: update_head_def set_timeline_id)
  next
    case (Some t)
    have dom: "dom (index_map (timeline d ow)) \<subseteq> chunk_key ` set (ow_chunks ow)"
    proof
      fix k assume "k \<in> dom (index_map (timeline d ow))"
      then have "heads d (ow_chunks ow) k \<noteq> None" using map by (auto split: if_splits)
      then show "k \<in> chunk_key ` set (ow_chunks ow)" by (rule contrapos_np) (rule heads_other)
    qed
    have len: "length (ow_chunks ow) \<le> tl_max_chunks (ow_limits ow)" using chunks by (simp add: chunks_ok_def)
    obtain idx where idx: "put_timeline d (chunk_key ?c) (st_trigger_tick t) ow = Some (set_timeline d idx ow)" "index_fits ow idx"
        "index_map idx = (index_map (timeline d ow))(chunk_key ?c \<mapsto> st_trigger_tick t)"
      using put_timeline_ok [OF fits dom len, of "chunk_key ?c" "st_trigger_tick t"] i by auto
    have "index_map idx = heads d (ow_chunks ow)" using idx(3) map at Some by (auto simp: head_time_def fun_eq_iff)
    then show ?thesis using idx reg Some by (intro exI [of _ idx]) (simp add: update_head_def chunk_address_key)
  qed
qed

text \<open>The end of \<open>register_chunk\<close>: both timelines learn the heads of the chunk that has just been registered.\<close>

lemma register_heads_ok:
  assumes rest: "chunks_ok (ow_limits ow) (ow_chunks ow)" "ready_idle ow" "phase_ok ow" "memory_ok env ow" "scratch_ok ow"
    and i: "i < length (ow_chunks ow)" "ck_registered (ow_chunks ow ! i)" "ck_address (ow_chunks ow ! i) = a"
    and tl: "\<forall>d. index_fits ow (timeline d ow) \<and> index_map (timeline d ow) = (heads d (ow_chunks ow))(chunk_key (ow_chunks ow ! i) := None)"
  shows "\<exists>ow1 ow2. update_head a BlockDomain ow = Some ow1 \<and> update_head a FluidDomain ow1 = Some ow2 \<and> owner_ok env ow2"
proof -
  obtain bx where bx: "update_head a BlockDomain ow = Some (set_timeline BlockDomain bx ow)" "index_fits ow bx"
      "index_map bx = heads BlockDomain (ow_chunks ow)"
    using update_head_ok [OF rest(1) i(1,2) conjunct1 conjunct2, OF spec [OF tl] spec [OF tl], of BlockDomain] unfolding i(3) by blast
  let ?ow = "set_timeline BlockDomain bx ow"
  have fl: "index_fits ?ow (timeline FluidDomain ?ow)" "index_map (timeline FluidDomain ?ow) = (heads FluidDomain (ow_chunks ?ow))(chunk_key (ow_chunks ?ow ! i) := None)"
    using spec [OF tl, of FluidDomain] by (simp_all add: index_fits_def)
  obtain fx where fx: "update_head a FluidDomain ?ow = Some (set_timeline FluidDomain fx ?ow)" "index_fits ow fx"
      "index_map fx = heads FluidDomain (ow_chunks ow)"
    using update_head_ok [OF _ _ _ fl] rest(1) i by (auto simp: index_fits_def)
  have "timeline_ok d (set_timeline FluidDomain fx ?ow)" for d using bx fx by (cases d) (simp_all add: timeline_ok_def index_fits_def)
  then have "owner_ok env (set_timeline FluidDomain fx ?ow)" using rest by (simp add: owner_ok_def del: set_timeline.simps)
  then show ?thesis using bx(1) fx(1) by blast
qed

lemma heads_register:
  assumes "chunks_ok limits chunks" "i < length chunks" "\<not> ck_registered (chunks ! i)" "chunk_key c = chunk_key (chunks ! i)"
  shows "heads d chunks = (heads d (chunks[i := c]))(chunk_key (chunks ! i) := None)"
proof -
  note dist = chunk_keys_distinct [OF assms(1)]
  show ?thesis using heads_update [OF dist assms(2,4), of d] heads_at [OF dist assms(2), of d] assms(3,4) by (auto simp: fun_eq_iff)
qed

lemma chunk_flags [simp]:
  "chunk_ok limit (c\<lparr>ck_registered := r, ck_eligible := e\<rparr>) = chunk_ok limit c" "chunk_ok limit (c\<lparr>ck_registered := r\<rparr>) = chunk_ok limit c"
  "chunk_ok limit (c\<lparr>ck_eligible := e\<rparr>) = chunk_ok limit c"
  "chunk_key (c\<lparr>ck_registered := r, ck_eligible := e\<rparr>) = chunk_key c" "chunk_key (c\<lparr>ck_registered := r\<rparr>) = chunk_key c"
  "chunk_key (c\<lparr>ck_eligible := e\<rparr>) = chunk_key c" "head_time d (c\<lparr>ck_eligible := e\<rparr>) = head_time d c"
  "chunk_heap_bytes env (c\<lparr>ck_registered := r, ck_eligible := e\<rparr>) = chunk_heap_bytes env c"
  "chunk_heap_bytes env (c\<lparr>ck_registered := r\<rparr>) = chunk_heap_bytes env c" "chunk_heap_bytes env (c\<lparr>ck_eligible := e\<rparr>) = chunk_heap_bytes env c"
proof -
  have q: "chunk_queue d (c\<lparr>ck_registered := r, ck_eligible := e\<rparr>) = chunk_queue d c" "chunk_queue d (c\<lparr>ck_registered := r\<rparr>) = chunk_queue d c"
    "chunk_queue d (c\<lparr>ck_eligible := e\<rparr>) = chunk_queue d c" for d by (cases d; simp)+
  show "chunk_ok limit (c\<lparr>ck_registered := r, ck_eligible := e\<rparr>) = chunk_ok limit c" "chunk_ok limit (c\<lparr>ck_registered := r\<rparr>) = chunk_ok limit c"
    "chunk_ok limit (c\<lparr>ck_eligible := e\<rparr>) = chunk_ok limit c" "head_time d (c\<lparr>ck_eligible := e\<rparr>) = head_time d c" by (simp_all add: chunk_ok_def q head_time_def)
qed (simp_all add: chunk_key_def chunk_heap_bytes_def)

lemma memory_ok_same_bytes:
  assumes "memory_ok env ow" "i < length (ow_chunks ow)" "chunk_heap_bytes env c = chunk_heap_bytes env (ow_chunks ow ! i)"
  shows "memory_ok env (set_chunk i c ow)"
  using assms used_bytes_set_chunk [OF assms(2), of env c] by (simp add: memory_ok_def)

lemma register_chunk_ok:
  assumes ok: "owner_ok env ow" and env: "te_grants (oe_tick env)" and a: "chunk_i32 a"
  shows "\<exists>r ow'. register_chunk env bh fh a eligible ow = Some (r, ow') \<and> owner_ok env ow'"
proof -
  note chunks = owner_okD(1) [OF ok]
  have srt: "sorted_wrt address_less (map ck_address (ow_chunks ow))" using chunks by (simp add: chunks_ok_def)
  then show ?thesis
  proof (cases rule: chunk_find_cases [of _ a])
    case (found i)
    let ?c = "(ow_chunks ow ! i)\<lparr>ck_registered := True, ck_eligible := eligible\<rparr>"
    show ?thesis
    proof (cases "ck_registered (ow_chunks ow ! i)")
      case True
      then show ?thesis using found ok by (simp add: register_chunk_def Let_def)
    next
      case False
      have "\<exists>ow1 ow2. update_head a BlockDomain (set_chunk i ?c ow) = Some ow1 \<and> update_head a FluidDomain ow1 = Some ow2 \<and> owner_ok env ow2"
      proof (rule register_heads_ok)
        show "chunks_ok (ow_limits (set_chunk i ?c ow)) (ow_chunks (set_chunk i ?c ow))"
          using chunks_ok_update [OF chunks found(2), of ?c] chunks_ok_nth [OF chunks found(2)] by simp
        show "memory_ok env (set_chunk i ?c ow)" by (rule memory_ok_same_bytes [OF owner_okD(5) [OF ok] found(2)]) simp
        show "\<forall>d. index_fits (set_chunk i ?c ow) (timeline d (set_chunk i ?c ow)) \<and> index_map (timeline d (set_chunk i ?c ow)) =
            (heads d (ow_chunks (set_chunk i ?c ow)))(chunk_key (ow_chunks (set_chunk i ?c ow) ! i) := None)"
          using owner_okD(2) [OF ok] heads_register [OF chunks found(2) False, of ?c] found(2) by (simp add: timeline_ok_def)
      qed (use owner_okD(3,4,6) [OF ok] found in simp_all)
      then show ?thesis using found False by (auto simp: register_chunk_def Let_def)
    qed
  next
    case (absent i)
    let ?n = "tl_queued_per_chunk (ow_limits ow)" and ?L = "ow_limits ow"
    have mem: "ow_allocated_bytes ow \<le> tl_allocation_bytes ?L" "used_bytes env ow \<le> ow_allocated_bytes ow"
      using owner_okD(5) [OF ok] by (auto simp: memory_ok_def)
    have n: "0 < ?n" using chunks by (simp add: chunks_ok_def)
    let ?new = "bind_b (queue_new (oe_tick env) bh ?n (tl_allocation_bytes ?L - ow_allocated_bytes ow)) (\<lambda>blocks left1.
        bind_b (queue_new (oe_tick env) fh ?n left1) (\<lambda>fluids left2. (Inr (blocks, fluids), left2)))"
    have sub: "checked_sub (tl_allocation_bytes ?L) (ow_allocated_bytes ow) = Some (tl_allocation_bytes ?L - ow_allocated_bytes ow)"
      using mem by (simp add: checked_sub_def)
    consider "length (ow_chunks ow) = tl_max_chunks ?L" | e left where "?new = (Inl e, left)" "length (ow_chunks ow) \<noteq> tl_max_chunks ?L"
      | (built) b f left where "?new = (Inr (b, f), left)" "length (ow_chunks ow) < tl_max_chunks ?L"
      using chunks by (cases ?new; cases "fst ?new") (auto simp: chunks_ok_def le_less)
    then show ?thesis
    proof cases
      case built
      obtain l1 where q: "queue_new (oe_tick env) bh ?n (tl_allocation_bytes ?L - ow_allocated_bytes ow) = (Inr b, l1)"
          "queue_new (oe_tick env) fh ?n l1 = (Inr f, left)" using built(1) by (auto simp: bind_b_Inr)
      note nb = queue_new_ok [OF env n q(1)] and nf = queue_new_ok [OF env n q(2)]
      let ?c = "\<lparr>ck_address = a, ck_registered = True, ck_eligible = eligible, ck_blocks = b, ck_fluids = f\<rparr>"
      let ?w = "(insert_chunk i ?c ow)\<lparr>ow_allocated_bytes := tl_allocation_bytes ?L - left\<rparr>"
      have qs: "queue_ok ?n (chunk_queue d ?c) \<and> sched_values (tq_heap (chunk_queue d ?c)) = [] \<and> tq_pending (chunk_queue d ?c) = None" for d
        using nb nf by (cases d) simp_all
      then have cok: "chunk_ok ?n ?c" "\<forall>d. ck_registered ?c \<longrightarrow> head_time d ?c = None"
        using a by (auto simp: chunk_ok_def placed_def head_time_def peek_None)
      have bytes: "used_bytes env ow + chunk_heap_bytes env ?c \<le> tl_allocation_bytes ?L - left"
        using nb nf mem unfolding chunk_heap_bytes_def by simp arith
      have w: "owner_ok env ?w" by (rule owner_ok_insert [OF ok cok(1) built(2)]) (use absent cok(2) bytes in simp_all)
      have nth: "ow_chunks ?w ! i = ?c" "i < length (ow_chunks ?w)" using absent(2) by (simp_all add: nth_append)
      have "\<exists>ow1 ow2. update_head a BlockDomain ?w = Some ow1 \<and> update_head a FluidDomain ow1 = Some ow2 \<and> owner_ok env ow2"
      proof (rule register_heads_ok [where i = i])
        have "heads d (ow_chunks ?w) (chunk_key (ow_chunks ?w ! i)) = None" for d
          using heads_at [OF chunk_keys_distinct [OF owner_okD(1) [OF w]] nth(2), of d] cok(2) nth(1) by simp
        then show "\<forall>d. index_fits ?w (timeline d ?w) \<and> index_map (timeline d ?w) = (heads d (ow_chunks ?w))(chunk_key (ow_chunks ?w ! i) := None)"
          using owner_okD(2) [OF w] by (simp add: timeline_ok_def fun_upd_idem)
      qed (use owner_okD [OF w] nth in simp_all)
      then show ?thesis using absent built sub by (auto simp: register_chunk_def Let_def)
    qed (use absent ok sub in \<open>simp_all add: register_chunk_def Let_def\<close>)
  qed
qed

section \<open>Eligibility, detaching and discarding\<close>

lemma owner_ok_flags:
  assumes ok: "owner_ok env ow" and i: "i < length (ow_chunks ow)"
    and c: "chunk_ok (tl_queued_per_chunk (ow_limits ow)) c" "ck_address c = ck_address (ow_chunks ow ! i)"
      "chunk_heap_bytes env c = chunk_heap_bytes env (ow_chunks ow ! i)"
    and tl: "\<forall>d. index_fits ow (tls d) \<and> index_map (tls d) = (heads d (ow_chunks ow))(chunk_key c := (if ck_registered c then head_time d c else None))"
  shows "owner_ok env (set_timeline FluidDomain (tls FluidDomain) (set_timeline BlockDomain (tls BlockDomain) (set_chunk i c ow)))"
    (is "owner_ok env ?ow")
proof -
  note chunks = owner_okD(1) [OF ok]
  have key: "chunk_key c = chunk_key (ow_chunks ow ! i)" using c(2) by (simp add: chunk_key_def)
  have "timeline_ok d ?ow" for d
    using tl heads_update [OF chunk_keys_distinct [OF chunks] i key, of d] by (cases d) (simp_all add: timeline_ok_def index_fits_def)
  moreover have "chunks_ok (ow_limits ow) ((ow_chunks ow)[i := c])" by (rule chunks_ok_update [OF chunks i c(1,2)])
  moreover have "memory_ok env (set_chunk i c ow)" by (rule memory_ok_same_bytes [OF owner_okD(5) [OF ok] i c(3)])
  ultimately show ?thesis using owner_okD(3,4,6) [OF ok] by (simp add: owner_ok_def del: set_timeline.simps)
qed

lemma set_eligible_ok:
  assumes ok: "owner_ok env ow"
  shows "\<exists>r ow'. set_eligible a eligible ow = Some (r, ow') \<and> owner_ok env ow'"
proof (cases "registered ow a")
  case (Inl e)
  then show ?thesis using ok by (simp add: set_eligible_def)
next
  case (Inr i)
  note chunks = owner_okD(1) [OF ok]
  note i = registered_Inr [OF chunks Inr]
  let ?c = "(ow_chunks ow ! i)\<lparr>ck_eligible := eligible\<rparr>"
  have "owner_ok env (set_timeline FluidDomain (timeline FluidDomain ow) (set_timeline BlockDomain (timeline BlockDomain ow) (set_chunk i ?c ow)))"
  proof (rule owner_ok_flags [OF ok, where tls = "\<lambda>d. timeline d ow"])
    show "\<forall>d. index_fits ow (timeline d ow) \<and> index_map (timeline d ow) =
        (heads d (ow_chunks ow))(chunk_key ?c := if ck_registered ?c then head_time d ?c else None)"
      using owner_okD(2) [OF ok] heads_at [OF chunk_keys_distinct [OF chunks], of i] i by (simp add: timeline_ok_def fun_upd_idem)
  qed (use i chunks_ok_nth [OF chunks, of i] in simp_all)
  then show ?thesis using Inr by (simp add: set_eligible_def set_chunk_def)
qed

lemma detach_chunk_ok:
  assumes ok: "owner_ok env ow"
  shows "\<exists>r ow'. detach_chunk a ow = Some (r, ow') \<and> owner_ok env ow'"
proof (cases "registered ow a")
  case (Inl e)
  then show ?thesis using ok by (simp add: detach_chunk_def)
next
  case (Inr i)
  note chunks = owner_okD(1) [OF ok]
  note i = registered_Inr [OF chunks Inr]
  let ?c = "(ow_chunks ow ! i)\<lparr>ck_registered := False\<rparr>"
  have "\<exists>x old. index_remove (timeline d ow) (packed_chunk a) = Some (old, x) \<and> index_fits ow x \<and>
      index_map x = (heads d (ow_chunks ow))(packed_chunk a := None)" for d
    using owner_okD(2) [OF ok, of d] remove_key_ok [of "timeline d ow" "packed_chunk a"]
    by (auto simp: timeline_ok_def index_fits_def index_remove_def index_frame_def)
  then obtain tls old where tls: "\<And>d. index_remove (timeline d ow) (packed_chunk a) = Some (old d, tls d)" "\<And>d. index_fits ow (tls d)"
      "\<And>d. index_map (tls d) = (heads d (ow_chunks ow))(packed_chunk a := None)" by metis
  have "chunk_key ?c = packed_chunk a" using i by (simp add: chunk_key_def)
  then have "owner_ok env (set_timeline FluidDomain (tls FluidDomain) (set_timeline BlockDomain (tls BlockDomain) (set_chunk i ?c ow)))"
    using tls(2,3) i chunks_ok_nth [OF chunks, of i] by (intro owner_ok_flags [OF ok]) simp_all
  then show ?thesis using Inr tls(1) [of BlockDomain] tls(1) [of FluidDomain] by (simp add: detach_chunk_def)
qed

lemma discard_chunk_ok:
  assumes ok: "owner_ok env ow"
  shows "\<exists>r ow'. discard_detached_chunk env a ow = Some (r, ow') \<and> owner_ok env ow'"
proof -
  note chunks = owner_okD(1) [OF ok]
  have "sorted_wrt address_less (map ck_address (ow_chunks ow))" using chunks by (simp add: chunks_ok_def)
  then show ?thesis
  proof (cases rule: chunk_find_cases [of _ a])
    case (found i)
    let ?c = "ow_chunks ow ! i" and ?ys = "take i (ow_chunks ow) @ drop (i + 1) (ow_chunks ow)"
    show ?thesis
    proof (cases "ck_registered ?c")
      case True
      then show ?thesis using found ok by (simp add: discard_detached_chunk_def)
    next
      case False
      have split: "ow_chunks ow = take i ?ys @ ?c # drop i ?ys" using found(2) id_take_nth_drop [OF found(2)] by simp
      have dist: "distinct (map chunk_key (take i ?ys @ ?c # drop i ?ys))" using chunk_keys_distinct [OF chunks] split by simp
      then have "chunk_key ?c \<notin> chunk_key ` set ?ys" using found(2) by auto
      then have "heads d ?ys (chunk_key ?c) = None" for d by (rule heads_other)
      then have heads: "heads d (ow_chunks ow) = heads d ?ys" for d
        using heads_insert [OF dist, of d] False split by (simp add: fun_upd_idem)
      have sum: "sum_list (map (chunk_heap_bytes env) (ow_chunks ow)) = sum_list (map (chunk_heap_bytes env) ?ys) + chunk_heap_bytes env ?c"
        by (subst split) (simp add: found(2) min_def)
      let ?ow = "ow\<lparr>ow_allocated_bytes := ow_allocated_bytes ow - chunk_heap_bytes env ?c, ow_chunks := ?ys\<rparr>"
      have "timeline_ok d ?ow" for d using owner_okD(2) [OF ok, of d] heads by (simp add: timeline_ok_def index_fits_def)
      moreover have "chunks_ok (ow_limits ow) ?ys"
      proof -
        have "sorted_wrt address_less (map ck_address (take i (ow_chunks ow)) @ ck_address ?c # map ck_address (drop (i + 1) (ow_chunks ow)))"
          using chunks split found(2) by (simp add: chunks_ok_def min_def flip: map_append list.map)
        then have "sorted_wrt address_less (map ck_address ?ys)" by (simp add: sorted_wrt_append)
        moreover have "set ?ys \<subseteq> set (ow_chunks ow)" by (auto dest: in_set_takeD in_set_dropD)
        ultimately show ?thesis using chunks by (auto simp: chunks_ok_def)
      qed
      moreover have "memory_ok env ?ow" "chunk_heap_bytes env ?c \<le> ow_allocated_bytes ow"
        using owner_okD(5) [OF ok] sum unfolding memory_ok_def used_bytes_def scratch_bytes_def by auto
      moreover have "phase_ok ?ow" "ready_idle ?ow" "scratch_ok ?ow"
        using owner_okD(3,4,6) [OF ok] by (simp_all add: phase_ok_def ready_idle_def scratch_ok_def cong: option.case_cong prod.case_cong)
      ultimately have "owner_ok env ?ow" "checked_sub (ow_allocated_bytes ow) (chunk_heap_bytes env ?c) = Some (ow_allocated_bytes ow - chunk_heap_bytes env ?c)"
        by (simp_all add: owner_ok_def checked_sub_def)
      then show ?thesis using found False by (simp add: discard_detached_chunk_def)
    qed
  qed (use ok in \<open>simp add: discard_detached_chunk_def\<close>)
qed

section \<open>Loading saved ticks\<close>

lemma insert_identities_ok:
  assumes "ids_ok hash ids" "card (ids_set ids) + length xs < length (is_slots ids)"
  shows "\<exists>ids'. insert_identities hash ids xs = Some ids' \<and> ids_ok hash ids' \<and> ids_set ids' = ids_set ids \<union> set xs \<and>
    length (is_slots ids') = length (is_slots ids) \<and> is_capacity ids' = is_capacity ids"
  using assms
proof (induction xs arbitrary: ids)
  case (Cons x xs)
  obtain ids1 where i1: "identities_insert hash ids x = Some ids1" "ids_ok hash ids1" "ids_set ids1 = insert x (ids_set ids)"
      "length (is_slots ids1) = length (is_slots ids)" "is_capacity ids1 = is_capacity ids"
    using ids_insert_ok [OF Cons.prems(1), of x] Cons.prems(2) by auto
  have "card (ids_set ids1) \<le> Suc (card (ids_set ids))" unfolding i1(3) by (simp add: card_insert_le_m1 card_insert_if ids_set_def)
  then obtain ids2 where "insert_identities hash ids1 xs = Some ids2" "ids_ok hash ids2" "ids_set ids2 = ids_set ids1 \<union> set xs"
      "length (is_slots ids2) = length (is_slots ids1)" "is_capacity ids2 = is_capacity ids1"
    using Cons.IH [OF i1(2)] i1(4) Cons.prems(2) by auto
  then show ?case using i1 by auto
qed simp

lemma insert_saved_eq: "insert_saved hash ids ts = insert_identities hash ids (map saved_identity ts)"
  by (induction ts arbitrary: ids) simp_all

lemma load_queue_ok:
  assumes env: "te_grants (oe_tick env)" "0 < n" and q: "queue_new (oe_tick env) hash n budget = (Inr q, left)"
    and saved: "length saved \<le> n" and cap: "reserved_vec (oe_tick env) (oe_saved_size env) (length saved) budget' = (Inr c, left')"
  shows "\<exists>ids. insert_saved hash (tq_identities q) saved = Some ids \<and> queue_ok n (q\<lparr>tq_identities := ids, tq_pending := Some (saved, c)\<rparr>) \<and>
    sched_values (tq_heap q) = [] \<and>
    left + left' + queue_heap_bytes env (q\<lparr>tq_identities := ids, tq_pending := Some (saved, c)\<rparr>) = budget + budget'"
proof -
  note new = queue_new_ok [OF env q]
  obtain h l1 where ids: "identities_new (oe_tick env) n l1 = (Inr (tq_identities q), left)"
    using q by (auto simp: queue_new_def bind_b_Inr)
  note ok = identities_new_ok [OF env ids, of hash]
  obtain ids where "insert_identities hash (tq_identities q) (map saved_identity saved) = Some ids" "ids_ok hash ids"
      "ids_set ids = saved_identity ` set saved" "length (is_slots ids) = length (is_slots (tq_identities q))"
      "is_capacity ids = is_capacity (tq_identities q)"
    using insert_identities_ok [of hash "tq_identities q" "map saved_identity saved"] ok saved env(2) by auto
  then show ?thesis using new ok saved env(2) reserved_vec_Inr [OF env(1) cap]
    by (auto simp: insert_saved_eq queue_ok_iff pending_ticks_def queue_heap_bytes_def identities_heap_bytes_def)
qed

primrec domain_saved :: "TickDomain \<Rightarrow> SavedTick list \<Rightarrow> SavedTick list \<Rightarrow> SavedTick list" where
  "domain_saved BlockDomain blocks fluids = blocks"
| "domain_saved FluidDomain blocks fluids = fluids"

text \<open>The chunk a load inserts: the saved ticks of the chunk are pending, the heaps are empty.\<close>

definition loaded_chunk :: "ChunkAddress \<Rightarrow> SavedTick list \<Rightarrow> SavedTick list \<Rightarrow> ChunkQueues \<Rightarrow> bool" where
  "loaded_chunk a blocks fluids c \<longleftrightarrow> ck_address c = a \<and>
    (\<forall>d. pending_ticks (chunk_queue d c) = filter (\<lambda>t. tick_chunk (sv_position t) = a) (domain_saved d blocks fluids) \<and>
      sched_values (tq_heap (chunk_queue d c)) = [])"

lemma load_pending_chunk_ok:
  assumes ok: "owner_ok env ow" and env: "te_grants (oe_tick env)" and a: "chunk_i32 a"
  shows "\<exists>r ow'. load_pending_chunk env bh fh a blocks fluids ow = Some (r, ow') \<and> owner_ok env ow' \<and>
    (r = Inr () \<longrightarrow> (\<exists>i c left. i \<le> length (ow_chunks ow) \<and> loaded_chunk a blocks fluids c \<and> ow' = (insert_chunk i c ow)\<lparr>ow_allocated_bytes := left\<rparr>))"
proof -
  note chunks = owner_okD(1) [OF ok]
  have "sorted_wrt address_less (map ck_address (ow_chunks ow))" using chunks by (simp add: chunks_ok_def)
  then show ?thesis
  proof (cases rule: chunk_find_cases [of _ a])
    case (found i)
    then show ?thesis using ok by (simp add: load_pending_chunk_def)
  next
    case (absent i)
    let ?n = "tl_queued_per_chunk (ow_limits ow)" and ?L = "ow_limits ow"
    let ?b = "filter (\<lambda>t. tick_chunk (sv_position t) = a) blocks" and ?f = "filter (\<lambda>t. tick_chunk (sv_position t) = a) fluids"
    let ?A = "tl_allocation_bytes ?L - ow_allocated_bytes ow"
    let ?new = "bind_b (queue_new (oe_tick env) bh ?n ?A) (\<lambda>bq left1. bind_b (queue_new (oe_tick env) fh ?n left1) (\<lambda>fq left2.
        bind_b (reserved_vec (oe_tick env) (oe_saved_size env) (length ?b) left2) (\<lambda>c3 left3.
          bind_b (reserved_vec (oe_tick env) (oe_saved_size env) (length ?f) left3) (\<lambda>c4 left4. (Inr (bq, fq, c3, c4), left4)))))"
    have mem: "ow_allocated_bytes ow \<le> tl_allocation_bytes ?L" "used_bytes env ow \<le> ow_allocated_bytes ow"
      using owner_okD(5) [OF ok] by (auto simp: memory_ok_def)
    have n: "0 < ?n" using chunks by (simp add: chunks_ok_def)
    have sub: "checked_sub (tl_allocation_bytes ?L) (ow_allocated_bytes ow) = Some ?A" using mem by (simp add: checked_sub_def)
    let ?full = "length ?b > ?n \<or> length ?f > ?n \<or> length ?b > nat I32_MAX \<or> length ?f > nat I32_MAX"
    let ?bad = "(\<exists>t \<in> set ?b. sv_type_id t \<ge> ow_block_types ow) \<or> (\<exists>t \<in> set ?f. sv_type_id t \<ge> ow_fluid_types ow)"
    have "(\<exists>e left. ?new = (Inl e, left)) \<or> (\<exists>bq fq c3 c4 left. ?new = (Inr (bq, fq, c3, c4), left))"
      by (cases ?new; cases "fst ?new") auto
    then consider "length (ow_chunks ow) = tl_max_chunks ?L" | "length (ow_chunks ow) \<noteq> tl_max_chunks ?L" ?full
      | "length (ow_chunks ow) \<noteq> tl_max_chunks ?L" "\<not> ?full" ?bad
      | e left where "length (ow_chunks ow) \<noteq> tl_max_chunks ?L" "\<not> ?full" "\<not> ?bad" "?new = (Inl e, left)"
      | (built) bq fq c3 c4 left where "length (ow_chunks ow) \<noteq> tl_max_chunks ?L" "\<not> ?full" "\<not> ?bad" "?new = (Inr (bq, fq, c3, c4), left)"
      by blast
    then show ?thesis
    proof cases
      case built
      obtain l1 l2 l3 where q: "queue_new (oe_tick env) bh ?n ?A = (Inr bq, l1)" "queue_new (oe_tick env) fh ?n l1 = (Inr fq, l2)"
          "reserved_vec (oe_tick env) (oe_saved_size env) (length ?b) l2 = (Inr c3, l3)"
          "reserved_vec (oe_tick env) (oe_saved_size env) (length ?f) l3 = (Inr c4, left)"
        using built(4) by (auto simp: bind_b_Inr)
      have small: "length ?b \<le> ?n" "length ?f \<le> ?n" using built(2) by auto
      obtain bi where bi: "insert_saved bh (tq_identities bq) ?b = Some bi" "queue_ok ?n (bq\<lparr>tq_identities := bi, tq_pending := Some (?b, c3)\<rparr>)"
          "sched_values (tq_heap bq) = []" "l1 + l3 + queue_heap_bytes env (bq\<lparr>tq_identities := bi, tq_pending := Some (?b, c3)\<rparr>) = ?A + l2"
        using load_queue_ok [OF env n q(1) small(1) q(3)] by blast
      obtain fi where fi: "insert_saved fh (tq_identities fq) ?f = Some fi" "queue_ok ?n (fq\<lparr>tq_identities := fi, tq_pending := Some (?f, c4)\<rparr>)"
          "sched_values (tq_heap fq) = []" "l2 + left + queue_heap_bytes env (fq\<lparr>tq_identities := fi, tq_pending := Some (?f, c4)\<rparr>) = l1 + l3"
        using load_queue_ok [OF env n q(2) small(2) q(4)] by blast
      let ?c = "\<lparr>ck_address = a, ck_registered = False, ck_eligible = False, ck_blocks = bq\<lparr>tq_identities := bi, tq_pending := Some (?b, c3)\<rparr>,
          ck_fluids = fq\<lparr>tq_identities := fi, tq_pending := Some (?f, c4)\<rparr>\<rparr>"
      have "queue_ok ?n (chunk_queue d ?c) \<and> placed a (chunk_queue d ?c)" for d using bi fi by (cases d) (simp_all add: placed_def)
      then have cok: "chunk_ok ?n ?c" using a by (simp add: chunk_ok_def)
      have bytes: "used_bytes env ow + chunk_heap_bytes env ?c \<le> tl_allocation_bytes ?L - left"
        using bi(4) fi(4) mem unfolding chunk_heap_bytes_def by simp
      have room: "length (ow_chunks ow) < tl_max_chunks ?L" using chunks built(1) by (simp add: chunks_ok_def)
      have "owner_ok env ((insert_chunk i ?c ow)\<lparr>ow_allocated_bytes := tl_allocation_bytes ?L - left\<rparr>)"
        by (rule owner_ok_insert [OF ok cok room]) (use absent bytes in simp_all)
      moreover have "load_pending_chunk env bh fh a blocks fluids ow =
          Some (Inr (), (insert_chunk i ?c ow)\<lparr>ow_allocated_bytes := tl_allocation_bytes ?L - left\<rparr>)"
        using absent(1) sub bi(1) fi(1) unfolding load_pending_chunk_def Let_def if_not_P [OF built(1)] if_not_P [OF built(2)] if_not_P [OF built(3)]
        by (simp only: sum.case if_not_P [OF built(1)] if_not_P [OF built(2)] if_not_P [OF built(3)] built(4) bind.bind_lunit prod.case)
      moreover have "loaded_chunk a blocks fluids ?c"
      proof -
        have "pending_ticks (chunk_queue d ?c) = filter (\<lambda>t. tick_chunk (sv_position t) = a) (domain_saved d blocks fluids) \<and>
            sched_values (tq_heap (chunk_queue d ?c)) = []" for d using bi(3) fi(3) by (cases d) (simp_all add: pending_ticks_def)
        then show ?thesis by (simp add: loaded_chunk_def)
      qed
      ultimately show ?thesis using absent(2) by blast
    qed (use absent(1) sub ok in \<open>simp_all add: load_pending_chunk_def Let_def\<close>)
  qed
qed

end
