(* ===== verification/TickAreas.thy ===== *)
theory TickAreas
  imports TickOwner
begin

text \<open>
  The area operations of \<open>ScheduledTickOwner\<close>, \<^verbatim>\<open>src/world/ticks.rs\<close>: clearing the ticks of a box,
  and copying a fixed snapshot of them, from the same owner or from another one, to an offset.
\<close>

section \<open>Clearing\<close>

text \<open>The predicate of \<open>remove_if\<close> takes the identity of every tick it accepts out of the table.\<close>

definition clear_visit :: "TickBounds \<Rightarrow> tick_hasher \<Rightarrow> (ScheduledTick, Identities option) visitor" where
  "clear_visit bounds hash tick ids =
    (if bounds_contains bounds (st_position tick)
     then (True, Option.bind ids (\<lambda>ids. identities_remove hash ids (identity tick))) else (False, ids))"

definition clear_chunk :: "TickDomain \<Rightarrow> TickBounds \<Rightarrow> nat \<Rightarrow> ScheduledTickOwner \<Rightarrow> (nat \<times> ScheduledTickOwner) option" where
  "clear_chunk domain bounds i ow =
    (let c = ow_chunks ow ! i in
     if \<not> ck_registered c \<or> \<not> contains_chunk bounds (ck_address c) then Some (0, ow)
     else do {
       let q = chunk_queue domain c;
       (n, h, ids) \<leftarrow> remove_if (clear_visit bounds (tq_hash q)) (tq_heap q) (Some (tq_identities q));
       ids \<leftarrow> ids;
       let ow = set_chunk i (chunk_set_queue domain (q\<lparr>tq_heap := h, tq_identities := ids\<rparr>) c) ow;
       let key = packed_chunk (ck_address c);
       (if scheduled_peek (tq_heap q) = scheduled_peek h then Some (n, ow)
        else (case scheduled_peek h of
            Some tick \<Rightarrow> map_option (Pair n) (put_timeline domain key (st_trigger_tick tick) ow)
          | None \<Rightarrow> map_option (\<lambda>(old, idx). (n, set_timeline domain idx ow)) (index_remove (timeline domain ow) key)))
     })"

fun clear_chunks :: "TickDomain \<Rightarrow> TickBounds \<Rightarrow> nat list \<Rightarrow> nat \<Rightarrow> ScheduledTickOwner \<Rightarrow> (nat \<times> ScheduledTickOwner) option" where
  "clear_chunks domain bounds [] removed ow = Some (removed, ow)"
| "clear_chunks domain bounds (i # is) removed ow =
    (case clear_chunk domain bounds i ow of
       None \<Rightarrow> None
     | Some (n, ow') \<Rightarrow> clear_chunks domain bounds is (removed + n) ow')"

text \<open>The closure of \<open>retain\<close>: the position counts the ticks looked at, the cursor the returned ones kept.\<close>

fun retain_selected ::
  "TickBounds \<Rightarrow> tick_hasher \<Rightarrow> nat \<Rightarrow> nat \<Rightarrow> ScheduledTick list \<Rightarrow> nat \<Rightarrow> nat \<Rightarrow> RemainingCounts \<Rightarrow>
   (ScheduledTick list \<times> nat \<times> nat \<times> RemainingCounts) option" where
  "retain_selected bounds hash original_cursor pos [] removed cursor remaining = Some ([], removed, cursor, remaining)"
| "retain_selected bounds hash original_cursor pos (t # ts) removed cursor remaining =
    (if \<not> bounds_contains bounds (st_position t)
     then map_option (\<lambda>(kept, r). (t # kept, r)) (retain_selected bounds hash original_cursor (pos + 1) ts removed cursor remaining)
     else if pos < original_cursor
     then Option.bind (checked_sub cursor 1) (\<lambda>cursor'.
       retain_selected bounds hash original_cursor (pos + 1) ts (removed + 1) cursor' remaining)
     else Option.bind (remaining_remove hash remaining (identity t)) (\<lambda>remaining'.
       retain_selected bounds hash original_cursor (pos + 1) ts (removed + 1) cursor remaining'))"

definition clear_area :: "TickDomain \<Rightarrow> TickBounds \<Rightarrow> ScheduledTickOwner \<Rightarrow> nat owner_result" where
  "clear_area domain bounds ow =
    (case bounds_validate bounds of
       Inl e \<Rightarrow> Some (Inl e, ow)
     | Inr u \<Rightarrow> do {
         (removed, ow) \<leftarrow> clear_chunks domain bounds [0..<length (ow_chunks ow)] 0 ow;
         (if ow_active ow = Some domain then do {
            (kept, removed, cursor, remaining) \<leftarrow>
              retain_selected bounds (ow_remaining_hash ow) (ow_cursor ow) 0 (ow_selected ow) removed (ow_cursor ow) (ow_remaining_ids ow);
            Some (Inr removed, ow\<lparr>ow_selected := kept, ow_cursor := cursor, ow_remaining_ids := remaining\<rparr>)
          } else Some (Inr removed, ow))
       })"

section \<open>Copying\<close>

definition area_ticks :: "TickDomain \<Rightarrow> TickBounds \<Rightarrow> ChunkQueues \<Rightarrow> ScheduledTick list" where
  "area_ticks domain bounds c =
    filter (\<lambda>t. bounds_contains bounds (st_position t)) (sched_values (tq_heap (chunk_queue domain c)))"

definition area_chunks :: "TickBounds \<Rightarrow> ChunkQueues list \<Rightarrow> ChunkQueues list" where
  "area_chunks bounds chunks = filter (\<lambda>c. ck_registered c \<and> contains_chunk bounds (ck_address c)) chunks"

fun checked_sum :: "nat \<Rightarrow> nat list \<Rightarrow> nat option" where
  "checked_sum acc [] = Some acc"
| "checked_sum acc (n # ns) = Option.bind (checked_add acc n) (\<lambda>t. checked_sum t ns)"

definition snapshot_count :: "ChunkQueues list \<Rightarrow> ScheduledTick list \<Rightarrow> TickDomain \<Rightarrow> TickBounds \<Rightarrow> TickError + nat" where
  "snapshot_count chunks selected domain bounds =
    (let selected_count = length (filter (\<lambda>t. bounds_contains bounds (st_position t)) selected) in
     (case checked_sum 0 (map (\<lambda>c. length (area_ticks domain bounds c)) (area_chunks bounds chunks)) of
        None \<Rightarrow> Inl AllocationBudget
      | Some queued \<Rightarrow> ok_or (checked_add selected_count queued) AllocationBudget))"

definition gather_snapshot ::
  "ChunkQueues list \<Rightarrow> ScheduledTick list \<Rightarrow> TickDomain \<Rightarrow> TickBounds \<Rightarrow> nat \<Rightarrow> TickError + SnapshotTick list" where
  "gather_snapshot chunks selected domain bounds capacity =
    bind_r (snapshot_count chunks selected domain bounds) (\<lambda>needed.
      if capacity < needed then Inl AllocationBudget
      else Inr (snapshot_of (filter (\<lambda>t. bounds_contains bounds (st_position t)) selected
             @ concat (map (area_ticks domain bounds) (area_chunks bounds chunks)))))"

definition moved_tick :: "TickPosition \<Rightarrow> int \<Rightarrow> int \<Rightarrow> ScheduledTick \<Rightarrow> ScheduledTick" where
  "moved_tick offset minimum maximum tick =
    tick\<lparr>st_position := \<lparr>tp_x = wrap_i32 (tp_x (st_position tick) + tp_x offset), tp_y = wrap_i32 (tp_y (st_position tick) + tp_y offset),
           tp_z = wrap_i32 (tp_z (st_position tick) + tp_z offset)\<rparr>,
      st_sub_tick_order := wrap_i64 (wrap_i64 (wrap_i64 (st_sub_tick_order tick - minimum) + maximum) + 1)\<rparr>"

text \<open>
  The admission loop. It updates the snapshot in place, so an error leaves the entries looked at
  moved; the result carries the snapshot, the identity table and the counts as they are then.
\<close>

type_synonym admission = "SnapshotTick list \<times> Identities \<times> nat list"

fun admit_loop ::
  "ScheduledTickOwner \<Rightarrow> TickDomain \<Rightarrow> tick_hasher \<Rightarrow> (ScheduledTick \<Rightarrow> ScheduledTick) \<Rightarrow> SnapshotTick list \<Rightarrow> SnapshotTick list \<Rightarrow>
   Identities \<Rightarrow> nat list \<Rightarrow> CopyOutcome \<Rightarrow> ((TickError + CopyOutcome) \<times> admission) option" where
  "admit_loop ow domain hash move looked [] ids counts outcome = Some (Inr outcome, looked, ids, counts)"
| "admit_loop ow domain hash move looked (entry # entries) ids counts outcome =
    (let tick = move (sn_tick entry); entry = entry\<lparr>sn_tick := tick\<rparr> in
     (case chunk_find (ow_chunks ow) (tick_chunk (st_position tick)) of
        Inl i \<Rightarrow> admit_loop ow domain hash move (looked @ [entry]) entries ids counts
                 (outcome\<lparr>co_missing_containers := co_missing_containers outcome + 1\<rparr>)
      | Inr i \<Rightarrow>
          if \<not> ck_registered (ow_chunks ow ! i)
          then admit_loop ow domain hash move (looked @ [entry]) entries ids counts
                 (outcome\<lparr>co_missing_containers := co_missing_containers outcome + 1\<rparr>)
          else if st_type_id tick \<ge> type_count domain ow then Some (Inl InvalidType, looked @ entry # entries, ids, counts)
          else do {
            let q = chunk_queue domain (ow_chunks ow ! i);
            known \<leftarrow> identities_contains (tq_hash q) (tq_identities q) (identity tick);
            copied \<leftarrow> (if known then Some True else identities_contains hash ids (identity tick));
            (if copied
             then admit_loop ow domain hash move (looked @ [entry]) entries ids counts
                    (outcome\<lparr>co_duplicates := co_duplicates outcome + 1\<rparr>)
             else if i \<ge> length counts then None
             else if queue_count q + counts ! i \<ge> tl_queued_per_chunk (ow_limits ow)
             then Some (Inl QueueFull, looked @ entry # entries, ids, counts)
             else do {
               ids \<leftarrow> identities_insert hash ids (identity tick);
               admit_loop ow domain hash move (looked @ [entry\<lparr>sn_admitted := True\<rparr>]) entries ids (counts[i := counts ! i + 1])
                 (outcome\<lparr>co_added := co_added outcome + 1\<rparr>)
             })
          }))"

fun schedule_admitted :: "TickDomain \<Rightarrow> SnapshotTick list \<Rightarrow> ScheduledTickOwner \<Rightarrow> ScheduledTickOwner option" where
  "schedule_admitted domain [] ow = Some ow"
| "schedule_admitted domain (entry # entries) ow =
    (if sn_admitted entry
     then (case registered ow (tick_chunk (st_position (sn_tick entry))) of
         Inl e \<Rightarrow> None
       | Inr i \<Rightarrow>
           (case schedule_created domain i (sn_tick entry) ow of
              Some (Inr Added, ow) \<Rightarrow> schedule_admitted domain entries ow
            | _ \<Rightarrow> None))
     else schedule_admitted domain entries ow)"

definition commit_copy :: "TickDomain \<Rightarrow> TickPosition \<Rightarrow> ScheduledTickOwner \<Rightarrow> CopyOutcome owner_result" where
  "commit_copy domain offset ow =
    (let orders = map (\<lambda>e. st_sub_tick_order (sn_tick e)) (ow_scratch ow) in
     if orders = [] then Some (Inr no_copy, ow)
     else
       (case ow_copy_ids ow of
          None \<Rightarrow> None
        | Some (ids, hash) \<Rightarrow>
            (case admit_loop ow domain hash (moved_tick offset (Min (set orders)) (Max (set orders))) [] (ow_scratch ow)
                    (identities_clear ids) (map (\<lambda>n. 0) (ow_copy_counts ow)) no_copy of
               None \<Rightarrow> None
             | Some (Inl e, snapshot, ids, counts) \<Rightarrow>
                 Some (Inl e, ow\<lparr>ow_scratch := snapshot, ow_copy_ids := Some (ids, hash), ow_copy_counts := counts\<rparr>)
             | Some (Inr outcome, snapshot, ids, counts) \<Rightarrow> do {
                 ow \<leftarrow> schedule_admitted domain snapshot (ow\<lparr>ow_copy_counts := counts\<rparr>);
                 Some (Inr outcome, ow\<lparr>ow_copy_ids := Some (identities_clear ids, hash), ow_scratch := []\<rparr>)
               })))"

definition phase_ticks :: "TickDomain \<Rightarrow> ScheduledTickOwner \<Rightarrow> ScheduledTick list" where
  "phase_ticks domain ow = (if ow_active ow = Some domain then ow_selected ow else [])"

text \<open>\<open>copy_area_from\<close>; \<open>copy_area\<close> is the case where the source is the owner itself.\<close>

definition copy_area_from ::
  "owner_env \<Rightarrow> tick_hasher \<Rightarrow> ScheduledTickOwner \<Rightarrow> TickDomain \<Rightarrow> TickBounds \<Rightarrow> TickPosition \<Rightarrow> ScheduledTickOwner \<Rightarrow>
   CopyOutcome owner_result" where
  "copy_area_from env hash source domain bounds offset ow =
    (case bind_r (bounds_validate bounds) (\<lambda>u. snapshot_count (ow_chunks source) (phase_ticks domain source) domain bounds) of
       Inl e \<Rightarrow> Some (Inl e, ow)
     | Inr needed \<Rightarrow> do {
         (r, ow) \<leftarrow> ensure_operation_scratch env hash needed True ow;
         (case r of
            Inl e \<Rightarrow> Some (Inl e, ow)
          | Inr u \<Rightarrow>
              (case gather_snapshot (ow_chunks source) (phase_ticks domain source) domain bounds (ow_scratch_capacity ow) of
                 Inl e \<Rightarrow> Some (Inl e, ow\<lparr>ow_scratch := []\<rparr>)
               | Inr snapshot \<Rightarrow> commit_copy domain offset (ow\<lparr>ow_scratch := snapshot\<rparr>)))
       })"

definition copy_area ::
  "owner_env \<Rightarrow> tick_hasher \<Rightarrow> TickDomain \<Rightarrow> TickBounds \<Rightarrow> TickPosition \<Rightarrow> ScheduledTickOwner \<Rightarrow> CopyOutcome owner_result" where
  "copy_area env hash domain bounds offset ow = copy_area_from env hash ow domain bounds offset ow"

end
