(* ===== verification/TickOwnerScratch.thy ===== *)
theory TickOwnerScratch
  imports TickOwnerChunks TickAreas
begin

text \<open>
  The working memory of the rare operations, the packing of a chunk that uses it, and the construction
  of the owner.
\<close>

section \<open>Scratch\<close>

text \<open>An owner with its scratch fields replaced.\<close>

definition with_scratch ::
  "SnapshotTick list \<Rightarrow> nat \<Rightarrow> (Identities \<times> tick_hasher) option \<Rightarrow> nat \<Rightarrow> nat list \<Rightarrow> nat \<Rightarrow> nat \<Rightarrow> ScheduledTickOwner \<Rightarrow> ScheduledTickOwner" where
  "with_scratch s sc ids ic counts cc a ow = ow\<lparr>ow_scratch := s, ow_scratch_capacity := sc, ow_copy_ids := ids, ow_copy_capacity := ic,
     ow_copy_counts := counts, ow_copy_counts_capacity := cc, ow_allocated_bytes := a\<rparr>"

lemma with_scratch_simps [simp]:
  "timeline d (with_scratch s sc ids ic counts cc a ow) = timeline d ow" "ow_limits (with_scratch s sc ids ic counts cc a ow) = ow_limits ow"
  "ow_chunks (with_scratch s sc ids ic counts cc a ow) = ow_chunks ow" "ow_scratch (with_scratch s sc ids ic counts cc a ow) = s"
  "ow_scratch_capacity (with_scratch s sc ids ic counts cc a ow) = sc" "ow_copy_ids (with_scratch s sc ids ic counts cc a ow) = ids"
  "ow_copy_capacity (with_scratch s sc ids ic counts cc a ow) = ic" "ow_copy_counts (with_scratch s sc ids ic counts cc a ow) = counts"
  "ow_copy_counts_capacity (with_scratch s sc ids ic counts cc a ow) = cc" "ow_allocated_bytes (with_scratch s sc ids ic counts cc a ow) = a"
  "ow_active (with_scratch s sc ids ic counts cc a ow) = ow_active ow" "ow_selected (with_scratch s sc ids ic counts cc a ow) = ow_selected ow"
  "phase_ok (with_scratch s sc ids ic counts cc a ow) = phase_ok ow" "ready_idle (with_scratch s sc ids ic counts cc a ow) = ready_idle ow"
  "index_fits (with_scratch s sc ids ic counts cc a ow) x = index_fits ow x"
  by (cases d; simp add: with_scratch_def phase_ok_def ready_idle_def index_fits_def)+

definition ids_bytes :: "owner_env \<Rightarrow> (Identities \<times> tick_hasher) option \<Rightarrow> nat" where
  "ids_bytes env ids = (case ids of None \<Rightarrow> 0 | Some (t, h) \<Rightarrow> identities_heap_bytes (oe_tick env) t)"

lemma scratch_bytes_eq: "scratch_bytes env ow = ow_scratch_capacity ow * oe_snapshot_size env + ids_bytes env (ow_copy_ids ow) + ow_copy_counts_capacity ow * USIZE_BYTES"
  by (simp add: scratch_bytes_def ids_bytes_def)

lemma owner_ok_with_scratch:
  assumes "owner_ok env ow" "case ids of None \<Rightarrow> ic = 0 | Some (t, h) \<Rightarrow> ids_ok h t \<and> ic < length (is_slots t)" "a \<le> tl_allocation_bytes (ow_limits ow)"
    "used_bytes env ow + (sc * oe_snapshot_size env + ids_bytes env ids + cc * USIZE_BYTES) \<le> a + scratch_bytes env ow"
  shows "owner_ok env (with_scratch s sc ids ic counts cc a ow)"
proof -
  let ?ow = "with_scratch s sc ids ic counts cc a ow"
  have "timeline_ok d ?ow" for d using owner_okD(2) [OF assms(1), of d] by (simp add: timeline_ok_def)
  moreover have "scratch_ok ?ow" using assms(2) by (simp add: scratch_ok_def cong: option.case_cong prod.case_cong)
  moreover have "memory_ok env ?ow" using assms(3,4) by (simp add: memory_ok_def used_bytes_def scratch_bytes_eq)
  ultimately show ?thesis using owner_okD(1,3,4) [OF assms(1)] by (simp add: owner_ok_def)
qed

lemma grow_Inr:
  "(if P then bind_b m (\<lambda>c left. (Inr (Some c), left)) else (Inr None, b)) = (Inr r, l) \<longleftrightarrow>
    (if P then \<exists>c. r = Some c \<and> m = (Inr c, l) else r = None \<and> l = b)"
  by (auto simp: bind_b_Inr)

text \<open>What the area operations and \<open>pack_chunk\<close> get from it.\<close>

definition scratch_ready :: "nat \<Rightarrow> bool \<Rightarrow> ScheduledTickOwner \<Rightarrow> bool" where
  "scratch_ready needed copying ow \<longleftrightarrow> needed \<le> ow_scratch_capacity ow \<and>
    (copying \<longrightarrow> (\<exists>ids h. ow_copy_ids ow = Some (ids, h)) \<and> needed \<le> ow_copy_capacity ow \<and> length (ow_copy_counts ow) = length (ow_chunks ow))"

definition scratch_frame :: "ScheduledTickOwner \<Rightarrow> ScheduledTickOwner \<Rightarrow> bool" where
  "scratch_frame ow ow' \<longleftrightarrow> (\<exists>s sc ids ic counts cc a. ow' = with_scratch s sc ids ic counts cc a ow)"

lemma scratch_frame_refl [simp]: "scratch_frame ow ow"
  unfolding scratch_frame_def
  by (rule exI [of _ "ow_scratch ow"], rule exI [of _ "ow_scratch_capacity ow"], rule exI [of _ "ow_copy_ids ow"], rule exI [of _ "ow_copy_capacity ow"],
      rule exI [of _ "ow_copy_counts ow"], rule exI [of _ "ow_copy_counts_capacity ow"], rule exI [of _ "ow_allocated_bytes ow"])
    (simp add: with_scratch_def)

lemma ensure_scratch_ok:
  assumes ok: "owner_ok env ow" and env: "te_grants (oe_tick env)"
  shows "\<exists>r ow'. ensure_operation_scratch env hash needed copying ow = Some (r, ow') \<and> owner_ok env ow' \<and> scratch_frame ow ow' \<and>
    (r = Inr () \<longrightarrow> needed = 0 \<or> scratch_ready needed copying ow')"
proof -
  let ?T = "tl_allocation_bytes (ow_limits ow)" and ?A = "ow_allocated_bytes ow"
  let ?new = "bind_b
      (if needed > ow_scratch_capacity ow
       then bind_b (reserved_vec (oe_tick env) (oe_snapshot_size env) needed (?T - ?A)) (\<lambda>c left. (Inr (Some c), left))
       else (Inr None, ?T - ?A)) (\<lambda>replacement left1.
    bind_b
      (if copying \<and> needed > ow_copy_capacity ow
       then bind_b (identities_new (oe_tick env) needed left1) (\<lambda>ids left. (Inr (Some ids), left))
       else (Inr None, left1)) (\<lambda>identities left2.
    bind_b
      (if copying \<and> length (ow_chunks ow) > ow_copy_counts_capacity ow
       then bind_b (reserved_vec (oe_tick env) USIZE_BYTES (length (ow_chunks ow)) left2) (\<lambda>c left. (Inr (Some c), left))
       else (Inr None, left2)) (\<lambda>counts left3.
    (Inr (replacement, identities, counts), left3))))"
  have mem: "?A \<le> ?T" "used_bytes env ow \<le> ?A" using owner_okD(5) [OF ok] by (auto simp: memory_ok_def)
  have sub: "checked_sub ?T ?A = Some (?T - ?A)" using mem by (simp add: checked_sub_def)
  have "(\<exists>e left. ?new = (Inl e, left)) \<or> (\<exists>rp ids cn left. ?new = (Inr (rp, ids, cn), left))" by (cases ?new; cases "fst ?new") auto
  then consider "needed > ow_scratch_limit ow" | "\<not> needed > ow_scratch_limit ow" "needed = 0"
    | e left where "\<not> needed > ow_scratch_limit ow" "needed \<noteq> 0" "?new = (Inl e, left)"
    | (built) rp ids cn left where "\<not> needed > ow_scratch_limit ow" "needed \<noteq> 0" "?new = (Inr (rp, ids, cn), left)"
    by blast
  then show ?thesis
  proof cases
    case built
    obtain l1 l2 where rp: "if needed > ow_scratch_capacity ow then \<exists>c. rp = Some c \<and> reserved_vec (oe_tick env) (oe_snapshot_size env) needed (?T - ?A) = (Inr c, l1)
          else rp = None \<and> l1 = ?T - ?A"
        and ids: "if copying \<and> needed > ow_copy_capacity ow then \<exists>c. ids = Some c \<and> identities_new (oe_tick env) needed l1 = (Inr c, l2) else ids = None \<and> l2 = l1"
        and cn: "if copying \<and> length (ow_chunks ow) > ow_copy_counts_capacity ow
          then \<exists>c. cn = Some c \<and> reserved_vec (oe_tick env) USIZE_BYTES (length (ow_chunks ow)) l2 = (Inr c, left) else cn = None \<and> left = l2"
      using built(3) unfolding bind_b_Inr grow_Inr by blast
    let ?s = "case rp of None \<Rightarrow> ow_scratch ow | Some c \<Rightarrow> []" and ?sc = "case rp of None \<Rightarrow> ow_scratch_capacity ow | Some c \<Rightarrow> c"
    let ?ci = "case ids of None \<Rightarrow> ow_copy_ids ow | Some t \<Rightarrow> Some (t, hash)" and ?ic = "case ids of None \<Rightarrow> ow_copy_capacity ow | Some t \<Rightarrow> needed"
    let ?cs0 = "case cn of None \<Rightarrow> ow_copy_counts ow | Some c \<Rightarrow> []" and ?cc = "case cn of None \<Rightarrow> ow_copy_counts_capacity ow | Some c \<Rightarrow> c"
    let ?n = "length (ow_chunks ow)"
    let ?cs = "if copying then take ?n ?cs0 @ replicate (?n - length ?cs0) 0 else ?cs0"
    let ?freed = "(case rp of None \<Rightarrow> 0 | Some c \<Rightarrow> ow_scratch_capacity ow * oe_snapshot_size env)
        + (case ids of None \<Rightarrow> 0 | Some t \<Rightarrow> ids_bytes env (ow_copy_ids ow)) + (case cn of None \<Rightarrow> 0 | Some c \<Rightarrow> ow_copy_counts_capacity ow * USIZE_BYTES)"
    let ?a = "?T - left - ?freed"
    have b1: "l1 + ?sc * oe_snapshot_size env + (case rp of None \<Rightarrow> 0 | Some c \<Rightarrow> ow_scratch_capacity ow * oe_snapshot_size env) =
        ?T - ?A + ow_scratch_capacity ow * oe_snapshot_size env \<and> needed \<le> ?sc"
      using rp reserved_vec_Inr [OF env] by (fastforce split: if_splits)
    have b2: "l2 + ids_bytes env ?ci + (case ids of None \<Rightarrow> 0 | Some t \<Rightarrow> ids_bytes env (ow_copy_ids ow)) = l1 + ids_bytes env (ow_copy_ids ow)"
        "copying \<longrightarrow> needed \<le> ?ic" "case ?ci of None \<Rightarrow> ?ic = 0 | Some (t, h) \<Rightarrow> ids_ok h t \<and> ?ic < length (is_slots t)"
    proof (atomize(full), cases "copying \<and> needed > ow_copy_capacity ow")
      case True
      then obtain t where t: "ids = Some t" "identities_new (oe_tick env) needed l1 = (Inr t, l2)" using ids by auto
      from identities_new_ok [OF env _ t(2), of hash] built(2) t(1)
      show "(l2 + ids_bytes env ?ci + (case ids of None \<Rightarrow> 0 | Some t \<Rightarrow> ids_bytes env (ow_copy_ids ow)) = l1 + ids_bytes env (ow_copy_ids ow)) \<and>
        (copying \<longrightarrow> needed \<le> ?ic) \<and> (case ?ci of None \<Rightarrow> ?ic = 0 | Some (t, h) \<Rightarrow> ids_ok h t \<and> ?ic < length (is_slots t))"
        by (auto simp: ids_bytes_def)
    next
      case False
      then have "ids = None" "l2 = l1" "copying \<longrightarrow> needed \<le> ow_copy_capacity ow" using ids by (auto simp only: if_False split: if_splits)
      then show "(l2 + ids_bytes env ?ci + (case ids of None \<Rightarrow> 0 | Some t \<Rightarrow> ids_bytes env (ow_copy_ids ow)) = l1 + ids_bytes env (ow_copy_ids ow)) \<and>
        (copying \<longrightarrow> needed \<le> ?ic) \<and> (case ?ci of None \<Rightarrow> ?ic = 0 | Some (t, h) \<Rightarrow> ids_ok h t \<and> ?ic < length (is_slots t))"
        using owner_okD(6) [OF ok] by (simp add: scratch_ok_def cong: option.case_cong prod.case_cong)
    qed
    have b3: "left + ?cc * USIZE_BYTES + (case cn of None \<Rightarrow> 0 | Some c \<Rightarrow> ow_copy_counts_capacity ow * USIZE_BYTES) = l2 + ow_copy_counts_capacity ow * USIZE_BYTES"
      using cn reserved_vec_Inr [OF env] by (fastforce split: if_splits)
    let ?ow = "with_scratch ?s ?sc ?ci ?ic ?cs ?cc ?a ow"
    have total: "left + (?sc * oe_snapshot_size env + ids_bytes env ?ci + ?cc * USIZE_BYTES) + ?freed = ?T - ?A + scratch_bytes env ow"
      using b1 b2(1) b3 unfolding scratch_bytes_eq by linarith
    have freed: "?freed \<le> scratch_bytes env ow" unfolding scratch_bytes_eq by (simp split: option.splits)
    have used: "scratch_bytes env ow \<le> used_bytes env ow" by (simp add: used_bytes_def)
    have "l1 \<le> ?T - ?A" using rp reserved_vec_Inr [OF env] by (fastforce split: if_splits)
    moreover have "l2 \<le> l1" using ids identities_new_ok [OF env, of needed l1 _ l2 hash] built(2) by (fastforce split: if_splits)
    moreover have "left \<le> l2" using cn reserved_vec_Inr [OF env] by (fastforce split: if_splits)
    ultimately have left: "left \<le> ?T - ?A" by linarith
    have "owner_ok env ?ow"
      by (rule owner_ok_with_scratch [OF ok b2(3)]) (use total freed used left mem in linarith)+
    moreover have "ensure_operation_scratch env hash needed copying ow = Some (Inr (), ?ow)"
    proof -
      have "checked_sub ?T left = Some (?T - left)" "checked_sub (?T - left) ?freed = Some ?a"
        using left freed used mem by (auto simp: checked_sub_def)
      then show ?thesis
        unfolding ensure_operation_scratch_def if_not_P [OF built(1)] if_not_P [OF built(2)] sub bind.bind_lunit built(3) prod.case sum.case
        by (cases rp; cases ids; cases cn) (simp_all add: with_scratch_def ids_bytes_def Let_def)
    qed
    moreover have "scratch_ready needed copying ?ow"
    proof -
      have "\<exists>t h. ?ci = Some (t, h)" if copying using b2(2,3) that built(2) by (cases ?ci) auto
      moreover have "min x n + (n - x) = n" for x n :: nat by simp
      ultimately show ?thesis using b1 b2(2) by (simp add: scratch_ready_def)
    qed
    ultimately show ?thesis unfolding scratch_frame_def by blast
  qed (use ok sub in \<open>simp_all add: ensure_operation_scratch_def\<close>)
qed

lemma release_scratch_ok:
  assumes ok: "owner_ok env ow"
  shows "\<exists>ow'. release_operation_scratch env ow = Some ow' \<and> owner_ok env ow' \<and> scratch_bytes env ow' = 0 \<and>
    ow_allocated_bytes ow' + scratch_bytes env ow = ow_allocated_bytes ow"
proof -
  let ?a = "ow_allocated_bytes ow - scratch_bytes env ow"
  let ?ow = "with_scratch [] 0 None 0 [] 0 ?a ow"
  have mem: "ow_allocated_bytes ow \<le> tl_allocation_bytes (ow_limits ow)" "used_bytes env ow \<le> ow_allocated_bytes ow"
      "scratch_bytes env ow \<le> used_bytes env ow"
    using owner_okD(5) [OF ok] by (auto simp: memory_ok_def used_bytes_def)
  have "owner_ok env ?ow" by (rule owner_ok_with_scratch [OF ok]) (use mem in \<open>auto simp: ids_bytes_def\<close>)
  moreover have "checked_sub (ow_allocated_bytes ow) (scratch_bytes env ow) = Some ?a" using mem by (simp add: checked_sub_def)
  then have "release_operation_scratch env ow = Some ?ow"
    by (simp add: release_operation_scratch_def with_scratch_def scratch_bytes_def)
  ultimately show ?thesis using mem by (intro exI [of _ ?ow]) (simp add: scratch_bytes_eq [of env ?ow] ids_bytes_def)
qed

lemma owner_ok_clear_scratch: "owner_ok env ow \<Longrightarrow> owner_ok env (ow\<lparr>ow_scratch := s\<rparr>)"
proof -
  assume ok: "owner_ok env ow"
  have "ow\<lparr>ow_scratch := s\<rparr> = with_scratch s (ow_scratch_capacity ow) (ow_copy_ids ow) (ow_copy_capacity ow) (ow_copy_counts ow)
      (ow_copy_counts_capacity ow) (ow_allocated_bytes ow) ow" by (simp add: with_scratch_def)
  moreover have "owner_ok env \<dots>"
    by (rule owner_ok_with_scratch [OF ok])
      (use owner_okD(5,6) [OF ok] in \<open>auto simp: memory_ok_def scratch_ok_def scratch_bytes_eq split: option.splits\<close>)
  ultimately show "owner_ok env (ow\<lparr>ow_scratch := s\<rparr>)" by simp
qed

lemma scratch_frame_scratch:
  assumes "scratch_frame ow ow1"
  shows "scratch_frame ow (ow1\<lparr>ow_scratch := x\<rparr>)"
proof -
  obtain s sc ids ic counts cc a where "ow1 = with_scratch s sc ids ic counts cc a ow" using assms unfolding scratch_frame_def by blast
  then have "ow1\<lparr>ow_scratch := x\<rparr> = with_scratch x sc ids ic counts cc a ow" by (simp add: with_scratch_def)
  then show ?thesis unfolding scratch_frame_def by blast
qed

section \<open>Packing\<close>

definition packed_ticks :: "int \<Rightarrow> ChunkQueue \<Rightarrow> SavedTick list" where
  "packed_ticks game_time q = pending_ticks q @ map (\<lambda>e. packed_tick game_time (sn_tick e))
     (sort_key (\<lambda>e. (st_sub_tick_order (sn_tick e), sn_sequence e)) (snapshot_of (sched_values (tq_heap q))))"

lemma pack_chunk_ok:
  assumes ok: "owner_ok env ow" and env: "te_grants (oe_tick env)"
  shows "\<exists>r ow'. pack_chunk env a d game_time out capacity ow = Some (r, ow') \<and> owner_ok env ow' \<and> scratch_frame ow ow' \<and>
    (\<forall>n out'. r = Inr (n, out') \<longrightarrow> (\<exists>i. chunk_find (ow_chunks ow) a = Inr i \<and> n = queue_count (owner_queue d i ow) \<and>
       out' = out @ packed_ticks game_time (owner_queue d i ow)))"
proof (cases "chunk_find (ow_chunks ow) a")
  case (Inl i)
  then show ?thesis using ok by (simp add: pack_chunk_def)
next
  case (Inr i)
  let ?q = "owner_queue d i ow"
  show ?thesis
  proof (cases "capacity - length out < queue_count ?q")
    case True
    then show ?thesis using Inr ok by (simp add: pack_chunk_def)
  next
    case False
    obtain r ow1 where r: "ensure_operation_scratch env (\<lambda>x. 0) (length (sched_values (tq_heap ?q))) False ow = Some (r, ow1)" "owner_ok env ow1"
        "scratch_frame ow ow1"
      using ensure_scratch_ok [OF ok env] by blast
    show ?thesis
    proof (cases r)
      case (Inl e)
      then show ?thesis using Inr False r by (simp add: pack_chunk_def Let_def)
    next
      case r': (Inr u)
      then show ?thesis using Inr False r scratch_frame_scratch [OF r(3)] owner_ok_clear_scratch [OF r(2), of "[]"]
        by (simp add: pack_chunk_def Let_def packed_ticks_def pending_ticks_def)
    qed
  qed
qed

section \<open>Construction\<close>

lemma owner_new_ok:
  assumes env: "te_grants (oe_tick env)"
  shows "\<exists>r. owner_new env sh rh bt ft limits = Some r \<and> (\<forall>ow. r = Inr ow \<longrightarrow> owner_ok env ow \<and> ow_chunks ow = [] \<and> ow_active ow = None)"
proof -
  let ?e = "oe_tick env" and ?T = "tl_allocation_bytes limits" and ?m = "tl_max_chunks limits" and ?s = "tl_selected_per_phase limits"
  have new: "\<exists>r. index_new ?e n b = Some r \<and> (\<forall>idx. r = Inr idx \<longrightarrow> index_ok idx \<and> index_map idx = Map.empty \<and> si_scan idx = None \<and>
      si_max_keys idx = n \<and> checked_sub b (index_heap_bytes idx) = Some (b - index_heap_bytes idx))" for n b
  proof -
    obtain r where r: "index_new ?e n b = Some r" "case r of Inl e \<Rightarrow> True | Inr idx \<Rightarrow> index_ok idx \<and> index_map idx = Map.empty \<and>
        si_scan idx = None \<and> si_max_keys idx = n \<and> index_heap_bytes idx \<le> b \<and> n \<le> max_fill (length (si_slots idx)) \<and>
        (INITIAL_CAPACITY < length (si_slots idx) \<longrightarrow> max_fill (length (si_slots idx) div 2) < n)"
      using index_new_ok [OF env, of n b] by blast
    then show ?thesis by (intro exI [of _ r]) (auto simp: checked_sub_def)
  qed
  let ?bad = "bt = 0 \<or> ft = 0 \<or> ?m = 0 \<or> tl_queued_per_chunk limits = 0 \<or> ?s = 0 \<or> ?s > MAX_SCHEDULED_TICKS_PER_PHASE"
  let ?m1 = "bind_b (reserved_vec ?e (oe_chunk_size env) ?m ?T) (\<lambda>c1 left1. heap_new ?e (te_ready_size ?e) ?m left1) :: (TickError + ReadyChunk Heap) \<times> nat"
  show ?thesis
  proof (cases "?bad \<or> (\<exists>e left. ?m1 = (Inl e, left))")
    case True
    then show ?thesis by (auto simp: owner_new_def)
  next
    case False
    then have valid: "\<not> ?bad" by blast
    obtain ready left2 where m1: "?m1 = (Inr ready, left2)" using False by (cases ?m1; cases "fst ?m1") auto
    obtain rb where rb: "index_new ?e ?m left2 = Some rb" "\<forall>idx. rb = Inr idx \<longrightarrow> index_ok idx \<and> index_map idx = Map.empty \<and> si_scan idx = None \<and>
        si_max_keys idx = ?m \<and> checked_sub left2 (index_heap_bytes idx) = Some (left2 - index_heap_bytes idx)" using new by blast
    show ?thesis
    proof (cases rb)
      case (Inl e)
      then show ?thesis using rb(1) m1 by (simp add: owner_new_def)
    next
      case b: (Inr bx)
      let ?left3 = "left2 - index_heap_bytes bx"
      obtain rf where rf: "index_new ?e ?m ?left3 = Some rf" "\<forall>idx. rf = Inr idx \<longrightarrow> index_ok idx \<and> index_map idx = Map.empty \<and> si_scan idx = None \<and>
          si_max_keys idx = ?m \<and> checked_sub ?left3 (index_heap_bytes idx) = Some (?left3 - index_heap_bytes idx)" using new by blast
      show ?thesis
      proof (cases rf)
        case (Inl e)
        then show ?thesis using rb b rf(1) m1 by (simp add: owner_new_def)
      next
        case f: (Inr fx)
        let ?left4 = "?left3 - index_heap_bytes fx"
        let ?m2 = "bind_b (reserved_vec ?e (te_tick_size ?e) ?s ?left4) (\<lambda>c5 left5.
            bind_b (identities_new ?e ?s left5) (\<lambda>selected_ids left6.
              bind_b (remaining_new ?e (oe_entry_size env) ?s left6) (\<lambda>remaining_ids left7. (Inr (selected_ids, remaining_ids), left7))))"
        have "(\<exists>e left. ?m2 = (Inl e, left)) \<or> (\<exists>x y left. ?m2 = (Inr (x, y), left))" by (cases ?m2; cases "fst ?m2") auto
        then show ?thesis
        proof (elim disjE exE)
          fix e left assume "?m2 = (Inl e, left)"
          then show ?thesis using rb b rf f m1 by (simp add: owner_new_def)
        next
          fix sids rids left7 assume m2: "?m2 = (Inr (sids, rids), left7)"
          then obtain left5 left6 where built: "identities_new ?e ?s left5 = (Inr sids, left6)" "remaining_new ?e (oe_entry_size env) ?s left6 = (Inr rids, left7)"
            by (auto simp: bind_b_Inr)
          have ready: "hp_values ready = []" "hp_limit ready = ?m" using m1 by (auto simp: bind_b_Inr heap_new_def)
          have pos: "0 < ?s" "?s \<le> MAX_SCHEDULED_TICKS_PER_PHASE" "0 < tl_queued_per_chunk limits" using valid by auto
          note ids = identities_new_ok [OF env pos(1) built(1), of sh] and rem = remaining_new_ok [OF env built(2), of rh]
          show ?thesis
          proof (cases "Option.bind (checked_mul ?m (tl_queued_per_chunk limits)) (\<lambda>queued. checked_add queued ?s)")
            case None
            then show ?thesis using rb b rf f m1 m2 by (simp add: owner_new_def)
          next
            case (Some cap)
            have heads: "heads d [] = Map.empty" for d by (simp add: heads_def fun_eq_iff)
            let ?ow = "\<lparr>ow_limits = limits, ow_block_types = bt, ow_fluid_types = ft,
                ow_next_sub_tick = 0, ow_chunks = [], ow_ready = ready, ow_block_index = bx,
                ow_fluid_index = fx, ow_selected = [], ow_selected_ids = sids,
                ow_selected_hash = sh, ow_remaining_ids = rids,
                ow_remaining_hash = rh, ow_scratch = [], ow_scratch_capacity = 0,
                ow_scratch_limit = cap, ow_copy_ids = None, ow_copy_capacity = 0,
                ow_copy_counts = [], ow_copy_counts_capacity = 0, ow_cursor = 0, ow_active = None,
                ow_allocated_bytes = ?T - left7\<rparr>"
            have "timeline_ok d ?ow" for d using rb(2) rf(2) b f heads by (cases d) (simp_all add: timeline_ok_def index_fits_def)
            moreover have "phase_ok ?ow" using ids rem pos by (auto simp: phase_ok_def ids_ok_def)
            moreover have "chunks_ok limits []" "memory_ok env ?ow" "scratch_ok ?ow" "ready_idle ?ow"
              using pos ready by (simp_all add: chunks_ok_def memory_ok_def used_bytes_def scratch_bytes_def scratch_ok_def ready_idle_def)
            ultimately have "owner_ok env ?ow" by (simp add: owner_ok_def)
            moreover have "owner_new env sh rh bt ft limits = Some (Inr ?ow)"
              using rb b rf f m1 m2 valid Some by (simp add: owner_new_def)
            ultimately show ?thesis by simp
          qed
        qed
      qed
    qed
  qed
qed

end
