(* ===== verification/TickPhaseOps.thy ===== *)
theory TickPhaseOps
  imports TickOwnerScratch
begin

text \<open>
  The operations on the ticks of a running phase: \<open>next_due\<close>, \<open>will_tick_this_phase\<close> and \<open>finish_phase\<close>.
\<close>

section \<open>The fields of a phase\<close>

definition with_phase ::
  "ScheduledTick list \<Rightarrow> nat \<Rightarrow> TickDomain option \<Rightarrow> Identities \<Rightarrow> RemainingCounts \<Rightarrow> ScheduledTickOwner \<Rightarrow> ScheduledTickOwner" where
  "with_phase sel cur act ids rem ow = ow\<lparr>ow_selected := sel, ow_cursor := cur, ow_active := act, ow_selected_ids := ids, ow_remaining_ids := rem\<rparr>"

lemma with_phase_simps [simp]:
  "timeline d (with_phase sel cur act ids rem ow) = timeline d ow" "ow_limits (with_phase sel cur act ids rem ow) = ow_limits ow"
  "ow_chunks (with_phase sel cur act ids rem ow) = ow_chunks ow" "ow_ready (with_phase sel cur act ids rem ow) = ow_ready ow"
  "ow_selected (with_phase sel cur act ids rem ow) = sel" "ow_cursor (with_phase sel cur act ids rem ow) = cur"
  "ow_active (with_phase sel cur act ids rem ow) = act" "ow_selected_ids (with_phase sel cur act ids rem ow) = ids"
  "ow_remaining_ids (with_phase sel cur act ids rem ow) = rem" "ow_selected_hash (with_phase sel cur act ids rem ow) = ow_selected_hash ow"
  "ow_remaining_hash (with_phase sel cur act ids rem ow) = ow_remaining_hash ow"
  "memory_ok env (with_phase sel cur act ids rem ow) = memory_ok env ow" "scratch_ok (with_phase sel cur act ids rem ow) = scratch_ok ow"
  "ready_idle (with_phase sel cur act ids rem ow) = ready_idle ow" "index_fits (with_phase sel cur act ids rem ow) x = index_fits ow x"
  "timeline_ok d (with_phase sel cur act ids rem ow) = timeline_ok d ow"
  by (cases d; simp add: with_phase_def memory_ok_def used_bytes_def scratch_bytes_def scratch_ok_def ready_idle_def index_fits_def timeline_ok_def
      cong: option.case_cong prod.case_cong)+

lemma owner_ok_with_phase: "owner_ok env ow \<Longrightarrow> phase_ok (with_phase sel cur act ids rem ow) \<Longrightarrow> owner_ok env (with_phase sel cur act ids rem ow)"
  by (simp add: owner_ok_def)

text \<open>The counters hold the identities of a list of ticks.\<close>

definition counts_ticks :: "tick_hasher \<Rightarrow> RemainingCounts \<Rightarrow> ScheduledTick list \<Rightarrow> bool" where
  "counts_ticks hash rem ticks \<longleftrightarrow> rm_ok hash rem \<and> (\<forall>x. rm_count rem x = count_list (map identity ticks) x)"

lemma phase_ok_iff:
  "phase_ok ow \<longleftrightarrow> ow_cursor ow \<le> length (ow_selected ow) \<and> length (ow_selected ow) \<le> tl_selected_per_phase (ow_limits ow) \<and>
    tl_selected_per_phase (ow_limits ow) \<le> MAX_SCHEDULED_TICKS_PER_PHASE \<and>
    counts_ticks (ow_remaining_hash ow) (ow_remaining_ids ow) (drop (ow_cursor ow) (ow_selected ow)) \<and>
    rm_limit (ow_remaining_ids ow) = tl_selected_per_phase (ow_limits ow) \<and>
    ids_ok (ow_selected_hash ow) (ow_selected_ids ow) \<and> tl_selected_per_phase (ow_limits ow) < length (is_slots (ow_selected_ids ow)) \<and>
    (ow_active ow = None \<longrightarrow> ow_selected ow = [] \<and> ow_cursor ow = 0 \<and> is_count (ow_selected_ids ow) = 0)"
  by (auto simp: phase_ok_def counts_ticks_def)

lemma counts_remove:
  assumes "counts_ticks hash rem ticks" "i < length ticks"
  shows "\<exists>rem'. remaining_remove hash rem (identity (ticks ! i)) = Some rem' \<and> counts_ticks hash rem' (take i ticks @ drop (Suc i) ticks) \<and>
    rm_limit rem' = rm_limit rem"
proof -
  have ok: "rm_ok hash rem" using assms(1) by (simp add: counts_ticks_def)
  obtain rem' where r: "remaining_remove hash rem (identity (ticks ! i)) = Some rem'" "rm_ok hash rem'"
      "rm_count rem' = (rm_count rem)(identity (ticks ! i) := rm_count rem (identity (ticks ! i)) - 1)" "rm_limit rem' = rm_limit rem"
    using rm_remove_ok [OF ok, of "identity (ticks ! i)"] by blast
  have split: "map identity ticks = map identity (take i ticks) @ identity (ticks ! i) # map identity (drop (Suc i) ticks)"
    using id_take_nth_drop [OF assms(2)] by (metis list.simps(9) map_append)
  have "rm_count rem' x = count_list (map identity (take i ticks @ drop (Suc i) ticks)) x" for x
    using assms(1) unfolding r(3) counts_ticks_def split by (auto simp: count_list_append)
  then show ?thesis using r by (simp add: counts_ticks_def)
qed

lemma length_count_le: "(\<forall>x. n x = count_list xs x) \<Longrightarrow> distinct ys \<Longrightarrow> set ys = {x. 0 < n x} \<Longrightarrow> length ys \<le> length xs"
proof -
  assume a: "\<forall>x. n x = count_list xs x" "distinct ys" "set ys = {x. 0 < n x}"
  have "set ys = set xs" using a(1,3) by (auto simp: count_list_0_iff zero_less_iff_neq_zero)
  then show "length ys \<le> length xs" using a(2) by (metis card_length distinct_card)
qed

lemma counts_entries:
  assumes "counts_ticks hash rem ticks"
  shows "distinct (remaining_identities rem) \<and> set (remaining_identities rem) = identity ` set ticks \<and> length (rm_entries rem) \<le> length ticks"
proof -
  have ok: "rm_ok hash rem" using assms by (simp add: counts_ticks_def)
  have d: "distinct (remaining_identities rem)" using ok by (simp add: rm_ok_def rm_shape_def remaining_identities_def)
  note pos = identities_positive [OF ok]
  have "length (remaining_identities rem) \<le> length (map identity ticks)"
    by (rule length_count_le [OF _ d pos]) (use assms in \<open>simp add: counts_ticks_def\<close>)
  moreover have "set (remaining_identities rem) = identity ` set ticks"
    unfolding pos using assms by (simp add: counts_ticks_def count_list_0_iff zero_less_iff_neq_zero flip: set_map)
  ultimately show ?thesis using d by (simp add: remaining_identities_def)
qed

lemma counts_add:
  assumes "counts_ticks hash rem ticks" "length ticks < rm_limit rem" "rm_limit rem \<le> MAX_SCHEDULED_TICKS_PER_PHASE"
  shows "\<exists>rem'. remaining_add hash rem (identity t) = Some rem' \<and> counts_ticks hash rem' (ticks @ [t]) \<and> rm_limit rem' = rm_limit rem"
proof -
  have ok: "rm_ok hash rem" using assms(1) by (simp add: counts_ticks_def)
  have "rm_count rem (identity t) \<le> length ticks" using assms(1) count_le_length [of "map identity ticks"] by (simp add: counts_ticks_def)
  then have small: "rm_count rem (identity t) < USIZE_MAX" using assms(2,3) by (simp add: MAX_SCHEDULED_TICKS_PER_PHASE_def USIZE_MAX_def)
  have room: "length (rm_entries rem) < rm_limit rem" using counts_entries [OF assms(1)] assms(2) by linarith
  obtain rem' where r: "remaining_add hash rem (identity t) = Some rem'" "rm_ok hash rem'"
      "rm_count rem' = (rm_count rem)(identity t := rm_count rem (identity t) + 1)" "rm_limit rem' = rm_limit rem"
    using rm_add_ok [OF ok small] room by blast
  then show ?thesis using assms(1) by (auto simp: counts_ticks_def count_list_append)
qed

section \<open>Operations\<close>

lemma next_due_ok:
  assumes ok: "owner_ok env ow"
  shows "\<exists>r ow'. next_due ow = Some (r, ow') \<and> owner_ok env ow' \<and>
    (if ow_active ow = None then r = Inl NoActivePhase \<and> ow' = ow
     else if ow_cursor ow < length (ow_selected ow)
     then r = Inr (Some (ow_selected ow ! ow_cursor ow)) \<and> ow_cursor ow' = ow_cursor ow + 1 \<and> ow_selected ow' = ow_selected ow \<and>
       ow_chunks ow' = ow_chunks ow
     else r = Inr None \<and> ow' = ow)"
proof (cases "ow_active ow \<noteq> None \<and> ow_cursor ow < length (ow_selected ow)")
  case False
  then show ?thesis using ok by (auto simp: next_due_def)
next
  case True
  let ?t = "ow_selected ow ! ow_cursor ow" and ?L = "tl_selected_per_phase (ow_limits ow)"
  note ph = owner_okD(4) [OF ok, unfolded phase_ok_iff]
  have split: "drop (ow_cursor ow) (ow_selected ow) = ?t # drop (ow_cursor ow + 1) (ow_selected ow)" using True by (simp add: Cons_nth_drop_Suc)
  obtain rem where rem: "remaining_remove (ow_remaining_hash ow) (ow_remaining_ids ow) (identity ?t) = Some rem"
      "counts_ticks (ow_remaining_hash ow) rem (drop (ow_cursor ow + 1) (ow_selected ow))" "rm_limit rem = rm_limit (ow_remaining_ids ow)"
    using counts_remove [of "ow_remaining_hash ow" "ow_remaining_ids ow" "drop (ow_cursor ow) (ow_selected ow)" 0] ph True unfolding split by auto
  obtain ids where ids: "identities_remove (ow_selected_hash ow) (ow_selected_ids ow) (identity ?t) = Some ids" "ids_ok (ow_selected_hash ow) ids"
      "length (is_slots ids) = length (is_slots (ow_selected_ids ow))"
    using ids_remove_ok [of "ow_selected_hash ow" "ow_selected_ids ow" "identity ?t"] ph by blast
  let ?ow = "with_phase (ow_selected ow) (ow_cursor ow + 1) (ow_active ow) ids rem ow"
  have "owner_ok env ?ow" by (rule owner_ok_with_phase [OF ok]) (use ph rem ids True in \<open>auto simp: phase_ok_iff\<close>)
  moreover have "next_due ow = Some (Inr (Some ?t), ?ow)" using True rem(1) ids(1) by (simp add: next_due_def with_phase_def)
  ultimately show ?thesis using True by simp
qed

lemma identities_clear_ok:
  assumes "ids_ok hash ids"
  shows "ids_ok hash (identities_clear ids) \<and> ids_set (identities_clear ids) = {} \<and> is_count (identities_clear ids) = 0 \<and>
    length (is_slots (identities_clear ids)) = length (is_slots ids) \<and> is_capacity (identities_clear ids) = is_capacity ids"
proof (cases "is_count ids = 0")
  case True
  then have "ids_set ids = {}" using assms by (auto simp: ids_ok_def ids_set_def)
  then show ?thesis using assms True by (simp add: identities_clear_def)
next
  case False
  have "power_of_two (length (is_slots ids))" "1 < length (is_slots ids)" using assms by (auto simp: ids_ok_def ids_shape_def)
  from empty_ids_ok [OF this, of hash "is_capacity ids"] show ?thesis using False by (cases ids) (simp add: identities_clear_def)
qed

lemma finish_phase_ok:
  assumes ok: "owner_ok env ow"
  shows "\<exists>r ow'. finish_phase ow = Some (r, ow') \<and> owner_ok env ow' \<and>
    (r = (if ow_active ow = None then Inl NoActivePhase else if ow_cursor ow \<noteq> length (ow_selected ow) then Inl UnconsumedTicks else Inr ())) \<and>
    (if r = Inr () then ow_active ow' = None \<and> ow_selected ow' = [] \<and> ow_chunks ow' = ow_chunks ow else ow' = ow)"
proof (cases "ow_active ow = None \<or> ow_cursor ow \<noteq> length (ow_selected ow)")
  case True
  then show ?thesis using ok by (auto simp: finish_phase_def)
next
  case False
  note ph = owner_okD(4) [OF ok, unfolded phase_ok_iff]
  let ?ow = "with_phase [] 0 None (identities_clear (ow_selected_ids ow)) (remaining_clear (ow_remaining_ids ow)) ow"
  have "counts_ticks (ow_remaining_hash ow) (remaining_clear (ow_remaining_ids ow)) []" "rm_limit (remaining_clear (ow_remaining_ids ow)) = rm_limit (ow_remaining_ids ow)"
    using ph remaining_clear_ok by (auto simp: counts_ticks_def)
  moreover have "ids_ok (ow_selected_hash ow) (identities_clear (ow_selected_ids ow))" "is_count (identities_clear (ow_selected_ids ow)) = 0"
      "length (is_slots (identities_clear (ow_selected_ids ow))) = length (is_slots (ow_selected_ids ow))"
    using identities_clear_ok ph by blast+
  ultimately have "owner_ok env ?ow" using ph by (intro owner_ok_with_phase [OF ok]) (simp add: phase_ok_iff)
  moreover have "finish_phase ow = Some (Inr (), ?ow)" using False by (simp add: finish_phase_def with_phase_def)
  ultimately show ?thesis using False by simp
qed

lemma will_tick_ok:
  assumes ok: "owner_ok env ow"
  shows "\<exists>b ow'. will_tick_this_phase d p type_id ow = Some (b, ow') \<and> owner_ok env ow'"
proof (cases "ow_active ow = Some d")
  case False
  then show ?thesis using ok by (intro exI [of _ False] exI [of _ ow]) (simp add: will_tick_this_phase_def)
next
  case True
  note ph = owner_okD(4) [OF ok, unfolded phase_ok_iff]
  let ?h = "ow_selected_hash ow" and ?ids = "ow_selected_ids ow"
  let ?P = "is_count ?ids = 0 \<and> ow_cursor ow < length (ow_selected ow)"
  obtain ids where ids: "(if ?P then insert_identities ?h ?ids (remaining_identities (ow_remaining_ids ow)) else Some ?ids) = Some ids"
      "ids_ok ?h ids" "length (is_slots ids) = length (is_slots ?ids)"
  proof (cases ?P)
    case True
    have "length (remaining_identities (ow_remaining_ids ow)) \<le> length (ow_selected ow)"
      using counts_entries ph by (fastforce simp: remaining_identities_def)
    then have "card (ids_set ?ids) + length (remaining_identities (ow_remaining_ids ow)) < length (is_slots ?ids)"
      using ph True by (simp add: ids_ok_def)
    then show thesis using insert_identities_ok [of ?h ?ids] ph that True by (metis (no_types, lifting))
  qed (use ph that in auto)
  let ?ow = "with_phase (ow_selected ow) (ow_cursor ow) (ow_active ow) ids (ow_remaining_ids ow) ow"
  have "owner_ok env ?ow" by (rule owner_ok_with_phase [OF ok]) (use ph ids True in \<open>auto simp: phase_ok_iff\<close>)
  moreover have "ow\<lparr>ow_selected_ids := ids\<rparr> = ?ow" by (simp add: with_phase_def)
  ultimately show ?thesis using True ids(1) ids_contains_ok [OF ids(2)] by (simp add: will_tick_this_phase_def)
qed

end
