(* ===== verification/TickCollect.thy ===== *)
theory TickCollect
  imports TickPhaseOps
begin

text \<open>
  The first half of \<open>begin_phase\<close>: the scan of the timeline that moves every eligible chunk with a due tick
  to the ready heap. While chunks are in the ready heap their keys are missing from the timeline.
\<close>

section \<open>Chunks out of the timeline\<close>

definition keys_of :: "ChunkQueues list \<Rightarrow> nat set \<Rightarrow> int set" where
  "keys_of chunks J = (\<lambda>i. chunk_key (chunks ! i)) ` J"

definition in_flight :: "TickDomain \<Rightarrow> nat set \<Rightarrow> ScheduledTickOwner \<Rightarrow> bool" where
  "in_flight d J ow \<longleftrightarrow> J \<subseteq> {..<length (ow_chunks ow)} \<and>
    index_map (timeline d ow) = (\<lambda>k. if k \<in> keys_of (ow_chunks ow) J then None else heads d (ow_chunks ow) k)"

definition due_chunk :: "TickDomain \<Rightarrow> int \<Rightarrow> ChunkQueues \<Rightarrow> bool" where
  "due_chunk d game_time c \<longleftrightarrow> ck_registered c \<and> ck_eligible c \<and>
    (\<exists>t. scheduled_peek (tq_heap (chunk_queue d c)) = Some t \<and> st_trigger_tick t \<le> game_time)"

definition ready_for :: "TickDomain \<Rightarrow> int \<Rightarrow> ChunkQueues list \<Rightarrow> ReadyChunk \<Rightarrow> bool" where
  "ready_for d game_time chunks r \<longleftrightarrow> rc_index r < length chunks \<and> due_chunk d game_time (chunks ! rc_index r) \<and>
    (\<exists>t. scheduled_peek (tq_heap (chunk_queue d (chunks ! rc_index r))) = Some t \<and> r = ready_chunk (rc_index r) t)"

abbreviation ready_set :: "ScheduledTickOwner \<Rightarrow> nat set" where
  "ready_set ow \<equiv> rc_index ` set (hp_values (ow_ready ow))"

definition ready_wf :: "TickDomain \<Rightarrow> int \<Rightarrow> ScheduledTickOwner \<Rightarrow> bool" where
  "ready_wf d game_time ow \<longleftrightarrow> heap_ok ready_precedes (hp_values (ow_ready ow)) \<and> distinct (map rc_index (hp_values (ow_ready ow))) \<and>
    hp_limit (ow_ready ow) = tl_max_chunks (ow_limits ow) \<and> (\<forall>r \<in> set (hp_values (ow_ready ow)). ready_for d game_time (ow_chunks ow) r)"

definition all_ready :: "TickDomain \<Rightarrow> int \<Rightarrow> int set \<Rightarrow> ScheduledTickOwner \<Rightarrow> bool" where
  "all_ready d game_time U ow \<longleftrightarrow>
    (\<forall>i < length (ow_chunks ow). due_chunk d game_time (ow_chunks ow ! i) \<longrightarrow> chunk_key (ow_chunks ow ! i) \<in> U \<or> i \<in> ready_set ow)"

lemma timeline_ready [simp]:
  "timeline d (ow\<lparr>ow_ready := r\<rparr>) = timeline d ow" "(set_timeline d idx ow)\<lparr>ow_ready := r\<rparr> = set_timeline d idx (ow\<lparr>ow_ready := r\<rparr>)"
  by (cases d; simp)+

lemma ready_push_wf:
  assumes wf: "ready_wf d game_time ow" and chunks: "chunks_ok (ow_limits ow) (ow_chunks ow)"
    and i: "i < length (ow_chunks ow)" "i \<notin> ready_set ow" "due_chunk d game_time (ow_chunks ow ! i)"
      "scheduled_peek (tq_heap (chunk_queue d (ow_chunks ow ! i))) = Some t"
  shows "\<exists>rdy. ready_push (ow_ready ow) (ready_chunk i t) = Some rdy \<and> ready_wf d game_time (ow\<lparr>ow_ready := rdy\<rparr>) \<and>
    ready_set (ow\<lparr>ow_ready := rdy\<rparr>) = insert i (ready_set ow)"
proof -
  let ?v = "hp_values (ow_ready ow)"
  have "insert i (ready_set ow) \<subseteq> {..<length (ow_chunks ow)}" using i(1) wf by (auto simp: ready_wf_def ready_for_def)
  then have "card (insert i (ready_set ow)) \<le> length (ow_chunks ow)" using card_mono [of "{..<length (ow_chunks ow)}"] by simp
  moreover have "card (ready_set ow) = length ?v" using wf distinct_card [of "map rc_index ?v"] by (simp add: ready_wf_def)
  ultimately have "length ?v < hp_limit (ow_ready ow)" using i(2) wf chunks by (simp add: ready_wf_def chunks_ok_def)
  then obtain v where v: "heap_push ready_precedes (ow_ready ow) (ready_chunk i t) = Some ((ow_ready ow)\<lparr>hp_values := v\<rparr>)" "heap_ok ready_precedes v"
      "mset v = add_mset (ready_chunk i t) (mset ?v)"
    using ready_entry.push_laws [of "ow_ready ow"] wf by (auto simp: ready_wf_def)
  have set: "set v = insert (ready_chunk i t) (set ?v)" using arg_cong [OF v(3), of set_mset] by simp
  have "mset (map rc_index v) = add_mset i (mset (map rc_index ?v))" using arg_cong [OF v(3), of "image_mset rc_index"] by (simp add: ready_chunk_def)
  moreover have "distinct (i # map rc_index ?v)" using wf i(2) by (simp add: ready_wf_def)
  ultimately have "distinct (map rc_index v)" by (metis mset.simps(2) mset_eq_imp_distinct_iff)
  moreover have "ready_for d game_time (ow_chunks ow) (ready_chunk i t)" using i by (simp add: ready_for_def ready_chunk_def)
  ultimately show ?thesis using v(1,2) set wf
    by (intro exI [of _ "(ow_ready ow)\<lparr>hp_values := v\<rparr>"]) (auto simp: ready_push_def ready_wf_def ready_chunk_def)
qed

lemma heads_SomeD:
  assumes "heads d chunks k = Some t"
  shows "\<exists>i < length chunks. chunk_key (chunks ! i) = k \<and> ck_registered (chunks ! i) \<and>
    (\<exists>tick. scheduled_peek (tq_heap (chunk_queue d (chunks ! i))) = Some tick \<and> st_trigger_tick tick = t)"
  using assms by (auto simp: heads_def find_Some_iff head_time_def split: option.splits if_splits)

lemma registered_key:
  assumes "chunks_ok limits (ow_chunks ow)" "i < length (ow_chunks ow)" "ck_registered (ow_chunks ow ! i)"
  shows "registered ow (unpacked_chunk (chunk_key (ow_chunks ow ! i))) = Inr i"
proof -
  have "chunk_i32 (ck_address (ow_chunks ow ! i))" using chunks_ok_nth [OF assms(1,2)] by (simp add: chunk_ok_def)
  then show ?thesis using registered_at [OF assms] by (simp add: chunk_key_def unpacked_packed_chunk)
qed

lemma keys_of_insert [simp]: "keys_of chunks (insert i J) = insert (chunk_key (chunks ! i)) (keys_of chunks J)"
  by (simp add: keys_of_def)

section \<open>The scan\<close>

lemma collect_ready_ok:
  assumes "chunks_ok (ow_limits ow) (ow_chunks ow)" "scanning (timeline d ow) K U c" "finite U" "card U < fuel"
    "in_flight d (ready_set ow) ow" "ready_wf d game_time ow" "all_ready d game_time U ow"
  shows "\<exists>idx rdy c' ow'. collect_ready fuel d game_time ow = Some ow' \<and> ow' = set_timeline d idx (ow\<lparr>ow_ready := rdy\<rparr>) \<and> scanning idx K {} c' \<and>
    si_max_keys idx = si_max_keys (timeline d ow) \<and> in_flight d (ready_set ow') ow' \<and> ready_wf d game_time ow' \<and> all_ready d game_time {} ow'"
  using assms
proof (induction fuel arbitrary: ow U c)
  case (Suc fuel)
  note chunks = Suc.prems(1) and scan = Suc.prems(2)
  let ?idx = "timeline d ow" and ?cs = "ow_chunks ow"
  show ?case
  proof (cases "U = {}")
    case True
    have "next_entry ?idx = Some (None, ?idx)" using next_entry_ok [OF scan] True by simp
    then have "collect_ready (Suc fuel) d game_time ow = Some ow" by (simp add: set_timeline_id)
    then show ?thesis using Suc.prems True
      by (intro exI [of _ ?idx] exI [of _ "ow_ready ow"] exI [of _ c] exI [of _ ow]) (simp add: set_timeline_id)
  next
    case False
    obtain k t sc where nx: "next_entry ?idx = Some (Some (k, t), ?idx\<lparr>si_scan := Some sc\<rparr>)" "k \<in> U" "index_map ?idx k = Some t"
        "scanning (?idx\<lparr>si_scan := Some sc\<rparr>) K (U - {k}) (Some k)"
      using next_entry_ok [OF scan] False by auto
    let ?i1 = "?idx\<lparr>si_scan := Some sc\<rparr>"
    have map1: "index_map ?i1 = index_map ?idx" by (simp add: fun_eq_iff index_map_def index_get_def find_bucket_def cong: if_cong)
    let ?ow1 = "set_timeline d ?i1 ow"
    have k: "heads d ?cs k = Some t" "k \<notin> keys_of ?cs (ready_set ow)" using nx(3) Suc.prems(5) by (auto simp: in_flight_def split: if_splits)
    obtain i tick where i: "i < length ?cs" "chunk_key (?cs ! i) = k" "ck_registered (?cs ! i)"
        "scheduled_peek (tq_heap (chunk_queue d (?cs ! i))) = Some tick" "st_trigger_tick tick = t"
      using heads_SomeD [OF k(1)] by blast
    have fresh: "i \<notin> ready_set ow" using k(2) i(2) by (auto simp: keys_of_def)
    have reg: "registered ?ow1 (unpacked_chunk k) = Inr i" using registered_key [OF chunks i(1,3)] i(2) by simp
    have fewer: "card (U - {k}) < fuel" "finite (U - {k})"
      using card_Suc_Diff1 [OF Suc.prems(3) nx(2)] Suc.prems(3,4) by (linarith, simp)
    have flight1: "in_flight d (ready_set ?ow1) ?ow1" "ready_wf d game_time ?ow1" using Suc.prems(5,6) map1 by (auto simp: in_flight_def ready_wf_def)
    show ?thesis
    proof (cases "due_chunk d game_time (?cs ! i)")
      case False
      have ready: "all_ready d game_time (U - {k}) ?ow1"
      proof -
        have "chunk_key (?cs ! j) \<noteq> k" if "j < length ?cs" "due_chunk d game_time (?cs ! j)" for j
        proof
          assume "chunk_key (?cs ! j) = k"
          then have "j = i" using chunk_keys_distinct [OF chunks] that(1) i(1,2) by (simp add: distinct_conv_nth) blast
          then show False using False that by simp
        qed
        then show ?thesis using Suc.prems(7) by (auto simp: all_ready_def)
      qed
      have "collect_ready (Suc fuel) d game_time ow = collect_ready fuel d game_time ?ow1"
        using nx(1) reg i False by (auto simp: Let_def due_chunk_def)
      then show ?thesis using Suc.IH [of ?ow1 "U - {k}" "Some k"] chunks nx(4) fewer flight1 ready by simp
    next
      case True
      obtain i2 where i2: "remove_current ?i1 = Some i2" "scanning i2 K (U - {k}) None" "index_map i2 = (index_map ?idx)(k := None)"
          "si_max_keys i2 = si_max_keys ?idx"
        using remove_current_ok [OF nx(4)] map1 by auto
      obtain rdy where rdy: "ready_push (ow_ready ow) (ready_chunk i tick) = Some rdy" "ready_wf d game_time (ow\<lparr>ow_ready := rdy\<rparr>)"
          "ready_set (ow\<lparr>ow_ready := rdy\<rparr>) = insert i (ready_set ow)"
        using ready_push_wf [OF Suc.prems(6) chunks i(1) fresh True i(4)] by blast
      let ?ow2 = "set_timeline d i2 (ow\<lparr>ow_ready := rdy\<rparr>)"
      have "in_flight d (ready_set ?ow2) ?ow2" using Suc.prems(5) rdy(3) i2(3) i(1,2) by (auto simp: in_flight_def fun_eq_iff)
      moreover have "ready_wf d game_time ?ow2" using rdy(2) by (simp add: ready_wf_def)
      moreover have "all_ready d game_time (U - {k}) ?ow2"
      proof -
        have "j = i" if "j < length ?cs" "chunk_key (?cs ! j) = k" for j
          using chunk_keys_distinct [OF chunks] that i(1,2) by (simp add: distinct_conv_nth) blast
        then show ?thesis using Suc.prems(7) rdy(3) by (fastforce simp: all_ready_def)
      qed
      moreover have "collect_ready (Suc fuel) d game_time ow = collect_ready fuel d game_time ?ow2"
        using nx(1) reg i True i2(1) rdy(1) by (auto simp: Let_def due_chunk_def)
      ultimately show ?thesis using Suc.IH [of ?ow2 "U - {k}" None] chunks i2(2,4) fewer by simp
    qed
  qed
qed simp

end
