(* ===== verification/TickSelect.thy ===== *)
theory TickSelect
  imports TickCollect
begin

text \<open>
  The second half of \<open>begin_phase\<close>: ticks are taken from the ready chunks, the chunk whose head comes first
  at a time, until enough are selected, and the chunks that are left go back to the timeline.
\<close>

section \<open>One chunk\<close>

definition sel_upd :: "TickDomain \<Rightarrow> nat \<Rightarrow> ChunkQueue \<Rightarrow> RemainingCounts \<Rightarrow> ScheduledTick list \<Rightarrow> ScheduledTickOwner \<Rightarrow> ScheduledTickOwner" where
  "sel_upd d i q rem sel ow = (set_chunk i (chunk_set_queue d q (ow_chunks ow ! i)) ow)\<lparr>ow_remaining_ids := rem, ow_selected := sel\<rparr>"

lemma sel_upd_simps [simp]:
  "timeline d' (sel_upd d i q rem sel ow) = timeline d' ow" "ow_limits (sel_upd d i q rem sel ow) = ow_limits ow"
  "ow_chunks (sel_upd d i q rem sel ow) = (ow_chunks ow)[i := chunk_set_queue d q (ow_chunks ow ! i)]"
  "ow_ready (sel_upd d i q rem sel ow) = ow_ready ow" "ow_selected (sel_upd d i q rem sel ow) = sel"
  "ow_remaining_ids (sel_upd d i q rem sel ow) = rem" "ow_remaining_hash (sel_upd d i q rem sel ow) = ow_remaining_hash ow"
  "i < length (ow_chunks ow) \<Longrightarrow> sel_upd d i q rem sel (sel_upd d i q' rem' sel' ow) = sel_upd d i q rem sel ow"
  "index_fits (sel_upd d i q rem sel ow) idx = index_fits ow idx"
  by (cases d'; simp add: sel_upd_def set_chunk_def index_fits_def)+

text \<open>The ticks of one chunk are selected in the order of its heap.\<close>

definition behind :: "ChunkAddress \<Rightarrow> ScheduledTick list \<Rightarrow> ScheduledTick list \<Rightarrow> bool" where
  "behind a left sel \<longleftrightarrow> (\<forall>y \<in> set left. \<forall>s \<in> set sel. tick_chunk (st_position s) = a \<longrightarrow> \<not> tick_precedes y s)"

definition chunkwise :: "ScheduledTick list \<Rightarrow> bool" where
  "chunkwise sel \<longleftrightarrow> sorted_wrt (\<lambda>s t. tick_chunk (st_position s) = tick_chunk (st_position t) \<longrightarrow> \<not> tick_precedes t s) sel"

text \<open>What a run of the inner loop on chunk \<open>i\<close> does: a prefix of its ticks moves to the selection.\<close>

definition drains :: "TickDomain \<Rightarrow> nat \<Rightarrow> ChunkAddress \<Rightarrow> nat \<Rightarrow> int \<Rightarrow> nat \<Rightarrow> ScheduledTickOwner \<Rightarrow> ScheduledTickOwner \<Rightarrow> ScheduledTick list \<Rightarrow> ChunkQueue \<Rightarrow>
    RemainingCounts \<Rightarrow> bool" where
  "drains d i a L game_time max_ticks ow ow' ts q rem \<longleftrightarrow> ow' = sel_upd d i q rem (ow_selected ow @ ts) ow \<and>
    (\<forall>t \<in> set ts. st_trigger_tick t \<le> game_time \<and> tick_chunk (st_position t) = a) \<and> queue_ok L q \<and> placed a q \<and>
    mset (sched_values (tq_heap (owner_queue d i ow))) = mset ts + mset (sched_values (tq_heap q)) \<and> tq_pending q = tq_pending (owner_queue d i ow) \<and>
    (\<forall>env. queue_heap_bytes env q = queue_heap_bytes env (owner_queue d i ow)) \<and>
    counts_ticks (ow_remaining_hash ow) rem (ow_selected ow @ ts) \<and> rm_limit rem = rm_limit (ow_remaining_ids ow) \<and>
    length (ow_selected ow @ ts) \<le> max_ticks \<and> behind a (sched_values (tq_heap q)) (ow_selected ow @ ts) \<and> chunkwise (ow_selected ow @ ts)"

lemma drains_trans:
  assumes "i < length (ow_chunks ow)" "drains d i a L game_time max_ticks ow ow1 ts q rem" "drains d i a L game_time max_ticks ow1 ow2 ts' q' rem'"
  shows "drains d i a L game_time max_ticks ow ow2 (ts @ ts') q' rem'"
  using assms by (auto simp: drains_def)

lemma pop_drains:
  assumes i: "i < length (ow_chunks ow)" and q: "queue_ok L (owner_queue d i ow)" "placed a (owner_queue d i ow)"
    and t: "scheduled_peek (tq_heap (owner_queue d i ow)) = Some t" "st_trigger_tick t \<le> game_time"
    and rem: "counts_ticks (ow_remaining_hash ow) (ow_remaining_ids ow) (ow_selected ow)" "rm_limit (ow_remaining_ids ow) \<le> MAX_SCHEDULED_TICKS_PER_PHASE"
    and len: "length (ow_selected ow) < max_ticks" "max_ticks \<le> rm_limit (ow_remaining_ids ow)"
    and order: "behind a (sched_values (tq_heap (owner_queue d i ow))) (ow_selected ow)" "chunkwise (ow_selected ow)"
  shows "\<exists>q' rem'. queue_pop (owner_queue d i ow) = Some (Some t, q') \<and> remaining_add (ow_remaining_hash ow) (ow_remaining_ids ow) (identity t) = Some rem' \<and>
    drains d i a L game_time max_ticks ow (sel_upd d i q' rem' (ow_selected ow @ [t]) ow) [t] q' rem'"
proof -
  let ?q = "owner_queue d i ow" and ?sel = "ow_selected ow"
  have ne: "sched_values (tq_heap ?q) \<noteq> []" using t(1) by (simp add: peek_Some)
  obtain q' where q': "queue_pop ?q = Some (Some t, q')" "queue_ok L q'" "mset (sched_values (tq_heap ?q)) = add_mset t (mset (sched_values (tq_heap q')))"
      "tq_pending q' = tq_pending ?q" "\<forall>env. queue_heap_bytes env q' = queue_heap_bytes env ?q"
    using queue_pop_ok [OF q(1) ne] t(1) by auto
  have vs: "set (sched_values (tq_heap ?q)) = insert t (set (sched_values (tq_heap q')))" using arg_cong [OF q'(3), of set_mset] by simp
  have pl: "placed a q'" "tick_chunk (st_position t) = a" using q(2) vs q'(4) by (auto simp: placed_def)
  obtain rem' where rem': "remaining_add (ow_remaining_hash ow) (ow_remaining_ids ow) (identity t) = Some rem'"
      "counts_ticks (ow_remaining_hash ow) rem' (?sel @ [t])" "rm_limit rem' = rm_limit (ow_remaining_ids ow)"
    using counts_add [OF rem(1) _ rem(2), of t] len by auto
  have least: "\<forall>y \<in> set (sched_values (tq_heap q')). \<not> tick_precedes y t" using peek_least [OF queue_okD(1) [OF q(1)] t(1)] vs by auto
  have "behind a (sched_values (tq_heap q')) (?sel @ [t])" using order(1) least vs by (auto simp: behind_def)
  moreover have "chunkwise (?sel @ [t])" using order vs pl(2) by (auto simp: chunkwise_def behind_def sorted_wrt_append)
  ultimately show ?thesis using q' rem' pl t(2) len(1) by (intro exI [of _ q'] exI [of _ rem']) (simp add: drains_def)
qed

lemma drain_chunk_ok:
  assumes "i < length (ow_chunks ow)" "queue_ok L (owner_queue d i ow)" "placed a (owner_queue d i ow)"
    "scheduled_peek (tq_heap (owner_queue d i ow)) = Some t" "st_trigger_tick t \<le> game_time"
    "counts_ticks (ow_remaining_hash ow) (ow_remaining_ids ow) (ow_selected ow)" "rm_limit (ow_remaining_ids ow) \<le> MAX_SCHEDULED_TICKS_PER_PHASE"
    "length (ow_selected ow) < max_ticks" "max_ticks \<le> rm_limit (ow_remaining_ids ow)" "max_ticks - length (ow_selected ow) < fuel"
    "behind a (sched_values (tq_heap (owner_queue d i ow))) (ow_selected ow)" "chunkwise (ow_selected ow)"
  shows "\<exists>ow' ts q rem. drain_chunk fuel d game_time max_ticks i ow = Some ow' \<and> drains d i a L game_time max_ticks ow ow' ts q rem \<and> ts \<noteq> []"
  using assms
proof (induction fuel arbitrary: ow t)
  case (Suc fuel)
  obtain q rem where pop: "queue_pop (owner_queue d i ow) = Some (Some t, q)"
      "remaining_add (ow_remaining_hash ow) (ow_remaining_ids ow) (identity t) = Some rem"
      "drains d i a L game_time max_ticks ow (sel_upd d i q rem (ow_selected ow @ [t]) ow) [t] q rem"
    using pop_drains [OF Suc.prems(1-9,11,12)] by blast
  let ?ow1 = "sel_upd d i q rem (ow_selected ow @ [t]) ow"
  show ?case
  proof (cases "drain_chunk (Suc fuel) d game_time max_ticks i ow = Some ?ow1")
    case True
    then show ?thesis using pop(3) by blast
  next
    case False
    have step: "drain_chunk (Suc fuel) d game_time max_ticks i ow =
        (if length (ow_selected ow @ [t]) = max_ticks then Some ?ow1
         else (case scheduled_peek (tq_heap q) of
             None \<Rightarrow> Some ?ow1
           | Some following \<Rightarrow>
               if st_trigger_tick following > game_time then Some ?ow1
               else if (case heap_peek (ow_ready ow) of None \<Rightarrow> False
                        | Some other \<Rightarrow> within_tick following > (rc_priority other, rc_sub_order other))
               then Some ?ow1 else drain_chunk fuel d game_time max_ticks i ?ow1))"
      using pop(1,2) by (simp add: Let_def sel_upd_def cong: option.case_cong if_cong)
    obtain f where f: "length (ow_selected ow @ [t]) \<noteq> max_ticks" "scheduled_peek (tq_heap q) = Some f" "st_trigger_tick f \<le> game_time"
        "drain_chunk (Suc fuel) d game_time max_ticks i ow = drain_chunk fuel d game_time max_ticks i ?ow1"
      using False unfolding step by (auto split: option.splits if_splits simp: not_less)
    have q1: "owner_queue d i ?ow1 = q" using Suc.prems(1) by simp
    have "\<exists>ow' ts q' rem'. drain_chunk fuel d game_time max_ticks i ?ow1 = Some ow' \<and> drains d i a L game_time max_ticks ?ow1 ow' ts q' rem' \<and> ts \<noteq> []"
      by (rule Suc.IH [of ?ow1 f]) (use Suc.prems pop(3) f q1 in \<open>simp_all add: drains_def\<close>)
    then show ?thesis using f(4) drains_trans [OF Suc.prems(1) pop(3)] by fastforce
  qed
qed simp

section \<open>What the selection keeps\<close>

text \<open>
  What may happen to a chunk: only its queue of the domain changes, within its capacity and without
  touching saved ticks, and nothing at all unless the chunk is registered and eligible.
\<close>

definition chunk_step :: "TickDomain \<Rightarrow> ChunkQueues \<Rightarrow> ChunkQueues \<Rightarrow> bool" where
  "chunk_step d c c' \<longleftrightarrow> (\<exists>q. c' = chunk_set_queue d q c \<and> tq_pending q = tq_pending (chunk_queue d c) \<and>
    (\<forall>env. queue_heap_bytes env q = queue_heap_bytes env (chunk_queue d c))) \<and> (ck_registered c \<and> ck_eligible c \<or> c' = c)"

lemma chunk_step_refl [simp]: "chunk_step d c c"
  unfolding chunk_step_def by (intro conjI exI [of _ "chunk_queue d c"]) simp_all

lemma chunk_step_trans: "chunk_step d a b \<Longrightarrow> chunk_step d b c \<Longrightarrow> chunk_step d a c"
  by (auto simp: chunk_step_def)

definition domain_ticks :: "TickDomain \<Rightarrow> ChunkQueues list \<Rightarrow> ScheduledTick multiset" where
  "domain_ticks d chunks = sum_list (map (chunk_ticks d) chunks)"

lemma domain_ticks_update:
  assumes "i < length chunks"
  shows "domain_ticks d (chunks[i := c]) + chunk_ticks d (chunks ! i) = domain_ticks d chunks + chunk_ticks d c"
proof -
  have "chunks[i := c] = take i chunks @ c # drop (Suc i) chunks" by (rule upd_conv_take_nth_drop) fact
  moreover have "map f chunks = map f (take i chunks) @ f (chunks ! i) # map f (drop (Suc i) chunks)" for f :: "ChunkQueues \<Rightarrow> ScheduledTick multiset"
    using id_take_nth_drop [OF assms] by (metis list.simps(9) map_append)
  ultimately show ?thesis by (simp add: domain_ticks_def ac_simps)
qed

definition phase_frame :: "TickDomain \<Rightarrow> ScheduledTickOwner \<Rightarrow> ScheduledTickOwner \<Rightarrow> bool" where
  "phase_frame d ow ow' \<longleftrightarrow>
    (\<exists>cs rdy rem sel idx. ow' = set_timeline d idx (ow\<lparr>ow_chunks := cs, ow_ready := rdy, ow_remaining_ids := rem, ow_selected := sel\<rparr>)) \<and>
    list_all2 (chunk_step d) (ow_chunks ow) (ow_chunks ow') \<and>
    domain_ticks d (ow_chunks ow) + mset (ow_selected ow) = domain_ticks d (ow_chunks ow') + mset (ow_selected ow')"

lemma phase_frameI:
  assumes "ow' = set_timeline d idx (ow\<lparr>ow_chunks := cs, ow_ready := rdy, ow_remaining_ids := rem, ow_selected := sel\<rparr>)"
    "list_all2 (chunk_step d) (ow_chunks ow) cs" "domain_ticks d (ow_chunks ow) + mset (ow_selected ow) = domain_ticks d cs + mset sel"
  shows "phase_frame d ow ow'"
  unfolding phase_frame_def
proof (intro conjI)
  show "\<exists>cs rdy rem sel idx. ow' = set_timeline d idx (ow\<lparr>ow_chunks := cs, ow_ready := rdy, ow_remaining_ids := rem, ow_selected := sel\<rparr>)"
    by (intro exI) (rule assms(1))
qed (use assms in simp_all)

lemma phase_frame_trans:
  assumes "phase_frame d ow ow1" "phase_frame d ow1 ow2"
  shows "phase_frame d ow ow2"
proof -
  obtain cs rdy rem sel idx where 1: "ow1 = set_timeline d idx (ow\<lparr>ow_chunks := cs, ow_ready := rdy, ow_remaining_ids := rem, ow_selected := sel\<rparr>)"
    using assms(1) unfolding phase_frame_def by blast
  obtain cs' rdy' rem' sel' idx' where 2: "ow2 = set_timeline d idx' (ow1\<lparr>ow_chunks := cs', ow_ready := rdy', ow_remaining_ids := rem', ow_selected := sel'\<rparr>)"
    using assms(2) unfolding phase_frame_def by blast
  have "ow2 = set_timeline d idx' (ow\<lparr>ow_chunks := cs', ow_ready := rdy', ow_remaining_ids := rem', ow_selected := sel'\<rparr>)"
    unfolding 2 1 by (cases d) simp_all
  then show ?thesis
  proof (rule phase_frameI)
    have cs: "ow_chunks ow2 = cs'" "ow_selected ow2 = sel'" unfolding 2 by simp_all
    show "list_all2 (chunk_step d) (ow_chunks ow) cs'"
      using assms cs list_all2_trans [of "chunk_step d" "chunk_step d" "chunk_step d"] chunk_step_trans unfolding phase_frame_def by (metis (no_types, lifting))
    show "domain_ticks d (ow_chunks ow) + mset (ow_selected ow) = domain_ticks d cs' + mset sel'"
      using assms cs unfolding phase_frame_def by simp
  qed
qed

lemma drains_frame:
  assumes "i < length (ow_chunks ow)" "drains d i a L game_time max_ticks ow ow' ts q rem"
    and "ck_registered (ow_chunks ow ! i)" "ck_eligible (ow_chunks ow ! i)"
  shows "phase_frame d ow ow'"
proof (rule phase_frameI)
  let ?c = "chunk_set_queue d q (ow_chunks ow ! i)"
  show "ow' = set_timeline d (timeline d ow) (ow\<lparr>ow_chunks := (ow_chunks ow)[i := ?c], ow_ready := ow_ready ow, ow_remaining_ids := rem,
      ow_selected := ow_selected ow @ ts\<rparr>)"
    using assms(2) by (cases d) (simp_all add: drains_def sel_upd_def set_chunk_def)
  have "chunk_step d (ow_chunks ow ! i) ?c" unfolding chunk_step_def
    by (intro conjI exI [of _ q]) (use assms(2-4) in \<open>simp_all add: drains_def\<close>)
  then show "list_all2 (chunk_step d) (ow_chunks ow) ((ow_chunks ow)[i := ?c])" using assms(1) by (simp add: list_all2_conv_all_nth nth_list_update)
  show "domain_ticks d (ow_chunks ow) + mset (ow_selected ow) = domain_ticks d ((ow_chunks ow)[i := ?c]) + mset (ow_selected ow @ ts)"
    using domain_ticks_update [OF assms(1), of d ?c] assms(2) by (auto simp: drains_def chunk_ticks_def ac_simps)
qed

section \<open>The outer loop\<close>

definition selecting :: "TickDomain \<Rightarrow> int \<Rightarrow> nat \<Rightarrow> nat set \<Rightarrow> ScheduledTickOwner \<Rightarrow> bool" where
  "selecting d game_time max_ticks J ow \<longleftrightarrow> chunks_ok (ow_limits ow) (ow_chunks ow) \<and> index_fits ow (timeline d ow) \<and>
    in_flight d (J \<union> ready_set ow) ow \<and> J \<inter> ready_set ow = {} \<and> ready_wf d game_time ow \<and>
    counts_ticks (ow_remaining_hash ow) (ow_remaining_ids ow) (ow_selected ow) \<and>
    rm_limit (ow_remaining_ids ow) = tl_selected_per_phase (ow_limits ow) \<and> tl_selected_per_phase (ow_limits ow) \<le> MAX_SCHEDULED_TICKS_PER_PHASE \<and>
    length (ow_selected ow) \<le> max_ticks \<and> max_ticks \<le> tl_selected_per_phase (ow_limits ow) \<and>
    (length (ow_selected ow) < max_ticks \<longrightarrow> (\<forall>i < length (ow_chunks ow). due_chunk d game_time (ow_chunks ow ! i) \<longrightarrow> i \<in> J \<union> ready_set ow)) \<and>
    (\<forall>s \<in> set (ow_selected ow). st_trigger_tick s \<le> game_time) \<and> chunkwise (ow_selected ow) \<and>
    (\<forall>c \<in> set (ow_chunks ow). behind (ck_address c) (sched_values (tq_heap (chunk_queue d c))) (ow_selected ow))"

text \<open>The chunk with the first head leaves the ready heap.\<close>

lemma ready_pop_selecting:
  assumes sel: "selecting d game_time max_ticks {} ow" and ne: "hp_values (ow_ready ow) \<noteq> []"
  shows "\<exists>r rdy. ready_pop (ow_ready ow) = Some (Some r, rdy) \<and> ready_for d game_time (ow_chunks ow) r \<and>
    selecting d game_time max_ticks {rc_index r} (ow\<lparr>ow_ready := rdy\<rparr>)"
proof -
  have wf: "ready_wf d game_time ow" using sel by (simp add: selecting_def)
  obtain r v where r: "heap_pop ready_precedes (ow_ready ow) = Some (Some r, (ow_ready ow)\<lparr>hp_values := v\<rparr>)" "heap_ok ready_precedes v"
      "mset (hp_values (ow_ready ow)) = add_mset r (mset v)"
    using ready_entry.pop_laws [of "ow_ready ow"] wf ne by (auto simp: ready_wf_def)
  have set: "set (hp_values (ow_ready ow)) = insert r (set v)" using arg_cong [OF r(3), of set_mset] by simp
  have "mset (map rc_index (hp_values (ow_ready ow))) = mset (rc_index r # map rc_index v)" using arg_cong [OF r(3), of "image_mset rc_index"] by simp
  then have d: "distinct (rc_index r # map rc_index v)" using wf mset_eq_imp_distinct_iff by (metis ready_wf_def)
  let ?ow = "ow\<lparr>ow_ready := (ow_ready ow)\<lparr>hp_values := v\<rparr>\<rparr>"
  have rs: "ready_set ow = insert (rc_index r) (ready_set ?ow)" using set by auto
  have "ready_wf d game_time ?ow" using wf r(2) d set by (auto simp: ready_wf_def)
  moreover have "{rc_index r} \<inter> ready_set ?ow = {}" using d by auto
  ultimately have "selecting d game_time max_ticks {rc_index r} ?ow"
    using sel rs unfolding selecting_def by (simp add: in_flight_def index_fits_def cong: if_cong)
  then show ?thesis using r(1) wf set by (auto simp: ready_pop_def ready_wf_def)
qed

text \<open>After the inner loop the chunk is still out of the timeline and of the ready heap.\<close>

lemma drains_selecting:
  assumes sel: "selecting d game_time max_ticks {i} ow" and i: "i < length (ow_chunks ow)" "ck_address (ow_chunks ow ! i) = a"
    and dr: "drains d i a (tl_queued_per_chunk (ow_limits ow)) game_time max_ticks ow ow' ts q rem"
    and less: "length (ow_selected ow) < max_ticks"
  shows "selecting d game_time max_ticks {i} ow'"
proof -
  let ?c = "chunk_set_queue d q (ow_chunks ow ! i)" and ?cs = "ow_chunks ow"
  have ow': "ow' = sel_upd d i q rem (ow_selected ow @ ts) ow" using dr by (simp add: drains_def)
  have chunks: "chunks_ok (ow_limits ow) ?cs" using sel by (simp add: selecting_def)
  note dist = chunk_keys_distinct [OF chunks]
  have cok: "chunk_ok (tl_queued_per_chunk (ow_limits ow)) ?c"
    using chunk_ok_set_queue [OF chunks_ok_nth [OF chunks i(1)], of q d] dr i(2) by (simp add: drains_def)
  have chunks': "chunks_ok (ow_limits ow) (?cs[i := ?c])" by (rule chunks_ok_update [OF chunks i(1) cok]) simp
  have nth: "?cs[i := ?c] ! j = (if j = i then ?c else ?cs ! j)" if "j < length ?cs" for j using that by simp
  have keys: "keys_of (?cs[i := ?c]) J = keys_of ?cs J" if "J \<subseteq> {..<length ?cs}" for J
    unfolding keys_of_def
  proof (rule image_cong)
    fix j assume "j \<in> J"
    then have "j < length ?cs" using that by auto
    then show "chunk_key (?cs[i := ?c] ! j) = chunk_key (?cs ! j)" by (cases "j = i") simp_all
  qed simp
  have flight: "in_flight d ({i} \<union> ready_set ow) ow" "{i} \<inter> ready_set ow = {}" using sel by (auto simp: selecting_def)
  have "heads d (?cs[i := ?c]) k = heads d ?cs k" if "k \<noteq> chunk_key (?cs ! i)" for k
    using heads_update [OF dist i(1), of ?c d] that by simp
  then have "in_flight d ({i} \<union> ready_set ow) ow'"
    using flight(1) keys [of "{i} \<union> ready_set ow"] unfolding ow' in_flight_def by (auto simp: fun_eq_iff)
  moreover have "ready_wf d game_time ow'"
  proof -
    have wf: "ready_wf d game_time ow" using sel by (simp add: selecting_def)
    have "ready_for d game_time (?cs[i := ?c]) r" if r: "r \<in> set (hp_values (ow_ready ow))" for r
    proof -
      have "rc_index r \<noteq> i" using r flight(2) by auto
      then have "?cs[i := ?c] ! rc_index r = ?cs ! rc_index r" by simp
      moreover have "ready_for d game_time ?cs r" using wf r by (simp add: ready_wf_def)
      ultimately show ?thesis by (simp add: ready_for_def)
    qed
    then show ?thesis using wf unfolding ow' by (simp add: ready_wf_def)
  qed
  moreover have "length (ow_selected ow') < max_ticks \<longrightarrow>
      (\<forall>j < length (ow_chunks ow'). due_chunk d game_time (ow_chunks ow' ! j) \<longrightarrow> j \<in> {i} \<union> ready_set ow')"
  proof (intro impI allI)
    fix j assume "j < length (ow_chunks ow')" "due_chunk d game_time (ow_chunks ow' ! j)"
    then show "j \<in> {i} \<union> ready_set ow'" using sel less unfolding selecting_def ow' by (cases "j = i") auto
  qed
  moreover have "\<forall>c \<in> set (ow_chunks ow'). behind (ck_address c) (sched_values (tq_heap (chunk_queue d c))) (ow_selected ow')"
  proof
    fix c assume "c \<in> set (ow_chunks ow')"
    then obtain j where j: "j < length ?cs" "c = ?cs[i := ?c] ! j" unfolding ow' by (auto simp: in_set_conv_nth)
    show "behind (ck_address c) (sched_values (tq_heap (chunk_queue d c))) (ow_selected ow')"
    proof (cases "j = i")
      case True
      then show ?thesis using dr i j unfolding ow' by (simp add: drains_def)
    next
      case False
      then have c: "c = ?cs ! j" using j nth by simp
      have "ck_address c \<noteq> a" using chunk_addresses_distinct [of ?cs] chunks i False j(1) c by (auto simp: chunks_ok_def distinct_conv_nth)
      then have "\<forall>t \<in> set ts. tick_chunk (st_position t) \<noteq> ck_address c" using dr by (auto simp: drains_def)
      moreover have "behind (ck_address c) (sched_values (tq_heap (chunk_queue d c))) (ow_selected ow)" using sel j(1) c by (simp add: selecting_def)
      ultimately show ?thesis unfolding ow' by (auto simp: behind_def)
    qed
  qed
  moreover have "\<forall>s \<in> set (ow_selected ow'). st_trigger_tick s \<le> game_time" using sel dr unfolding ow' by (auto simp: selecting_def drains_def)
  ultimately show ?thesis using sel dr chunks' flight(2) unfolding selecting_def ow' by (simp add: drains_def index_fits_def)
qed

text \<open>The three ways the chunk is put back.\<close>

lemma in_flight_drop:
  assumes "in_flight d (insert i R) ow" "heads d (ow_chunks ow) (chunk_key (ow_chunks ow ! i)) = None"
  shows "in_flight d R ow"
  using assms by (auto simp: in_flight_def fun_eq_iff)

lemma settle_empty:
  assumes sel: "selecting d game_time max_ticks {i} ow" and i: "i < length (ow_chunks ow)" "scheduled_peek (tq_heap (owner_queue d i ow)) = None"
  shows "selecting d game_time max_ticks {} ow"
proof -
  have chunks: "chunks_ok (ow_limits ow) (ow_chunks ow)" and fl: "in_flight d (insert i (ready_set ow)) ow" using sel by (auto simp: selecting_def)
  have "heads d (ow_chunks ow) (chunk_key (ow_chunks ow ! i)) = None"
    using heads_at [OF chunk_keys_distinct [OF chunks] i(1), of d] i(2) by (simp add: head_time_def)
  from in_flight_drop [OF fl this] sel i(2) show ?thesis by (auto simp: selecting_def due_chunk_def)
qed

lemma settle_ready:
  assumes sel: "selecting d game_time max_ticks {i} ow" and i: "i < length (ow_chunks ow)" "scheduled_peek (tq_heap (owner_queue d i ow)) = Some t"
    "due_chunk d game_time (ow_chunks ow ! i)"
  shows "\<exists>rdy. ready_push (ow_ready ow) (ready_chunk i t) = Some rdy \<and> selecting d game_time max_ticks {} (ow\<lparr>ow_ready := rdy\<rparr>)"
proof -
  have wf: "ready_wf d game_time ow" "chunks_ok (ow_limits ow) (ow_chunks ow)" "i \<notin> ready_set ow" using sel by (auto simp: selecting_def)
  obtain rdy where r: "ready_push (ow_ready ow) (ready_chunk i t) = Some rdy" "ready_wf d game_time (ow\<lparr>ow_ready := rdy\<rparr>)"
      "ready_set (ow\<lparr>ow_ready := rdy\<rparr>) = insert i (ready_set ow)"
    using ready_push_wf [OF wf(1,2) i(1) wf(3) i(3,2)] by blast
  have "in_flight d (insert i (ready_set ow)) (ow\<lparr>ow_ready := rdy\<rparr>)" using sel by (simp add: selecting_def in_flight_def cong: if_cong)
  then have "selecting d game_time max_ticks {} (ow\<lparr>ow_ready := rdy\<rparr>)"
    using sel r(2,3) unfolding selecting_def by (simp add: index_fits_def)
  then show ?thesis using r(1) by blast
qed

lemma dom_flight:
  assumes "in_flight d J ow"
  shows "dom (index_map (timeline d ow)) \<subseteq> chunk_key ` set (ow_chunks ow)"
proof
  fix k assume "k \<in> dom (index_map (timeline d ow))"
  then have "heads d (ow_chunks ow) k \<noteq> None" using assms by (auto simp: in_flight_def split: if_splits)
  then show "k \<in> chunk_key ` set (ow_chunks ow)" by (rule contrapos_np) (rule heads_other)
qed

lemma put_flight:
  assumes chunks: "chunks_ok (ow_limits ow) (ow_chunks ow)" and fits: "index_fits ow (timeline d ow)" and fl: "in_flight d (insert i R) ow" and fresh: "i \<notin> R"
    and i: "i < length (ow_chunks ow)" "scheduled_peek (tq_heap (owner_queue d i ow)) = Some t" "ck_registered (ow_chunks ow ! i)"
  shows "\<exists>idx. put_timeline d (chunk_key (ow_chunks ow ! i)) (st_trigger_tick t) ow = Some (set_timeline d idx ow) \<and> index_fits ow idx \<and>
    in_flight d R (set_timeline d idx ow)"
proof -
  let ?k = "chunk_key (ow_chunks ow ! i)"
  note dist = chunk_keys_distinct [OF chunks]
  have len: "length (ow_chunks ow) \<le> tl_max_chunks (ow_limits ow)" using chunks by (simp add: chunks_ok_def)
  obtain idx where idx: "put_timeline d ?k (st_trigger_tick t) ow = Some (set_timeline d idx ow)" "index_fits ow idx"
      "index_map idx = (index_map (timeline d ow))(?k \<mapsto> st_trigger_tick t)"
    using put_timeline_ok [OF fits dom_flight [OF fl] len, of ?k "st_trigger_tick t"] i(1) by auto
  have R: "R \<subseteq> {..<length (ow_chunks ow)}" using fl by (simp add: in_flight_def)
  have "?k \<notin> keys_of (ow_chunks ow) R"
  proof
    assume "?k \<in> keys_of (ow_chunks ow) R"
    then obtain j where j: "j \<in> R" "chunk_key (ow_chunks ow ! j) = ?k" by (auto simp: keys_of_def)
    then have "j < length (ow_chunks ow)" using R by auto
    then have "j = i" using dist j(2) i(1) by (simp add: distinct_conv_nth) blast
    then show False using j(1) fresh by simp
  qed
  moreover have "heads d (ow_chunks ow) ?k = Some (st_trigger_tick t)" using heads_at [OF dist i(1), of d] i(2,3) by (simp add: head_time_def)
  ultimately have "in_flight d R (set_timeline d idx ow)" using fl R unfolding in_flight_def by (auto simp: idx(3) fun_eq_iff)
  then show ?thesis using idx by blast
qed

lemma settle_timeline:
  assumes sel: "selecting d game_time max_ticks {i} ow" and i: "i < length (ow_chunks ow)" "scheduled_peek (tq_heap (owner_queue d i ow)) = Some t"
    "ck_registered (ow_chunks ow ! i)" and full: "length (ow_selected ow) < max_ticks \<longrightarrow> game_time < st_trigger_tick t"
  shows "\<exists>idx. put_timeline d (chunk_key (ow_chunks ow ! i)) (st_trigger_tick t) ow = Some (set_timeline d idx ow) \<and>
    selecting d game_time max_ticks {} (set_timeline d idx ow)"
proof -
  have a: "chunks_ok (ow_limits ow) (ow_chunks ow)" "index_fits ow (timeline d ow)" "in_flight d (insert i (ready_set ow)) ow" "i \<notin> ready_set ow"
    using sel by (auto simp: selecting_def)
  obtain idx where idx: "put_timeline d (chunk_key (ow_chunks ow ! i)) (st_trigger_tick t) ow = Some (set_timeline d idx ow)" "index_fits ow idx"
      "in_flight d (ready_set ow) (set_timeline d idx ow)"
    using put_flight [OF a i] by blast
  have "\<not> due_chunk d game_time (ow_chunks ow ! i)" if "length (ow_selected ow) < max_ticks" using full that i(2) by (auto simp: due_chunk_def)
  then have "selecting d game_time max_ticks {} (set_timeline d idx ow)"
    using sel idx(2,3) unfolding selecting_def by (auto simp: ready_wf_def)
  then show ?thesis using idx(1) by blast
qed

lemma phase_frame_ready: "phase_frame d ow (ow\<lparr>ow_ready := r\<rparr>)"
  by (rule phase_frameI [where idx = "timeline d ow" and cs = "ow_chunks ow" and rdy = r and rem = "ow_remaining_ids ow" and sel = "ow_selected ow"])
    (cases d; simp add: list_all2_refl)+

lemma phase_frame_timeline: "phase_frame d ow (set_timeline d idx ow)"
  by (rule phase_frameI [where idx = idx and cs = "ow_chunks ow" and rdy = "ow_ready ow" and rem = "ow_remaining_ids ow" and sel = "ow_selected ow"])
    (cases d; simp add: list_all2_refl)+

lemma select_loop_ok:
  assumes "selecting d game_time max_ticks {} ow" "max_ticks - length (ow_selected ow) < fuel"
  shows "\<exists>ow'. select_loop fuel d game_time max_ticks ow = Some ow' \<and> selecting d game_time max_ticks {} ow' \<and> phase_frame d ow ow' \<and>
    (length (ow_selected ow') < max_ticks \<longrightarrow> hp_values (ow_ready ow') = [])"
  using assms
proof (induction fuel arbitrary: ow)
  case (Suc fuel)
  note sel = Suc.prems(1)
  have refl: "phase_frame d ow ow" using phase_frame_ready [of d ow "ow_ready ow"] by simp
  show ?case
  proof (cases "length (ow_selected ow) < max_ticks \<and> hp_values (ow_ready ow) \<noteq> []")
    case False
    then have "select_loop (Suc fuel) d game_time max_ticks ow = Some ow" by (auto simp: ready_pop_def heap_pop_def)
    then show ?thesis using sel refl False by (intro exI [of _ ow]) auto
  next
    case True
    obtain r rdy where r: "ready_pop (ow_ready ow) = Some (Some r, rdy)" "ready_for d game_time (ow_chunks ow) r"
        "selecting d game_time max_ticks {rc_index r} (ow\<lparr>ow_ready := rdy\<rparr>)"
      using ready_pop_selecting [OF sel] True by blast
    let ?i = "rc_index r" and ?ow1 = "ow\<lparr>ow_ready := rdy\<rparr>" and ?c = "ow_chunks ow ! rc_index r" and ?L = "tl_queued_per_chunk (ow_limits ow)"
    obtain t where t: "?i < length (ow_chunks ow)" "scheduled_peek (tq_heap (chunk_queue d ?c)) = Some t" "st_trigger_tick t \<le> game_time"
        "ck_registered ?c" "ck_eligible ?c"
      using r(2) by (auto simp: ready_for_def due_chunk_def)
    have cok: "chunk_ok ?L ?c" using chunks_ok_nth t(1) sel by (auto simp: selecting_def)
    have "\<exists>ow' ts q rem. drain_chunk (max_ticks + 1) d game_time max_ticks ?i ?ow1 = Some ow' \<and>
        drains d ?i (ck_address ?c) ?L game_time max_ticks ?ow1 ow' ts q rem \<and> ts \<noteq> []"
      by (rule drain_chunk_ok [where t = t]) (use sel t cok True in \<open>auto simp: selecting_def chunk_ok_def\<close>)
    then obtain ow2 ts q rem where dr: "drain_chunk (max_ticks + 1) d game_time max_ticks ?i ?ow1 = Some ow2"
        "drains d ?i (ck_address ?c) ?L game_time max_ticks ?ow1 ow2 ts q rem" "ts \<noteq> []" by blast
    have sel2: "selecting d game_time max_ticks {?i} ow2" by (rule drains_selecting [OF r(3), where a = "ck_address ?c"]) (use t dr True in simp_all)
    have fr2: "phase_frame d ow ow2" using phase_frame_trans [OF phase_frame_ready drains_frame [OF _ dr(2)]] t(1,4,5) by simp
    have ow2: "ow2 = sel_upd d ?i q rem (ow_selected ow @ ts) ?ow1" using dr(2) by (simp add: drains_def)
    have i2: "?i < length (ow_chunks ow2)" "owner_queue d ?i ow2 = q" "ck_registered (ow_chunks ow2 ! ?i)" "ck_eligible (ow_chunks ow2 ! ?i)"
        "length (ow_selected ow2) = length (ow_selected ow) + length ts" "chunk_key (ow_chunks ow2 ! ?i) = chunk_key ?c"
        "ck_address (ow_chunks ow2 ! ?i) = ck_address ?c"
      using t unfolding ow2 by simp_all
    have fuel: "max_ticks - length (ow_selected ow2) < fuel" using i2(5) dr(3) Suc.prems(2) True by (cases ts) auto
    have step: "select_loop (Suc fuel) d game_time max_ticks ow =
        (case scheduled_peek (tq_heap q) of
           None \<Rightarrow> select_loop fuel d game_time max_ticks ow2
         | Some tick \<Rightarrow>
             if st_trigger_tick tick \<le> game_time \<and> length (ow_selected ow2) < max_ticks
             then Option.bind (ready_push (ow_ready ow2) (ready_chunk ?i tick)) (\<lambda>ready. select_loop fuel d game_time max_ticks (ow2\<lparr>ow_ready := ready\<rparr>))
             else Option.bind (put_timeline d (chunk_key (ow_chunks ow2 ! ?i)) (st_trigger_tick tick) ow2) (select_loop fuel d game_time max_ticks))"
      using True r(1) dr(1) i2 by (simp add: Let_def chunk_address_key cong: option.case_cong if_cong)
    obtain ow3 where ow3: "select_loop (Suc fuel) d game_time max_ticks ow = select_loop fuel d game_time max_ticks ow3"
        "selecting d game_time max_ticks {} ow3" "phase_frame d ow2 ow3" "ow_selected ow3 = ow_selected ow2"
    proof (cases "scheduled_peek (tq_heap q)")
      case None
      then show thesis using that [of ow2] settle_empty [OF sel2 i2(1)] i2(2) step phase_frame_ready [of d ow2 "ow_ready ow2"] by simp
    next
      case (Some u)
      show thesis
      proof (cases "st_trigger_tick u \<le> game_time \<and> length (ow_selected ow2) < max_ticks")
        case True
        have "due_chunk d game_time (ow_chunks ow2 ! ?i)" using Some True i2 by (simp add: due_chunk_def)
        then obtain rdy2 where "ready_push (ow_ready ow2) (ready_chunk ?i u) = Some rdy2" "selecting d game_time max_ticks {} (ow2\<lparr>ow_ready := rdy2\<rparr>)"
          using settle_ready [OF sel2 i2(1)] i2(2) Some by blast
        then show thesis using that [of "ow2\<lparr>ow_ready := rdy2\<rparr>"] step Some True phase_frame_ready by simp
      next
        case False
        then obtain idx where "put_timeline d (chunk_key (ow_chunks ow2 ! ?i)) (st_trigger_tick u) ow2 = Some (set_timeline d idx ow2)"
            "selecting d game_time max_ticks {} (set_timeline d idx ow2)"
          using settle_timeline [OF sel2 i2(1) _ i2(3), of u] i2(2) Some by (auto simp: not_le)
        then show thesis using that [of "set_timeline d idx ow2"] step Some False phase_frame_timeline by simp
      qed
    qed
    have "max_ticks - length (ow_selected ow3) < fuel" using fuel ow3(4) by simp
    from Suc.IH [OF ow3(2) this] show ?thesis
      unfolding ow3(1) using phase_frame_trans [OF fr2 ow3(3)] phase_frame_trans by blast
  qed
qed simp

end
