(* ===== verification/TickPhase.thy ===== *)
theory TickPhase
  imports TickSelect
begin

text \<open>
  \<open>begin_phase\<close> as a whole: which ticks it selects, in which order, and what it leaves behind.
\<close>

section \<open>Back to the timeline\<close>

lemma requeue_ready_ok:
  assumes "chunks_ok (ow_limits ow) (ow_chunks ow)" "index_fits ow (timeline d ow)" "in_flight d (rc_index ` set rs) ow" "distinct (map rc_index rs)"
    "\<forall>r \<in> set rs. ready_for d game_time (ow_chunks ow) r"
  shows "\<exists>idx. requeue_ready d rs ow = Some (set_timeline d idx ow) \<and> index_fits ow idx \<and> in_flight d {} (set_timeline d idx ow)"
  using assms
proof (induction rs arbitrary: ow)
  case Nil
  then show ?case by (intro exI [of _ "timeline d ow"]) (simp add: set_timeline_id)
next
  case (Cons r rs)
  obtain t where t: "rc_index r < length (ow_chunks ow)" "scheduled_peek (tq_heap (owner_queue d (rc_index r) ow)) = Some t"
      "ck_registered (ow_chunks ow ! rc_index r)"
    using Cons.prems(5) by (auto simp: ready_for_def due_chunk_def)
  have fl: "in_flight d (insert (rc_index r) (rc_index ` set rs)) ow" "rc_index r \<notin> rc_index ` set rs" using Cons.prems(3,4) by auto
  obtain idx where idx: "put_timeline d (chunk_key (ow_chunks ow ! rc_index r)) (st_trigger_tick t) ow = Some (set_timeline d idx ow)" "index_fits ow idx"
      "in_flight d (rc_index ` set rs) (set_timeline d idx ow)"
    using put_flight [OF Cons.prems(1,2) fl t] by blast
  let ?ow = "set_timeline d idx ow"
  obtain idx2 where "requeue_ready d rs ?ow = Some (set_timeline d idx2 ?ow)" "index_fits ?ow idx2" "in_flight d {} (set_timeline d idx2 ?ow)"
    using Cons.IH [of ?ow] Cons.prems idx by auto
  then show ?case using t(2) idx(1) by (intro exI [of _ idx2]) (simp add: Let_def chunk_address_key)
qed

lemma in_flight_none: "in_flight d {} ow \<longleftrightarrow> index_map (timeline d ow) = heads d (ow_chunks ow)"
  by (simp add: in_flight_def keys_of_def)

section \<open>What the frame keeps\<close>

lemma chunk_step_other: "chunk_step d c c' \<Longrightarrow> d' \<noteq> d \<Longrightarrow> chunk_queue d' c' = chunk_queue d' c"
  by (auto simp: chunk_step_def)

lemma chunk_step_same:
  "chunk_step d c c' \<Longrightarrow> ck_address c' = ck_address c \<and> ck_registered c' = ck_registered c \<and> ck_eligible c' = ck_eligible c \<and> chunk_key c' = chunk_key c \<and>
    chunk_heap_bytes env c' = chunk_heap_bytes env c"
  by (cases d) (auto simp: chunk_step_def chunk_key_def chunk_heap_bytes_def)

lemma heads_chunk_step:
  assumes "list_all2 (chunk_step d) cs cs'" "d' \<noteq> d"
  shows "heads d' cs' = heads d' cs"
  using assms(1)
proof (induction rule: list_all2_induct)
  case (Cons c cs c' cs')
  have "heads d' (x # xs) k = (if chunk_key x = k then if ck_registered x then head_time d' x else None else heads d' xs k)" for x xs k
    by (simp add: heads_def)
  then show ?case using Cons chunk_step_same [OF Cons(1)] chunk_step_other [OF Cons(1) assms(2)] by (simp add: fun_eq_iff head_time_def)
qed simp

lemma bytes_chunk_step: "list_all2 (chunk_step d) cs cs' \<Longrightarrow> sum_list (map (chunk_heap_bytes env) cs') = sum_list (map (chunk_heap_bytes env) cs)"
  by (induction rule: list_all2_induct) (simp_all add: chunk_step_same [where env = env])

lemma domain_ticks_other: "list_all2 (chunk_step d) cs cs' \<Longrightarrow> d' \<noteq> d \<Longrightarrow> domain_ticks d' cs' = domain_ticks d' cs"
  unfolding domain_ticks_def by (induction rule: list_all2_induct) (simp_all add: chunk_ticks_def chunk_step_other)

section \<open>Selection\<close>

definition nothing_due :: "TickDomain \<Rightarrow> int \<Rightarrow> ChunkQueues list \<Rightarrow> bool" where
  "nothing_due d game_time chunks \<longleftrightarrow>
    (\<forall>c \<in> set chunks. ck_registered c \<and> ck_eligible c \<longrightarrow> (\<forall>t \<in> set (sched_values (tq_heap (chunk_queue d c))). game_time < st_trigger_tick t))"

text \<open>The contract of a phase that has begun.\<close>

definition phase_selection :: "TickDomain \<Rightarrow> int \<Rightarrow> nat \<Rightarrow> ScheduledTickOwner \<Rightarrow> ScheduledTickOwner \<Rightarrow> bool" where
  "phase_selection d game_time max_ticks ow ow' \<longleftrightarrow> ow_active ow' = Some d \<and> ow_cursor ow' = 0 \<and> length (ow_selected ow') \<le> max_ticks \<and>
    (\<forall>t \<in> set (ow_selected ow'). st_trigger_tick t \<le> game_time) \<and> chunkwise (ow_selected ow') \<and>
    domain_ticks d (ow_chunks ow) = domain_ticks d (ow_chunks ow') + mset (ow_selected ow') \<and>
    list_all2 (chunk_step d) (ow_chunks ow) (ow_chunks ow') \<and>
    (length (ow_selected ow') < max_ticks \<longrightarrow> nothing_due d game_time (ow_chunks ow'))"

lemma selecting_nothing_due:
  assumes sel: "selecting d game_time max_ticks {} ow" and less: "length (ow_selected ow) < max_ticks" and empty: "hp_values (ow_ready ow) = []"
  shows "nothing_due d game_time (ow_chunks ow)"
  unfolding nothing_due_def
proof (intro ballI impI)
  fix c t assume c: "c \<in> set (ow_chunks ow)" "ck_registered c \<and> ck_eligible c" and t: "t \<in> set (sched_values (tq_heap (chunk_queue d c)))"
  obtain i where i: "i < length (ow_chunks ow)" "c = ow_chunks ow ! i" using c(1) by (auto simp: in_set_conv_nth)
  have "\<not> due_chunk d game_time c" using sel less empty i by (auto simp: selecting_def)
  moreover obtain u where u: "scheduled_peek (tq_heap (chunk_queue d c)) = Some u" using t by (cases "scheduled_peek (tq_heap (chunk_queue d c))") (auto simp: peek_None)
  ultimately have "game_time < st_trigger_tick u" using c(2) by (auto simp: due_chunk_def)
  moreover have "sched_ok (tq_heap (chunk_queue d c))" using sel c(1) queue_okD(1) by (auto simp: selecting_def chunks_ok_def chunk_ok_def)
  ultimately show "game_time < st_trigger_tick t" using head_trigger_least [OF _ u t] by simp
qed

lemma owner_ok_frame:
  assumes ok: "owner_ok env ow" and fr: "phase_frame d (ow\<lparr>ow_active := Some d\<rparr>) ow'" and sel: "selecting d game_time max_ticks {} ow'"
    and idx: "index_fits ow' idx" "in_flight d {} (set_timeline d idx ow')" and idle: "ow_cursor ow = 0"
  shows "owner_ok env ((set_timeline d idx ow')\<lparr>ow_ready := heap_clear (ow_ready ow')\<rparr>)" (is "owner_ok env ?r")
proof -
  obtain cs rdy rem se x where ow': "ow' = set_timeline d x (ow\<lparr>ow_active := Some d, ow_chunks := cs, ow_ready := rdy, ow_remaining_ids := rem, ow_selected := se\<rparr>)"
    using fr unfolding phase_frame_def by auto
  have steps: "list_all2 (chunk_step d) (ow_chunks ow) cs" using fr ow' by (simp add: phase_frame_def)
  have r: "?r = set_timeline d idx (ow\<lparr>ow_active := Some d, ow_chunks := cs, ow_ready := heap_clear rdy, ow_remaining_ids := rem, ow_selected := se\<rparr>)"
    unfolding ow' by (cases d) simp_all
  have "timeline_ok d' ?r" for d'
  proof (cases "d' = d")
    case True
    then show ?thesis using idx by (simp add: timeline_ok_def in_flight_none index_fits_def)
  next
    case False
    have tl: "timeline d' ?r = timeline d' ow" unfolding r using False by (cases d; cases d') simp_all
    show ?thesis using owner_okD(2) [OF ok, of d'] heads_chunk_step [OF steps False]
      unfolding timeline_ok_def tl unfolding r by (simp add: index_fits_def)
  qed
  moreover have "phase_ok ?r" using owner_okD(4) [OF ok] sel idle unfolding phase_ok_iff r ow' by (simp add: selecting_def)
  moreover have "memory_ok env ?r" using owner_okD(5) [OF ok] bytes_chunk_step [OF steps, of env] unfolding r
    by (cases d) (simp_all add: memory_ok_def used_bytes_def scratch_bytes_def)
  moreover have "scratch_ok ?r" using owner_okD(6) [OF ok] unfolding r by (simp add: scratch_ok_def cong: option.case_cong prod.case_cong)
  moreover have "chunks_ok (ow_limits ?r) (ow_chunks ?r)" using sel by (simp add: selecting_def)
  moreover have "ready_idle ?r" using sel by (simp add: selecting_def ready_wf_def ready_idle_def heap_clear_def)
  ultimately show ?thesis by (simp add: owner_ok_def)
qed

lemma begin_phase_ok:
  assumes ok: "owner_ok env ow"
  shows "\<exists>r ow'. begin_phase d game_time max_ticks ow = Some (r, ow') \<and> owner_ok env ow' \<and>
    (if ow_active ow \<noteq> None then r = Inl PhaseActive \<and> ow' = ow
     else if max_ticks > tl_selected_per_phase (ow_limits ow) then r = Inl PhaseLimit \<and> ow' = ow
     else r = Inr (length (ow_selected ow')) \<and> phase_selection d game_time max_ticks ow ow')"
proof (cases "ow_active ow \<noteq> None \<or> max_ticks > tl_selected_per_phase (ow_limits ow)")
  case True
  then show ?thesis using ok by (auto simp: begin_phase_def)
next
  case False
  note chunks = owner_okD(1) [OF ok] and ph = owner_okD(4) [OF ok, unfolded phase_ok_iff]
  let ?ow0 = "ow\<lparr>ow_active := Some d\<rparr>"
  have tl0: "timeline d' ?ow0 = timeline d' ow" for d' by (cases d') simp_all
  have empty: "ow_selected ow = []" "ow_cursor ow = 0" "hp_values (ow_ready ow) = []" using ph False owner_okD(3) [OF ok] by (auto simp: ready_idle_def)
  have fits: "index_ok (timeline d ow)" "si_scan (timeline d ow) = None" "si_max_keys (timeline d ow) = tl_max_chunks (ow_limits ow)"
      and map: "index_map (timeline d ow) = heads d (ow_chunks ow)"
    using owner_okD(2) [OF ok, of d] by (auto simp: timeline_ok_def index_fits_def)
  let ?K = "dom (index_map (timeline d ow))"
  obtain i1 where i1: "begin_scan (timeline d ow) = Some i1" "index_map i1 = index_map (timeline d ow)" "scanning i1 ?K ?K None"
      "si_max_keys i1 = si_max_keys (timeline d ow)"
    using begin_scan_ok [OF fits(1,2)] by blast
  let ?ow1 = "set_timeline d i1 ?ow0"
  have fin: "finite ?K" using i1(3) by (auto simp: scanning_def)
  have len: "card ?K = si_len i1" using i1(2,3) card_keys [of i1] dom_index_map [of i1] by (auto simp: scanning_def index_ok_def)
  have wf1: "ready_wf d game_time ?ow1" using empty owner_okD(3) [OF ok] by (simp add: ready_wf_def ready_idle_def heap_ok_def)
  have fl1: "in_flight d (ready_set ?ow1) ?ow1" using empty i1(2) map by (simp add: in_flight_def keys_of_def)
  have all1: "all_ready d game_time ?K ?ow1" unfolding all_ready_def
  proof (intro allI impI)
    fix i assume i: "i < length (ow_chunks ?ow1)" "due_chunk d game_time (ow_chunks ?ow1 ! i)"
    then have "heads d (ow_chunks ow) (chunk_key (ow_chunks ow ! i)) \<noteq> None"
      using heads_at [OF chunk_keys_distinct [OF chunks], of i d] by (auto simp: due_chunk_def head_time_def)
    then show "chunk_key (ow_chunks ?ow1 ! i) \<in> ?K \<or> i \<in> ready_set ?ow1" using map by auto
  qed
  obtain i2 rdy c2 where i2: "collect_ready (si_len i1 + 1) d game_time ?ow1 = Some (set_timeline d i2 (?ow1\<lparr>ow_ready := rdy\<rparr>))" "scanning i2 ?K {} c2"
      "si_max_keys i2 = si_max_keys i1" "in_flight d (ready_set (set_timeline d i2 (?ow1\<lparr>ow_ready := rdy\<rparr>))) (set_timeline d i2 (?ow1\<lparr>ow_ready := rdy\<rparr>))"
      "ready_wf d game_time (set_timeline d i2 (?ow1\<lparr>ow_ready := rdy\<rparr>))" "all_ready d game_time {} (set_timeline d i2 (?ow1\<lparr>ow_ready := rdy\<rparr>))"
    using collect_ready_ok [of ?ow1 d ?K ?K None "si_len i1 + 1" game_time] chunks i1(3) fin len wf1 fl1 all1 by auto
  obtain i3 where i3: "finish_scan i2 = Some i3" "index_ok i3" "si_scan i3 = None" "index_map i3 = index_map i2" "si_max_keys i3 = si_max_keys i2"
    using finish_scan_ok [OF i2(2)] by blast
  let ?ow3 = "set_timeline d i3 (?ow0\<lparr>ow_ready := rdy\<rparr>)"
  have ow3: "set_timeline d i3 (set_timeline d i2 (?ow1\<lparr>ow_ready := rdy\<rparr>)) = ?ow3" by (cases d) simp_all
  have "in_flight d (ready_set ?ow3) ?ow3" using i2(4) i3(4) by (simp add: in_flight_def cong: if_cong)
  moreover have "ready_wf d game_time ?ow3" "all_ready d game_time {} ?ow3" using i2(5,6) by (simp_all add: ready_wf_def all_ready_def)
  ultimately have sel3: "selecting d game_time max_ticks {} ?ow3"
    using chunks ph empty i3 i2(3) i1(4) fits(3) False
    by (simp add: selecting_def index_fits_def all_ready_def chunkwise_def behind_def)
  obtain ow4 where ow4: "select_loop (max_ticks + 1) d game_time max_ticks ?ow3 = Some ow4" "selecting d game_time max_ticks {} ow4" "phase_frame d ?ow3 ow4"
      "length (ow_selected ow4) < max_ticks \<longrightarrow> hp_values (ow_ready ow4) = []"
    using select_loop_ok [OF sel3, of "max_ticks + 1"] empty by auto
  have fr4: "phase_frame d ?ow0 ow4"
    by (rule phase_frame_trans [OF phase_frame_trans [OF phase_frame_ready [of d ?ow0 rdy] phase_frame_timeline [of d _ i3]]]) (use ow4(3) in simp)
  obtain i5 where i5: "requeue_ready d (hp_values (ow_ready ow4)) ow4 = Some (set_timeline d i5 ow4)" "index_fits ow4 i5" "in_flight d {} (set_timeline d i5 ow4)"
    using requeue_ready_ok [of ow4 d "hp_values (ow_ready ow4)" game_time] ow4(2) by (auto simp: selecting_def ready_wf_def)
  let ?r = "(set_timeline d i5 ow4)\<lparr>ow_ready := heap_clear (ow_ready ow4)\<rparr>"
  have "owner_ok env ?r" by (rule owner_ok_frame [OF ok fr4 ow4(2) i5(2,3) empty(2)])
  moreover have "begin_phase d game_time max_ticks ow = Some (Inr (length (ow_selected ?r)), ?r)"
    using False i1(1) i2(1) i3(1) ow3 ow4(1) i5(1) tl0
    by (simp add: begin_phase_def Let_def del: collect_ready.simps select_loop.simps)
  moreover have "phase_selection d game_time max_ticks ow ?r"
  proof -
    have "ow_active ow4 = Some d \<and> ow_cursor ow4 = 0" using fr4 empty(2) unfolding phase_frame_def by auto
    moreover have "nothing_due d game_time (ow_chunks ow4)" if "length (ow_selected ow4) < max_ticks"
      using selecting_nothing_due [OF ow4(2) that] ow4(4) that by blast
    ultimately show ?thesis using fr4 ow4(2) empty(1) by (simp add: phase_selection_def phase_frame_def selecting_def)
  qed
  ultimately show ?thesis using False by simp
qed

end
