(* ===== verification/TickClear.thy ===== *)
theory TickClear
  imports TickPhase
begin

text \<open>
  \<open>clear_area\<close>: the ticks of a box are removed from the queues of the registered chunks and from the ticks
  of the running phase, and nothing else is.
\<close>

section \<open>Capacities under removal\<close>

definition revisit_caps :: "Revisits \<Rightarrow> nat \<times> nat" where
  "revisit_caps r = (rv_capacity r, rv_tickets_capacity r)"

lemma swapped_caps: "revisits_swapped i j r = Some r' \<Longrightarrow> revisit_caps r' = revisit_caps r"
  by (auto simp: revisits_swapped_def repoint_def revisit_caps_def Let_def bind_eq_Some_conv split: if_splits)

lemma remove_at_caps: "heap_remove_at prec revisits_swapped v i r = Some (x, d, v', r') \<Longrightarrow> revisit_caps r' = revisit_caps r"
proof -
  have raise: "revisit_caps s' = revisit_caps s" if "heap_raise prec revisits_swapped v i s = Some (v', d', s')" for v i s v' d' s'
    by (rule heap_raise_rule [where R = "\<lambda>v i t. revisit_caps t = revisit_caps s", OF that, THEN conjunct1]) (simp_all add: swapped_caps)
  have lower: "revisit_caps s' = revisit_caps s" if "heap_lower prec revisits_swapped v i s = Some (v', d', s')" for v i s v' d' s'
    by (rule heap_lower_rule [where R = "\<lambda>v i t. revisit_caps t = revisit_caps s", OF that, THEN conjunct1]) (simp_all add: swapped_caps)
  assume "heap_remove_at prec revisits_swapped v i r = Some (x, d, v', r')"
  then show ?thesis
    by (auto simp: heap_remove_at_def Let_def bind_eq_Some_conv split: if_splits dest!: raise lower swapped_caps)
qed

lemma defer_caps: "revisits_defer r x = Some r' \<Longrightarrow> revisit_caps r' = revisit_caps r"
  by (auto simp: revisits_defer_def revisit_caps_def split: if_splits)

lemma scan_caps: "remove_scan prec f v r c p = Some (v', r', p') \<Longrightarrow> revisit_caps r' = revisit_caps r"
proof (induction "length v - c" arbitrary: v r c p rule: less_induct)
  case less
  note eq = remove_scan.simps [of prec f v r c p]
  obtain hit q where fq: "f (v ! c) p = (hit, q)" by (cases "f (v ! c) p")
  consider (stop) "\<not> c < length v" | (keep) "c < length v" "\<not> hit" | (drop) "c < length v" hit by blast
  then show ?case
  proof cases
    case stop
    then show ?thesis using less.prems unfolding eq by simp
  next
    case keep
    then have "remove_scan prec f v r (c + 1) q = Some (v', r', p')" using less.prems fq unfolding eq by simp
    then show ?thesis by (rule less.hyps [rotated]) (use keep in simp)
  next
    case drop
    obtain x d v1 r1 where rm: "heap_remove_at prec revisits_swapped v c r = Some (x, d, v1, r1)"
      using less.prems drop fq unfolding eq by (auto split: option.splits)
    note len = heap_remove_at_length [OF rm] and caps = remove_at_caps [OF rm]
    show ?thesis
    proof (cases "\<exists>e. d = Some e \<and> e < c")
      case True
      then obtain r2 where r2: "revisits_defer r1 (the d) = Some r2" "remove_scan prec f v1 r2 (c + 1) q = Some (v', r', p')"
        using less.prems drop fq rm unfolding eq by (auto simp: bind_eq_Some_conv)
      have "revisit_caps r' = revisit_caps r2" by (rule less.hyps [OF _ r2(2)]) (use drop len in auto)
      then show ?thesis using defer_caps [OF r2(1)] caps by simp
    next
      case False
      then have "remove_scan prec f v1 r1 c q = Some (v', r', p')" using less.prems drop fq rm unfolding eq by (auto split: if_splits)
      then have "revisit_caps r' = revisit_caps r1" by (rule less.hyps [rotated]) (use drop len in auto)
      then show ?thesis using caps by simp
    qed
  qed
qed

lemma deferred_caps: "remove_deferred prec f ts v r p = Some (v', r', p') \<Longrightarrow> revisit_caps r' = revisit_caps r"
proof (induction ts arbitrary: v r p)
  case (Cons t ts)
  have take: "revisit_caps r2 = revisit_caps r1" if "revisits_take r1 x = Some (y, r2)" for r1 x y r2
    using that by (auto simp: revisits_take_def revisit_caps_def split: if_splits)
  from Cons.prems show ?case
    by (auto split: if_splits prod.splits simp: Let_def bind_eq_Some_conv dest!: Cons.IH remove_at_caps take)
qed simp

lemma remove_if_bytes:
  assumes "remove_if f h p = Some (n, h', p')"
  shows "scheduled_heap_bytes env h' = scheduled_heap_bytes env h"
proof -
  obtain v1 r1 p1 v2 r2 p2 where r: "remove_scan tick_precedes f (hp_values (sh_heap h)) (revisits_reset (sh_revisits h)) 0 p = Some (v1, r1, p1)"
      "remove_deferred tick_precedes f [0..<length (rv_positions r1)] v1 r1 p1 = Some (v2, r2, p2)"
      "h' = \<lparr>sh_heap = (sh_heap h)\<lparr>hp_values := v2\<rparr>, sh_revisits = revisits_reset r2\<rparr>"
    using assms by (auto simp: remove_if_def Let_def bind_eq_Some_conv)
  have "revisit_caps r2 = revisit_caps (revisits_reset (sh_revisits h))" using deferred_caps [OF r(2)] scan_caps [OF r(1)] by simp
  then show ?thesis using r(3) by (simp add: scheduled_heap_bytes_def revisit_caps_def revisits_reset_def)
qed

section \<open>One chunk\<close>

abbreviation outside :: "TickBounds \<Rightarrow> ScheduledTick \<Rightarrow> bool" where
  "outside b t \<equiv> \<not> bounds_contains b (st_position t)"

lemma clear_run:
  assumes "ids_ok hash ids"
  shows "\<exists>ids'. pred_run (clear_visit b hash) ticks (Some ids) = (filter (outside b) ticks, Some ids') \<and> ids_ok hash ids' \<and>
    ids_set ids' = ids_set ids - identity ` {t \<in> set ticks. bounds_contains b (st_position t)} \<and>
    length (is_slots ids') = length (is_slots ids) \<and> is_capacity ids' = is_capacity ids"
  using assms
proof (induction ticks arbitrary: ids)
  case (Cons t ts)
  show ?case
  proof (cases "bounds_contains b (st_position t)")
    case True
    obtain i1 where i1: "identities_remove hash ids (identity t) = Some i1" "ids_ok hash i1" "ids_set i1 = ids_set ids - {identity t}"
        "length (is_slots i1) = length (is_slots ids)" "is_capacity i1 = is_capacity ids"
      using ids_remove_ok [OF Cons.prems, of "identity t"] by blast
    obtain i2 where "pred_run (clear_visit b hash) ts (Some i1) = (filter (outside b) ts, Some i2)" "ids_ok hash i2"
        "ids_set i2 = ids_set i1 - identity ` {t \<in> set ts. bounds_contains b (st_position t)}"
        "length (is_slots i2) = length (is_slots i1)" "is_capacity i2 = is_capacity i1"
      using Cons.IH [OF i1(2)] by blast
    moreover have "clear_visit b hash t (Some ids) = (True, Some i1)" using True i1(1) by (simp add: clear_visit_def)
    ultimately show ?thesis using True i1 by (intro exI [of _ i2]) auto
  next
    case False
    then have "clear_visit b hash t (Some ids) = (False, Some ids)" by (simp add: clear_visit_def)
    then show ?thesis using False Cons.IH [OF Cons.prems] by auto
  qed
qed simp

lemma clear_queue:
  assumes ok: "queue_ok L q"
  shows "\<exists>n h ids. remove_if (clear_visit b (tq_hash q)) (tq_heap q) (Some (tq_identities q)) = Some (n, h, Some ids) \<and>
    queue_ok L (q\<lparr>tq_heap := h, tq_identities := ids\<rparr>) \<and> mset (sched_values h) = filter_mset (outside b) (mset (sched_values (tq_heap q))) \<and>
    n + size (mset (sched_values h)) = size (mset (sched_values (tq_heap q))) \<and>
    (\<forall>env. queue_heap_bytes env (q\<lparr>tq_heap := h, tq_identities := ids\<rparr>) = queue_heap_bytes env q)"
proof -
  let ?f = "clear_visit b (tq_hash q)" and ?v = "sched_values (tq_heap q)"
  obtain n h p' order kept where r: "remove_if ?f (tq_heap q) (Some (tq_identities q)) = Some (n, h, p')" "sched_ok h" "mset order = mset ?v"
      "pred_run ?f order (Some (tq_identities q)) = (kept, p')" "mset (sched_values h) = mset kept" "n = length order - length kept"
      "hp_limit (sh_heap h) = hp_limit (sh_heap (tq_heap q))"
    using remove_if_ok [OF queue_okD(1) [OF ok], of ?f "Some (tq_identities q)"] by blast
  obtain ids where ids: "kept = filter (outside b) order" "p' = Some ids" "ids_ok (tq_hash q) ids"
      "ids_set ids = ids_set (tq_identities q) - identity ` {t \<in> set order. bounds_contains b (st_position t)}"
      "length (is_slots ids) = length (is_slots (tq_identities q))" "is_capacity ids = is_capacity (tq_identities q)"
    using clear_run [OF queue_okD(3) [OF ok], of b order] r(4) by auto
  have order: "set order = set ?v" "length order = length ?v" using r(3) by (metis set_mset_mset, metis size_mset)
  have ms: "mset (sched_values h) = filter_mset (outside b) (mset ?v)" using r(3,5) ids(1) by (metis mset_filter)
  then have set: "set (sched_values h) = {t \<in> set ?v. outside b t}" by (metis set_mset_filter set_mset_mset)
  have len: "length (sched_values h) = length kept" "length kept \<le> length order" using r(5) ids(1) by (metis size_mset, simp)
  have pend: "pending_ticks (q\<lparr>tq_heap := h, tq_identities := ids\<rparr>) = pending_ticks q" by (simp add: pending_ticks_def)
  have "ids_set (tq_identities q) \<subseteq> identity ` set ?v \<union> saved_identity ` set (pending_ticks q)" using ok by (simp add: queue_ok_iff)
  then have "ids_set ids \<subseteq> identity ` set (sched_values h) \<union> saved_identity ` set (pending_ticks q)" unfolding ids(4) set order(1) by blast
  then have "queue_ok L (q\<lparr>tq_heap := h, tq_identities := ids\<rparr>)"
    using ok r(2,7) ids(3,5) order len pend unfolding queue_ok_iff by auto
  moreover have "\<forall>env. queue_heap_bytes env (q\<lparr>tq_heap := h, tq_identities := ids\<rparr>) = queue_heap_bytes env q"
    using remove_if_bytes [OF r(1)] ids(6) by (simp add: queue_heap_bytes_def identities_heap_bytes_def)
  moreover have "n + size (mset (sched_values h)) = size (mset ?v)" using r(6) len order(2) by simp
  ultimately show ?thesis using r(1) ids(2) ms
    by (intro exI [of _ n] exI [of _ h] exI [of _ ids]) simp
qed

text \<open>What clearing does to a chunk.\<close>

definition cleared :: "TickDomain \<Rightarrow> TickBounds \<Rightarrow> ChunkQueues \<Rightarrow> ChunkQueues \<Rightarrow> bool" where
  "cleared d b c c' \<longleftrightarrow> (if ck_registered c
    then (\<exists>q. c' = chunk_set_queue d q c \<and> tq_pending q = tq_pending (chunk_queue d c)) \<and>
      chunk_ticks d c' = filter_mset (outside b) (chunk_ticks d c)
    else c' = c)"

lemma contains_chunk_of: "bounds_contains b p \<Longrightarrow> contains_chunk b (tick_chunk p)"
  by (auto simp: bounds_contains_def contains_chunk_def tick_chunk_def Let_def intro: zdiv_mono1)

lemma cleared_untouched:
  assumes "chunk_ok L c" "\<not> contains_chunk b (ck_address c)"
  shows "cleared d b c c"
proof -
  have "placed (ck_address c) (chunk_queue d c)" using assms(1) by (simp add: chunk_ok_def)
  then have "\<forall>t \<in> set (sched_values (tq_heap (chunk_queue d c))). outside b t" using assms(2) contains_chunk_of by (fastforce simp: placed_def)
  then have "filter_mset (outside b) (chunk_ticks d c) = chunk_ticks d c" unfolding chunk_ticks_def by (simp add: filter_mset_eq_conv)
  then show ?thesis unfolding cleared_def by (auto intro!: exI [of _ "chunk_queue d c"])
qed

lemma clear_chunk_ok:
  assumes ok: "owner_ok env ow" and i: "i < length (ow_chunks ow)"
  shows "\<exists>n c idx. clear_chunk d b i ow = Some (n, set_timeline d idx (set_chunk i c ow)) \<and> owner_ok env (set_timeline d idx (set_chunk i c ow)) \<and>
    cleared d b (ow_chunks ow ! i) c \<and> n + size (chunk_ticks d c) = size (chunk_ticks d (ow_chunks ow ! i))"
proof -
  let ?c = "ow_chunks ow ! i" and ?L = "tl_queued_per_chunk (ow_limits ow)"
  let ?q = "chunk_queue d ?c"
  have cok: "chunk_ok ?L ?c" by (rule chunks_ok_nth [OF owner_okD(1) [OF ok] i])
  have tl: "timeline_ok d ow" by (rule owner_okD(2) [OF ok])
  show ?thesis
  proof (cases "\<not> ck_registered ?c \<or> \<not> contains_chunk b (ck_address ?c)")
    case True
    then have "clear_chunk d b i ow = Some (0, set_timeline d (timeline d ow) (set_chunk i ?c ow))" by (simp add: clear_chunk_def Let_def)
    moreover have "cleared d b ?c ?c" using True cleared_untouched [OF cok] by (auto simp: cleared_def)
    ultimately show ?thesis using ok by (intro exI [of _ 0] exI [of _ ?c] exI [of _ "timeline d ow"]) simp
  next
    case False
    then have reg: "ck_registered ?c" by simp
    have q: "queue_ok ?L ?q" "placed (ck_address ?c) ?q" using cok by (auto simp: chunk_ok_def)
    obtain n h ids where r: "remove_if (clear_visit b (tq_hash ?q)) (tq_heap ?q) (Some (tq_identities ?q)) = Some (n, h, Some ids)"
        "queue_ok ?L (?q\<lparr>tq_heap := h, tq_identities := ids\<rparr>)" "mset (sched_values h) = filter_mset (outside b) (mset (sched_values (tq_heap ?q)))"
        "n + size (mset (sched_values h)) = size (mset (sched_values (tq_heap ?q)))"
        "\<forall>env. queue_heap_bytes env (?q\<lparr>tq_heap := h, tq_identities := ids\<rparr>) = queue_heap_bytes env ?q"
      using clear_queue [OF q(1), of b] by blast
    let ?q' = "?q\<lparr>tq_heap := h, tq_identities := ids\<rparr>"
    have sub: "set (sched_values h) \<subseteq> set (sched_values (tq_heap ?q))" using r(3) by (metis filter_is_subset mset_filter set_mset_mset)
    then have pl: "placed (ck_address ?c) ?q'" using q(2) by (auto simp: placed_def)
    let ?ow = "set_chunk i (chunk_set_queue d ?q' ?c) ow"
    have at: "index_map (timeline d ow) (chunk_key ?c) = map_option st_trigger_tick (scheduled_peek (tq_heap ?q))"
      using heads_at [OF chunk_keys_distinct [OF owner_okD(1) [OF ok]] i, of d] tl reg by (simp add: timeline_ok_def head_time_def)
    have key: "packed_chunk (ck_address ?c) = chunk_key ?c" by (rule chunk_address_key)
    obtain idx where idx: "index_fits ow idx"
        "index_map idx = (index_map (timeline d ow))(chunk_key ?c := map_option st_trigger_tick (scheduled_peek h))"
        "clear_chunk d b i ow = Some (n, set_timeline d idx ?ow)"
    proof (cases "scheduled_peek (tq_heap ?q) = scheduled_peek h")
      case True
      have "clear_chunk d b i ow = Some (n, set_timeline d (timeline d ow) ?ow)"
        using r(1) False True by (simp add: clear_chunk_def Let_def set_timeline_id)
      moreover have "index_map (timeline d ow) = (index_map (timeline d ow))(chunk_key ?c := map_option st_trigger_tick (scheduled_peek h))"
        using at True by (simp add: fun_upd_idem)
      ultimately show thesis using that tl by (auto simp: timeline_ok_def)
    next
      case diff: False
      show thesis
      proof (cases "scheduled_peek h")
        case (Some t)
        obtain idx where "index_fits ow idx" "index_map idx = (index_map (timeline d ow))(chunk_key ?c \<mapsto> st_trigger_tick t)"
            "put_timeline d (chunk_key ?c) (st_trigger_tick t) ?ow = Some (set_timeline d idx ?ow)"
          using put_chunk [OF ok i, of d "st_trigger_tick t"] by auto
        then show thesis using that r(1) False diff Some by (auto simp: clear_chunk_def Let_def key)
      next
        case None
        obtain idx where "index_remove (timeline d ow) (chunk_key ?c) = Some (index_map (timeline d ow) (chunk_key ?c), idx)" "index_fits ow idx"
            "index_map idx = (index_map (timeline d ow))(chunk_key ?c := None)"
          using tl remove_key_ok [of "timeline d ow" "chunk_key ?c"] by (auto simp: timeline_ok_def index_fits_def index_remove_def index_frame_def)
        then show thesis using that r(1) False diff None by (auto simp: clear_chunk_def Let_def key)
      qed
    qed
    have "owner_ok env (set_timeline d idx ?ow)" by (rule owner_ok_queue [OF ok i r(2) pl _ idx(1)]) (use r(5) idx(2) reg in simp_all)
    moreover have "cleared d b ?c (chunk_set_queue d ?q' ?c)"
      unfolding cleared_def using reg r(3) by (auto simp: chunk_ticks_def intro!: exI [of _ ?q'])
    moreover have "n + size (chunk_ticks d (chunk_set_queue d ?q' ?c)) = size (chunk_ticks d ?c)" using r(4) by (simp add: chunk_ticks_def)
    ultimately show ?thesis using idx(3) by blast
  qed
qed

section \<open>All chunks\<close>

definition area_frame :: "TickDomain \<Rightarrow> ScheduledTickOwner \<Rightarrow> ScheduledTickOwner \<Rightarrow> bool" where
  "area_frame d ow ow' \<longleftrightarrow> (\<exists>cs idx. ow' = set_timeline d idx (ow\<lparr>ow_chunks := cs\<rparr>))"

lemma area_frame_trans: "area_frame d ow ow1 \<Longrightarrow> area_frame d ow1 ow2 \<Longrightarrow> area_frame d ow ow2"
  unfolding area_frame_def by (cases d) (auto, metis, metis)

lemma area_frame_fields:
  "area_frame d ow ow' \<Longrightarrow> ow_selected ow' = ow_selected ow \<and> ow_cursor ow' = ow_cursor ow \<and> ow_active ow' = ow_active ow \<and> ow_limits ow' = ow_limits ow \<and>
    ow_remaining_ids ow' = ow_remaining_ids ow \<and> ow_remaining_hash ow' = ow_remaining_hash ow \<and> ow_selected_ids ow' = ow_selected_ids ow"
  unfolding area_frame_def by auto

lemma clear_chunks_ok:
  assumes "owner_ok env ow" "distinct is" "set is \<subseteq> {..<length (ow_chunks ow)}"
  shows "\<exists>n ow'. clear_chunks d b is removed ow = Some (removed + n, ow') \<and> owner_ok env ow' \<and> area_frame d ow ow' \<and>
    length (ow_chunks ow') = length (ow_chunks ow) \<and>
    (\<forall>j < length (ow_chunks ow). if j \<in> set is then cleared d b (ow_chunks ow ! j) (ow_chunks ow' ! j) else ow_chunks ow' ! j = ow_chunks ow ! j) \<and>
    n + size (domain_ticks d (ow_chunks ow')) = size (domain_ticks d (ow_chunks ow))"
  using assms
proof (induction "is" arbitrary: ow removed)
  case Nil
  have "area_frame d ow ow" unfolding area_frame_def by (rule exI [of _ "ow_chunks ow"], rule exI [of _ "timeline d ow"]) (simp add: set_timeline_id)
  then show ?case using Nil by (intro exI [of _ 0] exI [of _ ow]) simp
next
  case (Cons i js)
  have i: "i < length (ow_chunks ow)" using Cons.prems(3) by simp
  obtain n c idx where r: "clear_chunk d b i ow = Some (n, set_timeline d idx (set_chunk i c ow))" "owner_ok env (set_timeline d idx (set_chunk i c ow))"
      "cleared d b (ow_chunks ow ! i) c" "n + size (chunk_ticks d c) = size (chunk_ticks d (ow_chunks ow ! i))"
    using clear_chunk_ok [OF Cons.prems(1) i] by blast
  let ?ow = "set_timeline d idx (set_chunk i c ow)"
  have fr: "area_frame d ow ?ow" unfolding area_frame_def set_chunk_def by blast
  have js: "distinct js" "set js \<subseteq> {..<length (ow_chunks ?ow)}" using Cons.prems(2,3) by auto
  from Cons.IH [OF r(2) js, of "removed + n"] obtain m ow' where ih: "clear_chunks d b js (removed + n) ?ow = Some (removed + n + m, ow')" "owner_ok env ow'"
      "area_frame d ?ow ow'" "length (ow_chunks ow') = length (ow_chunks ow)"
      "\<forall>j < length (ow_chunks ow). if j \<in> set js then cleared d b ((ow_chunks ow)[i := c] ! j) (ow_chunks ow' ! j) else ow_chunks ow' ! j = (ow_chunks ow)[i := c] ! j"
      "m + size (domain_ticks d (ow_chunks ow')) = size (domain_ticks d ((ow_chunks ow)[i := c]))"
    unfolding timeline_simps(3) set_chunk_simps(3) length_list_update by blast
  have "\<forall>j < length (ow_chunks ow). if j \<in> set (i # js) then cleared d b (ow_chunks ow ! j) (ow_chunks ow' ! j) else ow_chunks ow' ! j = ow_chunks ow ! j"
  proof (intro allI impI)
    fix j assume j: "j < length (ow_chunks ow)"
    show "if j \<in> set (i # js) then cleared d b (ow_chunks ow ! j) (ow_chunks ow' ! j) else ow_chunks ow' ! j = ow_chunks ow ! j"
      using ih(5) [rule_format, OF j] r(3) Cons.prems(2) j by (cases "j = i") auto
  qed
  moreover have "(n + m) + size (domain_ticks d (ow_chunks ow')) = size (domain_ticks d (ow_chunks ow))"
    using arg_cong [OF domain_ticks_update [OF i, of d c], of size] ih(6) r(4) by simp
  ultimately show ?case using r(1) ih(1,2,4) area_frame_trans [OF fr ih(3)] by (intro exI [of _ "n + m"] exI [of _ ow']) (simp add: add.assoc)
qed

section \<open>The running phase\<close>

lemma retain_selected_ok:
  assumes "counts_ticks hash rem (K @ drop (oc - pos) ticks)" "length (filter (\<lambda>t. \<not> outside b t) (take (oc - pos) ticks)) \<le> cursor"
  shows "\<exists>rem'. retain_selected b hash oc pos ticks removed cursor rem =
      Some (filter (outside b) ticks, removed + length (filter (\<lambda>t. \<not> outside b t) ticks),
        cursor - length (filter (\<lambda>t. \<not> outside b t) (take (oc - pos) ticks)), rem') \<and>
    counts_ticks hash rem' (K @ filter (outside b) (drop (oc - pos) ticks)) \<and> rm_limit rem' = rm_limit rem"
  using assms
proof (induction ticks arbitrary: pos removed cursor rem K)
  case (Cons t ts)
  consider (kept) "outside b t" | (returned) "\<not> outside b t" "pos < oc" | (waiting) "\<not> outside b t" "\<not> pos < oc" by blast
  then show ?case
  proof cases
    case kept
    show ?thesis
    proof (cases "pos < oc")
      case True
      then have eq: "oc - pos = Suc (oc - (pos + 1))" by simp
      show ?thesis using Cons.IH [of rem K "pos + 1" cursor removed] Cons.prems kept unfolding eq by auto
    next
      case False
      then show ?thesis using Cons.IH [of rem "K @ [t]" "pos + 1" cursor removed] Cons.prems kept by auto
    qed
  next
    case returned
    then have eq: "oc - pos = Suc (oc - (pos + 1))" by simp
    have "checked_sub cursor 1 = Some (cursor - 1)" using Cons.prems(2) returned unfolding eq by (simp add: checked_sub_def)
    then show ?thesis using Cons.IH [of rem K "pos + 1" "cursor - 1" "removed + 1"] Cons.prems returned unfolding eq by auto
  next
    case waiting
    have counts: "counts_ticks hash rem (K @ t # ts)" using Cons.prems(1) waiting(2) by simp
    obtain rem1 where rem1: "remaining_remove hash rem (identity t) = Some rem1" "counts_ticks hash rem1 (K @ ts)" "rm_limit rem1 = rm_limit rem"
      using counts_remove [OF counts, of "length K"] by auto
    show ?thesis using Cons.IH [of rem1 K "pos + 1" cursor "removed + 1"] rem1 waiting by auto
  qed
qed simp

lemma clear_area_ok:
  assumes ok: "owner_ok env ow"
  shows "\<exists>r ow'. clear_area d b ow = Some (r, ow') \<and> owner_ok env ow' \<and>
    (case bounds_validate b of
       Inl e \<Rightarrow> r = Inl e \<and> ow' = ow
     | Inr u \<Rightarrow> list_all2 (cleared d b) (ow_chunks ow) (ow_chunks ow') \<and>
         ow_selected ow' = (if ow_active ow = Some d then filter (outside b) (ow_selected ow) else ow_selected ow) \<and>
         drop (ow_cursor ow') (ow_selected ow') =
           (if ow_active ow = Some d then filter (outside b) (drop (ow_cursor ow) (ow_selected ow)) else drop (ow_cursor ow) (ow_selected ow)) \<and>
         (\<exists>n. r = Inr n \<and> n + size (domain_ticks d (ow_chunks ow')) + length (ow_selected ow') =
           size (domain_ticks d (ow_chunks ow)) + length (ow_selected ow)))"
proof (cases "bounds_validate b")
  case (Inl e)
  then show ?thesis using ok by (simp add: clear_area_def)
next
  case (Inr u)
  obtain n ow1 where r: "clear_chunks d b [0..<length (ow_chunks ow)] 0 ow = Some (n, ow1)" "owner_ok env ow1" "area_frame d ow ow1"
      "length (ow_chunks ow1) = length (ow_chunks ow)" "\<forall>j < length (ow_chunks ow). cleared d b (ow_chunks ow ! j) (ow_chunks ow1 ! j)"
      "n + size (domain_ticks d (ow_chunks ow1)) = size (domain_ticks d (ow_chunks ow))"
    using clear_chunks_ok [OF ok, of "[0..<length (ow_chunks ow)]" d b 0] by (auto simp: lessThan_atLeast0)
  note fr = area_frame_fields [OF r(3)]
  have all: "list_all2 (cleared d b) (ow_chunks ow) (ow_chunks ow1)" using r(4,5) by (simp add: list_all2_conv_all_nth)
  show ?thesis
  proof (cases "ow_active ow = Some d")
    case False
    then show ?thesis using r Inr all fr by (intro exI [of _ "Inr n"] exI [of _ ow1]) (simp add: clear_area_def)
  next
    case True
    note ph = owner_okD(4) [OF r(2), unfolded phase_ok_iff]
    let ?sel = "ow_selected ow1" and ?cur = "ow_cursor ow1"
    let ?gone = "length (filter (\<lambda>t. \<not> outside b t) (take ?cur ?sel))"
    have le: "?gone \<le> ?cur" using length_filter_le [of "\<lambda>t. \<not> outside b t" "take ?cur ?sel"] ph by simp
    obtain rem where rem: "retain_selected b (ow_remaining_hash ow1) ?cur 0 ?sel n ?cur (ow_remaining_ids ow1) =
          Some (filter (outside b) ?sel, n + length (filter (\<lambda>t. \<not> outside b t) ?sel), ?cur - ?gone, rem)"
        "counts_ticks (ow_remaining_hash ow1) rem (filter (outside b) (drop ?cur ?sel))" "rm_limit rem = rm_limit (ow_remaining_ids ow1)"
      using retain_selected_ok [of "ow_remaining_hash ow1" "ow_remaining_ids ow1" "[]" ?cur 0 ?sel b ?cur n] ph le by auto
    let ?cur' = "?cur - ?gone" and ?sel' = "filter (outside b) ?sel"
    have split: "?sel' = filter (outside b) (take ?cur ?sel) @ filter (outside b) (drop ?cur ?sel)" by (simp flip: filter_append)
    have "length (filter (outside b) (take ?cur ?sel)) + ?gone = ?cur" using sum_length_filter_compl [of "outside b" "take ?cur ?sel"] ph by simp
    then have cur: "?cur' = length (filter (outside b) (take ?cur ?sel))" by simp
    then have dr: "drop ?cur' ?sel' = filter (outside b) (drop ?cur ?sel)" unfolding split by simp
    let ?ow = "with_phase ?sel' ?cur' (ow_active ow1) (ow_selected_ids ow1) rem ow1"
    have "?cur' \<le> length ?sel'" unfolding cur split by simp
    moreover have "length ?sel' \<le> tl_selected_per_phase (ow_limits ow1)" using ph length_filter_le order_trans by blast
    ultimately have "owner_ok env ?ow"
      using ph rem dr True fr by (intro owner_ok_with_phase [OF r(2)]) (simp add: phase_ok_iff)
    moreover have "clear_area d b ow = Some (Inr (n + length (filter (\<lambda>t. \<not> outside b t) ?sel)), ?ow)"
      using Inr r(1) True fr rem(1) by (simp add: clear_area_def with_phase_def)
    moreover have "length (filter (\<lambda>t. \<not> outside b t) ?sel) + length ?sel' = length ?sel"
      using sum_length_filter_compl [of "outside b" ?sel] by simp
    ultimately show ?thesis using Inr all True fr dr r(6)
      by (intro exI [of _ "Inr (n + length (filter (\<lambda>t. \<not> outside b t) ?sel))"] exI [of _ ?ow]) simp
  qed
qed

end
