(* ===== verification/TickCopy.thy ===== *)
theory TickCopy
  imports TickClear
begin

text \<open>
  \<open>copy_area\<close> and \<open>copy_area_from\<close>: a snapshot of the ticks of a box is moved and admitted as a whole. The
  admission loop only looks; the ticks it admits are then scheduled, and none of them can be refused.
\<close>

section \<open>Scheduling what was admitted\<close>

abbreviation admitted :: "SnapshotTick list \<Rightarrow> ScheduledTick list" where
  "admitted entries \<equiv> map sn_tick (filter sn_admitted entries)"

text \<open>Ticks that can be scheduled one after the other without a duplicate and without filling a queue.\<close>

definition admissible :: "TickDomain \<Rightarrow> ScheduledTick list \<Rightarrow> ScheduledTickOwner \<Rightarrow> bool" where
  "admissible d ticks ow \<longleftrightarrow> distinct (map identity ticks) \<and>
    (\<forall>t \<in> set ticks. \<exists>i. registered ow (tick_chunk (st_position t)) = Inr i \<and> identity t \<notin> ids_set (tq_identities (owner_queue d i ow))) \<and>
    (\<forall>i < length (ow_chunks ow). queue_count (owner_queue d i ow) +
       length (filter (\<lambda>t. tick_chunk (st_position t) = ck_address (ow_chunks ow ! i)) ticks) \<le> tl_queued_per_chunk (ow_limits ow))"

lemma registered_set_chunk:
  assumes "chunks_ok limits (ow_chunks ow)" "i < length (ow_chunks ow)" "ck_address c = ck_address (ow_chunks ow ! i)" "ck_registered c = ck_registered (ow_chunks ow ! i)"
  shows "registered (set_chunk i c ow) a = registered ow a"
proof -
  have "chunk_find ((ow_chunks ow)[i := c]) a = chunk_find (ow_chunks ow) a"
  proof -
    have nth: "ck_address ((ow_chunks ow)[i := c] ! j) = ck_address (ow_chunks ow ! j)" if "j < length (ow_chunks ow)" for j using that assms(3) by (cases "j = i") simp_all
    have addr: "map ck_address ((ow_chunks ow)[i := c]) = map ck_address (ow_chunks ow)" using nth by (simp add: list_eq_iff_nth_eq)
    have tw: "length (takeWhile (\<lambda>c. address_less (ck_address c) a) xs) = length (takeWhile (\<lambda>x. address_less x a) (map ck_address xs))" for xs
      by (simp add: takeWhile_map comp_def)
    have "length (takeWhile (\<lambda>c. address_less (ck_address c) a) ((ow_chunks ow)[i := c])) = length (takeWhile (\<lambda>c. address_less (ck_address c) a) (ow_chunks ow))"
      unfolding tw addr ..
    then show ?thesis using nth [of "length (takeWhile (\<lambda>c. address_less (ck_address c) a) (ow_chunks ow))"] by (auto simp: chunk_find_def Let_def)
  qed
  moreover have "ck_registered ((ow_chunks ow)[i := c] ! j) = ck_registered (ow_chunks ow ! j)" for j
    using assms(2,4) by (cases "j = i") simp_all
  ultimately show ?thesis by (simp add: registered_def cong: sum.case_cong)
qed

lemma schedule_admitted_ok:
  assumes "owner_ok env ow" "admissible d (admitted entries) ow"
  shows "\<exists>ow'. schedule_admitted d entries ow = Some ow' \<and> owner_ok env ow' \<and> area_frame d ow ow' \<and>
    domain_ticks d (ow_chunks ow') = domain_ticks d (ow_chunks ow) + mset (admitted entries)"
  using assms
proof (induction entries arbitrary: ow)
  case Nil
  have "area_frame d ow ow" unfolding area_frame_def by (rule exI [of _ "ow_chunks ow"], rule exI [of _ "timeline d ow"]) (simp add: set_timeline_id)
  then show ?case using Nil by simp
next
  case (Cons e es)
  show ?case
  proof (cases "sn_admitted e")
    case False
    then show ?thesis using Cons by simp
  next
    case True
    let ?t = "sn_tick e" and ?L = "tl_queued_per_chunk (ow_limits ow)"
    note ok = Cons.prems(1) and ad = Cons.prems(2) [unfolded admissible_def]
    obtain i where i: "registered ow (tick_chunk (st_position ?t)) = Inr i" "identity ?t \<notin> ids_set (tq_identities (owner_queue d i ow))"
      using ad True by auto
    note reg = registered_Inr [OF owner_okD(1) [OF ok] i(1)]
    let ?c = "ow_chunks ow ! i" and ?q = "owner_queue d i ow"
    have il: "i < length (ow_chunks ow)" using reg by simp
    have "queue_count ?q + length (filter (\<lambda>t. tick_chunk (st_position t) = ck_address ?c) (admitted (e # es))) \<le> ?L" using ad il by blast
    then have room: "queue_count ?q \<noteq> ?L" using True reg by simp
    obtain q' idx where s: "schedule_created d i ?t ow = Some (Inr Added, set_timeline d idx (set_chunk i (chunk_set_queue d q' ?c) ow))"
        "owner_ok env (set_timeline d idx (set_chunk i (chunk_set_queue d q' ?c) ow))"
        "mset (sched_values (tq_heap q')) = add_mset ?t (mset (sched_values (tq_heap ?q)))" "pending_ticks q' = pending_ticks ?q"
        "ids_set (tq_identities q') = insert (identity ?t) (ids_set (tq_identities ?q))"
      using schedule_created_ok [OF ok il, of ?t d] reg i(2) room by (auto simp: Let_def)
    let ?ow = "set_timeline d idx (set_chunk i (chunk_set_queue d q' ?c) ow)"
    have chunks: "ow_chunks ?ow = (ow_chunks ow)[i := chunk_set_queue d q' ?c]" by simp
    have regs: "registered ?ow a = registered ow a" for a using registered_set_chunk [OF owner_okD(1) [OF ok] il, of "chunk_set_queue d q' ?c" a] by simp
    have cnt: "queue_count q' = Suc (queue_count ?q)" using arg_cong [OF s(3), of size] s(4) by (simp add: queue_count_eq)
    have "admissible d (admitted es) ?ow" unfolding admissible_def
    proof (intro conjI ballI allI impI)
      show "distinct (map identity (admitted es))" using ad True by simp
      fix t assume t: "t \<in> set (admitted es)"
      then have "t \<in> set (admitted (e # es))" using True by auto
      then obtain j where j: "registered ow (tick_chunk (st_position t)) = Inr j" "identity t \<notin> ids_set (tq_identities (owner_queue d j ow))"
        using ad by blast
      have "identity ?t \<notin> identity ` set (admitted es)" using ad True by (simp add: image_image)
      then have "identity t \<noteq> identity ?t" using t by (metis imageI)
      then have "identity t \<notin> ids_set (tq_identities (owner_queue d j ?ow))" using j(2) s(5) il by (cases "j = i") simp_all
      then show "\<exists>j. registered ?ow (tick_chunk (st_position t)) = Inr j \<and> identity t \<notin> ids_set (tq_identities (owner_queue d j ?ow))"
        using j(1) regs by auto
    next
      fix j assume j: "j < length (ow_chunks ?ow)"
      then have jl: "j < length (ow_chunks ow)" by simp
      have all: "queue_count (owner_queue d j ow) + length (filter (\<lambda>t. tick_chunk (st_position t) = ck_address (ow_chunks ow ! j)) (admitted (e # es))) \<le> ?L"
        using ad jl by blast
      show "queue_count (owner_queue d j ?ow) + length (filter (\<lambda>t. tick_chunk (st_position t) = ck_address (ow_chunks ?ow ! j)) (admitted es)) \<le>
          tl_queued_per_chunk (ow_limits ?ow)"
        using all True cnt il jl reg by (cases "j = i") (auto split: if_splits)
    qed
    from Cons.IH [OF s(2) this] obtain ow' where ih: "schedule_admitted d es ?ow = Some ow'" "owner_ok env ow'" "area_frame d ?ow ow'"
        "domain_ticks d (ow_chunks ow') = domain_ticks d (ow_chunks ?ow) + mset (admitted es)" by blast
    have "domain_ticks d (ow_chunks ?ow) = add_mset ?t (domain_ticks d (ow_chunks ow))"
      using domain_ticks_update [OF il, of d "chunk_set_queue d q' ?c"] s(3) by (simp add: chunk_ticks_def)
    moreover have "area_frame d ow ?ow" unfolding area_frame_def set_chunk_def by blast
    ultimately show ?thesis using True i(1) s(1) ih area_frame_trans [OF _ ih(3)] by (intro exI [of _ ow']) simp
  qed
qed

section \<open>Admission\<close>

text \<open>What the loop has established about the entries it has looked at.\<close>

definition admitting :: "TickDomain \<Rightarrow> tick_hasher \<Rightarrow> SnapshotTick list \<Rightarrow> Identities \<Rightarrow> nat list \<Rightarrow> ScheduledTickOwner \<Rightarrow> bool" where
  "admitting d hash looked ids counts ow \<longleftrightarrow> ids_ok hash ids \<and> ids_set ids = identity ` set (admitted looked) \<and> distinct (map identity (admitted looked)) \<and>
    length counts = length (ow_chunks ow) \<and>
    (\<forall>t \<in> set (admitted looked). \<exists>i. registered ow (tick_chunk (st_position t)) = Inr i \<and> identity t \<notin> ids_set (tq_identities (owner_queue d i ow))) \<and>
    (\<forall>i < length (ow_chunks ow). counts ! i = length (filter (\<lambda>t. tick_chunk (st_position t) = ck_address (ow_chunks ow ! i)) (admitted looked)) \<and>
       queue_count (owner_queue d i ow) + counts ! i \<le> tl_queued_per_chunk (ow_limits ow))"

lemma admitting_admissible: "admitting d hash looked ids counts ow \<Longrightarrow> admissible d (admitted looked) ow"
  unfolding admitting_def admissible_def by auto

lemma admitting_skip: "admitting d hash looked ids counts ow \<Longrightarrow> \<not> sn_admitted e \<Longrightarrow> admitting d hash (looked @ [e]) ids counts ow"
proof -
  assume ad: "admitting d hash looked ids counts ow" and "\<not> sn_admitted e"
  then have eq: "admitted (looked @ [e]) = admitted looked" by simp
  show "admitting d hash (looked @ [e]) ids counts ow" unfolding admitting_def eq by (rule ad [unfolded admitting_def])
qed

lemma card_admitting:
  assumes "admitting d hash looked ids counts ow"
  shows "card (ids_set ids) = length (admitted looked)"
proof -
  have "set (map identity (admitted looked)) = ids_set ids" "distinct (map identity (admitted looked))" using assms by (auto simp: admitting_def)
  then show ?thesis using distinct_card [of "map identity (admitted looked)"] by (simp only: length_map)
qed

lemma admitting_add:
  assumes ok: "owner_ok env ow" and ad: "admitting d hash looked ids counts ow" and e: "sn_admitted e"
    and reg: "registered ow (tick_chunk (st_position (sn_tick e))) = Inr i"
    and new: "identity (sn_tick e) \<notin> ids_set (tq_identities (owner_queue d i ow))" "identity (sn_tick e) \<notin> ids_set ids"
    and room: "queue_count (owner_queue d i ow) + counts ! i < tl_queued_per_chunk (ow_limits ow)"
    and slots: "length (admitted looked) + 1 < length (is_slots ids)"
  shows "i < length counts \<and> (\<exists>ids'. identities_insert hash ids (identity (sn_tick e)) = Some ids' \<and>
    admitting d hash (looked @ [e]) ids' (counts[i := counts ! i + 1]) ow \<and> length (is_slots ids') = length (is_slots ids) \<and> is_capacity ids' = is_capacity ids)"
proof -
  note a = ad [unfolded admitting_def]
  note i = registered_Inr [OF owner_okD(1) [OF ok] reg]
  have "ids_ok hash ids" using a by blast
  then obtain ids' where ids: "identities_insert hash ids (identity (sn_tick e)) = Some ids'" "ids_ok hash ids'" "ids_set ids' = insert (identity (sn_tick e)) (ids_set ids)"
      "length (is_slots ids') = length (is_slots ids)" "is_capacity ids' = is_capacity ids"
    using ids_insert_ok [of hash ids "identity (sn_tick e)"] slots card_admitting [OF ad] by auto
  have look: "admitted (looked @ [e]) = admitted looked @ [sn_tick e]" using e by simp
  have dist: "distinct (map ck_address (ow_chunks ow))" using chunk_addresses_distinct owner_okD(1) [OF ok] by (auto simp: chunks_ok_def)
  have "admitting d hash (looked @ [e]) ids' (counts[i := counts ! i + 1]) ow" unfolding admitting_def look
  proof (intro conjI allI impI)
    show "ids_set ids' = identity ` set (admitted looked @ [sn_tick e])" using ids(3) a by (simp add: image_image)
    show "distinct (map identity (admitted looked @ [sn_tick e]))" using a new(2) by (simp add: image_image)
    show "\<forall>t \<in> set (admitted looked @ [sn_tick e]). \<exists>i. registered ow (tick_chunk (st_position t)) = Inr i \<and> identity t \<notin> ids_set (tq_identities (owner_queue d i ow))"
      using a reg new(1) by simp
    fix j assume j: "j < length (ow_chunks ow)"
    have addr: "(ck_address (ow_chunks ow ! i) = ck_address (ow_chunks ow ! j)) = (i = j)"
      using nth_eq_iff_index_eq [OF dist, of i j] i j by simp
    have c: "counts ! j = length (filter (\<lambda>t. tick_chunk (st_position t) = ck_address (ow_chunks ow ! j)) (admitted looked))"
      "queue_count (owner_queue d j ow) + counts ! j \<le> tl_queued_per_chunk (ow_limits ow)" using a j by blast+
    show "counts[i := counts ! i + 1] ! j = length (filter (\<lambda>t. tick_chunk (st_position t) = ck_address (ow_chunks ow ! j)) (admitted looked @ [sn_tick e]))"
      using c(1) addr i j a by (cases "i = j") simp_all
    show "queue_count (owner_queue d j ow) + counts[i := counts ! i + 1] ! j \<le> tl_queued_per_chunk (ow_limits ow)"
      using c(2) room i j a by (cases "i = j") simp_all
  qed (use a ids(2) in simp_all)
  then show ?thesis using ids i a by auto
qed

definition outcome_total :: "CopyOutcome \<Rightarrow> nat" where
  "outcome_total o' = co_added o' + co_duplicates o' + co_missing_containers o'"

lemma admit_loop_ok:
  assumes "owner_ok env ow" "admitting d hash looked ids counts ow" "length (admitted looked) + length entries < length (is_slots ids)"
    "\<forall>e \<in> set entries. \<not> sn_admitted e" "co_added outcome = length (admitted looked)"
  shows "\<exists>r looked' ids' counts'. admit_loop ow d hash move looked entries ids counts outcome = Some (r, looked', ids', counts') \<and>
    ids_ok hash ids' \<and> length (is_slots ids') = length (is_slots ids) \<and> is_capacity ids' = is_capacity ids \<and>
    (\<forall>o'. r = Inr o' \<longrightarrow> admissible d (admitted looked') ow \<and> co_added o' = length (admitted looked') \<and>
       outcome_total o' = outcome_total outcome + length entries \<and>
       (\<forall>t \<in> set (admitted looked'). t \<in> set (admitted looked) \<or> t \<in> move ` sn_tick ` set entries))"
  using assms(2-5)
proof (induction entries arbitrary: looked ids counts outcome)
  case Nil
  then show ?case using admitting_admissible by (auto simp: admitting_def)
next
  case (Cons e es)
  let ?t = "move (sn_tick e)" and ?e = "e\<lparr>sn_tick := move (sn_tick e)\<rparr>"
  have ids: "ids_ok hash ids" using Cons.prems(1) by (simp add: admitting_def)
  have skip: "admitting d hash (looked @ [?e]) ids counts ow" using admitting_skip [OF Cons.prems(1)] Cons.prems(3) by simp
  have same: "admitted (looked @ [?e]) = admitted looked" using Cons.prems(3) by simp
  have IH: "\<exists>r looked' ids' counts'. admit_loop ow d hash move (looked @ [?e]) es ids counts o1 = Some (r, looked', ids', counts') \<and>
      ids_ok hash ids' \<and> length (is_slots ids') = length (is_slots ids) \<and> is_capacity ids' = is_capacity ids \<and>
      (\<forall>o'. r = Inr o' \<longrightarrow> admissible d (admitted looked') ow \<and> co_added o' = length (admitted looked') \<and>
         outcome_total o' = outcome_total o1 + length es \<and>
         (\<forall>t \<in> set (admitted looked'). t \<in> set (admitted looked) \<or> t \<in> move ` sn_tick ` set (e # es)))"
    if "co_added o1 = co_added outcome" for o1
    using Cons.IH [OF skip, of o1] Cons.prems(2-4) that unfolding same by fastforce
  show ?case
  proof (cases "registered ow (tick_chunk (st_position ?t))")
    case (Inl x)
    let ?o = "outcome\<lparr>co_missing_containers := co_missing_containers outcome + 1\<rparr>"
    have "admit_loop ow d hash move looked (e # es) ids counts outcome = admit_loop ow d hash move (looked @ [?e]) es ids counts ?o"
      using Inl by (auto simp: registered_def Let_def split: sum.splits if_splits)
    moreover have "outcome_total ?o = Suc (outcome_total outcome)" by (simp add: outcome_total_def)
    ultimately show ?thesis using IH [of ?o] by simp
  next
    case (Inr i)
    let ?q = "owner_queue d i ow"
    note i = registered_Inr [OF owner_okD(1) [OF assms(1)] Inr]
    have find: "chunk_find (ow_chunks ow) (tick_chunk (st_position ?t)) = Inr i" "ck_registered (ow_chunks ow ! i)"
      using Inr by (auto simp: registered_def split: sum.splits if_splits)
    have qok: "queue_ok (tl_queued_per_chunk (ow_limits ow)) ?q" using chunks_ok_nth [OF owner_okD(1) [OF assms(1)], of i] i by (simp add: chunk_ok_def)
    note known = ids_contains_ok [OF queue_okD(3) [OF qok], of "identity ?t"] and copied = ids_contains_ok [OF ids, of "identity ?t"]
    have il: "i < length counts" using Cons.prems(1) i by (simp add: admitting_def)
    consider (type) "st_type_id ?t \<ge> type_count d ow"
      | (dup) "\<not> st_type_id ?t \<ge> type_count d ow" "identity ?t \<in> ids_set (tq_identities ?q) \<or> identity ?t \<in> ids_set ids"
      | (full) "\<not> st_type_id ?t \<ge> type_count d ow" "identity ?t \<notin> ids_set (tq_identities ?q)" "identity ?t \<notin> ids_set ids"
          "queue_count ?q + counts ! i \<ge> tl_queued_per_chunk (ow_limits ow)"
      | (add) "\<not> st_type_id ?t \<ge> type_count d ow" "identity ?t \<notin> ids_set (tq_identities ?q)" "identity ?t \<notin> ids_set ids"
          "queue_count ?q + counts ! i < tl_queued_per_chunk (ow_limits ow)" by linarith
    then show ?thesis
    proof cases
      case type
      then show ?thesis using find ids by (simp add: Let_def)
    next
      case dup
      let ?o = "outcome\<lparr>co_duplicates := co_duplicates outcome + 1\<rparr>"
      have "admit_loop ow d hash move looked (e # es) ids counts outcome = admit_loop ow d hash move (looked @ [?e]) es ids counts ?o"
        using dup find known copied by (cases "identity ?t \<in> ids_set (tq_identities ?q)") (simp_all add: Let_def)
      moreover have "outcome_total ?o = Suc (outcome_total outcome)" by (simp add: outcome_total_def)
      ultimately show ?thesis using IH [of ?o] by simp
    next
      case full
      then show ?thesis using find ids known copied il by (simp add: Let_def)
    next
      case add
      let ?a = "?e\<lparr>sn_admitted := True\<rparr>" and ?o = "outcome\<lparr>co_added := co_added outcome + 1\<rparr>"
      obtain ids1 where ids1: "identities_insert hash ids (identity ?t) = Some ids1" "admitting d hash (looked @ [?a]) ids1 (counts[i := counts ! i + 1]) ow"
          "length (is_slots ids1) = length (is_slots ids)" "is_capacity ids1 = is_capacity ids"
        using admitting_add [OF assms(1) Cons.prems(1), of ?a i] Inr add Cons.prems(2) by auto
      have step: "admit_loop ow d hash move looked (e # es) ids counts outcome =
          admit_loop ow d hash move (looked @ [?a]) es ids1 (counts[i := counts ! i + 1]) ?o"
        using add find known copied il ids1(1) by (simp add: Let_def)
      have look: "admitted (looked @ [?a]) = admitted looked @ [?t]" by simp
      have "\<exists>r looked' ids' counts'. admit_loop ow d hash move (looked @ [?a]) es ids1 (counts[i := counts ! i + 1]) ?o = Some (r, looked', ids', counts') \<and>
          ids_ok hash ids' \<and> length (is_slots ids') = length (is_slots ids1) \<and> is_capacity ids' = is_capacity ids1 \<and>
          (\<forall>o'. r = Inr o' \<longrightarrow> admissible d (admitted looked') ow \<and> co_added o' = length (admitted looked') \<and>
             outcome_total o' = outcome_total ?o + length es \<and>
             (\<forall>t \<in> set (admitted looked'). t \<in> set (admitted (looked @ [?a])) \<or> t \<in> move ` sn_tick ` set es))"
        by (rule Cons.IH [OF ids1(2)]) (use Cons.prems(2-4) ids1(3) in simp_all)
      moreover have "outcome_total ?o = Suc (outcome_total outcome)" by (simp add: outcome_total_def)
      ultimately show ?thesis unfolding step ids1(3,4) look by fastforce
    qed
  qed
qed

section \<open>The copy\<close>

lemma owner_ok_copy_fields:
  assumes ok: "owner_ok env ow" and old: "ow_copy_ids ow = Some (ids0, h0)"
    and ids: "ids_ok hash ids" "length (is_slots ids) = length (is_slots ids0)" "is_capacity ids = is_capacity ids0"
  shows "owner_ok env (ow\<lparr>ow_scratch := s, ow_copy_ids := Some (ids, hash), ow_copy_counts := counts\<rparr>)"
proof -
  have eq: "ow\<lparr>ow_scratch := s, ow_copy_ids := Some (ids, hash), ow_copy_counts := counts\<rparr> =
      with_scratch s (ow_scratch_capacity ow) (Some (ids, hash)) (ow_copy_capacity ow) counts (ow_copy_counts_capacity ow) (ow_allocated_bytes ow) ow"
    by (simp add: with_scratch_def)
  show ?thesis unfolding eq
    by (rule owner_ok_with_scratch [OF ok])
      (use owner_okD(5,6) [OF ok] old ids in \<open>auto simp: memory_ok_def scratch_ok_def scratch_bytes_eq ids_bytes_def identities_heap_bytes_def\<close>)
qed

text \<open>What a copy does to the queues: the admitted ticks are added, or nothing is.\<close>

definition copied :: "TickDomain \<Rightarrow> (ScheduledTick \<Rightarrow> ScheduledTick) \<Rightarrow> ScheduledTick list \<Rightarrow> TickError + CopyOutcome \<Rightarrow> ScheduledTickOwner \<Rightarrow> ScheduledTickOwner \<Rightarrow> bool" where
  "copied d move ticks r ow ow' \<longleftrightarrow>
    (case r of
       Inl e \<Rightarrow> ow_chunks ow' = ow_chunks ow
     | Inr outcome \<Rightarrow> outcome_total outcome = length ticks \<and>
         (\<exists>new. length new = co_added outcome \<and> domain_ticks d (ow_chunks ow') = domain_ticks d (ow_chunks ow) + mset new \<and> set new \<subseteq> move ` set ticks))"

definition copy_move :: "TickPosition \<Rightarrow> ScheduledTick list \<Rightarrow> ScheduledTick \<Rightarrow> ScheduledTick" where
  "copy_move offset ticks = moved_tick offset (Min (st_sub_tick_order ` set ticks)) (Max (st_sub_tick_order ` set ticks))"

lemma commit_copy_ok:
  assumes ok: "owner_ok env ow" and fresh: "\<forall>e \<in> set (ow_scratch ow). \<not> sn_admitted e"
    and ready: "ow_scratch ow \<noteq> [] \<Longrightarrow> scratch_ready (length (ow_scratch ow)) True ow"
  shows "\<exists>r ow'. commit_copy d offset ow = Some (r, ow') \<and> owner_ok env ow' \<and>
    copied d (copy_move offset (map sn_tick (ow_scratch ow))) (map sn_tick (ow_scratch ow)) r ow ow'"
proof -
  let ?orders = "map (\<lambda>e. st_sub_tick_order (sn_tick e)) (ow_scratch ow)"
  show ?thesis
  proof (cases "ow_scratch ow = []")
    case True
    then have "commit_copy d offset ow = Some (Inr no_copy, ow)" by (simp add: commit_copy_def)
    moreover have "copied d (copy_move offset (map sn_tick (ow_scratch ow))) (map sn_tick (ow_scratch ow)) (Inr no_copy) ow ow" using True by (simp add: copied_def outcome_total_def no_copy_def)
    ultimately show ?thesis using ok by blast
  next
    case False
    obtain ids0 hash where ids0: "ow_copy_ids ow = Some (ids0, hash)" and cap: "length (ow_scratch ow) \<le> ow_copy_capacity ow"
        and counts: "length (ow_copy_counts ow) = length (ow_chunks ow)"
      using ready [OF False] by (auto simp: scratch_ready_def)
    have sok: "ids_ok hash ids0" "ow_copy_capacity ow < length (is_slots ids0)" using owner_okD(6) [OF ok] ids0 by (auto simp: scratch_ok_def)
    note cl = identities_clear_ok [OF sok(1)]
    let ?move = "moved_tick offset (Min (set ?orders)) (Max (set ?orders))"
    have move: "?move = copy_move offset (map sn_tick (ow_scratch ow))" by (simp add: copy_move_def image_image)
    have "queue_count (owner_queue d i ow) \<le> tl_queued_per_chunk (ow_limits ow)" if "i < length (ow_chunks ow)" for i
      using chunks_ok_nth [OF owner_okD(1) [OF ok] that] queue_okD(5) by (auto simp: chunk_ok_def)
    then have start: "admitting d hash [] (identities_clear ids0) (map (\<lambda>n. 0) (ow_copy_counts ow)) ow" using cl counts by (simp add: admitting_def)
    have slots: "length (admitted ([] :: SnapshotTick list)) + length (ow_scratch ow) < length (is_slots (identities_clear ids0))" using cl sok cap by simp
    obtain r looked ids cs where loop: "admit_loop ow d hash ?move [] (ow_scratch ow) (identities_clear ids0) (map (\<lambda>n. 0) (ow_copy_counts ow)) no_copy = Some (r, looked, ids, cs)"
        "ids_ok hash ids" "length (is_slots ids) = length (is_slots ids0)" "is_capacity ids = is_capacity ids0"
        "\<forall>o'. r = Inr o' \<longrightarrow> admissible d (admitted looked) ow \<and> co_added o' = length (admitted looked) \<and>
          outcome_total o' = outcome_total no_copy + length (ow_scratch ow) \<and> (\<forall>t \<in> set (admitted looked). t \<in> ?move ` sn_tick ` set (ow_scratch ow))"
      using admit_loop_ok [OF ok start slots fresh, of no_copy ?move] cl by (auto simp: no_copy_def)
    show ?thesis
    proof (cases r)
      case (Inl e)
      let ?ow = "ow\<lparr>ow_scratch := looked, ow_copy_ids := Some (ids, hash), ow_copy_counts := cs\<rparr>"
      have "commit_copy d offset ow = Some (Inl e, ?ow)" using False ids0 loop(1) Inl by (simp add: commit_copy_def Let_def del: admit_loop.simps)
      moreover have "owner_ok env ?ow" by (rule owner_ok_copy_fields [OF ok ids0 loop(2-4)])
      moreover have "copied d ?move (map sn_tick (ow_scratch ow)) (Inl e) ow ?ow" by (simp add: copied_def)
      ultimately show ?thesis unfolding move by blast
    next
      case (Inr o')
      let ?ow1 = "ow\<lparr>ow_copy_counts := cs\<rparr>"
      have "?ow1 = ow\<lparr>ow_scratch := ow_scratch ow, ow_copy_ids := Some (ids0, hash), ow_copy_counts := cs\<rparr>" using ids0 by (cases ow) simp
      then have "owner_ok env ?ow1" using owner_ok_copy_fields [OF ok ids0 sok(1) refl refl, where s = "ow_scratch ow" and counts = cs] by (simp only:)
      moreover have "admissible d (admitted looked) ?ow1" using loop(5) Inr by (simp add: admissible_def registered_def cong: sum.case_cong)
      ultimately obtain ow2 where ow2: "schedule_admitted d looked ?ow1 = Some ow2" "owner_ok env ow2" "area_frame d ?ow1 ow2"
          "domain_ticks d (ow_chunks ow2) = domain_ticks d (ow_chunks ?ow1) + mset (admitted looked)"
        using schedule_admitted_ok by blast
      have ids2: "ow_copy_ids ow2 = Some (ids0, hash)" using ow2(3) ids0 unfolding area_frame_def by auto
      let ?ow = "ow2\<lparr>ow_copy_ids := Some (identities_clear ids, hash), ow_scratch := []\<rparr>"
      have "commit_copy d offset ow = Some (Inr o', ?ow)" using False ids0 loop(1) Inr ow2(1) by (simp add: commit_copy_def Let_def del: admit_loop.simps)
      moreover have "owner_ok env ?ow"
      proof -
        have eq: "?ow = ow2\<lparr>ow_scratch := [], ow_copy_ids := Some (identities_clear ids, hash), ow_copy_counts := ow_copy_counts ow2\<rparr>" by simp
        show ?thesis unfolding eq
          by (rule owner_ok_copy_fields [OF ow2(2) ids2]) (use identities_clear_ok [OF loop(2)] loop(3,4) in simp_all)
      qed
      moreover have "copied d ?move (map sn_tick (ow_scratch ow)) (Inr o') ow ?ow"
        unfolding copied_def using loop(5) Inr ow2(4)
        by (auto simp: outcome_total_def no_copy_def image_image intro!: exI [of _ "admitted looked"])
      ultimately show ?thesis unfolding move by blast
    qed
  qed
qed

definition area_snapshot :: "TickDomain \<Rightarrow> TickBounds \<Rightarrow> ScheduledTickOwner \<Rightarrow> ScheduledTick list" where
  "area_snapshot d b ow = filter (\<lambda>t. bounds_contains b (st_position t)) (phase_ticks d ow)
     @ concat (map (area_ticks d b) (area_chunks b (ow_chunks ow)))"

lemma checked_sum_Some: "checked_sum acc ns = Some n \<Longrightarrow> n = acc + sum_list ns"
proof (induction ns arbitrary: acc)
  case (Cons a ns)
  then have "checked_sum (acc + a) ns = Some n" by (auto simp: bind_eq_Some_conv usize_simps)
  from Cons.IH [OF this] show ?case by simp
qed simp

lemma snapshot_count_eq:
  "snapshot_count (ow_chunks ow) (phase_ticks d ow) d b = Inr n \<Longrightarrow> n = length (area_snapshot d b ow)"
  by (auto simp: snapshot_count_def area_snapshot_def Let_def ok_or_def usize_simps length_concat comp_def split: option.splits dest!: checked_sum_Some)

lemma snapshot_of_simps:
  "length (snapshot_of ticks) = length ticks" "e \<in> set (snapshot_of ticks) \<Longrightarrow> \<not> sn_admitted e" "map sn_tick (snapshot_of ticks) = ticks"
  by (auto simp: snapshot_of_def case_prod_beta comp_def)

lemma copy_area_from_ok:
  assumes ok: "owner_ok env ow" and env: "te_grants (oe_tick env)"
  shows "\<exists>r ow'. copy_area_from env hash source d b offset ow = Some (r, ow') \<and> owner_ok env ow' \<and>
    copied d (copy_move offset (area_snapshot d b source)) (area_snapshot d b source) r ow ow'"
proof (cases "bind_r (bounds_validate b) (\<lambda>u. snapshot_count (ow_chunks source) (phase_ticks d source) d b)")
  case (Inl e)
  then show ?thesis using ok by (auto simp: copy_area_from_def copied_def)
next
  case (Inr needed)
  let ?ticks = "area_snapshot d b source"
  from Inr have count: "snapshot_count (ow_chunks source) (phase_ticks d source) d b = Inr needed" by (auto simp: result_simps)
  obtain r ow1 where ens: "ensure_operation_scratch env hash needed True ow = Some (r, ow1)" "owner_ok env ow1" "scratch_frame ow ow1"
      "r = Inr () \<longrightarrow> needed = 0 \<or> scratch_ready needed True ow1"
    using ensure_scratch_ok [OF ok env] by blast
  show ?thesis
  proof (cases r)
    case (Inl e)
    then show ?thesis using Inr ens by (auto simp: copy_area_from_def copied_def scratch_frame_def)
  next
    case u: (Inr u)
    show ?thesis
    proof (cases "gather_snapshot (ow_chunks source) (phase_ticks d source) d b (ow_scratch_capacity ow1)")
      case (Inl e)
      then show ?thesis using Inr ens u owner_ok_clear_scratch [OF ens(2)] by (auto simp: copy_area_from_def copied_def scratch_frame_def)
    next
      case snap: (Inr snapshot)
      let ?ow = "ow1\<lparr>ow_scratch := snapshot\<rparr>"
      have sn: "length snapshot = needed" "\<forall>e \<in> set snapshot. \<not> sn_admitted e" "map sn_tick snapshot = ?ticks"
        using snap snapshot_count_eq [OF count] by (auto simp: gather_snapshot_def count result_simps snapshot_of_simps area_snapshot_def split: if_splits)
      have "scratch_ready (length snapshot) True ?ow" if "snapshot \<noteq> []" using ens(4) u sn(1) that by (auto simp: scratch_ready_def)
      then obtain r' ow' where "commit_copy d offset ?ow = Some (r', ow')" "owner_ok env ow'" "copied d (copy_move offset ?ticks) ?ticks r' ?ow ow'"
        using commit_copy_ok [OF owner_ok_clear_scratch [OF ens(2), of snapshot], of d offset] sn by auto
      moreover have "ow_chunks ow1 = ow_chunks ow" using ens(3) by (auto simp: scratch_frame_def)
      ultimately show ?thesis using Inr ens u snap by (auto simp: copy_area_from_def copied_def split: sum.splits)
    qed
  qed
qed

end
