(* ===== verification/TickOwnerRuns.thy ===== *)
theory TickOwnerRuns
  imports TickCopy
begin

text \<open>
  Runs of the tick owner. Every call of its interface is an \<open>owner_op\<close>; a run makes a sequence of them.
  The lemmas follow the ticks through the calls: scheduled ticks, a phase from its selection to its
  end, and saved ticks through loading, unpacking and packing.
\<close>

section \<open>The interface\<close>

datatype owner_op =
    RegisterChunk tick_hasher tick_hasher ChunkAddress bool
  | LoadPendingChunk tick_hasher tick_hasher ChunkAddress "SavedTick list" "SavedTick list"
  | UnpackChunk ChunkAddress int
  | PackChunk ChunkAddress TickDomain int "SavedTick list" nat
  | ReleaseScratch
  | SetEligible ChunkAddress bool
  | DetachChunk ChunkAddress
  | DiscardDetachedChunk ChunkAddress
  | Schedule TickDomain TickPosition nat int int TickPriority
  | HasScheduled TickDomain TickPosition nat
  | QueuedCount TickDomain
  | BeginPhase TickDomain int nat
  | WillTickThisPhase TickDomain TickPosition nat
  | NextDue
  | FinishPhase
  | ClearArea TickDomain TickBounds
  | CopyArea tick_hasher TickDomain TickBounds TickPosition
  | CopyAreaFrom tick_hasher ScheduledTickOwner TickDomain TickBounds TickPosition

text \<open>The owner after a call; \<open>None\<close> when the call panics.\<close>

primrec owner_step :: "owner_env \<Rightarrow> owner_op \<Rightarrow> ScheduledTickOwner \<Rightarrow> ScheduledTickOwner option" where
  "owner_step env (RegisterChunk bh fh a e) ow = map_option snd (register_chunk env bh fh a e ow)"
| "owner_step env (LoadPendingChunk bh fh a blocks fluids) ow = map_option snd (load_pending_chunk env bh fh a blocks fluids ow)"
| "owner_step env (UnpackChunk a t) ow = map_option snd (unpack_chunk env a t ow)"
| "owner_step env (PackChunk a d t out capacity) ow = map_option snd (pack_chunk env a d t out capacity ow)"
| "owner_step env ReleaseScratch ow = release_operation_scratch env ow"
| "owner_step env (SetEligible a e) ow = map_option snd (set_eligible a e ow)"
| "owner_step env (DetachChunk a) ow = map_option snd (detach_chunk a ow)"
| "owner_step env (DiscardDetachedChunk a) ow = map_option snd (discard_detached_chunk env a ow)"
| "owner_step env (Schedule d p type_id t delay priority) ow = map_option snd (schedule d p type_id t delay priority ow)"
| "owner_step env (HasScheduled d p type_id) ow = map_option (\<lambda>_. ow) (has_scheduled d p type_id ow)"
| "owner_step env (QueuedCount d) ow = (let count = queued_count d ow in Some ow)"
| "owner_step env (BeginPhase d t n) ow = map_option snd (begin_phase d t n ow)"
| "owner_step env (WillTickThisPhase d p type_id) ow = map_option snd (will_tick_this_phase d p type_id ow)"
| "owner_step env NextDue ow = map_option snd (next_due ow)"
| "owner_step env FinishPhase ow = map_option snd (finish_phase ow)"
| "owner_step env (ClearArea d b) ow = map_option snd (clear_area d b ow)"
| "owner_step env (CopyArea h d b offset) ow = map_option snd (copy_area env h d b offset ow)"
| "owner_step env (CopyAreaFrom h source d b offset) ow = map_option snd (copy_area_from env h source d b offset ow)"

text \<open>The coordinates of an address are 32-bit integers.\<close>

fun op_valid :: "owner_op \<Rightarrow> bool" where
  "op_valid (RegisterChunk bh fh a e) = chunk_i32 a"
| "op_valid (LoadPendingChunk bh fh a blocks fluids) = chunk_i32 a"
| "op_valid op = True"

fun owner_run :: "owner_env \<Rightarrow> owner_op list \<Rightarrow> ScheduledTickOwner \<Rightarrow> ScheduledTickOwner option" where
  "owner_run env [] ow = Some ow"
| "owner_run env (op # ops) ow = Option.bind (owner_step env op ow) (owner_run env ops)"

lemma has_scheduled_eq:
  assumes "owner_ok env ow" "registered ow (tick_chunk p) = Inr i"
  shows "has_scheduled d p type_id ow = Some (\<lparr>id_position = p, id_type_id = type_id\<rparr> \<in> ids_set (tq_identities (owner_queue d i ow)))"
proof -
  have i: "i < length (ow_chunks ow)" using registered_Inr [OF owner_okD(1) [OF assms(1)] assms(2)] by simp
  then have "ids_ok (tq_hash (owner_queue d i ow)) (tq_identities (owner_queue d i ow))"
    using chunks_ok_nth [OF owner_okD(1) [OF assms(1)] i] by (auto simp: chunk_ok_def queue_ok_def)
  then show ?thesis using assms(2) ids_contains_ok by (simp add: has_scheduled_def Let_def)
qed

lemma has_scheduled_total:
  assumes "owner_ok env ow"
  shows "\<exists>b. has_scheduled d p type_id ow = Some b"
proof (cases "registered ow (tick_chunk p)")
  case (Inl e)
  then show ?thesis by (intro exI [of _ False]) (simp add: has_scheduled_def)
next
  case (Inr i)
  then show ?thesis using has_scheduled_eq [OF assms] by blast
qed

lemma owner_step_ok:
  assumes ok: "owner_ok env ow" and env: "te_grants (oe_tick env)" and op: "op_valid op"
  shows "\<exists>ow'. owner_step env op ow = Some ow' \<and> owner_ok env ow'"
proof (cases op)
  case (RegisterChunk bh fh a e)
  then show ?thesis using register_chunk_ok [OF ok env, of a bh fh e] op by fastforce
next
  case (LoadPendingChunk bh fh a blocks fluids)
  then show ?thesis using load_pending_chunk_ok [OF ok env, of a bh fh blocks fluids] op by fastforce
next
  case (UnpackChunk a t)
  then show ?thesis using unpack_chunk_ok [OF ok, of a t] by fastforce
next
  case (PackChunk a d t out capacity)
  obtain r ow' where "pack_chunk env a d t out capacity ow = Some (r, ow')" "owner_ok env ow'" using pack_chunk_ok [OF ok env] by blast
  then show ?thesis using PackChunk by simp
next
  case ReleaseScratch
  then show ?thesis using release_scratch_ok [OF ok] by fastforce
next
  case (SetEligible a e)
  then show ?thesis using set_eligible_ok [OF ok, of a e] by fastforce
next
  case (DetachChunk a)
  then show ?thesis using detach_chunk_ok [OF ok, of a] by fastforce
next
  case (DiscardDetachedChunk a)
  then show ?thesis using discard_chunk_ok [OF ok, of a] by fastforce
next
  case (Schedule d p type_id t delay priority)
  then show ?thesis using schedule_ok [OF ok, of d p type_id t delay priority] by fastforce
next
  case (HasScheduled d p type_id)
  obtain b where "has_scheduled d p type_id ow = Some b" using has_scheduled_total [OF ok] by blast
  then show ?thesis using HasScheduled ok by simp
next
  case (QueuedCount d)
  then show ?thesis using ok by simp
next
  case (BeginPhase d t n)
  obtain r ow' where "begin_phase d t n ow = Some (r, ow')" "owner_ok env ow'" using begin_phase_ok [OF ok] by blast
  then show ?thesis using BeginPhase by simp
next
  case (WillTickThisPhase d p type_id)
  then show ?thesis using will_tick_ok [OF ok, of d p type_id] by fastforce
next
  case NextDue
  obtain r ow' where "next_due ow = Some (r, ow')" "owner_ok env ow'" using next_due_ok [OF ok] by blast
  then show ?thesis using NextDue by simp
next
  case FinishPhase
  obtain r ow' where "finish_phase ow = Some (r, ow')" "owner_ok env ow'" using finish_phase_ok [OF ok] by blast
  then show ?thesis using FinishPhase by simp
next
  case (ClearArea d b)
  obtain r ow' where "clear_area d b ow = Some (r, ow')" "owner_ok env ow'" using clear_area_ok [OF ok] by blast
  then show ?thesis using ClearArea by simp
next
  case (CopyArea h d b offset)
  obtain r ow' where "copy_area env h d b offset ow = Some (r, ow')" "owner_ok env ow'" using copy_area_from_ok [OF ok env] unfolding copy_area_def by blast
  then show ?thesis using CopyArea by simp
next
  case (CopyAreaFrom h source d b offset)
  obtain r ow' where "copy_area_from env h source d b offset ow = Some (r, ow')" "owner_ok env ow'" using copy_area_from_ok [OF ok env] by blast
  then show ?thesis using CopyAreaFrom by simp
qed

lemma owner_run_ok:
  assumes "owner_ok env ow" "te_grants (oe_tick env)" "list_all op_valid ops"
  shows "\<exists>ow'. owner_run env ops ow = Some ow' \<and> owner_ok env ow'"
  using assms
proof (induction ops arbitrary: ow)
  case (Cons op ops)
  obtain ow1 where "owner_step env op ow = Some ow1" "owner_ok env ow1" using owner_step_ok [OF Cons.prems(1,2), of op] Cons.prems(3) by auto
  then show ?case using Cons.IH [of ow1] Cons.prems by auto
qed simp

section \<open>Phases to their end\<close>

text \<open>The loop of a client: \<open>n\<close> calls of \<open>next_due\<close> and the ticks they returned.\<close>

fun take_due :: "nat \<Rightarrow> ScheduledTickOwner \<Rightarrow> (ScheduledTick option list \<times> ScheduledTickOwner) option" where
  "take_due 0 ow = Some ([], ow)"
| "take_due (Suc n) ow =
    (case next_due ow of
       Some (Inr t, ow1) \<Rightarrow> map_option (\<lambda>(ts, ow2). (t # ts, ow2)) (take_due n ow1)
     | _ \<Rightarrow> None)"

lemma take_due_ok:
  assumes "owner_ok env ow" "ow_active ow \<noteq> None" "ow_cursor ow + n = length (ow_selected ow)"
  shows "\<exists>ow'. take_due n ow = Some (map Some (drop (ow_cursor ow) (ow_selected ow)), ow') \<and> owner_ok env ow' \<and> ow_active ow' = ow_active ow \<and>
    ow_cursor ow' = length (ow_selected ow') \<and> ow_chunks ow' = ow_chunks ow"
  using assms
proof (induction n arbitrary: ow)
  case (Suc n)
  then have less: "ow_cursor ow < length (ow_selected ow)" by simp
  obtain r ow1 where r: "next_due ow = Some (r, ow1)" "owner_ok env ow1" "r = Inr (Some (ow_selected ow ! ow_cursor ow))" "ow_cursor ow1 = ow_cursor ow + 1"
      "ow_selected ow1 = ow_selected ow" "ow_chunks ow1 = ow_chunks ow"
    using next_due_ok [OF Suc.prems(1)] less Suc.prems(2) by auto
  have act: "ow_active ow1 = ow_active ow" using r(1,3) less by (auto simp: next_due_def bind_eq_Some_conv Let_def split: if_splits)
  have "\<exists>ow'. take_due n ow1 = Some (map Some (drop (ow_cursor ow1) (ow_selected ow1)), ow') \<and> owner_ok env ow' \<and> ow_active ow' = ow_active ow1 \<and>
      ow_cursor ow' = length (ow_selected ow') \<and> ow_chunks ow' = ow_chunks ow1"
    by (rule Suc.IH) (use r act Suc.prems in simp_all)
  moreover have "drop (ow_cursor ow) (ow_selected ow) = ow_selected ow ! ow_cursor ow # drop (ow_cursor ow + 1) (ow_selected ow)"
    using Cons_nth_drop_Suc [OF less] by simp
  ultimately show ?case using r act by auto
qed simp

section \<open>Saved ticks\<close>

text \<open>A saved tick as it is after \<open>elapsed\<close> game ticks.\<close>

definition aged :: "int \<Rightarrow> SavedTick \<Rightarrow> SavedTick" where
  "aged elapsed s = s\<lparr>sv_delay := wrap_i32 (sv_delay s - elapsed)\<rparr>"

lemma wrap_i32_cong: "(2 :: int) ^ 32 dvd a - b \<Longrightarrow> wrap_i32 a = wrap_i32 b"
proof -
  assume "(2 :: int) ^ 32 dvd a - b"
  then have "(a + 2147483648) mod 4294967296 = (b + 2147483648) mod 4294967296" by (simp add: mod_eq_dvd_iff)
  then show ?thesis by (simp add: wrap_i32_def)
qed

lemma wrap_i64_dvd: "(2 :: int) ^ 32 dvd wrap_i64 k - k"
proof -
  have "wrap_i64 k - k = - ((k + 2 ^ 63) div 2 ^ 64 * 2 ^ 64)" unfolding wrap_i64_def minus_div_mult_eq_mod [symmetric] by simp
  also have "\<dots> = 2 ^ 32 * (- ((k + 2 ^ 63) div 2 ^ 64 * 2 ^ 32))" by simp
  finally show ?thesis by (metis dvd_triv_left)
qed

lemma delay_arithmetic: "wrap_i32 (wrap_i64 (wrap_i64 (t + delay) - t')) = wrap_i32 (delay - (t' - t))"
proof (rule wrap_i32_cong)
  have "wrap_i64 (wrap_i64 (t + delay) - t') - (delay - (t' - t)) =
      (wrap_i64 (wrap_i64 (t + delay) - t') - (wrap_i64 (t + delay) - t')) + (wrap_i64 (t + delay) - (t + delay))" by simp
  then show "(2 :: int) ^ 32 dvd wrap_i64 (wrap_i64 (t + delay) - t') - (delay - (t' - t))" using wrap_i64_dvd by (metis dvd_add)
qed

lemma packed_unpacked_tick: "packed_tick t' (unpacked_tick t order s) = aged (t' - t) s"
  by (simp add: packed_tick_def unpacked_tick_def aged_def delay_arithmetic)

lemma map_packed_unpacked: "map (packed_tick t') (unpacked_ticks t order saved) = map (aged (t' - t)) saved"
  by (induction saved arbitrary: order) (simp_all add: packed_unpacked_tick)

lemma unpacked_orders: "map st_sub_tick_order (unpacked_ticks t order saved) = map (\<lambda>k. order + int k) [0..<length saved]"
proof (induction saved arbitrary: order)
  case (Cons s saved)
  have "[0..<Suc (length saved)] = 0 # map Suc [0..<length saved]" by (simp add: upt_conv_Cons map_Suc_upt del: upt_Suc)
  then show ?case using Cons [of "order + 1"] by (simp add: unpacked_tick_def ac_simps)
qed simp

lemma length_unpacked_ticks [simp]: "length (unpacked_ticks t order saved) = length saved"
  by (induction saved arbitrary: order) simp_all

lemma sort_snapshot:
  assumes perm: "mset vs = mset ticks" and orders: "map st_sub_tick_order ticks = map (\<lambda>k. order + int k) [0..<length ticks]"
  shows "map sn_tick (sort_key (\<lambda>e. (st_sub_tick_order (sn_tick e), sn_sequence e)) (snapshot_of vs)) = ticks" (is "map sn_tick ?s = ticks")
proof (rule map_sorted_distinct_set_unique [where f = st_sub_tick_order])
  have mset: "mset (map sn_tick ?s) = mset ticks" using perm snapshot_of_simps(3) [of vs] by (metis mset_map mset_sort)
  have inc: "sorted (map st_sub_tick_order ticks)" "distinct (map st_sub_tick_order ticks)"
    unfolding orders by (auto simp: sorted_iff_nth_mono distinct_map inj_on_def)
  show "sorted (map st_sub_tick_order ticks)" "distinct (map st_sub_tick_order ticks)" by (rule inc)+
  have keys: "sorted (map (\<lambda>e. (st_sub_tick_order (sn_tick e), sn_sequence e)) ?s)" by (rule sorted_sort_key)
  have "sorted_wrt (\<lambda>x y. (st_sub_tick_order (sn_tick x), sn_sequence x) \<le> (st_sub_tick_order (sn_tick y), sn_sequence y)) ?s"
    using keys by (simp only: sorted_map)
  then have "sorted_wrt (\<lambda>x y. st_sub_tick_order (sn_tick x) \<le> st_sub_tick_order (sn_tick y)) ?s"
    by (rule sorted_wrt_mono_rel [rotated]) (auto simp: less_eq_prod_def)
  then show "sorted (map st_sub_tick_order (map sn_tick ?s))" by (simp add: sorted_map comp_def)
  have "mset (map st_sub_tick_order (map sn_tick ?s)) = mset (map st_sub_tick_order ticks)" using mset by (metis mset_map)
  then show "distinct (map st_sub_tick_order (map sn_tick ?s))" using inc(2) by (metis mset_eq_imp_distinct_iff)
  show sets: "set (map sn_tick ?s) = set ticks" using mset by (metis mset_eq_setD)
  show "inj_on st_sub_tick_order (set (map sn_tick ?s) \<union> set ticks)" using inc(2) sets by (simp add: distinct_map)
qed

lemma packed_unpacked_queue:
  assumes "mset (sched_values (tq_heap q)) = mset (unpacked_ticks t order saved)" "tq_pending q = None"
  shows "packed_ticks t' q = map (aged (t' - t)) saved"
proof -
  have "map sn_tick (sort_key (\<lambda>e. (st_sub_tick_order (sn_tick e), sn_sequence e)) (snapshot_of (sched_values (tq_heap q)))) = unpacked_ticks t order saved"
    by (rule sort_snapshot [OF assms(1), of order]) (simp add: unpacked_orders)
  then have "map (packed_tick t') (map sn_tick (sort_key (\<lambda>e. (st_sub_tick_order (sn_tick e), sn_sequence e)) (snapshot_of (sched_values (tq_heap q))))) =
      map (aged (t' - t)) saved" by (simp only: map_packed_unpacked)
  then show ?thesis using assms(2) by (simp add: packed_ticks_def pending_ticks_def comp_def)
qed

lemma loaded_queue:
  assumes ok: "owner_ok env ow" and env: "te_grants (oe_tick env)" and a: "chunk_i32 a"
    and load: "load_pending_chunk env bh fh a blocks fluids ow = Some (Inr (), ow1)"
  shows "owner_ok env ow1 \<and> (\<exists>i. chunk_find (ow_chunks ow1) a = Inr i \<and> i < length (ow_chunks ow1) \<and>
    (\<forall>d. pending_ticks (owner_queue d i ow1) = filter (\<lambda>t. tick_chunk (sv_position t) = a) (domain_saved d blocks fluids) \<and>
      sched_values (tq_heap (owner_queue d i ow1)) = []))"
proof -
  obtain i c left where ow1: "owner_ok env ow1" "i \<le> length (ow_chunks ow)" "loaded_chunk a blocks fluids c" "ow1 = (insert_chunk i c ow)\<lparr>ow_allocated_bytes := left\<rparr>"
    using load_pending_chunk_ok [OF ok env a, of bh fh blocks fluids] load by auto
  have sorted: "sorted_wrt address_less (map ck_address (ow_chunks ow1))" using owner_okD(1) [OF ow1(1)] by (simp add: chunks_ok_def)
  have at: "i < length (ow_chunks ow1)" "ow_chunks ow1 ! i = c" using ow1(2,4) by (simp_all add: nth_append)
  then show ?thesis using ow1(1,3) chunk_find_at [OF sorted at(1)] by (auto simp: loaded_chunk_def)
qed

lemma unpacked_chunk_queues:
  assumes ok: "owner_ok env ow" and i: "chunk_find (ow_chunks ow) a = Inr i" "i < length (ow_chunks ow)"
    and empty: "\<And>d. sched_values (tq_heap (owner_queue d i ow)) = []"
  shows "\<exists>ow'. unpack_chunk env a t ow = Some (Inr (), ow') \<and> owner_ok env ow' \<and> chunk_find (ow_chunks ow') a = Inr i \<and>
    (\<forall>d. tq_pending (owner_queue d i ow') = None \<and> (\<exists>order. mset (sched_values (tq_heap (owner_queue d i ow'))) =
      mset (unpacked_ticks t order (pending_ticks (owner_queue d i ow)))))"
proof -
  let ?o1 = "\<lambda>h idx b. (swap_queue BlockDomain i ((owner_queue BlockDomain i ow)\<lparr>tq_heap := h, tq_pending := None\<rparr>) idx ow)\<lparr>ow_allocated_bytes := b\<rparr>"
  let ?o2 = "\<lambda>o1 h idx b. (swap_queue FluidDomain i ((owner_queue FluidDomain i ow)\<lparr>tq_heap := h, tq_pending := None\<rparr>) idx o1)\<lparr>ow_allocated_bytes := b\<rparr>"
  obtain h idx b where u1: "unpack_domain env i t BlockDomain ow = Some (?o1 h idx b)"
      "mset (sched_values h) = mset (unpacked_ticks t (- int (length (pending_ticks (owner_queue BlockDomain i ow)))) (pending_ticks (owner_queue BlockDomain i ow)))"
      "owner_ok env (?o1 h idx b)"
    using unpack_domain_ok [OF ok i(2), of t BlockDomain] empty [of BlockDomain] by auto
  define o1 where "o1 = ?o1 h idx b"
  have q1: "owner_queue FluidDomain i o1 = owner_queue FluidDomain i ow" "i < length (ow_chunks o1)"
      "owner_queue BlockDomain i o1 = (owner_queue BlockDomain i ow)\<lparr>tq_heap := h, tq_pending := None\<rparr>"
    using i(2) by (simp_all add: o1_def del: chunk_queue.simps)
  obtain h' idx' b' where u2: "unpack_domain env i t FluidDomain o1 = Some (?o2 o1 h' idx' b')"
      "mset (sched_values h') = mset (unpacked_ticks t (- int (length (pending_ticks (owner_queue FluidDomain i ow)))) (pending_ticks (owner_queue FluidDomain i ow)))"
      "owner_ok env (?o2 o1 h' idx' b')"
    using unpack_domain_ok [OF u1(3) [folded o1_def] q1(2), of t FluidDomain] empty [of FluidDomain] unfolding q1(1) by auto
  define o2 where "o2 = ?o2 o1 h' idx' b'"
  have q2: "owner_queue FluidDomain i o2 = (owner_queue FluidDomain i ow)\<lparr>tq_heap := h', tq_pending := None\<rparr>"
      "owner_queue BlockDomain i o2 = (owner_queue BlockDomain i ow)\<lparr>tq_heap := h, tq_pending := None\<rparr>" using i(2) q1(2,3) by (simp_all add: o2_def del: chunk_queue.simps)
  have "i < length (ow_chunks o2)" "ck_address (ow_chunks o2 ! i) = a"
    using i q1(2) by (simp_all add: o2_def o1_def chunk_find_def Let_def split: if_splits)
  then have "chunk_find (ow_chunks o2) a = Inr i"
    using chunk_find_at [of "ow_chunks o2" i] owner_okD(1) [OF u2(3) [folded o2_def]] by (simp add: chunks_ok_def)
  moreover have "tq_pending (owner_queue d i o2) = None \<and> (\<exists>order. mset (sched_values (tq_heap (owner_queue d i o2))) =
      mset (unpacked_ticks t order (pending_ticks (owner_queue d i ow))))" for d
    using q2 u1(2) u2(2) by (cases d) auto
  moreover have "unpack_chunk env a t ow = Some (Inr (), o2)" using i(1) u1(1) u2(1) by (simp add: unpack_chunk_def o1_def o2_def)
  ultimately show ?thesis using u2(3) o2_def by blast
qed

lemma reserved_vec_errors: "reserved_vec env width n budget = (Inl e, left) \<Longrightarrow> e \<in> {InvalidLimits, AllocationBudget, AllocationFailed}"
  by (auto simp: reserved_vec_def split: option.splits if_splits)

lemma pack_chunk_errors:
  assumes i: "chunk_find (ow_chunks ow) a = Inr i" and r: "pack_chunk env a d t out capacity ow = Some (Inl e, ow')"
  shows "(e = OutputCapacity \<and> capacity - length out < queue_count (owner_queue d i ow)) \<or> e \<in> {InvalidLimits, AllocationBudget, AllocationFailed}"
proof (cases "capacity - length out < queue_count (owner_queue d i ow)")
  case True
  then show ?thesis using i r by (simp add: pack_chunk_def Let_def)
next
  case False
  let ?n = "length (sched_values (tq_heap (owner_queue d i ow)))"
  obtain r1 ow1 where e: "ensure_operation_scratch env (\<lambda>x. 0) ?n False ow = Some (r1, ow1)"
    using i r False by (cases "ensure_operation_scratch env (\<lambda>x. 0) ?n False ow") (auto simp: pack_chunk_def Let_def)
  have "ensure_operation_scratch env (\<lambda>x. 0) ?n False ow = Some (Inl e, ow1)"
    using i r False e by (cases r1) (simp_all add: pack_chunk_def Let_def)
  then have "e \<in> {InvalidLimits, AllocationBudget, AllocationFailed}"
    by (auto simp: ensure_operation_scratch_def Let_def bind_eq_Some_conv bind_b_def
      split: if_split_asm prod.split_asm sum.split_asm dest: reserved_vec_errors)
  then show ?thesis by simp
qed

section \<open>Scheduling\<close>

text \<open>What a call of \<open>schedule\<close> with a valid type does, by the chunk of the position.\<close>

definition scheduled_as :: "TickDomain \<Rightarrow> ScheduledTick \<Rightarrow> TickError + ScheduleOutcome \<Rightarrow> ScheduledTickOwner \<Rightarrow> ScheduledTickOwner \<Rightarrow> bool" where
  "scheduled_as d tick r ow ow' \<longleftrightarrow>
    (case registered ow (tick_chunk (st_position tick)) of
       Inl e \<Rightarrow> r = Inr MissingContainer \<and> ow_chunks ow' = ow_chunks ow
     | Inr i \<Rightarrow>
         if has_scheduled d (st_position tick) (st_type_id tick) ow = Some True then r = Inr Duplicate \<and> ow_chunks ow' = ow_chunks ow
         else if queue_count (owner_queue d i ow) = tl_queued_per_chunk (ow_limits ow) then r = Inl QueueFull \<and> ow_chunks ow' = ow_chunks ow
         else r = Inr Added \<and> has_scheduled d (st_position tick) (st_type_id tick) ow' = Some True \<and>
           domain_ticks d (ow_chunks ow') = add_mset tick (domain_ticks d (ow_chunks ow)) \<and>
           (\<forall>d'. d' \<noteq> d \<longrightarrow> domain_ticks d' (ow_chunks ow') = domain_ticks d' (ow_chunks ow)))"

lemma domain_ticks_other_queue:
  assumes "i < length chunks" "d' \<noteq> d"
  shows "domain_ticks d' (chunks[i := chunk_set_queue d q (chunks ! i)]) = domain_ticks d' chunks"
proof -
  have "chunk_ticks d' (chunk_set_queue d q (chunks ! i)) = chunk_ticks d' (chunks ! i)" using assms(2) by (cases d; cases d') (simp_all add: chunk_ticks_def)
  then show ?thesis using domain_ticks_update [OF assms(1), of d' "chunk_set_queue d q (chunks ! i)"] by simp
qed

lemma schedule_created_as:
  assumes ok: "owner_ok env ow" and reg: "registered ow (tick_chunk (st_position tick)) = Inr i"
  shows "\<exists>r ow'. schedule_created d i tick ow = Some (r, ow') \<and> owner_ok env ow' \<and> scheduled_as d tick r ow ow' \<and> ow_next_sub_tick ow' = ow_next_sub_tick ow"
proof -
  note i = registered_Inr [OF owner_okD(1) [OF ok] reg]
  let ?q = "owner_queue d i ow" and ?c = "ow_chunks ow ! i"
  have il: "i < length (ow_chunks ow)" using i by simp
  have known: "has_scheduled d (st_position tick) (st_type_id tick) ow = Some (identity tick \<in> ids_set (tq_identities ?q))"
    using has_scheduled_eq [OF ok reg] by (simp add: identity_def)
  obtain r ow' where r: "schedule_created d i tick ow = Some (r, ow')" "owner_ok env ow'"
      "let q = ?q in if identity tick \<in> ids_set (tq_identities q) then r = Inr Duplicate \<and> ow' = ow
       else if queue_count q = tl_queued_per_chunk (ow_limits ow) then r = Inl QueueFull \<and> ow' = ow
       else r = Inr Added \<and> (\<exists>q' idx. ow' = set_timeline d idx (set_chunk i (chunk_set_queue d q' ?c) ow) \<and>
         mset (sched_values (tq_heap q')) = add_mset tick (mset (sched_values (tq_heap q))) \<and> pending_ticks q' = pending_ticks q \<and>
         ids_set (tq_identities q') = insert (identity tick) (ids_set (tq_identities q)) \<and> tq_hash q' = tq_hash q)"
    using schedule_created_ok [OF ok il, of tick d] i by auto
  show ?thesis
  proof (cases "identity tick \<in> ids_set (tq_identities ?q) \<or> queue_count ?q = tl_queued_per_chunk (ow_limits ow)")
    case True
    then show ?thesis using r known reg by (auto simp: scheduled_as_def Let_def split: if_splits)
  next
    case False
    then obtain q' idx where new: "r = Inr Added" "ow' = set_timeline d idx (set_chunk i (chunk_set_queue d q' ?c) ow)"
        "mset (sched_values (tq_heap q')) = add_mset tick (mset (sched_values (tq_heap ?q)))"
        "ids_set (tq_identities q') = insert (identity tick) (ids_set (tq_identities ?q))"
      using r(3) by (auto simp: Let_def)
    have chunks: "ow_chunks ow' = (ow_chunks ow)[i := chunk_set_queue d q' ?c]" using new(2) by simp
    have "registered ow' (tick_chunk (st_position tick)) = Inr i" using registered_set_chunk [OF owner_okD(1) [OF ok] il, of "chunk_set_queue d q' ?c"] reg new(2) by simp
    then have has: "has_scheduled d (st_position tick) (st_type_id tick) ow' = Some True"
      using has_scheduled_eq [OF r(2)] chunks il new(4) by (simp add: identity_def)
    have "domain_ticks d (ow_chunks ow') = add_mset tick (domain_ticks d (ow_chunks ow))"
      using domain_ticks_update [OF il, of d "chunk_set_queue d q' ?c"] new(3) chunks by (simp add: chunk_ticks_def)
    moreover have "domain_ticks d' (ow_chunks ow') = domain_ticks d' (ow_chunks ow)" if "d' \<noteq> d" for d' using domain_ticks_other_queue [OF il that] chunks by simp
    moreover have "ow_next_sub_tick ow' = ow_next_sub_tick ow" using new(2) by (cases d) (simp_all add: set_chunk_def)
    ultimately show ?thesis using r(1,2) new(1) False known reg has by (auto simp: scheduled_as_def)
  qed
qed

lemma schedule_as:
  assumes ok: "owner_ok env ow"
  shows "\<exists>r ow'. schedule d p type_id game_time delay priority ow = Some (r, ow') \<and> owner_ok env ow' \<and>
    (if type_id \<ge> type_count d ow then r = Inl InvalidType \<and> ow' = ow
     else ow_next_sub_tick ow' = wrap_i64 (ow_next_sub_tick ow + 1) \<and>
       scheduled_as d \<lparr>st_position = p, st_type_id = type_id, st_trigger_tick = wrap_i64 (game_time + delay), st_priority = priority,
         st_sub_tick_order = ow_next_sub_tick ow\<rparr> r ow ow')"
proof (cases "type_id \<ge> type_count d ow")
  case True
  then show ?thesis using ok by (simp add: schedule_def)
next
  case False
  let ?w = "ow\<lparr>ow_next_sub_tick := wrap_i64 (ow_next_sub_tick ow + 1)\<rparr>"
  let ?t = "\<lparr>st_position = p, st_type_id = type_id, st_trigger_tick = wrap_i64 (game_time + delay), st_priority = priority, st_sub_tick_order = ow_next_sub_tick ow\<rparr>"
  have reg: "registered ?w a = registered ow a" for a by (simp add: registered_def cong: sum.case_cong)
  then have as: "scheduled_as d ?t r ?w ow' = scheduled_as d ?t r ow ow'" for r ow' by (simp add: scheduled_as_def has_scheduled_def cong: sum.case_cong if_cong)
  show ?thesis
  proof (cases "registered ow (tick_chunk p)")
    case (Inl e)
    then have "schedule d p type_id game_time delay priority ow = Some (Inr MissingContainer, ?w)" using False reg by (simp add: schedule_def Let_def)
    then show ?thesis using False ok Inl by (simp add: scheduled_as_def)
  next
    case (Inr i)
    then have eq: "schedule d p type_id game_time delay priority ow = schedule_created d i ?t ?w" using False reg by (simp add: schedule_def Let_def)
    have "registered ?w (tick_chunk (st_position ?t)) = Inr i" "owner_ok env ?w" using Inr reg ok by simp_all
    then show ?thesis using schedule_created_as [of env ?w ?t i d] False unfolding eq as by (simp add: conj_commute)
  qed
qed

section \<open>What packing returns\<close>

text \<open>The result of packing a queue that holds \<open>ticks\<close>: they are appended, or there is no room or no memory.\<close>

definition packs_to :: "SavedTick list \<Rightarrow> (nat \<times> SavedTick list) owner_result \<Rightarrow> SavedTick list \<Rightarrow> nat \<Rightarrow> bool" where
  "packs_to ticks result out capacity \<longleftrightarrow>
    (case result of
       None \<Rightarrow> False
     | Some (Inl e, ow') \<Rightarrow> (e = OutputCapacity \<and> capacity - length out < length ticks) \<or> e \<in> {InvalidLimits, AllocationBudget, AllocationFailed}
     | Some (Inr (n, out'), ow') \<Rightarrow> n = length ticks \<and> out' = out @ ticks)"

lemma length_packed_ticks: "length (packed_ticks t q) = queue_count q"
  by (simp add: packed_ticks_def queue_count_eq snapshot_of_simps)

lemma packs_to_packed:
  assumes ok: "owner_ok env ow" and env: "te_grants (oe_tick env)" and i: "chunk_find (ow_chunks ow) a = Inr i"
  shows "packs_to (packed_ticks t (owner_queue d i ow)) (pack_chunk env a d t out capacity ow) out capacity"
proof -
  obtain r ow' where r: "pack_chunk env a d t out capacity ow = Some (r, ow')"
      "\<forall>n out'. r = Inr (n, out') \<longrightarrow> (\<exists>i. chunk_find (ow_chunks ow) a = Inr i \<and> n = queue_count (owner_queue d i ow) \<and>
         out' = out @ packed_ticks t (owner_queue d i ow))"
    using pack_chunk_ok [OF ok env] by blast
  show ?thesis
  proof (cases r)
    case (Inl e)
    then show ?thesis using r(1) pack_chunk_errors [OF i, where env = env and d = d and t = t and out = out and capacity = capacity and e = e and ow' = ow'] by (simp add: packs_to_def length_packed_ticks)
  next
    case (Inr x)
    then show ?thesis using r i by (cases x) (simp add: packs_to_def length_packed_ticks)
  qed
qed

lemma packed_pending: "sched_values (tq_heap q) = [] \<Longrightarrow> packed_ticks t q = pending_ticks q"
  by (simp add: packed_ticks_def snapshot_of_def)

end
