(* ===== verification/TickOwnerProps.thy ===== *)
theory TickOwnerProps
  imports TickOwnerRuns
begin

text \<open>
  The properties of the tick owner, with a sample owner of one chunk for their witnesses.
\<close>

section \<open>A sample owner\<close>

definition sample_owner_env :: owner_env where
  "sample_owner_env = \<lparr>oe_tick = \<lparr>te_reserve = (\<lambda>width n. Some n), te_tick_size = 48, te_ready_size = 24, te_slot_size = 24\<rparr>,
     oe_saved_size = 32, oe_chunk_size = 400, oe_snapshot_size = 64, oe_entry_size = 32\<rparr>"

definition sample_limits :: TickLimits where
  "sample_limits = \<lparr>tl_max_chunks = 2, tl_queued_per_chunk = 2, tl_selected_per_phase = 2, tl_allocation_bytes = 8192\<rparr>"

lemma sample_grants [simp]: "te_grants (oe_tick sample_owner_env)"
  by (simp add: te_grants_def sample_owner_env_def)

definition sample_index_table :: SchedulingIndex where
  "sample_index_table = \<lparr>si_slots = replicate 32 EMPTY_SLOT, si_scratch = replicate 32 EMPTY_SLOT, si_wrapped = [], si_capacity = 32, si_max_keys = 2,
     si_len = 0, si_zero = None, si_scan = None, si_slots_capacity = 32, si_scratch_capacity = 32, si_wrapped_capacity = 2\<rparr>"

definition sample_ids :: Identities where
  "sample_ids = \<lparr>is_slots = replicate 4 None, is_count = 0, is_capacity = 4\<rparr>"

definition sample_owner :: ScheduledTickOwner where
  "sample_owner = \<lparr>ow_limits = sample_limits, ow_block_types = 4, ow_fluid_types = 4, ow_next_sub_tick = 0, ow_chunks = [],
     ow_ready = \<lparr>hp_values = [], hp_limit = 2, hp_capacity = 2\<rparr>, ow_block_index = sample_index_table, ow_fluid_index = sample_index_table,
     ow_selected = [], ow_selected_ids = sample_ids, ow_selected_hash = (\<lambda>x. 0),
     ow_remaining_ids = \<lparr>rm_entries = [], rm_lookup = replicate 4 USIZE_MAX, rm_limit = 2\<rparr>, ow_remaining_hash = (\<lambda>x. 0),
     ow_scratch = [], ow_scratch_capacity = 0, ow_scratch_limit = 6, ow_copy_ids = None, ow_copy_capacity = 0, ow_copy_counts = [],
     ow_copy_counts_capacity = 0, ow_cursor = 0, ow_active = None, ow_allocated_bytes = 3216\<rparr>"

lemma bit_len_small: "bit_len (Suc 0) = 1" "bit_len 3 = 2"
  by code_simp+

lemmas sample_simps = sample_limits_def sample_owner_env_def reserved_vec_def heap_new_def bind_b_def identities_new_def
  checked_mul_def checked_add_def checked_sub_def USIZE_MAX_def USIZE_BYTES_def checked_next_power_of_two_def bit_len_small

lemma sample_owner_new: "owner_new sample_owner_env (\<lambda>x. 0) (\<lambda>x. 0) 4 4 sample_limits = Some (Inr sample_owner)"
proof -
  have "physical_capacity 2 32 = Some 32" by (subst physical_capacity.simps) (simp add: max_fill_def)
  then show ?thesis
    by (simp add: sample_simps owner_new_def index_new_def remaining_new_def SLOT_BYTES_def I64_BYTES_def max_fill_def MAX_CAPACITY_def
      INITIAL_CAPACITY_def index_heap_bytes_def MAX_SCHEDULED_TICKS_PER_PHASE_def sample_owner_def sample_index_table_def sample_ids_def)
qed

lemma sample_owner_ok: "owner_ok sample_owner_env sample_owner"
  using owner_new_ok [OF sample_grants, of "\<lambda>x. 0" "\<lambda>x. 0" 4 4 sample_limits] sample_owner_new by simp

definition sample_address :: ChunkAddress where "sample_address = \<lparr>ca_x = 0, ca_z = 0\<rparr>"

definition sample_queue :: ChunkQueue where
  "sample_queue = \<lparr>tq_heap = \<lparr>sh_heap = \<lparr>hp_values = [], hp_limit = 2, hp_capacity = 2\<rparr>,
       sh_revisits = \<lparr>rv_positions = [], rv_tickets = replicate 2 USIZE_MAX, rv_capacity = 2, rv_tickets_capacity = 2\<rparr>\<rparr>,
     tq_identities = sample_ids, tq_pending = None, tq_hash = (\<lambda>x. 0)\<rparr>"

definition sample_world :: ScheduledTickOwner where
  "sample_world = sample_owner\<lparr>ow_allocated_bytes := 3664,
     ow_chunks := [\<lparr>ck_address = sample_address, ck_registered = True, ck_eligible = True, ck_blocks = sample_queue, ck_fluids = sample_queue\<rparr>]\<rparr>"

lemma sample_register: "register_chunk sample_owner_env (\<lambda>x. 0) (\<lambda>x. 0) sample_address True sample_owner = Some (Inr (), sample_world)"
  by (simp add: sample_simps register_chunk_def sample_owner_def chunk_find_def queue_new_def scheduled_new_def revisits_new_def insert_chunk_def update_head_def
    registered_def scheduled_peek_def heap_peek_def sample_ids_def sample_world_def sample_queue_def)

lemma sample_world_ok: "owner_ok sample_owner_env sample_world"
  using register_chunk_ok [OF sample_owner_ok sample_grants, of sample_address "\<lambda>x. 0" "\<lambda>x. 0" True] sample_register
  by (auto simp: sample_address_def is_i32_def I32_MIN_def I32_MAX_def)

definition sample_position :: TickPosition where "sample_position = \<lparr>tp_x = 3, tp_y = 64, tp_z = 5\<rparr>"

definition sample_due :: ScheduledTick where
  "sample_due = \<lparr>st_position = sample_position, st_type_id = 1, st_trigger_tick = 12, st_priority = Normal, st_sub_tick_order = 0\<rparr>"

lemma sample_registered: "registered sample_world (tick_chunk sample_position) = Inr 0"
  by (simp add: registered_def chunk_find_def sample_world_def sample_address_def sample_position_def tick_chunk_def address_less_def)

lemma sample_ids_empty: "ids_set sample_ids = {}"
  by (auto simp: ids_set_def sample_ids_def table_keys_def)

lemma sample_scheduled:
  "\<exists>ow c. schedule BlockDomain sample_position 1 10 2 Normal sample_world = Some (Inr Added, ow) \<and> owner_ok sample_owner_env ow \<and> ow_chunks ow = [c] \<and>
    ck_registered c \<and> ck_eligible c \<and> chunk_ticks BlockDomain c = {#sample_due#} \<and> ow_active ow = None \<and> ow_limits ow = sample_limits \<and>
    ck_address c = sample_address \<and> ow_block_types ow = 4 \<and> registered ow (tick_chunk sample_position) = Inr 0"
proof -
  let ?w = "sample_world\<lparr>ow_next_sub_tick := 1\<rparr>" and ?c = "ow_chunks sample_world ! 0"
  have ok: "owner_ok sample_owner_env ?w" using sample_world_ok by simp
  have c: "?c = \<lparr>ck_address = sample_address, ck_registered = True, ck_eligible = True, ck_blocks = sample_queue, ck_fluids = sample_queue\<rparr>"
      "ow_chunks sample_world = [?c]" "ow_limits sample_world = sample_limits" "ow_active sample_world = None" "ow_block_types sample_world = 4" by (simp_all add: sample_world_def sample_owner_def)
  have "queue_count sample_queue = 0" "tl_queued_per_chunk sample_limits = 2" "tq_identities sample_queue = sample_ids" "sched_values (tq_heap sample_queue) = []"
    by (simp_all add: queue_count_def sample_queue_def sample_limits_def)
  then obtain q idx where r: "schedule_created BlockDomain 0 sample_due ?w = Some (Inr Added, set_timeline BlockDomain idx (set_chunk 0 (chunk_set_queue BlockDomain q ?c) ?w))"
      "owner_ok sample_owner_env (set_timeline BlockDomain idx (set_chunk 0 (chunk_set_queue BlockDomain q ?c) ?w))" "mset (sched_values (tq_heap q)) = {#sample_due#}"
    using schedule_created_ok [OF ok, of 0 sample_due BlockDomain] c sample_ids_empty
    by (auto simp: Let_def sample_due_def sample_position_def sample_address_def tick_chunk_def)
  have "schedule BlockDomain sample_position 1 10 2 Normal sample_world = schedule_created BlockDomain 0 sample_due ?w"
    using sample_registered by (simp add: schedule_def registered_def sample_due_def sample_world_def sample_owner_def wrap_i64_def cong: sum.case_cong)
  moreover have "registered (set_timeline BlockDomain idx (set_chunk 0 (chunk_set_queue BlockDomain q ?c) ?w)) (tick_chunk sample_position) = Inr 0"
    using registered_set_chunk [OF owner_okD(1) [OF ok], of 0 "chunk_set_queue BlockDomain q ?c" "tick_chunk sample_position"] c sample_registered
    by (simp add: registered_def cong: sum.case_cong)
  ultimately show ?thesis using r c by (auto simp: chunk_ticks_def set_chunk_def)
qed

definition sample_saved :: SavedTick where
  "sample_saved = \<lparr>sv_position = sample_position, sv_type_id = 1, sv_delay = 8, sv_priority = Low\<rparr>"

lemma sample_load:
  "\<exists>ow1. load_pending_chunk sample_owner_env (\<lambda>x. 0) (\<lambda>x. 0) sample_address [sample_saved] [] sample_owner = Some (Inr (), ow1)"
proof -
  have "queue_ok 2 sample_queue" using sample_world_ok by (auto simp: owner_ok_def chunks_ok_def chunk_ok_def sample_world_def sample_owner_def sample_limits_def dest: spec [of _ BlockDomain])
  then have "ids_ok (\<lambda>x. 0) sample_ids" by (simp add: queue_ok_def sample_queue_def)
  then obtain ids where "identities_insert (\<lambda>x. 0) sample_ids (saved_identity sample_saved) = Some ids"
    using ids_insert_ok [of "\<lambda>x. 0" sample_ids "saved_identity sample_saved"] sample_ids_empty by (auto simp: sample_ids_def)
  then show ?thesis
    by (simp add: sample_simps load_pending_chunk_def sample_owner_def chunk_find_def queue_new_def scheduled_new_def revisits_new_def
      sample_ids_def sample_saved_def sample_position_def sample_address_def tick_chunk_def I32_MAX_def)
qed

section \<open>Properties\<close>

text \<open>
  C3: whatever calls are made on a new owner, in whatever order and with whatever arguments of their
  types, none of them panics (no failed assertion, no index out of range, no \<open>expect\<close> on an error, no
  underflow of the byte counter) and the owner stays well formed: chunks sorted by address, queues that
  are heaps within their limits with the identities of their ticks, indexes that map each registered
  chunk to the trigger time at its head, phase counters that count the ticks left to return, and
  allocated bytes that cover what is held and stay within the limit.
\<close>

theorem owner_never_panics:
  assumes "te_grants (oe_tick env)" "owner_new env selected_hash remaining_hash block_types fluid_types limits = Some (Inr ow)" "list_all op_valid ops"
  shows "\<exists>ow'. owner_run env ops ow = Some ow' \<and> owner_ok env ow'"
  using owner_new_ok [OF assms(1), of selected_hash remaining_hash block_types fluid_types limits] assms(2)
  by (intro owner_run_ok [OF _ assms(1,3)]) auto

theorem owner_never_panics_witness:
  "\<exists>ow'. owner_run sample_owner_env [RegisterChunk (\<lambda>x. 0) (\<lambda>x. 0) sample_address True, Schedule BlockDomain sample_position 1 10 2 Normal,
      BeginPhase BlockDomain 12 2, NextDue, ClearArea BlockDomain \<lparr>tb_min = sample_position, tb_max = sample_position\<rparr>, FinishPhase] sample_owner = Some ow' \<and>
    owner_ok sample_owner_env ow'"
  by (rule owner_never_panics [OF sample_grants sample_owner_new])
    (simp add: sample_address_def is_i32_def I32_MIN_def I32_MAX_def)

text \<open>
  C4: \<open>begin_phase\<close> refuses to start while a phase is active or when it is asked for more ticks than the
  limit, changing nothing. Otherwise it selects at most \<open>max_ticks\<close> ticks, all of them due and from
  registered and eligible chunks, since every other chunk is left as it was, moves exactly those out of
  the queues of the domain, and orders the ticks of each chunk by trigger time, priority and sub-tick
  order. When it selects fewer than it may, no tick of a registered and eligible
  chunk is due any more.
\<close>

theorem begin_phase_selects_due:
  assumes "owner_ok env ow"
  shows "\<exists>r ow'. begin_phase d game_time max_ticks ow = Some (r, ow') \<and> owner_ok env ow' \<and>
    (if ow_active ow \<noteq> None then r = Inl PhaseActive \<and> ow' = ow
     else if max_ticks > tl_selected_per_phase (ow_limits ow) then r = Inl PhaseLimit \<and> ow' = ow
     else r = Inr (length (ow_selected ow')) \<and> phase_selection d game_time max_ticks ow ow')"
  by (rule begin_phase_ok [OF assms])

theorem begin_phase_selects_due_witness:
  "\<exists>ow ow'. schedule BlockDomain sample_position 1 10 2 Normal sample_world = Some (Inr Added, ow) \<and>
    begin_phase BlockDomain 12 2 ow = Some (Inr 1, ow') \<and> ow_selected ow' = [sample_due]"
proof -
  obtain ow c where ow: "schedule BlockDomain sample_position 1 10 2 Normal sample_world = Some (Inr Added, ow)" "owner_ok sample_owner_env ow" "ow_chunks ow = [c]"
      "ck_registered c" "ck_eligible c" "chunk_ticks BlockDomain c = {#sample_due#}" "ow_active ow = None" "ow_limits ow = sample_limits"
    using sample_scheduled by blast
  obtain r ow' where r: "begin_phase BlockDomain 12 2 ow = Some (r, ow')" "r = Inr (length (ow_selected ow'))" "phase_selection BlockDomain 12 2 ow ow'"
    using begin_phase_selects_due [OF ow(2), of BlockDomain 12 2] ow(7,8) by (auto simp: sample_limits_def)
  obtain c' where c': "ow_chunks ow' = [c']" "chunk_step BlockDomain c c'" using r(3) ow(3) by (auto simp: phase_selection_def list_all2_Cons1)
  have sum: "chunk_ticks BlockDomain c' + mset (ow_selected ow') = {#sample_due#}" using r(3) ow(3,6) c'(1) by (simp add: phase_selection_def domain_ticks_def)
  have "length (ow_selected ow') < 2" using arg_cong [OF sum, of size] by simp
  then have "nothing_due BlockDomain 12 [c']" using r(3) c'(1) by (simp add: phase_selection_def)
  then have "sample_due \<notin># chunk_ticks BlockDomain c'"
    using ow(4,5) chunk_step_same [OF c'(2)] by (auto simp: nothing_due_def chunk_ticks_def sample_due_def)
  then have "chunk_ticks BlockDomain c' = {#}" using sum by (metis add_eq_conv_diff empty_eq_union union_single_eq_member union_is_single)
  then have "ow_selected ow' = [sample_due]" using sum by simp
  then show ?thesis using ow(1) r(1,2) by auto
qed

text \<open>
  C22: a phase that has begun can always be carried through: as many calls of \<open>next_due\<close> as ticks were
  selected return them in the order of the selection, the next call returns nothing, and
  \<open>finish_phase\<close> then ends the phase and leaves the queues alone.
\<close>

theorem phase_runs_to_its_end:
  assumes "owner_ok env ow" "begin_phase d game_time max_ticks ow = Some (Inr n, ow1)"
  shows "\<exists>ow2 ow3. take_due n ow1 = Some (map Some (ow_selected ow1), ow2) \<and> next_due ow2 = Some (Inr None, ow2) \<and>
    finish_phase ow2 = Some (Inr (), ow3) \<and> owner_ok env ow3 \<and> ow_active ow3 = None \<and> ow_chunks ow3 = ow_chunks ow1"
proof -
  have ow1: "owner_ok env ow1" "n = length (ow_selected ow1)" "ow_active ow1 = Some d" "ow_cursor ow1 = 0"
    using begin_phase_ok [OF assms(1), of d game_time max_ticks] assms(2) by (auto simp: phase_selection_def split: if_splits)
  obtain ow2 where ow2: "take_due n ow1 = Some (map Some (ow_selected ow1), ow2)" "owner_ok env ow2" "ow_active ow2 = Some d"
      "ow_cursor ow2 = length (ow_selected ow2)" "ow_chunks ow2 = ow_chunks ow1"
    using take_due_ok [OF ow1(1), of n] ow1(2-4) by auto
  then show ?thesis using finish_phase_ok [OF ow2(2)] next_due_ok [OF ow2(2)] by auto
qed

theorem phase_runs_to_its_end_witness:
  "\<exists>ow ow1 ow2 ow3. schedule BlockDomain sample_position 1 10 2 Normal sample_world = Some (Inr Added, ow) \<and> begin_phase BlockDomain 12 2 ow = Some (Inr (length (ow_selected ow1)), ow1) \<and>
    take_due (length (ow_selected ow1)) ow1 = Some (map Some (ow_selected ow1), ow2) \<and> finish_phase ow2 = Some (Inr (), ow3)"
proof -
  obtain ow where ow: "schedule BlockDomain sample_position 1 10 2 Normal sample_world = Some (Inr Added, ow)" "owner_ok sample_owner_env ow"
      "ow_active ow = None" "ow_limits ow = sample_limits" using sample_scheduled by blast
  obtain ow1 where ow1: "begin_phase BlockDomain 12 2 ow = Some (Inr (length (ow_selected ow1)), ow1)"
    using begin_phase_ok [OF ow(2), of BlockDomain 12 2] ow(3,4) by (auto simp: sample_limits_def)
  then show ?thesis using phase_runs_to_its_end [OF ow(2) ow1] ow(1) by blast
qed

text \<open>
  C23: \<open>schedule\<close> refuses an unknown type and changes nothing; otherwise it takes the next sub-tick number,
  whatever comes of it. A position in a chunk that is not registered is reported as such; a position
  and type already scheduled there is a duplicate; a full queue is refused; none of these touches a
  queue. In every other case exactly the new tick, triggering after the delay, is added to the queues
  of its domain, the position and type count as scheduled from then on, and the other domain is left alone.
\<close>

theorem schedule_outcomes:
  assumes "owner_ok env ow"
  shows "\<exists>r ow'. schedule d p type_id game_time delay priority ow = Some (r, ow') \<and> owner_ok env ow' \<and>
    (if type_id \<ge> type_count d ow then r = Inl InvalidType \<and> ow' = ow
     else ow_next_sub_tick ow' = wrap_i64 (ow_next_sub_tick ow + 1) \<and>
       scheduled_as d \<lparr>st_position = p, st_type_id = type_id, st_trigger_tick = wrap_i64 (game_time + delay), st_priority = priority,
         st_sub_tick_order = ow_next_sub_tick ow\<rparr> r ow ow')"
  by (rule schedule_as [OF assms])

theorem schedule_outcomes_witness:
  "\<exists>ow. schedule BlockDomain sample_position 1 10 2 Normal sample_world = Some (Inr Added, ow) \<and> has_scheduled BlockDomain sample_position 1 ow = Some True \<and>
    (\<exists>ow'. schedule BlockDomain sample_position 1 30 5 High ow = Some (Inr Duplicate, ow'))"
proof -
  obtain ow c where ow: "schedule BlockDomain sample_position 1 10 2 Normal sample_world = Some (Inr Added, ow)" "owner_ok sample_owner_env ow"
      "ow_block_types ow = 4" "registered ow (tick_chunk sample_position) = Inr 0"
    using sample_scheduled by blast
  have "has_scheduled BlockDomain sample_position 1 ow = Some True"
    using schedule_outcomes [OF sample_world_ok, of BlockDomain sample_position 1 10 2 Normal] ow(1) sample_registered
    by (auto simp: scheduled_as_def sample_world_def sample_owner_def split: if_splits)
  then show ?thesis using ow schedule_outcomes [OF ow(2), of BlockDomain sample_position 1 30 5 High] by (auto simp: scheduled_as_def)
qed

text \<open>
  C21: saved ticks survive a load. A chunk that is loaded with saved ticks keeps those that lie in it,
  and packing it gives them back as they were. Unpacking them at game time \<open>t\<close> always succeeds, and
  packing the chunk at game time \<open>t'\<close> then gives them back in the saved order, with the time that has
  passed taken off their delays in 32-bit arithmetic; packing at the time of unpacking gives back the
  32-bit delays that were saved. Packing fails only for want of room in the output or of memory.
\<close>

theorem saved_ticks_round_trip:
  assumes "owner_ok env ow" "te_grants (oe_tick env)" "chunk_i32 a" "load_pending_chunk env block_hash fluid_hash a blocks fluids ow = Some (Inr (), ow1)"
  shows "\<exists>ow2. unpack_chunk env a t ow1 = Some (Inr (), ow2) \<and>
    (\<forall>d t' out capacity. let own = filter (\<lambda>s. tick_chunk (sv_position s) = a) (domain_saved d blocks fluids) in
       packs_to own (pack_chunk env a d t' out capacity ow1) out capacity \<and>
       packs_to (map (aged (t' - t)) own) (pack_chunk env a d t' out capacity ow2) out capacity) \<and>
    (\<forall>s. is_i32 (sv_delay s) \<longrightarrow> aged (t - t) s = s)"
proof -
  obtain i where ow1: "owner_ok env ow1" "chunk_find (ow_chunks ow1) a = Inr i" "i < length (ow_chunks ow1)"
      "\<And>d. pending_ticks (owner_queue d i ow1) = filter (\<lambda>s. tick_chunk (sv_position s) = a) (domain_saved d blocks fluids)"
      "\<And>d. sched_values (tq_heap (owner_queue d i ow1)) = []"
    using loaded_queue [OF assms] by blast
  obtain ow2 where ow2: "unpack_chunk env a t ow1 = Some (Inr (), ow2)" "owner_ok env ow2" "chunk_find (ow_chunks ow2) a = Inr i"
      "\<And>d. tq_pending (owner_queue d i ow2) = None" "\<And>d. \<exists>order. mset (sched_values (tq_heap (owner_queue d i ow2))) =
        mset (unpacked_ticks t order (filter (\<lambda>s. tick_chunk (sv_position s) = a) (domain_saved d blocks fluids)))"
    using unpacked_chunk_queues [OF ow1(1-3,5), of t] unfolding ow1(4) by blast
  have "packs_to (filter (\<lambda>s. tick_chunk (sv_position s) = a) (domain_saved d blocks fluids)) (pack_chunk env a d t' out capacity ow1) out capacity" for d t' out capacity
    using packs_to_packed [OF ow1(1) assms(2) ow1(2), where d = d and t = t' and out = out and capacity = capacity] packed_pending [OF ow1(5)] ow1(4) by simp
  moreover have "packs_to (map (aged (t' - t)) (filter (\<lambda>s. tick_chunk (sv_position s) = a) (domain_saved d blocks fluids))) (pack_chunk env a d t' out capacity ow2) out capacity"
    for d t' out capacity
    using packs_to_packed [OF ow2(2) assms(2) ow2(3), where d = d and t = t' and out = out and capacity = capacity] packed_unpacked_queue [OF _ ow2(4)] ow2(5) [of d] by metis
  ultimately show ?thesis using ow2(1) by (auto simp: aged_def wrap_i32_id)
qed

theorem saved_ticks_round_trip_witness:
  "\<exists>ow1 ow2. load_pending_chunk sample_owner_env (\<lambda>x. 0) (\<lambda>x. 0) sample_address [sample_saved] [] sample_owner = Some (Inr (), ow1) \<and>
    unpack_chunk sample_owner_env sample_address 100 ow1 = Some (Inr (), ow2) \<and>
    packs_to [sample_saved\<lparr>sv_delay := 3\<rparr>] (pack_chunk sample_owner_env sample_address BlockDomain 105 [] 8 ow2) [] 8"
proof -
  obtain ow1 where load: "load_pending_chunk sample_owner_env (\<lambda>x. 0) (\<lambda>x. 0) sample_address [sample_saved] [] sample_owner = Some (Inr (), ow1)"
    using sample_load by blast
  have a: "chunk_i32 sample_address" by (simp add: sample_address_def is_i32_def I32_MIN_def I32_MAX_def)
  obtain ow2 where ow2: "unpack_chunk sample_owner_env sample_address 100 ow1 = Some (Inr (), ow2)"
      "\<forall>d t' out capacity. packs_to (map (aged (t' - 100)) (filter (\<lambda>s. tick_chunk (sv_position s) = sample_address) (domain_saved d [sample_saved] [])))
         (pack_chunk sample_owner_env sample_address d t' out capacity ow2) out capacity"
    using saved_ticks_round_trip [OF sample_owner_ok sample_grants a load, of 100] unfolding Let_def by blast
  have "map (aged (105 - 100)) (filter (\<lambda>s. tick_chunk (sv_position s) = sample_address) (domain_saved BlockDomain [sample_saved] [])) = [sample_saved\<lparr>sv_delay := 3\<rparr>]"
    by (simp add: aged_def wrap_i32_def sample_saved_def sample_position_def sample_address_def tick_chunk_def)
  then show ?thesis using load ow2(1) ow2(2) [rule_format, of 105 BlockDomain "[]" 8] by auto
qed

text \<open>
  C24: \<open>clear_area\<close> refuses an empty box and changes nothing. Otherwise it removes from every registered
  chunk exactly the ticks of the domain inside the box, and from a phase of the domain exactly the
  selected ticks inside it; what was left to return stays, without them, in its order. It reports the
  number of ticks it removed.
\<close>

theorem clear_area_exact:
  assumes "owner_ok env ow"
  shows "\<exists>r ow'. clear_area d b ow = Some (r, ow') \<and> owner_ok env ow' \<and>
    (case bounds_validate b of
       Inl e \<Rightarrow> r = Inl e \<and> ow' = ow
     | Inr u \<Rightarrow> list_all2 (cleared d b) (ow_chunks ow) (ow_chunks ow') \<and>
         ow_selected ow' = (if ow_active ow = Some d then filter (outside b) (ow_selected ow) else ow_selected ow) \<and>
         drop (ow_cursor ow') (ow_selected ow') =
           (if ow_active ow = Some d then filter (outside b) (drop (ow_cursor ow) (ow_selected ow)) else drop (ow_cursor ow) (ow_selected ow)) \<and>
         (\<exists>n. r = Inr n \<and> n + size (domain_ticks d (ow_chunks ow')) + length (ow_selected ow') =
           size (domain_ticks d (ow_chunks ow)) + length (ow_selected ow)))"
  by (rule clear_area_ok [OF assms])

theorem clear_area_exact_witness:
  "\<exists>ow ow'. schedule BlockDomain sample_position 1 10 2 Normal sample_world = Some (Inr Added, ow) \<and>
    clear_area BlockDomain \<lparr>tb_min = sample_position, tb_max = sample_position\<rparr> ow = Some (Inr 1, ow') \<and> domain_ticks BlockDomain (ow_chunks ow') = {#}"
proof -
  let ?b = "\<lparr>tb_min = sample_position, tb_max = sample_position\<rparr>"
  obtain ow c where ow: "schedule BlockDomain sample_position 1 10 2 Normal sample_world = Some (Inr Added, ow)" "owner_ok sample_owner_env ow" "ow_chunks ow = [c]"
      "ck_registered c" "chunk_ticks BlockDomain c = {#sample_due#}" "ow_active ow = None"
    using sample_scheduled by blast
  have "bounds_validate ?b = Inr ()" by (simp add: bounds_validate_def)
  then obtain ow' n where r: "clear_area BlockDomain ?b ow = Some (Inr n, ow')" "list_all2 (cleared BlockDomain ?b) [c] (ow_chunks ow')" "ow_selected ow' = ow_selected ow"
      "n + size (domain_ticks BlockDomain (ow_chunks ow')) + length (ow_selected ow') = size (domain_ticks BlockDomain (ow_chunks ow)) + length (ow_selected ow)"
    using clear_area_exact [OF ow(2), of BlockDomain ?b] ow(3,6) by auto
  have "domain_ticks BlockDomain (ow_chunks ow') = {#}"
    using r(2) ow(4,5) by (auto simp: list_all2_Cons1 cleared_def domain_ticks_def sample_due_def bounds_contains_def)
  then show ?thesis using r(1,3,4) ow by (auto simp: domain_ticks_def)
qed

text \<open>
  C25: \<open>copy_area_from\<close>, and \<open>copy_area\<close> with the owner as its own source, is all or nothing. On an
  error no queue changes. On success every tick of the box, selected or queued, is counted once, as
  added, as a duplicate or as falling in no registered chunk, and the queues of the domain gain exactly
  as many ticks as were counted as added, each of them a tick of the box moved by the offset and
  renumbered after all of them.
\<close>

theorem copy_area_all_or_nothing:
  assumes "owner_ok env ow" "te_grants (oe_tick env)"
  shows "\<exists>r ow'. copy_area_from env hash source d b offset ow = Some (r, ow') \<and> owner_ok env ow' \<and>
    copied d (copy_move offset (area_snapshot d b source)) (area_snapshot d b source) r ow ow'"
  by (rule copy_area_from_ok [OF assms])

theorem copy_area_all_or_nothing_witness:
  "\<exists>ow r ow'. schedule BlockDomain sample_position 1 10 2 Normal sample_world = Some (Inr Added, ow) \<and>
    copy_area sample_owner_env (\<lambda>x. 0) BlockDomain \<lparr>tb_min = sample_position, tb_max = sample_position\<rparr> \<lparr>tp_x = 1, tp_y = 0, tp_z = 0\<rparr> ow = Some (r, ow') \<and>
    owner_ok sample_owner_env ow' \<and> (\<forall>outcome. r = Inr outcome \<longrightarrow> outcome_total outcome = 1)"
proof -
  let ?b = "\<lparr>tb_min = sample_position, tb_max = sample_position\<rparr>" and ?o = "\<lparr>tp_x = 1, tp_y = 0, tp_z = 0\<rparr>"
  obtain ow c where ow: "schedule BlockDomain sample_position 1 10 2 Normal sample_world = Some (Inr Added, ow)" "owner_ok sample_owner_env ow" "ow_chunks ow = [c]"
      "ck_registered c" "ck_address c = sample_address" "chunk_ticks BlockDomain c = {#sample_due#}" "ow_active ow = None"
    using sample_scheduled by blast
  have "sched_values (tq_heap (chunk_queue BlockDomain c)) = [sample_due]" using ow(6) by (simp add: chunk_ticks_def)
  then have "area_snapshot BlockDomain ?b ow = [sample_due]" using ow(3-5,7)
    by (simp add: area_snapshot_def phase_ticks_def area_ticks_def area_chunks_def contains_chunk_def bounds_contains_def sample_due_def sample_position_def
      sample_address_def tick_chunk_def)
  then show ?thesis using copy_area_all_or_nothing [OF ow(2) sample_grants, of "\<lambda>x. 0" ow BlockDomain ?b ?o] ow(1)
    unfolding copy_area_def copied_def by fastforce
qed

end
