(* ===== verification/LightLayer.thy ===== *)
theory LightLayer
  imports View
begin

text \<open>
  Positions and directions of \<^verbatim>\<open>src/world/lighting/mod.rs\<close> and the light layer of
  \<^verbatim>\<open>src/world/lighting/layer.rs\<close>: 4096 four-bit values of a section, kept as one uniform Java integer
  until a buffer is needed. The capacity a reserved buffer gets is the argument \<open>reserve\<close>.
\<close>

section \<open>Positions and directions\<close>

record LightBlock =
  lb_x :: int
  lb_y :: int
  lb_z :: int

record LightSection =
  ls_x :: int
  ls_y :: int
  ls_z :: int

definition block_section :: "LightBlock \<Rightarrow> LightSection" where
  "block_section p = \<lparr>ls_x = lb_x p div 16, ls_y = lb_y p div 16, ls_z = lb_z p div 16\<rparr>"

definition section_column :: "LightSection \<Rightarrow> ChunkAddress" where
  "section_column s = \<lparr>ca_x = ls_x s, ca_z = ls_z s\<rparr>"

definition block_column :: "LightBlock \<Rightarrow> ChunkAddress" where
  "block_column p = section_column (block_section p)"

definition block_offset :: "LightBlock \<Rightarrow> int \<Rightarrow> int \<Rightarrow> int \<Rightarrow> LightBlock" where
  "block_offset p x y z = \<lparr>lb_x = wrap_i32 (lb_x p + x), lb_y = wrap_i32 (lb_y p + y), lb_z = wrap_i32 (lb_z p + z)\<rparr>"

definition section_offset :: "LightSection \<Rightarrow> int \<Rightarrow> int \<Rightarrow> int \<Rightarrow> LightSection" where
  "section_offset s x y z = \<lparr>ls_x = wrap_i32 (ls_x s + x), ls_y = wrap_i32 (ls_y s + y), ls_z = wrap_i32 (ls_z s + z)\<rparr>"

definition local_index :: "LightBlock \<Rightarrow> nat" where
  "local_index p = nat (push_bit 8 (lb_y p AND 15) OR push_bit 4 (lb_z p AND 15) OR (lb_x p AND 15))"

datatype LightKind = BlockLight | SkyLight

datatype LightDirection = Down | Up | North | South | West | East

definition all_directions :: "LightDirection list" where
  "all_directions = [Down, Up, North, South, West, East]"

fun opposite :: "LightDirection \<Rightarrow> LightDirection" where
  "opposite Down = Up"
| "opposite Up = Down"
| "opposite North = South"
| "opposite South = North"
| "opposite West = East"
| "opposite East = West"

fun direction_vector :: "LightDirection \<Rightarrow> int \<times> int \<times> int" where
  "direction_vector Down = (0, -1, 0)"
| "direction_vector Up = (0, 1, 0)"
| "direction_vector North = (0, 0, -1)"
| "direction_vector South = (0, 0, 1)"
| "direction_vector West = (-1, 0, 0)"
| "direction_vector East = (1, 0, 0)"

definition direction_step :: "LightDirection \<Rightarrow> LightBlock \<Rightarrow> LightBlock" where
  "direction_step d p = (let (x, y, z) = direction_vector d in block_offset p x y z)"

section \<open>Layers\<close>

definition SIDE :: nat where "SIDE = 16"

definition LAYER_BYTES :: nat where "LAYER_BYTES = 2048"

definition PLANE_BYTES :: nat where "PLANE_BYTES = 128"

datatype layer_error =
  LayerLength nat nat | CoordinateOutOfBounds nat nat nat | LayerBudgetExceeded | LayerAllocationFailed

text \<open>A buffer with its bytes and its capacity.\<close>

datatype DataLayer = Uniform int | Allocated "byte list" nat

definition layer_address :: "nat \<Rightarrow> nat \<Rightarrow> nat \<Rightarrow> layer_error + (nat \<times> nat)" where
  "layer_address x y z =
    (if x \<ge> SIDE \<or> y \<ge> SIDE \<or> z \<ge> SIDE then Inl (CoordinateOutOfBounds x y z)
     else Inr (y * 128 + z * 8 + x div 2, (x mod 2) * 4))"

definition layer_allocate :: "(nat \<Rightarrow> nat option) \<Rightarrow> nat \<Rightarrow> layer_error + (byte list \<times> nat)" where
  "layer_allocate reserve limit =
    (if limit < LAYER_BYTES then Inl LayerBudgetExceeded
     else bind_r (ok_or (reserve LAYER_BYTES) LayerAllocationFailed) (\<lambda>c.
       if c > limit then Inl LayerBudgetExceeded else Inr (replicate LAYER_BYTES 0, c)))"

definition layer_from_bytes :: "(nat \<Rightarrow> nat option) \<Rightarrow> byte list \<Rightarrow> nat \<Rightarrow> layer_error + DataLayer" where
  "layer_from_bytes reserve bytes limit =
    (if length bytes \<noteq> LAYER_BYTES then Inl (LayerLength LAYER_BYTES (length bytes))
     else bind_r (layer_allocate reserve limit) (\<lambda>(out, c). Inr (Allocated bytes c)))"

definition nibble_at :: "byte list \<Rightarrow> nat \<Rightarrow> nat \<Rightarrow> int" where
  "nibble_at bytes b shift = uint (drop_bit shift (bytes ! b) AND 0x0f)"

definition layer_get :: "DataLayer \<Rightarrow> nat \<Rightarrow> nat \<Rightarrow> nat \<Rightarrow> layer_error + int" where
  "layer_get l x y z =
    bind_r (layer_address x y z) (\<lambda>(b, shift).
      Inr (case l of Uniform v \<Rightarrow> v | Allocated bytes c \<Rightarrow> nibble_at bytes b shift))"

definition layer_materialize :: "(nat \<Rightarrow> nat option) \<Rightarrow> DataLayer \<Rightarrow> nat \<Rightarrow> layer_error + (byte list \<times> nat)" where
  "layer_materialize reserve l limit =
    (case l of
       Uniform v \<Rightarrow> bind_r (layer_allocate reserve limit) (\<lambda>(out, c).
         let low_byte = word_of_int v :: byte in Inr (replicate (length out) (low_byte OR push_bit 4 low_byte), c))
     | Allocated bytes c \<Rightarrow> Inr (bytes, c))"

definition put_nibble :: "byte \<Rightarrow> nat \<Rightarrow> int \<Rightarrow> byte" where
  "put_nibble b shift v = (b AND NOT (push_bit shift 0x0f)) OR push_bit shift ((word_of_int v :: byte) AND 0x0f)"

definition layer_set ::
  "(nat \<Rightarrow> nat option) \<Rightarrow> DataLayer \<Rightarrow> nat \<Rightarrow> nat \<Rightarrow> nat \<Rightarrow> int \<Rightarrow> nat \<Rightarrow> layer_error + DataLayer" where
  "layer_set reserve l x y z v limit =
    bind_r (layer_address x y z) (\<lambda>(b, shift).
      bind_r (layer_materialize reserve l limit) (\<lambda>(bytes, c).
        Inr (Allocated (bytes[b := put_nibble (bytes ! b) shift v]) c)))"

definition layer_fill :: "DataLayer \<Rightarrow> int \<Rightarrow> DataLayer" where
  "layer_fill l v = Uniform v"

definition is_filled_with :: "DataLayer \<Rightarrow> int \<Rightarrow> bool" where
  "is_filled_with l v = (case l of Uniform u \<Rightarrow> u = v | Allocated bytes c \<Rightarrow> False)"

definition layer_is_empty :: "DataLayer \<Rightarrow> bool" where
  "layer_is_empty l = is_filled_with l 0"

definition layer_heap_bytes :: "DataLayer \<Rightarrow> nat" where
  "layer_heap_bytes l = (case l of Uniform v \<Rightarrow> 0 | Allocated bytes c \<Rightarrow> c)"

definition layer_try_copy :: "(nat \<Rightarrow> nat option) \<Rightarrow> DataLayer \<Rightarrow> nat \<Rightarrow> layer_error + DataLayer" where
  "layer_try_copy reserve l limit =
    (case l of Uniform v \<Rightarrow> Inr (Uniform v) | Allocated bytes c \<Rightarrow> layer_from_bytes reserve bytes limit)"

definition repeat_first_layer :: "(nat \<Rightarrow> nat option) \<Rightarrow> DataLayer \<Rightarrow> nat \<Rightarrow> layer_error + DataLayer" where
  "repeat_first_layer reserve l limit =
    (case l of
       Uniform v \<Rightarrow> layer_try_copy reserve l limit
     | Allocated bytes c \<Rightarrow> bind_r (layer_allocate reserve limit) (\<lambda>(out, c').
         Inr (Allocated (concat (replicate (length out div PLANE_BYTES) (take PLANE_BYTES bytes))) c')))"

section \<open>Cells\<close>

definition layer_ok :: "DataLayer \<Rightarrow> bool" where
  "layer_ok l = (case l of Uniform v \<Rightarrow> True | Allocated bytes c \<Rightarrow> length bytes = LAYER_BYTES)"

text \<open>The value a cell has once the layer has a buffer: the low nibble of a uniform value in even
  columns, and that nibble joined with the next one in odd columns.\<close>

definition stored_value :: "DataLayer \<Rightarrow> nat \<Rightarrow> nat \<Rightarrow> nat \<Rightarrow> int" where
  "stored_value l x y z =
    (case l of
       Uniform v \<Rightarrow> if even x then v mod 16 else (v div 16 mod 16) OR (v mod 16)
     | Allocated bytes c \<Rightarrow> nibble_at bytes (y * 128 + z * 8 + x div 2) ((x mod 2) * 4))"

lemma address_range:
  assumes "x < 16" "y < 16" "z < 16"
  shows "y * 128 + z * 8 + x div 2 < LAYER_BYTES"
  using assms by (simp add: LAYER_BYTES_def)

lemma address_inject:
  fixes x y z x' y' z' :: nat
  assumes "x < 16" "y < 16" "z < 16" "x' < 16" "y' < 16" "z' < 16"
    "y * 128 + z * 8 + x div 2 = y' * 128 + z' * 8 + x' div 2"
  shows "y = y' \<and> z = z' \<and> x div 2 = x' div 2"
proof -
  have split: "y = n div 128 \<and> z = n div 8 mod 16 \<and> a = n mod 8" if "n = y * 128 + z * 8 + a" "a < 8" "z < 16" for a n y z :: nat
  proof -
    have "n div 8 = y * 16 + z" "n mod 8 = a" using that(1,2) by presburger+
    moreover have "n div 128 = n div 8 div 16" by (simp add: div_mult2_eq)
    ultimately show ?thesis using that(3) by simp
  qed
  have "x div 2 < 8" "x' div 2 < 8" using assms by simp_all
  then show ?thesis using split [OF refl, of "x div 2" z y] split [OF assms(7), of] assms(3,6) by metis
qed

lemma bit_nibble: "bit (uint ((w :: byte) AND 0x0f)) i \<longleftrightarrow> i < 4 \<and> bit w i"
  by (auto simp: bit_simps byte_simps dest: bit_imp_le_length)

lemma put_nibble_same:
  assumes "s = 0 \<or> s = 4"
  shows "uint (drop_bit s (put_nibble b s v) AND 0x0f) = v mod 16"
proof -
  have "uint (drop_bit s (put_nibble b s v) AND 0x0f) = take_bit 4 v"
    using assms by (intro bit_eqI) (auto simp: bit_nibble put_nibble_def bit_simps byte_simps)
  then show ?thesis by (simp add: take_bit_eq_mod)
qed

lemma put_nibble_other:
  assumes "s = 0 \<and> s' = 4 \<or> s = 4 \<and> s' = 0"
  shows "uint (drop_bit s' (put_nibble b s v) AND 0x0f) = uint (drop_bit s' b AND 0x0f)"
  using assms by (intro bit_eqI) (auto simp: bit_nibble put_nibble_def bit_simps byte_simps)

lemma uniform_nibble:
  shows "uint (drop_bit 0 ((word_of_int v :: byte) OR push_bit 4 (word_of_int v)) AND 0x0f) = v mod 16"
    and "uint (drop_bit 4 ((word_of_int v :: byte) OR push_bit 4 (word_of_int v)) AND 0x0f) = (v div 16 mod 16) OR (v mod 16)"
proof -
  let ?w = "(word_of_int v :: byte) OR push_bit 4 (word_of_int v)"
  have "uint (drop_bit 0 ?w AND 0x0f) = take_bit 4 v"
    by (intro bit_eqI) (auto simp: bit_nibble bit_simps byte_simps)
  then show "uint (drop_bit 0 ?w AND 0x0f) = v mod 16" by (simp add: take_bit_eq_mod)
  have "uint (drop_bit 4 ?w AND 0x0f) = take_bit 4 (drop_bit 4 v) OR take_bit 4 v"
    by (intro bit_eqI) (auto simp: bit_nibble bit_simps byte_simps)
  then show "uint (drop_bit 4 ?w AND 0x0f) = (v div 16 mod 16) OR (v mod 16)" by (simp add: take_bit_eq_mod drop_bit_eq_div)
qed

lemma allocate_Inr: "layer_allocate reserve limit = Inr (out, c) \<Longrightarrow> out = replicate LAYER_BYTES 0 \<and> c \<le> limit"
  by (auto simp: layer_allocate_def result_simps split: if_splits)

lemma materialize_Inr:
  assumes "layer_ok l" "layer_materialize reserve l limit = Inr (bytes, c)"
  shows "length bytes = LAYER_BYTES \<and>
    (\<forall>x y z. x < 16 \<and> y < 16 \<and> z < 16 \<longrightarrow> nibble_at bytes (y * 128 + z * 8 + x div 2) ((x mod 2) * 4) = stored_value l x y z)"
proof (cases l)
  case (Uniform v)
  then obtain out where "layer_allocate reserve limit = Inr (out, c)"
      "bytes = replicate (length out) ((word_of_int v :: byte) OR push_bit 4 (word_of_int v))"
    using assms(2) by (auto simp: layer_materialize_def result_simps Let_def)
  then have b: "bytes = replicate LAYER_BYTES ((word_of_int v :: byte) OR push_bit 4 (word_of_int v))" using allocate_Inr by fastforce
  have "nibble_at bytes (y * 128 + z * 8 + x div 2) ((x mod 2) * 4) = stored_value l x y z" if "x < 16" "y < 16" "z < 16" for x y z
    using address_range [OF that] uniform_nibble [of v] unfolding Uniform b nibble_at_def stored_value_def
    by (cases "even x") (simp_all add: even_iff_mod_2_eq_zero not_mod_2_eq_0_eq_1)
  then show ?thesis using b by simp
next
  case (Allocated bs c')
  then show ?thesis using assms by (simp add: layer_materialize_def layer_ok_def stored_value_def)
qed

text \<open>
  a light layer is an array of 4096 nibbles. Whenever \<open>set\<close> succeeds, reading the cell back gives
  the low four bits of the value, and every other cell reads as the layer stored it, where a uniform
  layer is stored as its low nibble in even columns and that nibble joined with the next one in odd
  columns (so a uniform 0 to 15 reads as before). Coordinates outside the section are refused by
  both, and with room for a buffer nothing else is.
\<close>

theorem light_layer_cells:
  assumes "layer_ok l"
  shows "(layer_set reserve l x y z v limit = Inr l' \<longrightarrow> layer_ok l' \<and>
      (\<forall>x' y' z'. x' < 16 \<and> y' < 16 \<and> z' < 16 \<longrightarrow>
        layer_get l' x' y' z' = Inr (if x' = x \<and> y' = y \<and> z' = z then v mod 16 else stored_value l x' y' z'))) \<and>
    (x \<ge> 16 \<or> y \<ge> 16 \<or> z \<ge> 16 \<longrightarrow>
      layer_set reserve l x y z v limit = Inl (CoordinateOutOfBounds x y z) \<and> layer_get l x y z = Inl (CoordinateOutOfBounds x y z)) \<and>
    (x < 16 \<and> y < 16 \<and> z < 16 \<and> LAYER_BYTES \<le> limit \<and> reserve LAYER_BYTES = Some LAYER_BYTES \<longrightarrow>
      (\<exists>l'. layer_set reserve l x y z v limit = Inr l'))"
proof (intro conjI impI)
  assume set: "layer_set reserve l x y z v limit = Inr l'"
  then obtain bytes c where xyz: "x < 16" "y < 16" "z < 16" and m: "layer_materialize reserve l limit = Inr (bytes, c)"
      and l': "l' = Allocated (bytes[y * 128 + z * 8 + x div 2 := put_nibble (bytes ! (y * 128 + z * 8 + x div 2)) ((x mod 2) * 4) v]) c"
    by (auto simp: layer_set_def layer_address_def SIDE_def result_simps split: if_splits)
  note mat = materialize_Inr [OF assms m]
  show "layer_ok l'" using mat l' by (simp add: layer_ok_def)
  show "\<forall>x' y' z'. x' < 16 \<and> y' < 16 \<and> z' < 16 \<longrightarrow>
      layer_get l' x' y' z' = Inr (if x' = x \<and> y' = y \<and> z' = z then v mod 16 else stored_value l x' y' z')"
  proof (intro allI impI)
    fix x' y' z' :: nat assume r: "x' < 16 \<and> y' < 16 \<and> z' < 16"
    let ?b = "y * 128 + z * 8 + x div 2" and ?b' = "y' * 128 + z' * 8 + x' div 2"
    have get: "layer_get l' x' y' z' = Inr (nibble_at (bytes[?b := put_nibble (bytes ! ?b) ((x mod 2) * 4) v]) ?b' ((x' mod 2) * 4))"
      using r l' by (simp add: layer_get_def layer_address_def SIDE_def)
    have old: "nibble_at bytes ?b' ((x' mod 2) * 4) = stored_value l x' y' z'" using mat r by blast
    have len: "?b < length bytes" using address_range [OF xyz] mat by simp
    have shift: "s = 0 \<or> s = 4" if "s = (m mod 2) * 4" for s m :: nat using that by (cases "even m") (auto simp: odd_iff_mod_2_eq_one)
    show "layer_get l' x' y' z' = Inr (if x' = x \<and> y' = y \<and> z' = z then v mod 16 else stored_value l x' y' z')"
    proof (cases "?b' = ?b")
      case False
      then show ?thesis using get old by (auto simp: nibble_at_def nth_list_update)
    next
      case b: True
      then have eq: "y' = y" "z' = z" "x' div 2 = x div 2" using address_inject [of x' y' z' x y z] r xyz by auto
      show ?thesis
      proof (cases "x' = x")
        case True
        then show ?thesis using get eq len put_nibble_same [OF shift [OF refl]] by (simp add: nibble_at_def)
      next
        case False
        then have "x mod 2 \<noteq> x' mod 2" using eq(3) by (metis div_mult_mod_eq)
        then have "(x mod 2) * 4 = 0 \<and> (x' mod 2) * 4 = 4 \<or> (x mod 2) * 4 = 4 \<and> (x' mod 2) * 4 = 0"
          using shift [OF refl, of x] shift [OF refl, of x'] by auto
        then show ?thesis using get old b False len put_nibble_other by (auto simp: nibble_at_def)
      qed
    qed
  qed
next
  assume "x \<ge> 16 \<or> y \<ge> 16 \<or> z \<ge> 16"
  then show "layer_set reserve l x y z v limit = Inl (CoordinateOutOfBounds x y z)" "layer_get l x y z = Inl (CoordinateOutOfBounds x y z)"
    by (simp_all add: layer_set_def layer_get_def layer_address_def SIDE_def)
next
  assume "x < 16 \<and> y < 16 \<and> z < 16 \<and> LAYER_BYTES \<le> limit \<and> reserve LAYER_BYTES = Some LAYER_BYTES"
  then show "\<exists>l'. layer_set reserve l x y z v limit = Inr l'"
    by (cases l) (simp_all add: layer_set_def layer_address_def SIDE_def layer_materialize_def layer_allocate_def Let_def)
qed

theorem light_layer_cells_witness:
  "\<exists>l'. layer_set Some (Uniform 16) 1 2 3 7 4096 = Inr l' \<and> layer_get l' 1 2 3 = Inr 7 \<and> layer_get l' 0 2 3 = Inr 0 \<and> layer_get l' 5 2 3 = Inr 1"
proof -
  have ok: "layer_ok (Uniform 16)" by (simp add: layer_ok_def)
  have "\<exists>l'. layer_set Some (Uniform 16) 1 2 3 7 4096 = Inr l'"
    using light_layer_cells [OF ok, where reserve = Some and x = 1 and y = 2 and z = 3 and v = 7 and limit = 4096] by (simp add: LAYER_BYTES_def)
  then obtain l' where l': "layer_set Some (Uniform 16) 1 2 3 7 4096 = Inr l'" by blast
  then show ?thesis using light_layer_cells [OF ok, where reserve = Some and x = 1 and y = 2 and z = 3 and v = 7 and limit = 4096 and l' = l'] by (simp add: stored_value_def)
qed

lemma concat_replicate_nth:
  "j < k * length p \<Longrightarrow> concat (replicate k p) ! j = p ! (j mod length p)"
proof (induction k arbitrary: j)
  case (Suc k)
  show ?case
  proof (cases "j < length p")
    case False
    then have "j - length p < k * length p" using Suc.prems by simp
    then show ?thesis using False Suc.IH [of "j - length p"] by (simp add: nth_append le_mod_geq)
  qed (simp add: nth_append)
qed simp

text \<open>
  \<open>repeat_first_layer\<close> extends the bottom plane. The layer it returns reads at every height what
  the given layer reads at height zero, and a copy made by \<open>try_copy\<close> reads everywhere the same; both
  hold at most the allowed number of bytes.
\<close>

theorem light_layer_copies:
  assumes "layer_ok l" "x < 16" "y < 16" "z < 16"
  shows "(layer_try_copy reserve l limit = Inr l' \<longrightarrow> layer_ok l' \<and> layer_get l' x y z = layer_get l x y z \<and> layer_heap_bytes l' \<le> limit) \<and>
    (repeat_first_layer reserve l limit = Inr l' \<longrightarrow> layer_ok l' \<and> layer_get l' x y z = layer_get l x 0 z \<and> layer_heap_bytes l' \<le> limit)"
proof (cases l)
  case (Uniform v)
  then show ?thesis using assms
    by (auto simp: layer_try_copy_def repeat_first_layer_def layer_ok_def layer_get_def layer_address_def SIDE_def layer_heap_bytes_def)
next
  case (Allocated bytes c)
  have len: "length bytes = 2048" using assms(1) Allocated by (simp add: layer_ok_def LAYER_BYTES_def)
  have copy: "layer_ok l' \<and> layer_get l' x y z = layer_get l x y z \<and> layer_heap_bytes l' \<le> limit" if "layer_try_copy reserve l limit = Inr l'"
    using that Allocated by (auto simp: layer_try_copy_def layer_from_bytes_def layer_ok_def layer_get_def layer_heap_bytes_def result_simps
        dest!: allocate_Inr split: if_splits)
  have "layer_ok l' \<and> layer_get l' x y z = layer_get l x 0 z \<and> layer_heap_bytes l' \<le> limit" if rep: "repeat_first_layer reserve l limit = Inr l'"
  proof -
    obtain out c' where "layer_allocate reserve limit = Inr (out, c')"
        "l' = Allocated (concat (replicate (length out div PLANE_BYTES) (take PLANE_BYTES bytes))) c'"
      using rep Allocated by (auto simp: repeat_first_layer_def result_simps)
    then have l': "l' = Allocated (concat (replicate 16 (take 128 bytes))) c'" "c' \<le> limit"
      using allocate_Inr [of reserve limit out c'] by (auto simp: PLANE_BYTES_def LAYER_BYTES_def)
    let ?b = "y * 128 + z * 8 + x div 2"
    have p: "length (take 128 bytes) = 128" using len by simp
    have r: "z * 8 + x div 2 < 128" "?b < 16 * 128" using assms by simp_all
    have m: "?b mod 128 = z * 8 + x div 2" using r(1) mod_mult_self3 [of y 128 "z * 8 + x div 2"] by (simp add: add.assoc)
    have "concat (replicate 16 (take 128 bytes)) ! ?b = bytes ! (z * 8 + x div 2)"
      using concat_replicate_nth [of ?b 16 "take 128 bytes"] m r unfolding p by simp
    moreover have "length (concat (replicate 16 (take 128 bytes))) = LAYER_BYTES"
      using p by (simp add: length_concat sum_list_replicate LAYER_BYTES_def)
    ultimately show ?thesis using l' Allocated assms
      by (simp add: layer_ok_def layer_get_def layer_address_def SIDE_def nibble_at_def layer_heap_bytes_def)
  qed
  then show ?thesis using copy by blast
qed

theorem light_layer_copies_witness:
  "layer_ok (Uniform 9) \<and> (\<exists>l'. repeat_first_layer Some (Uniform 9) 0 = Inr l' \<and> layer_get l' 3 8 1 = Inr 9)"
proof -
  have ok: "layer_ok (Uniform 9)" by (simp add: layer_ok_def)
  have r: "repeat_first_layer Some (Uniform 9) 0 = Inr (Uniform 9)" by (simp add: repeat_first_layer_def layer_try_copy_def)
  have "layer_get (Uniform 9) 3 8 1 = layer_get (Uniform 9) 3 0 1"
    using light_layer_copies [OF ok, of 3 8 1 Some 0 "Uniform 9"] r by simp
  then show ?thesis using ok r by (simp add: layer_get_def layer_address_def SIDE_def)
qed

end
