(* ===== verification/LightQueue.thy ===== *)
theory LightQueue
  imports LightLayer TickRemaining
begin

text \<open>
  The propagation queues of \<^verbatim>\<open>src/world/lighting/queue.rs\<close>: the ring buffer \<open>WorkQueue\<close> and the
  deduplicating batch \<open>CheckQueue\<close>. The capacity a reservation gets, the sizes of the element types
  and the seeded hasher are arguments. \<open>None\<close> is a panic or a probe that never ends.
\<close>

section \<open>The ring buffer\<close>

datatype QueueError = InvalidCapacity | AllocationLimit | QueueAllocationFailed | QueueIsFull

record LightEntry =
  le_pos :: LightBlock
  le_level :: byte
  le_directions :: byte
  le_empty_shape :: bool
  le_from_emission :: bool

definition EMPTY_ENTRY :: LightEntry where
  "EMPTY_ENTRY = \<lparr>le_pos = \<lparr>lb_x = 0, lb_y = 0, lb_z = 0\<rparr>, le_level = 0, le_directions = 0, le_empty_shape = True,
     le_from_emission = False\<rparr>"

record WorkQueue =
  wq_entries :: "LightEntry list"
  wq_start :: nat
  wq_len :: nat
  wq_capacity :: nat

type_synonym reserve_fn = "nat \<Rightarrow> nat \<Rightarrow> nat option"

definition queue_reserve :: "reserve_fn \<Rightarrow> nat \<Rightarrow> nat \<Rightarrow> nat \<Rightarrow> (QueueError + nat) \<times> nat" where
  "queue_reserve res width capacity budget =
    (case checked_mul capacity width of
       None \<Rightarrow> (Inl InvalidCapacity, budget)
     | Some bytes \<Rightarrow>
         if bytes > budget then (Inl AllocationLimit, budget)
         else (case res width capacity of
             None \<Rightarrow> (Inl QueueAllocationFailed, budget)
           | Some c \<Rightarrow>
               (case checked_mul c width of
                  None \<Rightarrow> (Inl AllocationLimit, budget)
                | Some actual \<Rightarrow>
                    if actual > budget then (Inl AllocationLimit, budget) else (Inr c, budget - actual))))"

definition work_new :: "reserve_fn \<Rightarrow> nat \<Rightarrow> nat \<Rightarrow> nat \<Rightarrow> (QueueError + WorkQueue) \<times> nat" where
  "work_new res width capacity budget =
    (if capacity = 0 then (Inl InvalidCapacity, budget)
     else bind_b (queue_reserve res width capacity budget) (\<lambda>c left.
       (Inr \<lparr>wq_entries = replicate capacity EMPTY_ENTRY, wq_start = 0, wq_len = 0, wq_capacity = c\<rparr>, left)))"

definition remaining_capacity :: "WorkQueue \<Rightarrow> nat" where
  "remaining_capacity q = length (wq_entries q) - wq_len q"

definition work_heap_bytes :: "nat \<Rightarrow> WorkQueue \<Rightarrow> nat" where
  "work_heap_bytes width q = wq_capacity q * width"

definition work_peek :: "WorkQueue \<Rightarrow> LightEntry option" where
  "work_peek q = (if wq_len q \<noteq> 0 then Some (wq_entries q ! wq_start q) else None)"

definition work_push :: "WorkQueue \<Rightarrow> LightEntry \<Rightarrow> QueueError + WorkQueue" where
  "work_push q e =
    (if remaining_capacity q = 0 then Inl QueueIsFull
     else (let tail = (wq_start q + wq_len q) mod length (wq_entries q) in
       Inr (q\<lparr>wq_entries := (wq_entries q)[tail := e], wq_len := wq_len q + 1\<rparr>)))"

definition work_pop :: "WorkQueue \<Rightarrow> LightEntry option \<times> WorkQueue" where
  "work_pop q =
    (case work_peek q of
       None \<Rightarrow> (None, q)
     | Some e \<Rightarrow> (Some e, q\<lparr>wq_start := (wq_start q + 1) mod length (wq_entries q), wq_len := wq_len q - 1\<rparr>))"

definition copy_entries :: "WorkQueue \<Rightarrow> LightEntry list \<Rightarrow> LightEntry list" where
  "copy_entries q out =
    fold (\<lambda>offset es. es[offset := wq_entries q ! ((wq_start q + offset) mod length (wq_entries q))]) [0..<wq_len q] out"

definition work_grow :: "reserve_fn \<Rightarrow> nat \<Rightarrow> WorkQueue \<Rightarrow> nat \<Rightarrow> nat \<Rightarrow> (QueueError + WorkQueue) \<times> nat" where
  "work_grow res width q capacity budget =
    (if capacity \<le> length (wq_entries q) then (Inr q, budget)
     else (case work_new res width capacity budget of
         (Inl e, left) \<Rightarrow> (Inl e, budget)
       | (Inr r, left) \<Rightarrow>
           (case checked_add left (work_heap_bytes width q) of
              None \<Rightarrow> (Inl AllocationLimit, budget)
            | Some next_budget \<Rightarrow> (Inr (r\<lparr>wq_entries := copy_entries q (wq_entries r), wq_len := wq_len q\<rparr>), next_budget))))"

section \<open>The ring is a queue\<close>

definition work_ok :: "WorkQueue \<Rightarrow> bool" where
  "work_ok q \<longleftrightarrow> wq_start q < length (wq_entries q) \<and> wq_len q \<le> length (wq_entries q)"

definition work_list :: "WorkQueue \<Rightarrow> LightEntry list" where
  "work_list q = map (\<lambda>k. wq_entries q ! ((wq_start q + k) mod length (wq_entries q))) [0..<wq_len q]"

text \<open>The contract of a bounded first-in first-out queue, on the list it stands for.\<close>

locale bounded_queue =
  fixes ok :: "'q \<Rightarrow> bool" and contents :: "'q \<Rightarrow> 'a list" and bound :: "'q \<Rightarrow> nat"
    and push :: "'q \<Rightarrow> 'a \<Rightarrow> 'e + 'q" and pop :: "'q \<Rightarrow> 'a option \<times> 'q" and full :: 'e
  assumes push_ok: "ok q \<Longrightarrow> length (contents q) < bound q \<Longrightarrow>
      \<exists>q'. push q x = Inr q' \<and> ok q' \<and> contents q' = contents q @ [x] \<and> bound q' = bound q"
    and push_full: "ok q \<Longrightarrow> length (contents q) = bound q \<Longrightarrow> push q x = Inl full"
    and pop_empty: "ok q \<Longrightarrow> contents q = [] \<Longrightarrow> pop q = (None, q)"
    and pop_ok: "ok q \<Longrightarrow> contents q = x # xs \<Longrightarrow> \<exists>q'. pop q = (Some x, q') \<and> ok q' \<and> contents q' = xs \<and> bound q' = bound q"
begin

text \<open>Pushes one after the other, and what the \<open>k\<close>-th pop after them returns.\<close>

abbreviation push_all :: "'q \<Rightarrow> 'a list \<Rightarrow> 'e + 'q" where
  "push_all q xs \<equiv> fold (\<lambda>x acc. bind_r acc (\<lambda>t. push t x)) xs (Inr q)"

abbreviation popped :: "'q \<Rightarrow> nat \<Rightarrow> 'a option" where
  "popped q k \<equiv> fst (pop (((\<lambda>t. snd (pop t)) ^^ k) q))"

lemma push_all_ok:
  "ok q \<Longrightarrow> length (contents q) + length xs \<le> bound q \<Longrightarrow>
    \<exists>q'. push_all q xs = Inr q' \<and> ok q' \<and> contents q' = contents q @ xs \<and> bound q' = bound q"
proof (induction xs arbitrary: q)
  case (Cons x xs)
  obtain q1 where q1: "push q x = Inr q1" "ok q1" "contents q1 = contents q @ [x]" "bound q1 = bound q"
    using push_ok [OF Cons.prems(1), of x] Cons.prems(2) by auto
  then show ?case using Cons.IH [OF q1(2)] Cons.prems(2) by auto
qed simp

lemma popped_ok: "ok q \<Longrightarrow> popped q k = (if k < length (contents q) then Some (contents q ! k) else None)"
proof (induction k arbitrary: q)
  case 0
  then show ?case using pop_empty [of q] pop_ok [of q] by (cases "contents q") fastforce+
next
  case (Suc k)
  show ?case
  proof (cases "contents q")
    case Nil
    then have stays: "pop q = (None, q)" using pop_empty [OF Suc.prems] by simp
    then have "((\<lambda>t. snd (pop t)) ^^ j) q = q" for j by (induction j) simp_all
    then show ?thesis using stays Nil by simp
  next
    case (Cons x xs)
    then obtain q1 where "pop q = (Some x, q1)" "ok q1" "contents q1 = xs" using pop_ok [OF Suc.prems] by blast
    then show ?thesis using Suc.IH [of q1] Cons by (simp add: funpow_Suc_right del: funpow.simps(2))
  qed
qed

text \<open>What goes in comes out, in the same order, and the rest of the contents first.\<close>

lemma fifo:
  assumes "ok q" "length (contents q) + length xs \<le> bound q"
  shows "\<exists>q'. push_all q xs = Inr q' \<and>
    (\<forall>k. popped q' k = (if k < length (contents q @ xs) then Some ((contents q @ xs) ! k) else None))"
  using push_all_ok [OF assms] popped_ok by metis

end

lemma ring_slot_inject:
  "a < n \<Longrightarrow> b < n \<Longrightarrow> (s + a) mod n = (s + b) mod n \<longleftrightarrow> a = (b :: nat)"
proof
  assume ab: "a < n" "b < n" and eq: "(s + a) mod n = (s + b) mod n"
  have "a = b" if "a \<le> b" "b < n" "(s + a) mod n = (s + b) mod n" for a b :: nat
  proof -
    have "n dvd (s + b) - (s + a)" using that by (metis mod_eq_dvd_iff_nat add_le_mono le_refl)
    then have "n dvd b - a" by simp
    then show "a = b" using that by (metis diff_is_0_eq dvd_imp_le le_antisym less_imp_diff_less neq0_conv not_le)
  qed
  then show "a = b" using ab eq by (metis nat_le_linear)
qed simp

interpretation ring: bounded_queue work_ok work_list "\<lambda>q. length (wq_entries q)" work_push work_pop QueueIsFull
proof
  fix q e
  assume ok: "work_ok q"
  let ?n = "length (wq_entries q)"
  have n: "0 < ?n" using ok by (auto simp: work_ok_def)
  show "work_push q e = Inl QueueIsFull" if "length (work_list q) = ?n"
    using that by (simp add: work_list_def work_push_def remaining_capacity_def)
  show "work_pop q = (None, q)" if "work_list q = []"
    using that by (simp add: work_list_def work_pop_def work_peek_def)
  show "\<exists>q'. work_push q e = Inr q' \<and> work_ok q' \<and> work_list q' = work_list q @ [e] \<and> length (wq_entries q') = ?n"
    if room: "length (work_list q) < ?n"
  proof -
    have len: "wq_len q < ?n" using room by (simp add: work_list_def)
    let ?t = "(wq_start q + wq_len q) mod ?n"
    let ?q = "q\<lparr>wq_entries := (wq_entries q)[?t := e], wq_len := wq_len q + 1\<rparr>"
    have "work_list ?q = work_list q @ [e]"
    proof -
      have "(wq_entries q)[?t := e] ! ((wq_start q + k) mod ?n) = wq_entries q ! ((wq_start q + k) mod ?n)" if "k < wq_len q" for k
        using ring_slot_inject [of k ?n "wq_len q" "wq_start q"] that len by simp
      then show ?thesis using n by (simp add: work_list_def)
    qed
    then show ?thesis using len ok by (simp add: work_push_def remaining_capacity_def work_ok_def)
  qed
  show "\<exists>q'. work_pop q = (Some x, q') \<and> work_ok q' \<and> work_list q' = xs \<and> length (wq_entries q') = ?n" if c: "work_list q = x # xs" for x xs
  proof -
    have len: "wq_len q \<noteq> 0" using c by (cases "wq_len q = 0") (simp_all add: work_list_def)
    let ?q = "q\<lparr>wq_start := (wq_start q + 1) mod ?n, wq_len := wq_len q - 1\<rparr>"
    have split: "[0..<wq_len q] = 0 # map Suc [0..<wq_len q - 1]" using len by (metis Suc_pred' map_Suc_upt neq0_conv upt_conv_Cons)
    have "work_list q = wq_entries q ! wq_start q # work_list ?q"
      unfolding work_list_def split using ok by (simp add: work_ok_def comp_def mod_add_left_eq)
    moreover have "work_ok ?q" using ok n by (simp add: work_ok_def le_diff_conv)
    ultimately show ?thesis using c len by (simp add: work_pop_def work_peek_def)
  qed
qed

section \<open>Growth of the ring\<close>

lemma fold_update_upt:
  "n \<le> length out \<Longrightarrow> fold (\<lambda>k es. es[k := f k]) [0..<n] out = map f [0..<n] @ drop n out"
proof (induction n)
  case (Suc n)
  then have "drop n out = out ! n # drop (Suc n) out" by (simp add: Cons_nth_drop_Suc)
  then show ?case using Suc by (simp add: list_update_append)
qed simp

lemma queue_reserve_Inr: "queue_reserve res width n budget = (Inr c, left) \<Longrightarrow> left + c * width = budget"
  by (auto simp: queue_reserve_def checked_mul_def split: option.splits if_splits)

lemma queue_reserve_Inl: "queue_reserve res width n budget = (Inl e, left) \<Longrightarrow> left = budget"
  by (auto simp: queue_reserve_def split: option.splits if_splits)

lemma work_new_Inr:
  assumes "work_new res width capacity budget = (Inr q, left)"
  shows "work_ok q" "work_list q = []" "wq_start q = 0" "length (wq_entries q) = capacity" "0 < capacity"
    "left + work_heap_bytes width q = budget"
  using assms queue_reserve_Inr [of res width capacity budget]
  by (auto simp: work_new_def result_simps work_ok_def work_list_def work_heap_bytes_def split: if_splits)

lemma work_grow_ok:
  assumes ok: "work_ok q" and g: "work_grow res width q capacity budget = (Inr q', left)"
  shows "work_ok q' \<and> work_list q' = work_list q \<and> length (wq_entries q') = max capacity (length (wq_entries q)) \<and>
    left + work_heap_bytes width q' = budget + work_heap_bytes width q"
proof (cases "capacity \<le> length (wq_entries q)")
  case True
  then show ?thesis using g ok by (simp add: work_grow_def)
next
  case False
  then obtain r mid where r: "work_new res width capacity budget = (Inr r, mid)"
      "checked_add mid (work_heap_bytes width q) = Some left" "q' = r\<lparr>wq_entries := copy_entries q (wq_entries r), wq_len := wq_len q\<rparr>"
    using g by (auto simp: work_grow_def split: prod.splits sum.splits option.splits)
  note new = work_new_Inr [OF r(1)]
  let ?f = "\<lambda>k. wq_entries q ! ((wq_start q + k) mod length (wq_entries q))"
  have len: "wq_len q < capacity" using ok False by (simp add: work_ok_def)
  have es: "copy_entries q (wq_entries r) = map ?f [0..<wq_len q] @ drop (wq_len q) (wq_entries r)"
    unfolding copy_entries_def using fold_update_upt [of "wq_len q" "wq_entries r" ?f] len new(4) by simp
  then have "work_list q' = work_list q" using len new(3,4) r(3) by (simp add: work_list_def nth_append)
  moreover have "work_ok q'" "length (wq_entries q') = capacity" using es len new(3,4,5) r(3) by (simp_all add: work_ok_def)
  moreover have "left + work_heap_bytes width q' = budget + work_heap_bytes width q"
    using new(6) r(2,3) by (simp add: work_heap_bytes_def checked_add_def split: if_splits)
  ultimately show ?thesis using False by simp
qed

lemma work_grow_Inl: "work_grow res width q capacity budget = (Inl e, left) \<Longrightarrow> left = budget"
  by (auto simp: work_grow_def split: if_splits prod.splits sum.splits option.splits)

text \<open>
  C40: the ring buffer is a queue. Entries pushed onto a well-formed ring with room for them come out
  of \<open>pop\<close> after everything that was in it and in the order they went in, then \<open>pop\<close> returns nothing;
  a push onto a full ring is refused with \<open>Full\<close>. \<open>grow\<close> keeps the contents and their order, makes
  the requested room, and charges the caller's budget with the new allocation less the old one; when
  it fails, the budget is as it was.
\<close>

theorem work_queue_fifo:
  assumes "work_ok q" "wq_len q + length es \<le> length (wq_entries q)"
  shows "(\<exists>q'. fold (\<lambda>e acc. bind_r acc (\<lambda>t. work_push t e)) es (Inr q) = Inr q' \<and>
      (\<forall>k. fst (work_pop (((\<lambda>t. snd (work_pop t)) ^^ k) q')) =
         (if k < wq_len q + length es then Some ((work_list q @ es) ! k) else None))) \<and>
    (wq_len q = length (wq_entries q) \<longrightarrow> work_push q e = Inl QueueIsFull) \<and>
    (case work_grow res width q capacity budget of
       (Inl err, left) \<Rightarrow> left = budget
     | (Inr q', left) \<Rightarrow> work_ok q' \<and> work_list q' = work_list q \<and> length (wq_entries q') = max capacity (length (wq_entries q)) \<and>
         left + work_heap_bytes width q' = budget + work_heap_bytes width q)"
proof -
  have len: "length (work_list q) = wq_len q" by (simp add: work_list_def)
  show ?thesis
    using ring.fifo [OF assms(1), of es] ring.push_full [OF assms(1), of e] assms(2) len work_grow_ok [OF assms(1)] work_grow_Inl
    by (auto split: prod.splits sum.splits)
qed

definition sample_entry :: "int \<Rightarrow> LightEntry" where
  "sample_entry x = EMPTY_ENTRY\<lparr>le_pos := \<lparr>lb_x = x, lb_y = 0, lb_z = 0\<rparr>\<rparr>"

theorem work_queue_fifo_witness:
  "let q = \<lparr>wq_entries = [sample_entry 3, sample_entry 0, sample_entry 2], wq_start = 2, wq_len = 2, wq_capacity = 3\<rparr> in
   \<exists>q'. work_push q (sample_entry 4) = Inr q' \<and> fst (work_pop q') = Some (sample_entry 2)"
proof -
  let ?q = "\<lparr>wq_entries = [sample_entry 3, sample_entry 0, sample_entry 2], wq_start = 2, wq_len = 2, wq_capacity = 3\<rparr>"
  have l: "work_list ?q = [sample_entry 2, sample_entry 3]" by (simp add: work_list_def upt_rec numeral_2_eq_2)
  have "work_ok ?q" "wq_len ?q + length [sample_entry 4] \<le> length (wq_entries ?q)" by (simp_all add: work_ok_def)
  from work_queue_fifo [OF this, where res = "\<lambda>w n. Some n", THEN conjunct1] obtain q' where q': "work_push ?q (sample_entry 4) = Inr q'"
      "\<forall>k. fst (work_pop (((\<lambda>t. snd (work_pop t)) ^^ k) q')) = (if k < 3 then Some ((work_list ?q @ [sample_entry 4]) ! k) else None)"
    by auto
  from spec [OF q'(2), of 0] have "fst (work_pop q') = Some (sample_entry 2)" using l by simp
  then show ?thesis using q'(1) by auto
qed

end
