(* ===== verification/LightChecks.thy ===== *)
theory LightChecks
  imports LightQueue
begin

text \<open>
  \<open>CheckQueue\<close> of \<^verbatim>\<open>src/world/lighting/queue.rs\<close>: the batch of blocks to check, each held once. A dense
  array keeps them in insertion order, an open-addressed table of indices finds a block, and a cursor
  marks how far a run has consumed the batch. Each instance draws its own seeded hasher, so \<open>new\<close> and
  \<open>grow\<close> take the hasher they draw as an argument. \<open>None\<close> is a panic or a probe that never ends.
\<close>

section \<open>Operations\<close>

record CheckQueue =
  cq_positions :: "LightBlock list"
  cq_slots :: "nat list"
  cq_hash :: "LightBlock \<Rightarrow> u64"
  cq_limit :: nat
  cq_cursor :: nat
  cq_position_capacity :: nat
  cq_slot_capacity :: nat

definition check_new :: "reserve_fn \<Rightarrow> nat \<Rightarrow> (LightBlock \<Rightarrow> u64) \<Rightarrow> nat \<Rightarrow> nat \<Rightarrow> (QueueError + CheckQueue) \<times> nat" where
  "check_new res width hash capacity budget =
    (if capacity = 0 then (Inl InvalidCapacity, budget)
     else (case Option.bind (checked_next_power_of_two capacity) (\<lambda>v. checked_mul v 2) of
         None \<Rightarrow> (Inl InvalidCapacity, budget)
       | Some n \<Rightarrow>
           (case bind_b (queue_reserve res width capacity budget) (\<lambda>c1 left1.
                   bind_b (queue_reserve res USIZE_BYTES n left1) (\<lambda>c2 left2.
                     (Inr \<lparr>cq_positions = [], cq_slots = replicate n USIZE_MAX, cq_hash = hash, cq_limit = capacity,
                        cq_cursor = 0, cq_position_capacity = c1, cq_slot_capacity = c2\<rparr>, left2))) of
              (Inl e, left) \<Rightarrow> (Inl e, budget)
            | (Inr q, left) \<Rightarrow> (Inr q, left))))"

definition check_home :: "CheckQueue \<Rightarrow> LightBlock \<Rightarrow> nat" where
  "check_home q pos = wrap_index (length (cq_slots q)) (unat (cq_hash q pos))"

definition check_entry :: "CheckQueue \<Rightarrow> nat \<Rightarrow> LightBlock option option" where
  "check_entry q i =
    (if i < length (cq_slots q) then
       (if cq_slots q ! i = USIZE_MAX then Some None
        else if cq_slots q ! i < length (cq_positions q) then Some (Some (cq_positions q ! (cq_slots q ! i)))
        else None)
     else None)"

definition check_slot :: "CheckQueue \<Rightarrow> LightBlock \<Rightarrow> (nat + nat) option" where
  "check_slot q pos = probe (length (cq_slots q)) (length (cq_slots q)) (check_entry q) pos (check_home q pos)"

definition check_insert :: "CheckQueue \<Rightarrow> LightBlock \<Rightarrow> ((QueueError + bool) \<times> CheckQueue) option" where
  "check_insert q pos =
    (case check_slot q pos of
       None \<Rightarrow> None
     | Some (Inr slot) \<Rightarrow> Some (Inr False, q)
     | Some (Inl slot) \<Rightarrow>
         if length (cq_positions q) = cq_limit q then Some (Inl QueueIsFull, q)
         else Some (Inr True, q\<lparr>cq_slots := (cq_slots q)[slot := length (cq_positions q)], cq_positions := cq_positions q @ [pos]\<rparr>))"

definition check_peek :: "CheckQueue \<Rightarrow> LightBlock option" where
  "check_peek q = (if cq_cursor q < length (cq_positions q) then Some (cq_positions q ! cq_cursor q) else None)"

definition check_pop :: "CheckQueue \<Rightarrow> LightBlock option \<times> CheckQueue" where
  "check_pop q = (case check_peek q of None \<Rightarrow> (None, q) | Some pos \<Rightarrow> (Some pos, q\<lparr>cq_cursor := cq_cursor q + 1\<rparr>))"

definition check_is_empty :: "CheckQueue \<Rightarrow> bool" where
  "check_is_empty q \<longleftrightarrow> cq_cursor q = length (cq_positions q)"

definition check_heap_bytes :: "nat \<Rightarrow> CheckQueue \<Rightarrow> nat" where
  "check_heap_bytes width q = cq_position_capacity q * width + cq_slot_capacity q * USIZE_BYTES"

definition check_clear :: "CheckQueue \<Rightarrow> CheckQueue" where
  "check_clear q =
    (if cq_positions q \<noteq> [] then q\<lparr>cq_positions := [], cq_slots := replicate (length (cq_slots q)) USIZE_MAX, cq_cursor := 0\<rparr>
     else q\<lparr>cq_cursor := 0\<rparr>)"

text \<open>The copying loop of \<open>grow\<close>; a refused insertion is the panic of its \<open>expect\<close>.\<close>

fun copy_checks :: "CheckQueue \<Rightarrow> LightBlock list \<Rightarrow> CheckQueue option" where
  "copy_checks q [] = Some q"
| "copy_checks q (pos # ps) =
    (case check_insert q pos of Some (Inr added, q') \<Rightarrow> copy_checks q' ps | _ \<Rightarrow> None)"

definition check_grow ::
  "reserve_fn \<Rightarrow> nat \<Rightarrow> (LightBlock \<Rightarrow> u64) \<Rightarrow> CheckQueue \<Rightarrow> nat \<Rightarrow> nat \<Rightarrow> ((QueueError + CheckQueue) \<times> nat) option" where
  "check_grow res width hash q capacity budget =
    (if capacity \<le> cq_limit q then Some (Inr q, budget)
     else (case check_new res width hash capacity budget of
         (Inl e, left) \<Rightarrow> Some (Inl e, budget)
       | (Inr r, left) \<Rightarrow>
           Option.bind (copy_checks r (cq_positions q)) (\<lambda>r'.
             (case checked_add left (check_heap_bytes width q) of
                None \<Rightarrow> Some (Inl AllocationLimit, budget)
              | Some next_budget \<Rightarrow> Some (Inr (r'\<lparr>cq_cursor := cq_cursor q\<rparr>), next_budget)))))"

section \<open>The invariant\<close>

definition check_table :: "LightBlock list \<Rightarrow> nat list \<Rightarrow> LightBlock table" where
  "check_table ps slots i = (if slots ! i = USIZE_MAX then None else Some (ps ! (slots ! i)))"

definition check_shape :: "CheckQueue \<Rightarrow> bool" where
  "check_shape q \<longleftrightarrow> power_of_two (length (cq_slots q)) \<and> cq_limit q < length (cq_slots q) \<and> cq_limit q \<le> USIZE_MAX \<and>
    length (cq_positions q) \<le> cq_limit q \<and> cq_cursor q \<le> length (cq_positions q) \<and> distinct (cq_positions q) \<and>
    (\<forall>i < length (cq_slots q). cq_slots q ! i \<noteq> USIZE_MAX \<longrightarrow> cq_slots q ! i < length (cq_positions q))"

definition check_ok :: "CheckQueue \<Rightarrow> bool" where
  "check_ok q \<longleftrightarrow> check_shape q \<and>
    table_ok (length (cq_slots q)) (check_home q) (check_table (cq_positions q) (cq_slots q)) \<and>
    table_keys (length (cq_slots q)) (check_table (cq_positions q) (cq_slots q)) = set (cq_positions q)"

lemma check_home_cong: "length (cq_slots q') = length (cq_slots q) \<Longrightarrow> cq_hash q' = cq_hash q \<Longrightarrow> check_home q' = check_home q"
  by (simp add: fun_eq_iff check_home_def)

lemma check_slot_ok:
  assumes "check_ok q"
  shows "(pos \<in> set (cq_positions q) \<longrightarrow> (\<exists>i. check_slot q pos = Some (Inr i))) \<and>
    (pos \<notin> set (cq_positions q) \<longrightarrow> (\<exists>i < length (cq_slots q). check_slot q pos = Some (Inl i) \<and>
      check_table (cq_positions q) (cq_slots q) i = None \<and>
      (\<forall>p < length (cq_slots q). cdist (length (cq_slots q)) (check_home q pos) p < cdist (length (cq_slots q)) (check_home q pos) i \<longrightarrow>
         check_table (cq_positions q) (cq_slots q) p \<noteq> None)))"
proof -
  let ?n = "length (cq_slots q)" and ?T = "check_table (cq_positions q) (cq_slots q)"
  have shape: "check_shape q" and tab: "table_ok ?n (check_home q) ?T" and keys: "table_keys ?n ?T = set (cq_positions q)"
    using assms by (auto simp: check_ok_def)
  have n: "power_of_two ?n" using shape by (simp add: check_shape_def)
  have lk: "\<And>i. i < ?n \<Longrightarrow> check_entry q i = Some (?T i)" using shape by (auto simp: check_entry_def check_table_def check_shape_def)
  have home: "check_home q pos < ?n" by (simp add: check_home_def n)
  show ?thesis using probe_home [OF n lk tab home] unfolding keys check_slot_def by blast
qed

lemma check_insert_known: "check_ok q \<Longrightarrow> pos \<in> set (cq_positions q) \<Longrightarrow> check_insert q pos = Some (Inr False, q)"
  using check_slot_ok [of q pos] by (auto simp: check_insert_def)

lemma check_insert_full:
  "check_ok q \<Longrightarrow> pos \<notin> set (cq_positions q) \<Longrightarrow> length (cq_positions q) = cq_limit q \<Longrightarrow> check_insert q pos = Some (Inl QueueIsFull, q)"
  using check_slot_ok [of q pos] by (auto simp: check_insert_def)

lemma check_insert_new:
  assumes ok: "check_ok q" and new: "pos \<notin> set (cq_positions q)" and room: "length (cq_positions q) < cq_limit q"
  shows "\<exists>q'. check_insert q pos = Some (Inr True, q') \<and> check_ok q' \<and> cq_positions q' = cq_positions q @ [pos] \<and>
    cq_cursor q' = cq_cursor q \<and> cq_limit q' = cq_limit q \<and> cq_hash q' = cq_hash q \<and>
    cq_position_capacity q' = cq_position_capacity q \<and> cq_slot_capacity q' = cq_slot_capacity q"
proof -
  let ?n = "length (cq_slots q)" and ?T = "check_table (cq_positions q) (cq_slots q)" and ?ps = "cq_positions q"
  have shape: "check_shape q" and tab: "table_ok ?n (check_home q) ?T" and keys: "table_keys ?n ?T = set ?ps"
    using ok by (auto simp: check_ok_def)
  have d: "distinct ?ps" and lim: "cq_limit q < ?n" "cq_limit q \<le> USIZE_MAX" "cq_cursor q \<le> length ?ps"
    and rng: "\<And>i. i < ?n \<Longrightarrow> cq_slots q ! i \<noteq> USIZE_MAX \<Longrightarrow> cq_slots q ! i < length ?ps" using shape by (auto simp: check_shape_def)
  obtain i where i: "i < ?n" "check_slot q pos = Some (Inl i)" "?T i = None"
      "\<forall>p < ?n. cdist ?n (check_home q pos) p < cdist ?n (check_home q pos) i \<longrightarrow> ?T p \<noteq> None"
    using check_slot_ok [OF ok, of pos] new by auto
  let ?l = "(cq_slots q)[i := length ?ps]"
  define q' where eq: "q' = q\<lparr>cq_slots := ?l, cq_positions := ?ps @ [pos]\<rparr>"
  have res: "check_insert q pos = Some (Inr True, q')" using i(2) room by (simp add: check_insert_def eq)
  have T: "check_table (?ps @ [pos]) ?l p = (?T(i \<mapsto> pos)) p" if "p < ?n" for p
    using that rng [of p] i(1) room lim by (auto simp: check_table_def nth_append nth_list_update)
  have card: "card (table_keys ?n ?T) + 1 < ?n" using room lim(1) unfolding keys distinct_card [OF d] by simp
  have free: "\<exists>e < ?n. e \<noteq> i \<and> ?T e = None" by (rule free_slots [OF tab _ card i(1)]) (simp add: keys)
  have fill: "table_ok ?n (check_home q) (?T(i \<mapsto> pos)) \<and> table_keys ?n (?T(i \<mapsto> pos)) = insert pos (table_keys ?n ?T)"
    by (rule fill_table_ok [OF tab i(1,3) _ i(4) free]) (use new keys in simp)
  have "check_shape q'"
    using shape new room lim i(1) rng [THEN less_SucI] unfolding eq by (auto simp: check_shape_def nth_list_update USIZE_MAX_def)
  moreover have "check_home q' = check_home q" by (rule check_home_cong) (simp_all add: eq)
  moreover have "table_ok ?n (check_home q) (check_table (?ps @ [pos]) ?l)"
    using fill table_cong(1) [of ?n "check_table (?ps @ [pos]) ?l" "?T(i \<mapsto> pos)"] T by blast
  moreover have "table_keys ?n (check_table (?ps @ [pos]) ?l) = insert pos (set ?ps)"
    using fill table_cong(2) [of ?n "check_table (?ps @ [pos]) ?l" "?T(i \<mapsto> pos)"] T keys by (simp del: fun_upd_apply)
  ultimately have "check_ok q'" unfolding eq by (simp add: check_ok_def)
  then show ?thesis using res unfolding eq by simp
qed

lemma check_empty_ok:
  assumes "power_of_two n" "limit < n" "limit \<le> USIZE_MAX"
  shows "check_ok \<lparr>cq_positions = [], cq_slots = replicate n USIZE_MAX, cq_hash = hash, cq_limit = limit, cq_cursor = 0,
    cq_position_capacity = c1, cq_slot_capacity = c2\<rparr>"
  using assms by (auto simp: check_ok_def check_shape_def table_ok_def reachable_table_def table_keys_def check_table_def intro: exI [of _ 0])

lemma check_new_Inr:
  assumes "check_new res width hash capacity budget = (Inr q, left)" "capacity \<le> USIZE_MAX"
  shows "check_ok q" "cq_positions q = []" "cq_cursor q = 0" "cq_limit q = capacity" "cq_hash q = hash"
    "left + check_heap_bytes width q = budget"
proof -
  obtain p c1 left1 c2 where new: "checked_next_power_of_two capacity = Some p" "checked_mul p 2 = Some (p * 2)"
      "queue_reserve res width capacity budget = (Inr c1, left1)" "queue_reserve res USIZE_BYTES (p * 2) left1 = (Inr c2, left)"
      "q = \<lparr>cq_positions = [], cq_slots = replicate (p * 2) USIZE_MAX, cq_hash = hash, cq_limit = capacity,
         cq_cursor = 0, cq_position_capacity = c1, cq_slot_capacity = c2\<rparr>"
    using assms(1) by (auto simp: check_new_def result_simps usize_simps bind_eq_Some_conv split: if_splits option.splits prod.splits sum.splits)
  have p: "power_of_two p" "capacity \<le> p" using checked_next_power_of_two_Some [OF new(1)] by auto
  then have "power_of_two (p * 2)" unfolding power_of_two_def by (metis power_Suc2)
  then show "check_ok q" unfolding new(5) by (rule check_empty_ok) (use p power_of_two_pos [OF p(1)] assms(2) in auto)
  show "cq_positions q = []" "cq_cursor q = 0" "cq_limit q = capacity" "cq_hash q = hash" using new(5) by simp_all
  show "left + check_heap_bytes width q = budget"
    using queue_reserve_Inr [OF new(3)] queue_reserve_Inr [OF new(4)] new(5) by (simp add: check_heap_bytes_def)
qed

lemma copy_checks_ok:
  assumes "check_ok q" "distinct ps" "set ps \<inter> set (cq_positions q) = {}" "length (cq_positions q) + length ps \<le> cq_limit q"
  shows "\<exists>q'. copy_checks q ps = Some q' \<and> check_ok q' \<and> cq_positions q' = cq_positions q @ ps \<and> cq_limit q' = cq_limit q \<and>
    cq_position_capacity q' = cq_position_capacity q \<and> cq_slot_capacity q' = cq_slot_capacity q"
  using assms
proof (induction ps arbitrary: q)
  case (Cons pos ps)
  obtain q1 where q1: "check_insert q pos = Some (Inr True, q1)" "check_ok q1" "cq_positions q1 = cq_positions q @ [pos]"
      "cq_limit q1 = cq_limit q" "cq_position_capacity q1 = cq_position_capacity q" "cq_slot_capacity q1 = cq_slot_capacity q"
    using check_insert_new [OF Cons.prems(1), of pos] Cons.prems by auto
  show ?case using Cons.IH [OF q1(2)] Cons.prems q1 by auto
qed simp

lemma check_grow_ok:
  assumes ok: "check_ok q" and cap: "capacity \<le> USIZE_MAX"
  shows "\<exists>r left. check_grow res width hash q capacity budget = Some (r, left) \<and>
    (case r of Inl e \<Rightarrow> left = budget
     | Inr q' \<Rightarrow> check_ok q' \<and> cq_positions q' = cq_positions q \<and> cq_cursor q' = cq_cursor q \<and>
         cq_limit q' = max capacity (cq_limit q) \<and> left + check_heap_bytes width q' = budget + check_heap_bytes width q)"
proof (cases "capacity \<le> cq_limit q")
  case True
  then show ?thesis using ok by (simp add: check_grow_def max_def)
next
  case False
  obtain r left where r: "check_new res width hash capacity budget = (r, left)" by (rule prod.exhaust)
  show ?thesis
  proof (cases r)
    case (Inl e)
    then show ?thesis using r False by (simp add: check_grow_def)
  next
    case (Inr q1)
    note new = check_new_Inr [OF r [unfolded Inr] cap]
    have shape: "check_shape q" using ok by (simp add: check_ok_def)
    obtain q2 where q2: "copy_checks q1 (cq_positions q) = Some q2" "check_ok q2" "cq_positions q2 = cq_positions q"
        "cq_limit q2 = capacity" "cq_position_capacity q2 = cq_position_capacity q1" "cq_slot_capacity q2 = cq_slot_capacity q1"
      using copy_checks_ok [OF new(1), of "cq_positions q"] new(2,4) shape False by (auto simp: check_shape_def)
    have "check_home (q2\<lparr>cq_cursor := cq_cursor q\<rparr>) = check_home q2" by (rule check_home_cong) simp_all
    then have "check_ok (q2\<lparr>cq_cursor := cq_cursor q\<rparr>)" using q2(2,3) shape by (simp add: check_ok_def check_shape_def)
    then show ?thesis using r Inr q2 new(6) False
      by (auto simp: check_grow_def check_heap_bytes_def checked_add_def max_def split: option.splits)
  qed
qed

text \<open>
  the check batch holds each block once, in the order of first insertion, whatever the seeded
  hasher. \<open>insert\<close> answers whether the block was new, refuses a new one with \<open>Full\<close> at the limit and
  never fails on one already held; \<open>pop\<close> returns the block at the cursor; \<open>clear\<close> empties the batch;
  \<open>grow\<close> keeps the blocks, their order and the cursor, and accounts for the memory it exchanges, or
  leaves everything alone. None of them panics or probes for ever.
\<close>

theorem check_queue_batch:
  assumes "check_ok q" "capacity \<le> USIZE_MAX"
  shows "(pos \<in> set (cq_positions q) \<longrightarrow> check_insert q pos = Some (Inr False, q)) \<and>
    (pos \<notin> set (cq_positions q) \<and> length (cq_positions q) = cq_limit q \<longrightarrow> check_insert q pos = Some (Inl QueueIsFull, q)) \<and>
    (pos \<notin> set (cq_positions q) \<and> length (cq_positions q) < cq_limit q \<longrightarrow>
      (\<exists>q'. check_insert q pos = Some (Inr True, q') \<and> check_ok q' \<and> cq_positions q' = cq_positions q @ [pos] \<and> cq_cursor q' = cq_cursor q)) \<and>
    (if check_is_empty q then check_pop q = (None, q)
     else \<exists>q'. check_pop q = (Some (cq_positions q ! cq_cursor q), q') \<and> check_ok q' \<and> cq_positions q' = cq_positions q \<and>
       cq_cursor q' = cq_cursor q + 1) \<and>
    check_ok (check_clear q) \<and> cq_positions (check_clear q) = [] \<and> check_is_empty (check_clear q) \<and>
    (\<exists>r left. check_grow res width hash q capacity budget = Some (r, left) \<and>
      (case r of Inl e \<Rightarrow> left = budget
       | Inr q' \<Rightarrow> check_ok q' \<and> cq_positions q' = cq_positions q \<and> cq_cursor q' = cq_cursor q \<and>
           cq_limit q' = max capacity (cq_limit q) \<and> left + check_heap_bytes width q' = budget + check_heap_bytes width q))"
proof -
  have shape: "check_shape q" using assms(1) by (simp add: check_ok_def)
  have pop: "if check_is_empty q then check_pop q = (None, q)
     else \<exists>q'. check_pop q = (Some (cq_positions q ! cq_cursor q), q') \<and> check_ok q' \<and> cq_positions q' = cq_positions q \<and>
       cq_cursor q' = cq_cursor q + 1"
  proof (cases "cq_cursor q = length (cq_positions q)")
    case True
    then show ?thesis by (simp add: check_is_empty_def check_pop_def check_peek_def)
  next
    case False
    then have less: "cq_cursor q < length (cq_positions q)" using shape by (simp add: check_shape_def)
    have "check_home (q\<lparr>cq_cursor := Suc (cq_cursor q)\<rparr>) = check_home q" by (rule check_home_cong) simp_all
    then have "check_ok (q\<lparr>cq_cursor := Suc (cq_cursor q)\<rparr>)" using assms(1) less by (simp add: check_ok_def check_shape_def)
    then show ?thesis using less by (simp add: check_is_empty_def check_pop_def check_peek_def)
  qed
  have "check_ok (check_clear q)"
    using check_empty_ok [of "length (cq_slots q)" "cq_limit q" "cq_hash q" "cq_position_capacity q" "cq_slot_capacity q"] shape assms(1)
    by (cases q) (auto simp: check_clear_def check_shape_def)
  moreover have "cq_positions (check_clear q) = []" "check_is_empty (check_clear q)"
    by (simp_all add: check_clear_def check_is_empty_def)
  ultimately show ?thesis
    using check_insert_known [OF assms(1)] check_insert_full [OF assms(1)] check_insert_new [OF assms(1)] pop
      check_grow_ok [OF assms, of res width hash budget] by blast
qed

theorem check_queue_batch_witness:
  "let q = \<lparr>cq_positions = [], cq_slots = replicate 4 USIZE_MAX, cq_hash = (\<lambda>b. 9), cq_limit = 2, cq_cursor = 0,
      cq_position_capacity = 2, cq_slot_capacity = 4\<rparr>; b = \<lparr>lb_x = 1, lb_y = 2, lb_z = 3\<rparr> in
   \<exists>q'. check_insert q b = Some (Inr True, q') \<and> cq_positions q' = [b]"
proof -
  let ?q = "\<lparr>cq_positions = [], cq_slots = replicate 4 USIZE_MAX, cq_hash = (\<lambda>b. 9), cq_limit = 2, cq_cursor = 0,
      cq_position_capacity = 2, cq_slot_capacity = 4\<rparr>" and ?b = "\<lparr>lb_x = 1, lb_y = 2, lb_z = 3\<rparr> :: LightBlock"
  have "power_of_two 4" unfolding power_of_two_def by (rule exI [of _ 2]) simp
  then have "check_ok ?q" by (rule check_empty_ok) (simp_all add: USIZE_MAX_def)
  from check_queue_batch [OF this, of 3 ?b "\<lambda>w n. Some n" 12 "\<lambda>b. 0" 100] show ?thesis
    by (auto simp: USIZE_MAX_def)
qed

end
