(* ===== verification/HeightMap.thy ===== *)
theory HeightMap
  imports SectionContainer
begin

text \<open>
  \<^verbatim>\<open>src/world/heightmap.rs\<close>, with the registry queries of \<^verbatim>\<open>src/world/storage/registry.rs\<close> and the
  dimension heights of \<^verbatim>\<open>src/world/storage/chunk.rs\<close> it uses: the definitions. A heightmap keeps, for each
  of the 256 columns of a chunk, the first free height above the highest block its kind counts. \<open>None\<close>
  is a panic: an \<open>expect\<close> on a value the source claims to have checked, or an index out of bounds.
\<close>

section \<open>Heights and statuses\<close>

datatype ChunkDecodeHeightError = InvalidHeight

record DimensionHeight =
  dh_min_section :: int
  dh_max_section :: int

definition height_new :: "int \<Rightarrow> nat \<Rightarrow> ChunkDecodeHeightError + DimensionHeight" where
  "height_new min_y height =
    (if height = 0 \<or> min_y mod 16 \<noteq> 0 \<or> height mod 16 \<noteq> 0 then Inl InvalidHeight
     else let min_section = min_y div 16; max_section = min_section + int (height div 16) - 1 in
       if min_section < - 128 \<or> max_section > 127 then Inl InvalidHeight
       else Inr \<lparr>dh_min_section = min_section, dh_max_section = max_section\<rparr>)"

datatype ChunkStatus =
    StatusEmpty | StructureStarts | StructureReferences | StatusBiomes | Terrain | Features
  | InitializeLight | StatusLight | StatusSpawn | StatusFull

section \<open>Kinds\<close>

datatype HeightmapKind = WorldSurfaceWg | WorldSurface | OceanFloorWg | OceanFloor | MotionBlocking | MotionBlockingNoLeaves

definition ALL_KINDS :: "HeightmapKind list" where
  "ALL_KINDS = [WorldSurfaceWg, WorldSurface, OceanFloorWg, OceanFloor, MotionBlocking, MotionBlockingNoLeaves]"

fun hm_id :: "HeightmapKind \<Rightarrow> nat" where
  "hm_id WorldSurfaceWg = 0"
| "hm_id WorldSurface = 1"
| "hm_id OceanFloorWg = 2"
| "hm_id OceanFloor = 3"
| "hm_id MotionBlocking = 4"
| "hm_id MotionBlockingNoLeaves = 5"

definition hm_from_id :: "byte \<Rightarrow> HeightmapKind option" where
  "hm_from_id sid = (if unat sid < length ALL_KINDS then Some (ALL_KINDS ! unat sid) else None)"

definition send_to_client :: "HeightmapKind \<Rightarrow> bool" where
  "send_to_client kind = (case kind of WorldSurface \<Rightarrow> True | MotionBlocking \<Rightarrow> True | MotionBlockingNoLeaves \<Rightarrow> True | _ \<Rightarrow> False)"

definition keep_after_worldgen :: "HeightmapKind \<Rightarrow> bool" where
  "keep_after_worldgen kind = (\<not> (case kind of WorldSurfaceWg \<Rightarrow> True | OceanFloorWg \<Rightarrow> True | _ \<Rightarrow> False))"

text \<open>The UTF-16 units of an ASCII literal.\<close>

definition ascii_units :: "string \<Rightarrow> nbt_string" where
  "ascii_units s = map (\<lambda>c. of_nat (of_char c)) s"

fun serialization_key :: "HeightmapKind \<Rightarrow> string" where
  "serialization_key WorldSurfaceWg = ''WORLD_SURFACE_WG''"
| "serialization_key WorldSurface = ''WORLD_SURFACE''"
| "serialization_key OceanFloorWg = ''OCEAN_FLOOR_WG''"
| "serialization_key OceanFloor = ''OCEAN_FLOOR''"
| "serialization_key MotionBlocking = ''MOTION_BLOCKING''"
| "serialization_key MotionBlockingNoLeaves = ''MOTION_BLOCKING_NO_LEAVES''"

definition hm_mask :: "HeightmapKind \<Rightarrow> byte" where
  "hm_mask kind = push_bit (hm_id kind) 1"

definition required_mask :: "ChunkStatus \<Rightarrow> byte" where
  "required_mask status =
    (case status of
       StatusEmpty \<Rightarrow> 0b000101 | StructureStarts \<Rightarrow> 0b000101 | StructureReferences \<Rightarrow> 0b000101 | StatusBiomes \<Rightarrow> 0b000101
     | _ \<Rightarrow> 0b111010)"

datatype HeightmapError =
    HmAllocationLimit | HmAllocationFailed | MissingResident | HmSectionCount | InvalidSection
  | InvalidState u32 | InvalidColumn | InvalidY | ContextMismatch

section \<open>Registry queries\<close>

text \<open>The fields of the snapshot that heightmaps read. The digests only serve to tell snapshots apart.\<close>

record ChunkRegistrySnapshot =
  cr_state_flags :: "byte list"
  cr_air :: u32
  cr_manifest_sha256 :: "byte list"
  cr_configuration_sha256 :: "byte list"

record StateFlags =
  sf_is_air :: bool
  sf_has_fluid :: bool

definition state_flags_of :: "ChunkRegistrySnapshot \<Rightarrow> u32 \<Rightarrow> StateFlags option" where
  "state_flags_of r sid =
    (if unat sid < length (cr_state_flags r)
     then let flags = cr_state_flags r ! unat sid in Some \<lparr>sf_is_air = (flags AND 1 \<noteq> 0), sf_has_fluid = (flags AND 2 \<noteq> 0)\<rparr>
     else None)"

definition heightmap_mask :: "ChunkRegistrySnapshot \<Rightarrow> u32 \<Rightarrow> byte option" where
  "heightmap_mask r sid =
    (if unat sid < length (cr_state_flags r)
     then let flags = cr_state_flags r ! unat sid;
              surface = (if flags AND 1 = 0 then 0b000011 else 0);
              floor_bits = (if flags AND 4 \<noteq> 0 then 0b001100 else 0);
              motion = (if flags AND (4 OR 2) \<noteq> 0 then 0b010000 else 0);
              no_leaves = (if flags AND (8 OR 2) \<noteq> 0 then 0b100000 else 0)
          in Some (surface OR floor_bits OR motion OR no_leaves)
     else None)"

section \<open>Sources\<close>

record Context =
  cx_height :: DimensionHeight
  cx_registry :: "byte list"
  cx_configuration :: "byte list"

record HeightmapSource =
  hs_sections :: "Section option list"
  hs_registries :: ChunkRegistrySnapshot
  hs_context :: Context
  hs_highest_section :: int

definition COLUMNS :: nat where "COLUMNS = 256"

definition MAX_SECTIONS :: nat where "MAX_SECTIONS = 256"

definition hm_section_count :: "DimensionHeight \<Rightarrow> nat" where
  "hm_section_count height = nat (dh_max_section height - dh_min_section height + 1)"

definition height_bits :: "DimensionHeight \<Rightarrow> nat" where
  "height_bits height = 32 - leading_zeros (of_nat (hm_section_count height) * 16 :: u32)"

definition source_empty :: "ChunkRegistrySnapshot \<Rightarrow> DimensionHeight \<Rightarrow> HeightmapSource" where
  "source_empty registries height =
    \<lparr>hs_sections = replicate MAX_SECTIONS None, hs_registries = registries,
     hs_context = \<lparr>cx_height = height, cx_registry = cr_manifest_sha256 registries, cx_configuration = cr_configuration_sha256 registries\<rparr>,
     hs_highest_section = dh_min_section height\<rparr>"

text \<open>The loop over the cells of a section. The counter is a \<open>u16\<close>, which 4096 cells do not overflow.\<close>

fun count_non_empty :: "ChunkRegistrySnapshot \<Rightarrow> PalettedContainer \<Rightarrow> nat list \<Rightarrow> nat \<Rightarrow> HeightmapError + nat" where
  "count_non_empty r blocks [] non_empty = Inr non_empty"
| "count_non_empty r blocks (c # cs) non_empty =
    (case container_get blocks c of
       Inl e \<Rightarrow> Inl InvalidSection
     | Inr sid \<Rightarrow>
         (case state_flags_of r sid of
            None \<Rightarrow> Inl (InvalidState sid)
          | Some flags \<Rightarrow> count_non_empty r blocks cs (non_empty + (if sf_is_air flags then 0 else 1))))"

fun add_sections :: "nat \<Rightarrow> Section option list \<Rightarrow> HeightmapSource \<Rightarrow> HeightmapError + HeightmapSource" where
  "add_sections index [] source = Inr source"
| "add_sections index (None # rest) source = add_sections (index + 1) rest source"
| "add_sections index (Some section # rest) source =
    bind_r (count_non_empty (hs_registries source) (s_blocks section) [0..<4096] 0) (\<lambda>non_empty.
      if non_empty \<noteq> unat (non_empty_blocks (s_counts section)) then Inl InvalidSection
      else let source = source\<lparr>hs_sections := (hs_sections source)[index := Some section]\<rparr> in
        add_sections (index + 1) rest
          (if non_empty \<noteq> 0
           then source\<lparr>hs_highest_section := dh_min_section (cx_height (hs_context source)) + int index\<rparr>
           else source))"

definition from_sections :: "ChunkRegistrySnapshot \<Rightarrow> DimensionHeight \<Rightarrow> Section option list \<Rightarrow> HeightmapError + HeightmapSource" where
  "from_sections registries height sections =
    (if length sections \<noteq> hm_section_count height then Inl HmSectionCount
     else add_sections 0 sections (source_empty registries height))"

definition source_height :: "HeightmapSource \<Rightarrow> DimensionHeight" where
  "source_height source = cx_height (hs_context source)"

definition source_min_y :: "HeightmapSource \<Rightarrow> int" where
  "source_min_y source = dh_min_section (source_height source) * 16"

definition source_max_y :: "HeightmapSource \<Rightarrow> int" where
  "source_max_y source = (dh_max_section (source_height source) + 1) * 16"

definition source_state :: "HeightmapSource \<Rightarrow> nat \<Rightarrow> int \<Rightarrow> nat \<Rightarrow> u32 option" where
  "source_state source x y z =
    (let index = y div 16 - dh_min_section (source_height source) in
     if index < 0 \<or> nat index \<ge> length (hs_sections source) then None
     else (case hs_sections source ! nat index of
         None \<Rightarrow> Some (cr_air (hs_registries source))
       | Some section \<Rightarrow>
           if non_empty_blocks (s_counts section) = 0 then Some (cr_air (hs_registries source))
           else (case container_get (s_blocks section) (x + 16 * z + 256 * nat (y mod 16)) of
               Inr sid \<Rightarrow> Some sid
             | Inl e \<Rightarrow> None)))"

definition source_opaque :: "HeightmapSource \<Rightarrow> HeightmapKind \<Rightarrow> u32 \<Rightarrow> bool option" where
  "source_opaque source kind state = map_option (\<lambda>m. m AND hm_mask kind \<noteq> 0) (heightmap_mask (hs_registries source) state)"

section \<open>One map\<close>

record Heightmap =
  h_kind :: HeightmapKind
  h_context :: Context
  h_bits :: nat
  h_words :: "u64 list"
  h_capacity :: nat

definition hm_word_count :: "nat \<Rightarrow> nat" where
  "hm_word_count bits = div_ceil COLUMNS (64 div bits)"

definition hm_new :: "alloc_env \<Rightarrow> HeightmapKind \<Rightarrow> HeightmapSource \<Rightarrow> nat \<Rightarrow> HeightmapError + Heightmap" where
  "hm_new env kind source allocation_limit =
    (let bits = height_bits (source_height source); n = hm_word_count bits in
     if n * 8 > allocation_limit then Inl HmAllocationLimit
     else bind_r (ok_or (try_reserve_exact env 8 n) HmAllocationFailed) (\<lambda>capacity.
       if capacity * 8 > allocation_limit then Inl HmAllocationLimit
       else Inr \<lparr>h_kind = kind, h_context = hs_context source, h_bits = bits, h_words = replicate n 0, h_capacity = capacity\<rparr>))"

definition required_bytes :: "DimensionHeight \<Rightarrow> nat" where
  "required_bytes height = hm_word_count (height_bits height) * 8"

definition hm_heap_bytes :: "Heightmap \<Rightarrow> nat" where
  "hm_heap_bytes h = h_capacity h * 8"

definition hm_column :: "nat \<Rightarrow> nat \<Rightarrow> HeightmapError + nat" where
  "hm_column x z = (if x < 16 \<and> z < 16 then Inr (x + 16 * z) else Inl InvalidColumn)"

definition hm_position :: "Heightmap \<Rightarrow> nat \<Rightarrow> nat \<times> nat" where
  "hm_position h index = (let per_word = 64 div h_bits h in (index div per_word, index mod per_word * h_bits h))"

definition value_mask :: "Heightmap \<Rightarrow> u64" where
  "value_mask h = push_bit (h_bits h) 1 - 1"

definition hm_min_y :: "Heightmap \<Rightarrow> int" where
  "hm_min_y h = dh_min_section (cx_height (h_context h)) * 16"

definition first_available :: "Heightmap \<Rightarrow> nat \<Rightarrow> nat \<Rightarrow> (HeightmapError + int) option" where
  "first_available h x z =
    (case hm_column x z of
       Inl e \<Rightarrow> Some (Inl e)
     | Inr index \<Rightarrow>
         (case hm_position h index of (word, shift) \<Rightarrow>
            if word < length (h_words h)
            then Some (Inr (uint (drop_bit shift (h_words h ! word) AND value_mask h) + hm_min_y h))
            else None))"

definition highest_taken :: "Heightmap \<Rightarrow> nat \<Rightarrow> nat \<Rightarrow> (HeightmapError + int) option" where
  "highest_taken h x z = map_option (map_r (\<lambda>first. first - 1)) (first_available h x z)"

definition hm_set :: "Heightmap \<Rightarrow> nat \<Rightarrow> int \<Rightarrow> Heightmap option" where
  "hm_set h index first =
    (case hm_position h index of (word, shift) \<Rightarrow>
       let relative = (of_int (first - hm_min_y h) :: u64) in
       if word < length (h_words h)
       then Some (h\<lparr>h_words := (h_words h)[word := (h_words h ! word AND NOT (push_bit shift (value_mask h))) OR push_bit shift relative]\<rparr>)
       else None)"

definition check_context :: "Heightmap \<Rightarrow> HeightmapSource \<Rightarrow> HeightmapError + unit" where
  "check_context h source = (if h_context h = hs_context source then Inr () else Inl ContextMismatch)"

text \<open>The first element for which a test that may panic answers yes.\<close>

fun find_first :: "('a \<Rightarrow> bool option) \<Rightarrow> 'a list \<Rightarrow> 'a option option" where
  "find_first p [] = Some None"
| "find_first p (y # ys) =
    (case p y of None \<Rightarrow> None | Some True \<Rightarrow> Some (Some y) | Some False \<Rightarrow> find_first p ys)"

definition prime_test :: "HeightmapSource \<Rightarrow> HeightmapKind \<Rightarrow> nat \<Rightarrow> nat \<Rightarrow> int \<Rightarrow> bool option" where
  "prime_test source kind x z y =
    Option.bind (source_state source x y z) (\<lambda>state.
      if state \<noteq> cr_air (hs_registries source) then source_opaque source kind state else Some False)"

definition prime_heights :: "HeightmapSource \<Rightarrow> int list" where
  "prime_heights source = rev [source_min_y source .. hs_highest_section source * 16 + 16 - 1]"

fun prime_columns :: "HeightmapSource \<Rightarrow> nat list \<Rightarrow> Heightmap \<Rightarrow> Heightmap option" where
  "prime_columns source [] h = Some h"
| "prime_columns source (index # rest) h =
    (case find_first (prime_test source (h_kind h) (index mod 16) (index div 16)) (prime_heights source) of
       None \<Rightarrow> None
     | Some None \<Rightarrow> prime_columns source rest h
     | Some (Some y) \<Rightarrow> Option.bind (hm_set h index (y + 1)) (prime_columns source rest))"

definition prime :: "Heightmap \<Rightarrow> HeightmapSource \<Rightarrow> (HeightmapError + Heightmap) option" where
  "prime h source =
    (case check_context h source of
       Inl e \<Rightarrow> Some (Inl e)
     | Inr u \<Rightarrow> map_option Inr (prime_columns source [0..<COLUMNS] h))"

datatype RestoreOutcome = OutcomeRestored | OutcomeReprimed

definition restore :: "Heightmap \<Rightarrow> u64 list \<Rightarrow> HeightmapSource \<Rightarrow> (HeightmapError + Heightmap \<times> RestoreOutcome) option" where
  "restore h raw source =
    (case check_context h source of
       Inl e \<Rightarrow> Some (Inl e)
     | Inr u \<Rightarrow>
         if length raw = length (h_words h) then Some (Inr (h\<lparr>h_words := raw\<rparr>, OutcomeRestored))
         else map_option (map_r (\<lambda>h. (h, OutcomeReprimed))) (prime h source))"

definition opaque_at :: "HeightmapSource \<Rightarrow> HeightmapKind \<Rightarrow> nat \<Rightarrow> nat \<Rightarrow> int \<Rightarrow> bool option" where
  "opaque_at source kind x z y = Option.bind (source_state source x y z) (source_opaque source kind)"

definition hm_update :: "Heightmap \<Rightarrow> nat \<Rightarrow> int \<Rightarrow> nat \<Rightarrow> u32 \<Rightarrow> HeightmapSource \<Rightarrow> (HeightmapError + Heightmap \<times> bool) option" where
  "hm_update h x y z state source =
    (case check_context h source of
       Inl e \<Rightarrow> Some (Inl e)
     | Inr u \<Rightarrow> (case hm_column x z of
         Inl e \<Rightarrow> Some (Inl e)
       | Inr index \<Rightarrow>
           if \<not> (source_min_y source \<le> y \<and> y < source_max_y source) then Some (Inl InvalidY)
           else (case source_opaque source (h_kind h) state of
               None \<Rightarrow> Some (Inl (InvalidState state))
             | Some opaque \<Rightarrow>
                 (case first_available h x z of
                    None \<Rightarrow> None
                  | Some (Inl e) \<Rightarrow> Some (Inl e)
                  | Some (Inr first) \<Rightarrow>
                      if y \<le> first - 2 then Some (Inr (h, False))
                      else if opaque
                      then if y < first then Some (Inr (h, False))
                        else map_option (\<lambda>h. Inr (h, True)) (hm_set h index (y + 1))
                      else if y \<noteq> first - 1 then Some (Inr (h, False))
                      else (case find_first (opaque_at source (h_kind h) x z) (rev [source_min_y source .. y - 1]) of
                          None \<Rightarrow> None
                        | Some found \<Rightarrow>
                            map_option (\<lambda>h. Inr (h, True))
                              (hm_set h index (case found of None \<Rightarrow> source_min_y source | Some lower \<Rightarrow> lower + 1)))))))"

section \<open>The stored set\<close>

datatype HeightmapOrigin = OriginRestored | OriginReprimed | MissingPrimed

record HeightmapSet =
  hset_maps :: "Heightmap option list"
  hset_origins :: "HeightmapOrigin option list"

definition hm_field :: "compound \<Rightarrow> string \<Rightarrow> Tag option" where
  "hm_field entries key = map_option snd (find (\<lambda>entry. fst entry = ascii_units key) entries)"

definition stored_compound :: "compound \<Rightarrow> compound option" where
  "stored_compound root = (case hm_field root ''Heightmaps'' of Some (Compound entries) \<Rightarrow> Some entries | _ \<Rightarrow> None)"

definition stored_array :: "compound \<Rightarrow> HeightmapKind \<Rightarrow> u64 list option" where
  "stored_array root kind =
    (case Option.bind (stored_compound root) (\<lambda>entries. hm_field entries (serialization_key kind)) of
       Some (LongArray longs) \<Rightarrow> Some longs
     | _ \<Rightarrow> None)"

definition selected_mask :: "compound \<Rightarrow> ChunkStatus \<Rightarrow> byte" where
  "selected_mask root status =
    fold (\<lambda>kind selected. if stored_array root kind \<noteq> None then selected OR hm_mask kind else selected) ALL_KINDS (required_mask status)"

definition count_ones :: "byte \<Rightarrow> nat" where
  "count_ones b = length (filter (bit b) [0..<8])"

text \<open>The loop that makes the selected maps: the set, the budget that is left and the kinds to prime.\<close>

fun make_maps ::
  "alloc_env \<Rightarrow> HeightmapSource \<Rightarrow> compound \<Rightarrow> byte \<Rightarrow> HeightmapKind list \<Rightarrow> HeightmapSet \<times> nat \<times> byte \<Rightarrow>
    (HeightmapError + HeightmapSet \<times> nat \<times> byte) option" where
  "make_maps env source root selected [] state = Some (Inr state)"
| "make_maps env source root selected (kind # kinds) (result, remaining, to_prime) =
    (if selected AND hm_mask kind = 0 then make_maps env source root selected kinds (result, remaining, to_prime)
     else (case hm_new env kind source remaining of
         Inl e \<Rightarrow> Some (Inl e)
       | Inr h \<Rightarrow>
           Option.bind (checked_sub remaining (hm_heap_bytes h)) (\<lambda>remaining.
             let put = (\<lambda>h origin. result\<lparr>hset_maps := (hset_maps result)[hm_id kind := Some h],
                   hset_origins := (hset_origins result)[hm_id kind := Some origin]\<rparr>);
                 raw = stored_array root kind in
             if (case raw of Some longs \<Rightarrow> length longs = length (h_words h) | None \<Rightarrow> False)
             then make_maps env source root selected kinds (put (h\<lparr>h_words := the raw\<rparr>) OriginRestored, remaining, to_prime)
             else make_maps env source root selected kinds
               (put h (if raw \<noteq> None then OriginReprimed else MissingPrimed), remaining, to_prime OR hm_mask kind))))"

fun set_found :: "byte \<Rightarrow> nat \<Rightarrow> int \<Rightarrow> HeightmapKind list \<Rightarrow> Heightmap option list \<Rightarrow> Heightmap option list option" where
  "set_found found index first [] maps = Some maps"
| "set_found found index first (kind # kinds) maps =
    (if found AND hm_mask kind \<noteq> 0
     then (case maps ! hm_id kind of
         None \<Rightarrow> None
       | Some h \<Rightarrow> Option.bind (hm_set h index first) (\<lambda>h. set_found found index first kinds (maps[hm_id kind := Some h])))
     else set_found found index first kinds maps)"

fun joint_column ::
  "HeightmapSource \<Rightarrow> nat \<Rightarrow> int list \<Rightarrow> byte \<Rightarrow> Heightmap option list \<Rightarrow> Heightmap option list option" where
  "joint_column source index [] unresolved maps = Some maps"
| "joint_column source index (y # ys) unresolved maps =
    Option.bind (source_state source (index mod 16) y (index div 16)) (\<lambda>state.
      if state = cr_air (hs_registries source) then joint_column source index ys unresolved maps
      else Option.bind (heightmap_mask (hs_registries source) state) (\<lambda>m.
        let found = m AND unresolved in
        Option.bind (set_found found index (y + 1) ALL_KINDS maps) (\<lambda>maps.
          let unresolved = unresolved AND NOT found in
          if unresolved = 0 then Some maps else joint_column source index ys unresolved maps)))"

fun joint_prime :: "HeightmapSource \<Rightarrow> byte \<Rightarrow> nat list \<Rightarrow> Heightmap option list \<Rightarrow> Heightmap option list option" where
  "joint_prime source to_prime [] maps = Some maps"
| "joint_prime source to_prime (index # rest) maps =
    (if to_prime = 0 then Some maps
     else Option.bind (joint_column source index (prime_heights source) to_prime maps) (joint_prime source to_prime rest))"

definition from_stored ::
  "alloc_env \<Rightarrow> HeightmapSource \<Rightarrow> compound \<Rightarrow> ChunkStatus \<Rightarrow> nat \<Rightarrow> (HeightmapError + HeightmapSet) option" where
  "from_stored env source root status allocation_limit =
    (let selected = selected_mask root status in
     if required_bytes (source_height source) * count_ones selected > allocation_limit then Some (Inl HmAllocationLimit)
     else (case make_maps env source root selected ALL_KINDS
         (\<lparr>hset_maps = replicate 6 None, hset_origins = replicate 6 None\<rparr>, allocation_limit, 0) of
         None \<Rightarrow> None
       | Some (Inl e) \<Rightarrow> Some (Inl e)
       | Some (Inr (result, remaining, to_prime)) \<Rightarrow>
           map_option (\<lambda>maps. Inr (result\<lparr>hset_maps := maps\<rparr>)) (joint_prime source to_prime [0..<COLUMNS] (hset_maps result))))"

definition set_get :: "HeightmapSet \<Rightarrow> HeightmapKind \<Rightarrow> Heightmap option" where
  "set_get s kind = hset_maps s ! hm_id kind"

definition set_origin :: "HeightmapSet \<Rightarrow> HeightmapKind \<Rightarrow> HeightmapOrigin option" where
  "set_origin s kind = hset_origins s ! hm_id kind"

definition set_heap_bytes :: "HeightmapSet \<Rightarrow> nat" where
  "set_heap_bytes s = sum_list (map hm_heap_bytes (List.map_filter id (hset_maps s)))"

end
