(* ===== verification/HeightMapLaws.thy ===== *)
theory HeightMapLaws
  imports HeightMap
begin

text \<open>
  Correctness of the heightmaps: what a column holds, that priming finds the surface of every column,
  and that the joint priming of a stored set is the priming of each of its maps.
\<close>

section \<open>Dimensions\<close>

definition height_ok :: "DimensionHeight \<Rightarrow> bool" where
  "height_ok height \<longleftrightarrow> - 128 \<le> dh_min_section height \<and> dh_min_section height \<le> dh_max_section height \<and> dh_max_section height \<le> 127"

lemma height_new_ok: "height_new min_y n = Inr height \<Longrightarrow> height_ok height"
proof -
  assume h: "height_new min_y n = Inr height"
  then have "0 < n div 16" by (auto simp: height_new_def Let_def split: if_splits)
  then have "1 \<le> int (n div 16)" by linarith
  then show ?thesis using h by (auto simp: height_new_def height_ok_def Let_def split: if_splits)
qed

lemma section_count_bounds: "height_ok height \<Longrightarrow> 1 \<le> hm_section_count height \<and> hm_section_count height \<le> 256"
  by (auto simp: height_ok_def hm_section_count_def)

lemma int_section_count: "height_ok height \<Longrightarrow> int (hm_section_count height) = dh_max_section height - dh_min_section height + 1"
  by (simp add: height_ok_def hm_section_count_def)

lemma height_bits_eq: "height_ok height \<Longrightarrow> height_bits height = bit_len (hm_section_count height * 16)"
proof -
  assume h: "height_ok height"
  have "unat (of_nat (hm_section_count height) * 16 :: u32) = unat (of_nat (hm_section_count height * 16) :: u32)" by simp
  also have "\<dots> = hm_section_count height * 16"
    using section_count_bounds [OF h] by (simp only: unat_of_nat) simp
  finally show ?thesis
    using length_minus_leading_zeros [of "of_nat (hm_section_count height) * 16 :: u32"] by (simp add: height_bits_def)
qed

lemma height_bits_bounds:
  assumes "height_ok height"
  shows "1 \<le> height_bits height" "height_bits height \<le> 31" "hm_section_count height * 16 < 2 ^ height_bits height"
proof -
  note c = section_count_bounds [OF assms]
  show "1 \<le> height_bits height" using c by (simp add: height_bits_eq [OF assms] Suc_le_eq)
  show "height_bits height \<le> 31" using c by (simp add: height_bits_eq [OF assms] bit_len_le_iff)
  show "hm_section_count height * 16 < 2 ^ height_bits height"
    using bit_len_le_iff [of "hm_section_count height * 16" "height_bits height"] by (simp add: height_bits_eq [OF assms])
qed

section \<open>Columns of a map\<close>

definition map_wf :: "Heightmap \<Rightarrow> bool" where
  "map_wf h \<longleftrightarrow> height_ok (cx_height (h_context h)) \<and> h_bits h = height_bits (cx_height (h_context h)) \<and>
    length (h_words h) = hm_word_count (h_bits h)"

definition level :: "Heightmap \<Rightarrow> nat \<Rightarrow> int" where
  "level h index = int (unat (cell (h_bits h) (h_words h) index)) + hm_min_y h"

lemma map_bits: "map_wf h \<Longrightarrow> 1 \<le> h_bits h \<and> h_bits h \<le> 31"
  using height_bits_bounds by (auto simp: map_wf_def)

lemma map_index_less:
  assumes "map_wf h" "i < 256"
  shows "i div (64 div h_bits h) < length (h_words h)"
proof (rule ccontr)
  have b: "0 < 64 div h_bits h" using map_bits [OF assms(1)] per_word_bounds by auto
  assume "\<not> i div (64 div h_bits h) < length (h_words h)"
  then have "256 \<le> i div (64 div h_bits h) * (64 div h_bits h)"
    using assms(1) div_ceil_le_iff [OF b, of 256] by (simp add: map_wf_def hm_word_count_def COLUMNS_def not_less)
  also have "\<dots> \<le> i" by simp
  finally show False using assms(2) by simp
qed

lemma value_mask_eq: "value_mask h = packed_mask (h_bits h)"
  by (simp add: value_mask_def packed_mask_def)

lemma uint_masked: "bits \<le> 31 \<Longrightarrow> uint (w AND packed_mask bits) = int (unat (ucast (w AND packed_mask bits) :: u32))"
proof -
  assume b: "bits \<le> 31"
  have "unat (ucast (w AND packed_mask bits) :: u32) = unat (w AND packed_mask bits)"
    by (rule bit_eqI) (use b in \<open>auto simp: bit_simps\<close>)
  then show ?thesis by simp
qed

lemma first_available_level:
  assumes "map_wf h" "x < 16" "z < 16"
  shows "first_available h x z = Some (Inr (level h (x + 16 * z)))"
proof -
  have "x + 16 * z < 256" using assms by simp
  then show ?thesis
    using assms map_index_less [OF assms(1), of "x + 16 * z"] map_bits [OF assms(1)]
    by (simp add: first_available_def hm_column_def hm_position_def Let_def level_def cell_def value_mask_eq uint_masked)
qed

text \<open>What \<open>set\<close> may be called with: heights from the bottom up to the first one above the top.\<close>

definition in_column :: "Heightmap \<Rightarrow> int \<Rightarrow> bool" where
  "in_column h first \<longleftrightarrow> hm_min_y h \<le> first \<and> first \<le> (dh_max_section (cx_height (h_context h)) + 1) * 16"

lemma hm_set_level:
  assumes wf: "map_wf h" and i: "i < 256" and f: "in_column h first"
  obtains h' where "hm_set h i first = Some h'" "map_wf h'" "h_kind h' = h_kind h" "h_context h' = h_context h"
    "h_capacity h' = h_capacity h" "\<And>j. j < 256 \<Longrightarrow> level h' j = (if j = i then first else level h j)"
proof -
  let ?r = "nat (first - hm_min_y h)" and ?c = "cx_height (h_context h)"
  have b: "1 \<le> h_bits h" "h_bits h \<le> 31" using map_bits [OF wf] by auto
  have ok: "height_ok ?c" "h_bits h = height_bits ?c" using wf by (auto simp: map_wf_def)
  have "?r \<le> hm_section_count ?c * 16"
    using f int_section_count [OF ok(1)] by (simp add: in_column_def hm_min_y_def nat_le_iff)
  then have r: "?r < 2 ^ h_bits h" using height_bits_bounds(3) [OF ok(1)] unfolding ok(2) by (rule le_less_trans)
  also have "(2 :: nat) ^ h_bits h \<le> 2 ^ 31" by (rule power_increasing) (use b in auto)
  finally have r32: "?r < 2 ^ 31" .
  have "unat (of_nat ?r :: u32) = ?r" using r32 by (simp only: unat_of_nat) simp
  then obtain v :: u32 where v: "unat v = ?r" by blast
  have low: "hm_min_y h \<le> first" using f by (simp add: in_column_def)
  have u64: "(of_int (first - hm_min_y h) :: u64) = ucast v"
  proof -
    have "(of_int (first - hm_min_y h) :: u64) = of_nat ?r" using low by (simp add: of_nat_nat)
    also have "\<dots> = of_nat (unat v)" by (simp only: v)
    also have "\<dots> = ucast v" by (rule of_nat_unat)
    finally show ?thesis .
  qed
  let ?h = "h\<lparr>h_words := set_word (h_bits h) (h_words h) i v\<rparr>"
  have "hm_set h i first = Some ?h"
    using map_index_less [OF wf i] by (simp only: hm_set_def hm_position_def Let_def value_mask_eq u64) simp
  moreover have "map_wf ?h" using wf by (simp add: map_wf_def)
  moreover have "level ?h j = (if j = i then first else level h j)" if "j < 256" for j
  proof -
    have "int (unat v) = first - hm_min_y h" unfolding v using low by simp
    moreover have "hm_min_y ?h = hm_min_y h" by (simp add: hm_min_y_def)
    ultimately show ?thesis using cell_set_word [OF b, of v j "h_words h" i, unfolded v, OF r] map_index_less [OF wf that] low by (simp add: level_def)
  qed
  ultimately show thesis by (intro that [of ?h]) simp_all
qed

lemma hm_new_ok:
  assumes "hm_new env kind source limit = Inr h" "height_ok (source_height source)"
  shows "map_wf h" "h_kind h = kind" "h_context h = hs_context source" "hm_heap_bytes h \<le> limit" "\<And>i. i < 256 \<Longrightarrow> level h i = hm_min_y h"
proof -
  have h: "h_bits h = height_bits (source_height source)" "h_words h = replicate (hm_word_count (h_bits h)) 0" "h_capacity h * 8 \<le> limit"
    and k: "h_kind h = kind" "h_context h = hs_context source"
    using assms(1) by (auto simp: hm_new_def Let_def result_simps split: if_splits)
  then show wf: "map_wf h" using assms(2) by (simp add: map_wf_def source_height_def)
  show "h_kind h = kind" "h_context h = hs_context source" "hm_heap_bytes h \<le> limit" using h k by (simp_all add: hm_heap_bytes_def)
  show "level h i = hm_min_y h" if "i < 256" for i
    using map_index_less [OF wf that] h(2) by (simp add: level_def cell_def)
qed

section \<open>Sources\<close>

definition known_id :: "ChunkRegistrySnapshot \<Rightarrow> u32 \<Rightarrow> bool" where
  "known_id r i \<longleftrightarrow> unat i < length (cr_state_flags r)"

definition section_known :: "ChunkRegistrySnapshot \<Rightarrow> Section \<Rightarrow> bool" where
  "section_known r s \<longleftrightarrow> (\<forall>c < 4096. \<exists>i. container_get (s_blocks s) c = Inr i \<and> known_id r i)"

text \<open>
  What a source is checked to be: the sections inside the height hold known states only, and no block
  lies above the highest section.
\<close>

definition source_ok :: "HeightmapSource \<Rightarrow> bool" where
  "source_ok source \<longleftrightarrow>
    height_ok (source_height source) \<and> known_id (hs_registries source) (cr_air (hs_registries source)) \<and>
    length (hs_sections source) = 256 \<and>
    dh_min_section (source_height source) \<le> hs_highest_section source \<and> hs_highest_section source \<le> dh_max_section (source_height source) \<and>
    (\<forall>i < 256. case hs_sections source ! i of
       None \<Rightarrow> True
     | Some s \<Rightarrow> section_known (hs_registries source) s \<and>
         (non_empty_blocks (s_counts s) \<noteq> 0 \<longrightarrow> dh_min_section (source_height source) + int i \<le> hs_highest_section source))"

lemma heightmap_mask_known: "(\<exists>m. heightmap_mask r i = Some m) \<longleftrightarrow> known_id r i"
  by (simp add: heightmap_mask_def known_id_def Let_def)

lemma count_non_empty_known:
  "count_non_empty r blocks cs n = Inr m \<Longrightarrow> \<forall>c \<in> set cs. \<exists>i. container_get blocks c = Inr i \<and> known_id r i"
  by (induction cs arbitrary: n) (auto simp: known_id_def state_flags_of_def split: sum.splits option.splits if_splits)

lemma section_knownI: "count_non_empty r (s_blocks s) [0..<4096] 0 = Inr m \<Longrightarrow> section_known r s"
  by (drule count_non_empty_known) (simp add: section_known_def)

abbreviation put_section :: "nat \<times> Section option \<Rightarrow> Section option list \<Rightarrow> Section option list" where
  "put_section is ss \<equiv> (case is of (i, s) \<Rightarrow> case s of None \<Rightarrow> ss | Some x \<Rightarrow> ss[i := s])"

lemma add_sections_ok:
  assumes "add_sections index secs source = Inr source'" "source_ok source" "index + length secs \<le> hm_section_count (source_height source)"
    "hs_highest_section source \<le> dh_min_section (source_height source) + int index"
  shows "source_ok source' \<and> hs_registries source' = hs_registries source \<and> hs_context source' = hs_context source \<and>
    hs_sections source' = fold put_section (enumerate index secs) (hs_sections source)"
  using assms
proof (induction index secs source rule: add_sections.induct)
  case (3 index s rest source)
  let ?n = "unat (non_empty_blocks (s_counts s))"
  let ?s1 = "source\<lparr>hs_sections := (hs_sections source)[index := Some s]\<rparr>"
  let ?s2 = "if ?n \<noteq> 0 then ?s1\<lparr>hs_highest_section := dh_min_section (cx_height (hs_context ?s1)) + int index\<rparr> else ?s1"
  from 3(2) have c: "count_non_empty (hs_registries source) (s_blocks s) [0..<4096] 0 = Inr ?n"
    and go: "add_sections (index + 1) rest ?s2 = Inr source'"
    by (auto simp: result_simps Let_def split: if_splits)
  have h: "height_ok (source_height source)" using 3(3) by (simp add: source_ok_def)
  have i: "int index \<le> dh_max_section (source_height source) - dh_min_section (source_height source)" "index < 256"
    using 3(4) int_section_count [OF h] section_count_bounds [OF h] by simp_all
  have sh: "source_height ?s2 = source_height source" by (simp add: source_height_def)
  have le: "int j + dh_min_section (source_height source) \<le> hs_highest_section source \<Longrightarrow> j \<le> index" for j
    using 3(5) by linarith
  have ok: "source_ok ?s2"
    using 3(3) i 3(5) section_knownI [OF c] unfolding source_ok_def sh
    by (auto simp: nth_list_update source_height_def unat_eq_0 split: option.splits if_splits dest!: le)
  have "hs_highest_section ?s2 \<le> dh_min_section (source_height ?s2) + int (index + 1)" using 3(5) by (simp add: source_height_def)
  then show ?case using 3(1) [OF c _ refl] go ok 3(4) sh by (auto simp: Let_def split: if_splits)
next
  case (2 index rest source)
  then show ?case by simp
qed simp

lemma fold_sections:
  "j < length ss \<Longrightarrow> fold put_section (enumerate k secs) ss ! j =
    (if k \<le> j \<and> j < k + length secs \<and> secs ! (j - k) \<noteq> None then secs ! (j - k) else ss ! j)"
proof (induction secs arbitrary: k ss)
  case (Cons s secs)
  have "fold put_section (enumerate k (s # secs)) ss ! j = fold put_section (enumerate (Suc k) secs) (put_section (k, s) ss) ! j" by simp
  also have "\<dots> = (if Suc k \<le> j \<and> j < Suc k + length secs \<and> secs ! (j - Suc k) \<noteq> None then secs ! (j - Suc k) else put_section (k, s) ss ! j)"
    by (rule Cons(1)) (use Cons(2) in \<open>simp split: option.splits\<close>)
  also have "\<dots> = (if k \<le> j \<and> j < k + length (s # secs) \<and> (s # secs) ! (j - k) \<noteq> None then (s # secs) ! (j - k) else ss ! j)"
  proof (cases "j = k")
    case True
    then show ?thesis using Cons(2) by (cases s) auto
  next
    case False
    then have "Suc k \<le> j \<longleftrightarrow> k \<le> j" "Suc k \<le> j \<Longrightarrow> (s # secs) ! (j - k) = secs ! (j - Suc k)" "put_section (k, s) ss ! j = ss ! j"
      by (auto simp: nth_Cons' split: option.splits)
    then show ?thesis by auto
  qed
  finally show ?case .
qed auto

lemma from_sections_ok:
  assumes "from_sections r height secs = Inr source" "height_ok height" "known_id r (cr_air r)"
  shows "source_ok source" "hs_registries source = r" "source_height source = height"
    "hs_context source = \<lparr>cx_height = height, cx_registry = cr_manifest_sha256 r, cx_configuration = cr_configuration_sha256 r\<rparr>"
    "\<And>i. i < 256 \<Longrightarrow> hs_sections source ! i = (if i < length secs then secs ! i else None)"
proof -
  have go: "add_sections 0 secs (source_empty r height) = Inr source" and len: "length secs = hm_section_count height"
    using assms(1) by (auto simp: from_sections_def split: if_splits)
  have e: "source_ok (source_empty r height)" "source_height (source_empty r height) = height"
    using assms(2,3) by (auto simp: source_ok_def source_empty_def source_height_def MAX_SECTIONS_def height_ok_def)
  have res: "source_ok source \<and> hs_registries source = hs_registries (source_empty r height) \<and> hs_context source = hs_context (source_empty r height) \<and>
    hs_sections source = fold put_section (enumerate 0 secs) (hs_sections (source_empty r height))"
    by (rule add_sections_ok [OF go e(1)]) (simp_all add: len e(2), simp add: source_empty_def)
  then show "source_ok source" "hs_registries source = r" "source_height source = height"
    "hs_context source = \<lparr>cx_height = height, cx_registry = cr_manifest_sha256 r, cx_configuration = cr_configuration_sha256 r\<rparr>"
    by (simp_all add: source_empty_def source_height_def)
  show "hs_sections source ! i = (if i < length secs then secs ! i else None)" if "i < 256" for i
    using res that fold_sections [where j = i and ss = "replicate 256 None" and k = 0 and secs = secs] by (simp add: source_empty_def MAX_SECTIONS_def)
qed

definition in_build :: "HeightmapSource \<Rightarrow> int \<Rightarrow> bool" where
  "in_build source y \<longleftrightarrow> source_min_y source \<le> y \<and> y < source_max_y source"

lemma source_state_known:
  assumes ok: "source_ok source" and xz: "x < 16" "z < 16" and y: "in_build source y"
  obtains s where "source_state source x y z = Some s" "known_id (hs_registries source) s"
    "hs_highest_section source * 16 + 16 \<le> y \<Longrightarrow> s = cr_air (hs_registries source)"
proof -
  let ?i = "y div 16 - dh_min_section (source_height source)" and ?c = "x + 16 * z + 256 * nat (y mod 16)"
  let ?s = "hs_sections source ! nat ?i"
  have h: "height_ok (source_height source)" using ok by (simp add: source_ok_def)
  have d: "dh_min_section (source_height source) \<le> y div 16" "y div 16 \<le> dh_max_section (source_height source)"
    using y by (auto simp: in_build_def source_min_y_def source_max_y_def)
  then have i: "0 \<le> ?i" "nat ?i < 256" using h by (auto simp: height_ok_def)
  have len: "length (hs_sections source) = 256" using ok by (simp add: source_ok_def)
  have "nat (y mod 16) \<le> 15" by (simp add: nat_le_iff)
  then have c: "?c < 4096" using xz by simp
  have air: "known_id (hs_registries source) (cr_air (hs_registries source))" using ok by (simp add: source_ok_def)
  consider (air) "source_state source x y z = Some (cr_air (hs_registries source))"
    | (cell) s where "?s = Some s" "non_empty_blocks (s_counts s) \<noteq> 0"
    using i len by (cases ?s; cases "non_empty_blocks (s_counts (the ?s)) = 0") (simp_all add: source_state_def Let_def)
  then show thesis
  proof cases
    case air
    then show thesis using that \<open>known_id (hs_registries source) (cr_air (hs_registries source))\<close> by blast
  next
    case (cell s)
    have k: "section_known (hs_registries source) s" "y div 16 \<le> hs_highest_section source"
      using ok i cell unfolding source_ok_def by (force split: option.splits)+
    then obtain v where v: "container_get (s_blocks s) ?c = Inr v" "known_id (hs_registries source) v"
      using c by (auto simp: section_known_def)
    have st: "source_state source x y z = Some v" using v cell i len by (simp add: source_state_def Let_def)
    have "\<not> hs_highest_section source * 16 + 16 \<le> y" using k(2) by linarith
    then show thesis by (intro that [OF st v(2)]) simp
  qed
qed

section \<open>Surfaces\<close>

lemma source_opaque_known: "known_id (hs_registries source) s \<Longrightarrow> \<exists>b. source_opaque source kind s = Some b"
  by (simp add: source_opaque_def heightmap_mask_def known_id_def Let_def)

lemma prime_test_known:
  assumes "source_ok source" "x < 16" "z < 16" "in_build source y"
  shows "\<exists>b. prime_test source kind x z y = Some b"
proof -
  obtain s where "source_state source x y z = Some s" "known_id (hs_registries source) s" by (rule source_state_known [OF assms])
  then show ?thesis using source_opaque_known [of source s kind] by (auto simp: prime_test_def)
qed

lemma prime_test_above:
  assumes "source_ok source" "x < 16" "z < 16" "in_build source y" "hs_highest_section source * 16 + 16 \<le> y"
  shows "prime_test source kind x z y = Some False"
proof -
  obtain s where "source_state source x y z = Some s" "s = cr_air (hs_registries source)" using source_state_known [OF assms(1-4)] assms(5) by metis
  then show ?thesis by (simp add: prime_test_def)
qed

lemma find_first_spec:
  assumes "\<forall>y \<in> set ys. p y \<noteq> None"
  shows "find_first p ys = Some (find (\<lambda>y. p y = Some True) ys)"
  using assms by (induction ys) (auto split: option.splits bool.splits)

lemma find_rev_upto:
  fixes lo hi :: int
  shows "find q (rev [lo..hi]) = None \<longleftrightarrow> (\<forall>y. lo \<le> y \<and> y \<le> hi \<longrightarrow> \<not> q y)"
    "find q (rev [lo..hi]) = Some y \<longleftrightarrow> lo \<le> y \<and> y \<le> hi \<and> q y \<and> (\<forall>y'. y < y' \<and> y' \<le> hi \<longrightarrow> \<not> q y')"
proof -
  show "find q (rev [lo..hi]) = None \<longleftrightarrow> (\<forall>y. lo \<le> y \<and> y \<le> hi \<longrightarrow> \<not> q y)" by (auto simp: find_None_iff)
  show "find q (rev [lo..hi]) = Some y \<longleftrightarrow> lo \<le> y \<and> y \<le> hi \<and> q y \<and> (\<forall>y'. y < y' \<and> y' \<le> hi \<longrightarrow> \<not> q y')"
  proof (induction "nat (hi - lo + 1)" arbitrary: hi)
    case 0
    then show ?case by simp
  next
    case (Suc n)
    then have le: "lo \<le> hi" "n = nat (hi - 1 - lo + 1)" by simp_all
    then have "rev [lo..hi] = hi # rev [lo..hi - 1]" by (simp add: upto_rec2)
    then show ?case using Suc(1) [OF le(2)] le(1) by (auto simp: order_less_le) 
  qed
qed

text \<open>The first free height above the highest cell a test accepts, over the whole build height.\<close>

definition column_top :: "HeightmapSource \<Rightarrow> (int \<Rightarrow> bool option) \<Rightarrow> int \<Rightarrow> bool" where
  "column_top source p first \<longleftrightarrow>
    source_min_y source \<le> first \<and> first \<le> source_max_y source \<and>
    (\<forall>y. first \<le> y \<and> y < source_max_y source \<longrightarrow> p y = Some False) \<and>
    (source_min_y source < first \<longrightarrow> p (first - 1) = Some True)"

text \<open>
  The two notions of a surface: by the test of priming, which skips literal air, and by the mask
  of the registry alone, which is what an update asks.
\<close>

definition is_surface :: "HeightmapSource \<Rightarrow> HeightmapKind \<Rightarrow> nat \<Rightarrow> nat \<Rightarrow> int \<Rightarrow> bool" where
  "is_surface source kind x z first \<longleftrightarrow> column_top source (prime_test source kind x z) first"

definition is_mask_surface :: "HeightmapSource \<Rightarrow> HeightmapKind \<Rightarrow> nat \<Rightarrow> nat \<Rightarrow> int \<Rightarrow> bool" where
  "is_mask_surface source kind x z first \<longleftrightarrow> column_top source (opaque_at source kind x z) first"

lemma is_surface_unique: "is_surface source kind x z f \<Longrightarrow> is_surface source kind x z g \<Longrightarrow> f = g"
proof (induction f g rule: linorder_wlog)
  case (le f g)
  show ?case
  proof (rule ccontr)
    assume "f \<noteq> g"
    then have "f \<le> g - 1 \<and> g - 1 < source_max_y source" "source_min_y source < g" using le by (auto simp: is_surface_def column_top_def)
    then have "prime_test source kind x z (g - 1) = Some False" "prime_test source kind x z (g - 1) = Some True"
      using le(2,3) unfolding is_surface_def column_top_def by blast+
    then show False by simp
  qed
qed simp

lemma top_below:
  assumes known: "\<And>y. in_build source y \<Longrightarrow> p y \<noteq> None" and hi: "source_min_y source \<le> hi" "hi \<le> source_max_y source"
    and above: "\<And>y. hi \<le> y \<Longrightarrow> y < source_max_y source \<Longrightarrow> p y = Some False"
  obtains r where "find_first p (rev [source_min_y source .. hi - 1]) = Some r"
    "column_top source p (case r of None \<Rightarrow> source_min_y source | Some y \<Rightarrow> y + 1)"
    "(case r of None \<Rightarrow> source_min_y source | Some y \<Rightarrow> y + 1) \<le> hi" "\<And>y. r = Some y \<Longrightarrow> in_build source y"
proof -
  have known': "p y = Some False \<or> p y = Some True" if "in_build source y" for y using known [OF that] by auto
  have "\<forall>y \<in> set (rev [source_min_y source .. hi - 1]). p y \<noteq> None"
    using known hi by (auto simp: in_build_def)
  note f = find_first_spec [OF this]
  let ?r = "find (\<lambda>y. p y = Some True) (rev [source_min_y source .. hi - 1])"
  show thesis
  proof (cases ?r)
    case None
    then have no: "\<forall>y. source_min_y source \<le> y \<and> y \<le> hi - 1 \<longrightarrow> p y \<noteq> Some True" by (simp only: find_rev_upto(1))
    have "p y = Some False" if "source_min_y source \<le> y" "y < source_max_y source" for y
      using that above [of y] known' [of y] no by (cases "hi \<le> y") (auto simp: in_build_def)
    then have "column_top source p (source_min_y source)" using hi by (simp add: column_top_def)
    then show thesis using None hi by (intro that [OF f]) simp_all
  next
    case (Some y)
    then have y: "source_min_y source \<le> y" "y \<le> hi - 1" "p y = Some True"
      "\<forall>y'. y < y' \<and> y' \<le> hi - 1 \<longrightarrow> p y' \<noteq> Some True" unfolding find_rev_upto(2) by blast+
    have "p y' = Some False" if "y < y'" "y' < source_max_y source" for y'
      using that above [of y'] known' [of y'] y by (cases "hi \<le> y'") (auto simp: in_build_def)
    then have "column_top source p (y + 1)" using y hi by (simp add: column_top_def)
    then show thesis using Some y hi by (intro that [OF f]) (simp_all add: in_build_def)
  qed
qed

lemma prime_heights_surface:
  assumes ok: "source_ok source" and xz: "x < 16" "z < 16"
  obtains r where "find_first (prime_test source kind x z) (prime_heights source) = Some r"
    "is_surface source kind x z (case r of None \<Rightarrow> source_min_y source | Some y \<Rightarrow> y + 1)"
    "\<And>y. r = Some y \<Longrightarrow> in_build source y"
proof -
  let ?hi = "hs_highest_section source * 16 + 16"
  have b: "source_min_y source \<le> ?hi" "?hi \<le> source_max_y source" using ok by (auto simp: source_ok_def source_min_y_def source_max_y_def)
  have "prime_test source kind x z y = Some False" if "?hi \<le> y" "y < source_max_y source" for y
    using that b by (intro prime_test_above [OF ok xz]) (auto simp: in_build_def)
  moreover have "prime_test source kind x z y \<noteq> None" if "in_build source y" for y
    using prime_test_known [OF ok xz that, of kind] by auto
  ultimately show thesis
    using top_below [of source "prime_test source kind x z" ?hi] b that unfolding prime_heights_def is_surface_def by metis
qed

section \<open>Priming\<close>

lemma column_split: "x < 16 \<Longrightarrow> z < 16 \<Longrightarrow> x + 16 * z < 256 \<and> (x + 16 * z) mod 16 = x \<and> (x + 16 * z) div 16 = (z :: nat)"
  by simp

definition map_for :: "HeightmapSource \<Rightarrow> Heightmap \<Rightarrow> bool" where
  "map_for source h \<longleftrightarrow> map_wf h \<and> h_context h = hs_context source"

lemma map_for_min_y: "map_for source h \<Longrightarrow> hm_min_y h = source_min_y source"
  by (simp add: map_for_def hm_min_y_def source_min_y_def source_height_def)

lemma map_for_in_column: "map_for source h \<Longrightarrow> in_column h f \<longleftrightarrow> source_min_y source \<le> f \<and> f \<le> source_max_y source"
  by (simp add: map_for_def in_column_def hm_min_y_def source_min_y_def source_max_y_def source_height_def)

text \<open>What priming leaves in a column: the surface, or what was there when the column is empty.\<close>

definition primed :: "HeightmapSource \<Rightarrow> HeightmapKind \<Rightarrow> nat \<Rightarrow> int \<Rightarrow> int \<Rightarrow> bool" where
  "primed source kind index old new \<longleftrightarrow>
    (\<exists>f. is_surface source kind (index mod 16) (index div 16) f \<and> new = (if f = source_min_y source then old else f))"

lemma prime_columns_ok:
  assumes "source_ok source" "map_for source h" "\<forall>i \<in> set idxs. i < 256" "distinct idxs"
  obtains h' where "prime_columns source idxs h = Some h'" "map_for source h'" "h_kind h' = h_kind h" "h_capacity h' = h_capacity h"
    "\<And>i. i < 256 \<Longrightarrow> if i \<in> set idxs then primed source (h_kind h) i (level h i) (level h' i) else level h' i = level h i"
  using assms(2-4)
proof (induction idxs arbitrary: h thesis)
  case Nil
  then show ?case by simp
next
  case (Cons i idxs)
  have i: "i < 256" "i mod 16 < 16" "i div 16 < 16" using Cons(4) less_mult_imp_div_less [of i 16 16] by simp_all
  obtain r where r: "find_first (prime_test source (h_kind h) (i mod 16) (i div 16)) (prime_heights source) = Some r"
    "is_surface source (h_kind h) (i mod 16) (i div 16) (case r of None \<Rightarrow> source_min_y source | Some y \<Rightarrow> y + 1)"
    "\<And>y. r = Some y \<Longrightarrow> in_build source y" using prime_heights_surface [OF assms(1) i(2,3)] by metis
  obtain h1 where h1: "prime_columns source (i # idxs) h = prime_columns source idxs h1" "map_for source h1" "h_kind h1 = h_kind h" "h_capacity h1 = h_capacity h"
    "primed source (h_kind h) i (level h i) (level h1 i)" "\<And>j. j < 256 \<Longrightarrow> j \<noteq> i \<Longrightarrow> level h1 j = level h j"
  proof (cases r)
    case None
    then have "primed source (h_kind h) i (level h i) (level h i)" using r(2) by (auto simp: primed_def)
    then show thesis using None r(1) Cons(3) by (intro that [of h]) simp_all
  next
    case (Some y)
    then have y: "in_build source y" using r(3) by simp
    then have col: "in_column h (y + 1)" using map_for_in_column [OF Cons(3)] by (simp add: in_build_def)
    obtain h1 where h1: "hm_set h i (y + 1) = Some h1" "map_wf h1" "h_kind h1 = h_kind h" "h_context h1 = h_context h" "h_capacity h1 = h_capacity h"
      "\<And>j. j < 256 \<Longrightarrow> level h1 j = (if j = i then y + 1 else level h j)"
      using hm_set_level [OF _ i(1) col] Cons(3) unfolding map_for_def by metis
    have "primed source (h_kind h) i (level h i) (y + 1)"
      using r(2) Some y unfolding primed_def by (intro exI [of _ "y + 1"]) (auto simp: in_build_def)
    then show thesis using Some r(1) Cons(3) h1 i by (intro that [of h1]) (simp_all add: map_for_def)
  qed
  have k: "h_kind h1 = h_kind h" by fact
  obtain h' where h': "prime_columns source idxs h1 = Some h'" "map_for source h'" "h_kind h' = h_kind h1" "h_capacity h' = h_capacity h1"
    "\<And>j. j < 256 \<Longrightarrow> if j \<in> set idxs then primed source (h_kind h1) j (level h1 j) (level h' j) else level h' j = level h1 j"
    using Cons(1) [OF _ h1(2)] Cons(4,5) by (metis distinct.simps(2) list.set_intros(2))
  show ?case
  proof (rule Cons(2) [of h'])
    fix j :: nat assume j: "j < 256"
    show "if j \<in> set (i # idxs) then primed source (h_kind h) j (level h j) (level h' j) else level h' j = level h j"
      using h'(5) [OF j] h1(5) h1(6) [OF j] Cons(5) k by (cases "j = i") auto
  qed (use h' h1 in simp_all)
qed

text \<open>A map that holds the surface of every column.\<close>

definition map_exact :: "HeightmapSource \<Rightarrow> Heightmap \<Rightarrow> bool" where
  "map_exact source h \<longleftrightarrow> map_for source h \<and>
    (\<forall>x < 16. \<forall>z < 16. is_surface source (h_kind h) x z (level h (x + 16 * z)))"

lemma prime_new_exact:
  assumes "source_ok source" "map_for source h" "\<And>i. i < 256 \<Longrightarrow> level h i = source_min_y source"
  obtains h' where "prime_columns source [0..<COLUMNS] h = Some h'" "map_exact source h'" "h_kind h' = h_kind h" "h_capacity h' = h_capacity h"
proof -
  obtain h' where h': "prime_columns source [0..<COLUMNS] h = Some h'" "map_for source h'" "h_kind h' = h_kind h" "h_capacity h' = h_capacity h"
    "\<And>i. i < 256 \<Longrightarrow> if i \<in> set [0..<COLUMNS] then primed source (h_kind h) i (level h i) (level h' i) else level h' i = level h i"
    by (rule prime_columns_ok [OF assms(1,2), of "[0..<COLUMNS]"]) (auto simp: COLUMNS_def)
  have "is_surface source (h_kind h') x z (level h' (x + 16 * z))" if "x < 16" "z < 16" for x z
    using h'(5) [of "x + 16 * z"] assms(3) [of "x + 16 * z"] column_split [OF that] h'(3) by (auto simp: primed_def COLUMNS_def split: if_splits)
  then show thesis using h' by (intro that [of h']) (simp_all add: map_exact_def)
qed

section \<open>Updating\<close>

text \<open>
  Where the literal air does not count for a kind, priming, which skips it, and updating ask the
  same question.
\<close>

definition air_counts :: "HeightmapSource \<Rightarrow> HeightmapKind \<Rightarrow> bool" where
  "air_counts source kind \<longleftrightarrow> source_opaque source kind (cr_air (hs_registries source)) = Some True"

lemma opaque_at_prime:
  assumes "source_ok source" "\<not> air_counts source kind"
  shows "opaque_at source kind x z = prime_test source kind x z"
proof
  fix y
  have "source_opaque source kind (cr_air (hs_registries source)) = Some False"
    using source_opaque_known [of source "cr_air (hs_registries source)" kind] assms by (auto simp: air_counts_def source_ok_def)
  then show "opaque_at source kind x z y = prime_test source kind x z y"
    by (cases "source_state source x y z") (auto simp: opaque_at_def prime_test_def)
qed

lemma opaque_at_known:
  assumes "source_ok source" "x < 16" "z < 16" "in_build source y"
  shows "\<exists>b. opaque_at source kind x z y = Some b"
proof -
  obtain s where "source_state source x y z = Some s" "known_id (hs_registries source) s" by (rule source_state_known [OF assms])
  then show ?thesis using source_opaque_known [of source s kind] by (auto simp: opaque_at_def)
qed

text \<open>A map that holds, in every column, the surface by the mask.\<close>

definition map_by_mask :: "HeightmapSource \<Rightarrow> Heightmap \<Rightarrow> bool" where
  "map_by_mask source h \<longleftrightarrow> map_for source h \<and>
    (\<forall>x < 16. \<forall>z < 16. is_mask_surface source (h_kind h) x z (level h (x + 16 * z)))"

lemma map_by_mask_exact:
  "source_ok source \<Longrightarrow> \<not> air_counts source (h_kind h) \<Longrightarrow> map_by_mask source h \<longleftrightarrow> map_exact source h"
  by (simp add: map_by_mask_def map_exact_def is_mask_surface_def is_surface_def opaque_at_prime)

lemma hm_update_ok:
  assumes ok: "source_ok source" and h: "map_for source h" and xz: "x < 16" "z < 16" and y: "in_build source y"
    and st: "source_opaque source (h_kind h) state = opaque_at source (h_kind h) x z y"
    and old: "source_min_y source \<le> first" "first \<le> source_max_y source" "level h (x + 16 * z) = first"
      "\<And>y'. first \<le> y' \<Longrightarrow> y' < source_max_y source \<Longrightarrow> y' \<noteq> y \<Longrightarrow> opaque_at source (h_kind h) x z y' = Some False"
      "source_min_y source < first \<Longrightarrow> first - 1 \<noteq> y \<Longrightarrow> opaque_at source (h_kind h) x z (first - 1) = Some True"
  obtains h' new where "hm_update h x y z state source = Some (Inr (h', new \<noteq> first))" "map_for source h'" "h_kind h' = h_kind h" "h_capacity h' = h_capacity h"
    "is_mask_surface source (h_kind h) x z new" "\<And>j. j < 256 \<Longrightarrow> level h' j = (if j = x + 16 * z then new else level h j)"
proof -
  note result = that
  let ?i = "x + 16 * z"
  have i: "?i < 256" using xz by simp
  obtain b where b: "opaque_at source (h_kind h) x z y = Some b" using opaque_at_known [OF ok xz y] by blast
  have pre: "check_context h source = Inr ()" "hm_column x z = Inr ?i" "first_available h x z = Some (Inr first)"
    using h xz first_available_level [of h x z] old(3) by (simp_all add: check_context_def hm_column_def map_for_def)
  have yb: "source_min_y source \<le> y" "y < source_max_y source" using y by (simp_all add: in_build_def)
  have wf: "map_wf h" using h by (simp add: map_for_def)
  have so: "source_opaque source (h_kind h) state = Some b" using st b by simp
  have test: "opaque_at source (h_kind h) x z y' = Some False" if "first \<le> y'" "y' < source_max_y source" "y' = y \<Longrightarrow> \<not> b" for y'
    using old(4) [OF that(1,2)] that(3) b by (cases "y' = y") simp_all
  note update = hm_update_def pre so yb
  have changed: thesis
    if u: "hm_update h x y z state source = map_option (\<lambda>h. Inr (h, True)) (hm_set h ?i new)" and s: "is_mask_surface source (h_kind h) x z new" "new \<noteq> first" for new
  proof -
    have "in_column h new" using map_for_in_column [OF h] s(1) by (simp add: is_mask_surface_def column_top_def)
    from hm_set_level [OF wf i this] obtain h' where h': "hm_set h ?i new = Some h'" "map_wf h'" "h_kind h' = h_kind h" "h_context h' = h_context h"
      "h_capacity h' = h_capacity h" "\<And>j. j < 256 \<Longrightarrow> level h' j = (if j = ?i then new else level h j)" by metis
    have "map_for source h'" using h h' by (simp add: map_for_def)
    with h' show thesis using u s by (intro result [of h' new]) simp_all
  qed
  consider (low) "y \<le> first - 2" | (kept) "y = first - 1" b | (raised) "first \<le> y" b | (above) "first \<le> y" "\<not> b" | (dropped) "y = first - 1" "\<not> b" by linarith
  then show thesis
  proof cases
    case low
    then have "is_mask_surface source (h_kind h) x z first" using old(1,2,5) test by (simp add: is_mask_surface_def column_top_def)
    then show thesis using low h old(3) by (intro result [of h first]) (simp_all add: update)
  next
    case kept
    then have "is_mask_surface source (h_kind h) x z first" using old(1,2) test b by (simp add: is_mask_surface_def column_top_def)
    then show thesis using kept yb h old(3) by (intro result [of h first]) (simp_all add: update)
  next
    case raised
    then have "is_mask_surface source (h_kind h) x z (y + 1)" using yb b by (auto simp: is_mask_surface_def column_top_def intro!: test)
    then show thesis using raised by (intro changed [of "y + 1"]) (simp_all add: update)
  next
    case above
    then have "is_mask_surface source (h_kind h) x z first" using old(1,2,5) test by (simp add: is_mask_surface_def column_top_def)
    then show thesis using above h old(3) by (intro result [of h first]) (simp_all add: update)
  next
    case dropped
    have free: "opaque_at source (h_kind h) x z y' = Some False" if "y \<le> y'" "y' < source_max_y source" for y'
      using that dropped test [of y'] b by (cases "y' = y") simp_all
    obtain r where r: "find_first (opaque_at source (h_kind h) x z) (rev [source_min_y source .. y - 1]) = Some r"
      "is_mask_surface source (h_kind h) x z (case r of None \<Rightarrow> source_min_y source | Some y \<Rightarrow> y + 1)"
      "(case r of None \<Rightarrow> source_min_y source | Some y \<Rightarrow> y + 1) \<le> y"
      using top_below [of source "opaque_at source (h_kind h) x z" y] opaque_at_known [OF ok xz, of _ "h_kind h"] yb free
      unfolding is_mask_surface_def by (metis less_imp_le option.distinct(1))
    have "(case r of None \<Rightarrow> source_min_y source | Some y \<Rightarrow> y + 1) \<noteq> first" using r(3) dropped(1) by linarith
    then show thesis using dropped yb r by (intro changed [OF _ r(2)]) (simp_all add: update)
  qed
qed

text \<open>
  Where air counts, an update with air raises a primed column that priming would leave alone.
\<close>

lemma air_counts_diverges:
  assumes ok: "source_ok source" and h: "map_exact source h" and xz: "x < 16" "z < 16" and y: "in_build source y"
    and air: "air_counts source (h_kind h)" and above: "level h (x + 16 * z) \<le> y"
  obtains h' where "hm_update h x y z (cr_air (hs_registries source)) source = Some (Inr (h', True))"
    "first_available h' x z = Some (Inr (y + 1))" "\<not> is_surface source (h_kind h) x z (y + 1)"
proof -
  let ?i = "x + 16 * z"
  have m: "map_for source h" "is_surface source (h_kind h) x z (level h ?i)" using h xz by (simp_all add: map_exact_def)
  have wf: "map_wf h" and i: "?i < 256" using m(1) xz by (simp_all add: map_for_def)
  have pre: "check_context h source = Inr ()" "hm_column x z = Inr ?i" "first_available h x z = Some (Inr (level h ?i))"
    using m(1) xz first_available_level [of h x z] by (simp_all add: check_context_def hm_column_def map_for_def)
  have yb: "source_min_y source \<le> y" "y < source_max_y source" using y by (simp_all add: in_build_def)
  then have "in_column h (y + 1)" using map_for_in_column [OF m(1)] by simp
  from hm_set_level [OF wf i this] obtain h' where h': "hm_set h ?i (y + 1) = Some h'" "map_wf h'"
    "\<And>j. j < 256 \<Longrightarrow> level h' j = (if j = ?i then y + 1 else level h j)" by metis
  have "hm_update h x y z (cr_air (hs_registries source)) source = Some (Inr (h', True))"
    using pre yb air above h'(1) by (simp add: hm_update_def air_counts_def)
  moreover have "first_available h' x z = Some (Inr (y + 1))" using first_available_level h'(2,3) xz by simp
  moreover have "\<not> is_surface source (h_kind h) x z (y + 1)" using is_surface_unique [OF m(2)] above by auto
  ultimately show thesis by (rule that)
qed

end
