(* ===== verification/HeightMapStored.thy ===== *)
theory HeightMapStored
  imports HeightMapLaws
begin

text \<open>
  The stored set of heightmaps: all selected maps are primed together, one look at each state, and
  every one of them ends as if it had been primed alone. The properties of heightmaps close the theory.
\<close>

section \<open>Kinds as bits\<close>

lemma hm_id_less [simp]: "hm_id k < 6"
  by (cases k) simp_all

lemma hm_id_inj [simp]: "hm_id k = hm_id k' \<longleftrightarrow> k = k'"
  by (cases k; cases k') simp_all

lemma all_kinds [simp]: "k \<in> set ALL_KINDS" "distinct ALL_KINDS"
  by (cases k; simp add: ALL_KINDS_def) (simp add: ALL_KINDS_def)

lemma bit_hm_mask [simp]: "bit (hm_mask k) n \<longleftrightarrow> n = hm_id k"
proof -
  have "hm_id k < 8" using hm_id_less [of k] by linarith
  then show ?thesis by (auto simp: hm_mask_def bit_simps)
qed

lemma and_hm_mask: "m AND hm_mask k \<noteq> 0 \<longleftrightarrow> bit m (hm_id k)"
proof -
  have "m AND hm_mask k \<noteq> 0 \<longleftrightarrow> (\<exists>n. bit (m AND hm_mask k) n)" by (metis bit_0_eq bit_eqI bot_apply bot_bool_def)
  also have "\<dots> \<longleftrightarrow> bit m (hm_id k)" by (simp add: bit_and_iff)
  finally show ?thesis .
qed

section \<open>Priming together\<close>

definition maps_for :: "HeightmapSource \<Rightarrow> byte \<Rightarrow> Heightmap option list \<Rightarrow> bool" where
  "maps_for source u maps \<longleftrightarrow> length maps = 6 \<and>
    (\<forall>k. bit u (hm_id k) \<longrightarrow> (\<exists>h. maps ! hm_id k = Some h \<and> map_for source h \<and> h_kind h = k))"

lemma hm_set_map_for:
  assumes "map_for source h" "i < 256" "source_min_y source \<le> f" "f \<le> source_max_y source"
  obtains h' where "hm_set h i f = Some h'" "map_for source h'" "h_kind h' = h_kind h"
proof -
  have "map_wf h" "in_column h f" using assms map_for_in_column by (auto simp: map_for_def)
  from hm_set_level [OF this(1) assms(2) this(2)] obtain h' where "hm_set h i f = Some h'" "map_wf h'" "h_kind h' = h_kind h" "h_context h' = h_context h" by metis
  then show thesis using that assms(1) by (simp add: map_for_def)
qed

lemma set_found_ok:
  assumes "maps_for source found maps" "i < 256" "source_min_y source \<le> f" "f \<le> source_max_y source" "distinct kinds"
  obtains maps' where "set_found found i f kinds maps = Some maps'" "length maps' = 6"
    "\<And>k. maps' ! hm_id k = (if k \<in> set kinds \<and> bit found (hm_id k) then Option.bind (maps ! hm_id k) (\<lambda>h. hm_set h i f) else maps ! hm_id k)"
  using assms(1,5)
proof (induction kinds arbitrary: maps thesis)
  case Nil
  then show ?case by (simp add: maps_for_def)
next
  case (Cons k kinds)
  show ?case
  proof (cases "bit found (hm_id k)")
    case True
    then obtain h where h: "maps ! hm_id k = Some h" "map_for source h" "h_kind h = k" using Cons(3) by (auto simp: maps_for_def)
    obtain h' where h': "hm_set h i f = Some h'" "map_for source h'" "h_kind h' = k" using hm_set_map_for [OF h(2) assms(2-4)] h(3) by metis
    let ?maps = "maps[hm_id k := Some h']"
    have len: "length maps = 6" using Cons(3) by (simp add: maps_for_def)
    have "maps_for source found ?maps" using Cons(3) h' len by (auto simp: maps_for_def nth_list_update)
    from Cons(1) [OF _ this] Cons(4) obtain maps' where m: "set_found found i f kinds ?maps = Some maps'" "length maps' = 6"
      "\<And>k. maps' ! hm_id k = (if k \<in> set kinds \<and> bit found (hm_id k) then Option.bind (?maps ! hm_id k) (\<lambda>h. hm_set h i f) else ?maps ! hm_id k)"
      by (metis distinct.simps(2))
    show ?thesis
    proof (rule Cons(2) [of maps'])
      show "set_found found i f (k # kinds) maps = Some maps'" using True h h' m(1) by (simp add: and_hm_mask)
      show "maps' ! hm_id j = (if j \<in> set (k # kinds) \<and> bit found (hm_id j) then Option.bind (maps ! hm_id j) (\<lambda>h. hm_set h i f) else maps ! hm_id j)" for j
        using m(3) [of j] True h h' Cons(4) len by (cases "j = k") simp_all
    qed (rule m(2))
  next
    case False
    have "distinct kinds" using Cons(4) by simp
    from Cons(1) [OF _ Cons(3) this] obtain maps' where m: "set_found found i f kinds maps = Some maps'" "length maps' = 6"
      "\<And>k. maps' ! hm_id k = (if k \<in> set kinds \<and> bit found (hm_id k) then Option.bind (maps ! hm_id k) (\<lambda>h. hm_set h i f) else maps ! hm_id k)" by metis
    show ?thesis by (rule Cons(2) [of maps']) (use m False in \<open>auto simp: and_hm_mask\<close>)
  qed
qed

definition col_step :: "HeightmapSource \<Rightarrow> nat \<Rightarrow> int list \<Rightarrow> HeightmapKind \<Rightarrow> Heightmap option \<Rightarrow> Heightmap option" where
  "col_step source i ys k mh =
    (case find_first (prime_test source k (i mod 16) (i div 16)) ys of
       Some (Some y) \<Rightarrow> Option.bind mh (\<lambda>h. hm_set h i (y + 1))
     | _ \<Rightarrow> mh)"

lemma joint_column_ok:
  assumes "source_ok source" "i < 256" "maps_for source u maps" "\<forall>y \<in> set ys. in_build source y"
  obtains maps' where "joint_column source i ys u maps = Some maps'" "length maps' = 6"
    "\<And>k. maps' ! hm_id k = (if bit u (hm_id k) then col_step source i ys k (maps ! hm_id k) else maps ! hm_id k)"
  using assms(3,4)
proof (induction ys arbitrary: u maps thesis)
  case Nil
  then show ?case by (simp add: maps_for_def col_step_def)
next
  case (Cons y ys)
  have i: "i mod 16 < 16" "i div 16 < 16" using assms(2) less_mult_imp_div_less [of i 16 16] by simp_all
  have y: "in_build source y" and rest: "\<forall>y \<in> set ys. in_build source y" using Cons(4) by simp_all
  obtain s where s: "source_state source (i mod 16) y (i div 16) = Some s" "known_id (hs_registries source) s"
    by (rule source_state_known [OF assms(1) i y])
  obtain m where m: "heightmap_mask (hs_registries source) s = Some m" using s(2) heightmap_mask_known by blast
  show ?case
  proof (cases "s = cr_air (hs_registries source)")
    case True
    then have "prime_test source k (i mod 16) (i div 16) y = Some False" for k using s by (simp add: prime_test_def)
    then have "col_step source i (y # ys) k mh = col_step source i ys k mh" for k mh by (simp add: col_step_def)
    moreover obtain maps' where "joint_column source i ys u maps = Some maps'" "length maps' = 6"
      "\<And>k. maps' ! hm_id k = (if bit u (hm_id k) then col_step source i ys k (maps ! hm_id k) else maps ! hm_id k)"
      using Cons(1) [OF _ Cons(3) rest] by metis
    ultimately show ?thesis using True s by (intro Cons(2) [of maps']) simp_all
  next
    case False
    then have test: "prime_test source k (i mod 16) (i div 16) y = Some (bit m (hm_id k))" for k
      using s m by (simp add: prime_test_def source_opaque_def and_hm_mask)
    let ?found = "m AND u"
    let ?u = "u AND NOT ?found"
    have bits: "bit ?found (hm_id k) \<longleftrightarrow> bit m (hm_id k) \<and> bit u (hm_id k)" "bit ?u (hm_id k) \<longleftrightarrow> bit u (hm_id k) \<and> \<not> bit m (hm_id k)" for k
      using hm_id_less [of k] less_trans [of "hm_id k" 6 8] by (auto simp: bit_simps)
    have "maps_for source ?found maps" using Cons(3) bits by (simp add: maps_for_def)
    from set_found_ok [OF this assms(2), of "y + 1" ALL_KINDS] y obtain maps1 where m1: "set_found ?found i (y + 1) ALL_KINDS maps = Some maps1" "length maps1 = 6"
      "\<And>k. maps1 ! hm_id k = (if bit ?found (hm_id k) then Option.bind (maps ! hm_id k) (\<lambda>h. hm_set h i (y + 1)) else maps ! hm_id k)"
      by (auto simp: in_build_def)
    have go: "joint_column source i (y # ys) u maps = (if ?u = 0 then Some maps1 else joint_column source i ys ?u maps1)"
      using s m False m1(1) by (simp add: Let_def)
    have for1: "maps_for source ?u maps1" using Cons(3) m1(2,3) bits by (auto simp: maps_for_def)
    have step: "col_step source i (y # ys) k mh = (if bit m (hm_id k) then Option.bind mh (\<lambda>h. hm_set h i (y + 1)) else col_step source i ys k mh)" for k mh
      using test by (simp add: col_step_def)
    show ?thesis
    proof (cases "?u = 0")
      case True
      then have "\<not> bit ?u (hm_id k)" for k by simp
      then have "bit u (hm_id k) \<Longrightarrow> bit m (hm_id k)" for k using bits by blast
      then show ?thesis using Cons(2) [of maps1] go True m1 bits step by auto
    next
      case False
      obtain maps' where m': "joint_column source i ys ?u maps1 = Some maps'" "length maps' = 6"
        "\<And>k. maps' ! hm_id k = (if bit ?u (hm_id k) then col_step source i ys k (maps1 ! hm_id k) else maps1 ! hm_id k)"
        using Cons(1) [OF _ for1 rest] by metis
      show ?thesis
        by (rule Cons(2) [of maps']) (use go False m' m1(3) bits step in auto)
    qed
  qed
qed

lemma prime_heights_in_build: "source_ok source \<Longrightarrow> \<forall>y \<in> set (prime_heights source). in_build source y"
  by (auto simp: prime_heights_def in_build_def source_ok_def source_min_y_def source_max_y_def)

lemma col_step_prime:
  assumes "source_ok source" "i < 256" "map_for source h"
  obtains h1 where "col_step source i (prime_heights source) (h_kind h) (Some h) = Some h1" "map_for source h1" "h_kind h1 = h_kind h"
    "prime_columns source (i # idxs) h = prime_columns source idxs h1"
proof -
  have i: "i mod 16 < 16" "i div 16 < 16" using assms(2) less_mult_imp_div_less [of i 16 16] by simp_all
  obtain r where r: "find_first (prime_test source (h_kind h) (i mod 16) (i div 16)) (prime_heights source) = Some r"
    "\<And>y. r = Some y \<Longrightarrow> in_build source y" using prime_heights_surface [OF assms(1) i] by metis
  show thesis
  proof (cases r)
    case None
    then show thesis using r(1) assms(3) by (intro that [of h]) (simp_all add: col_step_def)
  next
    case (Some y)
    then obtain h1 where "hm_set h i (y + 1) = Some h1" "map_for source h1" "h_kind h1 = h_kind h"
      using hm_set_map_for [OF assms(3,2), of "y + 1"] r(2) by (auto simp: in_build_def)
    then show thesis using Some r(1) by (intro that [of h1]) (simp_all add: col_step_def)
  qed
qed

lemma joint_prime_ok:
  assumes "source_ok source" "maps_for source p maps" "\<forall>i \<in> set idxs. i < 256"
  obtains maps' where "joint_prime source p idxs maps = Some maps'" "length maps' = 6"
    "\<And>k. maps' ! hm_id k = (if bit p (hm_id k) then Option.bind (maps ! hm_id k) (prime_columns source idxs) else maps ! hm_id k)"
  using assms(2,3)
proof (induction idxs arbitrary: maps thesis)
  case Nil
  then show ?case by (auto simp: maps_for_def bind_eq_Some_conv split: bind_splits)
next
  case (Cons i idxs)
  show ?case
  proof (cases "p = 0")
    case True
    then show ?thesis using Cons(2,3) by (auto simp: maps_for_def)
  next
    case False
    have i: "i < 256" and rest: "\<forall>i \<in> set idxs. i < 256" using Cons(4) by simp_all
    obtain maps1 where m1: "joint_column source i (prime_heights source) p maps = Some maps1" "length maps1 = 6"
      "\<And>k. maps1 ! hm_id k = (if bit p (hm_id k) then col_step source i (prime_heights source) k (maps ! hm_id k) else maps ! hm_id k)"
      using joint_column_ok [OF assms(1) i Cons(3) prime_heights_in_build [OF assms(1)]] by metis
    have each: "\<exists>h h1. maps ! hm_id k = Some h \<and> maps1 ! hm_id k = Some h1 \<and> map_for source h1 \<and> h_kind h1 = k \<and>
        prime_columns source (i # idxs) h = prime_columns source idxs h1" if b: "bit p (hm_id k)" for k
    proof -
      obtain h where h: "maps ! hm_id k = Some h" "map_for source h" "h_kind h = k" using Cons(3) b by (auto simp: maps_for_def)
      obtain h1 where "col_step source i (prime_heights source) (h_kind h) (Some h) = Some h1" "map_for source h1" "h_kind h1 = h_kind h"
        "prime_columns source (i # idxs) h = prime_columns source idxs h1" by (rule col_step_prime [OF assms(1) i h(2)])
      then show ?thesis using h m1(3) [of k] b by auto
    qed
    then have "maps_for source p maps1" using m1(2) by (auto simp: maps_for_def)
    from Cons(1) [OF _ this rest] obtain maps' where m': "joint_prime source p idxs maps1 = Some maps'" "length maps' = 6"
      "\<And>k. maps' ! hm_id k = (if bit p (hm_id k) then Option.bind (maps1 ! hm_id k) (prime_columns source idxs) else maps1 ! hm_id k)" by metis
    show ?thesis
    proof (rule Cons(2) [of maps'])
      show "joint_prime source p (i # idxs) maps = Some maps'" using False m1(1) m'(1) by simp
      show "maps' ! hm_id k = (if bit p (hm_id k) then Option.bind (maps ! hm_id k) (prime_columns source (i # idxs)) else maps ! hm_id k)" for k
      proof (cases "bit p (hm_id k)")
        case True
        from each [OF True] obtain h h1 where "maps ! hm_id k = Some h" "maps1 ! hm_id k = Some h1" "prime_columns source (i # idxs) h = prime_columns source idxs h1" by blast
        then show ?thesis using True m'(3) [of k] by (simp del: prime_columns.simps)
      qed (use m'(3) m1(3) in simp)
    qed (rule m'(2))
  qed
qed

section \<open>Making the maps\<close>

abbreviation map_bytes :: "Heightmap option list \<Rightarrow> HeightmapKind list \<Rightarrow> nat" where
  "map_bytes maps kinds \<equiv> sum_list (map (\<lambda>k. case maps ! hm_id k of None \<Rightarrow> 0 | Some h \<Rightarrow> hm_heap_bytes h) kinds)"

definition fits :: "HeightmapSource \<Rightarrow> compound \<Rightarrow> HeightmapKind \<Rightarrow> bool" where
  "fits source root k \<longleftrightarrow> (case stored_array root k of Some raw \<Rightarrow> length raw = hm_word_count (height_bits (source_height source)) | None \<Rightarrow> False)"

text \<open>What the loop leaves for one selected kind.\<close>

definition made :: "HeightmapSource \<Rightarrow> compound \<Rightarrow> HeightmapKind \<Rightarrow> Heightmap option \<Rightarrow> HeightmapOrigin option \<Rightarrow> bool \<Rightarrow> bool" where
  "made source root k mh origin to_prime \<longleftrightarrow>
    (\<exists>h. mh = Some h \<and> map_for source h \<and> h_kind h = k \<and> to_prime = (\<not> fits source root k) \<and>
      (if fits source root k then h_words h = the (stored_array root k) else \<forall>i < 256. level h i = source_min_y source) \<and>
      origin = Some (if fits source root k then OriginRestored else if stored_array root k \<noteq> None then OriginReprimed else MissingPrimed))"

text \<open>The set, the budget and the mask after one kind.\<close>

definition make_one :: "HeightmapSource \<Rightarrow> compound \<Rightarrow> HeightmapKind \<Rightarrow> Heightmap \<Rightarrow> HeightmapSet \<times> nat \<times> byte \<Rightarrow> HeightmapSet \<times> nat \<times> byte" where
  "make_one source root k h state =
    (case state of (result, remaining, p) \<Rightarrow>
      let put = (\<lambda>h origin. result\<lparr>hset_maps := (hset_maps result)[hm_id k := Some h], hset_origins := (hset_origins result)[hm_id k := Some origin]\<rparr>) in
      if fits source root k then (put (h\<lparr>h_words := the (stored_array root k)\<rparr>) OriginRestored, remaining - hm_heap_bytes h, p)
      else (put h (if stored_array root k \<noteq> None then OriginReprimed else MissingPrimed), remaining - hm_heap_bytes h, p OR hm_mask k))"

lemma make_maps_step:
  assumes "source_ok source" "bit selected (hm_id k)" "hm_new env k source remaining = Inr h"
  shows "make_maps env source root selected (k # kinds) (result, remaining, p) = make_maps env source root selected kinds (make_one source root k h (result, remaining, p))"
proof -
  have len: "length (h_words h) = hm_word_count (height_bits (source_height source))"
    using hm_new_ok [OF assms(3)] assms(1) by (auto simp: map_wf_def source_ok_def source_height_def)
  have "hm_heap_bytes h \<le> remaining" using hm_new_ok [OF assms(3)] assms(1) by (simp add: source_ok_def)
  moreover have "selected AND hm_mask k \<noteq> 0" using assms(2) by (simp add: and_hm_mask)
  ultimately show ?thesis using assms(3) len by (auto simp: make_one_def fits_def checked_sub_def Let_def split: option.splits)
qed

lemma make_one_made:
  assumes ok: "source_ok source" and new: "hm_new env k source remaining = Inr h"
    and len: "length (hset_maps result) = 6" "length (hset_origins result) = 6" and p: "\<not> bit p (hm_id k)" "hset_maps result ! hm_id k = None"
    and one: "make_one source root k h (result, remaining, p) = (result', remaining', p')"
  shows "length (hset_maps result') = 6" "length (hset_origins result') = 6"
    "made source root k (hset_maps result' ! hm_id k) (hset_origins result' ! hm_id k) (bit p' (hm_id k))"
    "\<And>j. j \<noteq> k \<Longrightarrow> hset_maps result' ! hm_id j = hset_maps result ! hm_id j \<and> hset_origins result' ! hm_id j = hset_origins result ! hm_id j \<and>
      bit p' (hm_id j) = bit p (hm_id j)"
    "remaining' = remaining - hm_heap_bytes h" "hm_heap_bytes h \<le> remaining"
    "(case hset_maps result' ! hm_id k of None \<Rightarrow> 0 | Some h \<Rightarrow> hm_heap_bytes h) = hm_heap_bytes h"
proof -
  note n = hm_new_ok [OF new]
  have ho: "height_ok (source_height source)" using ok by (simp add: source_ok_def)
  have h: "map_for source h" "h_kind h = k" "\<forall>i < 256. level h i = source_min_y source"
    using n [OF ho] by (auto simp: map_for_def map_for_min_y source_min_y_def hm_min_y_def source_height_def)
  have raw: "map_for source (h\<lparr>h_words := the (stored_array root k)\<rparr>)" if "fits source root k"
    using that h(1) by (auto simp: map_for_def map_wf_def fits_def source_height_def split: option.splits)
  show "length (hset_maps result') = 6" "length (hset_origins result') = 6" "remaining' = remaining - hm_heap_bytes h"
    using one len by (auto simp: make_one_def Let_def split: if_splits)
  show "hm_heap_bytes h \<le> remaining" using n ho by simp
  show "(case hset_maps result' ! hm_id k of None \<Rightarrow> 0 | Some h \<Rightarrow> hm_heap_bytes h) = hm_heap_bytes h"
    using one len by (auto simp: make_one_def hm_heap_bytes_def Let_def split: if_splits)
  show "made source root k (hset_maps result' ! hm_id k) (hset_origins result' ! hm_id k) (bit p' (hm_id k))"
  proof (cases "fits source root k")
    case True
    then show ?thesis using one len p raw h by (auto simp: make_one_def made_def Let_def)
  next
    case False
    then show ?thesis using one len p h by (auto simp: make_one_def made_def Let_def bit_or_iff)
  qed
  show "hset_maps result' ! hm_id j = hset_maps result ! hm_id j \<and> hset_origins result' ! hm_id j = hset_origins result ! hm_id j \<and>
      bit p' (hm_id j) = bit p (hm_id j)" if "j \<noteq> k" for j
    using one that by (auto simp: make_one_def Let_def bit_or_iff nth_list_update split: if_splits)
qed

definition exact_allocator :: "alloc_env \<Rightarrow> bool" where
  "exact_allocator env \<longleftrightarrow> (\<forall>w n. try_reserve_exact env w n = Some n)"

lemma hm_new_error:
  assumes "hm_new env k source limit = Inl e"
  shows "(e = HmAllocationLimit \<or> e = HmAllocationFailed) \<and> \<not> (exact_allocator env \<and> required_bytes (source_height source) \<le> limit)"
proof -
  have "exact_allocator env \<and> required_bytes (source_height source) \<le> limit \<Longrightarrow> hm_new env k source limit \<noteq> Inl e"
    by (simp add: hm_new_def exact_allocator_def required_bytes_def Let_def)
  moreover have "e = HmAllocationLimit \<or> e = HmAllocationFailed"
    using assms by (auto simp: hm_new_def Let_def result_simps split: if_splits)
  ultimately show ?thesis using assms by blast
qed

lemma hm_new_exact: "hm_new env k source limit = Inr h \<Longrightarrow> exact_allocator env \<Longrightarrow> hm_heap_bytes h = required_bytes (source_height source)"
  by (auto simp: hm_new_def exact_allocator_def required_bytes_def hm_heap_bytes_def Let_def split: if_splits)

lemma make_maps_ok:
  assumes "source_ok source" "distinct kinds" "length (hset_maps result) = 6" "length (hset_origins result) = 6"
    "\<forall>k \<in> set kinds. hset_maps result ! hm_id k = None \<and> \<not> bit p (hm_id k)"
  shows "case make_maps env source root selected kinds (result, remaining, p) of
      None \<Rightarrow> False
    | Some (Inl e) \<Rightarrow> (e = HmAllocationLimit \<or> e = HmAllocationFailed) \<and>
        \<not> (exact_allocator env \<and> required_bytes (source_height source) * length (filter (\<lambda>k. bit selected (hm_id k)) kinds) \<le> remaining)
    | Some (Inr (result', remaining', p')) \<Rightarrow>
        length (hset_maps result') = 6 \<and> length (hset_origins result') = 6 \<and> remaining' + map_bytes (hset_maps result') kinds = remaining \<and>
        (\<forall>k. if k \<in> set kinds \<and> bit selected (hm_id k)
          then made source root k (hset_maps result' ! hm_id k) (hset_origins result' ! hm_id k) (bit p' (hm_id k))
          else hset_maps result' ! hm_id k = hset_maps result ! hm_id k \<and> hset_origins result' ! hm_id k = hset_origins result ! hm_id k \<and>
            bit p' (hm_id k) = bit p (hm_id k))"
  using assms(2-5)
proof (induction kinds arbitrary: result remaining p)
  case (Cons k kinds)
  note IH = Cons(1) and kinds = Cons(2) and len = Cons(3,4) and fresh = Cons(5)
  show ?case
  proof (cases "bit selected (hm_id k)")
    case False
    then have "make_maps env source root selected (k # kinds) (result, remaining, p) = make_maps env source root selected kinds (result, remaining, p)"
      using and_hm_mask [of selected k] by simp
    then show ?thesis using IH [OF _ len, of p remaining] kinds fresh False by (auto split: option.splits sum.splits prod.splits)
  next
    case True
    show ?thesis
    proof (cases "hm_new env k source remaining")
      case (Inl e)
      have "make_maps env source root selected (k # kinds) (result, remaining, p) = Some (Inl e)" using True Inl and_hm_mask [of selected k] by simp
      then show ?thesis using hm_new_error [OF Inl] True by (auto simp: mult_le_mono)
    next
      case (Inr h)
      obtain result1 remaining1 p1 where one: "make_one source root k h (result, remaining, p) = (result1, remaining1, p1)" using prod_cases3 by blast
      have p: "\<not> bit p (hm_id k)" "hset_maps result ! hm_id k = None" using fresh by simp_all
      note m = make_one_made [OF assms(1) Inr len p one]
      have fresh1: "\<forall>j \<in> set kinds. hset_maps result1 ! hm_id j = None \<and> \<not> bit p1 (hm_id j)"
        using m(4) fresh kinds by (metis distinct.simps(2) list.set_intros(2))
      have go: "make_maps env source root selected (k # kinds) (result, remaining, p) = make_maps env source root selected kinds (result1, remaining1, p1)"
        using make_maps_step [OF assms(1) True Inr] one by simp
      have rest: "distinct kinds" "k \<notin> set kinds" using kinds by simp_all
      note ih = IH [OF rest(1) m(1,2) fresh1, of remaining1]
      show ?thesis
      proof (cases "make_maps env source root selected kinds (result1, remaining1, p1)")
        case None
        then show ?thesis using ih by simp
      next
        case (Some r)
        show ?thesis
        proof (cases r)
          case (Inl e)
          have "\<not> (exact_allocator env \<and> required_bytes (source_height source) * length (filter (\<lambda>k. bit selected (hm_id k)) (k # kinds)) \<le> remaining)"
            using ih Some Inl hm_new_exact [OF \<open>hm_new env k source remaining = Inr h\<close>] m(5,6) True by auto
          then show ?thesis using ih Some Inl go by simp
        next
          case (Inr t)
          obtain result' remaining' p' where t: "t = (result', remaining', p')" using prod_cases3 by blast
          note ih' = ih [unfolded Some Inr t, simplified]
          have atk: "hset_maps result' ! hm_id k = hset_maps result1 ! hm_id k" "hset_origins result' ! hm_id k = hset_origins result1 ! hm_id k" "bit p' (hm_id k) = bit p1 (hm_id k)"
            using ih' rest(2) by auto
          have "remaining' + map_bytes (hset_maps result') kinds = remaining1" using ih' by simp
          then have bytes: "remaining' + map_bytes (hset_maps result') (k # kinds) = remaining" using m(5,6,7) atk(1) by simp
          have each: "if j \<in> set (k # kinds) \<and> bit selected (hm_id j)
            then made source root j (hset_maps result' ! hm_id j) (hset_origins result' ! hm_id j) (bit p' (hm_id j))
            else hset_maps result' ! hm_id j = hset_maps result ! hm_id j \<and> hset_origins result' ! hm_id j = hset_origins result ! hm_id j \<and>
              bit p' (hm_id j) = bit p (hm_id j)" for j
          proof (cases "j = k")
            case False
            then show ?thesis using conjunct2 [OF conjunct2 [OF conjunct2 [OF ih']], THEN spec, of j] m(4) [of j] by simp
          qed (use atk m(3) True in simp)
          show ?thesis unfolding go Some Inr t using ih' bytes each by (simp only: option.case sum.case prod.case) blast
        qed
      qed
    qed
  qed
qed simp

section \<open>The stored set\<close>

lemma bit_fold_mask:
  "bit (fold (\<lambda>kind selected. if P kind then selected OR hm_mask kind else selected) kinds m) (hm_id k) \<longleftrightarrow> bit m (hm_id k) \<or> k \<in> set kinds \<and> P k"
  by (induction kinds arbitrary: m) (auto simp: bit_or_iff)

lemma bit_selected: "bit (selected_mask root status) (hm_id k) \<longleftrightarrow> bit (required_mask status) (hm_id k) \<or> stored_array root k \<noteq> None"
  unfolding selected_mask_def bit_fold_mask by simp

lemma selected_kinds_count: "length (filter (\<lambda>k. bit b (hm_id k)) ALL_KINDS) \<le> count_ones b"
proof -
  have "length (filter (\<lambda>k. bit b (hm_id k)) ALL_KINDS) = length (filter (bit b) (map hm_id ALL_KINDS))" by (simp add: filter_map comp_def)
  moreover have "map hm_id ALL_KINDS = [0..<6]" by (simp add: ALL_KINDS_def upt_rec)
  moreover have "[0..<8] = [0..<6] @ [6..<8]" using upt_add_eq_append [of 0 6 2] by simp
  ultimately show ?thesis by (simp add: count_ones_def)
qed

lemma set_heap_bytes_eq:
  assumes "length (hset_maps s) = 6"
  shows "set_heap_bytes s = map_bytes (hset_maps s) ALL_KINDS"
proof -
  obtain a b c d e f where "hset_maps s = [a, b, c, d, e, f]"
    using assms by (auto simp: numeral_eq_Suc length_Suc_conv)
  then show ?thesis
    by (cases a; cases b; cases c; cases d; cases e; cases f) (simp_all add: set_heap_bytes_def ALL_KINDS_def List.map_filter_def)
qed

text \<open>What the set holds for one kind.\<close>

definition stored_map :: "HeightmapSource \<Rightarrow> compound \<Rightarrow> ChunkStatus \<Rightarrow> HeightmapKind \<Rightarrow> Heightmap option \<Rightarrow> HeightmapOrigin option \<Rightarrow> bool" where
  "stored_map source root status k mh origin \<longleftrightarrow>
    (case stored_array root k of
       Some raw \<Rightarrow> (\<exists>h. mh = Some h \<and> h_kind h = k \<and>
         (if length raw = hm_word_count (height_bits (source_height source)) then h_words h = raw \<and> origin = Some OriginRestored
          else map_exact source h \<and> origin = Some OriginReprimed))
     | None \<Rightarrow>
         if bit (required_mask status) (hm_id k) then \<exists>h. mh = Some h \<and> h_kind h = k \<and> map_exact source h \<and> origin = Some MissingPrimed
         else mh = None \<and> origin = None)"

lemma from_stored_ok:
  assumes ok: "source_ok source"
  shows "case from_stored env source root status limit of
      None \<Rightarrow> False
    | Some (Inl e) \<Rightarrow> (e = HmAllocationLimit \<or> e = HmAllocationFailed) \<and>
        \<not> (exact_allocator env \<and> required_bytes (source_height source) * count_ones (selected_mask root status) \<le> limit)
    | Some (Inr s) \<Rightarrow> set_heap_bytes s \<le> limit \<and> (\<forall>k. stored_map source root status k (set_get s k) (set_origin s k))"
proof -
  let ?sel = "selected_mask root status" and ?empty = "\<lparr>hset_maps = replicate 6 None, hset_origins = replicate 6 None\<rparr>"
  let ?fits = "required_bytes (source_height source) * count_ones ?sel \<le> limit"
  have made: "case make_maps env source root ?sel ALL_KINDS (?empty, limit, 0) of
      None \<Rightarrow> False
    | Some (Inl e) \<Rightarrow> (e = HmAllocationLimit \<or> e = HmAllocationFailed) \<and>
        \<not> (exact_allocator env \<and> required_bytes (source_height source) * length (filter (\<lambda>k. bit ?sel (hm_id k)) ALL_KINDS) \<le> limit)
    | Some (Inr (result', remaining', p')) \<Rightarrow>
        length (hset_maps result') = 6 \<and> length (hset_origins result') = 6 \<and> remaining' + map_bytes (hset_maps result') ALL_KINDS = limit \<and>
        (\<forall>k. if k \<in> set ALL_KINDS \<and> bit ?sel (hm_id k)
          then made source root k (hset_maps result' ! hm_id k) (hset_origins result' ! hm_id k) (bit p' (hm_id k))
          else hset_maps result' ! hm_id k = hset_maps ?empty ! hm_id k \<and> hset_origins result' ! hm_id k = hset_origins ?empty ! hm_id k \<and>
            bit p' (hm_id k) = bit (0 :: byte) (hm_id k))"
    by (rule make_maps_ok [OF ok]) simp_all
  have le: "?fits \<Longrightarrow> required_bytes (source_height source) * length (filter (\<lambda>k. bit ?sel (hm_id k)) ALL_KINDS) \<le> limit"
    using mult_le_mono2 [OF selected_kinds_count] order_trans by blast
  show ?thesis
  proof (cases ?fits)
    case False
    then show ?thesis by (simp add: from_stored_def Let_def)
  next
    case True
    consider (err) e where "make_maps env source root ?sel ALL_KINDS (?empty, limit, 0) = Some (Inl e)"
      | (finished) result' remaining' p' where "make_maps env source root ?sel ALL_KINDS (?empty, limit, 0) = Some (Inr (result', remaining', p'))"
      using made by (cases "make_maps env source root ?sel ALL_KINDS (?empty, limit, 0)") (auto split: sum.splits prod.splits)
    then show ?thesis
    proof cases
      case err
      then show ?thesis using made True le by (auto simp: from_stored_def Let_def)
    next
      case (finished result' remaining' p')
      note m = made [unfolded finished, simplified]
      have each: "if bit ?sel (hm_id k) then made source root k (hset_maps result' ! hm_id k) (hset_origins result' ! hm_id k) (bit p' (hm_id k))
        else hset_maps result' ! hm_id k = None \<and> hset_origins result' ! hm_id k = None \<and> \<not> bit p' (hm_id k)" for k
        using m by auto
      then have "maps_for source p' (hset_maps result')" using m unfolding maps_for_def made_def by (metis (no_types, lifting))
      then obtain maps where j: "joint_prime source p' [0..<COLUMNS] (hset_maps result') = Some maps" "length maps = 6"
        "\<And>k. maps ! hm_id k = (if bit p' (hm_id k) then Option.bind (hset_maps result' ! hm_id k) (prime_columns source [0..<COLUMNS]) else hset_maps result' ! hm_id k)"
        using joint_prime_ok [OF ok, of p' "hset_maps result'" "[0..<COLUMNS]"] by (metis COLUMNS_def atLeastLessThan_iff set_upt)
      let ?s = "result'\<lparr>hset_maps := maps\<rparr>"
      have res: "from_stored env source root status limit = Some (Inr ?s)" using True finished j(1) by (simp add: from_stored_def Let_def)
      have kind: "stored_map source root status k (maps ! hm_id k) (hset_origins result' ! hm_id k) \<and>
        (case maps ! hm_id k of None \<Rightarrow> 0 | Some h \<Rightarrow> hm_heap_bytes h) = (case hset_maps result' ! hm_id k of None \<Rightarrow> 0 | Some h \<Rightarrow> hm_heap_bytes h)" for k
      proof (cases "bit ?sel (hm_id k)")
        case False
        then show ?thesis using each [of k] j(3) [of k] bit_selected [of root status k] by (auto simp: stored_map_def)
      next
        case True
        then obtain h where h: "hset_maps result' ! hm_id k = Some h" "map_for source h" "h_kind h = k" "bit p' (hm_id k) = (\<not> fits source root k)"
          "if fits source root k then h_words h = the (stored_array root k) else \<forall>i < 256. level h i = source_min_y source"
          "hset_origins result' ! hm_id k = Some (if fits source root k then OriginRestored else if stored_array root k \<noteq> None then OriginReprimed else MissingPrimed)"
          using each [of k] by (auto simp: made_def)
        show ?thesis
        proof (cases "fits source root k")
          case True
          then show ?thesis using h j(3) [of k] by (auto simp: stored_map_def fits_def split: option.splits)
        next
          case False
          then obtain h' where "prime_columns source [0..<COLUMNS] h = Some h'" "map_exact source h'" "h_kind h' = h_kind h" "h_capacity h' = h_capacity h"
            using prime_new_exact [OF ok h(2)] h(5) by metis
          then show ?thesis using False h j(3) [of k] True bit_selected [of root status k]
            by (auto simp: stored_map_def fits_def hm_heap_bytes_def split: option.splits)
        qed
      qed
      have "map_bytes maps ALL_KINDS = map_bytes (hset_maps result') ALL_KINDS" using kind by simp
      then have "set_heap_bytes ?s \<le> limit" using m set_heap_bytes_eq [of ?s] j(2) by simp
      then show ?thesis unfolding res using kind by (simp add: set_get_def set_origin_def)
    qed
  qed
qed

section \<open>Properties\<close>

text \<open>
  C12: A new heightmap that is primed from a checked snapshot of sections holds, in every column, the first
  height above the highest block its kind counts, looked for over the whole build height although
  priming starts at the highest section with blocks. Priming does not panic.
\<close>

theorem heightmap_primed_exact:
  assumes "height_new min_y height_blocks = Inr height" "known_id r (cr_air r)" "from_sections r height secs = Inr source"
    "hm_new env kind source limit = Inr h"
  shows "\<exists>h'. prime h source = Some (Inr h') \<and>
    (\<forall>x < 16. \<forall>z < 16. \<exists>first. first_available h' x z = Some (Inr first) \<and> is_surface source kind x z first)"
proof -
  have ok: "source_ok source" by (rule from_sections_ok(1) [OF assms(3) height_new_ok [OF assms(1)] assms(2)])
  then have ho: "height_ok (source_height source)" by (simp add: source_ok_def)
  note n = hm_new_ok [OF assms(4) ho]
  have h: "map_for source h" using n by (simp add: map_for_def)
  obtain h' where h': "prime_columns source [0..<COLUMNS] h = Some h'" "map_exact source h'" "h_kind h' = h_kind h"
    using prime_new_exact [OF ok h] n(5) map_for_min_y [OF h] by metis
  have "prime h source = Some (Inr h')" using n(3) h'(1) by (simp add: prime_def check_context_def)
  moreover have "map_wf h'" "\<forall>x < 16. \<forall>z < 16. is_surface source kind x z (level h' (x + 16 * z))"
    using h'(2,3) n(2) by (simp_all add: map_exact_def map_for_def)
  ultimately show ?thesis using first_available_level by metis
qed

definition sample_registry :: ChunkRegistrySnapshot where
  "sample_registry = \<lparr>cr_state_flags = [1, 12], cr_air = 0, cr_manifest_sha256 = [], cr_configuration_sha256 = []\<rparr>"

definition sample_height :: DimensionHeight where
  "sample_height = \<lparr>dh_min_section = 0, dh_max_section = 0\<rparr>"

lemma sample_facts:
  "height_new 0 16 = Inr sample_height" "known_id sample_registry (cr_air sample_registry)"
  "from_sections sample_registry sample_height [None] = Inr (source_empty sample_registry sample_height)"
  "height_bits sample_height = 5" "hm_word_count 5 = 22"
  by (simp_all add: height_new_def sample_height_def known_id_def sample_registry_def from_sections_def hm_section_count_def height_bits_def
      leading_zeros_def bit_len.simps hm_word_count_def COLUMNS_def div_ceil_def)

theorem heightmap_primed_exact_witness:
  "\<exists>h h'. hm_new plain_env WorldSurface (source_empty sample_registry sample_height) 1000 = Inr h \<and>
    prime h (source_empty sample_registry sample_height) = Some (Inr h') \<and>
    (\<forall>x < 16. \<forall>z < 16. \<exists>first. first_available h' x z = Some (Inr first) \<and> is_surface (source_empty sample_registry sample_height) WorldSurface x z first)"
proof -
  have "source_height (source_empty sample_registry sample_height) = sample_height" by (simp add: source_height_def source_empty_def)
  then obtain h where h: "hm_new plain_env WorldSurface (source_empty sample_registry sample_height) 1000 = Inr h"
    by (simp add: hm_new_def sample_facts Let_def plain_env_def)
  then show ?thesis using heightmap_primed_exact [OF sample_facts(1-3) h] by blast
qed

text \<open>
  C8: After one block of a chunk has changed, updating a map with the new state does not panic. If the
  map held in every column the first height above the highest cell that counts by the mask of the
  registry (air included, the test an update makes), it does so afterwards, and the update reports a
  change if and only if the height of the column has changed. Where the literal air does not count for
  the kind, this is also what priming from scratch gives; priming skips literal air, so for a registry
  that counts air the two differ.
\<close>

theorem heightmap_update_exact:
  assumes "map_by_mask before h" "source_ok source" "hs_context source = hs_context before"
    "x < 16" "z < 16" "in_build source y"
    "source_opaque source (h_kind h) state = opaque_at source (h_kind h) x z y"
    "\<And>x' y' z'. x' < 16 \<Longrightarrow> z' < 16 \<Longrightarrow> in_build source y' \<Longrightarrow> (x', y', z') \<noteq> (x, y, z) \<Longrightarrow>
      opaque_at source (h_kind h) x' z' y' = opaque_at before (h_kind h) x' z' y'"
  shows "\<exists>h' changed. hm_update h x y z state source = Some (Inr (h', changed)) \<and> h_kind h' = h_kind h \<and>
    map_by_mask source h' \<and> (changed \<longleftrightarrow> first_available h' x z \<noteq> first_available h x z) \<and>
    (\<not> air_counts source (h_kind h) \<longrightarrow> map_exact source h')"
proof -
  let ?f = "level h (x + 16 * z)"
  have dims: "source_min_y source = source_min_y before" "source_max_y source = source_max_y before"
    using assms(3) by (simp_all add: source_min_y_def source_max_y_def source_height_def)
  have h: "map_for source h" using assms(1,3) by (simp add: map_by_mask_def map_for_def)
  have s: "is_mask_surface before (h_kind h) x' z' (level h (x' + 16 * z'))" if "x' < 16" "z' < 16" for x' z'
    using assms(1) that by (simp add: map_by_mask_def)
  note col = s [OF assms(4,5), unfolded is_mask_surface_def column_top_def, folded dims]
  obtain h' new where u: "hm_update h x y z state source = Some (Inr (h', new \<noteq> ?f))" "map_for source h'" "h_kind h' = h_kind h"
    "is_mask_surface source (h_kind h) x z new" "\<And>j. j < 256 \<Longrightarrow> level h' j = (if j = x + 16 * z then new else level h j)"
    by (rule hm_update_ok [OF assms(2) h assms(4-7), of ?f]) (use col assms(4,5,8) in \<open>auto simp: in_build_def\<close>)
  have other: "is_mask_surface source (h_kind h) x' z' (level h (x' + 16 * z'))" if "x' < 16" "z' < 16" "(x', z') \<noteq> (x, z)" for x' z'
    using s [OF that(1,2)] assms(8) [OF that(1,2)] that(3) unfolding is_mask_surface_def column_top_def in_build_def dims by auto
  have "is_mask_surface source (h_kind h') x' z' (level h' (x' + 16 * z'))" if "x' < 16" "z' < 16" for x' z'
  proof (cases "x' + 16 * z' = x + 16 * z")
    case True
    then have "x' = x \<and> z' = z" using that assms(4,5) by (metis column_split)
    then show ?thesis using u(3,4) u(5) [of "x + 16 * z"] assms(4,5) by simp
  next
    case False
    then show ?thesis using u(3) u(5) [of "x' + 16 * z'"] other [OF that] that by auto
  qed
  then have by_mask: "map_by_mask source h'" using u(2) by (simp add: map_by_mask_def)
  moreover have "first_available h' x z = Some (Inr new)" "first_available h x z = Some (Inr ?f)"
    using first_available_level u(2) u(5) [of "x + 16 * z"] h assms(4,5) by (simp_all add: map_for_def)
  moreover have "\<not> air_counts source (h_kind h) \<longrightarrow> map_exact source h'"
    using map_by_mask_exact [OF assms(2), of h'] by_mask u(3) by simp
  ultimately show ?thesis using u(1,3) by auto
qed

definition one_block :: PalettedContainer where
  "one_block = \<lparr>c_kind = Blocks, c_registry = \<lparr>state_count = 2\<rparr>,
    c_storage = Indirect [0, 1] 16 \<lparr>p_bits = 4, p_len = 4096, p_words = 1 # replicate 255 0, p_capacity = 256\<rparr>\<rparr>"

definition sample_source :: HeightmapSource where
  "sample_source = (source_empty sample_registry sample_height)
    \<lparr>hs_sections := Some \<lparr>s_counts = \<lparr>non_empty_blocks = 1, fluid_blocks = 0\<rparr>, s_blocks = one_block, s_biomes = one_block\<rparr> # replicate 255 None\<rparr>"

lemma one_block_get: "c < 4096 \<Longrightarrow> container_get one_block c = Inr (if c = 0 then 1 else 0)"
proof -
  assume c: "c < 4096"
  have "drop_bit (c mod 16 * 4) ((1 # replicate 255 0) ! (c div 16)) AND packed_mask 4 = (if c = 0 then 1 else 0 :: u64)"
  proof (cases "c div 16")
    case 0
    then have "c mod 16 = c" by simp
    then show ?thesis using 0 by (intro bit_eqI) (auto simp: bit_simps)
  next
    case (Suc n)
    then have "n < 255" "c \<noteq> 0" using c by auto
    then show ?thesis using Suc by simp
  qed
  then show ?thesis using c
    by (auto simp: container_get_def one_block_def BLOCKS_PER_SECTION_def packed_get_def position_def Let_def)
qed

lemma sample_source_tests:
  "prime_test (source_empty sample_registry sample_height) k x z y = (if 0 \<le> y \<and> y < 16 * 256 then Some False else None)"
  "x < 16 \<Longrightarrow> z < 16 \<Longrightarrow> in_build sample_source y \<Longrightarrow> prime_test sample_source WorldSurface x z y = Some (x = 0 \<and> y = 0 \<and> z = 0)"
proof -
  have "nat (y div 16) < 256 \<longleftrightarrow> y < 16 * 256" by linarith
  then show "prime_test (source_empty sample_registry sample_height) k x z y = (if 0 \<le> y \<and> y < 16 * 256 then Some False else None)"
    by (auto simp: prime_test_def source_state_def source_empty_def source_height_def sample_height_def MAX_SECTIONS_def Let_def)
  assume xz: "x < 16" "z < 16" and "in_build sample_source y"
  then have y: "0 \<le> y" "y < 16"
    by (simp_all add: in_build_def source_min_y_def source_max_y_def source_height_def sample_source_def source_empty_def sample_height_def)
  then have d: "y div 16 = 0" "y mod 16 = y" by simp_all
  have "x + 16 * z + 256 * nat y < 4096" using xz y by linarith
  from one_block_get [OF this] show "prime_test sample_source WorldSurface x z y = Some (x = 0 \<and> y = 0 \<and> z = 0)"
    using y d by (auto simp: prime_test_def source_state_def source_height_def sample_source_def source_empty_def sample_height_def sample_registry_def
        source_opaque_def heightmap_mask_def hm_mask_def Let_def)
qed

theorem heightmap_update_exact_witness:
  "\<exists>h h' changed. hm_new plain_env WorldSurface (source_empty sample_registry sample_height) 1000 = Inr h \<and>
    hm_update h 0 0 0 1 sample_source = Some (Inr (h', changed)) \<and> map_by_mask sample_source h' \<and> map_exact sample_source h' \<and>
    (changed \<longleftrightarrow> first_available h' 0 0 \<noteq> first_available h 0 0)"
proof -
  let ?before = "source_empty sample_registry sample_height"
  have sh: "source_height ?before = sample_height" "height_ok (source_height ?before)"
    by (simp_all add: source_height_def source_empty_def sample_height_def height_ok_def)
  then obtain h where new: "hm_new plain_env WorldSurface ?before 1000 = Inr h"
    by (simp add: hm_new_def sample_facts Let_def plain_env_def)
  note n = hm_new_ok [OF this sh(2)]
  have min: "hm_min_y h = 0" using n(3) by (simp add: hm_min_y_def source_empty_def sample_height_def)
  have "source_min_y ?before = 0" "source_max_y ?before = 16" by (simp_all add: source_min_y_def source_max_y_def sh(1)) (simp_all add: sample_height_def)
  then have exact: "map_exact ?before h"
    using n min by (simp add: map_exact_def map_for_def is_surface_def column_top_def sample_source_tests)
  have ok0: "source_ok ?before" by (rule from_sections_ok(1) [OF sample_facts(3) height_new_ok [OF sample_facts(1)] sample_facts(2)])
  have ok: "source_ok sample_source"
    unfolding source_ok_def
    by (auto simp: sample_source_def source_empty_def source_height_def sample_height_def height_ok_def known_id_def sample_registry_def section_known_def
        one_block_get nth_Cons' split: option.splits if_splits)
  have air: "\<not> air_counts ?before WorldSurface" "\<not> air_counts sample_source WorldSurface"
    by (simp_all add: air_counts_def source_opaque_def sample_source_def source_empty_def sample_registry_def heightmap_mask_def Let_def)
  note tests = opaque_at_prime [OF ok0 air(1)] opaque_at_prime [OF ok air(2)] sample_source_tests
  have before: "map_by_mask ?before h" using map_by_mask_exact [OF ok0, of h] exact air(1) n(2) by simp
  have cx: "hs_context sample_source = hs_context ?before" by (simp add: sample_source_def)
  have y: "in_build sample_source 0" "\<And>y. in_build sample_source y \<Longrightarrow> 0 \<le> y \<and> y < 16 * 256"
    by (auto simp: in_build_def source_min_y_def source_max_y_def source_height_def sample_source_def source_empty_def sample_height_def)
  moreover have "source_opaque sample_source WorldSurface 1 = Some True"
    by (simp add: source_opaque_def sample_source_def source_empty_def sample_registry_def heightmap_mask_def hm_mask_def Let_def)
  ultimately have "\<exists>h' changed. hm_update h 0 0 0 1 sample_source = Some (Inr (h', changed)) \<and> h_kind h' = h_kind h \<and>
      map_by_mask sample_source h' \<and> (changed \<longleftrightarrow> first_available h' 0 0 \<noteq> first_available h 0 0) \<and>
      (\<not> air_counts sample_source (h_kind h) \<longrightarrow> map_exact sample_source h')"
    using n(2) by (intro heightmap_update_exact [OF before ok cx]) (auto simp: tests)
  then show ?thesis using new air(2) n(2) by auto
qed

text \<open>
  C10: Restoring the heightmaps of a stored chunk never panics. It fails only for want of memory, and not when
  the budget covers the selected maps and the allocator grants what is asked. Otherwise the memory of the
  set stays within the budget; a stored array of the right length is kept bit for bit; one of another length
  and a required map that is missing are primed, all in one pass, to the exact surface; no other map exists.
\<close>

theorem stored_heightmaps_restored:
  assumes "height_new min_y height_blocks = Inr height" "known_id r (cr_air r)" "from_sections r height secs = Inr source"
  shows "case from_stored env source root status limit of
      None \<Rightarrow> False
    | Some (Inl e) \<Rightarrow> (e = HmAllocationLimit \<or> e = HmAllocationFailed) \<and>
        \<not> (exact_allocator env \<and> required_bytes height * count_ones (selected_mask root status) \<le> limit)
    | Some (Inr s) \<Rightarrow> set_heap_bytes s \<le> limit \<and> (\<forall>k. stored_map source root status k (set_get s k) (set_origin s k))"
proof -
  note f = from_sections_ok [OF assms(3) height_new_ok [OF assms(1)] assms(2)]
  show ?thesis using from_stored_ok [OF f(1), of env root status limit] unfolding f(3) .
qed

theorem stored_heightmaps_restored_witness:
  "\<exists>s. from_stored plain_env (source_empty sample_registry sample_height) [] StatusFull 1000 = Some (Inr s) \<and> set_heap_bytes s \<le> 1000 \<and>
    (\<forall>k. stored_map (source_empty sample_registry sample_height) [] StatusFull k (set_get s k) (set_origin s k))"
proof -
  have none: "stored_array [] k = None" for k by (simp add: stored_array_def stored_compound_def hm_field_def)
  have "selected_mask [] StatusFull = 58" by (simp add: selected_mask_def none ALL_KINDS_def required_mask_def)
  then have "count_ones (selected_mask [] StatusFull) = 4" by (simp add: count_ones_def upt_rec bit_numeral_rec)
  then have "exact_allocator plain_env \<and> required_bytes sample_height * count_ones (selected_mask [] StatusFull) \<le> 1000"
    by (simp add: exact_allocator_def plain_env_def required_bytes_def sample_facts)
  then show ?thesis
    using stored_heightmaps_restored [OF sample_facts(1-3), of plain_env "[]" StatusFull 1000] by (auto split: option.splits sum.splits)
qed

end
