(* ===== verification/Utf8.thy ===== *)
theory Utf8
  imports Nbt
begin

text \<open>
  UTF-8 as the packet fields use it: the encoding of a Rust string, given by its scalar values, the
  validation of \<open>std::str::from_utf8\<close> with the length of the valid prefix and of the malformed
  sequence, and the iterator \<open>JavaUtf8Chunks\<close> of \<^verbatim>\<open>src/server/packet.rs\<close> over it.
\<close>

section \<open>Strings\<close>

type_synonym str = "nat list"

definition is_scalar :: "nat \<Rightarrow> bool" where
  "is_scalar c \<longleftrightarrow> c < 0xd800 \<or> 0xe000 \<le> c \<and> c < 0x110000"

definition utf8_encode_char :: "nat \<Rightarrow> byte list" where
  "utf8_encode_char c =
    (if c < 0x80 then [of_nat c]
     else if c < 0x800 then [of_nat (0xc0 + c div 64), of_nat (0x80 + c mod 64)]
     else if c < 0x10000 then [of_nat (0xe0 + c div 4096), of_nat (0x80 + c div 64 mod 64), of_nat (0x80 + c mod 64)]
     else [of_nat (0xf0 + c div 262144), of_nat (0x80 + c div 4096 mod 64), of_nat (0x80 + c div 64 mod 64), of_nat (0x80 + c mod 64)])"

definition str_bytes :: "str \<Rightarrow> byte list" where
  "str_bytes s = concat (map utf8_encode_char s)"

definition utf16_len :: "str \<Rightarrow> nat" where
  "utf16_len s = sum_list (map (\<lambda>c. if c < 0x10000 then 1 else 2) s)"

definition is_ascii :: "str \<Rightarrow> bool" where
  "is_ascii s \<longleftrightarrow> (\<forall>c \<in> set s. c < 0x80)"

section \<open>Validation\<close>

definition is_cont :: "byte \<Rightarrow> bool" where
  "is_cont b \<longleftrightarrow> 0x80 \<le> unat b \<and> unat b < 0xc0"

text \<open>The pairs of a first and a second byte that open a sequence of three or four bytes.\<close>

definition opens3 :: "nat \<Rightarrow> nat \<Rightarrow> bool" where
  "opens3 a b \<longleftrightarrow>
    a = 0xe0 \<and> 0xa0 \<le> b \<and> b < 0xc0 \<or> 0xe1 \<le> a \<and> a \<le> 0xec \<and> 0x80 \<le> b \<and> b < 0xc0 \<or>
    a = 0xed \<and> 0x80 \<le> b \<and> b < 0xa0 \<or> 0xee \<le> a \<and> a \<le> 0xef \<and> 0x80 \<le> b \<and> b < 0xc0"

definition opens4 :: "nat \<Rightarrow> nat \<Rightarrow> bool" where
  "opens4 a b \<longleftrightarrow>
    a = 0xf0 \<and> 0x90 \<le> b \<and> b < 0xc0 \<or> 0xf1 \<le> a \<and> a \<le> 0xf3 \<and> 0x80 \<le> b \<and> b < 0xc0 \<or>
    a = 0xf4 \<and> 0x80 \<le> b \<and> b < 0x90"

text \<open>The scalar value of a sequence of two, three or four bytes.\<close>

definition code2 :: "byte \<Rightarrow> byte \<Rightarrow> nat" where
  "code2 a b = unat a mod 32 * 64 + unat b mod 64"

definition code3 :: "byte \<Rightarrow> byte \<Rightarrow> byte \<Rightarrow> nat" where
  "code3 a b c = unat a mod 16 * 4096 + unat b mod 64 * 64 + unat c mod 64"

definition code4 :: "byte \<Rightarrow> byte \<Rightarrow> byte \<Rightarrow> byte \<Rightarrow> nat" where
  "code4 a b c d = unat a mod 8 * 262144 + unat b mod 64 * 4096 + unat c mod 64 * 64 + unat d mod 64"

text \<open>
  The first character with its width, or the \<open>error_len\<close> of the malformed sequence: \<open>None\<close> when the
  input ends inside it.
\<close>

fun utf8_char :: "byte list \<Rightarrow> nat option + nat \<times> nat" where
  "utf8_char [] = Inl None"
| "utf8_char (b0 # r0) =
    (let a = unat b0 in
     if a < 0x80 then Inr (a, 1)
     else if 0xc2 \<le> a \<and> a \<le> 0xdf
     then (case r0 of
         [] \<Rightarrow> Inl None
       | b1 # r1 \<Rightarrow> if is_cont b1 then Inr (code2 b0 b1, 2) else Inl (Some 1))
     else if 0xe0 \<le> a \<and> a \<le> 0xef
     then (case r0 of
         [] \<Rightarrow> Inl None
       | b1 # r1 \<Rightarrow>
           if \<not> opens3 a (unat b1) then Inl (Some 1)
           else (case r1 of
               [] \<Rightarrow> Inl None
             | b2 # r2 \<Rightarrow>
                 if is_cont b2 then Inr (code3 b0 b1 b2, 3) else Inl (Some 2)))
     else if 0xf0 \<le> a \<and> a \<le> 0xf4
     then (case r0 of
         [] \<Rightarrow> Inl None
       | b1 # r1 \<Rightarrow>
           if \<not> opens4 a (unat b1) then Inl (Some 1)
           else (case r1 of
               [] \<Rightarrow> Inl None
             | b2 # r2 \<Rightarrow>
                 if \<not> is_cont b2 then Inl (Some 2)
                 else (case r2 of
                     [] \<Rightarrow> Inl None
                   | b3 # r3 \<Rightarrow>
                       if is_cont b3
                       then Inr (code4 b0 b1 b2 b3, 4)
                       else Inl (Some 3))))
     else Inl (Some 1))"

lemma utf8_char_width: "utf8_char bs = Inr (c, w) \<Longrightarrow> 1 \<le> w \<and> w \<le> 4 \<and> w \<le> length bs"
  by (cases bs) (auto simp: Let_def split: if_splits list.splits)

lemma utf8_char_error: "utf8_char bs = Inl (Some n) \<Longrightarrow> 1 \<le> n \<and> n \<le> 3 \<and> n \<le> length bs"
  by (cases bs) (auto simp: Let_def split: if_splits list.splits)

text \<open>\<open>from_utf8\<close>: the scalar values of the valid prefix, its length in bytes, and the error after it.\<close>

function utf8_validate :: "byte list \<Rightarrow> str \<times> nat \<times> nat option option" where
  "utf8_validate bs =
    (if bs = [] then ([], 0, None)
     else (case utf8_char bs of
         Inr (c, w) \<Rightarrow> (case utf8_validate (drop w bs) of (cs, n, e) \<Rightarrow> (c # cs, w + n, e))
       | Inl e \<Rightarrow> ([], 0, Some e)))"
  by pat_completeness auto
termination
  by (relation "measure length") (auto dest!: utf8_char_width)

declare utf8_validate.simps [simp del]

section \<open>Replacement decoding\<close>

text \<open>\<open>JavaUtf8Chunks::next\<close>: a chunk and the bytes behind it.\<close>

definition surrogate_prefix :: "byte list \<Rightarrow> bool" where
  "surrogate_prefix bs \<longleftrightarrow> (case bs of a # b # r \<Rightarrow> a = 0xed \<and> 0xa0 \<le> b \<and> b \<le> 0xbf | _ \<Rightarrow> False)"

definition malformed_len :: "byte list \<Rightarrow> nat option \<Rightarrow> nat" where
  "malformed_len bs error_len =
    (if surrogate_prefix bs
     then 2 + (case drop 2 bs of c # r \<Rightarrow> (if c AND 0xc0 = 0x80 then 1 else 0) | [] \<Rightarrow> 0)
     else (case error_len of Some n \<Rightarrow> n | None \<Rightarrow> length bs))"

definition java_next :: "byte list \<Rightarrow> (str \<times> byte list) option" where
  "java_next bs =
    (if bs = [] then None
     else (case utf8_validate bs of
         (cs, n, None) \<Rightarrow> Some (cs, [])
       | (cs, n, Some error_len) \<Rightarrow>
           if n > 0 then Some (cs, drop n bs) else Some ([0xfffd], drop (malformed_len bs error_len) bs)))"

lemma utf8_validate_prefix: "utf8_validate bs = (cs, n, e) \<Longrightarrow> n \<le> length bs \<and> (e = None \<longrightarrow> n = length bs)"
proof (induction bs arbitrary: cs n e rule: utf8_validate.induct)
  case (1 bs)
  show ?case
  proof (cases "bs = []")
    case False
    show ?thesis
    proof (cases "utf8_char bs")
      case (Inr cw)
      obtain c w where cw: "cw = (c, w)" by (cases cw)
      obtain cs' n' e' where v: "utf8_validate (drop w bs) = (cs', n', e')" using prod_cases3 by blast
      have "n = w + n'" "e = e'" using 1(2) False Inr cw v by (simp_all add: utf8_validate.simps [of bs])
      then show ?thesis using 1(1) [OF False Inr _ v] cw utf8_char_width [of bs c w] Inr by auto
    qed (use 1(2) False in \<open>auto simp: utf8_validate.simps [of bs]\<close>)
  qed (use 1(2) in \<open>simp add: utf8_validate.simps [of "[]"]\<close>)
qed

lemma utf8_validate_error:
  "utf8_validate bs = (cs, n, Some e) \<Longrightarrow> drop n bs \<noteq> [] \<and> utf8_char (drop n bs) = Inl e"
proof (induction bs arbitrary: cs n e rule: utf8_validate.induct)
  case (1 bs)
  have ne: "bs \<noteq> []" using 1(2) by (auto simp: utf8_validate.simps [of bs])
  show ?case
  proof (cases "utf8_char bs")
    case (Inr cw)
    obtain c w where cw: "cw = (c, w)" by (cases cw)
    obtain cs' n' e' where v: "utf8_validate (drop w bs) = (cs', n', e')" using prod_cases3 by blast
    have "n = w + n'" "e' = Some e" using 1(2) ne Inr cw v by (simp_all add: utf8_validate.simps [of bs])
    then show ?thesis using 1(1) [OF ne Inr cw [symmetric], of cs' n' e] v by (simp add: add.commute)
  qed (use 1(2) ne in \<open>simp add: utf8_validate.simps [of bs]\<close>)
qed

lemma malformed_len_bounds:
  assumes "utf8_char bs = Inl e" "bs \<noteq> []"
  shows "0 < malformed_len bs e" "malformed_len bs e \<le> length bs"
  using assms utf8_char_error [of bs] unfolding malformed_len_def surrogate_prefix_def
  by (cases e; auto split: list.splits if_splits)+

lemma java_next_shorter: "java_next bs = Some (cs, rest) \<Longrightarrow> length rest < length bs"
proof -
  assume j: "java_next bs = Some (cs, rest)"
  then have ne: "bs \<noteq> []" by (auto simp: java_next_def)
  obtain cs' n e where v: "utf8_validate bs = (cs', n, e)" using prod_cases3 by blast
  show ?thesis
  proof (cases e)
    case None
    then show ?thesis using j ne v by (simp add: java_next_def)
  next
    case (Some err)
    note d = utf8_validate_error [OF v [unfolded Some]]
    show ?thesis
    proof (cases "n = 0")
      case True
      then have "utf8_char bs = Inl err" using d by simp
      then show ?thesis using j ne v Some True malformed_len_bounds [of bs err] by (auto simp: java_next_def)
    qed (use j ne v Some in \<open>auto simp: java_next_def\<close>)
  qed
qed

function java_chunks :: "byte list \<Rightarrow> str list" where
  "java_chunks bs = (case java_next bs of None \<Rightarrow> [] | Some (cs, rest) \<Rightarrow> cs # java_chunks rest)"
  by pat_completeness auto
termination
  by (relation "measure length") (auto dest!: java_next_shorter)

declare java_chunks.simps [simp del]

text \<open>The string the chunks make.\<close>

definition java_decode :: "byte list \<Rightarrow> str" where
  "java_decode bs = concat (java_chunks bs)"

section \<open>Encoding and decoding\<close>

lemma byte_with: "n < 256 \<Longrightarrow> \<exists>b :: byte. of_nat n = b \<and> unat b = n"
  by (simp add: unat_of_nat)

lemma split6: "(c :: nat) = c div 64 * 64 + c mod 64" "c div 64 = c div 4096 * 64 + c div 64 mod 64" "c div 4096 = c div 262144 * 64 + c div 4096 mod 64"
proof -
  show "c = c div 64 * 64 + c mod 64" by simp
  have "c div 4096 = c div 64 div 64" "c div 262144 = c div 4096 div 64" by (simp_all flip: div_mult2_eq)
  then show "c div 64 = c div 4096 * 64 + c div 64 mod 64" "c div 4096 = c div 262144 * 64 + c div 4096 mod 64" by simp_all
qed

lemma opens3_iff: "opens3 (0xe0 + q) (0x80 + r) \<longleftrightarrow> q < 16 \<and> r < 64 \<and> (q = 0 \<longrightarrow> 32 \<le> r) \<and> (q = 13 \<longrightarrow> r < 32)"
  by (auto simp: opens3_def)

lemma opens4_iff: "opens4 (0xf0 + u) (0x80 + t) \<longleftrightarrow> u \<le> 4 \<and> t < 64 \<and> (u = 0 \<longrightarrow> 16 \<le> t) \<and> (u = 4 \<longrightarrow> t < 16)"
  by (auto simp: opens4_def)

lemma utf8_char_encode:
  assumes "is_scalar c"
  shows "utf8_char (utf8_encode_char c @ rest) = Inr (c, length (utf8_encode_char c))"
proof -
  let ?q = "c div 4096" and ?r = "c div 64 mod 64" and ?s = "c mod 64" and ?t = "c div 4096 mod 64" and ?u = "c div 262144"
  have less: "?r < 64" "?s < 64" "?t < 64" by simp_all
  obtain bs where bs: "of_nat (0x80 + ?s) = (bs :: byte)" "unat bs = 0x80 + ?s" using byte_with [of "0x80 + ?s"] less by auto
  obtain br where br: "of_nat (0x80 + ?r) = (br :: byte)" "unat br = 0x80 + ?r" using byte_with [of "0x80 + ?r"] less by auto
  obtain bt where bt: "of_nat (0x80 + ?t) = (bt :: byte)" "unat bt = 0x80 + ?t" using byte_with [of "0x80 + ?t"] less by auto
  have cont: "is_cont bs" "is_cont br" "is_cont bt" using bs br bt less by (simp_all add: is_cont_def)
  have mods: "(0x80 + ?s) mod 64 = ?s" "(0x80 + ?r) mod 64 = ?r" "(0x80 + ?t) mod 64 = ?t" by (simp_all add: mod_add_eq [symmetric])
  consider "c < 0x80" | "0x80 \<le> c" "c < 0x800" | "0x800 \<le> c" "c < 0x10000" | "0x10000 \<le> c" "c < 0x110000"
    using assms by (fastforce simp: is_scalar_def)
  then show ?thesis
  proof cases
    case 1
    then obtain b where "of_nat c = (b :: byte)" "unat b = c" using byte_with [of c] by auto
    then show ?thesis using 1 by (simp add: utf8_encode_char_def)
  next
    case 2
    then have d: "c div 64 < 32" "2 \<le> c div 64" by auto
    then obtain b where b: "of_nat (0xc0 + c div 64) = (b :: byte)" "unat b = 0xc0 + c div 64" using byte_with [of "0xc0 + c div 64"] by auto
    have "utf8_encode_char c = [b, bs]" unfolding utf8_encode_char_def b(1) bs(1) using 2 by simp
    moreover have "(0xc0 + c div 64) mod 32 = c div 64" using d by (simp add: mod_add_eq [symmetric])
    ultimately show ?thesis using d b bs cont mods split6(1) [of c] by (simp add: code2_def)
  next
    case 3
    then have q: "?q < 16" by auto
    then obtain b where b: "of_nat (0xe0 + ?q) = (b :: byte)" "unat b = 0xe0 + ?q" using byte_with [of "0xe0 + ?q"] by auto
    have enc: "utf8_encode_char c = [b, br, bs]" unfolding utf8_encode_char_def b(1) bs(1) br(1) using 3 by simp
    have "?q = 0 \<Longrightarrow> 32 \<le> ?r" "?q = 13 \<Longrightarrow> ?r < 32" using 3 assms split6(1,2) [of c] less by (auto simp: is_scalar_def)
    then have op: "opens3 (unat b) (unat br)" using q less(1) unfolding b(2) br(2) opens3_iff by blast
    have m: "(0xe0 + ?q) mod 16 = ?q" using q by (simp add: mod_add_eq [symmetric])
    have "?q * 4096 + ?r * 64 + ?s = c" using split6(1,2) [of c] by linarith
    then have "code3 b br bs = c" unfolding code3_def b(2) br(2) bs(2) m mods .
    moreover have "0xe0 \<le> unat b" "unat b \<le> 0xef" using b(2) q by simp_all
    ultimately show ?thesis unfolding enc using op cont by simp
  next
    case 4
    then have u: "?u \<le> 4" by auto
    then obtain b where b: "of_nat (0xf0 + ?u) = (b :: byte)" "unat b = 0xf0 + ?u" using byte_with [of "0xf0 + ?u"] by auto
    have enc: "utf8_encode_char c = [b, bt, br, bs]" unfolding utf8_encode_char_def b(1) bs(1) br(1) bt(1) using 4 by simp
    have "?u = 0 \<Longrightarrow> 16 \<le> ?t" "?u = 4 \<Longrightarrow> ?t < 16" using 4 split6(3) [of c] less less_mult_imp_div_less [of c 272 4096] by auto
    then have op: "opens4 (unat b) (unat bt)" using u less(3) unfolding b(2) bt(2) opens4_iff by blast
    have m: "(0xf0 + ?u) mod 8 = ?u" using u by (simp add: mod_add_eq [symmetric])
    have "?u * 262144 + ?t * 4096 + ?r * 64 + ?s = c" using split6 [of c] by linarith
    then have "code4 b bt br bs = c" unfolding code4_def b(2) bt(2) br(2) bs(2) m mods .
    moreover have "0xf0 \<le> unat b" "unat b \<le> 0xf4" using b(2) u by simp_all
    ultimately show ?thesis unfolding enc using op cont by simp
  qed
qed

text \<open>Conversely, a character that is read is a scalar value and was encoded the one way there is.\<close>

lemma byte_offset: "unat (b :: byte) = n \<Longrightarrow> of_nat n = b"
  by auto

lemma cont_payload:
  assumes "0x80 \<le> unat (b :: byte)" "unat b < 0xc0"
  obtains n where "n < 64" "unat b = 0x80 + n" "unat b mod 64 = n" "of_nat (0x80 + n) = b"
proof -
  obtain n where n: "unat b = 0x80 + n" using assms(1) le_Suc_ex by blast
  then have "n < 64" using assms(2) by simp
  moreover then have "unat b mod 64 = n" unfolding n by (simp add: mod_add_eq [symmetric])
  ultimately show thesis using that n byte_offset [OF n] by blast
qed

lemma digits6: "(k :: nat) < 64 \<Longrightarrow> (m * 64 + k) div 64 = m \<and> (m * 64 + k) mod 64 = k"
  by simp

lemma utf8_char_sound:
  assumes "utf8_char bs = Inr (c, w)"
  shows "is_scalar c \<and> utf8_encode_char c = take w bs \<and> (if c < 0x10000 then 1 else 2) \<le> w \<and> (c < 0x80 \<longrightarrow> w = 1)"
proof -
  obtain b0 r0 where bs: "bs = b0 # r0" using assms by (cases bs) auto
  let ?a = "unat b0"
  consider (1) "?a < 0x80" "c = ?a" "w = 1"
    | (2) b1 r1 where "r0 = b1 # r1" "0xc2 \<le> ?a" "?a \<le> 0xdf" "is_cont b1" "c = code2 b0 b1" "w = 2"
    | (3) b1 b2 r2 where "r0 = b1 # b2 # r2" "0xe0 \<le> ?a" "opens3 ?a (unat b1)" "is_cont b2" "c = code3 b0 b1 b2" "w = 3"
    | (4) b1 b2 b3 r3 where "r0 = b1 # b2 # b3 # r3" "0xf0 \<le> ?a" "opens4 ?a (unat b1)" "is_cont b2" "is_cont b3" "c = code4 b0 b1 b2 b3" "w = 4"
    using assms bs by (auto simp: Let_def split: if_splits list.splits)
  then show ?thesis
  proof cases
    case 1
    then show ?thesis using bs byte_offset [of b0, OF refl] by (simp add: is_scalar_def utf8_encode_char_def)
  next
    case 2
    obtain m where m: "?a = 0xc0 + m" using 2(2) le_Suc_ex [of "0xc0" ?a] by auto
    obtain n where n: "n < 64" "unat b1 mod 64 = n" "of_nat (0x80 + n) = b1" using 2(4) cont_payload unfolding is_cont_def by metis
    have "2 \<le> m" "m < 32" using 2 m by simp_all
    moreover have "(0xc0 + m) mod 32 = m" using calculation by (simp add: mod_add_eq [symmetric])
    ultimately have c: "c = m * 64 + n" "2 \<le> m" "m < 32" using 2(5) m n by (simp_all add: code2_def)
    have d: "c div 64 = m" "c mod 64 = n" "\<not> c < 0x80" "c < 0x800" using c digits6 [OF n(1), of m] n(1) by simp_all
    have "utf8_encode_char c = [b0, b1]" unfolding utf8_encode_char_def d byte_offset [OF m] n(3) using d by simp
    then show ?thesis using 2 bs d by (simp add: is_scalar_def)
  next
    case 3
    obtain q where q: "?a = 0xe0 + q" using 3(2) le_Suc_ex [of "0xe0" ?a] by auto
    have "0x80 \<le> unat b1" "unat b1 < 0xc0" using 3(3) by (auto simp: opens3_def)
    then obtain n where n: "n < 64" "unat b1 = 0x80 + n" "unat b1 mod 64 = n" "of_nat (0x80 + n) = b1" by (rule cont_payload)
    obtain k where k: "k < 64" "unat b2 mod 64 = k" "of_nat (0x80 + k) = b2" using 3(4) cont_payload unfolding is_cont_def by metis
    have o: "q < 16" "q = 0 \<longrightarrow> 32 \<le> n" "q = 13 \<longrightarrow> n < 32" using 3(3) unfolding q n(2) opens3_iff by simp_all
    have "(0xe0 + q) mod 16 = q" using o(1) by (simp add: mod_add_eq [symmetric])
    then have c: "c = (q * 64 + n) * 64 + k" using 3(5) q n k by (simp add: code3_def)
    have d: "c div 64 = q * 64 + n" "c mod 64 = k" using c digits6 [OF k(1), of "q * 64 + n"] by simp_all
    have e: "c div 64 mod 64 = n" "c div 4096 = q" using d(1) digits6 [OF n(1), of q] div_mult2_eq [of c 64 64] by simp_all
    have r: "\<not> c < 0x80" "\<not> c < 0x800" "c < 0x10000" using c o n(1) k(1) by auto
    have sc: "is_scalar c" using c o n(1) k(1) by (cases q "13 :: nat" rule: linorder_cases) (auto simp: is_scalar_def)
    have "utf8_encode_char c = [b0, b1, b2]" unfolding utf8_encode_char_def e d(2) byte_offset [OF q] n(4) k(3) using r by simp
    then show ?thesis using 3 bs r sc by simp
  next
    case 4
    obtain u where u: "?a = 0xf0 + u" using 4(2) le_Suc_ex [of "0xf0" ?a] by auto
    have "0x80 \<le> unat b1" "unat b1 < 0xc0" using 4(3) by (auto simp: opens4_def)
    then obtain t where t: "t < 64" "unat b1 = 0x80 + t" "unat b1 mod 64 = t" "of_nat (0x80 + t) = b1" by (rule cont_payload)
    obtain n where n: "n < 64" "unat b2 mod 64 = n" "of_nat (0x80 + n) = b2" using 4(4) cont_payload unfolding is_cont_def by metis
    obtain k where k: "k < 64" "unat b3 mod 64 = k" "of_nat (0x80 + k) = b3" using 4(5) cont_payload unfolding is_cont_def by metis
    have o: "u \<le> 4" "u = 0 \<longrightarrow> 16 \<le> t" "u = 4 \<longrightarrow> t < 16" using 4(3) unfolding u t(2) opens4_iff by simp_all
    have "(0xf0 + u) mod 8 = u" using o(1) by (simp add: mod_add_eq [symmetric])
    then have c: "c = ((u * 64 + t) * 64 + n) * 64 + k" using 4(6) u t n k by (simp add: code4_def)
    have d: "c div 64 = (u * 64 + t) * 64 + n" "c mod 64 = k" unfolding c using digits6 [OF k(1), of "(u * 64 + t) * 64 + n"] by blast+
    have "c div 4096 = c div 64 div 64" "c div 262144 = c div 4096 div 64" by (simp_all flip: div_mult2_eq)
    note div = this
    have e: "c div 64 mod 64 = n" "c div 4096 = u * 64 + t" unfolding div(1) d(1) using digits6 [OF n(1), of "u * 64 + t"] by blast+
    have f: "c div 4096 mod 64 = t" "c div 262144 = u" unfolding div(2) e(2) using digits6 [OF t(1), of u] by blast+
    have r: "\<not> c < 0x80" "\<not> c < 0x800" "\<not> c < 0x10000" "is_scalar c"
      using c o t(1) n(1) k(1) by (auto simp: is_scalar_def)
    have "utf8_encode_char c = [b0, b1, b2, b3]" unfolding utf8_encode_char_def e(1) f d(2) byte_offset [OF u] t(4) n(3) k(3) using r by simp
    then show ?thesis using 4 bs r by simp
  qed
qed

section \<open>Strings and bytes\<close>

definition is_str :: "str \<Rightarrow> bool" where
  "is_str s \<longleftrightarrow> (\<forall>c \<in> set s. is_scalar c)"

lemma is_str_simps [simp]: "is_str []" "is_str (c # s) \<longleftrightarrow> is_scalar c \<and> is_str s" "is_str (s @ t) \<longleftrightarrow> is_str s \<and> is_str t"
  by (auto simp: is_str_def)

lemma str_bytes_simps [simp]: "str_bytes [] = []" "str_bytes (c # s) = utf8_encode_char c @ str_bytes s" "str_bytes (s @ t) = str_bytes s @ str_bytes t"
  by (simp_all add: str_bytes_def)

lemma utf16_len_simps [simp]: "utf16_len [] = 0" "utf16_len (c # s) = (if c < 0x10000 then 1 else 2) + utf16_len s" "utf16_len (s @ t) = utf16_len s + utf16_len t"
  by (simp_all add: utf16_len_def)

lemma is_ascii_simps [simp]: "is_ascii []" "is_ascii (c # s) \<longleftrightarrow> c < 0x80 \<and> is_ascii s" "is_ascii (s @ t) \<longleftrightarrow> is_ascii s \<and> is_ascii t"
  by (auto simp: is_ascii_def)

lemma utf8_encode_char_nonempty [simp]: "utf8_encode_char c \<noteq> []"
  by (simp add: utf8_encode_char_def)

lemma str_bytes_eq_Nil [simp]: "str_bytes s = [] \<longleftrightarrow> s = []"
  by (cases s) simp_all

lemma ascii_bytes: "is_ascii s \<Longrightarrow> length (str_bytes s) = length s \<and> utf16_len s = length s"
  by (induction s) (simp_all add: utf8_encode_char_def)

lemma utf8_validate_str: "is_str s \<Longrightarrow> utf8_validate (str_bytes s) = (s, length (str_bytes s), None)"
proof (induction s)
  case (Cons c s)
  then show ?case by (simp add: utf8_validate.simps [of "utf8_encode_char c @ str_bytes s"] utf8_char_encode)
qed (simp add: utf8_validate.simps)

lemma utf8_validate_sound:
  "utf8_validate bs = (cs, n, e) \<Longrightarrow> is_str cs \<and> str_bytes cs = take n bs \<and> utf16_len cs \<le> n"
proof (induction bs arbitrary: cs n e rule: utf8_validate.induct)
  case (1 bs)
  show ?case
  proof (cases "bs = []")
    case True
    then show ?thesis using 1(2) by (simp add: utf8_validate.simps [of "[]"])
  next
    case ne: False
    show ?thesis
    proof (cases "utf8_char bs")
      case (Inr cw)
      obtain c w where cw: "cw = (c, w)" by (cases cw)
      obtain cs' n' e' where v: "utf8_validate (drop w bs) = (cs', n', e')" using prod_cases3 by blast
      have eq: "cs = c # cs'" "n = w + n'" using 1(2) ne Inr cw v by (simp_all add: utf8_validate.simps [of bs])
      note ih = 1(1) [OF ne Inr cw [symmetric] v] and c = utf8_char_sound [OF Inr [unfolded cw]]
      have "utf8_encode_char c @ take n' (drop w bs) = take (w + n') bs" using c take_add [of w n' bs] by simp
      then show ?thesis using ih c eq by (auto split: if_splits)
    qed (use 1(2) ne in \<open>simp add: utf8_validate.simps [of bs]\<close>)
  qed
qed

lemma str_bytes_inj: "is_str s \<Longrightarrow> is_str t \<Longrightarrow> str_bytes s = str_bytes t \<longleftrightarrow> s = t"
  by (metis utf8_validate_str prod.inject)

lemma java_decode_Nil [simp]: "java_decode [] = []"
  by (simp add: java_decode_def java_chunks.simps java_next_def)

text \<open>One step of the iterator: a valid chunk, which is the encoding of its bytes, or a replacement.\<close>

lemma java_next_cases:
  assumes "bs \<noteq> []"
  obtains (valid) cs rest where "java_next bs = Some (cs, rest)" "cs \<noteq> []" "is_str cs" "bs = str_bytes cs @ rest" "utf16_len cs \<le> length (str_bytes cs)"
    | (malformed) rest where "java_next bs = Some ([0xfffd], rest)" "length rest < length bs"
proof -
  obtain cs n e where v: "utf8_validate bs = (cs, n, e)" using prod_cases3 by blast
  note s = utf8_validate_sound [OF v] and p = utf8_validate_prefix [OF v]
  have len: "length (str_bytes cs) = n" using s p by simp
  show thesis
  proof (cases "n = 0")
    case True
    then have "e \<noteq> None" using p assms by auto
    then have "\<exists>rest. java_next bs = Some ([0xfffd], rest)" using v True assms by (auto simp: java_next_def)
    then show thesis using malformed java_next_shorter by blast
  next
    case False
    then have "java_next bs = Some (cs, drop n bs)" using v assms p by (cases e) (auto simp: java_next_def)
    moreover have "cs \<noteq> []" using False s len by auto
    ultimately show thesis using valid s len by (metis append_take_drop_id)
  qed
qed

lemma java_chunks_step: "java_next bs = Some (cs, rest) \<Longrightarrow> java_chunks bs = cs # java_chunks rest"
  by (simp add: java_chunks.simps [of bs])

lemma java_decode_props:
  "is_str (java_decode bs) \<and> utf16_len (java_decode bs) \<le> length bs \<and> (is_ascii (java_decode bs) \<longrightarrow> str_bytes (java_decode bs) = bs)"
proof (induction "length bs" arbitrary: bs rule: less_induct)
  case less
  show ?case
  proof (cases "bs = []")
    case False
    then show ?thesis
    proof (cases rule: java_next_cases)
      case (valid cs rest)
      then have "java_decode bs = cs @ java_decode rest" by (simp add: java_decode_def java_chunks_step)
      then show ?thesis using less [of rest] valid(2-5) by auto
    next
      case (malformed rest)
      then have "java_decode bs = 0xfffd # java_decode rest" by (simp add: java_decode_def java_chunks_step)
      then show ?thesis using less [OF malformed(2)] malformed(2) by (auto simp: is_scalar_def)
    qed
  qed simp
qed

lemma java_chunks_str: "is_str s \<Longrightarrow> s \<noteq> [] \<Longrightarrow> java_chunks (str_bytes s) = [s]"
  by (simp add: java_chunks.simps [of "str_bytes s"] java_next_def utf8_validate_str java_chunks.simps [of "[]"])

lemma java_decode_str: "is_str s \<Longrightarrow> java_decode (str_bytes s) = s"
  by (cases "s = []") (simp_all add: java_chunks_str java_decode_def [of "str_bytes s"])

lemma java_decode_ascii_iff: "is_ascii s \<Longrightarrow> is_str s \<Longrightarrow> java_decode bs = s \<longleftrightarrow> bs = str_bytes s"
  using java_decode_props [of bs] java_decode_str [of s] by auto

end
