(* ===== verification/PacketFields.thy ===== *)
theory PacketFields
  imports Utf8 Wire
begin

text \<open>
  \<^verbatim>\<open>src/server/packet.rs\<close>: the reader and the writer of packet fields. A reader operation gives the value
  and the advanced reader, or an error; the source's cursor moves only on success. A writer operation
  gives its result and the writer, which keeps its bytes when the operation fails. Signed numbers are
  their bit patterns. The allocator is asked for the whole capacity of a buffer.
\<close>

section \<open>Errors and lengths\<close>

datatype PacketError =
    UnexpectedEnd nat nat
  | VarIntError DecodeError
  | NegativeLength u32
  | LengthLimit string nat nat
  | LengthOverflow
  | InvalidValue string
  | InvalidIdentifier
  | PacketAllocationFailed
  | TrailingBytes nat

definition check_length :: "string \<Rightarrow> nat \<Rightarrow> nat \<Rightarrow> PacketError + unit" where
  "check_length kind actual maximum = (if actual > maximum then Inl (LengthLimit kind actual maximum) else Inr ())"

definition IDENTIFIER_UTF16_LIMIT :: nat where "IDENTIFIER_UTF16_LIMIT = 32767"

definition ascii :: "string \<Rightarrow> str" where
  "ascii s = map of_char s"

section \<open>Identifiers\<close>

fun split_once :: "nat \<Rightarrow> str \<Rightarrow> (str \<times> str) option" where
  "split_once d [] = None"
| "split_once d (c # cs) = (if c = d then Some ([], cs) else map_option (\<lambda>(a, b). (c # a, b)) (split_once d cs))"

definition common_char :: "nat \<Rightarrow> bool" where
  "common_char c \<longleftrightarrow> 97 \<le> c \<and> c \<le> 122 \<or> 48 \<le> c \<and> c \<le> 57 \<or> c = 95 \<or> c = 46 \<or> c = 45"

text \<open>
  The source tests the bytes of the two parts. A byte of a character above 127 is above 127 and fails
  the test, so the characters are tested here.
\<close>

definition identifier_parts :: "str \<Rightarrow> PacketError + str \<times> str" where
  "identifier_parts v =
    (case (case split_once 58 v of
         Some ([], path) \<Rightarrow> (ascii ''minecraft'', path)
       | Some parts \<Rightarrow> parts
       | None \<Rightarrow> (ascii ''minecraft'', v)) of (namespace, path) \<Rightarrow>
     if namespace = ascii ''..'' \<or> \<not> list_all common_char namespace \<or> \<not> list_all (\<lambda>c. common_char c \<or> c = 47) path
     then Inl InvalidIdentifier
     else Inr (namespace, path))"

section \<open>Reader\<close>

record PacketReader =
  pr_input :: "byte list"
  pr_position :: nat

type_synonym 'a field_read = "PacketReader \<Rightarrow> PacketError + 'a \<times> PacketReader"

definition reader_new :: "byte list \<Rightarrow> PacketReader" where
  "reader_new input = \<lparr>pr_input = input, pr_position = 0\<rparr>"

definition pr_rest :: "PacketReader \<Rightarrow> byte list" where
  "pr_rest r = drop (pr_position r) (pr_input r)"

definition pr_remaining :: "PacketReader \<Rightarrow> nat" where
  "pr_remaining r = length (pr_input r) - pr_position r"

definition pr_advance :: "nat \<Rightarrow> PacketReader \<Rightarrow> PacketReader" where
  "pr_advance n r = r\<lparr>pr_position := pr_position r + n\<rparr>"

definition bind_p :: "'a field_read \<Rightarrow> ('a \<Rightarrow> 'b field_read) \<Rightarrow> 'b field_read" where
  "bind_p m f = (\<lambda>r. bind_r (m r) (\<lambda>(x, r'). f x r'))"

definition return_p :: "'a \<Rightarrow> 'a field_read" where
  "return_p x = (\<lambda>r. Inr (x, r))"

definition pr_finish :: "PacketReader \<Rightarrow> PacketError + unit" where
  "pr_finish r = (if pr_remaining r = 0 then Inr () else Inl (TrailingBytes (pr_remaining r)))"

definition pr_take :: "nat \<Rightarrow> byte list field_read" where
  "pr_take n r =
    (if n \<le> length (pr_rest r) then Inr (take n (pr_rest r), pr_advance n r) else Inl (UnexpectedEnd n (pr_remaining r)))"

definition pr_varint :: "u32 field_read" where
  "pr_varint r =
    (case read_varint (pr_rest r) of
       Inl e \<Rightarrow> Inl (VarIntError e)
     | Inr (v, n) \<Rightarrow> Inr (v, pr_advance n r))"

definition pr_unsigned_byte :: "byte field_read" where
  "pr_unsigned_byte = bind_p (pr_take 1) (\<lambda>bs. return_p (bs ! 0))"

definition pr_boolean :: "bool field_read" where
  "pr_boolean = bind_p pr_unsigned_byte (\<lambda>b. return_p (b \<noteq> 0))"

definition pr_byte :: "byte field_read" where
  "pr_byte = pr_unsigned_byte"

definition pr_short :: "u16 field_read" where
  "pr_short = bind_p (pr_take 2) (\<lambda>bs. return_p (from_be_bytes bs))"

definition pr_unsigned_short :: "u16 field_read" where
  "pr_unsigned_short = bind_p (pr_take 2) (\<lambda>bs. return_p (from_be_bytes bs))"

definition pr_int :: "u32 field_read" where
  "pr_int = bind_p (pr_take 4) (\<lambda>bs. return_p (from_be_bytes bs))"

definition pr_long :: "u64 field_read" where
  "pr_long = bind_p (pr_take 8) (\<lambda>bs. return_p (from_be_bytes bs))"

definition pr_float :: "u32 field_read" where
  "pr_float = pr_int"

definition pr_double :: "u64 field_read" where
  "pr_double = pr_long"

definition pr_uuid :: "byte list field_read" where
  "pr_uuid = pr_take 16"

text \<open>The payload of a length-prefixed field and how much it takes with its prefix.\<close>

definition pr_prefixed :: "nat \<Rightarrow> string \<Rightarrow> PacketReader \<Rightarrow> PacketError + byte list \<times> nat" where
  "pr_prefixed maximum kind r =
    (case read_varint (pr_rest r) of
       Inl e \<Rightarrow> Inl (VarIntError e)
     | Inr (l, prefix) \<Rightarrow>
         if sint l < 0 then Inl (NegativeLength l)
         else let n = unat l in
           bind_r (check_length kind n maximum) (\<lambda>u.
             if n \<le> length (drop prefix (pr_rest r)) then Inr (take n (drop prefix (pr_rest r)), prefix + n)
             else Inl (UnexpectedEnd n (length (pr_rest r) - prefix))))"

fun count_chunks :: "nat \<Rightarrow> str list \<Rightarrow> nat \<Rightarrow> nat \<Rightarrow> PacketError + nat \<times> nat" where
  "count_chunks max_utf16 [] decoded_bytes units = Inr (decoded_bytes, units)"
| "count_chunks max_utf16 (c # cs) decoded_bytes units =
    bind_r (ok_or (checked_add decoded_bytes (length (str_bytes c))) LengthOverflow) (\<lambda>decoded_bytes.
    bind_r (check_length ''UTF-16'' (units + utf16_len c) max_utf16) (\<lambda>u.
    count_chunks max_utf16 cs decoded_bytes (units + utf16_len c)))"

text \<open>\<open>utf\<close>, with the capacity of the string it allocates.\<close>

definition pr_utf_capacity :: "alloc_env \<Rightarrow> nat \<Rightarrow> (str \<times> nat) field_read" where
  "pr_utf_capacity env max_utf16 r =
    bind_r (ok_or (checked_mul max_utf16 3) LengthOverflow) (\<lambda>encoded_limit.
    bind_r (pr_prefixed encoded_limit ''encoded UTF-8'' r) (\<lambda>(bytes, consumed).
    bind_r (count_chunks max_utf16 (java_chunks bytes) 0 0) (\<lambda>(decoded_bytes, units).
    bind_r (ok_or (try_reserve_exact env 1 decoded_bytes) PacketAllocationFailed) (\<lambda>capacity.
    Inr ((concat (java_chunks bytes), capacity), pr_advance consumed r)))))"

definition pr_utf :: "alloc_env \<Rightarrow> nat \<Rightarrow> str field_read" where
  "pr_utf env max_utf16 = bind_p (pr_utf_capacity env max_utf16) (\<lambda>(s, capacity). return_p s)"

fun strip_prefix :: "byte list \<Rightarrow> byte list \<Rightarrow> byte list option" where
  "strip_prefix [] bs = Some bs"
| "strip_prefix (p # ps) [] = None"
| "strip_prefix (p # ps) (b # bs) = (if p = b then strip_prefix ps bs else None)"

fun match_chunks :: "nat \<Rightarrow> str list \<Rightarrow> byte list \<Rightarrow> bool \<Rightarrow> nat \<Rightarrow> PacketError + byte list \<times> bool" where
  "match_chunks max_utf16 [] unmatched matches units = Inr (unmatched, matches)"
| "match_chunks max_utf16 (c # cs) unmatched matches units =
    bind_r (check_length ''UTF-16'' (units + utf16_len c) max_utf16) (\<lambda>u.
      if matches
      then (case strip_prefix (str_bytes c) unmatched of
          Some rest \<Rightarrow> match_chunks max_utf16 cs rest True (units + utf16_len c)
        | None \<Rightarrow> match_chunks max_utf16 cs unmatched False (units + utf16_len c))
      else match_chunks max_utf16 cs unmatched False (units + utf16_len c))"

definition pr_utf_equals :: "str option \<Rightarrow> nat \<Rightarrow> bool field_read" where
  "pr_utf_equals expected max_utf16 r =
    bind_r (ok_or (checked_mul max_utf16 3) LengthOverflow) (\<lambda>encoded_limit.
    bind_r (pr_prefixed encoded_limit ''encoded UTF-8'' r) (\<lambda>(bytes, consumed).
      case (if length bytes \<le> max_utf16
            then (case expected of
                None \<Rightarrow> Some False
              | Some v \<Rightarrow> if is_ascii v then Some (bytes = str_bytes v) else None)
            else None) of
        Some matches \<Rightarrow> Inr (matches, pr_advance consumed r)
      | None \<Rightarrow>
          bind_r (match_chunks max_utf16 (java_chunks bytes) (case expected of None \<Rightarrow> [] | Some v \<Rightarrow> str_bytes v) (expected \<noteq> None) 0)
            (\<lambda>(unmatched, matches). Inr (matches \<and> unmatched = [], pr_advance consumed r))))"

definition pr_bytes :: "nat \<Rightarrow> byte list field_read" where
  "pr_bytes maximum r = bind_r (pr_prefixed maximum ''byte array'' r) (\<lambda>(bytes, consumed). Inr (bytes, pr_advance consumed r))"

definition pr_remaining_bytes :: "nat \<Rightarrow> byte list field_read" where
  "pr_remaining_bytes maximum r = bind_r (check_length ''remaining bytes'' (pr_remaining r) maximum) (\<lambda>u. pr_take (pr_remaining r) r)"

text \<open>A string whose capacity already covers the ten bytes asks for nothing.\<close>

definition pr_identifier :: "alloc_env \<Rightarrow> str field_read" where
  "pr_identifier env r =
    bind_r (pr_utf_capacity env IDENTIFIER_UTF16_LIMIT r) (\<lambda>((v, capacity), r').
    bind_r (identifier_parts v) (\<lambda>parts.
      let v = (case v of c # cs \<Rightarrow> if c = 58 then cs else v | [] \<Rightarrow> v) in
      if 58 \<in> set v then Inr (v, r')
      else if capacity < length (str_bytes v) + 10 \<and> try_reserve_exact env 1 (length (str_bytes v) + 10) = None
      then Inl PacketAllocationFailed
      else Inr (ascii ''minecraft:'' @ v, r')))"

section \<open>Writer\<close>

record PacketWriter =
  pw_output :: "byte list"
  pw_capacity :: nat
  pw_max_bytes :: nat

type_synonym field_write = "PacketWriter \<Rightarrow> (PacketError + unit) \<times> PacketWriter"

definition writer_new :: "nat \<Rightarrow> PacketWriter" where
  "writer_new max_bytes = \<lparr>pw_output = [], pw_capacity = 0, pw_max_bytes = max_bytes\<rparr>"

definition then_w :: "field_write \<Rightarrow> field_write \<Rightarrow> field_write" where
  "then_w m k = (\<lambda>w. case m w of (Inl e, w') \<Rightarrow> (Inl e, w') | (Inr u, w') \<Rightarrow> k w')"

definition check_w :: "PacketError + 'a \<Rightarrow> ('a \<Rightarrow> field_write) \<Rightarrow> field_write" where
  "check_w c k = (\<lambda>w. case c of Inl e \<Rightarrow> (Inl e, w) | Inr x \<Rightarrow> k x w)"

definition pw_extend :: "byte list \<Rightarrow> field_write" where
  "pw_extend bs w = (Inr (), w\<lparr>pw_output := pw_output w @ bs\<rparr>)"

definition pw_reserve :: "alloc_env \<Rightarrow> nat \<Rightarrow> field_write" where
  "pw_reserve env additional w =
    (case checked_add (length (pw_output w)) additional of
       None \<Rightarrow> (Inl LengthOverflow, w)
     | Some required_bytes \<Rightarrow>
         check_w (check_length ''packet output'' required_bytes (pw_max_bytes w)) (\<lambda>u w.
           if required_bytes > pw_capacity w
           then let capacity = max (min (max (min (pw_capacity w * 2) USIZE_MAX) 64) (pw_max_bytes w)) required_bytes in
             (case try_reserve_exact env 1 capacity of
                None \<Rightarrow> (Inl PacketAllocationFailed, w)
              | Some granted \<Rightarrow> (Inr (), w\<lparr>pw_capacity := granted\<rparr>))
           else (Inr (), w)) w)"

definition pw_raw :: "alloc_env \<Rightarrow> byte list \<Rightarrow> field_write" where
  "pw_raw env bs = then_w (pw_reserve env (length bs)) (pw_extend bs)"

text \<open>\<open>encode_varint\<close> has the bytes that \<open>write_varint\<close> stores in the five-byte buffer.\<close>

definition pw_varint :: "alloc_env \<Rightarrow> u32 \<Rightarrow> field_write" where
  "pw_varint env v = pw_raw env (encode_varint v)"

definition pw_unsigned_byte :: "alloc_env \<Rightarrow> byte \<Rightarrow> field_write" where
  "pw_unsigned_byte env b = pw_raw env [b]"

definition pw_boolean :: "alloc_env \<Rightarrow> bool \<Rightarrow> field_write" where
  "pw_boolean env b = pw_unsigned_byte env (if b then 1 else 0)"

definition pw_byte :: "alloc_env \<Rightarrow> byte \<Rightarrow> field_write" where
  "pw_byte env b = pw_unsigned_byte env b"

definition pw_short :: "alloc_env \<Rightarrow> u16 \<Rightarrow> field_write" where
  "pw_short env v = pw_raw env (to_be_bytes 2 v)"

definition pw_unsigned_short :: "alloc_env \<Rightarrow> u16 \<Rightarrow> field_write" where
  "pw_unsigned_short env v = pw_raw env (to_be_bytes 2 v)"

definition pw_int :: "alloc_env \<Rightarrow> u32 \<Rightarrow> field_write" where
  "pw_int env v = pw_raw env (to_be_bytes 4 v)"

definition pw_long :: "alloc_env \<Rightarrow> u64 \<Rightarrow> field_write" where
  "pw_long env v = pw_raw env (to_be_bytes 8 v)"

definition pw_float :: "alloc_env \<Rightarrow> u32 \<Rightarrow> field_write" where
  "pw_float env bits = pw_raw env (to_be_bytes 4 bits)"

definition pw_double :: "alloc_env \<Rightarrow> u64 \<Rightarrow> field_write" where
  "pw_double env bits = pw_raw env (to_be_bytes 8 bits)"

definition pw_uuid :: "alloc_env \<Rightarrow> byte list \<Rightarrow> field_write" where
  "pw_uuid env v = pw_raw env v"

definition pw_length_prefix :: "alloc_env \<Rightarrow> nat \<Rightarrow> field_write" where
  "pw_length_prefix env n =
    check_w (if n \<le> 0x7fffffff then Inr (of_nat n :: u32) else Inl LengthOverflow) (\<lambda>wire_length.
    check_w (ok_or (checked_add (varint_len wire_length) n) LengthOverflow) (\<lambda>whole.
    then_w (pw_reserve env whole) (pw_varint env wire_length)))"

definition pw_bytes :: "alloc_env \<Rightarrow> byte list \<Rightarrow> nat \<Rightarrow> field_write" where
  "pw_bytes env v maximum =
    check_w (check_length ''byte array'' (length v) maximum) (\<lambda>u. then_w (pw_length_prefix env (length v)) (pw_extend v))"

definition pw_utf :: "alloc_env \<Rightarrow> str \<Rightarrow> nat \<Rightarrow> field_write" where
  "pw_utf env v max_utf16 =
    check_w (check_length ''UTF-16'' (utf16_len v) max_utf16) (\<lambda>u.
    check_w (ok_or (checked_mul max_utf16 3) LengthOverflow) (\<lambda>encoded_limit.
    check_w (check_length ''encoded UTF-8'' (length (str_bytes v)) encoded_limit) (\<lambda>u.
    pw_bytes env (str_bytes v) encoded_limit)))"

definition pw_identifier :: "alloc_env \<Rightarrow> str \<Rightarrow> field_write" where
  "pw_identifier env v =
    check_w (identifier_parts v) (\<lambda>(namespace, path).
    check_w (ok_or (Option.bind (checked_add (length (str_bytes namespace)) 1) (\<lambda>n. checked_add n (length (str_bytes path)))) LengthOverflow) (\<lambda>n.
    check_w (check_length ''UTF-16'' n IDENTIFIER_UTF16_LIMIT) (\<lambda>u.
    then_w (pw_length_prefix env n) (pw_extend (str_bytes namespace @ [58] @ str_bytes path)))))"

end
