(* ===== verification/PacketLaws.thy ===== *)
theory PacketLaws
  imports PacketFields NbtRoundTrip
begin

text \<open>
  The laws of packet fields: a field is appended whole or not at all and within the byte limit, and what
  was written is read back. The locales state them once for every kind of field.
\<close>

section \<open>Readers\<close>

lemma pr_rest_advance [simp]: "pr_rest (pr_advance n r) = drop n (pr_rest r)"
  by (simp add: pr_rest_def pr_advance_def add.commute)

lemma pr_remaining_rest: "pr_remaining r = length (pr_rest r)"
  by (simp add: pr_remaining_def pr_rest_def)

lemma pr_advance_advance [simp]: "pr_advance n (pr_advance m r) = pr_advance (m + n) r"
  by (simp add: pr_advance_def add.assoc)

lemma pr_advance_0 [simp]: "pr_advance 0 r = r"
  by (simp add: pr_advance_def)

lemma bind_p_Inr: "bind_p m f r = Inr (y, r') \<longleftrightarrow> (\<exists>x r1. m r = Inr (x, r1) \<and> f x r1 = Inr (y, r'))"
  by (auto simp: bind_p_def bind_r_Inr_iff)

lemma bind_p_step: "m r = Inr (x, r1) \<Longrightarrow> bind_p m f r = f x r1"
  by (simp add: bind_p_def)

lemma pr_take_append: "pr_rest r = bs @ rest \<Longrightarrow> n = length bs \<Longrightarrow> pr_take n r = Inr (bs, pr_advance n r)"
  by (simp add: pr_take_def)

lemma pr_unsigned_byte_read: "pr_rest r = b # rest \<Longrightarrow> pr_unsigned_byte r = Inr (b, pr_advance 1 r)"
  by (simp add: pr_unsigned_byte_def bind_p_def return_p_def pr_take_def)

lemma pr_varint_encode: "pr_rest r = encode_varint v @ rest \<Longrightarrow> pr_varint r = Inr (v, pr_advance (varint_len v) r)"
  by (simp add: pr_varint_def read_encode_varint)

lemma pr_prefixed_encode:
  assumes "pr_rest r = encode_varint (of_nat (length bs)) @ bs @ rest" "length bs \<le> 0x7fffffff" "length bs \<le> maximum"
  shows "pr_prefixed maximum kind r = Inr (bs, varint_len (of_nat (length bs)) + length bs)"
  using assms by (simp add: pr_prefixed_def read_encode_varint unat_of_nat_i32 sint_of_nat_i32 check_length_def Let_def)

lemma length_pr_prefixed: "pr_prefixed maximum kind r = Inr (bs, n) \<Longrightarrow> length bs \<le> 0x7fffffff \<and> length bs \<le> maximum"
proof -
  assume "pr_prefixed maximum kind r = Inr (bs, n)"
  then obtain l prefix where l: "\<not> sint l < 0" "length bs = unat (l :: u32)" "unat l \<le> maximum"
    by (auto simp: pr_prefixed_def check_length_def Let_def split: sum.splits prod.splits if_splits)
  have top_clear: "\<not> bit l 31" using l(1) bit_last_iff [of l] by simp
  have "unat l < 2 ^ 31"
  proof (rule small_word_bits)
    fix k assume k: "bit l k"
    then have "k < 32" using bit_imp_le_length [of l k] by simp
    then show "k < 31" using k top_clear by (cases "k = 31") auto
  qed
  then show ?thesis using l by simp
qed

section \<open>Strings\<close>

lemma count_chunks_spec:
  "count_chunks m cs d u = Inr (d', u') \<Longrightarrow> d' = d + length (str_bytes (concat cs)) \<and> u' = u + utf16_len (concat cs)"
  by (induction cs arbitrary: d u) (fastforce simp: result_simps usize_simps)+

lemma str_bytes_short: "length (str_bytes s) \<le> 4 * utf16_len s"
  by (induction s) (auto simp: utf8_encode_char_def)

text \<open>Counting the bytes of the decoded string cannot overflow, so only the length limit stops the loop.\<close>

lemma count_chunks_total:
  assumes "d + length (str_bytes (concat cs)) \<le> USIZE_MAX"
  shows "count_chunks m cs d u = map_r (\<lambda>x. (d + length (str_bytes (concat cs)), u + utf16_len (concat cs))) (match_chunks m cs unmatched False u)"
  using assms by (induction cs arbitrary: d u) (auto simp: checked_add_def check_length_def add.assoc)

lemma match_chunks_False: "match_chunks m cs unmatched False u = map_r (\<lambda>x. (unmatched, False)) (match_chunks m cs [] False u)"
  by (induction cs arbitrary: u) (auto simp: check_length_def)

lemma strip_prefix_Some: "strip_prefix ps bs = Some rest \<longleftrightarrow> bs = ps @ rest"
  by (induction ps bs rule: strip_prefix.induct) auto

lemma match_chunks_True:
  "map_r (\<lambda>(un, matches). matches \<and> un = []) (match_chunks m cs unmatched True u) =
   map_r (\<lambda>x. unmatched = str_bytes (concat cs)) (match_chunks m cs [] False u)"
proof (induction cs arbitrary: unmatched u)
  case (Cons c cs)
  show ?case
  proof (cases "u + utf16_len c \<le> m")
    case True
    then have ok: "check_length ''UTF-16'' (u + utf16_len c) m = Inr ()" by (simp add: check_length_def)
    show ?thesis
    proof (cases "strip_prefix (str_bytes c) unmatched")
      case None
      then have "unmatched \<noteq> str_bytes c @ str_bytes (concat cs)" using strip_prefix_Some [of "str_bytes c" unmatched] by auto
      then show ?thesis using ok None match_chunks_False [of m cs unmatched "u + utf16_len c"]
        by (cases "match_chunks m cs [] False (u + utf16_len c)") simp_all
    next
      case (Some rest)
      then show ?thesis using ok Cons [of rest] strip_prefix_Some [of "str_bytes c" unmatched rest] by simp
    qed
  qed (simp add: check_length_def)
qed (simp add: eq_commute)

lemma match_chunks_short: "u + utf16_len (concat cs) \<le> m \<Longrightarrow> match_chunks m cs [] False u = Inr ([], False)"
  by (induction cs arbitrary: u) (simp_all add: check_length_def)

definition infallible :: "alloc_env \<Rightarrow> bool" where
  "infallible env \<longleftrightarrow> (\<forall>w n. try_reserve_exact env w n \<noteq> None)"

lemma decoded_fits: "length bytes \<le> 0x7fffffff \<Longrightarrow> length (str_bytes (java_decode bytes)) \<le> USIZE_MAX"
  using str_bytes_short [of "java_decode bytes"] java_decode_props [of bytes] by (simp add: USIZE_MAX_def)

lemma pr_utf_eq:
  assumes "infallible env"
  shows "pr_utf env max_utf16 r =
    bind_r (ok_or (checked_mul max_utf16 3) LengthOverflow) (\<lambda>encoded_limit.
    bind_r (pr_prefixed encoded_limit ''encoded UTF-8'' r) (\<lambda>(bytes, consumed).
    map_r (\<lambda>x. (java_decode bytes, pr_advance consumed r)) (match_chunks max_utf16 (java_chunks bytes) [] False 0)))"
proof -
  have go: "bind_r (count_chunks max_utf16 (java_chunks bytes) 0 0) (\<lambda>(decoded_bytes, units).
      bind_r (ok_or (try_reserve_exact env 1 decoded_bytes) PacketAllocationFailed) (\<lambda>capacity.
      Inr ((concat (java_chunks bytes), capacity), pr_advance consumed r))) =
    map_r (\<lambda>x. ((java_decode bytes, the (try_reserve_exact env 1 (length (str_bytes (java_decode bytes))))), pr_advance consumed r))
      (match_chunks max_utf16 (java_chunks bytes) [] False 0)" if "length bytes \<le> 0x7fffffff" for bytes consumed
    using count_chunks_total [of 0 "java_chunks bytes" max_utf16 0 "[]"] decoded_fits [OF that] assms
    by (cases "match_chunks max_utf16 (java_chunks bytes) [] False 0")
      (auto simp: java_decode_def infallible_def ok_or_def split: option.splits)
  show ?thesis
  proof (cases "checked_mul max_utf16 3")
    case (Some l)
    show ?thesis
    proof (cases "pr_prefixed l ''encoded UTF-8'' r")
      case (Inr p)
      obtain bytes n where p: "p = (bytes, n)" by (cases p)
      have "length bytes \<le> 0x7fffffff" using length_pr_prefixed [OF Inr [unfolded p]] by simp
      from go [OF this] show ?thesis using Some Inr p
        by (cases "match_chunks max_utf16 (java_chunks bytes) [] False 0")
          (simp_all add: pr_utf_def pr_utf_capacity_def bind_p_def return_p_def)
    qed (use Some in \<open>simp add: pr_utf_def pr_utf_capacity_def bind_p_def\<close>)
  qed (simp add: pr_utf_def pr_utf_capacity_def bind_p_def)
qed

text \<open>Comparing a string without allocating it agrees with decoding it, errors included.\<close>

lemma pr_utf_equals_eq:
  assumes env: "infallible env" and ex: "\<And>s. expected = Some s \<Longrightarrow> is_str s"
  shows "pr_utf_equals expected max_utf16 r = map_r (\<lambda>(s, r'). (expected = Some s, r')) (pr_utf env max_utf16 r)"
proof (cases "checked_mul max_utf16 3")
  case (Some l)
  show ?thesis
  proof (cases "pr_prefixed l ''encoded UTF-8'' r")
    case (Inr p)
    obtain bytes n where p: "p = (bytes, n)" by (cases p)
    let ?chunks = "java_chunks bytes"
    have utf: "pr_utf env max_utf16 r = map_r (\<lambda>x. (java_decode bytes, pr_advance n r)) (match_chunks max_utf16 ?chunks [] False 0)"
      using Some Inr p by (simp add: pr_utf_eq [OF env])
    have short: "match_chunks max_utf16 ?chunks [] False 0 = Inr ([], False)" if "length bytes \<le> max_utf16"
      using that java_decode_props [of bytes] by (intro match_chunks_short) (simp add: java_decode_def)
    let ?slow = "bind_r (match_chunks max_utf16 ?chunks (case expected of None \<Rightarrow> [] | Some v \<Rightarrow> str_bytes v) (expected \<noteq> None) 0)
        (\<lambda>(unmatched, matches). Inr (matches \<and> unmatched = [], pr_advance n r))"
    have slow: "?slow = map_r (\<lambda>x. (expected = Some (java_decode bytes), pr_advance n r)) (match_chunks max_utf16 ?chunks [] False 0)"
    proof (cases expected)
      case None
      then show ?thesis using match_chunks_False [of max_utf16 ?chunks "[]" 0]
        by (cases "match_chunks max_utf16 ?chunks [] False 0") simp_all
    next
      case (Some v)
      have "str_bytes v = str_bytes (concat ?chunks) \<longleftrightarrow> v = java_decode bytes"
        using str_bytes_inj [OF ex [OF Some]] java_decode_props [of bytes] by (simp add: java_decode_def)
      then show ?thesis using Some match_chunks_True [of max_utf16 ?chunks "str_bytes v" 0]
        by (cases "match_chunks max_utf16 ?chunks [] False 0"; cases "match_chunks max_utf16 ?chunks (str_bytes v) True 0") auto
    qed
    show ?thesis
    proof (cases "length bytes \<le> max_utf16 \<and> (\<forall>v. expected = Some v \<longrightarrow> is_ascii v)")
      case True
      have "java_decode bytes = v \<longleftrightarrow> bytes = str_bytes v" if "expected = Some v" for v
        using java_decode_ascii_iff [of v bytes] ex that True by blast
      then show ?thesis using Some Inr p True utf short by (cases expected) (auto simp: pr_utf_equals_def)
    next
      case False
      then have "pr_utf_equals expected max_utf16 r = ?slow" using Some Inr p by (cases expected) (auto simp: pr_utf_equals_def)
      then show ?thesis using slow utf by (cases "match_chunks max_utf16 ?chunks [] False 0") simp_all
    qed
  qed (use Some in \<open>simp add: pr_utf_equals_def pr_utf_eq [OF env]\<close>)
qed (simp add: pr_utf_equals_def pr_utf_eq [OF env])

lemma pr_utf_read:
  assumes "infallible env" "is_str s" "utf16_len s \<le> max_utf16" "max_utf16 * 3 \<le> USIZE_MAX" "length (str_bytes s) \<le> max_utf16 * 3" "length (str_bytes s) \<le> 0x7fffffff"
    "pr_rest r = encode_varint (of_nat (length (str_bytes s))) @ str_bytes s @ rest"
  shows "pr_utf env max_utf16 r = Inr (s, pr_advance (varint_len (of_nat (length (str_bytes s))) + length (str_bytes s)) r)"
proof -
  have "match_chunks max_utf16 (java_chunks (str_bytes s)) [] False 0 = Inr ([], False)"
    using assms(2,3) java_decode_str [of s] by (intro match_chunks_short) (simp add: java_decode_def)
  then show ?thesis using assms pr_prefixed_encode [OF assms(7,6,5), of "''encoded UTF-8''"]
    by (simp add: pr_utf_eq checked_mul_def java_decode_str)
qed

section \<open>The writer\<close>

text \<open>The documented behaviour of a reservation that succeeds.\<close>

definition reserve_sound :: "alloc_env \<Rightarrow> bool" where
  "reserve_sound env \<longleftrightarrow> (\<forall>w n c. try_reserve_exact env w n = Some c \<longrightarrow> n \<le> c)"

definition writer_ok :: "PacketWriter \<Rightarrow> bool" where
  "writer_ok w \<longleftrightarrow> length (pw_output w) \<le> pw_max_bytes w \<and> length (pw_output w) \<le> pw_capacity w \<and> pw_max_bytes w \<le> USIZE_MAX"

lemma writer_new_ok: "n \<le> USIZE_MAX \<Longrightarrow> writer_ok (writer_new n)"
  by (simp add: writer_new_def writer_ok_def)

text \<open>The bytes are appended, or the operation fails and the bytes stay as they were.\<close>

definition pw_appends :: "field_write \<Rightarrow> byte list \<Rightarrow> PacketWriter \<Rightarrow> bool" where
  "pw_appends m bs w \<longleftrightarrow>
    (case m w of (res, w') \<Rightarrow> writer_ok w' \<and> pw_max_bytes w' = pw_max_bytes w \<and> pw_output w' = pw_output w @ (if res = Inr () then bs else []))"

lemma pw_reserve_cases:
  assumes "reserve_sound env" "writer_ok w"
  obtains (fails) e where "pw_reserve env n w = (Inl e, w)"
    | (reserves) c where "pw_reserve env n w = (Inr (), w\<lparr>pw_capacity := c\<rparr>)" "length (pw_output w) + n \<le> c" "length (pw_output w) + n \<le> pw_max_bytes w"
proof -
  let ?l = "length (pw_output w) + n"
  let ?c = "max (min (max (min (pw_capacity w * 2) USIZE_MAX) 64) (pw_max_bytes w)) ?l"
  show thesis
  proof (cases "?l \<le> pw_max_bytes w")
    case False
    then show thesis by (intro fails [of "if ?l \<le> USIZE_MAX then LengthLimit ''packet output'' ?l (pw_max_bytes w) else LengthOverflow"])
      (simp add: pw_reserve_def checked_add_def check_w_def check_length_def)
  next
    case True
    then have u: "checked_add (length (pw_output w)) n = Some ?l" using assms(2) by (simp add: checked_add_def writer_ok_def)
    have ok: "check_length ''packet output'' ?l (pw_max_bytes w) = Inr ()" using True by (simp add: check_length_def)
    show thesis
    proof (cases "?l > pw_capacity w")
      case grow: True
      show thesis
      proof (cases "try_reserve_exact env 1 ?c")
        case None
        then show thesis using grow by (intro fails [of PacketAllocationFailed]) (simp add: pw_reserve_def u ok check_w_def Let_def)
      next
        case (Some c)
        then have "?c \<le> c" using assms(1) unfolding reserve_sound_def by blast
        then show thesis using Some grow True by (intro reserves [of c]) (simp_all add: pw_reserve_def u ok check_w_def Let_def)
      qed
    next
      case False
      then show thesis using True by (intro reserves [of "pw_capacity w"]) (simp_all add: pw_reserve_def u ok check_w_def)
    qed
  qed
qed

lemma pw_reserve_enough: "writer_ok w \<Longrightarrow> length (pw_output w) + n \<le> pw_capacity w \<Longrightarrow> length (pw_output w) + n \<le> pw_max_bytes w \<Longrightarrow> pw_reserve env n w = (Inr (), w)"
  by (simp add: pw_reserve_def checked_add_def check_w_def check_length_def writer_ok_def)

lemma writer_ok_extend: "writer_ok w \<Longrightarrow> length (pw_output w) + n \<le> c \<Longrightarrow> length (pw_output w) + n \<le> pw_max_bytes w \<Longrightarrow> length bs = n \<Longrightarrow>
    writer_ok (w\<lparr>pw_capacity := c, pw_output := pw_output w @ bs\<rparr>)"
  by (simp add: writer_ok_def)

lemma pw_appends_fail: "writer_ok w \<Longrightarrow> m w = (Inl e, w) \<Longrightarrow> pw_appends m bs w"
  by (simp add: pw_appends_def)

lemma pw_appends_check: "(\<And>x. c = Inr x \<Longrightarrow> pw_appends (k x) bs w) \<Longrightarrow> writer_ok w \<Longrightarrow> pw_appends (check_w c k) bs w"
  by (cases c) (simp_all add: pw_appends_def check_w_def)

lemma pw_raw_appends: "reserve_sound env \<Longrightarrow> writer_ok w \<Longrightarrow> pw_appends (pw_raw env bs) bs w"
proof -
  assume a: "reserve_sound env" "writer_ok w"
  then show ?thesis
  proof (cases rule: pw_reserve_cases [where n = "length bs"])
    case (fails e)
    then show ?thesis using a by (intro pw_appends_fail) (simp_all add: pw_raw_def then_w_def)
  next
    case (reserves c)
    then show ?thesis using a by (simp add: pw_appends_def pw_raw_def then_w_def pw_extend_def writer_ok_def)
  qed
qed

text \<open>The prefix and the payload are reserved together, so writing the prefix cannot fail any more.\<close>

lemma prefixed_appends:
  assumes "reserve_sound env" "writer_ok w" "length bs = n"
  shows "pw_appends (then_w (pw_length_prefix env n) (pw_extend bs)) (encode_varint (of_nat n) @ bs) w"
proof (cases "n \<le> 0x7fffffff")
  case True
  let ?v = "of_nat n :: u32"
  have "varint_len ?v \<le> 5" using varint_len_bounds [of ?v] by (simp add: MAX_VARINT_BYTES_def)
  then have sum: "checked_add (varint_len ?v) n = Some (varint_len ?v + n)" using True by (simp add: checked_add_def USIZE_MAX_def)
  have step: "pw_length_prefix env n w = then_w (pw_reserve env (varint_len ?v + n)) (pw_varint env ?v) w"
    using True sum by (simp add: pw_length_prefix_def check_w_def)
  show ?thesis using assms(1,2)
  proof (cases rule: pw_reserve_cases [where n = "varint_len ?v + n"])
    case (fails e)
    then show ?thesis using assms step by (intro pw_appends_fail) (simp_all add: then_w_def)
  next
    case (reserves c)
    let ?w = "w\<lparr>pw_capacity := c\<rparr>"
    have "writer_ok ?w" "length (pw_output ?w) + varint_len ?v \<le> pw_capacity ?w" "length (pw_output ?w) + varint_len ?v \<le> pw_max_bytes ?w"
      using assms(2) reserves(2,3) by (simp_all add: writer_ok_def)
    from pw_reserve_enough [OF this] have "pw_varint env ?v ?w = (Inr (), ?w\<lparr>pw_output := pw_output w @ encode_varint ?v\<rparr>)"
      by (simp add: pw_varint_def pw_raw_def then_w_def pw_extend_def)
    then show ?thesis using step reserves assms(2,3) by (simp add: pw_appends_def then_w_def pw_extend_def writer_ok_def)
  qed
next
  case False
  then show ?thesis using assms by (intro pw_appends_fail) (simp_all add: then_w_def pw_length_prefix_def check_w_def)
qed

lemma pw_appends_alt:
  "pw_appends m bs w \<Longrightarrow> (\<exists>e w'. m w = (Inl e, w') \<and> pw_output w' = pw_output w \<and> writer_ok w' \<and> pw_max_bytes w' = pw_max_bytes w) \<or>
    (\<exists>w'. m w = (Inr (), w') \<and> pw_output w' = pw_output w @ bs \<and> writer_ok w' \<and> pw_max_bytes w' = pw_max_bytes w)"
  by (cases "m w"; cases "fst (m w)") (auto simp: pw_appends_def)

section \<open>Fields\<close>

locale field_codec =
  fixes wr :: "alloc_env \<Rightarrow> 'a \<Rightarrow> field_write"
    and rd :: "alloc_env \<Rightarrow> 'a field_read"
    and enc :: "'a \<Rightarrow> byte list"
    and canon :: "'a \<Rightarrow> 'a"
    and wellformed :: "'a \<Rightarrow> bool"
  assumes write_law: "reserve_sound env \<Longrightarrow> writer_ok w \<Longrightarrow> pw_appends (wr env v) (enc v) w"
    and read_law: "infallible env \<Longrightarrow> wellformed v \<Longrightarrow> writer_ok w \<Longrightarrow> wr env v w = (Inr (), w') \<Longrightarrow> pr_rest r = enc v @ rest \<Longrightarrow>
      rd env r = Inr (canon v, pr_advance (length (enc v)) r)"
begin

lemma written: "reserve_sound env \<Longrightarrow> writer_ok w \<Longrightarrow> wr env v w = (Inr (), w') \<Longrightarrow> pw_output w' = pw_output w @ enc v \<and> writer_ok w'"
  using write_law [of env w v] by (simp add: pw_appends_def)

lemma atomic: "reserve_sound env \<Longrightarrow> writer_ok w \<Longrightarrow> wr env v w = (Inl e, w') \<Longrightarrow> pw_output w' = pw_output w \<and> writer_ok w'"
  using write_law [of env w v] by (simp add: pw_appends_def)

lemma round_trip:
  assumes "reserve_sound env" "infallible env" "writer_ok w" "wellformed v" "wr env v w = (Inr (), w')"
    "pr_input r = pw_output w' @ rest" "pr_position r = length (pw_output w)"
  shows "\<exists>r'. rd env r = Inr (canon v, r') \<and> pr_input r' = pr_input r \<and> pr_position r' = length (pw_output w')"
proof -
  note w = written [OF assms(1,3,5)]
  have "pr_rest r = enc v @ rest" using assms(6,7) w by (simp add: pr_rest_def)
  from read_law [OF assms(2,4,3,5) this] show ?thesis using assms(7) w by (simp add: pr_advance_def)
qed

end

lemma raw_codec:
  assumes "\<And>env v. wr env v = pw_raw env (enc v)" "\<And>env v r rest. wellformed v \<Longrightarrow> pr_rest r = enc v @ rest \<Longrightarrow> rd env r = Inr (v, pr_advance (length (enc v)) r)"
  shows "field_codec wr rd enc (\<lambda>v. v) wellformed"
  by unfold_locales (use assms pw_raw_appends in auto)

interpretation varint_field: field_codec pw_varint "\<lambda>env. pr_varint" encode_varint "\<lambda>v. v" "\<lambda>v. True"
  by (rule raw_codec) (simp_all add: pw_varint_def pr_varint_encode)

interpretation boolean_field: field_codec pw_boolean "\<lambda>env. pr_boolean" "\<lambda>b. [if b then 1 else 0]" "\<lambda>v. v" "\<lambda>v. True"
  by (rule raw_codec) (auto simp: pw_boolean_def pw_unsigned_byte_def pr_boolean_def bind_p_def return_p_def pr_unsigned_byte_read)

interpretation byte_field: field_codec pw_byte "\<lambda>env. pr_byte" "\<lambda>b. [b]" "\<lambda>v. v" "\<lambda>v. True"
  by (rule raw_codec) (simp_all add: pw_byte_def pw_unsigned_byte_def pr_byte_def pr_unsigned_byte_read)

interpretation short_field: field_codec pw_short "\<lambda>env. pr_short" "to_be_bytes 2" "\<lambda>v. v" "\<lambda>v. True"
  by (rule raw_codec) (simp_all add: pw_short_def pr_short_def bind_p_def return_p_def pr_take_append)

interpretation int_field: field_codec pw_int "\<lambda>env. pr_int" "to_be_bytes 4" "\<lambda>v. v" "\<lambda>v. True"
  by (rule raw_codec) (simp_all add: pw_int_def pr_int_def bind_p_def return_p_def pr_take_append)

interpretation long_field: field_codec pw_long "\<lambda>env. pr_long" "to_be_bytes 8" "\<lambda>v. v" "\<lambda>v. True"
  by (rule raw_codec) (simp_all add: pw_long_def pr_long_def bind_p_def return_p_def pr_take_append)

interpretation uuid_field: field_codec pw_uuid "\<lambda>env. pr_uuid" "\<lambda>v. v" "\<lambda>v. v" "\<lambda>v. length v = 16"
  by (rule raw_codec) (simp_all add: pw_uuid_def pr_uuid_def pr_take_append)

lemma length_prefix_ok: "pw_length_prefix env n w = (Inr (), w') \<Longrightarrow> n \<le> 0x7fffffff"
  by (auto simp: pw_length_prefix_def check_w_def split: if_splits)

lemma then_w_ok: "then_w m k w = (Inr (), w') \<Longrightarrow> \<exists>w1. m w = (Inr (), w1) \<and> k w1 = (Inr (), w')"
  by (auto simp: then_w_def split: prod.splits sum.splits)

lemma check_w_ok: "check_w c k w = (Inr (), w') \<Longrightarrow> \<exists>x. c = Inr x \<and> k x w = (Inr (), w')"
  by (auto simp: check_w_def split: sum.splits)

lemma check_length_ok: "check_length kind n m = Inr u \<longleftrightarrow> n \<le> m"
  by (simp add: check_length_def)

abbreviation prefixed_bytes :: "byte list \<Rightarrow> byte list" where
  "prefixed_bytes bs \<equiv> encode_varint (of_nat (length bs)) @ bs"

lemma pw_bytes_ok: "pw_bytes env v maximum w = (Inr (), w') \<Longrightarrow> length v \<le> maximum \<and> length v \<le> 0x7fffffff"
  unfolding pw_bytes_def by (auto simp: check_length_ok dest!: check_w_ok then_w_ok dest: length_prefix_ok)

lemma pw_bytes_appends: "reserve_sound env \<Longrightarrow> writer_ok w \<Longrightarrow> pw_appends (pw_bytes env v maximum) (prefixed_bytes v) w"
  unfolding pw_bytes_def by (intro pw_appends_check prefixed_appends refl)

interpretation bytes_field: field_codec "\<lambda>env v. pw_bytes env v n" "\<lambda>env. pr_bytes n" prefixed_bytes "\<lambda>v. v" "\<lambda>v. True" for n
proof unfold_locales
  fix env v w w' r rest
  assume "pw_bytes env v n w = (Inr (), w')" "pr_rest r = prefixed_bytes v @ rest"
  then show "pr_bytes n r = Inr (v, pr_advance (length (prefixed_bytes v)) r)"
    using pw_bytes_ok pr_prefixed_encode [of r v rest n] by (fastforce simp: pr_bytes_def)
qed (rule pw_bytes_appends)

interpretation utf_field: field_codec "\<lambda>env v. pw_utf env v n" "\<lambda>env. pr_utf env n" "\<lambda>v. prefixed_bytes (str_bytes v)" "\<lambda>v. v" is_str for n
proof unfold_locales
  fix env v w w' r rest
  assume a: "infallible env" "is_str v" "pw_utf env v n w = (Inr (), w')" "pr_rest r = prefixed_bytes (str_bytes v) @ rest"
  then have "utf16_len v \<le> n \<and> n * 3 \<le> USIZE_MAX \<and> length (str_bytes v) \<le> n * 3 \<and> length (str_bytes v) \<le> 0x7fffffff"
    unfolding pw_utf_def by (auto simp: check_length_ok result_simps usize_simps dest!: check_w_ok dest: pw_bytes_ok)
  then show "pr_utf env n r = Inr (v, pr_advance (length (prefixed_bytes (str_bytes v))) r)"
    using pr_utf_read [of env v n r rest] a by simp
next
  fix env v w
  assume "reserve_sound env" "writer_ok w"
  then show "pw_appends (pw_utf env v n) (prefixed_bytes (str_bytes v)) w"
    unfolding pw_utf_def by (intro pw_appends_check pw_bytes_appends)
qed

lemma split_once_spec:
  "split_once d v = None \<longleftrightarrow> d \<notin> set v" "split_once d v = Some (a, b) \<Longrightarrow> v = a @ d # b \<and> d \<notin> set a"
  by (induction v arbitrary: a) (auto split: if_splits)

lemma split_once_append: "d \<notin> set a \<Longrightarrow> split_once d (a @ d # b) = Some (a, b)"
  by (induction a) auto

lemma ascii_minecraft: "list_all common_char (ascii ''minecraft'')" "ascii ''minecraft'' \<noteq> []" "ascii ''minecraft'' \<noteq> ascii ''..''"
  by (simp_all add: ascii_def common_char_def)

text \<open>The canonical form of an identifier, with its namespace written out.\<close>

definition canonical_id :: "str \<Rightarrow> str" where
  "canonical_id v = (case identifier_parts v of Inr (namespace, path) \<Rightarrow> namespace @ 58 # path | Inl e \<Rightarrow> v)"

lemma identifier_parts_ok:
  assumes "identifier_parts v = Inr (ns, p)"
  shows "ns \<noteq> []" "list_all common_char ns" "list_all (\<lambda>c. common_char c \<or> c = 47) p" "ns \<noteq> ascii ''..''"
  using assms ascii_minecraft by (auto simp: identifier_parts_def split: option.splits list.splits prod.splits if_splits)

lemma common_char_ascii: "common_char c \<Longrightarrow> c < 0x80 \<and> c \<noteq> 58"
  by (auto simp: common_char_def)

lemma identifier_ascii:
  assumes "identifier_parts v = Inr (ns, p)"
  shows "is_ascii (ns @ 58 # p)" "58 \<notin> set ns" "58 \<notin> set p"
  using identifier_parts_ok [OF assms] common_char_ascii by (fastforce simp: is_ascii_def list_all_iff)+

lemma is_ascii_str: "is_ascii s \<Longrightarrow> is_str s"
  by (auto simp: is_ascii_def is_str_def is_scalar_def)

lemma identifier_parts_canonical: "identifier_parts v = Inr (ns, p) \<Longrightarrow> identifier_parts (ns @ 58 # p) = Inr (ns, p)"
  using identifier_parts_ok [of v ns p] identifier_ascii [of v ns p]
  by (auto simp: identifier_parts_def split_once_append split: list.splits)

lemma identifier_bytes: "identifier_parts v = Inr (ns, p) \<Longrightarrow> str_bytes ns @ [58] @ str_bytes p = str_bytes (ns @ 58 # p)"
  by (simp add: utf8_encode_char_def)

lemma pw_identifier_step:
  assumes "identifier_parts v = Inr (ns, p)"
  shows "pw_identifier env v =
    check_w (ok_or (Option.bind (checked_add (length (str_bytes ns)) 1) (\<lambda>n. checked_add n (length (str_bytes p)))) LengthOverflow) (\<lambda>n.
    check_w (check_length ''UTF-16'' n IDENTIFIER_UTF16_LIMIT) (\<lambda>u. then_w (pw_length_prefix env n) (pw_extend (str_bytes (canonical_id v)))))"
  using assms identifier_bytes [OF assms] by (simp add: pw_identifier_def canonical_id_def check_w_def)

lemma identifier_length:
  "identifier_parts v = Inr (ns, p) \<Longrightarrow> ok_or (Option.bind (checked_add (length (str_bytes ns)) 1) (\<lambda>n. checked_add n (length (str_bytes p)))) LengthOverflow = Inr n \<Longrightarrow>
    n = length (str_bytes (canonical_id v))"
  using identifier_bytes [of v ns p, symmetric] by (auto simp: canonical_id_def result_simps usize_simps bind_eq_Some_conv simp del: str_bytes_simps)

lemma pr_identifier_canonical:
  assumes "identifier_parts v = Inr (ns, p)" "pr_utf env IDENTIFIER_UTF16_LIMIT r = Inr (canonical_id v, r')"
  shows "pr_identifier env r = Inr (canonical_id v, r')"
proof -
  obtain c where c: "pr_utf_capacity env IDENTIFIER_UTF16_LIMIT r = Inr ((canonical_id v, c), r')"
    using assms(2) by (auto simp: pr_utf_def bind_p_Inr return_p_def)
  have s: "canonical_id v = ns @ 58 # p" using assms(1) by (simp add: canonical_id_def)
  have "(case ns @ 58 # p of x # xs \<Rightarrow> if x = 58 then xs else ns @ 58 # p | [] \<Rightarrow> ns @ 58 # p) = ns @ 58 # p"
    using identifier_parts_ok(1) [OF assms(1)] identifier_ascii(2) [OF assms(1)] by (cases ns) auto
  then show ?thesis using c identifier_parts_canonical [OF assms(1)] unfolding s by (simp add: pr_identifier_def Let_def)
qed

interpretation identifier_field: field_codec pw_identifier pr_identifier "\<lambda>v. prefixed_bytes (str_bytes (canonical_id v))" canonical_id "\<lambda>v. True"
proof unfold_locales
  fix env v w
  assume a: "reserve_sound env" "writer_ok w"
  show "pw_appends (pw_identifier env v) (prefixed_bytes (str_bytes (canonical_id v))) w"
  proof (cases "identifier_parts v")
    case (Inr parts)
    obtain ns p where p: "parts = (ns, p)" by (cases parts)
    show ?thesis unfolding pw_identifier_step [OF Inr [unfolded p]] using a identifier_length [OF Inr [unfolded p]]
      by (auto intro!: pw_appends_check prefixed_appends)
  qed (use a in \<open>simp add: pw_identifier_def check_w_def pw_appends_def\<close>)
next
  fix env v w w' r rest
  assume a: "infallible env" "pw_identifier env v w = (Inr (), w')" "pr_rest r = prefixed_bytes (str_bytes (canonical_id v)) @ rest"
  obtain ns p where i: "identifier_parts v = Inr (ns, p)" using a(2) by (cases "identifier_parts v") (auto simp: pw_identifier_def check_w_def)
  have s: "is_ascii (canonical_id v)" using identifier_ascii(1) [OF i] i by (simp add: canonical_id_def)
  have n: "length (str_bytes (canonical_id v)) \<le> 32767" using a(2) identifier_length [OF i] unfolding pw_identifier_step [OF i]
    by (auto simp: check_length_ok IDENTIFIER_UTF16_LIMIT_def dest!: check_w_ok)
  then have "pr_utf env 32767 r = Inr (canonical_id v, pr_advance (length (prefixed_bytes (str_bytes (canonical_id v)))) r)"
    using pr_utf_read [OF a(1) is_ascii_str [OF s], of 32767 r rest] a(3) ascii_bytes [OF s] by (simp add: USIZE_MAX_def)
  then show "pr_identifier env r = Inr (canonical_id v, pr_advance (length (prefixed_bytes (str_bytes (canonical_id v)))) r)"
    by (intro pr_identifier_canonical [OF i]) (simp add: IDENTIFIER_UTF16_LIMIT_def)
qed

section \<open>Sequences of fields\<close>

datatype field =
    F_varint u32 | F_boolean bool | F_byte byte | F_short u16 | F_int u32 | F_long u64 | F_uuid "byte list"
  | F_bytes nat "byte list" | F_utf nat str | F_identifier str

fun write_field :: "alloc_env \<Rightarrow> field \<Rightarrow> field_write" where
  "write_field env (F_varint v) = pw_varint env v"
| "write_field env (F_boolean v) = pw_boolean env v"
| "write_field env (F_byte v) = pw_byte env v"
| "write_field env (F_short v) = pw_short env v"
| "write_field env (F_int v) = pw_int env v"
| "write_field env (F_long v) = pw_long env v"
| "write_field env (F_uuid v) = pw_uuid env v"
| "write_field env (F_bytes n v) = pw_bytes env v n"
| "write_field env (F_utf n v) = pw_utf env v n"
| "write_field env (F_identifier v) = pw_identifier env v"

text \<open>Reading a field of the same kind, with the same limit.\<close>

fun read_field :: "alloc_env \<Rightarrow> field \<Rightarrow> field field_read" where
  "read_field env (F_varint v) = bind_p pr_varint (\<lambda>x. return_p (F_varint x))"
| "read_field env (F_boolean v) = bind_p pr_boolean (\<lambda>x. return_p (F_boolean x))"
| "read_field env (F_byte v) = bind_p pr_byte (\<lambda>x. return_p (F_byte x))"
| "read_field env (F_short v) = bind_p pr_short (\<lambda>x. return_p (F_short x))"
| "read_field env (F_int v) = bind_p pr_int (\<lambda>x. return_p (F_int x))"
| "read_field env (F_long v) = bind_p pr_long (\<lambda>x. return_p (F_long x))"
| "read_field env (F_uuid v) = bind_p pr_uuid (\<lambda>x. return_p (F_uuid x))"
| "read_field env (F_bytes n v) = bind_p (pr_bytes n) (\<lambda>x. return_p (F_bytes n x))"
| "read_field env (F_utf n v) = bind_p (pr_utf env n) (\<lambda>x. return_p (F_utf n x))"
| "read_field env (F_identifier v) = bind_p (pr_identifier env) (\<lambda>x. return_p (F_identifier x))"

fun canonical_field :: "field \<Rightarrow> field" where
  "canonical_field (F_identifier v) = F_identifier (canonical_id v)"
| "canonical_field f = f"

fun field_ok :: "field \<Rightarrow> bool" where
  "field_ok (F_uuid v) \<longleftrightarrow> length v = 16"
| "field_ok (F_utf n v) \<longleftrightarrow> is_str v"
| "field_ok f \<longleftrightarrow> True"

fun write_fields :: "alloc_env \<Rightarrow> field list \<Rightarrow> field_write" where
  "write_fields env [] = (\<lambda>w. (Inr (), w))"
| "write_fields env (f # fs) = then_w (write_field env f) (write_fields env fs)"

fun read_fields :: "alloc_env \<Rightarrow> field list \<Rightarrow> field list field_read" where
  "read_fields env [] = return_p []"
| "read_fields env (f # fs) = bind_p (read_field env f) (\<lambda>x. bind_p (read_fields env fs) (\<lambda>xs. return_p (x # xs)))"

lemma write_field_appends: "reserve_sound env \<Longrightarrow> writer_ok w \<Longrightarrow> \<exists>bs. pw_appends (write_field env f) bs w"
  by (cases f) (auto intro: varint_field.write_law boolean_field.write_law byte_field.write_law short_field.write_law int_field.write_law
      long_field.write_law uuid_field.write_law bytes_field.write_law utf_field.write_law identifier_field.write_law)

lemmas field_round_trips = varint_field.round_trip boolean_field.round_trip byte_field.round_trip short_field.round_trip int_field.round_trip
  long_field.round_trip uuid_field.round_trip bytes_field.round_trip utf_field.round_trip identifier_field.round_trip

lemma read_tagged: "\<exists>r'. rd r = Inr (x, r') \<and> P r' \<Longrightarrow> \<exists>r'. bind_p rd (\<lambda>x. return_p (C x)) r = Inr (C x, r') \<and> P r'"
  by (auto simp: bind_p_def return_p_def)

lemma field_round_trip:
  assumes "reserve_sound env" "infallible env" "writer_ok w" "field_ok f" "write_field env f w = (Inr (), w')"
    "pr_input r = pw_output w' @ rest" "pr_position r = length (pw_output w)"
  shows "\<exists>r'. read_field env f r = Inr (canonical_field f, r') \<and> pr_input r' = pr_input r \<and> pr_position r' = length (pw_output w')"
  using assms(4,5) by (cases f) (simp_all only: read_field.simps canonical_field.simps write_field.simps field_ok.simps,
    (rule read_tagged, rule field_round_trips [OF assms(1-3) _ _ assms(6,7)], simp_all)+)

lemma write_fields_cases:
  assumes "write_fields env (f # fs) w = (Inr (), w')"
  obtains w1 where "write_field env f w = (Inr (), w1)" "write_fields env fs w1 = (Inr (), w')"
  using then_w_ok [of "write_field env f" "write_fields env fs" w w'] assms by auto

lemma write_field_ok: "reserve_sound env \<Longrightarrow> writer_ok w \<Longrightarrow> write_field env f w = (Inr (), w') \<Longrightarrow> writer_ok w' \<and> (\<exists>bs. pw_output w' = pw_output w @ bs)"
  using write_field_appends [of env w f] by (auto simp: pw_appends_def)

lemma write_fields_ok: "reserve_sound env \<Longrightarrow> writer_ok w \<Longrightarrow> write_fields env fs w = (Inr (), w') \<Longrightarrow> writer_ok w' \<and> (\<exists>bs. pw_output w' = pw_output w @ bs)"
proof (induction fs arbitrary: w)
  case (Cons f fs)
  obtain w1 where w1: "write_field env f w = (Inr (), w1)" "write_fields env fs w1 = (Inr (), w')" by (rule write_fields_cases [OF Cons(4)])
  note one = write_field_ok [OF Cons(2,3) w1(1)]
  show ?case using one Cons(1) [OF Cons(2) _ w1(2)] by auto
qed simp

lemma fields_round_trip:
  assumes "reserve_sound env" "infallible env" "writer_ok w" "list_all field_ok fs" "write_fields env fs w = (Inr (), w')"
    "pr_input r = pw_output w' @ rest" "pr_position r = length (pw_output w)"
  shows "\<exists>r'. read_fields env fs r = Inr (map canonical_field fs, r') \<and> pr_input r' = pr_input r \<and> pr_position r' = length (pw_output w')"
  using assms(3-7)
proof (induction fs arbitrary: w r)
  case Nil
  then show ?case by (simp add: return_p_def)
next
  case (Cons f fs)
  obtain w1 where w1: "write_field env f w = (Inr (), w1)" "write_fields env fs w1 = (Inr (), w')" by (rule write_fields_cases [OF Cons(4)])
  have ok1: "writer_ok w1" using write_field_ok [OF assms(1) Cons(2) w1(1)] by simp
  obtain bs where bs: "pw_output w' = pw_output w1 @ bs" using write_fields_ok [OF assms(1) ok1 w1(2)] by blast
  have f: "field_ok f" "list_all field_ok fs" using Cons(3) by simp_all
  have input: "pr_input r = pw_output w1 @ (bs @ rest)" using Cons(5) bs by simp
  obtain r1 where r1: "read_field env f r = Inr (canonical_field f, r1)" "pr_input r1 = pr_input r" "pr_position r1 = length (pw_output w1)"
    using field_round_trip [OF assms(1,2) Cons(2) f(1) w1(1) input Cons(6)] by blast
  have "pr_input r1 = pw_output w' @ rest" using r1(2) Cons(5) by simp
  from Cons(1) [OF ok1 f(2) w1(2) this r1(3)] show ?case using r1 by (auto simp: bind_p_def return_p_def)
qed

lemma write_fields_read_back:
  assumes "reserve_sound env" "infallible env" "max_bytes \<le> USIZE_MAX" "list_all field_ok fs"
    "write_fields env fs (writer_new max_bytes) = (Inr (), w)"
  shows "length (pw_output w) \<le> max_bytes \<and>
    (\<exists>r. read_fields env fs (reader_new (pw_output w)) = Inr (map canonical_field fs, r) \<and> pr_finish r = Inr ())"
proof -
  note new = writer_new_ok [OF assms(3)]
  have max: "pw_max_bytes w' = pw_max_bytes v" if "write_fields env gs v = (Inr (), w')" "writer_ok v" for gs v w'
    using that
  proof (induction gs arbitrary: v)
    case (Cons g gs)
    obtain v1 where v1: "write_field env g v = (Inr (), v1)" "write_fields env gs v1 = (Inr (), w')" by (rule write_fields_cases [OF Cons(2)])
    obtain bs where "pw_appends (write_field env g) bs v" using write_field_appends [OF assms(1) Cons(3)] by blast
    then show ?case using Cons(1) [OF v1(2)] v1(1) by (auto simp: pw_appends_def)
  qed simp
  have "writer_ok w" using write_fields_ok [OF assms(1) new assms(5)] by blast
  then have "length (pw_output w) \<le> max_bytes" using max [OF assms(5) new] by (simp add: writer_ok_def writer_new_def)
  moreover obtain r where "read_fields env fs (reader_new (pw_output w)) = Inr (map canonical_field fs, r)"
    "pr_input r = pw_output w" "pr_position r = length (pw_output w)"
    using fields_round_trip [OF assms(1,2) new assms(4,5), of "reader_new (pw_output w)" "[]"] by (auto simp: reader_new_def writer_new_def)
  ultimately show ?thesis by (auto simp: pr_finish_def pr_remaining_def)
qed


section \<open>Properties\<close>

text \<open>
  C11: What is written is read back. A packet of any sequence of fields that the writer accepts stays
  within its byte limit, and reading fields of the same kinds and limits gives the same values, identifiers
  with their namespace written out, and ends exactly at the end of the packet.
\<close>

theorem packet_fields_round_trip:
  assumes "reserve_sound env" "infallible env" "max_bytes \<le> USIZE_MAX" "list_all field_ok fs"
    "write_fields env fs (writer_new max_bytes) = (Inr (), w)"
  shows "length (pw_output w) \<le> max_bytes \<and>
    (\<exists>r. read_fields env fs (reader_new (pw_output w)) = Inr (map canonical_field fs, r) \<and> pr_finish r = Inr ())"
  using assms by (rule write_fields_read_back)
theorem packet_fields_round_trip_witness:
  "\<exists>w. write_fields plain_env [F_boolean True, F_short 7, F_identifier (ascii ''a/b'')] (writer_new 100) = (Inr (), w) \<and> length (pw_output w) \<le> 100 \<and>
    (\<exists>r. read_fields plain_env [F_boolean True, F_short 7, F_identifier (ascii ''a/b'')] (reader_new (pw_output w)) =
      Inr ([F_boolean True, F_short 7, F_identifier (ascii ''minecraft:a/b'')], r) \<and> pr_finish r = Inr ())"
proof -
  let ?fs = "[F_boolean True, F_short 7, F_identifier (ascii ''a/b'')]"
  have env: "reserve_sound plain_env" "infallible plain_env" by (simp_all add: reserve_sound_def infallible_def plain_env_def)
  have parts: "identifier_parts (ascii ''a/b'') = Inr (ascii ''minecraft'', ascii ''a/b'')" by code_simp
  have len: "length (str_bytes (ascii ''minecraft'')) = 9" "length (str_bytes (ascii ''a/b'')) = 3" "varint_len (13 :: u32) = 1" by code_simp+
  obtain w where w: "write_fields plain_env ?fs (writer_new 100) = (Inr (), w)"
    by (simp add: then_w_def pw_boolean_def pw_unsigned_byte_def pw_short_def pw_raw_def pw_reserve_def pw_extend_def writer_new_def check_w_def check_length_def
        checked_add_def USIZE_MAX_def plain_env_def pw_identifier_def parts len pw_length_prefix_def pw_varint_def IDENTIFIER_UTF16_LIMIT_def Let_def)
  have "canonical_id (ascii ''a/b'') = ascii ''minecraft:a/b''" unfolding canonical_id_def parts by (simp add: ascii_def)
  then show ?thesis using w packet_fields_round_trip [OF env, of 100 ?fs w] by (simp add: USIZE_MAX_def)
qed

text \<open>
  A field is written whole or not at all. Whatever the field and its limits, the packet never grows
  beyond its byte limit, and a field that is refused leaves the bytes written so far as they were.
\<close>

theorem packet_field_atomic:
  assumes "reserve_sound env" "writer_ok w"
  shows "case write_field env f w of (result, w') \<Rightarrow>
    writer_ok w' \<and> length (pw_output w') \<le> pw_max_bytes w \<and> (result \<noteq> Inr () \<longrightarrow> pw_output w' = pw_output w)"
proof -
  obtain bs where "pw_appends (write_field env f) bs w" using write_field_appends [OF assms] by blast
  then show ?thesis by (auto simp: pw_appends_def writer_ok_def split: prod.splits)
qed

theorem packet_field_atomic_witness:
  "writer_ok (writer_new 4) \<and>
    (case write_field plain_env (F_bytes 10 [1, 2, 3, 4]) (writer_new 4) of (result, w') \<Rightarrow>
      writer_ok w' \<and> length (pw_output w') \<le> pw_max_bytes (writer_new 4) \<and> (result \<noteq> Inr () \<longrightarrow> pw_output w' = pw_output (writer_new 4)))"
proof -
  have "reserve_sound plain_env" "writer_ok (writer_new 4)" by (simp_all add: reserve_sound_def plain_env_def writer_ok_def writer_new_def USIZE_MAX_def)
  then show ?thesis using packet_field_atomic [of plain_env "writer_new 4" "F_bytes 10 [1, 2, 3, 4]"] by simp
qed

text \<open>
  C16: Comparing a string field with an expected string, without allocating, is decoding the field with
  replacement of malformed bytes and comparing the result, for every input: same answer, same cursor and
  the same errors as a decoder whose allocations succeed. The shortcut on the bytes of ASCII strings is sound.
\<close>

theorem utf_equals_decodes:
  assumes "infallible env" "\<And>s. expected = Some s \<Longrightarrow> is_str s"
  shows "pr_utf_equals expected max_utf16 r = map_r (\<lambda>(s, r'). (expected = Some s, r')) (pr_utf env max_utf16 r)"
  using assms by (rule pr_utf_equals_eq)

theorem utf_equals_decodes_witness:
  "pr_utf_equals (Some (ascii ''core'')) 32767 (reader_new [4, 99, 111, 114, 101]) =
    map_r (\<lambda>(s, r'). (Some (ascii ''core'') = Some s, r')) (pr_utf plain_env 32767 (reader_new [4, 99, 111, 114, 101]))"
proof (rule utf_equals_decodes)
  show "infallible plain_env" by (simp add: infallible_def plain_env_def)
  show "\<And>s. Some (ascii ''core'') = Some s \<Longrightarrow> is_str s" by (auto simp: ascii_def is_str_def is_scalar_def)
qed

end
