(* ===== verification/ConfigPacket.thy ===== *)
theory ConfigPacket
  imports PacketLaws
begin

text \<open>
  \<^verbatim>\<open>src/server/configuration/packet.rs\<close>, with the parts of \<^verbatim>\<open>src/server/configuration_data.rs\<close> that the
  packets publish: the decoder of serverbound packets and the encoder of clientbound ones, field by field
  over the reader and the writer of \<^theory_text>\<open>PacketFields\<close>.
\<close>

section \<open>The configuration snapshot\<close>

record KnownPack =
  kp_namespace :: str
  kp_id :: str
  kp_version :: str

record RegistryEntry =
  re_id :: str
  re_known_pack :: "KnownPack option"
  re_network_nbt :: "byte list"

record RegistryData =
  rd_id :: str
  rd_entries :: "RegistryEntry list"

record RegistryTag =
  rt_id :: str
  rt_members :: "u32 list"

record RegistryTags =
  rts_registry :: str
  rts_tags :: "RegistryTag list"

record ConfigurationSnapshot =
  cs_registries :: "RegistryData list"
  cs_tags :: "RegistryTags list"
  cs_known_packs :: "KnownPack list"
  cs_features :: "str list"

definition negotiate_known_packs :: "ConfigurationSnapshot \<Rightarrow> KnownPack list \<Rightarrow> KnownPack list" where
  "negotiate_known_packs snapshot response = (if response = cs_known_packs snapshot then cs_known_packs snapshot else [])"

definition entry_contents :: "KnownPack list \<Rightarrow> RegistryEntry \<Rightarrow> byte list option" where
  "entry_contents accepted entry =
    (if (case re_known_pack entry of Some pack \<Rightarrow> pack \<in> set accepted | None \<Rightarrow> False) then None else Some (re_network_nbt entry))"

section \<open>Serverbound packets\<close>

record ClientInformation =
  ci_language :: str
  ci_view_distance :: byte
  ci_chat_visibility :: byte
  ci_chat_colors :: bool
  ci_model_customization :: byte
  ci_main_hand :: byte
  ci_text_filtering :: bool
  ci_allows_listing :: bool
  ci_particle_status :: byte

definition default_client_information :: ClientInformation where
  "default_client_information =
    \<lparr>ci_language = ascii ''en_us'', ci_view_distance = 2, ci_chat_visibility = 0, ci_chat_colors = True, ci_model_customization = 0,
     ci_main_hand = 1, ci_text_filtering = False, ci_allows_listing = False, ci_particle_status = 0\<rparr>"

datatype ResourcePackAction =
    SuccessfullyLoaded | Declined | FailedDownload | PackAccepted | Downloaded | InvalidUrl | FailedReload | Discarded

definition is_terminal :: "ResourcePackAction \<Rightarrow> bool" where
  "is_terminal action = (case action of PackAccepted \<Rightarrow> False | Downloaded \<Rightarrow> False | _ \<Rightarrow> True)"

definition action_of :: "u32 \<Rightarrow> ResourcePackAction option" where
  "action_of v =
    (if v = 0 then Some SuccessfullyLoaded else if v = 1 then Some Declined else if v = 2 then Some FailedDownload
     else if v = 3 then Some PackAccepted else if v = 4 then Some Downloaded else if v = 5 then Some InvalidUrl
     else if v = 6 then Some FailedReload else if v = 7 then Some Discarded else None)"

record KnownPackResponse =
  kr_fields :: "byte list"
  kr_count :: nat

datatype Serverbound =
    SB_ClientInformation ClientInformation
  | SB_CookieResponse str "byte list option"
  | SB_CustomPayload str "str option" "byte list"
  | SB_FinishConfiguration
  | SB_KeepAlive u64
  | SB_Pong u32
  | SB_ResourcePack "byte list" ResourcePackAction
  | SB_SelectKnownPacks KnownPackResponse
  | SB_CustomClick str "Tag option"
  | SB_AcceptCodeOfConduct

definition fail_p :: "PacketError \<Rightarrow> 'a field_read" where
  "fail_p e = (\<lambda>r. Inl e)"

fun match_packs :: "KnownPack list \<Rightarrow> bool \<Rightarrow> bool field_read" where
  "match_packs [] matches = return_p matches"
| "match_packs (pack # packs) matches =
    bind_p (pr_utf_equals (Some (kp_namespace pack)) 32767) (\<lambda>a.
    bind_p (pr_utf_equals (Some (kp_id pack)) 32767) (\<lambda>b.
    bind_p (pr_utf_equals (Some (kp_version pack)) 32767) (\<lambda>c.
    match_packs packs (matches \<and> a \<and> b \<and> c))))"

definition response_matches :: "KnownPackResponse \<Rightarrow> KnownPack list \<Rightarrow> PacketError + bool" where
  "response_matches response expected =
    (if kr_count response \<noteq> length expected then Inr False
     else bind_r (match_packs expected True (reader_new (kr_fields response))) (\<lambda>(matches, r).
       bind_r (pr_finish r) (\<lambda>u. Inr matches)))"

text \<open>\<open>rem_euclid(3) as u8\<close> of a signed number.\<close>

definition mod3 :: "u32 \<Rightarrow> byte" where
  "mod3 v = of_int (sint v mod 3)"

definition read_client_information :: "alloc_env \<Rightarrow> Serverbound field_read" where
  "read_client_information env =
    bind_p (pr_utf env 16) (\<lambda>language.
    bind_p pr_byte (\<lambda>view_distance.
    bind_p pr_varint (\<lambda>chat_visibility.
    bind_p pr_boolean (\<lambda>chat_colors.
    bind_p pr_unsigned_byte (\<lambda>model_customization.
    bind_p pr_varint (\<lambda>main_hand.
    bind_p pr_boolean (\<lambda>text_filtering.
    bind_p pr_boolean (\<lambda>allows_listing.
    bind_p pr_varint (\<lambda>particle_status.
    return_p (SB_ClientInformation
      \<lparr>ci_language = language, ci_view_distance = view_distance, ci_chat_visibility = mod3 chat_visibility, ci_chat_colors = chat_colors,
       ci_model_customization = model_customization, ci_main_hand = (if main_hand = 1 then 1 else 0), ci_text_filtering = text_filtering,
       ci_allows_listing = allows_listing, ci_particle_status = mod3 particle_status\<rparr>))))))))))"

definition read_cookie :: "alloc_env \<Rightarrow> nat \<Rightarrow> (str \<times> byte list option) field_read" where
  "read_cookie env maximum =
    bind_p (pr_identifier env) (\<lambda>key.
    bind_p pr_boolean (\<lambda>present.
    if present then bind_p (pr_bytes maximum) (\<lambda>payload. return_p (key, Some payload)) else return_p (key, None)))"

definition read_custom_payload :: "alloc_env \<Rightarrow> Serverbound field_read" where
  "read_custom_payload env =
    bind_p (pr_identifier env) (\<lambda>channel.
    if channel = ascii ''minecraft:brand''
    then bind_p (pr_utf env 32767) (\<lambda>brand. return_p (SB_CustomPayload channel (Some brand) []))
    else bind_p (pr_remaining_bytes 32767) (\<lambda>payload. return_p (SB_CustomPayload channel None payload)))"

definition read_resource_pack :: "Serverbound field_read" where
  "read_resource_pack =
    bind_p pr_uuid (\<lambda>uuid.
    bind_p pr_varint (\<lambda>v.
    case action_of v of
      Some action \<Rightarrow> return_p (SB_ResourcePack uuid action)
    | None \<Rightarrow> fail_p (InvalidValue ''invalid resource pack response action'')))"

fun skip_strings :: "nat \<Rightarrow> unit field_read" where
  "skip_strings 0 = return_p ()"
| "skip_strings (Suc n) = bind_p (pr_utf_equals None 32767) (\<lambda>b. skip_strings n)"

definition read_known_packs :: "Serverbound field_read" where
  "read_known_packs =
    bind_p pr_varint (\<lambda>v.
    if \<not> (0 \<le> sint v \<and> sint v \<le> 64) then fail_p (InvalidValue ''known pack response must contain at most 64 entries'')
    else (\<lambda>r. bind_r (skip_strings (3 * unat v) r) (\<lambda>(u, r').
      Inr (SB_SelectKnownPacks \<lparr>kr_fields = take (pr_position r' - pr_position r) (drop (pr_position r) (pr_input r)), kr_count = unat v\<rparr>, r'))))"

definition custom_click_limits :: Limits where
  "custom_click_limits = \<lparr>vanilla_quota_bytes = 32768, allocation_bytes = 1024 * 1024, max_depth = 16, output_bytes = 65536\<rparr>"

definition read_custom_click :: "alloc_env \<Rightarrow> Serverbound field_read" where
  "read_custom_click env =
    bind_p (pr_identifier env) (\<lambda>ident.
    bind_p (pr_bytes 65536) (\<lambda>payload.
    case read_network env payload custom_click_limits of
      Inl e \<Rightarrow> fail_p (InvalidValue ''invalid bounded custom click NBT'')
    | Inr (v, rest) \<Rightarrow> return_p (SB_CustomClick ident (if v = End then None else Some v))))"

definition decode_body :: "alloc_env \<Rightarrow> Serverbound field_read" where
  "decode_body env =
    bind_p pr_varint (\<lambda>v.
    if v = 0 then read_client_information env
    else if v = 1 then bind_p (read_cookie env 5120) (\<lambda>(key, payload). return_p (SB_CookieResponse key payload))
    else if v = 2 then read_custom_payload env
    else if v = 3 then return_p SB_FinishConfiguration
    else if v = 4 then bind_p pr_long (\<lambda>v. return_p (SB_KeepAlive v))
    else if v = 5 then bind_p pr_int (\<lambda>v. return_p (SB_Pong v))
    else if v = 6 then read_resource_pack
    else if v = 7 then read_known_packs
    else if v = 8 then read_custom_click env
    else if v = 9 then return_p SB_AcceptCodeOfConduct
    else fail_p (InvalidValue ''unknown configuration packet ID''))"

definition config_decode :: "alloc_env \<Rightarrow> byte list \<Rightarrow> nat \<Rightarrow> PacketError + Serverbound" where
  "config_decode env input max_packet_bytes =
    (if length input > max_packet_bytes then Inl (LengthLimit ''configuration packet'' (length input) max_packet_bytes)
     else bind_r (decode_body env (reader_new input)) (\<lambda>(packet, r). bind_r (pr_finish r) (\<lambda>u. Inr packet)))"

section \<open>Clientbound packets\<close>

datatype Clientbound =
    CB_Brand str
  | CB_EnabledFeatures "str list"
  | CB_SelectKnownPacks "KnownPack list"
  | CB_Registry RegistryData "KnownPack list"
  | CB_UpdateTags ConfigurationSnapshot
  | CB_KeepAlive u64
  | CB_Disconnect str

definition pw_count :: "alloc_env \<Rightarrow> nat \<Rightarrow> field_write" where
  "pw_count env v = check_w (if v \<le> 0x7fffffff then Inr (of_nat v) else Inl LengthOverflow) (pw_varint env)"

fun each_w :: "('a \<Rightarrow> field_write) \<Rightarrow> 'a list \<Rightarrow> field_write" where
  "each_w f [] = (\<lambda>w. (Inr (), w))"
| "each_w f (x # xs) = then_w (f x) (each_w f xs)"

definition registry_header :: "alloc_env \<Rightarrow> str \<Rightarrow> nat \<Rightarrow> field_write" where
  "registry_header env ident entries = then_w (pw_varint env 7) (then_w (pw_identifier env ident) (pw_count env entries))"

definition registry_entry :: "alloc_env \<Rightarrow> str \<Rightarrow> byte list option \<Rightarrow> field_write" where
  "registry_entry env ident contents =
    then_w (pw_identifier env ident) (then_w (pw_boolean env (contents \<noteq> None))
      (case contents of Some bytes \<Rightarrow> pw_raw env bytes | None \<Rightarrow> (\<lambda>w. (Inr (), w))))"

definition tag_registry :: "alloc_env \<Rightarrow> str \<Rightarrow> nat \<Rightarrow> field_write" where
  "tag_registry env ident tags = then_w (pw_identifier env ident) (pw_count env tags)"

definition tag_entry :: "alloc_env \<Rightarrow> str \<Rightarrow> u32 list \<Rightarrow> field_write" where
  "tag_entry env ident members = then_w (pw_identifier env ident) (then_w (pw_count env (length members)) (each_w (pw_varint env) members))"

definition char_utf16 :: "nat \<Rightarrow> nbt_string" where
  "char_utf16 c = (if c < 0x10000 then [of_nat c] else [of_nat (0xd800 + (c - 0x10000) div 1024), of_nat (0xdc00 + (c - 0x10000) mod 1024)])"

definition str_utf16 :: "str \<Rightarrow> nbt_string" where
  "str_utf16 s = concat (map char_utf16 s)"

definition encode_disconnect :: "alloc_env \<Rightarrow> str \<Rightarrow> nat \<Rightarrow> field_write" where
  "encode_disconnect env reason max_packet_bytes =
    then_w (pw_varint env 2)
      (case write_network env (String (str_utf16 reason)) [] (default_limits\<lparr>output_bytes := max_packet_bytes - 1\<rparr>) of
         (Inl e, bytes) \<Rightarrow> check_w (Inl (InvalidValue ''disconnect component exceeds packet limit'')) (\<lambda>u :: unit. pw_raw env bytes)
       | (Inr u, bytes) \<Rightarrow> pw_raw env bytes)"

definition encode_fields :: "alloc_env \<Rightarrow> Clientbound \<Rightarrow> nat \<Rightarrow> field_write" where
  "encode_fields env packet max_packet_bytes =
    (case packet of
       CB_Brand brand \<Rightarrow>
         then_w (pw_varint env 1) (then_w (pw_identifier env (ascii ''minecraft:brand'')) (pw_utf env brand 32767))
     | CB_EnabledFeatures features \<Rightarrow>
         then_w (pw_varint env 13) (then_w (pw_count env (length features)) (each_w (pw_identifier env) features))
     | CB_SelectKnownPacks packs \<Rightarrow>
         then_w (pw_varint env 15) (then_w (pw_count env (length packs)) (each_w (\<lambda>pack.
           then_w (pw_utf env (kp_namespace pack) 32767) (then_w (pw_utf env (kp_id pack) 32767) (pw_utf env (kp_version pack) 32767))) packs))
     | CB_Registry registry negotiated \<Rightarrow>
         then_w (registry_header env (rd_id registry) (length (rd_entries registry)))
           (each_w (\<lambda>entry. registry_entry env (re_id entry) (entry_contents negotiated entry)) (rd_entries registry))
     | CB_UpdateTags snapshot \<Rightarrow>
         then_w (pw_varint env 14) (then_w (pw_count env (length (cs_tags snapshot))) (each_w (\<lambda>registry.
           then_w (tag_registry env (rts_registry registry) (length (rts_tags registry)))
             (each_w (\<lambda>tag. tag_entry env (rt_id tag) (rt_members tag)) (rts_tags registry))) (cs_tags snapshot)))
     | CB_KeepAlive v \<Rightarrow> then_w (pw_varint env 4) (pw_long env v)
     | CB_Disconnect reason \<Rightarrow> encode_disconnect env reason max_packet_bytes)"

definition config_encode :: "alloc_env \<Rightarrow> Clientbound \<Rightarrow> nat \<Rightarrow> PacketError + byte list" where
  "config_encode env packet max_packet_bytes =
    (case encode_fields env packet max_packet_bytes (writer_new max_packet_bytes) of
       (Inl e, w) \<Rightarrow> Inl e
     | (Inr u, w) \<Rightarrow> Inr (pw_output w))"

end
