(* ===== verification/ConfigLaws.thy ===== *)
theory ConfigLaws
  imports ConfigPacket
begin

text \<open>
  The known-pack response: the decoder checks and skips its strings, and comparing it later reads the same
  bytes again, so the comparison cannot fail any more and answers whether the decoded strings are the
  expected ones.
\<close>

section \<open>A field depends only on its own bytes\<close>

definition local_read :: "'a field_read \<Rightarrow> bool" where
  "local_read rd \<longleftrightarrow> (\<forall>r x r'. rd r = Inr (x, r') \<longrightarrow>
    (\<exists>n \<le> length (pr_rest r). r' = pr_advance n r \<and>
      (\<forall>r2 rest. pr_rest r2 = take n (pr_rest r) @ rest \<longrightarrow> rd r2 = Inr (x, pr_advance n r2))))"

lemma local_readE:
  assumes "local_read rd" "rd r = Inr (x, r')"
  obtains n where "n \<le> length (pr_rest r)" "r' = pr_advance n r" "\<And>r2 rest. pr_rest r2 = take n (pr_rest r) @ rest \<Longrightarrow> rd r2 = Inr (x, pr_advance n r2)"
  using assms unfolding local_read_def by blast

lemma local_return: "local_read (return_p x)"
  by (auto simp: local_read_def return_p_def intro!: exI [of _ 0])

lemma local_bind:
  assumes "local_read m" "\<And>x. local_read (f x)"
  shows "local_read (bind_p m f)"
  unfolding local_read_def
proof (intro allI impI)
  fix r y r'
  assume "bind_p m f r = Inr (y, r')"
  then obtain x r1 where 1: "m r = Inr (x, r1)" "f x r1 = Inr (y, r')" by (auto simp: bind_p_Inr)
  obtain a where a: "a \<le> length (pr_rest r)" "r1 = pr_advance a r" "\<And>r2 rest. pr_rest r2 = take a (pr_rest r) @ rest \<Longrightarrow> m r2 = Inr (x, pr_advance a r2)"
    by (rule local_readE [OF assms(1) 1(1)]) blast
  obtain b where b: "b \<le> length (pr_rest r1)" "r' = pr_advance b r1" "\<And>r2 rest. pr_rest r2 = take b (pr_rest r1) @ rest \<Longrightarrow> f x r2 = Inr (y, pr_advance b r2)"
    by (rule local_readE [OF assms(2) 1(2)]) blast
  show "\<exists>n \<le> length (pr_rest r). r' = pr_advance n r \<and> (\<forall>r2 rest. pr_rest r2 = take n (pr_rest r) @ rest \<longrightarrow> bind_p m f r2 = Inr (y, pr_advance n r2))"
  proof (intro exI [of _ "a + b"] conjI allI impI)
    show "a + b \<le> length (pr_rest r)" "r' = pr_advance (a + b) r" using a b by simp_all
    fix r2 rest
    assume r2: "pr_rest r2 = take (a + b) (pr_rest r) @ rest"
    then have t: "pr_rest r2 = take a (pr_rest r) @ take b (pr_rest r1) @ rest" using a(2) by (simp add: take_add)
    have "m r2 = Inr (x, pr_advance a r2)" by (rule a(3)) (rule t)
    moreover have "pr_rest (pr_advance a r2) = take b (pr_rest r1) @ rest" using t a(1) by simp
    ultimately show "bind_p m f r2 = Inr (y, pr_advance (a + b) r2)" using b(3) by (simp add: bind_p_def)
  qed
qed

lemma read_varint_local:
  assumes "read_varint bs = Inr (v, n)"
  shows "n \<le> length bs" "read_varint (take n bs @ rest) = Inr (v, n)"
proof -
  from assms have "n \<le> length bs \<and> (\<forall>rest. read_varint (take n bs @ rest) = Inr (v, n))"
    unfolding read_varint_Inr_iff by (auto simp: append_eq_conv_conj)
  then show "n \<le> length bs" "read_varint (take n bs @ rest) = Inr (v, n)" by blast+
qed

lemma pr_prefixed_local:
  assumes "pr_prefixed maximum kind r = Inr (bytes, n)"
  shows "n \<le> length (pr_rest r)" "pr_rest r2 = take n (pr_rest r) @ rest \<Longrightarrow> pr_prefixed maximum kind r2 = Inr (bytes, n)"
proof -
  obtain l p where l: "read_varint (pr_rest r) = Inr (l, p)" "\<not> sint l < 0" "unat l \<le> maximum" "unat l \<le> length (drop p (pr_rest r))"
    "bytes = take (unat l) (drop p (pr_rest r))" "n = p + unat l"
    using assms by (auto simp: pr_prefixed_def check_length_def Let_def split: sum.splits prod.splits if_splits)
  note v = read_varint_local [OF l(1)]
  show "n \<le> length (pr_rest r)" using l v(1) by simp
  assume r2: "pr_rest r2 = take n (pr_rest r) @ rest"
  then have t: "pr_rest r2 = take p (pr_rest r) @ bytes @ rest" using l by (simp add: take_add)
  have "length bytes = unat l" using l by simp
  then show "pr_prefixed maximum kind r2 = Inr (bytes, n)"
    using v(2) [of "bytes @ rest"] l v(1) t by (simp add: pr_prefixed_def check_length_def Let_def)
qed

lemma pr_utf_local: "infallible env \<Longrightarrow> local_read (pr_utf env n)"
  unfolding local_read_def
proof (intro allI impI)
  fix r x r'
  assume e: "infallible env" and "pr_utf env n r = Inr (x, r')"
  then obtain bytes k res where b: "checked_mul n 3 = Some (n * 3)" "pr_prefixed (n * 3) ''encoded UTF-8'' r = Inr (bytes, k)"
    "match_chunks n (java_chunks bytes) [] False 0 = Inr res" "x = java_decode bytes" "r' = pr_advance k r"
    by (auto simp: pr_utf_eq result_simps usize_simps checked_mul_def split: if_splits)
  have "pr_utf env n r2 = Inr (x, pr_advance k r2)" if "pr_rest r2 = take k (pr_rest r) @ rest" for r2 rest
    using pr_prefixed_local(2) [OF b(2) that] b e by (simp add: pr_utf_eq)
  then show "\<exists>m \<le> length (pr_rest r). r' = pr_advance m r \<and> (\<forall>r2 rest. pr_rest r2 = take m (pr_rest r) @ rest \<longrightarrow> pr_utf env n r2 = Inr (x, pr_advance m r2))"
    using pr_prefixed_local(1) [OF b(2)] b(5) by blast
qed

section \<open>Lists of strings\<close>

text \<open>The strings of a response, decoded. An allocator that never fails stands for not allocating at all.\<close>

fun read_strings :: "alloc_env \<Rightarrow> nat \<Rightarrow> str list field_read" where
  "read_strings env 0 = return_p []"
| "read_strings env (Suc n) = bind_p (pr_utf env 32767) (\<lambda>s. bind_p (read_strings env n) (\<lambda>ss. return_p (s # ss)))"

lemma read_strings_local: "infallible env \<Longrightarrow> local_read (read_strings env n)"
  by (induction n) (auto intro!: local_return local_bind pr_utf_local)

lemma skip_strings_eq:
  assumes "infallible env"
  shows "skip_strings n r = map_r (\<lambda>(ss, r'). ((), r')) (read_strings env n r)"
proof (induction n arbitrary: r)
  case (Suc n)
  have "pr_utf_equals None 32767 r = map_r (\<lambda>(s, r'). (None = Some s, r')) (pr_utf env 32767 r)" by (rule pr_utf_equals_eq [OF assms]) simp
  then show ?case using Suc by (cases "pr_utf env 32767 r") (auto simp: bind_p_def return_p_def bind_r_def split: sum.splits prod.splits)
qed (simp add: return_p_def)

lemma length_read_strings: "read_strings env n r = Inr (ss, r') \<Longrightarrow> length ss = n"
  by (induction n arbitrary: r ss) (auto simp: bind_p_Inr return_p_def)

definition pack_strings :: "KnownPack list \<Rightarrow> str list" where
  "pack_strings packs = concat (map (\<lambda>pack. [kp_namespace pack, kp_id pack, kp_version pack]) packs)"

definition packs_ok :: "KnownPack list \<Rightarrow> bool" where
  "packs_ok packs \<longleftrightarrow> (\<forall>s \<in> set (pack_strings packs). is_str s)"

lemma match_packs_strings:
  assumes env: "infallible env"
  shows "packs_ok packs \<Longrightarrow> read_strings env (3 * length packs) r = Inr (ss, r') \<Longrightarrow>
    match_packs packs matches r = Inr (matches \<and> ss = pack_strings packs, r')"
proof (induction packs arbitrary: r ss matches)
  case Nil
  then show ?case by (simp add: return_p_def pack_strings_def)
next
  case (Cons pack packs)
  have ok: "is_str (kp_namespace pack)" "is_str (kp_id pack)" "is_str (kp_version pack)" "packs_ok packs"
    using Cons(2) by (auto simp: packs_ok_def pack_strings_def)
  have n: "3 * length (pack # packs) = Suc (Suc (Suc (3 * length packs)))" by simp
  obtain a r1 b r2 c r3 rest where s: "pr_utf env 32767 r = Inr (a, r1)" "pr_utf env 32767 r1 = Inr (b, r2)" "pr_utf env 32767 r2 = Inr (c, r3)"
    "read_strings env (3 * length packs) r3 = Inr (rest, r')" "ss = a # b # c # rest"
    using Cons(3) unfolding n by (auto simp: bind_p_Inr return_p_def)
  have eq: "pr_utf_equals (Some v) 32767 q = map_r (\<lambda>(s, r'). (Some v = Some s, r')) (pr_utf env 32767 q)" if "is_str v" for v q
    by (rule pr_utf_equals_eq [OF env]) (use that in simp)
  show ?case using Cons(1) [OF ok(4) s(4)] s eq [OF ok(1)] eq [OF ok(2)] eq [OF ok(3)]
    by (auto simp: bind_p_def pack_strings_def)
qed

text \<open>What a decoded response stands for.\<close>

definition response_strings :: "KnownPackResponse \<Rightarrow> str list \<Rightarrow> bool" where
  "response_strings response ss \<longleftrightarrow>
    (\<exists>r. read_strings plain_env (3 * kr_count response) (reader_new (kr_fields response)) = Inr (ss, r) \<and> pr_finish r = Inr ())"

lemma infallible_plain: "infallible plain_env"
  by (simp add: infallible_def plain_env_def)

lemma response_matches_strings:
  assumes "response_strings response ss" "packs_ok expected"
  shows "response_matches response expected = Inr (ss = pack_strings expected)"
proof -
  obtain r where r: "read_strings plain_env (3 * kr_count response) (reader_new (kr_fields response)) = Inr (ss, r)" "pr_finish r = Inr ()"
    using assms(1) by (auto simp: response_strings_def)
  have len: "length ss = 3 * kr_count response" "length (pack_strings expected) = 3 * length expected"
    using length_read_strings [OF r(1)] by (simp, induction expected) (simp_all add: pack_strings_def)
  show ?thesis
  proof (cases "kr_count response = length expected")
    case True
    then show ?thesis using match_packs_strings [OF infallible_plain assms(2), of _ ss r True] r by (simp add: response_matches_def)
  next
    case False
    then show ?thesis using len by (auto simp: response_matches_def)
  qed
qed

lemma read_known_packs_strings:
  assumes "read_known_packs r = Inr (SB_SelectKnownPacks response, r')"
  shows "\<exists>ss. response_strings response ss"
proof -
  obtain v r1 where v: "pr_varint r = Inr (v, r1)" "skip_strings (3 * unat v) r1 = Inr ((), r')"
    "response = \<lparr>kr_fields = take (pr_position r' - pr_position r1) (drop (pr_position r1) (pr_input r1)), kr_count = unat v\<rparr>"
    using assms by (auto simp: read_known_packs_def bind_p_Inr bind_r_Inr_iff fail_p_def split: if_splits prod.splits)
  obtain ss where ss: "read_strings plain_env (3 * unat v) r1 = Inr (ss, r')"
    using v(2) unfolding skip_strings_eq [OF infallible_plain] by (auto simp: map_r_Inr_iff)
  obtain n where n: "n \<le> length (pr_rest r1)" "r' = pr_advance n r1"
    "\<And>r2 rest. pr_rest r2 = take n (pr_rest r1) @ rest \<Longrightarrow> read_strings plain_env (3 * unat v) r2 = Inr (ss, pr_advance n r2)"
    by (rule local_readE [OF read_strings_local [OF infallible_plain] ss]) blast
  have f: "kr_fields response = take n (pr_rest r1)" using v(3) n(2) by (simp add: pr_advance_def pr_rest_def)
  have "read_strings plain_env (3 * unat v) (reader_new (kr_fields response)) = Inr (ss, pr_advance n (reader_new (kr_fields response)))"
    by (rule n(3) [of _ "[]"]) (simp add: f reader_new_def pr_rest_def)
  moreover have "pr_finish (pr_advance n (reader_new (kr_fields response))) = Inr ()"
    using n(1) f by (simp add: pr_finish_def pr_remaining_def pr_advance_def reader_new_def)
  ultimately show ?thesis using v(3) by (auto simp: response_strings_def)
qed

lemma custom_click_packet: "read_custom_click env r = Inr (packet, r') \<Longrightarrow> packet \<noteq> SB_SelectKnownPacks response"
proof -
  assume "read_custom_click env r = Inr (packet, r')"
  then obtain ident payload r1 where c: "(case read_network env payload custom_click_limits of
      Inl e \<Rightarrow> fail_p (InvalidValue ''invalid bounded custom click NBT'')
    | Inr (v, rest) \<Rightarrow> return_p (SB_CustomClick ident (if v = End then None else Some v))) r1 = Inr (packet, r')"
    unfolding read_custom_click_def bind_p_Inr by blast
  then show ?thesis by (cases "read_network env payload custom_click_limits") (auto simp: fail_p_def return_p_def split: prod.splits)
qed

lemma decode_known_packs:
  assumes "config_decode env input max_packet_bytes = Inr (SB_SelectKnownPacks response)"
  shows "\<exists>ss. response_strings response ss"
proof -
  obtain v r r' where "decode_body env (reader_new input) = Inr (SB_SelectKnownPacks response, r')"
    using assms by (auto simp: config_decode_def bind_r_Inr_iff split: if_splits)
  then obtain v r where v: "(if v = 0 then read_client_information env
    else if v = 1 then bind_p (read_cookie env 5120) (\<lambda>(key, payload). return_p (SB_CookieResponse key payload))
    else if v = 2 then read_custom_payload env
    else if v = 3 then return_p SB_FinishConfiguration
    else if v = 4 then bind_p pr_long (\<lambda>v. return_p (SB_KeepAlive v))
    else if v = 5 then bind_p pr_int (\<lambda>v. return_p (SB_Pong v))
    else if v = 6 then read_resource_pack
    else if v = 7 then read_known_packs
    else if v = 8 then read_custom_click env
    else if v = (9 :: u32) then return_p SB_AcceptCodeOfConduct
    else fail_p (InvalidValue ''unknown configuration packet ID'')) r = Inr (SB_SelectKnownPacks response, r')"
    unfolding decode_body_def bind_p_Inr by blast
  then have "read_known_packs r = Inr (SB_SelectKnownPacks response, r')"
    by (auto simp: read_client_information_def read_custom_payload_def read_resource_pack_def bind_p_Inr return_p_def fail_p_def
        dest: custom_click_packet split: if_splits option.splits prod.splits)
  then show ?thesis by (rule read_known_packs_strings)
qed

end
