(* ===== verification/ConfigSession.thy ===== *)
theory ConfigSession
  imports ConfigLaws
begin

text \<open>
  \<^verbatim>\<open>src/server/configuration/session.rs\<close>: the configuration of a connection. It publishes the snapshot one
  packet at a time, waits for the client's known packs in between, and keeps the connection alive. Times
  are milliseconds (\<open>u64\<close>); \<open>None\<close> is the panic of indexing the registries out of bounds.
\<close>

section \<open>The session\<close>

definition KEEP_ALIVE_INTERVAL_MS :: nat where "KEEP_ALIVE_INTERVAL_MS = 15000"

datatype SessionStage = Initializing | AwaitingKnownPacks | SendingRegistries | SendingTags | AwaitingSpawn | StageClosed

datatype PendingWrite = PendingPrefix | PendingRegistry | PendingTags | PendingKeepAlive u64 nat

datatype ConfigError = ConfigPacketError PacketError | Unexpected string | KeepAliveTimeout

record ConfigurationSession =
  cfg_snapshot :: ConfigurationSnapshot
  cfg_brand :: str
  cfg_stage :: SessionStage
  cfg_prefix_index :: nat
  cfg_registry_index :: nat
  cfg_packs_matched :: bool
  cfg_pending_write :: "PendingWrite option"
  cfg_queued_keepalive :: "(u64 \<times> nat) option"
  cfg_pending_keepalive :: "u64 option"
  cfg_keepalive_time :: nat
  cfg_latency :: u32
  cfg_client_information :: ClientInformation

definition config_new :: "ConfigurationSnapshot \<Rightarrow> str \<Rightarrow> nat \<Rightarrow> ConfigurationSession" where
  "config_new snapshot brand now_ms =
    \<lparr>cfg_snapshot = snapshot, cfg_brand = brand, cfg_stage = Initializing, cfg_prefix_index = 0, cfg_registry_index = 0,
     cfg_packs_matched = False, cfg_pending_write = None, cfg_queued_keepalive = None, cfg_pending_keepalive = None,
     cfg_keepalive_time = now_ms, cfg_latency = 0, cfg_client_information = default_client_information\<rparr>"

definition config_close :: "ConfigurationSession \<Rightarrow> ConfigurationSession" where
  "config_close s = s\<lparr>cfg_stage := StageClosed, cfg_pending_write := None, cfg_queued_keepalive := None, cfg_pending_keepalive := None\<rparr>"

definition next_keepalive_ms :: "ConfigurationSession \<Rightarrow> nat" where
  "next_keepalive_ms s = min (cfg_keepalive_time s + KEEP_ALIVE_INTERVAL_MS) (2 ^ 64 - 1)"

text \<open>The packet the stage calls for, if any, and what its write means.\<close>

definition stage_packet :: "ConfigurationSession \<Rightarrow> (Clientbound \<times> PendingWrite) option option" where
  "stage_packet s =
    (case cfg_stage s of
       Initializing \<Rightarrow>
         Some (Some (if cfg_prefix_index s = 0 then CB_Brand (cfg_brand s)
           else if cfg_prefix_index s = 1 then CB_EnabledFeatures (cs_features (cfg_snapshot s))
           else CB_SelectKnownPacks (cs_known_packs (cfg_snapshot s)), PendingPrefix))
     | SendingRegistries \<Rightarrow>
         (let response = (if cfg_packs_matched s then cs_known_packs (cfg_snapshot s) else []);
              negotiated = negotiate_known_packs (cfg_snapshot s) response in
          if cfg_registry_index s < length (cs_registries (cfg_snapshot s))
          then Some (Some (CB_Registry (cs_registries (cfg_snapshot s) ! cfg_registry_index s) negotiated, PendingRegistry))
          else None)
     | SendingTags \<Rightarrow> Some (Some (CB_UpdateTags (cfg_snapshot s), PendingTags))
     | _ \<Rightarrow> Some None)"

definition outbound_choice :: "ConfigurationSession \<Rightarrow> (Clientbound \<times> PendingWrite) option option" where
  "outbound_choice s =
    (case cfg_queued_keepalive s of
       Some (i, at_ms) \<Rightarrow> Some (Some (CB_KeepAlive i, PendingKeepAlive i at_ms))
     | None \<Rightarrow> stage_packet s)"

definition next_outbound ::
  "alloc_env \<Rightarrow> nat \<Rightarrow> ConfigurationSession \<Rightarrow> ((ConfigError + byte list option) \<times> ConfigurationSession) option" where
  "next_outbound env max_packet_bytes s =
    (if cfg_pending_write s \<noteq> None then Some (Inl (Unexpected ''previous configuration write is not complete''), s)
     else if cfg_stage s = StageClosed then Some (Inr None, s)
     else (case outbound_choice s of
         None \<Rightarrow> None
       | Some None \<Rightarrow> Some (Inr None, s)
       | Some (Some (packet, pending)) \<Rightarrow>
           (case config_encode env packet max_packet_bytes of
              Inl e \<Rightarrow> Some (Inl (ConfigPacketError e), s)
            | Inr bytes \<Rightarrow> Some (Inr (Some bytes), s\<lparr>cfg_pending_write := Some pending\<rparr>))))"

definition outbound_written :: "ConfigurationSession \<Rightarrow> (ConfigError + unit) \<times> ConfigurationSession" where
  "outbound_written s =
    (case cfg_pending_write s of
       None \<Rightarrow> (Inl (Unexpected ''no configuration write is pending''), s)
     | Some pending \<Rightarrow>
         (let s = s\<lparr>cfg_pending_write := None\<rparr> in
          (Inr (),
           case pending of
             PendingPrefix \<Rightarrow>
               (let s = s\<lparr>cfg_prefix_index := cfg_prefix_index s + 1\<rparr> in
                if cfg_prefix_index s = 3 then s\<lparr>cfg_stage := AwaitingKnownPacks\<rparr> else s)
           | PendingRegistry \<Rightarrow>
               (let s = s\<lparr>cfg_registry_index := cfg_registry_index s + 1\<rparr> in
                if cfg_registry_index s = length (cs_registries (cfg_snapshot s)) then s\<lparr>cfg_stage := SendingTags\<rparr> else s)
           | PendingTags \<Rightarrow> s\<lparr>cfg_stage := AwaitingSpawn\<rparr>
           | PendingKeepAlive i at_ms \<Rightarrow> s\<lparr>cfg_queued_keepalive := None, cfg_pending_keepalive := Some i, cfg_keepalive_time := at_ms\<rparr>)))"

text \<open>\<open>i32\<close> division by four rounds towards zero.\<close>

definition quarter :: "u32 \<Rightarrow> u32" where
  "quarter v = of_int (if sint v \<ge> 0 then sint v div 4 else - ((- sint v) div 4))"

definition on_response :: "KnownPackResponse \<Rightarrow> ConfigurationSession \<Rightarrow> (ConfigError + unit) \<times> ConfigurationSession" where
  "on_response packs s =
    (if cfg_stage s \<noteq> AwaitingKnownPacks
     then (Inl (Unexpected ''known pack response does not match the current configuration task''), config_close s)
     else (case response_matches packs (cs_known_packs (cfg_snapshot s)) of
         Inl e \<Rightarrow> (Inl (ConfigPacketError e), s)
       | Inr matched \<Rightarrow> (Inr (), s\<lparr>cfg_packs_matched := matched, cfg_stage := SendingRegistries\<rparr>)))"

definition on_packet :: "alloc_env \<Rightarrow> byte list \<Rightarrow> nat \<Rightarrow> nat \<Rightarrow> ConfigurationSession \<Rightarrow> (ConfigError + unit) \<times> ConfigurationSession" where
  "on_packet env input now_ms max_packet_bytes s =
    (if cfg_stage s = StageClosed then (Inl (Unexpected ''configuration connection is closed''), s)
     else (case config_decode env input max_packet_bytes of
         Inl e \<Rightarrow> (Inl (ConfigPacketError e), config_close s)
       | Inr packet \<Rightarrow>
           (case packet of
              SB_ClientInformation information \<Rightarrow> (Inr (), s\<lparr>cfg_client_information := information\<rparr>)
            | SB_SelectKnownPacks packs \<Rightarrow> on_response packs s
            | SB_KeepAlive i \<Rightarrow>
                if cfg_pending_keepalive s = Some i
                then (Inr (), s\<lparr>cfg_latency := quarter (cfg_latency s * 3 + of_nat (now_ms - cfg_keepalive_time s)), cfg_pending_keepalive := None\<rparr>)
                else (Inl KeepAliveTimeout, config_close s)
            | SB_CookieResponse key cookie \<Rightarrow> (Inl (Unexpected ''unexpected cookie response''), config_close s)
            | SB_FinishConfiguration \<Rightarrow> (Inl (Unexpected ''finish configuration received before the actual spawn prerequisite''), config_close s)
            | SB_AcceptCodeOfConduct \<Rightarrow> (Inl (Unexpected ''code of conduct acceptance has no active task''), config_close s)
            | SB_ResourcePack uuid action \<Rightarrow>
                if is_terminal action then (Inl (Unexpected ''terminal resource pack response has no active task''), config_close s) else (Inr (), s)
            | SB_Pong v \<Rightarrow> (Inr (), s)
            | SB_CustomPayload channel brand bytes \<Rightarrow> (Inr (), s)
            | SB_CustomClick ident tag \<Rightarrow> (Inr (), s))))"

definition config_tick :: "nat \<Rightarrow> ConfigurationSession \<Rightarrow> (ConfigError + unit) \<times> ConfigurationSession" where
  "config_tick now_ms s =
    (if cfg_stage s = StageClosed then (Inr (), s)
     else if now_ms - cfg_keepalive_time s \<ge> KEEP_ALIVE_INTERVAL_MS
     then if cfg_pending_keepalive s \<noteq> None then (Inl KeepAliveTimeout, config_close s)
       else if cfg_queued_keepalive s = None then (Inr (), s\<lparr>cfg_queued_keepalive := Some (of_nat now_ms, now_ms)\<rparr>)
       else (Inr (), s)
     else (Inr (), s))"

section \<open>Runs\<close>

text \<open>
  A run of calls. Beside the session it keeps the packet whose write was begun and the packets whose
  write was completed.
\<close>

datatype config_call = CallNext nat | CallWritten | CallPacket "byte list" nat nat | CallTick nat | CallClose

record config_run =
  run_session :: ConfigurationSession
  run_flight :: "Clientbound option"
  run_sent :: "Clientbound list"

definition run_call :: "alloc_env \<Rightarrow> config_call \<Rightarrow> config_run \<Rightarrow> config_run option" where
  "run_call env call run =
    (let s = run_session run in
     case call of
       CallNext limit \<Rightarrow>
         (case next_outbound env limit s of
            None \<Rightarrow> None
          | Some (Inr (Some bytes), s') \<Rightarrow> Some (run\<lparr>run_session := s', run_flight := map_option fst (the (outbound_choice s))\<rparr>)
          | Some (result, s') \<Rightarrow> Some (run\<lparr>run_session := s'\<rparr>))
     | CallWritten \<Rightarrow>
         (case outbound_written s of
            (Inr u, s') \<Rightarrow> Some (run\<lparr>run_session := s', run_flight := None, run_sent := run_sent run @ (case run_flight run of None \<Rightarrow> [] | Some p \<Rightarrow> [p])\<rparr>)
          | (Inl e, s') \<Rightarrow> Some (run\<lparr>run_session := s'\<rparr>))
     | CallPacket input now limit \<Rightarrow> Some (run\<lparr>run_session := snd (on_packet env input now limit s)\<rparr>)
     | CallTick now \<Rightarrow> Some (run\<lparr>run_session := snd (config_tick now s)\<rparr>)
     | CallClose \<Rightarrow> Some (run\<lparr>run_session := config_close s\<rparr>))"

fun run_calls :: "alloc_env \<Rightarrow> config_call list \<Rightarrow> config_run \<Rightarrow> config_run option" where
  "run_calls env [] run = Some run"
| "run_calls env (c # cs) run = Option.bind (run_call env c run) (run_calls env cs)"

definition run_new :: "ConfigurationSession \<Rightarrow> config_run" where
  "run_new s = \<lparr>run_session = s, run_flight = None, run_sent = []\<rparr>"

section \<open>Order of publication\<close>

text \<open>All that the session publishes, in order.\<close>

definition script :: "ConfigurationSession \<Rightarrow> Clientbound list" where
  "script s =
    [CB_Brand (cfg_brand s), CB_EnabledFeatures (cs_features (cfg_snapshot s)), CB_SelectKnownPacks (cs_known_packs (cfg_snapshot s))] @
    map (\<lambda>registry. CB_Registry registry (if cfg_packs_matched s then cs_known_packs (cfg_snapshot s) else [])) (cs_registries (cfg_snapshot s)) @
    [CB_UpdateTags (cfg_snapshot s)]"

fun is_keep_alive :: "Clientbound \<Rightarrow> bool" where
  "is_keep_alive (CB_KeepAlive i) = True"
| "is_keep_alive packet = False"

definition configuration_packets :: "Clientbound list \<Rightarrow> Clientbound list" where
  "configuration_packets sent = filter (\<lambda>p. \<not> is_keep_alive p) sent"

definition at_progress :: "ConfigurationSession \<Rightarrow> nat \<Rightarrow> bool" where
  "at_progress s k \<longleftrightarrow>
    (case cfg_stage s of
       Initializing \<Rightarrow> k = cfg_prefix_index s \<and> cfg_prefix_index s < 3 \<and> cfg_registry_index s = 0
     | AwaitingKnownPacks \<Rightarrow> k = 3 \<and> cfg_registry_index s = 0
     | SendingRegistries \<Rightarrow> k = 3 + cfg_registry_index s \<and> cfg_registry_index s < length (cs_registries (cfg_snapshot s))
     | SendingTags \<Rightarrow> k = 3 + length (cs_registries (cfg_snapshot s))
     | AwaitingSpawn \<Rightarrow> k = 4 + length (cs_registries (cfg_snapshot s))
     | StageClosed \<Rightarrow> cfg_pending_write s = None)"

text \<open>The packet in flight is the one that the pending write stands for.\<close>

definition flight_ok :: "ConfigurationSession \<Rightarrow> Clientbound option \<Rightarrow> bool" where
  "flight_ok s flight \<longleftrightarrow>
    (case cfg_pending_write s of
       None \<Rightarrow> True
     | Some (PendingKeepAlive i at_ms) \<Rightarrow> flight = Some (CB_KeepAlive i)
     | Some pending \<Rightarrow> (\<exists>p. flight = Some p \<and> stage_packet s = Some (Some (p, pending))))"

definition run_ok :: "config_run \<Rightarrow> bool" where
  "run_ok run \<longleftrightarrow> cs_registries (cfg_snapshot (run_session run)) \<noteq> [] \<and> flight_ok (run_session run) (run_flight run) \<and>
    (\<exists>k. at_progress (run_session run) k \<and> configuration_packets (run_sent run) = take k (script (run_session run)))"

lemma negotiated: "negotiate_known_packs snapshot (if b then cs_known_packs snapshot else []) = (if b then cs_known_packs snapshot else [])"
  by (simp add: negotiate_known_packs_def)

lemma stage_packet_script:
  assumes "at_progress s k" "stage_packet s = Some (Some (p, w))"
  shows "k < length (script s) \<and> script s ! k = p \<and> \<not> is_keep_alive p"
  using assms by (auto simp: at_progress_def stage_packet_def script_def negotiated nth_append nth_Cons' Let_def split: SessionStage.splits if_splits)

lemma stage_packet_total: "at_progress s k \<Longrightarrow> stage_packet s \<noteq> None"
  by (auto simp: at_progress_def stage_packet_def Let_def split: SessionStage.splits)

lemma next_outbound_cases:
  assumes "at_progress s k"
  shows "case next_outbound env limit s of
      None \<Rightarrow> False
    | Some (Inr (Some bytes), s') \<Rightarrow> cfg_pending_write s = None \<and> cfg_stage s \<noteq> StageClosed \<and>
        (\<exists>packet pending. outbound_choice s = Some (Some (packet, pending)) \<and> s' = s\<lparr>cfg_pending_write := Some pending\<rparr>)
    | Some (result, s') \<Rightarrow> s' = s"
  using stage_packet_total [OF assms]
  by (auto simp: next_outbound_def outbound_choice_def split: option.splits sum.splits prod.splits)

lemma run_ok_next:
  assumes "run_ok run"
  shows "\<exists>run'. run_call env (CallNext limit) run = Some run' \<and> run_ok run'"
proof -
  let ?s = "run_session run"
  obtain k where k: "at_progress ?s k" "configuration_packets (run_sent run) = take k (script ?s)" using assms by (auto simp: run_ok_def)
  note c = next_outbound_cases [OF k(1), of env limit]
  show ?thesis
  proof (cases "\<exists>bytes s'. next_outbound env limit ?s = Some (Inr (Some bytes), s')")
    case True
    then obtain bytes s' where n: "next_outbound env limit ?s = Some (Inr (Some bytes), s')" by blast
    obtain packet pending where p: "outbound_choice ?s = Some (Some (packet, pending))" "s' = ?s\<lparr>cfg_pending_write := Some pending\<rparr>" "cfg_stage ?s \<noteq> StageClosed"
      using c n by auto
    have "flight_ok s' (Some packet)"
      using p by (auto simp: flight_ok_def outbound_choice_def stage_packet_def Let_def split: option.splits PendingWrite.splits prod.splits SessionStage.splits if_splits)
    moreover have "at_progress s' k" "script s' = script ?s" "cfg_snapshot s' = cfg_snapshot ?s"
      using k(1) p(2,3) by (auto simp: at_progress_def script_def split: SessionStage.splits)
    ultimately show ?thesis using n p assms k by (auto simp: run_call_def run_ok_def Let_def)
  next
    case False
    obtain result s' where n: "next_outbound env limit ?s = Some (result, s')" using c by (cases "next_outbound env limit ?s") auto
    then have r: "\<And>b. result \<noteq> Inr (Some b)" using False by blast
    then have "s' = ?s" using c n by (cases result rule: sum.exhaust; cases "projr result") auto
    then have "run_call env (CallNext limit) run = Some run" using n r by (cases result rule: sum.exhaust; cases "projr result") (auto simp: run_call_def)
    then show ?thesis using assms by blast
  qed
qed

lemma at_progress_advance:
  assumes "at_progress s k" "stage_packet s = Some (Some (p, pending))" "cfg_pending_write s = Some pending" "\<And>i at_ms. pending \<noteq> PendingKeepAlive i at_ms"
    "cs_registries (cfg_snapshot s) \<noteq> []"
  obtains s' where "outbound_written s = (Inr (), s')" "at_progress s' (Suc k)" "script s' = script s" "cfg_pending_write s' = None" "cfg_snapshot s' = cfg_snapshot s"
  using assms by (cases "cfg_stage s") (auto simp: outbound_written_def stage_packet_def at_progress_def script_def Let_def split: if_splits)

lemma run_ok_written:
  assumes "run_ok run"
  shows "\<exists>run'. run_call env CallWritten run = Some run' \<and> run_ok run'"
proof -
  let ?s = "run_session run"
  obtain k where k: "at_progress ?s k" "configuration_packets (run_sent run) = take k (script ?s)" and ne: "cs_registries (cfg_snapshot ?s) \<noteq> []"
    using assms by (auto simp: run_ok_def)
  show ?thesis
  proof (cases "cfg_pending_write ?s")
    case None
    then show ?thesis using assms by (simp add: run_call_def outbound_written_def)
  next
    case (Some pending)
    show ?thesis
    proof (cases "\<exists>i at_ms. pending = PendingKeepAlive i at_ms")
      case True
      then obtain i at_ms where p: "pending = PendingKeepAlive i at_ms" by blast
      let ?s' = "?s\<lparr>cfg_pending_write := None, cfg_queued_keepalive := None, cfg_pending_keepalive := Some i, cfg_keepalive_time := at_ms\<rparr>"
      have w: "outbound_written ?s = (Inr (), ?s')" using Some p by (simp add: outbound_written_def)
      have "run_flight run = Some (CB_KeepAlive i)" using assms Some p by (simp add: run_ok_def flight_ok_def)
      moreover have "at_progress ?s' k" "script ?s' = script ?s" using k(1) by (auto simp: at_progress_def script_def split: SessionStage.splits)
      ultimately show ?thesis using w ne k by (auto simp: run_call_def run_ok_def flight_ok_def configuration_packets_def)
    next
      case False
      then obtain p where p: "run_flight run = Some p" "stage_packet ?s = Some (Some (p, pending))"
        using assms Some by (auto simp: run_ok_def flight_ok_def split: PendingWrite.splits)
      note sp = stage_packet_script [OF k(1) p(2)]
      obtain s' where s': "outbound_written ?s = (Inr (), s')" "at_progress s' (Suc k)" "script s' = script ?s" "cfg_pending_write s' = None" "cfg_snapshot s' = cfg_snapshot ?s"
        by (rule at_progress_advance [OF k(1) p(2) Some _ ne]) (use False in blast)+
      have "configuration_packets (run_sent run @ [p]) = take (Suc k) (script ?s)"
        using sp k(2) by (simp add: configuration_packets_def take_Suc_conv_app_nth)
      then show ?thesis using s' p ne by (auto simp: run_call_def run_ok_def flight_ok_def)
    qed
  qed
qed

text \<open>Every other call leaves what was published as it is.\<close>

definition quiet :: "ConfigurationSession \<Rightarrow> ConfigurationSession \<Rightarrow> bool" where
  "quiet s s' \<longleftrightarrow> cfg_snapshot s' = cfg_snapshot s \<and> cfg_brand s' = cfg_brand s \<and> cfg_prefix_index s' = cfg_prefix_index s \<and> cfg_registry_index s' = cfg_registry_index s \<and>
    (cfg_stage s' = cfg_stage s \<and> cfg_pending_write s' = cfg_pending_write s \<and> cfg_packs_matched s' = cfg_packs_matched s \<or>
     cfg_stage s' = StageClosed \<and> cfg_pending_write s' = None \<and> cfg_packs_matched s' = cfg_packs_matched s \<or>
     cfg_stage s = AwaitingKnownPacks \<and> cfg_stage s' = SendingRegistries \<and> cfg_pending_write s' = cfg_pending_write s)"

lemma quiet_close: "quiet s (config_close s)"
  by (simp add: quiet_def config_close_def)

lemma quiet_on_response: "quiet s (snd (on_response packs s))"
  by (auto simp: on_response_def quiet_def config_close_def split: sum.splits)

lemma quiet_on_packet: "quiet s (snd (on_packet env input now limit s))"
  using quiet_close [of s] quiet_on_response [of s]
  by (auto simp: on_packet_def split: sum.splits Serverbound.splits) (auto simp: quiet_def)

lemma quiet_tick: "quiet s (snd (config_tick now s))"
  using quiet_close [of s] by (auto simp: config_tick_def quiet_def)

lemma run_ok_quiet:
  assumes "run_ok run" "quiet (run_session run) s'"
  shows "run_ok (run\<lparr>run_session := s'\<rparr>)"
proof -
  let ?s = "run_session run"
  obtain k where k: "at_progress ?s k" "configuration_packets (run_sent run) = take k (script ?s)" and ne: "cs_registries (cfg_snapshot ?s) \<noteq> []"
    and f: "flight_ok ?s (run_flight run)"
    using assms(1) by (auto simp: run_ok_def)
  consider (same) "cfg_stage s' = cfg_stage ?s" "cfg_pending_write s' = cfg_pending_write ?s" "cfg_packs_matched s' = cfg_packs_matched ?s"
    | (closed) "cfg_stage s' = StageClosed" "cfg_pending_write s' = None" "cfg_packs_matched s' = cfg_packs_matched ?s"
    | (packs) "cfg_stage ?s = AwaitingKnownPacks" "cfg_stage s' = SendingRegistries" "cfg_pending_write s' = cfg_pending_write ?s"
    using assms(2) by (auto simp: quiet_def)
  then have "(\<exists>k. at_progress s' k \<and> configuration_packets (run_sent run) = take k (script s')) \<and> flight_ok s' (run_flight run)"
  proof cases
    case same
    then have "script s' = script ?s" "at_progress s' k" "stage_packet s' = stage_packet ?s"
      using assms(2) k(1) by (auto simp: script_def at_progress_def stage_packet_def quiet_def split: SessionStage.splits)
    then show ?thesis using k(2) f same(2) by (auto simp: flight_ok_def split: option.splits PendingWrite.splits)
  next
    case closed
    then have "script s' = script ?s" "at_progress s' k" using assms(2) by (auto simp: script_def at_progress_def quiet_def)
    then show ?thesis using k(2) closed by (auto simp: flight_ok_def)
  next
    case packs
    then have "at_progress s' 3" "k = 3" "take 3 (script s') = take 3 (script ?s)"
      using assms(2) k(1) ne by (auto simp: script_def at_progress_def quiet_def)
    moreover have "flight_ok s' (run_flight run)"
      using f packs by (auto simp: flight_ok_def stage_packet_def split: option.splits PendingWrite.splits)
    ultimately show ?thesis using k(2) by auto
  qed
  then show ?thesis using assms(2) ne by (auto simp: run_ok_def quiet_def)
qed

lemma run_ok_step: "run_ok run \<Longrightarrow> \<exists>run'. run_call env call run = Some run' \<and> run_ok run'"
proof (cases call)
  case (CallPacket input now limit)
  assume "run_ok run"
  then show ?thesis using run_ok_quiet [OF _ quiet_on_packet] CallPacket by (simp add: run_call_def)
next
  case (CallTick now)
  assume "run_ok run"
  then show ?thesis using run_ok_quiet [OF _ quiet_tick] CallTick by (simp add: run_call_def)
next
  case CallClose
  assume "run_ok run"
  then show ?thesis using run_ok_quiet [OF _ quiet_close] CallClose by (simp add: run_call_def)
qed (simp_all add: run_ok_next run_ok_written)

lemma run_ok_calls: "run_ok run \<Longrightarrow> \<exists>run'. run_calls env calls run = Some run' \<and> run_ok run'"
proof (induction calls arbitrary: run)
  case (Cons c cs)
  obtain run1 where "run_call env c run = Some run1" "run_ok run1" using run_ok_step [OF Cons(2)] by blast
  then show ?case using Cons(1) by simp
qed simp

lemma run_ok_new: "cs_registries snapshot \<noteq> [] \<Longrightarrow> run_ok (run_new (config_new snapshot brand now))"
  by (auto simp: run_ok_def run_new_def config_new_def flight_ok_def at_progress_def configuration_packets_def)

lemma run_call_keeps:
  assumes "run_call env c run = Some run'" "run_ok run"
  shows "cfg_snapshot (run_session run') = cfg_snapshot (run_session run) \<and> cfg_brand (run_session run') = cfg_brand (run_session run)"
proof -
  let ?s = "run_session run"
  obtain k where k: "at_progress ?s k" using assms(2) by (auto simp: run_ok_def)
  have q: "quiet ?s s' \<Longrightarrow> cfg_snapshot s' = cfg_snapshot ?s \<and> cfg_brand s' = cfg_brand ?s" for s' by (simp add: quiet_def)
  show ?thesis
  proof (cases c)
    case (CallNext limit)
    then show ?thesis using assms(1) next_outbound_cases [OF k, of env limit] by (auto simp: run_call_def split: option.splits sum.splits prod.splits)
  next
    case CallWritten
    then show ?thesis using assms(1) by (auto simp: run_call_def outbound_written_def Let_def split: option.splits PendingWrite.splits if_splits)
  next
    case (CallPacket input now limit)
    then show ?thesis using assms(1) q [OF quiet_on_packet] by (auto simp: run_call_def)
  next
    case (CallTick now)
    then show ?thesis using assms(1) q [OF quiet_tick] by (auto simp: run_call_def)
  next
    case CallClose
    then show ?thesis using assms(1) q [OF quiet_close] by (auto simp: run_call_def)
  qed
qed

lemma run_calls_keeps:
  "run_calls env cs run = Some run' \<Longrightarrow> run_ok run \<Longrightarrow> cfg_snapshot (run_session run') = cfg_snapshot (run_session run) \<and> cfg_brand (run_session run') = cfg_brand (run_session run)"
proof (induction cs arbitrary: run)
  case (Cons c cs)
  obtain run1 where r: "run_call env c run = Some run1" "run_ok run1" using run_ok_step [OF Cons(3)] by blast
  then show ?case using Cons(1) [OF _ r(2)] Cons(2) run_call_keeps [OF r(1) Cons(3)] by simp
qed simp

section \<open>A driver that keeps going\<close>

text \<open>Asking for the next packet and reporting its write, \<open>n\<close> times.\<close>

fun pump :: "nat \<Rightarrow> nat \<Rightarrow> config_call list" where
  "pump limit 0 = []"
| "pump limit (Suc n) = [CallNext limit, CallWritten] @ pump limit n"

lemma run_calls_append: "run_calls env (cs @ ds) run = Option.bind (run_calls env cs run) (run_calls env ds)"
  by (induction cs arbitrary: run) (simp_all split: bind_splits)

definition idle :: "config_run \<Rightarrow> nat \<Rightarrow> bool" where
  "idle run k \<longleftrightarrow> cs_registries (cfg_snapshot (run_session run)) \<noteq> [] \<and> at_progress (run_session run) k \<and> cfg_pending_write (run_session run) = None \<and>
    cfg_queued_keepalive (run_session run) = None \<and> cfg_stage (run_session run) \<noteq> StageClosed \<and> configuration_packets (run_sent run) = take k (script (run_session run))"

lemma pump_once:
  assumes "idle run k" "stage_packet (run_session run) = Some (Some (p, w))" "config_encode env p limit = Inr bytes"
  obtains run' where "run_calls env [CallNext limit, CallWritten] run = Some run'" "idle run' (Suc k)" "script (run_session run') = script (run_session run)"
    "cfg_snapshot (run_session run') = cfg_snapshot (run_session run)"
proof -
  let ?s = "run_session run"
  let ?s1 = "?s\<lparr>cfg_pending_write := Some w\<rparr>"
  have i: "at_progress ?s k" "cs_registries (cfg_snapshot ?s) \<noteq> []" "cfg_pending_write ?s = None" "cfg_queued_keepalive ?s = None" "cfg_stage ?s \<noteq> StageClosed"
    "configuration_packets (run_sent run) = take k (script ?s)" using assms(1) by (auto simp: idle_def)
  have n: "next_outbound env limit ?s = Some (Inr (Some bytes), ?s1)" and ch: "outbound_choice ?s = Some (Some (p, w))"
    using i assms(2,3) by (auto simp: next_outbound_def outbound_choice_def)
  have 1: "run_call env (CallNext limit) run = Some (run\<lparr>run_session := ?s1, run_flight := Some p\<rparr>)" using n ch by (simp add: run_call_def)
  have w: "\<And>j t. w \<noteq> PendingKeepAlive j t" using assms(2) by (auto simp: stage_packet_def Let_def split: SessionStage.splits if_splits)
  have s1: "at_progress ?s1 k" "stage_packet ?s1 = Some (Some (p, w))" "script ?s1 = script ?s"
    using i assms(2) by (auto simp: at_progress_def stage_packet_def script_def split: SessionStage.splits)
  have ne1: "cs_registries (cfg_snapshot ?s1) \<noteq> []" "cfg_pending_write ?s1 = Some w" using i(2) by simp_all
  obtain s' where s': "outbound_written ?s1 = (Inr (), s')" "at_progress s' (Suc k)" "script s' = script ?s1" "cfg_pending_write s' = None" "cfg_snapshot s' = cfg_snapshot ?s1"
    by (rule at_progress_advance [OF s1(1,2) ne1(2) _ ne1(1)]) (use w in blast)+
  have keep: "cfg_queued_keepalive s' = None" "cfg_stage s' \<noteq> StageClosed"
    using s'(1) i(4,5) w by (auto simp: outbound_written_def Let_def split: PendingWrite.splits if_splits)
  note sp = stage_packet_script [OF i(1) assms(2)]
  have "configuration_packets (run_sent run @ [p]) = take (Suc k) (script ?s)" using sp i(6) by (simp add: configuration_packets_def take_Suc_conv_app_nth)
  moreover have "run_calls env [CallNext limit, CallWritten] run = Some (run\<lparr>run_session := s', run_flight := None, run_sent := run_sent run @ [p]\<rparr>)"
    using 1 s'(1) by (simp add: run_call_def)
  ultimately show thesis using s' s1(3) keep i(2) 
    by (intro that [of "run\<lparr>run_session := s', run_flight := None, run_sent := run_sent run @ [p]\<rparr>"]) (auto simp: idle_def)
qed

lemma stage_packet_next:
  assumes "at_progress s k" "cfg_stage s \<noteq> StageClosed" "cfg_stage s \<noteq> AwaitingKnownPacks" "k < length (script s)"
  shows "\<exists>w. stage_packet s = Some (Some (script s ! k, w))"
proof -
  have "\<exists>p w. stage_packet s = Some (Some (p, w))"
    using assms by (cases "cfg_stage s") (auto simp: at_progress_def stage_packet_def script_def Let_def)
  then show ?thesis using stage_packet_script [OF assms(1)] by blast
qed

lemma length_script: "length (script s) = 4 + length (cs_registries (cfg_snapshot s))"
  by (simp add: script_def)

lemma at_progress_stage: "at_progress s k \<Longrightarrow> cfg_stage s \<noteq> StageClosed \<Longrightarrow> k \<noteq> 3 \<Longrightarrow> cfg_stage s \<noteq> AwaitingKnownPacks"
  by (auto simp: at_progress_def)

lemma at_progress_awaiting: "at_progress s k \<Longrightarrow> cfg_stage s = AwaitingKnownPacks \<Longrightarrow> k = 3"
  by (auto simp: at_progress_def)

lemma pump_Suc: "pump limit (Suc n) = [CallNext limit, CallWritten] @ pump limit n"
  by simp

text \<open>Pumping goes on until the known packs are awaited or everything is sent.\<close>

lemma pump_many:
  assumes "idle run k" "k + n \<le> length (script (run_session run))" "3 < k + n \<Longrightarrow> 3 < k \<or> k = 3 \<and> cfg_stage (run_session run) \<noteq> AwaitingKnownPacks"
    "\<And>p. p \<in> set (script (run_session run)) \<Longrightarrow> \<exists>bytes. config_encode env p limit = Inr bytes"
  shows "\<exists>run'. run_calls env (pump limit n) run = Some run' \<and> idle run' (k + n) \<and> script (run_session run') = script (run_session run) \<and>
    cfg_snapshot (run_session run') = cfg_snapshot (run_session run)"
  using assms
proof (induction n arbitrary: run k)
  case 0
  then show ?case by simp
next
  case (Suc n)
  let ?s = "run_session run"
  have i: "at_progress ?s k" "cfg_stage ?s \<noteq> StageClosed" using Suc(2) by (auto simp: idle_def)
  have less: "k < length (script ?s)" using Suc(3) by simp
  have st: "cfg_stage ?s \<noteq> AwaitingKnownPacks" using Suc(4) at_progress_stage [OF i] at_progress_awaiting [OF i(1)] by (cases "k = 3") auto
  obtain w where w: "stage_packet ?s = Some (Some (script ?s ! k, w))" using stage_packet_next [OF i st less] by blast
  obtain bytes where "config_encode env (script ?s ! k) limit = Inr bytes" using Suc(5) less by fastforce
  then obtain run1 where r1: "run_calls env [CallNext limit, CallWritten] run = Some run1" "idle run1 (Suc k)" "script (run_session run1) = script ?s"
    "cfg_snapshot (run_session run1) = cfg_snapshot ?s" by (rule pump_once [OF Suc(2) w])
  have later: "3 < Suc k + n \<Longrightarrow> 3 < Suc k \<or> Suc k = 3 \<and> cfg_stage (run_session run1) \<noteq> AwaitingKnownPacks" using Suc(4) by auto
  have "\<exists>run'. run_calls env (pump limit n) run1 = Some run' \<and> idle run' (Suc k + n) \<and> script (run_session run') = script (run_session run1) \<and>
      cfg_snapshot (run_session run') = cfg_snapshot (run_session run1)"
    by (rule Suc(1) [OF r1(2) _ later]) (use Suc(3,5) r1(3) in auto)
  then show ?case
    using r1 run_calls_append [of env "[CallNext limit, CallWritten]" "pump limit n" run] by (auto simp del: run_calls.simps simp: pump_Suc)
qed

end
