(* ===== verification/ConfigProps.thy ===== *)
theory ConfigProps
  imports ConfigSession
begin

text \<open>
  What the configuration session promises: the order of what it publishes, that every packet it refuses
  closes the connection, and that a client that answers is configured completely.
\<close>

section \<open>A small snapshot\<close>

definition sample_snapshot :: ConfigurationSnapshot where
  "sample_snapshot =
    \<lparr>cs_registries = [\<lparr>rd_id = ascii ''r'', rd_entries = []\<rparr>], cs_tags = [], cs_known_packs = [], cs_features = []\<rparr>"

definition sample_session :: ConfigurationSession where
  "sample_session = config_new sample_snapshot (ascii ''b'') 0"

lemma sample_answer: "config_decode plain_env [7, 0] 100 = Inr (SB_SelectKnownPacks \<lparr>kr_fields = [], kr_count = 0\<rparr>)"
  by code_simp

lemma sample_strings: "response_strings \<lparr>kr_fields = [], kr_count = 0\<rparr> []"
  by (simp add: response_strings_def return_p_def pr_finish_def pr_remaining_def reader_new_def)

lemma sample_parts:
  "identifier_parts (ascii ''minecraft:brand'') = Inr (ascii ''minecraft'', ascii ''brand'')"
  "identifier_parts (ascii ''r'') = Inr (ascii ''minecraft'', ascii ''r'')"
  by code_simp+

lemma sample_lengths:
  "length (str_bytes (ascii ''minecraft'')) = 9" "length (str_bytes (ascii ''brand'')) = 5" "length (str_bytes (ascii ''r'')) = 1"
  "length (str_bytes (ascii ''b'')) = 1" "utf16_len (ascii ''b'') = 1"
  by (simp_all add: ascii_def str_bytes_def utf8_encode_char_def utf16_len_def)

lemma sample_varints:
  "encode_varint 0 = [0]" "encode_varint 1 = [1]" "encode_varint 13 = [13]" "encode_varint 14 = [14]" "encode_varint 15 = [15]"
  "encode_varint 7 = [7]" "encode_varint 11 = [11]"
  "varint_len 1 = 1" "varint_len 11 = 1" "varint_len 15 = 1"
  by code_simp+

lemma sample_encodes:
  assumes "p \<in> set (script s)" "cfg_brand s = ascii ''b''" "cfg_snapshot s = sample_snapshot"
  shows "\<exists>bytes. config_encode plain_env p 100 = Inr bytes"
  using assms by (auto simp: script_def sample_snapshot_def config_encode_def encode_fields_def then_w_def pw_varint_def pw_raw_def pw_reserve_def
      pw_extend_def writer_new_def check_w_def check_length_def checked_add_def checked_mul_def USIZE_MAX_def plain_env_def pw_identifier_def sample_parts
      sample_lengths sample_varints pw_length_prefix_def pw_utf_def pw_bytes_def pw_count_def registry_header_def IDENTIFIER_UTF16_LIMIT_def Let_def)

section \<open>Order\<close>

text \<open>
  C7: The session publishes the brand, the enabled features and the known packs, then every registry in
  order, then the tags. Whatever calls are made on a new session, in any order and with any input, no
  call panics, the snapshot and the brand stay what they were, the packets completely written (keep-alives
  aside) are a prefix of that sequence, and they are all of it when the session awaits the spawn.
\<close>

theorem configuration_published_in_order:
  assumes "cs_registries snapshot \<noteq> []"
  shows "\<exists>run. run_calls env calls (run_new (config_new snapshot brand now)) = Some run \<and>
    cfg_snapshot (run_session run) = snapshot \<and> cfg_brand (run_session run) = brand \<and>
    (\<exists>k. configuration_packets (run_sent run) = take k (script (run_session run))) \<and>
    (cfg_stage (run_session run) = AwaitingSpawn \<longrightarrow> configuration_packets (run_sent run) = script (run_session run))"
proof -
  note new = run_ok_new [OF assms, of brand now]
  obtain run where run: "run_calls env calls (run_new (config_new snapshot brand now)) = Some run" "run_ok run" using run_ok_calls [OF new] by blast
  moreover obtain k where "at_progress (run_session run) k" "configuration_packets (run_sent run) = take k (script (run_session run))"
    using run(2) by (auto simp: run_ok_def)
  ultimately show ?thesis
    using run_calls_keeps [OF run(1) new] length_script [of "run_session run"] by (auto simp: at_progress_def run_new_def config_new_def)
qed

theorem configuration_published_in_order_witness:
  "cs_registries sample_snapshot \<noteq> [] \<and>
    (\<exists>run. run_calls plain_env [CallNext 100, CallWritten, CallTick 20000, CallNext 100, CallWritten]
        (run_new sample_session) = Some run \<and>
      cfg_snapshot (run_session run) = sample_snapshot \<and> cfg_brand (run_session run) = ascii ''b'' \<and>
      (\<exists>k. configuration_packets (run_sent run) = take k (script (run_session run))) \<and>
      (cfg_stage (run_session run) = AwaitingSpawn \<longrightarrow> configuration_packets (run_sent run) = script (run_session run)))"
proof -
  have ne: "cs_registries sample_snapshot \<noteq> []" by (simp add: sample_snapshot_def)
  show ?thesis using ne configuration_published_in_order [OF ne] unfolding sample_session_def by blast
qed

section \<open>Errors\<close>

text \<open>
  C17: Every packet that the session answers with an error leaves it closed. This includes the one early
  return of the handler that does not close the session itself: it is never taken, because a decoded
  response can always be compared with the known packs.
\<close>

theorem configuration_errors_close:
  assumes "packs_ok (cs_known_packs (cfg_snapshot s))" "on_packet env input now limit s = (Inl e, s')"
  shows "cfg_stage s' = StageClosed \<and> (cfg_stage s \<noteq> StageClosed \<longrightarrow> s' = config_close s)"
proof (cases "\<exists>response. config_decode env input limit = Inr (SB_SelectKnownPacks response) \<and> cfg_stage s = AwaitingKnownPacks")
  case True
  then obtain response where r: "config_decode env input limit = Inr (SB_SelectKnownPacks response)" "cfg_stage s = AwaitingKnownPacks" by blast
  obtain ss where "response_strings response ss" using decode_known_packs [OF r(1)] by blast
  then have "on_packet env input now limit s \<noteq> (Inl e, s')"
    using response_matches_strings assms(1) r by (simp add: on_packet_def on_response_def)
  then show ?thesis using assms(2) by blast
next
  case False
  then show ?thesis
    using assms(2) by (auto simp: on_packet_def on_response_def config_close_def split: sum.splits Serverbound.splits if_splits)
qed

theorem configuration_errors_close_witness:
  "packs_ok (cs_known_packs (cfg_snapshot sample_session)) \<and>
    on_packet plain_env [3] 5 100 sample_session =
      (Inl (Unexpected ''finish configuration received before the actual spawn prerequisite''), config_close sample_session) \<and>
    cfg_stage (config_close sample_session) = StageClosed"
proof -
  have p: "packs_ok (cs_known_packs (cfg_snapshot sample_session))" by (simp add: sample_session_def sample_snapshot_def config_new_def packs_ok_def pack_strings_def)
  have "config_decode plain_env [3] 100 = Inr SB_FinishConfiguration" by code_simp
  then have o: "on_packet plain_env [3] 5 100 sample_session =
      (Inl (Unexpected ''finish configuration received before the actual spawn prerequisite''), config_close sample_session)"
    by (simp add: on_packet_def sample_session_def config_new_def)
  show ?thesis using p o configuration_errors_close [OF p o] by blast
qed

section \<open>Completion\<close>

lemma pump_step:
  assumes "run_calls env [CallNext limit, CallWritten] run = Some run'"
  shows "cfg_packs_matched (run_session run') = cfg_packs_matched (run_session run) \<and>
    (cfg_stage (run_session run') = SendingRegistries \<longrightarrow> cfg_stage (run_session run) = SendingRegistries)"
  using assms by (auto simp: run_call_def next_outbound_def outbound_written_def Let_def
      split: option.splits sum.splits prod.splits PendingWrite.splits if_splits bind_splits)

lemma pump_keeps:
  "run_calls env (pump limit n) run = Some run' \<Longrightarrow> cfg_packs_matched (run_session run') = cfg_packs_matched (run_session run) \<and>
    (cfg_stage (run_session run') = SendingRegistries \<longrightarrow> cfg_stage (run_session run) = SendingRegistries)"
proof (induction n arbitrary: run)
  case (Suc n)
  obtain run1 where r: "run_calls env [CallNext limit, CallWritten] run = Some run1" "run_calls env (pump limit n) run1 = Some run'"
    using Suc(2) unfolding pump_Suc run_calls_append by (auto simp del: run_calls.simps split: bind_splits)
  show ?case using Suc(1) [OF r(2)] pump_step [OF r(1)] by simp
qed simp

lemma at_progress_end: "at_progress s (3 + (1 + length (cs_registries (cfg_snapshot s)))) \<Longrightarrow> cfg_stage s \<noteq> StageClosed \<Longrightarrow> cfg_stage s = AwaitingSpawn"
  by (cases "cfg_stage s") (auto simp: at_progress_def)

lemmas pump_stage = pump_keeps [THEN conjunct2, rule_format]
lemmas pump_packs = pump_keeps [THEN conjunct1]

text \<open>
  C13: A client that answers is configured. When every packet of the snapshot fits the packet limit, a
  driver that writes what the session asks for, hands in the client's answer to the known packs and goes on
  writing reaches the wait for the spawn after a number of steps fixed by the snapshot, with everything
  published once and in order, and the session has negotiated the known packs exactly when the client
  answered with the strings of the snapshot's packs.
\<close>

theorem configuration_completes:
  assumes "cs_registries snapshot \<noteq> []" "packs_ok (cs_known_packs snapshot)"
    "\<And>s p. cfg_snapshot s = snapshot \<Longrightarrow> cfg_brand s = brand \<Longrightarrow> p \<in> set (script s) \<Longrightarrow> \<exists>bytes. config_encode env p limit = Inr bytes"
    "config_decode env answer limit = Inr (SB_SelectKnownPacks response)" "response_strings response ss"
  shows "\<exists>run. run_calls env (pump limit 3 @ [CallPacket answer now limit] @ pump limit (1 + length (cs_registries snapshot)))
      (run_new (config_new snapshot brand start)) = Some run \<and>
    cfg_stage (run_session run) = AwaitingSpawn \<and> configuration_packets (run_sent run) = script (run_session run) \<and>
    cfg_packs_matched (run_session run) = (ss = pack_strings (cs_known_packs snapshot))"
proof -
  let ?run = "run_new (config_new snapshot brand start)"
  let ?n = "1 + length (cs_registries snapshot)"
  have i0: "idle ?run 0" "cfg_snapshot (run_session ?run) = snapshot" "cfg_brand (run_session ?run) = brand"
    using assms(1) by (simp_all add: idle_def run_new_def config_new_def at_progress_def configuration_packets_def)
  have "\<exists>run'. run_calls env (pump limit 3) ?run = Some run' \<and> idle run' (0 + 3) \<and> script (run_session run') = script (run_session ?run) \<and>
      cfg_snapshot (run_session run') = cfg_snapshot (run_session ?run)"
    by (rule pump_many [OF i0(1)]) (use assms(3) i0 in \<open>auto simp: length_script\<close>)
  then obtain run1 where r1: "run_calls env (pump limit 3) ?run = Some run1" "idle run1 3" "cfg_snapshot (run_session run1) = snapshot"
    using i0(2) by auto
  have b1: "cfg_brand (run_session run1) = brand" using run_calls_keeps [OF r1(1) run_ok_new [OF assms(1)]] by (simp add: run_new_def config_new_def)
  let ?s1 = "run_session run1"
  have "cfg_stage ?s1 = AwaitingKnownPacks" using pump_stage [OF r1(1)] r1(2) by (auto simp: idle_def at_progress_def run_new_def config_new_def split: SessionStage.splits)
  then have o: "snd (on_packet env answer now limit ?s1) = ?s1\<lparr>cfg_packs_matched := (ss = pack_strings (cs_known_packs snapshot)), cfg_stage := SendingRegistries\<rparr>"
    using response_matches_strings [OF assms(5,2)] assms(4) r1(3) by (simp add: on_packet_def on_response_def)
  let ?run2 = "run1\<lparr>run_session := snd (on_packet env answer now limit ?s1)\<rparr>"
  have c2: "run_calls env [CallPacket answer now limit] run1 = Some ?run2" by (simp add: run_call_def)
  have i2: "idle ?run2 3" "cfg_snapshot (run_session ?run2) = snapshot" "cfg_brand (run_session ?run2) = brand" "cfg_stage (run_session ?run2) \<noteq> AwaitingKnownPacks"
    using r1(2,3) b1 o \<open>cfg_stage ?s1 = AwaitingKnownPacks\<close> by (auto simp: idle_def at_progress_def script_def)
  have "\<exists>run'. run_calls env (pump limit ?n) ?run2 = Some run' \<and> idle run' (3 + ?n) \<and> script (run_session run') = script (run_session ?run2) \<and>
      cfg_snapshot (run_session run') = cfg_snapshot (run_session ?run2)"
    by (rule pump_many [OF i2(1)]) (use assms(3) i2(2-4) in \<open>auto simp: length_script\<close>)
  then obtain run3 where r3: "run_calls env (pump limit ?n) ?run2 = Some run3" "idle run3 (3 + ?n)" "script (run_session run3) = script (run_session ?run2)"
      "cfg_snapshot (run_session run3) = snapshot"
    using i2(2) by auto
  have "cfg_packs_matched (run_session run3) = (ss = pack_strings (cs_known_packs snapshot))" using pump_packs [OF r3(1)] o by simp
  moreover have "cfg_stage (run_session run3) = AwaitingSpawn" "configuration_packets (run_sent run3) = script (run_session run3)"
    using r3(2,4) length_script [of "run_session run3"] at_progress_end [of "run_session run3"] by (simp_all add: idle_def add.commute)
  moreover have "run_calls env (pump limit 3 @ [CallPacket answer now limit] @ pump limit ?n) ?run = Some run3"
    unfolding run_calls_append r1(1) c2 bind.bind_lunit by (rule r3(1))
  ultimately show ?thesis by blast
qed

theorem configuration_completes_witness:
  "\<exists>run. run_calls plain_env (pump 100 3 @ [CallPacket [7, 0] 9 100] @ pump 100 (1 + length (cs_registries sample_snapshot))) (run_new sample_session) = Some run \<and>
    cfg_stage (run_session run) = AwaitingSpawn \<and> configuration_packets (run_sent run) = script (run_session run) \<and>
    cfg_packs_matched (run_session run) = ([] = pack_strings (cs_known_packs sample_snapshot))"
  unfolding sample_session_def
proof (rule configuration_completes)
  show "cs_registries sample_snapshot \<noteq> []" "packs_ok (cs_known_packs sample_snapshot)" by (simp_all add: sample_snapshot_def packs_ok_def pack_strings_def)
  show "config_decode plain_env [7, 0] 100 = Inr (SB_SelectKnownPacks \<lparr>kr_fields = [], kr_count = 0\<rparr>)" by (rule sample_answer)
  show "response_strings \<lparr>kr_fields = [], kr_count = 0\<rparr> []" by (rule sample_strings)
qed (rule sample_encodes)

end
