(* ===== verification/Login.thy ===== *)
theory Login
  imports ConfigPacket "HOL-Library.Multiset"
begin

text \<open>
  \<^verbatim>\<open>src/server/login\<close>: the packets of the login protocol (\<^verbatim>\<open>packet.rs\<close>, less the JSON disconnect), the
  profile they carry (\<^verbatim>\<open>mod.rs\<close>) and the login state of a connection (\<^verbatim>\<open>session.rs\<close>, up to the driver).
\<close>

section \<open>Profiles\<close>

record ProfileProperty =
  pp_name :: str
  pp_value :: str
  pp_signature :: "str option"

record AuthenticatedProfile =
  ap_id :: "byte list"
  ap_name :: str
  ap_properties :: "ProfileProperty list"

record LoginAccepted =
  la_profile :: AuthenticatedProfile
  la_session_id :: "byte list"
  la_transferred :: bool

section \<open>Packets\<close>

definition MAX_QUERY_BYTES :: nat where "MAX_QUERY_BYTES = 1048576"

definition MAX_COOKIE_BYTES :: nat where "MAX_COOKIE_BYTES = 5120"

datatype LoginPacket =
    LP_Hello str "byte list"
  | LP_Key "byte list" "byte list"
  | LP_QueryAnswer u32
  | LP_Acknowledged
  | LP_CookieResponse str "byte list option"

definition login_body :: "alloc_env \<Rightarrow> nat \<Rightarrow> LoginPacket field_read" where
  "login_body env input_len =
    bind_p pr_varint (\<lambda>v.
    if v = 0 then bind_p (pr_utf env 16) (\<lambda>name. bind_p pr_uuid (\<lambda>claimed. return_p (LP_Hello name claimed)))
    else if v = 1 then bind_p (pr_bytes input_len) (\<lambda>secret. bind_p (pr_bytes input_len) (\<lambda>challenge. return_p (LP_Key secret challenge)))
    else if v = 2 then bind_p pr_varint (\<lambda>transaction. bind_p (pr_remaining_bytes MAX_QUERY_BYTES) (\<lambda>skipped. return_p (LP_QueryAnswer transaction)))
    else if v = 3 then return_p LP_Acknowledged
    else if v = 4 then bind_p (read_cookie env MAX_COOKIE_BYTES) (\<lambda>(key, cookie). return_p (LP_CookieResponse key cookie))
    else fail_p (InvalidValue ''unknown login packet ID''))"

definition login_decode :: "alloc_env \<Rightarrow> byte list \<Rightarrow> PacketError + LoginPacket" where
  "login_decode env input =
    bind_r (login_body env (length input) (reader_new input)) (\<lambda>(packet, r). bind_r (pr_finish r) (\<lambda>u. Inr packet))"

definition login_hello :: "alloc_env \<Rightarrow> byte list \<Rightarrow> byte list \<Rightarrow> nat \<Rightarrow> PacketError + byte list" where
  "login_hello env public_key_der challenge max_bytes =
    (case then_w (pw_varint env 1) (then_w (pw_utf env [] 20) (then_w (pw_bytes env public_key_der max_bytes)
        (then_w (pw_bytes env challenge 4) (pw_boolean env True)))) (writer_new max_bytes) of
       (Inl e, w) \<Rightarrow> Inl e
     | (Inr u, w) \<Rightarrow> Inr (pw_output w))"

definition write_property :: "alloc_env \<Rightarrow> ProfileProperty \<Rightarrow> field_write" where
  "write_property env property =
    then_w (pw_utf env (pp_name property) 64) (then_w (pw_utf env (pp_value property) 32767)
      (then_w (pw_boolean env (pp_signature property \<noteq> None))
        (case pp_signature property of Some signature \<Rightarrow> pw_utf env signature 1024 | None \<Rightarrow> (\<lambda>w. (Inr (), w)))))"

text \<open>The loop over \<open>properties.iter().enumerate()\<close>, from \<open>index\<close> on.\<close>

function write_groups :: "alloc_env \<Rightarrow> ProfileProperty list \<Rightarrow> nat \<Rightarrow> field_write" where
  "write_groups env properties index =
    (if index < length properties
     then then_w
       (if list_ex (\<lambda>property. pp_name property = pp_name (properties ! index)) (take index properties) then (\<lambda>w. (Inr (), w))
        else each_w (write_property env) (filter (\<lambda>property. pp_name property = pp_name (properties ! index)) properties))
       (write_groups env properties (index + 1))
     else (\<lambda>w. (Inr (), w)))"
  by pat_completeness auto
termination by (relation "measure (\<lambda>(env, properties, index). length properties - index)") auto

declare write_groups.simps [simp del]

definition login_finished :: "alloc_env \<Rightarrow> AuthenticatedProfile \<Rightarrow> byte list \<Rightarrow> nat \<Rightarrow> PacketError + byte list" where
  "login_finished env profile session_id max_bytes =
    (if length (ap_properties profile) > 16 then Inl (InvalidValue ''too many profile properties'')
     else (case then_w (pw_varint env 2) (then_w (pw_uuid env (ap_id profile)) (then_w (pw_utf env (ap_name profile) 16)
         (then_w (pw_varint env (of_nat (length (ap_properties profile)))) (then_w (write_groups env (ap_properties profile) 0)
           (pw_uuid env session_id))))) (writer_new max_bytes) of
         (Inl e, w) \<Rightarrow> Inl e
       | (Inr u, w) \<Rightarrow> Inr (pw_output w)))"

section \<open>The login session\<close>

datatype LoginPhase =
    PhaseHello | PhaseKey | PhaseCheckingKey | PhaseAuthenticating | PhaseVerifying | PhaseWaitingForDuplicate | PhaseReadyToFinish
  | PhaseWritingFinished | PhaseAwaitingAcknowledgement | PhaseAccepted | PhaseClosed

datatype LoginError = UnexpectedPacket | InvalidName | SlowLogin | LoginClosed

record LoginSession =
  ls_phase :: LoginPhase
  ls_requested_name :: "str option"
  ls_profile :: "AuthenticatedProfile option"
  ls_session_id :: "byte list option"
  ls_ticks :: u16
  ls_transferred :: bool

type_synonym 'a login_op = "LoginSession \<Rightarrow> (LoginError + 'a) \<times> LoginSession"

definition login_new :: "bool \<Rightarrow> LoginSession" where
  "login_new transferred =
    \<lparr>ls_phase = PhaseHello, ls_requested_name = None, ls_profile = None, ls_session_id = None, ls_ticks = 0, ls_transferred = transferred\<rparr>"

definition login_close :: "LoginSession \<Rightarrow> LoginSession" where
  "login_close s = s\<lparr>ls_phase := PhaseClosed\<rparr>"

definition login_require :: "LoginPhase \<Rightarrow> LoginSession \<Rightarrow> LoginError + unit" where
  "login_require phase s =
    (if ls_phase s = PhaseClosed then Inl LoginClosed else if ls_phase s \<noteq> phase then Inl UnexpectedPacket else Inr ())"

text \<open>\<open>self.require(phase)?\<close> before the rest of an operation.\<close>

definition in_phase :: "LoginPhase \<Rightarrow> 'a login_op \<Rightarrow> 'a login_op" where
  "in_phase phase op s = (case login_require phase s of Inl e \<Rightarrow> (Inl e, s) | Inr u \<Rightarrow> op s)"

text \<open>Length and range are those of the bytes of the name.\<close>

definition valid_name :: "str \<Rightarrow> bool" where
  "valid_name name \<longleftrightarrow> length (str_bytes name) \<le> 16 \<and> list_all (\<lambda>b. 33 \<le> b \<and> b < 127) (str_bytes name)"

definition receive_hello :: "str \<Rightarrow> unit login_op" where
  "receive_hello name = in_phase PhaseHello (\<lambda>s.
    if \<not> valid_name name then (Inl InvalidName, s)
    else (Inr (), s\<lparr>ls_requested_name := Some name, ls_phase := PhaseKey\<rparr>))"

definition begin_key_verification :: "unit login_op" where
  "begin_key_verification = in_phase PhaseKey (\<lambda>s. (Inr (), s\<lparr>ls_phase := PhaseCheckingKey\<rparr>))"

definition key_verified :: "unit login_op" where
  "key_verified = in_phase PhaseCheckingKey (\<lambda>s. (Inr (), s\<lparr>ls_phase := PhaseAuthenticating\<rparr>))"

definition authenticated :: "AuthenticatedProfile \<Rightarrow> unit login_op" where
  "authenticated profile = in_phase PhaseAuthenticating (\<lambda>s. (Inr (), s\<lparr>ls_profile := Some profile, ls_phase := PhaseVerifying\<rparr>))"

definition offline_profile :: "AuthenticatedProfile \<Rightarrow> unit login_op" where
  "offline_profile profile = in_phase PhaseKey (\<lambda>s. (Inr (), s\<lparr>ls_profile := Some profile, ls_phase := PhaseVerifying\<rparr>))"

definition login_admitted :: "byte list \<Rightarrow> bool \<Rightarrow> unit login_op" where
  "login_admitted session_id duplicate_pending = in_phase PhaseVerifying (\<lambda>s.
    (Inr (), s\<lparr>ls_session_id := Some session_id, ls_phase := if duplicate_pending then PhaseWaitingForDuplicate else PhaseReadyToFinish\<rparr>))"

definition duplicate_removed :: "unit login_op" where
  "duplicate_removed = in_phase PhaseWaitingForDuplicate (\<lambda>s. (Inr (), s\<lparr>ls_phase := PhaseReadyToFinish\<rparr>))"

definition begin_finished_write :: "byte list login_op" where
  "begin_finished_write = in_phase PhaseReadyToFinish (\<lambda>s.
    (ok_or (ls_session_id s) UnexpectedPacket, s\<lparr>ls_phase := PhaseWritingFinished\<rparr>))"

definition finished_written :: "unit login_op" where
  "finished_written = in_phase PhaseWritingFinished (\<lambda>s. (Inr (), s\<lparr>ls_phase := PhaseAwaitingAcknowledgement\<rparr>))"

definition acknowledge :: "LoginAccepted login_op" where
  "acknowledge = in_phase PhaseAwaitingAcknowledgement (\<lambda>s.
    case ls_profile s of
      None \<Rightarrow> (Inl UnexpectedPacket, s)
    | Some profile \<Rightarrow>
        (let s = s\<lparr>ls_profile := None\<rparr> in
         case ls_session_id s of
           None \<Rightarrow> (Inl UnexpectedPacket, s)
         | Some session_id \<Rightarrow>
             (Inr \<lparr>la_profile = profile, la_session_id = session_id, la_transferred = ls_transferred s\<rparr>, s\<lparr>ls_phase := PhaseAccepted\<rparr>)))"

definition login_tick :: "unit login_op" where
  "login_tick s =
    (if ls_phase s = PhaseClosed then (Inl LoginClosed, s)
     else if ls_phase s = PhaseAccepted then (Inr (), s)
     else if ls_ticks s = 600 then (Inl SlowLogin, login_close s)
     else (Inr (), s\<lparr>ls_ticks := ls_ticks s + 1\<rparr>))"

end
