(* ===== verification/LoginLaws.thy ===== *)
theory LoginLaws
  imports Login
begin

text \<open>
  The login state machine against the handshake it has to enforce, its tick limit, and the packet that
  ends the login read back by the client.
\<close>

section \<open>Runs\<close>

datatype login_call =
    LC_Hello str | LC_BeginKey | LC_KeyVerified | LC_Authenticated AuthenticatedProfile | LC_Offline AuthenticatedProfile
  | LC_Admitted "byte list" bool | LC_DuplicateRemoved | LC_BeginFinished | LC_FinishedWritten | LC_Acknowledge | LC_Tick | LC_Close

datatype login_output = LO_Unit | LO_Session "byte list" | LO_Accepted LoginAccepted

definition no_output :: "unit login_op \<Rightarrow> login_output login_op" where
  "no_output op s = (case op s of (result, s') \<Rightarrow> (map_r (\<lambda>u. LO_Unit) result, s'))"

fun do_login :: "login_call \<Rightarrow> login_output login_op" where
  "do_login (LC_Hello name) = no_output (receive_hello name)"
| "do_login LC_BeginKey = no_output begin_key_verification"
| "do_login LC_KeyVerified = no_output key_verified"
| "do_login (LC_Authenticated profile) = no_output (authenticated profile)"
| "do_login (LC_Offline profile) = no_output (offline_profile profile)"
| "do_login (LC_Admitted sid dup) = no_output (login_admitted sid dup)"
| "do_login LC_DuplicateRemoved = no_output duplicate_removed"
| "do_login LC_BeginFinished = (\<lambda>s. case begin_finished_write s of (result, s') \<Rightarrow> (map_r LO_Session result, s'))"
| "do_login LC_FinishedWritten = no_output finished_written"
| "do_login LC_Acknowledge = (\<lambda>s. case acknowledge s of (result, s') \<Rightarrow> (map_r LO_Accepted result, s'))"
| "do_login LC_Tick = no_output login_tick"
| "do_login LC_Close = (\<lambda>s. (Inr LO_Unit, login_close s))"

text \<open>A run keeps the session and the calls that succeeded, with what they gave.\<close>

record login_run =
  lr_session :: LoginSession
  lr_log :: "(login_call \<times> login_output) list"

definition lr_call :: "login_call \<Rightarrow> login_run \<Rightarrow> login_run" where
  "lr_call c run =
    (case do_login c (lr_session run) of
       (Inl e, s) \<Rightarrow> run\<lparr>lr_session := s\<rparr>
     | (Inr output, s) \<Rightarrow> \<lparr>lr_session = s, lr_log = lr_log run @ [(c, output)]\<rparr>)"

definition login_calls :: "bool \<Rightarrow> login_call list \<Rightarrow> login_run" where
  "login_calls transferred cs = fold lr_call cs \<lparr>lr_session = login_new transferred, lr_log = []\<rparr>"

definition handshake_of :: "(login_call \<times> login_output) list \<Rightarrow> login_call list" where
  "handshake_of entries = filter (\<lambda>c. c \<noteq> LC_Tick \<and> c \<noteq> LC_Close) (map fst entries)"

definition tick_count :: "(login_call \<times> login_output) list \<Rightarrow> nat" where
  "tick_count entries = length (filter (\<lambda>c. c = LC_Tick) (map fst entries))"

lemma log_snoc [simp]:
  "handshake_of (l @ [(c, x)]) = handshake_of l @ (if c = LC_Tick \<or> c = LC_Close then [] else [c])"
  "tick_count (l @ [(c, x)]) = tick_count l + (if c = LC_Tick then 1 else 0)"
  by (simp_all add: handshake_of_def tick_count_def)

lemma login_calls_snoc: "login_calls t (cs @ [c]) = lr_call c (login_calls t cs)"
  by (simp add: login_calls_def)

section \<open>The handshake\<close>

text \<open>
  The calls that lead to a phase, with the profile and the session they supplied: a name, one of the two
  ways to a profile, admission, the removal of a duplicate where there is one, the end of the login.
\<close>

inductive handshake :: "login_call list \<Rightarrow> LoginPhase \<Rightarrow> AuthenticatedProfile option \<Rightarrow> byte list option \<Rightarrow> bool" where
  start: "handshake [] PhaseHello None None"
| hello: "handshake h PhaseHello p i \<Longrightarrow> valid_name name \<Longrightarrow> handshake (h @ [LC_Hello name]) PhaseKey p i"
| key: "handshake h PhaseKey p i \<Longrightarrow> handshake (h @ [LC_BeginKey]) PhaseCheckingKey p i"
| verified: "handshake h PhaseCheckingKey p i \<Longrightarrow> handshake (h @ [LC_KeyVerified]) PhaseAuthenticating p i"
| online: "handshake h PhaseAuthenticating p i \<Longrightarrow> handshake (h @ [LC_Authenticated profile]) PhaseVerifying (Some profile) i"
| offline: "handshake h PhaseKey p i \<Longrightarrow> handshake (h @ [LC_Offline profile]) PhaseVerifying (Some profile) i"
| admit: "handshake h PhaseVerifying p i \<Longrightarrow>
    handshake (h @ [LC_Admitted sid dup]) (if dup then PhaseWaitingForDuplicate else PhaseReadyToFinish) p (Some sid)"
| duplicate: "handshake h PhaseWaitingForDuplicate p i \<Longrightarrow> handshake (h @ [LC_DuplicateRemoved]) PhaseReadyToFinish p i"
| finish: "handshake h PhaseReadyToFinish p i \<Longrightarrow> handshake (h @ [LC_BeginFinished]) PhaseWritingFinished p i"
| written: "handshake h PhaseWritingFinished p i \<Longrightarrow> handshake (h @ [LC_FinishedWritten]) PhaseAwaitingAcknowledgement p i"
| accept: "handshake h PhaseAwaitingAcknowledgement p i \<Longrightarrow> handshake (h @ [LC_Acknowledge]) PhaseAccepted p i"

inductive_simps handshake_phases:
  "handshake h PhaseHello p i" "handshake h PhaseKey p i" "handshake h PhaseCheckingKey p i" "handshake h PhaseAuthenticating p i"
  "handshake h PhaseWritingFinished p i" "handshake h PhaseAwaitingAcknowledgement p i" "handshake h PhaseAccepted p i"

inductive_cases handshake_verifying: "handshake h PhaseVerifying p i"
inductive_cases handshake_waiting: "handshake h PhaseWaitingForDuplicate p i"
inductive_cases handshake_ready: "handshake h PhaseReadyToFinish p i"

lemma handshake_never_closed: "\<not> handshake h PhaseClosed p i"
  by (auto elim: handshake.cases split: if_splits)

lemma handshake_supplied:
  "handshake h ph p i \<Longrightarrow> (ph \<in> {PhaseWaitingForDuplicate, PhaseReadyToFinish, PhaseWritingFinished, PhaseAwaitingAcknowledgement, PhaseAccepted} \<longrightarrow> p \<noteq> None \<and> i \<noteq> None) \<and>
    (ph = PhaseVerifying \<longrightarrow> p \<noteq> None)"
  by (induction rule: handshake.induct) auto

text \<open>The calls up to admission, and the whole of an accepted login.\<close>

lemma handshake_shape_verifying:
  assumes "handshake h PhaseVerifying p i"
  shows "\<exists>name profile. valid_name name \<and> p = Some profile \<and>
    (h = [LC_Hello name, LC_BeginKey, LC_KeyVerified, LC_Authenticated profile] \<or> h = [LC_Hello name, LC_Offline profile])"
  using assms by (cases rule: handshake_verifying) (auto simp: handshake_phases split: if_splits)

lemma handshake_shape_waiting:
  assumes "handshake h PhaseWaitingForDuplicate p i"
  shows "\<exists>h' sid j. handshake h' PhaseVerifying p j \<and> i = Some sid \<and> h = h' @ [LC_Admitted sid True]"
  using assms by (rule handshake_waiting) (auto split: if_splits)

lemma handshake_shape_ready:
  assumes "handshake h PhaseReadyToFinish p i"
  shows "\<exists>h' sid j. handshake h' PhaseVerifying p j \<and> i = Some sid \<and> (h = h' @ [LC_Admitted sid False] \<or> h = h' @ [LC_Admitted sid True, LC_DuplicateRemoved])"
  using assms by (rule handshake_ready) (use handshake_shape_waiting in \<open>fastforce split: if_splits\<close>)+

lemma handshake_shape:
  assumes "handshake h PhaseAccepted p i"
  shows "\<exists>name profile sid dup opening. valid_name name \<and> p = Some profile \<and> i = Some sid \<and>
    opening \<in> {[LC_BeginKey, LC_KeyVerified, LC_Authenticated profile], [LC_Offline profile]} \<and>
    h = [LC_Hello name] @ opening @ [LC_Admitted sid dup] @ (if dup then [LC_DuplicateRemoved] else []) @ [LC_BeginFinished, LC_FinishedWritten, LC_Acknowledge]"
proof -
  obtain h1 where h1: "handshake h1 PhaseReadyToFinish p i" "h = h1 @ [LC_BeginFinished, LC_FinishedWritten, LC_Acknowledge]"
    using assms by (auto simp: handshake_phases split: if_splits)
  obtain h2 sid j where h2: "handshake h2 PhaseVerifying p j" "i = Some sid" "h1 = h2 @ [LC_Admitted sid False] \<or> h1 = h2 @ [LC_Admitted sid True, LC_DuplicateRemoved]"
    using handshake_shape_ready [OF h1(1)] by blast
  then obtain dup where dup: "h1 = h2 @ [LC_Admitted sid dup] @ (if dup then [LC_DuplicateRemoved] else [])"
    by (metis (full_types) append.right_neutral append_Cons append_Nil)
  obtain name profile where "valid_name name" "p = Some profile"
    "h2 = [LC_Hello name, LC_BeginKey, LC_KeyVerified, LC_Authenticated profile] \<or> h2 = [LC_Hello name, LC_Offline profile]"
    using handshake_shape_verifying [OF h2(1)] by blast
  then show ?thesis using h1(2) h2(2) dup by (intro exI [of _ name] exI [of _ profile] exI [of _ sid] exI [of _ dup] exI [of _ "tl h2"]) auto
qed

section \<open>The session follows the handshake\<close>

definition accepted_as :: "login_run \<Rightarrow> LoginAccepted \<Rightarrow> bool" where
  "accepted_as run a \<longleftrightarrow> (LC_Acknowledge, LO_Accepted a) \<in> set (lr_log run)"

definition follows :: "bool \<Rightarrow> login_run \<Rightarrow> LoginPhase \<Rightarrow> AuthenticatedProfile option \<Rightarrow> byte list option \<Rightarrow> bool" where
  "follows t run ph p i \<longleftrightarrow> ls_transferred (lr_session run) = t \<and> handshake (handshake_of (lr_log run)) ph p i \<and> ls_phase (lr_session run) \<in> {ph, PhaseClosed} \<and>
    (ph \<noteq> PhaseAccepted \<longrightarrow> ls_profile (lr_session run) = p \<and> ls_session_id (lr_session run) = i) \<and>
    (\<forall>a. accepted_as run a \<longrightarrow> ph = PhaseAccepted \<and> p = Some (la_profile a) \<and> i = Some (la_session_id a) \<and> la_transferred a = t)"

lemma follows_new: "follows t \<lparr>lr_session = login_new t, lr_log = []\<rparr> PhaseHello None None"
  by (auto simp: follows_def handshake_of_def login_new_def accepted_as_def intro!: handshake.start)

lemmas login_op_defs = no_output_def receive_hello_def begin_key_verification_def key_verified_def authenticated_def offline_profile_def
  login_admitted_def duplicate_removed_def begin_finished_write_def finished_written_def acknowledge_def login_tick_def login_close_def
  in_phase_def login_require_def map_r_def ok_or_def

text \<open>What a call does to a session at a point of the handshake.\<close>

lemma do_login_refused:
  assumes "do_login c s = (Inl e, s')"
  shows "s' = s \<or> s' = login_close s \<or> c = LC_BeginFinished \<and> ls_session_id s = None \<or> c = LC_Acknowledge \<and> (ls_profile s = None \<or> ls_session_id s = None)"
  using assms by (cases c) (auto simp: login_op_defs Let_def split: if_splits option.splits sum.splits)

lemma do_login_aside:
  assumes "do_login c s = (Inr out, s')" "c = LC_Tick \<or> c = LC_Close"
  shows "s' = s \<or> s' = login_close s \<or> s' = s\<lparr>ls_ticks := ls_ticks s + 1\<rparr>"
  using assms by (auto simp: login_op_defs split: if_splits)

lemma do_login_moves:
  assumes "do_login c s = (Inr out, s')" "c \<noteq> LC_Tick" "c \<noteq> LC_Close" "handshake h (ls_phase s) p i"
    "ls_phase s \<noteq> PhaseAccepted \<longrightarrow> ls_profile s = p \<and> ls_session_id s = i"
  shows "\<exists>p' i'. handshake (h @ [c]) (ls_phase s') p' i' \<and> (ls_phase s' \<noteq> PhaseAccepted \<longrightarrow> ls_profile s' = p' \<and> ls_session_id s' = i') \<and> ls_transferred s' = ls_transferred s \<and>
    (\<forall>a. out = LO_Accepted a \<longrightarrow> ls_phase s' = PhaseAccepted \<and> p' = Some (la_profile a) \<and> i' = Some (la_session_id a) \<and> la_transferred a = ls_transferred s)"
proof (cases c)
  case (LC_Admitted sid dup)
  then show ?thesis using assms handshake.admit [of h p i sid dup] by (auto simp: login_op_defs split: if_splits)
qed (use assms in \<open>auto simp: login_op_defs Let_def split: if_splits option.splits intro: handshake.intros\<close>)

lemma follows_call:
  assumes "follows t run ph p i"
  shows "\<exists>ph p i. follows t (lr_call c run) ph p i"
proof -
  let ?s = "lr_session run"
  note f = assms [unfolded follows_def]
  obtain result s' where c: "do_login c ?s = (result, s')" by (cases "do_login c ?s")
  show ?thesis
  proof (cases result)
    case (Inl e)
    have "s' = ?s \<or> s' = login_close ?s"
      using do_login_refused [OF c [unfolded Inl]] handshake_supplied [of _ ph p i] f c Inl
      by (auto simp: login_op_defs split: if_splits option.splits sum.splits)
    then have "follows t (lr_call c run) ph p i" using f c Inl by (auto simp: lr_call_def follows_def login_close_def accepted_as_def)
    then show ?thesis by blast
  next
    case (Inr out)
    show ?thesis
    proof (cases "c = LC_Tick \<or> c = LC_Close")
      case True
      then have "follows t (lr_call c run) ph p i"
        using do_login_aside [OF c [unfolded Inr] True] f c Inr by (auto simp: lr_call_def follows_def login_close_def accepted_as_def)
      then show ?thesis by blast
    next
      case False
      then have open_: "ls_phase ?s = ph" "ph \<noteq> PhaseAccepted" using f c Inr by (cases c; auto simp: login_op_defs split: if_splits)+
      then have h: "handshake (handshake_of (lr_log run)) (ls_phase ?s) p i" using f by simp
      obtain p' i' where m: "handshake (handshake_of (lr_log run) @ [c]) (ls_phase s') p' i'"
        "ls_phase s' \<noteq> PhaseAccepted \<longrightarrow> ls_profile s' = p' \<and> ls_session_id s' = i'" "ls_transferred s' = ls_transferred ?s"
        "\<forall>a. out = LO_Accepted a \<longrightarrow> ls_phase s' = PhaseAccepted \<and> p' = Some (la_profile a) \<and> i' = Some (la_session_id a) \<and> la_transferred a = ls_transferred ?s"
        using do_login_moves [OF c [unfolded Inr] _ _ h] f open_ False by blast
      then have "follows t (lr_call c run) (ls_phase s') p' i'" using f open_ c Inr False by (auto simp: lr_call_def follows_def accepted_as_def)
      then show ?thesis by blast
    qed
  qed
qed

lemma login_follows: "\<exists>ph p i. follows t (login_calls t cs) ph p i"
proof (induction cs rule: rev_induct)
  case Nil
  then show ?case using follows_new by (auto simp: login_calls_def)
next
  case (snoc c cs)
  then show ?case using follows_call by (auto simp: login_calls_snoc)
qed

section \<open>Ticks\<close>

lemma unat_tick: "ls_ticks s \<noteq> 600 \<Longrightarrow> unat (ls_ticks s) \<le> 600 \<Longrightarrow> unat (ls_ticks s + 1) = unat (ls_ticks s) + 1 \<and> unat (ls_ticks s) < 600"
proof -
  assume a: "ls_ticks s \<noteq> 600" "unat (ls_ticks s) \<le> 600"
  have "unat (ls_ticks s) \<noteq> unat (600 :: u16)" using a(1) by (simp only: word_unat_eq_iff not_False_eq_True)
  then have "unat (ls_ticks s) < 600" using a(2) by simp
  then show ?thesis by (simp add: unat_word_ariths)
qed

lemma ticks_counted:
  "(\<forall>a. \<not> accepted_as (login_calls t cs) a) \<longrightarrow> ls_phase (lr_session (login_calls t cs)) \<noteq> PhaseAccepted \<and>
    unat (ls_ticks (lr_session (login_calls t cs))) = tick_count (lr_log (login_calls t cs)) \<and> tick_count (lr_log (login_calls t cs)) \<le> 600"
proof (induction cs rule: rev_induct)
  case Nil
  then show ?case by (simp add: login_calls_def login_new_def tick_count_def)
next
  case (snoc c cs)
  let ?run = "login_calls t cs"
  let ?s = "lr_session ?run"
  obtain result s' where c: "do_login c ?s = (result, s')" by (cases "do_login c ?s")
  show ?case
  proof (intro impI)
    assume none: "\<forall>a. \<not> accepted_as (login_calls t (cs @ [c])) a"
    then have ih: "ls_phase ?s \<noteq> PhaseAccepted" "unat (ls_ticks ?s) = tick_count (lr_log ?run)" "tick_count (lr_log ?run) \<le> 600"
      using snoc by (auto simp: login_calls_snoc lr_call_def accepted_as_def split: sum.splits prod.splits)
    have ph: "ls_phase s' \<noteq> PhaseAccepted"
      using ih(1) none c by (cases c) (auto simp: login_calls_snoc lr_call_def accepted_as_def login_op_defs Let_def split: if_splits option.splits)
    have "ls_ticks s' = ls_ticks ?s" if "c \<noteq> LC_Tick"
      using that c by (cases c) (auto simp: login_op_defs Let_def split: if_splits option.splits)
    moreover have "unat (ls_ticks s') = tick_count (lr_log (login_calls t (cs @ [c]))) \<and> tick_count (lr_log (login_calls t (cs @ [c]))) \<le> 600" if "c = LC_Tick"
      using that c ih by (auto simp: login_calls_snoc lr_call_def login_op_defs dest: unat_tick split: if_splits)
    ultimately show "ls_phase (lr_session (login_calls t (cs @ [c]))) \<noteq> PhaseAccepted \<and>
        unat (ls_ticks (lr_session (login_calls t (cs @ [c])))) = tick_count (lr_log (login_calls t (cs @ [c]))) \<and> tick_count (lr_log (login_calls t (cs @ [c]))) \<le> 600"
      using ph ih c by (cases "c = LC_Tick") (auto simp: login_calls_snoc lr_call_def split: sum.splits)
  qed
qed

section \<open>The finished packet\<close>

text \<open>
  The order of a multimap that groups values by first-seen name: the first property with all others of
  its name, then the rest in the same way.
\<close>

function group_by_name :: "ProfileProperty list \<Rightarrow> ProfileProperty list" where
  "group_by_name [] = []"
| "group_by_name (p # ps) = p # filter (\<lambda>q. pp_name q = pp_name p) ps @ group_by_name (filter (\<lambda>q. pp_name q \<noteq> pp_name p) ps)"
  by pat_completeness auto
termination by (relation "measure length") (auto simp: less_Suc_eq_le)

lemma group_by_name_mset: "mset (group_by_name ps) = mset ps"
  by (induction ps rule: group_by_name.induct) (simp_all add: multiset_partition [symmetric])

lemma then_w_assoc: "then_w (then_w a b) c = then_w a (then_w b c)"
  by (auto simp: then_w_def fun_eq_iff split: prod.splits sum.splits)

lemma then_w_skip [simp]: "then_w (\<lambda>w. (Inr (), w)) k = k" "then_w m (\<lambda>w. (Inr (), w)) = m"
  by (auto simp: then_w_def fun_eq_iff split: prod.splits sum.splits)

lemma write_fields_append: "write_fields env (fs @ gs) = then_w (write_fields env fs) (write_fields env gs)"
  by (induction fs) (simp_all add: then_w_assoc)

lemma each_w_append: "each_w f (xs @ ys) = then_w (each_w f xs) (each_w f ys)"
  by (induction xs) (simp_all add: then_w_assoc)

text \<open>The index loop visits the groups of the names that were not seen before.\<close>

lemma write_groups_from:
  "k \<le> length ps \<Longrightarrow> write_groups env ps k =
    each_w (write_property env) (group_by_name (filter (\<lambda>p. pp_name p \<notin> pp_name ` set (take k ps)) (drop k ps)))"
proof (induction "length ps - k" arbitrary: k)
  case 0
  then show ?case by (simp add: write_groups.simps [of env ps k])
next
  case (Suc n)
  then have k: "k < length ps" by simp
  let ?p = "ps ! k"
  have t: "take (Suc k) ps = take k ps @ [?p]" "drop k ps = ?p # drop (Suc k) ps" using k by (simp_all add: take_Suc_conv_app_nth Cons_nth_drop_Suc)
  have ih: "write_groups env ps (k + 1) =
      each_w (write_property env) (group_by_name (filter (\<lambda>p. pp_name p \<notin> pp_name ` set (take (Suc k) ps)) (drop (Suc k) ps)))"
    using Suc(1) [of "k + 1"] Suc(2) k by simp
  show ?case
  proof (cases "pp_name ?p \<in> pp_name ` set (take k ps)")
    case True
    then have seen: "list_ex (\<lambda>q. pp_name q = pp_name ?p) (take k ps)" by (force simp: list_ex_iff)
    have "filter (\<lambda>p. pp_name p \<notin> pp_name ` set (take (Suc k) ps)) (drop (Suc k) ps) = filter (\<lambda>p. pp_name p \<notin> pp_name ` set (take k ps)) (drop (Suc k) ps)"
      using True by (auto simp: t(1) intro!: filter_cong)
    then show ?thesis using True seen k ih unfolding t(2) by (simp add: write_groups.simps [of env ps k])
  next
    case False
    then have seen: "\<not> list_ex (\<lambda>q. pp_name q = pp_name ?p) (take k ps)" by (auto simp: list_ex_iff image_iff)
    have "filter (\<lambda>q. pp_name q = pp_name ?p) (take k ps) = []" using False by (auto simp: filter_empty_conv image_iff)
    then have "filter (\<lambda>q. pp_name q = pp_name ?p) ps = ?p # filter (\<lambda>q. pp_name q = pp_name ?p) (drop (Suc k) ps)"
      using arg_cong [OF append_take_drop_id [of k ps], of "filter (\<lambda>q. pp_name q = pp_name ?p)"] unfolding filter_append t(2) by simp
    moreover have "filter (\<lambda>q. pp_name q = pp_name ?p) (filter (\<lambda>p. pp_name p \<notin> pp_name ` set (take k ps)) (drop (Suc k) ps)) =
        filter (\<lambda>q. pp_name q = pp_name ?p) (drop (Suc k) ps)" unfolding filter_filter by (rule filter_cong) (use False in \<open>auto simp: image_iff\<close>)
    moreover have "filter (\<lambda>q. pp_name q \<noteq> pp_name ?p) (filter (\<lambda>p. pp_name p \<notin> pp_name ` set (take k ps)) (drop (Suc k) ps)) =
        filter (\<lambda>p. pp_name p \<notin> pp_name ` set (take (Suc k) ps)) (drop (Suc k) ps)" unfolding filter_filter by (rule filter_cong) (auto simp: t(1))
    ultimately show ?thesis using False seen k ih unfolding t(2) by (simp add: write_groups.simps [of env ps k] each_w_append then_w_assoc)
  qed
qed

definition property_fields :: "ProfileProperty \<Rightarrow> field list" where
  "property_fields p = [F_utf 64 (pp_name p), F_utf 32767 (pp_value p), F_boolean (pp_signature p \<noteq> None)] @
    (case pp_signature p of Some signature \<Rightarrow> [F_utf 1024 signature] | None \<Rightarrow> [])"

definition finished_fields :: "AuthenticatedProfile \<Rightarrow> byte list \<Rightarrow> field list" where
  "finished_fields profile sid = [F_varint 2, F_uuid (ap_id profile), F_utf 16 (ap_name profile), F_varint (of_nat (length (ap_properties profile)))] @
    concat (map property_fields (group_by_name (ap_properties profile))) @ [F_uuid sid]"

lemma write_property_fields: "write_property env p = write_fields env (property_fields p)"
  by (simp add: write_property_def property_fields_def split: option.splits)

lemma each_property_fields: "each_w (write_property env) ps = write_fields env (concat (map property_fields ps))"
  by (induction ps) (simp_all add: write_property_fields write_fields_append)

lemma login_finished_fields:
  "login_finished env profile sid max_bytes =
    (if length (ap_properties profile) > 16 then Inl (InvalidValue ''too many profile properties'')
     else (case write_fields env (finished_fields profile sid) (writer_new max_bytes) of (Inl e, w) \<Rightarrow> Inl e | (Inr u, w) \<Rightarrow> Inr (pw_output w)))"
  using write_groups_from [of 0 "ap_properties profile" env]
  by (simp add: login_finished_def finished_fields_def each_property_fields write_fields_append then_w_assoc)

section \<open>The client's side\<close>

text \<open>The packet as a client reads it: as many properties as it is told, each with the signature it is told of.\<close>

definition read_property :: "alloc_env \<Rightarrow> ProfileProperty field_read" where
  "read_property env =
    bind_p (pr_utf env 64) (\<lambda>name. bind_p (pr_utf env 32767) (\<lambda>v. bind_p pr_boolean (\<lambda>signed.
    if signed then bind_p (pr_utf env 1024) (\<lambda>signature. return_p \<lparr>pp_name = name, pp_value = v, pp_signature = Some signature\<rparr>)
    else return_p \<lparr>pp_name = name, pp_value = v, pp_signature = None\<rparr>)))"

fun read_properties :: "alloc_env \<Rightarrow> nat \<Rightarrow> ProfileProperty list field_read" where
  "read_properties env 0 = return_p []"
| "read_properties env (Suc n) = bind_p (read_property env) (\<lambda>p. bind_p (read_properties env n) (\<lambda>ps. return_p (p # ps)))"

definition read_finished :: "alloc_env \<Rightarrow> (u32 \<times> AuthenticatedProfile \<times> byte list) field_read" where
  "read_finished env =
    bind_p pr_varint (\<lambda>packet. bind_p pr_uuid (\<lambda>uuid. bind_p (pr_utf env 16) (\<lambda>name. bind_p pr_varint (\<lambda>n.
    bind_p (read_properties env (unat n)) (\<lambda>ps. bind_p pr_uuid (\<lambda>sid. return_p (packet, \<lparr>ap_id = uuid, ap_name = name, ap_properties = ps\<rparr>, sid)))))))"

lemma read_fields_append:
  "read_fields env (fs @ gs) r = Inr (xs @ ys, r') \<Longrightarrow> length xs = length fs \<Longrightarrow> \<exists>r1. read_fields env fs r = Inr (xs, r1) \<and> read_fields env gs r1 = Inr (ys, r')"
proof (induction fs arbitrary: r xs)
  case (Cons f fs)
  obtain x xs' where xs: "xs = x # xs'" using Cons(3) by (cases xs) auto
  obtain r1 where r1: "read_field env f r = Inr (x, r1)" "read_fields env (fs @ gs) r1 = Inr (xs' @ ys, r')"
    using Cons(2) by (auto simp: xs bind_p_Inr return_p_def)
  show ?case using Cons(1) [OF r1(2)] Cons(3) r1(1) by (auto simp: xs bind_p_def return_p_def)
qed (simp add: return_p_def)

lemma read_property_fields: "read_fields env (property_fields p) r = Inr (property_fields p, r') \<Longrightarrow> read_property env r = Inr (p, r')"
  by (cases "pp_signature p") (auto simp: property_fields_def read_property_def bind_p_def return_p_def bind_r_def split: sum.splits)

lemma read_properties_fields:
  "read_fields env (concat (map property_fields ps)) r = Inr (concat (map property_fields ps), r') \<Longrightarrow> read_properties env (length ps) r = Inr (ps, r')"
proof (induction ps arbitrary: r)
  case (Cons p ps)
  obtain r1 where "read_fields env (property_fields p) r = Inr (property_fields p, r1)"
    "read_fields env (concat (map property_fields ps)) r1 = Inr (concat (map property_fields ps), r')"
    using read_fields_append Cons(2) by fastforce
  then show ?case using Cons(1) read_property_fields by (auto simp: bind_p_def return_p_def)
qed (simp add: return_p_def)

lemma length_group_by_name: "length (group_by_name ps) = length ps"
  by (metis group_by_name_mset size_mset)

lemma read_finished_fields:
  assumes "read_fields env (finished_fields profile sid) r = Inr (finished_fields profile sid, r')" "length (ap_properties profile) \<le> 16"
  shows "read_finished env r = Inr ((2, profile\<lparr>ap_properties := group_by_name (ap_properties profile)\<rparr>, sid), r')"
proof -
  let ?a = "[F_varint 2, F_uuid (ap_id profile), F_utf 16 (ap_name profile), F_varint (of_nat (length (ap_properties profile)))]"
  let ?b = "concat (map property_fields (group_by_name (ap_properties profile)))"
  obtain r1 where r1: "read_fields env ?a r = Inr (?a, r1)" "read_fields env (?b @ [F_uuid sid]) r1 = Inr (?b @ [F_uuid sid], r')"
    using read_fields_append [of env ?a "?b @ [F_uuid sid]" r ?a "?b @ [F_uuid sid]" r'] assms(1) unfolding finished_fields_def by auto
  obtain r2 where r2: "read_fields env ?b r1 = Inr (?b, r2)" "read_fields env [F_uuid sid] r2 = Inr ([F_uuid sid], r')"
    using read_fields_append [OF r1(2)] by blast
  have "unat (of_nat (length (ap_properties profile)) :: u32) = length (group_by_name (ap_properties profile))"
    using assms(2) by (simp add: length_group_by_name unat_of_nat)
  then show ?thesis using r1(1) read_properties_fields [OF r2(1)] r2(2)
    by (auto simp: read_finished_def bind_p_def return_p_def bind_r_def split: sum.splits)
qed

definition profile_ok :: "AuthenticatedProfile \<Rightarrow> bool" where
  "profile_ok profile \<longleftrightarrow> length (ap_id profile) = 16 \<and> is_str (ap_name profile) \<and>
    (\<forall>p \<in> set (ap_properties profile). is_str (pp_name p) \<and> is_str (pp_value p) \<and> (case pp_signature p of None \<Rightarrow> True | Some g \<Rightarrow> is_str g))"

lemma set_group_by_name: "set (group_by_name ps) = set ps"
  by (metis group_by_name_mset set_mset_mset)

lemma finished_fields_ok: "profile_ok profile \<Longrightarrow> length sid = 16 \<Longrightarrow> list_all field_ok (finished_fields profile sid)"
  by (auto simp: finished_fields_def profile_ok_def property_fields_def set_group_by_name list_all_iff split: option.splits)

lemma finished_fields_canonical: "map canonical_field (finished_fields profile sid) = finished_fields profile sid"
  by (auto simp: finished_fields_def property_fields_def map_concat comp_def split: option.splits intro!: arg_cong [where f = concat])

section \<open>An example\<close>

definition sample_profile :: AuthenticatedProfile where
  "sample_profile = \<lparr>ap_id = replicate 16 0, ap_name = [98],
    ap_properties = [\<lparr>pp_name = [97], pp_value = [], pp_signature = None\<rparr>, \<lparr>pp_name = [98], pp_value = [], pp_signature = None\<rparr>,
      \<lparr>pp_name = [97], pp_value = [99], pp_signature = Some [98]\<rparr>]\<rparr>"

definition sample_calls :: "login_call list" where
  "sample_calls = [LC_Tick, LC_Hello [98], LC_BeginKey, LC_Offline sample_profile, LC_KeyVerified, LC_Tick, LC_Authenticated sample_profile,
    LC_Admitted [9] True, LC_BeginFinished, LC_DuplicateRemoved, LC_BeginFinished, LC_FinishedWritten, LC_Acknowledge, LC_Acknowledge]"

section \<open>Properties\<close>

text \<open>
  C9: A login is accepted only at the end of the handshake. Whatever calls are made on a new session, when
  one of them gave an acceptance, the calls that succeeded (ticks and closing aside) are, in this order and
  each exactly once: a valid name, either the three calls of online authentication or the offline
  profile, admission, the removal of the duplicate exactly when one was pending, the two ends of the
  finished write, and the acknowledgement. The acceptance carries the profile and the session that those
  calls supplied and the transfer flag of the connection.
\<close>

theorem login_accepted_after_handshake:
  assumes "accepted_as (login_calls transferred cs) a"
  shows "\<exists>name dup opening. valid_name name \<and> la_transferred a = transferred \<and>
    opening \<in> {[LC_BeginKey, LC_KeyVerified, LC_Authenticated (la_profile a)], [LC_Offline (la_profile a)]} \<and>
    handshake_of (lr_log (login_calls transferred cs)) =
      [LC_Hello name] @ opening @ [LC_Admitted (la_session_id a) dup] @ (if dup then [LC_DuplicateRemoved] else []) @
      [LC_BeginFinished, LC_FinishedWritten, LC_Acknowledge]"
proof -
  obtain ph p i where f: "follows transferred (login_calls transferred cs) ph p i" using login_follows by blast
  then have "handshake (handshake_of (lr_log (login_calls transferred cs))) PhaseAccepted (Some (la_profile a)) (Some (la_session_id a))" "la_transferred a = transferred"
    using assms by (auto simp: follows_def)
  then show ?thesis using handshake_shape by fastforce
qed

theorem login_accepted_after_handshake_witness:
  "accepted_as (login_calls True sample_calls) \<lparr>la_profile = sample_profile, la_session_id = [9], la_transferred = True\<rparr> \<and>
    (\<exists>name dup opening. valid_name name \<and>
      opening \<in> {[LC_BeginKey, LC_KeyVerified, LC_Authenticated sample_profile], [LC_Offline sample_profile]} \<and>
      handshake_of (lr_log (login_calls True sample_calls)) =
        [LC_Hello name] @ opening @ [LC_Admitted [9] dup] @ (if dup then [LC_DuplicateRemoved] else []) @ [LC_BeginFinished, LC_FinishedWritten, LC_Acknowledge])"
proof -
  have a: "accepted_as (login_calls True sample_calls) \<lparr>la_profile = sample_profile, la_session_id = [9], la_transferred = True\<rparr>"
    by (simp add: accepted_as_def login_calls_def sample_calls_def lr_call_def login_new_def valid_name_def str_bytes_def utf8_encode_char_def login_op_defs)
  show ?thesis using a login_accepted_after_handshake [OF a] by simp
qed

text \<open>
  C18: Until it is accepted, a login has exactly 600 ticks. Whatever calls are made, at most 600 ticks
  succeed, and as long as the session is open the next tick succeeds when fewer than 600 have and otherwise
  fails and closes the session.
\<close>

theorem login_tick_limit:
  assumes "\<And>a. \<not> accepted_as (login_calls transferred cs) a" "s = lr_session (login_calls transferred cs)" "n = tick_count (lr_log (login_calls transferred cs))"
  shows "n \<le> 600 \<and> (ls_phase s \<noteq> PhaseClosed \<longrightarrow>
    login_tick s = (if n < 600 then (Inr (), s\<lparr>ls_ticks := ls_ticks s + 1\<rparr>) else (Inl SlowLogin, login_close s)))"
proof -
  have t: "ls_phase s \<noteq> PhaseAccepted" "unat (ls_ticks s) = n" "n \<le> 600" using ticks_counted [of transferred cs] assms by auto
  have "ls_ticks s = 600 \<longleftrightarrow> n = 600" unfolding word_unat_eq_iff t(2) by simp
  then show ?thesis using t(1,3) by (auto simp: login_tick_def)
qed

theorem login_tick_limit_witness:
  "(3 :: nat) \<le> 600 \<and> login_tick (lr_session (login_calls False [LC_Tick, LC_Tick, LC_Hello [], LC_Tick])) =
    (Inr (), (lr_session (login_calls False [LC_Tick, LC_Tick, LC_Hello [], LC_Tick]))\<lparr>ls_ticks := 4\<rparr>)"
proof -
  let ?run = "login_calls False [LC_Tick, LC_Tick, LC_Hello [], LC_Tick]"
  have none: "\<And>a. \<not> accepted_as ?run a" and n: "3 = tick_count (lr_log ?run)" and s: "ls_phase (lr_session ?run) = PhaseKey" "ls_ticks (lr_session ?run) = 3"
    by (simp_all add: accepted_as_def tick_count_def login_calls_def lr_call_def login_new_def valid_name_def str_bytes_def login_op_defs)
  show ?thesis using login_tick_limit [OF none refl n] s by simp
qed

text \<open>
  C14: The finished packet, when it is written, stays within its limit and is read back by a client, to its
  last byte, as the profile with its properties in the order of a multimap grouped by first-seen name, and
  the session; grouping loses and doubles no property.
\<close>

theorem login_finished_read_back:
  assumes "reserve_sound env" "infallible env" "max_bytes \<le> USIZE_MAX" "profile_ok profile" "length sid = 16"
    "login_finished env profile sid max_bytes = Inr bytes"
  shows "length bytes \<le> max_bytes \<and> mset (group_by_name (ap_properties profile)) = mset (ap_properties profile) \<and>
    (\<exists>r. read_finished env (reader_new bytes) = Inr ((2, profile\<lparr>ap_properties := group_by_name (ap_properties profile)\<rparr>, sid), r) \<and> pr_finish r = Inr ())"
proof -
  obtain w where w: "length (ap_properties profile) \<le> 16" "write_fields env (finished_fields profile sid) (writer_new max_bytes) = (Inr (), w)" "bytes = pw_output w"
    using assms(6) by (auto simp: login_finished_fields split: if_splits prod.splits sum.splits)
  note read_back = write_fields_read_back [OF assms(1-3) finished_fields_ok [OF assms(4,5)] w(2), unfolded finished_fields_canonical]
  then show ?thesis using read_finished_fields [OF _ w(1)] w(3) by (auto simp: group_by_name_mset)
qed

theorem login_finished_read_back_witness:
  "\<exists>bytes. login_finished plain_env sample_profile (replicate 16 7) 200 = Inr bytes \<and> length bytes \<le> 200 \<and>
    mset (group_by_name (ap_properties sample_profile)) = mset (ap_properties sample_profile) \<and>
    (\<exists>r. read_finished plain_env (reader_new bytes) =
      Inr ((2, sample_profile\<lparr>ap_properties := group_by_name (ap_properties sample_profile)\<rparr>, replicate 16 7), r) \<and> pr_finish r = Inr ())"
proof -
  have env: "reserve_sound plain_env" "infallible plain_env" by (simp_all add: reserve_sound_def infallible_def plain_env_def)
  have ok: "profile_ok sample_profile" by (simp add: profile_ok_def sample_profile_def is_str_def is_scalar_def)
  have varints: "encode_varint 0 = [0]" "encode_varint 1 = [1]" "encode_varint 2 = [2]" "encode_varint 3 = [3]" "varint_len 0 = 1" "varint_len 1 = 1"
    by code_simp+
  obtain bytes where b: "login_finished plain_env sample_profile (replicate 16 7) 200 = Inr bytes"
    by (simp add: login_finished_fields finished_fields_def property_fields_def sample_profile_def then_w_def pw_boolean_def pw_unsigned_byte_def pw_uuid_def
        pw_varint_def pw_raw_def pw_reserve_def pw_extend_def writer_new_def check_w_def check_length_def checked_add_def checked_mul_def USIZE_MAX_def
        plain_env_def pw_utf_def pw_bytes_def pw_length_prefix_def varints str_bytes_def utf8_encode_char_def utf16_len_def Let_def)
  show ?thesis using b login_finished_read_back [OF env _ ok _ b] by (simp add: USIZE_MAX_def)
qed

end
