(* ===== verification/Population.thy ===== *)
theory Population
  imports Wire
begin

text \<open>
  \<^verbatim>\<open>src/server/population.rs\<close>: admission of connections and the session UUID they share. Each method holds
  the lock for its whole body, so the calls of all threads are one sequence of operations on the state.
  The random UUID is an argument of the operation that draws it.
\<close>

section \<open>Operations\<close>

record PopulationState =
  ps_limit :: nat
  ps_active :: nat
  ps_next_id :: u64
  ps_session_uuid :: "byte list option"

datatype IoError = InvalidInput string | OtherError string

definition population_new :: "nat \<Rightarrow> IoError + PopulationState" where
  "population_new limit =
    (if limit = 0 then Inl (InvalidInput ''connection limit must be nonzero'')
     else Inr \<lparr>ps_limit = limit, ps_active = 0, ps_next_id = 0, ps_session_uuid = None\<rparr>)"

text \<open>A lease is its identity; the other field is the shared state.\<close>

definition try_admit :: "PopulationState \<Rightarrow> (IoError + u64 option) \<times> PopulationState" where
  "try_admit s =
    (if ps_active s = ps_limit s then (Inr None, s)
     else if ps_next_id s = - 1 then (Inl (OtherError ''connection identities exhausted''), s)
     else let i = ps_next_id s + 1 in (Inr (Some i), s\<lparr>ps_next_id := i, ps_active := ps_active s + 1\<rparr>))"

definition maintain :: "PopulationState \<Rightarrow> PopulationState" where
  "maintain s = (if ps_active s = 0 then s\<lparr>ps_session_uuid := None\<rparr> else s)"

definition session_uuid :: "IoError + byte list \<Rightarrow> PopulationState \<Rightarrow> (IoError + byte list) \<times> PopulationState" where
  "session_uuid random_uuid s =
    (case ps_session_uuid s of
       Some uuid \<Rightarrow> (Inr uuid, s)
     | None \<Rightarrow>
         (case random_uuid of
            Inl e \<Rightarrow> (Inl e, s)
          | Inr uuid \<Rightarrow> (Inr uuid, s\<lparr>ps_session_uuid := Some uuid\<rparr>)))"

text \<open>Dropping a lease; \<open>None\<close> is the underflow of the counter.\<close>

definition lease_drop :: "PopulationState \<Rightarrow> PopulationState option" where
  "lease_drop s = (if ps_active s = 0 then None else Some (s\<lparr>ps_active := ps_active s - 1\<rparr>))"

section \<open>Sequences of calls\<close>

text \<open>
  The owners of leases beside the state: the live leases, every identity ever issued, and the UUIDs given out
  since the last maintenance without connections. Only a live lease can be dropped or asked for the UUID, and a lease is
  dropped once; a call on any other identity does not exist and is skipped.
\<close>

datatype population_call = PC_Admit | PC_Maintain | PC_Uuid u64 "IoError + byte list" | PC_Drop u64

record population =
  pop_state :: PopulationState
  pop_live :: "u64 list"
  pop_issued :: "u64 list"
  pop_uuids :: "byte list list"

definition pop_call :: "population_call \<Rightarrow> population \<Rightarrow> population option" where
  "pop_call c p =
    (case c of
       PC_Admit \<Rightarrow>
         (case try_admit (pop_state p) of
            (Inr (Some i), s) \<Rightarrow> Some (p\<lparr>pop_state := s, pop_live := pop_live p @ [i], pop_issued := pop_issued p @ [i]\<rparr>)
          | (result, s) \<Rightarrow> Some (p\<lparr>pop_state := s\<rparr>))
     | PC_Maintain \<Rightarrow> Some (p\<lparr>pop_state := maintain (pop_state p), pop_uuids := if pop_live p = [] then [] else pop_uuids p\<rparr>)
     | PC_Uuid i random \<Rightarrow>
         if i \<in> set (pop_live p)
         then (case session_uuid random (pop_state p) of
             (Inl e, s) \<Rightarrow> Some (p\<lparr>pop_state := s\<rparr>)
           | (Inr uuid, s) \<Rightarrow> Some (p\<lparr>pop_state := s, pop_uuids := pop_uuids p @ [uuid]\<rparr>))
         else Some p
     | PC_Drop i \<Rightarrow>
         if i \<in> set (pop_live p)
         then map_option (\<lambda>s. p\<lparr>pop_state := s, pop_live := removeAll i (pop_live p)\<rparr>) (lease_drop (pop_state p))
         else Some p)"

fun pop_calls :: "population_call list \<Rightarrow> population \<Rightarrow> population option" where
  "pop_calls [] p = Some p"
| "pop_calls (c # cs) p = Option.bind (pop_call c p) (pop_calls cs)"

definition pop_new :: "PopulationState \<Rightarrow> population" where
  "pop_new s = \<lparr>pop_state = s, pop_live = [], pop_issued = [], pop_uuids = []\<rparr>"

section \<open>Invariant\<close>

text \<open>The identities are the numbers from one on.\<close>

definition issued_upto :: "nat \<Rightarrow> u64 list" where
  "issued_upto n = map of_nat [1..<Suc n]"

lemma issued_upto_Suc: "issued_upto (Suc n) = issued_upto n @ [of_nat (Suc n)]"
  by (simp add: issued_upto_def)

lemma issued_upto_bound: "n < 2 ^ 64 \<Longrightarrow> i \<in> set (issued_upto n) \<Longrightarrow> unat i \<le> n"
  by (auto simp: issued_upto_def unat_of_nat take_bit_nat_eq_self simp del: upt_Suc)

lemma issued_upto_distinct: "n < 2 ^ 64 \<Longrightarrow> distinct (issued_upto n)"
  unfolding issued_upto_def distinct_map
  by (auto simp: inj_on_def word_of_nat_eq_iff take_bit_nat_eq_self simp del: upt_Suc)

lemma unat_bound64: "unat (i :: u64) < 2 ^ 64"
  using unsigned_less [of i] by simp

lemma unat_all_ones: "unat (- 1 :: u64) = 2 ^ 64 - 1"
  by (simp add: unsigned_minus_1_eq_mask mask_eq_exp_minus_1)

definition population_inv :: "nat \<Rightarrow> population \<Rightarrow> bool" where
  "population_inv limit p \<longleftrightarrow>
    ps_limit (pop_state p) = limit \<and> ps_active (pop_state p) = length (pop_live p) \<and> length (pop_live p) \<le> limit \<and>
    distinct (pop_live p) \<and> set (pop_live p) \<subseteq> set (pop_issued p) \<and> pop_issued p = issued_upto (unat (ps_next_id (pop_state p))) \<and>
    (\<forall>u \<in> set (pop_uuids p). ps_session_uuid (pop_state p) = Some u)"

lemma next_identity:
  assumes "i \<noteq> - 1"
  shows "issued_upto (unat (i + 1)) = issued_upto (unat i) @ [i + 1]" "i + 1 \<notin> set (issued_upto (unat i))"
proof -
  have "1 + i \<noteq> 0" using assms by (metis add_eq_0_iff)
  then have u: "unat (i + 1) = Suc (unat i)" using unatSuc [of i] by (simp add: add.commute)
  then have "of_nat (Suc (unat i)) = i + 1" by (simp add: add.commute)
  then show "issued_upto (unat (i + 1)) = issued_upto (unat i) @ [i + 1]" by (simp add: u issued_upto_Suc)
  show "i + 1 \<notin> set (issued_upto (unat i))" using issued_upto_bound [OF unat_bound64 [of i]] u by fastforce
qed

lemma population_inv_call:
  assumes "population_inv limit p"
  shows "\<exists>p'. pop_call c p = Some p' \<and> population_inv limit p'"
proof (cases c)
  case PC_Admit
  show ?thesis
  proof (cases "ps_active (pop_state p) \<noteq> ps_limit (pop_state p) \<and> ps_next_id (pop_state p) \<noteq> - 1")
    case True
    then show ?thesis using assms PC_Admit next_identity [of "ps_next_id (pop_state p)"]
      by (auto simp: pop_call_def try_admit_def population_inv_def Let_def)
  next
    case False
    then have "pop_call c p = Some p" using PC_Admit by (auto simp: pop_call_def try_admit_def)
    then show ?thesis using assms by blast
  qed
next
  case PC_Maintain
  then show ?thesis using assms by (auto simp: pop_call_def maintain_def population_inv_def)
next
  case (PC_Uuid i random)
  then show ?thesis using assms by (auto simp: pop_call_def session_uuid_def population_inv_def split: option.splits sum.splits)
next
  case (PC_Drop i)
  have "length (removeAll i (pop_live p)) = length (pop_live p) - 1" "0 < length (pop_live p)" if "i \<in> set (pop_live p)"
    using that assms by (auto simp: population_inv_def distinct_remove1_removeAll [symmetric] length_remove1)
  then show ?thesis using assms PC_Drop by (auto simp: pop_call_def lease_drop_def population_inv_def distinct_removeAll)
qed

lemma population_inv_calls: "population_inv limit p \<Longrightarrow> \<exists>p'. pop_calls cs p = Some p' \<and> population_inv limit p'"
proof (induction cs arbitrary: p)
  case (Cons c cs)
  obtain p1 where "pop_call c p = Some p1" "population_inv limit p1" using population_inv_call [OF Cons(2)] by blast
  then show ?case using Cons(1) by simp
qed simp

section \<open>Properties\<close>

text \<open>
  C15: Whatever the calls and their order, no counter underflows, the count of active connections is the
  number of live leases and within the limit, every lease ever issued has its own identity, all UUIDs given
  out are the same one until a maintenance finds no connection, and a connection is refused exactly when
  the limit is reached or, with an error, when all identities are used up.
\<close>

theorem population_accounts_for_leases:
  assumes "population_new limit = Inr s"
  shows "\<exists>p. pop_calls cs (pop_new s) = Some p \<and>
    ps_active (pop_state p) = length (pop_live p) \<and> length (pop_live p) \<le> limit \<and> distinct (pop_live p) \<and>
    set (pop_live p) \<subseteq> set (pop_issued p) \<and> distinct (pop_issued p) \<and>
    (\<forall>u \<in> set (pop_uuids p). \<forall>v \<in> set (pop_uuids p). u = v) \<and>
    (fst (try_admit (pop_state p)) = Inr None \<longleftrightarrow> length (pop_live p) = limit) \<and>
    (\<forall>i. fst (try_admit (pop_state p)) = Inr (Some i) \<longrightarrow> i \<notin> set (pop_issued p)) \<and>
    (length (pop_issued p) < 2 ^ 64 - 1 \<longrightarrow> (\<forall>e. fst (try_admit (pop_state p)) \<noteq> Inl e))"
proof -
  have "population_inv limit (pop_new s)" using assms by (auto simp: population_inv_def pop_new_def population_new_def issued_upto_def split: if_splits)
  then obtain p where p: "pop_calls cs (pop_new s) = Some p" "population_inv limit p" using population_inv_calls by blast
  note inv = p(2) [unfolded population_inv_def]
  let ?i = "ps_next_id (pop_state p)"
  have d: "distinct (pop_issued p)" using inv issued_upto_distinct [OF unat_bound64 [of ?i]] by simp
  have l: "length (pop_issued p) = unat ?i" using inv by (simp add: issued_upto_def del: upt_Suc)
  have last: "length (pop_issued p) < 2 ^ 64 - 1 \<Longrightarrow> ?i \<noteq> - 1" using l unat_all_ones by auto
  have same: "\<forall>u \<in> set (pop_uuids p). \<forall>v \<in> set (pop_uuids p). u = v" using inv by (metis option.inject)
  show ?thesis using p(1) inv d same last next_identity(2) [of ?i] by (auto simp: try_admit_def Let_def split: if_splits)
qed

theorem population_accounts_for_leases_witness:
  "population_new 1 = Inr \<lparr>ps_limit = 1, ps_active = 0, ps_next_id = 0, ps_session_uuid = None\<rparr> \<and>
    (\<exists>p. pop_calls [PC_Admit, PC_Uuid 1 (Inr [7]), PC_Admit, PC_Drop 1, PC_Admit] (pop_new \<lparr>ps_limit = 1, ps_active = 0, ps_next_id = 0, ps_session_uuid = None\<rparr>) = Some p \<and>
      ps_active (pop_state p) = length (pop_live p) \<and> length (pop_live p) \<le> 1 \<and> distinct (pop_issued p))"
proof -
  have n: "population_new 1 = Inr \<lparr>ps_limit = 1, ps_active = 0, ps_next_id = 0, ps_session_uuid = None\<rparr>" by (simp add: population_new_def)
  show ?thesis using n population_accounts_for_leases [OF n] by blast
qed

end
