(* ===== verification/Spec2Isabelle.thy ===== *)
theory Spec2Isabelle
  imports Wire NbtRoundTrip NbtSize NbtCompareLoop SectionWire View TickOwnerProps LightChecks
    HeightMapStored ConfigProps LoginLaws Population
begin

text \<open>
  Arrow-MC is a Minecraft server written in Rust. Its crate \<^verbatim>\<open>src/\<close> is a set of bounded, mostly
  allocation-free owners of state with asynchronous drivers around them. This library models the
  owners and codecs of the core and proves what the rest of the server relies on. Every theory opens
  with a note on what it holds; this header says how they fit together.

  \<^bold>\<open>The parts and their theories\<close>

  \<^item> \<^verbatim>\<open>wire/mod.rs\<close> -- \<^theory_text>\<open>Wire\<close>. VarInt and VarLong. One locale \<open>var_codec\<close> carries the lemmas for both
    widths; the two codecs are interpretations of it. Round trip, exact errors, untouched tail.
  \<^item> \<^verbatim>\<open>nbt/mod.rs\<close> -- \<^theory_text>\<open>Nbt\<close>. Tags, limits, errors, and the sorted-vector \<open>Compound\<close>, which is shown to
    be a finite map (locale \<open>keyed_map\<close>, interpreted on the compound operations).
  \<^item> \<^verbatim>\<open>nbt/read.rs\<close> -- \<^theory_text>\<open>NbtRead\<close>. The reader with its depth, quota and allocation accounting: no input
    makes it exceed a limit, and it consumes a prefix.
  \<^item> \<^verbatim>\<open>nbt/write.rs\<close> -- \<^theory_text>\<open>NbtWrite\<close>. The writer and its truncation on error. \<^theory_text>\<open>NbtRoundTrip\<close> composes the
    two: what is written is read back, list wrappers and float canonicalisation included.
  \<^item> \<^verbatim>\<open>nbt/size.rs\<close> -- \<^theory_text>\<open>NbtSize\<close>. The iterative length computation with its frame stack agrees with the
    recursive writer.
  \<^item> \<^verbatim>\<open>nbt/predicate.rs\<close> -- \<^theory_text>\<open>NbtPredicate\<close> (the comparison of tags with its frame stack and budget),
    \<^theory_text>\<open>NbtCompare\<close> (the recursive specification \<open>matches\<close>, its cost and the stack it needs) and
    \<^theory_text>\<open>NbtCompareLoop\<close>: the loop answers what the specification says or reports a limit it really reached.
  \<^item> \<^verbatim>\<open>world/section/packed.rs\<close> -- \<^theory_text>\<open>PackedStorage\<close>. Values of 1 to 31 bits in 64-bit words refine a list
    (locale \<open>small_array\<close>).
  \<^item> \<^verbatim>\<open>world/section.rs\<close> -- \<^theory_text>\<open>Palette\<close> (the palette scratch table), \<^theory_text>\<open>SectionData\<close> (registries, containers,
    sections: the definitions), \<^theory_text>\<open>SectionContainer\<close> (the dense list a container stands for and the laws of
    get, set, growth and repacking), \<^theory_text>\<open>SectionWire\<close> (network form, round trip, the fixed-array encoder).
  \<^item> \<^verbatim>\<open>world/view.rs\<close> -- \<^theory_text>\<open>View\<close>. Chunk views, their resumable difference, and the \<open>PlayerView\<close> owner as a
    step relation whose reachable states keep the client in step.
  \<^item> \<^verbatim>\<open>world/ticks.rs\<close> -- \<^theory_text>\<open>TickData\<close> (positions, areas, priorities, order, packed chunk key, budgeted
    reservation) and \<^theory_text>\<open>TickIdentities\<close> (the open-addressed identity set, locale \<open>bounded_set\<close>).
  \<^item> \<^verbatim>\<open>world/ticks/heap.rs\<close> -- \<^theory_text>\<open>TickHeap\<close> (definitions), \<^theory_text>\<open>TickHeapLaws\<close> (locale \<open>heap_entry\<close>: what a heap
    needs of the trait method \<open>precedes\<close>), \<^theory_text>\<open>TickRevisits\<close> and \<^theory_text>\<open>TickRemoval\<close> (\<open>remove_if\<close> visits each entry once).
  \<^item> \<^verbatim>\<open>world/ticks/remaining.rs\<close> -- \<^theory_text>\<open>TickRemaining\<close>. Counts of identities refine a multiset.
  \<^item> \<^verbatim>\<open>world/ticks/order_index.rs\<close> -- \<^theory_text>\<open>TickIndex\<close> (definitions), \<^theory_text>\<open>TickIndexLaws\<close>, \<^theory_text>\<open>TickIndexRemoval\<close>, \<^theory_text>\<open>TickScan\<close>,
    \<^theory_text>\<open>TickIndexProps\<close> (a finite map; a scan visits each entry once, locale \<open>scanned_map\<close>).
  \<^item> \<^verbatim>\<open>world/ticks.rs\<close>, \<open>ScheduledTickOwner\<close> -- \<^theory_text>\<open>TickOwner\<close> and \<^theory_text>\<open>TickAreas\<close> (the definitions), on top of the
    heaps, identity tables, counters and indexes above. \<^theory_text>\<open>TickOwnerInv\<close> states the invariant \<open>owner_ok\<close>;
    \<^theory_text>\<open>TickOwnerQueues\<close>, \<^theory_text>\<open>TickOwnerLaws\<close>, \<^theory_text>\<open>TickOwnerPush\<close> and \<^theory_text>\<open>TickOwnerChunks\<close> keep it through queues,
    scheduling, unpacking, registration and loading; \<^theory_text>\<open>TickOwnerScratch\<close> through working memory, packing
    and construction; \<^theory_text>\<open>TickPhaseOps\<close>, \<^theory_text>\<open>TickCollect\<close>, \<^theory_text>\<open>TickSelect\<close>, \<^theory_text>\<open>TickPhase\<close> through a phase; \<^theory_text>\<open>TickClear\<close>
    and \<^theory_text>\<open>TickCopy\<close> through the area operations. \<^theory_text>\<open>TickOwnerRuns\<close> makes a run of calls of them, and
    \<^theory_text>\<open>TickOwnerProps\<close> has the properties: no run of calls panics, a phase selects what is due and runs to
    its end, saved ticks come back, and scheduling, clearing and copying do exactly what they report.
  \<^item> \<^verbatim>\<open>world/lighting/mod.rs\<close>, \<^verbatim>\<open>layer.rs\<close>, \<^verbatim>\<open>queue.rs\<close> -- \<^theory_text>\<open>LightLayer\<close>, \<^theory_text>\<open>LightQueue\<close> (locale \<open>bounded_queue\<close>) and
    \<^theory_text>\<open>LightChecks\<close>.

  \<^item> \<^verbatim>\<open>world/heightmap.rs\<close>, with the registry flags of \<^verbatim>\<open>world/storage/registry.rs\<close> -- \<^theory_text>\<open>HeightMap\<close> (the
    definitions, on \<^theory_text>\<open>SectionData\<close> and NBT compounds), \<^theory_text>\<open>HeightMapLaws\<close> (packed heights as a function of the
    column) and \<^theory_text>\<open>HeightMapStored\<close>: priming, updating and rebuilding a stored set give the height above the
    highest opaque block.
  \<^item> \<^verbatim>\<open>server/packet.rs\<close> -- \<^theory_text>\<open>Utf8\<close> (UTF-8 of the standard library and the replacement of malformed bytes
    the way Java does it), \<^theory_text>\<open>PacketFields\<close> (reader and writer) and \<^theory_text>\<open>PacketLaws\<close>: the locale \<open>field_codec\<close> is the
    contract between a writer and a reader of a field, interpreted on ten kinds of fields; sequences of
    fields are read back, and the allocation-free comparison of strings is decoding.
  \<^item> \<^verbatim>\<open>server/configuration\<close> and the published part of \<^verbatim>\<open>server/configuration_data.rs\<close> -- \<^theory_text>\<open>ConfigPacket\<close> (packets),
    \<^theory_text>\<open>ConfigLaws\<close> (a decoded known-pack response can be compared), \<^theory_text>\<open>ConfigSession\<close> (the session, runs of calls
    and their invariant) and \<^theory_text>\<open>ConfigProps\<close>: order of publication, errors close, a client that answers is
    configured.
  \<^item> \<^verbatim>\<open>server/login\<close> -- \<^theory_text>\<open>Login\<close> (packets, profile, session) and \<^theory_text>\<open>LoginLaws\<close>: the session follows the handshake, an
    inductive relation; the tick limit; the finished packet on the client's side.
  \<^item> \<^verbatim>\<open>server/population.rs\<close> -- \<^theory_text>\<open>Population\<close>. Admission, leases and the shared UUID under any sequence of calls.

  \<^theory_text>\<open>Prelude\<close> has the machine types, \<open>Result\<close> as a sum with its sequencing operator, checked \<open>usize\<close>
  arithmetic and byte encodings. \<^theory_text>\<open>Probing\<close> has linear probing once, for the four hash tables of the
  program.

  \<^bold>\<open>Modelling choices\<close>

  \<^item> Structs are records, enums datatypes. \<open>u8\<close> to \<open>u64\<close> that are combined bitwise are words; \<open>usize\<close> is a
    natural number with checked operations (a plain \<open>-\<close> that underflows is a panic); \<open>i32\<close> and \<open>i64\<close> are
    integers with the wrap-around written out (\<open>wrap_i32\<close>, \<open>wrap_i64\<close>).
  \<^item> An operation on \<open>&mut self\<close> takes the record and returns it updated. Errors are values: \<open>Inl e\<close> of a
    result, beside the state when the source leaves it changed. \<open>None\<close> is a panic, a failed assertion
    (debug assertions included) or a loop that does not end; theorems about an operation say that it is not
    returned.
  \<^item> The allocator is a parameter: \<open>alloc_env\<close> for NBT, \<open>tick_env\<close> for the ticks, the argument \<open>reserve\<close>
    elsewhere. It gives the capacity a reservation gets, or that it fails, and the hypotheses on it are what
    \<open>try_reserve_exact\<close> documents: at least what was asked for.
  \<^item> Hashers are seeded at run time, so the hash is an arbitrary function argument.
  \<^item> Recursion that is not structural carries a count. A probe gets one round of its table, after which the
    source's loop would repeat itself; a scan gets one step per entry and one for the end. The
    theorems show that the count is never used up in a well-formed state.

  \<^bold>\<open>Not modelled\<close>

  Display implementations; NBT paths and the SNBT text form, which rests on the
  float formatting of the standard library; authentication, encryption and compression, which call
  libraries; the JSON of the login disconnect and the loading of a configuration snapshot from data packs;
  sockets, threads and files with the asynchronous drivers around the sessions (\<^verbatim>\<open>runtime/\<close>,
  \<^verbatim>\<open>server/transport.rs\<close>, the drivers in \<^verbatim>\<open>server/login\<close> and \<^verbatim>\<open>server/configuration\<close>, \<^verbatim>\<open>world/storage\<close>); the
  constructors of heightmaps from a chunk being loaded; the light propagation engines over the queues and
  layers above; chunk loading and preparation.
\<close>

end
